(* ===== verification/Prelude.thy ===== *)
theory Prelude
  imports Complex_Main "HOL-Library.Word" "HOL-Library.Log_Nat"
begin

text \<open>
  Shared material of the development: Go's fixed-width integers as integers with the wrap-around
  written out, the binary search of Go's \<^verbatim>\<open>sort.Search\<close> that the array, object and file
  components call, and the list and option lemmas that several components use.
\<close>

section \<open>Collections of facts\<close>

named_theorems go_wrap \<open>rewriting of the wrap-around functions inside their range\<close>
named_theorems obj_inv \<open>preservation of component invariants\<close>

section \<open>Fixed-width integers\<close>

text \<open>
  \<open>wrap_u w i\<close> is Go's conversion to an unsigned \<open>w\<close>-bit integer, \<open>wrap_s w i\<close> the one to a
  signed \<open>w\<close>-bit integer; both keep the low \<open>w\<close> bits.
\<close>

definition wrap_u :: "nat \<Rightarrow> int \<Rightarrow> int" where
  "wrap_u w i = i mod 2 ^ w"

definition wrap_s :: "nat \<Rightarrow> int \<Rightarrow> int" where
  "wrap_s w i = (i + 2 ^ (w - 1)) mod 2 ^ w - 2 ^ (w - 1)"

abbreviation int8 :: "int \<Rightarrow> int" where "int8 \<equiv> wrap_s 8"
abbreviation int16 :: "int \<Rightarrow> int" where "int16 \<equiv> wrap_s 16"
abbreviation int32 :: "int \<Rightarrow> int" where "int32 \<equiv> wrap_s 32"
abbreviation int64 :: "int \<Rightarrow> int" where "int64 \<equiv> wrap_s 64"
abbreviation uint8 :: "int \<Rightarrow> int" where "uint8 \<equiv> wrap_u 8"
abbreviation uint16 :: "int \<Rightarrow> int" where "uint16 \<equiv> wrap_u 16"
abbreviation uint32 :: "int \<Rightarrow> int" where "uint32 \<equiv> wrap_u 32"
abbreviation uint64 :: "int \<Rightarrow> int" where "uint64 \<equiv> wrap_u 64"

definition is_int64 :: "int \<Rightarrow> bool" where
  "is_int64 i \<longleftrightarrow> - (2 ^ 63) \<le> i \<and> i < 2 ^ 63"

text \<open>Go's integer division and remainder truncate towards zero.\<close>

definition quo :: "int \<Rightarrow> int \<Rightarrow> int" where
  "quo a b = sgn a * sgn b * (\<bar>a\<bar> div \<bar>b\<bar>)"

definition rem :: "int \<Rightarrow> int \<Rightarrow> int" where
  "rem a b = a - b * quo a b"

lemma quo_nonneg: "0 \<le> a \<Longrightarrow> 0 < (b::int) \<Longrightarrow> quo a b = a div b"
  by (cases "a = 0") (simp_all add: quo_def)

lemma wrap_u_range: "0 \<le> wrap_u w i" "wrap_u w i < 2 ^ w"
  by (simp_all add: wrap_u_def)

lemma wrap_u_id [go_wrap]: "0 \<le> i \<Longrightarrow> i < 2 ^ w \<Longrightarrow> wrap_u w i = i"
  by (simp add: wrap_u_def)

lemma wrap_s_range: "0 < w \<Longrightarrow> - (2 ^ (w - 1)) \<le> wrap_s w i"
  "0 < w \<Longrightarrow> wrap_s w i < 2 ^ (w - 1)"
proof -
  assume w: "0 < w"
  have "0 \<le> (i + 2 ^ (w - 1)) mod 2 ^ w" by simp
  then show "- (2 ^ (w - 1)) \<le> wrap_s w i" unfolding wrap_s_def by linarith
  have "(i + 2 ^ (w - 1)) mod (2::int) ^ w < 2 ^ w" by simp
  moreover have "(2::int) ^ w = 2 * 2 ^ (w - 1)" using w by (simp flip: power_Suc)
  ultimately show "wrap_s w i < 2 ^ (w - 1)" unfolding wrap_s_def by linarith
qed

lemma wrap_s_id [go_wrap]:
  assumes "0 < w" "- (2 ^ (w - 1)) \<le> i" "i < 2 ^ (w - 1)"
  shows "wrap_s w i = i"
proof -
  have "(2::int) ^ w = 2 * 2 ^ (w - 1)" using assms(1) by (simp flip: power_Suc)
  with assms have "0 \<le> i + 2 ^ (w - 1)" "i + 2 ^ (w - 1) < 2 ^ w" by linarith+
  then show ?thesis by (simp add: wrap_s_def)
qed

lemma int64_id: "is_int64 i \<Longrightarrow> int64 i = i"
  by (rule wrap_s_id) (auto simp: is_int64_def)

lemma wrap_u_mod [simp]: "wrap_u w i mod 2 ^ w = wrap_u w i"
  by (simp add: wrap_u_def)

lemma wrap_s_cong: "wrap_s w i mod 2 ^ w = i mod 2 ^ w"
proof -
  have "wrap_s w i mod 2 ^ w = ((i + 2 ^ (w - 1)) mod 2 ^ w - 2 ^ (w - 1)) mod 2 ^ w"
    by (simp add: wrap_s_def)
  also have "\<dots> = (i + 2 ^ (w - 1) - 2 ^ (w - 1)) mod 2 ^ w" by (simp only: mod_diff_left_eq)
  finally show ?thesis by simp
qed

lemma quo_rem: "b * quo a b + rem a b = a"
  by (simp add: rem_def)

lemma abs_quo: "\<bar>quo a b\<bar> = \<bar>a\<bar> div \<bar>b\<bar>"
  by (cases "a = 0"; cases "b = 0") (auto simp: quo_def abs_mult pos_imp_zdiv_nonneg_iff)

lemma abs_rem_less: "b \<noteq> 0 \<Longrightarrow> \<bar>rem a b\<bar> < \<bar>b\<bar>"
proof -
  assume b: "b \<noteq> 0"
  have "rem a b = sgn a * (\<bar>a\<bar> mod \<bar>b\<bar>)"
  proof -
    have "b * quo a b = sgn a * (\<bar>b\<bar> * (\<bar>a\<bar> div \<bar>b\<bar>))"
      by (simp add: quo_def abs_sgn algebra_simps)
    moreover have "a = sgn a * \<bar>a\<bar>" by (simp add: sgn_mult_abs)
    ultimately have "rem a b = sgn a * \<bar>a\<bar> - sgn a * (\<bar>b\<bar> * (\<bar>a\<bar> div \<bar>b\<bar>))"
      unfolding rem_def by argo
    also have "\<dots> = sgn a * (\<bar>a\<bar> - \<bar>b\<bar> * (\<bar>a\<bar> div \<bar>b\<bar>))" by (simp add: right_diff_distrib)
    finally show ?thesis by (simp add: minus_mult_div_eq_mod)
  qed
  with b show ?thesis by (cases "a = 0") (auto simp: abs_mult)
qed

section \<open>Binary search\<close>

text \<open>
  Go's \<^verbatim>\<open>sort.Search(n, f)\<close>: the smallest index in \<open>[0, n)\<close> at which \<open>f\<close> holds, assuming that
  \<open>f\<close> does not go back from true to false; \<open>n\<close> if there is none. The loop halves \<open>[i, j)\<close>.
\<close>

function search_loop :: "(nat \<Rightarrow> bool) \<Rightarrow> nat \<Rightarrow> nat \<Rightarrow> nat" where
  "search_loop f i j =
     (if i < j
      then (let h = (i + j) div 2 in if \<not> f h then search_loop f (h + 1) j else search_loop f i h)
      else i)"
  by pat_completeness auto
termination
  by (relation "measure (\<lambda>(f, i, j). j - i)") (auto simp: Let_def)

declare search_loop.simps [simp del]

definition sort_Search :: "nat \<Rightarrow> (nat \<Rightarrow> bool) \<Rightarrow> nat" where
  "sort_Search n f = search_loop f 0 n"

definition mono_pred :: "nat \<Rightarrow> (nat \<Rightarrow> bool) \<Rightarrow> bool" where
  "mono_pred n f \<longleftrightarrow> (\<forall>a b. a \<le> b \<and> b < n \<and> f a \<longrightarrow> f b)"

lemma search_loop_correct:
  assumes "mono_pred n f" "i \<le> j" "j \<le> n"
    "\<forall>k < i. \<not> f k" "\<forall>k. j \<le> k \<and> k < n \<longrightarrow> f k"
  shows "i \<le> search_loop f i j \<and> search_loop f i j \<le> j \<and>
    (\<forall>k < search_loop f i j. \<not> f k) \<and> (\<forall>k. search_loop f i j \<le> k \<and> k < n \<longrightarrow> f k)"
  using assms
proof (induction f i j rule: search_loop.induct)
  case (1 f i j)
  show ?case
  proof (cases "i < j")
    case False
    with "1.prems" show ?thesis by (subst (1 2 3 4) search_loop.simps) auto
  next
    case True
    define h where "h = (i + j) div 2"
    have h: "i \<le> h" "h < j" using True by (auto simp: h_def)
    show ?thesis
    proof (cases "f h")
      case False
      have "\<forall>k < h + 1. \<not> f k"
      proof (intro allI impI)
        fix k assume "k < h + 1"
        then have "k \<le> h" by simp
        then show "\<not> f k"
          using False "1.prems"(1,3) h by (auto simp: mono_pred_def)
      qed
      with "1.IH"(1)[OF True h_def False] "1.prems" h
      have "h + 1 \<le> search_loop f (h + 1) j \<and> search_loop f (h + 1) j \<le> j \<and>
        (\<forall>k < search_loop f (h + 1) j. \<not> f k) \<and>
        (\<forall>k. search_loop f (h + 1) j \<le> k \<and> k < n \<longrightarrow> f k)" by simp
      moreover have "search_loop f i j = search_loop f (h + 1) j"
        using True False by (subst search_loop.simps) (simp add: h_def)
      ultimately show ?thesis using h by auto
    next
      case fh: True
      have "\<forall>k. h \<le> k \<and> k < n \<longrightarrow> f k"
        using fh "1.prems"(1) by (auto simp: mono_pred_def)
      with "1.IH"(2)[OF True h_def] fh "1.prems" h
      have "i \<le> search_loop f i h \<and> search_loop f i h \<le> h \<and>
        (\<forall>k < search_loop f i h. \<not> f k) \<and>
        (\<forall>k. search_loop f i h \<le> k \<and> k < n \<longrightarrow> f k)" by simp
      moreover have "search_loop f i j = search_loop f i h"
        using True fh by (subst search_loop.simps) (simp add: h_def)
      ultimately show ?thesis using h by auto
    qed
  qed
qed

lemma sort_Search_correct:
  assumes "mono_pred n f"
  shows "sort_Search n f \<le> n" "k < sort_Search n f \<Longrightarrow> \<not> f k"
    "sort_Search n f \<le> k \<Longrightarrow> k < n \<Longrightarrow> f k"
proof -
  have *: "sort_Search n f \<le> n \<and> (\<forall>k < sort_Search n f. \<not> f k) \<and>
      (\<forall>k. sort_Search n f \<le> k \<and> k < n \<longrightarrow> f k)"
    using search_loop_correct[OF assms le0 order_refl] unfolding sort_Search_def
    by (meson leD not_less_zero)
  then show "sort_Search n f \<le> n" by blast
  show "\<not> f k" if "k < sort_Search n f" using * that by blast
  show "f k" if "sort_Search n f \<le> k" "k < n" using * that by blast
qed

lemma sort_Search_unique:
  assumes "mono_pred n f" "m \<le> n" "\<And>k. k < m \<Longrightarrow> \<not> f k" "m < n \<Longrightarrow> f m"
  shows "sort_Search n f = m"
proof (rule ccontr)
  assume "sort_Search n f \<noteq> m"
  then consider "sort_Search n f < m" | "m < sort_Search n f" by linarith
  then show False
  proof cases
    case 1
    then show ?thesis
      using sort_Search_correct(3)[OF assms(1), of "sort_Search n f"] assms(2)
        assms(3)[of "sort_Search n f"] by linarith
  next
    case 2
    then show ?thesis
      using sort_Search_correct(1)[OF assms(1)] sort_Search_correct(2)[OF assms(1), of m] assms(4)
      by linarith
  qed
qed

section \<open>Lists\<close>

text \<open>Insertion at a position (\<^verbatim>\<open>append\<close> followed by \<^verbatim>\<open>copy(s[i+1:], s[i:])\<close>) and removal.\<close>

definition insert_at :: "nat \<Rightarrow> 'a \<Rightarrow> 'a list \<Rightarrow> 'a list" where
  "insert_at i x xs = take i xs @ x # drop i xs"

definition remove_at :: "nat \<Rightarrow> 'a list \<Rightarrow> 'a list" where
  "remove_at i xs = take i xs @ drop (Suc i) xs"

lemma length_insert_at [simp]: "i \<le> length xs \<Longrightarrow> length (insert_at i x xs) = Suc (length xs)"
  by (simp add: insert_at_def)

lemma length_remove_at [simp]: "i < length xs \<Longrightarrow> length (remove_at i xs) = length xs - 1"
  by (simp add: remove_at_def)

lemma set_insert_at [simp]: "set (insert_at i x xs) = insert x (set xs)"
  by (metis append_take_drop_id insert_at_def list.simps(15) set_append Un_insert_right)

lemma set_remove_at_subset: "set (remove_at i xs) \<subseteq> set xs"
  by (auto simp: remove_at_def dest: in_set_takeD in_set_dropD)

lemma map_insert_at: "map f (insert_at i x xs) = insert_at i (f x) (map f xs)"
  by (simp add: insert_at_def take_map drop_map)

lemma map_remove_at: "map f (remove_at i xs) = remove_at i (map f xs)"
  by (simp add: remove_at_def take_map drop_map)

lemma nth_take_drop_split: "i < length xs \<Longrightarrow> xs = take i xs @ xs ! i # drop (Suc i) xs"
  by (simp add: Cons_nth_drop_Suc)

end
