(* ===== verification/Float64.thy ===== *)
theory Float64
  imports Prelude
begin

text \<open>
  Go's \<^verbatim>\<open>float64\<close>: IEEE 754 binary64 as its 64 bits (so \<^verbatim>\<open>math.Float64bits\<close> is the
  identity), with the exact rational value of a finite number and the arithmetic that rounds the
  exact result to the nearest double, ties to even. Everything is executable. The component
  theories use it where the engine's integer fast paths have to agree with double arithmetic.
\<close>

type_synonym float64 = "64 word"

section \<open>Powers of two and binary logarithms of rationals\<close>

definition pow2 :: "int \<Rightarrow> rat" where
  "pow2 e = (if 0 \<le> e then 2 ^ nat e else 1 / 2 ^ nat (- e))"

definition ilog2 :: "rat \<Rightarrow> int" where
  "ilog2 q = (if 1 \<le> q then bitlen \<lfloor>q\<rfloor> - 1 else - bitlen (\<lceil>1 / q\<rceil> - 1))"

definition round_half_even :: "rat \<Rightarrow> int" where
  "round_half_even q =
     (let f = \<lfloor>q\<rfloor>; d = q - of_int f in
      if d < 1 / 2 then f else if 1 / 2 < d then f + 1 else if even f then f else f + 1)"

lemma pow2_powi: "pow2 e = 2 powi e"
  by (simp add: pow2_def power_int_def power_one_over inverse_eq_divide)

lemma pow2_pos [simp]: "0 < pow2 e"
  by (simp add: pow2_def)

lemma pow2_nonzero [simp]: "pow2 e \<noteq> 0"
  by (simp add: pow2_def)

lemma pow2_add: "pow2 (a + b) = pow2 a * pow2 b"
  by (simp add: pow2_powi power_int_add)

lemma pow2_diff: "pow2 (a - b) = pow2 a / pow2 b"
  by (simp add: pow2_powi power_int_diff)

lemma pow2_0 [simp]: "pow2 0 = 1"
  by (simp add: pow2_def)

lemma pow2_of_nat [simp]: "pow2 (int n) = 2 ^ n"
  by (simp add: pow2_def)

lemma pow2_numeral: "pow2 (numeral k) = 2 ^ numeral k"
  by (simp add: pow2_def)

lemma pow2_less: "a < b \<Longrightarrow> pow2 a < pow2 b"
  by (simp add: pow2_powi power_int_strict_increasing)

lemma pow2_less_iff [simp]: "pow2 a < pow2 b \<longleftrightarrow> a < b"
  using pow2_less[of a b] pow2_less[of b a] by (cases a b rule: linorder_cases) auto

lemma pow2_le_iff [simp]: "pow2 a \<le> pow2 b \<longleftrightarrow> a \<le> b"
  using pow2_less_iff[of b a] by linarith

lemma pow2_int: "0 \<le> e \<Longrightarrow> pow2 e = of_int (2 ^ nat e)"
  by (simp add: pow2_def)

lemma pow2_minus: "pow2 (- b) = 1 / pow2 b"
  using pow2_diff[of 0 b] by simp

lemma ilog2_bounds:
  assumes "0 < q"
  shows "pow2 (ilog2 q) \<le> q" "q < pow2 (ilog2 q + 1)"
proof -
  have "pow2 (ilog2 q) \<le> q \<and> q < pow2 (ilog2 q + 1)"
  proof (cases "1 \<le> q")
    case True
    define b where "b = bitlen \<lfloor>q\<rfloor>"
    have pos: "0 < \<lfloor>q\<rfloor>" using True by simp
    then have b: "2 ^ nat (b - 1) \<le> \<lfloor>q\<rfloor>" "\<lfloor>q\<rfloor> < 2 ^ nat b" and b1: "1 \<le> b"
      using bitlen_bounds[OF pos] by (auto simp: b_def bitlen_ge_iff_power)
    have "pow2 (b - 1) = of_int (2 ^ nat (b - 1))" using b1 by (simp add: pow2_int)
    also have "\<dots> \<le> of_int \<lfloor>q\<rfloor>" using b(1) of_int_le_iff by blast
    also have "\<dots> \<le> q" by simp
    finally have 1: "pow2 (b - 1) \<le> q" .
    have "\<lfloor>q\<rfloor> + 1 \<le> 2 ^ nat b" using b(2) by simp
    then have "of_int (\<lfloor>q\<rfloor> + 1) \<le> (of_int (2 ^ nat b) :: rat)" using of_int_le_iff by blast
    also have "\<dots> = pow2 b" using b1 by (simp add: pow2_int)
    finally have "q < pow2 b" by linarith
    with 1 True show ?thesis by (simp add: ilog2_def b_def)
  next
    case False
    define c where "c = \<lceil>1 / q\<rceil>"
    define b where "b = bitlen (c - 1)"
    have "1 < 1 / q" using False assms by (simp add: field_simps)
    then have c: "2 \<le> c" unfolding c_def by linarith
    then have pos: "0 < c - 1" by simp
    then have b: "2 ^ nat (b - 1) \<le> c - 1" "c - 1 < 2 ^ nat b" and b1: "1 \<le> b"
      using bitlen_bounds[OF pos] by (auto simp: b_def bitlen_ge_iff_power)
    have cq: "1 / q \<le> of_int c" "of_int c - 1 < 1 / q" unfolding c_def by linarith+
    have "c \<le> 2 ^ nat b" using b(2) by simp
    then have "of_int c \<le> (of_int (2 ^ nat b) :: rat)" using of_int_le_iff by blast
    also have "\<dots> = pow2 b" using b1 by (simp add: pow2_int)
    finally have "1 / q \<le> pow2 b" using cq(1) by linarith
    then have 1: "pow2 (- b) \<le> q"
      using assms by (simp add: pow2_minus field_simps)
    have "pow2 (b - 1) = of_int (2 ^ nat (b - 1))" using b1 by (simp add: pow2_int)
    also have "\<dots> \<le> of_int (c - 1)" using b(1) of_int_le_iff by blast
    finally have "pow2 (b - 1) < 1 / q" using cq(2) by simp
    then have "q < 1 / pow2 (b - 1)" using assms by (simp add: field_simps)
    then have "q < pow2 (1 - b)" using pow2_minus[of "b - 1"] by simp
    with 1 False show ?thesis by (simp add: ilog2_def b_def c_def)
  qed
  then show "pow2 (ilog2 q) \<le> q" "q < pow2 (ilog2 q + 1)" by auto
qed

lemma ilog2_unique:
  assumes "pow2 k \<le> q" "q < pow2 (k + 1)"
  shows "ilog2 q = k"
proof -
  have q: "0 < q" using assms(1) pow2_pos[of k] by linarith
  have "pow2 (ilog2 q) < pow2 (k + 1)" "pow2 k < pow2 (ilog2 q + 1)"
    using ilog2_bounds[OF q] assms by linarith+
  then show ?thesis by simp
qed

lemma round_half_even_of_int [simp]: "round_half_even (of_int i) = i"
  by (simp add: round_half_even_def)

lemma round_half_even_bounds:
  "of_int i \<le> q \<Longrightarrow> i \<le> round_half_even q" "q \<le> of_int i \<Longrightarrow> round_half_even q \<le> i"
proof -
  assume "of_int i \<le> q"
  then have "i \<le> \<lfloor>q\<rfloor>" by (simp add: le_floor_iff)
  then show "i \<le> round_half_even q" by (auto simp: round_half_even_def Let_def)
next
  assume q: "q \<le> of_int i"
  show "round_half_even q \<le> i"
  proof (cases "q = of_int i")
    case False
    with q have "q < of_int i" by simp
    then have "\<lfloor>q\<rfloor> < i" by (simp add: floor_less_iff)
    then show ?thesis by (auto simp: round_half_even_def Let_def)
  qed simp
qed

section \<open>The fields of a double\<close>

definition f64_sign :: "float64 \<Rightarrow> bool" where
  "f64_sign w \<longleftrightarrow> 2 ^ 63 \<le> uint w"

definition f64_bexp :: "float64 \<Rightarrow> int" where
  "f64_bexp w = (uint w div 2 ^ 52) mod 2 ^ 11"

definition f64_frac :: "float64 \<Rightarrow> int" where
  "f64_frac w = uint w mod 2 ^ 52"

definition f64_pack :: "bool \<Rightarrow> int \<Rightarrow> float64" where
  "f64_pack s b = word_of_int ((if s then 2 ^ 63 else 0) + b)"

definition f64_isnan :: "float64 \<Rightarrow> bool" where
  "f64_isnan w \<longleftrightarrow> f64_bexp w = 2047 \<and> f64_frac w \<noteq> 0"

definition f64_isinf :: "float64 \<Rightarrow> bool" where
  "f64_isinf w \<longleftrightarrow> f64_bexp w = 2047 \<and> f64_frac w = 0"

definition f64_finite :: "float64 \<Rightarrow> bool" where
  "f64_finite w \<longleftrightarrow> f64_bexp w < 2047"

definition f64_mag :: "float64 \<Rightarrow> rat" where
  "f64_mag w =
     (if f64_bexp w = 0 then of_int (f64_frac w) * pow2 (- 1074)
      else of_int (2 ^ 52 + f64_frac w) * pow2 (f64_bexp w - 1075))"

definition f64_rat :: "float64 \<Rightarrow> rat" where
  "f64_rat w = (if f64_sign w then - f64_mag w else f64_mag w)"

definition f64_nan :: float64 where "f64_nan = 0x7FF8000000000001"
definition f64_inf :: "bool \<Rightarrow> float64" where "f64_inf s = f64_pack s (2047 * 2 ^ 52)"
definition f64_zero :: "bool \<Rightarrow> float64" where "f64_zero s = f64_pack s 0"

text \<open>Rounding of the magnitude \<open>q\<close> with sign \<open>s\<close> to the nearest double, ties to even.\<close>

definition f64_round :: "bool \<Rightarrow> rat \<Rightarrow> float64" where
  "f64_round s q =
     (if q \<le> 0 then f64_zero s
      else let e = max (- 1074) (ilog2 q - 52);
               n = round_half_even (q / pow2 e)
           in f64_pack s (min ((e + 1074) * 2 ^ 52 + n) (2047 * 2 ^ 52)))"

definition f64_of_rat :: "bool \<Rightarrow> rat \<Rightarrow> float64" where
  "f64_of_rat s r = f64_round (r < 0 \<or> r = 0 \<and> s) \<bar>r\<bar>"

definition f64_of_int :: "int \<Rightarrow> float64" where
  "f64_of_int i = f64_of_rat False (of_int i)"

section \<open>Arithmetic and comparison\<close>

definition fneg :: "float64 \<Rightarrow> float64" where
  "fneg a = f64_pack (\<not> f64_sign a) (uint a mod 2 ^ 63)"

definition fabs :: "float64 \<Rightarrow> float64" where
  "fabs a = f64_pack False (uint a mod 2 ^ 63)"

definition fadd :: "float64 \<Rightarrow> float64 \<Rightarrow> float64" where
  "fadd a b =
     (if f64_isnan a \<or> f64_isnan b then f64_nan
      else if f64_isinf a then (if f64_isinf b \<and> f64_sign a \<noteq> f64_sign b then f64_nan else a)
      else if f64_isinf b then b
      else f64_of_rat (f64_sign a \<and> f64_sign b) (f64_rat a + f64_rat b))"

definition fsub :: "float64 \<Rightarrow> float64 \<Rightarrow> float64" where
  "fsub a b = fadd a (fneg b)"

definition fmul :: "float64 \<Rightarrow> float64 \<Rightarrow> float64" where
  "fmul a b =
     (let s = (f64_sign a \<noteq> f64_sign b) in
      if f64_isnan a \<or> f64_isnan b then f64_nan
      else if f64_isinf a \<or> f64_isinf b
        then (if f64_finite a \<and> f64_rat a = 0 \<or> f64_finite b \<and> f64_rat b = 0 then f64_nan
              else f64_inf s)
      else f64_of_rat s (f64_rat a * f64_rat b))"

definition fdiv :: "float64 \<Rightarrow> float64 \<Rightarrow> float64" where
  "fdiv a b =
     (let s = (f64_sign a \<noteq> f64_sign b) in
      if f64_isnan a \<or> f64_isnan b then f64_nan
      else if f64_isinf a then (if f64_isinf b then f64_nan else f64_inf s)
      else if f64_isinf b then f64_zero s
      else if f64_rat b = 0 then (if f64_rat a = 0 then f64_nan else f64_inf s)
      else f64_of_rat s (f64_rat a / f64_rat b))"

definition rat_trunc :: "rat \<Rightarrow> int" where
  "rat_trunc r = (if 0 \<le> r then \<lfloor>r\<rfloor> else - \<lfloor>- r\<rfloor>)"

text \<open>\<^verbatim>\<open>math.Trunc\<close>, \<^verbatim>\<open>math.Floor\<close> and \<^verbatim>\<open>math.Mod\<close>.\<close>

definition ftrunc :: "float64 \<Rightarrow> float64" where
  "ftrunc a = (if f64_finite a then f64_of_rat (f64_sign a) (of_int (rat_trunc (f64_rat a))) else a)"

definition ffloor :: "float64 \<Rightarrow> float64" where
  "ffloor a = (if f64_finite a then f64_of_rat (f64_sign a) (of_int \<lfloor>f64_rat a\<rfloor>) else a)"

definition fmod :: "float64 \<Rightarrow> float64 \<Rightarrow> float64" where
  "fmod a b =
     (if f64_isnan a \<or> f64_isnan b \<or> f64_isinf a \<or> f64_finite b \<and> f64_rat b = 0 then f64_nan
      else if f64_isinf b then a
      else f64_of_rat (f64_sign a)
             (f64_rat a - f64_rat b * of_int (rat_trunc (f64_rat a / f64_rat b))))"

definition feq :: "float64 \<Rightarrow> float64 \<Rightarrow> bool" where
  "feq a b \<longleftrightarrow> \<not> f64_isnan a \<and> \<not> f64_isnan b \<and>
     (a = b \<or> f64_finite a \<and> f64_finite b \<and> f64_rat a = f64_rat b)"

definition flt :: "float64 \<Rightarrow> float64 \<Rightarrow> bool" where
  "flt a b \<longleftrightarrow> \<not> f64_isnan a \<and> \<not> f64_isnan b \<and> a \<noteq> b \<and>
     (if f64_isinf a then f64_sign a
      else if f64_isinf b then \<not> f64_sign b
      else f64_rat a < f64_rat b)"

text \<open>Go's conversion of a double to \<^verbatim>\<open>int64\<close>, defined for values in range.\<close>

definition int_of_f64 :: "float64 \<Rightarrow> int" where
  "int_of_f64 a = rat_trunc (f64_rat a)"

section \<open>Packing and unpacking\<close>

lemma uint_pack:
  assumes "0 \<le> b" "b < 2 ^ 63"
  shows "uint (f64_pack s b) = (if s then 2 ^ 63 else 0) + b"
  using assms by (simp add: f64_pack_def uint_word_of_int del: of_int_add)

lemma f64_pack_fields:
  assumes "0 \<le> b" "b < 2 ^ 63"
  shows "f64_sign (f64_pack s b) = s"
    "f64_bexp (f64_pack s b) = b div 2 ^ 52"
    "f64_frac (f64_pack s b) = b mod 2 ^ 52"
proof -
  show "f64_sign (f64_pack s b) = s"
    using assms by (simp add: f64_sign_def uint_pack)
  have *: "(if s then 2 ^ 63 else 0) + b = b + 2 ^ 52 * (if s then 2 ^ 11 else 0)" by simp
  have "((if s then 2 ^ 63 else 0) + b) div 2 ^ 52 = (if s then 2 ^ 11 else 0) + b div 2 ^ 52"
    unfolding * by (subst div_mult_self2) simp_all
  moreover have "0 \<le> b div 2 ^ 52" "b div 2 ^ 52 < 2 ^ 11"
    using assms by (auto simp: pos_imp_zdiv_nonneg_iff div_less_iff_less_mult)
  ultimately show "f64_bexp (f64_pack s b) = b div 2 ^ 52"
    using assms by (simp add: f64_bexp_def uint_pack)
  show "f64_frac (f64_pack s b) = b mod 2 ^ 52"
    unfolding f64_frac_def uint_pack[OF assms] * by (subst mod_mult_self2) simp
qed

lemma f64_zero_props [simp]:
  "f64_sign (f64_zero s) = s" "f64_rat (f64_zero s) = 0" "f64_finite (f64_zero s)"
  "\<not> f64_isnan (f64_zero s)" "\<not> f64_isinf (f64_zero s)"
  by (simp_all add: f64_zero_def f64_pack_fields f64_rat_def f64_mag_def f64_finite_def
      f64_isnan_def f64_isinf_def)

lemma f64_inf_props [simp]:
  "f64_sign (f64_inf s) = s" "f64_isinf (f64_inf s)" "\<not> f64_isnan (f64_inf s)"
  "\<not> f64_finite (f64_inf s)"
  by (simp_all add: f64_inf_def f64_pack_fields f64_isinf_def f64_isnan_def f64_finite_def)

lemma f64_nan_props [simp]:
  "f64_isnan f64_nan" "\<not> f64_isinf f64_nan" "\<not> f64_finite f64_nan"
  by (simp_all add: f64_nan_def f64_isnan_def f64_isinf_def f64_finite_def f64_bexp_def f64_frac_def)

lemma f64_finite_iff: "f64_finite w \<longleftrightarrow> \<not> f64_isnan w \<and> \<not> f64_isinf w"
proof -
  have "f64_bexp w < 2 ^ 11" by (simp add: f64_bexp_def)
  then show ?thesis by (auto simp: f64_finite_def f64_isnan_def f64_isinf_def)
qed

lemma f64_mag_nonneg: "0 \<le> f64_mag w"
proof -
  have "0 \<le> f64_frac w" by (simp add: f64_frac_def)
  then show ?thesis by (simp add: f64_mag_def less_imp_le)
qed

text \<open>A significand \<open>n\<close> and an exponent \<open>e\<close> pack to the double of value \<open>n * 2 ^ e\<close>.\<close>

lemma f64_mag_pack:
  assumes e: "- 1074 \<le> e" and n: "0 \<le> n" "n \<le> 2 ^ 53" "2 ^ 52 \<le> n \<or> e = - 1074"
    and b: "(e + 1074) * 2 ^ 52 + n < 2047 * 2 ^ 52"
  shows "f64_mag (f64_pack s ((e + 1074) * 2 ^ 52 + n)) = of_int n * pow2 e"
    "f64_finite (f64_pack s ((e + 1074) * 2 ^ 52 + n))"
    "f64_sign (f64_pack s ((e + 1074) * 2 ^ 52 + n)) = s"
proof -
  define b where "b = (e + 1074) * 2 ^ 52 + n"
  have b0: "0 \<le> b" "b < 2 ^ 63" using e n b by (auto simp: b_def)
  note F = f64_pack_fields[OF b0]
  have div: "b div 2 ^ 52 = e + 1074 + n div 2 ^ 52" and md: "b mod 2 ^ 52 = n mod 2 ^ 52"
    unfolding b_def by (simp, subst add.commute, subst mod_mult_self1, simp)
  have "b div 2 ^ 52 < 2047" using b unfolding b_def[symmetric] by simp
  then show "f64_finite (f64_pack s ((e + 1074) * 2 ^ 52 + n))"
    using F(2) by (simp add: f64_finite_def b_def)
  show "f64_sign (f64_pack s ((e + 1074) * 2 ^ 52 + n)) = s" using F(1) by (simp add: b_def)
  consider "n < 2 ^ 52" | "2 ^ 52 \<le> n" "n < 2 ^ 53" | "n = 2 ^ 53" using n by linarith
  then have "f64_mag (f64_pack s b) = of_int n * pow2 e"
  proof cases
    case 1
    then have "n div 2 ^ 52 = 0" "n mod 2 ^ 52 = n" using n by simp_all
    then show ?thesis using 1 n F div md by (simp add: f64_mag_def)
  next
    case 2
    then have d: "n div 2 ^ 52 = 1" by (intro int_div_pos_eq[where r = "n - 2 ^ 52"]) auto
    then have m: "n mod 2 ^ 52 = n - 2 ^ 52" by (simp add: minus_div_mult_eq_mod[symmetric])
    show ?thesis using F div md e d m by (simp add: f64_mag_def)
  next
    case 3
    then have d: "n div 2 ^ 52 = 2" and m: "n mod 2 ^ 52 = 0" by simp_all
    have "pow2 (1 + e) = 2 * pow2 e" unfolding pow2_add by (simp add: pow2_def[of 1])
    then show ?thesis using F div md e 3 d m by (simp add: f64_mag_def)
  qed
  then show "f64_mag (f64_pack s ((e + 1074) * 2 ^ 52 + n)) = of_int n * pow2 e" by (simp add: b_def)
qed

section \<open>Rounding is exact on representable numbers\<close>

definition representable :: "rat \<Rightarrow> bool" where
  "representable q \<longleftrightarrow>
     (\<exists>m e. 0 \<le> m \<and> m < 2 ^ 53 \<and> - 1074 \<le> e \<and> e \<le> 971 \<and> q = of_int m * pow2 e)"

lemma ilog2_le: "0 < q \<Longrightarrow> q < pow2 k \<Longrightarrow> ilog2 q < k"
  using ilog2_bounds(1)[of q] pow2_less_iff[of "ilog2 q" k] by linarith

lemma round_exponent_significand:
  assumes "0 < q" "e = max (- 1074) (ilog2 q - 52)"
  shows "q / pow2 e < 2 ^ 53" "e \<noteq> - 1074 \<Longrightarrow> 2 ^ 52 \<le> q / pow2 e"
proof -
  have "q < pow2 (ilog2 q + 1)" by (rule ilog2_bounds(2)[OF assms(1)])
  also have "\<dots> \<le> pow2 (53 + e)" using assms(2) by simp
  finally show "q / pow2 e < 2 ^ 53" by (simp add: pow2_add pow2_numeral field_simps)
  assume "e \<noteq> - 1074"
  then have "ilog2 q = 52 + e" using assms(2) by (auto simp: max_def split: if_splits)
  then have "pow2 (52 + e) \<le> q" using ilog2_bounds(1)[OF assms(1)] by simp
  then show "2 ^ 52 \<le> q / pow2 e" by (simp add: pow2_add pow2_numeral field_simps)
qed

lemma representable_significand:
  assumes "representable q" "0 < q" "e = max (- 1074) (ilog2 q - 52)"
  shows "\<exists>n. q / pow2 e = of_int n"
proof -
  obtain m e' where m: "0 \<le> m" "m < 2 ^ 53" "- 1074 \<le> e'" and q: "q = of_int m * pow2 e'"
    using assms(1) by (auto simp: representable_def)
  have "(of_int m :: rat) < 2 ^ 53" using m(2) by (metis of_int_less_iff of_int_numeral of_int_power)
  then have "q < pow2 (53 + e')" by (simp add: q pow2_add pow2_numeral)
  then have "ilog2 q < 53 + e'" by (rule ilog2_le[OF assms(2)])
  then have le: "e \<le> e'" using assms(3) m(3) by auto
  have "q / pow2 e = of_int m * pow2 (e' - e)" by (simp add: q pow2_diff)
  also have "\<dots> = of_int (m * 2 ^ nat (e' - e))" using le by (simp add: pow2_int)
  finally show ?thesis by blast
qed

lemma f64_round_exact:
  assumes "representable q"
  shows "f64_rat (f64_round s q) = (if s then - q else q)" "f64_finite (f64_round s q)"
    "f64_sign (f64_round s q) = s"
proof -
  have "f64_rat (f64_round s q) = (if s then - q else q) \<and> f64_finite (f64_round s q) \<and>
    f64_sign (f64_round s q) = s"
  proof (cases "q \<le> 0")
    case True
    have "0 \<le> q" using assms by (auto simp: representable_def less_imp_le)
    then have "q = 0" using True by simp
    then show ?thesis by (simp add: f64_round_def)
  next
    case False
    then have q: "0 < q" by simp
    define e where "e = max (- 1074) (ilog2 q - 52)"
    obtain n where n: "q / pow2 e = of_int n" using representable_significand[OF assms q e_def] by auto
    have n53: "n < 2 ^ 53"
      using round_exponent_significand(1)[OF q e_def] unfolding n
      by (metis of_int_less_iff of_int_numeral of_int_power)
    have n52: "2 ^ 52 \<le> n \<or> e = - 1074"
      using round_exponent_significand(2)[OF q e_def] unfolding n
      by (metis of_int_le_iff of_int_numeral of_int_power)
    have n0: "0 \<le> n" using q n by (metis divide_pos_pos less_imp_le of_int_0_le_iff pow2_pos)
    have "q < pow2 1024"
    proof -
      obtain m e' where m: "m < 2 ^ 53" "e' \<le> 971" and q': "q = of_int m * pow2 e'"
        using assms by (auto simp: representable_def)
      have "(of_int m :: rat) < 2 ^ 53" using m(1) by (metis of_int_less_iff of_int_numeral of_int_power)
      then have "q < pow2 (53 + e')" by (simp add: q' pow2_add pow2_numeral)
      also have "\<dots> \<le> pow2 1024" using m(2) by simp
      finally show ?thesis .
    qed
    then have "ilog2 q < 1024" by (rule ilog2_le[OF q])
    then have "e \<le> 971" by (simp add: e_def)
    then have b: "(e + 1074) * 2 ^ 52 + n < 2047 * 2 ^ 52" using n53 by auto
    have e0: "- 1074 \<le> e" by (simp add: e_def)
    have R: "f64_round s q = f64_pack s ((e + 1074) * 2 ^ 52 + n)"
      using False b by (simp add: f64_round_def e_def[symmetric] n Let_def)
    have "of_int n * pow2 e = q" using n by (simp add: field_simps)
    then show ?thesis
      using f64_mag_pack[OF e0 n0 _ n52 b, of s] n53 unfolding R f64_rat_def by (cases s) simp_all
  qed
  then show "f64_rat (f64_round s q) = (if s then - q else q)" "f64_finite (f64_round s q)"
    "f64_sign (f64_round s q) = s" by auto
qed

lemma representable_int:
  assumes "\<bar>i\<bar> \<le> 2 ^ 53"
  shows "representable (of_int \<bar>i\<bar>)"
proof (cases "\<bar>i\<bar> = 2 ^ 53")
  case True
  have "of_int \<bar>i\<bar> = of_int (2 ^ 52) * pow2 1" unfolding True by (simp add: pow2_def)
  then show ?thesis unfolding representable_def
    by (intro exI[of _ "2 ^ 52"] exI[of _ 1]) simp
next
  case False
  then show ?thesis unfolding representable_def
    using assms by (intro exI[of _ "\<bar>i\<bar>"] exI[of _ 0]) auto
qed

lemma f64_of_int_exact:
  assumes "\<bar>i\<bar> \<le> 2 ^ 53"
  shows "f64_rat (f64_of_int i) = of_int i" "f64_finite (f64_of_int i)"
    "f64_sign (f64_of_int i) \<longleftrightarrow> i < 0"
  using f64_round_exact[OF representable_int[OF assms], of "i < 0"]
  by (auto simp: f64_of_int_def f64_of_rat_def)

lemma finite_not_special:
  "f64_finite a \<Longrightarrow> \<not> f64_isnan a" "f64_finite a \<Longrightarrow> \<not> f64_isinf a"
  by (simp_all add: f64_finite_iff)

lemma fneg_props [simp]:
  "f64_sign (fneg a) \<longleftrightarrow> \<not> f64_sign a" "f64_bexp (fneg a) = f64_bexp a"
  "f64_frac (fneg a) = f64_frac a" "f64_rat (fneg a) = - f64_rat a"
proof -
  have r: "0 \<le> uint a mod 2 ^ 63" "uint a mod 2 ^ 63 < 2 ^ 63" by simp_all
  note F = f64_pack_fields[OF r, of "\<not> f64_sign a", folded fneg_def]
  have d: "(uint a mod 2 ^ 63) div 2 ^ 52 = (uint a div 2 ^ 52) mod 2 ^ 11"
    using zmod_zmult2_eq[of "2 ^ 11" "uint a" "2 ^ 52"] by simp
  have m: "(uint a mod 2 ^ 63) mod 2 ^ 52 = uint a mod 2 ^ 52" by (simp add: mod_mod_cancel)
  show "f64_sign (fneg a) \<longleftrightarrow> \<not> f64_sign a" by (rule F(1))
  show bx: "f64_bexp (fneg a) = f64_bexp a" using F(2) d by (simp add: f64_bexp_def)
  show fr: "f64_frac (fneg a) = f64_frac a" using F(3) m by (simp add: f64_frac_def)
  show "f64_rat (fneg a) = - f64_rat a" using F(1) bx fr by (simp add: f64_rat_def f64_mag_def)
qed

lemma fneg_class [simp]:
  "f64_isnan (fneg a) = f64_isnan a" "f64_isinf (fneg a) = f64_isinf a"
  "f64_finite (fneg a) = f64_finite a"
  by (simp_all add: f64_isnan_def f64_isinf_def f64_finite_def)

end
