(* ===== verification/Values.thy ===== *)
theory Values
  imports Float64
begin

text \<open>
  ECMAScript values as the engine represents them (value.go, vm.go, runtime.go). A Number is a
  \<^verbatim>\<open>valueInt\<close> (a Go \<^verbatim>\<open>int64\<close>) or a \<^verbatim>\<open>valueFloat\<close> (a double); the two representations overlap, and
  the engine relies on one of them being chosen for each number. This theory models the
  constructors that choose (\<open>intToValue\<close>, \<open>floatToValue\<close>), the comparisons and the hash that rely on
  the choice, the conversions to 32-bit integers and lengths, and array indices as strings.
  A Go \<^verbatim>\<open>nil\<close> of type \<^verbatim>\<open>Value\<close> is \<open>None\<close>; strings are their UTF-16 code units.
\<close>

type_synonym ustr = "16 word list"
type_synonym oid = nat

datatype val =
    VUndef
  | VNull
  | VBool bool
  | VInt int
  | VFloat float64
  | VBigInt int
  | VStr ustr
  | VSym nat
  | VObj oid

datatype jserr = TypeErr | RangeErr | ReferenceErr | SyntaxErr | Thrown val

definition ascii :: "string \<Rightarrow> ustr" where
  "ascii s = map (\<lambda>c. of_nat (of_char c)) s"

definition maxInt :: int where "maxInt = 2 ^ 53"

abbreviation negativeZero :: float64 where "negativeZero \<equiv> f64_zero True"

section \<open>Choosing the representation of a number\<close>

definition fle :: "float64 \<Rightarrow> float64 \<Rightarrow> bool" where
  "fle a b \<longleftrightarrow> flt a b \<or> feq a b"

definition intToValue :: "int \<Rightarrow> val" where
  "intToValue i =
     (let idx = int64 (256 + i) in
      if 0 \<le> idx \<and> idx < 256 then VInt (idx - 256)
      else if - maxInt \<le> i \<and> i \<le> maxInt then VInt i
      else VFloat (f64_of_int i))"

definition floatToInt :: "float64 \<Rightarrow> int option" where
  "floatToInt f =
     (if (\<not> feq f (f64_zero False) \<or> \<not> f64_sign f) \<and> \<not> f64_isinf f \<and> feq f (ftrunc f) \<and>
         fle (f64_of_int (- maxInt)) f \<and> fle f (f64_of_int maxInt)
      then Some (int_of_f64 f) else None)"

definition floatToValue :: "float64 \<Rightarrow> val" where
  "floatToValue f =
     (case floatToInt f of
        Some i \<Rightarrow> intToValue i
      | None \<Rightarrow>
          if feq f (f64_zero False) then VFloat negativeZero
          else if f64_isnan f then VFloat f64_nan
          else if f64_isinf f \<and> \<not> f64_sign f then VFloat (f64_inf False)
          else if f64_isinf f \<and> f64_sign f then VFloat (f64_inf True)
          else VFloat f)"

section \<open>Equality and hashing\<close>

definition valueInt_SameAs :: "int \<Rightarrow> val \<Rightarrow> bool" where
  "valueInt_SameAs i other = (other = VInt i)"

definition valueInt_StrictEquals :: "int \<Rightarrow> val \<Rightarrow> bool" where
  "valueInt_StrictEquals i other =
     (case other of
        VInt o' \<Rightarrow> i = o'
      | VFloat o' \<Rightarrow> feq (f64_of_int i) o'
      | _ \<Rightarrow> False)"

definition valueFloat_SameAs :: "float64 \<Rightarrow> val \<Rightarrow> bool" where
  "valueFloat_SameAs f other =
     (case other of
        VFloat o1 \<Rightarrow>
          (if f64_isnan f \<and> f64_isnan o1 then True
           else let ret = feq f o1 in
             if ret \<and> feq f (f64_zero False) then f64_sign f = f64_sign o1 else ret)
      | VInt o' \<Rightarrow>
          (let ret = feq f (f64_of_int o') in
             if ret \<and> feq f (f64_zero False) then \<not> f64_sign f else ret)
      | _ \<Rightarrow> False)"

definition valueFloat_StrictEquals :: "float64 \<Rightarrow> val \<Rightarrow> bool" where
  "valueFloat_StrictEquals f other =
     (case other of
        VFloat o' \<Rightarrow> feq f o'
      | VInt o' \<Rightarrow> feq f (f64_of_int o')
      | _ \<Rightarrow> False)"

definition valueBool_SameAs :: "bool \<Rightarrow> val \<Rightarrow> bool" where
  "valueBool_SameAs b other = (case other of VBool o' \<Rightarrow> b = o' | _ \<Rightarrow> False)"

definition valueBigInt_SameAs :: "int \<Rightarrow> val \<Rightarrow> bool" where
  "valueBigInt_SameAs v other = (case other of VBigInt o' \<Rightarrow> v = o' | _ \<Rightarrow> False)"

definition string_StrictEquals :: "ustr \<Rightarrow> val \<Rightarrow> bool" where
  "string_StrictEquals s other = (case other of VStr o' \<Rightarrow> s = o' | _ \<Rightarrow> False)"

definition Symbol_SameAs :: "nat \<Rightarrow> val \<Rightarrow> bool" where
  "Symbol_SameAs s other = (case other of VSym s1 \<Rightarrow> s = s1 | _ \<Rightarrow> False)"

definition Object_StrictEquals :: "oid \<Rightarrow> val \<Rightarrow> bool" where
  "Object_StrictEquals x other = (case other of VObj y \<Rightarrow> x = y | _ \<Rightarrow> False)"

text \<open>The dynamic dispatch of \<^verbatim>\<open>Value.SameAs\<close>, \<^verbatim>\<open>Value.StrictEquals\<close>.\<close>

fun SameAs :: "val \<Rightarrow> val \<Rightarrow> bool" where
  "SameAs VUndef other = (other = VUndef)"
| "SameAs VNull other = (other = VNull)"
| "SameAs (VBool b) other = valueBool_SameAs b other"
| "SameAs (VInt i) other = valueInt_SameAs i other"
| "SameAs (VFloat f) other = valueFloat_SameAs f other"
| "SameAs (VBigInt v) other = valueBigInt_SameAs v other"
| "SameAs (VStr s) other = string_StrictEquals s other"
| "SameAs (VSym s) other = Symbol_SameAs s other"
| "SameAs (VObj x) other = Object_StrictEquals x other"

fun StrictEquals :: "val \<Rightarrow> val \<Rightarrow> bool" where
  "StrictEquals VUndef other = (other = VUndef)"
| "StrictEquals VNull other = (other = VNull)"
| "StrictEquals (VBool b) other = valueBool_SameAs b other"
| "StrictEquals (VInt i) other = valueInt_StrictEquals i other"
| "StrictEquals (VFloat f) other = valueFloat_StrictEquals f other"
| "StrictEquals (VBigInt v) other = valueBigInt_SameAs v other"
| "StrictEquals (VStr s) other = string_StrictEquals s other"
| "StrictEquals (VSym s) other = Symbol_SameAs s other"
| "StrictEquals (VObj x) other = Object_StrictEquals x other"

text \<open>
  The seeded hash functions of Go's \<^verbatim>\<open>hash/maphash\<close>, the random hashes of the constants and the
  addresses of objects and symbols are not determined by the program: they are a parameter.
\<close>

record hasher =
  h_undef :: int
  h_null :: int
  h_true :: int
  h_false :: int
  h_str :: "ustr \<Rightarrow> int"
  h_bigint :: "int \<Rightarrow> int"
  h_sym :: "nat \<Rightarrow> int"
  h_obj :: "oid \<Rightarrow> int"

definition valueInt_hash :: "int \<Rightarrow> int" where
  "valueInt_hash i = uint64 i"

definition valueFloat_hash :: "float64 \<Rightarrow> int" where
  "valueFloat_hash f = (if feq f negativeZero then 0 else uint f)"

definition valueBool_hash :: "hasher \<Rightarrow> bool \<Rightarrow> int" where
  "valueBool_hash hs b = (if b then h_true hs else h_false hs)"

fun hash :: "hasher \<Rightarrow> val \<Rightarrow> int" where
  "hash hs VUndef = h_undef hs"
| "hash hs VNull = h_null hs"
| "hash hs (VBool b) = valueBool_hash hs b"
| "hash hs (VInt i) = valueInt_hash i"
| "hash hs (VFloat f) = valueFloat_hash f"
| "hash hs (VBigInt v) = h_bigint hs v"
| "hash hs (VStr s) = h_str hs s"
| "hash hs (VSym s) = h_sym hs s"
| "hash hs (VObj x) = h_obj hs x"

text \<open>
  A number is canonical when it is what \<open>floatToValue\<close> would build: an integer within
  \<open>maxInt\<close> is a \<^verbatim>\<open>valueInt\<close>, and no double holds a value a \<^verbatim>\<open>valueInt\<close> could.
\<close>

fun canonical :: "val \<Rightarrow> bool" where
  "canonical (VInt i) \<longleftrightarrow> \<bar>i\<bar> \<le> maxInt"
| "canonical (VFloat f) \<longleftrightarrow> floatToValue f = VFloat f"
| "canonical _ \<longleftrightarrow> True"

section \<open>Conversions\<close>

definition valueFloat_ToBoolean :: "float64 \<Rightarrow> bool" where
  "valueFloat_ToBoolean f \<longleftrightarrow> \<not> feq f (f64_zero False) \<and> \<not> f64_isnan f"

fun ToBoolean :: "val \<Rightarrow> bool" where
  "ToBoolean VUndef = False"
| "ToBoolean VNull = False"
| "ToBoolean (VBool b) = b"
| "ToBoolean (VInt i) = (i \<noteq> 0)"
| "ToBoolean (VFloat f) = valueFloat_ToBoolean f"
| "ToBoolean (VBigInt v) = (v \<noteq> 0)"
| "ToBoolean (VStr s) = (s \<noteq> [])"
| "ToBoolean (VSym _) = True"
| "ToBoolean (VObj _) = True"

definition floatToUint32 :: "float64 \<Rightarrow> int" where
  "floatToUint32 f =
     (let b = uint f;
          exp = (b div 2 ^ 52) mod 2 ^ 11 - 1075;
          mant = b mod 2 ^ 52 + 2 ^ 52;
          r = (if 32 \<le> exp then 0
               else if 0 \<le> exp then uint64 (mant * 2 ^ nat exp)
               else mant div 2 ^ nat (- exp));
          r' = (if 2 ^ 63 \<le> b then uint64 (- r) else r)
      in uint32 r')"

text \<open>The conversions on an operand that is already a Number, as the callers ensure.\<close>

fun toUint32 :: "val \<Rightarrow> int" where
  "toUint32 (VInt i) = uint32 i"
| "toUint32 (VFloat f) = floatToUint32 f"
| "toUint32 _ = 0"

fun toInt32 :: "val \<Rightarrow> int" where
  "toInt32 (VInt i) = int32 i"
| "toInt32 (VFloat f) = int32 (floatToUint32 f)"
| "toInt32 _ = 0"

fun toUint16 :: "val \<Rightarrow> int" where
  "toUint16 (VInt i) = uint16 i"
| "toUint16 (VFloat f) = uint16 (floatToUint32 f)"
| "toUint16 _ = 0"

fun toUint8Clamp :: "val \<Rightarrow> int" where
  "toUint8Clamp (VInt i) = (if i < 0 then 0 else if i \<le> 255 then uint8 i else 255)"
| "toUint8Clamp (VFloat num) =
     (if \<not> f64_isnan num then
        (if flt num (f64_zero False) then 0
         else if flt (f64_of_int 255) num then 255
         else let f = ffloor num; f1 = fadd f (f64_of_rat False (1 / 2)) in
           if flt f1 num then uint8 (int_of_f64 (fadd f (f64_of_int 1)))
           else if flt num f1 then uint8 (int_of_f64 f)
           else let r = uint8 (int_of_f64 f) in if r mod 2 \<noteq> 0 then uint8 (r + 1) else r)
      else 0)"
| "toUint8Clamp _ = 0"

definition floatToIntClip :: "float64 \<Rightarrow> int" where
  "floatToIntClip n =
     (if f64_isnan n then 0
      else if fle (f64_of_int (2 ^ 63 - 1)) n then 2 ^ 63 - 1
      else if fle n (f64_of_int (- (2 ^ 63))) then - (2 ^ 63)
      else int_of_f64 n)"

fun ToInteger :: "val \<Rightarrow> int" where
  "ToInteger (VInt i) = i"
| "ToInteger (VFloat f) = floatToIntClip f"
| "ToInteger (VBool b) = (if b then 1 else 0)"
| "ToInteger _ = 0"

definition toLength :: "val option \<Rightarrow> int" where
  "toLength v =
     (case v of None \<Rightarrow> 0
      | Some x \<Rightarrow>
          let i = ToInteger x in if i < 0 then 0 else if maxInt \<le> i then maxInt - 1 else i)"

section \<open>Array indices\<close>

abbreviation MaxUint32 :: int where "MaxUint32 \<equiv> 2 ^ 32 - 1"

definition toIdx :: "int \<Rightarrow> int" where
  "toIdx v = (if 0 \<le> v \<and> v < MaxUint32 then uint32 v else MaxUint32)"

definition is_digit :: "16 word \<Rightarrow> bool" where
  "is_digit c \<longleftrightarrow> 48 \<le> c \<and> c \<le> 57"

definition digit_val :: "16 word \<Rightarrow> int" where
  "digit_val c = uint c - 48"

text \<open>The digit loop: \<open>None\<close> when a character is not a digit, otherwise the wrapped 32-bit value.\<close>

fun digits_loop :: "int \<Rightarrow> ustr \<Rightarrow> int option" where
  "digits_loop n [] = Some n"
| "digits_loop n (c # cs) =
     (if c < 48 \<or> 57 < c then None else digits_loop (uint32 (n * 10 + digit_val c)) cs)"

definition strToArrayIdx :: "ustr \<Rightarrow> int" where
  "strToArrayIdx s =
     (if s = [] then MaxUint32
      else if hd s = 48 then (if length s = 1 then 0 else MaxUint32)
      else if length s < 10 then (case digits_loop 0 s of None \<Rightarrow> MaxUint32 | Some n \<Rightarrow> n)
      else if 10 < length s then MaxUint32
      else let c9 = s ! 9 in
        if c9 < 48 \<or> 57 < c9 then MaxUint32
        else case digits_loop 0 (take 9 s) of
            None \<Rightarrow> MaxUint32
          | Some n \<Rightarrow>
              if MaxUint32 div 10 + 1 \<le> n then MaxUint32
              else let n = uint32 (n * 10); n1 = uint32 (n + digit_val c9) in
                if n1 < n then MaxUint32 else n1)"

text \<open>\<^verbatim>\<open>strconv.FormatInt(i, 10)\<close>, which \<^verbatim>\<open>valueInt.string()\<close> uses.\<close>

function dec_nat :: "nat \<Rightarrow> ustr" where
  "dec_nat n = (if n < 10 then [of_nat (48 + n)] else dec_nat (n div 10) @ [of_nat (48 + n mod 10)])"
  by pat_completeness auto
termination
  by (relation "measure id") auto

declare dec_nat.simps [simp del]

definition valueInt_string :: "int \<Rightarrow> ustr" where
  "valueInt_string i = (if i < 0 then 45 # dec_nat (nat (- i)) else dec_nat (nat i))"

section \<open>Numbers: lemmas\<close>

declare finite_not_special [dest]

lemma maxInt_pos [simp]: "0 < maxInt" "0 \<le> maxInt"
  by (simp_all add: maxInt_def)

lemma f64_of_int_small:
  assumes "\<bar>i\<bar> \<le> maxInt"
  shows "f64_rat (f64_of_int i) = of_int i" "f64_finite (f64_of_int i)"
    "f64_sign (f64_of_int i) \<longleftrightarrow> i < 0" "\<not> f64_isnan (f64_of_int i)" "\<not> f64_isinf (f64_of_int i)"
  using f64_of_int_exact[of i] assms by (auto simp: maxInt_def)

lemma f64_of_int_0 [simp]: "f64_of_int 0 = f64_zero False"
  by (simp add: f64_of_int_def f64_of_rat_def f64_round_def)

lemma intToValue_small: "\<bar>i\<bar> \<le> maxInt \<Longrightarrow> intToValue i = VInt i"
proof -
  assume i: "\<bar>i\<bar> \<le> maxInt"
  then have "int64 (256 + i) = 256 + i"
    by (intro wrap_s_id) (auto simp: maxInt_def)
  with i show ?thesis by (auto simp: intToValue_def Let_def)
qed

lemma intToValue_large:
  assumes "maxInt < \<bar>i\<bar>" "is_int64 i"
  shows "intToValue i = VFloat (f64_of_int i)"
proof -
  have "\<not> (0 \<le> int64 (256 + i) \<and> int64 (256 + i) < 256)"
  proof (cases "256 + i < 2 ^ 63")
    case True
    then have "int64 (256 + i) = 256 + i"
      using assms by (intro wrap_s_id) (auto simp: is_int64_def)
    then show ?thesis using assms by (auto simp: maxInt_def)
  next
    case False
    have "int64 (256 + i) = 256 + i - 2 ^ 64"
    proof -
      have "(256 + i + 2 ^ 63) mod 2 ^ 64 = (256 + i + 2 ^ 63 - 2 ^ 64) mod (2 ^ 64 :: int)"
        by (simp only: minus_mod_self2)
      also have "\<dots> = 256 + i + 2 ^ 63 - 2 ^ 64"
        using False assms by (intro mod_pos_pos_trivial) (auto simp: is_int64_def)
      finally show ?thesis by (simp add: wrap_s_def)
    qed
    then show ?thesis using assms by (auto simp: is_int64_def)
  qed
  moreover have "\<not> (- maxInt \<le> i \<and> i \<le> maxInt)" using assms(1) by linarith
  ultimately show ?thesis by (simp add: intToValue_def Let_def)
qed

subsection \<open>A finite double is determined by its sign and its value\<close>

lemma uint_f64_fields:
  "uint a = (if f64_sign a then 2 ^ 63 else 0) + f64_bexp a * 2 ^ 52 + f64_frac a"
proof -
  have u: "0 \<le> uint a" "uint a < 2 ^ 64" using uint_lt2p[of a] by simp_all
  have q: "uint a = 2 ^ 52 * (uint a div 2 ^ 52) + f64_frac a"
    unfolding f64_frac_def by (simp only: mult_div_mod_eq)
  show ?thesis
  proof (cases "f64_sign a")
    case True
    then have "2 ^ 63 \<le> uint a" by (simp add: f64_sign_def)
    then have "2 ^ 63 div 2 ^ 52 \<le> uint a div 2 ^ 52" by (intro zdiv_mono1) simp_all
    then have "2 ^ 11 \<le> uint a div 2 ^ 52" by simp
    moreover have "uint a div 2 ^ 52 < 2 ^ 12" using u(2) by simp
    ultimately have "(uint a div 2 ^ 52) mod 2 ^ 11 = uint a div 2 ^ 52 - 2 ^ 11"
      by (subst minus_mod_self2[symmetric]) (intro mod_pos_pos_trivial, auto)
    then have "uint a div 2 ^ 52 = f64_bexp a + 2 ^ 11" by (simp add: f64_bexp_def)
    then have "uint a = 2 ^ 52 * (f64_bexp a + 2 ^ 11) + f64_frac a" using q by argo
    then show ?thesis using True by simp
  next
    case False
    then have "uint a < 2 ^ 63" by (simp add: f64_sign_def)
    then have "uint a div 2 ^ 52 < 2 ^ 11" by simp
    moreover have "0 \<le> uint a div 2 ^ 52" by (simp add: pos_imp_zdiv_nonneg_iff)
    ultimately have "f64_bexp a = uint a div 2 ^ 52" by (simp add: f64_bexp_def)
    then show ?thesis using q False by simp
  qed
qed

lemma f64_fields_range: "0 \<le> f64_bexp a" "f64_bexp a < 2048" "0 \<le> f64_frac a" "f64_frac a < 2 ^ 52"
  by (simp_all add: f64_bexp_def f64_frac_def)

lemma f64_fields_eq:
  "f64_sign a = f64_sign b \<Longrightarrow> f64_bexp a = f64_bexp b \<Longrightarrow> f64_frac a = f64_frac b \<Longrightarrow> a = b"
  using uint_f64_fields[of a] uint_f64_fields[of b] by (simp add: word_uint_eq_iff)

lemma frac_rat_bounds: "0 \<le> (of_int (f64_frac a) :: rat)" "(of_int (f64_frac a) :: rat) < 2 ^ 52"
  using f64_fields_range(3,4)[of a] by (simp, metis of_int_less_iff of_int_numeral of_int_power)

lemma f64_mag_normal:
  assumes "f64_bexp a \<noteq> 0"
  shows "ilog2 (f64_mag a) = f64_bexp a - 1023" "pow2 (- 1022) \<le> f64_mag a"
proof -
  define e where "e = f64_bexp a - 1075"
  have m: "f64_mag a = (2 ^ 52 + of_int (f64_frac a)) * pow2 e"
    using assms by (simp add: f64_mag_def e_def)
  have "pow2 (52 + e) \<le> f64_mag a"
    using frac_rat_bounds(1)[of a] unfolding m by (simp add: pow2_add pow2_numeral)
  moreover have "f64_mag a < pow2 (52 + e + 1)"
  proof -
    have "2 ^ 52 + of_int (f64_frac a) < (2 :: rat) ^ 53" using frac_rat_bounds(2)[of a] by simp
    then have "f64_mag a < 2 ^ 53 * pow2 e" unfolding m by simp
    moreover have "pow2 (52 + e + 1) = 2 ^ 53 * pow2 e"
      using pow2_add[of 53 e] by (simp add: pow2_numeral add.commute)
    ultimately show ?thesis by simp
  qed
  ultimately have "ilog2 (f64_mag a) = 52 + e" by (rule ilog2_unique)
  then show "ilog2 (f64_mag a) = f64_bexp a - 1023" by (simp add: e_def)
  have "- 1022 \<le> 52 + e" using assms f64_fields_range(1)[of a] by (simp add: e_def)
  then have "pow2 (- 1022) \<le> pow2 (52 + e)" by (simp only: pow2_le_iff)
  with \<open>pow2 (52 + e) \<le> f64_mag a\<close> show "pow2 (- 1022) \<le> f64_mag a" by linarith
qed

lemma f64_mag_subnormal:
  assumes "f64_bexp a = 0"
  shows "f64_mag a < pow2 (- 1022)"
proof -
  have "f64_mag a < 2 ^ 52 * pow2 (- 1074)"
    using frac_rat_bounds(2)[of a] assms by (simp add: f64_mag_def)
  also have "\<dots> = pow2 (- 1022)" using pow2_add[of 52 "- 1074"] by (simp add: pow2_numeral)
  finally show ?thesis .
qed

lemma f64_mag_inj:
  assumes "f64_mag a = f64_mag b" "f64_sign a = f64_sign b"
  shows "a = b"
proof -
  have bx: "f64_bexp a = f64_bexp b"
    using f64_mag_normal[of a] f64_mag_normal[of b] f64_mag_subnormal[of a] f64_mag_subnormal[of b]
      assms(1) by (cases "f64_bexp a = 0"; cases "f64_bexp b = 0") auto
  then have "f64_frac a = f64_frac b"
    using assms(1) by (auto simp: f64_mag_def split: if_splits)
  with bx assms(2) show ?thesis by (intro f64_fields_eq)
qed

lemma f64_rat_inj:
  assumes "f64_rat a = f64_rat b" "f64_rat a = 0 \<Longrightarrow> f64_sign a = f64_sign b"
  shows "a = b"
proof -
  have "f64_sign a = f64_sign b"
  proof (rule ccontr)
    assume d: "f64_sign a \<noteq> f64_sign b"
    then have "f64_rat a = 0"
      using assms(1) f64_mag_nonneg[of a] f64_mag_nonneg[of b]
      by (cases "f64_sign a"; cases "f64_sign b") (simp_all add: f64_rat_def)
    with assms(2) d show False by simp
  qed
  moreover from this have "f64_mag a = f64_mag b"
    using assms(1) by (auto simp: f64_rat_def split: if_splits)
  ultimately show ?thesis by (intro f64_mag_inj)
qed

lemma feq_finite: "f64_finite a \<Longrightarrow> f64_finite b \<Longrightarrow> feq a b \<longleftrightarrow> f64_rat a = f64_rat b"
  by (auto simp: feq_def)

lemma feq_zero: "feq f (f64_zero s) \<longleftrightarrow> f64_finite f \<and> f64_rat f = 0"
  by (auto simp: feq_def)

lemma feq_imp_eq: "feq a b \<Longrightarrow> \<not> feq a (f64_zero False) \<Longrightarrow> a = b"
  by (auto simp: feq_def intro: f64_rat_inj)

lemma f64_zero_iff: "f64_finite f \<Longrightarrow> f64_rat f = 0 \<Longrightarrow> f = f64_zero (f64_sign f)"
  by (rule f64_rat_inj) auto

subsection \<open>Integers among the doubles\<close>

lemma fle_int_left:
  assumes "\<bar>i\<bar> \<le> maxInt" "f64_finite f"
  shows "fle (f64_of_int i) f \<longleftrightarrow> of_int i \<le> f64_rat f"
  using f64_of_int_small[OF assms(1)] assms(2)
  by (auto simp: fle_def flt_def feq_def)

lemma fle_int_right:
  assumes "\<bar>i\<bar> \<le> maxInt" "f64_finite f"
  shows "fle f (f64_of_int i) \<longleftrightarrow> f64_rat f \<le> of_int i"
  using f64_of_int_small[OF assms(1)] assms(2)
  by (auto simp: fle_def flt_def feq_def)

lemma rat_trunc_of_int [simp]: "rat_trunc (of_int i) = i"
  by (simp add: rat_trunc_def)

lemma rat_trunc_abs_le: "\<bar>r\<bar> \<le> of_int k \<Longrightarrow> \<bar>rat_trunc r\<bar> \<le> k"
  unfolding rat_trunc_def by (auto simp: abs_le_iff le_floor_iff floor_le_iff) linarith+

lemma ftrunc_small:
  assumes "f64_finite f" "\<bar>f64_rat f\<bar> \<le> of_int maxInt"
  shows "f64_rat (ftrunc f) = of_int (rat_trunc (f64_rat f))" "f64_finite (ftrunc f)"
proof -
  define t where "t = rat_trunc (f64_rat f)"
  have t: "\<bar>t\<bar> \<le> 2 ^ 53" using rat_trunc_abs_le[OF assms(2)] by (simp add: t_def maxInt_def)
  note R = f64_round_exact[OF representable_int[OF t]]
  show "f64_rat (ftrunc f) = of_int (rat_trunc (f64_rat f))" "f64_finite (ftrunc f)"
    using assms(1) R by (auto simp: ftrunc_def f64_of_rat_def t_def[symmetric] abs_if)
qed

lemma floatToInt_iff:
  "floatToInt f = Some i \<longleftrightarrow>
     f64_finite f \<and> f64_rat f = of_int i \<and> \<bar>i\<bar> \<le> maxInt \<and> (i = 0 \<longrightarrow> \<not> f64_sign f)"
proof (cases "f64_finite f \<and> \<bar>f64_rat f\<bar> \<le> of_int maxInt")
  case True
  then have fin: "f64_finite f" and le: "\<bar>f64_rat f\<bar> \<le> of_int maxInt" by auto
  have b: "fle (f64_of_int (- maxInt)) f" "fle f (f64_of_int maxInt)"
    using le fin by (auto simp: fle_int_left fle_int_right)
  have t: "feq f (ftrunc f) \<longleftrightarrow> f64_rat f = of_int (rat_trunc (f64_rat f))"
    using ftrunc_small[OF fin le] fin by (simp add: feq_finite)
  have "floatToInt f = (if (f64_rat f \<noteq> 0 \<or> \<not> f64_sign f) \<and> f64_rat f = of_int (rat_trunc (f64_rat f))
      then Some (rat_trunc (f64_rat f)) else None)"
    using fin by (simp add: floatToInt_def b t feq_zero int_of_f64_def finite_not_special)
  moreover have "\<bar>i\<bar> \<le> maxInt" if "f64_rat f = of_int i"
    using le that by (simp flip: of_int_abs)
  ultimately show ?thesis using fin by (auto split: if_splits)
next
  case nf: False
  have "floatToInt f = None"
  proof (cases "f64_finite f")
    case True
    with nf have "\<not> (fle (f64_of_int (- maxInt)) f \<and> fle f (f64_of_int maxInt))"
      by (auto simp: fle_int_left fle_int_right)
    then show ?thesis by (auto simp: floatToInt_def)
  next
    case False
    then have "f64_isnan f \<or> f64_isinf f" by (simp add: f64_finite_iff)
    then show ?thesis by (auto simp: floatToInt_def feq_def)
  qed
  moreover have "\<bar>f64_rat f\<bar> \<le> of_int maxInt" if "f64_rat f = of_int i" "\<bar>i\<bar> \<le> maxInt"
    using that by (simp flip: of_int_abs)
  ultimately show ?thesis using nf by auto
qed

lemma floatToInt_of_int: "\<bar>i\<bar> \<le> maxInt \<Longrightarrow> floatToInt (f64_of_int i) = Some i"
  by (auto simp: floatToInt_iff f64_of_int_small)

lemma floatToValue_of_int: "\<bar>i\<bar> \<le> maxInt \<Longrightarrow> floatToValue (f64_of_int i) = VInt i"
  by (simp add: floatToValue_def floatToInt_of_int intToValue_small)

lemma floatToValue_cases:
  obtains (int) i where "floatToInt f = Some i" "floatToValue f = VInt i" "\<bar>i\<bar> \<le> maxInt"
  | (negzero) "f = negativeZero" "floatToValue f = VFloat negativeZero"
  | (nan) "f64_isnan f" "floatToValue f = VFloat f64_nan"
  | (other) "floatToInt f = None" "\<not> feq f (f64_zero False)" "\<not> f64_isnan f" "floatToValue f = VFloat f"
proof (cases "floatToInt f")
  case (Some i)
  then have "\<bar>i\<bar> \<le> maxInt" by (simp add: floatToInt_iff)
  with Some int show thesis by (simp add: floatToValue_def intToValue_small)
next
  case None
  consider "feq f (f64_zero False)" | "f64_isnan f" | "f64_isinf f" "\<not> f64_isnan f"
    | "\<not> feq f (f64_zero False)" "f64_finite f"
    by (auto simp: f64_finite_iff)
  then show thesis
  proof cases
    case 1
    then have z: "f64_finite f" "f64_rat f = 0" by (simp_all add: feq_zero)
    with None have "f64_sign f" using floatToInt_iff[of f 0] by auto
    with z have "f = negativeZero" using f64_zero_iff[of f] by simp
    with negzero None show thesis by (simp add: floatToValue_def feq_zero)
  next
    case 2
    with nan None show thesis by (simp add: floatToValue_def feq_def)
  next
    case 3
    have "f = f64_inf (f64_sign f)"
      using 3 f64_inf_props(1,2)[of "f64_sign f"]
      by (intro f64_fields_eq) (auto simp: f64_isinf_def)
    moreover have nz: "\<not> feq f (f64_zero False)" using 3 by (auto simp: feq_zero)
    ultimately have "floatToValue f = VFloat f"
      using 3 None by (cases "f64_sign f") (simp_all add: floatToValue_def)
    with other 3 None nz show thesis by simp
  next
    case 4
    with None have "floatToValue f = VFloat f" by (simp add: floatToValue_def finite_not_special)
    with other 4 None show thesis by (simp add: finite_not_special)
  qed
qed

lemma floatToValue_negativeZero: "floatToValue negativeZero = VFloat negativeZero"
  by (rule floatToValue_cases[of negativeZero]) (auto simp: floatToInt_iff feq_zero)

lemma floatToValue_nan: "f64_isnan f \<Longrightarrow> floatToValue f = VFloat f64_nan"
  by (rule floatToValue_cases[of f]) (auto simp: floatToInt_iff)

lemma canonical_floatToValue [simp]: "canonical (floatToValue f)"
proof (cases f rule: floatToValue_cases)
  case nan
  then show ?thesis by (simp add: floatToValue_nan)
qed (auto simp: floatToValue_negativeZero)

lemma canonical_VFloatD:
  assumes "canonical (VFloat f)"
  shows "floatToInt f = None" "f64_isnan f \<Longrightarrow> f = f64_nan"
    "feq f (f64_zero False) \<Longrightarrow> f = negativeZero"
proof -
  have *: "floatToValue f = VFloat f" using assms by simp
  show "floatToInt f = None"
  proof (cases "floatToInt f")
    case (Some i)
    then have "intToValue i = VInt i" by (simp add: floatToInt_iff intToValue_small)
    with * Some show ?thesis by (simp add: floatToValue_def)
  qed
  show "f = f64_nan" if "f64_isnan f" using * floatToValue_nan[OF that] by simp
  show "f = negativeZero" if "feq f (f64_zero False)"
    using * that \<open>floatToInt f = None\<close> by (simp add: floatToValue_def)
qed

lemma canonical_VFloat_not_int:
  assumes "canonical (VFloat f)" "\<bar>i\<bar> \<le> maxInt" "feq f (f64_of_int i)"
  shows "i = 0" "f64_sign f"
proof -
  have fin: "f64_finite f" "f64_rat f = of_int i"
    using assms(3) f64_of_int_small[OF assms(2)] by (auto simp: feq_def)
  with canonical_VFloatD(1)[OF assms(1)] assms(2) floatToInt_iff[of f i]
  show "i = 0" "f64_sign f" by auto
qed

text \<open>On canonical values, \<^verbatim>\<open>SameAs\<close> (SameValue) is identity of representation.\<close>

lemma SameAs_canonical:
  assumes "canonical x" "canonical y"
  shows "SameAs x y \<longleftrightarrow> x = y"
proof (cases x)
  case (VFloat f)
  note cf = assms(1)[unfolded VFloat]
  show ?thesis
  proof (cases y)
    case (VFloat g)
    note cg = assms(2)[unfolded VFloat]
    show ?thesis
    proof (cases "f64_isnan f \<and> f64_isnan g")
      case True
      then show ?thesis
        using canonical_VFloatD(2)[OF cf] canonical_VFloatD(2)[OF cg]
        by (simp add: \<open>x = VFloat f\<close> VFloat valueFloat_SameAs_def)
    next
      case False
      have "feq f f" if "\<not> f64_isnan f" using that by (simp add: feq_def)
      moreover have "f = g" if "feq f g"
      proof (cases "feq f (f64_zero False)")
        case True
        then have "feq g (f64_zero False)" using that by (auto simp: feq_def)
        with True show ?thesis using canonical_VFloatD(3)[OF cf] canonical_VFloatD(3)[OF cg] by simp
      qed (rule feq_imp_eq[OF that])
      ultimately show ?thesis
        using False by (auto simp: \<open>x = VFloat f\<close> VFloat valueFloat_SameAs_def Let_def)
    qed
  next
    case (VInt i)
    then have "\<bar>i\<bar> \<le> maxInt" using assms(2) by simp
    then show ?thesis
      using canonical_VFloat_not_int[OF cf, of i]
      by (auto simp: VFloat VInt valueFloat_SameAs_def Let_def)
  qed (auto simp: VFloat valueFloat_SameAs_def)
qed (auto simp: valueBool_SameAs_def valueInt_SameAs_def valueBigInt_SameAs_def
    string_StrictEquals_def Symbol_SameAs_def Object_StrictEquals_def split: val.splits)

text \<open>An \<^verbatim>\<open>int64\<close> outside the safe range rounds to a double beyond it, with one exception on each side.\<close>

lemma round_beyond_maxInt:
  assumes "maxInt < q" "q < 2 ^ 64"
  shows "of_int maxInt \<le> f64_mag (f64_round s (of_int q))" "f64_finite (f64_round s (of_int q))"
    "f64_sign (f64_round s (of_int q)) = s"
    "f64_mag (f64_round s (of_int q)) = of_int maxInt \<longleftrightarrow> q = maxInt + 1"
proof -
  define r where "r = (of_int q :: rat)"
  define e where "e = max (- 1074) (ilog2 r - 52)"
  have r0: "0 < r" using assms(1) by (simp add: r_def maxInt_def)
  have lo: "pow2 53 \<le> r" using assms(1) of_int_le_iff[of "2 ^ 53" q, where ?'a = rat]
    by (simp add: r_def maxInt_def pow2_numeral)
  have hi: "r < pow2 64" using assms(2) of_int_less_iff[of q "2 ^ 64", where ?'a = rat]
    by (simp add: r_def pow2_numeral)
  have "53 \<le> ilog2 r" using ilog2_bounds(2)[OF r0] lo pow2_less_iff[of 53 "ilog2 r + 1"] by linarith
  moreover have "ilog2 r < 64" by (rule ilog2_le[OF r0 hi])
  ultimately have e: "1 \<le> e" "e \<le> 11" by (auto simp: e_def)
  define n where "n = round_half_even (r / pow2 e)"
  have sig: "r / pow2 e < 2 ^ 53" "2 ^ 52 \<le> r / pow2 e"
    using round_exponent_significand[OF r0 e_def] e by auto
  have n: "2 ^ 52 \<le> n" "n \<le> 2 ^ 53"
    using round_half_even_bounds(1)[of "2 ^ 52" "r / pow2 e"]
      round_half_even_bounds(2)[of "r / pow2 e" "2 ^ 53"] sig by (auto simp: n_def)
  have b: "(e + 1074) * 2 ^ 52 + n < 2047 * 2 ^ 52" using e n by auto
  have R: "f64_round s r = f64_pack s ((e + 1074) * 2 ^ 52 + n)"
    using r0 b unfolding f64_round_def by (simp add: e_def[symmetric] n_def[symmetric] Let_def)
  have M: "f64_mag (f64_round s r) = of_int n * pow2 e" "f64_finite (f64_round s r)"
    "f64_sign (f64_round s r) = s"
    using f64_mag_pack[of e n s] n e b unfolding R by auto
  show "f64_finite (f64_round s (of_int q))" "f64_sign (f64_round s (of_int q)) = s"
    using M(2,3) by (auto simp: r_def)
  have "of_int n * pow2 e = of_int (n * 2 ^ nat e)" using e by (simp add: pow2_int)
  then have mag: "f64_mag (f64_round s (of_int q)) = of_int (n * 2 ^ nat e)" using M(1) by (simp add: r_def)
  have main: "maxInt \<le> n * 2 ^ nat e \<and> (n * 2 ^ nat e = maxInt \<longleftrightarrow> q = maxInt + 1)"
  proof (cases "e = 1")
    case True
    have half: "r / pow2 e = of_int q / 2" by (simp add: r_def True pow2_def)
    show ?thesis
    proof (cases "q = maxInt + 1")
      case True
      have fl: "\<lfloor>9007199254740993 / 2 :: rat\<rfloor> = 4503599627370496" by (rule floor_unique) simp_all
      have "n = 2 ^ 52"
        unfolding n_def half True by (simp add: maxInt_def round_half_even_def Let_def fl)
      then show ?thesis using True \<open>e = 1\<close> by (simp add: maxInt_def)
    next
      case False
      then have "maxInt + 2 \<le> q" using assms(1) by simp
      then have "(of_int (maxInt + 2) :: rat) \<le> of_int q" by (simp only: of_int_le_iff)
      then have "of_int (2 ^ 52 + 1) \<le> r / pow2 e" unfolding half by (simp add: maxInt_def)
      then have "2 ^ 52 + 1 \<le> n" unfolding n_def by (rule round_half_even_bounds(1))
      then show ?thesis using False \<open>e = 1\<close> by (simp add: maxInt_def)
    qed
  next
    case False
    then have "(2::int) ^ 2 \<le> 2 ^ nat e" using e by (intro power_increasing) auto
    then have "2 ^ 52 * 4 \<le> n * 2 ^ nat e" using n by (intro mult_mono) auto
    moreover have "q \<noteq> maxInt + 1"
    proof
      assume "q = maxInt + 1"
      then have "r < pow2 54" by (simp add: r_def maxInt_def pow2_numeral)
      then have "ilog2 r < 54" by (rule ilog2_le[OF r0])
      with False e show False by (auto simp: e_def)
    qed
    ultimately show ?thesis by (auto simp: maxInt_def)
  qed
  show "of_int maxInt \<le> f64_mag (f64_round s (of_int q))"
    using main unfolding mag by (simp only: of_int_le_iff)
  show "f64_mag (f64_round s (of_int q)) = of_int maxInt \<longleftrightarrow> q = maxInt + 1"
    using main unfolding mag by (simp only: of_int_eq_iff)
qed

lemma f64_of_int_large:
  assumes "maxInt < \<bar>i\<bar>" "is_int64 i"
  shows "f64_finite (f64_of_int i)" "f64_sign (f64_of_int i) \<longleftrightarrow> i < 0"
    "of_int maxInt \<le> f64_mag (f64_of_int i)"
    "f64_mag (f64_of_int i) = of_int maxInt \<longleftrightarrow> \<bar>i\<bar> = maxInt + 1"
proof -
  have "\<bar>i\<bar> < 2 ^ 64" using assms(2) by (auto simp: is_int64_def)
  note R = round_beyond_maxInt[OF assms(1) this, of "i < 0"]
  have "f64_of_int i = f64_round (i < 0) (of_int \<bar>i\<bar>)"
    using assms(1) by (simp add: f64_of_int_def f64_of_rat_def)
  with R show "f64_finite (f64_of_int i)" "f64_sign (f64_of_int i) \<longleftrightarrow> i < 0"
    "of_int maxInt \<le> f64_mag (f64_of_int i)"
    "f64_mag (f64_of_int i) = of_int maxInt \<longleftrightarrow> \<bar>i\<bar> = maxInt + 1" by simp_all
qed

lemma floatToInt_of_int_large:
  assumes "maxInt < \<bar>i\<bar>" "is_int64 i"
  shows "floatToInt (f64_of_int i) =
    (if \<bar>i\<bar> = maxInt + 1 then Some (if i < 0 then - maxInt else maxInt) else None)"
proof -
  note L = f64_of_int_large[OF assms]
  show ?thesis
  proof (cases "\<bar>i\<bar> = maxInt + 1")
    case True
    then have "f64_rat (f64_of_int i) = of_int (if i < 0 then - maxInt else maxInt)"
      using L by (simp add: f64_rat_def)
    then have "floatToInt (f64_of_int i) = Some (if i < 0 then - maxInt else maxInt)"
      unfolding floatToInt_iff using L by (auto simp: maxInt_def)
    with True show ?thesis by simp
  next
    case False
    then have gt: "of_int maxInt < f64_mag (f64_of_int i)" using L by simp
    have "floatToInt (f64_of_int i) = None"
    proof (rule ccontr)
      assume "floatToInt (f64_of_int i) \<noteq> None"
      then obtain j where "f64_rat (f64_of_int i) = of_int j" "\<bar>j\<bar> \<le> maxInt"
        by (auto simp: floatToInt_iff)
      moreover have "\<bar>f64_rat (f64_of_int i)\<bar> = f64_mag (f64_of_int i)"
        using f64_mag_nonneg by (simp add: f64_rat_def)
      ultimately have "of_int maxInt < (of_int \<bar>j\<bar> :: rat)" using gt by simp
      with \<open>\<bar>j\<bar> \<le> maxInt\<close> show False by (simp only: of_int_less_iff)
    qed
    with False show ?thesis by simp
  qed
qed

lemma intToValue_canonical_iff:
  assumes "is_int64 i"
  shows "(canonical (intToValue i) \<longleftrightarrow> \<bar>i\<bar> \<noteq> maxInt + 1) \<and>
    StrictEquals (intToValue i) (VFloat (f64_of_int i))"
proof (cases "\<bar>i\<bar> \<le> maxInt")
  case True
  then show ?thesis
    using f64_of_int_small[OF True]
    by (auto simp: intToValue_small valueInt_StrictEquals_def feq_def)
next
  case False
  then have gt: "maxInt < \<bar>i\<bar>" by simp
  have I: "intToValue i = VFloat (f64_of_int i)" by (rule intToValue_large[OF gt assms])
  note L = f64_of_int_large[OF gt assms] and FI = floatToInt_of_int_large[OF gt assms]
  have eq: "StrictEquals (intToValue i) (VFloat (f64_of_int i))"
    using L(1) by (auto simp: I valueFloat_StrictEquals_def feq_def)
  have "floatToValue (f64_of_int i) = VFloat (f64_of_int i) \<longleftrightarrow> \<bar>i\<bar> \<noteq> maxInt + 1"
  proof (cases "\<bar>i\<bar> = maxInt + 1")
    case True
    then show ?thesis using FI by (auto simp: floatToValue_def intToValue_small)
  next
    case False
    have "f64_rat (f64_of_int i) \<noteq> 0"
    proof -
      have "(0::rat) < of_int maxInt" by (simp add: maxInt_def)
      then show ?thesis using L(3) by (auto simp: f64_rat_def maxInt_def)
    qed
    then show ?thesis
      using False FI L(1) by (simp add: floatToValue_def feq_zero finite_not_special)
  qed
  with eq show ?thesis by (simp add: I)
qed

subsection \<open>Conversion to 32-bit integers\<close>

lemma rat_trunc_neg: "rat_trunc (- r) = - rat_trunc r"
  by (auto simp: rat_trunc_def)

lemma floor_div_pow2: "0 \<le> k \<Longrightarrow> \<lfloor>of_int m * pow2 (- k)\<rfloor> = m div 2 ^ nat k"
proof -
  assume k: "0 \<le> k"
  have "of_int m * pow2 (- k) = of_int m / of_int (2 ^ nat k)"
    using k by (simp add: pow2_minus pow2_int)
  then show ?thesis by (simp only: floor_divide_of_int_eq)
qed

lemma trunc_mag:
  "\<lfloor>f64_mag f\<rfloor> =
    (let exp = f64_bexp f - 1075; mant = f64_frac f + 2 ^ 52 in
     if 0 \<le> exp then mant * 2 ^ nat exp else mant div 2 ^ nat (- exp))"
proof (cases "f64_bexp f = 0")
  case True
  have "f64_mag f < pow2 (- 1022)" by (rule f64_mag_subnormal[OF True])
  also have "\<dots> < 1" using pow2_less_iff[of "- 1022" 0] by simp
  finally have "\<lfloor>f64_mag f\<rfloor> = 0" using f64_mag_nonneg[of f] by (simp add: floor_eq_iff)
  moreover have "(f64_frac f + 2 ^ 52) div 2 ^ 1075 = 0"
  proof (rule div_pos_pos_trivial)
    have "f64_frac f + 2 ^ 52 < 2 ^ 53" using f64_fields_range(4)[of f] by simp
    also have "(2::int) ^ 53 < 2 ^ 1075" by (rule power_strict_increasing) simp_all
    finally show "f64_frac f + 2 ^ 52 < 2 ^ 1075" .
  qed (use f64_fields_range(3)[of f] in simp)
  ultimately show ?thesis unfolding Let_def True by (simp del: power_numeral)
next
  case False
  then have m: "f64_mag f = of_int (f64_frac f + 2 ^ 52) * pow2 (f64_bexp f - 1075)"
    by (simp add: f64_mag_def add.commute)
  show ?thesis
  proof (cases "0 \<le> f64_bexp f - 1075")
    case True
    then have "f64_mag f = of_int ((f64_frac f + 2 ^ 52) * 2 ^ nat (f64_bexp f - 1075))"
      unfolding m by (simp only: pow2_int of_int_mult)
    then show ?thesis using True by (simp only: Let_def floor_of_int if_True)
  next
    case False
    then have "\<lfloor>f64_mag f\<rfloor> = (f64_frac f + 2 ^ 52) div 2 ^ nat (- (f64_bexp f - 1075))"
      using floor_div_pow2[of "- (f64_bexp f - 1075)" "f64_frac f + 2 ^ 52"] unfolding m by simp
    then show ?thesis using False by (simp only: Let_def if_False)
  qed
qed

lemma mod_2_64_32: "(x mod 2 ^ 64) mod 2 ^ 32 = x mod (2 ^ 32 :: int)"
  by (simp add: mod_mod_cancel)

lemma mod_neg_cong: "a mod (2 ^ 32 :: int) = b mod 2 ^ 32 \<Longrightarrow> (- a) mod 2 ^ 32 = (- b) mod 2 ^ 32"
  using mod_minus_eq[of a "2 ^ 32"] mod_minus_eq[of b "2 ^ 32"] by simp

lemma floatToUint32_trunc:
  "floatToUint32 f = (if f64_finite f then rat_trunc (f64_rat f) mod 2 ^ 32 else 0)"
proof -
  define exp where "exp = f64_bexp f - 1075"
  define mant where "mant = f64_frac f + 2 ^ 52"
  define r where "r = (if 32 \<le> exp then 0 else if 0 \<le> exp then uint64 (mant * 2 ^ nat exp)
    else mant div 2 ^ nat (- exp))"
  have F: "floatToUint32 f = uint32 (if f64_sign f then uint64 (- r) else r)"
    unfolding floatToUint32_def Let_def r_def exp_def mant_def f64_bexp_def f64_frac_def f64_sign_def
    by (rule refl)
  have T: "\<lfloor>f64_mag f\<rfloor> = (if 0 \<le> exp then mant * 2 ^ nat exp else mant div 2 ^ nat (- exp))"
    unfolding exp_def mant_def using trunc_mag[of f] by (simp only: Let_def)
  have dvd: "(2::int) ^ 32 dvd 2 ^ nat exp" if "32 \<le> exp"
    using that by (intro le_imp_power_dvd) simp
  have r32: "r mod 2 ^ 32 = \<lfloor>f64_mag f\<rfloor> mod 2 ^ 32"
  proof (cases "32 \<le> exp")
    case True
    then have "(mant * 2 ^ nat exp) mod 2 ^ 32 = 0"
      using dvd by (simp add: dvd_imp_mod_0 dvd_mult)
    with True show ?thesis by (simp add: r_def T)
  next
    case False
    then show ?thesis unfolding T r_def wrap_u_def by (simp only: mod_2_64_32 if_False split: if_split)
      simp
  qed
  have tr: "rat_trunc (f64_rat f) = (if f64_sign f then - \<lfloor>f64_mag f\<rfloor> else \<lfloor>f64_mag f\<rfloor>)"
    using f64_mag_nonneg[of f] by (auto simp: f64_rat_def rat_trunc_neg) (simp_all add: rat_trunc_def)
  have "floatToUint32 f = rat_trunc (f64_rat f) mod 2 ^ 32"
    unfolding F tr wrap_u_def using r32 mod_neg_cong[OF r32]
    by (simp only: mod_2_64_32 split: if_split) simp
  moreover have "floatToUint32 f = 0" if "\<not> f64_finite f"
  proof -
    have "exp = 972" using that f64_fields_range(2)[of f] by (simp add: f64_finite_def exp_def)
    then show ?thesis unfolding F r_def by (simp add: wrap_u_def)
  qed
  ultimately show ?thesis by simp
qed

subsection \<open>Array index strings\<close>

fun decv :: "int \<Rightarrow> ustr \<Rightarrow> int" where
  "decv n [] = n"
| "decv n (c # cs) = decv (n * 10 + digit_val c) cs"

lemma decv_append: "decv n (s @ [c]) = decv n s * 10 + digit_val c"
  by (induction s arbitrary: n) auto

lemma is_digit_iff: "is_digit c \<longleftrightarrow> \<not> (c < 48 \<or> 57 < c)"
  by (auto simp: is_digit_def not_less)

lemma digit_val_range: "is_digit c \<Longrightarrow> 0 \<le> digit_val c \<and> digit_val c \<le> 9"
  by (auto simp: is_digit_def digit_val_def word_le_def)

lemma digit_word_of_nat:
  assumes "d < 10"
  shows "is_digit (of_nat (48 + d))" "digit_val (of_nat (48 + d)) = int d"
proof -
  have "uint (word_of_nat (48 + d) :: 16 word) = 48 + int d"
    using assms by (simp add: unsigned_of_nat take_bit_nat_eq_self del: of_nat_add)
  then show "is_digit (of_nat (48 + d))" "digit_val (of_nat (48 + d)) = int d"
    using assms by (auto simp: is_digit_def digit_val_def word_le_def simp del: of_nat_add)
qed

lemma word_of_digit:
  assumes "is_digit c"
  shows "of_nat (48 + nat (digit_val c)) = c"
proof -
  have "48 \<le> uint c" using assms by (simp add: is_digit_def word_le_def)
  then have "48 + nat (digit_val c) = nat (uint c)" unfolding digit_val_def by linarith
  then have *: "48 + nat (digit_val c) = unat c" by simp
  show ?thesis unfolding * by simp
qed

lemma dec_nat_digits: "\<forall>c \<in> set (dec_nat n). is_digit c"
proof (induction n rule: dec_nat.induct)
  case (1 n)
  show ?case
  proof (cases "n < 10")
    case True
    then show ?thesis by (subst dec_nat.simps) (simp add: digit_word_of_nat(1) del: of_nat_add)
  next
    case False
    with 1 show ?thesis
      by (subst dec_nat.simps) (auto simp: digit_word_of_nat(1) simp del: of_nat_add)
  qed
qed

lemma decv_dec_nat: "decv 0 (dec_nat n) = int n"
proof (induction n rule: dec_nat.induct)
  case (1 n)
  show ?case
  proof (cases "n < 10")
    case True
    then show ?thesis by (subst dec_nat.simps) (simp add: digit_word_of_nat(2) del: of_nat_add)
  next
    case False
    with 1 have "decv 0 (dec_nat (n div 10)) = int (n div 10)" by simp
    with False have "decv 0 (dec_nat n) = int (n div 10) * 10 + int (n mod 10)"
      by (subst dec_nat.simps) (simp add: decv_append digit_word_of_nat(2) del: of_nat_add)
    then show ?thesis by presburger
  qed
qed

lemma decv_mono: "\<forall>c \<in> set s. is_digit c \<Longrightarrow> 0 \<le> n \<Longrightarrow> n \<le> decv n s"
proof (induction s arbitrary: n)
  case (Cons c cs)
  then have "0 \<le> digit_val c" using digit_val_range by auto
  with Cons.prems have "n \<le> n * 10 + digit_val c" "0 \<le> n * 10 + digit_val c" by auto
  moreover from this have "n * 10 + digit_val c \<le> decv (n * 10 + digit_val c) cs"
    using Cons by auto
  ultimately show ?case by simp
qed simp

lemma decv_upper: "\<forall>c \<in> set s. is_digit c \<Longrightarrow> decv n s < (n + 1) * 10 ^ length s"
proof (induction s arbitrary: n)
  case (Cons c cs)
  then have "decv (n * 10 + digit_val c) cs < (n * 10 + digit_val c + 1) * 10 ^ length cs" by auto
  also have "\<dots> \<le> ((n + 1) * 10) * 10 ^ length cs"
    using Cons.prems digit_val_range[of c] by (intro mult_right_mono) auto
  finally show ?case by (simp add: algebra_simps)
qed simp

lemma decv_lower:
  "\<forall>c \<in> set s. is_digit c \<Longrightarrow> 0 \<le> n \<Longrightarrow> n * 10 ^ length s \<le> decv n s"
proof (induction s arbitrary: n)
  case (Cons c cs)
  have d: "0 \<le> digit_val c" using Cons.prems digit_val_range by auto
  have "(n * 10) * 10 ^ length cs \<le> (n * 10 + digit_val c) * 10 ^ length cs"
    using d by (intro mult_right_mono) auto
  also have "\<dots> \<le> decv (n * 10 + digit_val c) cs" using Cons d by auto
  finally show ?case by (simp add: algebra_simps)
qed simp

lemma hd_digit_pos: "is_digit c \<Longrightarrow> c \<noteq> 48 \<Longrightarrow> 1 \<le> digit_val c"
proof -
  assume c: "is_digit c" "c \<noteq> 48"
  have "digit_val c \<noteq> 0"
  proof
    assume "digit_val c = 0"
    then have "c = of_nat 48" using word_of_digit[OF c(1)] by simp
    with c(2) show False by simp
  qed
  with digit_val_range[OF c(1)] show ?thesis by linarith
qed

lemma dec_nat_decv:
  assumes "s \<noteq> []" "\<forall>c \<in> set s. is_digit c" "hd s \<noteq> 48 \<or> length s = 1"
  shows "dec_nat (nat (decv 0 s)) = s"
  using assms
proof (induction s rule: rev_induct)
  case (snoc c t)
  have c: "is_digit c" using snoc.prems by simp
  note dr = digit_val_range[OF c] and wd = word_of_digit[OF c]
  show ?case
  proof (cases "t = []")
    case True
    have "nat (digit_val c) < 10" using dr by linarith
    then show ?thesis using True wd by (subst dec_nat.simps) (simp del: of_nat_add)
  next
    case False
    then obtain a u where t: "t = a # u" by (cases t) auto
    have a: "is_digit a" "a \<noteq> 48" using snoc.prems t by auto
    have IH: "dec_nat (nat (decv 0 t)) = t" using snoc False t a by auto
    have "1 \<le> digit_val a" by (rule hd_digit_pos[OF a])
    moreover have "digit_val a \<le> decv 0 t"
      using decv_mono[of u "digit_val a"] digit_val_range[OF a(1)] snoc.prems t by simp
    ultimately have p: "1 \<le> decv 0 t" by linarith
    define m where "m = nat (decv 0 t)"
    define d where "d = nat (digit_val c)"
    have n: "nat (decv 0 (t @ [c])) = m * 10 + d" "d < 10" "\<not> m * 10 + d < 10"
      using p dr by (auto simp: decv_append m_def d_def nat_add_distrib nat_mult_distrib)
    then have "(m * 10 + d) div 10 = m" "(m * 10 + d) mod 10 = d" by auto
    then show ?thesis
      using n IH wd unfolding n(1)
      by (subst dec_nat.simps) (simp add: m_def[symmetric] d_def[symmetric] del: of_nat_add)
  qed
qed simp

lemma digits_loop_digits:
  "\<forall>c \<in> set s. is_digit c \<Longrightarrow> 0 \<le> n \<Longrightarrow> (n + 1) * 10 ^ length s \<le> 2 ^ 32 \<Longrightarrow>
    digits_loop n s = Some (decv n s)"
proof (induction s arbitrary: n)
  case (Cons c cs)
  have c: "is_digit c" using Cons.prems(1) by simp
  note dr = digit_val_range[OF c]
  have le: "(n * 10 + digit_val c + 1) * 10 ^ length cs \<le> 2 ^ 32"
  proof -
    have "(n * 10 + digit_val c + 1) * 10 ^ length cs \<le> ((n + 1) * 10) * 10 ^ length cs"
      using dr by (intro mult_right_mono) auto
    also have "\<dots> \<le> 2 ^ 32" using Cons.prems(3) by (simp add: algebra_simps)
    finally show ?thesis .
  qed
  have "n * 10 + digit_val c + 1 \<le> 2 ^ 32"
  proof (rule order_trans[OF _ le])
    have "(n * 10 + digit_val c + 1) * 1 \<le> (n * 10 + digit_val c + 1) * 10 ^ length cs"
      using dr Cons.prems(2) by (intro mult_left_mono) auto
    then show "n * 10 + digit_val c + 1 \<le> (n * 10 + digit_val c + 1) * 10 ^ length cs" by simp
  qed
  then have "n * 10 + digit_val c < 2 ^ 32" by linarith
  then have "uint32 (n * 10 + digit_val c) = n * 10 + digit_val c"
    using dr Cons.prems(2) by (intro wrap_u_id) auto
  moreover have "\<not> (c < 48 \<or> 57 < c)" using c by (auto simp: is_digit_def)
  ultimately show ?case using Cons.IH[OF _ _ le] Cons.prems dr by auto
qed simp

lemma digits_loop_nondigit: "\<not> (\<forall>c \<in> set s. is_digit c) \<Longrightarrow> digits_loop n s = None"
  by (induction s arbitrary: n) (auto simp: is_digit_def)

lemma strToArrayIdx_digits:
  assumes "\<forall>c \<in> set s. is_digit c" "s \<noteq> []" "hd s \<noteq> 48 \<or> length s = 1"
  shows "strToArrayIdx s = (if decv 0 s < MaxUint32 then decv 0 s else MaxUint32)"
proof (cases "hd s = 48")
  case True
  then have "s = [48]" using assms by (cases s) auto
  then show ?thesis by (simp add: strToArrayIdx_def digit_val_def)
next
  case hd: False
  then obtain a u where s: "s = a # u" "a \<noteq> 48" using assms(2) by (cases s) auto
  have a: "1 \<le> digit_val a" using s assms(1) by (intro hd_digit_pos) auto
  have up: "decv 0 s < 10 ^ length s" using decv_upper[OF assms(1), of 0] by simp
  have "digit_val a * 10 ^ length u \<le> decv 0 s"
    using decv_lower[of u "digit_val a"] assms(1) a s by simp
  moreover have "1 * 10 ^ length u \<le> digit_val a * 10 ^ length u" using a by (intro mult_right_mono) auto
  ultimately have lo: "10 ^ length u \<le> decv 0 s" by linarith
  consider "length s < 10" | "10 < length s" | "length s = 10" by linarith
  then show ?thesis
  proof cases
    case 1
    have "(10::int) ^ length s \<le> 10 ^ 9" using 1 by (intro power_increasing) auto
    then have "digits_loop 0 s = Some (decv 0 s)" "decv 0 s < MaxUint32"
      using digits_loop_digits[OF assms(1), of 0] up by auto
    with 1 hd assms(2) show ?thesis by (simp add: strToArrayIdx_def)
  next
    case 2
    then have "(10::int) ^ 10 \<le> 10 ^ length u" using s by (intro power_increasing) auto
    with lo have "\<not> decv 0 s < MaxUint32" by simp
    with 2 hd assms(2) show ?thesis by (simp add: strToArrayIdx_def)
  next
    case 3
    define t where "t = take 9 s"
    define c where "c = s ! 9"
    have sc: "s = t @ [c]" using 3 take_Suc_conv_app_nth[of 9 s] by (simp add: t_def c_def)
    have c: "is_digit c" and td: "\<forall>x \<in> set t. is_digit x" using assms(1) sc by auto
    have lt: "length t = 9" using 3 by (simp add: t_def)
    have tu: "decv 0 t < 10 ^ 9" "0 \<le> decv 0 t"
      using decv_upper[OF td, of 0] decv_mono[OF td, of 0] lt by auto
    have dl: "digits_loop 0 t = Some (decv 0 t)" by (rule digits_loop_digits[OF td]) (simp_all add: lt)
    have sv: "decv 0 s = decv 0 t * 10 + digit_val c" by (simp add: sc decv_append)
    note dr = digit_val_range[OF c]
    have S: "strToArrayIdx s =
      (if MaxUint32 div 10 + 1 \<le> decv 0 t then MaxUint32
       else let n = uint32 (decv 0 t * 10); n1 = uint32 (n + digit_val c) in
         if n1 < n then MaxUint32 else n1)"
      using 3 hd assms(2) c[unfolded is_digit_iff] dl unfolding strToArrayIdx_def
      by (simp add: t_def[symmetric] c_def[symmetric])
    show ?thesis
    proof (cases "MaxUint32 div 10 + 1 \<le> decv 0 t")
      case True
      then show ?thesis using dr unfolding S sv by simp
    next
      case False
      then have n: "uint32 (decv 0 t * 10) = decv 0 t * 10" using tu by (intro wrap_u_id) auto
      show ?thesis
      proof (cases "decv 0 t * 10 + digit_val c < 2 ^ 32")
        case True
        then have "uint32 (decv 0 t * 10 + digit_val c) = decv 0 t * 10 + digit_val c"
          using tu dr by (intro wrap_u_id) auto
        with True False dr show ?thesis unfolding S sv Let_def n by auto
      next
        case ov: False
        have "uint32 (decv 0 t * 10 + digit_val c) = decv 0 t * 10 + digit_val c - 2 ^ 32"
          unfolding wrap_u_def using ov False dr tu
          by (subst minus_mod_self2[symmetric]) (intro mod_pos_pos_trivial, auto)
        with ov False dr show ?thesis unfolding S sv Let_def n by auto
      qed
    qed
  qed
qed

lemma strToArrayIdx_nondigits:
  assumes "\<not> (\<forall>c \<in> set s. is_digit c) \<or> s = [] \<or> hd s = 48 \<and> length s \<noteq> 1"
  shows "strToArrayIdx s = MaxUint32"
proof (cases "s = [] \<or> hd s = 48 \<or> 10 < length s")
  case True
  have "is_digit 48" by (simp add: is_digit_def)
  then show ?thesis
    using True assms by (cases s) (auto simp: strToArrayIdx_def length_Suc_conv)
next
  case False
  then have nd: "\<not> (\<forall>c \<in> set s. is_digit c)" using assms by auto
  show ?thesis
  proof (cases "length s = 10")
    case True
    then have "s = take 9 s @ [s ! 9]" using take_Suc_conv_app_nth[of 9 s] by simp
    then have "\<not> (\<forall>c \<in> set (take 9 s). is_digit c) \<or> \<not> is_digit (s ! 9)"
      using nd by (metis Un_iff empty_iff list.set(1) list.set(2) insert_iff set_append)
    then show ?thesis
    proof
      assume "\<not> (\<forall>c \<in> set (take 9 s). is_digit c)"
      then have "digits_loop 0 (take 9 s) = None" by (rule digits_loop_nondigit)
      then show ?thesis using True False by (simp add: strToArrayIdx_def Let_def)
    next
      assume "\<not> is_digit (s ! 9)"
      then have "s ! 9 < 48 \<or> 57 < s ! 9" by (simp add: is_digit_iff)
      then show ?thesis using True False by (auto simp: strToArrayIdx_def Let_def)
    qed
  next
    case False
    then show ?thesis
      using digits_loop_nondigit[OF nd, of 0] \<open>\<not> (s = [] \<or> hd s = 48 \<or> 10 < length s)\<close>
      by (auto simp: strToArrayIdx_def)
  qed
qed

lemma dec_nat_shape: "dec_nat n \<noteq> []" "hd (dec_nat n) \<noteq> 48 \<or> length (dec_nat n) = 1"
proof -
  have "dec_nat n \<noteq> [] \<and> (hd (dec_nat n) = 48 \<longrightarrow> length (dec_nat n) = 1 \<and> n = 0)"
  proof (induction n rule: dec_nat.induct)
    case (1 n)
    show ?case
    proof (cases "n < 10")
      case True
      then show ?thesis
        using digit_word_of_nat(2)[OF True]
        by (subst (1 2 3) dec_nat.simps) (auto simp: digit_val_def simp del: of_nat_add)
    next
      case False
      with 1 have IH: "dec_nat (n div 10) \<noteq> []" "hd (dec_nat (n div 10)) \<noteq> 48" by auto
      with False show ?thesis by (subst (1 2 3) dec_nat.simps) auto
    qed
  qed
  then show "dec_nat n \<noteq> []" "hd (dec_nat n) \<noteq> 48 \<or> length (dec_nat n) = 1" by auto
qed

lemma strToArrayIdx_dec_nat:
  "strToArrayIdx (dec_nat n) = (if int n < MaxUint32 then int n else MaxUint32)"
  using strToArrayIdx_digits[OF dec_nat_digits dec_nat_shape] by (simp add: decv_dec_nat)

lemma strToArrayIdx_inverse:
  assumes "strToArrayIdx s \<noteq> MaxUint32"
  shows "0 \<le> strToArrayIdx s" "strToArrayIdx s < MaxUint32" "s = dec_nat (nat (strToArrayIdx s))"
proof -
  have d: "\<forall>c \<in> set s. is_digit c" "s \<noteq> []" "hd s \<noteq> 48 \<or> length s = 1"
    using assms strToArrayIdx_nondigits[of s] by auto
  note S = strToArrayIdx_digits[OF d]
  have "decv 0 s < MaxUint32" using assms S by (auto split: if_splits)
  then have "strToArrayIdx s = decv 0 s" using S by simp
  with \<open>decv 0 s < MaxUint32\<close> show "0 \<le> strToArrayIdx s" "strToArrayIdx s < MaxUint32"
    "s = dec_nat (nat (strToArrayIdx s))"
    using decv_mono[OF d(1), of 0] dec_nat_decv[OF d(2,1,3)] by auto
qed

subsection \<open>Clamped conversion to bytes\<close>

lemma ffloor_small:
  assumes "f64_finite f" "0 \<le> f64_rat f" "f64_rat f \<le> 255"
  shows "f64_rat (ffloor f) = of_int \<lfloor>f64_rat f\<rfloor>" "f64_finite (ffloor f)"
    "int_of_f64 (ffloor f) = \<lfloor>f64_rat f\<rfloor>" "0 \<le> \<lfloor>f64_rat f\<rfloor>" "\<lfloor>f64_rat f\<rfloor> \<le> 255"
proof -
  define t where "t = \<lfloor>f64_rat f\<rfloor>"
  have t: "0 \<le> t" "t \<le> 255" unfolding t_def using assms(2,3) by (simp, linarith)
  then have "\<bar>t\<bar> \<le> 2 ^ 53" by simp
  note R = f64_round_exact[OF representable_int[OF this]]
  show r: "f64_rat (ffloor f) = of_int \<lfloor>f64_rat f\<rfloor>" and "f64_finite (ffloor f)"
    using assms(1) R t by (auto simp: ffloor_def f64_of_rat_def t_def[symmetric])
  show "int_of_f64 (ffloor f) = \<lfloor>f64_rat f\<rfloor>" by (simp add: int_of_f64_def r)
  show "0 \<le> \<lfloor>f64_rat f\<rfloor>" "\<lfloor>f64_rat f\<rfloor> \<le> 255" using t by (simp_all add: t_def)
qed

lemma fadd_exact:
  assumes "f64_finite a" "f64_finite b" "0 < f64_rat a + f64_rat b" "representable (f64_rat a + f64_rat b)"
  shows "f64_rat (fadd a b) = f64_rat a + f64_rat b" "f64_finite (fadd a b)"
proof -
  have "fadd a b = f64_round False (f64_rat a + f64_rat b)"
    using assms(1-3) by (simp add: fadd_def f64_of_rat_def finite_not_special)
  then show "f64_rat (fadd a b) = f64_rat a + f64_rat b" "f64_finite (fadd a b)"
    using f64_round_exact[OF assms(4), of False] by simp_all
qed

lemma f64_half: "f64_rat (f64_of_rat False (1 / 2)) = 1 / 2" "f64_finite (f64_of_rat False (1 / 2))"
proof -
  have "representable (1 / 2)"
    unfolding representable_def by (intro exI[of _ 1] exI[of _ "- 1"]) (simp add: pow2_def)
  from f64_round_exact[OF this, of False]
  show "f64_rat (f64_of_rat False (1 / 2)) = 1 / 2" "f64_finite (f64_of_rat False (1 / 2))"
    by (simp_all add: f64_of_rat_def)
qed

lemma flt_finite: "f64_finite a \<Longrightarrow> f64_finite b \<Longrightarrow> flt a b \<longleftrightarrow> f64_rat a < f64_rat b"
  by (auto simp: flt_def)

lemma toUint8Clamp_in_range:
  assumes "f64_finite f" "0 \<le> f64_rat f" "f64_rat f \<le> 255"
  shows "toUint8Clamp (VFloat f) = round_half_even (f64_rat f)"
proof -
  define g where "g = ffloor f"
  define t where "t = \<lfloor>f64_rat f\<rfloor>"
  note G = ffloor_small[OF assms, folded g_def t_def]
  define f1 where "f1 = fadd g (f64_of_rat False (1 / 2))"
  have "representable (of_int t + 1 / 2)"
    unfolding representable_def using G(4,5)
    by (intro exI[of _ "2 * t + 1"] exI[of _ "- 1"]) (simp add: pow2_def field_simps)
  then have F1: "f64_rat f1 = of_int t + 1 / 2" "f64_finite f1"
    using fadd_exact[of g "f64_of_rat False (1 / 2)"] G f64_half unfolding f1_def by auto
  have tt: "\<bar>t + 1\<bar> \<le> 2 ^ 53" using G(4,5) by simp
  have "f64_rat (fadd g (f64_of_int 1)) = of_int t + 1"
    using fadd_exact[of g "f64_of_int 1"] G f64_of_int_exact[of 1] representable_int[OF tt] by simp
  then have I: "int_of_f64 (fadd g (f64_of_int 1)) = t + 1"
    unfolding int_of_f64_def by (metis of_int_1 of_int_add rat_trunc_of_int)
  have t8: "uint8 t = t" using G(4,5) by (intro wrap_u_id) auto
  have "t + 1 \<le> 255" if "f64_rat f \<noteq> of_int t"
    using assms(3) that G(4,5) unfolding t_def by linarith
  then have t18: "uint8 (t + 1) = t + 1" if "f64_rat f \<noteq> of_int t"
    using that G(4,5) by (intro wrap_u_id) auto
  have "\<not> f64_isnan f" using assms(1) by auto
  moreover have "\<not> flt f (f64_zero False)" using assms by (simp add: flt_finite)
  moreover have "\<not> flt (f64_of_int 255) f" using assms f64_of_int_exact[of 255] by (simp add: flt_finite)
  ultimately have "toUint8Clamp (VFloat f) =
     (if f64_rat f1 < f64_rat f then uint8 (t + 1)
      else if f64_rat f < f64_rat f1 then uint8 t
      else if uint8 t mod 2 \<noteq> 0 then uint8 (uint8 t + 1) else uint8 t)"
    using assms(1) F1(2) G(3) I
    by (simp add: g_def[symmetric] f1_def[symmetric] flt_finite Let_def)
  also have "\<dots> = round_half_even (f64_rat f)"
    unfolding round_half_even_def Let_def F1(1) t_def[symmetric] t8
    using t18 by (auto simp: field_simps even_iff_mod_2_eq_zero)
  finally show ?thesis .
qed

section \<open>Properties\<close>

text \<open>
  On canonical values \<^verbatim>\<open>SameAs\<close> decides identity, so it is reflexive, symmetric and transitive
  there, and values it identifies have equal hashes. The hash tables of Map and Set rest on this.
\<close>

theorem SameAs_identity_and_hash:
  assumes "canonical x" "canonical y"
  shows "(SameAs x y \<longleftrightarrow> x = y) \<and> SameAs x x \<and> (SameAs x y \<longrightarrow> SameAs y x \<and> hash hs x = hash hs y)"
  using SameAs_canonical[OF assms] SameAs_canonical[OF assms(1,1)] SameAs_canonical[OF assms(2,1)]
  by auto

definition hasher0 :: hasher where
  "hasher0 = \<lparr>h_undef = 1, h_null = 2, h_true = 3, h_false = 4, h_str = (\<lambda>s. int (length s)),
     h_bigint = (\<lambda>i. i), h_sym = int, h_obj = int\<rparr>"

theorem SameAs_identity_and_hash_witness:
  "canonical (VInt 5) \<and> canonical (VFloat f64_nan) \<and>
   (SameAs (VInt 5) (VFloat f64_nan) \<longleftrightarrow> VInt 5 = VFloat f64_nan) \<and> SameAs (VInt 5) (VInt 5)"
proof -
  have c: "canonical (VInt 5)" "canonical (VFloat f64_nan)"
    by (simp_all add: maxInt_def floatToValue_nan)
  show ?thesis using c SameAs_identity_and_hash[OF c, of hasher0] by blast
qed

text \<open>
  \<^verbatim>\<open>intToValue\<close> builds a value numerically equal to the double nearest to its argument; the value
  is in canonical form except when the argument is one beyond the safe range (\<open>2 ^ 53 + 1\<close> or its
  negation), where it is a \<^verbatim>\<open>valueFloat\<close> holding the integer \<open>2 ^ 53\<close>.
\<close>

theorem intToValue_canonical:
  assumes "is_int64 i"
  shows "(canonical (intToValue i) \<longleftrightarrow> \<bar>i\<bar> \<noteq> maxInt + 1) \<and>
    StrictEquals (intToValue i) (VFloat (f64_of_int i))"
  using intToValue_canonical_iff[OF assms] by blast

theorem intToValue_canonical_witness:
  "is_int64 9007199254740993 \<and> \<not> canonical (intToValue 9007199254740993) \<and>
   canonical (intToValue 9007199254740994)"
proof -
  have i: "is_int64 9007199254740993" "is_int64 9007199254740994" by (simp_all add: is_int64_def)
  show ?thesis
    using i intToValue_canonical[OF i(1)] intToValue_canonical[OF i(2)] by (simp add: maxInt_def)
qed

text \<open>
  \<^verbatim>\<open>floatToValue\<close> always builds a canonical value and changes neither the numeric value of a
  finite double, nor the sign of zero, nor the infinities; every NaN becomes the one NaN constant.
\<close>

theorem floatToValue_exact:
  "canonical (floatToValue f) \<and>
   (if f64_isnan f then floatToValue f = VFloat f64_nan else SameAs (VFloat f) (floatToValue f))"
proof (cases f rule: floatToValue_cases)
  case (int i)
  then have fin: "f64_finite f" "f64_rat f = of_int i" "i = 0 \<longrightarrow> \<not> f64_sign f"
    by (simp_all add: floatToInt_iff)
  then have "SameAs (VFloat f) (VInt i)"
    using f64_of_int_small[OF int(3)]
    by (auto simp: valueFloat_SameAs_def feq_finite feq_zero Let_def)
  with int fin show ?thesis by (auto simp: finite_not_special)
next
  case negzero
  then show ?thesis by (auto simp: valueFloat_SameAs_def feq_def)
next
  case nan
  then show ?thesis by (auto simp: floatToValue_nan)
next
  case other
  then show ?thesis by (auto simp: valueFloat_SameAs_def feq_def)
qed

text \<open>
  \<^verbatim>\<open>floatToUint32\<close>, computed from the bits of the double by shifts, is ECMAScript's ToUint32:
  the truncation of the value modulo \<open>2 ^ 32\<close>, and 0 for NaN and the infinities.
\<close>

theorem floatToUint32_correct:
  "floatToUint32 f = (if f64_finite f then rat_trunc (f64_rat f) mod 2 ^ 32 else 0)"
  by (rule floatToUint32_trunc)

text \<open>
  \<^verbatim>\<open>strToArrayIdx\<close> accepts exactly the canonical decimal strings of the array indices (the
  integers below \<open>2 ^ 32 - 1\<close>), the ones \<^verbatim>\<open>valueInt.string()\<close> prints, and returns their value.
\<close>

theorem strToArrayIdx_canonical_numeric:
  "strToArrayIdx s = i \<and> i \<noteq> MaxUint32 \<longleftrightarrow> 0 \<le> i \<and> i < MaxUint32 \<and> s = valueInt_string i"
proof
  assume "strToArrayIdx s = i \<and> i \<noteq> MaxUint32"
  then show "0 \<le> i \<and> i < MaxUint32 \<and> s = valueInt_string i"
    using strToArrayIdx_inverse[of s] by (auto simp: valueInt_string_def)
next
  assume "0 \<le> i \<and> i < MaxUint32 \<and> s = valueInt_string i"
  then show "strToArrayIdx s = i \<and> i \<noteq> MaxUint32"
    using strToArrayIdx_dec_nat[of "nat i"] by (auto simp: valueInt_string_def)
qed

text \<open>
  \<^verbatim>\<open>toUint8Clamp\<close> on a double is ECMAScript's ToUint8Clamp: 0 for NaN, saturation at 0 and
  255, and rounding to the nearest integer with ties to even in between.
\<close>

theorem toUint8Clamp_correct:
  "toUint8Clamp (VFloat f) =
     (if f64_isnan f then 0
      else if f64_isinf f then (if f64_sign f then 0 else 255)
      else if f64_rat f < 0 then 0
      else if 255 < f64_rat f then 255
      else round_half_even (f64_rat f))"
proof (cases "f64_finite f")
  case True
  then have special: "\<not> f64_isnan f" "\<not> f64_isinf f" by auto
  have lt: "flt f (f64_zero False) \<longleftrightarrow> f64_rat f < 0" "flt (f64_of_int 255) f \<longleftrightarrow> 255 < f64_rat f"
    using True f64_of_int_exact[of 255] by (simp_all add: flt_finite)
  show ?thesis
  proof (cases "f64_rat f < 0 \<or> 255 < f64_rat f")
    case True
    then show ?thesis using special lt by auto
  next
    case False
    then show ?thesis using toUint8Clamp_in_range[OF True] special by simp
  qed
next
  case False
  then have "f64_isnan f \<or> f64_isinf f" by (auto simp: f64_finite_iff)
  moreover have "f64_isinf f \<Longrightarrow> \<not> f64_isnan f" by (auto simp: f64_isinf_def f64_isnan_def)
  moreover have "f64_isinf f \<Longrightarrow> f \<noteq> f64_zero False" "f64_isinf f \<Longrightarrow> f \<noteq> f64_of_int 255"
    using f64_of_int_exact[of 255] f64_zero_props(5)[of False] by (auto dest: finite_not_special)
  moreover have "\<not> f64_isnan (f64_of_int 255)" "\<not> f64_isinf (f64_of_int 255)"
    using f64_of_int_exact[of 255] by auto
  ultimately show ?thesis by (auto simp: flt_def)
qed

end
