(* ===== verification/Arith.thy ===== *)
theory Arith
  imports Values
begin

unbundle bit_operations_syntax

text \<open>
  The arithmetic, bitwise and relational operators of the virtual machine (the \<^verbatim>\<open>exec\<close> methods of
  \<^verbatim>\<open>_add\<close>, \<^verbatim>\<open>_sub\<close>, \<^verbatim>\<open>_mul\<close>, ... in vm.go) as functions from operand values to the result value; the
  stack discipline around them is in the theory Machine. Converting an object operand runs user
  code, so the operators are computations over a world of type \<open>'w\<close>: a computation returns an
  error or a value, and the world after it.
\<close>

section \<open>Computations that may throw\<close>

type_synonym ('w, 'a) jsm = "'w \<Rightarrow> (jserr + 'a) \<times> 'w"

definition ret :: "'a \<Rightarrow> ('w, 'a) jsm" where
  "ret x w = (Inr x, w)"

definition throwM :: "jserr \<Rightarrow> ('w, 'a) jsm" where
  "throwM e w = (Inl e, w)"

definition bindM :: "('w, 'a) jsm \<Rightarrow> ('a \<Rightarrow> ('w, 'b) jsm) \<Rightarrow> ('w, 'b) jsm" where
  "bindM m k w = (case m w of (Inl e, w') \<Rightarrow> (Inl e, w') | (Inr x, w') \<Rightarrow> k x w')"

lemma bindM_ret [simp]: "bindM (ret x) k = k x"
  by (simp add: bindM_def ret_def fun_eq_iff)

lemma bindM_throw [simp]: "bindM (throwM e) k = throwM e"
  by (simp add: bindM_def throwM_def fun_eq_iff)

lemma ret_eq_iff [simp]: "ret x = ret y \<longleftrightarrow> x = y" "ret x w = (Inr y, w') \<longleftrightarrow> x = y \<and> w = w'"
  by (auto simp: ret_def fun_eq_iff)

lemma bindM_assoc: "bindM (bindM m k) l = bindM m (\<lambda>x. bindM (k x) l)"
  by (auto simp: bindM_def fun_eq_iff split: sum.splits prod.splits)

text \<open>
  What the operators need of the rest of the engine: property reads and calls of user code (with
  their effect on the world), and the conversions between strings and numbers.
\<close>

record 'w env =
  e_getStr :: "oid \<Rightarrow> ustr \<Rightarrow> ('w, val option) jsm"
  e_getSym :: "oid \<Rightarrow> nat \<Rightarrow> ('w, val option) jsm"
  e_callable :: "oid \<Rightarrow> bool"
  e_call :: "oid \<Rightarrow> val \<Rightarrow> val list \<Rightarrow> ('w, val) jsm"
  e_strToNumber :: "ustr \<Rightarrow> val"
  e_strToBigInt :: "ustr \<Rightarrow> int option"
  e_floatToStr :: "float64 \<Rightarrow> ustr"
  e_pow :: "float64 \<Rightarrow> float64 \<Rightarrow> float64"

section \<open>Conversion of objects to primitives\<close>

definition SymToPrimitive :: nat where "SymToPrimitive = 0"

abbreviation hintDefault :: val where "hintDefault \<equiv> VStr (ascii ''default'')"
abbreviation hintNumber :: val where "hintNumber \<equiv> VStr (ascii ''number'')"
abbreviation hintString :: val where "hintString \<equiv> VStr (ascii ''string'')"

definition tryPrimitive :: "'w env \<Rightarrow> oid \<Rightarrow> ustr \<Rightarrow> ('w, val option) jsm" where
  "tryPrimitive E x methodName =
     bindM (e_getStr E x methodName) (\<lambda>m.
       case m of
         Some (VObj f) \<Rightarrow>
           if e_callable E f
           then bindM (e_call E f (VObj x) []) (\<lambda>v. case v of VObj _ \<Rightarrow> ret None | _ \<Rightarrow> ret (Some v))
           else ret None
       | _ \<Rightarrow> ret None)"

definition ordinaryToPrimitiveNumber :: "'w env \<Rightarrow> oid \<Rightarrow> ('w, val) jsm" where
  "ordinaryToPrimitiveNumber E x =
     bindM (tryPrimitive E x (ascii ''valueOf'')) (\<lambda>v. case v of Some p \<Rightarrow> ret p | None \<Rightarrow>
     bindM (tryPrimitive E x (ascii ''toString'')) (\<lambda>v. case v of Some p \<Rightarrow> ret p | None \<Rightarrow>
     throwM TypeErr))"

definition ordinaryToPrimitiveString :: "'w env \<Rightarrow> oid \<Rightarrow> ('w, val) jsm" where
  "ordinaryToPrimitiveString E x =
     bindM (tryPrimitive E x (ascii ''toString'')) (\<lambda>v. case v of Some p \<Rightarrow> ret p | None \<Rightarrow>
     bindM (tryPrimitive E x (ascii ''valueOf'')) (\<lambda>v. case v of Some p \<Rightarrow> ret p | None \<Rightarrow>
     throwM TypeErr))"

text \<open>\<^verbatim>\<open>toMethod\<close>: \<open>None\<close> for a missing, undefined or null method, an error for anything not callable.\<close>

definition toMethod :: "'w env \<Rightarrow> val option \<Rightarrow> ('w, oid option) jsm" where
  "toMethod E v =
     (case v of
        None \<Rightarrow> ret None
      | Some VUndef \<Rightarrow> ret None
      | Some VNull \<Rightarrow> ret None
      | Some (VObj f) \<Rightarrow> if e_callable E f then ret (Some f) else throwM TypeErr
      | Some _ \<Rightarrow> throwM TypeErr)"

definition tryExoticToPrimitive :: "'w env \<Rightarrow> oid \<Rightarrow> val \<Rightarrow> ('w, val option) jsm" where
  "tryExoticToPrimitive E x hint =
     bindM (e_getSym E x SymToPrimitive) (\<lambda>m.
     bindM (toMethod E m) (\<lambda>f.
       case f of
         None \<Rightarrow> ret None
       | Some fn \<Rightarrow>
           bindM (e_call E fn (VObj x) [hint]) (\<lambda>r.
             case r of VObj _ \<Rightarrow> throwM TypeErr | _ \<Rightarrow> ret (Some r))))"

definition Object_toPrimitiveNumber :: "'w env \<Rightarrow> oid \<Rightarrow> ('w, val) jsm" where
  "Object_toPrimitiveNumber E x =
     bindM (tryExoticToPrimitive E x hintNumber) (\<lambda>v.
       case v of Some p \<Rightarrow> ret p | None \<Rightarrow> ordinaryToPrimitiveNumber E x)"

definition Object_toPrimitiveString :: "'w env \<Rightarrow> oid \<Rightarrow> ('w, val) jsm" where
  "Object_toPrimitiveString E x =
     bindM (tryExoticToPrimitive E x hintString) (\<lambda>v.
       case v of Some p \<Rightarrow> ret p | None \<Rightarrow> ordinaryToPrimitiveString E x)"

definition Object_toPrimitive :: "'w env \<Rightarrow> oid \<Rightarrow> ('w, val) jsm" where
  "Object_toPrimitive E x =
     bindM (tryExoticToPrimitive E x hintDefault) (\<lambda>v.
       case v of Some p \<Rightarrow> ret p | None \<Rightarrow> ordinaryToPrimitiveNumber E x)"

definition toPrimitiveNumber :: "'w env \<Rightarrow> val \<Rightarrow> ('w, val) jsm" where
  "toPrimitiveNumber E v = (case v of VObj x \<Rightarrow> Object_toPrimitiveNumber E x | _ \<Rightarrow> ret v)"

definition toPrimitive :: "'w env \<Rightarrow> val \<Rightarrow> ('w, val) jsm" where
  "toPrimitive E v = (case v of VObj x \<Rightarrow> Object_toPrimitive E x | _ \<Rightarrow> ret v)"

section \<open>Conversion to numbers and strings\<close>

text \<open>\<^verbatim>\<open>ToNumber\<close>, \<^verbatim>\<open>ToFloat\<close> and \<^verbatim>\<open>toString\<close> of the primitive values.\<close>

fun prim_ToNumber :: "'w env \<Rightarrow> val \<Rightarrow> ('w, val) jsm" where
  "prim_ToNumber E VUndef = ret (VFloat f64_nan)"
| "prim_ToNumber E VNull = ret (intToValue 0)"
| "prim_ToNumber E (VBool b) = ret (VInt (if b then 1 else 0))"
| "prim_ToNumber E (VInt i) = ret (VInt i)"
| "prim_ToNumber E (VFloat f) = ret (VFloat f)"
| "prim_ToNumber E (VStr s) = ret (e_strToNumber E s)"
| "prim_ToNumber E (VBigInt _) = throwM TypeErr"
| "prim_ToNumber E (VSym _) = throwM TypeErr"
| "prim_ToNumber E (VObj _) = throwM TypeErr"

definition ToNumber :: "'w env \<Rightarrow> val \<Rightarrow> ('w, val) jsm" where
  "ToNumber E v = bindM (toPrimitiveNumber E v) (prim_ToNumber E)"

text \<open>The double a Number stands for: \<^verbatim>\<open>ToFloat\<close> of \<^verbatim>\<open>valueInt\<close> and \<^verbatim>\<open>valueFloat\<close>.\<close>

fun num_float :: "val \<Rightarrow> float64" where
  "num_float (VInt i) = f64_of_int i"
| "num_float (VFloat f) = f"
| "num_float _ = f64_nan"

fun prim_ToFloat :: "'w env \<Rightarrow> val \<Rightarrow> ('w, float64) jsm" where
  "prim_ToFloat E VUndef = ret f64_nan"
| "prim_ToFloat E VNull = ret (f64_zero False)"
| "prim_ToFloat E (VBool b) = ret (if b then f64_of_int 1 else f64_zero False)"
| "prim_ToFloat E (VInt i) = ret (f64_of_int i)"
| "prim_ToFloat E (VFloat f) = ret f"
| "prim_ToFloat E (VStr s) = ret (num_float (e_strToNumber E s))"
| "prim_ToFloat E (VBigInt _) = throwM TypeErr"
| "prim_ToFloat E (VSym _) = throwM TypeErr"
| "prim_ToFloat E (VObj _) = throwM TypeErr"

definition ToFloat :: "'w env \<Rightarrow> val \<Rightarrow> ('w, float64) jsm" where
  "ToFloat E v = bindM (toPrimitiveNumber E v) (prim_ToFloat E)"

definition bigint_string :: "int \<Rightarrow> ustr" where
  "bigint_string = valueInt_string"

fun prim_toString :: "'w env \<Rightarrow> val \<Rightarrow> ('w, ustr) jsm" where
  "prim_toString E VUndef = ret (ascii ''undefined'')"
| "prim_toString E VNull = ret (ascii ''null'')"
| "prim_toString E (VBool b) = ret (if b then ascii ''true'' else ascii ''false'')"
| "prim_toString E (VInt i) = ret (valueInt_string i)"
| "prim_toString E (VFloat f) = ret (e_floatToStr E f)"
| "prim_toString E (VStr s) = ret s"
| "prim_toString E (VBigInt i) = ret (bigint_string i)"
| "prim_toString E (VSym _) = throwM TypeErr"
| "prim_toString E (VObj _) = throwM TypeErr"

definition toNumeric :: "'w env \<Rightarrow> val \<Rightarrow> ('w, val) jsm" where
  "toNumeric E value =
     (case value of
        VInt i \<Rightarrow> ret value
      | VBigInt i \<Rightarrow> ret value
      | VFloat f \<Rightarrow> ret (floatToValue f)
      | VObj x \<Rightarrow>
          bindM (Object_toPrimitiveNumber E x) (\<lambda>p.
            case p of VBigInt _ \<Rightarrow> ret p | _ \<Rightarrow> prim_ToNumber E p)
      | _ \<Rightarrow> prim_ToNumber E value)"

section \<open>Arithmetic\<close>

text \<open>
  Each operator first converts its operands and then dispatches on the representations, as the
  type switches do; \<open>_add\<close> is the only one with a string case.
\<close>

definition add_numbers :: "'w env \<Rightarrow> val \<Rightarrow> val \<Rightarrow> ('w, val) jsm" where
  "add_numbers E left right =
     (case left of
        VInt l \<Rightarrow>
          (case right of
             VInt r \<Rightarrow> ret (intToValue (int64 (l + r)))
           | VBigInt _ \<Rightarrow> throwM TypeErr
           | _ \<Rightarrow> bindM (prim_ToFloat E right) (\<lambda>rf. ret (floatToValue (fadd (f64_of_int l) rf))))
      | VBigInt l \<Rightarrow> (case right of VBigInt r \<Rightarrow> ret (VBigInt (l + r)) | _ \<Rightarrow> throwM TypeErr)
      | _ \<Rightarrow>
          (case right of
             VBigInt _ \<Rightarrow> throwM TypeErr
           | _ \<Rightarrow> bindM (prim_ToFloat E left) (\<lambda>lf. bindM (prim_ToFloat E right) (\<lambda>rf.
                    ret (floatToValue (fadd lf rf))))))"

definition add_exec :: "'w env \<Rightarrow> val \<Rightarrow> val \<Rightarrow> ('w, val) jsm" where
  "add_exec E left0 right0 =
     bindM (toPrimitive E left0) (\<lambda>left.
     bindM (toPrimitive E right0) (\<lambda>right.
       case (left, right) of
         (VStr l, VStr r) \<Rightarrow> ret (VStr (l @ r))
       | (VStr l, _) \<Rightarrow> bindM (prim_toString E right) (\<lambda>r. ret (VStr (l @ r)))
       | (_, VStr r) \<Rightarrow> bindM (prim_toString E left) (\<lambda>l. ret (VStr (l @ r)))
       | _ \<Rightarrow> add_numbers E left right))"

definition sub_exec :: "'w env \<Rightarrow> val \<Rightarrow> val \<Rightarrow> ('w, val) jsm" where
  "sub_exec E left0 right0 =
     bindM (toNumeric E left0) (\<lambda>left.
     bindM (toNumeric E right0) (\<lambda>right.
       case (left, right) of
         (VInt l, VInt r) \<Rightarrow> ret (intToValue (int64 (l - r)))
       | (VBigInt l, VBigInt r) \<Rightarrow> ret (VBigInt (l - r))
       | (VBigInt _, _) \<Rightarrow> throwM TypeErr
       | (_, VBigInt _) \<Rightarrow> throwM TypeErr
       | _ \<Rightarrow> ret (floatToValue (fsub (num_float left) (num_float right)))))"

definition mul_ints :: "int \<Rightarrow> int \<Rightarrow> val" where
  "mul_ints left right =
     (if left = 0 \<or> right = 0 then
        (if (left < 0) \<noteq> (right < 0) then VFloat negativeZero else intToValue 0)
      else let res = int64 (left * right) in
        if quo res left = right then intToValue res
        else floatToValue (fmul (f64_of_int left) (f64_of_int right)))"

definition mul_exec :: "'w env \<Rightarrow> val \<Rightarrow> val \<Rightarrow> ('w, val) jsm" where
  "mul_exec E left0 right0 =
     bindM (toNumeric E left0) (\<lambda>left.
     bindM (toNumeric E right0) (\<lambda>right.
       case (left, right) of
         (VInt l, VInt r) \<Rightarrow> ret (mul_ints l r)
       | (VBigInt l, VBigInt r) \<Rightarrow> ret (VBigInt (l * r))
       | (VBigInt _, _) \<Rightarrow> throwM TypeErr
       | (_, VBigInt _) \<Rightarrow> throwM TypeErr
       | _ \<Rightarrow> ret (floatToValue (fmul (num_float left) (num_float right)))))"

definition div_floats :: "float64 \<Rightarrow> float64 \<Rightarrow> val" where
  "div_floats left right =
     (if f64_isnan left \<or> f64_isnan right then VFloat f64_nan
      else if f64_isinf left \<and> f64_isinf right then VFloat f64_nan
      else if feq left (f64_zero False) \<and> feq right (f64_zero False) then VFloat f64_nan
      else if f64_isinf left then
        (if f64_sign left = f64_sign right then VFloat (f64_inf False) else VFloat (f64_inf True))
      else if f64_isinf right then
        (if f64_sign left = f64_sign right then VInt 0 else VFloat negativeZero)
      else if feq right (f64_zero False) then
        (if f64_sign left = f64_sign right then VFloat (f64_inf False) else VFloat (f64_inf True))
      else floatToValue (fdiv left right))"

definition div_exec :: "'w env \<Rightarrow> val \<Rightarrow> val \<Rightarrow> ('w, val) jsm" where
  "div_exec E left0 right0 =
     bindM (toNumeric E left0) (\<lambda>left.
     bindM (toNumeric E right0) (\<lambda>right.
       case (left, right) of
         (VBigInt l, VBigInt r) \<Rightarrow>
           if r = 0 then throwM RangeErr
           else if \<bar>l\<bar> < \<bar>r\<bar> then ret (VBigInt 0) else ret (VBigInt (quo l r))
       | (VBigInt _, _) \<Rightarrow> throwM TypeErr
       | (_, VBigInt _) \<Rightarrow> throwM TypeErr
       | _ \<Rightarrow> ret (div_floats (num_float left) (num_float right))))"

definition mod_ints :: "int \<Rightarrow> int \<Rightarrow> val" where
  "mod_ints left right =
     (if right = 0 then VFloat f64_nan
      else if rem left right = 0 \<and> left < 0 then VFloat negativeZero
      else intToValue (rem left right))"

definition mod_exec :: "'w env \<Rightarrow> val \<Rightarrow> val \<Rightarrow> ('w, val) jsm" where
  "mod_exec E left0 right0 =
     bindM (toNumeric E left0) (\<lambda>left.
     bindM (toNumeric E right0) (\<lambda>right.
       case (left, right) of
         (VInt l, VInt r) \<Rightarrow> ret (mod_ints l r)
       | (VBigInt l, VBigInt r) \<Rightarrow>
           if r = 0 then throwM RangeErr
           else if l < 0 then ret (VBigInt (- (\<bar>l\<bar> mod \<bar>r\<bar>))) else ret (VBigInt (l mod \<bar>r\<bar>))
       | (VBigInt _, _) \<Rightarrow> throwM TypeErr
       | (_, VBigInt _) \<Rightarrow> throwM TypeErr
       | _ \<Rightarrow> ret (floatToValue (fmod (num_float left) (num_float right)))))"

text \<open>
  Negation reads the operand a second time (\<^verbatim>\<open>operand.ToFloat()\<close>) when its numeric value is a
  \<^verbatim>\<open>valueFloat\<close>.
\<close>

definition neg_exec :: "'w env \<Rightarrow> val \<Rightarrow> ('w, val) jsm" where
  "neg_exec E operand =
     bindM (toNumeric E operand) (\<lambda>n.
       case n of
         VBigInt i \<Rightarrow> ret (VBigInt (- i))
       | VInt i \<Rightarrow> ret (if i = 0 then VFloat negativeZero else VInt (int64 (- i)))
       | _ \<Rightarrow> bindM (ToFloat E operand) (\<lambda>f. ret (VFloat (if f64_isnan f then f else fneg f))))"

definition plus_exec :: "'w env \<Rightarrow> val \<Rightarrow> ('w, val) jsm" where
  "plus_exec E operand = ToNumber E operand"

text \<open>Increment and decrement; the compiler puts \<^verbatim>\<open>toNumber\<close> before them, so the operand is numeric.\<close>

definition inc_exec :: "'w env \<Rightarrow> val \<Rightarrow> ('w, val) jsm" where
  "inc_exec E v =
     (case v of
        VBigInt n \<Rightarrow> ret (VBigInt (n + 1))
      | VInt n \<Rightarrow> ret (intToValue (int64 (n + 1)))
      | _ \<Rightarrow> bindM (ToFloat E v) (\<lambda>f. ret (VFloat (fadd f (f64_of_int 1)))))"

definition dec_exec :: "'w env \<Rightarrow> val \<Rightarrow> ('w, val) jsm" where
  "dec_exec E v =
     (case v of
        VBigInt n \<Rightarrow> ret (VBigInt (n - 1))
      | VInt n \<Rightarrow> ret (intToValue (int64 (n - 1)))
      | _ \<Rightarrow> bindM (ToFloat E v) (\<lambda>f. ret (VFloat (fsub f (f64_of_int 1)))))"

section \<open>Bitwise operators\<close>

definition and_exec :: "'w env \<Rightarrow> val \<Rightarrow> val \<Rightarrow> ('w, val) jsm" where
  "and_exec E left0 right0 =
     bindM (toNumeric E left0) (\<lambda>left.
     bindM (toNumeric E right0) (\<lambda>right.
       case (left, right) of
         (VBigInt l, VBigInt r) \<Rightarrow> ret (VBigInt (l AND r))
       | (VBigInt _, _) \<Rightarrow> throwM TypeErr
       | (_, VBigInt _) \<Rightarrow> throwM TypeErr
       | _ \<Rightarrow> ret (intToValue (toInt32 left AND toInt32 right))))"

definition or_exec :: "'w env \<Rightarrow> val \<Rightarrow> val \<Rightarrow> ('w, val) jsm" where
  "or_exec E left0 right0 =
     bindM (toNumeric E left0) (\<lambda>left.
     bindM (toNumeric E right0) (\<lambda>right.
       case (left, right) of
         (VBigInt l, VBigInt r) \<Rightarrow> ret (VBigInt (l OR r))
       | (VBigInt _, _) \<Rightarrow> throwM TypeErr
       | (_, VBigInt _) \<Rightarrow> throwM TypeErr
       | _ \<Rightarrow> ret (intToValue (toInt32 left OR toInt32 right))))"

definition xor_exec :: "'w env \<Rightarrow> val \<Rightarrow> val \<Rightarrow> ('w, val) jsm" where
  "xor_exec E left0 right0 =
     bindM (toNumeric E left0) (\<lambda>left.
     bindM (toNumeric E right0) (\<lambda>right.
       case (left, right) of
         (VBigInt l, VBigInt r) \<Rightarrow> ret (VBigInt (l XOR r))
       | (VBigInt _, _) \<Rightarrow> throwM TypeErr
       | (_, VBigInt _) \<Rightarrow> throwM TypeErr
       | _ \<Rightarrow> ret (intToValue (toInt32 left XOR toInt32 right))))"

definition bnot_exec :: "'w env \<Rightarrow> val \<Rightarrow> ('w, val) jsm" where
  "bnot_exec E v =
     bindM (toNumeric E v) (\<lambda>n.
       case n of
         VBigInt i \<Rightarrow> ret (VBigInt (NOT i))
       | _ \<Rightarrow> ret (intToValue (NOT (toInt32 n))))"

definition maxBigIntBits :: int where "maxBigIntBits = 2 ^ 30"

text \<open>
  \<^verbatim>\<open>bigIntShift\<close>. A shift count of more than 64 bits is replaced by \<^verbatim>\<open>math.MaxUint\<close>, which shifts every
  bit out.
\<close>

definition MaxUint :: int where "MaxUint = 2 ^ 64 - 1"

definition rsh :: "int \<Rightarrow> int \<Rightarrow> int" where "rsh x k = x div 2 ^ nat k"

definition bigIntShift :: "int \<Rightarrow> int \<Rightarrow> jserr + int" where
  "bigIntShift x n =
     (let k = \<bar>n\<bar> in
      if 0 < n \<and> x \<noteq> 0 \<and> (\<not> is_int64 k \<or> maxBigIntBits - bitlen \<bar>x\<bar> < k) then Inl RangeErr
      else if 64 < bitlen k then Inr (rsh x MaxUint)
      else if n < 0 then Inr (rsh x k)
      else Inr (x * 2 ^ nat k))"

definition liftE :: "jserr + 'a \<Rightarrow> ('w, 'a) jsm" where
  "liftE r = (case r of Inl e \<Rightarrow> throwM e | Inr x \<Rightarrow> ret x)"

definition sal_exec :: "'w env \<Rightarrow> val \<Rightarrow> val \<Rightarrow> ('w, val) jsm" where
  "sal_exec E left0 right0 =
     bindM (toNumeric E left0) (\<lambda>left.
     bindM (toNumeric E right0) (\<lambda>right.
       case (left, right) of
         (VBigInt l, VBigInt r) \<Rightarrow> bindM (liftE (bigIntShift l r)) (\<lambda>i. ret (VBigInt i))
       | (VBigInt _, _) \<Rightarrow> throwM TypeErr
       | (_, VBigInt _) \<Rightarrow> throwM TypeErr
       | _ \<Rightarrow> ret (intToValue (int32 (toInt32 left * 2 ^ nat (toUint32 right AND 31))))))"

definition sar_exec :: "'w env \<Rightarrow> val \<Rightarrow> val \<Rightarrow> ('w, val) jsm" where
  "sar_exec E left0 right0 =
     bindM (toNumeric E left0) (\<lambda>left.
     bindM (toNumeric E right0) (\<lambda>right.
       case (left, right) of
         (VBigInt l, VBigInt r) \<Rightarrow> bindM (liftE (bigIntShift l (- r))) (\<lambda>i. ret (VBigInt i))
       | (VBigInt _, _) \<Rightarrow> throwM TypeErr
       | (_, VBigInt _) \<Rightarrow> throwM TypeErr
       | _ \<Rightarrow> ret (intToValue (toInt32 left div 2 ^ nat (toUint32 right AND 31)))))"

definition shr_exec :: "'w env \<Rightarrow> val \<Rightarrow> val \<Rightarrow> ('w, val) jsm" where
  "shr_exec E left0 right0 =
     bindM (toNumeric E left0) (\<lambda>left.
     bindM (toNumeric E right0) (\<lambda>right.
       case (left, right) of
         (VBigInt _, _) \<Rightarrow> throwM TypeErr
       | (_, VBigInt _) \<Rightarrow> throwM TypeErr
       | _ \<Rightarrow> ret (intToValue (toUint32 left div 2 ^ nat (toUint32 right AND 31)))))"


section \<open>Exponentiation\<close>

text \<open>
  \<^verbatim>\<open>overflows[e]\<close> is the largest base whose \<open>e\<close>-th power fits in an \<^verbatim>\<open>int64\<close>; \<^verbatim>\<open>highestBitSet[e]\<close> is
  the number of significant bits of the exponent, which selects where the unrolled square-and-multiply
  ladder is entered.
\<close>

definition overflows :: "int list" where
  "overflows =
    [9223372036854775807, 9223372036854775807, 3037000499, 2097151,
     55108, 6208, 1448, 511,
     234, 127, 78, 52,
     38, 28, 22, 18,
     15, 13, 11, 9,
     8, 7, 7, 6,
     6, 5, 5, 5,
     4, 4, 4, 4,
     3, 3, 3, 3,
     3, 3, 3, 3,
     2, 2, 2, 2,
     2, 2, 2, 2,
     2, 2, 2, 2,
     2, 2, 2, 2,
     2, 2, 2, 2,
     2, 2, 2, 2]"

definition highestBitSet :: "nat list" where
  "highestBitSet =
    [0, 1, 2, 2, 3, 3, 3, 3,
     4, 4, 4, 4, 4, 4, 4, 4,
     5, 5, 5, 5, 5, 5, 5, 5,
     5, 5, 5, 5, 5, 5, 5, 5,
     6, 6, 6, 6, 6, 6, 6, 6,
     6, 6, 6, 6, 6, 6, 6, 6,
     6, 6, 6, 6, 6, 6, 6, 6,
     6, 6, 6, 6, 6, 6, 6]"

text \<open>
  The cases 6 to 1 of the switch fall through into each other; \<open>ipow_ladder k\<close> is the code from
  case \<open>k\<close> on. Case 1 does not square the base any more.
\<close>

fun ipow_ladder :: "nat \<Rightarrow> int \<Rightarrow> int \<Rightarrow> int \<Rightarrow> int" where
  "ipow_ladder 0 result ex base = result"
| "ipow_ladder (Suc 0) result ex base = (if ex AND 1 \<noteq> 0 then int64 (result * base) else result)"
| "ipow_ladder (Suc (Suc k)) result ex base =
     ipow_ladder (Suc k) (if ex AND 1 \<noteq> 0 then int64 (result * base) else result)
       (ex div 2) (int64 (base * base))"

definition ipow :: "int \<Rightarrow> int \<Rightarrow> int" where
  "ipow base ex =
     (if 63 \<le> ex then
        (if base = 1 then 1 else if base = - 1 then 1 - 2 * (ex AND 1) else 0)
      else if overflows ! nat ex < base \<or> overflows ! nat ex < int64 (- base) then 0
      else ipow_ladder (highestBitSet ! nat ex) 1 ex base)"

definition pow_floats :: "'w env \<Rightarrow> float64 \<Rightarrow> float64 \<Rightarrow> val" where
  "pow_floats E xf yf =
     (if feq (fabs xf) (f64_of_int 1) \<and> f64_isinf yf then VFloat f64_nan
      else if feq xf (f64_of_int 1) \<and> f64_isnan yf then VFloat f64_nan
      else floatToValue (e_pow E xf yf))"

definition pow_values :: "'w env \<Rightarrow> val \<Rightarrow> val \<Rightarrow> ('w, val) jsm" where
  "pow_values E x y =
     (let slow = bindM (ToFloat E x) (\<lambda>xf. bindM (ToFloat E y) (\<lambda>yf. ret (pow_floats E xf yf))) in
      case (x, y) of
        (VInt xi, VInt yi) \<Rightarrow>
          if 0 \<le> yi then
            if yi = 0 then ret (intToValue 1)
            else if xi = 0 then ret (intToValue 0)
            else if ipow xi yi \<noteq> 0 then ret (intToValue (ipow xi yi))
            else slow
          else slow
      | _ \<Rightarrow> slow)"

definition exp_exec :: "'w env \<Rightarrow> val \<Rightarrow> val \<Rightarrow> ('w, val) jsm" where
  "exp_exec E x0 y0 =
     bindM (toNumeric E x0) (\<lambda>x.
     bindM (toNumeric E y0) (\<lambda>y.
       case (x, y) of
         (VBigInt l, VBigInt r) \<Rightarrow> if r < 0 then throwM RangeErr else ret (VBigInt (l ^ nat r))
       | (VBigInt _, _) \<Rightarrow> throwM TypeErr
       | (_, VBigInt _) \<Rightarrow> throwM TypeErr
       | _ \<Rightarrow> pow_values E x y))"

section \<open>Relational operators\<close>

text \<open>\<^verbatim>\<open>CompareTo\<close> of strings: lexicographic on code units.\<close>

fun str_less :: "ustr \<Rightarrow> ustr \<Rightarrow> bool" where
  "str_less xs [] = False"
| "str_less [] (y # ys) = True"
| "str_less (x # xs) (y # ys) = (x < y \<or> x = y \<and> str_less xs ys)"

text \<open>A double against a big integer; \<open>None\<close> is the \<^verbatim>\<open>undefined\<close> the comparison with NaN gives.\<close>

definition float_less_bigint :: "float64 \<Rightarrow> int \<Rightarrow> bool option" where
  "float_less_bigint nx ny =
     (if f64_isnan nx then None
      else if f64_isinf nx then Some (f64_sign nx)
      else Some (f64_rat nx < of_int ny))"

definition bigint_less_float :: "int \<Rightarrow> float64 \<Rightarrow> bool option" where
  "bigint_less_float nx ny =
     (if f64_isnan ny then None
      else if f64_isinf ny then Some (\<not> f64_sign ny)
      else Some (of_int nx < f64_rat ny))"

definition cmp_numeric :: "val \<Rightarrow> val \<Rightarrow> bool option" where
  "cmp_numeric px py =
     (case (px, py) of
        (VInt nx, VInt ny) \<Rightarrow> Some (nx < ny)
      | (VInt nx, VBigInt ny) \<Rightarrow> Some (nx < ny)
      | (VFloat nx, VBigInt ny) \<Rightarrow> float_less_bigint nx ny
      | (VBigInt nx, VInt ny) \<Rightarrow> Some (nx < ny)
      | (VBigInt nx, VFloat ny) \<Rightarrow> bigint_less_float nx ny
      | (VBigInt nx, VBigInt ny) \<Rightarrow> Some (nx < ny)
      | _ \<Rightarrow>
          (let nx = num_float px; ny = num_float py in
           if f64_isnan nx \<or> f64_isnan ny then None else Some (flt nx ny)))"

definition cmp :: "'w env \<Rightarrow> val \<Rightarrow> val \<Rightarrow> ('w, bool option) jsm" where
  "cmp E px py =
     (case (px, py) of
        (VStr xs, VStr ys) \<Rightarrow> ret (Some (str_less xs ys))
      | (VBigInt nx, VStr ys) \<Rightarrow> ret (map_option (\<lambda>ny. nx < ny) (e_strToBigInt E ys))
      | (VStr xs, VBigInt ny) \<Rightarrow> ret (map_option (\<lambda>nx. nx < ny) (e_strToBigInt E xs))
      | _ \<Rightarrow> bindM (toNumeric E px) (\<lambda>x. bindM (toNumeric E py) (\<lambda>y. ret (cmp_numeric x y))))"

definition op_lt_exec :: "'w env \<Rightarrow> val \<Rightarrow> val \<Rightarrow> ('w, val) jsm" where
  "op_lt_exec E l r =
     bindM (toPrimitiveNumber E l) (\<lambda>left. bindM (toPrimitiveNumber E r) (\<lambda>right.
     bindM (cmp E left right) (\<lambda>c. ret (VBool (c = Some True)))))"

definition op_lte_exec :: "'w env \<Rightarrow> val \<Rightarrow> val \<Rightarrow> ('w, val) jsm" where
  "op_lte_exec E l r =
     bindM (toPrimitiveNumber E l) (\<lambda>left. bindM (toPrimitiveNumber E r) (\<lambda>right.
     bindM (cmp E right left) (\<lambda>c. ret (VBool (c = Some False)))))"

definition op_gt_exec :: "'w env \<Rightarrow> val \<Rightarrow> val \<Rightarrow> ('w, val) jsm" where
  "op_gt_exec E l r =
     bindM (toPrimitiveNumber E l) (\<lambda>left. bindM (toPrimitiveNumber E r) (\<lambda>right.
     bindM (cmp E right left) (\<lambda>c. ret (VBool (c = Some True)))))"

definition op_gte_exec :: "'w env \<Rightarrow> val \<Rightarrow> val \<Rightarrow> ('w, val) jsm" where
  "op_gte_exec E l r =
     bindM (toPrimitiveNumber E l) (\<lambda>left. bindM (toPrimitiveNumber E r) (\<lambda>right.
     bindM (cmp E left right) (\<lambda>c. ret (VBool (c = Some False)))))"

definition op_strict_eq_exec :: "val \<Rightarrow> val \<Rightarrow> val" where
  "op_strict_eq_exec l r = VBool (StrictEquals l r)"

definition op_strict_neq_exec :: "val \<Rightarrow> val \<Rightarrow> val" where
  "op_strict_neq_exec l r = VBool (\<not> StrictEquals l r)"


section \<open>The operators on Numbers compute in double precision\<close>

text \<open>\<open>denotes v f\<close>: the Number \<open>v\<close> stands for the double \<open>f\<close>, bit for bit unless \<open>f\<close> is a NaN.\<close>

fun is_number :: "val \<Rightarrow> bool" where
  "is_number (VInt _) = True"
| "is_number (VFloat _) = True"
| "is_number _ = False"

definition denotes :: "val \<Rightarrow> float64 \<Rightarrow> bool" where
  "denotes v f \<longleftrightarrow> is_number v \<and> (if f64_isnan f then f64_isnan (num_float v) else num_float v = f)"

lemma denotes_floatToValue [simp]: "denotes (floatToValue f) f"
proof (cases f rule: floatToValue_cases)
  case (int i)
  then have "f64_of_int i = f"
    by (intro f64_rat_inj) (auto simp: floatToInt_iff f64_of_int_small)
  with int show ?thesis by (simp add: denotes_def)
qed (auto simp: denotes_def)

lemma num_float_intToValue:
  "is_int64 i \<Longrightarrow> num_float (intToValue i) = f64_of_int i \<and> is_number (intToValue i)"
  by (cases "\<bar>i\<bar> \<le> maxInt") (auto simp: intToValue_small intToValue_large)

lemma denotes_intToValue: "is_int64 i \<Longrightarrow> denotes (intToValue i) (f64_of_int i)"
  by (simp add: denotes_def num_float_intToValue)

lemma small_sum_int64:
  assumes "\<bar>l\<bar> \<le> maxInt" "\<bar>r\<bar> \<le> maxInt"
  shows "is_int64 (l + r)" "is_int64 (l - r)" "int64 (l + r) = l + r" "int64 (l - r) = l - r"
proof -
  show s: "is_int64 (l + r)" "is_int64 (l - r)" using assms by (auto simp: is_int64_def maxInt_def)
  show "int64 (l + r) = l + r" "int64 (l - r) = l - r" using s by (simp_all add: int64_id)
qed

lemma f64_of_rat_int: "r \<noteq> 0 \<or> \<not> s \<Longrightarrow> f64_of_rat s (of_int r) = f64_of_int r"
  by (auto simp: f64_of_int_def f64_of_rat_def)

lemma fadd_of_int:
  assumes "\<bar>l\<bar> \<le> maxInt" "\<bar>r\<bar> \<le> maxInt"
  shows "fadd (f64_of_int l) (f64_of_int r) = f64_of_int (l + r)"
proof -
  have "fadd (f64_of_int l) (f64_of_int r) = f64_of_rat (l < 0 \<and> r < 0) (of_int (l + r))"
    using f64_of_int_small[OF assms(1)] f64_of_int_small[OF assms(2)] by (simp add: fadd_def)
  also have "\<dots> = f64_of_int (l + r)" by (intro f64_of_rat_int) auto
  finally show ?thesis .
qed

lemma fneg_of_int: "\<bar>r\<bar> \<le> maxInt \<Longrightarrow> r \<noteq> 0 \<Longrightarrow> fneg (f64_of_int r) = f64_of_int (- r)"
  using f64_of_int_small[of r] f64_of_int_small[of "- r"] by (intro f64_rat_inj) auto

lemma fsub_of_int:
  assumes "\<bar>l\<bar> \<le> maxInt" "\<bar>r\<bar> \<le> maxInt"
  shows "fsub (f64_of_int l) (f64_of_int r) = f64_of_int (l - r)"
proof -
  have "fsub (f64_of_int l) (f64_of_int r) = f64_of_rat (l < 0 \<and> \<not> r < 0) (of_int (l - r))"
    using f64_of_int_small[OF assms(1)] f64_of_int_small[OF assms(2)]
    by (simp add: fsub_def fadd_def)
  also have "\<dots> = f64_of_int (l - r)" by (intro f64_of_rat_int) auto
  finally show ?thesis .
qed

lemma fmul_of_int:
  assumes "\<bar>l\<bar> \<le> maxInt" "\<bar>r\<bar> \<le> maxInt"
  shows "fmul (f64_of_int l) (f64_of_int r) =
    (if l * r = 0 then f64_zero ((l < 0) \<noteq> (r < 0)) else f64_of_int (l * r))"
proof -
  have "fmul (f64_of_int l) (f64_of_int r) = f64_of_rat ((l < 0) \<noteq> (r < 0)) (of_int (l * r))"
    using f64_of_int_small[OF assms(1)] f64_of_int_small[OF assms(2)] by (simp add: fmul_def Let_def)
  moreover have "f64_of_rat s 0 = f64_zero s" for s by (simp add: f64_of_rat_def f64_round_def)
  ultimately show ?thesis
    using f64_of_rat_int[of "l * r" "(l < 0) \<noteq> (r < 0)"] by (cases "l * r = 0") simp_all
qed

text \<open>The overflow check of multiplication: the wrapped product divided by a factor gives back the
  other factor exactly when the product did not wrap.\<close>

lemma quo_mult: "l \<noteq> 0 \<Longrightarrow> quo (l * r) l = r"
  by (auto simp: quo_def sgn_mult abs_mult abs_sgn sgn_if)

lemma wrap_s_multiple: "\<exists>k. wrap_s w i = i + k * 2 ^ w"
proof -
  have "wrap_s w i = i + (- ((i + 2 ^ (w - 1)) div 2 ^ w)) * 2 ^ w"
    unfolding wrap_s_def by (simp add: minus_div_mult_eq_mod[symmetric] algebra_simps)
  then show ?thesis by blast
qed

lemma overflow_check:
  assumes "\<bar>l\<bar> \<le> maxInt" "l \<noteq> 0"
  shows "quo (int64 (l * r)) l = r \<longleftrightarrow> is_int64 (l * r)"
proof
  assume "is_int64 (l * r)"
  then show "quo (int64 (l * r)) l = r" using assms by (simp add: int64_id quo_mult)
next
  assume q: "quo (int64 (l * r)) l = r"
  obtain k where k: "int64 (l * r) = l * r + k * 2 ^ 64" using wrap_s_multiple by blast
  have "int64 (l * r) = l * r + rem (int64 (l * r)) l" using quo_rem[of l "int64 (l * r)"] q by simp
  with k have "k * 2 ^ 64 = rem (int64 (l * r)) l" by linarith
  moreover have "\<bar>rem (int64 (l * r)) l\<bar> < \<bar>l\<bar>" using abs_rem_less assms(2) by blast
  ultimately have "\<bar>k * 2 ^ 64\<bar> < 2 ^ 64" using assms(1) by (simp add: maxInt_def)
  then have "k = 0" by (simp add: abs_mult)
  with k have "int64 (l * r) = l * r" by simp
  then show "is_int64 (l * r)" using wrap_s_range[of 64 "l * r"] by (simp add: is_int64_def)
qed

lemma mul_ints_cases:
  assumes "\<bar>l\<bar> \<le> maxInt" "\<bar>r\<bar> \<le> maxInt"
  shows "mul_ints l r =
    (if is_int64 (l * r) \<and> l * r \<noteq> 0 then intToValue (l * r)
     else floatToValue (fmul (f64_of_int l) (f64_of_int r)))"
proof (cases "l * r = 0")
  case True
  have "floatToValue (f64_zero s) = (if s then VFloat negativeZero else VInt 0)" for s
    using floatToValue_of_int[of 0] by (simp add: floatToValue_negativeZero)
  then show ?thesis
    using True by (auto simp: mul_ints_def fmul_of_int[OF assms] intToValue_small)
next
  case False
  then show ?thesis
    using overflow_check[OF assms(1)] by (auto simp: mul_ints_def Let_def int64_id)
qed

lemma rat_trunc_quo: "rat_trunc (of_int l / of_int r) = quo l r"
proof (cases "r = 0 \<or> l = 0")
  case True
  then show ?thesis by (auto simp: rat_trunc_def quo_def)
next
  case False
  have fl: "\<lfloor>of_int a / (of_int b :: rat)\<rfloor> = a div b" for a b by (simp add: floor_divide_of_int_eq)
  have "0 \<le> of_int l / (of_int r :: rat) \<longleftrightarrow> (l < 0 \<longleftrightarrow> r < 0)"
    using False by (auto simp: zero_le_divide_iff)
  moreover have "- (of_int l / (of_int r :: rat)) = of_int (- l) / of_int r" by simp
  ultimately show ?thesis
    using False fl[of l r] fl[of "- l" r] unfolding rat_trunc_def quo_def
    by (auto simp: sgn_if abs_if div_minus_right)
qed

lemma mod_ints_fmod:
  assumes "\<bar>l\<bar> \<le> maxInt" "\<bar>r\<bar> \<le> maxInt"
  shows "mod_ints l r = floatToValue (fmod (f64_of_int l) (f64_of_int r))"
proof (cases "r = 0")
  case True
  then show ?thesis
    using f64_of_int_small[OF assms(1)] by (simp add: mod_ints_def fmod_def floatToValue_nan)
next
  case False
  have small: "\<bar>rem l r\<bar> \<le> maxInt" using abs_rem_less[OF False, of l] assms(2) by linarith
  have "fmod (f64_of_int l) (f64_of_int r) = f64_of_rat (l < 0) (of_int (rem l r))"
    using f64_of_int_small[OF assms(1)] f64_of_int_small[OF assms(2)] False
    by (simp add: fmod_def rat_trunc_quo rem_def)
  moreover have "f64_of_rat (l < 0) 0 = f64_zero (l < 0)" by (simp add: f64_of_rat_def f64_round_def)
  ultimately show ?thesis
    using False f64_of_rat_int[of "rem l r" "l < 0"] floatToValue_of_int[OF small] small
      floatToValue_of_int[of 0]
    by (auto simp: mod_ints_def floatToValue_negativeZero intToValue_small)
qed

lemma f64_inf_iff: "f64_isinf f \<Longrightarrow> f = f64_inf (f64_sign f)"
  using f64_inf_props[of "f64_sign f"] by (intro f64_fields_eq) (auto simp: f64_isinf_def)

lemma floatToValue_inf: "floatToValue (f64_inf s) = VFloat (f64_inf s)"
  by (rule floatToValue_cases[of "f64_inf s"]) (auto simp: floatToInt_iff feq_zero dest: finite_not_special)


lemma div_floats_fdiv: "div_floats l r = floatToValue (fdiv l r)"
proof -
  have z: "floatToValue (f64_zero s) = (if s then VFloat negativeZero else VInt 0)" for s
    using floatToValue_of_int[of 0] by (simp add: floatToValue_negativeZero)
  consider "f64_isnan l \<or> f64_isnan r" | "f64_isinf l" "f64_isinf r" "\<not> f64_isnan l" "\<not> f64_isnan r"
    | "f64_isinf l" "f64_finite r" "\<not> f64_isnan l" | "f64_finite l" "f64_isinf r" "\<not> f64_isnan r"
    | "f64_finite l" "f64_finite r"
    by (auto simp: f64_finite_iff)
  then show ?thesis
  proof cases
    case 1
    then show ?thesis by (simp add: div_floats_def fdiv_def floatToValue_nan)
  next
    case 2
    then show ?thesis by (simp add: div_floats_def fdiv_def floatToValue_nan)
  next
    case 3
    then have "\<not> f64_isnan r" "\<not> f64_isinf r" "\<not> f64_finite l" by auto
    with 3 show ?thesis by (auto simp: div_floats_def fdiv_def floatToValue_inf feq_zero Let_def)
  next
    case 4
    then have "\<not> f64_isnan l" "\<not> f64_isinf l" "\<not> f64_finite r" by auto
    with 4 show ?thesis by (auto simp: div_floats_def fdiv_def z feq_zero Let_def)
  next
    case 5
    then have "\<not> f64_isnan l" "\<not> f64_isinf l" "\<not> f64_isnan r" "\<not> f64_isinf r" by auto
    with 5 show ?thesis
      by (auto simp: div_floats_def fdiv_def floatToValue_inf floatToValue_nan feq_zero Let_def)
  qed
qed

lemma toNumeric_canonical:
  assumes "canonical x" "is_number x"
  shows "toNumeric E x = ret x" "toPrimitive E x = ret x" "toPrimitiveNumber E x = ret x"
    "prim_ToFloat E x = ret (num_float x)"
  using assms by (cases x; simp add: toNumeric_def toPrimitive_def toPrimitiveNumber_def)+

text \<open>The pairs of canonical Numbers the type switches of the operators distinguish.\<close>

lemma number_pair_cases:
  assumes "canonical x" "is_number x" "canonical y" "is_number y"
  obtains (ints) l r where "x = VInt l" "y = VInt r" "\<bar>l\<bar> \<le> maxInt" "\<bar>r\<bar> \<le> maxInt"
  | (int_float) l r where "x = VInt l" "y = VFloat r"
  | (float) l where "x = VFloat l"
  using assms by (cases x; cases y) auto

lemma add_exec_numbers:
  assumes "canonical x" "is_number x" "canonical y" "is_number y"
  shows "add_exec E x y =
    ret (case (x, y) of (VInt l, VInt r) \<Rightarrow> intToValue (l + r)
         | _ \<Rightarrow> floatToValue (fadd (num_float x) (num_float y)))"
  using assms
  by (cases x; cases y)
    (simp_all add: add_exec_def toNumeric_canonical add_numbers_def small_sum_int64)

lemma sub_exec_numbers:
  assumes "canonical x" "is_number x" "canonical y" "is_number y"
  shows "sub_exec E x y =
    ret (case (x, y) of (VInt l, VInt r) \<Rightarrow> intToValue (l - r)
         | _ \<Rightarrow> floatToValue (fsub (num_float x) (num_float y)))"
  using assms
  by (cases x; cases y) (simp_all add: sub_exec_def toNumeric_canonical small_sum_int64)

lemma mul_exec_numbers:
  assumes "canonical x" "is_number x" "canonical y" "is_number y"
  shows "mul_exec E x y =
    ret (case (x, y) of (VInt l, VInt r) \<Rightarrow> mul_ints l r
         | _ \<Rightarrow> floatToValue (fmul (num_float x) (num_float y)))"
  using assms by (cases x; cases y) (simp_all add: mul_exec_def toNumeric_canonical)

lemma div_exec_numbers:
  assumes "canonical x" "is_number x" "canonical y" "is_number y"
  shows "div_exec E x y = ret (floatToValue (fdiv (num_float x) (num_float y)))"
  using assms
  by (cases x; cases y) (simp_all add: div_exec_def toNumeric_canonical div_floats_fdiv)

lemma mod_exec_numbers:
  assumes "canonical x" "is_number x" "canonical y" "is_number y"
  shows "mod_exec E x y = ret (floatToValue (fmod (num_float x) (num_float y)))"
  using assms by (cases x; cases y) (simp_all add: mod_exec_def toNumeric_canonical mod_ints_fmod)

lemmas exec_numbers = add_exec_numbers sub_exec_numbers mul_exec_numbers div_exec_numbers mod_exec_numbers

lemma denotes_ints:
  assumes "\<bar>l\<bar> \<le> maxInt" "\<bar>r\<bar> \<le> maxInt"
  shows "denotes (intToValue (l + r)) (fadd (f64_of_int l) (f64_of_int r))"
    "denotes (intToValue (l - r)) (fsub (f64_of_int l) (f64_of_int r))"
    "denotes (mul_ints l r) (fmul (f64_of_int l) (f64_of_int r))"
proof -
  show "denotes (intToValue (l + r)) (fadd (f64_of_int l) (f64_of_int r))"
    "denotes (intToValue (l - r)) (fsub (f64_of_int l) (f64_of_int r))"
    using small_sum_int64[OF assms] by (simp_all add: fadd_of_int fsub_of_int assms denotes_intToValue)
  show "denotes (mul_ints l r) (fmul (f64_of_int l) (f64_of_int r))"
  proof (cases "is_int64 (l * r) \<and> l * r \<noteq> 0")
    case True
    then show ?thesis
      using fmul_of_int[OF assms] by (simp add: mul_ints_cases[OF assms] denotes_intToValue)
  next
    case False
    then have "mul_ints l r = floatToValue (fmul (f64_of_int l) (f64_of_int r))"
      using mul_ints_cases[OF assms] by argo
    then show ?thesis by (simp only: denotes_floatToValue)
  qed
qed

lemma denotes_results:
  assumes "canonical x" "is_number x" "canonical y" "is_number y"
  shows "denotes (case (x, y) of (VInt l, VInt r) \<Rightarrow> intToValue (l + r)
      | _ \<Rightarrow> floatToValue (fadd (num_float x) (num_float y))) (fadd (num_float x) (num_float y))"
    "denotes (case (x, y) of (VInt l, VInt r) \<Rightarrow> intToValue (l - r)
      | _ \<Rightarrow> floatToValue (fsub (num_float x) (num_float y))) (fsub (num_float x) (num_float y))"
    "denotes (case (x, y) of (VInt l, VInt r) \<Rightarrow> mul_ints l r
      | _ \<Rightarrow> floatToValue (fmul (num_float x) (num_float y))) (fmul (num_float x) (num_float y))"
  using denotes_ints by (cases rule: number_pair_cases[OF assms]; simp)+

section \<open>Exponentiation by squaring\<close>

definition pow_fits :: "nat \<Rightarrow> bool" where
  "pow_fits e \<longleftrightarrow> overflows ! e ^ e < 2 ^ 63 \<and> (e \<noteq> 0 \<longrightarrow> 2 ^ 63 \<le> (overflows ! e + 1) ^ e) \<and>
     0 < overflows ! e \<and> overflows ! e < 2 ^ 63 \<and>
     (if e = 0 then highestBitSet ! e = 0
      else 0 < highestBitSet ! e \<and> 2 ^ (highestBitSet ! e - 1) \<le> e \<and> e < 2 ^ (highestBitSet ! e))"

lemma pow_fits_table: "\<forall>e \<in> set [0..<63]. pow_fits e"
  by code_simp

lemma pow_fits: "e < 63 \<Longrightarrow> pow_fits e"
  using pow_fits_table by auto

lemma and_one_iff: "(e AND 1 \<noteq> (0::int)) = odd e"
  by (simp add: and_one_eq odd_iff_mod_2_eq_one)

lemma ipow_ladder_correct:
  assumes "2 ^ k \<le> (e::nat)" "e < 2 ^ Suc k" "\<bar>result * base ^ e\<bar> < 2 ^ 63" "result \<noteq> 0" "base \<noteq> 0"
  shows "ipow_ladder (Suc k) result (int e) base = result * base ^ e"
  using assms
proof (induction k arbitrary: result e base)
  case 0
  then have "e = 1" by simp
  moreover from this have "int64 (result * base) = result * base"
    using 0 by (intro int64_id) (auto simp: is_int64_def)
  ultimately show ?case by (simp add: and_one_iff)
next
  case (Suc k)
  define res' where "res' = (if odd e then result * base else result)"
  have e2: "2 ^ k \<le> e div 2" "e div 2 < 2 ^ Suc k" using Suc.prems(1,2) by auto
  have pw: "base ^ e = (if odd e then base else 1) * (base * base) ^ (e div 2)"
  proof -
    have "base ^ e = base ^ (2 * (e div 2) + e mod 2)" by simp
    also have "\<dots> = (base * base) ^ (e div 2) * base ^ (e mod 2)"
      by (simp only: power_add power_mult power2_eq_square)
    finally show ?thesis by (cases "odd e") (auto simp: odd_iff_mod_2_eq_one even_iff_mod_2_eq_zero)
  qed
  have eq: "res' * (base * base) ^ (e div 2) = result * base ^ e" by (simp add: pw res'_def)
  have nz: "res' \<noteq> 0" using Suc.prems by (simp add: res'_def)
  have bb: "base * base \<noteq> 0" using Suc.prems by simp
  have pos: "1 \<le> e div 2" using e2(1) by (metis One_nat_def Suc_leI le_trans zero_less_numeral zero_less_power)
  have le: "\<bar>res'\<bar> * \<bar>base * base\<bar> \<le> \<bar>result * base ^ e\<bar>"
  proof -
    have "\<bar>base * base\<bar> ^ 1 \<le> \<bar>base * base\<bar> ^ (e div 2)"
      using pos bb by (intro power_increasing) linarith+
    then have "\<bar>res'\<bar> * \<bar>base * base\<bar> \<le> \<bar>res'\<bar> * \<bar>base * base\<bar> ^ (e div 2)"
      by (intro mult_left_mono) auto
    then show ?thesis by (simp add: eq[symmetric] abs_mult power_abs)
  qed
  have "1 \<le> \<bar>res'\<bar>" "1 \<le> \<bar>base * base\<bar>" using nz bb by linarith+
  then have "\<bar>res'\<bar> \<le> \<bar>res'\<bar> * \<bar>base * base\<bar>" "\<bar>base * base\<bar> \<le> \<bar>res'\<bar> * \<bar>base * base\<bar>"
    by (simp_all add: mult_le_cancel_left1 mult_le_cancel_right1)
  then have i: "is_int64 res'" "is_int64 (base * base)"
    using le Suc.prems(3) unfolding is_int64_def by linarith+
  have "ipow_ladder (Suc (Suc k)) result (int e) base = ipow_ladder (Suc k) res' (int (e div 2)) (base * base)"
    using i by (cases "odd e") (simp_all add: and_one_iff res'_def int64_id zdiv_int)
  also have "\<dots> = res' * (base * base) ^ (e div 2)"
    using Suc.IH[OF e2] nz bb Suc.prems(3) by (simp add: eq)
  finally show ?case by (simp only: eq)
qed

lemma ipow_small:
  assumes "0 \<le> e" "e < 63" "\<bar>b\<bar> \<le> overflows ! nat e" "b \<noteq> 0"
  shows "ipow b e = b ^ nat e"
proof -
  have F: "pow_fits (nat e)" using assms by (intro pow_fits) auto
  have "is_int64 (- b)" using assms(3) F by (auto simp: is_int64_def pow_fits_def)
  then have nb: "int64 (- b) = - b" by (rule int64_id)
  have lim: "\<bar>b ^ nat e\<bar> < 2 ^ 63"
  proof -
    have "\<bar>b\<bar> ^ nat e \<le> (overflows ! nat e) ^ nat e" using assms(3) by (intro power_mono) auto
    then show ?thesis using F by (simp add: pow_fits_def power_abs)
  qed
  show ?thesis
  proof (cases "e = 0")
    case True
    then show ?thesis using assms nb F by (auto simp: ipow_def pow_fits_def)
  next
    case False
    then obtain k where k: "highestBitSet ! nat e = Suc k"
      using F assms(1) by (cases "highestBitSet ! nat e") (auto simp: pow_fits_def)
    then have "2 ^ k \<le> nat e" "nat e < 2 ^ Suc k" using F False assms(1) by (auto simp: pow_fits_def)
    from ipow_ladder_correct[OF this, of 1 b] assms lim k nb show ?thesis by (auto simp: ipow_def)
  qed
qed

lemma ipow_overflow:
  assumes "0 \<le> e" "e < 63" "overflows ! nat e < \<bar>b\<bar>" "is_int64 b" "b \<noteq> - (2 ^ 63)"
  shows "ipow b e = 0" "e \<noteq> 0 \<Longrightarrow> 2 ^ 63 \<le> \<bar>b ^ nat e\<bar>"
proof -
  have F: "pow_fits (nat e)" using assms by (intro pow_fits) auto
  have "is_int64 (- b)" using assms(4,5) by (auto simp: is_int64_def)
  then show "ipow b e = 0" using assms by (auto simp: ipow_def int64_id)
  assume "e \<noteq> 0"
  then have "2 ^ 63 \<le> (overflows ! nat e + 1) ^ nat e" using F assms(1) by (simp add: pow_fits_def)
  also have "\<dots> \<le> \<bar>b\<bar> ^ nat e" using assms(3) F by (intro power_mono) (auto simp: pow_fits_def)
  finally show "2 ^ 63 \<le> \<bar>b ^ nat e\<bar>" by (simp add: power_abs)
qed


lemma ipow_value:
  assumes "0 \<le> e" "\<bar>b\<bar> \<le> maxInt" "b \<noteq> 0"
  shows "ipow b e = (if \<bar>b ^ nat e\<bar> < 2 ^ 63 then b ^ nat e else 0)"
proof (cases "63 \<le> e")
  case True
  show ?thesis
  proof (cases "\<bar>b\<bar> = 1")
    case True
    then consider "b = 1" | "b = - 1" by linarith
    then show ?thesis
    proof cases
      case 2
      then show ?thesis
        using \<open>63 \<le> e\<close> assms(1)
        by (cases "odd (nat e)") (auto simp: ipow_def and_one_eq even_nat_iff mod2_eq_if)
    qed (use \<open>63 \<le> e\<close> in \<open>simp add: ipow_def\<close>)
  next
    case False
    then have "2 \<le> \<bar>b\<bar>" using assms(3) by linarith
    then have "(2::int) ^ 63 \<le> \<bar>b\<bar> ^ 63" by (intro power_mono) auto
    also have "\<dots> \<le> \<bar>b\<bar> ^ nat e" using \<open>2 \<le> \<bar>b\<bar>\<close> True by (intro power_increasing) auto
    finally show ?thesis using False True by (auto simp: ipow_def power_abs)
  qed
next
  case False
  have i: "is_int64 b" "b \<noteq> - (2 ^ 63)" using assms(2) by (auto simp: is_int64_def maxInt_def)
  show ?thesis
  proof (cases "\<bar>b\<bar> \<le> overflows ! nat e")
    case True
    have F: "pow_fits (nat e)" using False by (intro pow_fits) auto
    have "\<bar>b\<bar> ^ nat e \<le> (overflows ! nat e) ^ nat e" using True by (intro power_mono) auto
    then have "\<bar>b ^ nat e\<bar> < 2 ^ 63" using F by (simp add: pow_fits_def power_abs)
    then show ?thesis using ipow_small[of e b] assms False True by simp
  next
    case big: False
    then have "e \<noteq> 0" using assms(2) by (auto simp: overflows_def maxInt_def)
    then show ?thesis using ipow_overflow[of e b] big False assms(1) i by auto
  qed
qed

section \<open>Objects as operands\<close>

definition yields_primitive :: "('w, val) jsm \<Rightarrow> bool" where
  "yields_primitive m \<longleftrightarrow> (\<forall>w v w'. m w = (Inr v, w') \<longrightarrow> (\<forall>x. v \<noteq> VObj x))"

lemma yields_primitive_bind:
  "(\<And>x. yields_primitive (k x)) \<Longrightarrow> yields_primitive (bindM m k)"
  unfolding yields_primitive_def bindM_def by (auto split: prod.splits sum.splits)

lemma yields_primitive_ret: "(\<And>x. v \<noteq> VObj x) \<Longrightarrow> yields_primitive (ret v)"
  by (simp add: yields_primitive_def ret_def)

lemma yields_primitive_throw: "yields_primitive (throwM e)"
  by (simp add: yields_primitive_def throwM_def)

definition yields_primitive_opt :: "('w, val option) jsm \<Rightarrow> bool" where
  "yields_primitive_opt m \<longleftrightarrow> (\<forall>w v w'. m w = (Inr (Some v), w') \<longrightarrow> (\<forall>x. v \<noteq> VObj x))"

lemma yields_primitive_opt_bind:
  "(\<And>x. yields_primitive_opt (k x)) \<Longrightarrow> yields_primitive_opt (bindM m k)"
  unfolding yields_primitive_opt_def bindM_def by (auto split: prod.splits sum.splits)

lemma yields_primitive_opt_ret: "(\<And>x. v \<noteq> Some (VObj x)) \<Longrightarrow> yields_primitive_opt (ret v)"
  by (auto simp: yields_primitive_opt_def ret_def)

lemma yields_primitive_opt_throw: "yields_primitive_opt (throwM e)"
  by (simp add: yields_primitive_opt_def throwM_def)

lemma yields_primitive_or_else:
  assumes "yields_primitive_opt m" "yields_primitive n"
  shows "yields_primitive (bindM m (\<lambda>v. case v of Some p \<Rightarrow> ret p | None \<Rightarrow> n))"
  unfolding yields_primitive_def
proof (intro allI impI)
  fix w v w' x
  assume "bindM m (\<lambda>v. case v of Some p \<Rightarrow> ret p | None \<Rightarrow> n) w = (Inr v, w')"
  then show "v \<noteq> VObj x"
    using assms unfolding bindM_def ret_def yields_primitive_def yields_primitive_opt_def
    by (fastforce split: prod.splits sum.splits option.splits)
qed

lemma tryPrimitive_primitive: "yields_primitive_opt (tryPrimitive E x m)"
  unfolding tryPrimitive_def
  by (intro yields_primitive_opt_bind)
    (auto intro!: yields_primitive_opt_bind yields_primitive_opt_ret split: option.splits val.splits)

lemma tryExoticToPrimitive_primitive: "yields_primitive_opt (tryExoticToPrimitive E x h)"
  unfolding tryExoticToPrimitive_def
  by (intro yields_primitive_opt_bind)
    (auto intro!: yields_primitive_opt_bind yields_primitive_opt_ret yields_primitive_opt_throw
      split: option.splits val.splits)

lemmas yields_primitive_intros =
  yields_primitive_or_else tryPrimitive_primitive tryExoticToPrimitive_primitive yields_primitive_throw

lemma ordinaryToPrimitive_primitive:
  "yields_primitive (ordinaryToPrimitiveNumber E x)" "yields_primitive (ordinaryToPrimitiveString E x)"
  unfolding ordinaryToPrimitiveNumber_def ordinaryToPrimitiveString_def
  by (intro yields_primitive_intros)+

lemma Object_toPrimitive_primitive:
  "yields_primitive (Object_toPrimitiveNumber E x)" "yields_primitive (Object_toPrimitive E x)"
  "yields_primitive (Object_toPrimitiveString E x)"
  unfolding Object_toPrimitiveNumber_def Object_toPrimitive_def Object_toPrimitiveString_def
  by (intro yields_primitive_intros ordinaryToPrimitive_primitive)+


section \<open>Ranges of the bitwise operators\<close>

lemma toInt32_range: "- (2 ^ 31) \<le> toInt32 v \<and> toInt32 v < 2 ^ 31"
  by (cases v) (use wrap_s_range[of 32] in auto)

lemma toUint32_range: "0 \<le> toUint32 v \<and> toUint32 v < 2 ^ 32"
  by (cases v) (use wrap_u_range[of 32] in \<open>auto simp: floatToUint32_trunc\<close>)


lemma signed_take_bit_bitwise:
  fixes a b :: int
  shows "signed_take_bit n (a AND b) = signed_take_bit n a AND signed_take_bit n b"
    "signed_take_bit n (a OR b) = signed_take_bit n a OR signed_take_bit n b"
    "signed_take_bit n (a XOR b) = signed_take_bit n a XOR signed_take_bit n b"
  by (rule bit_eqI, simp add: bit_simps)+

lemma int32_bitwise_range:
  fixes a b :: int
  assumes "- (2 ^ 31) \<le> a" "a < 2 ^ 31" "- (2 ^ 31) \<le> b" "b < 2 ^ 31"
  shows "- (2 ^ 31) \<le> a AND b \<and> a AND b < 2 ^ 31" "- (2 ^ 31) \<le> a OR b \<and> a OR b < 2 ^ 31"
    "- (2 ^ 31) \<le> a XOR b \<and> a XOR b < 2 ^ 31"
proof -
  have eq: "signed_take_bit 31 a = a" "signed_take_bit 31 b = b"
    using assms by (simp_all add: signed_take_bit_int_eq_self)
  have rng: "- (2 ^ 31) \<le> signed_take_bit 31 c \<and> signed_take_bit 31 c < 2 ^ 31" for c :: int
    using signed_take_bit_int_greater_eq_minus_exp[of 31 c] signed_take_bit_int_less_exp[of 31 c] by simp
  show "- (2 ^ 31) \<le> a AND b \<and> a AND b < 2 ^ 31"
    using rng[of "a AND b"] eq by (simp add: signed_take_bit_bitwise)
  show "- (2 ^ 31) \<le> a OR b \<and> a OR b < 2 ^ 31"
    using rng[of "a OR b"] eq by (simp add: signed_take_bit_bitwise)
  show "- (2 ^ 31) \<le> a XOR b \<and> a XOR b < 2 ^ 31"
    using rng[of "a XOR b"] eq by (simp add: signed_take_bit_bitwise)
qed

lemma div_pow2_range:
  fixes a :: int
  shows "- (2 ^ 31) \<le> a \<Longrightarrow> a < 2 ^ 31 \<Longrightarrow> - (2 ^ 31) \<le> a div 2 ^ n \<and> a div 2 ^ n < 2 ^ 31"
    "0 \<le> a \<Longrightarrow> a < 2 ^ 32 \<Longrightarrow> 0 \<le> a div 2 ^ n \<and> a div 2 ^ n < 2 ^ 32"
proof -
  have p: "(1::int) \<le> 2 ^ n" by simp
  have le: "a div 2 ^ n \<le> \<bar>a\<bar>" if "0 \<le> a"
    using that p zdiv_mono2[of a 1 "2 ^ n"] by simp
  show "- (2 ^ 31) \<le> a div 2 ^ n \<and> a div 2 ^ n < 2 ^ 31" if "- (2 ^ 31) \<le> a" "a < 2 ^ 31"
  proof (cases "0 \<le> a")
    case True
    then have "0 \<le> a div 2 ^ n" by (simp add: pos_imp_zdiv_nonneg_iff)
    then show ?thesis using True le that by linarith
  next
    case False
    then have "a div 1 \<le> a div 2 ^ n" using p zdiv_mono2_neg[of a 1 "2 ^ n"] by linarith
    moreover have "a div 2 ^ n < 0" using False by (simp add: div_neg_pos_less0)
    ultimately show ?thesis using that by simp
  qed
  show "0 \<le> a div 2 ^ n \<and> a div 2 ^ n < 2 ^ 32" if "0 \<le> a" "a < 2 ^ 32"
    using le that by (simp add: pos_imp_zdiv_nonneg_iff)
qed

text \<open>The results stay far inside the safe integers, so they are always \<^verbatim>\<open>valueInt\<close>s.\<close>

lemma intToValue_word: "- (2 ^ 31) \<le> i \<Longrightarrow> i < 2 ^ 32 \<Longrightarrow> intToValue i = VInt i"
  by (intro intToValue_small) (auto simp: maxInt_def)

lemma int32_value: "- (2 ^ 31) \<le> i \<and> i < 2 ^ 31 \<Longrightarrow> intToValue i = VInt i"
  by (rule intToValue_word) auto

lemma uint32_value: "0 \<le> i \<and> i < 2 ^ 32 \<Longrightarrow> intToValue i = VInt i"
  by (rule intToValue_word) auto

section \<open>Order of numeric values\<close>

fun number_value :: "val \<Rightarrow> rat" where
  "number_value (VInt i) = of_int i"
| "number_value (VFloat f) = f64_rat f"
| "number_value (VBigInt i) = of_int i"
| "number_value _ = 0"

fun finite_numeric :: "val \<Rightarrow> bool" where
  "finite_numeric (VInt i) = (\<bar>i\<bar> \<le> maxInt)"
| "finite_numeric (VFloat f) = f64_finite f"
| "finite_numeric (VBigInt i) = True"
| "finite_numeric _ = False"

lemma toNumeric_finite:
  assumes "finite_numeric v"
  obtains n where "toNumeric E v = ret n" "finite_numeric n" "number_value n = number_value v"
proof (cases v)
  case (VFloat f)
  then have "finite_numeric (floatToValue f) \<and> number_value (floatToValue f) = f64_rat f"
    using assms by (cases f rule: floatToValue_cases) (auto simp: floatToInt_iff)
  with VFloat that show thesis by (simp add: toNumeric_def)
qed (use assms that in \<open>auto simp: toNumeric_def\<close>)

lemma cmp_numeric_finite:
  assumes "finite_numeric x" "finite_numeric y"
  shows "cmp_numeric x y = Some (number_value x < number_value y)"
  using assms
  by (cases x; cases y)
    (auto simp: cmp_numeric_def float_less_bigint_def bigint_less_float_def Let_def flt_finite
      f64_of_int_small finite_not_special)

lemma cmp_finite:
  assumes "finite_numeric x" "finite_numeric y"
  shows "cmp E x y = ret (Some (number_value x < number_value y))"
proof -
  obtain m where m: "toNumeric E x = ret m" "finite_numeric m" "number_value m = number_value x"
    using toNumeric_finite[OF assms(1)] by blast
  obtain n where n: "toNumeric E y = ret n" "finite_numeric n" "number_value n = number_value y"
    using toNumeric_finite[OF assms(2)] by blast
  show ?thesis
    using m n cmp_numeric_finite[OF m(2) n(2)] assms by (cases x; cases y) (simp_all add: cmp_def)
qed

lemma cmp_nan:
  assumes "canonical x" "is_number x" "canonical y" "is_number y"
    "f64_isnan (num_float x) \<or> f64_isnan (num_float y)"
  shows "cmp E x y = ret None"
proof -
  have "cmp E x y = ret (cmp_numeric x y)"
    using assms(2,4) toNumeric_canonical(1)[OF assms(1,2), of E] toNumeric_canonical(1)[OF assms(3,4), of E]
    by (cases x; cases y) (simp_all add: cmp_def)
  also have "cmp_numeric x y = None"
    using assms by (cases x; cases y) (auto simp: cmp_numeric_def Let_def f64_of_int_small(4))
  finally show ?thesis .
qed


section \<open>Canonical results\<close>

definition escapes :: "val \<Rightarrow> val \<Rightarrow> (int \<Rightarrow> int \<Rightarrow> int) \<Rightarrow> bool" where
  "escapes x y f \<longleftrightarrow> (\<exists>l r. x = VInt l \<and> y = VInt r \<and> \<bar>f l r\<bar> = maxInt + 1)"

lemma mul_ints_canonical:
  assumes "\<bar>l\<bar> \<le> maxInt" "\<bar>r\<bar> \<le> maxInt"
  shows "canonical (mul_ints l r) \<longleftrightarrow> \<bar>l * r\<bar> \<noteq> maxInt + 1"
proof (cases "is_int64 (l * r) \<and> l * r \<noteq> 0")
  case True
  then show ?thesis
    using intToValue_canonical_iff[of "l * r"] by (simp add: mul_ints_cases[OF assms])
next
  case False
  then have "mul_ints l r = floatToValue (fmul (f64_of_int l) (f64_of_int r))"
    using mul_ints_cases[OF assms] by argo
  moreover have "\<bar>l * r\<bar> \<noteq> maxInt + 1"
    using False unfolding is_int64_def by (auto simp: maxInt_def)
  ultimately show ?thesis by (simp only: canonical_floatToValue simp_thms)
qed

lemma canonical_results:
  assumes "canonical x" "is_number x" "canonical y" "is_number y"
  shows "canonical (case (x, y) of (VInt l, VInt r) \<Rightarrow> intToValue (l + r)
      | _ \<Rightarrow> floatToValue (fadd (num_float x) (num_float y))) \<longleftrightarrow> \<not> escapes x y (+)"
    "canonical (case (x, y) of (VInt l, VInt r) \<Rightarrow> intToValue (l - r)
      | _ \<Rightarrow> floatToValue (fsub (num_float x) (num_float y))) \<longleftrightarrow> \<not> escapes x y (-)"
    "canonical (case (x, y) of (VInt l, VInt r) \<Rightarrow> mul_ints l r
      | _ \<Rightarrow> floatToValue (fmul (num_float x) (num_float y))) \<longleftrightarrow> \<not> escapes x y (*)"
  using intToValue_canonical_iff small_sum_int64 mul_ints_canonical
  by (cases rule: number_pair_cases[OF assms]; simp add: escapes_def)+

lemma bitlen_shift: "0 < x \<Longrightarrow> bitlen (x * 2 ^ n) = bitlen x + int n"
  by (simp add: bitlen_pow2)

lemma bitlen_less_pow2: "bitlen \<bar>x\<bar> \<le> int k \<Longrightarrow> \<bar>x\<bar> < 2 ^ k"
proof -
  assume "bitlen \<bar>x\<bar> \<le> int k"
  moreover have "\<bar>x\<bar> < 2 ^ nat (bitlen \<bar>x\<bar>)" using bitlen_bounds[of "\<bar>x\<bar>"] by (cases "x = 0") auto
  moreover have "(2::int) ^ nat (bitlen \<bar>x\<bar>) \<le> 2 ^ k"
    using \<open>bitlen \<bar>x\<bar> \<le> int k\<close> by (intro power_increasing) auto
  ultimately show ?thesis by linarith
qed

lemma div_pow2_vanish:
  fixes x :: int
  assumes "\<bar>x\<bar> < 2 ^ k" "k \<le> n"
  shows "x div 2 ^ n = (if x < 0 then - 1 else 0)"
proof -
  have "(2::int) ^ k \<le> 2 ^ n" using assms(2) by (intro power_increasing) auto
  with assms(1) have b: "\<bar>x\<bar> < 2 ^ n" by linarith
  show ?thesis
  proof (cases "x < 0")
    case True
    then have "(x + 2 ^ n) div 2 ^ n = 0" using b by (intro div_pos_pos_trivial) auto
    then show ?thesis using True by simp
  qed (use b in \<open>auto intro: div_pos_pos_trivial\<close>)
qed

lemma bigIntShift_value:
  assumes "bitlen \<bar>x\<bar> \<le> maxBigIntBits"
  shows "bigIntShift x n =
    (if n \<le> 0 then Inr (rsh x (- n))
     else if x = 0 then Inr 0
     else if maxBigIntBits < bitlen \<bar>x\<bar> + n then Inl RangeErr
     else Inr (x * 2 ^ nat n))"
proof (cases "n \<le> 0")
  case True
  show ?thesis
  proof (cases "64 < bitlen \<bar>n\<bar>")
    case big: True
    define m where "m = nat maxBigIntBits"
    have x: "\<bar>x\<bar> < 2 ^ m"
      using assms by (intro bitlen_less_pow2) (simp add: m_def maxBigIntBits_def)
    have "\<not> \<bar>n\<bar> < 2 ^ 64" using big bitlen_le_iff_power[of "\<bar>n\<bar>" 64] by auto
    then have "m \<le> nat (- n)" "m \<le> nat MaxUint"
      using True by (simp_all add: m_def maxBigIntBits_def MaxUint_def)
    then have "rsh x (- n) = rsh x MaxUint"
      unfolding rsh_def using div_pow2_vanish[OF x] by simp
    then show ?thesis using True big by (simp add: bigIntShift_def Let_def)
  next
    case False
    then show ?thesis using True by (cases "n = 0") (auto simp: bigIntShift_def Let_def rsh_def)
  qed
next
  case False
  have small: "is_int64 \<bar>n\<bar> \<and> \<not> 64 < bitlen \<bar>n\<bar>" if "\<not> maxBigIntBits < bitlen \<bar>x\<bar> + n"
  proof -
    have "n \<le> 2 ^ 30" using that bitlen_nonneg[of "\<bar>x\<bar>"] by (simp add: maxBigIntBits_def)
    moreover from this have "bitlen n \<le> 64" using bitlen_le_iff_power[of n 64] False by simp
    ultimately show ?thesis using False by (auto simp: is_int64_def)
  qed
  then show ?thesis
    using False by (cases "x = 0") (auto simp: bigIntShift_def Let_def rsh_def)
qed

text \<open>
  An environment for concrete runs: every object has a method with the number 1 under every name,
  which returns one half and counts its calls in the world.
\<close>

definition env0 :: "nat env" where
  "env0 = \<lparr>e_getStr = (\<lambda>_ _. ret (Some (VObj 1))), e_getSym = (\<lambda>_ _. ret None),
     e_callable = (\<lambda>x. x = 1),
     e_call = (\<lambda>_ _ _ n. (Inr (VFloat (f64_of_rat False (1 / 2))), n + 1)),
     e_strToNumber = (\<lambda>_. VFloat f64_nan), e_strToBigInt = (\<lambda>_. None), e_floatToStr = (\<lambda>_. []),
     e_pow = (\<lambda>_ _. f64_nan)\<rparr>"

section \<open>Properties\<close>

text \<open>
  (C12) On canonical Numbers the five arithmetic operators compute exactly what IEEE double arithmetic
  computes, although two \<^verbatim>\<open>valueInt\<close>s are handled in 64-bit integer arithmetic: no wrap-around of
  \<^verbatim>\<open>int64\<close> is ever visible, the overflow check of multiplication is sound and complete, and the sign
  of zero comes out as for doubles.
\<close>

theorem arithmetic_is_ieee:
  assumes "canonical x" "is_number x" "canonical y" "is_number y"
  shows "(\<exists>v. add_exec E x y = ret v \<and> denotes v (fadd (num_float x) (num_float y))) \<and>
    (\<exists>v. sub_exec E x y = ret v \<and> denotes v (fsub (num_float x) (num_float y))) \<and>
    (\<exists>v. mul_exec E x y = ret v \<and> denotes v (fmul (num_float x) (num_float y))) \<and>
    (\<exists>v. div_exec E x y = ret v \<and> denotes v (fdiv (num_float x) (num_float y))) \<and>
    (\<exists>v. mod_exec E x y = ret v \<and> denotes v (fmod (num_float x) (num_float y)))"
  using denotes_results[OF assms] by (simp add: exec_numbers[OF assms])

theorem arithmetic_is_ieee_witness:
  "canonical (VInt 0) \<and> canonical (VInt (- 5)) \<and>
   (\<exists>v. mul_exec env0 (VInt 0) (VInt (- 5)) = ret v \<and> denotes v (fmul (f64_of_int 0) (f64_of_int (- 5))))"
proof -
  have c: "canonical (VInt 0)" "is_number (VInt 0)" "canonical (VInt (- 5))" "is_number (VInt (- 5))"
    by (simp_all add: maxInt_def)
  show ?thesis using c arithmetic_is_ieee[OF c, of env0] by simp
qed

text \<open>
  The operators keep Numbers canonical: quotients and remainders always, sums, differences and
  products except when two \<^verbatim>\<open>valueInt\<close>s give an integer exactly one beyond the safe range. The
  bitwise operators, increments of \<^verbatim>\<open>valueInt\<close>s and the unary plus are covered by the other properties.
\<close>

theorem arithmetic_canonical:
  assumes "canonical x" "is_number x" "canonical y" "is_number y"
  shows "(\<exists>v. add_exec E x y = ret v \<and> (canonical v \<longleftrightarrow> \<not> escapes x y (+))) \<and>
    (\<exists>v. sub_exec E x y = ret v \<and> (canonical v \<longleftrightarrow> \<not> escapes x y (-))) \<and>
    (\<exists>v. mul_exec E x y = ret v \<and> (canonical v \<longleftrightarrow> \<not> escapes x y (*))) \<and>
    (\<exists>v. div_exec E x y = ret v \<and> canonical v) \<and>
    (\<exists>v. mod_exec E x y = ret v \<and> canonical v)"
  using canonical_results[OF assms] by (simp add: exec_numbers[OF assms])


theorem arithmetic_canonical_witness:
  "canonical (VInt 9007199254740992) \<and>
   (\<exists>v. add_exec env0 (VInt 9007199254740992) (VInt 1) = ret v \<and> \<not> canonical v)"
proof -
  have c: "canonical (VInt 9007199254740992)" "is_number (VInt 9007199254740992)"
    "canonical (VInt 1)" "is_number (VInt 1)"
    by (simp_all add: maxInt_def)
  have "escapes (VInt 9007199254740992) (VInt 1) (+)" by (simp add: escapes_def maxInt_def)
  then show ?thesis using c arithmetic_canonical[OF c, of env0] by blast
qed

text \<open>
  (C38) For a base of magnitude between 1 and \<open>2 ^ 53\<close> and an exponent that is not negative, \<^verbatim>\<open>ipow\<close> returns the exact power when its
  magnitude is below \<open>2 ^ 63\<close>, and otherwise 0, the signal to fall back to \<^verbatim>\<open>math.Pow\<close> (so also for \<open>(-2) ^ 63\<close>, which would fit): the table of overflow bounds is exact and the squaring ladder
  never wraps around on the way.
\<close>

theorem ipow_exact:
  assumes "0 \<le> e" "\<bar>b\<bar> \<le> maxInt" "b \<noteq> 0"
  shows "ipow b e = (if \<bar>b ^ nat e\<bar> < 2 ^ 63 then b ^ nat e else 0)"
  using assms by (rule ipow_value)

theorem ipow_exact_witness: "ipow 3 39 = 3 ^ 39 \<and> ipow 3 40 = 0 \<and> ipow (- 1) 101 = - 1"
  using ipow_exact[of 39 3] ipow_exact[of 40 3] ipow_exact[of 101 "- 1"] by (simp add: maxInt_def)

text \<open>
  No operator mixes BigInts with Numbers: with a BigInt on one side and a Number on the other,
  every binary arithmetic, exponentiation, bitwise and shift operator throws a TypeError and leaves the
  world as it was.
\<close>

theorem bigint_number_mix_throws:
  assumes "is_number x" "f \<in> {add_exec E, sub_exec E, mul_exec E, div_exec E, mod_exec E, exp_exec E,
      and_exec E, or_exec E, xor_exec E, sal_exec E, sar_exec E, shr_exec E}"
  shows "f (VBigInt b) x = throwM TypeErr \<and> f x (VBigInt b) = throwM TypeErr"
proof -
  obtain n where n: "toNumeric E x = ret n" "is_number n"
    using assms(1) denotes_floatToValue by (cases x) (auto simp: toNumeric_def denotes_def)
  have b: "toNumeric E (VBigInt b) = ret (VBigInt b)" by (simp add: toNumeric_def)
  have add: "add_exec E (VBigInt b) x = throwM TypeErr \<and> add_exec E x (VBigInt b) = throwM TypeErr"
    using assms(1) by (cases x) (simp_all add: add_exec_def toPrimitive_def add_numbers_def)
  show ?thesis
    using assms(2) add n b
    by (cases n)
      (auto simp: sub_exec_def mul_exec_def div_exec_def mod_exec_def exp_exec_def and_exec_def
        or_exec_def xor_exec_def sal_exec_def sar_exec_def shr_exec_def)
qed

theorem bigint_number_mix_throws_witness:
  "is_number (VInt 1) \<and> exp_exec env0 (VBigInt 2) (VInt 1) = throwM TypeErr"
  using bigint_number_mix_throws[of "VInt 1" "exp_exec env0" env0 2] by simp

text \<open>
  The relational operators order all finite numeric values, of whatever representation (integer,
  double, BigInt), by their mathematical values.
\<close>

theorem relational_correct:
  assumes "finite_numeric x" "finite_numeric y"
  shows "op_lt_exec E x y = ret (VBool (number_value x < number_value y)) \<and>
    op_lte_exec E x y = ret (VBool (number_value x \<le> number_value y)) \<and>
    op_gt_exec E x y = ret (VBool (number_value x > number_value y)) \<and>
    op_gte_exec E x y = ret (VBool (number_value x \<ge> number_value y))"
proof -
  have p: "toPrimitiveNumber E x = ret x" "toPrimitiveNumber E y = ret y"
    using assms by (cases x; cases y; simp add: toPrimitiveNumber_def)+
  show ?thesis
    by (simp add: op_lt_exec_def op_lte_exec_def op_gt_exec_def op_gte_exec_def p
        cmp_finite[OF assms] cmp_finite[OF assms(2,1)] not_less)
qed

theorem relational_correct_witness:
  "finite_numeric (VBigInt (10 ^ 30)) \<and> finite_numeric (VInt 7) \<and>
   op_lt_exec env0 (VInt 7) (VBigInt (10 ^ 30)) = ret (VBool True)"
  using relational_correct[of "VInt 7" "VBigInt (10 ^ 30)" env0] by (simp add: maxInt_def)

text \<open>Every relational operator yields false when one of two Numbers is NaN.\<close>

theorem relational_nan:
  assumes "canonical x" "is_number x" "canonical y" "is_number y"
    "f64_isnan (num_float x) \<or> f64_isnan (num_float y)"
    "f \<in> {op_lt_exec E, op_lte_exec E, op_gt_exec E, op_gte_exec E}"
  shows "f x y = ret (VBool False)"
proof -
  have n: "cmp E x y = ret None" "cmp E y x = ret None"
    using cmp_nan[OF assms(1-5)] cmp_nan[OF assms(3,4,1,2)] assms(5) by auto
  show ?thesis
    using assms(6) n toNumeric_canonical(3)[OF assms(1,2), of E] toNumeric_canonical(3)[OF assms(3,4), of E]
    by (auto simp: op_lt_exec_def op_lte_exec_def op_gt_exec_def op_gte_exec_def)
qed

theorem relational_nan_witness:
  "canonical (VFloat f64_nan) \<and> op_lte_exec env0 (VFloat f64_nan) (VInt 3) = ret (VBool False)"
proof -
  have c: "canonical (VFloat f64_nan)" "is_number (VFloat f64_nan)" "canonical (VInt 3)" "is_number (VInt 3)"
    "f64_isnan (num_float (VFloat f64_nan)) \<or> f64_isnan (num_float (VInt 3))"
    by (simp_all add: maxInt_def floatToValue_nan)
  show ?thesis using c relational_nan[OF c, of "op_lte_exec env0" env0] by simp
qed

text \<open>
  On Numbers the bitwise and signed shift operators yield a \<^verbatim>\<open>valueInt\<close> in the range of a signed
  32-bit integer, and the unsigned shift one in the range of an unsigned 32-bit integer.
\<close>

theorem bitwise_range:
  assumes "is_number x" "is_number y"
  shows "(\<forall>f \<in> {and_exec E, or_exec E, xor_exec E, sal_exec E, sar_exec E}.
      \<exists>i. f x y = ret (VInt i) \<and> - (2 ^ 31) \<le> i \<and> i < 2 ^ 31) \<and>
    (\<exists>i. shr_exec E x y = ret (VInt i) \<and> 0 \<le> i \<and> i < 2 ^ 32)"
proof -
  obtain m where m: "toNumeric E x = ret m" "is_number m"
    using assms(1) denotes_floatToValue by (cases x) (auto simp: toNumeric_def denotes_def)
  obtain n where n: "toNumeric E y = ret n" "is_number n"
    using assms(2) denotes_floatToValue by (cases y) (auto simp: toNumeric_def denotes_def)
  define k where "k = nat (toUint32 n AND 31)"
  note rs = toInt32_range[of m] toInt32_range[of n]
  note and3 = int32_bitwise_range[OF conjunct1[OF rs(1)] conjunct2[OF rs(1)]
      conjunct1[OF rs(2)] conjunct2[OF rs(2)]]
  have sar: "- (2 ^ 31) \<le> toInt32 m div 2 ^ k \<and> toInt32 m div 2 ^ k < 2 ^ 31"
    using rs by (intro div_pow2_range(1)) auto
  have sal: "- (2 ^ 31) \<le> int32 (toInt32 m * 2 ^ k) \<and> int32 (toInt32 m * 2 ^ k) < 2 ^ 31"
    using wrap_s_range[of 32 "toInt32 m * 2 ^ k"] by simp
  have shr: "0 \<le> toUint32 m div 2 ^ k \<and> toUint32 m div 2 ^ k < 2 ^ 32"
    using toUint32_range[of m] by (intro div_pow2_range(2)) auto
  have iv: "intToValue (toInt32 m AND toInt32 n) = VInt (toInt32 m AND toInt32 n)"
      "intToValue (toInt32 m OR toInt32 n) = VInt (toInt32 m OR toInt32 n)"
      "intToValue (toInt32 m XOR toInt32 n) = VInt (toInt32 m XOR toInt32 n)"
      "intToValue (toInt32 m div 2 ^ k) = VInt (toInt32 m div 2 ^ k)"
      "intToValue (int32 (toInt32 m * 2 ^ k)) = VInt (int32 (toInt32 m * 2 ^ k))"
      "intToValue (toUint32 m div 2 ^ k) = VInt (toUint32 m div 2 ^ k)"
    by (rule int32_value[OF and3(1)] int32_value[OF and3(2)] int32_value[OF and3(3)]
        int32_value[OF sar] int32_value[OF sal] uint32_value[OF shr])+
  have res: "and_exec E x y = ret (VInt (toInt32 m AND toInt32 n))"
      "or_exec E x y = ret (VInt (toInt32 m OR toInt32 n))"
      "xor_exec E x y = ret (VInt (toInt32 m XOR toInt32 n))"
      "sal_exec E x y = ret (VInt (int32 (toInt32 m * 2 ^ k)))"
      "sar_exec E x y = ret (VInt (toInt32 m div 2 ^ k))"
      "shr_exec E x y = ret (VInt (toUint32 m div 2 ^ k))"
    using m n iv[unfolded k_def] unfolding k_def
    by (auto simp: and_exec_def or_exec_def xor_exec_def sal_exec_def sar_exec_def shr_exec_def
        elim!: is_number.elims(2))
  show ?thesis unfolding ball_simps res ret_eq_iff val.inject using and3 sal sar shr by simp
qed

theorem bitwise_range_witness:
  "\<exists>i. sal_exec env0 (VInt 3) (VInt 31) = ret (VInt i) \<and> - (2 ^ 31) \<le> i \<and> i < 2 ^ 31"
  using bitwise_range[of "VInt 3" "VInt 31" env0] by simp

text \<open>
  \<^verbatim>\<open>bigIntShift\<close> shifts exactly, by any count however large: to the right it is the division
  rounding down, to the left the multiplication, which throws a RangeError exactly when the result
  would have more than \<^verbatim>\<open>maxBigIntBits\<close> bits.
\<close>

theorem bigIntShift_correct:
  assumes "bitlen \<bar>x\<bar> \<le> maxBigIntBits"
  shows "bigIntShift x n =
    (if n \<le> 0 then Inr (rsh x (- n))
     else if x = 0 then Inr 0
     else if maxBigIntBits < bitlen \<bar>x\<bar> + n then Inl RangeErr
     else Inr (x * 2 ^ nat n))"
  using assms by (rule bigIntShift_value)

theorem bigIntShift_correct_witness:
  "bitlen \<bar>5\<bar> \<le> maxBigIntBits \<and> bigIntShift 5 3 = Inr 40 \<and> bigIntShift 5 (2 ^ 30) = Inl RangeErr"
proof -
  have b: "bitlen \<bar>5::int\<bar> = 3" by code_simp
  then have le: "bitlen \<bar>5\<bar> \<le> maxBigIntBits" by (simp add: maxBigIntBits_def)
  show ?thesis
    using le b bigIntShift_correct[OF le, of 3] bigIntShift_correct[OF le, of "2 ^ 30"]
    by (simp add: maxBigIntBits_def)
qed

text \<open>
  Converting a value to a primitive never yields an object, whatever user code the conversion
  runs: it yields a primitive or throws.
\<close>

theorem toPrimitive_not_object:
  "toPrimitive E v w \<noteq> (Inr (VObj x), w') \<and> toPrimitiveNumber E v w \<noteq> (Inr (VObj x), w')"
  using Object_toPrimitive_primitive(1,2)[of E, unfolded yields_primitive_def]
  by (cases v) (simp_all add: toPrimitive_def toPrimitiveNumber_def, blast)

text \<open>
  Negating an object whose primitive value is not a safe integer runs its conversion method twice:
  with a method that counts its calls, the count afterwards is two. Subtraction runs it once.
\<close>

theorem neg_converts_twice:
  "snd (neg_exec env0 (VObj 0) 0) = 2 \<and> snd (sub_exec env0 (VInt 0) (VObj 0) 0) = 1"
proof -
  have h: "num_float (VFloat (f64_of_rat False (1 / 2))) = f64_of_rat False (1 / 2)" by simp
  show ?thesis
    by (simp add: neg_exec_def sub_exec_def toNumeric_def Object_toPrimitiveNumber_def
        tryExoticToPrimitive_def toMethod_def ordinaryToPrimitiveNumber_def tryPrimitive_def env0_def
        ToFloat_def toPrimitiveNumber_def bindM_def ret_def)
qed

text \<open>
  Incrementing negative zero yields a \<^verbatim>\<open>valueFloat\<close> holding the integer 1, which is not canonical:
  \<^verbatim>\<open>SameAs\<close> tells it apart from the \<^verbatim>\<open>valueInt\<close> 1, from which \<^verbatim>\<open>StrictEquals\<close> does not.
\<close>

theorem inc_negative_zero_not_canonical:
  "inc_exec E (VFloat negativeZero) = ret (VFloat (f64_of_int 1)) \<and> \<not> canonical (VFloat (f64_of_int 1)) \<and>
   \<not> SameAs (VInt 1) (VFloat (f64_of_int 1)) \<and> StrictEquals (VInt 1) (VFloat (f64_of_int 1))"
proof -
  have one: "f64_rat (f64_of_int 1) = 1" "f64_finite (f64_of_int 1)" "\<not> f64_sign (f64_of_int 1)"
    using f64_of_int_small[of 1] by (simp_all add: maxInt_def)
  have "fadd negativeZero (f64_of_int 1) = f64_of_int 1"
    using one by (simp add: fadd_def finite_not_special f64_of_int_def[symmetric] f64_of_rat_int[of 1, simplified])
  then show ?thesis
    using one floatToValue_of_int[of 1]
    by (auto simp: inc_exec_def ToFloat_def toPrimitiveNumber_def maxInt_def valueInt_SameAs_def
        valueInt_StrictEquals_def feq_finite)
qed

end
