(* ===== verification/Ordered_Map.thy ===== *)
theory Ordered_Map
  imports Values "HOL-Library.AList"
begin

text \<open>
  The insertion-ordered hash map behind Map and Set (map.go). Entries live in a heap and are linked
  three ways: a hash chain per bucket and a doubly linked list in insertion order. A removed entry
  keeps its links, so that an iterator standing on it can find its way back. Addresses are positions
  in the heap, allocation appends, and the loops over the links are partial functions whose value is
  \<open>None\<close> when they do not return (a cyclic chain, or a nil dereference).
\<close>

section \<open>The structure\<close>

record mapEntry =
  me_key :: "val option"
  me_value :: "val option"
  iterPrev :: "nat option"
  iterNext :: "nat option"
  hNext :: "nat option"

record orderedMap =
  entries :: "mapEntry list"
  om_hash :: hasher
  hashTable :: "int \<Rightarrow> nat option"
  iterFirst :: "nat option"
  iterLast :: "nat option"
  om_size :: int

text \<open>An iterator; \<open>open_iter\<close> is false once \<^verbatim>\<open>close\<close> has set its map to nil.\<close>

record orderedMapIter =
  open_iter :: bool
  cur :: "nat option"

definition upd_entry :: "nat \<Rightarrow> (mapEntry \<Rightarrow> mapEntry) \<Rightarrow> mapEntry list \<Rightarrow> mapEntry list" where
  "upd_entry i f es = es[i := f (es ! i)]"

text \<open>\<^verbatim>\<open>key == _negativeZero\<close> compares doubles, so it also holds of a \<^verbatim>\<open>valueFloat\<close> positive zero.\<close>

definition norm_key :: "val \<Rightarrow> val" where
  "norm_key key = (case key of VFloat f \<Rightarrow> if feq f negativeZero then intToValue 0 else key | _ \<Rightarrow> key)"

definition om_insert :: "orderedMap \<Rightarrow> val \<Rightarrow> val option \<Rightarrow> int \<Rightarrow> nat option \<Rightarrow> orderedMap" where
  "om_insert m key value h hPrev =
     (let entry = length (entries m);
          es0 = entries m @ [\<lparr>me_key = Some (norm_key key), me_value = value, iterPrev = None,
                  iterNext = None, hNext = None\<rparr>];
          es1 = (case hPrev of None \<Rightarrow> es0 | Some p \<Rightarrow> upd_entry p (hNext_update (\<lambda>_. Some entry)) es0);
          ht = (case hPrev of None \<Rightarrow> (hashTable m)(h := Some entry) | Some p \<Rightarrow> hashTable m);
          es2 = (case iterLast m of
                   Some l \<Rightarrow> upd_entry l (iterNext_update (\<lambda>_. Some entry))
                               (upd_entry entry (iterPrev_update (\<lambda>_. Some l)) es1)
                 | None \<Rightarrow> es1);
          fst = (case iterLast m of Some l \<Rightarrow> iterFirst m | None \<Rightarrow> Some entry)
      in m\<lparr>entries := es2, hashTable := ht, iterFirst := fst, iterLast := Some entry,
           om_size := om_size m + 1\<rparr>)"

partial_function (option) lookup_chain ::
  "mapEntry list \<Rightarrow> val \<Rightarrow> nat option \<Rightarrow> nat option \<Rightarrow> (nat option \<times> nat option) option" where
  "lookup_chain es key entry hPrev =
     (case entry of
        None \<Rightarrow> Some (None, hPrev)
      | Some e \<Rightarrow>
          (case me_key (es ! e) of
             None \<Rightarrow> None
           | Some k \<Rightarrow>
               if SameAs k key then Some (Some e, hPrev)
               else lookup_chain es key (hNext (es ! e)) (Some e)))"

definition lookup :: "orderedMap \<Rightarrow> val \<Rightarrow> (int \<times> nat option \<times> nat option) option" where
  "lookup m key0 =
     (let key = norm_key key0; h = hash (om_hash m) key in
      map_option (\<lambda>(entry, hPrev). (h, entry, hPrev))
        (lookup_chain (entries m) key (hashTable m h) None))"

definition om_set :: "orderedMap \<Rightarrow> val \<Rightarrow> val option \<Rightarrow> orderedMap option" where
  "om_set m key value =
     (case lookup m key of
        None \<Rightarrow> None
      | Some (h, Some e, hPrev) \<Rightarrow>
          Some (m\<lparr>entries := upd_entry e (me_value_update (\<lambda>_. value)) (entries m)\<rparr>)
      | Some (h, None, hPrev) \<Rightarrow> Some (om_insert m key value h hPrev))"

definition om_get :: "orderedMap \<Rightarrow> val \<Rightarrow> val option option" where
  "om_get m key =
     (case lookup m key of
        None \<Rightarrow> None
      | Some (_, Some e, _) \<Rightarrow> Some (me_value (entries m ! e))
      | Some (_, None, _) \<Rightarrow> Some None)"

definition om_getOrInsert :: "orderedMap \<Rightarrow> val \<Rightarrow> val option \<Rightarrow> (val option \<times> orderedMap) option" where
  "om_getOrInsert m key value =
     (case lookup m key of
        None \<Rightarrow> None
      | Some (_, Some e, _) \<Rightarrow> Some (me_value (entries m ! e), m)
      | Some (h, None, hPrev) \<Rightarrow> Some (value, om_insert m key value h hPrev))"

definition unlink_iter :: "nat \<Rightarrow> orderedMap \<Rightarrow> orderedMap" where
  "unlink_iter e m =
     (let p = iterPrev (entries m ! e); n = iterNext (entries m ! e);
          m1 = (case p of
                  Some p' \<Rightarrow> m\<lparr>entries := upd_entry p' (iterNext_update (\<lambda>_. n)) (entries m)\<rparr>
                | None \<Rightarrow> m\<lparr>iterFirst := n\<rparr>)
      in case n of
           Some n' \<Rightarrow> m1\<lparr>entries := upd_entry n' (iterPrev_update (\<lambda>_. p)) (entries m1)\<rparr>
         | None \<Rightarrow> m1\<lparr>iterLast := p\<rparr>)"

definition unlink_hash :: "int \<Rightarrow> nat \<Rightarrow> nat option \<Rightarrow> orderedMap \<Rightarrow> orderedMap" where
  "unlink_hash h e hPrev m =
     (let n = hNext (entries m ! e) in
      case hPrev of
        None \<Rightarrow> m\<lparr>hashTable := (hashTable m)(h := n)\<rparr>
      | Some p \<Rightarrow> m\<lparr>entries := upd_entry p (hNext_update (\<lambda>_. n)) (entries m)\<rparr>)"

definition om_remove :: "orderedMap \<Rightarrow> val \<Rightarrow> (bool \<times> orderedMap) option" where
  "om_remove m key =
     (case lookup m key of
        None \<Rightarrow> None
      | Some (_, None, _) \<Rightarrow> Some (False, m)
      | Some (h, Some e, hPrev) \<Rightarrow>
          let m1 = m\<lparr>entries := upd_entry e (\<lambda>x. x\<lparr>me_key := None, me_value := None\<rparr>) (entries m)\<rparr>;
              m2 = unlink_hash h e hPrev (unlink_iter e m1)
          in Some (True, m2\<lparr>om_size := om_size m2 - 1\<rparr>))"

definition om_has :: "orderedMap \<Rightarrow> val \<Rightarrow> bool option" where
  "om_has m key = map_option (\<lambda>(_, entry, _). entry \<noteq> None) (lookup m key)"

partial_function (option) track_back :: "mapEntry list \<Rightarrow> nat option \<Rightarrow> nat option option" where
  "track_back es c =
     (case c of
        None \<Rightarrow> Some None
      | Some i \<Rightarrow>
          if me_key (es ! i) = None then track_back es (iterPrev (es ! i)) else Some (Some i))"

definition iter_close :: "orderedMapIter \<Rightarrow> orderedMapIter" where
  "iter_close it = it\<lparr>open_iter := False, cur := None\<rparr>"

definition iter_next :: "orderedMap \<Rightarrow> orderedMapIter \<Rightarrow> (nat option \<times> orderedMapIter) option" where
  "iter_next m it =
     (if \<not> open_iter it then Some (None, it)
      else case track_back (entries m) (cur it) of
        None \<Rightarrow> None
      | Some c \<Rightarrow>
          let c' = (case c of Some i \<Rightarrow> iterNext (entries m ! i) | None \<Rightarrow> iterFirst m) in
          Some (c', if c' = None then iter_close it else it\<lparr>cur := c'\<rparr>))"

definition newOrderedMap :: "hasher \<Rightarrow> orderedMap" where
  "newOrderedMap h =
     \<lparr>entries = [], om_hash = h, hashTable = (\<lambda>_. None), iterFirst = None, iterLast = None, om_size = 0\<rparr>"

definition newIter :: orderedMapIter where
  "newIter = \<lparr>open_iter = True, cur = None\<rparr>"

partial_function (option) clear_loop :: "mapEntry list \<Rightarrow> nat option \<Rightarrow> mapEntry list option" where
  "clear_loop es item =
     (case item of
        None \<Rightarrow> Some es
      | Some i \<Rightarrow>
          let es1 = upd_entry i (\<lambda>x. x\<lparr>me_key := None, me_value := None\<rparr>) es;
              es2 = (case iterPrev (es1 ! i) of
                       Some p \<Rightarrow> upd_entry p (iterNext_update (\<lambda>_. None)) es1
                     | None \<Rightarrow> es1)
          in clear_loop es2 (iterNext (es2 ! i)))"

definition om_clear :: "orderedMap \<Rightarrow> orderedMap option" where
  "om_clear m =
     map_option (\<lambda>es. m\<lparr>entries := es, iterFirst := None, iterLast := None, hashTable := (\<lambda>_. None),
         om_size := 0\<rparr>)
       (clear_loop (entries m) (iterFirst m))"

partial_function (option) copy_loop :: "mapEntry list \<Rightarrow> nat option \<Rightarrow> orderedMap \<Rightarrow> orderedMap option" where
  "copy_loop es entry dest =
     (case entry of
        None \<Rightarrow> Some dest
      | Some e \<Rightarrow>
          (case me_key (es ! e) of
             None \<Rightarrow> None
           | Some k \<Rightarrow>
               Option.bind (om_set dest k (me_value (es ! e))) (\<lambda>dest'. copy_loop es (iterNext (es ! e)) dest')))"

definition om_copyTo :: "orderedMap \<Rightarrow> orderedMap \<Rightarrow> orderedMap option" where
  "om_copyTo m dest = copy_loop (entries m) (iterFirst m) dest"


section \<open>The invariant\<close>

definition live :: "mapEntry list \<Rightarrow> nat set" where
  "live es = {i. i < length es \<and> me_key (es ! i) \<noteq> None}"

definition key_at :: "mapEntry list \<Rightarrow> nat \<Rightarrow> val" where
  "key_at es i = the (me_key (es ! i))"

definition bucket :: "hasher \<Rightarrow> mapEntry list \<Rightarrow> int \<Rightarrow> nat set" where
  "bucket hs es h = {i \<in> live es. hash hs (key_at es i) = h}"

text \<open>A link that points to the least or the greatest address of a set, nil if the set is empty.\<close>

definition is_first :: "nat set \<Rightarrow> nat option \<Rightarrow> bool" where
  "is_first S x \<longleftrightarrow> (case x of None \<Rightarrow> S = {} | Some j \<Rightarrow> j \<in> S \<and> (\<forall>k \<in> S. j \<le> k))"

definition is_last :: "nat set \<Rightarrow> nat option \<Rightarrow> bool" where
  "is_last S x \<longleftrightarrow> (case x of None \<Rightarrow> S = {} | Some j \<Rightarrow> j \<in> S \<and> (\<forall>k \<in> S. k \<le> j))"

definition above :: "nat \<Rightarrow> nat set \<Rightarrow> nat set" where "above i S = {j \<in> S. i < j}"
definition below :: "nat \<Rightarrow> nat set \<Rightarrow> nat set" where "below i S = {j \<in> S. j < i}"

text \<open>The back link of a live or removed entry skips no live entry.\<close>

definition is_back :: "nat set \<Rightarrow> nat \<Rightarrow> nat option \<Rightarrow> bool" where
  "is_back S i x \<longleftrightarrow>
     (case x of None \<Rightarrow> below i S = {} | Some p \<Rightarrow> p < i \<and> (\<forall>j \<in> below i S. j \<le> p))"

definition key_ok :: "val \<Rightarrow> bool" where
  "key_ok k \<longleftrightarrow> canonical k \<and> norm_key k = k"

definition links_ok :: "mapEntry list \<Rightarrow> bool" where
  "links_ok es \<longleftrightarrow> (\<forall>i < length es. is_back (live es) i (iterPrev (es ! i))) \<and>
     (\<forall>i \<in> live es. is_first (above i (live es)) (iterNext (es ! i)) \<and>
        is_last (below i (live es)) (iterPrev (es ! i)))"

definition keys_ok :: "mapEntry list \<Rightarrow> bool" where
  "keys_ok es \<longleftrightarrow> (\<forall>i \<in> live es. key_ok (key_at es i)) \<and> inj_on (key_at es) (live es)"

definition chains_ok :: "hasher \<Rightarrow> mapEntry list \<Rightarrow> (int \<Rightarrow> nat option) \<Rightarrow> bool" where
  "chains_ok hs es ht \<longleftrightarrow> (\<forall>h. is_first (bucket hs es h) (ht h)) \<and>
     (\<forall>h. \<forall>i \<in> bucket hs es h. is_first (above i (bucket hs es h)) (hNext (es ! i)))"

definition om_inv :: "orderedMap \<Rightarrow> bool" where
  "om_inv m \<longleftrightarrow>
     links_ok (entries m) \<and> keys_ok (entries m) \<and> chains_ok (om_hash m) (entries m) (hashTable m) \<and>
     is_first (live (entries m)) (iterFirst m) \<and> is_last (live (entries m)) (iterLast m) \<and>
     om_size m = int (card (live (entries m)))"

text \<open>The contents: keys and values of the live entries, in order of insertion.\<close>

definition kvs :: "mapEntry list \<Rightarrow> (val option \<times> val option) list" where
  "kvs es = map (\<lambda>x. (me_key x, me_value x)) es"

definition present :: "('k option \<times> 'v) list \<Rightarrow> ('k \<times> 'v) list" where
  "present xs = map (\<lambda>(k, v). (the k, v)) (filter (\<lambda>(k, v). k \<noteq> None) xs)"

definition ents :: "orderedMap \<Rightarrow> (val \<times> val option) list" where
  "ents m = present (kvs (entries m))"

section \<open>Links as least and greatest elements\<close>

lemma is_first_None [simp]: "is_first S None \<longleftrightarrow> S = {}"
  by (simp add: is_first_def)

lemma is_first_Some [simp]: "is_first S (Some j) \<longleftrightarrow> j \<in> S \<and> (\<forall>k \<in> S. j \<le> k)"
  by (simp add: is_first_def)

lemma is_last_None [simp]: "is_last S None \<longleftrightarrow> S = {}"
  by (simp add: is_last_def)

lemma is_last_Some [simp]: "is_last S (Some j) \<longleftrightarrow> j \<in> S \<and> (\<forall>k \<in> S. k \<le> j)"
  by (simp add: is_last_def)

lemma in_above [simp]: "j \<in> above i S \<longleftrightarrow> j \<in> S \<and> i < j"
  by (simp add: above_def)

lemma in_below [simp]: "j \<in> below i S \<longleftrightarrow> j \<in> S \<and> j < i"
  by (simp add: below_def)

lemma is_back_None [simp]: "is_back S i None \<longleftrightarrow> below i S = {}"
  by (simp add: is_back_def)

lemma is_back_Some [simp]: "is_back S i (Some p) \<longleftrightarrow> p < i \<and> (\<forall>j \<in> S. j < i \<longrightarrow> j \<le> p)"
  by (auto simp: is_back_def)

lemma is_first_unique: "is_first S x \<Longrightarrow> is_first S y \<Longrightarrow> x = y"
  by (cases x; cases y) (auto intro: order_antisym)

lemma is_last_unique: "is_last S x \<Longrightarrow> is_last S y \<Longrightarrow> x = y"
  by (cases x; cases y) (auto intro: order_antisym)

text \<open>Adding an element greater than all others, and removing one.\<close>

lemma is_first_add:
  "is_first S x \<Longrightarrow> \<forall>k \<in> S. k < n \<Longrightarrow> is_first (insert n S) (case x of None \<Rightarrow> Some n | Some j \<Rightarrow> Some j)"
  by (cases x) (auto simp: less_imp_le)

lemma above_add: "\<forall>k \<in> S. k < n \<Longrightarrow> i < n \<Longrightarrow> above i (insert n S) = insert n (above i S)"
  by auto

lemma above_top: "\<forall>k \<in> S. k < n \<Longrightarrow> above n (insert n S) = {}"
  by (fastforce simp: above_def)

lemma below_add: "i \<le> n \<Longrightarrow> below i (insert n S) = below i S"
  by auto

lemma is_first_remove:
  "is_first S x \<Longrightarrow> is_first (above e S) n \<Longrightarrow> e \<in> S \<Longrightarrow>
   is_first (S - {e}) (if x = Some e then n else x)"
  by (cases x; cases n) (auto simp: above_def le_less)

lemma is_last_remove:
  "is_last S x \<Longrightarrow> is_last (below e S) p \<Longrightarrow> e \<in> S \<Longrightarrow>
   is_last (S - {e}) (if x = Some e then p else x)"
  by (cases x; cases p) (auto simp: below_def le_less)

lemma above_remove: "above i (S - {e}) = above i S - {e}"
  by auto

lemma below_remove: "below i (S - {e}) = below i S - {e}"
  by auto

lemma above_above: "i < e \<Longrightarrow> above e (above i S) = above e S"
  by auto

lemma below_below: "e < i \<Longrightarrow> below e (below i S) = below e S"
  by auto

lemma is_first_above_remove:
  assumes "is_first (above i S) x" "is_first (above e S) n" "e \<in> S"
  shows "is_first (above i (S - {e})) (if x = Some e then n else x)"
proof (cases "i < e")
  case True
  then show ?thesis
    using assms is_first_remove[of "above i S" x e n] by (simp add: above_remove above_above)
next
  case False
  then have "above i (S - {e}) = above i S" "x \<noteq> Some e" using assms(1) by auto
  then show ?thesis using assms(1) by simp
qed

lemma is_last_below_remove:
  assumes "is_last (below i S) x" "is_last (below e S) p" "e \<in> S"
  shows "is_last (below i (S - {e})) (if x = Some e then p else x)"
proof (cases "e < i")
  case True
  then show ?thesis
    using assms is_last_remove[of "below i S" x e p] by (simp add: below_remove below_below)
next
  case False
  then have "below i (S - {e}) = below i S" "x \<noteq> Some e" using assms(1) by auto
  then show ?thesis using assms(1) by simp
qed

lemma is_back_remove: "is_back S i x \<Longrightarrow> is_back (S - {e}) i x"
  by (cases x) auto

lemma is_last_is_back: "is_last (below i S) x \<Longrightarrow> is_back S i x"
  by (cases x) auto

section \<open>Contents\<close>

lemma present_simps [simp]:
  "present [] = []" "present ((Some k, v) # xs) = (k, v) # present xs"
  "present ((None, v) # xs) = present xs" "present (xs @ ys) = present xs @ present ys"
  by (simp_all add: present_def)

lemma present_keys: "k \<in> fst ` set (present xs) \<longleftrightarrow> (\<exists>v. (Some k, v) \<in> set xs)"
proof (induction xs)
  case (Cons x xs)
  then show ?case by (cases x; cases "fst x") auto
qed simp

text \<open>Keys are distinct when no two positions hold the same key.\<close>

definition keys_distinct :: "('k option \<times> 'v) list \<Rightarrow> bool" where
  "keys_distinct xs \<longleftrightarrow> (\<forall>i j k. i < length xs \<and> j < length xs \<and> fst (xs ! i) = Some k \<and>
     fst (xs ! j) = Some k \<longrightarrow> i = j)"

lemma keys_distinctD:
  "keys_distinct xs \<Longrightarrow> i < length xs \<Longrightarrow> j < length xs \<Longrightarrow> fst (xs ! i) = Some k \<Longrightarrow>
   fst (xs ! j) = Some k \<Longrightarrow> i = j"
  by (auto simp: keys_distinct_def)

lemma keys_distinct_split:
  assumes "keys_distinct xs" "e < length xs" "fst (xs ! e) = Some k"
  shows "k \<notin> fst ` set (present (take e xs))" "k \<notin> fst ` set (present (drop (Suc e) xs))"
proof -
  show "k \<notin> fst ` set (present (take e xs))"
  proof
    assume "k \<in> fst ` set (present (take e xs))"
    then obtain v where "(Some k, v) \<in> set (take e xs)" by (auto simp: present_keys)
    then obtain i where "i < e" "i < length xs" "xs ! i = (Some k, v)" by (auto simp: in_set_conv_nth)
    with assms show False using keys_distinctD[OF assms(1), of i e k] by simp
  qed
  show "k \<notin> fst ` set (present (drop (Suc e) xs))"
  proof
    assume "k \<in> fst ` set (present (drop (Suc e) xs))"
    then obtain v where "(Some k, v) \<in> set (drop (Suc e) xs)" by (auto simp: present_keys)
    then obtain i where "Suc e + i < length xs" "xs ! (Suc e + i) = (Some k, v)"
      by (auto simp: in_set_conv_nth less_diff_conv add.commute)
    with assms show False using keys_distinctD[OF assms(1), of "Suc e + i" e k] by simp
  qed
qed

lemma update_at: "k \<notin> fst ` set xs \<Longrightarrow> AList.update k v (xs @ (k, w) # ys) = xs @ (k, v) # ys"
  by (induction xs) auto

lemma update_new: "k \<notin> fst ` set xs \<Longrightarrow> AList.update k v xs = xs @ [(k, v)]"
  by (induction xs) auto

lemma delete_at:
  "k \<notin> fst ` set xs \<Longrightarrow> k \<notin> fst ` set ys \<Longrightarrow> AList.delete k (xs @ (k, w) # ys) = xs @ ys"
  by (induction xs) (auto simp: AList.delete_idem)

lemma map_of_at: "k \<notin> fst ` set xs \<Longrightarrow> map_of (xs @ (k, w) # ys) k = Some w"
  by (induction xs) auto

lemma present_at:
  assumes "keys_distinct xs" "e < length xs" "xs ! e = (Some k, w)"
  shows "present (xs[e := (Some k, v)]) = AList.update k v (present xs)"
    "present (xs[e := (None, v)]) = AList.delete k (present xs)"
    "map_of (present xs) k = Some w"
proof -
  note S = keys_distinct_split[OF assms(1,2), of k, unfolded assms(3) fst_conv, OF refl]
  have x: "present xs = present (take e xs) @ (k, w) # present (drop (Suc e) xs)"
    using arg_cong[OF nth_take_drop_split[OF assms(2)], of present] by (simp add: assms(3))
  have u: "xs[e := y] = take e xs @ y # drop (Suc e) xs" for y
    by (rule upd_conv_take_nth_drop[OF assms(2)])
  show "present (xs[e := (Some k, v)]) = AList.update k v (present xs)"
    by (simp add: u x update_at[OF S(1)])
  show "present (xs[e := (None, v)]) = AList.delete k (present xs)"
    by (simp add: u x delete_at[OF S])
  show "map_of (present xs) k = Some w" unfolding x by (rule map_of_at[OF S(1)])
qed

lemma present_absent:
  "\<forall>i < length xs. fst (xs ! i) \<noteq> Some k \<Longrightarrow> k \<notin> fst ` set (present xs)"
  by (auto simp: present_keys in_set_conv_nth)

section \<open>Keys\<close>

lemma norm_key_canonical: "canonical k \<Longrightarrow> key_ok (norm_key k)"
  using intToValue_small[of 0]
  by (cases k) (auto simp: norm_key_def key_ok_def maxInt_def)

lemma SameAs_key_ok: "key_ok a \<Longrightarrow> key_ok b \<Longrightarrow> SameAs a b \<longleftrightarrow> a = b"
  by (simp add: key_ok_def SameAs_canonical)

lemma finite_live [simp]: "finite (live es)"
  by (simp add: live_def)

lemma live_less: "i \<in> live es \<Longrightarrow> i < length es"
  by (simp add: live_def)

lemma key_at_live: "i \<in> live es \<Longrightarrow> me_key (es ! i) = Some (key_at es i)"
  by (auto simp: live_def key_at_def)

lemma in_bucket: "i \<in> bucket hs es h \<longleftrightarrow> i \<in> live es \<and> hash hs (key_at es i) = h"
  by (simp add: bucket_def)

lemma keys_distinct_kvs: "keys_ok es \<Longrightarrow> keys_distinct (kvs es)"
  unfolding keys_distinct_def keys_ok_def inj_on_def
  by (auto simp: kvs_def live_def key_at_def)

section \<open>Lookup\<close>

lemma lookup_chain_spec:
  assumes inv: "keys_ok es" "chains_ok hs es ht"
    and key: "key_ok key" "hash hs key = h"
    and B: "is_first {j \<in> bucket hs es h. b \<le> j} x" "is_last (below b (bucket hs es h)) p"
    and none: "\<forall>j \<in> below b (bucket hs es h). key_at es j \<noteq> key"
  shows "\<exists>e q. lookup_chain es key x p = Some (e, q) \<and>
    (case e of
       None \<Rightarrow> (\<forall>j \<in> live es. key_at es j \<noteq> key) \<and> is_last (bucket hs es h) q
     | Some i \<Rightarrow> i \<in> bucket hs es h \<and> key_at es i = key \<and> is_last (below i (bucket hs es h)) q)"
  using B none
proof (induction "length es - b" arbitrary: b x p rule: less_induct)
  case less
  let ?B = "bucket hs es h"
  show ?case
  proof (cases x)
    case None
    then have all: "below b ?B = ?B" using less.prems(1) by (auto simp: not_le[symmetric])
    have "key_at es j \<noteq> key" if "j \<in> live es" for j
      using that less.prems(3) key(2) unfolding all by (auto simp: in_bucket)
    then show ?thesis using None less.prems(2) all by (subst lookup_chain.simps) simp
  next
    case (Some i)
    then have i: "i \<in> ?B" "b \<le> i" "\<forall>k \<in> ?B. b \<le> k \<longrightarrow> i \<le> k" using less.prems(1) by auto
    then have il: "i \<in> live es" by (simp add: in_bucket)
    have bel: "below i ?B = below b ?B" using i by force
    show ?thesis
    proof (cases "key_at es i = key")
      case True
      then show ?thesis
        using Some i il bel less.prems(2) SameAs_key_ok[of key key] key(1)
        by (subst lookup_chain.simps) (simp add: key_at_live)
    next
      case False
      have step: "lookup_chain es key x p = lookup_chain es key (hNext (es ! i)) (Some i)"
        using Some il False SameAs_key_ok[of "key_at es i" key] key(1) inv(1)
        by (subst lookup_chain.simps) (simp add: key_at_live keys_ok_def)
      have dec: "length es - Suc i < length es - b" using i live_less[OF il] by linarith
      have fst: "is_first {j \<in> ?B. Suc i \<le> j} (hNext (es ! i))"
      proof -
        have "{j \<in> ?B. Suc i \<le> j} = above i ?B" by auto
        then show ?thesis using inv(2) i(1) unfolding chains_ok_def by simp
      qed
      have lst: "is_last (below (Suc i) ?B) (Some i)" using i by auto
      have "below (Suc i) ?B = insert i (below b ?B)" using i by (auto simp: bel[symmetric])
      then have "\<forall>j \<in> below (Suc i) ?B. key_at es j \<noteq> key" using False less.prems(3) by auto
      from less.hyps[OF dec fst lst this] show ?thesis unfolding step .
    qed
  qed
qed

lemma lookup_spec:
  assumes "om_inv m" "canonical key"
  obtains (found) e q where "lookup m key = Some (hash (om_hash m) (norm_key key), Some e, q)"
      "e \<in> live (entries m)" "key_at (entries m) e = norm_key key"
      "is_last (below e (bucket (om_hash m) (entries m) (hash (om_hash m) (norm_key key)))) q"
  | (absent) q where "lookup m key = Some (hash (om_hash m) (norm_key key), None, q)"
      "\<forall>j \<in> live (entries m). key_at (entries m) j \<noteq> norm_key key"
      "is_last (bucket (om_hash m) (entries m) (hash (om_hash m) (norm_key key))) q"
proof -
  let ?h = "hash (om_hash m) (norm_key key)"
  have inv: "keys_ok (entries m)" "chains_ok (om_hash m) (entries m) (hashTable m)"
    using assms(1) by (simp_all add: om_inv_def)
  have f: "is_first {j \<in> bucket (om_hash m) (entries m) ?h. 0 \<le> j} (hashTable m ?h)"
    using inv(2) by (simp add: chains_ok_def)
  have l: "is_last (below 0 (bucket (om_hash m) (entries m) ?h)) None" by auto
  have n: "\<forall>j \<in> below 0 (bucket (om_hash m) (entries m) ?h). key_at (entries m) j \<noteq> norm_key key" by auto
  from lookup_chain_spec[OF inv norm_key_canonical[OF assms(2)] refl f l n]
  obtain e q where "lookup_chain (entries m) (norm_key key) (hashTable m ?h) None = Some (e, q)"
    "case e of
       None \<Rightarrow> (\<forall>j \<in> live (entries m). key_at (entries m) j \<noteq> norm_key key) \<and>
         is_last (bucket (om_hash m) (entries m) ?h) q
     | Some i \<Rightarrow> i \<in> bucket (om_hash m) (entries m) ?h \<and> key_at (entries m) i = norm_key key \<and>
         is_last (below i (bucket (om_hash m) (entries m) ?h)) q"
    by blast
  then show thesis
    using found absent by (cases e) (auto simp: lookup_def Let_def in_bucket)
qed


section \<open>Insertion\<close>

lemma length_upd_entry [simp]: "length (upd_entry i f es) = length es"
  by (simp add: upd_entry_def)

lemma nth_upd_entry [simp]:
  "upd_entry i f es ! j = (if i = j \<and> j < length es then f (es ! j) else es ! j)"
  by (cases "i < length es") (auto simp: upd_entry_def list_update_beyond nth_list_update)

lemma om_insert_fields:
  fixes m key vl h hPrev
  defines "es \<equiv> entries m" and "es' \<equiv> entries (om_insert m key vl h hPrev)" and "n \<equiv> length (entries m)"
  assumes "\<forall>p. hPrev = Some p \<longrightarrow> p < n" "\<forall>l. iterLast m = Some l \<longrightarrow> l < n"
  shows "length es' = Suc n"
    "\<forall>j < n. me_key (es' ! j) = me_key (es ! j)" "\<forall>j < n. me_value (es' ! j) = me_value (es ! j)"
    "\<forall>j < n. iterPrev (es' ! j) = iterPrev (es ! j)"
    "\<forall>j < n. iterNext (es' ! j) = (if iterLast m = Some j then Some n else iterNext (es ! j))"
    "\<forall>j < n. hNext (es' ! j) = (if hPrev = Some j then Some n else hNext (es ! j))"
    "me_key (es' ! n) = Some (norm_key key)" "me_value (es' ! n) = vl"
    "iterPrev (es' ! n) = iterLast m" "iterNext (es' ! n) = None" "hNext (es' ! n) = None"
  using assms(4,5) unfolding es_def es'_def n_def om_insert_def Let_def
  by (cases hPrev; cases "iterLast m"; auto simp: nth_append)+

lemma om_insert_other:
  "om_hash (om_insert m key value h hPrev) = om_hash m"
  "hashTable (om_insert m key value h hPrev) =
     (case hPrev of None \<Rightarrow> (hashTable m)(h := Some (length (entries m))) | Some _ \<Rightarrow> hashTable m)"
  "iterFirst (om_insert m key value h hPrev) =
     (case iterLast m of Some _ \<Rightarrow> iterFirst m | None \<Rightarrow> Some (length (entries m)))"
  "iterLast (om_insert m key value h hPrev) = Some (length (entries m))"
  "om_size (om_insert m key value h hPrev) = om_size m + 1"
  by (simp_all add: om_insert_def Let_def)

text \<open>The sets of live entries after an allocation that keeps all other keys.\<close>

lemma live_alloc:
  assumes "length es' = Suc (length es)" "\<forall>j < length es. me_key (es' ! j) = me_key (es ! j)"
    "me_key (es' ! length es) = Some k"
  shows "live es' = insert (length es) (live es)" "j < length es \<Longrightarrow> key_at es' j = key_at es j"
    "key_at es' (length es) = k"
    "bucket hs es' h = (if hash hs k = h then insert (length es) (bucket hs es h) else bucket hs es h)"
proof -
  show L: "live es' = insert (length es) (live es)"
    unfolding live_def using assms by (auto simp: less_Suc_eq)
  show K: "j < length es \<Longrightarrow> key_at es' j = key_at es j" for j by (simp add: key_at_def assms(2))
  show N: "key_at es' (length es) = k" by (simp add: key_at_def assms(3))
  show "bucket hs es' h = (if hash hs k = h then insert (length es) (bucket hs es h) else bucket hs es h)"
    using K N live_less[of _ es] unfolding bucket_def L by auto
qed

lemma below_all: "\<forall>k \<in> S. k < n \<Longrightarrow> below n S = S"
  by auto

lemma last_iff_no_successor:
  assumes "is_last S l" "is_first (above i S) x" "i \<in> S"
  shows "x = None \<longleftrightarrow> l = Some i"
proof
  assume "x = None"
  then have "\<forall>k \<in> S. k \<le> i" using assms(2) by (force simp: not_less)
  then show "l = Some i" using assms(1,3) by (cases l) (auto intro: order_antisym)
next
  assume "l = Some i"
  then show "x = None" using assms by (cases x) auto
qed

lemma links_ok_insert:
  assumes "links_ok es" "is_last (live es) l"
    and len: "length es' = Suc (length es)"
    and key: "\<forall>j < length es. me_key (es' ! j) = me_key (es ! j)" "me_key (es' ! length es) = Some k"
    and prev: "\<forall>j < length es. iterPrev (es' ! j) = iterPrev (es ! j)" "iterPrev (es' ! length es) = l"
    and nxt: "\<forall>j < length es.
        iterNext (es' ! j) = (if l = Some j then Some (length es) else iterNext (es ! j))"
      "iterNext (es' ! length es) = None"
  shows "links_ok es'"
proof -
  let ?n = "length es" and ?S = "live es"
  have S: "live es' = insert ?n ?S" using live_alloc(1)[OF len key] .
  have lt: "\<forall>k \<in> ?S. k < ?n" by (simp add: live_less)
  have bn: "below ?n (insert ?n ?S) = ?S" using lt by (auto simp: below_def)
  have A: "is_back (insert ?n ?S) i (iterPrev (es' ! i))" if "i < Suc ?n" for i
  proof (cases "i = ?n")
    case True
    then show ?thesis using assms(2) prev(2) bn by (auto intro!: is_last_is_back)
  next
    case False
    with that have i: "i < ?n" by simp
    then have "is_back ?S i (iterPrev (es' ! i))" using assms(1) prev(1) by (simp add: links_ok_def)
    then show ?thesis unfolding is_back_def below_add[OF less_imp_le[OF i]] .
  qed
  have B: "is_first (above i (insert ?n ?S)) (iterNext (es' ! i)) \<and>
      is_last (below i (insert ?n ?S)) (iterPrev (es' ! i))" if "i \<in> insert ?n ?S" for i
  proof (cases "i = ?n")
    case True
    then show ?thesis using assms(2) prev(2) nxt(2) above_top[OF lt] bn by simp
  next
    case False
    with that have i: "i \<in> ?S" "i < ?n" using lt by auto
    have o: "is_first (above i ?S) (iterNext (es ! i))" "is_last (below i ?S) (iterPrev (es ! i))"
      using assms(1) i by (auto simp: links_ok_def)
    have "iterNext (es ! i) = None \<longleftrightarrow> l = Some i"
      by (rule last_iff_no_successor[OF assms(2) o(1) i(1)])
    then have "iterNext (es' ! i) = (case iterNext (es ! i) of None \<Rightarrow> Some ?n | Some j \<Rightarrow> Some j)"
      using nxt(1)[rule_format, OF i(2)] by (auto split: option.splits)
    moreover have "\<forall>k \<in> above i ?S. k < ?n" using lt by simp
    ultimately have "is_first (above i (insert ?n ?S)) (iterNext (es' ! i))"
      using is_first_add[OF o(1)] by (simp add: above_add[OF lt i(2)])
    then show ?thesis using o(2) prev(1)[rule_format, OF i(2)] below_add[of i ?n ?S] i(2) by simp
  qed
  show ?thesis unfolding links_ok_def S len using A B by blast
qed

lemma chains_ok_insert:
  assumes "chains_ok hs es ht" "is_last (bucket hs es h) p" "hash hs k = h"
    and len: "length es' = Suc (length es)"
    and key: "\<forall>j < length es. me_key (es' ! j) = me_key (es ! j)" "me_key (es' ! length es) = Some k"
    and nxt: "\<forall>j < length es.
        hNext (es' ! j) = (if p = Some j then Some (length es) else hNext (es ! j))"
      "hNext (es' ! length es) = None"
  shows "chains_ok hs es' (case p of None \<Rightarrow> ht(h := Some (length es)) | Some _ \<Rightarrow> ht)"
proof -
  let ?n = "length es" and ?B = "bucket hs es"
  have S: "bucket hs es' h' = (if h' = h then insert ?n (?B h) else ?B h')" for h'
    using live_alloc(4)[OF len key, of hs h'] assms(3) by auto
  have lt: "\<forall>k \<in> ?B h'. k < ?n" for h' by (simp add: in_bucket live_less)
  have fb: "is_first (?B h) (ht h)" using assms(1) by (simp add: chains_ok_def)
  have p: "p = None \<longleftrightarrow> ht h = None"
    using fb assms(2) by (cases p; cases "ht h") auto
  have A: "is_first (bucket hs es' h') ((case p of None \<Rightarrow> ht(h := Some ?n) | Some _ \<Rightarrow> ht) h')" for h'
  proof (cases "h' = h")
    case True
    from is_first_add[OF fb lt] show ?thesis using True p S by (auto split: option.splits)
  next
    case False
    then show ?thesis using assms(1) S by (auto simp: chains_ok_def split: option.splits)
  qed
  have B: "is_first (above i (bucket hs es' h')) (hNext (es' ! i))" if i: "i \<in> bucket hs es' h'" for i h'
  proof (cases "i = ?n")
    case True
    then have "h' = h" using i S lt by (auto split: if_splits)
    then show ?thesis using True S nxt(2) above_top[OF lt[of h]] by simp
  next
    case False
    then have i': "i \<in> ?B h'" "i < ?n" using i S lt by (auto split: if_splits)
    have o: "is_first (above i (?B h')) (hNext (es ! i))" using assms(1) i' by (simp add: chains_ok_def)
    show ?thesis
    proof (cases "h' = h")
      case True
      have "hNext (es ! i) = None \<longleftrightarrow> p = Some i"
        using last_iff_no_successor[OF assms(2)] o i'(1) True by simp
      then have "hNext (es' ! i) = (case hNext (es ! i) of None \<Rightarrow> Some ?n | Some j \<Rightarrow> Some j)"
        using nxt(1)[rule_format, OF i'(2)] by (auto split: option.splits)
      moreover have "\<forall>k \<in> above i (?B h). k < ?n" using lt[of h] by simp
      ultimately show ?thesis
        using is_first_add[OF o] True S by (simp add: above_add[OF lt i'(2)])
    next
      case False
      then have "i \<notin> ?B h" using i' by (auto simp: in_bucket)
      then have "p \<noteq> Some i" using assms(2) by auto
      then show ?thesis using o False S nxt(1)[rule_format, OF i'(2)] by simp
    qed
  qed
  show ?thesis unfolding chains_ok_def using A B by blast
qed


lemma kvs_insert:
  assumes "\<forall>p. hPrev = Some p \<longrightarrow> p < length (entries m)"
    "\<forall>l. iterLast m = Some l \<longrightarrow> l < length (entries m)"
  shows "kvs (entries (om_insert m key v h hPrev)) = kvs (entries m) @ [(Some (norm_key key), v)]"
  using om_insert_fields[OF assms, where key = key and vl = v and h = h]
  by (intro nth_equalityI) (auto simp: kvs_def nth_append less_Suc_eq)

lemma inj_on_add: "inj_on f S \<Longrightarrow> f n \<notin> f ` S \<Longrightarrow> inj_on f (insert n S)"
  by auto

lemma is_last_less: "is_last S x \<Longrightarrow> x = Some p \<Longrightarrow> S \<subseteq> live es \<Longrightarrow> p < length es"
  by (auto simp: live_less)

lemma links_less:
  assumes "om_inv m" "is_last (bucket (om_hash m) (entries m) h) p"
  shows "\<forall>q. p = Some q \<longrightarrow> q < length (entries m)" "\<forall>l. iterLast m = Some l \<longrightarrow> l < length (entries m)"
  using is_last_less[OF assms(2), of _ "entries m"] assms(1)
    is_last_less[of "live (entries m)" "iterLast m" _ "entries m"]
  by (auto simp: bucket_def om_inv_def)

lemma om_insert_correct:
  assumes inv: "om_inv m" and k: "canonical key"
    and new: "\<forall>j \<in> live (entries m). key_at (entries m) j \<noteq> norm_key key"
    and p: "is_last (bucket (om_hash m) (entries m) h) p" and h: "h = hash (om_hash m) (norm_key key)"
  shows "om_inv (om_insert m key v h p) \<and> ents (om_insert m key v h p) = AList.update (norm_key key) v (ents m)"
proof -
  let ?m = "om_insert m key v h p" and ?es = "entries m"
  note lt = links_less[OF inv p]
  note F = om_insert_fields[OF lt, where key = key and vl = v and h = h]
  note A = live_alloc[OF F(1,2,7)]
  have n: "length ?es \<notin> live ?es" by (auto dest: live_less)
  have I: "links_ok ?es" "is_last (live ?es) (iterLast m)" "chains_ok (om_hash m) ?es (hashTable m)"
    using inv unfolding om_inv_def by blast+
  have "links_ok (entries ?m)"
    by (rule links_ok_insert[OF I(1,2) F(1,2,7,4,9,5,10)])
  moreover have "keys_ok (entries ?m)"
  proof -
    have old: "\<forall>i \<in> live ?es. key_at (entries ?m) i = key_at ?es i" using A(2) live_less by blast
    then have "\<forall>i \<in> insert (length ?es) (live ?es). key_ok (key_at (entries ?m) i)"
      using inv norm_key_canonical[OF k] by (simp add: A(3) om_inv_def keys_ok_def)
    moreover have "inj_on (key_at (entries ?m)) (live ?es)"
      using inv old inj_on_cong[of "live ?es" "key_at (entries ?m)" "key_at ?es"]
      by (simp add: om_inv_def keys_ok_def)
    then have "inj_on (key_at (entries ?m)) (insert (length ?es) (live ?es))"
    proof -
      have "norm_key key \<notin> key_at (entries ?m) ` live ?es"
      proof
        assume "norm_key key \<in> key_at (entries ?m) ` live ?es"
        then obtain j where "j \<in> live ?es" "norm_key key = key_at (entries ?m) j" by blast
        with old new show False by metis
      qed
      then show ?thesis
        using inj_on_add[OF \<open>inj_on (key_at (entries ?m)) (live ?es)\<close>, of "length ?es"] A(3) by argo
    qed
    ultimately show ?thesis unfolding keys_ok_def using A(1) by argo
  qed
  moreover have "chains_ok (om_hash ?m) (entries ?m) (hashTable ?m)"
    unfolding om_insert_other
    by (rule chains_ok_insert[OF I(3) p h[symmetric] F(1,2,7,6,11)])
  moreover have "is_first (live (entries ?m)) (iterFirst ?m)"
  proof -
    have f: "is_first (live ?es) (iterFirst m)" "is_last (live ?es) (iterLast m)"
      using inv by (simp_all add: om_inv_def)
    then have "iterFirst m = None \<longleftrightarrow> iterLast m = None" by (cases "iterFirst m"; cases "iterLast m") auto
    moreover have "\<forall>k \<in> live ?es. k < length ?es" by (simp add: live_less)
    ultimately show ?thesis
      using is_first_add[OF f(1)] unfolding A(1) om_insert_other by (auto split: option.splits)
  qed
  moreover have "is_last (live (entries ?m)) (iterLast ?m)"
    unfolding A(1) om_insert_other by (auto dest: live_less)
  moreover have "om_size ?m = int (card (live (entries ?m)))"
    using inv n unfolding A(1) om_insert_other by (simp add: om_inv_def)
  ultimately have "om_inv ?m" unfolding om_inv_def by blast
  moreover have "norm_key key \<notin> fst ` set (ents m)"
    unfolding ents_def using new
    by (intro present_absent) (auto simp: kvs_def live_def key_at_def)
  then have "ents ?m = AList.update (norm_key key) v (ents m)"
    unfolding ents_def kvs_insert[OF lt] by (simp add: update_new)
  ultimately show ?thesis by blast
qed

section \<open>Setting, reading and testing\<close>

text \<open>The invariant does not mention values.\<close>

lemma om_inv_set_value:
  assumes "om_inv m"
  shows "om_inv (m\<lparr>entries := upd_entry e (me_value_update f) (entries m)\<rparr>)"
proof -
  let ?es = "upd_entry e (me_value_update f) (entries m)"
  have nth: "me_key (?es ! i) = me_key (entries m ! i)" "iterPrev (?es ! i) = iterPrev (entries m ! i)"
    "iterNext (?es ! i) = iterNext (entries m ! i)" "hNext (?es ! i) = hNext (entries m ! i)" for i
    by simp_all
  have S: "live ?es = live (entries m)" "key_at ?es = key_at (entries m)"
    unfolding live_def key_at_def[abs_def] nth by simp_all
  then have B: "bucket hs ?es h = bucket hs (entries m) h" for hs h by (simp add: bucket_def)
  have "links_ok ?es = links_ok (entries m)" "keys_ok ?es = keys_ok (entries m)"
    "chains_ok hs ?es ht = chains_ok hs (entries m) ht" for hs ht
    unfolding links_ok_def keys_ok_def chains_ok_def S B nth by simp_all
  then show ?thesis using assms unfolding om_inv_def by (simp add: S)
qed

lemma om_set_correct:
  assumes "om_inv m" "canonical key"
  shows "\<exists>m'. om_set m key v = Some m' \<and> om_inv m' \<and> ents m' = AList.update (norm_key key) v (ents m)"
  using assms
proof (cases rule: lookup_spec)
  case (found e q)
  let ?m = "m\<lparr>entries := upd_entry e (me_value_update (\<lambda>_. v)) (entries m)\<rparr>"
  have e: "e < length (entries m)" "me_key (entries m ! e) = Some (norm_key key)"
    using found(2,3) key_at_live[OF found(2)] by (auto simp: live_less)
  have "kvs (entries ?m) = (kvs (entries m))[e := (Some (norm_key key), v)]"
    using e by (auto simp: kvs_def upd_entry_def map_update)
  moreover have "keys_distinct (kvs (entries m))"
    using assms(1) by (auto simp: om_inv_def intro: keys_distinct_kvs)
  ultimately have "ents ?m = AList.update (norm_key key) v (ents m)"
    unfolding ents_def using e by (simp add: present_at(1)[of _ e _ "me_value (entries m ! e)"] kvs_def)
  then show ?thesis using found(1) om_inv_set_value[OF assms(1)] by (simp add: om_set_def)
next
  case (absent q)
  then show ?thesis
    using om_insert_correct[OF assms absent(2,3) refl, of v] by (simp add: om_set_def)
qed

lemma ents_lookup:
  assumes "om_inv m"
  shows "e \<in> live (entries m) \<Longrightarrow> map_of (ents m) (key_at (entries m) e) = Some (me_value (entries m ! e))"
    "\<forall>j \<in> live (entries m). key_at (entries m) j \<noteq> k \<Longrightarrow> map_of (ents m) k = None"
proof -
  have d: "keys_distinct (kvs (entries m))"
    using assms by (auto simp: om_inv_def intro: keys_distinct_kvs)
  show "map_of (ents m) (key_at (entries m) e) = Some (me_value (entries m ! e))" if "e \<in> live (entries m)"
    unfolding ents_def using that
    by (intro present_at(3)[OF d, of e]) (auto simp: kvs_def live_less key_at_live)
  show "map_of (ents m) k = None" if "\<forall>j \<in> live (entries m). key_at (entries m) j \<noteq> k"
    unfolding ents_def map_of_eq_None_iff using that
    by (intro present_absent) (auto simp: kvs_def live_def key_at_def)
qed

lemma om_get_correct:
  assumes "om_inv m" "canonical key"
  shows "om_get m key = Some (Option.bind (map_of (ents m) (norm_key key)) id)"
    "om_has m key = Some (map_of (ents m) (norm_key key) \<noteq> None)"
  using assms
  by (cases rule: lookup_spec; use ents_lookup[OF assms(1)] in \<open>force simp: om_get_def om_has_def\<close>)+

lemma om_getOrInsert_correct:
  assumes "om_inv m" "canonical key"
  shows "\<exists>m'. om_getOrInsert m key v =
      Some (case map_of (ents m) (norm_key key) of Some x \<Rightarrow> x | None \<Rightarrow> v, m') \<and> om_inv m' \<and>
      ents m' = (case map_of (ents m) (norm_key key) of Some _ \<Rightarrow> ents m
                 | None \<Rightarrow> ents m @ [(norm_key key, v)])"
  using assms
proof (cases rule: lookup_spec)
  case (found e q)
  then show ?thesis using ents_lookup(1)[OF assms(1) found(2)] assms(1) by (simp add: om_getOrInsert_def)
next
  case (absent q)
  note N = ents_lookup(2)[OF assms(1) absent(2)]
  then have "norm_key key \<notin> fst ` set (ents m)" by (simp add: map_of_eq_None_iff)
  then show ?thesis
    using N absent(1) om_insert_correct[OF assms absent(2,3) refl, of v]
    by (simp add: om_getOrInsert_def update_new)
qed


section \<open>Removal\<close>

lemma unlink_iter_fields:
  fixes m e
  defines "es \<equiv> entries m" and "p \<equiv> iterPrev (entries m ! e)" and "n \<equiv> iterNext (entries m ! e)"
    and "m' \<equiv> unlink_iter e m"
  shows "length (entries m') = length es"
    "\<forall>j. me_key (entries m' ! j) = me_key (es ! j)" "\<forall>j. me_value (entries m' ! j) = me_value (es ! j)"
    "\<forall>j. hNext (entries m' ! j) = hNext (es ! j)"
    "\<forall>j < length es. iterNext (entries m' ! j) = (if p = Some j then n else iterNext (es ! j))"
    "\<forall>j < length es. iterPrev (entries m' ! j) = (if n = Some j then p else iterPrev (es ! j))"
    "iterFirst m' = (if p = None then n else iterFirst m)"
    "iterLast m' = (if n = None then p else iterLast m)"
    "hashTable m' = hashTable m" "om_hash m' = om_hash m" "om_size m' = om_size m"
  unfolding es_def p_def n_def m'_def unlink_iter_def Let_def by (simp_all split: option.splits)

lemma unlink_hash_fields:
  fixes m e h q
  defines "es \<equiv> entries m" and "m' \<equiv> unlink_hash h e q m"
  shows "length (entries m') = length es"
    "\<forall>j. me_key (entries m' ! j) = me_key (es ! j)" "\<forall>j. me_value (entries m' ! j) = me_value (es ! j)"
    "\<forall>j. iterNext (entries m' ! j) = iterNext (es ! j)" "\<forall>j. iterPrev (entries m' ! j) = iterPrev (es ! j)"
    "\<forall>j < length es. hNext (entries m' ! j) = (if q = Some j then hNext (es ! e) else hNext (es ! j))"
    "iterFirst m' = iterFirst m" "iterLast m' = iterLast m"
    "hashTable m' = (if q = None then (hashTable m)(h := hNext (es ! e)) else hashTable m)"
    "om_hash m' = om_hash m" "om_size m' = om_size m"
  unfolding es_def m'_def unlink_hash_def Let_def by (simp_all split: option.splits)

lemma om_remove_fields:
  fixes m e h q
  defines "es \<equiv> entries m" and "p \<equiv> iterPrev (entries m ! e)" and "n \<equiv> iterNext (entries m ! e)"
    and "m' \<equiv> unlink_hash h e q (unlink_iter e
      (m\<lparr>entries := upd_entry e (\<lambda>x. x\<lparr>me_key := None, me_value := None\<rparr>) (entries m)\<rparr>))"
  assumes "e < length es"
  shows "length (entries m') = length es"
    "\<forall>j < length es. me_key (entries m' ! j) = (if j = e then None else me_key (es ! j))"
    "\<forall>j < length es. me_value (entries m' ! j) = (if j = e then None else me_value (es ! j))"
    "\<forall>j < length es. iterNext (entries m' ! j) = (if p = Some j then n else iterNext (es ! j))"
    "\<forall>j < length es. iterPrev (entries m' ! j) = (if n = Some j then p else iterPrev (es ! j))"
    "\<forall>j < length es. hNext (entries m' ! j) = (if q = Some j then hNext (es ! e) else hNext (es ! j))"
    "iterFirst m' = (if p = None then n else iterFirst m)"
    "iterLast m' = (if n = None then p else iterLast m)"
    "hashTable m' = (if q = None then (hashTable m)(h := hNext (es ! e)) else hashTable m)"
    "om_hash m' = om_hash m" "om_size m' = om_size m"
  using assms(5) unfolding es_def p_def n_def m'_def
  by (simp_all add: unlink_iter_fields unlink_hash_fields)

text \<open>The sets of live entries after one of them has lost its key.\<close>

lemma live_kill:
  assumes "length es' = length es" "e < length es"
    "\<forall>j < length es. me_key (es' ! j) = (if j = e then None else me_key (es ! j))"
  shows "live es' = live es - {e}" "\<forall>j \<in> live es - {e}. key_at es' j = key_at es j"
    "bucket hs es' h = bucket hs es h - {e}"
proof -
  show L: "live es' = live es - {e}" unfolding live_def using assms by (auto split: if_splits)
  show K: "\<forall>j \<in> live es - {e}. key_at es' j = key_at es j"
    using assms(3) by (auto simp: key_at_def live_def)
  show "bucket hs es' h = bucket hs es h - {e}" unfolding bucket_def L using K by auto
qed

lemma successor_iff_predecessor:
  assumes "is_first (above i S) x" "is_last (below e S) p" "i \<in> S" "e \<in> S"
  shows "x = Some e \<longleftrightarrow> p = Some i"
proof
  assume "x = Some e"
  then have i: "i < e" "\<forall>k \<in> S. i < k \<longrightarrow> e \<le> k" using assms(1) by auto
  then have "i \<in> below e S" using assms(3) by simp
  then obtain p' where p': "p = Some p'" "p' \<in> S" "p' < e" "i \<le> p'" using assms(2) by (cases p) auto
  with i(2) show "p = Some i" by (metis le_neq_implies_less leD)
next
  assume "p = Some i"
  then have i: "i < e" "\<forall>k \<in> S. k < e \<longrightarrow> k \<le> i" using assms(2) by auto
  then have "e \<in> above i S" using assms(4) by simp
  then obtain x' where x': "x = Some x'" "x' \<in> S" "i < x'" "x' \<le> e" using assms(1) by (cases x) auto
  with i(2) show "x = Some e" by (metis le_neq_implies_less leD)
qed

lemma first_iff_no_predecessor:
  assumes "is_first S x" "is_last (below e S) p" "e \<in> S"
  shows "x = Some e \<longleftrightarrow> p = None"
proof
  assume "x = Some e"
  then show "p = None" using assms(1,2) by (cases p) auto
next
  assume "p = None"
  then have "\<forall>k \<in> S. e \<le> k" using assms(2) by (force simp: not_less)
  then show "x = Some e" using assms(1,3) by (cases x) (auto intro: order_antisym)
qed

lemma links_ok_remove:
  assumes "links_ok es" "e \<in> live es" "length es' = length es"
    and key: "\<forall>j < length es. me_key (es' ! j) = (if j = e then None else me_key (es ! j))"
    and nxt: "\<forall>j < length es. iterNext (es' ! j) = (if iterPrev (es ! e) = Some j then iterNext (es ! e) else iterNext (es ! j))"
    and prv: "\<forall>j < length es. iterPrev (es' ! j) = (if iterNext (es ! e) = Some j then iterPrev (es ! e) else iterPrev (es ! j))"
  shows "links_ok es'"
proof -
  let ?S = "live es"
  have S: "live es' = ?S - {e}" using live_kill(1)[OF assms(3) live_less[OF assms(2)] key] .
  have E: "is_first (above e ?S) (iterNext (es ! e))" "is_last (below e ?S) (iterPrev (es ! e))"
    using assms(1,2) by (auto simp: links_ok_def)
  have L: "is_first (above i (?S - {e})) (iterNext (es' ! i)) \<and>
      is_last (below i (?S - {e})) (iterPrev (es' ! i))" if i: "i \<in> ?S" for i
  proof -
    have I: "is_first (above i ?S) (iterNext (es ! i))" "is_last (below i ?S) (iterPrev (es ! i))"
      using assms(1) i by (auto simp: links_ok_def)
    show ?thesis
      using is_first_above_remove[OF I(1) E(1) assms(2)] is_last_below_remove[OF I(2) E(2) assms(2)]
        successor_iff_predecessor[OF I(1) E(2) i assms(2)] successor_iff_predecessor[OF E(1) I(2) assms(2) i]
        nxt prv live_less[OF i] by simp
  qed
  have B: "is_back (?S - {e}) i (iterPrev (es' ! i))" if "i < length es" for i
  proof (cases "iterNext (es ! e) = Some i")
    case True
    then have "i \<in> ?S" using E(1) by simp
    then show ?thesis using L is_last_is_back by blast
  next
    case False
    then show ?thesis using assms(1) that prv is_back_remove by (simp add: links_ok_def)
  qed
  show ?thesis unfolding links_ok_def S assms(3) using L B by blast
qed

lemma chains_ok_remove:
  assumes "chains_ok hs es ht" "e \<in> live es" "hash hs (key_at es e) = h" "length es' = length es"
    and q: "is_last (below e (bucket hs es h)) q"
    and key: "\<forall>j < length es. me_key (es' ! j) = (if j = e then None else me_key (es ! j))"
    and nxt: "\<forall>j < length es. hNext (es' ! j) = (if q = Some j then hNext (es ! e) else hNext (es ! j))"
  shows "chains_ok hs es' (if q = None then ht(h := hNext (es ! e)) else ht)"
proof -
  let ?B = "bucket hs es"
  have S: "bucket hs es' h' = ?B h' - {e}" for h'
    using live_kill(3)[OF assms(4) live_less[OF assms(2)] key] .
  have e: "e \<in> ?B h" "h' \<noteq> h \<Longrightarrow> e \<notin> ?B h'" for h' using assms(2,3) by (auto simp: in_bucket)
  have E: "is_first (above e (?B h)) (hNext (es ! e))" using assms(1) e(1) by (simp add: chains_ok_def)
  have A: "is_first (bucket hs es' h') ((if q = None then ht(h := hNext (es ! e)) else ht) h')" for h'
  proof (cases "h' = h")
    case True
    have f: "is_first (?B h) (ht h)" using assms(1) by (simp add: chains_ok_def)
    show ?thesis
      using is_first_remove[OF f E e(1)] first_iff_no_predecessor[OF f q e(1)] S True by (auto split: if_splits)
  next
    case False
    then show ?thesis using assms(1) S e(2) by (simp add: chains_ok_def)
  qed
  have B: "is_first (above i (bucket hs es' h')) (hNext (es' ! i))" if i: "i \<in> bucket hs es' h'" for i h'
  proof -
    have i': "i \<in> ?B h'" "i < length es" using i S by (auto simp: in_bucket live_less)
    have I: "is_first (above i (?B h')) (hNext (es ! i))" using assms(1) i' by (simp add: chains_ok_def)
    show ?thesis
    proof (cases "h' = h")
      case True
      then show ?thesis
        using is_first_above_remove[OF I[unfolded True] E e(1)] nxt i'
          successor_iff_predecessor[OF I[unfolded True] q _ e(1)] S by simp
    next
      case False
      then have "i \<notin> ?B h" using i' by (auto simp: in_bucket)
      then have "q \<noteq> Some i" using q by auto
      then show ?thesis using I nxt i'(2) S e(2)[OF False] by simp
    qed
  qed
  show ?thesis unfolding chains_ok_def using A B by blast
qed

lemma om_remove_correct:
  assumes inv: "om_inv m" and k: "canonical key"
  shows "\<exists>m'. om_remove m key = Some (map_of (ents m) (norm_key key) \<noteq> None, m') \<and> om_inv m' \<and>
    ents m' = AList.delete (norm_key key) (ents m)"
  using assms
proof (cases rule: lookup_spec)
  case (absent q)
  then have "map_of (ents m) (norm_key key) = None" using ents_lookup(2)[OF inv] by blast
  then show ?thesis
    using absent(1) inv by (simp add: om_remove_def AList.delete_idem map_of_eq_None_iff)
next
  case (found e q)
  let ?es = "entries m" and ?h = "hash (om_hash m) (norm_key key)"
  let ?m = "unlink_hash ?h e q (unlink_iter e
      (m\<lparr>entries := upd_entry e (\<lambda>x. x\<lparr>me_key := None, me_value := None\<rparr>) (entries m)\<rparr>))"
  have I: "links_ok ?es" "keys_ok ?es" "chains_ok (om_hash m) ?es (hashTable m)"
    "is_first (live ?es) (iterFirst m)" "is_last (live ?es) (iterLast m)" "om_size m = int (card (live ?es))"
    using inv unfolding om_inv_def by blast+
  have e: "e < length ?es" using found(2) by (rule live_less)
  have E: "is_first (above e (live ?es)) (iterNext (?es ! e))" "is_last (below e (live ?es)) (iterPrev (?es ! e))"
    using I(1) found(2) by (auto simp: links_ok_def)
  note F = om_remove_fields[OF e, of ?h q]
  note K = live_kill[OF F(1) e F(2)]
  have "links_ok (entries ?m)" by (rule links_ok_remove[OF I(1) found(2) F(1,2,4,5)])
  moreover have "keys_ok (entries ?m)"
    using I(2) K(2) unfolding keys_ok_def K(1) by (auto simp: inj_on_def)
  moreover have "chains_ok (om_hash ?m) (entries ?m) (hashTable ?m)"
    unfolding F(9,10)
    by (rule chains_ok_remove[OF I(3) found(2) arg_cong[OF found(3)] F(1) found(4) F(2) F(6)])
  moreover have "is_first (live (entries ?m)) (iterFirst ?m)"
    using is_first_remove[OF I(4) E(1) found(2)] first_iff_no_predecessor[OF I(4) E(2) found(2)]
    unfolding K(1) F(7) by (auto split: if_splits)
  moreover have "is_last (live (entries ?m)) (iterLast ?m)"
    using is_last_remove[OF I(5) E(2) found(2)] last_iff_no_successor[OF I(5) E(1) found(2)]
    unfolding K(1) F(8) by (auto split: if_splits)
  moreover have "om_size ?m - 1 = int (card (live (entries ?m)))"
  proof -
    have "0 < card (live ?es)" using found(2) card_gt_0_iff finite_live by blast
    then show ?thesis using I(6) found(2) unfolding K(1) F(11) by simp
  qed
  ultimately have "om_inv (?m\<lparr>om_size := om_size ?m - 1\<rparr>)" by (simp add: om_inv_def)
  moreover have "ents (?m\<lparr>om_size := om_size ?m - 1\<rparr>) = AList.delete (norm_key key) (ents m)"
  proof -
    have "kvs (entries ?m) = (kvs ?es)[e := (None, None)]"
      using F(1-3) e by (intro nth_equalityI) (auto simp: kvs_def nth_list_update)
    moreover have "kvs ?es ! e = (Some (norm_key key), me_value (?es ! e))"
      using e key_at_live[OF found(2)] found(3) by (simp add: kvs_def)
    ultimately show ?thesis
      using present_at(2)[OF keys_distinct_kvs[OF I(2)], of e] e by (simp add: ents_def kvs_def)
  qed
  moreover have "map_of (ents m) (norm_key key) \<noteq> None"
    using ents_lookup(1)[OF inv found(2)] found(3) by simp
  ultimately show ?thesis using found(1) by (simp add: om_remove_def Let_def)
qed


section \<open>Clearing\<close>

lemma clear_loop_spec:
  assumes "links_ok es0"
    and "is_first {j \<in> live es0. b \<le> j} x" "length es = length es0"
    and "\<forall>j. iterPrev (es ! j) = iterPrev (es0 ! j)"
    and "\<forall>j < length es0. me_key (es ! j) = (if j < b then None else me_key (es0 ! j))"
    and "\<forall>j \<in> live es0. b \<le> j \<longrightarrow> iterNext (es ! j) = iterNext (es0 ! j)"
  shows "\<exists>es'. clear_loop es x = Some es' \<and> length es' = length es0 \<and>
    (\<forall>j. iterPrev (es' ! j) = iterPrev (es0 ! j)) \<and> (\<forall>j < length es0. me_key (es' ! j) = None)"
  using assms(2-)
proof (induction "length es0 - b" arbitrary: b x es rule: less_induct)
  case less
  show ?case
  proof (cases x)
    case None
    then have "{j \<in> live es0. b \<le> j} = {}" using less.prems(1) by simp
    then have "\<forall>j < length es0. me_key (es ! j) = None"
      using less.prems(4) by (auto simp: live_def)
    then show ?thesis using None less.prems(2,3) by (subst clear_loop.simps) simp
  next
    case (Some i)
    then have i: "i \<in> live es0" "b \<le> i" "\<forall>k \<in> live es0. b \<le> k \<longrightarrow> i \<le> k" using less.prems(1) by auto
    have il: "i < length es0" using i(1) by (rule live_less)
    define es1 where "es1 = upd_entry i (\<lambda>x. x\<lparr>me_key := None, me_value := None\<rparr>) es"
    define es2 where "es2 = (case iterPrev (es1 ! i) of
        Some p \<Rightarrow> upd_entry p (iterNext_update (\<lambda>_. None)) es1 | None \<Rightarrow> es1)"
    have step: "clear_loop es x = clear_loop es2 (iterNext (es2 ! i))"
      unfolding Some es2_def es1_def by (subst clear_loop.simps) (simp only: option.case Let_def)
    have prev: "iterPrev (es1 ! j) = iterPrev (es0 ! j)" for j using less.prems(3) by (simp add: es1_def)
    have lt: "iterPrev (es0 ! i) = Some p \<Longrightarrow> p < i" for p
      using assms(1) i(1) unfolding links_ok_def by auto
    have es1: "length es1 = length es0" "\<forall>j. me_key (es1 ! j) = (if j = i then None else me_key (es ! j))"
      "\<forall>j. iterNext (es1 ! j) = iterNext (es ! j)"
      using less.prems(2) il by (simp_all add: es1_def)
    have F: "length es2 = length es0" "\<forall>j. iterPrev (es2 ! j) = iterPrev (es0 ! j)"
      "\<forall>j. me_key (es2 ! j) = (if j = i then None else me_key (es ! j))"
      "\<forall>j. i \<le> j \<longrightarrow> iterNext (es2 ! j) = iterNext (es ! j)"
      using es1 lt unfolding es2_def prev by (auto simp: prev split: option.splits)
    have k: "\<forall>j < length es0. me_key (es2 ! j) = (if j < Suc i then None else me_key (es0 ! j))"
    proof (intro allI impI)
      fix j assume j: "j < length es0"
      have "me_key (es0 ! j) = None" if "b \<le> j" "j < i"
        using that i(3) j by (auto simp: live_def)
      then show "me_key (es2 ! j) = (if j < Suc i then None else me_key (es0 ! j))"
        using F(3) less.prems(4) j i(2) by (auto simp: less_Suc_eq)
    qed
    have fst: "is_first {j \<in> live es0. Suc i \<le> j} (iterNext (es2 ! i))"
    proof -
      have "{j \<in> live es0. Suc i \<le> j} = above i (live es0)" by auto
      moreover have "iterNext (es2 ! i) = iterNext (es0 ! i)" using F(4) less.prems(5) i by simp
      ultimately show ?thesis using assms(1) i(1) by (simp add: links_ok_def)
    qed
    have nx: "\<forall>j \<in> live es0. Suc i \<le> j \<longrightarrow> iterNext (es2 ! j) = iterNext (es0 ! j)"
      using F(4) less.prems(5) i(2) by auto
    have "length es0 - Suc i < length es0 - b" using il i(2) by linarith
    from less.hyps[OF this fst F(1,2) k nx] show ?thesis unfolding step .
  qed
qed

lemma om_clear_correct:
  assumes "om_inv m"
  shows "\<exists>m'. om_clear m = Some m' \<and> om_inv m' \<and> ents m' = [] \<and>
    length (entries m') = length (entries m) \<and> live (entries m') = {}"
proof -
  have I: "links_ok (entries m)" "is_first {j \<in> live (entries m). 0 \<le> j} (iterFirst m)"
    using assms by (simp_all add: om_inv_def)
  from clear_loop_spec[OF this, of "entries m"]
  obtain es' where E: "clear_loop (entries m) (iterFirst m) = Some es'" "length es' = length (entries m)"
    "\<forall>j. iterPrev (es' ! j) = iterPrev (entries m ! j)" "\<forall>j < length (entries m). me_key (es' ! j) = None"
    by auto
  have L: "live es' = {}" "bucket hs es' h = {}" for hs h using E(2,4) by (auto simp: live_def bucket_def)
  have "is_back {} i (iterPrev (es' ! i))" if "i < length es'" for i
    using I(1) that E(2,3) unfolding links_ok_def by (cases "iterPrev (entries m ! i)") auto
  then have "links_ok es'" by (simp add: links_ok_def L)
  moreover have "present (kvs es') = []"
    using E(2,4) by (auto simp: present_def kvs_def filter_empty_conv in_set_conv_nth)
  ultimately show ?thesis
    using E(1,2) L by (simp add: om_clear_def om_inv_def keys_ok_def chains_ok_def ents_def)
qed

section \<open>Iteration\<close>

lemma track_back_spec:
  assumes "links_ok es" "i < length es"
  shows "\<exists>c. track_back es (Some i) = Some c \<and> is_last {j \<in> live es. j \<le> i} c"
  using assms(2)
proof (induction i rule: less_induct)
  case (less i)
  show ?case
  proof (cases "me_key (es ! i) = None")
    case False
    then show ?thesis using less.prems by (subst track_back.simps) (auto simp: live_def)
  next
    case True
    then have step: "track_back es (Some i) = track_back es (iterPrev (es ! i))"
      by (subst track_back.simps) simp
    have bk: "is_back (live es) i (iterPrev (es ! i))" using assms(1) less.prems by (simp add: links_ok_def)
    have ni: "i \<notin> live es" using True by (simp add: live_def)
    show ?thesis
    proof (cases "iterPrev (es ! i)")
      case None
      then have "{j \<in> live es. j \<le> i} = {}" using bk ni by (auto simp: le_less below_def)
      then show ?thesis unfolding step None by (subst track_back.simps) simp
    next
      case (Some p)
      then have "{j \<in> live es. j \<le> i} = {j \<in> live es. j \<le> p}" "p < i"
        using bk ni by (auto simp: le_less)
      then show ?thesis using less.IH[of p] less.prems unfolding step Some by simp
    qed
  qed
qed

text \<open>The addresses an iterator has still to visit.\<close>

definition ahead :: "orderedMap \<Rightarrow> orderedMapIter \<Rightarrow> nat set" where
  "ahead m it = (case cur it of None \<Rightarrow> live (entries m) | Some i \<Rightarrow> above i (live (entries m)))"

definition iter_ok :: "orderedMap \<Rightarrow> orderedMapIter \<Rightarrow> bool" where
  "iter_ok m it \<longleftrightarrow> (case cur it of None \<Rightarrow> True | Some i \<Rightarrow> i < length (entries m))"

lemma iter_next_spec:
  assumes "om_inv m" "open_iter it" "iter_ok m it"
  shows "\<exists>c. iter_next m it = Some (c, if c = None then iter_close it else it\<lparr>cur := c\<rparr>) \<and>
    is_first (ahead m it) c"
proof -
  let ?S = "live (entries m)"
  have I: "links_ok (entries m)" "is_first ?S (iterFirst m)" using assms(1) by (simp_all add: om_inv_def)
  show ?thesis
  proof (cases "cur it")
    case None
    then have "track_back (entries m) (cur it) = Some None" by (subst track_back.simps) simp
    then show ?thesis using None I(2) assms(2) by (simp add: iter_next_def ahead_def Let_def)
  next
    case (Some i)
    then obtain c where c: "track_back (entries m) (cur it) = Some c" "is_last {j \<in> ?S. j \<le> i} c"
      using track_back_spec[OF I(1), of i] assms(3) by (auto simp: iter_ok_def)
    have "is_first (above i ?S) (case c of Some i \<Rightarrow> iterNext (entries m ! i) | None \<Rightarrow> iterFirst m)"
    proof (cases c)
      case None
      then have "above i ?S = ?S" using c(2) by (auto simp: not_le)
      then show ?thesis using None I(2) by simp
    next
      case (Some a)
      then have "a \<in> ?S" "a \<le> i" "\<forall>k \<in> ?S. k \<le> i \<longrightarrow> k \<le> a" using c(2) by auto
      moreover from this have "above i ?S = above a ?S" by (auto simp: not_le[symmetric])
      ultimately show ?thesis using Some I(1) by (simp add: links_ok_def)
    qed
    then show ?thesis using Some c(1) assms(2) by (simp add: iter_next_def ahead_def Let_def)
  qed
qed

section \<open>Copying\<close>

lemma present_skip:
  assumes "b \<le> i" "i \<le> length xs" "\<forall>j. b \<le> j \<and> j < i \<longrightarrow> fst (xs ! j) = None"
  shows "present (drop b xs) = present (drop i xs)"
proof -
  have "drop b xs = take (i - b) (drop b xs) @ drop i xs"
    using assms(1) by (metis append_take_drop_id drop_drop le_add_diff_inverse2)
  moreover have "present (take (i - b) (drop b xs)) = []"
  proof -
    have "\<forall>x \<in> set (take (i - b) (drop b xs)). fst x = None"
    proof
      fix x assume "x \<in> set (take (i - b) (drop b xs))"
      then obtain k where "k < i - b" "x = xs ! (b + k)" using assms(1,2) by (auto simp: in_set_conv_nth)
      then show "fst x = None" using assms(3) by simp
    qed
    then show ?thesis by (auto simp: present_def filter_empty_conv)
  qed
  ultimately show ?thesis by (metis append_Nil present_simps(4))
qed

text \<open>The contents from the least live address at or above \<open>b\<close> on.\<close>

lemma present_next:
  assumes "is_first {j \<in> live es. b \<le> j} x"
  shows "x = None \<Longrightarrow> present (drop b (kvs es)) = []"
    "x = Some i \<Longrightarrow> present (drop b (kvs es)) =
       (key_at es i, me_value (es ! i)) # present (drop (Suc i) (kvs es))"
proof -
  show "present (drop b (kvs es)) = []" if "x = None"
  proof -
    have "\<forall>j. b \<le> j \<and> j < length es \<longrightarrow> me_key (es ! j) = None"
      using assms that by (auto simp: live_def)
    then have "\<forall>y \<in> set (drop b (kvs es)). fst y = None" by (auto simp: in_set_conv_nth kvs_def)
    then show ?thesis by (auto simp: present_def filter_empty_conv)
  qed
  show "present (drop b (kvs es)) = (key_at es i, me_value (es ! i)) # present (drop (Suc i) (kvs es))"
    if "x = Some i"
  proof -
    have i: "i \<in> live es" "b \<le> i" "\<forall>k \<in> live es. b \<le> k \<longrightarrow> i \<le> k" using assms that by auto
    have il: "i < length (kvs es)" using live_less[OF i(1)] by (simp add: kvs_def)
    have "\<forall>j. b \<le> j \<and> j < i \<longrightarrow> fst (kvs es ! j) = None"
    proof (intro allI impI)
      fix j assume j: "b \<le> j \<and> j < i"
      then have "j < length es" "j \<notin> live es" using i(3) live_less[OF i(1)] by auto
      then show "fst (kvs es ! j) = None" by (simp add: kvs_def live_def)
    qed
    from present_skip[OF i(2) less_imp_le[OF il] this]
    have "present (drop b (kvs es)) = present (kvs es ! i # drop (Suc i) (kvs es))"
      using il by (simp add: Cons_nth_drop_Suc)
    then show ?thesis using il key_at_live[OF i(1)] by (simp add: kvs_def)
  qed
qed


definition put_pair :: "(val \<times> val option) list \<Rightarrow> val \<times> val option \<Rightarrow> (val \<times> val option) list" where
  "put_pair xs kv = AList.update (fst kv) (snd kv) xs"

lemma copy_loop_spec:
  assumes "links_ok es" "keys_ok es"
    and "is_first {j \<in> live es. b \<le> j} x" "om_inv dest"
  shows "\<exists>dest'. copy_loop es x dest = Some dest' \<and> om_inv dest' \<and>
    ents dest' = foldl put_pair (ents dest) (present (drop b (kvs es)))"
  using assms(3,4)
proof (induction "length es - b" arbitrary: b x dest rule: less_induct)
  case less
  show ?case
  proof (cases x)
    case None
    then show ?thesis
      using present_next(1)[OF less.prems(1)] less.prems(2) by (subst copy_loop.simps) simp
  next
    case (Some i)
    have i: "i \<in> live es" "b \<le> i" using less.prems(1) Some by auto
    have k: "canonical (key_at es i)" "norm_key (key_at es i) = key_at es i"
      using assms(2) i(1) by (auto simp: keys_ok_def key_ok_def)
    obtain d where d: "om_set dest (key_at es i) (me_value (es ! i)) = Some d" "om_inv d"
      "ents d = AList.update (key_at es i) (me_value (es ! i)) (ents dest)"
      using om_set_correct[OF less.prems(2) k(1)] k(2) by auto
    have step: "copy_loop es x dest = copy_loop es (iterNext (es ! i)) d"
      unfolding Some by (subst copy_loop.simps) (simp add: key_at_live[OF i(1)] d(1))
    have fst: "is_first {j \<in> live es. Suc i \<le> j} (iterNext (es ! i))"
    proof -
      have "{j \<in> live es. Suc i \<le> j} = above i (live es)" by auto
      then show ?thesis using assms(1) i(1) by (simp add: links_ok_def)
    qed
    have "length es - Suc i < length es - b" using live_less[OF i(1)] i(2) by linarith
    from less.hyps[OF this fst d(2)] show ?thesis
      unfolding step present_next(2)[OF less.prems(1) Some] by (simp add: d(3) put_pair_def)
  qed
qed

lemma om_copyTo_correct:
  assumes "om_inv m" "om_inv dest"
  shows "\<exists>dest'. om_copyTo m dest = Some dest' \<and> om_inv dest' \<and>
    ents dest' = foldl put_pair (ents dest) (ents m)"
  using copy_loop_spec[of "entries m" 0 "iterFirst m" dest] assms
  by (simp add: om_copyTo_def om_inv_def ents_def)

section \<open>Growth of the heap\<close>

text \<open>No operation frees an address, and none revives an entry: a live address after an operation
  was live before it or is new.\<close>

definition extends_map :: "orderedMap \<Rightarrow> orderedMap \<Rightarrow> bool" where
  "extends_map m m' \<longleftrightarrow> length (entries m) \<le> length (entries m') \<and>
     (\<forall>j \<in> live (entries m'). j < length (entries m) \<longrightarrow> j \<in> live (entries m))"

lemma om_insert_extends:
  assumes "om_inv m" "is_last (bucket (om_hash m) (entries m) h) p"
  shows "extends_map m (om_insert m key v h p)"
proof -
  note lt = links_less[OF assms]
  note F = om_insert_fields[OF lt, where key = key and vl = v and h = h]
  show ?thesis unfolding extends_map_def live_alloc(1)[OF F(1,2,7)] F(1) by auto
qed

lemma om_set_extends:
  assumes "om_inv m" "canonical key" "om_set m key v = Some m'"
  shows "extends_map m m'"
  using assms(1,2)
proof (cases rule: lookup_spec)
  case (found e q)
  then have "m' = m\<lparr>entries := upd_entry e (me_value_update (\<lambda>_. v)) (entries m)\<rparr>"
    using assms(3) by (simp add: om_set_def)
  then show ?thesis by (auto simp: extends_map_def live_def split: if_splits)
next
  case (absent q)
  then show ?thesis using om_insert_extends[OF assms(1) absent(3)] assms(3) by (auto simp: om_set_def)
qed

lemma om_remove_extends:
  assumes "om_inv m" "canonical key" "om_remove m key = Some (b, m')"
  shows "extends_map m m'"
  using assms(1,2)
proof (cases rule: lookup_spec)
  case (found e q)
  note F = om_remove_fields[OF live_less[OF found(2)], of "hash (om_hash m) (norm_key key)" q]
  let ?m = "unlink_hash (hash (om_hash m) (norm_key key)) e q (unlink_iter e
      (m\<lparr>entries := upd_entry e (\<lambda>x. x\<lparr>me_key := None, me_value := None\<rparr>) (entries m)\<rparr>))"
  have E: "entries m' = entries ?m" using assms(3) found(1) by (auto simp: om_remove_def Let_def)
  show ?thesis
    unfolding extends_map_def E F(1) live_kill(1)[OF F(1) live_less[OF found(2)] F(2)] by simp
next
  case (absent q)
  then show ?thesis using assms(3) by (auto simp: om_remove_def extends_map_def)
qed


section \<open>Iterating while the map changes\<close>

text \<open>
  A run of a program on one map with one iterator: the program may add, remove and clear between
  calls of \<^verbatim>\<open>next\<close>. The third component lists the addresses \<^verbatim>\<open>next\<close> has returned.
\<close>

inductive run_step :: "orderedMap \<times> orderedMapIter \<times> nat list \<Rightarrow> orderedMap \<times> orderedMapIter \<times> nat list \<Rightarrow> bool"
where
  Set: "canonical k \<Longrightarrow> om_set m k v = Some m' \<Longrightarrow> run_step (m, it, vs) (m', it, vs)"
| Remove: "canonical k \<Longrightarrow> om_remove m k = Some (b, m') \<Longrightarrow> run_step (m, it, vs) (m', it, vs)"
| Clear: "om_clear m = Some m' \<Longrightarrow> run_step (m, it, vs) (m', it, vs)"
| Next: "iter_next m it = Some (Some e, it') \<Longrightarrow> run_step (m, it, vs) (m, it', vs @ [e])"
| Exhaust: "iter_next m it = Some (None, it') \<Longrightarrow> run_step (m, it, vs) (m, it', vs)"

definition run_inv :: "orderedMap \<times> orderedMapIter \<times> nat list \<Rightarrow> bool" where
  "run_inv s = (case s of (m, it, vs) \<Rightarrow>
     om_inv m \<and> sorted_wrt (<) vs \<and> (\<forall>v \<in> set vs. v < length (entries m)) \<and>
     (open_iter it \<longrightarrow> cur it = (if vs = [] then None else Some (last vs)) \<and>
        (\<forall>j \<in> live (entries m). j \<notin> set vs \<longrightarrow> j \<in> ahead m it)))"

lemma run_inv_mutate:
  assumes "run_inv (m, it, vs)" "om_inv m'" "extends_map m m'"
  shows "run_inv (m', it, vs)"
proof -
  have "j \<in> ahead m' it" if j: "open_iter it" "j \<in> live (entries m')" "j \<notin> set vs" for j
  proof (cases "j < length (entries m)")
    case True
    then have "j \<in> ahead m it" using assms(1,3) j by (auto simp: run_inv_def extends_map_def)
    then show ?thesis using j(2) by (auto simp: ahead_def split: option.splits)
  next
    case False
    have "last vs < j" if "vs \<noteq> []"
      using assms(1) False last_in_set[OF that] by (force simp: run_inv_def)
    then show ?thesis
      using assms(1) j(1,2) False by (auto simp: run_inv_def ahead_def)
  qed
  then show ?thesis using assms by (fastforce simp: run_inv_def extends_map_def)
qed

lemma run_inv_iter_ok: "run_inv (m, it, vs) \<Longrightarrow> open_iter it \<Longrightarrow> iter_ok m it"
  by (auto simp: run_inv_def iter_ok_def)

lemma run_inv_next:
  assumes "run_inv (m, it, vs)" "iter_next m it = Some (c, it')"
  shows "run_inv (m, it', case c of Some e \<Rightarrow> vs @ [e] | None \<Rightarrow> vs)"
proof (cases "open_iter it")
  case False
  then have "c = None" "it' = it" using assms(2) by (simp_all add: iter_next_def)
  then show ?thesis using assms(1) by simp
next
  case True
  have I: "om_inv m" "sorted_wrt (<) vs" "\<forall>v \<in> set vs. v < length (entries m)"
    "cur it = (if vs = [] then None else Some (last vs))"
    "\<forall>j \<in> live (entries m). j \<notin> set vs \<longrightarrow> j \<in> ahead m it"
    using assms(1) True by (auto simp: run_inv_def)
  have N: "it' = (if c = None then iter_close it else it\<lparr>cur := c\<rparr>)" "is_first (ahead m it) c"
    using iter_next_spec[OF I(1) True run_inv_iter_ok[OF assms(1) True]] assms(2) by auto
  show ?thesis
  proof (cases c)
    case None
    then show ?thesis using I N by (simp add: run_inv_def iter_close_def)
  next
    case (Some e)
    have e: "e \<in> ahead m it" "\<forall>k \<in> ahead m it. e \<le> k" using N(2) Some by auto
    have el: "e \<in> live (entries m)" using e(1) by (auto simp: ahead_def split: option.splits)
    have le: "v \<le> last vs" if "v \<in> set vs" for v
      using that I(2) by (induction vs) (auto split: if_splits simp: less_imp_le)
    then have gt: "\<forall>v \<in> set vs. v < e"
      using e(1) I(4) by (auto simp: ahead_def split: if_splits dest: le)
    have "j \<in> above e (live (entries m))" if "j \<in> live (entries m)" "j \<notin> set (vs @ [e])" for j
      using that I(5) e(2) by (auto simp: le_less)
    then show ?thesis
      using I N(1) Some gt el live_less by (auto simp: run_inv_def sorted_wrt_append ahead_def)
  qed
qed

lemma run_step_inv:
  assumes "run_step s t" "run_inv s"
  shows "run_inv t"
  using assms
proof (induction rule: run_step.induct)
  case (Set k m v m' it vs)
  then have i: "om_inv m" by (simp add: run_inv_def)
  from om_set_correct[OF this Set(1), of v] Set(2) have "om_inv m'" by auto
  then show ?case using run_inv_mutate Set om_set_extends[OF i Set(1,2)] by blast
next
  case (Remove k m b m' it vs)
  then have i: "om_inv m" by (simp add: run_inv_def)
  from om_remove_correct[OF this Remove(1)] Remove(2) have "om_inv m'" by auto
  then show ?case using run_inv_mutate Remove om_remove_extends[OF i Remove(1,2)] by blast
next
  case (Clear m m' it vs)
  then have i: "om_inv m" by (simp add: run_inv_def)
  from om_clear_correct[OF this] Clear(1)
  have "om_inv m'" "extends_map m m'" by (auto simp: extends_map_def)
  then show ?case using run_inv_mutate Clear by blast
next
  case (Next m it e it' vs)
  then show ?case using run_inv_next[of m it vs "Some e"] by simp
next
  case (Exhaust m it it' vs)
  then show ?case using run_inv_next[of m it vs None] by simp
qed

lemma run_steps_inv: "run_step\<^sup>*\<^sup>* s t \<Longrightarrow> run_inv s \<Longrightarrow> run_inv t"
  by (induction rule: rtranclp_induct) (auto intro: run_step_inv)

lemma run_inv_start: "om_inv m \<Longrightarrow> run_inv (m, newIter, [])"
  by (simp add: run_inv_def newIter_def ahead_def)


section \<open>The contract of an insertion-ordered dictionary\<close>

text \<open>
  What Map, Set and the grouping functions rely on: adding keeps the position of a key that is present
  and appends a new one, removal keeps the order of the rest, and keys are compared after
  normalisation. The clients build and filter dictionaries key by key.
\<close>

text \<open>A loop over keys whose body may stop it (the callbacks of \<^verbatim>\<open>iterateKeys\<close> return a flag).\<close>

fun keys_loop :: "('k \<Rightarrow> 's \<Rightarrow> (bool \<times> 's) option) \<Rightarrow> 'k list \<Rightarrow> 's \<Rightarrow> 's option" where
  "keys_loop body [] s = Some s"
| "keys_loop body (k # ks) s =
     (case body k s of
        None \<Rightarrow> None
      | Some (True, s') \<Rightarrow> keys_loop body ks s'
      | Some (False, s') \<Rightarrow> Some s')"

definition continue :: "'s option \<Rightarrow> (bool \<times> 's) option" where
  "continue r = map_option (Pair True) r"

lemma keys_loop_continue:
  "keys_loop (\<lambda>k s. continue (f k s)) (k # ks) s =
     Option.bind (f k s) (keys_loop (\<lambda>k s. continue (f k s)) ks)"
  by (cases "f k s") (simp_all add: continue_def)

fun add_key :: "'k list \<Rightarrow> 'k \<Rightarrow> 'k list" where
  "add_key ks k = (if k \<in> set ks then ks else ks @ [k])"

lemma keys_update: "map fst (AList.update k v xs) = add_key (map fst xs) k"
  by (induction xs) (auto split: if_splits)

lemma keys_delete: "map fst (AList.delete k xs) = filter (\<lambda>x. x \<noteq> k) (map fst xs)"
  by (induction xs) auto

lemma set_add_keys: "set (foldl add_key ks xs) = set ks \<union> set xs"
  by (induction xs arbitrary: ks) (auto split: if_splits)

locale ordered_dict =
  fixes inv :: "'m \<Rightarrow> bool" and ok :: "'k \<Rightarrow> bool" and norm :: "'k \<Rightarrow> 'k"
    and contents :: "'m \<Rightarrow> ('k \<times> 'v) list"
    and put :: "'m \<Rightarrow> 'k \<Rightarrow> 'v \<Rightarrow> 'm option" and del :: "'m \<Rightarrow> 'k \<Rightarrow> (bool \<times> 'm) option"
    and mem :: "'m \<Rightarrow> 'k \<Rightarrow> bool option"
  assumes put_contents: "inv m \<Longrightarrow> ok k \<Longrightarrow>
      \<exists>m'. put m k v = Some m' \<and> inv m' \<and> contents m' = AList.update (norm k) v (contents m)"
    and del_contents: "inv m \<Longrightarrow> ok k \<Longrightarrow>
      \<exists>b m'. del m k = Some (b, m') \<and> inv m' \<and> contents m' = AList.delete (norm k) (contents m)"
    and mem_contents: "inv m \<Longrightarrow> ok k \<Longrightarrow> mem m k = Some (norm k \<in> set (map fst (contents m)))"
    and keys_ok_distinct: "inv m \<Longrightarrow> distinct (map fst (contents m)) \<and>
      (\<forall>k \<in> set (map fst (contents m)). ok k \<and> norm k = k)"
begin

abbreviation dkeys :: "'m \<Rightarrow> 'k list" where "dkeys m \<equiv> map fst (contents m)"

lemma put_keys: "inv m \<Longrightarrow> ok k \<Longrightarrow> \<exists>m'. put m k v = Some m' \<and> inv m' \<and> dkeys m' = add_key (dkeys m) (norm k)"
  using put_contents[of m k v] by (auto simp: keys_update simp del: add_key.simps)

lemma del_keys:
  "inv m \<Longrightarrow> ok k \<Longrightarrow> \<exists>b m'. del m k = Some (b, m') \<and> inv m' \<and> dkeys m' = filter (\<lambda>x. x \<noteq> norm k) (dkeys m)"
  using del_contents[of m k] by (auto simp: keys_delete)

text \<open>Adding the keys of a list: the new ones are appended in their order.\<close>

lemma put_loop:
  assumes "inv m" "\<forall>k \<in> set ks. ok k"
  shows "\<exists>m'. keys_loop (\<lambda>k m. continue (put m k v)) ks m = Some m' \<and> inv m' \<and>
    dkeys m' = foldl add_key (dkeys m) (map norm ks)"
  using assms
proof (induction ks arbitrary: m)
  case (Cons k ks)
  obtain m1 where "put m k v = Some m1" "inv m1" "dkeys m1 = add_key (dkeys m) (norm k)"
    using put_keys[of m k v] Cons.prems by auto
  then show ?case using Cons.IH[of m1] Cons.prems(2) by (simp add: keys_loop_continue del: keys_loop.simps add_key.simps)
qed simp

text \<open>Removing the keys of a list.\<close>

lemma del_loop:
  assumes "inv m" "\<forall>k \<in> set ks. ok k"
  shows "\<exists>m'. keys_loop (\<lambda>k m. continue (map_option snd (del m k))) ks m = Some m' \<and> inv m' \<and>
    dkeys m' = filter (\<lambda>x. x \<notin> set (map norm ks)) (dkeys m)"
  using assms
proof (induction ks arbitrary: m)
  case (Cons k ks)
  obtain b m1 where "del m k = Some (b, m1)" "inv m1" "dkeys m1 = filter (\<lambda>x. x \<noteq> norm k) (dkeys m)"
    using del_keys[of m k] Cons.prems by auto
  moreover from this(2) obtain m2 where
    "keys_loop (\<lambda>k m. continue (map_option snd (del m k))) ks m1 = Some m2" "inv m2"
    "dkeys m2 = filter (\<lambda>x. x \<notin> set (map norm ks)) (dkeys m1)"
    using Cons.IH[of m1] Cons.prems(2) by auto
  ultimately show ?case by (auto simp: keys_loop_continue filter_filter conj_commute simp del: keys_loop.simps)
qed simp

text \<open>Adding or removing only the keys that satisfy a test.\<close>

lemma put_if_loop:
  assumes "inv m" "\<forall>k \<in> set ks. ok k" "\<forall>k \<in> set ks. P k = Some (p k)"
  shows "\<exists>m'. keys_loop (\<lambda>k m. continue (Option.bind (P k) (\<lambda>b. if b then put m k v else Some m))) ks m = Some m' \<and>
    inv m' \<and> dkeys m' = foldl add_key (dkeys m) (map norm (filter p ks))"
  using assms
proof (induction ks arbitrary: m)
  case (Cons k ks)
  show ?case
  proof (cases "p k")
    case True
    obtain m1 where "put m k v = Some m1" "inv m1" "dkeys m1 = add_key (dkeys m) (norm k)"
      using put_keys[of m k v] Cons.prems by auto
    then show ?thesis
      using Cons.IH[of m1] Cons.prems(2,3) True
      by (simp add: keys_loop_continue del: keys_loop.simps add_key.simps)
  next
    case False
    then show ?thesis using Cons.IH[OF Cons.prems(1)] Cons.prems(2,3) by (simp add: keys_loop_continue del: keys_loop.simps)
  qed
qed simp

lemma del_if_loop:
  assumes "inv m" "\<forall>k \<in> set ks. ok k" "\<forall>k \<in> set ks. P k = Some (p k)"
  shows "\<exists>m'. keys_loop (\<lambda>k m. continue (Option.bind (P k)
        (\<lambda>b. if b then map_option snd (del m k) else Some m))) ks m = Some m' \<and>
    inv m' \<and> dkeys m' = filter (\<lambda>x. x \<notin> set (map norm (filter p ks))) (dkeys m)"
  using assms
proof (induction ks arbitrary: m)
  case (Cons k ks)
  show ?case
  proof (cases "p k")
    case True
    obtain b m1 where m1: "del m k = Some (b, m1)" "inv m1" "dkeys m1 = filter (\<lambda>x. x \<noteq> norm k) (dkeys m)"
      using del_keys[of m k] Cons.prems by auto
    obtain m2 where "keys_loop (\<lambda>k m. continue (Option.bind (P k)
        (\<lambda>b. if b then map_option snd (del m k) else Some m))) ks m1 = Some m2" "inv m2"
      "dkeys m2 = filter (\<lambda>x. x \<notin> set (map norm (filter p ks))) (dkeys m1)"
      using Cons.IH[OF m1(2)] Cons.prems(2,3) by auto
    then show ?thesis
      using m1 Cons.prems(3) True
      by (auto simp: keys_loop_continue filter_filter conj_commute simp del: keys_loop.simps)
  next
    case False
    then show ?thesis using Cons.IH[OF Cons.prems(1)] Cons.prems(2,3) by (simp add: keys_loop_continue del: keys_loop.simps)
  qed
qed simp

end

lemma ents_keys_ok:
  assumes "om_inv m"
  shows "distinct (map fst (ents m)) \<and> (\<forall>k \<in> set (map fst (ents m)). canonical k \<and> norm_key k = k)"
proof -
  have I: "keys_ok (entries m)" using assms by (simp add: om_inv_def)
  have "distinct (map fst (present xs))" if "keys_distinct xs" for xs :: "(val option \<times> val option) list"
    using that
  proof (induction xs)
    case (Cons x xs)
    have kd: "keys_distinct xs"
      unfolding keys_distinct_def using Cons.prems keys_distinctD[OF Cons.prems, of "Suc _" "Suc _"] by auto
    have "k \<notin> fst ` set (present xs)" if "x = (Some k, v)" for k v
      using keys_distinct_split(2)[OF Cons.prems, of 0 k] that by simp
    then show ?case using Cons.IH[OF kd] by (cases x; cases "fst x") auto
  qed simp
  moreover have "canonical k \<and> norm_key k = k" if k: "k \<in> fst ` set (ents m)" for k
  proof -
    obtain v where "(Some k, v) \<in> set (kvs (entries m))" using k by (auto simp: ents_def present_keys)
    then obtain i where "i < length (entries m)" "me_key (entries m ! i) = Some k"
      by (auto simp: kvs_def in_set_conv_nth)
    then have "i \<in> live (entries m)" "key_at (entries m) i = k" by (auto simp: live_def key_at_def)
    then show ?thesis using I by (auto simp: keys_ok_def key_ok_def)
  qed
  ultimately show ?thesis using keys_distinct_kvs[OF I] by (simp add: ents_def)
qed

interpretation om: ordered_dict om_inv canonical norm_key ents om_set om_remove om_has
proof unfold_locales
  fix m k and v :: "val option"
  assume i: "om_inv m" and k: "canonical k"
  show "\<exists>m'. om_set m k v = Some m' \<and> om_inv m' \<and> ents m' = AList.update (norm_key k) v (ents m)"
    by (rule om_set_correct[OF i k])
  show "\<exists>b m'. om_remove m k = Some (b, m') \<and> om_inv m' \<and> ents m' = AList.delete (norm_key k) (ents m)"
    using om_remove_correct[OF i k] by blast
  show "om_has m k = Some (norm_key k \<in> set (map fst (ents m)))"
    using om_get_correct(2)[OF i k] by (simp add: map_of_eq_None_iff)
next
  fix m assume "om_inv m"
  then show "distinct (map fst (ents m)) \<and> (\<forall>k \<in> set (map fst (ents m)). canonical k \<and> norm_key k = k)"
    by (rule ents_keys_ok)
qed

lemma om_size_ents: "om_inv m \<Longrightarrow> om_size m = int (length (ents m))"
proof -
  assume "om_inv m"
  moreover have "length (present (kvs (entries m))) = card (live (entries m))"
    by (simp add: present_def kvs_def live_def length_filter_conv_card filter_map o_def split_def)
  ultimately show ?thesis by (simp add: om_inv_def ents_def)
qed

lemma om_inv_new: "om_inv (newOrderedMap h)"
  by (simp add: om_inv_def newOrderedMap_def links_ok_def keys_ok_def chains_ok_def live_def bucket_def)

lemma ents_new [simp]: "ents (newOrderedMap h) = []"
  by (simp add: ents_def newOrderedMap_def kvs_def)


text \<open>A run: a map with one entry, \<^verbatim>\<open>next\<close>, another entry is added, the first one is removed, and \<^verbatim>\<open>next\<close> again.\<close>

lemma lookup_chain_ends: "lookup_chain es key None hPrev = Some (None, hPrev)"
  by (subst lookup_chain.simps) simp

lemma lookup_chain_first: "me_key (es ! e) = Some key \<Longrightarrow> SameAs key key \<Longrightarrow> lookup_chain es key (Some e) hPrev = Some (Some e, hPrev)"
  by (subst lookup_chain.simps) simp

lemma example_run:
  "\<exists>m it m' m''. om_set (newOrderedMap hasher0) VNull (Some VUndef) = Some m \<and> iter_next m newIter = Some (Some 0, it) \<and>
     om_set m VUndef None = Some m' \<and> om_remove m' VNull = Some (True, m'') \<and> iter_next m'' it = Some (Some 1, it\<lparr>cur := Some 1\<rparr>)"
  by (simp add: om_set_def om_remove_def lookup_def lookup_chain_ends lookup_chain_first norm_key_def newOrderedMap_def newIter_def om_insert_def
    upd_entry_def Let_def hasher0_def iter_next_def track_back.simps unlink_iter_def unlink_hash_def)

section \<open>Properties\<close>

text \<open>
  (C3) The hash map with its chains and links implements an ordered association list: on a well-formed
  map every operation returns, keeps the invariant, and acts on the contents as the list operation
  does. Setting a present key keeps its position, setting a new one appends it, and \<open>-0\<close> is the same
  key as \<open>0\<close>.
\<close>

theorem ordered_map_refines:
  assumes "om_inv m" "canonical key"
  shows "(\<exists>m'. om_set m key v = Some m' \<and> om_inv m' \<and> ents m' = AList.update (norm_key key) v (ents m)) \<and>
    om_get m key = Some (Option.bind (map_of (ents m) (norm_key key)) id) \<and>
    om_has m key = Some (map_of (ents m) (norm_key key) \<noteq> None) \<and>
    (\<exists>m'. om_remove m key = Some (map_of (ents m) (norm_key key) \<noteq> None, m') \<and> om_inv m' \<and>
       ents m' = AList.delete (norm_key key) (ents m)) \<and>
    (\<exists>m'. om_clear m = Some m' \<and> om_inv m' \<and> ents m' = []) \<and>
    om_size m = int (length (ents m))"
  using om_set_correct[OF assms] om_get_correct[OF assms] om_remove_correct[OF assms]
    om_clear_correct[OF assms(1)] om_size_ents[OF assms(1)] by blast

theorem ordered_map_refines_witness:
  "om_inv (newOrderedMap hasher0) \<and>
   (\<exists>m'. om_set (newOrderedMap hasher0) (VFloat negativeZero) (Some VNull) = Some m' \<and> om_inv m' \<and>
      ents m' = [(VInt 0, Some VNull)])"
proof -
  have c: "canonical (VFloat negativeZero)" by (simp add: floatToValue_negativeZero)
  have n: "norm_key (VFloat negativeZero) = VInt 0"
    by (simp add: norm_key_def feq_zero intToValue_small)
  show ?thesis using om_inv_new ordered_map_refines[OF om_inv_new c, of hasher0 "Some VNull"] n by simp
qed

text \<open>
  \<^verbatim>\<open>getOrInsert\<close> returns the value present under the key, or appends the given one and returns it.
\<close>

theorem ordered_map_getOrInsert:
  assumes "om_inv m" "canonical key"
  shows "\<exists>m'. om_getOrInsert m key v =
      Some (case map_of (ents m) (norm_key key) of Some x \<Rightarrow> x | None \<Rightarrow> v, m') \<and> om_inv m' \<and>
      ents m' = (case map_of (ents m) (norm_key key) of Some _ \<Rightarrow> ents m
                 | None \<Rightarrow> ents m @ [(norm_key key, v)])"
  using assms by (rule om_getOrInsert_correct)

theorem ordered_map_getOrInsert_witness:
  "\<exists>m'. om_getOrInsert (newOrderedMap hasher0) VNull (Some VUndef) = Some (Some VUndef, m') \<and>
     ents m' = [(VNull, Some VUndef)]"
  using ordered_map_getOrInsert[OF om_inv_new, of VNull hasher0 "Some VUndef"] by (auto simp: norm_key_def)

text \<open>
  (C11) Iteration is robust against changes of the map. However additions, removals and clearing are
  interleaved with the calls of \<^verbatim>\<open>next\<close>, every call returns, no entry is returned twice, entries come
  out in the order of insertion, and when the iterator reports the end every entry still in the map
  has been returned.
\<close>

theorem ordered_map_iteration:
  assumes "om_inv m0" "run_step\<^sup>*\<^sup>* (m0, newIter, []) (m, it, vs)"
  shows "sorted_wrt (<) vs \<and> (\<exists>c it'. iter_next m it = Some (c, it') \<and>
    (case c of
       Some e \<Rightarrow> e \<in> live (entries m) \<and> (\<forall>v \<in> set vs. v < e)
     | None \<Rightarrow> open_iter it \<longrightarrow> live (entries m) \<subseteq> set vs))"
proof -
  have I: "run_inv (m, it, vs)" using run_steps_inv[OF assms(2)] run_inv_start[OF assms(1)] by blast
  obtain c it' where N: "iter_next m it = Some (c, it')"
  proof (cases "open_iter it")
    case True
    then show ?thesis using iter_next_spec[of m it] run_inv_iter_ok[OF I] I that by (auto simp: run_inv_def)
  next
    case False
    then show ?thesis using that by (simp add: iter_next_def)
  qed
  have I': "run_inv (m, it', case c of Some e \<Rightarrow> vs @ [e] | None \<Rightarrow> vs)" by (rule run_inv_next[OF I N])
  show ?thesis
  proof (cases "open_iter it")
    case True
    have S: "is_first (ahead m it) c"
      using iter_next_spec[of m it] run_inv_iter_ok[OF I True] I True N by (auto simp: run_inv_def)
    show ?thesis
    proof (cases c)
      case None
      then show ?thesis using S I N True by (auto simp: run_inv_def)
    next
      case (Some e)
      then show ?thesis
        using S I I' N by (auto simp: run_inv_def sorted_wrt_append ahead_def split: option.splits)
    qed
  next
    case False
    then show ?thesis using I N by (auto simp: run_inv_def iter_next_def)
  qed
qed

theorem ordered_map_iteration_witness:
  "\<exists>m it m' m''. om_set (newOrderedMap hasher0) VNull (Some VUndef) = Some m \<and> iter_next m newIter = Some (Some 0, it) \<and>
     om_set m VUndef None = Some m' \<and> om_remove m' VNull = Some (True, m'') \<and> iter_next m'' it = Some (Some 1, it\<lparr>cur := Some 1\<rparr>) \<and>
     1 \<in> live (entries m'')"
proof -
  obtain m it m' m'' where e: "om_set (newOrderedMap hasher0) VNull (Some VUndef) = Some m" "iter_next m newIter = Some (Some 0, it)"
    "om_set m VUndef None = Some m'" "om_remove m' VNull = Some (True, m'')" "iter_next m'' it = Some (Some 1, it\<lparr>cur := Some 1\<rparr>)"
    using example_run by blast
  have "om_inv m" using om_set_correct[OF om_inv_new, of VNull hasher0 "Some VUndef"] e(1) by auto
  moreover have "run_step\<^sup>*\<^sup>* (m, newIter, []) (m'', it, [0])"
    using run_step.Next[OF e(2), of "[]"] run_step.Set[OF _ e(3), of it "[0]"] run_step.Remove[OF _ e(4), of it "[0]"]
    by (auto intro: converse_rtranclp_into_rtranclp)
  ultimately have "1 \<in> live (entries m'')" using ordered_map_iteration e(5) by fastforce
  then show ?thesis using e by blast
qed

text \<open>\<^verbatim>\<open>copyTo\<close> adds the entries of a map to another in their order, as repeated \<^verbatim>\<open>set\<close> would.\<close>

theorem ordered_map_copyTo:
  assumes "om_inv m" "om_inv dest"
  shows "\<exists>dest'. om_copyTo m dest = Some dest' \<and> om_inv dest' \<and>
    ents dest' = foldl put_pair (ents dest) (ents m)"
  using assms by (rule om_copyTo_correct)

theorem ordered_map_copyTo_witness:
  "\<exists>dest'. om_copyTo (newOrderedMap hasher0) (newOrderedMap hasher0) = Some dest' \<and> ents dest' = []"
  using ordered_map_copyTo[OF om_inv_new om_inv_new, of hasher0 hasher0] by auto

end
