(* ===== verification/Set_Methods.thy ===== *)
theory Set_Methods
  imports Arith Ordered_Map
begin

text \<open>
  The set algebra of Set.prototype (builtin_set.go) over the ordered map: union, intersection,
  difference, symmetric difference and the three comparisons, each with the choice of the smaller side
  that the code makes. The argument is a set record: the size, the membership test and the keys that
  the argument's own methods report. A method called on something that is not a Set throws; a result
  \<open>None\<close> inside means that a loop does not return.
\<close>

section \<open>Set records\<close>

record setRecord =
  sr_size :: int
  sr_has :: "val \<Rightarrow> bool option"
  sr_keys :: "val list"

text \<open>
  \<^verbatim>\<open>toInt\<close> on a Number. Go leaves the conversion of a double outside the range of \<^verbatim>\<open>int\<close> to the
  platform, so its result there is a parameter.
\<close>

definition toInt :: "(float64 \<Rightarrow> int) \<Rightarrow> val \<Rightarrow> int" where
  "toInt ovf v =
     (case v of
        VInt i \<Rightarrow> i
      | VFloat f \<Rightarrow>
          if \<not> f64_isnan f \<and> \<not> f64_isinf f then
            (if is_int64 (int_of_f64 f) then int_of_f64 f else ovf f)
          else 0
      | _ \<Rightarrow> 0)"

text \<open>\<^verbatim>\<open>getSetRecord\<close>: the reads and checks on the argument, in their order; it yields the size and the
  two methods.\<close>

definition getSetRecord :: "(float64 \<Rightarrow> int) \<Rightarrow> 'w env \<Rightarrow> val \<Rightarrow> ('w, int \<times> oid \<times> oid) jsm" where
  "getSetRecord ovf E v =
     (case v of
        VObj o' \<Rightarrow>
          bindM (e_getStr E o' (ascii ''size'')) (\<lambda>rawSize.
          bindM (ToNumber E (case rawSize of None \<Rightarrow> VUndef | Some x \<Rightarrow> x)) (\<lambda>numberSize.
          if f64_isnan (num_float numberSize) then throwM TypeErr
          else let intSize = toInt ovf numberSize in
          if intSize < 0 then throwM RangeErr
          else bindM (e_getStr E o' (ascii ''has'')) (\<lambda>has.
          bindM (toMethod E has) (\<lambda>hasFn.
          case hasFn of None \<Rightarrow> throwM TypeErr | Some hf \<Rightarrow>
          bindM (e_getStr E o' (ascii ''keys'')) (\<lambda>keys.
          bindM (toMethod E keys) (\<lambda>keysFn.
          case keysFn of None \<Rightarrow> throwM TypeErr | Some kf \<Rightarrow> ret (intSize, hf, kf)))))))
      | _ \<Rightarrow> throwM TypeErr)"

text \<open>The record of an argument that is itself a Set with the built-in methods.\<close>

definition native_record :: "orderedMap \<Rightarrow> setRecord" where
  "native_record o' = \<lparr>sr_size = om_size o', sr_has = om_has o', sr_keys = map fst (ents o')\<rparr>"

section \<open>Loops over the receiver\<close>

partial_function (option) iter_loop ::
  "orderedMap \<Rightarrow> (val \<Rightarrow> 's \<Rightarrow> (bool \<times> 's) option) \<Rightarrow> orderedMapIter \<Rightarrow> 's \<Rightarrow> 's option" where
  "iter_loop m body it s =
     (case iter_next m it of
        None \<Rightarrow> None
      | Some (c, it') \<Rightarrow>
          (case c of
             None \<Rightarrow> Some s
           | Some e \<Rightarrow>
               (case me_key (entries m ! e) of
                  None \<Rightarrow> None
                | Some k \<Rightarrow>
                    (case body k s of
                       None \<Rightarrow> None
                     | Some (go_on, s') \<Rightarrow> if go_on then iter_loop m body it' s' else Some s'))))"

definition with_set :: "orderedMap option \<Rightarrow> (orderedMap \<Rightarrow> 'a) \<Rightarrow> jserr + 'a" where
  "with_set this f = (case this of None \<Rightarrow> Inl TypeErr | Some so \<Rightarrow> Inr (f so))"

section \<open>The methods\<close>

definition setProto_difference :: "orderedMap option \<Rightarrow> setRecord \<Rightarrow> jserr + orderedMap option" where
  "setProto_difference this other = with_set this (\<lambda>so.
     Option.bind (om_copyTo so (newOrderedMap (om_hash so))) (\<lambda>result.
     if om_size so \<le> sr_size other then
       iter_loop so (\<lambda>k res. continue (Option.bind (sr_has other k)
          (\<lambda>b. if b then map_option snd (om_remove res k) else Some res))) newIter result
     else keys_loop (\<lambda>k res. continue (map_option snd (om_remove res k))) (sr_keys other) result))"

definition setProto_intersection :: "orderedMap option \<Rightarrow> setRecord \<Rightarrow> jserr + orderedMap option" where
  "setProto_intersection this other = with_set this (\<lambda>so.
     let result = newOrderedMap (om_hash so) in
     if om_size so \<le> sr_size other then
       iter_loop so (\<lambda>k res. continue (Option.bind (sr_has other k)
          (\<lambda>b. if b then om_set res k None else Some res))) newIter result
     else keys_loop (\<lambda>k res. continue (Option.bind (om_has so k)
          (\<lambda>b. if b then om_set res k None else Some res))) (sr_keys other) result)"

definition setProto_isDisjointFrom :: "orderedMap option \<Rightarrow> setRecord \<Rightarrow> jserr + bool option" where
  "setProto_isDisjointFrom this other = with_set this (\<lambda>so.
     if om_size so \<le> sr_size other then
       iter_loop so (\<lambda>k _. map_option (\<lambda>b. (\<not> b, \<not> b)) (sr_has other k)) newIter True
     else keys_loop (\<lambda>k _. map_option (\<lambda>b. (\<not> b, \<not> b)) (om_has so k)) (sr_keys other) True)"

definition setProto_isSubsetOf :: "orderedMap option \<Rightarrow> setRecord \<Rightarrow> jserr + bool option" where
  "setProto_isSubsetOf this other = with_set this (\<lambda>so.
     if sr_size other < om_size so then Some False
     else iter_loop so (\<lambda>k _. map_option (\<lambda>b. (b, b)) (sr_has other k)) newIter True)"

definition setProto_isSupersetOf :: "orderedMap option \<Rightarrow> setRecord \<Rightarrow> jserr + bool option" where
  "setProto_isSupersetOf this other = with_set this (\<lambda>so.
     if om_size so < sr_size other then Some False
     else keys_loop (\<lambda>k _. map_option (\<lambda>b. (b, b)) (om_has so k)) (sr_keys other) True)"

definition symdiff_step :: "orderedMap \<Rightarrow> val \<Rightarrow> orderedMap \<Rightarrow> orderedMap option" where
  "symdiff_step so key result =
     Option.bind (om_has result key) (\<lambda>alreadyInResult.
     Option.bind (om_has so key) (\<lambda>inSo.
       if inSo then (if alreadyInResult then map_option snd (om_remove result key) else Some result)
       else (if \<not> alreadyInResult then om_set result key None else Some result)))"

definition setProto_symmetricDifference :: "orderedMap option \<Rightarrow> setRecord \<Rightarrow> jserr + orderedMap option" where
  "setProto_symmetricDifference this other = with_set this (\<lambda>so.
     Option.bind (om_copyTo so (newOrderedMap (om_hash so))) (\<lambda>result.
     keys_loop (\<lambda>k res. continue (symdiff_step so k res)) (sr_keys other) result))"

definition setProto_union :: "orderedMap option \<Rightarrow> setRecord \<Rightarrow> jserr + orderedMap option" where
  "setProto_union this other = with_set this (\<lambda>so.
     Option.bind (om_copyTo so (newOrderedMap (om_hash so))) (\<lambda>result.
     keys_loop (\<lambda>k res. continue (om_set res k None)) (sr_keys other) result))"

section \<open>The loops visit every key once\<close>

lemma iter_loop_spec:
  assumes "om_inv m" "open_iter it" "iter_ok m it" "ahead m it = {j \<in> live (entries m). b \<le> j}"
  shows "iter_loop m body it s = keys_loop body (map fst (present (drop b (kvs (entries m))))) s"
  using assms(2-)
proof (induction "length (entries m) - b" arbitrary: b it s rule: less_induct)
  case less
  obtain c where c: "iter_next m it = Some (c, if c = None then iter_close it else it\<lparr>cur := c\<rparr>)"
    "is_first {j \<in> live (entries m). b \<le> j} c"
    using iter_next_spec[OF assms(1) less.prems(1,2)] less.prems(3) by auto
  show ?case
  proof (cases c)
    case None
    then show ?thesis using c present_next(1)[OF c(2)] by (subst iter_loop.simps) simp
  next
    case (Some e)
    let ?it = "it\<lparr>cur := Some e\<rparr>"
    have e: "e \<in> live (entries m)" "b \<le> e" using c(2) Some by auto
    have dec: "length (entries m) - Suc e < length (entries m) - b" using live_less[OF e(1)] e(2) by linarith
    have "ahead m ?it = {j \<in> live (entries m). Suc e \<le> j}" by (auto simp: ahead_def)
    then have IH: "iter_loop m body ?it s' =
        keys_loop body (map fst (present (drop (Suc e) (kvs (entries m))))) s'" for s'
      using less.hyps[OF dec, of ?it s'] less.prems(1) live_less[OF e(1)] by (simp add: iter_ok_def)
    show ?thesis
      unfolding present_next(2)[OF c(2) Some] using c(1) Some key_at_live[OF e(1)] IH
      by (subst iter_loop.simps) (auto split: option.splits)
  qed
qed

lemma iter_loop_all:
  assumes "om_inv m"
  shows "iter_loop m body newIter s = keys_loop body (map fst (ents m)) s"
  using iter_loop_spec[OF assms, of newIter 0 body s]
  by (simp add: newIter_def iter_ok_def ahead_def ents_def)

lemma keys_loop_all:
  assumes "\<forall>k \<in> set ks. P k = Some (p k)"
  shows "keys_loop (\<lambda>k _. map_option (\<lambda>b. (b, b)) (P k)) ks True = Some (list_all p ks)"
    "keys_loop (\<lambda>k _. map_option (\<lambda>b. (\<not> b, \<not> b)) (P k)) ks True = Some (list_all (\<lambda>k. \<not> p k) ks)"
  using assms
proof (induction ks)
  case (Cons k ks)
  {
    case 1
    then show ?case using Cons by (cases "p k") simp_all
  next
    case 2
    then show ?case using Cons by (cases "p k") simp_all
  }
qed simp_all


section \<open>Set algebra on key lists\<close>

text \<open>A record that describes a set: its size counts its keys and its test agrees with them.\<close>

definition record_keys :: "setRecord \<Rightarrow> val list" where
  "record_keys r = map norm_key (sr_keys r)"

definition record_ok :: "setRecord \<Rightarrow> bool" where
  "record_ok r \<longleftrightarrow> (\<forall>k \<in> set (sr_keys r). canonical k) \<and> distinct (record_keys r) \<and>
     sr_size r = int (length (sr_keys r)) \<and>
     (\<forall>k. canonical k \<longrightarrow> sr_has r k = Some (norm_key k \<in> set (record_keys r)))"

abbreviation set_keys :: "orderedMap \<Rightarrow> val list" where "set_keys m \<equiv> map fst (ents m)"

lemma set_keys_ok:
  assumes "om_inv m"
  shows "distinct (set_keys m)" "\<forall>k \<in> set (set_keys m). canonical k" "map norm_key (set_keys m) = set_keys m"
    "om_size m = int (length (set_keys m))"
  using om.keys_ok_distinct[OF assms] om_size_ents[OF assms] by (auto intro!: map_idI)

lemma native_record_ok:
  assumes "om_inv m"
  shows "record_ok (native_record m) \<and> record_keys (native_record m) = set_keys m"
proof -
  note S = set_keys_ok[OF assms]
  have K: "record_keys (native_record m) = set_keys m"
    using S(3) by (simp only: record_keys_def native_record_def setRecord.select_convs)
  moreover have "record_ok (native_record m)"
    unfolding record_ok_def K using S om.mem_contents[OF assms] by (simp add: native_record_def)
  ultimately show ?thesis by blast
qed

lemma foldl_add_key: "distinct xs \<Longrightarrow> foldl add_key ks xs = ks @ filter (\<lambda>x. x \<notin> set ks) xs"
proof (induction xs arbitrary: ks)
  case (Cons x xs)
  then have "filter (\<lambda>y. y \<notin> set (ks @ [x])) xs = filter (\<lambda>y. y \<notin> set ks) xs"
    by (intro filter_cong) auto
  then show ?case using Cons by simp
qed simp

lemma copy_keys:
  assumes "om_inv m"
  obtains r where "om_copyTo m (newOrderedMap (om_hash m)) = Some r" "om_inv r" "set_keys r = set_keys m"
proof -
  obtain r where r: "om_copyTo m (newOrderedMap (om_hash m)) = Some r" "om_inv r"
    "ents r = foldl put_pair [] (ents m)"
    using om_copyTo_correct[OF assms om_inv_new[of "om_hash m"]] by auto
  have "map fst (foldl put_pair xs ys) = foldl add_key (map fst xs) (map fst ys)" for xs ys
    by (induction ys arbitrary: xs) (simp_all add: put_pair_def keys_update del: add_key.simps)
  then have "set_keys r = set_keys m"
    using r(3) foldl_add_key[OF set_keys_ok(1)[OF assms], of "[]"] by simp
  with r that show thesis by blast
qed

lemma record_has:
  assumes "record_ok r" "om_inv m"
  shows "\<forall>k \<in> set (set_keys m). sr_has r k = Some (k \<in> set (record_keys r))"
    "\<forall>k \<in> set (sr_keys r). om_has m k = Some (norm_key k \<in> set (set_keys m))"
proof -
  show "\<forall>k \<in> set (set_keys m). sr_has r k = Some (k \<in> set (record_keys r))"
    using assms om.keys_ok_distinct[OF assms(2)] by (auto simp: record_ok_def)
  show "\<forall>k \<in> set (sr_keys r). om_has m k = Some (norm_key k \<in> set (set_keys m))"
    using assms om.mem_contents[OF assms(2)] by (auto simp: record_ok_def)
qed

lemma record_canonical: "record_ok r \<Longrightarrow> \<forall>k \<in> set (sr_keys r). canonical k"
  by (simp add: record_ok_def)

lemma union_keys:
  assumes "om_inv so" "record_ok r"
  shows "\<exists>m. setProto_union (Some so) r = Inr (Some m) \<and> om_inv m \<and>
    set_keys m = set_keys so @ filter (\<lambda>k. k \<notin> set (set_keys so)) (record_keys r)"
proof -
  obtain c where c: "om_copyTo so (newOrderedMap (om_hash so)) = Some c" "om_inv c" "set_keys c = set_keys so"
    using copy_keys[OF assms(1)] .
  have "distinct (record_keys r)" using assms(2) by (simp add: record_ok_def)
  then show ?thesis
    using om.put_loop[OF c(2) record_canonical[OF assms(2)], of None] c foldl_add_key[of "record_keys r" "set_keys so"]
    by (auto simp: setProto_union_def with_set_def record_keys_def)
qed

lemma difference_keys:
  assumes "om_inv so" "record_ok r"
  shows "\<exists>m. setProto_difference (Some so) r = Inr (Some m) \<and> om_inv m \<and>
    set_keys m = filter (\<lambda>k. k \<notin> set (record_keys r)) (set_keys so)"
proof -
  obtain c where c: "om_copyTo so (newOrderedMap (om_hash so)) = Some c" "om_inv c" "set_keys c = set_keys so"
    using copy_keys[OF assms(1)] .
  note S = set_keys_ok[OF assms(1)] and H = record_has[OF assms(2,1)]
  show ?thesis
  proof (cases "om_size so \<le> sr_size r")
    case True
    have "map norm_key (filter (\<lambda>k. k \<in> set (record_keys r)) (set_keys so)) =
        filter (\<lambda>k. k \<in> set (record_keys r)) (set_keys so)"
      using om.keys_ok_distinct[OF assms(1)] by (auto intro!: map_idI)
    then have "filter (\<lambda>x. x \<notin> set (map norm_key (filter (\<lambda>k. k \<in> set (record_keys r)) (set_keys so)))) (set_keys so) =
        filter (\<lambda>k. k \<notin> set (record_keys r)) (set_keys so)"
      by (intro filter_cong) auto
    then show ?thesis
      using om.del_if_loop[OF c(2) S(2) H(1)] c True
      by (simp add: setProto_difference_def with_set_def iter_loop_all[OF assms(1)])
  next
    case False
    then show ?thesis
      using om.del_loop[OF c(2) record_canonical[OF assms(2)]] c
      by (simp add: setProto_difference_def with_set_def record_keys_def)
  qed
qed

lemma intersection_keys:
  assumes "om_inv so" "record_ok r"
  shows "\<exists>m. setProto_intersection (Some so) r = Inr (Some m) \<and> om_inv m \<and>
    set_keys m = (if om_size so \<le> sr_size r then filter (\<lambda>k. k \<in> set (record_keys r)) (set_keys so)
      else filter (\<lambda>k. k \<in> set (set_keys so)) (record_keys r))"
proof -
  let ?new = "newOrderedMap (om_hash so)"
  note S = set_keys_ok[OF assms(1)] and H = record_has[OF assms(2,1)] and N = om_inv_new[of "om_hash so"]
  show ?thesis
  proof (cases "om_size so \<le> sr_size r")
    case True
    have "map norm_key (filter (\<lambda>k. k \<in> set (record_keys r)) (set_keys so)) =
        filter (\<lambda>k. k \<in> set (record_keys r)) (set_keys so)"
      using om.keys_ok_distinct[OF assms(1)] by (auto intro!: map_idI)
    then show ?thesis
      using om.put_if_loop[OF N S(2) H(1), of None] True
        foldl_add_key[of "filter (\<lambda>k. k \<in> set (record_keys r)) (set_keys so)" "[]"] S(1)
      by (simp add: setProto_intersection_def with_set_def iter_loop_all[OF assms(1)])
  next
    case False
    have "map norm_key (filter (\<lambda>k. norm_key k \<in> set (set_keys so)) (sr_keys r)) =
        filter (\<lambda>k. k \<in> set (set_keys so)) (record_keys r)"
      by (simp add: record_keys_def filter_map o_def)
    moreover have "distinct (record_keys r)" using assms(2) by (simp add: record_ok_def)
    ultimately show ?thesis
      using om.put_if_loop[OF N record_canonical[OF assms(2)] H(2), of None] False
        foldl_add_key[of "filter (\<lambda>k. k \<in> set (set_keys so)) (record_keys r)" "[]"]
      by (simp add: setProto_intersection_def with_set_def)
  qed
qed


lemma pair_key: "(a, b) \<in> set xs \<Longrightarrow> a \<in> fst ` set xs"
  by force

lemma symdiff_loop:
  assumes "om_inv so" "om_inv m" "\<forall>k \<in> set ks. canonical k" "distinct (map norm_key ks)"
  shows "\<exists>m'. keys_loop (\<lambda>k res. continue (symdiff_step so k res)) ks m = Some m' \<and> om_inv m' \<and>
    set_keys m' = filter (\<lambda>x. \<not> (x \<in> set (map norm_key ks) \<and> x \<in> set (set_keys so))) (set_keys m) @
      filter (\<lambda>x. x \<notin> set (set_keys so) \<and> x \<notin> set (set_keys m)) (map norm_key ks)"
  using assms(2-)
proof (induction ks arbitrary: m)
  case (Cons k ks)
  let ?k = "norm_key k" and ?A = "set (set_keys so)" and ?B = "set (map norm_key ks)"
  have k: "canonical k" "?k \<notin> ?B" using Cons.prems by auto
  have H: "om_has m k = Some (?k \<in> set (set_keys m))" "om_has so k = Some (?k \<in> ?A)"
    using om.mem_contents[OF Cons.prems(1) k(1)] om.mem_contents[OF assms(1) k(1)] by simp_all
  obtain m1 where m1: "symdiff_step so k m = Some m1" "om_inv m1"
    "set_keys m1 = (if ?k \<in> ?A then filter (\<lambda>x. x \<noteq> ?k) (set_keys m) else add_key (set_keys m) ?k)"
  proof (cases "?k \<in> ?A")
    case True
    have "filter (\<lambda>x. x \<noteq> ?k) (set_keys m) = set_keys m" if "?k \<notin> set (set_keys m)"
      using that by (force simp: filter_id_conv)
    then show ?thesis
      using True H om.del_keys[OF Cons.prems(1) k(1)] Cons.prems(1) that
      by (cases "?k \<in> set (set_keys m)") (auto simp: symdiff_step_def)
  next
    case False
    then show ?thesis
      using H om.put_keys[OF Cons.prems(1) k(1), of None] Cons.prems(1) that
      by (cases "?k \<in> set (set_keys m)") (auto simp: symdiff_step_def)
  qed
  obtain m2 where m2: "keys_loop (\<lambda>k res. continue (symdiff_step so k res)) ks m1 = Some m2" "om_inv m2"
    "set_keys m2 = filter (\<lambda>x. \<not> (x \<in> ?B \<and> x \<in> ?A)) (set_keys m1) @
      filter (\<lambda>x. x \<notin> ?A \<and> x \<notin> set (set_keys m1)) (map norm_key ks)"
    using Cons.IH[OF m1(2)] Cons.prems(2,3) by auto
  have "set_keys m2 = filter (\<lambda>x. \<not> (x \<in> insert ?k ?B \<and> x \<in> ?A)) (set_keys m) @
      filter (\<lambda>x. x \<notin> ?A \<and> x \<notin> set (set_keys m)) (?k # map norm_key ks)"
  proof (cases "?k \<in> ?A")
    case True
    have "filter (\<lambda>x. x \<notin> ?A \<and> x \<notin> set (filter (\<lambda>x. x \<noteq> ?k) (set_keys m))) (map norm_key ks) =
        filter (\<lambda>x. x \<notin> ?A \<and> x \<notin> set (set_keys m)) (map norm_key ks)"
      using True by (intro filter_cong) (auto dest: pair_key)
    moreover have "filter (\<lambda>x. \<not> (x \<in> ?B \<and> x \<in> ?A)) (filter (\<lambda>x. x \<noteq> ?k) (set_keys m)) =
        filter (\<lambda>x. \<not> (x \<in> insert ?k ?B \<and> x \<in> ?A)) (set_keys m)"
      unfolding filter_filter using True by (intro filter_cong) (auto intro: rev_image_eqI)
    ultimately show ?thesis unfolding m2(3) m1(3) using True by (simp only: if_True filter.simps simp_thms if_False)
  next
    case False
    have "filter (\<lambda>x. x \<notin> ?A \<and> x \<notin> set (add_key (set_keys m) ?k)) (map norm_key ks) =
        filter (\<lambda>x. x \<notin> ?A \<and> x \<notin> set (set_keys m)) (map norm_key ks)"
      using k(2) by (intro filter_cong) (auto simp: image_iff)
    moreover have "filter (\<lambda>x. \<not> (x \<in> ?B \<and> x \<in> ?A)) (set_keys m) =
        filter (\<lambda>x. \<not> (x \<in> insert ?k ?B \<and> x \<in> ?A)) (set_keys m)"
      using False by (intro filter_cong) (auto intro: rev_image_eqI)
    ultimately show ?thesis unfolding m2(3) m1(3) using False k(2) by simp
  qed
  then show ?case using m1(1) m2(1,2) by (simp add: keys_loop_continue del: keys_loop.simps)
qed simp

lemma symmetricDifference_keys:
  assumes "om_inv so" "record_ok r"
  shows "\<exists>m. setProto_symmetricDifference (Some so) r = Inr (Some m) \<and> om_inv m \<and>
    set_keys m = filter (\<lambda>k. k \<notin> set (record_keys r)) (set_keys so) @
      filter (\<lambda>k. k \<notin> set (set_keys so)) (record_keys r)"
proof -
  obtain c where c: "om_copyTo so (newOrderedMap (om_hash so)) = Some c" "om_inv c" "set_keys c = set_keys so"
    using copy_keys[OF assms(1)] .
  have d: "distinct (map norm_key (sr_keys r))" using assms(2) by (simp add: record_ok_def record_keys_def)
  have "filter (\<lambda>x. \<not> (x \<in> set (map norm_key (sr_keys r)) \<and> x \<in> set (set_keys so))) (set_keys so) =
      filter (\<lambda>k. k \<notin> set (record_keys r)) (set_keys so)"
    by (intro filter_cong) (auto simp: record_keys_def)
  then show ?thesis
    using symdiff_loop[OF assms(1) c(2) record_canonical[OF assms(2)] d] c
    by (simp add: setProto_symmetricDifference_def with_set_def record_keys_def)
qed

text \<open>The comparisons; the size checks are sound because keys are distinct on both sides.\<close>

lemma subset_size: "distinct xs \<Longrightarrow> set xs \<subseteq> set ys \<Longrightarrow> length xs \<le> length ys"
  by (metis card_length card_mono distinct_card finite_set le_trans)

lemma list_all_disjoint:
  "list_all (\<lambda>k. k \<notin> S) xs \<longleftrightarrow> set xs \<inter> S = {}" "list_all (\<lambda>k. f k \<notin> set ys) xs \<longleftrightarrow> set ys \<inter> set (map f xs) = {}"
  by (auto simp: list_all_iff)

lemma comparisons_keys:
  assumes "om_inv so" "record_ok r"
  shows "setProto_isSubsetOf (Some so) r = Inr (Some (set (set_keys so) \<subseteq> set (record_keys r)))"
    "setProto_isSupersetOf (Some so) r = Inr (Some (set (record_keys r) \<subseteq> set (set_keys so)))"
    "setProto_isDisjointFrom (Some so) r = Inr (Some (set (set_keys so) \<inter> set (record_keys r) = {}))"
proof -
  note S = set_keys_ok[OF assms(1)] and H = record_has[OF assms(2,1)]
  have R: "distinct (record_keys r)" "sr_size r = int (length (record_keys r))"
    using assms(2) by (simp_all add: record_ok_def record_keys_def)
  show "setProto_isSubsetOf (Some so) r = Inr (Some (set (set_keys so) \<subseteq> set (record_keys r)))"
  proof (cases "sr_size r < om_size so")
    case True
    then show ?thesis using subset_size[OF S(1), of "record_keys r"] S(4) R(2)
      by (auto simp: setProto_isSubsetOf_def with_set_def)
  next
    case False
    then show ?thesis
      using keys_loop_all(1)[OF H(1)]
      by (auto simp: setProto_isSubsetOf_def with_set_def iter_loop_all[OF assms(1)] list_all_iff)
  qed
  show "setProto_isSupersetOf (Some so) r = Inr (Some (set (record_keys r) \<subseteq> set (set_keys so)))"
  proof (cases "om_size so < sr_size r")
    case True
    then show ?thesis using subset_size[OF R(1), of "set_keys so"] S(4) R(2)
      by (auto simp: setProto_isSupersetOf_def with_set_def)
  next
    case False
    then show ?thesis
      using keys_loop_all(1)[OF H(2)]
      by (auto simp: setProto_isSupersetOf_def with_set_def list_all_iff record_keys_def)
  qed
  show "setProto_isDisjointFrom (Some so) r = Inr (Some (set (set_keys so) \<inter> set (record_keys r) = {}))"
    using keys_loop_all(2)[OF H(1)] keys_loop_all(2)[OF H(2)]
    unfolding list_all_disjoint setProto_isDisjointFrom_def with_set_def iter_loop_all[OF assms(1)]
      record_keys_def by (simp only: option.case iter_loop_all[OF assms(1)] if_cancel)
qed

section \<open>Properties\<close>

text \<open>
  (C36) With an argument that describes a set (its \<^verbatim>\<open>has\<close> and \<^verbatim>\<open>keys\<close> agree, are free of effects and match its size), the four methods that build a
  Set build the mathematical result whichever side they loop over: the union, difference and symmetric difference in the order of
  the receiver followed by the argument, the intersection in the order of the receiver unless it is larger than the argument, and
  in the order of the argument then.
\<close>

theorem set_algebra_correct:
  assumes "om_inv so" "record_ok r"
  shows "(\<exists>m. setProto_union (Some so) r = Inr (Some m) \<and> om_inv m \<and>
      set_keys m = set_keys so @ filter (\<lambda>k. k \<notin> set (set_keys so)) (record_keys r)) \<and>
    (\<exists>m. setProto_intersection (Some so) r = Inr (Some m) \<and> om_inv m \<and>
      set_keys m = (if length (set_keys so) \<le> length (record_keys r) then filter (\<lambda>k. k \<in> set (record_keys r)) (set_keys so)
        else filter (\<lambda>k. k \<in> set (set_keys so)) (record_keys r))) \<and>
    (\<exists>m. setProto_difference (Some so) r = Inr (Some m) \<and> om_inv m \<and>
      set_keys m = filter (\<lambda>k. k \<notin> set (record_keys r)) (set_keys so)) \<and>
    (\<exists>m. setProto_symmetricDifference (Some so) r = Inr (Some m) \<and> om_inv m \<and>
      set_keys m = filter (\<lambda>k. k \<notin> set (record_keys r)) (set_keys so) @
        filter (\<lambda>k. k \<notin> set (set_keys so)) (record_keys r))"
proof -
  have "om_size so \<le> sr_size r \<longleftrightarrow> length (set_keys so) \<le> length (record_keys r)"
    using set_keys_ok(4) [OF assms(1)] assms(2) by (simp add: record_ok_def record_keys_def)
  then show ?thesis
    using union_keys[OF assms] intersection_keys[OF assms] difference_keys[OF assms] symmetricDifference_keys[OF assms] by simp
qed

lemma two_keys:
  assumes "canonical (VInt i)" "canonical (VInt j)" "i \<noteq> j"
  shows "\<exists>m. Option.bind (om_set (newOrderedMap hasher0) (VInt i) None) (\<lambda>m. om_set m (VInt j) None) = Some m \<and> om_inv m \<and>
    set_keys m = [VInt i, VInt j]"
proof -
  obtain m where m: "om_set (newOrderedMap hasher0) (VInt i) None = Some m" "om_inv m" "ents m = [(VInt i, None)]"
    using om_set_correct [OF om_inv_new assms(1), of hasher0 None] by (auto simp: norm_key_def)
  then show ?thesis using om_set_correct [OF m(2) assms(2), of None] assms(3) by (auto simp: norm_key_def)
qed

theorem set_algebra_correct_witness:
  "\<exists>a b m n. Option.bind (om_set (newOrderedMap hasher0) (VInt 1) None) (\<lambda>m. om_set m (VInt 2) None) = Some a \<and>
     Option.bind (om_set (newOrderedMap hasher0) (VInt 3) None) (\<lambda>m. om_set m (VInt 2) None) = Some b \<and>
     setProto_intersection (Some a) (native_record b) = Inr (Some m) \<and> set_keys m = [VInt 2] \<and>
     setProto_symmetricDifference (Some a) (native_record b) = Inr (Some n) \<and> set_keys n = [VInt 1, VInt 3]"
proof -
  have c: "canonical (VInt 1)" "canonical (VInt 2)" "canonical (VInt 3)" by (simp_all add: maxInt_def)
  obtain a where a: "Option.bind (om_set (newOrderedMap hasher0) (VInt 1) None) (\<lambda>m. om_set m (VInt 2) None) = Some a" "om_inv a"
    "set_keys a = [VInt 1, VInt 2]" using two_keys [OF c(1,2)] by auto
  obtain b where b: "Option.bind (om_set (newOrderedMap hasher0) (VInt 3) None) (\<lambda>m. om_set m (VInt 2) None) = Some b" "om_inv b"
    "set_keys b = [VInt 3, VInt 2]" using two_keys [OF c(3,2)] by auto
  have r: "record_ok (native_record b)" "record_keys (native_record b) = [VInt 3, VInt 2]"
    using native_record_ok [OF b(2)] b(3) by simp_all
  note s = set_algebra_correct [OF a(2) r(1), unfolded a(3) r(2)]
  obtain m where m: "setProto_intersection (Some a) (native_record b) = Inr (Some m)" "set_keys m = [VInt 2]" using s by auto
  obtain n where "setProto_symmetricDifference (Some a) (native_record b) = Inr (Some n)" "set_keys n = [VInt 1, VInt 3]" using s by auto
  with a(1) b(1) m show ?thesis by (intro exI conjI)
qed

text \<open>
  \<^verbatim>\<open>isSubsetOf\<close>, \<^verbatim>\<open>isSupersetOf\<close> and \<^verbatim>\<open>isDisjointFrom\<close> decide inclusion and disjointness, the early
  returns on the sizes included; any two Sets with the built-in methods are valid arguments.
\<close>

theorem set_comparisons_correct:
  assumes "om_inv a" "om_inv b"
  shows "setProto_isSubsetOf (Some a) (native_record b) = Inr (Some (set (set_keys a) \<subseteq> set (set_keys b))) \<and>
    setProto_isSupersetOf (Some a) (native_record b) = Inr (Some (set (set_keys b) \<subseteq> set (set_keys a))) \<and>
    setProto_isDisjointFrom (Some a) (native_record b) = Inr (Some (set (set_keys a) \<inter> set (set_keys b) = {}))"
proof -
  have r: "record_ok (native_record b)" "record_keys (native_record b) = set_keys b"
    using native_record_ok[OF assms(2)] by blast+
  show ?thesis using comparisons_keys[OF assms(1) r(1)] unfolding r(2) by blast
qed

theorem set_comparisons_correct_witness:
  "setProto_isSubsetOf (Some (newOrderedMap hasher0)) (native_record (newOrderedMap hasher0)) = Inr (Some True)"
  using set_comparisons_correct[OF om_inv_new om_inv_new, of hasher0 hasher0] by simp

definition env_inf :: "bool \<Rightarrow> nat env" where
  "env_inf s = env0\<lparr>e_getStr := (\<lambda>_ name. ret (Some (if name = ascii ''size'' then VFloat (f64_inf s) else VObj 1)))\<rparr>"

text \<open>
  \<^verbatim>\<open>getSetRecord\<close> takes an infinite size for 0, because \<^verbatim>\<open>toInt\<close> maps the infinities to 0: an argument
  of size negative infinity is accepted, and a non-empty Set is never found to be a subset of one of
  size infinity.
\<close>

theorem infinite_size_taken_for_zero:
  "getSetRecord ovf (env_inf s) (VObj 0) w = (Inr (0, 1, 1), w) \<and>
   (0 < om_size so \<longrightarrow> setProto_isSubsetOf (Some so) \<lparr>sr_size = 0, sr_has = h, sr_keys = ks\<rparr> = Inr (Some False))"
proof
  have "ascii ''has'' \<noteq> ascii ''size''" "ascii ''keys'' \<noteq> ascii ''size''" by (simp_all add: ascii_def)
  moreover have "\<not> f64_isnan (f64_inf s)" by simp
  ultimately show "getSetRecord ovf (env_inf s) (VObj 0) w = (Inr (0, 1, 1), w)"
    by (simp add: getSetRecord_def env_inf_def env0_def ToNumber_def toPrimitiveNumber_def toInt_def
        toMethod_def Let_def)
  show "0 < om_size so \<longrightarrow> setProto_isSubsetOf (Some so) \<lparr>sr_size = 0, sr_has = h, sr_keys = ks\<rparr> = Inr (Some False)"
    by (simp add: setProto_isSubsetOf_def with_set_def)
qed

theorem infinite_size_taken_for_zero_witness:
  "getSetRecord (\<lambda>_. 0) (env_inf True) (VObj 0) 0 = (Inr (0, 1, 1), 0) \<and>
   setProto_isSubsetOf (Some ((newOrderedMap hasher0)\<lparr>om_size := 1\<rparr>)) \<lparr>sr_size = 0, sr_has = (\<lambda>_. Some True), sr_keys = []\<rparr>
     = Inr (Some False)"
  using infinite_size_taken_for_zero[of "\<lambda>_. 0" True 0 "(newOrderedMap hasher0)\<lparr>om_size := 1\<rparr>" "\<lambda>_. Some True" "[]"]
  by simp

end
