(* ===== verification/Property.thy ===== *)
theory Property
  imports Values
begin

text \<open>
  Properties and property descriptors (object.go, value.go, proxy.go, runtime.go). A property slot of
  an object is a plain value, which stands for a writable, enumerable and configurable data property,
  or a \<^verbatim>\<open>valueProperty\<close> with explicit attributes. This theory models the validation of a descriptor
  against an existing property and its application, and relates them to the attribute-wise
  specification of ECMAScript.
\<close>

section \<open>Data\<close>

datatype Flag = FLAG_NOT_SET | FLAG_FALSE | FLAG_TRUE

definition Flag_Bool :: "Flag \<Rightarrow> bool" where "Flag_Bool f \<longleftrightarrow> f = FLAG_TRUE"

definition ToFlag :: "bool \<Rightarrow> Flag" where "ToFlag b = (if b then FLAG_TRUE else FLAG_FALSE)"

record PropertyDescriptor =
  pd_value :: "val option"
  pd_writable :: Flag
  pd_configurable :: Flag
  pd_enumerable :: Flag
  pd_getter :: "val option"
  pd_setter :: "val option"

record valueProperty =
  vp_value :: "val option"
  vp_writable :: bool
  vp_configurable :: bool
  vp_enumerable :: bool
  vp_accessor :: bool
  vp_getterFunc :: "oid option"
  vp_setterFunc :: "oid option"

datatype slot = Plain val | Prop valueProperty

definition IsAccessor :: "PropertyDescriptor \<Rightarrow> bool" where
  "IsAccessor p \<longleftrightarrow> pd_setter p \<noteq> None \<or> pd_getter p \<noteq> None"

definition IsData :: "PropertyDescriptor \<Rightarrow> bool" where
  "IsData p \<longleftrightarrow> pd_value p \<noteq> None \<or> pd_writable p \<noteq> FLAG_NOT_SET"

definition IsGeneric :: "PropertyDescriptor \<Rightarrow> bool" where
  "IsGeneric p \<longleftrightarrow> \<not> IsAccessor p \<and> \<not> IsData p"

definition orFalse :: "Flag \<Rightarrow> Flag" where
  "orFalse f = (if f = FLAG_NOT_SET then FLAG_FALSE else f)"

definition orUndef :: "val option \<Rightarrow> val option" where
  "orUndef v = (if v = None then Some VUndef else v)"

definition pd_complete :: "PropertyDescriptor \<Rightarrow> PropertyDescriptor" where
  "pd_complete p =
     (let p1 = (if pd_getter p = None \<and> pd_setter p = None
                then p\<lparr>pd_value := orUndef (pd_value p), pd_writable := orFalse (pd_writable p)\<rparr>
                else p\<lparr>pd_getter := orUndef (pd_getter p), pd_setter := orUndef (pd_setter p)\<rparr>)
      in p1\<lparr>pd_enumerable := orFalse (pd_enumerable p1), pd_configurable := orFalse (pd_configurable p1)\<rparr>)"

section \<open>Reading and writing through a property\<close>

definition isWritable :: "valueProperty \<Rightarrow> bool" where
  "isWritable p \<longleftrightarrow> vp_writable p \<or> vp_setterFunc p \<noteq> None"

text \<open>
  \<^verbatim>\<open>get\<close> and \<^verbatim>\<open>set\<close> end in a call of the accessor function, if there is one; \<open>Call f\<close> is that call, the
  other outcome the value read, or the property after the write.
\<close>

datatype 'a access = Now 'a | Call oid

definition vp_get :: "valueProperty \<Rightarrow> val access" where
  "vp_get p =
     (case vp_getterFunc p of
        None \<Rightarrow> Now (case vp_value p of Some v \<Rightarrow> v | None \<Rightarrow> VUndef)
      | Some g \<Rightarrow> Call g)"

definition vp_set :: "valueProperty \<Rightarrow> val \<Rightarrow> valueProperty access" where
  "vp_set p v =
     (case vp_setterFunc p of None \<Rightarrow> Now (p\<lparr>vp_value := Some v\<rparr>) | Some s \<Rightarrow> Call s)"

definition propToValueProp :: "slot \<Rightarrow> valueProperty" where
  "propToValueProp v =
     (case v of
        Prop p \<Rightarrow> p
      | Plain x \<Rightarrow> \<lparr>vp_value = Some x, vp_writable = True, vp_configurable = True, vp_enumerable = True,
          vp_accessor = False, vp_getterFunc = None, vp_setterFunc = None\<rparr>)"

definition valueProp :: "val \<Rightarrow> bool \<Rightarrow> bool \<Rightarrow> bool \<Rightarrow> slot" where
  "valueProp v w e c =
     (if w \<and> e \<and> c then Plain v
      else Prop \<lparr>vp_value = Some v, vp_writable = w, vp_configurable = c, vp_enumerable = e,
          vp_accessor = False, vp_getterFunc = None, vp_setterFunc = None\<rparr>)"

section \<open>Defining a property\<close>

text \<open>\<^verbatim>\<open>v.SameAs(f)\<close> where \<open>f\<close> is a function object or nil.\<close>

definition same_func :: "val \<Rightarrow> oid option \<Rightarrow> bool" where
  "same_func v f = (case f of None \<Rightarrow> False | Some x \<Rightarrow> SameAs v (VObj x))"

definition same_value :: "val \<Rightarrow> val option \<Rightarrow> bool" where
  "same_value v w = (case w of None \<Rightarrow> False | Some x \<Rightarrow> SameAs v x)"

definition func_clash :: "val option \<Rightarrow> oid option \<Rightarrow> bool" where
  "func_clash d cur =
     (case d of
        None \<Rightarrow> False
      | Some v \<Rightarrow> \<not> (v = VUndef \<and> cur = None) \<and> \<not> same_func v cur)"

definition rejects :: "PropertyDescriptor \<Rightarrow> valueProperty \<Rightarrow> bool" where
  "rejects desc current \<longleftrightarrow>
     \<not> vp_configurable current \<and>
     (pd_configurable desc = FLAG_TRUE \<or>
      (pd_enumerable desc \<noteq> FLAG_NOT_SET \<and> Flag_Bool (pd_enumerable desc) \<noteq> vp_enumerable current) \<or>
      (\<not> IsGeneric desc \<and> IsAccessor desc \<noteq> vp_accessor current) \<or>
      (if vp_accessor current
       then func_clash (pd_getter desc) (vp_getterFunc current) \<or>
            func_clash (pd_setter desc) (vp_setterFunc current)
       else \<not> vp_writable current \<and>
            (pd_writable desc = FLAG_TRUE \<or>
             (case pd_value desc of None \<Rightarrow> False | Some v \<Rightarrow> \<not> same_value v (vp_value current)))))"

definition isCompatiblePropertyDescriptor ::
  "bool \<Rightarrow> PropertyDescriptor \<Rightarrow> valueProperty option \<Rightarrow> bool \<Rightarrow> jserr + bool" where
  "isCompatiblePropertyDescriptor extensible desc current throw =
     (case current of
        None \<Rightarrow> if \<not> extensible \<and> throw then Inl TypeErr else Inr extensible
      | Some cur \<Rightarrow>
          if rejects desc cur then (if throw then Inl TypeErr else Inr False) else Inr True)"

text \<open>\<^verbatim>\<open>propGetter\<close> and \<^verbatim>\<open>propSetter\<close>: \<open>callable\<close> tells which objects are functions.\<close>

definition propGetter :: "(oid \<Rightarrow> bool) \<Rightarrow> val \<Rightarrow> jserr + oid option" where
  "propGetter callable v =
     (case v of
        VUndef \<Rightarrow> Inr None
      | VObj f \<Rightarrow> if callable f then Inr (Some f) else Inl TypeErr
      | _ \<Rightarrow> Inl TypeErr)"

definition propSetter :: "(oid \<Rightarrow> bool) \<Rightarrow> val \<Rightarrow> jserr + oid option" where
  "propSetter callable v =
     (case v of
        VUndef \<Rightarrow> Inr None
      | VObj f \<Rightarrow> if callable f then Inr (Some f) else Inl TypeErr
      | _ \<Rightarrow> Inl TypeErr)"

definition empty_property :: valueProperty where
  "empty_property = \<lparr>vp_value = None, vp_writable = False, vp_configurable = False, vp_enumerable = False,
     vp_accessor = False, vp_getterFunc = None, vp_setterFunc = None\<rparr>"

definition set_flag :: "Flag \<Rightarrow> bool \<Rightarrow> bool" where
  "set_flag f old = (if f \<noteq> FLAG_NOT_SET then Flag_Bool f else old)"

text \<open>The updates of \<^verbatim>\<open>_defineOwnProperty\<close> up to the accessor functions, then those.\<close>

definition apply_data :: "PropertyDescriptor \<Rightarrow> valueProperty \<Rightarrow> valueProperty" where
  "apply_data descr e =
     (let e1 = e\<lparr>vp_writable := set_flag (pd_writable descr) (vp_writable e),
                 vp_enumerable := set_flag (pd_enumerable descr) (vp_enumerable e),
                 vp_configurable := set_flag (pd_configurable descr) (vp_configurable e)\<rparr>;
          e2 = (if pd_value descr \<noteq> None
                then e1\<lparr>vp_value := pd_value descr, vp_getterFunc := None, vp_setterFunc := None\<rparr> else e1)
      in if pd_value descr \<noteq> None \<or> pd_writable descr \<noteq> FLAG_NOT_SET
         then e2\<lparr>vp_accessor := False\<rparr> else e2)"

definition apply_getter :: "(oid \<Rightarrow> bool) \<Rightarrow> PropertyDescriptor \<Rightarrow> valueProperty \<Rightarrow> jserr + valueProperty" where
  "apply_getter callable descr e =
     (case pd_getter descr of
        None \<Rightarrow> Inr e
      | Some g \<Rightarrow>
          (case propGetter callable g of
             Inl err \<Rightarrow> Inl err
           | Inr f \<Rightarrow> Inr (e\<lparr>vp_getterFunc := f, vp_value := None, vp_accessor := True\<rparr>)))"

definition apply_setter :: "(oid \<Rightarrow> bool) \<Rightarrow> PropertyDescriptor \<Rightarrow> valueProperty \<Rightarrow> jserr + valueProperty" where
  "apply_setter callable descr e =
     (case pd_setter descr of
        None \<Rightarrow> Inr e
      | Some s \<Rightarrow>
          (case propSetter callable s of
             Inl err \<Rightarrow> Inl err
           | Inr f \<Rightarrow> Inr (e\<lparr>vp_setterFunc := f, vp_value := None, vp_accessor := True\<rparr>)))"

definition fill_undefined :: "valueProperty \<Rightarrow> valueProperty" where
  "fill_undefined e = (if \<not> vp_accessor e \<and> vp_value e = None then e\<lparr>vp_value := Some VUndef\<rparr> else e)"

text \<open>The result \<open>Inr None\<close> is the pair \<^verbatim>\<open>(nil, false)\<close>.\<close>

definition defineOwnProperty ::
  "(oid \<Rightarrow> bool) \<Rightarrow> bool \<Rightarrow> slot option \<Rightarrow> PropertyDescriptor \<Rightarrow> bool \<Rightarrow> jserr + slot option" where
  "defineOwnProperty callable extensible existingValue descr throw =
     (let existing0 = map_option propToValueProp existingValue in
      case isCompatiblePropertyDescriptor extensible descr existing0 throw of
        Inl err \<Rightarrow> Inl err
      | Inr False \<Rightarrow> Inr None
      | Inr True \<Rightarrow>
          let existing = (case existing0 of None \<Rightarrow> empty_property | Some e \<Rightarrow> e) in
          if pd_writable descr = FLAG_TRUE \<and> pd_enumerable descr = FLAG_TRUE \<and>
             pd_configurable descr = FLAG_TRUE \<and> pd_value descr \<noteq> None
          then Inr (Some (Plain (the (pd_value descr))))
          else
            (case apply_getter callable descr (apply_data descr existing) of
               Inl err \<Rightarrow> Inl err
             | Inr e1 \<Rightarrow>
                 (case apply_setter callable descr e1 of
                    Inl err \<Rightarrow> Inl err
                  | Inr e2 \<Rightarrow> Inr (Some (Prop (fill_undefined e2))))))"


section \<open>Well-formed properties and descriptors\<close>

definition vp_ok :: "valueProperty \<Rightarrow> bool" where
  "vp_ok p \<longleftrightarrow>
     (if vp_accessor p then vp_value p = None
      else vp_value p \<noteq> None \<and> vp_getterFunc p = None \<and> vp_setterFunc p = None)"

definition slot_ok :: "slot \<Rightarrow> bool" where
  "slot_ok s \<longleftrightarrow> vp_ok (propToValueProp s)"

definition func_ok :: "(oid \<Rightarrow> bool) \<Rightarrow> val option \<Rightarrow> bool" where
  "func_ok callable v = (case v of None \<Rightarrow> True | Some VUndef \<Rightarrow> True | Some (VObj f) \<Rightarrow> callable f | _ \<Rightarrow> False)"

text \<open>What the conversion of an object to a descriptor guarantees.\<close>

definition desc_ok :: "(oid \<Rightarrow> bool) \<Rightarrow> PropertyDescriptor \<Rightarrow> bool" where
  "desc_ok callable d \<longleftrightarrow> \<not> (IsAccessor d \<and> IsData d) \<and>
     func_ok callable (pd_getter d) \<and> func_ok callable (pd_setter d)"

definition func_of :: "val option \<Rightarrow> oid option" where
  "func_of v = (case v of Some (VObj f) \<Rightarrow> Some f | _ \<Rightarrow> None)"

lemma propGetter_ok: "func_ok callable (Some v) \<Longrightarrow> propGetter callable v = Inr (func_of (Some v))"
  by (cases v) (simp_all add: func_ok_def propGetter_def func_of_def)

lemma propSetter_ok: "func_ok callable (Some v) \<Longrightarrow> propSetter callable v = Inr (func_of (Some v))"
  by (cases v) (simp_all add: func_ok_def propSetter_def func_of_def)

text \<open>The property after the definition, with all branches of the code in one expression.\<close>

definition defined :: "PropertyDescriptor \<Rightarrow> valueProperty \<Rightarrow> valueProperty" where
  "defined d e =
     fill_undefined
       (let e1 = apply_data d e;
            e2 = (if pd_getter d \<noteq> None
                  then e1\<lparr>vp_getterFunc := func_of (pd_getter d), vp_value := None, vp_accessor := True\<rparr> else e1)
        in if pd_setter d \<noteq> None
           then e2\<lparr>vp_setterFunc := func_of (pd_setter d), vp_value := None, vp_accessor := True\<rparr> else e2)"

lemma apply_accessors:
  assumes "desc_ok callable d"
  shows "(case apply_getter callable d (apply_data d e) of
      Inl err \<Rightarrow> Inl err
    | Inr e1 \<Rightarrow> (case apply_setter callable d e1 of
        Inl err \<Rightarrow> Inl err
      | Inr e2 \<Rightarrow> Inr (Some (Prop (fill_undefined e2))))) = Inr (Some (Prop (defined d e)))"
  using assms propGetter_ok[of callable] propSetter_ok[of callable]
  by (cases "pd_getter d"; cases "pd_setter d")
    (simp_all add: apply_getter_def apply_setter_def desc_ok_def defined_def Let_def)

lemma defineOwnProperty_cases:
  assumes "desc_ok callable d" "defineOwnProperty callable ext old d throw = Inr (Some s')"
  shows "\<not> (\<exists>o'. old = Some o' \<and> rejects d (propToValueProp o'))" "old = None \<Longrightarrow> ext"
    "propToValueProp s' =
       (let e = (case old of None \<Rightarrow> empty_property | Some o' \<Rightarrow> propToValueProp o') in
        if pd_writable d = FLAG_TRUE \<and> pd_enumerable d = FLAG_TRUE \<and> pd_configurable d = FLAG_TRUE \<and>
           pd_value d \<noteq> None
        then propToValueProp (Plain (the (pd_value d))) else defined d e)"
proof -
  have c: "isCompatiblePropertyDescriptor ext d (map_option propToValueProp old) throw = Inr True"
    using assms(2) by (auto simp: defineOwnProperty_def Let_def split: sum.splits bool.splits)
  then show "\<not> (\<exists>o'. old = Some o' \<and> rejects d (propToValueProp o'))" "old = None \<Longrightarrow> ext"
    by (auto simp: isCompatiblePropertyDescriptor_def split: if_splits)
  show "propToValueProp s' =
       (let e = (case old of None \<Rightarrow> empty_property | Some o' \<Rightarrow> propToValueProp o') in
        if pd_writable d = FLAG_TRUE \<and> pd_enumerable d = FLAG_TRUE \<and> pd_configurable d = FLAG_TRUE \<and>
           pd_value d \<noteq> None
        then propToValueProp (Plain (the (pd_value d))) else defined d e)"
    using assms(2) c apply_accessors[OF assms(1)]
    by (cases old) (auto simp: defineOwnProperty_def Let_def propToValueProp_def split: if_splits)
qed

lemma set_flag_simps [simp]:
  "set_flag FLAG_NOT_SET b = b" "set_flag FLAG_TRUE b = True" "set_flag FLAG_FALSE b = False"
  by (simp_all add: set_flag_def Flag_Bool_def)

lemma defined_attributes:
  "vp_enumerable (defined d e) = set_flag (pd_enumerable d) (vp_enumerable e)"
  "vp_configurable (defined d e) = set_flag (pd_configurable d) (vp_configurable e)"
  "vp_writable (defined d e) = set_flag (pd_writable d) (vp_writable e)"
  "vp_accessor (defined d e) = (IsAccessor d \<or> vp_accessor e \<and> \<not> IsData d)"
  "vp_getterFunc (defined d e) =
     (if pd_getter d \<noteq> None then func_of (pd_getter d) else if pd_value d \<noteq> None then None else vp_getterFunc e)"
  "vp_setterFunc (defined d e) =
     (if pd_setter d \<noteq> None then func_of (pd_setter d) else if pd_value d \<noteq> None then None else vp_setterFunc e)"
  "vp_value (defined d e) =
     (if IsAccessor d then None
      else if pd_value d \<noteq> None then pd_value d
      else if vp_value e = None \<and> (\<not> vp_accessor e \<or> IsData d) then Some VUndef else vp_value e)"
  unfolding defined_def fill_undefined_def apply_data_def Let_def IsAccessor_def IsData_def
  by (cases "pd_getter d"; cases "pd_setter d"; cases "pd_value d"; cases "pd_writable d"; simp)+

section \<open>The specification of validation\<close>

text \<open>
  The conditions under which ECMAScript's ValidateAndApplyPropertyDescriptor rejects a change of an
  existing property, in the order of the standard.
\<close>

definition es_same_func :: "val option \<Rightarrow> oid option \<Rightarrow> bool" where
  "es_same_func d cur = (case d of None \<Rightarrow> True | Some v \<Rightarrow> func_of (Some v) = cur)"

definition es_rejects :: "PropertyDescriptor \<Rightarrow> valueProperty \<Rightarrow> bool" where
  "es_rejects d cur =
     (if vp_configurable cur then False
      else if pd_configurable d = FLAG_TRUE then True
      else if pd_enumerable d \<noteq> FLAG_NOT_SET \<and> pd_enumerable d \<noteq> ToFlag (vp_enumerable cur) then True
      else if IsGeneric d then False
      else if IsAccessor d \<noteq> vp_accessor cur then True
      else if vp_accessor cur then
        \<not> es_same_func (pd_getter d) (vp_getterFunc cur) \<or> \<not> es_same_func (pd_setter d) (vp_setterFunc cur)
      else if vp_writable cur then False
      else pd_writable d = FLAG_TRUE \<or>
           (\<exists>v w. pd_value d = Some v \<and> vp_value cur = Some w \<and> \<not> SameAs v w))"

lemma func_clash_es:
  assumes "func_ok callable d"
  shows "func_clash d cur \<longleftrightarrow> \<not> es_same_func d cur"
proof (cases d)
  case (Some v)
  then show ?thesis
    using assms
    by (cases v; cases cur)
      (auto simp: func_clash_def es_same_func_def func_of_def same_func_def func_ok_def Object_StrictEquals_def)
qed (simp add: func_clash_def es_same_func_def)

lemma rejects_es:
  assumes "desc_ok callable d" "vp_ok cur"
  shows "rejects d cur \<longleftrightarrow> es_rejects d cur"
proof -
  have fl: "pd_enumerable d \<noteq> FLAG_NOT_SET \<Longrightarrow>
      (Flag_Bool (pd_enumerable d) \<noteq> vp_enumerable cur) = (pd_enumerable d \<noteq> ToFlag (vp_enumerable cur))"
    by (cases "pd_enumerable d") (auto simp: Flag_Bool_def ToFlag_def)
  have fc: "func_clash (pd_getter d) f \<longleftrightarrow> \<not> es_same_func (pd_getter d) f"
    "func_clash (pd_setter d) f \<longleftrightarrow> \<not> es_same_func (pd_setter d) f" for f
    using assms(1) func_clash_es[of callable] by (auto simp: desc_ok_def)
  have v: "(case pd_value d of None \<Rightarrow> False | Some v \<Rightarrow> \<not> same_value v (vp_value cur)) =
      (\<exists>v w. pd_value d = Some v \<and> vp_value cur = Some w \<and> \<not> SameAs v w)" if "\<not> vp_accessor cur"
    using assms(2) that by (auto simp: vp_ok_def same_value_def split: option.splits)
  have g: "es_same_func (pd_getter d) f" "es_same_func (pd_setter d) f" "pd_value d = None"
    "pd_writable d \<noteq> FLAG_TRUE" if "IsGeneric d" for f
    using that by (auto simp: IsGeneric_def IsAccessor_def IsData_def es_same_func_def)
  show ?thesis
    unfolding rejects_def es_rejects_def fc using fl v g by (auto split: option.splits)
qed



section \<open>Properties\<close>

text \<open>
  (C14) The validation of a descriptor against an existing property rejects exactly the changes that
  ECMAScript's ValidateAndApplyPropertyDescriptor rejects, and a new property is allowed exactly on an
  extensible object; a rejection is an error when the caller asked to throw.
\<close>

theorem validation_meets_specification:
  assumes "desc_ok callable d" "\<forall>cur. current = Some cur \<longrightarrow> vp_ok cur"
  shows "isCompatiblePropertyDescriptor ext d current throw =
    (let accepted = (case current of None \<Rightarrow> ext | Some cur \<Rightarrow> \<not> es_rejects d cur) in
     if accepted then Inr True else if throw then Inl TypeErr else Inr False)"
  using assms rejects_es[OF assms(1)]
  by (cases current) (auto simp: isCompatiblePropertyDescriptor_def Let_def)

definition data_desc :: "val \<Rightarrow> PropertyDescriptor" where
  "data_desc v = \<lparr>pd_value = Some v, pd_writable = FLAG_NOT_SET, pd_configurable = FLAG_NOT_SET,
     pd_enumerable = FLAG_NOT_SET, pd_getter = None, pd_setter = None\<rparr>"

definition frozen_property :: "val \<Rightarrow> valueProperty" where
  "frozen_property v = empty_property\<lparr>vp_value := Some v\<rparr>"

theorem validation_meets_specification_witness:
  "desc_ok (\<lambda>_. False) (data_desc (VInt 2)) \<and> vp_ok (frozen_property (VInt 1)) \<and>
   isCompatiblePropertyDescriptor True (data_desc (VInt 2)) (Some (frozen_property (VInt 1))) True = Inl TypeErr"
proof -
  have d: "desc_ok (\<lambda>_. False) (data_desc (VInt 2))"
    by (simp add: desc_ok_def data_desc_def IsAccessor_def func_ok_def)
  have v: "vp_ok (frozen_property (VInt 1))" by (simp add: vp_ok_def frozen_property_def empty_property_def)
  have "es_rejects (data_desc (VInt 2)) (frozen_property (VInt 1))"
    by (simp add: es_rejects_def data_desc_def frozen_property_def empty_property_def IsGeneric_def
        IsAccessor_def IsData_def valueInt_SameAs_def)
  then show ?thesis
    using d v validation_meets_specification[OF d, of "Some (frozen_property (VInt 1))" True True]
    by (simp add: Let_def)
qed



text \<open>
  Defining a property keeps properties well-formed (a data property has a value and no functions,
  an accessor no value) in every case but one: turning an accessor into a data property by giving only
  the writable attribute.
\<close>

theorem define_keeps_wellformed:
  assumes "desc_ok callable d" "\<forall>o'. old = Some o' \<longrightarrow> slot_ok o'"
    "defineOwnProperty callable ext old d throw = Inr (Some s')"
    "\<forall>o'. old = Some o' \<and> vp_accessor (propToValueProp o') \<and> IsData d \<longrightarrow> pd_value d \<noteq> None"
  shows "slot_ok s'"
proof -
  note C = defineOwnProperty_cases(3)[OF assms(1,3)]
  define e where "e = (case old of None \<Rightarrow> empty_property | Some o' \<Rightarrow> propToValueProp o')"
  have e: "vp_accessor e \<longrightarrow> vp_value e = None" "\<not> vp_accessor e \<longrightarrow> vp_getterFunc e = None \<and> vp_setterFunc e = None"
    "vp_accessor e \<and> IsData d \<longrightarrow> pd_value d \<noteq> None"
    using assms(2,4) by (auto simp: e_def slot_ok_def vp_ok_def empty_property_def split: option.splits)
  have ex: "\<not> (IsAccessor d \<and> IsData d)" using assms(1) by (simp add: desc_ok_def)
  have "vp_ok (defined d e)"
    unfolding vp_ok_def defined_attributes using e ex
    by (cases "vp_accessor e"; cases "IsData d"; cases "IsAccessor d") (auto simp: IsData_def IsAccessor_def)
  moreover have "vp_ok (propToValueProp (Plain v))" for v by (simp add: vp_ok_def propToValueProp_def)
  ultimately show ?thesis unfolding slot_ok_def C Let_def e_def[symmetric] by (cases old) auto
qed

theorem define_keeps_wellformed_witness:
  "\<exists>s'. defineOwnProperty (\<lambda>_. False) True None (data_desc (VInt 1)) False = Inr (Some s') \<and> slot_ok s'"
proof -
  have d: "desc_ok (\<lambda>_. False) (data_desc (VInt 1))"
    by (simp add: desc_ok_def data_desc_def IsAccessor_def func_ok_def)
  have r: "defineOwnProperty (\<lambda>_. False) True None (data_desc (VInt 1)) False = Inr (Some (Prop (frozen_property (VInt 1))))"
    by (simp add: defineOwnProperty_def isCompatiblePropertyDescriptor_def data_desc_def frozen_property_def
        empty_property_def apply_getter_def apply_setter_def apply_data_def fill_undefined_def Let_def)
  show ?thesis using define_keeps_wellformed[OF d _ r] r by simp
qed

definition writable_desc :: PropertyDescriptor where
  "writable_desc = \<lparr>pd_value = None, pd_writable = FLAG_TRUE, pd_configurable = FLAG_NOT_SET,
     pd_enumerable = FLAG_NOT_SET, pd_getter = None, pd_setter = None\<rparr>"

definition getter_desc :: "oid \<Rightarrow> PropertyDescriptor" where
  "getter_desc g = \<lparr>pd_value = None, pd_writable = FLAG_NOT_SET, pd_configurable = FLAG_NOT_SET,
     pd_enumerable = FLAG_NOT_SET, pd_getter = Some (VObj g), pd_setter = None\<rparr>"

text \<open>
  The exceptional case: after giving only the writable attribute to a configurable accessor, the
  property counts as a data property with the value undefined, but reading it still calls the old
  getter. Conversely, giving a getter to an ordinary data property leaves it writable: an assignment to
  it succeeds and stores a value nobody can read, where there is no setter to call.
\<close>

theorem stale_accessor_parts:
  "callable g \<Longrightarrow>
   (\<exists>p. defineOwnProperty callable ext
         (Some (Prop (empty_property\<lparr>vp_configurable := True, vp_accessor := True, vp_getterFunc := Some g\<rparr>)))
         writable_desc throw = Inr (Some (Prop p)) \<and>
      \<not> vp_accessor p \<and> vp_value p = Some VUndef \<and> vp_get p = Call g) \<and>
   (\<exists>p. defineOwnProperty callable ext (Some (Plain v)) (getter_desc g) throw = Inr (Some (Prop p)) \<and>
      vp_accessor p \<and> vp_setterFunc p = None \<and> isWritable p \<and> vp_set p w = Now (p\<lparr>vp_value := Some w\<rparr>))"
  by (simp add: defineOwnProperty_def isCompatiblePropertyDescriptor_def rejects_def propToValueProp_def
      writable_desc_def getter_desc_def empty_property_def apply_getter_def apply_setter_def apply_data_def
      fill_undefined_def propGetter_def vp_get_def vp_set_def isWritable_def Let_def)

theorem stale_accessor_parts_witness:
  "\<exists>p. defineOwnProperty (\<lambda>_. True) True (Some (Plain (VInt 1))) (getter_desc 7) True = Inr (Some (Prop p)) \<and>
     vp_accessor p \<and> isWritable p"
  using stale_accessor_parts[of "\<lambda>_. True" 7 True True "VInt 1"] by blast

end
