(* ===== verification/Objects.thy ===== *)
theory Objects
  imports Property "HOL-Library.Multiset"
begin

text \<open>
  Ordinary objects (\<^verbatim>\<open>baseObject\<close> in object.go): string-keyed own properties with their order, the
  prototype chain, and the internal methods get, has, set, delete, define and setting the prototype.
  Objects live in a heap. A read or a write ends in a value, in a call of an accessor function, or at a
  proxy, whose handler decides; the loops over the chain are partial functions that have no value if
  the chain never ends.
\<close>

section \<open>The heap\<close>

record baseObject =
  prototype :: "oid option"
  extensible :: bool
  propValues :: "ustr \<Rightarrow> slot option"
  propNames :: "ustr list"
  lastSortedPropLen :: nat
  idxPropCount :: nat
  is_proxy :: bool

type_synonym heap = "oid \<Rightarrow> baseObject option"

abbreviation obj :: "heap \<Rightarrow> oid \<Rightarrow> baseObject" where "obj h x \<equiv> the (h x)"

datatype 'a outcome =
    Done 'a
  | Throw jserr
  | CallGetter oid val
  | CallSetter oid val val
  | Delegate oid

definition reject :: "bool \<Rightarrow> bool outcome" where
  "reject throw = (if throw then Throw TypeErr else Done False)"

section \<open>Own properties\<close>

definition getOwnPropStr :: "heap \<Rightarrow> oid \<Rightarrow> ustr \<Rightarrow> slot option" where
  "getOwnPropStr h x name = propValues (obj h x) name"

definition hasOwnPropertyStr :: "heap \<Rightarrow> oid \<Rightarrow> ustr \<Rightarrow> bool" where
  "hasOwnPropertyStr h x name \<longleftrightarrow> propValues (obj h x) name \<noteq> None"

definition bo_put :: "ustr \<Rightarrow> slot \<Rightarrow> baseObject \<Rightarrow> baseObject" where
  "bo_put name v b =
     (let b1 = (if propValues b name = None then b\<lparr>propNames := propNames b @ [name]\<rparr> else b)
      in b1\<lparr>propValues := (propValues b1)(name \<mapsto> v)\<rparr>)"

text \<open>The first position of a name, as the loop of \<^verbatim>\<open>_delete\<close> finds it.\<close>

fun find_name :: "ustr \<Rightarrow> ustr list \<Rightarrow> nat \<Rightarrow> nat option" where
  "find_name name [] i = None"
| "find_name name (n # ns) i = (if n = name then Some i else find_name name ns (Suc i))"

definition bo_delete :: "ustr \<Rightarrow> baseObject \<Rightarrow> baseObject" where
  "bo_delete name b =
     (let b1 = b\<lparr>propValues := (propValues b)(name := None)\<rparr> in
      case find_name name (propNames b) 0 of
        None \<Rightarrow> b1
      | Some i \<Rightarrow>
          let b2 = b1\<lparr>propNames := remove_at i (propNames b)\<rparr> in
          if i < lastSortedPropLen b
          then let b3 = b2\<lparr>lastSortedPropLen := lastSortedPropLen b - 1\<rparr> in
               if i < idxPropCount b then b3\<lparr>idxPropCount := idxPropCount b - 1\<rparr> else b3
          else b2)"

definition checkDeleteProp :: "valueProperty \<Rightarrow> bool \<Rightarrow> bool outcome" where
  "checkDeleteProp p throw = (if \<not> vp_configurable p then reject throw else Done True)"

definition checkDelete :: "slot \<Rightarrow> bool \<Rightarrow> bool outcome" where
  "checkDelete v throw = (case v of Prop p \<Rightarrow> checkDeleteProp p throw | Plain _ \<Rightarrow> Done True)"

definition upd_obj :: "heap \<Rightarrow> oid \<Rightarrow> (baseObject \<Rightarrow> baseObject) \<Rightarrow> heap" where
  "upd_obj h x f = h(x \<mapsto> f (obj h x))"

definition deleteStr :: "heap \<Rightarrow> oid \<Rightarrow> ustr \<Rightarrow> bool \<Rightarrow> bool outcome \<times> heap" where
  "deleteStr h x name throw =
     (case propValues (obj h x) name of
        None \<Rightarrow> (Done True, h)
      | Some v \<Rightarrow>
          (case checkDelete v throw of
             Done True \<Rightarrow> (Done True, upd_obj h x (bo_delete name))
           | r \<Rightarrow> (r, h)))"

definition defineOwnPropertyStr ::
  "(oid \<Rightarrow> bool) \<Rightarrow> heap \<Rightarrow> oid \<Rightarrow> ustr \<Rightarrow> PropertyDescriptor \<Rightarrow> bool \<Rightarrow> bool outcome \<times> heap" where
  "defineOwnPropertyStr callable h x name descr throw =
     (case defineOwnProperty callable (extensible (obj h x)) (propValues (obj h x) name) descr throw of
        Inl err \<Rightarrow> (Throw err, h)
      | Inr None \<Rightarrow> (Done False, h)
      | Inr (Some v) \<Rightarrow> (Done True, upd_obj h x (bo_put name v)))"

definition preventExtensions :: "heap \<Rightarrow> oid \<Rightarrow> heap" where
  "preventExtensions h x = upd_obj h x (extensible_update (\<lambda>_. False))"

section \<open>The prototype chain\<close>

text \<open>
  A receiver of \<open>None\<close> is the nil of the code: the accessor is then called with the object where the
  search began.
\<close>

definition get_prop :: "slot \<Rightarrow> val \<Rightarrow> val option outcome" where
  "get_prop s this =
     (case s of
        Plain v \<Rightarrow> Done (Some v)
      | Prop p \<Rightarrow> (case vp_get p of Now v \<Rightarrow> Done (Some v) | Call g \<Rightarrow> CallGetter g this))"

partial_function (option) getStr :: "heap \<Rightarrow> oid \<Rightarrow> ustr \<Rightarrow> val option \<Rightarrow> val option outcome option" where
  "getStr h x name receiver =
     (case h x of
        None \<Rightarrow> None
      | Some b \<Rightarrow>
          if is_proxy b then Some (Delegate x)
          else
            let this = (case receiver of None \<Rightarrow> VObj x | Some r \<Rightarrow> r) in
            (case propValues b name of
               Some s \<Rightarrow> Some (get_prop s this)
             | None \<Rightarrow>
                 (case prototype b of
                    None \<Rightarrow> Some (Done None)
                  | Some p \<Rightarrow> getStr h p name (Some this))))"

partial_function (option) hasPropertyStr :: "heap \<Rightarrow> oid \<Rightarrow> ustr \<Rightarrow> bool outcome option" where
  "hasPropertyStr h x name =
     (case h x of
        None \<Rightarrow> None
      | Some b \<Rightarrow>
          if is_proxy b then Some (Delegate x)
          else if hasOwnPropertyStr h x name then Some (Done True)
          else
            (case prototype b of
               None \<Rightarrow> Some (Done False)
             | Some p \<Rightarrow> hasPropertyStr h p name))"

partial_function (option) hasAndGetStr :: "heap \<Rightarrow> oid \<Rightarrow> ustr \<Rightarrow> val option \<Rightarrow> val option outcome option" where
  "hasAndGetStr h x name receiver =
     (case h x of
        None \<Rightarrow> None
      | Some b \<Rightarrow>
          if is_proxy b then Some (Delegate x)
          else
            let this = (case receiver of None \<Rightarrow> VObj x | Some r \<Rightarrow> r) in
            (case propValues b name of
               Some (Prop p) \<Rightarrow>
                 (case vp_getterFunc p of
                    None \<Rightarrow> Some (Done (Some (case vp_value p of None \<Rightarrow> VUndef | Some v \<Rightarrow> v)))
                  | Some g \<Rightarrow> Some (CallGetter g this))
             | Some (Plain v) \<Rightarrow> Some (Done (Some v))
             | None \<Rightarrow>
                 (case prototype b of
                    None \<Rightarrow> Some (Done None)
                  | Some p \<Rightarrow> hasAndGetStr h p name (Some this))))"

text \<open>
  \<^verbatim>\<open>setOwnStr\<close> and \<^verbatim>\<open>setForeignStr\<close> call each other along the chain; \<open>set_walk\<close> is both, with \<open>own\<close>
  selecting the first. Its first result is \<open>None\<close> when the search ended without handling the
  assignment (the second result \<^verbatim>\<open>false\<close> of \<^verbatim>\<open>setForeignStr\<close>).
\<close>

definition add_property :: "heap \<Rightarrow> oid \<Rightarrow> ustr \<Rightarrow> val \<Rightarrow> bool \<Rightarrow> bool outcome \<times> heap" where
  "add_property h x name v throw =
     (if \<not> extensible (obj h x) then (reject throw, h)
      else (Done True, upd_obj h x (bo_put name (Plain v))))"

definition write_own :: "heap \<Rightarrow> oid \<Rightarrow> ustr \<Rightarrow> slot \<Rightarrow> val \<Rightarrow> bool \<Rightarrow> bool outcome \<times> heap" where
  "write_own h x name s v throw =
     (case s of
        Plain _ \<Rightarrow> (Done True, upd_obj h x (\<lambda>b. b\<lparr>propValues := (propValues b)(name \<mapsto> Plain v)\<rparr>))
      | Prop p \<Rightarrow>
          if \<not> isWritable p then (reject throw, h)
          else
            (case vp_set p v of
               Call f \<Rightarrow> (CallSetter f (VObj x) v, h)
             | Now p' \<Rightarrow> (Done True, upd_obj h x (\<lambda>b. b\<lparr>propValues := (propValues b)(name \<mapsto> Prop p')\<rparr>))))"

partial_function (option) set_walk ::
  "heap \<Rightarrow> bool \<Rightarrow> oid \<Rightarrow> ustr \<Rightarrow> val \<Rightarrow> val \<Rightarrow> bool \<Rightarrow> (bool outcome option \<times> heap) option" where
  "set_walk h own x name v receiver throw =
     (case h x of
        None \<Rightarrow> None
      | Some b \<Rightarrow>
          if is_proxy b then Some (Some (Delegate x), h)
          else if own then
            (case propValues b name of
               Some s \<Rightarrow> Some (case write_own h x name s v throw of (r, h') \<Rightarrow> (Some r, h'))
             | None \<Rightarrow>
                 (case prototype b of
                    None \<Rightarrow> Some (case add_property h x name v throw of (r, h') \<Rightarrow> (Some r, h'))
                  | Some p \<Rightarrow>
                      Option.bind (set_walk h False p name v (VObj x) throw) (\<lambda>(r, h').
                        Some (case r of
                          Some r' \<Rightarrow> (Some r', h')
                        | None \<Rightarrow> (case add_property h' x name v throw of (r', h'') \<Rightarrow> (Some r', h''))))))
          else
            (case propValues b name of
               Some (Prop p) \<Rightarrow>
                 if \<not> isWritable p then Some (Some (reject throw), h)
                 else (case vp_setterFunc p of
                         Some f \<Rightarrow> Some (Some (CallSetter f receiver v), h)
                       | None \<Rightarrow> Some (None, h))
             | Some (Plain _) \<Rightarrow> Some (None, h)
             | None \<Rightarrow>
                 (case prototype b of
                    None \<Rightarrow> Some (None, h)
                  | Some p \<Rightarrow>
                      if receiver \<noteq> VObj p then set_walk h False p name v receiver throw
                      else set_walk h True p name v (VObj p) throw)))"

definition setOwnStr :: "heap \<Rightarrow> oid \<Rightarrow> ustr \<Rightarrow> val \<Rightarrow> bool \<Rightarrow> (bool outcome \<times> heap) option" where
  "setOwnStr h x name v throw =
     map_option (\<lambda>(r, h'). (case r of Some r' \<Rightarrow> r' | None \<Rightarrow> Done False, h')) (set_walk h True x name v (VObj x) throw)"

definition setForeignStr ::
  "heap \<Rightarrow> oid \<Rightarrow> ustr \<Rightarrow> val \<Rightarrow> val \<Rightarrow> bool \<Rightarrow> (bool outcome option \<times> heap) option" where
  "setForeignStr h x name v receiver throw = set_walk h False x name v receiver throw"

text \<open>\<^verbatim>\<open>Object.setStr\<close>: assignment with an explicit receiver (Reflect.set, super properties).\<close>

definition full_desc :: "val \<Rightarrow> PropertyDescriptor" where
  "full_desc v = \<lparr>pd_value = Some v, pd_writable = FLAG_TRUE, pd_configurable = FLAG_TRUE,
     pd_enumerable = FLAG_TRUE, pd_getter = None, pd_setter = None\<rparr>"

definition value_desc :: "val \<Rightarrow> PropertyDescriptor" where
  "value_desc v = \<lparr>pd_value = Some v, pd_writable = FLAG_NOT_SET, pd_configurable = FLAG_NOT_SET,
     pd_enumerable = FLAG_NOT_SET, pd_getter = None, pd_setter = None\<rparr>"

definition setStr ::
  "(oid \<Rightarrow> bool) \<Rightarrow> heap \<Rightarrow> oid \<Rightarrow> ustr \<Rightarrow> val \<Rightarrow> val \<Rightarrow> bool \<Rightarrow> (bool outcome \<times> heap) option" where
  "setStr callable h x name v receiver throw =
     (if receiver = VObj x then setOwnStr h x name v throw
      else
        (case setForeignStr h x name v receiver throw of
           None \<Rightarrow> None
         | Some (Some res, h') \<Rightarrow> Some (res, h')
         | Some (None, h') \<Rightarrow>
             (case receiver of
                VObj robj \<Rightarrow>
                  (case getOwnPropStr h' robj name of
                     Some (Prop desc) \<Rightarrow>
                       if vp_accessor desc then Some (reject throw, h')
                       else if \<not> vp_writable desc then Some (reject throw, h')
                       else Some (defineOwnPropertyStr callable h' robj name (value_desc v) throw)
                   | Some (Plain _) \<Rightarrow> Some (defineOwnPropertyStr callable h' robj name (value_desc v) throw)
                   | None \<Rightarrow> Some (defineOwnPropertyStr callable h' robj name (full_desc v) throw))
              | _ \<Rightarrow> Some (reject throw, h'))))"

section \<open>Setting the prototype\<close>

text \<open>The search of \<^verbatim>\<open>setProto\<close> for the object on the chain of its new prototype; it stops at a proxy.\<close>

partial_function (option) on_chain :: "heap \<Rightarrow> oid \<Rightarrow> oid option \<Rightarrow> bool option" where
  "on_chain h x p =
     (case p of
        None \<Rightarrow> Some False
      | Some q \<Rightarrow>
          if q = x then Some True
          else (case h q of
                  None \<Rightarrow> None
                | Some b \<Rightarrow> if is_proxy b then Some False else on_chain h x (prototype b)))"

definition setProto :: "oid \<Rightarrow> heap \<Rightarrow> oid \<Rightarrow> oid option \<Rightarrow> bool \<Rightarrow> (bool outcome \<times> heap) option" where
  "setProto ObjectPrototype h x proto throw =
     (if prototype (obj h x) = proto then Some (Done True, h)
      else if x = ObjectPrototype then Some (reject throw, h)
      else if \<not> extensible (obj h x) then Some (reject throw, h)
      else
        (case on_chain h x proto of
           None \<Rightarrow> None
         | Some True \<Rightarrow> Some (reject throw, h)
         | Some False \<Rightarrow> Some (Done True, upd_obj h x (prototype_update (\<lambda>_. proto)))))"

section \<open>Order of the keys\<close>

text \<open>One step of the loop of \<^verbatim>\<open>fixPropOrder\<close> at position \<open>i\<close>: names and the number of index names.\<close>

definition fix_step :: "nat \<Rightarrow> ustr list \<times> nat \<Rightarrow> ustr list \<times> nat" where
  "fix_step i st =
     (case st of (names, cnt) \<Rightarrow>
        let name = names ! i; idx = strToArrayIdx name in
        if idx \<noteq> MaxUint32 then
          let k = sort_Search cnt (\<lambda>j. idx \<le> strToArrayIdx (names ! j)) in
          (if k < i then take k names @ name # drop k (take i names) @ drop (Suc i) names else names, Suc cnt)
        else st)"

definition fixPropOrder :: "baseObject \<Rightarrow> baseObject" where
  "fixPropOrder b =
     (case foldl (\<lambda>st i. fix_step i st) (propNames b, idxPropCount b)
             [lastSortedPropLen b ..< length (propNames b)] of
        (names, cnt) \<Rightarrow> b\<lparr>propNames := names, idxPropCount := cnt, lastSortedPropLen := length names\<rparr>)"

definition ensurePropOrder :: "baseObject \<Rightarrow> baseObject" where
  "ensurePropOrder b = (if lastSortedPropLen b < length (propNames b) then fixPropOrder b else b)"

definition stringKeys :: "bool \<Rightarrow> baseObject \<Rightarrow> ustr list \<times> baseObject" where
  "stringKeys all b =
     (let b1 = ensurePropOrder b in
      (if all then propNames b1
       else filter (\<lambda>k. case propValues b1 k of Some (Prop p) \<Rightarrow> vp_enumerable p | _ \<Rightarrow> True) (propNames b1), b1))"


section \<open>Chains without cycles\<close>

text \<open>The chain relation of ordinary objects; a proxy decides itself where a search continues.\<close>

definition chain :: "heap \<Rightarrow> (oid \<times> oid) set" where
  "chain h = {(p, x). \<exists>b. h x = Some b \<and> \<not> is_proxy b \<and> prototype b = Some p}"

definition heap_ok :: "heap \<Rightarrow> bool" where
  "heap_ok h \<longleftrightarrow> wf (chain h) \<and> (\<forall>x b p. h x = Some b \<and> prototype b = Some p \<longrightarrow> h p \<noteq> None)"

datatype resolution = Found oid slot | Missing | AtProxy oid

inductive resolve :: "heap \<Rightarrow> ustr \<Rightarrow> oid \<Rightarrow> resolution \<Rightarrow> bool" for h name where
  Own: "h x = Some b \<Longrightarrow> \<not> is_proxy b \<Longrightarrow> propValues b name = Some s \<Longrightarrow> resolve h name x (Found x s)"
| Up: "h x = Some b \<Longrightarrow> \<not> is_proxy b \<Longrightarrow> propValues b name = None \<Longrightarrow> prototype b = Some p \<Longrightarrow>
    resolve h name p r \<Longrightarrow> resolve h name x r"
| Top: "h x = Some b \<Longrightarrow> \<not> is_proxy b \<Longrightarrow> propValues b name = None \<Longrightarrow> prototype b = None \<Longrightarrow>
    resolve h name x Missing"
| Proxy: "h x = Some b \<Longrightarrow> is_proxy b \<Longrightarrow> resolve h name x (AtProxy x)"

inductive_cases resolve_cases: "resolve h name x r"

lemma resolve_exists:
  assumes "heap_ok h" "h x \<noteq> None"
  shows "\<exists>r. resolve h name x r"
proof -
  have "wf (chain h)" using assms(1) by (simp add: heap_ok_def)
  then show ?thesis using assms(2)
  proof (induction x rule: wf_induct_rule)
    case (less x)
    then obtain b where b: "h x = Some b" by blast
    show ?case
    proof (cases "is_proxy b \<or> propValues b name \<noteq> None \<or> prototype b = None")
      case True
      then consider "is_proxy b" | s where "\<not> is_proxy b" "propValues b name = Some s"
        | "\<not> is_proxy b" "propValues b name = None" "prototype b = None" by auto
      then show ?thesis
      proof cases
        case 1
        then show ?thesis using resolve.Proxy[of h x b, OF b] by blast
      next
        case 2
        then show ?thesis using resolve.Own[of h x b, OF b] by blast
      next
        case 3
        then show ?thesis using resolve.Top[of h x b, OF b] by blast
      qed
    next
      case False
      then obtain p where p: "prototype b = Some p" by auto
      then have "(p, x) \<in> chain h" using b False by (auto simp: chain_def)
      moreover have "h p \<noteq> None" using assms(1) b p by (auto simp: heap_ok_def)
      ultimately obtain r where "resolve h name p r" using less.IH by blast
      then show ?thesis using resolve.Up[of h x b, OF b _ _ p] False by blast
    qed
  qed
qed

lemma resolve_unique: "resolve h name x r \<Longrightarrow> resolve h name x r' \<Longrightarrow> r = r'"
proof (induction arbitrary: r' rule: resolve.induct)
  case (Up x b p r)
  from Up.prems Up.hyps(1-4) have "resolve h name p r'" by (auto elim: resolve.cases)
  then show ?case by (rule Up.IH)
qed (erule resolve.cases; auto)+

definition receiver_of :: "val option \<Rightarrow> oid \<Rightarrow> val" where
  "receiver_of r x = (case r of None \<Rightarrow> VObj x | Some v \<Rightarrow> v)"

text \<open>What each search returns in terms of the property it finds.\<close>

definition get_result :: "resolution \<Rightarrow> val \<Rightarrow> val option outcome" where
  "get_result r this = (case r of Found y s \<Rightarrow> get_prop s this | Missing \<Rightarrow> Done None | AtProxy y \<Rightarrow> Delegate y)"

definition has_result :: "resolution \<Rightarrow> bool outcome" where
  "has_result r = (case r of Found y s \<Rightarrow> Done True | Missing \<Rightarrow> Done False | AtProxy y \<Rightarrow> Delegate y)"

definition foreign_result :: "resolution \<Rightarrow> val \<Rightarrow> val \<Rightarrow> bool \<Rightarrow> bool outcome option" where
  "foreign_result r this v throw =
     (case r of
        Found y (Prop p) \<Rightarrow>
          if \<not> isWritable p then Some (reject throw)
          else (case vp_setterFunc p of Some f \<Rightarrow> Some (CallSetter f this v) | None \<Rightarrow> None)
      | Found y (Plain _) \<Rightarrow> None
      | Missing \<Rightarrow> None
      | AtProxy y \<Rightarrow> Some (Delegate y))"

lemma getStr_resolve:
  "resolve h name x r \<Longrightarrow> getStr h x name rc = Some (get_result r (receiver_of rc x))"
proof (induction arbitrary: rc rule: resolve.induct)
  case (Up x b p r)
  then show ?case by (subst getStr.simps) (simp add: receiver_of_def Let_def split: option.splits)
qed (subst getStr.simps; simp add: get_result_def receiver_of_def Let_def split: option.splits)+

lemma hasPropertyStr_resolve: "resolve h name x r \<Longrightarrow> hasPropertyStr h x name = Some (has_result r)"
proof (induction rule: resolve.induct)
  case (Up x b p r)
  then show ?case by (subst hasPropertyStr.simps) (simp add: hasOwnPropertyStr_def)
qed (subst hasPropertyStr.simps; simp add: has_result_def hasOwnPropertyStr_def)+

lemma hasAndGetStr_resolve:
  "resolve h name x r \<Longrightarrow> hasAndGetStr h x name rc = Some (get_result r (receiver_of rc x))"
proof (induction arbitrary: rc rule: resolve.induct)
  case (Up x b p r)
  then show ?case by (subst hasAndGetStr.simps) (simp add: receiver_of_def Let_def split: option.splits)
next
  case (Own x b s)
  then show ?case
    by (cases s) (subst hasAndGetStr.simps;
      simp add: get_result_def get_prop_def vp_get_def receiver_of_def Let_def split: option.splits)+
qed (subst hasAndGetStr.simps; simp add: get_result_def receiver_of_def Let_def split: option.splits)+

lemma set_walk_foreign:
  assumes "resolve h name y r" "(x, y) \<notin> (chain h)\<^sup>*"
  shows "set_walk h False y name v (VObj x) throw = Some (foreign_result r (VObj x) v throw, h)"
  using assms
proof (induction rule: resolve.induct)
  case (Own y b s)
  then show ?case
    by (cases s) (subst set_walk.simps; simp add: foreign_result_def split: option.splits)+
next
  case (Up y b p r)
  have "(p, y) \<in> chain h" using Up.hyps by (auto simp: chain_def)
  then have np: "(x, p) \<notin> (chain h)\<^sup>*" using Up.prems by (meson rtrancl.rtrancl_into_rtrancl)
  then have "x \<noteq> p" by auto
  then show ?case using Up.hyps Up.IH[OF np] by (subst set_walk.simps) simp
qed (subst set_walk.simps; simp add: foreign_result_def)+

text \<open>What the walk of an assignment does with the property it finds.\<close>

definition set_result :: "heap \<Rightarrow> resolution \<Rightarrow> oid \<Rightarrow> ustr \<Rightarrow> val \<Rightarrow> bool \<Rightarrow> bool outcome \<times> heap" where
  "set_result h r x name v throw =
     (case r of
        Found y s \<Rightarrow>
          if y = x then write_own h x name s v throw
          else (case foreign_result r (VObj x) v throw of
                  Some res \<Rightarrow> (res, h)
                | None \<Rightarrow> add_property h x name v throw)
      | Missing \<Rightarrow> add_property h x name v throw
      | AtProxy y \<Rightarrow> (Delegate y, h))"

lemma chain_irrefl:
  assumes "wf (chain h)" "(p, x) \<in> chain h"
  shows "(x, p) \<notin> (chain h)\<^sup>*"
  using assms by (meson rtrancl_into_trancl1 wf_acyclic acyclic_def)

lemma resolve_holder: "resolve h name y r \<Longrightarrow> r = Found z s \<Longrightarrow> (z, y) \<in> (chain h)\<^sup>*"
proof (induction rule: resolve.induct)
  case (Up x b p r)
  then have "(p, x) \<in> chain h" by (auto simp: chain_def)
  then show ?case using Up.IH Up.prems by (meson rtrancl.rtrancl_into_rtrancl)
qed simp_all

lemma setOwnStr_resolve:
  assumes "heap_ok h" "resolve h name x r"
  shows "setOwnStr h x name v throw = Some (set_result h r x name v throw)"
  using assms(2)
proof (cases rule: resolve.cases)
  case (Own b s)
  then show ?thesis
    by (simp add: setOwnStr_def set_result_def, subst set_walk.simps) (simp split: prod.splits)
next
  case (Up b p)
  have c: "(p, x) \<in> chain h" using Up by (auto simp: chain_def)
  have nx: "(x, p) \<notin> (chain h)\<^sup>*" using chain_irrefl[OF _ c] assms(1) by (simp add: heap_ok_def)
  have W: "set_walk h False p name v (VObj x) throw = Some (foreign_result r (VObj x) v throw, h)"
    using set_walk_foreign[OF Up(5) nx] .
  have nf: "z \<noteq> x" if "r = Found z s" for z s using resolve_holder[OF Up(5) that] nx by auto
  have "setOwnStr h x name v throw =
      Some (case foreign_result r (VObj x) v throw of Some res \<Rightarrow> (res, h) | None \<Rightarrow> add_property h x name v throw)"
    using Up(1-4) W unfolding setOwnStr_def
    by (subst set_walk.simps) (simp split: option.splits prod.splits)
  also have "\<dots> = Some (set_result h r x name v throw)"
  proof (cases r)
    case (Found z s)
    then show ?thesis using nf by (simp add: set_result_def)
  qed (simp_all add: set_result_def foreign_result_def)
  finally show ?thesis .
next
  case (Top b)
  then show ?thesis
    by (simp add: setOwnStr_def set_result_def, subst set_walk.simps) (simp split: prod.splits)
next
  case (Proxy b)
  then show ?thesis by (simp add: setOwnStr_def set_result_def, subst set_walk.simps) simp
qed

section \<open>Setting the prototype\<close>

lemma on_chain_iff:
  assumes "heap_ok h" "\<forall>q. p = Some q \<longrightarrow> h q \<noteq> None"
  shows "on_chain h x p = Some (\<exists>q. p = Some q \<and> (x, q) \<in> (chain h)\<^sup>*)"
proof (cases p)
  case None
  then show ?thesis by (subst on_chain.simps) simp
next
  case (Some q)
  have "wf (chain h)" using assms(1) by (simp add: heap_ok_def)
  then have "h q \<noteq> None \<Longrightarrow> on_chain h x (Some q) = Some ((x, q) \<in> (chain h)\<^sup>*)"
  proof (induction q rule: wf_induct_rule)
    case (less q)
    then obtain b where b: "h q = Some b" by blast
    have pre: "(x, q) \<in> (chain h)\<^sup>* \<longleftrightarrow> x = q \<or> (\<exists>p. (p, q) \<in> chain h \<and> (x, p) \<in> (chain h)\<^sup>*)"
      by (metis rtrancl.simps)
    show ?case
    proof (cases "q = x \<or> is_proxy b \<or> prototype b = None")
      case True
      then have nc: "q = x \<or> (\<nexists>p. (p, q) \<in> chain h)" using b by (auto simp: chain_def)
      have "on_chain h x None = Some False" by (subst on_chain.simps) simp
      then have "on_chain h x (Some q) = Some (q = x)"
        using True b by (subst on_chain.simps) auto
      then show ?thesis using nc pre by auto
    next
      case False
      then obtain p where p: "prototype b = Some p" by auto
      have c: "(p, q) \<in> chain h" "\<And>p'. (p', q) \<in> chain h \<Longrightarrow> p' = p" using b p False by (auto simp: chain_def)
      have "h p \<noteq> None" using assms(1) b p by (auto simp: heap_ok_def)
      then have "on_chain h x (Some p) = Some ((x, p) \<in> (chain h)\<^sup>*)" using less.IH[OF c(1)] by blast
      moreover have "on_chain h x (Some q) = on_chain h x (Some p)"
        using b p False by (subst on_chain.simps) simp
      moreover have "(x, q) \<in> (chain h)\<^sup>* \<longleftrightarrow> (x, p) \<in> (chain h)\<^sup>*" using pre c False by blast
      ultimately show ?thesis by simp
    qed
  qed
  then show ?thesis using Some assms(2) by simp
qed

lemma setProto_heap_ok:
  assumes "heap_ok h" "h x = Some b" "\<forall>q. proto = Some q \<longrightarrow> h q \<noteq> None"
    "on_chain h x proto = Some False"
  shows "heap_ok (upd_obj h x (prototype_update (\<lambda>_. proto)))"
proof -
  let ?h = "upd_obj h x (prototype_update (\<lambda>_. proto))"
  let ?r = "{(p, y) \<in> chain h. y \<noteq> x}"
  have wf: "wf (chain h)" using assms(1) by (simp add: heap_ok_def)
  then have wr: "wf ?r" by (rule wf_subset) auto
  have "wf (chain ?h)"
  proof (cases proto)
    case None
    then have "chain ?h \<subseteq> ?r" by (auto simp: chain_def upd_obj_def split: if_splits)
    then show ?thesis using wr wf_subset by blast
  next
    case (Some q)
    have "(x, q) \<notin> (chain h)\<^sup>*" using on_chain_iff[OF assms(1,3), of x] assms(4) Some by auto
    moreover have "?r\<^sup>* \<subseteq> (chain h)\<^sup>*" by (rule rtrancl_mono) auto
    ultimately have "(x, q) \<notin> ?r\<^sup>*" by blast
    then have "wf (insert (q, x) ?r)" using wr by (simp add: wf_insert)
    moreover have "chain ?h \<subseteq> insert (q, x) ?r"
      using Some by (auto simp: chain_def upd_obj_def split: if_splits)
    ultimately show ?thesis using wf_subset by blast
  qed
  moreover have "\<forall>y b' p. ?h y = Some b' \<and> prototype b' = Some p \<longrightarrow> ?h p \<noteq> None"
    using assms(1,3) by (auto simp: heap_ok_def upd_obj_def)
  ultimately show ?thesis by (simp add: heap_ok_def)
qed


section \<open>The order of property names\<close>

definition is_idx :: "ustr \<Rightarrow> bool" where
  "is_idx s \<longleftrightarrow> strToArrayIdx s \<noteq> MaxUint32"

text \<open>The first \<open>cnt\<close> names are array indices in ascending order, the following ones up to \<open>i\<close> are not indices.\<close>

definition ordered_prefix :: "ustr list \<Rightarrow> nat \<Rightarrow> nat \<Rightarrow> bool" where
  "ordered_prefix names cnt i \<longleftrightarrow> cnt \<le> i \<and> i \<le> length names \<and>
     sorted_wrt (\<lambda>a b. strToArrayIdx a < strToArrayIdx b) (take cnt names) \<and>
     list_all is_idx (take cnt names) \<and> list_all (\<lambda>s. \<not> is_idx s) (drop cnt (take i names))"

definition bo_ok :: "baseObject \<Rightarrow> bool" where
  "bo_ok b \<longleftrightarrow> distinct (propNames b) \<and> set (propNames b) = dom (propValues b) \<and>
     ordered_prefix (propNames b) (idxPropCount b) (lastSortedPropLen b)"

lemma strToArrayIdx_inj: "is_idx a \<Longrightarrow> is_idx b \<Longrightarrow> strToArrayIdx a = strToArrayIdx b \<Longrightarrow> a = b"
  using strToArrayIdx_inverse(3)[of a] strToArrayIdx_inverse(3)[of b] by (simp add: is_idx_def)

lemma ordered_prefix_split:
  assumes "ordered_prefix names cnt i"
  obtains A B R where "names = A @ B @ R" "length A = cnt" "length (A @ B) = i"
    "sorted_wrt (\<lambda>a b. strToArrayIdx a < strToArrayIdx b) A" "list_all is_idx A" "list_all (\<lambda>s. \<not> is_idx s) B"
proof -
  have b: "cnt \<le> i" "i \<le> length names" using assms by (auto simp: ordered_prefix_def)
  have "names = take cnt names @ drop cnt (take i names) @ drop i names"
  proof -
    have "take cnt names = take cnt (take i names)" using b(1) by (simp add: min_absorb1)
    then show ?thesis by (metis append.assoc append_take_drop_id)
  qed
  then show thesis using that[of "take cnt names" "drop cnt (take i names)" "drop i names"] assms b
    by (auto simp: ordered_prefix_def)
qed

lemma ordered_prefixI:
  assumes "sorted_wrt (\<lambda>a b. strToArrayIdx a < strToArrayIdx b) A" "list_all is_idx A" "list_all (\<lambda>s. \<not> is_idx s) B"
  shows "ordered_prefix (A @ B @ R) (length A) (length (A @ B))"
  using assms by (simp add: ordered_prefix_def)

text \<open>The binary search finds the place of a new index among the sorted ones.\<close>

lemma search_place:
  assumes "sorted_wrt (\<lambda>a b. strToArrayIdx a < strToArrayIdx b) A" "list_all is_idx A" "is_idx n" "n \<notin> set A"
    and "k = sort_Search (length A) (\<lambda>j. strToArrayIdx n \<le> strToArrayIdx ((A @ C) ! j))"
  shows "k \<le> length A" "sorted_wrt (\<lambda>a b. strToArrayIdx a < strToArrayIdx b) (take k A @ n # drop k A)"
proof -
  let ?f = "\<lambda>j. strToArrayIdx n \<le> strToArrayIdx ((A @ C) ! j)"
  have mono: "mono_pred (length A) ?f"
    unfolding mono_pred_def
  proof (intro allI impI, elim conjE)
    fix a b assume "a \<le> b" "b < length A" "?f a"
    moreover from this have "a < b \<Longrightarrow> strToArrayIdx (A ! a) < strToArrayIdx (A ! b)"
      using assms(1) by (simp add: sorted_wrt_iff_nth_less)
    ultimately show "?f b" by (cases "a = b") (auto simp: nth_append)
  qed
  note S = sort_Search_correct[OF mono, folded assms(5)]
  show k: "k \<le> length A" by (rule S(1))
  have lo: "\<forall>x \<in> set (take k A). strToArrayIdx x < strToArrayIdx n"
  proof
    fix x assume "x \<in> set (take k A)"
    then obtain j where "j < k" "x = A ! j" using k by (auto simp: in_set_conv_nth)
    then show "strToArrayIdx x < strToArrayIdx n" using S(2)[of j] k by (auto simp: nth_append)
  qed
  have hi: "\<forall>x \<in> set (drop k A). strToArrayIdx n < strToArrayIdx x"
  proof
    fix x assume x: "x \<in> set (drop k A)"
    then obtain j where "j < length A - k" "x = A ! (k + j)" by (auto simp: in_set_conv_nth)
    then have j: "k + j < length A" "x = A ! (k + j)" by auto
    have "strToArrayIdx n \<le> strToArrayIdx x" using S(3)[of "k + j"] j by (auto simp: nth_append)
    moreover have "x \<in> set A" using x by (rule in_set_dropD)
    then have "strToArrayIdx n \<noteq> strToArrayIdx x"
      using strToArrayIdx_inj[of n x] assms(2-4) by (auto simp: list_all_iff)
    ultimately show "strToArrayIdx n < strToArrayIdx x" by simp
  qed
  have "sorted_wrt (\<lambda>a b. strToArrayIdx a < strToArrayIdx b) (take k A @ drop k A)" using assms(1) by simp
  then show "sorted_wrt (\<lambda>a b. strToArrayIdx a < strToArrayIdx b) (take k A @ n # drop k A)"
    using lo hi unfolding sorted_wrt_append by simp
qed

lemma fix_step_ordered:
  assumes "ordered_prefix names cnt i" "i < length names" "distinct names" "fix_step i (names, cnt) = (names', cnt')"
  shows "ordered_prefix names' cnt' (Suc i)" "mset names' = mset names"
    "filter (\<lambda>s. \<not> is_idx s) names' = filter (\<lambda>s. \<not> is_idx s) names"
proof -
  obtain A B R where S: "names = A @ B @ R" "length A = cnt" "length (A @ B) = i"
    "sorted_wrt (\<lambda>a b. strToArrayIdx a < strToArrayIdx b) A" "list_all is_idx A" "list_all (\<lambda>s. \<not> is_idx s) B"
    using ordered_prefix_split[OF assms(1)] .
  then obtain n R' where R: "R = n # R'" using assms(2) by (cases R) auto
  have n: "names ! i = n" using S(1,3) R nth_append_length[of "A @ B" n R'] by simp
  have nA: "n \<notin> set A" using assms(3) S(1) R by auto
  have "ordered_prefix names' cnt' (Suc i) \<and> mset names' = mset names \<and>
      filter (\<lambda>s. \<not> is_idx s) names' = filter (\<lambda>s. \<not> is_idx s) names"
  proof (cases "is_idx n")
    case False
    then have "names' = A @ (B @ [n]) @ R'" "cnt' = length A"
      using assms(4) n S R by (simp_all add: fix_step_def is_idx_def Let_def)
    moreover have "ordered_prefix (A @ (B @ [n]) @ R') (length A) (length (A @ (B @ [n])))"
      using S(4-6) False by (intro ordered_prefixI) auto
    ultimately show ?thesis
      using S(1,3) R by auto
  next
    case True
    define k where "k = sort_Search (length A) (\<lambda>j. strToArrayIdx n \<le> strToArrayIdx ((A @ B @ R) ! j))"
    note P = search_place[OF S(4,5) True nA k_def]
    have t: "take k names = take k A" "take i names = A @ B" "drop k (A @ B) = drop k A @ B"
      "drop (Suc i) names = R'"
      using P(1) S(1,3) R by (simp_all flip: S(3))
    have eq: "names' = (take k A @ n # drop k A) @ B @ R'" "cnt' = Suc (length A)"
    proof -
      have st: "names' = (if k < i then take k names @ n # drop k (take i names) @ drop (Suc i) names else names)"
        "cnt' = Suc (length A)"
        using assms(4) n True S(1,2) unfolding k_def by (auto simp: fix_step_def is_idx_def Let_def)
      show "cnt' = Suc (length A)" by (rule st)
      show "names' = (take k A @ n # drop k A) @ B @ R'"
      proof (cases "k < i")
        case True
        then show ?thesis using st(1) t by simp
      next
        case False
        then have "length A + length B = i" "i \<le> k" "k \<le> length A" using P(1) S(3) by auto
        then have "length B = 0" "k = length A" by linarith+
        then show ?thesis using st(1) False S(1) R by simp
      qed
    qed
    have "ordered_prefix ((take k A @ n # drop k A) @ B @ R') (length (take k A @ n # drop k A))
        (length ((take k A @ n # drop k A) @ B))"
      using P(2) S(5,6) True
      by (intro ordered_prefixI) (auto simp: list_all_iff dest: in_set_takeD in_set_dropD)
    then have "ordered_prefix names' cnt' (Suc i)" unfolding eq using S(3) P(1) by (simp flip: S(3))
    moreover have "mset A = mset (take k A) + mset (drop k A)" by (metis append_take_drop_id mset_append)
    then have "mset names' = mset names" unfolding eq S(1) R by simp
    moreover have "filter (\<lambda>s. \<not> is_idx s) (take k A) = []" "filter (\<lambda>s. \<not> is_idx s) (drop k A) = []"
      "filter (\<lambda>s. \<not> is_idx s) A = []"
      using S(5) by (auto simp: filter_empty_conv list_all_iff dest: in_set_takeD in_set_dropD)
    then have "filter (\<lambda>s. \<not> is_idx s) names' = filter (\<lambda>s. \<not> is_idx s) names"
      unfolding eq S(1) R using True by simp
    ultimately show ?thesis by blast
  qed
  then show "ordered_prefix names' cnt' (Suc i)" "mset names' = mset names"
    "filter (\<lambda>s. \<not> is_idx s) names' = filter (\<lambda>s. \<not> is_idx s) names" by blast+
qed

lemma fix_loop_ordered:
  assumes "ordered_prefix names cnt i" "distinct names"
    "foldl (\<lambda>st i. fix_step i st) (names, cnt) [i ..< length names] = (names', cnt')"
  shows "ordered_prefix names' cnt' (length names) \<and> mset names' = mset names \<and>
    filter (\<lambda>s. \<not> is_idx s) names' = filter (\<lambda>s. \<not> is_idx s) names"
  using assms
proof (induction "length names - i" arbitrary: names cnt i)
  case 0
  then have "i = length names" by (simp add: ordered_prefix_def)
  then show ?case using 0 by simp
next
  case (Suc d)
  then have i: "i < length names" by simp
  obtain n1 c1 where st: "fix_step i (names, cnt) = (n1, c1)" by (cases "fix_step i (names, cnt)")
  note F = fix_step_ordered[OF Suc.prems(1) i Suc.prems(2) st]
  have len: "length n1 = length names" using F(2) by (metis size_mset)
  have "distinct n1" using F(2) Suc.prems(2) mset_eq_imp_distinct_iff by blast
  moreover have "foldl (\<lambda>st i. fix_step i st) (n1, c1) [Suc i ..< length n1] = (names', cnt')"
    using Suc.prems(3) st len i by (simp add: upt_conv_Cons)
  moreover have "d = length n1 - Suc i" using Suc.hyps(2) len by simp
  ultimately show ?case using Suc.hyps(1)[of n1 "Suc i" c1] F len by auto
qed


lemma fixPropOrder_ok:
  assumes "bo_ok b"
  shows "bo_ok (ensurePropOrder b)" "propValues (ensurePropOrder b) = propValues b"
    "lastSortedPropLen (ensurePropOrder b) = length (propNames b)"
    "mset (propNames (ensurePropOrder b)) = mset (propNames b)"
    "filter (\<lambda>s. \<not> is_idx s) (propNames (ensurePropOrder b)) = filter (\<lambda>s. \<not> is_idx s) (propNames b)"
proof -
  have O: "ordered_prefix (propNames b) (idxPropCount b) (lastSortedPropLen b)" "distinct (propNames b)"
    using assms by (auto simp: bo_ok_def)
  obtain names cnt where L: "foldl (\<lambda>st i. fix_step i st) (propNames b, idxPropCount b)
      [lastSortedPropLen b ..< length (propNames b)] = (names, cnt)"
    by (cases "foldl (\<lambda>st i. fix_step i st) (propNames b, idxPropCount b)
      [lastSortedPropLen b ..< length (propNames b)]")
  note F = fix_loop_ordered[OF O L]
  have len: "length names = length (propNames b)" "set names = set (propNames b)"
    using F by (metis size_mset, metis set_mset_mset)
  have d: "distinct names" using F O(2) mset_eq_imp_distinct_iff by blast
  have "bo_ok (fixPropOrder b)" using assms F len d L by (simp add: bo_ok_def fixPropOrder_def)
  moreover have "lastSortedPropLen b = length (propNames b)" if "\<not> lastSortedPropLen b < length (propNames b)"
    using that O(1) by (simp add: ordered_prefix_def)
  ultimately show "bo_ok (ensurePropOrder b)" "propValues (ensurePropOrder b) = propValues b"
    "lastSortedPropLen (ensurePropOrder b) = length (propNames b)"
    "mset (propNames (ensurePropOrder b)) = mset (propNames b)"
    "filter (\<lambda>s. \<not> is_idx s) (propNames (ensurePropOrder b)) = filter (\<lambda>s. \<not> is_idx s) (propNames b)"
    using assms F len L by (simp_all add: ensurePropOrder_def fixPropOrder_def)
qed

lemma sorted_names_split:
  assumes "bo_ok b" "lastSortedPropLen b = length (propNames b)"
  shows "propNames b = filter is_idx (propNames b) @ filter (\<lambda>s. \<not> is_idx s) (propNames b)"
    "sorted_wrt (\<lambda>x y. strToArrayIdx x < strToArrayIdx y) (filter is_idx (propNames b))"
proof -
  have o: "ordered_prefix (propNames b) (idxPropCount b) (length (propNames b))" using assms by (simp add: bo_ok_def)
  obtain A B R where S: "propNames b = A @ B @ R" "length A = idxPropCount b" "length (A @ B) = length (propNames b)"
    "sorted_wrt (\<lambda>a b. strToArrayIdx a < strToArrayIdx b) A" "list_all is_idx A" "list_all (\<lambda>s. \<not> is_idx s) B"
    using ordered_prefix_split[OF o] .
  then have n: "propNames b = A @ B" by simp
  have "filter is_idx A = A" "filter is_idx B = []" "filter (\<lambda>s. \<not> is_idx s) A = []" "filter (\<lambda>s. \<not> is_idx s) B = B"
    using S(5,6) by (auto simp: filter_id_conv filter_empty_conv list_all_iff)
  then show "propNames b = filter is_idx (propNames b) @ filter (\<lambda>s. \<not> is_idx s) (propNames b)"
    "sorted_wrt (\<lambda>x y. strToArrayIdx x < strToArrayIdx y) (filter is_idx (propNames b))"
    using n S(4) by auto
qed

section \<open>The invariant of an object\<close>

lemma bo_put_ok [obj_inv]: "bo_ok b \<Longrightarrow> bo_ok (bo_put name s b)"
  by (auto simp: bo_ok_def bo_put_def Let_def ordered_prefix_def)

lemma bo_write_ok [obj_inv]:
  "bo_ok b \<Longrightarrow> propValues b name \<noteq> None \<Longrightarrow> bo_ok (b\<lparr>propValues := (propValues b)(name \<mapsto> s)\<rparr>)"
  by (auto simp: bo_ok_def)

lemma bo_extensible_ok [obj_inv]: "bo_ok b \<Longrightarrow> bo_ok (b\<lparr>extensible := e\<rparr>)" "bo_ok b \<Longrightarrow> bo_ok (b\<lparr>prototype := p\<rparr>)"
  by (simp_all add: bo_ok_def)

lemma find_name_spec:
  "find_name name ns i = (if name \<in> set ns then Some (i + length (takeWhile (\<lambda>n. n \<noteq> name) ns)) else None)"
  by (induction ns arbitrary: i) auto

lemma remove_first:
  assumes "name \<in> set ns" "distinct ns" "j = length (takeWhile (\<lambda>n. n \<noteq> name) ns)"
  shows "j < length ns" "ns ! j = name" "remove_at j ns = filter (\<lambda>n. n \<noteq> name) ns"
proof -
  obtain xs ys where s: "ns = xs @ name # ys" using assms(1) by (meson split_list)
  then have n: "name \<notin> set xs" "name \<notin> set ys" using assms(2) by auto
  then have "takeWhile (\<lambda>n. n \<noteq> name) xs = xs" by (auto simp: takeWhile_eq_all_conv)
  then have j: "j = length xs" using assms(3) s by (simp add: takeWhile_tail)
  show "j < length ns" "ns ! j = name" using s j by simp_all
  have "filter (\<lambda>n. n \<noteq> name) xs = xs" "filter (\<lambda>n. n \<noteq> name) ys = ys" using n by (auto simp: filter_id_conv)
  then show "remove_at j ns = filter (\<lambda>n. n \<noteq> name) ns" using s j by (simp add: remove_at_def)
qed

lemma ordered_prefix_remove:
  assumes "ordered_prefix names cnt i" "j < length names"
  shows "ordered_prefix (remove_at j names) (if j < cnt then cnt - 1 else cnt) (if j < i then i - 1 else i)"
proof -
  obtain A B R where S: "names = A @ B @ R" "length A = cnt" "length (A @ B) = i"
    "sorted_wrt (\<lambda>a b. strToArrayIdx a < strToArrayIdx b) A" "list_all is_idx A" "list_all (\<lambda>s. \<not> is_idx s) B"
    using ordered_prefix_split[OF assms(1)] .
  consider "j < cnt" | "cnt \<le> j" "j < i" | "i \<le> j" by linarith
  then show ?thesis
  proof cases
    case 1
    have "A = take j A @ A ! j # drop (Suc j) A" using 1 S(2) by (simp add: Cons_nth_drop_Suc)
    then have "sorted_wrt (\<lambda>a b. strToArrayIdx a < strToArrayIdx b) (take j A @ A ! j # drop (Suc j) A)"
      using S(4) by simp
    then have so: "sorted_wrt (\<lambda>a b. strToArrayIdx a < strToArrayIdx b) (remove_at j A)"
      by (simp add: remove_at_def sorted_wrt_append)
    have "remove_at j names = remove_at j A @ B @ R" using 1 S(1,2) by (simp add: remove_at_def)
    moreover have "list_all is_idx (remove_at j A)" using S(5) set_remove_at_subset[of j A] by (auto simp: list_all_iff)
    ultimately show ?thesis using ordered_prefixI[OF so _ S(6), of R] 1 S(2,3) by (auto simp: remove_at_def)
  next
    case 2
    have "remove_at j names = A @ remove_at (j - cnt) B @ R"
      using 2 S(1,2,3) by (auto simp: remove_at_def Suc_diff_le)
    moreover have "list_all (\<lambda>s. \<not> is_idx s) (remove_at (j - cnt) B)"
      using S(6) set_remove_at_subset[of "j - cnt" B] by (auto simp: list_all_iff)
    ultimately show ?thesis using ordered_prefixI[OF S(4,5), of "remove_at (j - cnt) B" R] 2 S(2,3) by auto
  next
    case 3
    have "remove_at j names = A @ B @ remove_at (j - i) R"
      using 3 S(1,3) by (auto simp: remove_at_def Suc_diff_le)
    then show ?thesis using ordered_prefixI[OF S(4-6), of "remove_at (j - i) R"] 3 S(2,3) by auto
  qed
qed

lemma bo_delete_ok [obj_inv]:
  assumes "bo_ok b"
  shows "bo_ok (bo_delete name b)"
proof (cases "name \<in> set (propNames b)")
  case False
  then have "propValues b name = None" using assms by (auto simp: bo_ok_def)
  then have "(propValues b)(name := None) = propValues b" by auto
  then show ?thesis using False assms by (simp add: bo_delete_def find_name_spec)
next
  case True
  define j where "j = length (takeWhile (\<lambda>n. n \<noteq> name) (propNames b))"
  note F = remove_first[OF True _ j_def]
  have D: "distinct (propNames b)" "set (propNames b) = dom (propValues b)" using assms by (auto simp: bo_ok_def)
  have f: "find_name name (propNames b) 0 = Some j" using True by (simp add: find_name_spec j_def)
  have P: "ordered_prefix (remove_at j (propNames b)) (if j < idxPropCount b then idxPropCount b - 1 else idxPropCount b)
      (if j < lastSortedPropLen b then lastSortedPropLen b - 1 else lastSortedPropLen b)"
    using assms F(1)[OF D(1)] by (intro ordered_prefix_remove) (auto simp: bo_ok_def)
  have "idxPropCount b \<le> lastSortedPropLen b" using assms by (auto simp: bo_ok_def ordered_prefix_def)
  then have "bo_delete name b = b\<lparr>propValues := (propValues b)(name := None), propNames := remove_at j (propNames b),
      lastSortedPropLen := (if j < lastSortedPropLen b then lastSortedPropLen b - 1 else lastSortedPropLen b),
      idxPropCount := (if j < idxPropCount b then idxPropCount b - 1 else idxPropCount b)\<rparr>"
    using f by (simp add: bo_delete_def Let_def)
  moreover have "distinct (remove_at j (propNames b))" "set (remove_at j (propNames b)) = dom ((propValues b)(name := None))"
    using D F(3)[OF D(1)] by auto
  ultimately show ?thesis using P by (simp add: bo_ok_def)
qed


section \<open>The invariant of the heap\<close>

definition heap_inv :: "heap \<Rightarrow> bool" where
  "heap_inv h \<longleftrightarrow> heap_ok h \<and> (\<forall>x b. h x = Some b \<longrightarrow> bo_ok b)"

lemma upd_obj_ok:
  assumes "heap_inv h" "h x = Some b" "prototype (f b) = prototype b" "is_proxy (f b) = is_proxy b" "bo_ok (f b)"
  shows "heap_inv (upd_obj h x f)"
proof -
  have c: "chain (upd_obj h x f) = chain h"
    using assms(2-4) unfolding chain_def upd_obj_def by (auto split: if_splits)
  have "\<forall>y b' p. upd_obj h x f y = Some b' \<and> prototype b' = Some p \<longrightarrow> upd_obj h x f p \<noteq> None"
    using assms(1-3) by (auto simp: heap_inv_def heap_ok_def upd_obj_def split: if_splits)
  then show ?thesis
    using assms c by (auto simp: heap_inv_def heap_ok_def upd_obj_def split: if_splits)
qed

lemma bo_frame [simp]:
  "prototype (bo_put name s b) = prototype b" "is_proxy (bo_put name s b) = is_proxy b"
  "prototype (bo_delete name b) = prototype b" "is_proxy (bo_delete name b) = is_proxy b"
  by (auto simp: bo_put_def bo_delete_def Let_def split: option.splits)

lemma add_property_inv:
  assumes "heap_inv h" "h x = Some b"
  shows "heap_inv (snd (add_property h x name v throw))"
proof -
  have "bo_ok (bo_put name (Plain v) b)" using assms by (auto simp: heap_inv_def intro: bo_put_ok)
  then show ?thesis using assms upd_obj_ok[OF assms] by (simp add: add_property_def)
qed

lemma write_own_inv:
  assumes "heap_inv h" "h x = Some b" "propValues b name \<noteq> None"
  shows "heap_inv (snd (write_own h x name s v throw))"
proof -
  have "heap_inv (upd_obj h x (\<lambda>b. b\<lparr>propValues := (propValues b)(name \<mapsto> t)\<rparr>))" for t
    using assms by (intro upd_obj_ok[OF assms(1,2)]) (auto simp: heap_inv_def intro: bo_write_ok)
  then show ?thesis using assms by (auto simp: write_own_def split: slot.splits access.splits)
qed

lemma resolve_own:
  assumes "heap_ok h" "h x = Some b" "resolve h name x (Found x s)"
  shows "\<not> is_proxy b \<and> propValues b name = Some s"
  using assms(3)
proof (cases rule: resolve.cases)
  case (Own c)
  then show ?thesis using assms(2) by simp
next
  case (Up c p)
  then have "(x, p) \<in> (chain h)\<^sup>*" "(p, x) \<in> chain h"
    using resolve_holder[OF Up(5) refl] by (simp_all add: chain_def)
  then show ?thesis using chain_irrefl[of h p x] assms(1) by (simp add: heap_ok_def)
qed

lemma resolve_proxy: "h x = Some b \<Longrightarrow> is_proxy b \<Longrightarrow> resolve h name x r \<Longrightarrow> r = AtProxy x"
  by (rule resolve_unique) (auto intro: resolve.Proxy)

lemma resolve_dom: "resolve h name x r \<Longrightarrow> \<exists>b. h x = Some b"
  by (induction rule: resolve.induct) auto

lemma set_result_inv:
  assumes "heap_inv h" "resolve h name x r"
  shows "heap_inv (snd (set_result h r x name v throw))"
proof -
  obtain b where b: "h x = Some b" using resolve_dom[OF assms(2)] by blast
  have own: "propValues b name \<noteq> None" if "r = Found x s" for s
    using resolve_own[of h x b, OF _ b] assms that by (simp add: heap_inv_def)
  show ?thesis
    using assms(1) own add_property_inv[OF assms(1) b] write_own_inv[OF assms(1) b]
    by (auto simp: set_result_def split: resolution.splits option.splits)
qed

text \<open>The slots of an object have the shape the specification gives properties: an accessor is not writable.\<close>

definition strict_slot :: "slot \<Rightarrow> bool" where
  "strict_slot s \<longleftrightarrow> slot_ok s \<and> (\<forall>p. s = Prop p \<and> vp_accessor p \<longrightarrow> \<not> vp_writable p)"

text \<open>
  ECMAScript's OrdinarySet on a receiver that is the object itself, over the properties of the standard: a data property has a
  value and three attributes, an accessor two functions and two attributes. \<open>own\<close> says that the property found belongs to the
  receiver. The effect is to refuse, to call a setter or to give the receiver a property.
\<close>

datatype es_property = DataProperty val bool bool bool | AccessorProperty "oid option" "oid option" bool bool

definition es_view :: "slot \<Rightarrow> es_property" where
  "es_view s =
     (case s of
        Plain v \<Rightarrow> DataProperty v True True True
      | Prop p \<Rightarrow>
          if vp_accessor p then AccessorProperty (vp_getterFunc p) (vp_setterFunc p) (vp_enumerable p) (vp_configurable p)
          else DataProperty (case vp_value p of Some v \<Rightarrow> v | None \<Rightarrow> VUndef) (vp_writable p) (vp_enumerable p) (vp_configurable p))"

definition es_properties :: "baseObject \<Rightarrow> ustr \<Rightarrow> es_property option" where
  "es_properties b name = map_option es_view (propValues b name)"

datatype es_effect = Refuse | CallSet oid | Store es_property

fun OrdinarySet :: "bool \<Rightarrow> bool \<Rightarrow> es_property option \<Rightarrow> val \<Rightarrow> es_effect" where
  "OrdinarySet ext own None v = (if ext then Store (DataProperty v True True True) else Refuse)"
| "OrdinarySet ext own (Some (DataProperty u w e c)) v =
     (if \<not> w then Refuse
      else if own then Store (DataProperty v w e c)
      else if ext then Store (DataProperty v True True True) else Refuse)"
| "OrdinarySet ext own (Some (AccessorProperty g s e c)) v = (case s of None \<Rightarrow> Refuse | Some f \<Rightarrow> CallSet f)"

text \<open>What the caller of the assignment sees of an effect, and what it does to the heap.\<close>

definition effect_outcome :: "es_effect \<Rightarrow> oid \<Rightarrow> val \<Rightarrow> bool \<Rightarrow> bool outcome" where
  "effect_outcome eff x v throw =
     (case eff of
        Refuse \<Rightarrow> if throw then Throw TypeErr else Done False
      | CallSet f \<Rightarrow> CallSetter f (VObj x) v
      | Store _ \<Rightarrow> Done True)"

definition has_effect :: "es_effect \<Rightarrow> heap \<Rightarrow> oid \<Rightarrow> ustr \<Rightarrow> heap \<Rightarrow> bool" where
  "has_effect eff h x name h' \<longleftrightarrow>
     (case eff of
        Store p \<Rightarrow>
          (\<forall>y. y \<noteq> x \<longrightarrow> h' y = h y) \<and>
          (\<exists>b'. h' x = Some b' \<and> prototype b' = prototype (obj h x) \<and> extensible b' = extensible (obj h x) \<and>
             es_properties b' = (es_properties (obj h x))(name \<mapsto> p) \<and>
             propNames b' = propNames (obj h x) @ (if es_properties (obj h x) name = None then [name] else []))
      | _ \<Rightarrow> h' = h)"

text \<open>Properties whose parts agree with their kind; a defect of redefinition can break this (\<open>stale_accessor_parts\<close>).\<close>

definition uniform_slots :: "heap \<Rightarrow> ustr \<Rightarrow> bool" where
  "uniform_slots h name \<longleftrightarrow> (\<forall>y b s. h y = Some b \<and> propValues b name = Some s \<longrightarrow> strict_slot s)"

lemma resolve_slot: "resolve h name x r \<Longrightarrow> r = Found y s \<Longrightarrow> \<exists>b. h y = Some b \<and> propValues b name = Some s"
  by (induction rule: resolve.induct) auto

lemma resolve_not_own:
  "resolve h name x r \<Longrightarrow> h x = Some b \<Longrightarrow> \<forall>s. r \<noteq> Found x s \<Longrightarrow> \<forall>y. r \<noteq> AtProxy y \<Longrightarrow> propValues b name = None"
  by (cases rule: resolve.cases) auto

lemma strict_cases:
  assumes "strict_slot (Prop p)"
  shows "if vp_accessor p then \<not> vp_writable p else vp_setterFunc p = None \<and> vp_getterFunc p = None"
  using assms by (auto simp: strict_slot_def slot_ok_def vp_ok_def propToValueProp_def)

lemma has_effect_upd:
  assumes "h x = Some b" "prototype (f b) = prototype b" "extensible (f b) = extensible b"
    "es_properties (f b) = (es_properties b)(name \<mapsto> p)"
    "propNames (f b) = propNames b @ (if es_properties b name = None then [name] else [])"
  shows "has_effect (Store p) h x name (upd_obj h x f)"
  using assms by (simp add: has_effect_def upd_obj_def)

definition meets :: "es_effect \<Rightarrow> heap \<Rightarrow> oid \<Rightarrow> ustr \<Rightarrow> val \<Rightarrow> bool \<Rightarrow> bool outcome \<times> heap \<Rightarrow> bool" where
  "meets eff h x name v throw r \<longleftrightarrow> fst r = effect_outcome eff x v throw \<and> has_effect eff h x name (snd r)"

lemma meets_refuse: "meets Refuse h x name v throw (reject throw, h)"
  by (simp add: meets_def effect_outcome_def has_effect_def reject_def)

lemma meets_call: "meets (CallSet f) h x name v throw (CallSetter f (VObj x) v, h)"
  by (simp add: meets_def effect_outcome_def has_effect_def)

lemma meets_store: "has_effect (Store p) h x name h' \<Longrightarrow> meets (Store p) h x name v throw (Done True, h')"
  by (simp add: meets_def effect_outcome_def)

lemma add_property_effect:
  assumes "h x = Some b" "propValues b name = None"
  shows "meets (OrdinarySet (extensible b) own None v) h x name v throw (add_property h x name v throw)"
proof (cases "extensible b")
  case True
  have "has_effect (Store (DataProperty v True True True)) h x name (upd_obj h x (bo_put name (Plain v)))"
    by (rule has_effect_upd [where b = b]) (use assms in \<open>auto simp: bo_put_def es_properties_def es_view_def\<close>)
  then show ?thesis using True assms meets_store by (simp add: add_property_def)
qed (use assms meets_refuse in \<open>simp add: add_property_def\<close>)

lemma write_effect:
  assumes "h x = Some b" "propValues b name \<noteq> None" "es_view t = p"
  shows "meets (Store p) h x name v throw (Done True, upd_obj h x (\<lambda>b. b\<lparr>propValues := (propValues b)(name \<mapsto> t)\<rparr>))"
  by (rule meets_store, rule has_effect_upd [where b = b]) (use assms in \<open>auto simp: es_properties_def\<close>)

lemma write_own_effect:
  assumes "h x = Some b" "propValues b name = Some s" "strict_slot s"
  shows "meets (OrdinarySet (extensible b) True (Some (es_view s)) v) h x name v throw (write_own h x name s v throw)"
proof (cases s)
  case (Plain u)
  then show ?thesis using assms write_effect [of h x b name "Plain v"] by (simp add: write_own_def es_view_def)
next
  case (Prop p)
  then show ?thesis using assms strict_cases [of p] meets_refuse meets_call
      write_effect [of h x b name "Prop (p\<lparr>vp_value := Some v\<rparr>)", OF assms(1)]
    by (cases "vp_setterFunc p"; cases "vp_accessor p")
      (auto simp: write_own_def vp_set_def isWritable_def es_view_def split: if_splits)
qed

lemma set_result_effect:
  assumes "heap_ok h" "h x = Some b" "uniform_slots h name" "resolve h name x r" "\<And>y. r \<noteq> AtProxy y"
  shows "meets (OrdinarySet (extensible b) (\<exists>s. r = Found x s) (case r of Found y s \<Rightarrow> Some (es_view s) | _ \<Rightarrow> None) v)
    h x name v throw (set_result h r x name v throw)"
proof (cases r)
  case (Found y s)
  obtain b' where b': "h y = Some b'" "propValues b' name = Some s" using resolve_slot [OF assms(4) Found] by blast
  have s: "strict_slot s" using assms(3) b' by (auto simp: uniform_slots_def)
  show ?thesis
  proof (cases "y = x")
    case True
    then have "propValues b name = Some s" using b' assms(2) by simp
    from write_own_effect [of h x b name s v throw, OF assms(2) this s] show ?thesis using True Found by (simp add: set_result_def)
  next
    case False
    then have none: "propValues b name = None" using resolve_not_own [OF assms(4,2)] Found by simp
    have add: "\<And>own. meets (OrdinarySet (extensible b) own None v) h x name v throw (add_property h x name v throw)"
      using add_property_effect assms(2) none by blast
    show ?thesis using False Found add s strict_cases meets_refuse meets_call
      by (cases s) (auto simp: set_result_def foreign_result_def es_view_def isWritable_def split: option.splits if_splits)
  qed
next
  case Missing
  then have "propValues b name = None" using resolve_not_own [OF assms(4,2)] by simp
  then show ?thesis using add_property_effect [of h x b name False v throw] assms(2) Missing by (simp add: set_result_def)
qed (use assms(5) in auto)

section \<open>Properties\<close>

text \<open>
  (C34) On a heap without prototype cycles every lookup of a property returns, and what it returns is
  determined by the nearest object on the chain that has the property (or the first proxy before it):
  its value, a call of its getter on the receiver, or nothing.
\<close>

theorem lookup_follows_chain:
  assumes "heap_ok h" "h x \<noteq> None"
  shows "\<exists>r. resolve h name x r \<and> getStr h x name rc = Some (get_result r (receiver_of rc x)) \<and>
    hasPropertyStr h x name = Some (has_result r)"
  using resolve_exists[OF assms] getStr_resolve hasPropertyStr_resolve by blast

definition plain_object :: baseObject where
  "plain_object = \<lparr>prototype = None, extensible = True, propValues = (\<lambda>_. None), propNames = [],
     lastSortedPropLen = 0, idxPropCount = 0, is_proxy = False\<rparr>"

definition heap1 :: heap where
  "heap1 = [0 \<mapsto> plain_object, 1 \<mapsto> plain_object\<lparr>prototype := Some 0\<rparr>]"

lemma heap1_inv: "heap_inv heap1"
proof -
  have "chain heap1 \<subseteq> {(0, 1)}" by (auto simp: chain_def heap1_def plain_object_def split: if_splits)
  moreover have "wf {(0 :: nat, 1)}" by (rule wf_subset[OF wf_less]) auto
  ultimately have "wf (chain heap1)" using wf_subset by blast
  then show ?thesis
    by (auto simp: heap_inv_def heap_ok_def heap1_def plain_object_def bo_ok_def ordered_prefix_def split: if_splits)
qed

theorem lookup_follows_chain_witness:
  "\<exists>r. resolve heap1 (ascii ''a'') 1 r \<and> hasPropertyStr heap1 1 (ascii ''a'') = Some (has_result r)"
proof -
  have "heap_ok heap1" "heap1 1 \<noteq> None" using heap1_inv by (simp_all add: heap_inv_def heap1_def)
  then show ?thesis using lookup_follows_chain by blast
qed

text \<open>
  The fused lookup \<^verbatim>\<open>hasAndGetStr\<close> agrees with \<^verbatim>\<open>hasPropertyStr\<close> followed by \<^verbatim>\<open>getStr\<close>: it returns a value
  or calls a getter exactly when the property exists, and then the same as \<^verbatim>\<open>getStr\<close>.
\<close>

theorem hasAndGet_equivalent:
  assumes "heap_ok h" "h x \<noteq> None"
  shows "hasAndGetStr h x name rc = getStr h x name rc \<and>
    (hasPropertyStr h x name = Some (Done False) \<longleftrightarrow> hasAndGetStr h x name rc = Some (Done None))"
proof -
  obtain r where r: "resolve h name x r" using resolve_exists[OF assms] by blast
  have "has_result r = Done False \<longleftrightarrow> get_result r (receiver_of rc x) = Done None"
    by (auto simp: has_result_def get_result_def get_prop_def split: resolution.splits slot.splits access.splits)
  then show ?thesis
    using getStr_resolve[OF r] hasPropertyStr_resolve[OF r] hasAndGetStr_resolve[OF r] by simp
qed

theorem hasAndGet_equivalent_witness:
  "hasAndGetStr heap1 1 (ascii ''a'') None = getStr heap1 1 (ascii ''a'') None"
proof -
  have "heap_ok heap1" "heap1 1 \<noteq> None" using heap1_inv by (simp_all add: heap_inv_def heap1_def)
  then show ?thesis using hasAndGet_equivalent by blast
qed

text \<open>
  (C10) Assignment to a property on an object follows ECMAScript's OrdinarySet, provided the properties of that name are consistent: the
  search up the prototype chain always returns; the effect is what the standard determines from the property found, whether it belongs
  to the object and whether the object is extensible: a read-only property or an accessor without a setter refuses, a setter is called on the object, an own
  data property gets the value and keeps its attributes, and otherwise the object gets a new property behind the others if it is extensible.
  Nothing else changes and the heap invariant is kept. A proxy on the chain takes over.
\<close>

theorem assignment_correct:
  assumes "heap_inv h" "h x = Some b" "uniform_slots h name"
  shows "\<exists>r. resolve h name x r \<and>
    (case r of
       AtProxy y \<Rightarrow> setOwnStr h x name v throw = Some (Delegate y, h)
     | Missing \<Rightarrow> \<exists>o' h'. setOwnStr h x name v throw = Some (o', h') \<and> heap_inv h' \<and>
         meets (OrdinarySet (extensible b) False None v) h x name v throw (o', h')
     | Found y s \<Rightarrow> \<exists>o' h'. setOwnStr h x name v throw = Some (o', h') \<and> heap_inv h' \<and>
         meets (OrdinarySet (extensible b) (y = x) (Some (es_view s)) v) h x name v throw (o', h'))"
proof -
  have ok: "heap_ok h" using assms(1) by (simp add: heap_inv_def)
  obtain r where r: "resolve h name x r" using resolve_exists [OF ok] assms(2) by blast
  obtain o' h' where R: "set_result h r x name v throw = (o', h')" by fastforce
  have s: "setOwnStr h x name v throw = Some (o', h')" "heap_inv h'"
    using setOwnStr_resolve [OF ok r, of v throw] set_result_inv [OF assms(1) r, of v throw] R by simp_all
  note e = set_result_effect [OF ok assms(2,3) r, of v throw, unfolded R]
  show ?thesis
  proof (cases r)
    case (Found y t)
    then show ?thesis using r e s by (intro exI [of _ r]) auto
  next
    case Missing
    then show ?thesis using r e s by (intro exI [of _ r]) auto
  next
    case (AtProxy y)
    then show ?thesis using r s R by (intro exI [of _ r]) (auto simp: set_result_def)
  qed
qed

lemma heap1_missing: "resolve heap1 (ascii ''a'') 1 r \<Longrightarrow> r = Missing"
proof -
  have b: "heap1 1 = Some (plain_object\<lparr>prototype := Some 0\<rparr>)" "heap1 0 = Some plain_object" by (simp_all add: heap1_def)
  have "resolve heap1 (ascii ''a'') 0 Missing" using resolve.Top [of heap1 0 plain_object] b by (simp add: plain_object_def)
  then have "resolve heap1 (ascii ''a'') 1 Missing"
    using resolve.Up [of heap1 1 "plain_object\<lparr>prototype := Some 0\<rparr>" _ 0 Missing] b by (simp add: plain_object_def)
  then show "resolve heap1 (ascii ''a'') 1 r \<Longrightarrow> r = Missing" using resolve_unique by blast
qed

theorem assignment_correct_witness:
  "\<exists>h'. setOwnStr heap1 1 (ascii ''a'') (VInt 5) True = Some (Done True, h') \<and>
     has_effect (Store (DataProperty (VInt 5) True True True)) heap1 1 (ascii ''a'') h' \<and> heap_inv h'"
proof -
  have b: "heap1 1 = Some (plain_object\<lparr>prototype := Some 0\<rparr>)" by (simp add: heap1_def)
  have "uniform_slots heap1 (ascii ''a'')" by (simp add: uniform_slots_def heap1_def plain_object_def)
  note a = assignment_correct [OF heap1_inv b this, of "VInt 5" True]
  from a obtain r where r: "resolve heap1 (ascii ''a'') 1 r" by blast
  have "\<And>t. resolve heap1 (ascii ''a'') 1 t \<longleftrightarrow> t = Missing" using heap1_missing r by blast
  with a obtain o' h' where "setOwnStr heap1 1 (ascii ''a'') (VInt 5) True = Some (o', h')" "heap_inv h'"
    "meets (OrdinarySet True False None (VInt 5)) heap1 1 (ascii ''a'') (VInt 5) True (o', h')"
    by (auto simp: plain_object_def simp del: One_nat_def)
  then show ?thesis by (auto simp: meets_def effect_outcome_def)
qed

text \<open>
  A successful assignment is visible: reading the property afterwards gives the value, provided the
  property the object had before was well-formed.
\<close>

theorem read_after_write:
  assumes "heap_inv h" "h x = Some b" "\<forall>s. propValues b name = Some s \<longrightarrow> strict_slot s"
    "setOwnStr h x name v throw = Some (Done True, h')"
  shows "getStr h' x name None = Some (Done (Some v))"
proof -
  have ok: "heap_ok h" using assms(1) by (simp add: heap_inv_def)
  obtain r where r: "resolve h name x r" using resolve_exists[OF ok] assms(2) by blast
  have S: "set_result h r x name v throw = (Done True, h')" using setOwnStr_resolve[OF ok r] assms(4) by simp
  have np: "\<not> is_proxy b" using resolve_proxy[of h x b, OF assms(2) _ r] S by (auto simp: set_result_def)
  have add: ?thesis if "add_property h x name v throw = (Done True, h')"
  proof -
    have "h' x = Some (bo_put name (Plain v) b)"
      using that assms(2) by (auto simp: add_property_def upd_obj_def reject_def split: if_splits)
    then show ?thesis
      using np by (subst getStr.simps) (simp add: bo_put_def Let_def get_prop_def)
  qed
  show ?thesis
  proof (cases "\<exists>s. r = Found x s")
    case True
    then obtain s where s: "r = Found x s" by blast
    have ps: "propValues b name = Some s" using resolve_own[OF ok assms(2)] r s by blast
    have W: "write_own h x name s v throw = (Done True, h')" using S s by (simp add: set_result_def)
    have strict: "strict_slot s" using assms(3) ps by blast
    show ?thesis
    proof (cases s)
      case (Plain w)
      then have "h' x = Some (b\<lparr>propValues := (propValues b)(name \<mapsto> Plain v)\<rparr>)"
        using W assms(2) by (auto simp: write_own_def upd_obj_def)
      then show ?thesis using np by (subst getStr.simps) (simp add: get_prop_def Let_def)
    next
      case (Prop p)
      have p: "vp_setterFunc p = None" "isWritable p"
        using W Prop by (auto simp: write_own_def vp_set_def reject_def split: if_splits option.splits)
      then have "\<not> vp_accessor p" using strict Prop by (auto simp: strict_slot_def isWritable_def)
      then have "vp_getterFunc p = None"
        using strict Prop by (simp add: strict_slot_def slot_ok_def vp_ok_def propToValueProp_def)
      moreover have "h' x = Some (b\<lparr>propValues := (propValues b)(name \<mapsto> Prop (p\<lparr>vp_value := Some v\<rparr>))\<rparr>)"
        using W Prop p assms(2) by (auto simp: write_own_def vp_set_def upd_obj_def)
      ultimately show ?thesis using np by (subst getStr.simps) (simp add: get_prop_def vp_get_def Let_def)
    qed
  next
    case False
    have "add_property h x name v throw = (Done True, h')"
      using S False
      by (auto simp: set_result_def foreign_result_def reject_def
          split: resolution.splits slot.splits option.splits if_splits)
    then show ?thesis by (rule add)
  qed
qed

theorem read_after_write_witness:
  "\<exists>h'. setOwnStr heap1 1 (ascii ''a'') (VInt 5) True = Some (Done True, h') \<and>
     getStr h' 1 (ascii ''a'') None = Some (Done (Some (VInt 5)))"
proof -
  let ?n = "ascii ''a''"
  have b: "heap1 1 = Some (plain_object\<lparr>prototype := Some 0\<rparr>)" "heap1 0 = Some plain_object" by (simp_all add: heap1_def)
  have "resolve heap1 ?n 0 Missing" using resolve.Top[of heap1 0 plain_object ?n] b by (simp add: plain_object_def)
  then have r: "resolve heap1 ?n 1 Missing"
    using resolve.Up[of heap1 1 "plain_object\<lparr>prototype := Some 0\<rparr>" ?n 0 Missing] b by (simp add: plain_object_def)
  have "setOwnStr heap1 1 ?n (VInt 5) True = Some (add_property heap1 1 ?n (VInt 5) True)"
    using setOwnStr_resolve[OF _ r, of "VInt 5" True] heap1_inv by (simp add: set_result_def heap_inv_def)
  then have s: "setOwnStr heap1 1 ?n (VInt 5) True =
      Some (Done True, upd_obj heap1 1 (bo_put ?n (Plain (VInt 5))))"
    using b by (simp add: add_property_def plain_object_def)
  show ?thesis using s read_after_write[OF heap1_inv b(1) _ s] by (simp add: plain_object_def)
qed

text \<open>
  (C33) Setting a prototype always returns and never creates a cycle: the heap invariant is kept, so all
  later lookups return too. An object that is not extensible keeps its prototype.
\<close>

theorem setProto_keeps_acyclic:
  assumes "heap_inv h" "h x = Some b" "\<forall>q. proto = Some q \<longrightarrow> h q \<noteq> None"
  shows "\<exists>r h'. setProto OP h x proto throw = Some (r, h') \<and> heap_inv h' \<and>
    (r = Done True \<longrightarrow> prototype (obj h' x) = proto) \<and> (\<not> extensible b \<longrightarrow> h' = h)"
proof -
  have ok: "heap_ok h" using assms(1) by (simp add: heap_inv_def)
  obtain c where c: "on_chain h x proto = Some c" using on_chain_iff[OF ok assms(3)] by blast
  let ?h = "upd_obj h x (prototype_update (\<lambda>_. proto))"
  have "heap_inv ?h" if "\<not> c"
    using setProto_heap_ok[OF ok assms(2,3)] c that assms(1,2)
    by (auto simp: heap_inv_def upd_obj_def bo_ok_def split: if_splits)
  moreover have "prototype (obj ?h x) = proto" by (simp add: upd_obj_def)
  ultimately show ?thesis
    using c assms(1,2) by (auto simp: setProto_def reject_def split: bool.splits)
qed

theorem setProto_keeps_acyclic_witness:
  "\<exists>r h'. setProto 5 heap1 0 (Some 1) False = Some (r, h') \<and> heap_inv h' \<and> r = Done False"
proof -
  have b: "heap1 0 = Some plain_object" "\<forall>q. Some 1 = Some q \<longrightarrow> heap1 q \<noteq> None" by (simp_all add: heap1_def)
  have "on_chain heap1 0 (Some 1) = Some True"
    by (subst on_chain.simps) (simp add: heap1_def plain_object_def, subst on_chain.simps, simp)
  then have "setProto 5 heap1 0 (Some 1) False = Some (Done False, heap1)"
    using b by (simp add: setProto_def reject_def plain_object_def)
  then show ?thesis using setProto_keeps_acyclic[OF heap1_inv b, of 5 False] by auto
qed

text \<open>
  (C20) The keys of an object are listed in the order ECMAScript demands, although they are stored in
  order of insertion and rearranged lazily: first the array indices in ascending numeric order, then
  the other names in the order in which they were added, each name once. Rearranging keeps the
  invariant and the properties.
\<close>

theorem stringKeys_order:
  assumes "bo_ok b" "stringKeys True b = (ks, b')"
  shows "ks = filter is_idx ks @ filter (\<lambda>s. \<not> is_idx s) (propNames b) \<and>
    sorted_wrt (\<lambda>x y. strToArrayIdx x < strToArrayIdx y) (filter is_idx ks) \<and>
    mset ks = mset (propNames b) \<and> set ks = dom (propValues b) \<and> distinct ks \<and>
    bo_ok b' \<and> propValues b' = propValues b"
proof -
  have e: "b' = ensurePropOrder b" "ks = propNames (ensurePropOrder b)"
    using assms(2) by (auto simp: stringKeys_def Let_def)
  note F = fixPropOrder_ok[OF assms(1)]
  have "lastSortedPropLen (ensurePropOrder b) = length (propNames (ensurePropOrder b))"
    using F(3,4) by (metis size_mset)
  note S = sorted_names_split[OF F(1) this]
  have "distinct ks" "set ks = dom (propValues b)" using F(1,2) e by (auto simp: bo_ok_def)
  then show ?thesis using S F e by simp
qed

theorem stringKeys_order_witness:
  "\<exists>ks b'. stringKeys True (bo_put (ascii ''7'') (Plain VNull) (bo_put (ascii ''b'') (Plain VNull) plain_object)) = (ks, b') \<and>
     mset ks = {#ascii ''b'', ascii ''7''#} \<and> bo_ok b'"
proof -
  let ?b = "bo_put (ascii ''7'') (Plain VNull) (bo_put (ascii ''b'') (Plain VNull) plain_object)"
  have "bo_ok plain_object" by (simp add: plain_object_def bo_ok_def ordered_prefix_def)
  then have ok: "bo_ok ?b" by (intro bo_put_ok)
  obtain ks b' where k: "stringKeys True ?b = (ks, b')" by (cases "stringKeys True ?b")
  have "propNames ?b = [ascii ''b'', ascii ''7'']" by (simp add: bo_put_def plain_object_def ascii_def)
  then show ?thesis using k stringKeys_order[OF ok k] by simp
qed

text \<open>
  Deleting a property removes it or, if it is not configurable, fails (with an error when the caller
  asked to throw) and changes nothing; the other properties and the invariant are kept.
\<close>

theorem delete_correct:
  assumes "heap_inv h" "h x = Some b"
  shows "case deleteStr h x name throw of (r, h') \<Rightarrow>
    heap_inv h' \<and> (\<forall>y. y \<noteq> x \<longrightarrow> h' y = h y) \<and>
    (if \<exists>p. propValues b name = Some (Prop p) \<and> \<not> vp_configurable p
     then h' = h \<and> r = reject throw
     else r = Done True \<and> propValues (obj h' x) = (propValues b)(name := None))"
proof (cases "propValues b name")
  case None
  then have "(propValues b)(name := None) = propValues b" by auto
  then show ?thesis using assms None by (simp add: deleteStr_def)
next
  case (Some s)
  have I: "heap_inv (upd_obj h x (bo_delete name))"
    using assms by (intro upd_obj_ok[OF assms]) (auto simp: heap_inv_def intro: bo_delete_ok)
  have V: "propValues (bo_delete name b) = (propValues b)(name := None)"
    by (auto simp: bo_delete_def Let_def split: option.splits)
  show ?thesis
    using assms Some I V
    by (cases s) (auto simp: deleteStr_def checkDelete_def checkDeleteProp_def reject_def upd_obj_def)
qed

theorem delete_correct_witness:
  "case deleteStr heap1 1 (ascii ''a'') True of (r, h') \<Rightarrow> heap_inv h' \<and> r = Done True"
proof -
  have b: "heap1 1 = Some (plain_object\<lparr>prototype := Some 0\<rparr>)" by (simp add: heap1_def)
  show ?thesis using delete_correct[OF heap1_inv b, of "ascii ''a''" True] by (simp add: plain_object_def split: prod.splits)
qed

end
