(* ===== verification/Arrays.thy ===== *)
theory Arrays
  imports Objects
begin

text \<open>
  Arrays (array.go, array_sparse.go): the dense representation over a Go slice and the sparse one over a
  sorted list of items, the operations on indices and on \<^verbatim>\<open>length\<close>, and the switches between the two
  representations. Indices and lengths are \<^verbatim>\<open>uint32\<close> in the code and natural numbers with the
  wrap-around written out here; a slice is the list of its elements and the list of the spare elements
  of its backing array, so that its capacity is the length of both. An operation has no value
  (\<open>None\<close>) where Go panics with a division by zero or a slice larger than its capacity, or where the
  growth of a capacity would not end. The platform is a 64-bit one (\<^verbatim>\<open>bits.UintSize\<close> is 64).
\<close>

section \<open>The two representations\<close>

record arrayObject =
  ar_values :: "slot option list"
  ar_spare :: "slot option list"
  ar_length :: nat
  ar_objCount :: int
  ar_propValueCount :: int
  ar_lengthProp :: valueProperty

record sparseArrayObject =
  sp_items :: "(nat \<times> slot) list"
  sp_length :: nat
  sp_propValueCount :: int
  sp_lengthProp :: valueProperty

text \<open>What \<^verbatim>\<open>val.self\<close> of an array points to.\<close>

datatype arrayImpl = Std arrayObject | Sparse sparseArrayObject

definition u32 :: "nat \<Rightarrow> nat" where "u32 n = n mod 2 ^ 32"

definition ar_cap :: "arrayObject \<Rightarrow> nat" where
  "ar_cap a = length (ar_values a) + length (ar_spare a)"

definition is_prop :: "slot option \<Rightarrow> bool" where
  "is_prop s = (case s of Some (Prop _) \<Rightarrow> True | _ \<Rightarrow> False)"

text \<open>\<^verbatim>\<open>newArray\<close> with \<^verbatim>\<open>init\<close>, and \<^verbatim>\<open>setArrayValues\<close> with a slice without spare elements; a nil value is a hole.\<close>

definition newArray :: arrayObject where
  "newArray = \<lparr>ar_values = [], ar_spare = [], ar_length = 0, ar_objCount = 0, ar_propValueCount = 0,
     ar_lengthProp = empty_property\<lparr>vp_writable := True\<rparr>\<rparr>"

definition setArrayValues :: "arrayObject \<Rightarrow> val option list \<Rightarrow> arrayObject" where
  "setArrayValues a vs =
     a\<lparr>ar_values := map (map_option Plain) vs, ar_spare := [], ar_length := u32 (length vs),
       ar_objCount := int (length vs)\<rparr>"

section \<open>The dense representation\<close>

text \<open>
  The slow path of \<^verbatim>\<open>_setLengthInt\<close>: it walks down from the last element to the new length and stops
  above the first non-configurable one. The first argument is one more than the loop's index.
\<close>

fun std_trim :: "nat \<Rightarrow> nat \<Rightarrow> slot option list \<Rightarrow> int \<Rightarrow> nat \<times> bool \<times> int" where
  "std_trim 0 l vs c = (l, True, c)"
| "std_trim (Suc i) l vs c =
     (if i < l then (l, True, c)
      else case vs ! i of
        Some (Prop p) \<Rightarrow>
          if \<not> vp_configurable p then (u32 (u32 i + 1), False, c) else std_trim i l vs (c - 1)
      | _ \<Rightarrow> std_trim i l vs c)"

definition std_truncate :: "arrayObject \<Rightarrow> nat \<Rightarrow> arrayObject" where
  "std_truncate a l =
     (if l \<le> u32 (length (ar_values a)) then
        (if 16 \<le> l \<and> l < u32 (ar_cap a) div 4
         then a\<lparr>ar_values := take l (ar_values a), ar_spare := []\<rparr>
         else a\<lparr>ar_values := take l (ar_values a),
                ar_spare := replicate (length (ar_values a) - l) None @ ar_spare a\<rparr>)
      else a)"

definition std__setLengthInt :: "arrayObject \<Rightarrow> nat \<Rightarrow> bool \<Rightarrow> bool outcome \<times> arrayObject" where
  "std__setLengthInt a l throw =
     (case (if l \<le> ar_length a \<and> 0 < ar_propValueCount a
            then std_trim (length (ar_values a)) l (ar_values a) (ar_propValueCount a)
            else (l, True, ar_propValueCount a)) of
        (l', ok, c) \<Rightarrow>
          (if ok then Done True else reject throw,
           (std_truncate (a\<lparr>ar_propValueCount := c\<rparr>) l')\<lparr>ar_length := l'\<rparr>))"

definition std_setLengthInt :: "arrayObject \<Rightarrow> nat \<Rightarrow> bool \<Rightarrow> bool outcome \<times> arrayObject" where
  "std_setLengthInt a l throw =
     (if l = ar_length a then (Done True, a)
      else if \<not> vp_writable (ar_lengthProp a) then (reject throw, a)
      else std__setLengthInt a l throw)"

definition std_setLength :: "arrayObject \<Rightarrow> nat \<Rightarrow> bool \<Rightarrow> bool outcome \<times> arrayObject" where
  "std_setLength a v throw =
     (if \<not> vp_writable (ar_lengthProp a) then (reject throw, a) else std__setLengthInt a v throw)"

definition std_elem :: "arrayObject \<Rightarrow> nat \<Rightarrow> slot option" where
  "std_elem a idx = (if idx < u32 (length (ar_values a)) then ar_values a ! idx else None)"

definition std_getLengthProp :: "arrayObject \<Rightarrow> valueProperty" where
  "std_getLengthProp a = (ar_lengthProp a)\<lparr>vp_value := Some (intToValue (int (ar_length a)))\<rparr>"

text \<open>\<^verbatim>\<open>growCap\<close>: the capacity of a reallocated slice.\<close>

partial_function (option) growCap_loop :: "int \<Rightarrow> int \<Rightarrow> int option" where
  "growCap_loop newSize c =
     (if 0 < c \<and> c < newSize then growCap_loop newSize (int64 (c + c div 4)) else Some c)"

definition growCap :: "int \<Rightarrow> int \<Rightarrow> int \<Rightarrow> int option" where
  "growCap newSize oldSize oldCap =
     (let doublecap = int64 (oldCap + oldCap) in
      if doublecap < newSize then Some newSize
      else if oldSize < 1024 then Some doublecap
      else map_option (\<lambda>c. if c \<le> 0 then newSize else c) (growCap_loop newSize oldCap))"

text \<open>\<^verbatim>\<open>setValues\<close>: the items of a sparse array from the elements of a dense one.\<close>

fun sp_setValues :: "nat \<Rightarrow> slot option list \<Rightarrow> (nat \<times> slot) list" where
  "sp_setValues i [] = []"
| "sp_setValues i (None # vs) = sp_setValues (Suc i) vs"
| "sp_setValues i (Some s # vs) = (u32 i, s) # sp_setValues (Suc i) vs"

definition to_sparse :: "arrayObject \<Rightarrow> sparseArrayObject" where
  "to_sparse a = \<lparr>sp_items = sp_setValues 0 (ar_values a), sp_length = ar_length a,
     sp_propValueCount = ar_propValueCount a,
     sp_lengthProp = empty_property\<lparr>vp_writable := vp_writable (ar_lengthProp a)\<rparr>\<rparr>"

text \<open>
  \<^verbatim>\<open>expand\<close> makes room for an index: within the capacity, by switching to the sparse representation, or by
  a larger slice. The quotient is taken in \<^verbatim>\<open>uint32\<close>; a zero divisor is Go's run-time panic.
\<close>

definition std_expand :: "arrayObject \<Rightarrow> nat \<Rightarrow> arrayImpl option" where
  "std_expand a idx =
     (let targetLen = u32 (idx + 1); n = length (ar_values a) in
      if u32 n < targetLen then
        if targetLen < u32 (ar_cap a) then
          Some (Std (a\<lparr>ar_values := ar_values a @ take (targetLen - n) (ar_spare a),
                       ar_spare := drop (targetLen - n) (ar_spare a)\<rparr>))
        else
          let dvs = uint32 (ar_objCount a);
              grown = (case growCap (int targetLen) (int n) (int (ar_cap a)) of
                         None \<Rightarrow> None
                       | Some c \<Rightarrow>
                           if c < int targetLen then None
                           else Some (Std (a\<lparr>ar_values := ar_values a @ replicate (targetLen - n) None,
                                             ar_spare := replicate (nat c - targetLen) None\<rparr>)))
          in if idx \<le> 4096 then grown
             else if ar_objCount a = 0 then Some (Sparse (to_sparse a))
             else if dvs = 0 then None
             else if 10 < int idx div dvs then Some (Sparse (to_sparse a))
             else grown
      else Some (Std a))"

section \<open>The sparse representation\<close>

definition sp_findIdx :: "(nat \<times> slot) list \<Rightarrow> nat \<Rightarrow> nat" where
  "sp_findIdx items idx = sort_Search (length items) (\<lambda>i. idx \<le> fst (items ! i))"

fun sp_trim :: "nat \<Rightarrow> nat \<Rightarrow> (nat \<times> slot) list \<Rightarrow> int \<Rightarrow> nat \<times> bool \<times> int" where
  "sp_trim 0 l items c = (l, True, c)"
| "sp_trim (Suc i) l items c =
     (if fst (items ! i) < l then (l, True, c)
      else case snd (items ! i) of
        Prop p \<Rightarrow>
          if \<not> vp_configurable p then (u32 (fst (items ! i) + 1), False, c) else sp_trim i l items (c - 1)
      | Plain _ \<Rightarrow> sp_trim i l items c)"

definition sp__setLengthInt :: "sparseArrayObject \<Rightarrow> nat \<Rightarrow> bool \<Rightarrow> bool outcome \<times> sparseArrayObject" where
  "sp__setLengthInt a l throw =
     (case (if l \<le> sp_length a \<and> 0 < sp_propValueCount a
            then sp_trim (length (sp_items a)) l (sp_items a) (sp_propValueCount a)
            else (l, True, sp_propValueCount a)) of
        (l', ok, c) \<Rightarrow>
          (if ok then Done True else reject throw,
           a\<lparr>sp_items := take (sp_findIdx (sp_items a) l') (sp_items a), sp_length := l',
             sp_propValueCount := c\<rparr>))"

definition sp_setLengthInt :: "sparseArrayObject \<Rightarrow> nat \<Rightarrow> bool \<Rightarrow> bool outcome \<times> sparseArrayObject" where
  "sp_setLengthInt a l throw =
     (if l = sp_length a then (Done True, a)
      else if \<not> vp_writable (sp_lengthProp a) then (reject throw, a)
      else sp__setLengthInt a l throw)"

definition sp_setLength :: "sparseArrayObject \<Rightarrow> nat \<Rightarrow> bool \<Rightarrow> bool outcome \<times> sparseArrayObject" where
  "sp_setLength a v throw =
     (if \<not> vp_writable (sp_lengthProp a) then (reject throw, a) else sp__setLengthInt a v throw)"

definition sp_at :: "(nat \<times> slot) list \<Rightarrow> nat \<Rightarrow> nat \<Rightarrow> bool" where
  "sp_at items i idx \<longleftrightarrow> i < length items \<and> fst (items ! i) = idx"

definition sp_getIdx :: "sparseArrayObject \<Rightarrow> nat \<Rightarrow> slot option" where
  "sp_getIdx a idx =
     (let i = sp_findIdx (sp_items a) idx in
      if sp_at (sp_items a) i idx then Some (snd (sp_items a ! i)) else None)"

definition sp_getLengthProp :: "sparseArrayObject \<Rightarrow> valueProperty" where
  "sp_getLengthProp a = (sp_lengthProp a)\<lparr>vp_value := Some (intToValue (int (sp_length a)))\<rparr>"

definition sp_add :: "sparseArrayObject \<Rightarrow> nat \<Rightarrow> slot \<Rightarrow> sparseArrayObject" where
  "sp_add a idx s = a\<lparr>sp_items := insert_at (sp_findIdx (sp_items a) idx) (idx, s) (sp_items a)\<rparr>"

text \<open>\<^verbatim>\<open>setValuesFromSparse\<close> and the switch in \<^verbatim>\<open>expand\<close>; \<open>None\<close> is the answer true, that the array stays sparse.\<close>

definition setValuesFromSparse :: "(nat \<times> slot) list \<Rightarrow> nat \<Rightarrow> slot option list" where
  "setValuesFromSparse items newMaxIdx =
     foldl (\<lambda>vs item. vs[fst item := Some (snd item)]) (replicate (newMaxIdx + 1) None) items"

definition to_dense :: "sparseArrayObject \<Rightarrow> nat \<Rightarrow> arrayObject" where
  "to_dense a idx = \<lparr>ar_values = setValuesFromSparse (sp_items a) idx, ar_spare = [],
     ar_length = sp_length a, ar_objCount = int (length (sp_items a)),
     ar_propValueCount = sp_propValueCount a,
     ar_lengthProp = empty_property\<lparr>vp_writable := vp_writable (sp_lengthProp a)\<rparr>\<rparr>"

definition sp_expand :: "sparseArrayObject \<Rightarrow> nat \<Rightarrow> arrayObject option" where
  "sp_expand a idx =
     (let l = length (sp_items a) in
      if 1024 \<le> l then
        let ii = fst (sp_items a ! (l - 1)); idx' = (if idx < ii then ii else idx) in
        if idx' div 8 < l then Some (to_dense a idx') else None
      else None)"

section \<open>Operations on indices\<close>

text \<open>
  The arguments that come from the array's \<^verbatim>\<open>baseObject\<close>: \<open>ext\<close> is \<^verbatim>\<open>extensible\<close>, \<open>x\<close> the array itself and
  \<open>foreign\<close> the answer of the prototype's \<^verbatim>\<open>setForeignIdx\<close> (\<open>None\<close> if it does not handle the assignment or
  there is no prototype), a dynamically dispatched call.
\<close>

definition write_slot :: "oid \<Rightarrow> slot \<Rightarrow> val \<Rightarrow> bool \<Rightarrow> bool outcome \<times> slot" where
  "write_slot x s v throw =
     (case s of
        Plain _ \<Rightarrow> (Done True, Plain v)
      | Prop p \<Rightarrow>
          if \<not> isWritable p then (reject throw, s)
          else (case vp_set p v of Now p' \<Rightarrow> (Done True, Prop p') | Call f \<Rightarrow> (CallSetter f (VObj x) v, s)))"

definition std_put :: "arrayObject \<Rightarrow> nat \<Rightarrow> slot \<Rightarrow> arrayObject" where
  "std_put a idx s = a\<lparr>ar_values := (ar_values a)[idx := Some s]\<rparr>"

definition std_setOwnIdx ::
  "bool \<Rightarrow> bool outcome option \<Rightarrow> oid \<Rightarrow> arrayObject \<Rightarrow> nat \<Rightarrow> val \<Rightarrow> bool \<Rightarrow> (bool outcome \<times> arrayImpl) option" where
  "std_setOwnIdx ext foreign x a idx v throw =
     (case std_elem a idx of
        Some s \<Rightarrow> (case write_slot x s v throw of (r, s') \<Rightarrow> Some (r, Std (std_put a idx s')))
      | None \<Rightarrow>
          (case foreign of
             Some r \<Rightarrow> Some (r, Std a)
           | None \<Rightarrow>
               if \<not> ext then Some (reject throw, Std a)
               else
                 (case (if ar_length a \<le> idx then std_setLengthInt a (u32 (idx + 1)) throw else (Done True, a)) of
                    (Done True, a1) \<Rightarrow>
                      if u32 (length (ar_values a1)) \<le> idx then
                        (case std_expand a1 idx of
                           None \<Rightarrow> None
                         | Some (Sparse s) \<Rightarrow> Some (Done True, Sparse (sp_add s idx (Plain v)))
                         | Some (Std a2) \<Rightarrow>
                             Some (Done True, Std ((std_put a2 idx (Plain v))\<lparr>ar_objCount := ar_objCount a2 + 1\<rparr>)))
                      else Some (Done True, Std ((std_put a1 idx (Plain v))\<lparr>ar_objCount := ar_objCount a1 + 1\<rparr>))
                  | (r, a1) \<Rightarrow> Some (r, Std a1))))"

definition sp_put :: "sparseArrayObject \<Rightarrow> nat \<Rightarrow> nat \<Rightarrow> slot \<Rightarrow> sparseArrayObject" where
  "sp_put a i idx s = a\<lparr>sp_items := (sp_items a)[i := (idx, s)]\<rparr>"

definition sp_setOwnIdx ::
  "bool \<Rightarrow> bool outcome option \<Rightarrow> oid \<Rightarrow> sparseArrayObject \<Rightarrow> nat \<Rightarrow> val \<Rightarrow> bool \<Rightarrow> bool outcome \<times> arrayImpl" where
  "sp_setOwnIdx ext foreign x a idx v throw =
     (let i = sp_findIdx (sp_items a) idx in
      if sp_at (sp_items a) i idx then
        (case write_slot x (snd (sp_items a ! i)) v throw of (r, s') \<Rightarrow> (r, Sparse (sp_put a i idx s')))
      else
        (case foreign of
           Some r \<Rightarrow> (r, Sparse a)
         | None \<Rightarrow>
             if \<not> ext then (reject throw, Sparse a)
             else
               (case (if sp_length a \<le> idx then sp_setLengthInt a (u32 (idx + 1)) throw else (Done True, a)) of
                  (Done True, a1) \<Rightarrow>
                    (case sp_expand a1 idx of
                       None \<Rightarrow> (Done True, Sparse (a1\<lparr>sp_items := insert_at i (idx, Plain v) (sp_items a1)\<rparr>))
                     | Some ar \<Rightarrow>
                         (Done True, Std ((std_put ar idx (Plain v))\<lparr>ar_objCount := ar_objCount ar + 1\<rparr>)))
                | (r, a1) \<Rightarrow> (r, Sparse a1))))"

definition std_defineIdxProperty ::
  "(oid \<Rightarrow> bool) \<Rightarrow> bool \<Rightarrow> arrayObject \<Rightarrow> nat \<Rightarrow> PropertyDescriptor \<Rightarrow> bool \<Rightarrow> (bool outcome \<times> arrayImpl) option" where
  "std_defineIdxProperty callable ext a idx desc throw =
     (case defineOwnProperty callable ext (std_elem a idx) desc throw of
        Inl err \<Rightarrow> Some (Throw err, Std a)
      | Inr None \<Rightarrow> Some (Done False, Std a)
      | Inr (Some prop) \<Rightarrow>
          (case (if ar_length a \<le> idx then std_setLengthInt a (u32 (idx + 1)) throw else (Done True, a)) of
             (Done True, a1) \<Rightarrow>
               (case std_expand a1 idx of
                  None \<Rightarrow> None
                | Some (Std a2) \<Rightarrow>
                    Some (Done True, Std ((std_put a2 idx prop)\<lparr>ar_objCount := ar_objCount a2 + 1,
                      ar_propValueCount := ar_propValueCount a2 + (if is_prop (Some prop) then 1 else 0)\<rparr>))
                | Some (Sparse s) \<Rightarrow> Some (Done True, Sparse (sp_add s idx prop)))
           | (r, a1) \<Rightarrow> Some (r, Std a1)))"

text \<open>
  In the sparse case the count of properties is increased on the sparse object, which is no longer the
  array's once \<^verbatim>\<open>expand\<close> has switched to the dense representation.
\<close>

definition sp_defineIdxProperty ::
  "(oid \<Rightarrow> bool) \<Rightarrow> bool \<Rightarrow> sparseArrayObject \<Rightarrow> nat \<Rightarrow> PropertyDescriptor \<Rightarrow> bool \<Rightarrow> bool outcome \<times> arrayImpl" where
  "sp_defineIdxProperty callable ext a idx desc throw =
     (let i = sp_findIdx (sp_items a) idx in
      case defineOwnProperty callable ext
             (if sp_at (sp_items a) i idx then Some (snd (sp_items a ! i)) else None) desc throw of
        Inl err \<Rightarrow> (Throw err, Sparse a)
      | Inr None \<Rightarrow> (Done False, Sparse a)
      | Inr (Some prop) \<Rightarrow>
          (case (if sp_length a \<le> idx then sp_setLengthInt a (u32 (idx + 1)) throw else (Done True, a)) of
             (Done True, a1) \<Rightarrow>
               let c = sp_propValueCount a1 + (if is_prop (Some prop) then 1 else 0) in
               if \<not> sp_at (sp_items a1) i idx then
                 (case sp_expand a1 idx of
                    None \<Rightarrow>
                      let a2 = a1\<lparr>sp_items := insert_at i (idx, prop) (sp_items a1), sp_propValueCount := c\<rparr> in
                      (Done True, Sparse (if sp_length a2 \<le> idx then a2\<lparr>sp_length := u32 (idx + 1)\<rparr> else a2))
                  | Some ar \<Rightarrow> (Done True, Std (std_put ar idx prop)))
               else (Done True, Sparse ((sp_put a1 i idx prop)\<lparr>sp_propValueCount := c\<rparr>))
           | (r, a1) \<Rightarrow> (r, Sparse a1)))"

definition std_deleteIdxProp :: "arrayObject \<Rightarrow> nat \<Rightarrow> bool \<Rightarrow> bool outcome \<times> arrayObject" where
  "std_deleteIdxProp a idx throw =
     (case std_elem a idx of
        None \<Rightarrow> (Done True, a)
      | Some (Plain _) \<Rightarrow>
          (Done True, a\<lparr>ar_values := (ar_values a)[idx := None], ar_objCount := ar_objCount a - 1\<rparr>)
      | Some (Prop p) \<Rightarrow>
          if \<not> vp_configurable p then (reject throw, a)
          else (Done True, a\<lparr>ar_values := (ar_values a)[idx := None], ar_objCount := ar_objCount a - 1,
                  ar_propValueCount := ar_propValueCount a - 1\<rparr>))"

definition sp_deleteIdxProp :: "sparseArrayObject \<Rightarrow> nat \<Rightarrow> bool \<Rightarrow> bool outcome \<times> sparseArrayObject" where
  "sp_deleteIdxProp a idx throw =
     (let i = sp_findIdx (sp_items a) idx in
      if sp_at (sp_items a) i idx then
        (case snd (sp_items a ! i) of
           Plain _ \<Rightarrow> (Done True, a\<lparr>sp_items := remove_at i (sp_items a)\<rparr>)
         | Prop p \<Rightarrow>
             if \<not> vp_configurable p then (reject throw, a)
             else (Done True, a\<lparr>sp_items := remove_at i (sp_items a),
                     sp_propValueCount := sp_propValueCount a - 1\<rparr>))
      else (Done True, a))"

text \<open>
  \<^verbatim>\<open>defineArrayLength\<close>, with the converted value of the descriptor (\<^verbatim>\<open>toLengthUint32\<close>) as an argument, the
  length property as \<^verbatim>\<open>getLengthProp\<close> returned it and the setter \<^verbatim>\<open>setLength\<close> of the representation. The
  result is the answer, the array after the setter and the new \<^verbatim>\<open>writable\<close> of the property.
\<close>

definition defineArrayLength ::
  "valueProperty \<Rightarrow> PropertyDescriptor \<Rightarrow> nat \<Rightarrow> (nat \<Rightarrow> bool \<Rightarrow> bool outcome \<times> 'a) \<Rightarrow> 'a \<Rightarrow> bool \<Rightarrow>
    bool outcome \<times> 'a \<times> bool" where
  "defineArrayLength prop descr newLen setter a throw =
     (if pd_configurable descr = FLAG_TRUE \<or> pd_enumerable descr = FLAG_TRUE \<or>
         pd_getter descr \<noteq> None \<or> pd_setter descr \<noteq> None
      then (reject throw, a, vp_writable prop)
      else
        let oldLen = (case vp_value prop of Some v \<Rightarrow> nat (uint32 (ToInteger v)) | None \<Rightarrow> 0);
            (ret, a1) = (if pd_value descr \<noteq> None \<and> oldLen \<noteq> newLen
                         then (case setter newLen False of (r, a') \<Rightarrow> (r = Done True, a')) else (True, a));
            w = Flag_Bool (pd_writable descr)
        in if pd_writable descr \<noteq> FLAG_NOT_SET \<and> \<not> vp_writable prop \<and> w
           then (reject throw, a1, vp_writable prop)
           else (if ret then Done True else reject throw, a1,
                 if pd_writable descr \<noteq> FLAG_NOT_SET \<and> vp_writable prop then w else vp_writable prop))"

section \<open>Dispatch on the representation\<close>

definition a_getIdx :: "arrayImpl \<Rightarrow> nat \<Rightarrow> slot option" where
  "a_getIdx A idx = (case A of Std a \<Rightarrow> std_elem a idx | Sparse a \<Rightarrow> sp_getIdx a idx)"

definition a_length :: "arrayImpl \<Rightarrow> nat" where
  "a_length A = (case A of Std a \<Rightarrow> ar_length a | Sparse a \<Rightarrow> sp_length a)"

definition a_lengthProp :: "arrayImpl \<Rightarrow> valueProperty" where
  "a_lengthProp A = (case A of Std a \<Rightarrow> std_getLengthProp a | Sparse a \<Rightarrow> sp_getLengthProp a)"

definition a_setOwnIdx ::
  "bool \<Rightarrow> bool outcome option \<Rightarrow> oid \<Rightarrow> arrayImpl \<Rightarrow> nat \<Rightarrow> val \<Rightarrow> bool \<Rightarrow> (bool outcome \<times> arrayImpl) option" where
  "a_setOwnIdx ext foreign x A idx v throw =
     (case A of
        Std a \<Rightarrow> std_setOwnIdx ext foreign x a idx v throw
      | Sparse a \<Rightarrow> Some (sp_setOwnIdx ext foreign x a idx v throw))"

definition a_defineIdx ::
  "(oid \<Rightarrow> bool) \<Rightarrow> bool \<Rightarrow> arrayImpl \<Rightarrow> nat \<Rightarrow> PropertyDescriptor \<Rightarrow> bool \<Rightarrow> (bool outcome \<times> arrayImpl) option" where
  "a_defineIdx callable ext A idx desc throw =
     (case A of
        Std a \<Rightarrow> std_defineIdxProperty callable ext a idx desc throw
      | Sparse a \<Rightarrow> Some (sp_defineIdxProperty callable ext a idx desc throw))"

definition a_deleteIdx :: "arrayImpl \<Rightarrow> nat \<Rightarrow> bool \<Rightarrow> bool outcome \<times> arrayImpl" where
  "a_deleteIdx A idx throw =
     (case A of
        Std a \<Rightarrow> (case std_deleteIdxProp a idx throw of (r, a') \<Rightarrow> (r, Std a'))
      | Sparse a \<Rightarrow> (case sp_deleteIdxProp a idx throw of (r, a') \<Rightarrow> (r, Sparse a')))"

definition a_setLength :: "arrayImpl \<Rightarrow> nat \<Rightarrow> bool \<Rightarrow> bool outcome \<times> arrayImpl" where
  "a_setLength A l throw =
     (case A of
        Std a \<Rightarrow> (case std_setLength a l throw of (r, a') \<Rightarrow> (r, Std a'))
      | Sparse a \<Rightarrow> (case sp_setLength a l throw of (r, a') \<Rightarrow> (r, Sparse a')))"

definition set_lengthWritable :: "bool \<Rightarrow> arrayImpl \<Rightarrow> arrayImpl" where
  "set_lengthWritable w A =
     (case A of
        Std a \<Rightarrow> Std (a\<lparr>ar_lengthProp := (ar_lengthProp a)\<lparr>vp_writable := w\<rparr>\<rparr>)
      | Sparse a \<Rightarrow> Sparse (a\<lparr>sp_lengthProp := (sp_lengthProp a)\<lparr>vp_writable := w\<rparr>\<rparr>))"

definition a_defineLength :: "arrayImpl \<Rightarrow> PropertyDescriptor \<Rightarrow> nat \<Rightarrow> bool \<Rightarrow> bool outcome \<times> arrayImpl" where
  "a_defineLength A descr newLen throw =
     (case defineArrayLength (a_lengthProp A) descr newLen (a_setLength A) A throw of
        (r, A', w) \<Rightarrow> (r, set_lengthWritable w A'))"

text \<open>\<^verbatim>\<open>stringKeys\<close>: the indices in ascending order, then the names of the \<^verbatim>\<open>baseObject\<close>.\<close>

definition shown :: "bool \<Rightarrow> slot \<Rightarrow> bool" where
  "shown all s \<longleftrightarrow> all \<or> (case s of Prop p \<Rightarrow> vp_enumerable p | Plain _ \<Rightarrow> True)"

fun std_keys :: "bool \<Rightarrow> nat \<Rightarrow> slot option list \<Rightarrow> nat list" where
  "std_keys all i [] = []"
| "std_keys all i (s # vs) =
     (case s of
        None \<Rightarrow> std_keys all (Suc i) vs
      | Some t \<Rightarrow> if shown all t then i # std_keys all (Suc i) vs else std_keys all (Suc i) vs)"

definition sp_keys :: "bool \<Rightarrow> (nat \<times> slot) list \<Rightarrow> nat list" where
  "sp_keys all items = map fst (filter (\<lambda>(i, s). shown all s) items)"

definition a_keys :: "bool \<Rightarrow> arrayImpl \<Rightarrow> nat list" where
  "a_keys all A = (case A of Std a \<Rightarrow> std_keys all 0 (ar_values a) | Sparse a \<Rightarrow> sp_keys all (sp_items a))"

definition a_stringKeys :: "bool \<Rightarrow> arrayImpl \<Rightarrow> baseObject \<Rightarrow> ustr list \<times> baseObject" where
  "a_stringKeys all A b =
     (case stringKeys all b of (names, b') \<Rightarrow> (map dec_nat (a_keys all A) @ names, b'))"

text \<open>The methods with a property name: array indices, \<^verbatim>\<open>length\<close>, and the names of the \<^verbatim>\<open>baseObject\<close>.\<close>

definition length_name :: ustr where "length_name = ascii ''length''"

definition a_getOwnPropStr :: "heap \<Rightarrow> oid \<Rightarrow> arrayImpl \<Rightarrow> ustr \<Rightarrow> slot option" where
  "a_getOwnPropStr h x A name =
     (let i = strToArrayIdx name;
          rest = (if name = length_name then Some (Prop (a_lengthProp A)) else getOwnPropStr h x name)
      in case A of
           Std a \<Rightarrow>
             if ar_values a \<noteq> [] \<and> i \<noteq> MaxUint32 \<and> i < int (u32 (length (ar_values a)))
             then ar_values a ! nat i else rest
         | Sparse a \<Rightarrow> if i \<noteq> MaxUint32 then sp_getIdx a (nat i) else rest)"

definition a_hasOwnPropertyStr :: "heap \<Rightarrow> oid \<Rightarrow> arrayImpl \<Rightarrow> ustr \<Rightarrow> bool" where
  "a_hasOwnPropertyStr h x A name =
     (let i = strToArrayIdx name in
      if i \<noteq> MaxUint32 then
        (case A of
           Std a \<Rightarrow> std_elem a (nat i) \<noteq> None
         | Sparse a \<Rightarrow> sp_at (sp_items a) (sp_findIdx (sp_items a) (nat i)) (nat i))
      else hasOwnPropertyStr h x name)"

definition a_deleteStr :: "heap \<Rightarrow> oid \<Rightarrow> arrayImpl \<Rightarrow> ustr \<Rightarrow> bool \<Rightarrow> bool outcome \<times> arrayImpl \<times> heap" where
  "a_deleteStr h x A name throw =
     (let i = strToArrayIdx name in
      if i \<noteq> MaxUint32 then (case a_deleteIdx A (nat i) throw of (r, A') \<Rightarrow> (r, A', h))
      else (case deleteStr h x name throw of (r, h') \<Rightarrow> (r, A, h')))"

text \<open>\<open>newLen\<close> is the value converted by \<^verbatim>\<open>toLengthUint32\<close>, which is only called for the name \<^verbatim>\<open>length\<close>.\<close>

definition a_setOwnStr ::
  "heap \<Rightarrow> bool outcome option \<Rightarrow> oid \<Rightarrow> arrayImpl \<Rightarrow> ustr \<Rightarrow> val \<Rightarrow> jserr + nat \<Rightarrow> bool \<Rightarrow>
    (bool outcome \<times> arrayImpl \<times> heap) option" where
  "a_setOwnStr h foreign x A name v newLen throw =
     (let i = strToArrayIdx name in
      if i \<noteq> MaxUint32 then
        map_option (\<lambda>(r, A'). (r, A', h)) (a_setOwnIdx (extensible (obj h x)) foreign x A (nat i) v throw)
      else if name = length_name then
        (case newLen of
           Inl err \<Rightarrow> Some (Throw err, A, h)
         | Inr l \<Rightarrow> (case a_setLength A l throw of (r, A') \<Rightarrow> Some (r, A', h)))
      else map_option (\<lambda>(r, h'). (r, A, h')) (setOwnStr h x name v throw))"

definition a_defineOwnPropertyStr ::
  "(oid \<Rightarrow> bool) \<Rightarrow> heap \<Rightarrow> oid \<Rightarrow> arrayImpl \<Rightarrow> ustr \<Rightarrow> PropertyDescriptor \<Rightarrow> jserr + nat \<Rightarrow> bool \<Rightarrow>
    (bool outcome \<times> arrayImpl \<times> heap) option" where
  "a_defineOwnPropertyStr callable h x A name descr newLen throw =
     (let i = strToArrayIdx name in
      if i \<noteq> MaxUint32 then
        map_option (\<lambda>(r, A'). (r, A', h)) (a_defineIdx callable (extensible (obj h x)) A (nat i) descr throw)
      else if name = length_name then
        (case (if pd_value descr = None then Inr 0 else newLen) of
           Inl err \<Rightarrow> Some (Throw err, A, h)
         | Inr l \<Rightarrow> (case a_defineLength A descr l throw of (r, A') \<Rightarrow> Some (r, A', h)))
      else (case defineOwnPropertyStr callable h x name descr throw of (r, h') \<Rightarrow> Some (r, A, h')))"

section \<open>The abstract array\<close>

text \<open>
  What an array is to a program: its elements by index, its length and whether the length is writable.
  The operations follow the specification's array exotic objects.
\<close>

record absArray =
  elems :: "nat \<Rightarrow> slot option"
  alen :: nat
  alenw :: bool

definition blocked :: "slot option \<Rightarrow> bool" where
  "blocked s \<longleftrightarrow> (\<exists>p. s = Some (Prop p) \<and> \<not> vp_configurable p)"

definition blockers :: "(nat \<Rightarrow> slot option) \<Rightarrow> nat \<Rightarrow> nat set" where
  "blockers E l = {i. l \<le> i \<and> blocked (E i)}"

definition final_len :: "(nat \<Rightarrow> slot option) \<Rightarrow> nat \<Rightarrow> nat" where
  "final_len E l = (if blockers E l = {} then l else Suc (Max (blockers E l)))"

definition spec_truncate :: "absArray \<Rightarrow> nat \<Rightarrow> bool \<Rightarrow> bool outcome \<times> absArray" where
  "spec_truncate S l throw =
     (let l' = final_len (elems S) l in
      (if l' = l then Done True else reject throw, S\<lparr>elems := elems S |` {..<l'}, alen := l'\<rparr>))"

definition spec_setLength :: "absArray \<Rightarrow> nat \<Rightarrow> bool \<Rightarrow> bool outcome \<times> absArray" where
  "spec_setLength S l throw = (if \<not> alenw S then (reject throw, S) else spec_truncate S l throw)"

definition spec_insert :: "absArray \<Rightarrow> nat \<Rightarrow> slot \<Rightarrow> bool \<Rightarrow> bool outcome \<times> absArray" where
  "spec_insert S i s throw =
     (if alen S \<le> i \<and> \<not> alenw S then (reject throw, S)
      else (Done True, S\<lparr>elems := (elems S)(i \<mapsto> s), alen := max (alen S) (Suc i)\<rparr>))"

definition spec_set ::
  "bool \<Rightarrow> bool outcome option \<Rightarrow> oid \<Rightarrow> absArray \<Rightarrow> nat \<Rightarrow> val \<Rightarrow> bool \<Rightarrow> bool outcome \<times> absArray" where
  "spec_set ext foreign x S i v throw =
     (case elems S i of
        Some s \<Rightarrow> (case write_slot x s v throw of (r, s') \<Rightarrow> (r, S\<lparr>elems := (elems S)(i \<mapsto> s')\<rparr>))
      | None \<Rightarrow>
          (case foreign of
             Some r \<Rightarrow> (r, S)
           | None \<Rightarrow> if \<not> ext then (reject throw, S) else spec_insert S i (Plain v) throw))"

definition spec_define ::
  "(oid \<Rightarrow> bool) \<Rightarrow> bool \<Rightarrow> absArray \<Rightarrow> nat \<Rightarrow> PropertyDescriptor \<Rightarrow> bool \<Rightarrow> bool outcome \<times> absArray" where
  "spec_define callable ext S i desc throw =
     (case defineOwnProperty callable ext (elems S i) desc throw of
        Inl err \<Rightarrow> (Throw err, S)
      | Inr None \<Rightarrow> (Done False, S)
      | Inr (Some s) \<Rightarrow> spec_insert S i s throw)"

definition spec_delete :: "absArray \<Rightarrow> nat \<Rightarrow> bool \<Rightarrow> bool outcome \<times> absArray" where
  "spec_delete S i throw =
     (if blocked (elems S i) then (reject throw, S) else (Done True, S\<lparr>elems := (elems S)(i := None)\<rparr>))"

definition spec_defineLength :: "absArray \<Rightarrow> PropertyDescriptor \<Rightarrow> nat \<Rightarrow> bool \<Rightarrow> bool outcome \<times> absArray" where
  "spec_defineLength S descr newLen throw =
     (if pd_configurable descr = FLAG_TRUE \<or> pd_enumerable descr = FLAG_TRUE \<or> IsAccessor descr
      then (reject throw, S)
      else
        (case (if pd_value descr \<noteq> None \<and> newLen \<noteq> alen S then spec_setLength S newLen False
               else (Done True, S)) of
           (r, S1) \<Rightarrow>
             if pd_writable descr = FLAG_TRUE \<and> \<not> alenw S then (reject throw, S1)
             else (if r = Done True then Done True else reject throw,
                   S1\<lparr>alenw := alenw S \<and> pd_writable descr \<noteq> FLAG_FALSE\<rparr>)))"

section \<open>Abstraction and invariant\<close>

definition std_abs :: "arrayObject \<Rightarrow> absArray" where
  "std_abs a = \<lparr>elems = (\<lambda>i. if i < length (ar_values a) then ar_values a ! i else None),
     alen = ar_length a, alenw = vp_writable (ar_lengthProp a)\<rparr>"

definition sp_abs :: "sparseArrayObject \<Rightarrow> absArray" where
  "sp_abs a = \<lparr>elems = map_of (sp_items a), alen = sp_length a, alenw = vp_writable (sp_lengthProp a)\<rparr>"

definition a_abs :: "arrayImpl \<Rightarrow> absArray" where
  "a_abs A = (case A of Std a \<Rightarrow> std_abs a | Sparse a \<Rightarrow> sp_abs a)"

definition std_shape :: "arrayObject \<Rightarrow> bool" where
  "std_shape a \<longleftrightarrow> length (ar_values a) \<le> ar_length a \<and> ar_length a < 2 ^ 32 \<and> set (ar_spare a) \<subseteq> {None}"

definition sp_shape :: "sparseArrayObject \<Rightarrow> bool" where
  "sp_shape a \<longleftrightarrow> sorted_wrt (<) (map fst (sp_items a)) \<and> (\<forall>i \<in> fst ` set (sp_items a). i < sp_length a) \<and>
     sp_length a < 2 ^ 32"

definition a_shape :: "arrayImpl \<Rightarrow> bool" where
  "a_shape A = (case A of Std a \<Rightarrow> std_shape a | Sparse a \<Rightarrow> sp_shape a)"

text \<open>The number of property objects is never underestimated, so that no fast path misses one.\<close>

definition pset :: "(nat \<Rightarrow> slot option) \<Rightarrow> nat set" where
  "pset E = {i. is_prop (E i)}"

definition counted :: "absArray \<Rightarrow> int \<Rightarrow> bool" where
  "counted S c \<longleftrightarrow> int (card (pset (elems S))) \<le> c"

definition a_count :: "arrayImpl \<Rightarrow> int" where
  "a_count A = (case A of Std a \<Rightarrow> ar_propValueCount a | Sparse a \<Rightarrow> sp_propValueCount a)"

definition a_inv :: "arrayImpl \<Rightarrow> bool" where
  "a_inv A \<longleftrightarrow> a_shape A \<and> counted (a_abs A) (a_count A)"

text \<open>The machine's limits: the divisor of \<^verbatim>\<open>expand\<close> does not wrap to zero, the capacity fits an \<^verbatim>\<open>int\<close>.\<close>

definition machine_ok :: "arrayImpl \<Rightarrow> bool" where
  "machine_ok A = (case A of
      Std a \<Rightarrow> (ar_objCount a = 0 \<or> uint32 (ar_objCount a) \<noteq> 0) \<and> ar_cap a < 2 ^ 62
    | Sparse a \<Rightarrow> True)"

section \<open>Truncation\<close>

lemma u32_id [simp]: "n < 2 ^ 32 \<Longrightarrow> u32 n = n"
  by (simp add: u32_def)

lemma blocked_simps [simp]:
  "\<not> blocked None" "\<not> blocked (Some (Plain v))" "blocked (Some (Prop p)) \<longleftrightarrow> \<not> vp_configurable p"
  by (auto simp: blocked_def)

lemma is_prop_simps [simp]: "\<not> is_prop None" "\<not> is_prop (Some (Plain v))" "is_prop (Some (Prop p))"
  by (simp_all add: is_prop_def)

lemma blocked_is_prop: "blocked s \<Longrightarrow> is_prop s"
  by (auto simp: blocked_def)

lemma final_len_none: "\<forall>j. l \<le> j \<longrightarrow> \<not> blocked (E j) \<Longrightarrow> final_len E l = l"
  by (auto simp: final_len_def blockers_def)

lemma final_len_top:
  assumes "l \<le> i" "blocked (E i)" "\<forall>j. i < j \<longrightarrow> E j = None"
  shows "final_len E l = Suc i"
proof -
  have "j \<le> i" if "j \<in> blockers E l" for j
    using that assms(3) by (cases "i < j") (auto simp: blockers_def)
  moreover have "i \<in> blockers E l" using assms by (simp add: blockers_def)
  ultimately have "Max (blockers E l) = i" by (meson Max_eqI finite_nat_set_iff_bounded_le)
  then show ?thesis using \<open>i \<in> blockers E l\<close> by (auto simp: final_len_def)
qed

lemma final_len_upd: "\<not> blocked s \<Longrightarrow> \<not> blocked (E i) \<Longrightarrow> final_len (E(i := s)) l = final_len E l"
proof -
  assume "\<not> blocked s" "\<not> blocked (E i)"
  then have "blockers (E(i := s)) l = blockers E l" by (auto simp: blockers_def)
  then show ?thesis by (simp add: final_len_def)
qed

lemma final_len_bounds:
  assumes "\<forall>j. n \<le> j \<longrightarrow> E j = None"
  shows "l \<le> final_len E l" "final_len E l \<le> max l n"
proof -
  have fin: "finite (blockers E l)"
  proof (rule finite_subset)
    show "blockers E l \<subseteq> {..<n}"
    proof
      fix j assume "j \<in> blockers E l"
      then show "j \<in> {..<n}" using assms by (cases "n \<le> j") (auto simp: blockers_def)
    qed
  qed simp
  have "l \<le> Max (blockers E l) \<and> Max (blockers E l) < n" if "blockers E l \<noteq> {}"
  proof -
    have m: "Max (blockers E l) \<in> blockers E l" using fin that by (rule Max_in)
    then have "\<not> n \<le> Max (blockers E l)" using assms by (auto simp: blockers_def)
    with m show ?thesis by (simp add: blockers_def)
  qed
  then have "l \<le> final_len E l \<and> final_len E l \<le> max l n"
    by (cases "blockers E l = {}") (auto simp: final_len_def)
  then show "l \<le> final_len E l" "final_len E l \<le> max l n" by blast+
qed

text \<open>What the slow paths of both representations compute from the elements they have walked over.\<close>

definition trimmed :: "(nat \<Rightarrow> slot option) \<Rightarrow> nat \<Rightarrow> int \<Rightarrow> nat \<times> bool \<times> int \<Rightarrow> bool" where
  "trimmed E l c r \<longleftrightarrow>
     r = (final_len E l, final_len E l = l, c - int (card {i \<in> pset E. final_len E l \<le> i}))"

lemma trimmed_stop: "\<forall>j. l \<le> j \<longrightarrow> E j = None \<Longrightarrow> trimmed E l c (l, True, c)"
proof -
  assume n: "\<forall>j. l \<le> j \<longrightarrow> E j = None"
  then have "final_len E l = l" by (intro final_len_none) simp
  moreover have "card {i \<in> pset E. l \<le> i} = 0" using n by (intro card_eq_0_iff[THEN iffD2] disjI1) (auto simp: pset_def)
  ultimately show ?thesis by (simp add: trimmed_def del: card_0_eq)
qed

lemma trimmed_block:
  assumes "l \<le> i" "blocked (E i)" "\<forall>j. i < j \<longrightarrow> E j = None"
  shows "trimmed E l c (Suc i, False, c)"
proof -
  have f: "final_len E l = Suc i" using assms by (rule final_len_top)
  have "card {j \<in> pset E. Suc i \<le> j} = 0"
    using assms(3) by (intro card_eq_0_iff[THEN iffD2] disjI1) (auto simp: pset_def Suc_le_eq)
  with f assms(1) show ?thesis by (simp add: trimmed_def del: card_0_eq)
qed

lemma trimmed_step:
  assumes "trimmed E l (if is_prop s then c - 1 else c) r" "\<not> blocked s" "l \<le> i" "\<forall>j. i \<le> j \<longrightarrow> E j = None"
  shows "trimmed (E(i := s)) l c r"
proof -
  have f: "final_len (E(i := s)) l = final_len E l" using assms(2,4) by (intro final_len_upd) simp_all
  have le: "final_len E l \<le> i" using final_len_bounds(2)[OF assms(4), of l] assms(3) by simp
  let ?P = "{j \<in> pset E. final_len E l \<le> j}"
  have fin: "finite ?P"
  proof (rule finite_subset)
    show "?P \<subseteq> {..<i}" using assms(4) by (auto simp: pset_def) (metis is_prop_simps(1) not_le)
  qed simp
  have ni: "i \<notin> ?P" using assms(4) by (simp add: pset_def)
  have "{j \<in> pset (E(i := s)). final_len E l \<le> j} = (if is_prop s then insert i ?P else ?P)"
    using le ni by (auto simp: pset_def)
  then have "int (card {j \<in> pset (E(i := s)). final_len E l \<le> j}) = int (card ?P) + (if is_prop s then 1 else 0)"
    using fin ni by simp
  then show ?thesis using assms(1) f by (simp add: trimmed_def)
qed

lemma std_trim_correct:
  "n \<le> length vs \<Longrightarrow> length vs < 2 ^ 32 \<Longrightarrow>
    trimmed (\<lambda>i. if i < n then vs ! i else None) l c (std_trim n l vs c)"
proof (induction n arbitrary: c)
  case 0
  then show ?case by (simp add: trimmed_stop)
next
  case (Suc n)
  let ?E = "\<lambda>i. if i < n then vs ! i else None"
  have E: "(\<lambda>i. if i < Suc n then vs ! i else None) = ?E(n := vs ! n)" by (auto simp: less_Suc_eq)
  show ?case
  proof (cases "n < l")
    case True
    then show ?thesis by (auto intro: trimmed_stop)
  next
    case False
    have step: "trimmed (?E(n := vs ! n)) l c (std_trim n l vs (if is_prop (vs ! n) then c - 1 else c))"
      if "\<not> blocked (vs ! n)"
      using that False Suc by (intro trimmed_step) simp_all
    have block: "trimmed (?E(n := vs ! n)) l c (Suc n, False, c)" if "blocked (vs ! n)"
      using that False by (intro trimmed_block) simp_all
    show ?thesis
      using False step block Suc.prems unfolding E
      by (auto simp: split: option.splits slot.splits)
  qed
qed

lemma take_Suc_map_of:
  assumes "n < length items" "distinct (map fst items)"
  shows "map_of (take (Suc n) items) = (map_of (take n items))(fst (items ! n) := Some (snd (items ! n)))"
    "fst (items ! n) \<notin> fst ` set (take n items)"
proof -
  have "distinct (map fst (take (Suc n) items))" using assms(2) by (metis distinct_take take_map)
  then show n: "fst (items ! n) \<notin> fst ` set (take n items)"
    using assms(1) by (simp add: take_Suc_conv_app_nth)
  show "map_of (take (Suc n) items) = (map_of (take n items))(fst (items ! n) := Some (snd (items ! n)))"
  proof -
    have "map_of (take n items) (fst (items ! n)) = None" using n by (simp only: map_of_eq_None_iff) simp
    then show ?thesis
      using assms(1) by (auto simp: take_Suc_conv_app_nth map_add_def fun_eq_iff split: option.splits)
  qed
qed

lemma sorted_take_less:
  assumes "sorted_wrt (<) (map fst (items :: (nat \<times> slot) list))" "n < length items" "x \<in> fst ` set (take n items)"
  shows "x < fst (items ! n)"
proof -
  obtain k where "k < n" "x = fst (items ! k)" using assms(2,3) by (auto simp: in_set_conv_nth)
  then show ?thesis using assms(1,2) by (auto simp: sorted_wrt_iff_nth_less)
qed

lemma map_of_take_none:
  assumes "sorted_wrt (<) (map fst (items :: (nat \<times> slot) list))" "n < length items" "fst (items ! n) \<le> j"
  shows "map_of (take n items) j = None"
proof -
  have "j \<notin> fst ` set (take n items)"
  proof
    assume "j \<in> fst ` set (take n items)"
    then show False using sorted_take_less[OF assms(1,2)] assms(3) by (meson not_le)
  qed
  then show ?thesis by (simp only: map_of_eq_None_iff not_False_eq_True)
qed

lemma sorted_distinct: "sorted_wrt (<) (map fst (items :: (nat \<times> slot) list)) \<Longrightarrow> distinct (map fst items)"
  by (simp add: strict_sorted_iff)

lemma sp_trim_correct:
  "n \<le> length items \<Longrightarrow> sorted_wrt (<) (map fst items) \<Longrightarrow> \<forall>i \<in> fst ` set items. i < 2 ^ 32 - 1 \<Longrightarrow>
    trimmed (map_of (take n items)) l c (sp_trim n l items c)"
proof (induction n arbitrary: c)
  case 0
  then show ?case by (simp add: trimmed_stop)
next
  case (Suc n)
  let ?E = "map_of (take n items)" and ?i = "fst (items ! n)" and ?s = "snd (items ! n)"
  have n: "n < length items" using Suc.prems(1) by simp
  note E = take_Suc_map_of(1)[OF n sorted_distinct[OF Suc.prems(2)]]
  have none: "?E j = None" if "?i \<le> j" for j using map_of_take_none[OF Suc.prems(2) n that] .
  have small: "?i < 2 ^ 32 - 1" using Suc.prems(3) n by auto
  show ?case
  proof (cases "?i < l")
    case True
    then show ?thesis unfolding E using none by (auto intro: trimmed_stop)
  next
    case False
    have step: "trimmed (?E(?i := Some ?s)) l c (sp_trim n l items (if is_prop (Some ?s) then c - 1 else c))"
      if "\<not> blocked (Some ?s)"
      using that False Suc none by (intro trimmed_step) simp_all
    have block: "trimmed (?E(?i := Some ?s)) l c (Suc ?i, False, c)" if "blocked (Some ?s)"
      using that False none by (intro trimmed_block) simp_all
    show ?thesis
    proof (cases ?s)
      case (Plain v)
      then have "trimmed (?E(?i := Some ?s)) l c (sp_trim (Suc n) l items c)" using False step by simp
      then show ?thesis by (simp only: E)
    next
      case (Prop p)
      then have "trimmed (?E(?i := Some ?s)) l c (sp_trim (Suc n) l items c)"
        using False step block small by simp
      then show ?thesis by (simp only: E)
    qed
  qed
qed

definition bounded :: "absArray \<Rightarrow> bool" where
  "bounded S \<longleftrightarrow> (\<forall>i. alen S \<le> i \<longrightarrow> elems S i = None)"

lemma bounded_pset: "bounded S \<Longrightarrow> finite (pset (elems S))"
proof (rule finite_subset)
  assume "bounded S"
  then show "pset (elems S) \<subseteq> {..<alen S}"
    by (auto simp: bounded_def pset_def) (metis is_prop_simps(1) not_le)
qed simp

text \<open>With a count that is not too small, skipping the slow path is right.\<close>

lemma trimmed_fast:
  assumes "bounded S" "counted S c" "trimmed (elems S) l c r"
  shows "trimmed (elems S) l c (if l \<le> alen S \<and> 0 < c then r else (l, True, c))"
proof (cases "l \<le> alen S \<and> 0 < c")
  case False
  then consider "alen S < l" | "c \<le> 0" by linarith
  then show ?thesis
  proof cases
    case 1
    then have "\<forall>j. l \<le> j \<longrightarrow> elems S j = None" using assms(1) by (simp add: bounded_def)
    then show ?thesis using False trimmed_stop by auto
  next
    case 2
    then have "card (pset (elems S)) = 0" using assms(2) by (simp add: counted_def)
    then have p: "pset (elems S) = {}" using bounded_pset[OF assms(1)] by simp
    then have "\<forall>j. l \<le> j \<longrightarrow> \<not> blocked (elems S j)" using blocked_is_prop by (auto simp: pset_def)
    then have "final_len (elems S) l = l" by (rule final_len_none)
    then show ?thesis using p False by (auto simp: trimmed_def)
  qed
qed (use assms in simp)

lemma truncate_counted:
  assumes "bounded S" "counted S c"
  shows "counted (S\<lparr>elems := elems S |` {..<k}, alen := k\<rparr>) (c - int (card {i \<in> pset (elems S). k \<le> i}))"
proof -
  let ?P = "pset (elems S)" and ?Q = "{i \<in> pset (elems S). k \<le> i}"
  have "pset (elems S |` {..<k}) = ?P - ?Q" by (auto simp: pset_def restrict_map_def split: if_splits)
  moreover have "card (?P - ?Q) = card ?P - card ?Q" "card ?Q \<le> card ?P"
    using bounded_pset[OF assms(1)] by (auto intro: card_Diff_subset card_mono)
  ultimately show ?thesis using assms(2) by (simp add: counted_def)
qed

lemma std_bounded: "std_shape a \<Longrightarrow> bounded (std_abs a)"
  by (simp add: std_shape_def bounded_def std_abs_def)

lemma sp_bounded: "sp_shape a \<Longrightarrow> bounded (sp_abs a)"
proof -
  assume sh: "sp_shape a"
  have "map_of (sp_items a) i = None" if "sp_length a \<le> i" for i
  proof -
    have "i \<notin> fst ` set (sp_items a)" using sh that unfolding sp_shape_def by (meson not_le)
    then show ?thesis by (simp only: map_of_eq_None_iff not_False_eq_True)
  qed
  then show ?thesis by (simp add: bounded_def sp_abs_def)
qed

lemma std_truncate_frame [simp]:
  "ar_length (std_truncate a l) = ar_length a" "ar_lengthProp (std_truncate a l) = ar_lengthProp a"
  "ar_propValueCount (std_truncate a l) = ar_propValueCount a" "ar_objCount (std_truncate a l) = ar_objCount a"
  by (simp_all add: std_truncate_def)

lemma std_truncate_values:
  assumes "length (ar_values a) < 2 ^ 32"
  shows "ar_values (std_truncate a l) = take l (ar_values a)"
    "set (ar_spare a) \<subseteq> {None} \<Longrightarrow> set (ar_spare (std_truncate a l)) \<subseteq> {None}"
    "ar_cap (std_truncate a l) \<le> ar_cap a"
  using assms by (auto simp: std_truncate_def ar_cap_def)

lemma std__setLengthInt_refines:
  assumes "std_shape a" "counted (std_abs a) (ar_propValueCount a)" "l < 2 ^ 32"
    "std__setLengthInt a l throw = (r, a')"
  shows "(r, std_abs a') = spec_truncate (std_abs a) l throw" "std_shape a'"
    "counted (std_abs a') (ar_propValueCount a')" "ar_cap a' \<le> ar_cap a" "ar_objCount a' = ar_objCount a"
proof -
  let ?S = "std_abs a" and ?c = "ar_propValueCount a" and ?vs = "ar_values a"
  have len: "length ?vs < 2 ^ 32" using assms(1) by (simp add: std_shape_def)
  have el: "elems ?S = (\<lambda>i. if i < length ?vs then ?vs ! i else None)" by (simp add: std_abs_def)
  let ?R = "if l \<le> ar_length a \<and> 0 < ?c then std_trim (length ?vs) l ?vs ?c else (l, True, ?c)"
  have "trimmed (elems ?S) l ?c ?R"
    using trimmed_fast[OF std_bounded[OF assms(1)] assms(2)] std_trim_correct[OF order_refl len, of l ?c]
    by (simp add: std_abs_def)
  then obtain l' where R: "?R = (l', l' = l, ?c - int (card {i \<in> pset (elems ?S). l' \<le> i}))"
    and l': "l' = final_len (elems ?S) l" by (simp add: trimmed_def)
  let ?b = "a\<lparr>ar_propValueCount := ?c - int (card {i \<in> pset (elems ?S). l' \<le> i})\<rparr>"
  have a': "a' = (std_truncate ?b l')\<lparr>ar_length := l'\<rparr>" and r: "r = (if l' = l then Done True else reject throw)"
    using assms(4) R by (auto simp: std__setLengthInt_def)
  have vals: "ar_values a' = take l' ?vs" unfolding a' using std_truncate_values(1)[of ?b l'] len by simp
  have "final_len (elems ?S) l \<le> max l (length ?vs)" by (intro final_len_bounds) (simp add: el)
  then have small: "l' < 2 ^ 32" using l' assms(3) len by (simp add: max_def split: if_splits)
  have S': "std_abs a' = ?S\<lparr>elems := elems ?S |` {..<l'}, alen := l'\<rparr>"
    using vals by (auto simp: std_abs_def a' restrict_map_def fun_eq_iff)
  show "(r, std_abs a') = spec_truncate ?S l throw" by (simp add: spec_truncate_def S' r l' Let_def)
  show "counted (std_abs a') (ar_propValueCount a')"
    using truncate_counted[OF std_bounded[OF assms(1)] assms(2)] unfolding S' by (simp add: a')
  show "std_shape a'"
    using small vals std_truncate_values(2)[of ?b l'] assms(1) len by (simp add: std_shape_def a')
  show "ar_cap a' \<le> ar_cap a" "ar_objCount a' = ar_objCount a"
    using std_truncate_values(3)[of ?b l'] len by (simp_all add: a' ar_cap_def)
qed

section \<open>Binary search in the items\<close>

lemma sp_mono: "sorted_wrt (<) (map fst (items :: (nat \<times> slot) list)) \<Longrightarrow> mono_pred (length items) (\<lambda>i. idx \<le> fst (items ! i))"
  unfolding mono_pred_def
proof (intro allI impI)
  fix a b assume s: "sorted_wrt (<) (map fst items)" and h: "a \<le> b \<and> b < length items \<and> idx \<le> fst (items ! a)"
  show "idx \<le> fst (items ! b)"
  proof (cases "a = b")
    case False
    then have "fst (items ! a) < fst (items ! b)" using s h by (simp add: sorted_wrt_iff_nth_less)
    then show ?thesis using h by simp
  qed (use h in simp)
qed

lemma sp_findIdx_split:
  assumes "sorted_wrt (<) (map fst items)"
  shows "sp_findIdx items idx \<le> length items"
    "\<forall>p \<in> set (take (sp_findIdx items idx) items). fst p < idx"
    "\<forall>p \<in> set (drop (sp_findIdx items idx) items). idx \<le> fst p"
proof -
  note S = sort_Search_correct[OF sp_mono[OF assms, of idx], folded sp_findIdx_def]
  show le: "sp_findIdx items idx \<le> length items" by (rule S(1))
  show "\<forall>p \<in> set (take (sp_findIdx items idx) items). fst p < idx"
    using S(2) le by (fastforce simp: in_set_conv_nth not_le)
  show "\<forall>p \<in> set (drop (sp_findIdx items idx) items). idx \<le> fst p"
  proof
    fix p assume "p \<in> set (drop (sp_findIdx items idx) items)"
    then obtain j where "j < length items - sp_findIdx items idx" "p = items ! (sp_findIdx items idx + j)"
      using le by (auto simp: in_set_conv_nth)
    then show "idx \<le> fst p" using S(3)[of "sp_findIdx items idx + j"] by simp
  qed
qed

lemma sp_at_iff:
  assumes "sorted_wrt (<) (map fst items)"
  shows "sp_at items (sp_findIdx items idx) idx \<longleftrightarrow> idx \<in> fst ` set items"
    "sp_at items (sp_findIdx items idx) idx \<Longrightarrow> map_of items idx = Some (snd (items ! sp_findIdx items idx))"
proof -
  let ?i = "sp_findIdx items idx"
  note S = sort_Search_correct[OF sp_mono[OF assms, of idx], folded sp_findIdx_def]
  show "sp_at items ?i idx \<longleftrightarrow> idx \<in> fst ` set items"
  proof
    assume "sp_at items ?i idx"
    then have "?i < length items" "fst (items ! ?i) = idx" by (simp_all add: sp_at_def)
    then show "idx \<in> fst ` set items" by (metis imageI nth_mem)
  next
    assume "idx \<in> fst ` set items"
    then obtain k where k: "k < length items" "fst (items ! k) = idx" by (auto simp: in_set_conv_nth)
    then have "?i \<le> k" using S(2)[of k] by (meson not_le order_refl)
    moreover have "\<not> ?i < k"
    proof
      assume "?i < k"
      then have "fst (items ! ?i) < fst (items ! k)" using k(1) assms by (simp add: sorted_wrt_iff_nth_less)
      then show False using S(3)[of ?i] k \<open>?i < k\<close> by simp
    qed
    ultimately show "sp_at items ?i idx" using k by (simp add: sp_at_def)
  qed
  show "map_of items idx = Some (snd (items ! ?i))" if "sp_at items ?i idx"
  proof (rule map_of_is_SomeI)
    show "distinct (map fst items)" using assms by (rule sorted_distinct)
    have "items ! ?i = (idx, snd (items ! ?i))" "?i < length items"
      using that by (simp_all add: sp_at_def prod_eq_iff)
    then show "(idx, snd (items ! ?i)) \<in> set items" by (metis nth_mem)
  qed
qed

lemma sp_getIdx_elem: "sp_shape a \<Longrightarrow> sp_getIdx a idx = elems (sp_abs a) idx"
proof -
  assume "sp_shape a"
  then have s: "sorted_wrt (<) (map fst (sp_items a))" by (simp add: sp_shape_def)
  have "map_of (sp_items a) idx = None" if "\<not> sp_at (sp_items a) (sp_findIdx (sp_items a) idx) idx"
    using that sp_at_iff(1)[OF s] by (simp only: map_of_eq_None_iff not_False_eq_True)
  then show ?thesis using sp_at_iff(2)[OF s, of idx] by (simp add: sp_getIdx_def sp_abs_def Let_def)
qed

section \<open>The items of a sparse array\<close>

lemma map_ext_Some: "(\<And>k v. m k = Some v \<longleftrightarrow> m' k = Some v) \<Longrightarrow> m = m'"
proof
  fix k assume "\<And>k v. m k = Some v \<longleftrightarrow> m' k = Some v"
  then show "m k = m' k" by (metis not_None_eq)
qed

lemma map_of_items:
  "sorted_wrt (<) (map fst (items :: (nat \<times> slot) list)) \<Longrightarrow> map_of items k = Some v \<longleftrightarrow> (k, v) \<in> set items"
  by (simp add: sorted_distinct)

lemma sorted_wrt_take_drop:
  "sorted_wrt P xs \<Longrightarrow> sorted_wrt P (take n xs)" "sorted_wrt P xs \<Longrightarrow> sorted_wrt P (drop n xs)"
  by (metis append_take_drop_id sorted_wrt_append)+

lemma sp_take_find:
  assumes "sorted_wrt (<) (map fst (items :: (nat \<times> slot) list))"
  shows "map_of (take (sp_findIdx items l) items) = map_of items |` {..<l}"
    "sorted_wrt (<) (map fst (take (sp_findIdx items l) items))"
proof -
  let ?i = "sp_findIdx items l"
  show s: "sorted_wrt (<) (map fst (take ?i items))" using sorted_wrt_take_drop(1)[OF assms, of ?i] by (simp add: take_map)
  note F = sp_findIdx_split[OF assms, of l]
  have "(k, v) \<in> set (take ?i items) \<longleftrightarrow> (k, v) \<in> set items \<and> k < l" for k v
  proof -
    have "set items = set (take ?i items) \<union> set (drop ?i items)" by (metis append_take_drop_id set_append)
    then show ?thesis using F(2,3) by (metis Un_iff fst_conv not_le)
  qed
  then show "map_of (take ?i items) = map_of items |` {..<l}"
    by (intro map_ext_Some) (simp add: map_of_items[OF s] map_of_items[OF assms] restrict_map_def)
qed

lemma sp_insert_items:
  assumes "sorted_wrt (<) (map fst (items :: (nat \<times> slot) list))" "idx \<notin> fst ` set items"
  shows "sorted_wrt (<) (map fst (insert_at (sp_findIdx items idx) (idx, s) items))"
    "map_of (insert_at (sp_findIdx items idx) (idx, s) items) = (map_of items)(idx \<mapsto> s)"
proof -
  let ?i = "sp_findIdx items idx"
  note F = sp_findIdx_split[OF assms(1), of idx]
  have gt: "\<forall>p \<in> set (drop ?i items). idx < fst p"
  proof
    fix p assume p: "p \<in> set (drop ?i items)"
    then have "fst p \<noteq> idx" using assms(2) by (meson imageI in_set_dropD)
    then show "idx < fst p" using F(3) p by (simp add: le_neq_implies_less)
  qed
  have "sorted_wrt (<) (map fst (take ?i items) @ map fst (drop ?i items))"
    using assms(1) by (metis append_take_drop_id map_append)
  then show s: "sorted_wrt (<) (map fst (insert_at ?i (idx, s) items))"
    using F(2) gt by (auto simp: insert_at_def sorted_wrt_append)
  have "(k, v) \<in> set items \<Longrightarrow> k \<noteq> idx" for k v using assms(2) by (metis fst_conv imageI)
  then show "map_of (insert_at ?i (idx, s) items) = (map_of items)(idx \<mapsto> s)"
    by (intro map_ext_Some) (auto simp: map_of_items[OF s] map_of_items[OF assms(1)])
qed

lemma sp_at_split:
  assumes "sorted_wrt (<) (map fst (items :: (nat \<times> slot) list))" "sp_at items i idx"
  shows "items = take i items @ (idx, snd (items ! i)) # drop (Suc i) items"
    "\<forall>p \<in> set (take i items). fst p < idx" "\<forall>p \<in> set (drop (Suc i) items). idx < fst p"
    "sorted_wrt (<) (map fst (take i items) @ map fst (drop (Suc i) items))"
proof -
  have i: "i < length items" "items ! i = (idx, snd (items ! i))" using assms(2) by (auto simp: sp_at_def)
  show e: "items = take i items @ (idx, snd (items ! i)) # drop (Suc i) items"
    using nth_take_drop_split[OF i(1)] i(2) by simp
  have "sorted_wrt (<) (map fst (take i items @ (idx, snd (items ! i)) # drop (Suc i) items))"
    using assms(1) by (subst (asm) e)
  then show "\<forall>p \<in> set (take i items). fst p < idx" "\<forall>p \<in> set (drop (Suc i) items). idx < fst p"
    "sorted_wrt (<) (map fst (take i items) @ map fst (drop (Suc i) items))"
    by (auto simp: sorted_wrt_append)
qed

lemma sp_update_items:
  assumes "sorted_wrt (<) (map fst (items :: (nat \<times> slot) list))" "sp_at items i idx"
  shows "map fst (items[i := (idx, s)]) = map fst items" "map_of (items[i := (idx, s)]) = (map_of items)(idx \<mapsto> s)"
proof -
  have i: "i < length items" "fst (items ! i) = idx" using assms(2) by (auto simp: sp_at_def)
  show m: "map fst (items[i := (idx, s)]) = map fst items"
    using i by (simp add: map_update) (metis list_update_id nth_map)
  note sp = sp_at_split[OF assms]
  have "set (items[i := (idx, s)]) = insert (idx, s) (set (take i items) \<union> set (drop (Suc i) items))"
    using i(1) by (simp add: upd_conv_take_nth_drop)
  moreover have "set items = insert (idx, snd (items ! i)) (set (take i items) \<union> set (drop (Suc i) items))"
    by (subst sp(1)) auto
  ultimately have "(k, v) \<in> set (items[i := (idx, s)]) \<longleftrightarrow> (if k = idx then v = s else (k, v) \<in> set items)" for k v
    using sp(2,3) by (auto simp: split_beta)
  then show "map_of (items[i := (idx, s)]) = (map_of items)(idx \<mapsto> s)"
    using m assms(1) by (intro map_ext_Some) (auto simp: map_of_items)
qed

lemma sp_remove_items:
  assumes "sorted_wrt (<) (map fst (items :: (nat \<times> slot) list))" "sp_at items i idx"
  shows "sorted_wrt (<) (map fst (remove_at i items))" "map_of (remove_at i items) = (map_of items)(idx := None)"
proof -
  note sp = sp_at_split[OF assms]
  show s: "sorted_wrt (<) (map fst (remove_at i items))" using sp(4) by (simp add: remove_at_def)
  have "set items = insert (idx, snd (items ! i)) (set (take i items) \<union> set (drop (Suc i) items))"
    by (subst sp(1)) auto
  then have "(k, v) \<in> set (remove_at i items) \<longleftrightarrow> k \<noteq> idx \<and> (k, v) \<in> set items" for k v
    using sp(2,3) by (auto simp: remove_at_def split_beta)
  then show "map_of (remove_at i items) = (map_of items)(idx := None)"
    by (intro map_ext_Some) (simp add: map_of_items[OF s] map_of_items[OF assms(1)])
qed

lemma sp__setLengthInt_refines:
  assumes "sp_shape a" "counted (sp_abs a) (sp_propValueCount a)" "l < 2 ^ 32"
    "sp__setLengthInt a l throw = (r, a')"
  shows "(r, sp_abs a') = spec_truncate (sp_abs a) l throw" "sp_shape a'"
    "counted (sp_abs a') (sp_propValueCount a')"
proof -
  let ?S = "sp_abs a" and ?c = "sp_propValueCount a" and ?vs = "sp_items a"
  have s: "sorted_wrt (<) (map fst ?vs)" and small: "sp_length a < 2 ^ 32"
    and b: "\<forall>i \<in> fst ` set ?vs. i < sp_length a"
    using assms(1) by (auto simp: sp_shape_def)
  have b': "\<forall>i \<in> fst ` set ?vs. i < 2 ^ 32 - 1" using b small by force
  let ?R = "if l \<le> sp_length a \<and> 0 < ?c then sp_trim (length ?vs) l ?vs ?c else (l, True, ?c)"
  have "trimmed (elems ?S) l ?c ?R"
    using trimmed_fast[OF sp_bounded[OF assms(1)] assms(2)] sp_trim_correct[OF order_refl s b', of l ?c]
    by (simp add: sp_abs_def)
  then obtain l' where R: "?R = (l', l' = l, ?c - int (card {i \<in> pset (elems ?S). l' \<le> i}))"
    and l': "l' = final_len (elems ?S) l" by (simp add: trimmed_def)
  have a': "a' = a\<lparr>sp_items := take (sp_findIdx ?vs l') ?vs, sp_length := l',
      sp_propValueCount := ?c - int (card {i \<in> pset (elems ?S). l' \<le> i})\<rparr>"
    and r: "r = (if l' = l then Done True else reject throw)"
    using assms(4) R by (auto simp: sp__setLengthInt_def)
  have "l' \<le> max l (sp_length a)"
    unfolding l' using sp_bounded[OF assms(1)] by (intro final_len_bounds) (simp add: bounded_def sp_abs_def)
  then have l'32: "l' < 2 ^ 32" using assms(3) small by (simp add: max_def split: if_splits)
  have S': "sp_abs a' = ?S\<lparr>elems := elems ?S |` {..<l'}, alen := l'\<rparr>"
    using sp_take_find(1)[OF s, of l'] by (simp add: sp_abs_def a')
  show "(r, sp_abs a') = spec_truncate ?S l throw" by (simp add: spec_truncate_def S' r l' Let_def)
  show "counted (sp_abs a') (sp_propValueCount a')"
    using truncate_counted[OF sp_bounded[OF assms(1)] assms(2)] unfolding S' by (simp add: a')
  show "sp_shape a'"
    using l'32 sp_take_find(2)[OF s, of l'] sp_findIdx_split(2)[OF s, of l'] by (auto simp: sp_shape_def a')
qed

section \<open>What both representations promise about the length\<close>

text \<open>
  The interface of a representation as far as the length is concerned: \<open>trunc\<close> is \<^verbatim>\<open>_setLengthInt\<close>. Its
  clients are the operations that make room for an index, set the length or define it.
\<close>

locale array_store =
  fixes abs :: "'a \<Rightarrow> absArray" and ok :: "'a \<Rightarrow> bool"
    and trunc :: "'a \<Rightarrow> nat \<Rightarrow> bool \<Rightarrow> bool outcome \<times> 'a"
    and setLenInt :: "'a \<Rightarrow> nat \<Rightarrow> bool \<Rightarrow> bool outcome \<times> 'a"
    and setLen :: "'a \<Rightarrow> nat \<Rightarrow> bool \<Rightarrow> bool outcome \<times> 'a"
  assumes ok_bounded: "ok a \<Longrightarrow> bounded (abs a) \<and> alen (abs a) < 2 ^ 32"
    and trunc_refines: "ok a \<Longrightarrow> l < 2 ^ 32 \<Longrightarrow> trunc a l throw = (r, a') \<Longrightarrow>
      (r, abs a') = spec_truncate (abs a) l throw \<and> ok a'"
    and setLenInt_eq: "setLenInt a l throw =
      (if l = alen (abs a) then (Done True, a) else if \<not> alenw (abs a) then (reject throw, a) else trunc a l throw)"
    and setLen_eq: "setLen a l throw = (if \<not> alenw (abs a) then (reject throw, a) else trunc a l throw)"
begin

lemma setLength_refines:
  assumes "ok a" "l < 2 ^ 32" "setLen a l throw = (r, a')"
  shows "(r, abs a') = spec_setLength (abs a) l throw \<and> ok a'"
  using assms trunc_refines[OF assms(1,2)] by (auto simp: setLen_eq spec_setLength_def split: if_splits)

lemma room:
  assumes "ok a" "idx < 2 ^ 32 - 1"
    "(if alen (abs a) \<le> idx then setLenInt a (u32 (idx + 1)) throw else (Done True, a)) = (r, a')"
  shows "ok a' \<and> (if alen (abs a) \<le> idx \<and> \<not> alenw (abs a) then r = reject throw \<and> a' = a
     else r = Done True \<and> abs a' = (abs a)\<lparr>alen := max (alen (abs a)) (Suc idx)\<rparr>)"
proof (cases "alen (abs a) \<le> idx \<and> alenw (abs a)")
  case True
  have small: "u32 (idx + 1) = Suc idx" "Suc idx < 2 ^ 32" using assms(2) by simp_all
  then have t: "trunc a (Suc idx) throw = (r, a')" using assms(3) True by (simp add: setLenInt_eq)
  note R = trunc_refines[OF assms(1) small(2) t]
  have none: "\<forall>j. Suc idx \<le> j \<longrightarrow> elems (abs a) j = None"
    using ok_bounded[OF assms(1)] True by (simp add: bounded_def)
  then have f: "final_len (elems (abs a)) (Suc idx) = Suc idx" by (intro final_len_none) simp
  have "elems (abs a) |` {..<Suc idx} = elems (abs a)"
    using none by (auto simp: restrict_map_def fun_eq_iff not_less)
  then show ?thesis using R f True by (simp add: spec_truncate_def Let_def)
next
  case False
  then show ?thesis using assms by (auto simp: setLenInt_eq split: if_splits)
qed

end

definition std_ok :: "arrayObject \<Rightarrow> bool" where
  "std_ok a \<longleftrightarrow> std_shape a \<and> counted (std_abs a) (ar_propValueCount a)"

definition sp_ok :: "sparseArrayObject \<Rightarrow> bool" where
  "sp_ok a \<longleftrightarrow> sp_shape a \<and> counted (sp_abs a) (sp_propValueCount a)"

lemma a_inv_simps [simp]: "a_inv (Std a) = std_ok a" "a_inv (Sparse s) = sp_ok s"
  by (simp_all add: a_inv_def a_shape_def std_ok_def sp_ok_def a_abs_def a_count_def)

lemma a_abs_simps [simp]: "a_abs (Std a) = std_abs a" "a_abs (Sparse s) = sp_abs s"
  by (simp_all add: a_abs_def)

interpretation dense: array_store std_abs std_ok std__setLengthInt std_setLengthInt std_setLength
proof
  fix a l throw r a'
  show "std_ok a \<Longrightarrow> bounded (std_abs a) \<and> alen (std_abs a) < 2 ^ 32"
    using std_bounded[of a] by (simp add: std_ok_def std_shape_def std_abs_def)
  show "std_ok a \<Longrightarrow> l < 2 ^ 32 \<Longrightarrow> std__setLengthInt a l throw = (r, a') \<Longrightarrow>
      (r, std_abs a') = spec_truncate (std_abs a) l throw \<and> std_ok a'"
    unfolding std_ok_def using std__setLengthInt_refines by blast
qed (simp_all add: std_setLengthInt_def std_setLength_def std_abs_def)

interpretation sparse: array_store sp_abs sp_ok sp__setLengthInt sp_setLengthInt sp_setLength
proof
  fix a l throw r a'
  show "sp_ok a \<Longrightarrow> bounded (sp_abs a) \<and> alen (sp_abs a) < 2 ^ 32"
    using sp_bounded[of a] by (simp add: sp_ok_def sp_shape_def sp_abs_def)
  show "sp_ok a \<Longrightarrow> l < 2 ^ 32 \<Longrightarrow> sp__setLengthInt a l throw = (r, a') \<Longrightarrow>
      (r, sp_abs a') = spec_truncate (sp_abs a) l throw \<and> sp_ok a'"
    unfolding sp_ok_def using sp__setLengthInt_refines by blast
qed (simp_all add: sp_setLengthInt_def sp_setLength_def sp_abs_def)

lemma a_setLength_refines:
  assumes "a_inv A" "l < 2 ^ 32" "a_setLength A l throw = (r, A')"
  shows "(r, a_abs A') = spec_setLength (a_abs A) l throw" "a_inv A'"
  using assms dense.setLength_refines sparse.setLength_refines
  by (cases A; auto simp: a_setLength_def split: prod.splits)+

section \<open>Growing\<close>

lemma growCap_loop_returns:
  "4 \<le> c \<Longrightarrow> newSize < 2 ^ 62 \<Longrightarrow> \<exists>c'. growCap_loop newSize c = Some c' \<and> newSize \<le> c' \<and> 0 < c'"
proof (induction "nat (newSize - c)" arbitrary: c rule: less_induct)
  case less
  show ?case
  proof (cases "c < newSize")
    case True
    have "c div 4 < 2 ^ 62" "1 \<le> c div 4" using True less.prems by linarith+
    then have "int64 (c + c div 4) = c + c div 4"
      using True less.prems by (intro int64_id) (simp add: is_int64_def)
    then have "growCap_loop newSize c = growCap_loop newSize (c + c div 4)"
      using True less.prems by (subst growCap_loop.simps) simp
    then show ?thesis using less.hyps[of "c + c div 4"] less.prems True \<open>1 \<le> c div 4\<close> by simp
  next
    case False
    then show ?thesis using less.prems by (subst growCap_loop.simps) simp
  qed
qed

lemma growCap_returns:
  assumes "0 \<le> oldSize" "oldSize \<le> oldCap" "oldCap < 2 ^ 62" "newSize < 2 ^ 62"
  shows "\<exists>c. growCap newSize oldSize oldCap = Some c \<and> newSize \<le> c"
proof -
  have d: "int64 (2 * oldCap) = 2 * oldCap" using assms by (intro int64_id) (simp add: is_int64_def)
  consider "2 * oldCap < newSize" | "newSize \<le> 2 * oldCap" "oldSize < 1024" | "newSize \<le> 2 * oldCap" "1024 \<le> oldSize"
    by linarith
  then show ?thesis
  proof cases
    case 3
    then obtain c where "growCap_loop newSize oldCap = Some c" "newSize \<le> c" "0 < c"
      using growCap_loop_returns[of oldCap newSize] assms by auto
    then show ?thesis using 3 d by (simp add: growCap_def Let_def)
  qed (simp_all add: growCap_def d Let_def)
qed

lemma sp_setValues_keys:
  "k + length vs < 2 ^ 32 \<Longrightarrow> sorted_wrt (<) (map fst (sp_setValues k vs)) \<and>
    (\<forall>i \<in> fst ` set (sp_setValues k vs). k \<le> i \<and> i < k + length vs)"
proof (induction k vs rule: sp_setValues.induct)
  case (3 i s vs)
  then have "sorted_wrt (<) (map fst (sp_setValues (Suc i) vs))"
    "\<forall>j \<in> fst ` set (sp_setValues (Suc i) vs). Suc i \<le> j \<and> j < Suc i + length vs" "u32 i = i" by simp_all
  then show ?case by (auto simp: Suc_le_eq)
qed auto

lemma sp_setValues_map:
  "k + length vs < 2 ^ 32 \<Longrightarrow>
    map_of (sp_setValues k vs) i = (if k \<le> i \<and> i < k + length vs then vs ! (i - k) else None)"
proof (induction k vs rule: sp_setValues.induct)
  case (2 k vs)
  have "map_of (sp_setValues k (None # vs)) i = (if Suc k \<le> i \<and> i < Suc k + length vs then vs ! (i - Suc k) else None)"
    using 2 by simp
  then show ?case by (auto simp: nth_Cons' Suc_le_eq)
next
  case (3 k s vs)
  have "map_of (sp_setValues k (Some s # vs)) i =
    (if i = k then Some s else if Suc k \<le> i \<and> i < Suc k + length vs then vs ! (i - Suc k) else None)"
    using 3 by simp
  then show ?case by (auto simp: nth_Cons' Suc_le_eq)
qed auto

lemma to_sparse_refines:
  assumes "std_shape a"
  shows "sp_abs (to_sparse a) = std_abs a" "sp_shape (to_sparse a)" "sp_propValueCount (to_sparse a) = ar_propValueCount a"
proof -
  have len: "0 + length (ar_values a) < 2 ^ 32" using assms by (simp add: std_shape_def)
  show "sp_abs (to_sparse a) = std_abs a"
    using sp_setValues_map[OF len] by (simp add: sp_abs_def std_abs_def to_sparse_def fun_eq_iff)
  show "sp_shape (to_sparse a)"
    using sp_setValues_keys[OF len] assms by (force simp: sp_shape_def to_sparse_def std_shape_def)
qed (simp add: to_sparse_def)

definition expanded :: "arrayObject \<Rightarrow> nat \<Rightarrow> arrayImpl \<Rightarrow> bool" where
  "expanded a idx I \<longleftrightarrow> (case I of
      Std b \<Rightarrow> std_abs b = std_abs a \<and> std_shape b \<and> idx < length (ar_values b) \<and>
        ar_propValueCount b = ar_propValueCount a
    | Sparse s \<Rightarrow> s = to_sparse a \<and> length (ar_values a) \<le> idx)"

lemma append_none_abs:
  assumes "set xs \<subseteq> {None}"
  shows "std_abs (a\<lparr>ar_values := ar_values a @ xs, ar_spare := ys\<rparr>) = std_abs a"
proof -
  have "(if i < length (ar_values a @ xs) then (ar_values a @ xs) ! i else None) =
    (if i < length (ar_values a) then ar_values a ! i else None)" for i
  proof (cases "length (ar_values a) \<le> i \<and> i < length (ar_values a @ xs)")
    case True
    then have "xs ! (i - length (ar_values a)) \<in> set xs" by (intro nth_mem) auto
    then show ?thesis using assms True by (auto simp: nth_append)
  qed (auto simp: nth_append)
  then show ?thesis by (simp add: std_abs_def cong: if_cong)
qed

lemma std_expand_correct:
  assumes "std_shape a" "machine_ok (Std a)" "idx < ar_length a"
  shows "\<exists>I. std_expand a idx = Some I \<and> expanded a idx I"
proof -
  let ?n = "length (ar_values a)"
  have b: "?n < 2 ^ 32" "idx + 1 < 2 ^ 32" "ar_length a < 2 ^ 32" "set (ar_spare a) \<subseteq> {None}"
    using assms by (auto simp: std_shape_def)
  have grow: "expanded a idx (Std (a\<lparr>ar_values := ar_values a @ xs, ar_spare := ys\<rparr>))"
    if "set xs \<subseteq> {None}" "set ys \<subseteq> {None}" "?n + length xs = Suc idx" for xs ys
    using that assms append_none_abs[OF that(1)] by (simp add: expanded_def std_shape_def)
  show ?thesis
  proof (cases "?n \<le> idx")
    case False
    then show ?thesis using b assms by (simp add: std_expand_def expanded_def)
  next
    case True
    obtain c where c: "growCap (int (Suc idx)) (int ?n) (int (ar_cap a)) = Some c" "int (Suc idx) \<le> c"
      using growCap_returns[of "int ?n" "int (ar_cap a)" "int (Suc idx)"] assms(2) b(2)
      by (auto simp: machine_ok_def ar_cap_def)
    show ?thesis
    proof (cases "Suc idx < u32 (ar_cap a)")
      case fits: True
      have "u32 (ar_cap a) \<le> ar_cap a" by (simp add: u32_def)
      then have "Suc idx - ?n \<le> length (ar_spare a)" using fits by (simp add: ar_cap_def)
      then have "expanded a idx (Std (a\<lparr>ar_values := ar_values a @ take (Suc idx - ?n) (ar_spare a),
          ar_spare := drop (Suc idx - ?n) (ar_spare a)\<rparr>))"
        using b(4) True by (intro grow) (auto dest: in_set_takeD in_set_dropD)
      then show ?thesis using True fits b by (simp add: std_expand_def Let_def)
    next
      case False
      have g: "expanded a idx (Std (a\<lparr>ar_values := ar_values a @ replicate (Suc idx - ?n) None,
          ar_spare := replicate (nat c - Suc idx) None\<rparr>))"
        using True by (intro grow) auto
      have s: "expanded a idx (Sparse (to_sparse a))" using True by (simp add: expanded_def)
      have "uint32 (ar_objCount a) \<noteq> 0 \<or> ar_objCount a = 0" using assms(2) by (auto simp: machine_ok_def)
      then show ?thesis using True False b c g s by (auto simp: std_expand_def Let_def)
    qed
  qed
qed

lemma foldl_update_nth:
  "i < length vs0 \<Longrightarrow> \<forall>p \<in> set items. fst p < length vs0 \<Longrightarrow> distinct (map fst items) \<Longrightarrow>
    foldl (\<lambda>vs item. vs[fst item := Some (snd item)]) vs0 items ! i =
      (case map_of items i of Some s \<Rightarrow> Some s | None \<Rightarrow> vs0 ! i)"
proof (induction items arbitrary: vs0)
  case (Cons p items)
  have "fst p \<notin> fst ` set items" using Cons.prems(3) by simp
  then have "map_of items (fst p) = None" by (simp only: map_of_eq_None_iff not_False_eq_True)
  then show ?case using Cons by (cases p) (auto simp: nth_list_update split: option.splits)
qed simp

lemma foldl_update_length:
  "length (foldl (\<lambda>vs item. vs[fst item := Some (snd item)]) vs0 items) = length vs0"
  by (induction items arbitrary: vs0) simp_all

lemma sp_expand_correct:
  assumes "sp_shape a" "idx < sp_length a" "sp_expand a idx = Some ar"
  shows "std_abs ar = sp_abs a" "std_shape ar" "idx < length (ar_values ar)"
    "ar_propValueCount ar = sp_propValueCount a"
proof -
  let ?items = "sp_items a"
  have s: "sorted_wrt (<) (map fst ?items)" using assms(1) by (simp add: sp_shape_def)
  obtain m where m: "ar = to_dense a m" "idx \<le> m" "m = idx \<or> m = fst (?items ! (length ?items - 1))"
    "fst (?items ! (length ?items - 1)) \<le> m" "?items \<noteq> []"
    using assms(3) by (fastforce simp: sp_expand_def Let_def split: if_splits)
  have top: "fst p \<le> m" if p: "p \<in> set ?items" for p
  proof -
    obtain k where k: "k < length ?items" "p = ?items ! k" using p by (auto simp: in_set_conv_nth)
    have "fst (?items ! k) \<le> fst (?items ! (length ?items - 1))"
    proof (cases "k = length ?items - 1")
      case False
      then have "k < length ?items - 1" using k by simp
      then show ?thesis using s k by (simp add: sorted_wrt_iff_nth_less less_imp_le)
    qed simp
    then show ?thesis using k m(4) by simp
  qed
  have "?items ! (length ?items - 1) \<in> set ?items" using m(5) by simp
  then have ml: "m < sp_length a" using m(3) assms(1,2) by (auto simp: sp_shape_def)
  have len: "length (setValuesFromSparse ?items m) = Suc m"
    by (simp add: setValuesFromSparse_def foldl_update_length)
  have nth: "setValuesFromSparse ?items m ! i = map_of ?items i" if "i \<le> m" for i
    unfolding setValuesFromSparse_def using that top sorted_distinct[OF s]
    by (subst foldl_update_nth) (auto simp: less_Suc_eq_le simp del: replicate_Suc split: option.splits)
  have none: "map_of ?items i = None" if "m < i" for i
  proof -
    have "i \<notin> fst ` set ?items" using top that by (auto simp: not_le[symmetric])
    then show ?thesis by (simp only: map_of_eq_None_iff not_False_eq_True)
  qed
  show "std_abs ar = sp_abs a"
    using nth none len by (auto simp: m(1) std_abs_def sp_abs_def to_dense_def fun_eq_iff less_Suc_eq_le)
  show "std_shape ar" "idx < length (ar_values ar)" "ar_propValueCount ar = sp_propValueCount a"
    using len ml m(2) assms(1) by (simp_all add: m(1) std_shape_def to_dense_def sp_shape_def)
qed

section \<open>Counting\<close>

lemma counted_plain:
  assumes "counted S c" "finite (pset (elems S))"
  shows "counted (S\<lparr>elems := (elems S)(i \<mapsto> Plain v), alen := n\<rparr>) c"
    "counted (S\<lparr>elems := (elems S)(i \<mapsto> Plain v)\<rparr>) c"
proof -
  have "pset ((elems S)(i \<mapsto> Plain v)) \<subseteq> pset (elems S)" by (auto simp: pset_def)
  then have "card (pset ((elems S)(i \<mapsto> Plain v))) \<le> card (pset (elems S))" using assms(2) by (rule card_mono[rotated])
  then show "counted (S\<lparr>elems := (elems S)(i \<mapsto> Plain v), alen := n\<rparr>) c"
    "counted (S\<lparr>elems := (elems S)(i \<mapsto> Plain v)\<rparr>) c"
    using assms(1) by (simp_all add: counted_def)
qed

lemma counted_put:
  assumes "counted S c" "finite (pset (elems S))"
  shows "counted (S\<lparr>elems := (elems S)(i \<mapsto> s), alen := n\<rparr>) (c + (if is_prop (Some s) then 1 else 0))"
proof (cases s)
  case (Plain v)
  then show ?thesis using counted_plain(1)[OF assms] by simp
next
  case (Prop p)
  have "pset ((elems S)(i \<mapsto> s)) \<subseteq> insert i (pset (elems S))" by (auto simp: pset_def)
  then have "card (pset ((elems S)(i \<mapsto> s))) \<le> card (insert i (pset (elems S)))"
    using assms(2) by (intro card_mono) simp_all
  also have "\<dots> \<le> Suc (card (pset (elems S)))" by (rule card_insert_le_m1) (simp_all add: assms(2))
  finally show ?thesis using assms(1) Prop by (simp add: counted_def)
qed

lemma counted_same:
  assumes "counted S c" "elems S i = Some s" "is_prop (Some s') = is_prop (Some s)"
  shows "counted (S\<lparr>elems := (elems S)(i \<mapsto> s')\<rparr>) c"
proof -
  have "pset ((elems S)(i \<mapsto> s')) = pset (elems S)" using assms(2,3) by (auto simp: pset_def)
  then show ?thesis using assms(1) by (simp add: counted_def)
qed

lemma counted_remove:
  assumes "counted S c" "finite (pset (elems S))"
  shows "counted (S\<lparr>elems := (elems S)(i := None)\<rparr>) (if is_prop (elems S i) then c - 1 else c)"
proof -
  have "pset ((elems S)(i := None)) = pset (elems S) - {i}" by (auto simp: pset_def)
  moreover have "int (card (pset (elems S) - {i})) = int (card (pset (elems S))) - (if is_prop (elems S i) then 1 else 0)"
  proof (cases "is_prop (elems S i)")
    case True
    then have "card (pset (elems S)) = Suc (card (pset (elems S) - {i}))"
      using assms(2) by (intro card.remove) (simp_all add: pset_def)
    then show ?thesis using True by simp
  next
    case False
    then have "pset (elems S) - {i} = pset (elems S)" by (auto simp: pset_def)
    then show ?thesis using False by simp
  qed
  ultimately show ?thesis using assms(1) by (simp add: counted_def)
qed

section \<open>Placing an element\<close>

lemma std_elem_abs: "std_shape a \<Longrightarrow> std_elem a idx = elems (std_abs a) idx"
  by (simp add: std_elem_def std_abs_def std_shape_def)

lemma std_abs_frame [simp]:
  "std_abs (a\<lparr>ar_objCount := k\<rparr>) = std_abs a" "std_abs (a\<lparr>ar_propValueCount := c\<rparr>) = std_abs a"
  "std_shape (a\<lparr>ar_objCount := k\<rparr>) = std_shape a" "std_shape (a\<lparr>ar_propValueCount := c\<rparr>) = std_shape a"
  by (simp_all add: std_abs_def std_shape_def cong: if_cong)

lemma sp_abs_frame [simp]:
  "sp_abs (a\<lparr>sp_propValueCount := c\<rparr>) = sp_abs a" "sp_shape (a\<lparr>sp_propValueCount := c\<rparr>) = sp_shape a"
  by (simp_all add: sp_abs_def sp_shape_def)

lemma upd_values_abs:
  "idx < length (ar_values a) \<Longrightarrow>
    std_abs (a\<lparr>ar_values := (ar_values a)[idx := s]\<rparr>) = (std_abs a)\<lparr>elems := (elems (std_abs a))(idx := s)\<rparr>"
  by (auto simp: std_abs_def fun_eq_iff nth_list_update)

lemma std_put_abs:
  assumes "idx < length (ar_values a)"
  shows "std_abs (std_put a idx s) = (std_abs a)\<lparr>elems := (elems (std_abs a))(idx \<mapsto> s)\<rparr>"
    "std_shape (std_put a idx s) = std_shape a" "ar_propValueCount (std_put a idx s) = ar_propValueCount a"
  using upd_values_abs[OF assms] by (simp_all add: std_put_def std_shape_def)

lemma sp_absent:
  assumes "sp_shape a" "elems (sp_abs a) idx = None"
  shows "idx \<notin> fst ` set (sp_items a)" "\<not> sp_at (sp_items a) (sp_findIdx (sp_items a) idx) idx"
proof -
  show a: "idx \<notin> fst ` set (sp_items a)"
    using assms(2) by (simp only: sp_abs_def absArray.select_convs map_of_eq_None_iff not_False_eq_True)
  then show "\<not> sp_at (sp_items a) (sp_findIdx (sp_items a) idx) idx"
    using assms(1) sp_at_iff(1) by (simp add: sp_shape_def)
qed

lemma sp_present:
  assumes "sp_shape a" "elems (sp_abs a) idx = Some s"
  shows "sp_at (sp_items a) (sp_findIdx (sp_items a) idx) idx" "snd (sp_items a ! sp_findIdx (sp_items a) idx) = s"
proof -
  have so: "sorted_wrt (<) (map fst (sp_items a))" using assms(1) by (simp add: sp_shape_def)
  have "idx \<in> fst ` set (sp_items a)" using assms(2) by (force simp: sp_abs_def dest: map_of_SomeD)
  then show at: "sp_at (sp_items a) (sp_findIdx (sp_items a) idx) idx" using sp_at_iff(1)[OF so] by simp
  show "snd (sp_items a ! sp_findIdx (sp_items a) idx) = s"
    using sp_at_iff(2)[OF so at] assms(2) by (simp add: sp_abs_def)
qed

lemma sp_insert_abs:
  assumes "sp_shape a" "elems (sp_abs a) idx = None" "idx < sp_length a"
    "b = a\<lparr>sp_items := insert_at (sp_findIdx (sp_items a) idx) (idx, s) (sp_items a)\<rparr>"
  shows "sp_abs b = (sp_abs a)\<lparr>elems := (elems (sp_abs a))(idx \<mapsto> s)\<rparr>" "sp_shape b"
proof -
  have so: "sorted_wrt (<) (map fst (sp_items a))" using assms(1) by (simp add: sp_shape_def)
  note I = sp_insert_items[OF so sp_absent(1)[OF assms(1,2)], of s]
  show "sp_abs b = (sp_abs a)\<lparr>elems := (elems (sp_abs a))(idx \<mapsto> s)\<rparr>" using I(2) by (simp add: sp_abs_def assms(4))
  show "sp_shape b" using I(1) assms(1,3) by (auto simp: sp_shape_def assms(4))
qed

lemma sp_put_abs:
  assumes "sp_shape a" "sp_at (sp_items a) i idx"
  shows "sp_abs (sp_put a i idx s) = (sp_abs a)\<lparr>elems := (elems (sp_abs a))(idx \<mapsto> s)\<rparr>" "sp_shape (sp_put a i idx s)"
    "sp_propValueCount (sp_put a i idx s) = sp_propValueCount a"
proof -
  have so: "sorted_wrt (<) (map fst (sp_items a))" using assms(1) by (simp add: sp_shape_def)
  note I = sp_update_items[OF so assms(2), of s]
  show "sp_abs (sp_put a i idx s) = (sp_abs a)\<lparr>elems := (elems (sp_abs a))(idx \<mapsto> s)\<rparr>"
    using I(2) by (simp add: sp_abs_def sp_put_def)
  have "fst ` set ((sp_items a)[i := (idx, s)]) = fst ` set (sp_items a)" by (metis I(1) list.set_map)
  then show "sp_shape (sp_put a i idx s)" using I(1) assms(1) by (simp add: sp_shape_def sp_put_def)
qed (simp add: sp_put_def)

lemma ok_finite: "std_ok a \<Longrightarrow> finite (pset (elems (std_abs a)))" "sp_ok z \<Longrightarrow> finite (pset (elems (sp_abs z)))"
  using bounded_pset std_bounded sp_bounded by (simp_all add: std_ok_def sp_ok_def)

lemma to_sparse_ok: "std_ok a \<Longrightarrow> sp_ok (to_sparse a)"
  using to_sparse_refines[of a] by (simp add: std_ok_def sp_ok_def)

text \<open>
  After an expansion for a missing index the element is put into the slice or added to the items. The
  count of property objects follows only in the first case.
\<close>

lemma place_dense:
  assumes "std_ok a" "expanded a idx (Std b)"
    "b' = (std_put b idx s)\<lparr>ar_objCount := k, ar_propValueCount := ar_propValueCount b + (if is_prop (Some s) then 1 else 0)\<rparr>"
  shows "std_abs b' = (std_abs a)\<lparr>elems := (elems (std_abs a))(idx \<mapsto> s)\<rparr>" "std_ok b'"
proof -
  have e: "std_abs b = std_abs a" "std_shape b" "idx < length (ar_values b)" "ar_propValueCount b = ar_propValueCount a"
    using assms(2) by (simp_all add: expanded_def)
  note P = std_put_abs[OF e(3), of s]
  show A: "std_abs b' = (std_abs a)\<lparr>elems := (elems (std_abs a))(idx \<mapsto> s)\<rparr>" using P e(1) by (simp add: assms(3))
  have "counted ((std_abs a)\<lparr>elems := (elems (std_abs a))(idx \<mapsto> s), alen := alen (std_abs a)\<rparr>)
      (ar_propValueCount a + (if is_prop (Some s) then 1 else 0))"
    using assms(1) ok_finite(1)[OF assms(1)] by (intro counted_put) (simp_all add: std_ok_def)
  then show "std_ok b'" using A P e(2,4) unfolding std_ok_def by (simp add: assms(3) counted_def)
qed

lemma place_sparse:
  assumes "sp_ok z" "elems (sp_abs z) idx = None" "idx < sp_length z"
  shows "sp_abs (sp_add z idx s) = (sp_abs z)\<lparr>elems := (elems (sp_abs z))(idx \<mapsto> s)\<rparr>"
    "sp_shape (sp_add z idx s)" "\<not> is_prop (Some s) \<Longrightarrow> sp_ok (sp_add z idx s)"
proof -
  have sh: "sp_shape z" using assms(1) by (simp add: sp_ok_def)
  note I = sp_insert_abs[OF sh assms(2,3) sp_add_def[of z idx s]]
  show A: "sp_abs (sp_add z idx s) = (sp_abs z)\<lparr>elems := (elems (sp_abs z))(idx \<mapsto> s)\<rparr>" "sp_shape (sp_add z idx s)"
    by (fact I)+
  show "sp_ok (sp_add z idx s)" if np: "\<not> is_prop (Some s)"
  proof -
    obtain v where "s = Plain v" using np by (cases s) auto
    then have "counted (sp_abs (sp_add z idx s)) (sp_propValueCount z)"
      using assms(1) counted_plain(2)[OF _ ok_finite(2)[OF assms(1)]] unfolding A by (simp add: sp_ok_def)
    then show ?thesis using A(2) by (simp add: sp_ok_def sp_add_def)
  qed
qed

lemma write_slot_prop: "write_slot x s v throw = (r, s') \<Longrightarrow> is_prop (Some s') = is_prop (Some s)"
  by (auto simp: write_slot_def vp_set_def split: slot.splits if_splits option.splits access.splits)

section \<open>The operations refine the specification\<close>

lemma machine_mono:
  "machine_ok (Std a) \<Longrightarrow> ar_cap a' \<le> ar_cap a \<Longrightarrow> ar_objCount a' = ar_objCount a \<Longrightarrow> machine_ok (Std a')"
  by (auto simp: machine_ok_def)

lemma std_room:
  assumes "std_ok a" "machine_ok (Std a)" "idx < 2 ^ 32 - 1"
    "(if ar_length a \<le> idx then std_setLengthInt a (u32 (idx + 1)) throw else (Done True, a)) = (r, a')"
  shows "std_ok a'" "machine_ok (Std a')"
    "if ar_length a \<le> idx \<and> \<not> alenw (std_abs a) then r = reject throw \<and> a' = a
     else r = Done True \<and> std_abs a' = (std_abs a)\<lparr>alen := max (ar_length a) (Suc idx)\<rparr>"
proof -
  have l: "alen (std_abs a) = ar_length a" by (simp add: std_abs_def)
  show "std_ok a'" "if ar_length a \<le> idx \<and> \<not> alenw (std_abs a) then r = reject throw \<and> a' = a
     else r = Done True \<and> std_abs a' = (std_abs a)\<lparr>alen := max (ar_length a) (Suc idx)\<rparr>"
    using dense.room[OF assms(1,3)] assms(4) unfolding l by blast+
  show "machine_ok (Std a')"
  proof (cases "std__setLengthInt a (u32 (idx + 1)) throw = (r, a')")
    case True
    have "std_shape a" "counted (std_abs a) (ar_propValueCount a)" "u32 (idx + 1) < 2 ^ 32"
      using assms(1,3) by (simp_all add: std_ok_def)
    then show ?thesis using std__setLengthInt_refines(4,5)[OF _ _ _ True] machine_mono[OF assms(2)] by blast
  next
    case False
    then have "a' = a" using assms(4) by (auto simp: std_setLengthInt_def split: if_splits)
    then show ?thesis using assms(2) by simp
  qed
qed

lemma reject_not_done [simp]: "reject throw \<noteq> Done True" "Done True \<noteq> reject throw"
  by (simp_all add: reject_def)

lemma case_reject [simp]:
  "(case reject throw of Done True \<Rightarrow> a | _ \<Rightarrow> b) = b"
  by (simp add: reject_def)

lemma std_set_present:
  assumes "std_ok a" "elems (std_abs a) idx = Some s"
  shows "\<exists>r A'. std_setOwnIdx ext foreign x a idx v throw = Some (r, A') \<and>
    spec_set ext foreign x (std_abs a) idx v throw = (r, a_abs A') \<and> a_inv A'"
proof -
  have sh: "std_shape a" using assms(1) by (simp add: std_ok_def)
  have idx: "idx < length (ar_values a)" using assms(2) by (simp add: std_abs_def split: if_splits)
  obtain r s' where w: "write_slot x s v throw = (r, s')" by fastforce
  note P = std_put_abs[OF idx, of s']
  have "counted (std_abs (std_put a idx s')) (ar_propValueCount a)"
    unfolding P(1) using assms write_slot_prop[OF w] by (intro counted_same) (simp_all add: std_ok_def)
  then have "std_ok (std_put a idx s')" using P sh by (simp add: std_ok_def)
  then show ?thesis
    using assms(2) w P(1) std_elem_abs[OF sh] by (simp add: std_setOwnIdx_def spec_set_def)
qed

text \<open>Insertion of a missing element by the dense representation, for assignment and definition alike.\<close>

lemma std_insert:
  assumes "std_ok a" "machine_ok (Std a)" "idx < 2 ^ 32 - 1" "idx < ar_length a"
  obtains (dense) b where "std_expand a idx = Some (Std b)" "expanded a idx (Std b)"
  | (sparse) "std_expand a idx = Some (Sparse (to_sparse a))" "sp_ok (to_sparse a)"
      "sp_abs (to_sparse a) = std_abs a" "idx < sp_length (to_sparse a)" "elems (std_abs a) idx = None"
proof -
  have sh: "std_shape a" using assms(1) by (simp add: std_ok_def)
  obtain I where I: "std_expand a idx = Some I" "expanded a idx I"
    using std_expand_correct[OF sh assms(2,4)] by blast
  show thesis
  proof (cases I)
    case (Std b)
    then show ?thesis using I dense by blast
  next
    case (Sparse z)
    then have "z = to_sparse a" "length (ar_values a) \<le> idx" using I(2) by (simp_all add: expanded_def)
    then show ?thesis
      using I Sparse assms(4) to_sparse_ok[OF assms(1)] to_sparse_refines[OF sh]
      by (intro sparse) (simp_all add: to_sparse_def std_abs_def)
  qed
qed

lemma std_set_new:
  assumes "std_ok a" "machine_ok (Std a)" "idx < 2 ^ 32 - 1" "elems (std_abs a) idx = None"
  shows "\<exists>r A'. std_setOwnIdx True None x a idx v throw = Some (r, A') \<and>
    spec_insert (std_abs a) idx (Plain v) throw = (r, a_abs A') \<and> a_inv A'"
proof -
  have el: "std_elem a idx = None" using assms(1,4) std_elem_abs[of a idx] by (simp add: std_ok_def)
  obtain r a1 where e: "(if ar_length a \<le> idx then std_setLengthInt a (u32 (idx + 1)) throw else (Done True, a)) = (r, a1)"
    by fastforce
  note R = std_room[OF assms(1-3) e]
  have al: "alen (std_abs a) = ar_length a" by (simp add: std_abs_def)
  show ?thesis
  proof (cases "ar_length a \<le> idx \<and> \<not> alenw (std_abs a)")
    case True
    then have "r = reject throw" "a1 = a" using R(3) by simp_all
    then show ?thesis using True el e R(1) al by (auto simp: std_setOwnIdx_def spec_insert_def reject_def)
  next
    case False
    then have r: "r = Done True" and ab: "std_abs a1 = (std_abs a)\<lparr>alen := max (ar_length a) (Suc idx)\<rparr>"
      using R(3) by (simp_all split: if_splits)
    let ?T = "(std_abs a1)\<lparr>elems := (elems (std_abs a1))(idx \<mapsto> Plain v)\<rparr>"
    have spec: "spec_insert (std_abs a) idx (Plain v) throw = (Done True, ?T)"
      using False ab al by (auto simp: spec_insert_def)
    have len: "ar_length a1 = max (ar_length a) (Suc idx)" using ab by (simp add: std_abs_def)
    have put: "\<exists>A'. std_setOwnIdx True None x a idx v throw = Some (Done True, A') \<and> a_abs A' = ?T \<and> a_inv A'"
      if "u32 (length (ar_values a1)) \<le> idx \<longrightarrow> std_expand a1 idx = Some (Std b)"
        "\<not> u32 (length (ar_values a1)) \<le> idx \<longrightarrow> b = a1" "expanded a1 idx (Std b)" for b
      using that el e r place_dense[OF R(1) that(3) refl, of "Plain v" "ar_objCount b + 1"]
      by (auto simp: std_setOwnIdx_def std_put_def)
    show ?thesis
    proof (cases "u32 (length (ar_values a1)) \<le> idx")
      case grow: True
      have lt: "idx < ar_length a1" using len by simp
      show ?thesis
      proof (cases rule: std_insert[OF R(1,2) assms(3) lt, case_names dense sparse])
        case (dense b)
        then show ?thesis using put[of b] grow spec by auto
      next
        case sparse
        have "elems (sp_abs (to_sparse a1)) idx = None" using sparse by simp
        note P = place_sparse[OF sparse(2) this sparse(4), of "Plain v"]
        show ?thesis using grow el e r sparse P spec by (auto simp: std_setOwnIdx_def)
      qed
    next
      case False
      then have "expanded a1 idx (Std a1)" using R(1) by (simp add: expanded_def std_ok_def std_shape_def)
      then show ?thesis using put[of a1] False spec by auto
    qed
  qed
qed

lemma std_set_refines:
  assumes "std_ok a" "machine_ok (Std a)" "idx < 2 ^ 32 - 1"
  shows "\<exists>r A'. std_setOwnIdx ext foreign x a idx v throw = Some (r, A') \<and>
    spec_set ext foreign x (std_abs a) idx v throw = (r, a_abs A') \<and> a_inv A'"
proof (cases "elems (std_abs a) idx")
  case (Some s)
  then show ?thesis using std_set_present[OF assms(1)] by blast
next
  case None
  have el: "std_elem a idx = None" using assms(1) None std_elem_abs[of a idx] by (simp add: std_ok_def)
  show ?thesis
  proof (cases "foreign = None \<and> ext")
    case True
    then show ?thesis using std_set_new[OF assms None, of x v throw] None by (simp add: spec_set_def)
  next
    case False
    then show ?thesis
      using el None assms(1) by (auto simp: std_setOwnIdx_def spec_set_def split: option.splits)
  qed
qed

lemma items_unique:
  assumes "sorted_wrt (<) (map fst (items :: (nat \<times> slot) list))" "sorted_wrt (<) (map fst items')"
    "map_of items = map_of items'"
  shows "items = items'"
proof -
  have rebuild: "map (\<lambda>k. (k, the (map_of xs k))) (map fst xs) = xs"
    if "sorted_wrt (<) (map fst (xs :: (nat \<times> slot) list))" for xs
    using sorted_distinct[OF that] by (auto intro!: map_idI)
  have "fst ` set items = fst ` set items'" using assms(3) by (metis dom_map_of_conv_image_fst)
  then have "map fst items = map fst items'" using assms(1,2) by (metis list.set_map strict_sorted_equal)
  then show ?thesis using rebuild[OF assms(1)] rebuild[OF assms(2)] assms(3) by simp
qed

lemma sp_room:
  assumes "sp_ok a" "idx < 2 ^ 32 - 1"
    "(if sp_length a \<le> idx then sp_setLengthInt a (u32 (idx + 1)) throw else (Done True, a)) = (r, a')"
  shows "sp_ok a'" "if sp_length a \<le> idx \<and> \<not> alenw (sp_abs a) then r = reject throw \<and> a' = a
     else r = Done True \<and> sp_abs a' = (sp_abs a)\<lparr>alen := max (sp_length a) (Suc idx)\<rparr>"
    "sp_items a' = sp_items a"
proof -
  have l: "alen (sp_abs a) = sp_length a" by (simp add: sp_abs_def)
  show ok: "sp_ok a'" "if sp_length a \<le> idx \<and> \<not> alenw (sp_abs a) then r = reject throw \<and> a' = a
     else r = Done True \<and> sp_abs a' = (sp_abs a)\<lparr>alen := max (sp_length a) (Suc idx)\<rparr>"
    using sparse.room[OF assms(1,2)] assms(3) unfolding l by blast+
  have "map_of (sp_items a') = map_of (sp_items a)"
    using ok(2) by (auto simp: sp_abs_def split: if_splits)
  then show "sp_items a' = sp_items a"
    using ok(1) assms(1) by (intro items_unique) (simp_all add: sp_ok_def sp_shape_def)
qed

lemma sp_set_present:
  assumes "sp_ok a" "elems (sp_abs a) idx = Some s" "sp_setOwnIdx ext foreign x a idx v throw = (r, A')"
  shows "spec_set ext foreign x (sp_abs a) idx v throw = (r, a_abs A')" "a_inv A'"
proof -
  let ?i = "sp_findIdx (sp_items a) idx"
  have sh: "sp_shape a" using assms(1) by (simp add: sp_ok_def)
  note p = sp_present[OF sh assms(2)]
  obtain s' where w: "write_slot x s v throw = (r, s')" and A': "A' = Sparse (sp_put a ?i idx s')"
    using assms(3) p by (auto simp: sp_setOwnIdx_def Let_def split: prod.splits)
  note P = sp_put_abs[OF sh p(1), of s']
  have "counted (sp_abs (sp_put a ?i idx s')) (sp_propValueCount a)"
    unfolding P(1) using assms write_slot_prop[OF w] by (intro counted_same) (simp_all add: sp_ok_def)
  then show "a_inv A'" using P by (simp add: A' sp_ok_def)
  show "spec_set ext foreign x (sp_abs a) idx v throw = (r, a_abs A')"
    using assms(2) w P(1) by (simp add: spec_set_def A')
qed

text \<open>Insertion of a missing element by the sparse representation, which may turn dense.\<close>

lemma sp_insert_stay:
  assumes "sp_ok a" "elems (sp_abs a) idx = None" "idx < sp_length a"
    "b = a\<lparr>sp_items := insert_at (sp_findIdx (sp_items a) idx) (idx, s) (sp_items a),
           sp_propValueCount := sp_propValueCount a + (if is_prop (Some s) then 1 else 0)\<rparr>"
  shows "sp_abs b = (sp_abs a)\<lparr>elems := (elems (sp_abs a))(idx \<mapsto> s)\<rparr>" "sp_ok b"
proof -
  have sh: "sp_shape a" using assms(1) by (simp add: sp_ok_def)
  note I = sp_insert_abs[OF sh assms(2,3) refl, of s]
  show A: "sp_abs b = (sp_abs a)\<lparr>elems := (elems (sp_abs a))(idx \<mapsto> s)\<rparr>" using I by (simp add: assms(4))
  have "counted ((sp_abs a)\<lparr>elems := (elems (sp_abs a))(idx \<mapsto> s), alen := alen (sp_abs a)\<rparr>)
      (sp_propValueCount a + (if is_prop (Some s) then 1 else 0))"
    using assms(1) ok_finite(2)[OF assms(1)] by (intro counted_put) (simp_all add: sp_ok_def)
  then show "sp_ok b" using A I(2) unfolding sp_ok_def by (simp add: assms(4) counted_def)
qed

lemma sp_insert_switch:
  assumes "sp_ok a" "idx < sp_length a" "sp_expand a idx = Some ar" "b = (std_put ar idx s)\<lparr>ar_objCount := k\<rparr>"
  shows "std_abs b = (sp_abs a)\<lparr>elems := (elems (sp_abs a))(idx \<mapsto> s)\<rparr>" "std_shape b"
    "\<not> is_prop (Some s) \<Longrightarrow> std_ok b"
proof -
  have sh: "sp_shape a" using assms(1) by (simp add: sp_ok_def)
  note E = sp_expand_correct[OF sh assms(2,3)]
  note P = std_put_abs[OF E(3), of s]
  show A: "std_abs b = (sp_abs a)\<lparr>elems := (elems (sp_abs a))(idx \<mapsto> s)\<rparr>" "std_shape b"
    using P E by (simp_all add: assms(4))
  show "std_ok b" if np: "\<not> is_prop (Some s)"
  proof -
    obtain v where "s = Plain v" using np by (cases s) auto
    then have "counted (std_abs b) (sp_propValueCount a)"
      using assms(1) counted_plain(2)[OF _ ok_finite(2)[OF assms(1)]] unfolding A by (simp add: sp_ok_def)
    then show ?thesis using A(2) P(3) E(4) by (simp add: std_ok_def assms(4))
  qed
qed

lemma sp_set_new:
  assumes "sp_ok a" "idx < 2 ^ 32 - 1" "elems (sp_abs a) idx = None" "sp_setOwnIdx True None x a idx v throw = (r, A')"
  shows "spec_insert (sp_abs a) idx (Plain v) throw = (r, a_abs A') \<and> a_inv A'"
proof -
  let ?i = "sp_findIdx (sp_items a) idx"
  have na: "\<not> sp_at (sp_items a) ?i idx" using sp_absent(2) assms(1,3) by (simp add: sp_ok_def)
  obtain r1 a1 where e: "(if sp_length a \<le> idx then sp_setLengthInt a (u32 (idx + 1)) throw else (Done True, a)) = (r1, a1)"
    by fastforce
  note R = sp_room[OF assms(1,2) e]
  have al: "alen (sp_abs a) = sp_length a" by (simp add: sp_abs_def)
  show ?thesis
  proof (cases "sp_length a \<le> idx \<and> \<not> alenw (sp_abs a)")
    case True
    then have "r1 = reject throw" "a1 = a" using R(2) by simp_all
    then show ?thesis using True na e R(1) al assms(4) by (auto simp: sp_setOwnIdx_def spec_insert_def reject_def Let_def)
  next
    case False
    then have r: "r1 = Done True" and ab: "sp_abs a1 = (sp_abs a)\<lparr>alen := max (sp_length a) (Suc idx)\<rparr>"
      using R(2) by (simp_all split: if_splits)
    have spec: "spec_insert (sp_abs a) idx (Plain v) throw =
        (Done True, (sp_abs a1)\<lparr>elems := (elems (sp_abs a1))(idx \<mapsto> Plain v)\<rparr>)"
      using False ab al by (auto simp: spec_insert_def)
    have lt: "idx < sp_length a1" and none: "elems (sp_abs a1) idx = None" using ab assms(3) by (simp_all add: sp_abs_def)
    show ?thesis
    proof (cases "sp_expand a1 idx")
      case None
      then have "r = Done True" "A' = Sparse (a1\<lparr>sp_items := insert_at ?i (idx, Plain v) (sp_items a1)\<rparr>)"
        using assms(4) na e r by (simp_all add: sp_setOwnIdx_def Let_def)
      then show ?thesis using spec sp_insert_stay[OF R(1) none lt refl, of "Plain v"] R(3) by simp
    next
      case (Some ar)
      then have "r = Done True" "A' = Std ((std_put ar idx (Plain v))\<lparr>ar_objCount := ar_objCount ar + 1\<rparr>)"
        using assms(4) na e r by (simp_all add: sp_setOwnIdx_def Let_def)
      then show ?thesis using spec sp_insert_switch[OF R(1) lt Some refl, where s = "Plain v"] by simp
    qed
  qed
qed

lemma sp_set_refines:
  assumes "sp_ok a" "idx < 2 ^ 32 - 1" "sp_setOwnIdx ext foreign x a idx v throw = (r, A')"
  shows "spec_set ext foreign x (sp_abs a) idx v throw = (r, a_abs A') \<and> a_inv A'"
proof (cases "elems (sp_abs a) idx")
  case (Some s)
  then show ?thesis using sp_set_present[OF assms(1) Some assms(3)] by blast
next
  case None
  have na: "\<not> sp_at (sp_items a) (sp_findIdx (sp_items a) idx) idx"
    using sp_absent(2) assms(1) None by (simp add: sp_ok_def)
  show ?thesis
  proof (cases "foreign = None \<and> ext")
    case True
    then show ?thesis using sp_set_new[OF assms(1,2) None] assms(3) None by (simp add: spec_set_def)
  next
    case False
    then show ?thesis
      using na None assms(1,3) by (auto simp: sp_setOwnIdx_def spec_set_def Let_def split: option.splits)
  qed
qed

definition same_rep :: "arrayImpl \<Rightarrow> arrayImpl \<Rightarrow> bool" where
  "same_rep A A' = (case A of Std _ \<Rightarrow> (case A' of Std _ \<Rightarrow> True | _ \<Rightarrow> False)
     | Sparse _ \<Rightarrow> (case A' of Sparse _ \<Rightarrow> True | _ \<Rightarrow> False))"

text \<open>A definition keeps the count right unless it stores a property object while it switches the representation.\<close>

definition keeps :: "arrayImpl \<Rightarrow> arrayImpl \<Rightarrow> nat \<Rightarrow> bool" where
  "keeps A A' idx \<longleftrightarrow> same_rep A A' \<or> \<not> is_prop (elems (a_abs A') idx)"

lemma inv_shape: "a_inv A \<Longrightarrow> a_shape A" by (simp add: a_inv_def)

lemma std_define_new:
  assumes "std_ok a" "machine_ok (Std a)" "idx < 2 ^ 32 - 1"
    "defineOwnProperty callable ext (std_elem a idx) desc throw = Inr (Some s)"
  shows "\<exists>r A'. std_defineIdxProperty callable ext a idx desc throw = Some (r, A') \<and>
    spec_insert (std_abs a) idx s throw = (r, a_abs A') \<and> a_shape A' \<and> (keeps (Std a) A' idx \<longrightarrow> a_inv A')"
proof -
  obtain r a1 where e: "(if ar_length a \<le> idx then std_setLengthInt a (u32 (idx + 1)) throw else (Done True, a)) = (r, a1)"
    by fastforce
  note R = std_room[OF assms(1-3) e]
  have al: "alen (std_abs a) = ar_length a" by (simp add: std_abs_def)
  show ?thesis
  proof (cases "ar_length a \<le> idx \<and> \<not> alenw (std_abs a)")
    case True
    then have "r = reject throw" "a1 = a" using R(3) by simp_all
    moreover have "a_shape (Std a)" using inv_shape[of "Std a"] assms(1) by simp
    ultimately show ?thesis
      using True e R(1) al assms(4) by (auto simp: std_defineIdxProperty_def spec_insert_def reject_def)
  next
    case False
    then have r: "r = Done True" and ab: "std_abs a1 = (std_abs a)\<lparr>alen := max (ar_length a) (Suc idx)\<rparr>"
      using R(3) by (simp_all split: if_splits)
    have spec: "spec_insert (std_abs a) idx s throw =
        (Done True, (std_abs a1)\<lparr>elems := (elems (std_abs a1))(idx \<mapsto> s)\<rparr>)"
      using False ab al by (auto simp: spec_insert_def)
    have lt: "idx < ar_length a1" using ab by (simp add: std_abs_def)
    show ?thesis
    proof (cases rule: std_insert[OF R(1,2) assms(3) lt, case_names dense sparse])
      case (dense b)
      define b' where "b' = (std_put b idx s)\<lparr>ar_objCount := ar_objCount b + 1,
        ar_propValueCount := ar_propValueCount b + (if is_prop (Some s) then 1 else 0)\<rparr>"
      note P = place_dense[OF R(1) dense(2) b'_def]
      have "std_defineIdxProperty callable ext a idx desc throw = Some (Done True, Std b')"
        using e r dense assms(4) by (simp add: std_defineIdxProperty_def b'_def)
      then show ?thesis using spec P inv_shape[of "Std b'"] by simp
    next
      case sparse
      have "elems (sp_abs (to_sparse a1)) idx = None" using sparse by simp
      note P = place_sparse[OF sparse(2) this sparse(4), of s]
      have "std_defineIdxProperty callable ext a idx desc throw = Some (Done True, Sparse (sp_add (to_sparse a1) idx s))"
        using e r sparse assms(4) by (simp add: std_defineIdxProperty_def)
      then show ?thesis using spec P sparse by (simp add: a_shape_def keeps_def same_rep_def)
    qed
  qed
qed

lemma std_define_refines:
  assumes "std_ok a" "machine_ok (Std a)" "idx < 2 ^ 32 - 1"
  shows "\<exists>r A'. std_defineIdxProperty callable ext a idx desc throw = Some (r, A') \<and>
    spec_define callable ext (std_abs a) idx desc throw = (r, a_abs A') \<and> a_shape A' \<and> (keeps (Std a) A' idx \<longrightarrow> a_inv A')"
proof -
  have el: "std_elem a idx = elems (std_abs a) idx" using assms(1) std_elem_abs by (simp add: std_ok_def)
  have sh: "a_shape (Std a)" using inv_shape[of "Std a"] assms(1) by simp
  consider err where "defineOwnProperty callable ext (std_elem a idx) desc throw = Inl err"
    | "defineOwnProperty callable ext (std_elem a idx) desc throw = Inr None"
    | s where "defineOwnProperty callable ext (std_elem a idx) desc throw = Inr (Some s)"
    by (metis obj_sumE option.exhaust)
  then show ?thesis
  proof cases
    case (3 s)
    then show ?thesis using std_define_new[OF assms 3] el by (simp add: spec_define_def)
  qed (use assms(1) el sh in \<open>simp_all add: std_defineIdxProperty_def spec_define_def\<close>)
qed

lemma sp_define_new:
  assumes "sp_ok a" "idx < 2 ^ 32 - 1"
    "defineOwnProperty callable ext (elems (sp_abs a) idx) desc throw = Inr (Some s)"
    "sp_defineIdxProperty callable ext a idx desc throw = (r, A')"
  shows "spec_insert (sp_abs a) idx s throw = (r, a_abs A') \<and> a_shape A' \<and> (keeps (Sparse a) A' idx \<longrightarrow> a_inv A')"
proof -
  let ?i = "sp_findIdx (sp_items a) idx"
  have sh: "sp_shape a" using assms(1) by (simp add: sp_ok_def)
  have el: "(if sp_at (sp_items a) ?i idx then Some (snd (sp_items a ! ?i)) else None) = elems (sp_abs a) idx"
    using sp_getIdx_elem[OF sh, of idx] by (simp add: sp_getIdx_def Let_def)
  obtain r1 a1 where e: "(if sp_length a \<le> idx then sp_setLengthInt a (u32 (idx + 1)) throw else (Done True, a)) = (r1, a1)"
    by fastforce
  note R = sp_room[OF assms(1,2) e]
  have al: "alen (sp_abs a) = sp_length a" by (simp add: sp_abs_def)
  note D = assms(4)[unfolded sp_defineIdxProperty_def Let_def el assms(3)]
  show ?thesis
  proof (cases "sp_length a \<le> idx \<and> \<not> alenw (sp_abs a)")
    case True
    then have "r1 = reject throw" "a1 = a" using R(2) by simp_all
    then show ?thesis
      using True e R(1) al D inv_shape[of "Sparse a"] by (auto simp: spec_insert_def reject_def)
  next
    case False
    then have r: "r1 = Done True" and ab: "sp_abs a1 = (sp_abs a)\<lparr>alen := max (sp_length a) (Suc idx)\<rparr>"
      using R(2) by (simp_all split: if_splits)
    have spec: "spec_insert (sp_abs a) idx s throw =
        (Done True, (sp_abs a1)\<lparr>elems := (elems (sp_abs a1))(idx \<mapsto> s)\<rparr>)"
      using False ab al by (auto simp: spec_insert_def)
    have lt: "idx < sp_length a1" and sh1: "sp_shape a1" using ab R(1) by (simp_all add: sp_abs_def sp_ok_def)
    show ?thesis
    proof (cases "sp_at (sp_items a1) ?i idx")
      case True
      define b where "b = (sp_put a1 ?i idx s)\<lparr>sp_propValueCount := sp_propValueCount a1 + (if is_prop (Some s) then 1 else 0)\<rparr>"
      have A': "r = Done True" "A' = Sparse b" using D e r True by (simp_all add: b_def)
      note P = sp_put_abs[OF sh1 True, of s]
      have "counted ((sp_abs a1)\<lparr>elems := (elems (sp_abs a1))(idx \<mapsto> s), alen := alen (sp_abs a1)\<rparr>)
          (sp_propValueCount a1 + (if is_prop (Some s) then 1 else 0))"
        using R(1) ok_finite(2)[OF R(1)] by (intro counted_put) (simp_all add: sp_ok_def)
      then have "sp_ok b" using P unfolding sp_ok_def by (simp add: b_def counted_def)
      then show ?thesis using A' spec P(1) inv_shape[of "Sparse b"] by (simp add: b_def)
    next
      case absent: False
      then have none: "elems (sp_abs a1) idx = None"
        using sp_getIdx_elem[OF sh1, of idx] R(3) by (simp add: sp_getIdx_def Let_def)
      show ?thesis
      proof (cases "sp_expand a1 idx")
        case None
        define b where "b = a1\<lparr>sp_items := insert_at (sp_findIdx (sp_items a1) idx) (idx, s) (sp_items a1),
           sp_propValueCount := sp_propValueCount a1 + (if is_prop (Some s) then 1 else 0)\<rparr>"
        note P = sp_insert_stay[OF R(1) none lt b_def]
        have "r = Done True" "A' = Sparse b" using D e r absent None lt R(3) by (simp_all add: b_def Let_def)
        then show ?thesis using spec P inv_shape[of "Sparse b"] by simp
      next
        case (Some ar)
        have A': "r = Done True" "A' = Std (std_put ar idx s)" using D e r absent Some by simp_all
        have "std_put ar idx s = (std_put ar idx s)\<lparr>ar_objCount := ar_objCount ar\<rparr>" by (simp add: std_put_def)
        note P = sp_insert_switch[OF R(1) lt Some this]
        show ?thesis using A' spec P by (simp add: a_shape_def keeps_def same_rep_def)
      qed
    qed
  qed
qed

lemma sp_define_refines:
  assumes "sp_ok a" "idx < 2 ^ 32 - 1" "sp_defineIdxProperty callable ext a idx desc throw = (r, A')"
  shows "spec_define callable ext (sp_abs a) idx desc throw = (r, a_abs A') \<and> a_shape A' \<and>
    (keeps (Sparse a) A' idx \<longrightarrow> a_inv A')"
proof -
  let ?i = "sp_findIdx (sp_items a) idx"
  have el: "(if sp_at (sp_items a) ?i idx then Some (snd (sp_items a ! ?i)) else None) = elems (sp_abs a) idx"
    using sp_getIdx_elem[of a idx] assms(1) by (simp add: sp_getIdx_def Let_def sp_ok_def)
  have sh: "a_shape (Sparse a)" using inv_shape[of "Sparse a"] assms(1) by simp
  note D = assms(3)[unfolded sp_defineIdxProperty_def Let_def el]
  consider err where "defineOwnProperty callable ext (elems (sp_abs a) idx) desc throw = Inl err"
    | "defineOwnProperty callable ext (elems (sp_abs a) idx) desc throw = Inr None"
    | s where "defineOwnProperty callable ext (elems (sp_abs a) idx) desc throw = Inr (Some s)"
    by (metis obj_sumE option.exhaust)
  then show ?thesis
  proof cases
    case (3 s)
    then show ?thesis using sp_define_new[OF assms(1,2) 3 assms(3)] by (simp add: spec_define_def)
  qed (use assms(1) D sh in \<open>auto simp: spec_define_def\<close>)
qed

lemma upd_None_same: "m i = None \<Longrightarrow> m(i := None) = m"
  by auto

lemma std_delete_refines:
  assumes "std_ok a" "std_deleteIdxProp a idx throw = (r, a')"
  shows "spec_delete (std_abs a) idx throw = (r, std_abs a') \<and> std_ok a'"
proof (cases "elems (std_abs a) idx")
  case None
  then have "std_elem a idx = None" using assms(1) std_elem_abs[of a idx] by (simp add: std_ok_def)
  then show ?thesis using assms None by (auto simp: std_deleteIdxProp_def spec_delete_def upd_None_same)
next
  case (Some s)
  have sh: "std_shape a" using assms(1) by (simp add: std_ok_def)
  have idx: "idx < length (ar_values a)" using Some by (simp add: std_abs_def split: if_splits)
  let ?b = "a\<lparr>ar_values := (ar_values a)[idx := None], ar_objCount := ar_objCount a - 1,
    ar_propValueCount := (if is_prop (Some s) then ar_propValueCount a - 1 else ar_propValueCount a)\<rparr>"
  have A: "std_abs ?b = (std_abs a)\<lparr>elems := (elems (std_abs a))(idx := None)\<rparr>"
    using upd_values_abs[OF idx, of None] by simp
  have "counted ((std_abs a)\<lparr>elems := (elems (std_abs a))(idx := None)\<rparr>)
      (if is_prop (elems (std_abs a) idx) then ar_propValueCount a - 1 else ar_propValueCount a)"
    using assms(1) ok_finite(1)[OF assms(1)] by (intro counted_remove) (simp_all add: std_ok_def)
  then have ok: "std_ok ?b" using A sh Some unfolding std_ok_def by (simp add: std_shape_def)
  have el: "std_elem a idx = Some s" using Some std_elem_abs[OF sh] by simp
  show ?thesis
  proof (cases "blocked (Some s)")
    case True
    then show ?thesis
      using assms el Some by (auto simp: std_deleteIdxProp_def spec_delete_def blocked_def)
  next
    case False
    have "(r, a') = (Done True, ?b)"
    proof (cases s)
      case (Plain v)
      then show ?thesis using assms(2) el by (auto simp: std_deleteIdxProp_def)
    next
      case (Prop p)
      then show ?thesis using assms(2) el False by (simp add: std_deleteIdxProp_def)
    qed
    then show ?thesis using A ok False Some by (simp add: spec_delete_def)
  qed
qed

lemma sp_delete_refines:
  assumes "sp_ok a" "sp_deleteIdxProp a idx throw = (r, a')"
  shows "spec_delete (sp_abs a) idx throw = (r, sp_abs a') \<and> sp_ok a'"
proof (cases "elems (sp_abs a) idx")
  case None
  then have "\<not> sp_at (sp_items a) (sp_findIdx (sp_items a) idx) idx"
    using assms(1) sp_absent(2) by (simp add: sp_ok_def)
  then show ?thesis using assms None by (auto simp: sp_deleteIdxProp_def spec_delete_def upd_None_same Let_def)
next
  case (Some s)
  let ?i = "sp_findIdx (sp_items a) idx"
  have sh: "sp_shape a" using assms(1) by (simp add: sp_ok_def)
  have so: "sorted_wrt (<) (map fst (sp_items a))" using sh by (simp add: sp_shape_def)
  note p = sp_present[OF sh Some]
  note I = sp_remove_items[OF so p(1)]
  let ?b = "a\<lparr>sp_items := remove_at ?i (sp_items a),
    sp_propValueCount := (if is_prop (Some s) then sp_propValueCount a - 1 else sp_propValueCount a)\<rparr>"
  have A: "sp_abs ?b = (sp_abs a)\<lparr>elems := (elems (sp_abs a))(idx := None)\<rparr>" using I(2) by (simp add: sp_abs_def)
  have "counted ((sp_abs a)\<lparr>elems := (elems (sp_abs a))(idx := None)\<rparr>)
      (if is_prop (elems (sp_abs a) idx) then sp_propValueCount a - 1 else sp_propValueCount a)"
    using assms(1) ok_finite(2)[OF assms(1)] by (intro counted_remove) (simp_all add: sp_ok_def)
  moreover have "sp_shape ?b"
    using I(1) sh set_remove_at_subset[of ?i "sp_items a"] by (auto simp: sp_shape_def)
  ultimately have ok: "sp_ok ?b" using A Some unfolding sp_ok_def by simp
  show ?thesis
  proof (cases "blocked (Some s)")
    case True
    then show ?thesis
      using assms p Some by (auto simp: sp_deleteIdxProp_def spec_delete_def blocked_def Let_def)
  next
    case False
    have "(r, a') = (Done True, ?b)"
    proof (cases s)
      case (Plain v)
      then show ?thesis using assms(2) p by (auto simp: sp_deleteIdxProp_def Let_def)
    next
      case (Prop q)
      then show ?thesis using assms(2) p False by (simp add: sp_deleteIdxProp_def Let_def)
    qed
    then show ?thesis using A ok False Some by (simp add: spec_delete_def)
  qed
qed

lemma a_delete_refines:
  assumes "a_inv A" "a_deleteIdx A idx throw = (r, A')"
  shows "spec_delete (a_abs A) idx throw = (r, a_abs A') \<and> a_inv A'"
  using assms std_delete_refines sp_delete_refines
  by (cases A) (auto simp: a_deleteIdx_def split: prod.splits)

lemma a_inv_len: "a_inv A \<Longrightarrow> alen (a_abs A) < 2 ^ 32"
  using dense.ok_bounded sparse.ok_bounded by (cases A) auto

lemma a_lengthProp_abs:
  assumes "a_inv A"
  shows "vp_writable (a_lengthProp A) = alenw (a_abs A)"
    "(case vp_value (a_lengthProp A) of Some v \<Rightarrow> nat (uint32 (ToInteger v)) | None \<Rightarrow> 0) = alen (a_abs A)"
proof -
  have v: "vp_value (a_lengthProp A) = Some (intToValue (int (alen (a_abs A))))"
    by (cases A) (simp_all add: a_lengthProp_def std_getLengthProp_def sp_getLengthProp_def std_abs_def sp_abs_def)
  have "intToValue (int (alen (a_abs A))) = VInt (int (alen (a_abs A)))"
    using a_inv_len[OF assms] by (intro intToValue_small) (simp add: maxInt_def)
  moreover have "uint32 (int (alen (a_abs A))) = int (alen (a_abs A))"
    using a_inv_len[OF assms] by (intro wrap_u_id) simp_all
  ultimately show "(case vp_value (a_lengthProp A) of Some v \<Rightarrow> nat (uint32 (ToInteger v)) | None \<Rightarrow> 0) = alen (a_abs A)"
    using v by simp
  show "vp_writable (a_lengthProp A) = alenw (a_abs A)"
    by (cases A) (simp_all add: a_lengthProp_def std_getLengthProp_def sp_getLengthProp_def std_abs_def sp_abs_def)
qed

lemma set_lengthWritable_abs:
  "a_abs (set_lengthWritable w A) = (a_abs A)\<lparr>alenw := w\<rparr>" "a_inv (set_lengthWritable w A) = a_inv A"
  by (cases A; simp add: set_lengthWritable_def std_abs_def sp_abs_def std_ok_def sp_ok_def std_shape_def
      sp_shape_def counted_def cong: if_cong)+

lemma setLength_frame: "alenw (snd (spec_setLength S l throw)) = alenw S"
  by (simp add: spec_setLength_def spec_truncate_def Let_def)

lemma a_defineLength_refines:
  assumes "a_inv A" "newLen < 2 ^ 32" "a_defineLength A descr newLen throw = (r, A')"
  shows "spec_defineLength (a_abs A) descr newLen throw = (r, a_abs A') \<and> a_inv A'"
proof -
  note L = a_lengthProp_abs[OF assms(1)]
  obtain r1 A1 where S: "a_setLength A newLen False = (r1, A1)" by fastforce
  note R = a_setLength_refines[OF assms(1,2) S]
  have w: "alenw (a_abs A1) = alenw (a_abs A)"
    using R(1) setLength_frame by (metis snd_conv)
  have same: "(a_abs A)\<lparr>alenw := alenw (a_abs A)\<rparr> = a_abs A" "(a_abs A1)\<lparr>alenw := alenw (a_abs A)\<rparr> = a_abs A1"
    by (simp, simp add: w[symmetric])
  let ?bad = "pd_configurable descr = FLAG_TRUE \<or> pd_enumerable descr = FLAG_TRUE \<or>
    pd_getter descr \<noteq> None \<or> pd_setter descr \<noteq> None"
  have bad: "pd_configurable descr = FLAG_TRUE \<or> pd_enumerable descr = FLAG_TRUE \<or> IsAccessor descr \<longleftrightarrow> ?bad"
    by (auto simp: IsAccessor_def)
  note D = assms(3)[unfolded a_defineLength_def defineArrayLength_def L]
  note s = R(1)[symmetric]
  note abs = set_lengthWritable_abs same
  show ?thesis
  proof (cases ?bad)
    case True
    then have "r = reject throw" "A' = set_lengthWritable (alenw (a_abs A)) A" using D by simp_all
    then show ?thesis using True bad assms(1) abs unfolding spec_defineLength_def by simp
  next
    case good: False
    show ?thesis
    proof (cases "pd_value descr \<noteq> None \<and> alen (a_abs A) \<noteq> newLen")
      case True
      then have "newLen \<noteq> alen (a_abs A)" by blast
      then show ?thesis
        using D good True S R(2) s abs unfolding spec_defineLength_def bad
        by (cases "pd_writable descr") (auto simp: Flag_Bool_def Let_def split: if_splits)
    next
      case False
      then have "\<not> (pd_value descr \<noteq> None \<and> newLen \<noteq> alen (a_abs A))" by auto
      then show ?thesis
        using D good False assms(1) abs unfolding spec_defineLength_def bad
        by (cases "pd_writable descr") (auto simp: Flag_Bool_def Let_def split: if_splits)
    qed
  qed
qed

section \<open>Histories\<close>

datatype arrayOp =
    OpSet bool "bool outcome option" oid nat val bool
  | OpDefine "oid \<Rightarrow> bool" bool nat PropertyDescriptor bool
  | OpDelete nat bool
  | OpSetLength nat bool
  | OpDefineLength PropertyDescriptor nat bool

fun a_exec :: "arrayOp \<Rightarrow> arrayImpl \<Rightarrow> (bool outcome \<times> arrayImpl) option" where
  "a_exec (OpSet ext foreign x idx v throw) A = a_setOwnIdx ext foreign x A idx v throw"
| "a_exec (OpDefine callable ext idx desc throw) A = a_defineIdx callable ext A idx desc throw"
| "a_exec (OpDelete idx throw) A = Some (a_deleteIdx A idx throw)"
| "a_exec (OpSetLength l throw) A = Some (a_setLength A l throw)"
| "a_exec (OpDefineLength descr l throw) A = Some (a_defineLength A descr l throw)"

fun spec_exec :: "arrayOp \<Rightarrow> absArray \<Rightarrow> bool outcome \<times> absArray" where
  "spec_exec (OpSet ext foreign x idx v throw) S = spec_set ext foreign x S idx v throw"
| "spec_exec (OpDefine callable ext idx desc throw) S = spec_define callable ext S idx desc throw"
| "spec_exec (OpDelete idx throw) S = spec_delete S idx throw"
| "spec_exec (OpSetLength l throw) S = spec_setLength S l throw"
| "spec_exec (OpDefineLength descr l throw) S = spec_defineLength S descr l throw"

fun op_ok :: "arrayOp \<Rightarrow> bool" where
  "op_ok (OpSet ext foreign x idx v throw) = (idx < 2 ^ 32 - 1)"
| "op_ok (OpDefine callable ext idx desc throw) = (idx < 2 ^ 32 - 1)"
| "op_ok (OpDelete idx throw) = (idx < 2 ^ 32 - 1)"
| "op_ok (OpSetLength l throw) = (l < 2 ^ 32)"
| "op_ok (OpDefineLength descr l throw) = (l < 2 ^ 32)"

fun keeps_op :: "arrayOp \<Rightarrow> arrayImpl \<Rightarrow> arrayImpl \<Rightarrow> bool" where
  "keeps_op (OpDefine callable ext idx desc throw) A A' = keeps A A' idx"
| "keeps_op _ A A' = True"

lemma a_set_refines:
  assumes "a_inv A" "machine_ok A" "idx < 2 ^ 32 - 1"
  shows "\<exists>r A'. a_setOwnIdx ext foreign x A idx v throw = Some (r, A') \<and>
    spec_set ext foreign x (a_abs A) idx v throw = (r, a_abs A') \<and> a_inv A'"
proof (cases A)
  case (Std a)
  then show ?thesis using std_set_refines assms by (simp add: a_setOwnIdx_def)
next
  case (Sparse a)
  obtain r A' where "sp_setOwnIdx ext foreign x a idx v throw = (r, A')" by fastforce
  then show ?thesis using Sparse sp_set_refines assms by (simp add: a_setOwnIdx_def)
qed

lemma a_define_refines:
  assumes "a_inv A" "machine_ok A" "idx < 2 ^ 32 - 1"
  shows "\<exists>r A'. a_defineIdx callable ext A idx desc throw = Some (r, A') \<and>
    spec_define callable ext (a_abs A) idx desc throw = (r, a_abs A') \<and> (keeps A A' idx \<longrightarrow> a_inv A')"
proof (cases A)
  case (Std a)
  then show ?thesis using std_define_refines[of a idx] assms by (fastforce simp: a_defineIdx_def)
next
  case (Sparse a)
  obtain r A' where "sp_defineIdxProperty callable ext a idx desc throw = (r, A')" by fastforce
  then show ?thesis using Sparse sp_define_refines assms by (simp add: a_defineIdx_def)
qed

lemma a_exec_refines:
  assumes "a_inv A" "machine_ok A" "op_ok c"
  shows "\<exists>r A'. a_exec c A = Some (r, A') \<and> spec_exec c (a_abs A) = (r, a_abs A') \<and> (keeps_op c A A' \<longrightarrow> a_inv A')"
proof (cases c)
  case (OpSet ext foreign x idx v throw)
  then show ?thesis using a_set_refines[OF assms(1,2), of idx] assms(3) by simp
next
  case (OpDefine callable ext idx desc throw)
  then show ?thesis using a_define_refines[OF assms(1,2), of idx] assms(3) by simp
next
  case (OpDelete idx throw)
  obtain r A' where e: "a_deleteIdx A idx throw = (r, A')" by fastforce
  then show ?thesis using OpDelete a_delete_refines[OF assms(1) e] by simp
next
  case (OpSetLength l throw)
  obtain r A' where e: "a_setLength A l throw = (r, A')" by fastforce
  then show ?thesis using OpSetLength a_setLength_refines[OF assms(1) _ e] assms(3) by simp
next
  case (OpDefineLength descr l throw)
  obtain r A' where e: "a_defineLength A descr l throw = (r, A')" by fastforce
  then show ?thesis using OpDefineLength a_defineLength_refines[OF assms(1) _ e] assms(3) by simp
qed

fun a_runs :: "arrayOp list \<Rightarrow> arrayImpl \<Rightarrow> (bool outcome list \<times> arrayImpl) option" where
  "a_runs [] A = Some ([], A)"
| "a_runs (c # cs) A =
     Option.bind (a_exec c A) (\<lambda>(r, A'). Option.bind (a_runs cs A') (\<lambda>(rs, A''). Some (r # rs, A'')))"

fun spec_runs :: "arrayOp list \<Rightarrow> absArray \<Rightarrow> bool outcome list \<times> absArray" where
  "spec_runs [] S = ([], S)"
| "spec_runs (c # cs) S = (case spec_exec c S of (r, S') \<Rightarrow> case spec_runs cs S' of (rs, S'') \<Rightarrow> (r # rs, S''))"

text \<open>The conditions on a history: machine limits, and no property object lost from the count.\<close>

fun safe_run :: "arrayOp list \<Rightarrow> arrayImpl \<Rightarrow> bool" where
  "safe_run [] A \<longleftrightarrow> True"
| "safe_run (c # cs) A \<longleftrightarrow>
     op_ok c \<and> machine_ok A \<and>
     (case a_exec c A of None \<Rightarrow> True | Some (r, A') \<Rightarrow> keeps_op c A A' \<and> safe_run cs A')"

section \<open>Keys\<close>

definition key_set :: "bool \<Rightarrow> absArray \<Rightarrow> nat set" where
  "key_set all S = {i. \<exists>s. elems S i = Some s \<and> shown all s}"

lemma std_keys_correct:
  "sorted_wrt (<) (std_keys all k vs) \<and>
    set (std_keys all k vs) = {i. k \<le> i \<and> i < k + length vs \<and> (\<exists>s. vs ! (i - k) = Some s \<and> shown all s)}"
proof (induction all k vs rule: std_keys.induct)
  case (2 all k s vs)
  let ?K = "std_keys all (Suc k) vs"
  let ?T = "{i. Suc k \<le> i \<and> i < Suc k + length vs \<and> (\<exists>t. vs ! (i - Suc k) = Some t \<and> shown all t)}"
  have IH: "sorted_wrt (<) ?K \<and> set ?K = ?T" using 2 by (cases s) auto
  have split: "{i. k \<le> i \<and> i < k + length (s # vs) \<and> (\<exists>t. (s # vs) ! (i - k) = Some t \<and> shown all t)} =
    (if \<exists>t. s = Some t \<and> shown all t then insert k ?T else ?T)"
    by (auto simp: nth_Cons' Suc_le_eq)
  show ?case unfolding split using IH by (cases s) auto
qed simp

lemma a_keys_correct:
  assumes "a_inv A"
  shows "sorted_wrt (<) (a_keys all A)" "set (a_keys all A) = key_set all (a_abs A)"
proof -
  have "sorted_wrt (<) (a_keys all A) \<and> set (a_keys all A) = key_set all (a_abs A)"
  proof (cases A)
    case (Std a)
    have "key_set all (std_abs a) =
      {i. 0 \<le> i \<and> i < 0 + length (ar_values a) \<and> (\<exists>s. ar_values a ! (i - 0) = Some s \<and> shown all s)}"
      by (auto simp: key_set_def std_abs_def split: if_splits)
    then show ?thesis using Std std_keys_correct[of all 0 "ar_values a"] by (simp add: a_keys_def)
  next
    case (Sparse a)
    then have so: "sorted_wrt (<) (map fst (sp_items a))" using assms by (simp add: sp_ok_def sp_shape_def)
    have "sorted_wrt (<) (map fst (filter P (sp_items a)))" for P
      using so by (simp add: sorted_wrt_map sorted_wrt_filter)
    moreover have "set (sp_keys all (sp_items a)) = key_set all (sp_abs a)"
      by (force simp: sp_keys_def key_set_def sp_abs_def map_of_items[OF so])
    ultimately show ?thesis using Sparse by (simp add: a_keys_def sp_keys_def)
  qed
  then show "sorted_wrt (<) (a_keys all A)" "set (a_keys all A) = key_set all (a_abs A)" by blast+
qed

section \<open>Properties\<close>

text \<open>
  (C2) Every safe history of assignments, definitions and deletions of elements and changes of the length has,
  on either representation and across the switches between them, exactly the outcomes and the final
  contents of the abstract array of the specification, and the invariant of the representation is kept.
  In particular every operation returns. A history is safe when indices and lengths are in range, the dense representation stays within the
  machine's limits, and no definition stores a property object while it switches the representation: there the code loses count
  of the object (a defect, shown below).
\<close>

theorem array_history_refines:
  assumes "a_inv A" "safe_run cs A"
  shows "\<exists>rs A'. a_runs cs A = Some (rs, A') \<and> spec_runs cs (a_abs A) = (rs, a_abs A') \<and> a_inv A'"
  using assms
proof (induction cs arbitrary: A)
  case (Cons c cs)
  have ok: "op_ok c" "machine_ok A" using Cons.prems(2) by simp_all
  obtain r A' where e: "a_exec c A = Some (r, A')" "spec_exec c (a_abs A) = (r, a_abs A')"
    "keeps_op c A A' \<longrightarrow> a_inv A'" using a_exec_refines[OF Cons.prems(1) ok(2,1)] by blast
  then have "a_inv A'" "safe_run cs A'" using Cons.prems(2) by simp_all
  then show ?case using Cons.IH[of A'] e by auto
qed simp

definition frozen_desc :: "val \<Rightarrow> PropertyDescriptor" where
  "frozen_desc v = \<lparr>pd_value = Some v, pd_writable = FLAG_FALSE, pd_configurable = FLAG_FALSE,
     pd_enumerable = FLAG_TRUE, pd_getter = None, pd_setter = None\<rparr>"

lemma newArray_inv: "a_inv (Std newArray)"
  by (simp add: newArray_def std_ok_def std_shape_def counted_def std_abs_def pset_def)

text \<open>A history that switches to the sparse representation and there defines, refuses to truncate and deletes.\<close>

definition history1 :: "arrayOp list" where
  "history1 = [OpSet True None 0 0 (VInt 7) True, OpSet True None 0 5000 (VInt 8) True,
     OpDefine (\<lambda>_. False) True 6000 (frozen_desc (VInt 9)) True, OpSetLength 3 False, OpDelete 5000 True]"

definition frozen9 :: slot where
  "frozen9 = Prop \<lparr>vp_value = Some (VInt 9), vp_writable = False, vp_configurable = False, vp_enumerable = True,
    vp_accessor = False, vp_getterFunc = None, vp_setterFunc = None\<rparr>"

definition sparse1 :: "(nat \<times> slot) list \<Rightarrow> nat \<Rightarrow> int \<Rightarrow> arrayImpl" where
  "sparse1 items l c = Sparse \<lparr>sp_items = items, sp_length = l, sp_propValueCount = c, sp_lengthProp = empty_property\<lparr>vp_writable := True\<rparr>\<rparr>"

lemmas sparse_step_defs = sparse1_def sp_findIdx_def sort_Search_def search_loop.simps sp_at_def insert_at_def Let_def u32_def frozen9_def

lemma history1_steps:
  "\<exists>a. a_exec (OpSet True None 0 0 (VInt 7) True) (Std newArray) = Some (Done True, Std a) \<and> machine_ok (Std a) \<and>
     a_exec (OpSet True None 0 5000 (VInt 8) True) (Std a) = Some (Done True, sparse1 [(0, Plain (VInt 7)), (5000, Plain (VInt 8))] 5001 0)"
  "a_exec (OpDefine (\<lambda>_. False) True 6000 (frozen_desc (VInt 9)) True) (sparse1 [(0, Plain (VInt 7)), (5000, Plain (VInt 8))] 5001 0) =
     Some (Done True, sparse1 [(0, Plain (VInt 7)), (5000, Plain (VInt 8)), (6000, frozen9)] 6001 1)"
  "a_exec (OpSetLength 3 False) (sparse1 [(0, Plain (VInt 7)), (5000, Plain (VInt 8)), (6000, frozen9)] 6001 1) =
     Some (Done False, sparse1 [(0, Plain (VInt 7)), (5000, Plain (VInt 8)), (6000, frozen9)] 6001 1)"
  "a_exec (OpDelete 5000 True) (sparse1 [(0, Plain (VInt 7)), (5000, Plain (VInt 8)), (6000, frozen9)] 6001 1) =
     Some (Done True, sparse1 [(0, Plain (VInt 7)), (6000, frozen9)] 6001 1)"
  subgoal
    by (simp add: newArray_def a_setOwnIdx_def std_setOwnIdx_def std_elem_def u32_def std_setLengthInt_def std__setLengthInt_def
        std_truncate_def std_expand_def growCap_def std_put_def machine_ok_def ar_cap_def wrap_u_def wrap_s_def to_sparse_def sp_add_def
        sparse_step_defs empty_property_def)
  subgoal
    by (simp add: a_defineIdx_def sp_defineIdxProperty_def defineOwnProperty_def isCompatiblePropertyDescriptor_def frozen_desc_def
        apply_getter_def apply_setter_def apply_data_def set_flag_def Flag_Bool_def fill_undefined_def empty_property_def sp_setLengthInt_def
        sp__setLengthInt_def sp_expand_def sparse_step_defs)
  subgoal by (simp add: a_setLength_def sp_setLength_def sp__setLengthInt_def reject_def sparse_step_defs)
  subgoal by (simp add: a_deleteIdx_def sp_deleteIdxProp_def remove_at_def sparse_step_defs)
  done

theorem array_history_refines_witness:
  "\<exists>A'. a_runs history1 (Std newArray) = Some ([Done True, Done True, Done True, Done False, Done True], A') \<and>
     A' = sparse1 [(0, Plain (VInt 7)), (6000, frozen9)] 6001 1 \<and>
     spec_runs history1 (a_abs (Std newArray)) = ([Done True, Done True, Done True, Done False, Done True], a_abs A') \<and> a_inv A'"
proof -
  obtain a where a: "a_exec (OpSet True None 0 0 (VInt 7) True) (Std newArray) = Some (Done True, Std a)" "machine_ok (Std a)"
    "a_exec (OpSet True None 0 5000 (VInt 8) True) (Std a) = Some (Done True, sparse1 [(0, Plain (VInt 7)), (5000, Plain (VInt 8))] 5001 0)"
    using history1_steps(1) by blast
  note steps = a history1_steps(2-4)
  have "machine_ok (Std newArray)" by (simp add: machine_ok_def newArray_def ar_cap_def)
  moreover have "machine_ok (sparse1 items l c)" "same_rep (sparse1 items l c) (sparse1 items' l' c')" for items l c items' l' c'
    by (simp_all add: machine_ok_def sparse1_def same_rep_def)
  ultimately have "safe_run history1 (Std newArray)"
    by (simp add: history1_def steps keeps_def del: a_exec.simps)
  from array_history_refines [OF newArray_inv this] show ?thesis
    by (simp add: history1_def steps del: a_exec.simps spec_runs.simps)
qed

text \<open>
  (C35) On an array whose representation is consistent (\<open>a_inv\<close>) and whose length is writable, setting the length to \<open>l\<close> removes the elements from the
  new length on and no other. If no element from \<open>l\<close> on is non-configurable, it succeeds with the new length \<open>l\<close>; otherwise it is refused, and the new
  length is one more than the index of the last non-configurable element, which is kept.
\<close>

theorem array_truncation:
  assumes "a_inv A" "l < 2 ^ 32" "alenw (a_abs A)" "a_setLength A l throw = (r, A')"
  shows "(if \<forall>i \<ge> l. \<not> blocked (a_getIdx A i) then r = Done True \<and> a_length A' = l
     else r = reject throw \<and> (\<exists>i \<ge> l. a_length A' = Suc i \<and> blocked (a_getIdx A i) \<and> (\<forall>j > i. \<not> blocked (a_getIdx A j)))) \<and>
    (\<forall>i. a_getIdx A' i = (if i < a_length A' then a_getIdx A i else None))"
proof -
  have get: "a_getIdx B i = elems (a_abs B) i" if "a_inv B" for B i
    using that std_elem_abs sp_getIdx_elem by (cases B) (auto simp: a_getIdx_def std_ok_def sp_ok_def)
  have len: "a_length B = alen (a_abs B)" for B by (cases B) (simp_all add: a_length_def std_abs_def sp_abs_def)
  note R = a_setLength_refines[OF assms(1,2,4)]
  let ?E = "elems (a_abs A)" and ?l = "final_len (elems (a_abs A)) l"
  have e: "r = (if ?l = l then Done True else reject throw)" "elems (a_abs A') = ?E |` {..<?l}" "alen (a_abs A') = ?l"
    using R(1) assms(3) by (simp_all add: spec_setLength_def spec_truncate_def Let_def)
  have bd: "\<forall>j. alen (a_abs A) \<le> j \<longrightarrow> ?E j = None"
    using assms(1) dense.ok_bounded sparse.ok_bounded by (cases A) (auto simp: bounded_def)
  have fin: "finite (blockers ?E l)"
    by (rule finite_subset[of _ "{..<alen (a_abs A)}"])
      (use bd in \<open>auto simp: blockers_def blocked_def not_le[symmetric]\<close>)
  have above: "i < ?l" if "blocked (?E i)" for i
  proof (cases "l \<le> i")
    case True
    then have "i \<in> blockers ?E l" using that by (simp add: blockers_def)
    then show ?thesis using fin Max_ge[OF fin] by (auto simp: final_len_def less_Suc_eq_le)
  next
    case False
    then show ?thesis using final_len_bounds(1)[OF bd, of l] by simp
  qed
  have last: "\<exists>i \<ge> l. ?l = Suc i \<and> blocked (?E i) \<and> (\<forall>j > i. \<not> blocked (?E j))" if "blockers ?E l \<noteq> {}"
  proof -
    have "Max (blockers ?E l) \<in> blockers ?E l" using fin that by (rule Max_in)
    moreover have "?l = Suc (Max (blockers ?E l))" using that by (simp add: final_len_def)
    ultimately show ?thesis using above by (intro exI [of _ "Max (blockers ?E l)"]) (fastforce simp: blockers_def)
  qed
  have none: "blockers ?E l = {} \<longleftrightarrow> (\<forall>i \<ge> l. \<not> blocked (?E i))" by (auto simp: blockers_def)
  have "?l = l \<longleftrightarrow> (\<forall>i \<ge> l. \<not> blocked (?E i))"
    using above final_len_none[of l ?E] by (metis not_le)
  then show ?thesis using e last none by (auto simp: get assms(1) R(2) len restrict_map_def)
qed

text \<open>A sparse array with a frozen element at 6000 and another element above it.\<close>

lemma sparse1_inv: "a_inv (sparse1 [(0, Plain (VInt 7)), (6000, frozen9), (6500, Plain (VInt 8))] 6501 1)"
proof -
  have "pset (elems (a_abs (sparse1 [(0, Plain (VInt 7)), (6000, frozen9), (6500, Plain (VInt 8))] 6501 1))) = {6000}"
    by (auto simp: pset_def a_abs_def sp_abs_def sparse1_def frozen9_def split: if_splits)
  then show ?thesis
    by (simp add: a_inv_def a_shape_def sp_shape_def counted_def a_count_def sparse1_def)
qed

theorem array_truncation_witness:
  "a_setLength (sparse1 [(0, Plain (VInt 7)), (6000, frozen9), (6500, Plain (VInt 8))] 6501 1) 3 False =
     (Done False, sparse1 [(0, Plain (VInt 7)), (6000, frozen9)] 6001 1) \<and>
   a_getIdx (sparse1 [(0, Plain (VInt 7)), (6000, frozen9)] 6001 1) 6000 = Some frozen9 \<and>
   a_getIdx (sparse1 [(0, Plain (VInt 7)), (6000, frozen9)] 6001 1) 6500 = None"
proof -
  let ?A = "sparse1 [(0, Plain (VInt 7)), (6000, frozen9), (6500, Plain (VInt 8))] 6501 1"
  let ?B = "sparse1 [(0, Plain (VInt 7)), (6000, frozen9)] 6001 1"
  have s: "a_setLength ?A 3 False = (Done False, ?B)"
    by (simp add: a_setLength_def sp_setLength_def sp__setLengthInt_def reject_def sparse_step_defs)
  have w: "alenw (a_abs ?A)" by (simp add: a_abs_def sp_abs_def sparse1_def)
  have g: "a_getIdx ?A 6000 = Some frozen9" by (simp add: a_getIdx_def sp_getIdx_def sparse_step_defs)
  have "a_length ?B = 6001" by (simp add: a_length_def sparse1_def)
  then show ?thesis using s array_truncation [OF sparse1_inv _ w s] g by simp
qed

text \<open>
  The keys of an array start with the indices of its elements in ascending order, each once (only the
  enumerable ones if so asked), in decimal; the names of its other properties follow.
\<close>

theorem array_keys_ascending:
  assumes "a_inv A" "a_stringKeys all A b = (names, b')"
  shows "\<exists>ks. sorted_wrt (<) ks \<and> set ks = key_set all (a_abs A) \<and>
    names = map dec_nat ks @ fst (stringKeys all b)"
  using a_keys_correct[OF assms(1), of all] assms(2)
  by (auto simp: a_stringKeys_def split: prod.splits)

theorem array_keys_ascending_witness:
  "\<exists>ks. sorted_wrt (<) ks \<and> set ks = key_set True (a_abs (Std newArray)) \<and>
     fst (a_stringKeys True (Std newArray) plain_object) = map dec_nat ks @ fst (stringKeys True plain_object)"
proof -
  obtain names b' where e: "a_stringKeys True (Std newArray) plain_object = (names, b')" by fastforce
  show ?thesis using array_keys_ascending[OF newArray_inv e] e by simp
qed


end
