(* ===== verification/Promise.thy ===== *)
theory Promise
  imports Values "HOL-Library.Multiset"
begin

text \<open>
  Promises and the job queue (builtin_promise.go, the end of a top-level call in runtime.go): the state of
  a promise, its resolving functions with their shared \<^verbatim>\<open>alreadyResolved\<close> flag, reactions, jobs, the
  rejection tracker and the loop that runs the jobs. Function objects and promises are object identities
  handed out by a counter. What program code does when it is called (a handler, an executor, a getter
  of \<^verbatim>\<open>then\<close>) is an argument, as is a constructor other than the built-in one; a thrown value is \<open>Inl\<close>.
\<close>

section \<open>State\<close>

datatype PromiseState = PromiseStatePending | PromiseStateFulfilled | PromiseStateRejected

datatype PromiseRejectionOperation = PromiseRejectionReject | PromiseRejectionHandle

datatype promiseReactionType = promiseReactionFulfill | promiseReactionReject

record promiseCapability =
  cap_promise :: oid
  cap_resolveObj :: oid
  cap_rejectObj :: oid

record promiseReaction =
  re_capability :: "promiseCapability option"
  re_typ :: promiseReactionType
  re_handler :: "oid option"

record Promise =
  p_state :: PromiseState
  p_result :: "val option"
  p_fulfillReactions :: "promiseReaction list"
  p_rejectReactions :: "promiseReaction list"
  p_handled :: bool

text \<open>
  A job is a closure in the code; here it is the data the closure captures. A resolving function is
  native code with a pair of a promise and a flag that both functions of the pair share.
\<close>

datatype job = ReactionJob promiseReaction val | ThenableJob oid val oid

datatype native = NResolve nat | NReject nat

record world =
  promises :: "oid \<Rightarrow> Promise option"
  resolvers :: "(oid \<times> bool) list"
  natives :: "oid \<Rightarrow> native option"
  jobQueue :: "job list"
  has_tracker :: bool
  tracked :: "(oid \<times> PromiseRejectionOperation) list"
  next_oid :: oid

text \<open>What the program and the host provide.\<close>

record penv =
  e_getThen :: "oid \<Rightarrow> world \<Rightarrow> (val + val option) \<times> world"
  e_callFn :: "oid \<Rightarrow> val \<Rightarrow> val list \<Rightarrow> world \<Rightarrow> (val + val) \<times> world"
  e_isCallable :: "oid \<Rightarrow> bool"
  e_constructor :: "oid \<Rightarrow> world \<Rightarrow> val \<times> world"
  e_foreignCapability :: "oid \<Rightarrow> world \<Rightarrow> (val + promiseCapability) \<times> world"
  e_promiseCtor :: oid
  e_selfResolution :: val

definition the_promise :: "world \<Rightarrow> oid \<Rightarrow> Promise" where
  "the_promise w p = the (promises w p)"

definition put_promise :: "oid \<Rightarrow> Promise \<Rightarrow> world \<Rightarrow> world" where
  "put_promise p x w = w\<lparr>promises := (promises w)(p \<mapsto> x)\<rparr>"

section \<open>Settling\<close>

definition enqueuePromiseJob :: "job \<Rightarrow> world \<Rightarrow> world" where
  "enqueuePromiseJob j w = w\<lparr>jobQueue := jobQueue w @ [j]\<rparr>"

definition triggerPromiseReactions :: "promiseReaction list \<Rightarrow> val \<Rightarrow> world \<Rightarrow> world" where
  "triggerPromiseReactions reactions argument w =
     foldl (\<lambda>w reaction. enqueuePromiseJob (ReactionJob reaction argument) w) w reactions"

definition trackPromiseRejection :: "oid \<Rightarrow> PromiseRejectionOperation \<Rightarrow> world \<Rightarrow> world" where
  "trackPromiseRejection p operation w =
     (if has_tracker w then w\<lparr>tracked := tracked w @ [(p, operation)]\<rparr> else w)"

definition p_reject :: "oid \<Rightarrow> val \<Rightarrow> world \<Rightarrow> world" where
  "p_reject p reason w =
     (let x = the_promise w p;
          reactions = p_rejectReactions x;
          w1 = put_promise p (x\<lparr>p_state := PromiseStateRejected, p_result := Some reason,
                 p_fulfillReactions := [], p_rejectReactions := []\<rparr>) w;
          w2 = (if \<not> p_handled x then trackPromiseRejection p PromiseRejectionReject w1 else w1)
      in triggerPromiseReactions reactions reason w2)"

definition p_fulfill :: "oid \<Rightarrow> val \<Rightarrow> world \<Rightarrow> world" where
  "p_fulfill p v w =
     (let x = the_promise w p;
          reactions = p_fulfillReactions x;
          w1 = put_promise p (x\<lparr>p_state := PromiseStateFulfilled, p_result := Some v,
                 p_fulfillReactions := [], p_rejectReactions := []\<rparr>) w
      in triggerPromiseReactions reactions v w1)"

definition addReactions :: "oid \<Rightarrow> promiseReaction \<Rightarrow> promiseReaction \<Rightarrow> world \<Rightarrow> world" where
  "addReactions p fulfillReaction rejectReaction w =
     (let x = the_promise w p;
          w1 = (case p_state x of
                  PromiseStatePending \<Rightarrow>
                    put_promise p (x\<lparr>p_fulfillReactions := p_fulfillReactions x @ [fulfillReaction],
                      p_rejectReactions := p_rejectReactions x @ [rejectReaction]\<rparr>) w
                | PromiseStateFulfilled \<Rightarrow>
                    enqueuePromiseJob (ReactionJob fulfillReaction (the (p_result x))) w
                | PromiseStateRejected \<Rightarrow>
                    enqueuePromiseJob (ReactionJob rejectReaction (the (p_result x)))
                      (if \<not> p_handled x then trackPromiseRejection p PromiseRejectionHandle w else w))
      in put_promise p ((the_promise w1 p)\<lparr>p_handled := True\<rparr>) w1)"

section \<open>Resolving functions\<close>

definition createResolvingFunctions :: "oid \<Rightarrow> world \<Rightarrow> (oid \<times> oid) \<times> world" where
  "createResolvingFunctions p w =
     (let rid = length (resolvers w); f = next_oid w; g = next_oid w + 1
      in ((f, g), w\<lparr>resolvers := resolvers w @ [(p, False)],
            natives := (natives w)(f \<mapsto> NResolve rid, g \<mapsto> NReject rid), next_oid := next_oid w + 2\<rparr>))"

definition mark_resolved :: "nat \<Rightarrow> world \<Rightarrow> world" where
  "mark_resolved rid w = w\<lparr>resolvers := (resolvers w)[rid := (fst (resolvers w ! rid), True)]\<rparr>"

definition callable :: "penv \<Rightarrow> world \<Rightarrow> oid \<Rightarrow> bool" where
  "callable E w f \<longleftrightarrow> natives w f \<noteq> None \<or> e_isCallable E f"

definition resolve_body :: "penv \<Rightarrow> oid \<Rightarrow> val \<Rightarrow> world \<Rightarrow> world" where
  "resolve_body E p resolution w =
     (if resolution = VObj p then p_reject p (e_selfResolution E) w
      else case resolution of
        VObj x \<Rightarrow>
          (case e_getThen E x w of
             (Inl ex, w') \<Rightarrow> p_reject p ex w'
           | (Inr thenAction, w') \<Rightarrow>
               (case thenAction of
                  Some (VObj f) \<Rightarrow>
                    if callable E w' f then enqueuePromiseJob (ThenableJob p resolution f) w'
                    else p_fulfill p resolution w'
                | _ \<Rightarrow> p_fulfill p resolution w'))
      | _ \<Rightarrow> p_fulfill p resolution w)"

definition resolveFn :: "penv \<Rightarrow> nat \<Rightarrow> val \<Rightarrow> world \<Rightarrow> world" where
  "resolveFn E rid resolution w =
     (case resolvers w ! rid of (p, alreadyResolved) \<Rightarrow>
        if alreadyResolved then w else resolve_body E p resolution (mark_resolved rid w))"

definition rejectFn :: "nat \<Rightarrow> val \<Rightarrow> world \<Rightarrow> world" where
  "rejectFn rid reason w =
     (case resolvers w ! rid of (p, alreadyResolved) \<Rightarrow>
        if alreadyResolved then w else p_reject p reason (mark_resolved rid w))"

text \<open>\<^verbatim>\<open>call.Argument(0)\<close>.\<close>

definition argument0 :: "val list \<Rightarrow> val" where
  "argument0 args = (case args of [] \<Rightarrow> VUndef | a # _ \<Rightarrow> a)"

definition call_fn :: "penv \<Rightarrow> oid \<Rightarrow> val \<Rightarrow> val list \<Rightarrow> world \<Rightarrow> (val + val) \<times> world" where
  "call_fn E f this args w =
     (case natives w f of
        Some (NResolve rid) \<Rightarrow> (Inr VUndef, resolveFn E rid (argument0 args) w)
      | Some (NReject rid) \<Rightarrow> (Inr VUndef, rejectFn rid (argument0 args) w)
      | None \<Rightarrow> e_callFn E f this args w)"

section \<open>Capabilities and then\<close>

definition newPromise :: "world \<Rightarrow> oid \<times> world" where
  "newPromise w =
     (next_oid w,
      (put_promise (next_oid w) \<lparr>p_state = PromiseStatePending, p_result = None, p_fulfillReactions = [],
         p_rejectReactions = [], p_handled = False\<rparr> w)\<lparr>next_oid := next_oid w + 1\<rparr>)"

definition native_capability :: "world \<Rightarrow> promiseCapability \<times> world" where
  "native_capability w =
     (case newPromise w of (p, w1) \<Rightarrow>
      case createResolvingFunctions p w1 of ((f, g), w2) \<Rightarrow>
        (\<lparr>cap_promise = p, cap_resolveObj = f, cap_rejectObj = g\<rparr>, w2))"

definition newPromiseCapability :: "penv \<Rightarrow> oid \<Rightarrow> world \<Rightarrow> (val + promiseCapability) \<times> world" where
  "newPromiseCapability E c w =
     (if c = e_promiseCtor E then (case native_capability w of (cap, w') \<Rightarrow> (Inr cap, w'))
      else e_foreignCapability E c w)"

definition capability_resolve :: "penv \<Rightarrow> promiseCapability \<Rightarrow> val \<Rightarrow> world \<Rightarrow> (val + val) \<times> world" where
  "capability_resolve E cap result w = call_fn E (cap_resolveObj cap) VUndef [result] w"

definition capability_reject :: "penv \<Rightarrow> promiseCapability \<Rightarrow> val \<Rightarrow> world \<Rightarrow> (val + val) \<times> world" where
  "capability_reject E cap reason w = call_fn E (cap_rejectObj cap) VUndef [reason] w"

definition callback_of :: "penv \<Rightarrow> world \<Rightarrow> val \<Rightarrow> oid option" where
  "callback_of E w v = (case v of VObj f \<Rightarrow> if callable E w f then Some f else None | _ \<Rightarrow> None)"

definition performPromiseThen ::
  "penv \<Rightarrow> oid \<Rightarrow> val \<Rightarrow> val \<Rightarrow> promiseCapability option \<Rightarrow> world \<Rightarrow> val \<times> world" where
  "performPromiseThen E p onFulfilled onRejected resultCapability w =
     (let fulfillReaction = \<lparr>re_capability = resultCapability, re_typ = promiseReactionFulfill,
            re_handler = callback_of E w onFulfilled\<rparr>;
          rejectReaction = \<lparr>re_capability = resultCapability, re_typ = promiseReactionReject,
            re_handler = callback_of E w onRejected\<rparr>
      in (case resultCapability of None \<Rightarrow> VUndef | Some cap \<Rightarrow> VObj (cap_promise cap),
          addReactions p fulfillReaction rejectReaction w))"

definition promiseResolve :: "penv \<Rightarrow> oid \<Rightarrow> val \<Rightarrow> world \<Rightarrow> (val + oid) \<times> world" where
  "promiseResolve E c x w =
     (let fresh = (\<lambda>w. case newPromiseCapability E c w of
             (Inl ex, w') \<Rightarrow> (Inl ex, w')
           | (Inr cap, w') \<Rightarrow> map_prod (map_sum id (\<lambda>_. cap_promise cap)) id (capability_resolve E cap x w'))
      in case x of
           VObj q \<Rightarrow>
             if promises w q \<noteq> None then
               (case e_constructor E q w of (xConstructor, w') \<Rightarrow>
                  if xConstructor = VObj c then (Inr q, w') else fresh w')
             else fresh w
         | _ \<Rightarrow> fresh w)"

definition promise_reject :: "penv \<Rightarrow> oid \<Rightarrow> val \<Rightarrow> world \<Rightarrow> (val + oid) \<times> world" where
  "promise_reject E c reason w =
     (case newPromiseCapability E c w of
        (Inl ex, w') \<Rightarrow> (Inl ex, w')
      | (Inr cap, w') \<Rightarrow> map_prod (map_sum id (\<lambda>_. cap_promise cap)) id (capability_reject E cap reason w'))"

text \<open>\<^verbatim>\<open>new Promise(executor)\<close> with a callable executor.\<close>

definition builtin_newPromise :: "penv \<Rightarrow> oid \<Rightarrow> world \<Rightarrow> oid \<times> world" where
  "builtin_newPromise E executor w =
     (case newPromise w of (p, w1) \<Rightarrow>
      case createResolvingFunctions p w1 of ((f, g), w2) \<Rightarrow>
      case call_fn E executor VUndef [VObj f, VObj g] w2 of
        (Inl ex, w3) \<Rightarrow> (p, snd (call_fn E g VUndef [ex] w3))
      | (Inr _, w3) \<Rightarrow> (p, w3))"

section \<open>Jobs\<close>

text \<open>A value thrown by a resolving function of a foreign capability leaves the job (\<open>Inl\<close>).\<close>

definition reaction_job :: "penv \<Rightarrow> promiseReaction \<Rightarrow> val \<Rightarrow> world \<Rightarrow> (val + val) \<times> world" where
  "reaction_job E reaction arg w =
     (case (case re_handler reaction of
              None \<Rightarrow> ((if re_typ reaction = promiseReactionFulfill then Inr arg else Inl arg), w)
            | Some f \<Rightarrow> call_fn E f VUndef [arg] w) of
        (result, w') \<Rightarrow>
          (case re_capability reaction of
             None \<Rightarrow> (Inr VUndef, w')
           | Some cap \<Rightarrow>
               (case result of
                  Inr handlerResult \<Rightarrow> capability_resolve E cap handlerResult w'
                | Inl handlerResult \<Rightarrow> capability_reject E cap handlerResult w')))"

definition thenable_job :: "penv \<Rightarrow> oid \<Rightarrow> val \<Rightarrow> oid \<Rightarrow> world \<Rightarrow> (val + val) \<times> world" where
  "thenable_job E p thenable thenFn w =
     (case createResolvingFunctions p w of ((f, g), w1) \<Rightarrow>
      case call_fn E thenFn thenable [VObj f, VObj g] w1 of
        (Inl ex, w2) \<Rightarrow> call_fn E g VUndef [ex] w2
      | (Inr _, w2) \<Rightarrow> (Inr VUndef, w2))"

definition run_job :: "penv \<Rightarrow> job \<Rightarrow> world \<Rightarrow> (val + val) \<times> world" where
  "run_job E j w =
     (case j of
        ReactionJob reaction arg \<Rightarrow> reaction_job E reaction arg w
      | ThenableJob p thenable thenFn \<Rightarrow> thenable_job E p thenable thenFn w)"

text \<open>
  \<^verbatim>\<open>leave\<close>: take the whole queue as a batch, run its jobs while they fill a new queue, and repeat until no job
  is left. Jobs can enqueue jobs forever, then there is no result.
\<close>

fun run_jobs :: "penv \<Rightarrow> job list \<Rightarrow> world \<Rightarrow> (val + val) \<times> world" where
  "run_jobs E [] w = (Inr VUndef, w)"
| "run_jobs E (j # js) w = (case run_job E j w of (Inl ex, w') \<Rightarrow> (Inl ex, w') | (Inr _, w') \<Rightarrow> run_jobs E js w')"

partial_function (option) leave :: "penv \<Rightarrow> world \<Rightarrow> ((val + val) \<times> world) option" where
  "leave E w =
     (if jobQueue w \<noteq> []
      then (case run_jobs E (jobQueue w) (w\<lparr>jobQueue := []\<rparr>) of
              (Inl ex, w') \<Rightarrow> Some (Inl ex, w')
            | (Inr _, w') \<Rightarrow> leave E w')
      else Some (Inr VUndef, w))"

definition leaveAbrupt :: "world \<Rightarrow> world" where
  "leaveAbrupt w = w\<lparr>jobQueue := []\<rparr>"

section \<open>Atomic steps\<close>

text \<open>
  The right to settle a promise is a token: it is in a pair of resolving functions not yet used, in a
  queued thenable job, or in flight, held by code that runs. The atomic steps move tokens; a call of
  program code is a sequence of them that leaves the tokens in flight as it finds them.
\<close>

definition job_tokens :: "job list \<Rightarrow> oid multiset" where
  "job_tokens js = mset (List.map_filter (\<lambda>j. case j of ThenableJob p v f \<Rightarrow> Some p | _ \<Rightarrow> None) js)"

definition resolver_tokens :: "(oid \<times> bool) list \<Rightarrow> oid multiset" where
  "resolver_tokens rs = mset (map fst (filter (\<lambda>r. \<not> snd r) rs))"

definition tokens :: "world \<Rightarrow> oid multiset \<Rightarrow> oid multiset" where
  "tokens w fl = resolver_tokens (resolvers w) + job_tokens (jobQueue w) + fl"

inductive astep :: "world \<times> oid multiset \<Rightarrow> world \<times> oid multiset \<Rightarrow> bool" where
  Begin: "rid < length (resolvers w) \<Longrightarrow> resolvers w ! rid = (p, False) \<Longrightarrow>
    astep (w, fl) (mark_resolved rid w, add_mset p fl)"
| Fulfill: "astep (w, add_mset p fl) (p_fulfill p v w, fl)"
| Reject: "astep (w, add_mset p fl) (p_reject p v w, fl)"
| Thenable: "astep (w, add_mset p fl) (enqueuePromiseJob (ThenableJob p v f) w, fl)"
| New: "astep (w, fl) (snd (newPromise w), add_mset (next_oid w) fl)"
| Create: "astep (w, add_mset p fl) (snd (createResolvingFunctions p w), fl)"
| Add: "promises w p \<noteq> None \<Longrightarrow> re_capability a = re_capability b \<Longrightarrow> astep (w, fl) (addReactions p a b w, fl)"
| Take: "astep (w, fl) (w\<lparr>jobQueue := []\<rparr>, job_tokens (jobQueue w) + fl)"

abbreviation asteps :: "world \<times> oid multiset \<Rightarrow> world \<times> oid multiset \<Rightarrow> bool" where
  "asteps \<equiv> astep\<^sup>*\<^sup>*"

definition user_code :: "penv \<Rightarrow> bool" where
  "user_code E \<longleftrightarrow> (\<forall>w fl.
     (\<forall>x. asteps (w, fl) (snd (e_getThen E x w), fl)) \<and>
     (\<forall>f this args. asteps (w, fl) (snd (e_callFn E f this args w), fl)) \<and>
     (\<forall>q. asteps (w, fl) (snd (e_constructor E q w), fl)) \<and>
     (\<forall>c. asteps (w, fl) (snd (e_foreignCapability E c w), fl)))"

section \<open>The invariant\<close>

definition reports :: "world \<Rightarrow> oid \<Rightarrow> PromiseRejectionOperation list" where
  "reports w p = map snd (filter (\<lambda>e. fst e = p) (tracked w))"

definition promise_ok :: "world \<Rightarrow> oid \<Rightarrow> Promise \<Rightarrow> bool" where
  "promise_ok w p x \<longleftrightarrow>
     (case p_state x of
        PromiseStatePending \<Rightarrow> p_result x = None \<and> reports w p = [] \<and>
          map re_capability (p_fulfillReactions x) = map re_capability (p_rejectReactions x) \<and>
          (p_fulfillReactions x \<noteq> [] \<longrightarrow> p_handled x)
      | PromiseStateFulfilled \<Rightarrow> p_result x \<noteq> None \<and> p_fulfillReactions x = [] \<and> p_rejectReactions x = [] \<and>
          reports w p = []
      | PromiseStateRejected \<Rightarrow> p_result x \<noteq> None \<and> p_fulfillReactions x = [] \<and> p_rejectReactions x = [] \<and>
          (has_tracker w \<longrightarrow>
             (if p_handled x then reports w p \<in> {[], [PromiseRejectionReject, PromiseRejectionHandle]}
              else reports w p = [PromiseRejectionReject])))"

definition pinv :: "world \<Rightarrow> oid multiset \<Rightarrow> bool" where
  "pinv w fl \<longleftrightarrow>
     (\<forall>p. count (tokens w fl) p \<le> 1) \<and>
     (\<forall>p. promises w p = None \<longrightarrow> p \<notin># tokens w fl \<and> reports w p = []) \<and>
     (\<forall>p x. promises w p = Some x \<longrightarrow> promise_ok w p x \<and> (p_state x \<noteq> PromiseStatePending \<longrightarrow> p \<notin># tokens w fl)) \<and>
     (\<forall>o'. next_oid w \<le> o' \<longrightarrow> promises w o' = None \<and> natives w o' = None) \<and>
     (\<forall>f rid. natives w f = Some (NResolve rid) \<or> natives w f = Some (NReject rid) \<longrightarrow> rid < length (resolvers w))"

definition settled_kept :: "world \<Rightarrow> world \<Rightarrow> bool" where
  "settled_kept w w' \<longleftrightarrow> (\<forall>p x. promises w p = Some x \<longrightarrow>
     (\<exists>y. promises w' p = Some y \<and>
        (p_state x \<noteq> PromiseStatePending \<longrightarrow> p_state y = p_state x \<and> p_result y = p_result x)))"

lemma settled_kept_refl: "settled_kept w w"
  by (simp add: settled_kept_def)

lemma settled_kept_trans: "settled_kept w w' \<Longrightarrow> settled_kept w' w'' \<Longrightarrow> settled_kept w w''"
  unfolding settled_kept_def by metis

section \<open>Effect of the operations on the parts of the world\<close>

lemma trigger_eq:
  "triggerPromiseReactions rs v w = w\<lparr>jobQueue := jobQueue w @ map (\<lambda>r. ReactionJob r v) rs\<rparr>"
proof (induction rs arbitrary: w)
  case (Cons r rs)
  have "triggerPromiseReactions (r # rs) v w = triggerPromiseReactions rs v (enqueuePromiseJob (ReactionJob r v) w)"
    by (simp add: triggerPromiseReactions_def)
  then show ?case using Cons by (simp add: enqueuePromiseJob_def)
qed (simp add: triggerPromiseReactions_def)

lemma job_tokens_simps [simp]:
  "job_tokens [] = {#}" "job_tokens (js @ js') = job_tokens js + job_tokens js'"
  "job_tokens (ReactionJob r v # js) = job_tokens js" "job_tokens (ThenableJob p v f # js) = add_mset p (job_tokens js)"
  "job_tokens (map (\<lambda>r. ReactionJob r v) rs) = {#}"
  by (simp_all add: job_tokens_def List.map_filter_def)

lemma resolver_tokens_append [simp]: "resolver_tokens (rs @ [(p, False)]) = add_mset p (resolver_tokens rs)"
  by (simp add: resolver_tokens_def)

lemma resolver_tokens_mark:
  "rid < length rs \<Longrightarrow> rs ! rid = (p, False) \<Longrightarrow>
    add_mset p (resolver_tokens (rs[rid := (p, True)])) = resolver_tokens rs"
proof -
  assume rid: "rid < length rs" "rs ! rid = (p, False)"
  have "rs = take rid rs @ (p, False) # drop (Suc rid) rs" using rid by (metis id_take_nth_drop)
  then have "resolver_tokens rs = resolver_tokens (take rid rs @ (p, False) # drop (Suc rid) rs)" by simp
  then show ?thesis using rid by (simp add: resolver_tokens_def upd_conv_take_nth_drop)
qed

lemma fulfill_frame:
  "tokens (p_fulfill p v w) fl = tokens w fl" "tracked (p_fulfill p v w) = tracked w"
  "has_tracker (p_fulfill p v w) = has_tracker w" "natives (p_fulfill p v w) = natives w"
  "next_oid (p_fulfill p v w) = next_oid w" "resolvers (p_fulfill p v w) = resolvers w"
  "promises (p_fulfill p v w) = (promises w)(p \<mapsto> (the_promise w p)\<lparr>p_state := PromiseStateFulfilled,
     p_result := Some v, p_fulfillReactions := [], p_rejectReactions := []\<rparr>)"
  by (simp_all add: p_fulfill_def Let_def trigger_eq put_promise_def tokens_def)

lemma reject_frame:
  "tokens (p_reject p v w) fl = tokens w fl"
  "tracked (p_reject p v w) = tracked w @
     (if \<not> p_handled (the_promise w p) \<and> has_tracker w then [(p, PromiseRejectionReject)] else [])"
  "has_tracker (p_reject p v w) = has_tracker w" "natives (p_reject p v w) = natives w"
  "next_oid (p_reject p v w) = next_oid w" "resolvers (p_reject p v w) = resolvers w"
  "promises (p_reject p v w) = (promises w)(p \<mapsto> (the_promise w p)\<lparr>p_state := PromiseStateRejected,
     p_result := Some v, p_fulfillReactions := [], p_rejectReactions := []\<rparr>)"
  by (simp_all add: p_reject_def Let_def trigger_eq put_promise_def tokens_def trackPromiseRejection_def)

section \<open>Every atomic step keeps the invariant\<close>

lemma promise_ok_cong:
  "reports w' p = reports w p \<Longrightarrow> has_tracker w' = has_tracker w \<Longrightarrow> promise_ok w' p x = promise_ok w p x"
  by (simp add: promise_ok_def split: PromiseState.splits)

lemma not_in_le: "(\<forall>q. count M q \<le> count N q) \<Longrightarrow> q \<notin># N \<Longrightarrow> q \<notin># M"
  by (metis count_eq_zero_iff le_zero_eq)

lemma pinvD:
  assumes "pinv w fl"
  shows "count (tokens w fl) p \<le> 1"
    "promises w p = None \<Longrightarrow> p \<notin># tokens w fl" "promises w p = None \<Longrightarrow> reports w p = []"
    "promises w p = Some x \<Longrightarrow> promise_ok w p x"
    "promises w p = Some x \<Longrightarrow> p_state x \<noteq> PromiseStatePending \<Longrightarrow> p \<notin># tokens w fl"
    "next_oid w \<le> k \<Longrightarrow> promises w k = None" "next_oid w \<le> k \<Longrightarrow> natives w k = None"
    "natives w f = Some (NResolve rid) \<Longrightarrow> rid < length (resolvers w)"
    "natives w f = Some (NReject rid) \<Longrightarrow> rid < length (resolvers w)"
  using assms unfolding pinv_def by blast+

lemma pinv_update:
  assumes "pinv w fl" "promises w' = (promises w)(p \<mapsto> y)" "promises w p \<noteq> None"
    "\<forall>q. q \<noteq> p \<longrightarrow> reports w' q = reports w q" "has_tracker w' = has_tracker w"
    "next_oid w' = next_oid w" "natives w' = natives w" "length (resolvers w') = length (resolvers w)"
    "\<forall>q. count (tokens w' fl') q \<le> count (tokens w fl) q"
    "promise_ok w' p y" "p_state y \<noteq> PromiseStatePending \<longrightarrow> p \<notin># tokens w' fl'"
  shows "pinv w' fl'"
  unfolding pinv_def
proof (intro conjI allI impI)
  note D = pinvD[OF assms(1)]
  note le = not_in_le[OF assms(9)]
  show "count (tokens w' fl') q \<le> 1" for q using assms(9) D(1) by (meson order_trans)
  show "q \<notin># tokens w' fl'" if "promises w' q = None" for q
    using that D(2)[of q] le[of q] assms(2) by (simp split: if_splits)
  show "reports w' q = []" if "promises w' q = None" for q
    using that D(3)[of q] assms(2,4) by (simp split: if_splits)
  show "promise_ok w' q x" if "promises w' q = Some x" for q x
    using that D(4)[of q x] assms(2,4,5,10) promise_ok_cong[of w' q w x] by (cases "q = p") simp_all
  show "q \<notin># tokens w' fl'" if "promises w' q = Some x" "p_state x \<noteq> PromiseStatePending" for q x
    using that D(5)[of q x] le[of q] assms(2,11) by (cases "q = p") simp_all
  show "promises w' k = None" if "next_oid w' \<le> k" for k
  proof -
    have n: "promises w k = None" using D(6) that assms(6) by simp
    then have "k \<noteq> p" using assms(3) by blast
    then show ?thesis using n assms(2) by simp
  qed
  show "natives w' k = None" if "next_oid w' \<le> k" for k using D(7) that assms(6,7) by simp
  show "rid < length (resolvers w')" if "natives w' f = Some (NResolve rid) \<or> natives w' f = Some (NReject rid)" for f rid
    using that D(8,9) assms(7,8) by metis
qed

lemma pinv_frame:
  assumes "pinv w fl" "promises w' = promises w" "\<forall>q. reports w' q = reports w q" "has_tracker w' = has_tracker w"
    "next_oid w' = next_oid w" "natives w' = natives w" "length (resolvers w') = length (resolvers w)"
    "\<forall>q. count (tokens w' fl') q \<le> count (tokens w fl) q"
  shows "pinv w' fl'"
  unfolding pinv_def
proof (intro conjI allI impI)
  note D = pinvD[OF assms(1)]
  note le = not_in_le[OF assms(8)]
  show "count (tokens w' fl') q \<le> 1" for q using assms(8) D(1) by (meson order_trans)
  show "q \<notin># tokens w' fl'" if "promises w' q = None" for q using that D(2)[of q] le[of q] assms(2) by simp
  show "reports w' q = []" if "promises w' q = None" for q using that D(3)[of q] assms(2,3) by simp
  show "promise_ok w' q x" if "promises w' q = Some x" for q x
    using that D(4)[of q x] assms(2,3,4) promise_ok_cong[of w' q w x] by simp
  show "q \<notin># tokens w' fl'" if "promises w' q = Some x" "p_state x \<noteq> PromiseStatePending" for q x
    using that D(5)[of q x] le[of q] assms(2) by simp
  show "promises w' k = None" if "next_oid w' \<le> k" for k using D(6) that assms(2,5) by simp
  show "natives w' k = None" if "next_oid w' \<le> k" for k using D(7) that assms(5,6) by simp
  show "rid < length (resolvers w')" if "natives w' f = Some (NResolve rid) \<or> natives w' f = Some (NReject rid)" for f rid
    using that D(8,9) assms(6,7) by metis
qed

lemma tokens_add: "tokens w (add_mset p fl) = add_mset p (tokens w fl)"
  by (simp add: tokens_def)

text \<open>Whoever holds a token in flight holds the only one, and the promise is pending.\<close>

lemma in_flight:
  assumes "pinv w (add_mset p fl)"
  obtains x where "promises w p = Some x" "p_state x = PromiseStatePending" "promise_ok w p x" "p \<notin># tokens w fl"
    "the_promise w p = x"
proof -
  have c: "count (add_mset p (tokens w fl)) p \<le> 1" using assms by (simp only: pinv_def tokens_add)
  then have "p \<notin># tokens w fl" by (simp add: count_eq_zero_iff[symmetric])
  moreover have "p \<in># tokens w (add_mset p fl)" by (simp add: tokens_add)
  ultimately show thesis using assms that by (cases "promises w p") (auto simp: pinv_def the_promise_def)
qed

lemma fulfill_inv:
  assumes "pinv w (add_mset p fl)"
  shows "pinv (p_fulfill p v w) fl" "settled_kept w (p_fulfill p v w)"
proof -
  obtain x where x: "promises w p = Some x" "p_state x = PromiseStatePending" "promise_ok w p x" "p \<notin># tokens w fl"
    "the_promise w p = x" using in_flight[OF assms] .
  note F = fulfill_frame[of p v w, unfolded x(5)]
  have rep: "reports (p_fulfill p v w) q = reports w q" for q using F(2) by (simp add: reports_def)
  show "pinv (p_fulfill p v w) fl"
  proof (rule pinv_update[OF assms F(7)])
    show "promise_ok (p_fulfill p v w) p (x\<lparr>p_state := PromiseStateFulfilled,
        p_result := Some v, p_fulfillReactions := [], p_rejectReactions := []\<rparr>)"
      using x(2,3) rep by (simp add: promise_ok_def)
  qed (use x F rep in \<open>simp_all add: tokens_add\<close>)
  show "settled_kept w (p_fulfill p v w)" using x F(7) by (auto simp: settled_kept_def)
qed

lemma reject_inv:
  assumes "pinv w (add_mset p fl)"
  shows "pinv (p_reject p v w) fl" "settled_kept w (p_reject p v w)"
proof -
  obtain x where x: "promises w p = Some x" "p_state x = PromiseStatePending" "promise_ok w p x" "p \<notin># tokens w fl"
    "the_promise w p = x" using in_flight[OF assms] .
  note F = reject_frame[of p v w, unfolded x(5)]
  have rep: "reports (p_reject p v w) q = reports w q" if "q \<noteq> p" for q using F(2) that by (simp add: reports_def)
  have repp: "reports (p_reject p v w) p = reports w p @ (if \<not> p_handled x \<and> has_tracker w then [PromiseRejectionReject] else [])"
    using F(2) by (simp add: reports_def)
  show "pinv (p_reject p v w) fl"
  proof (rule pinv_update[OF assms F(7)])
    show "promise_ok (p_reject p v w) p (x\<lparr>p_state := PromiseStateRejected,
        p_result := Some v, p_fulfillReactions := [], p_rejectReactions := []\<rparr>)"
      using x(2,3) repp F(3) by (simp add: promise_ok_def)
  qed (use x F rep in \<open>simp_all add: tokens_add\<close>)
  show "settled_kept w (p_reject p v w)" using x F(7) by (auto simp: settled_kept_def)
qed

lemma add_frame:
  assumes "promises w p = Some x"
  shows "tokens (addReactions p a b w) fl = tokens w fl"
    "tracked (addReactions p a b w) = tracked w @
       (if p_state x = PromiseStateRejected \<and> \<not> p_handled x \<and> has_tracker w then [(p, PromiseRejectionHandle)] else [])"
    "has_tracker (addReactions p a b w) = has_tracker w" "natives (addReactions p a b w) = natives w"
    "next_oid (addReactions p a b w) = next_oid w" "resolvers (addReactions p a b w) = resolvers w"
    "promises (addReactions p a b w) = (promises w)(p \<mapsto>
       (if p_state x = PromiseStatePending
        then x\<lparr>p_fulfillReactions := p_fulfillReactions x @ [a], p_rejectReactions := p_rejectReactions x @ [b], p_handled := True\<rparr>
        else x\<lparr>p_handled := True\<rparr>))"
  using assms
  by (simp_all add: addReactions_def Let_def put_promise_def tokens_def trackPromiseRejection_def the_promise_def
      enqueuePromiseJob_def split: PromiseState.splits)

lemma add_inv:
  assumes "pinv w fl" "promises w p \<noteq> None" "re_capability a = re_capability b"
  shows "pinv (addReactions p a b w) fl" "settled_kept w (addReactions p a b w)"
proof -
  obtain x where x: "promises w p = Some x" using assms(2) by blast
  note F = add_frame[OF x, of a b]
  have ok: "promise_ok w p x" "p_state x \<noteq> PromiseStatePending \<longrightarrow> p \<notin># tokens w fl"
    using assms(1) x by (simp_all add: pinv_def)
  have rep: "reports (addReactions p a b w) q = reports w q" if "q \<noteq> p" for q using F(2) that by (simp add: reports_def)
  have repp: "reports (addReactions p a b w) p = reports w p @
      (if p_state x = PromiseStateRejected \<and> \<not> p_handled x \<and> has_tracker w then [PromiseRejectionHandle] else [])"
    using F(2) by (simp add: reports_def)
  show "pinv (addReactions p a b w) fl"
  proof (rule pinv_update[OF assms(1) F(7)])
    show "promise_ok (addReactions p a b w) p (if p_state x = PromiseStatePending
        then x\<lparr>p_fulfillReactions := p_fulfillReactions x @ [a], p_rejectReactions := p_rejectReactions x @ [b], p_handled := True\<rparr>
        else x\<lparr>p_handled := True\<rparr>)"
      using ok(1) repp F(3) assms(3) by (cases "p_state x") (auto simp: promise_ok_def)
  qed (use x F rep ok(2) in \<open>auto simp: \<close>)
  show "settled_kept w (addReactions p a b w)" using x F(7) by (auto simp: settled_kept_def)
qed

lemma new_inv:
  assumes "pinv w fl"
  shows "pinv (snd (newPromise w)) (add_mset (next_oid w) fl)" "settled_kept w (snd (newPromise w))"
proof -
  let ?p = "next_oid w" and ?w = "snd (newPromise w)"
  note D = pinvD[OF assms]
  have none: "promises w ?p = None" using D(6) by simp
  have tok: "tokens ?w (add_mset ?p fl) = add_mset ?p (tokens w fl)"
    by (simp add: newPromise_def put_promise_def tokens_def)
  have rep: "reports ?w q = reports w q" for q by (simp add: newPromise_def put_promise_def reports_def)
  have ok: "promise_ok ?w q x = promise_ok w q x" for q x
    by (rule promise_ok_cong) (simp_all add: rep, simp add: newPromise_def put_promise_def)
  have pr: "promises ?w = (promises w)(?p \<mapsto> \<lparr>p_state = PromiseStatePending, p_result = None, p_fulfillReactions = [],
         p_rejectReactions = [], p_handled = False\<rparr>)" "next_oid ?w = ?p + 1" "natives ?w = natives w" "resolvers ?w = resolvers w"
    by (simp_all add: newPromise_def put_promise_def)
  have new: "?p \<notin># tokens w fl" using D(2) none by blast
  show "pinv ?w (add_mset ?p fl)"
    unfolding pinv_def tok
  proof (intro conjI allI impI)
    show "count (add_mset ?p (tokens w fl)) q \<le> 1" for q
      using D(1)[of q] new by (auto simp: count_eq_zero_iff)
    show "q \<notin># add_mset ?p (tokens w fl)" "reports ?w q = []" if "promises ?w q = None" for q
      using that D(2,3)[of q] rep pr(1) by (auto split: if_splits)
    show "promise_ok ?w q x" if "promises ?w q = Some x" for q x
      using that D(4)[of q x] D(3)[OF none] ok pr(1) by (auto simp: promise_ok_def split: if_splits)
    show "q \<notin># add_mset ?p (tokens w fl)" if "promises ?w q = Some x" "p_state x \<noteq> PromiseStatePending" for q x
      using that D(5)[of q x] pr(1) by (auto split: if_splits)
    show "promises ?w k = None" if "next_oid ?w \<le> k" for k using that D(6) pr(1,2) by simp
    show "natives ?w k = None" if "next_oid ?w \<le> k" for k using that D(7) pr(2,3) by simp
    show "rid < length (resolvers ?w)" if "natives ?w f = Some (NResolve rid) \<or> natives ?w f = Some (NReject rid)" for f rid
      using that D(8,9) pr(3,4) by metis
  qed
  show "settled_kept w ?w" using pr(1) none by (auto simp: settled_kept_def)
qed

lemma create_inv:
  assumes "pinv w (add_mset p fl)"
  shows "pinv (snd (createResolvingFunctions p w)) fl" "settled_kept w (snd (createResolvingFunctions p w))"
proof -
  let ?w = "snd (createResolvingFunctions p w)"
  note D = pinvD[OF assms]
  have tok: "tokens ?w fl = tokens w (add_mset p fl)"
    by (simp add: createResolvingFunctions_def Let_def tokens_def)
  have fr: "promises ?w = promises w" "next_oid ?w = next_oid w + 2"
    "natives ?w = (natives w)(next_oid w \<mapsto> NResolve (length (resolvers w)), next_oid w + 1 \<mapsto> NReject (length (resolvers w)))"
    "length (resolvers ?w) = Suc (length (resolvers w))"
    by (simp_all add: createResolvingFunctions_def Let_def)
  have rep: "reports ?w q = reports w q" for q by (simp add: createResolvingFunctions_def Let_def reports_def)
  have ok: "promise_ok ?w q x = promise_ok w q x" for q x
    by (rule promise_ok_cong) (simp_all add: rep, simp add: createResolvingFunctions_def Let_def)
  show "pinv ?w fl"
    unfolding pinv_def tok
  proof (intro conjI allI impI)
    show "rid < length (resolvers ?w)" if "natives ?w f = Some (NResolve rid) \<or> natives ?w f = Some (NReject rid)" for f rid
      using that D(8,9)[of f rid] unfolding fr(3,4) by (auto split: if_splits)
    show "promises ?w k = None" "natives ?w k = None" if "next_oid ?w \<le> k" for k
      using that D(6,7)[of k] by (simp_all add: fr)
  qed (use D rep ok fr(1) in simp_all)
  show "settled_kept w ?w" using fr(1) by (auto simp: settled_kept_def)
qed

lemma astep_inv:
  assumes "astep c c'" "pinv (fst c) (snd c)"
  shows "pinv (fst c') (snd c') \<and> settled_kept (fst c) (fst c')"
  using assms
proof (induction rule: astep.induct)
  case (Begin rid w p fl)
  have t: "tokens (mark_resolved rid w) (add_mset p fl) = tokens w fl"
    using resolver_tokens_mark[OF Begin(1,2)] Begin(2) by (simp add: tokens_def mark_resolved_def)
  have i: "pinv w fl" using Begin(3) by simp
  have "pinv (mark_resolved rid w) (add_mset p fl)"
    by (rule pinv_frame[OF i]) (simp_all add: t, simp_all add: mark_resolved_def reports_def)
  then show ?case by (simp add: settled_kept_def mark_resolved_def)
next
  case (Fulfill w p fl v)
  then show ?case using fulfill_inv by simp
next
  case (Reject w p fl v)
  then show ?case using reject_inv by simp
next
  case (Thenable w p fl v f)
  have i: "pinv w (add_mset p fl)" using Thenable by simp
  have "pinv (enqueuePromiseJob (ThenableJob p v f) w) fl"
    by (rule pinv_frame[OF i]) (simp_all add: enqueuePromiseJob_def reports_def tokens_def)
  then show ?case by (simp add: settled_kept_def enqueuePromiseJob_def)
next
  case (New w fl)
  then show ?case using new_inv by simp
next
  case (Create w p fl)
  then show ?case using create_inv by simp
next
  case (Add w p a b fl)
  then show ?case using add_inv by simp
next
  case (Take w fl)
  have i: "pinv w fl" using Take by simp
  have "pinv (w\<lparr>jobQueue := []\<rparr>) (job_tokens (jobQueue w) + fl)"
    by (rule pinv_frame[OF i]) (simp_all add: reports_def tokens_def)
  then show ?case by (simp add: settled_kept_def)
qed

lemma asteps_inv:
  assumes "asteps (w, fl) (w', fl')" "pinv w fl"
  shows "pinv w' fl'" "settled_kept w w'"
proof -
  have "pinv (fst c') (snd c') \<and> settled_kept (fst c) (fst c')" if "asteps c c'" "pinv (fst c) (snd c)" for c c'
    using that
  proof (induction rule: rtranclp_induct)
    case base
    then show ?case by (simp add: settled_kept_refl)
  next
    case (step d e)
    then show ?case using astep_inv settled_kept_trans by blast
  qed
  from this[OF assms(1)] assms(2) show "pinv w' fl'" "settled_kept w w'" by simp_all
qed

section \<open>The code as sequences of atomic steps\<close>

lemma asteps_trans: "asteps c d \<Longrightarrow> asteps d e \<Longrightarrow> asteps c e" by (rule rtranclp_trans)

lemma resolve_body_steps:
  assumes "user_code E"
  shows "asteps (w, add_mset p fl) (resolve_body E p v w, fl)"
proof -
  have f: "asteps (w', add_mset p fl) (p_fulfill p v w', fl)" and j: "asteps (w', add_mset p fl) (p_reject p u w', fl)"
    and t: "asteps (w', add_mset p fl) (enqueuePromiseJob (ThenableJob p v g) w', fl)" for w' u g
    by (blast intro: astep.Fulfill astep.Reject astep.Thenable)+
  have g: "asteps (w, add_mset p fl) (w', add_mset p fl)" if "e_getThen E x w = (r, w')" for x r w'
    using assms that unfolding user_code_def by (metis snd_conv)
  show ?thesis
  proof (cases "\<exists>x. v = VObj x \<and> v \<noteq> VObj p")
    case True
    then obtain x where x: "v = VObj x" "x \<noteq> p" by blast
    obtain r w' where e: "e_getThen E x w = (r, w')" by fastforce
    have "asteps (w', add_mset p fl) (resolve_body E p v w, fl)"
      using x e f j t by (auto simp: resolve_body_def split: sum.splits option.splits val.splits)
    then show ?thesis using g[OF e] asteps_trans by blast
  next
    case False
    then show ?thesis using f j by (auto simp: resolve_body_def split: val.splits)
  qed
qed

lemma resolveFn_steps:
  assumes "user_code E" "rid < length (resolvers w)"
  shows "asteps (w, fl) (resolveFn E rid v w, fl)"
proof (cases "resolvers w ! rid")
  case (Pair p already)
  show ?thesis
  proof (cases already)
    case True
    then show ?thesis using Pair by (simp add: resolveFn_def)
  next
    case False
    have "astep (w, fl) (mark_resolved rid w, add_mset p fl)" using assms(2) Pair False by (simp add: astep.Begin)
    then show ?thesis
      using Pair False resolve_body_steps[OF assms(1)] by (simp add: resolveFn_def converse_rtranclp_into_rtranclp)
  qed
qed

lemma rejectFn_steps:
  assumes "rid < length (resolvers w)"
  shows "asteps (w, fl) (rejectFn rid v w, fl)"
proof (cases "resolvers w ! rid")
  case (Pair p already)
  show ?thesis
  proof (cases already)
    case True
    then show ?thesis using Pair by (simp add: rejectFn_def)
  next
    case False
    have "astep (w, fl) (mark_resolved rid w, add_mset p fl)" using assms Pair False by (simp add: astep.Begin)
    moreover have "asteps (mark_resolved rid w, add_mset p fl) (rejectFn rid v w, fl)"
      using Pair False by (auto simp: rejectFn_def intro: astep.Reject)
    ultimately show ?thesis by (rule converse_rtranclp_into_rtranclp)
  qed
qed

lemma call_fn_steps:
  assumes "user_code E" "pinv w fl" "call_fn E f this args w = (r, w')"
  shows "asteps (w, fl) (w', fl)"
proof (cases "natives w f")
  case None
  then have "e_callFn E f this args w = (r, w')" using assms(3) by (simp add: call_fn_def)
  then show ?thesis using assms(1) unfolding user_code_def by (metis snd_conv)
next
  case (Some n)
  then show ?thesis
    using assms(3) pinvD(8,9)[OF assms(2)] resolveFn_steps[OF assms(1)] rejectFn_steps
    by (cases n) (auto simp: call_fn_def)
qed

lemmas pinv_call = asteps_inv(1)[OF call_fn_steps]

lemma reaction_job_steps:
  assumes "user_code E" "pinv w fl" "reaction_job E re arg w = (r, w')"
  shows "asteps (w, fl) (w', fl)"
proof -
  obtain res w1 where h: "(case re_handler re of
      None \<Rightarrow> ((if re_typ re = promiseReactionFulfill then Inr arg else Inl arg), w)
    | Some f \<Rightarrow> call_fn E f VUndef [arg] w) = (res, w1)" by fastforce
  have s1: "asteps (w, fl) (w1, fl)"
    using h call_fn_steps[OF assms(1,2)] by (auto split: option.splits)
  have i1: "pinv w1 fl" using asteps_inv(1)[OF s1 assms(2)] .
  have "asteps (w1, fl) (w', fl)"
    using assms(3) h call_fn_steps[OF assms(1) i1]
    by (auto simp: reaction_job_def capability_resolve_def capability_reject_def split: option.splits sum.splits)
  then show ?thesis using s1 asteps_trans by blast
qed

lemma with_functions_steps:
  assumes "user_code E" "pinv w (add_mset p fl)" "createResolvingFunctions p w = ((f, g), w1)"
    "call_fn E h this args w1 = (r, w2)"
  shows "asteps (w, add_mset p fl) (w2, fl)" "pinv w2 fl"
proof -
  have c: "astep (w, add_mset p fl) (w1, fl)" using astep.Create[of w p fl] assms(3) by simp
  have "pinv w1 fl" using astep_inv[OF c] assms(2) by simp
  then have "asteps (w1, fl) (w2, fl)" using call_fn_steps[OF assms(1) _ assms(4)] by blast
  then show s: "asteps (w, add_mset p fl) (w2, fl)" using c by (rule converse_rtranclp_into_rtranclp[rotated])
  show "pinv w2 fl" using asteps_inv(1)[OF s assms(2)] .
qed

lemma thenable_job_steps:
  assumes "user_code E" "pinv w (add_mset p fl)" "thenable_job E p v h w = (r, w')"
  shows "asteps (w, add_mset p fl) (w', fl)"
proof -
  obtain f g w1 where c: "createResolvingFunctions p w = ((f, g), w1)" by (metis surj_pair)
  obtain r2 w2 where e: "call_fn E h v [VObj f, VObj g] w1 = (r2, w2)" by fastforce
  note W = with_functions_steps[OF assms(1,2) c e]
  have "asteps (w2, fl) (w', fl)"
    using assms(3) c e call_fn_steps[OF assms(1) W(2)] by (auto simp: thenable_job_def split: sum.splits)
  then show ?thesis using W(1) asteps_trans by blast
qed

lemma run_job_steps:
  assumes "user_code E" "pinv w (job_tokens [j] + fl)" "run_job E j w = (r, w')"
  shows "asteps (w, job_tokens [j] + fl) (w', fl)"
  using assms reaction_job_steps thenable_job_steps by (cases j) (auto simp: run_job_def)

lemma run_jobs_steps:
  assumes "user_code E" "pinv w (job_tokens js + fl)" "run_jobs E js w = (r, w')"
  shows "\<exists>fl'. asteps (w, job_tokens js + fl) (w', fl') \<and> (\<forall>v. r = Inr v \<longrightarrow> fl' = fl)"
  using assms(2,3)
proof (induction js arbitrary: w)
  case (Cons j js)
  have split: "job_tokens (j # js) + fl = job_tokens [j] + (job_tokens js + fl)"
    using job_tokens_simps(2)[of "[j]" js] by (simp add: ac_simps)
  obtain r1 w1 where e: "run_job E j w = (r1, w1)" by fastforce
  have s: "asteps (w, job_tokens (j # js) + fl) (w1, job_tokens js + fl)"
    using run_job_steps[OF assms(1) _ e] Cons.prems(1) unfolding split by blast
  have i: "pinv w1 (job_tokens js + fl)" using asteps_inv(1)[OF s Cons.prems(1)] .
  show ?case
  proof (cases r1)
    case (Inl ex)
    then show ?thesis using s e Cons.prems(2) by auto
  next
    case (Inr v)
    then have "run_jobs E js w1 = (r, w')" using e Cons.prems(2) by simp
    then show ?thesis using Cons.IH[OF i] s asteps_trans by blast
  qed
qed auto

lemma leave_steps:
  assumes "user_code E" "leave E w = Some (r, w')" "pinv w {#}"
  shows "\<exists>fl'. asteps (w, {#}) (w', fl') \<and> (\<forall>v. r = Inr v \<longrightarrow> fl' = {#} \<and> jobQueue w' = [])"
proof -
  let ?P = "\<lambda>E w rw. user_code E \<longrightarrow> pinv w {#} \<longrightarrow>
      (\<exists>fl'. asteps (w, {#}) (snd rw, fl') \<and> (\<forall>v. fst rw = Inr v \<longrightarrow> fl' = {#} \<and> jobQueue (snd rw) = []))"
  have "?P E w rw" if "leave E w = Some rw" for rw
  proof (rule leave.raw_induct[where P = ?P, OF _ that])
    fix lv E w rw
    assume 1: "\<And>E w rw. lv E w = Some rw \<Longrightarrow> ?P E w rw"
      "(if jobQueue w \<noteq> []
      then (case run_jobs E (jobQueue w) (w\<lparr>jobQueue := []\<rparr>) of
              (Inl ex, w') \<Rightarrow> Some (Inl ex, w')
            | (Inr _, w') \<Rightarrow> lv E w')
      else Some (Inr VUndef, w)) = Some rw"
    show "?P E w rw"
    proof (intro impI)
      assume u: "user_code E" and i: "pinv w {#}"
      show "\<exists>fl'. asteps (w, {#}) (snd rw, fl') \<and> (\<forall>v. fst rw = Inr v \<longrightarrow> fl' = {#} \<and> jobQueue (snd rw) = [])"
      proof (cases "jobQueue w = []")
        case True
        then show ?thesis using 1(2) by auto
      next
        case False
        let ?w0 = "w\<lparr>jobQueue := []\<rparr>" and ?t = "job_tokens (jobQueue w) + {#}"
        have t: "astep (w, {#}) (?w0, ?t)" by (rule astep.Take)
        have i0: "pinv ?w0 ?t" using astep_inv[OF t] i by simp
        obtain r1 w1 where e: "run_jobs E (jobQueue w) ?w0 = (r1, w1)" by fastforce
        obtain fl' where f: "asteps (?w0, ?t) (w1, fl')" "\<forall>v. r1 = Inr v \<longrightarrow> fl' = {#}"
          using run_jobs_steps[OF u i0 e] by blast
        have s: "asteps (w, {#}) (w1, fl')" using t f(1) by (rule converse_rtranclp_into_rtranclp)
        show ?thesis
        proof (cases r1)
          case (Inl ex)
          then show ?thesis using s 1(2) False e by auto
        next
          case (Inr v)
          then have "fl' = {#}" "lv E w1 = Some rw" using f(2) 1(2) False e by auto
          moreover have "pinv w1 {#}" using asteps_inv(1)[OF s i] \<open>fl' = {#}\<close> by simp
          ultimately obtain fl2 where "asteps (w1, {#}) (snd rw, fl2)"
              "\<forall>v. fst rw = Inr v \<longrightarrow> fl2 = {#} \<and> jobQueue (snd rw) = []"
            using 1(1)[of E w1 rw] u by blast
          moreover have "asteps (w, {#}) (w1, {#})" using s \<open>fl' = {#}\<close> by simp
          ultimately show ?thesis using asteps_trans by blast
        qed
      qed
    qed
  qed
  from this[OF assms(2)] assms(1,3) show ?thesis by simp
qed

section \<open>What a program can do\<close>

inductive api_step :: "penv \<Rightarrow> world \<Rightarrow> world \<Rightarrow> bool" for E where
  Call: "api_step E w (snd (call_fn E f this args w))"
| Then: "promises w p \<noteq> None \<Longrightarrow> api_step E w (snd (performPromiseThen E p a b cap w))"
| Construct: "api_step E w (snd (builtin_newPromise E executor w))"
| Resolve: "api_step E w (snd (promiseResolve E c x w))"
| RejectCall: "api_step E w (snd (promise_reject E c x w))"
| Jobs: "leave E w = Some (r, w') \<Longrightarrow> api_step E w w'"
| Abrupt: "api_step E w (leaveAbrupt w)"

lemma pinv_drop: "pinv w fl \<Longrightarrow> pinv w {#}"
  by (rule pinv_frame[where w = w and fl = fl]) (simp_all add: tokens_def)

definition good_step :: "world \<Rightarrow> world \<Rightarrow> bool" where
  "good_step w w' \<longleftrightarrow> pinv w' {#} \<and> settled_kept w w'"

lemma good_stepI: "asteps (w, {#}) (w', fl') \<Longrightarrow> pinv w {#} \<Longrightarrow> good_step w w'"
  unfolding good_step_def using asteps_inv pinv_drop by blast

lemma construct_steps:
  assumes "user_code E" "pinv w fl" "builtin_newPromise E executor w = (q, w')"
  shows "asteps (w, fl) (w', fl)"
proof -
  obtain p w1 where n: "newPromise w = (p, w1)" by fastforce
  obtain f g w2 where c: "createResolvingFunctions p w1 = ((f, g), w2)" by (metis surj_pair)
  obtain r3 w3 where e: "call_fn E executor VUndef [VObj f, VObj g] w2 = (r3, w3)" by fastforce
  have s1: "astep (w, fl) (w1, add_mset p fl)" using astep.New[of w fl] n by (auto simp: newPromise_def)
  have i1: "pinv w1 (add_mset p fl)" using astep_inv[OF s1] assms(2) by simp
  note W = with_functions_steps[OF assms(1) i1 c e]
  have "asteps (w3, fl) (w', fl)"
  proof (cases r3)
    case (Inl ex)
    obtain r4 w4 where "call_fn E g VUndef [ex] w3 = (r4, w4)" by fastforce
    then show ?thesis using Inl assms(3) n c e call_fn_steps[OF assms(1) W(2)] by (auto simp: builtin_newPromise_def)
  next
    case (Inr v)
    then show ?thesis using assms(3) n c e by (auto simp: builtin_newPromise_def)
  qed
  then show ?thesis using s1 W(1) by (meson asteps_trans converse_rtranclp_into_rtranclp)
qed

lemma capability_steps:
  assumes "user_code E" "pinv w fl" "newPromiseCapability E c w = (r, w')"
  shows "asteps (w, fl) (w', fl)"
proof (cases "c = e_promiseCtor E")
  case True
  obtain p w1 where n: "newPromise w = (p, w1)" by fastforce
  obtain f g w2 where k: "createResolvingFunctions p w1 = ((f, g), w2)" by (metis surj_pair)
  have "astep (w, fl) (w1, add_mset p fl)" using astep.New[of w fl] n by (auto simp: newPromise_def)
  moreover have "astep (w1, add_mset p fl) (w2, fl)" using astep.Create[of w1 p fl] k by simp
  moreover have "w' = w2" using True assms(3) n k by (auto simp: newPromiseCapability_def native_capability_def)
  ultimately show ?thesis by (meson converse_rtranclp_into_rtranclp r_into_rtranclp)
next
  case False
  then have "e_foreignCapability E c w = (r, w')" using assms(3) by (simp add: newPromiseCapability_def)
  then show ?thesis using assms(1) unfolding user_code_def by (metis snd_conv)
qed

lemma capability_then_steps:
  assumes "user_code E" "pinv w fl" "newPromiseCapability E c w = (Inr cap, w1)"
  shows "asteps (w, fl) (snd (call_fn E f this args w1), fl)"
proof -
  have s: "asteps (w, fl) (w1, fl)" using capability_steps[OF assms] .
  have "asteps (w1, fl) (snd (call_fn E f this args w1), fl)"
    using call_fn_steps[OF assms(1) asteps_inv(1)[OF s assms(2)]] by (metis surjective_pairing)
  then show ?thesis using s asteps_trans by blast
qed

lemma snd_map_prod [simp]: "snd (map_prod f id x) = snd x"
  by (simp add: map_prod_def split_beta)

lemma fresh_steps:
  assumes "user_code E" "pinv w fl"
  shows "asteps (w, fl) (snd (case newPromiseCapability E c w of
      (Inl ex, w') \<Rightarrow> (Inl ex, w')
    | (Inr cap, w') \<Rightarrow> map_prod (map_sum id (\<lambda>_. cap_promise cap)) id (capability_resolve E cap x w')), fl)"
    "asteps (w, fl) (snd (promise_reject E c x w), fl)"
  using capability_steps[OF assms] capability_then_steps[OF assms]
  by (auto simp: capability_resolve_def capability_reject_def promise_reject_def split: prod.splits sum.splits)

lemma promiseResolve_steps:
  assumes "user_code E" "pinv w fl"
  shows "asteps (w, fl) (snd (promiseResolve E c x w), fl)"
proof (cases "\<exists>q. x = VObj q \<and> promises w q \<noteq> None")
  case True
  then obtain q where q: "x = VObj q" "promises w q \<noteq> None" by blast
  obtain k w1 where e: "e_constructor E q w = (k, w1)" by fastforce
  have s: "asteps (w, fl) (w1, fl)" using assms(1) e unfolding user_code_def by (metis snd_conv)
  have "asteps (w1, fl) (snd (promiseResolve E c x w), fl)"
    using q e fresh_steps(1)[OF assms(1) asteps_inv(1)[OF s assms(2)]] by (simp add: promiseResolve_def)
  then show ?thesis using s asteps_trans by blast
next
  case False
  then show ?thesis using fresh_steps(1)[OF assms] by (auto simp: promiseResolve_def split: val.splits)
qed

lemma api_step_good:
  assumes "user_code E" "api_step E w w'" "pinv w {#}"
  shows "good_step w w'"
  using assms(2)
proof (cases rule: api_step.cases)
  case (Call f this args)
  then show ?thesis using good_stepI[OF call_fn_steps[OF assms(1,3)] assms(3)] by (metis surjective_pairing)
next
  case (Then p a b cap)
  have "asteps (w, {#}) (w', {#})"
    unfolding Then(1) performPromiseThen_def Let_def using Then(2) by (auto intro!: r_into_rtranclp astep.Add)
  then show ?thesis using good_stepI assms(3) by blast
next
  case (Construct executor)
  then show ?thesis using good_stepI[OF construct_steps[OF assms(1,3)] assms(3)] by (metis surjective_pairing)
next
  case (Resolve c x)
  then show ?thesis using good_stepI[OF promiseResolve_steps[OF assms(1,3)] assms(3)] by simp
next
  case (RejectCall c x)
  then show ?thesis using good_stepI[OF fresh_steps(2)[OF assms(1,3)] assms(3)] by simp
next
  case (Jobs r)
  then show ?thesis using leave_steps[OF assms(1) _ assms(3)] good_stepI assms(3) by blast
next
  case Abrupt
  have "asteps (w, {#}) (w', job_tokens (jobQueue w) + {#})"
    unfolding Abrupt leaveAbrupt_def by (rule r_into_rtranclp) (rule astep.Take)
  then show ?thesis using good_stepI assms(3) by blast
qed

lemma api_steps_good:
  assumes "user_code E" "(api_step E)\<^sup>*\<^sup>* w w'" "pinv w {#}"
  shows "good_step w w'"
  using assms(2)
proof (induction rule: rtranclp_induct)
  case base
  then show ?case using assms(3) by (simp add: good_step_def settled_kept_refl)
next
  case (step y z)
  then have "good_step y z" using api_step_good[OF assms(1)] by (simp add: good_step_def)
  then show ?case using step.IH settled_kept_trans unfolding good_step_def by blast
qed

section \<open>The order of jobs\<close>

text \<open>The reference: one queue, the first job is taken out and run, then the next.\<close>

partial_function (option) drain :: "penv \<Rightarrow> world \<Rightarrow> ((val + val) \<times> world) option" where
  "drain E w =
     (case jobQueue w of
        [] \<Rightarrow> Some (Inr VUndef, w)
      | j # js \<Rightarrow>
          (case run_job E j (w\<lparr>jobQueue := js\<rparr>) of
             (Inl ex, w') \<Rightarrow> Some (Inl ex, w')
           | (Inr _, w') \<Rightarrow> drain E w'))"

definition ahead :: "job list \<Rightarrow> world \<Rightarrow> world" where
  "ahead js w = w\<lparr>jobQueue := js @ jobQueue w\<rparr>"

text \<open>Code that only appends to the queue does not notice jobs that wait ahead of its own.\<close>

definition blind :: "(world \<Rightarrow> 'a \<times> world) \<Rightarrow> bool" where
  "blind f \<longleftrightarrow> (\<forall>js w. f (ahead js w) = (fst (f w), ahead js (snd (f w))))"

definition env_blind :: "penv \<Rightarrow> bool" where
  "env_blind E \<longleftrightarrow> (\<forall>x. blind (e_getThen E x)) \<and> (\<forall>f this args. blind (e_callFn E f this args))"

lemma ahead_frame [simp]:
  "promises (ahead js w) = promises w" "resolvers (ahead js w) = resolvers w" "natives (ahead js w) = natives w"
  "has_tracker (ahead js w) = has_tracker w" "next_oid (ahead js w) = next_oid w" "tracked (ahead js w) = tracked w"
  "jobQueue (ahead js w) = js @ jobQueue w" "the_promise (ahead js w) p = the_promise w p" "callable E (ahead js w) f = callable E w f"
  by (simp_all add: ahead_def the_promise_def callable_def)

lemma ahead_ops:
  "p_fulfill p v (ahead js w) = ahead js (p_fulfill p v w)" "p_reject p v (ahead js w) = ahead js (p_reject p v w)"
  "enqueuePromiseJob j (ahead js w) = ahead js (enqueuePromiseJob j w)"
  "mark_resolved rid (ahead js w) = ahead js (mark_resolved rid w)"
  "createResolvingFunctions p (ahead js w) = (fst (createResolvingFunctions p w), ahead js (snd (createResolvingFunctions p w)))"
  by (simp_all add: ahead_def p_fulfill_def p_reject_def Let_def put_promise_def trigger_eq the_promise_def
      trackPromiseRejection_def enqueuePromiseJob_def mark_resolved_def createResolvingFunctions_def)

lemma getThen_ahead:
  "env_blind E \<Longrightarrow> e_getThen E x w = (r, w') \<Longrightarrow> e_getThen E x (ahead js w) = (r, ahead js w')"
  by (simp add: env_blind_def blind_def)

lemma callFn_ahead:
  "env_blind E \<Longrightarrow> e_callFn E f this args w = (r, w') \<Longrightarrow> e_callFn E f this args (ahead js w) = (r, ahead js w')"
  by (simp add: env_blind_def blind_def)

lemma resolve_body_ahead:
  assumes "env_blind E"
  shows "resolve_body E p v (ahead js w) = ahead js (resolve_body E p v w)"
proof (cases v)
  case (VObj x)
  obtain r w' where e: "e_getThen E x w = (r, w')" by fastforce
  note e' = getThen_ahead[OF assms e]
  show ?thesis using VObj e e' by (simp add: resolve_body_def ahead_ops split: sum.splits option.splits val.splits)
qed (simp_all add: resolve_body_def ahead_ops)

lemma call_fn_ahead:
  assumes "env_blind E" "call_fn E f this args w = (r, w')"
  shows "call_fn E f this args (ahead js w) = (r, ahead js w')"
  using assms callFn_ahead[OF assms(1)] resolve_body_ahead[OF assms(1)]
  by (auto simp: call_fn_def resolveFn_def rejectFn_def ahead_ops split: option.splits native.splits prod.splits)

lemma run_job_ahead:
  assumes "env_blind E" "run_job E j w = (r, w')"
  shows "run_job E j (ahead js w) = (r, ahead js w')"
proof (cases j)
  case (ReactionJob re arg)
  obtain res w1 where h: "(case re_handler re of
      None \<Rightarrow> ((if re_typ re = promiseReactionFulfill then Inr arg else Inl arg), w)
    | Some f \<Rightarrow> call_fn E f VUndef [arg] w) = (res, w1)" by fastforce
  have h': "(case re_handler re of
      None \<Rightarrow> ((if re_typ re = promiseReactionFulfill then Inr arg else Inl arg), ahead js w)
    | Some f \<Rightarrow> call_fn E f VUndef [arg] (ahead js w)) = (res, ahead js w1)"
    using h call_fn_ahead[OF assms(1)] by (auto split: option.splits)
  show ?thesis
    using assms(2) ReactionJob call_fn_ahead[OF assms(1)] unfolding run_job_def reaction_job_def
    by (auto simp: h h' capability_resolve_def capability_reject_def split: option.splits sum.splits)
next
  case (ThenableJob p v g)
  obtain f g' w1 where c: "createResolvingFunctions p w = ((f, g'), w1)" by (metis surj_pair)
  obtain r2 w2 where e: "call_fn E g v [VObj f, VObj g'] w1 = (r2, w2)" by fastforce
  note e' = call_fn_ahead[OF assms(1) e, of js]
  show ?thesis
    using assms(2) ThenableJob c e e' call_fn_ahead[OF assms(1)]
    by (auto simp: run_job_def thenable_job_def ahead_ops split: sum.splits)
qed

lemma drain_batch:
  assumes "env_blind E"
  shows "run_jobs E js w = (Inr v, w1) \<Longrightarrow> drain E (ahead js w) = drain E w1"
proof (induction js arbitrary: w)
  case (Cons j js)
  obtain r w2 where e: "run_job E j w = (r, w2)" by fastforce
  then obtain u where r: "r = Inr u" and rest: "run_jobs E js w2 = (Inr v, w1)"
    using Cons.prems by (cases r) auto
  have q: "(ahead (j # js) w)\<lparr>jobQueue := js @ jobQueue w\<rparr> = ahead js w" by (simp add: ahead_def)
  have "drain E (ahead (j # js) w) = drain E (ahead js w2)"
    using run_job_ahead[OF assms e, of js] r by (subst drain.simps) (simp add: q)
  then show ?case using Cons.IH[OF rest] by simp
qed (simp add: ahead_def)

lemma ahead_queue: "ahead (jobQueue w) (w\<lparr>jobQueue := []\<rparr>) = w"
  by (simp add: ahead_def)

lemma leave_to_drain:
  assumes "env_blind E" "leave E w = Some (Inr v, w')"
  shows "drain E w = Some (Inr v, w')"
proof -
  let ?P = "\<lambda>E w rw. env_blind E \<longrightarrow> (\<forall>v w'. rw = (Inr v, w') \<longrightarrow> drain E w = Some (Inr v, w'))"
  have "?P E w rw" if "leave E w = Some rw" for rw
  proof (rule leave.raw_induct[where P = ?P, OF _ that])
    fix lv E w rw
    assume 1: "\<And>E w rw. lv E w = Some rw \<Longrightarrow> ?P E w rw"
      "(if jobQueue w \<noteq> []
      then (case run_jobs E (jobQueue w) (w\<lparr>jobQueue := []\<rparr>) of
              (Inl ex, w') \<Rightarrow> Some (Inl ex, w')
            | (Inr _, w') \<Rightarrow> lv E w')
      else Some (Inr VUndef, w)) = Some rw"
    show "?P E w rw"
    proof (intro impI allI)
      fix v w' assume b: "env_blind E" and rw: "rw = (Inr v, w')"
      show "drain E w = Some (Inr v, w')"
      proof (cases "jobQueue w = []")
        case True
        then show ?thesis using 1(2) rw by (subst drain.simps) auto
      next
        case False
        obtain r1 w1 where e: "run_jobs E (jobQueue w) (w\<lparr>jobQueue := []\<rparr>) = (r1, w1)" by fastforce
        then obtain u where u: "r1 = Inr u" using 1(2) False rw by (cases r1) auto
        then have "lv E w1 = Some rw" using 1(2) False e by simp
        then have "drain E w1 = Some (Inr v, w')" using 1(1) b rw by blast
        then show ?thesis using drain_batch[OF b e[unfolded u]] by (simp add: ahead_queue)
      qed
    qed
  qed
  then show ?thesis using assms by simp
qed

text \<open>In the other direction the invariant of the induction says where in its batch \<^verbatim>\<open>leave\<close> is.\<close>

definition resumes :: "penv \<Rightarrow> job list \<Rightarrow> world \<Rightarrow> val \<Rightarrow> world \<Rightarrow> bool" where
  "resumes E js w v w' \<longleftrightarrow> (\<exists>u w1. run_jobs E js w = (Inr u, w1) \<and> leave E w1 = Some (Inr v, w'))"

lemma resumes_batch: "resumes E (jobQueue w) (w\<lparr>jobQueue := []\<rparr>) v w' \<Longrightarrow> jobQueue w \<noteq> [] \<Longrightarrow> resumes E [] w v w'"
  unfolding resumes_def by (subst leave.simps) auto

lemma drain_to_leave:
  assumes "env_blind E" "drain E w = Some (Inr v, w')"
  shows "leave E w = Some (Inr v, w')"
proof -
  let ?P = "\<lambda>E x rw. env_blind E \<longrightarrow> (\<forall>v w'. rw = (Inr v, w') \<longrightarrow> (\<forall>js w. x = ahead js w \<longrightarrow> resumes E js w v w'))"
  have "?P E w rw" if "drain E w = Some rw" for rw
  proof (rule drain.raw_induct[where P = ?P, OF _ that])
    fix dr E x rw
    assume 1: "\<And>E x rw. dr E x = Some rw \<Longrightarrow> ?P E x rw"
      "(case jobQueue x of
        [] \<Rightarrow> Some (Inr VUndef, x)
      | j # js \<Rightarrow>
          (case run_job E j (x\<lparr>jobQueue := js\<rparr>) of
             (Inl ex, w') \<Rightarrow> Some (Inl ex, w')
           | (Inr _, w') \<Rightarrow> dr E w')) = Some rw"
    show "?P E x rw"
    proof (intro impI allI)
      fix v w' js w
      assume b: "env_blind E" and rw: "rw = (Inr v, w')" and x: "x = ahead js w"
      have step: "resumes E (j # ks) y v w'" if y: "x = ahead (j # ks) y" for j ks y
      proof -
        obtain r y2 where e: "run_job E j y = (r, y2)" by fastforce
        have "x\<lparr>jobQueue := ks @ jobQueue y\<rparr> = ahead ks y" using y by (simp add: ahead_def)
        then have e': "run_job E j (x\<lparr>jobQueue := ks @ jobQueue y\<rparr>) = (r, ahead ks y2)"
          using run_job_ahead[OF b e, of ks] by simp
        then obtain u where u: "r = Inr u" "dr E (ahead ks y2) = Some rw"
          using 1(2) y rw by (cases r) (auto simp: ahead_def)
        then have "resumes E ks y2 v w'" using 1(1) b rw by blast
        then show ?thesis using e u(1) by (simp add: resumes_def)
      qed
      show "resumes E js w v w'"
      proof (cases js)
        case (Cons j ks)
        then show ?thesis using step x by simp
      next
        case Nil
        show ?thesis
        proof (cases "jobQueue w")
          case Nil
          then show ?thesis using 1(2) x rw \<open>js = []\<close>
            by (auto simp: resumes_def ahead_def leave.simps)
        next
          case (Cons j ks)
          have "x = ahead (j # ks) (w\<lparr>jobQueue := []\<rparr>)" using x Cons \<open>js = []\<close> by (simp add: ahead_def)
          then have "resumes E (jobQueue w) (w\<lparr>jobQueue := []\<rparr>) v w'" using step Cons by simp
          then show ?thesis using resumes_batch Cons \<open>js = []\<close> by simp
        qed
      qed
    qed
  qed
  from this[OF assms(2)] have "resumes E [] w v w'" using assms(1) by (simp add: ahead_def)
  then show ?thesis by (simp add: resumes_def)
qed

section \<open>Properties\<close>

text \<open>
  (C4) A promise settles at most once: whatever sequence of calls, constructions, reactions and job runs a
  program causes, a promise that is fulfilled or rejected keeps its state and its result forever, and the
  invariant holds that at most one pair of resolving functions or queued job can still settle a promise,
  and none a settled one.
\<close>

theorem promise_settles_once:
  assumes "user_code E" "pinv w {#}" "(api_step E)\<^sup>*\<^sup>* w w'" "promises w p = Some x" "p_state x \<noteq> PromiseStatePending"
  shows "pinv w' {#} \<and> (\<exists>y. promises w' p = Some y \<and> p_state y = p_state x \<and> p_result y = p_result x)"
  using api_steps_good[OF assms(1,3,2)] assms(4,5) unfolding good_step_def settled_kept_def by blast

definition empty_world :: world where
  "empty_world = \<lparr>promises = (\<lambda>_. None), resolvers = [], natives = (\<lambda>_. None), jobQueue = [], has_tracker = True,
     tracked = [], next_oid = 0\<rparr>"

lemma empty_world_inv: "pinv empty_world {#}"
  by (simp add: pinv_def empty_world_def tokens_def resolver_tokens_def reports_def)

definition penv0 :: penv where
  "penv0 = \<lparr>e_getThen = (\<lambda>x w. (Inr None, w)), e_callFn = (\<lambda>f this args w. (Inr VUndef, w)), e_isCallable = (\<lambda>f. True),
     e_constructor = (\<lambda>q w. (VUndef, w)), e_foreignCapability = (\<lambda>c w. (Inl VUndef, w)), e_promiseCtor = 0, e_selfResolution = VUndef\<rparr>"

lemma penv0_ok: "user_code penv0" "env_blind penv0"
  by (simp_all add: user_code_def env_blind_def blind_def penv0_def)

definition rejected_world :: world where
  "rejected_world = snd (promise_reject penv0 0 (VInt 1) empty_world)"

lemmas rejecting = rejected_world_def promise_reject_def newPromiseCapability_def native_capability_def newPromise_def
  put_promise_def createResolvingFunctions_def Let_def penv0_def empty_world_def capability_reject_def call_fn_def
  rejectFn_def argument0_def mark_resolved_def p_reject_def the_promise_def triggerPromiseReactions_def
  trackPromiseRejection_def

lemma rejected_world_eq:
  "promises rejected_world 0 = Some \<lparr>p_state = PromiseStateRejected, p_result = Some (VInt 1), p_fulfillReactions = [],
     p_rejectReactions = [], p_handled = False\<rparr>" "tracked rejected_world = [(0, PromiseRejectionReject)]"
    "has_tracker rejected_world"
  by (simp_all add: rejecting)

lemma rejected_world_reached: "api_step penv0 empty_world rejected_world"
  unfolding rejected_world_def by (rule api_step.RejectCall)

lemma rejected_world_inv: "pinv rejected_world {#}"
  using api_step_good[OF penv0_ok(1) rejected_world_reached empty_world_inv] by (simp add: good_step_def)

text \<open>Two handlers of the rejection wait in the queue.\<close>

definition queued_world :: world where
  "queued_world = snd (performPromiseThen penv0 0 VUndef (VObj 8) None (snd (performPromiseThen penv0 0 VUndef (VObj 7) None rejected_world)))"

lemma queued_world_inv: "pinv queued_world {#}"
proof -
  let ?w = "snd (performPromiseThen penv0 0 VUndef (VObj 7) None rejected_world)"
  have "promises ?w 0 \<noteq> None" by (simp add: performPromiseThen_def addReactions_def the_promise_def rejected_world_eq Let_def trackPromiseRejection_def enqueuePromiseJob_def put_promise_def)
  then have "api_step penv0 rejected_world ?w" "api_step penv0 ?w queued_world"
    unfolding queued_world_def by (rule_tac [!] api_step.Then) (simp_all add: rejected_world_eq)
  then show ?thesis using api_step_good[OF penv0_ok(1)] rejected_world_inv by (meson good_step_def)
qed

lemma rejected_world_rest: "jobQueue rejected_world = []" "natives rejected_world f = (if f = 2 then Some (NReject 0) else if f = 1 then Some (NResolve 0) else None)"
  by (simp_all add: rejecting)

lemma queued_world_jobs:
  "jobQueue queued_world = map (\<lambda>f. ReactionJob \<lparr>re_capability = None, re_typ = promiseReactionReject, re_handler = Some f\<rparr> (VInt 1)) [7, 8]"
  "natives queued_world = natives rejected_world"
  by (simp_all add: queued_world_def performPromiseThen_def addReactions_def the_promise_def rejected_world_eq rejected_world_rest Let_def trackPromiseRejection_def
    enqueuePromiseJob_def put_promise_def callback_of_def callable_def penv0_def)

lemma queued_world_leave: "leave penv0 queued_world = Some (Inr VUndef, queued_world\<lparr>jobQueue := []\<rparr>)"
  by (subst leave.simps, simp add: queued_world_jobs run_job_def reaction_job_def call_fn_def rejected_world_rest penv0_def, subst leave.simps, simp)

theorem promise_settles_once_witness:
  "\<exists>y. promises (snd (performPromiseThen penv0 0 VUndef VUndef None rejected_world)) 0 = Some y \<and>
     p_state y = PromiseStateRejected \<and> p_result y = Some (VInt 1)"
proof -
  have "(api_step penv0)\<^sup>*\<^sup>* rejected_world (snd (performPromiseThen penv0 0 VUndef VUndef None rejected_world))"
    by (rule r_into_rtranclp) (rule api_step.Then, simp add: rejected_world_eq)
  from promise_settles_once[OF penv0_ok(1) rejected_world_inv this rejected_world_eq(1)] show ?thesis by simp
qed

text \<open>
  The host's rejection tracker is told exactly what it is documented to be told: of a promise the
  moment it is rejected without a handler, then once more when the first handler is added, and never
  otherwise. So in every state a program can reach the tracker's open reports are the unhandled
  rejections.
\<close>

theorem rejection_tracking:
  assumes "user_code E" "pinv w {#}" "(api_step E)\<^sup>*\<^sup>* w w'" "has_tracker w'" "promises w' p = Some x"
  shows "(reports w' p = [PromiseRejectionReject] \<longleftrightarrow> p_state x = PromiseStateRejected \<and> \<not> p_handled x) \<and>
    reports w' p \<in> {[], [PromiseRejectionReject], [PromiseRejectionReject, PromiseRejectionHandle]} \<and>
    (reports w' p \<noteq> [] \<longrightarrow> p_state x = PromiseStateRejected)"
proof -
  have "promise_ok w' p x"
    using api_steps_good[OF assms(1,3,2)] assms(5) pinvD(4) unfolding good_step_def by blast
  then show ?thesis using assms(4) by (cases "p_state x") (auto simp: promise_ok_def split: if_splits)
qed

theorem rejection_tracking_witness:
  "reports rejected_world 0 = [PromiseRejectionReject]"
proof -
  have "(api_step penv0)\<^sup>*\<^sup>* empty_world rejected_world" using rejected_world_reached by (rule r_into_rtranclp)
  from rejection_tracking[OF penv0_ok(1) empty_world_inv this rejected_world_eq(3,1)] show ?thesis by simp
qed

text \<open>
  (C13) The loop at the end of a top-level call, which runs jobs in batches and collects new ones in a second
  queue, runs exactly the jobs that a single first-in first-out queue would run, in the same order and
  with the same result, and leaves the queue empty.
\<close>

theorem jobs_run_in_order:
  assumes "user_code E" "env_blind E" "pinv w {#}"
  shows "(leave E w = Some (Inr v, w') \<longleftrightarrow> drain E w = Some (Inr v, w')) \<and>
    (leave E w = Some (Inr v, w') \<longrightarrow> jobQueue w' = [])"
  using leave_to_drain[OF assms(2)] drain_to_leave[OF assms(2)] leave_steps[OF assms(1) _ assms(3)] by blast

theorem jobs_run_in_order_witness:
  "length (jobQueue queued_world) = 2 \<and> drain penv0 queued_world = Some (Inr VUndef, queued_world\<lparr>jobQueue := []\<rparr>)"
  using jobs_run_in_order[OF penv0_ok queued_world_inv, of VUndef "queued_world\<lparr>jobQueue := []\<rparr>"] queued_world_leave queued_world_jobs(1) by simp

text \<open>
  Reactions run in the order in which they were added, whether they were added before or after the
  promise was fulfilled: reactions \<open>rs\<close> added while it is pending are queued in that order when it is
  fulfilled, and those added later (\<open>ss\<close>) follow, each with the value of the promise.
\<close>

theorem reactions_in_order:
  assumes "promises w p = Some x" "p_state x = PromiseStatePending" "p_fulfillReactions x = []"
  shows "jobQueue (foldl (\<lambda>w (a, b). addReactions p a b w)
      (p_fulfill p v (foldl (\<lambda>w (a, b). addReactions p a b w) w rs)) ss) =
    jobQueue w @ map (\<lambda>(a, b). ReactionJob a v) (rs @ ss)"
proof -
  have pend: "\<exists>y. promises (foldl (\<lambda>w (a, b). addReactions p a b w) w rs) p = Some y \<and>
      p_fulfillReactions y = p_fulfillReactions x @ map fst rs \<and>
      jobQueue (foldl (\<lambda>w (a, b). addReactions p a b w) w rs) = jobQueue w"
    using assms(1,2)
  proof (induction rs arbitrary: w x)
    case (Cons ab rs)
    obtain a b where ab: "ab = (a, b)" by fastforce
    let ?w = "addReactions p a b w"
    let ?x = "x\<lparr>p_fulfillReactions := p_fulfillReactions x @ [a], p_rejectReactions := p_rejectReactions x @ [b], p_handled := True\<rparr>"
    have "promises ?w p = Some ?x" "jobQueue ?w = jobQueue w"
      using Cons.prems add_frame(7)[OF Cons.prems(1), of a b]
      by (simp_all add: addReactions_def Let_def put_promise_def the_promise_def)
    then show ?case using Cons.IH[of ?w ?x] Cons.prems(2) ab by auto
  qed simp
  define w1 where "w1 = foldl (\<lambda>w (a, b). addReactions p a b w) w rs"
  obtain y where y: "promises w1 p = Some y" "p_fulfillReactions y = map fst rs" "jobQueue w1 = jobQueue w"
    using pend assms(3) w1_def by auto
  have later: "jobQueue (foldl (\<lambda>w (a, b). addReactions p a b w) u ss) = jobQueue u @ map (\<lambda>(a, b). ReactionJob a v) ss"
    if "promises u p = Some z" "p_state z = PromiseStateFulfilled" "p_result z = Some v" for u z
    using that
  proof (induction ss arbitrary: u z)
    case (Cons ab ss)
    obtain a b where ab: "ab = (a, b)" by fastforce
    let ?u = "addReactions p a b u"
    have "promises ?u p = Some (z\<lparr>p_handled := True\<rparr>)" "jobQueue ?u = jobQueue u @ [ReactionJob a v]"
      using Cons.prems by (simp_all add: addReactions_def Let_def put_promise_def the_promise_def enqueuePromiseJob_def)
    then show ?case using Cons.IH[of ?u "z\<lparr>p_handled := True\<rparr>"] Cons.prems ab by simp
  qed simp
  have q: "jobQueue (p_fulfill p v w1) = jobQueue w @ map (\<lambda>(a, b). ReactionJob a v) rs"
    using y by (simp add: p_fulfill_def Let_def trigger_eq put_promise_def the_promise_def comp_def split_beta)
  have "promises (p_fulfill p v w1) p = Some (y\<lparr>p_state := PromiseStateFulfilled, p_result := Some v,
      p_fulfillReactions := [], p_rejectReactions := []\<rparr>)"
    using fulfill_frame(7)[of p v w1] y(1) by (simp add: the_promise_def)
  then show ?thesis using later[of "p_fulfill p v w1"] q unfolding w1_def[symmetric] by simp
qed

definition reaction0 :: "oid \<Rightarrow> promiseReaction" where
  "reaction0 f = \<lparr>re_capability = None, re_typ = promiseReactionFulfill, re_handler = Some f\<rparr>"

theorem reactions_in_order_witness:
  "jobQueue (foldl (\<lambda>w (a, b). addReactions 0 a b w)
      (p_fulfill 0 (VInt 3) (foldl (\<lambda>w (a, b). addReactions 0 a b w) (snd (newPromise empty_world)) [(reaction0 5, reaction0 6)])) [(reaction0 7, reaction0 8)]) =
    [ReactionJob (reaction0 5) (VInt 3), ReactionJob (reaction0 7) (VInt 3)]"
proof -
  let ?x = "\<lparr>p_state = PromiseStatePending, p_result = None, p_fulfillReactions = [], p_rejectReactions = [], p_handled = False\<rparr>"
  have "promises (snd (newPromise empty_world)) 0 = Some ?x" "jobQueue (snd (newPromise empty_world)) = []"
    by (simp_all add: newPromise_def put_promise_def empty_world_def)
  then show ?thesis using reactions_in_order[of "snd (newPromise empty_world)" 0 ?x "VInt 3" "[(reaction0 5, reaction0 6)]" "[(reaction0 7, reaction0 8)]"] by simp
qed

end
