(* ===== verification/Unistring.thy ===== *)
theory Unistring
  imports Values
begin

text \<open>
  Text encodings (unistring/string.go and the parts of Go's \<^verbatim>\<open>unicode/utf8\<close> and \<^verbatim>\<open>unicode/utf16\<close> that the string
  types call). A Go string is a list of bytes, a \<^verbatim>\<open>[]uint16\<close> a list of 16-bit words and a rune a natural
  number. \<^verbatim>\<open>unistring.String\<close>, the type of property keys, is a Go string that holds either plain ASCII or, after
  a byte order mark, the code units themselves in the memory order of a little-endian machine.
\<close>

unbundle bit_operations_syntax

type_synonym byte = "8 word"
type_synonym gostring = "byte list"
type_synonym rune = nat

definition byte_of :: "nat \<Rightarrow> byte" where
  "byte_of n = of_nat n"

section \<open>UTF-8 as Go decodes and encodes it\<close>

abbreviation RuneError :: rune where "RuneError \<equiv> 0xFFFD"

abbreviation RuneSelf :: nat where "RuneSelf \<equiv> 0x80"

definition between :: "nat \<Rightarrow> nat \<Rightarrow> byte \<Rightarrow> bool" where
  "between lo hi b \<longleftrightarrow> lo \<le> unat b \<and> unat b \<le> hi"

text \<open>
  \<^verbatim>\<open>utf8.DecodeRuneInString\<close>: the first rune and its width. The second byte of a sequence of three or four has
  a narrower range after certain first bytes (no overlong forms, no surrogates, nothing above \<^verbatim>\<open>U+10FFFF\<close>);
  anything else is \<^verbatim>\<open>RuneError\<close> of width one.
\<close>

fun DecodeRune :: "gostring \<Rightarrow> rune \<times> nat" where
  "DecodeRune [] = (RuneError, 0)"
| "DecodeRune (b0 # bs) =
     (let n0 = unat b0 in
      if n0 < RuneSelf then (n0, 1)
      else if between 0xC2 0xDF b0 then
        (case bs of
           b1 # _ \<Rightarrow>
             if between 0x80 0xBF b1 then ((n0 - 0xC0) * 64 + (unat b1 - 0x80), 2) else (RuneError, 1)
         | _ \<Rightarrow> (RuneError, 1))
      else if between 0xE0 0xEF b0 then
        (case bs of
           b1 # b2 # _ \<Rightarrow>
             if between (if n0 = 0xE0 then 0xA0 else 0x80) (if n0 = 0xED then 0x9F else 0xBF) b1 \<and>
                between 0x80 0xBF b2
             then ((n0 - 0xE0) * 4096 + (unat b1 - 0x80) * 64 + (unat b2 - 0x80), 3) else (RuneError, 1)
         | _ \<Rightarrow> (RuneError, 1))
      else if between 0xF0 0xF4 b0 then
        (case bs of
           b1 # b2 # b3 # _ \<Rightarrow>
             if between (if n0 = 0xF0 then 0x90 else 0x80) (if n0 = 0xF4 then 0x8F else 0xBF) b1 \<and>
                between 0x80 0xBF b2 \<and> between 0x80 0xBF b3
             then ((n0 - 0xF0) * 262144 + (unat b1 - 0x80) * 4096 + (unat b2 - 0x80) * 64 + (unat b3 - 0x80), 4)
             else (RuneError, 1)
         | _ \<Rightarrow> (RuneError, 1))
      else (RuneError, 1))"

lemma DecodeRune_size: "bs \<noteq> [] \<Longrightarrow> 0 < snd (DecodeRune bs)"
  by (cases bs) (auto simp: Let_def split: list.split)

text \<open>\<^verbatim>\<open>for _, r := range s\<close>: the runes of a Go string.\<close>

function runes :: "gostring \<Rightarrow> rune list" where
  "runes bs = (if bs = [] then [] else fst (DecodeRune bs) # runes (drop (snd (DecodeRune bs)) bs))"
  by auto
termination
  by (relation "measure length") (auto simp: DecodeRune_size)

declare runes.simps [simp del]

lemma runes_Nil [simp]: "runes [] = []"
  by (simp add: runes.simps)

definition isSurrogate :: "rune \<Rightarrow> bool" where
  "isSurrogate r \<longleftrightarrow> 0xD800 \<le> r \<and> r \<le> 0xDFFF"

text \<open>\<^verbatim>\<open>utf8.AppendRune\<close>; a surrogate half or a number above \<^verbatim>\<open>U+10FFFF\<close> is written as \<^verbatim>\<open>RuneError\<close>.\<close>

definition utf8_rune :: "rune \<Rightarrow> gostring" where
  "utf8_rune r0 =
     (let r = (if isSurrogate r0 \<or> 0x10FFFF < r0 then RuneError else r0) in
      if r < 0x80 then [byte_of r]
      else if r < 0x800 then [byte_of (0xC0 + r div 64), byte_of (0x80 + r mod 64)]
      else if r < 0x10000 then
        [byte_of (0xE0 + r div 4096), byte_of (0x80 + r div 64 mod 64), byte_of (0x80 + r mod 64)]
      else [byte_of (0xF0 + r div 262144), byte_of (0x80 + r div 4096 mod 64),
            byte_of (0x80 + r div 64 mod 64), byte_of (0x80 + r mod 64)])"

text \<open>\<^verbatim>\<open>string(runes)\<close>, and \<^verbatim>\<open>utf8.ValidString\<close>: decoding and encoding gives the string back.\<close>

definition runes_string :: "rune list \<Rightarrow> gostring" where
  "runes_string rs = concat (map utf8_rune rs)"

definition utf8_valid :: "gostring \<Rightarrow> bool" where
  "utf8_valid s \<longleftrightarrow> runes_string (runes s) = s"

definition scalar :: "rune \<Rightarrow> bool" where
  "scalar r \<longleftrightarrow> r \<le> 0x10FFFF \<and> \<not> isSurrogate r"

lemma unat_byte: "n < 256 \<Longrightarrow> unat (byte_of n) = n"
  by (simp add: byte_of_def unat_of_nat)

lemma base64_digits:
  "(r::nat) = r div 4096 * 4096 + r div 64 mod 64 * 64 + r mod 64"
  "(r::nat) = r div 262144 * 262144 + r div 4096 mod 64 * 4096 + r div 64 mod 64 * 64 + r mod 64"
proof -
  have a: "r div 4096 = r div 64 div 64" "r div 262144 = r div 64 div 64 div 64"
    by (simp_all add: div_mult2_eq [symmetric])
  have b: "r div 64 * 64 + r mod 64 = r" "r div 64 div 64 * 64 + r div 64 mod 64 = r div 64"
    "r div 64 div 64 div 64 * 64 + r div 64 div 64 mod 64 = r div 64 div 64"
    by (rule div_mult_mod_eq)+
  show "r = r div 4096 * 4096 + r div 64 mod 64 * 64 + r mod 64" using b unfolding a by linarith
  show "r = r div 262144 * 262144 + r div 4096 mod 64 * 4096 + r div 64 mod 64 * 64 + r mod 64"
    using b unfolding a by linarith
qed

lemma DecodeRune_utf8_rune:
  assumes "scalar r"
  shows "DecodeRune (utf8_rune r @ bs) = (r, length (utf8_rune r))"
proof -
  consider "r < 0x80" | "0x80 \<le> r" "r < 0x800" | "0x800 \<le> r" "r < 0x10000" | "0x10000 \<le> r" "r < 0x110000"
    using assms unfolding scalar_def by linarith
  then show ?thesis
  proof cases
    case 1
    then show ?thesis using assms by (simp add: utf8_rune_def scalar_def Let_def unat_byte)
  next
    case 2
    have "r div 64 < 32" "2 \<le> r div 64" using 2 by auto
    with 2 assms show ?thesis
      by (simp add: utf8_rune_def scalar_def Let_def unat_byte between_def)
  next
    case 3
    define a b c where d: "a = r div 4096" "b = r div 64 mod 64" "c = r mod 64"
    have r: "r = a * 4096 + b * 64 + c" unfolding d by (rule base64_digits)
    have bd: "a < 16" "b < 64" "c < 64" using 3 unfolding d by auto
    have lo: "a = 0 \<Longrightarrow> 32 \<le> b" and hi: "a = 13 \<Longrightarrow> b < 32"
      using 3 bd assms unfolding r scalar_def isSurrogate_def by auto
    have "utf8_rune r = [byte_of (0xE0 + a), byte_of (0x80 + b), byte_of (0x80 + c)]"
      using 3 assms by (simp add: utf8_rune_def Let_def scalar_def d)
    then show ?thesis
      using bd lo hi unfolding r by (auto simp add: Let_def unat_byte between_def)
  next
    case 4
    define a b c e where d: "a = r div 262144" "b = r div 4096 mod 64" "c = r div 64 mod 64" "e = r mod 64"
    have r: "r = a * 262144 + b * 4096 + c * 64 + e" unfolding d by (rule base64_digits)
    have bd: "a < 5" "b < 64" "c < 64" "e < 64" using 4 unfolding d by auto
    have lo: "a = 0 \<Longrightarrow> 16 \<le> b" and hi: "a = 4 \<Longrightarrow> b < 16"
      using 4 bd unfolding r by auto
    have "utf8_rune r = [byte_of (0xF0 + a), byte_of (0x80 + b), byte_of (0x80 + c), byte_of (0x80 + e)]"
      using 4 assms by (simp add: utf8_rune_def Let_def scalar_def d)
    then show ?thesis
      using bd lo hi unfolding r by (auto simp add: Let_def unat_byte between_def)
  qed
qed

lemma utf8_rune_nonempty [simp]: "utf8_rune r \<noteq> []"
  by (simp add: utf8_rune_def Let_def)

lemma runes_utf8_rune: "scalar r \<Longrightarrow> runes (utf8_rune r @ bs) = r # runes bs"
  by (subst runes.simps) (simp add: DecodeRune_utf8_rune)

lemma runes_runes_string: "\<forall>r\<in>set rs. scalar r \<Longrightarrow> runes (runes_string rs @ bs) = rs @ runes bs"
  by (induction rs) (auto simp: runes_string_def runes_utf8_rune)

lemma DecodeRune_scalar: "scalar (fst (DecodeRune bs))"
proof (cases bs)
  case (Cons b0 cs)
  have two: "scalar ((n - 192) * 64 + (m - 128))" if "n \<le> 223" "m \<le> 191" for n m :: nat
  proof -
    have "n - 192 \<le> 31" "m - 128 \<le> 63" using that by linarith+
    then show ?thesis unfolding scalar_def isSurrogate_def by linarith
  qed
  have three: "scalar ((n - 224) * 4096 + (m - 128) * 64 + (k - 128))"
    if "n \<le> 239" "m \<le> 191" "n = 237 \<longrightarrow> m \<le> 159" "k \<le> 191" for n m k :: nat
  proof -
    have "n - 224 \<le> 15" "m - 128 \<le> 63" "k - 128 \<le> 63" "n - 224 = 13 \<longrightarrow> m - 128 \<le> 31" using that by linarith+
    then consider "n - 224 \<le> 12" "m - 128 \<le> 63" "k - 128 \<le> 63"
      | "n - 224 = 13" "m - 128 \<le> 31" "k - 128 \<le> 63"
      | "14 \<le> n - 224" "n - 224 \<le> 15" "m - 128 \<le> 63" "k - 128 \<le> 63" by linarith
    then show ?thesis unfolding scalar_def isSurrogate_def by cases linarith+
  qed
  have four: "scalar ((n - 240) * 262144 + (m - 128) * 4096 + (k - 128) * 64 + (l - 128))"
    if "n \<le> 244" "n = 240 \<longrightarrow> 144 \<le> m" "n = 244 \<longrightarrow> m \<le> 143" "240 \<le> n" "m \<le> 191" "k \<le> 191" "l \<le> 191"
    for n m k l :: nat
  proof -
    have "n - 240 \<le> 4" "m - 128 \<le> 63" "k - 128 \<le> 63" "l - 128 \<le> 63" "n - 240 = 4 \<longrightarrow> m - 128 \<le> 15"
      "n - 240 = 0 \<longrightarrow> 16 \<le> m - 128"
      using that by linarith+
    then consider "n - 240 = 0" "16 \<le> m - 128" "m - 128 \<le> 63" "k - 128 \<le> 63" "l - 128 \<le> 63"
      | "1 \<le> n - 240" "n - 240 \<le> 3" "m - 128 \<le> 63" "k - 128 \<le> 63" "l - 128 \<le> 63"
      | "n - 240 = 4" "m - 128 \<le> 15" "k - 128 \<le> 63" "l - 128 \<le> 63" by linarith
    then show ?thesis unfolding scalar_def isSurrogate_def by cases linarith+
  qed
  have err: "scalar RuneError" by (simp add: scalar_def isSurrogate_def)
  show ?thesis
  proof (cases "unat b0 < 128 \<or> \<not> between 0xC2 0xF4 b0")
    case True
    then show ?thesis
      unfolding Cons by (auto simp: Let_def between_def err) (simp add: scalar_def isSurrogate_def)
  next
    case False
    then consider "between 0xC2 0xDF b0" "128 \<le> unat b0" | "between 0xE0 0xEF b0" | "between 0xF0 0xF4 b0"
      unfolding between_def by linarith
    then show ?thesis
    proof cases
      case 1
      then show ?thesis unfolding Cons
        by (cases cs) (simp_all add: Let_def between_def err two del: Nat.add_diff_assoc Nat.add_diff_assoc2)
    next
      case 2
      then show ?thesis unfolding Cons
        by (cases cs rule: remdups_adj.cases) (simp_all add: Let_def between_def err three three [of 237, simplified] three [of 224, simplified] del: Nat.add_diff_assoc Nat.add_diff_assoc2)
    next
      case 3
      consider "cs = []" | b1 where "cs = [b1]" | b1 b2 where "cs = [b1, b2]"
        | b1 b2 b3 ds where "cs = b1 # b2 # b3 # ds"
        by (metis list.exhaust)
      then show ?thesis using 3 unfolding Cons
        by cases (simp_all add: Let_def between_def err four four [of 240, simplified] four [of 244, simplified] del: Nat.add_diff_assoc Nat.add_diff_assoc2)
    qed
  qed
qed (simp add: scalar_def isSurrogate_def)

lemma runes_scalar: "r \<in> set (runes bs) \<Longrightarrow> scalar r"
  by (induction bs rule: runes.induct) (subst (asm) (2) runes.simps, auto simp: DecodeRune_scalar split: if_splits)

lemma utf8_valid_iff: "utf8_valid s \<longleftrightarrow> (\<exists>rs. (\<forall>r\<in>set rs. scalar r) \<and> s = runes_string rs)"
proof
  assume "utf8_valid s"
  then show "\<exists>rs. (\<forall>r\<in>set rs. scalar r) \<and> s = runes_string rs"
    by (intro exI [of _ "runes s"]) (auto simp: utf8_valid_def runes_scalar)
next
  assume "\<exists>rs. (\<forall>r\<in>set rs. scalar r) \<and> s = runes_string rs"
  then obtain rs where "\<forall>r\<in>set rs. scalar r" "s = runes_string rs" by blast
  then show "utf8_valid s" using runes_runes_string [of rs "[]"] by (simp add: utf8_valid_def)
qed

lemma runes_append: "utf8_valid s \<Longrightarrow> runes (s @ t) = runes s @ runes t"
  using runes_runes_string [of _ t] runes_runes_string [of _ "[]"] by (auto simp: utf8_valid_iff)

lemma utf8_valid_append: "utf8_valid s \<Longrightarrow> utf8_valid t \<Longrightarrow> utf8_valid (s @ t)"
  by (auto simp: utf8_valid_def runes_append) (simp add: runes_string_def)

text \<open>ASCII strings: every byte is below \<^verbatim>\<open>utf8.RuneSelf\<close>.\<close>

definition is_ascii :: "gostring \<Rightarrow> bool" where
  "is_ascii s \<longleftrightarrow> list_all (\<lambda>b. unat b < RuneSelf) s"

lemma is_ascii_simps [simp]: "is_ascii []" "is_ascii (b # s) \<longleftrightarrow> unat b < 128 \<and> is_ascii s"
  "is_ascii (s @ t) \<longleftrightarrow> is_ascii s \<and> is_ascii t"
  by (simp_all add: is_ascii_def)

lemma runes_ascii: "is_ascii s \<Longrightarrow> runes s = map unat s"
proof (induction s)
  case (Cons b s)
  then show ?case by (subst runes.simps) (simp add: Let_def)
qed simp

lemma utf8_valid_ascii: "is_ascii s \<Longrightarrow> utf8_valid s"
proof -
  assume a: "is_ascii s"
  have "concat (map (utf8_rune \<circ> unat) s) = s" using a
    by (induction s) (auto simp: utf8_rune_def Let_def isSurrogate_def byte_of_def)
  then show ?thesis using a by (simp add: utf8_valid_def runes_ascii runes_string_def)
qed

section \<open>UTF-16\<close>

definition isUTF16FirstSurrogate :: "16 word \<Rightarrow> bool" where
  "isUTF16FirstSurrogate c \<longleftrightarrow> 0xD800 \<le> unat c \<and> unat c \<le> 0xDBFF"

definition isUTF16SecondSurrogate :: "16 word \<Rightarrow> bool" where
  "isUTF16SecondSurrogate c \<longleftrightarrow> 0xDC00 \<le> unat c \<and> unat c \<le> 0xDFFF"

definition EncodeRune :: "rune \<Rightarrow> 16 word \<times> 16 word" where
  "EncodeRune r =
     (if 0x10000 \<le> r \<and> r \<le> 0x10FFFF
      then (of_nat (0xD800 + (r - 0x10000) div 1024), of_nat (0xDC00 + (r - 0x10000) mod 1024))
      else (of_nat RuneError, of_nat RuneError))"

definition DecodeRune16 :: "16 word \<Rightarrow> 16 word \<Rightarrow> rune" where
  "DecodeRune16 c1 c2 =
     (if isUTF16FirstSurrogate c1 \<and> isUTF16SecondSurrogate c2
      then (unat c1 - 0xD800) * 1024 + (unat c2 - 0xDC00) + 0x10000 else RuneError)"

text \<open>The code units of a rune, as \<^verbatim>\<open>Scan\<close>, \<^verbatim>\<open>NewFromRunes\<close> and \<^verbatim>\<open>writeRuneFast\<close> all compute them.\<close>

definition utf16_units :: "rune \<Rightarrow> ustr" where
  "utf16_units r = (if r \<le> 0xFFFF then [of_nat r] else [fst (EncodeRune r), snd (EncodeRune r)])"

text \<open>\<^verbatim>\<open>utf16.Decode\<close>: a surrogate half without its partner decodes to \<^verbatim>\<open>RuneError\<close>.\<close>

fun utf16_Decode :: "ustr \<Rightarrow> rune list" where
  "utf16_Decode [] = []"
| "utf16_Decode [c] =
     [if isUTF16FirstSurrogate c \<or> isUTF16SecondSurrogate c then RuneError else unat c]"
| "utf16_Decode (c # c2 # cs) =
     (if isUTF16FirstSurrogate c \<and> isUTF16SecondSurrogate c2 then DecodeRune16 c c2 # utf16_Decode cs
      else (if isUTF16FirstSurrogate c \<or> isUTF16SecondSurrogate c then RuneError else unat c)
             # utf16_Decode (c2 # cs))"

definition units :: "gostring \<Rightarrow> ustr" where
  "units s = concat (map utf16_units (runes s))"

definition units_string :: "ustr \<Rightarrow> gostring" where
  "units_string u = runes_string (utf16_Decode u)"

lemma unat_unit: "n < 0x10000 \<Longrightarrow> unat (of_nat n :: 16 word) = n"
  by (simp add: unat_of_nat)

lemma EncodeRune_surrogates:
  assumes "0x10000 \<le> r" "r \<le> 0x10FFFF"
  shows "unat (fst (EncodeRune r)) = 0xD800 + (r - 0x10000) div 1024" "(r - 0x10000) div 1024 \<le> 0x3FF"
    "unat (snd (EncodeRune r)) = 0xDC00 + (r - 0x10000) mod 1024" "(r - 0x10000) mod 1024 \<le> 0x3FF"
proof -
  show a: "(r - 0x10000) div 1024 \<le> 0x3FF" "(r - 0x10000) mod 1024 \<le> 0x3FF" using assms by auto
  have "unat (of_nat (0xD800 + (r - 0x10000) div 1024) :: 16 word) = 0xD800 + (r - 0x10000) div 1024"
    "unat (of_nat (0xDC00 + (r - 0x10000) mod 1024) :: 16 word) = 0xDC00 + (r - 0x10000) mod 1024"
    using a by (intro unat_unit; linarith)+
  then show "unat (fst (EncodeRune r)) = 0xD800 + (r - 0x10000) div 1024"
    "unat (snd (EncodeRune r)) = 0xDC00 + (r - 0x10000) mod 1024"
    using assms by (simp_all add: EncodeRune_def del: of_nat_add)
qed

lemma DecodeRune16_EncodeRune:
  assumes "0x10000 \<le> r" "r \<le> 0x10FFFF"
  shows "isUTF16FirstSurrogate (fst (EncodeRune r))" "isUTF16SecondSurrogate (snd (EncodeRune r))"
    "DecodeRune16 (fst (EncodeRune r)) (snd (EncodeRune r)) = r"
proof -
  note e = EncodeRune_surrogates [OF assms]
  show s: "isUTF16FirstSurrogate (fst (EncodeRune r))" "isUTF16SecondSurrogate (snd (EncodeRune r))"
    using e by (simp_all add: isUTF16FirstSurrogate_def isUTF16SecondSurrogate_def)
  show "DecodeRune16 (fst (EncodeRune r)) (snd (EncodeRune r)) = r"
    unfolding DecodeRune16_def using s e assms div_mult_mod_eq [of "r - 0x10000" 1024] by simp
qed

lemma utf16_Decode_units: "scalar r \<Longrightarrow> utf16_Decode (utf16_units r @ u) = r # utf16_Decode u"
proof (cases "r \<le> 0xFFFF")
  case True
  assume "scalar r"
  then have "\<not> isUTF16FirstSurrogate (of_nat r)" "\<not> isUTF16SecondSurrogate (of_nat r)"
    using True unat_unit [of r]
    unfolding isUTF16FirstSurrogate_def isUTF16SecondSurrogate_def scalar_def isSurrogate_def by linarith+
  then show ?thesis using True by (cases u) (simp_all add: utf16_units_def unat_unit)
next
  case False
  assume "scalar r"
  then have "0x10000 \<le> r" "r \<le> 0x10FFFF" using False by (simp_all add: scalar_def)
  then show ?thesis using False by (simp add: utf16_units_def DecodeRune16_EncodeRune)
qed

lemma utf16_Decode_concat:
  "\<forall>r\<in>set rs. scalar r \<Longrightarrow> utf16_Decode (concat (map utf16_units rs)) = rs"
  by (induction rs) (auto simp: utf16_Decode_units)

lemma scalar_RuneError: "scalar RuneError"
  by (simp add: scalar_def isSurrogate_def)

lemma unit_bound: "unat (c :: 16 word) \<le> 0xFFFF"
  using unsigned_less [of c, where ?'a = nat] by simp

lemma scalar_unit:
  "\<not> isUTF16FirstSurrogate c \<Longrightarrow> \<not> isUTF16SecondSurrogate c \<Longrightarrow> scalar (unat c)"
  using unit_bound [of c]
  unfolding scalar_def isSurrogate_def isUTF16FirstSurrogate_def isUTF16SecondSurrogate_def by linarith

lemma utf16_Decode_scalar: "r \<in> set (utf16_Decode u) \<Longrightarrow> scalar r"
proof (induction u rule: utf16_Decode.induct)
  case (2 c)
  then show ?case using scalar_RuneError scalar_unit by (auto split: if_splits)
next
  case (3 c c2 cs)
  have "scalar (DecodeRune16 c c2)"
  proof (cases "isUTF16FirstSurrogate c \<and> isUTF16SecondSurrogate c2")
    case True
    then have "unat c - 0xD800 \<le> 0x3FF" "unat c2 - 0xDC00 \<le> 0x3FF"
      by (auto simp: isUTF16FirstSurrogate_def isUTF16SecondSurrogate_def)
    then show ?thesis using True unfolding DecodeRune16_def scalar_def isSurrogate_def by simp
  qed (auto simp: DecodeRune16_def scalar_RuneError)
  with 3 scalar_RuneError scalar_unit show ?case by (auto split: if_splits)
qed simp

text \<open>Text from Go survives the way into UTF-16 and back.\<close>

lemma units_string_units: "utf8_valid s \<Longrightarrow> units_string (units s) = s"
  by (simp add: units_string_def units_def utf16_Decode_concat runes_scalar utf8_valid_def)

lemma units_append: "utf8_valid s \<Longrightarrow> units (s @ t) = units s @ units t"
  by (simp add: units_def runes_append)

lemma units_inj: "utf8_valid s \<Longrightarrow> utf8_valid t \<Longrightarrow> units s = units t \<longleftrightarrow> s = t"
  using units_string_units by metis

lemma units_Nil [simp]: "units [] = []"
  by (simp add: units_def)

section \<open>Scanning and keys\<close>

definition BOM :: "16 word" where "BOM = 0xFEFF"

text \<open>
  \<^verbatim>\<open>Scan\<close>: nil for an ASCII string. Otherwise a first loop counts the code units, a buffer of that size is made
  and a second loop fills it from index 1.
\<close>

definition scan_prefix :: "gostring \<Rightarrow> nat" where
  "scan_prefix s = length (takeWhile (\<lambda>b. unat b < RuneSelf) s)"

definition scan_size :: "gostring \<Rightarrow> nat" where
  "scan_size s =
     scan_prefix s + sum_list (map (\<lambda>chr. if 0xFFFF < chr then 2 else 1) (runes (drop (scan_prefix s) s)))"

fun scan_fill :: "ustr \<Rightarrow> nat \<Rightarrow> rune list \<Rightarrow> ustr \<times> nat" where
  "scan_fill buf c [] = (buf, c)"
| "scan_fill buf c (chr # rs) =
     (if chr \<le> 0xFFFF then scan_fill (buf[c := of_nat chr]) (c + 1) rs
      else scan_fill (buf[c := fst (EncodeRune chr), c + 1 := snd (EncodeRune chr)]) (c + 2) rs)"

definition Scan :: "gostring \<Rightarrow> ustr option" where
  "Scan s =
     (if scan_prefix s = length s then None
      else Some (fst (scan_fill ((replicate (scan_size s + 1) 0)[0 := BOM]) 1 (runes s))))"

definition FromUtf16 :: "ustr \<Rightarrow> gostring" where
  "FromUtf16 b = concat (map (\<lambda>c. [ucast c, ucast (drop_bit 8 c)]) b)"

fun as_uint16 :: "gostring \<Rightarrow> ustr" where
  "as_uint16 (lo # hi # s) = (ucast lo OR push_bit 8 (ucast hi)) # as_uint16 s"
| "as_uint16 _ = []"

definition AsUtf16 :: "gostring \<Rightarrow> ustr option" where
  "AsUtf16 s =
     (if length s < 4 \<or> odd (length s) then None
      else if hd (as_uint16 s) = BOM then Some (as_uint16 s) else None)"

definition NewFromString :: "gostring \<Rightarrow> gostring" where
  "NewFromString s = (case Scan s of Some buf \<Rightarrow> FromUtf16 buf | None \<Rightarrow> s)"

definition NewFromRunes :: "rune list \<Rightarrow> gostring" where
  "NewFromRunes s =
     (if list_all (\<lambda>c. c < RuneSelf) s then runes_string s
      else FromUtf16 (fst (scan_fill
             ((replicate (sum_list (map (\<lambda>c. if 0xFFFF < c then 2 else 1) s) + 1) 0)[0 := BOM]) 1 s)))"

definition unistring_String :: "gostring \<Rightarrow> gostring" where
  "unistring_String s = (case AsUtf16 s of Some b \<Rightarrow> units_string (drop 1 b) | None \<Rightarrow> s)"

definition units_len :: "rune list \<Rightarrow> nat" where
  "units_len rs = sum_list (map (\<lambda>chr. if 0xFFFF < chr then 2 else 1) rs)"

lemma length_units: "length (concat (map utf16_units rs)) = units_len rs"
  by (induction rs) (simp_all add: units_len_def utf16_units_def)

lemma scan_fill_correct:
  "units_len rs \<le> k \<Longrightarrow>
   scan_fill (pre @ replicate k 0) (length pre) rs =
     (pre @ concat (map utf16_units rs) @ replicate (k - units_len rs) 0, length pre + units_len rs)"
proof (induction rs arbitrary: pre k)
  case (Cons r rs)
  show ?case
  proof (cases "r \<le> 0xFFFF")
    case True
    then obtain k' where k: "k = Suc k'" using Cons.prems by (cases k) (auto simp: units_len_def)
    then have "units_len rs \<le> k'" using Cons.prems True by (simp add: units_len_def)
    then show ?thesis using True Cons.IH [of k' "pre @ [of_nat r]"] k
      by (simp add: units_len_def utf16_units_def)
  next
    case False
    then obtain k' where k: "k = Suc (Suc k')"
      using Cons.prems by (cases k; cases "k - 1") (auto simp: units_len_def)
    then have "units_len rs \<le> k'" using Cons.prems False by (simp add: units_len_def)
    then show ?thesis using False Cons.IH [of k' "pre @ [fst (EncodeRune r), snd (EncodeRune r)]"] k
      by (simp add: units_len_def utf16_units_def list_update_append)
  qed
qed (simp add: units_len_def)

lemma is_ascii_prefix: "is_ascii s \<longleftrightarrow> scan_prefix s = length s"
  by (induction s) (auto simp: scan_prefix_def is_ascii_def)

lemma runes_prefix:
  "runes s = map unat (take (scan_prefix s) s) @ runes (drop (scan_prefix s) s)"
  and scan_prefix_ascii: "is_ascii (take (scan_prefix s) s)"
proof -
  have t: "take (scan_prefix s) s = takeWhile (\<lambda>b. unat b < RuneSelf) s"
    by (simp add: scan_prefix_def takeWhile_eq_take [symmetric])
  show a: "is_ascii (take (scan_prefix s) s)"
    unfolding t is_ascii_def by (auto simp: list_all_iff dest: set_takeWhileD)
  show "runes s = map unat (take (scan_prefix s) s) @ runes (drop (scan_prefix s) s)"
    using runes_append [OF utf8_valid_ascii [OF a], of "drop (scan_prefix s) s"] runes_ascii [OF a] by simp
qed

lemma scan_size_eq: "scan_size s = length (units s)"
proof -
  have "units_len (map unat t) = length t" if "is_ascii t" for t :: gostring
    using that by (induction t) (auto simp: units_len_def)
  moreover have "units_len (runes s) = units_len (map unat (take (scan_prefix s) s)) + units_len (runes (drop (scan_prefix s) s))"
    by (subst runes_prefix) (simp add: units_len_def)
  moreover have "scan_prefix s \<le> length s" unfolding scan_prefix_def by (rule length_takeWhile_le)
  ultimately show ?thesis
    using scan_prefix_ascii [of s] unfolding units_def length_units
    by (simp add: scan_size_def units_len_def)
qed

text \<open>
  The size is exact: the second loop ends at the end of the buffer, and it leaves the byte order mark
  and the code units.
\<close>

lemma Scan_correct: "Scan s = (if is_ascii s then None else Some (BOM # units s))"
  and Scan_fills_buffer:
    "snd (scan_fill ((replicate (scan_size s + 1) 0)[0 := BOM]) 1 (runes s)) = scan_size s + 1"
proof -
  have "scan_fill ((replicate (scan_size s + 1) 0)[0 := BOM]) 1 (runes s) = (BOM # units s, scan_size s + 1)"
    using scan_fill_correct [of "runes s" "length (units s)" "[BOM]"] length_units [of "runes s"]
    by (simp add: scan_size_eq units_def)
  then show "Scan s = (if is_ascii s then None else Some (BOM # units s))"
    and "snd (scan_fill ((replicate (scan_size s + 1) 0)[0 := BOM]) 1 (runes s)) = scan_size s + 1"
    by (simp_all add: Scan_def is_ascii_prefix)
qed

lemma join_halves: "(ucast (ucast c :: byte) :: 16 word) OR push_bit 8 (ucast (ucast (drop_bit 8 c) :: byte)) = c"
  by (rule bit_word_eqI) (auto simp: bit_simps)

lemma as_uint16_FromUtf16 [simp]: "as_uint16 (FromUtf16 b) = b"
  by (induction b) (simp_all add: FromUtf16_def join_halves)

lemma length_FromUtf16: "length (FromUtf16 b) = 2 * length b"
  by (induction b) (simp_all add: FromUtf16_def)

lemma AsUtf16_FromUtf16: "u \<noteq> [] \<Longrightarrow> AsUtf16 (FromUtf16 (BOM # u)) = Some (BOM # u)"
  by (cases u) (simp_all add: AsUtf16_def length_FromUtf16)

lemma AsUtf16_ascii: "is_ascii s \<Longrightarrow> AsUtf16 s = None"
proof (cases s rule: as_uint16.cases)
  case (1 lo hi t)
  assume "is_ascii s"
  then have "unat hi < 128" using 1 by simp
  then have "\<not> bit (unat hi) 7" by (simp add: bit_iff_odd)
  then have "\<not> bit hi 7" by (simp add: bit_unsigned_iff)
  then have "\<not> bit (ucast lo OR push_bit 8 (ucast hi) :: 16 word) 15"
    by (auto simp: bit_simps dest: bit_imp_le_length)
  moreover have "bit BOM 15" by (simp add: BOM_def)
  ultimately show ?thesis using 1 by (auto simp: AsUtf16_def)
qed (auto simp: AsUtf16_def)

lemma units_ascii: "is_ascii s \<Longrightarrow> units s = map ucast s"
proof -
  assume a: "is_ascii s"
  then have "concat (map (utf16_units \<circ> unat) s) = map ucast s"
    by (induction s) (auto simp: utf16_units_def unsigned_ucast_eq)
  then show ?thesis using a by (simp add: units_def runes_ascii)
qed

lemma units_nonempty: "s \<noteq> [] \<Longrightarrow> units s \<noteq> []"
  by (subst units_def, subst runes.simps) (simp add: utf16_units_def)

lemma unistring_String_New: "utf8_valid s \<Longrightarrow> unistring_String (NewFromString s) = s"
proof (cases "is_ascii s")
  case False
  assume v: "utf8_valid s"
  have "units s \<noteq> []" using False units_nonempty [of s] by (cases s) auto
  then show ?thesis using False v
    by (simp add: unistring_String_def NewFromString_def Scan_correct AsUtf16_FromUtf16 units_string_units)
qed (simp add: unistring_String_def NewFromString_def Scan_correct AsUtf16_ascii)

text \<open>\<^verbatim>\<open>NewFromRunes\<close> and \<^verbatim>\<open>NewFromString\<close> agree on the runes of a string.\<close>

lemma NewFromRunes_eq:
  "NewFromRunes rs = (if list_all (\<lambda>c. c < RuneSelf) rs then runes_string rs
                      else FromUtf16 (BOM # concat (map utf16_units rs)))"
  using scan_fill_correct [of rs "units_len rs" "[BOM]"]
  by (simp add: NewFromRunes_def units_len_def [symmetric])

end
