(* ===== verification/String_Search.thy ===== *)
theory String_Search
  imports Unistring
begin

text \<open>
  Searching in UTF-16 strings (string_unicode.go): the naive search for short strings, and the search that
  views code units as bytes, calls Go's \<^verbatim>\<open>bytes.Index\<close> and skips matches at odd offsets. Both are proved to
  find the first (or last) occurrence.
\<close>

section \<open>Occurrences\<close>

definition match_at :: "'a list \<Rightarrow> 'a list \<Rightarrow> nat \<Rightarrow> bool" where
  "match_at s sep i \<longleftrightarrow> i + length sep \<le> length s \<and> take (length sep) (drop i s) = sep"

text \<open>Go's \<^verbatim>\<open>strings.Index\<close>, \<^verbatim>\<open>bytes.Index\<close> and their \<^verbatim>\<open>LastIndex\<close>.\<close>

definition Index :: "'a list \<Rightarrow> 'a list \<Rightarrow> int" where
  "Index s sep = (case find (match_at s sep) [0..<Suc (length s)] of Some i \<Rightarrow> int i | None \<Rightarrow> -1)"

definition LastIndex :: "'a list \<Rightarrow> 'a list \<Rightarrow> int" where
  "LastIndex s sep = (case find (match_at s sep) (rev [0..<Suc (length s)]) of Some i \<Rightarrow> int i | None \<Rightarrow> -1)"

definition first_match :: "'a list \<Rightarrow> 'a list \<Rightarrow> int \<Rightarrow> bool" where
  "first_match s sep r \<longleftrightarrow>
     (if \<exists>i. match_at s sep i then 0 \<le> r \<and> match_at s sep (nat r) \<and> (\<forall>j<nat r. \<not> match_at s sep j) else r = -1)"

definition last_match :: "'a list \<Rightarrow> 'a list \<Rightarrow> int \<Rightarrow> bool" where
  "last_match s sep r \<longleftrightarrow>
     (if \<exists>i. match_at s sep i then 0 \<le> r \<and> match_at s sep (nat r) \<and> (\<forall>j>nat r. \<not> match_at s sep j) else r = -1)"

lemma match_at_le: "match_at s sep i \<Longrightarrow> i \<le> length s"
  by (simp add: match_at_def)

lemma match_at_empty [simp]: "match_at s [] i \<longleftrightarrow> i \<le> length s"
  by (simp add: match_at_def)

lemma first_match_unique: "first_match s sep a \<Longrightarrow> first_match s sep b \<Longrightarrow> a = b"
  unfolding first_match_def by (auto split: if_splits) (metis linorder_neqE_nat nat_eq_iff2 eq_nat_nat_iff)

lemma last_match_unique: "last_match s sep a \<Longrightarrow> last_match s sep b \<Longrightarrow> a = b"
  unfolding last_match_def by (auto split: if_splits) (metis linorder_neqE_nat nat_eq_iff2 eq_nat_nat_iff)

lemma Index_first: "first_match s sep (Index s sep)"
proof (cases "find (match_at s sep) [0..<Suc (length s)]")
  case None
  then have "\<not> match_at s sep i" for i
    using match_at_le [of s sep i] by (auto simp del: upt_Suc simp: find_None_iff)
  then show ?thesis using None by (simp add: first_match_def Index_def)
next
  case (Some i)
  then have "i < Suc (length s)" "match_at s sep i" "\<forall>j<i. \<not> match_at s sep j"
    by (auto simp del: upt_Suc simp: find_Some_iff)
  then show ?thesis using Some by (auto simp: first_match_def Index_def)
qed

lemma LastIndex_last: "last_match s sep (LastIndex s sep)"
proof (cases "find (match_at s sep) (rev [0..<Suc (length s)])")
  case None
  then have "\<not> match_at s sep i" for i
    using match_at_le [of s sep i] by (auto simp del: upt_Suc simp: find_None_iff)
  then show ?thesis using None by (simp add: last_match_def LastIndex_def)
next
  case (Some i)
  then obtain k where k: "k < Suc (length s)" "match_at s sep i" "i = length s - k"
    "\<forall>j<k. \<not> match_at s sep (length s - j)"
    by (auto simp del: upt_Suc simp: find_Some_iff rev_nth)
  have "\<not> match_at s sep j" if "i < j" for j
  proof (cases "j \<le> length s")
    case True
    then have "length s - j < k" "length s - (length s - j) = j" using that k by auto
    then show ?thesis using k(4) by metis
  qed (use match_at_le in blast)
  moreover have "LastIndex s sep = int i" unfolding LastIndex_def Some by simp
  ultimately show ?thesis using k(2) by (auto simp: last_match_def)
qed

section \<open>The searches of \<^verbatim>\<open>string_unicode.go\<close>\<close>

definition utf16IndexNaiveCrossover :: nat where "utf16IndexNaiveCrossover = 32"

text \<open>The inner loop \<^verbatim>\<open>for j := 1; j < n; j++\<close> on equal first elements.\<close>

definition naive_match :: "ustr \<Rightarrow> ustr \<Rightarrow> nat \<Rightarrow> bool" where
  "naive_match s sep i \<longleftrightarrow>
     s ! i = sep ! 0 \<and> list_all (\<lambda>j. s ! (i + j) = sep ! j) [1..<length sep]"

function naive_loop :: "ustr \<Rightarrow> ustr \<Rightarrow> nat \<Rightarrow> int" where
  "naive_loop s sep i =
     (if i + length sep \<le> length s then
        if naive_match s sep i then int i else naive_loop s sep (i + 1)
      else -1)"
  by auto
termination
  by (relation "measure (\<lambda>(s, sep, i). Suc (length s) - i)") auto

definition utf16IndexNaive :: "ustr \<Rightarrow> ustr \<Rightarrow> int" where
  "utf16IndexNaive s sep =
     (if length sep = 0 then 0 else if length s < length sep then -1 else naive_loop s sep 0)"

text \<open>\<^verbatim>\<open>uint16AsBytes\<close> views the memory of the slice as bytes, which is what \<open>FromUtf16\<close> does for keys.\<close>

abbreviation uint16AsBytes :: "ustr \<Rightarrow> gostring" where
  "uint16AsBytes \<equiv> FromUtf16"

text \<open>The slice \<^verbatim>\<open>sb[offset:]\<close> needs \<^verbatim>\<open>offset <= len(sb)\<close>, which the first line guards; a match ends inside \<^verbatim>\<open>sb\<close>, so it holds.\<close>

function bytes_loop :: "gostring \<Rightarrow> gostring \<Rightarrow> nat \<Rightarrow> int" where
  "bytes_loop sb sepb offset =
     (if length sb < offset then -1
      else let i = Index (drop offset sb) sepb in
        if i < 0 then -1
        else let pos = offset + nat i in
          if even pos then int (pos div 2) else bytes_loop sb sepb (pos + 1))"
  by auto
termination
  by (relation "measure (\<lambda>(sb, sepb, offset). Suc (length sb) - offset)") auto

definition utf16IndexBytes :: "ustr \<Rightarrow> ustr \<Rightarrow> int" where
  "utf16IndexBytes s sep =
     (if length sep = 0 then 0 else if length s < length sep then -1
      else bytes_loop (uint16AsBytes s) (uint16AsBytes sep) 0)"

definition utf16Index :: "ustr \<Rightarrow> ustr \<Rightarrow> int" where
  "utf16Index s substr =
     (if length s < utf16IndexNaiveCrossover then utf16IndexNaive s substr else utf16IndexBytes s substr)"

fun last_naive_loop :: "ustr \<Rightarrow> ustr \<Rightarrow> nat \<Rightarrow> int" where
  "last_naive_loop s sep 0 = -1"
| "last_naive_loop s sep (Suc i) = (if naive_match s sep i then int i else last_naive_loop s sep i)"

definition utf16LastIndexNaive :: "ustr \<Rightarrow> ustr \<Rightarrow> int" where
  "utf16LastIndexNaive s sep =
     (if length sep = 0 then int (length s) else if length s < length sep then -1
      else last_naive_loop s sep (Suc (length s - length sep)))"

function last_bytes_loop :: "gostring \<Rightarrow> gostring \<Rightarrow> nat \<Rightarrow> int" where
  "last_bytes_loop sb sepb stop =
     (if length sepb \<le> stop then
        let i = LastIndex (take stop sb) sepb in
        if i < 0 then -1
        else if even i then i div 2
        else last_bytes_loop sb sepb (nat i + length sepb - 1)
      else -1)"
  by auto
termination
proof (relation "measure (\<lambda>(sb, sepb, stop). stop)", goal_cases)
  case (2 sb sepb stop i)
  then have "match_at (take stop sb) sepb (nat i)"
    using LastIndex_last [of "take stop sb" sepb] by (auto simp: last_match_def split: if_splits)
  then have "nat i + length sepb \<le> stop" by (simp add: match_at_def)
  moreover have "0 < nat i" using 2 by (cases "i = 0") auto
  ultimately show ?case by auto
qed auto

definition utf16LastIndexBytes :: "ustr \<Rightarrow> ustr \<Rightarrow> int" where
  "utf16LastIndexBytes s sep =
     (if length sep = 0 then int (length s) else if length s < length sep then -1
      else last_bytes_loop (uint16AsBytes s) (uint16AsBytes sep) (length (uint16AsBytes s)))"

definition utf16LastIndex :: "ustr \<Rightarrow> ustr \<Rightarrow> int" where
  "utf16LastIndex s sep =
     (if length s < utf16IndexNaiveCrossover then utf16LastIndexNaive s sep else utf16LastIndexBytes s sep)"

declare naive_loop.simps [simp del] bytes_loop.simps [simp del] last_bytes_loop.simps [simp del]

section \<open>Correctness\<close>

lemma naive_match_iff:
  assumes "i + length sep \<le> length s" "sep \<noteq> []"
  shows "naive_match s sep i \<longleftrightarrow> match_at s sep i"
proof -
  have "match_at s sep i \<longleftrightarrow> (\<forall>j<length sep. s ! (i + j) = sep ! j)"
    unfolding match_at_def by (subst list_eq_iff_nth_eq) (use assms(1) in simp)
  moreover have "(\<forall>j<length sep. s ! (i + j) = sep ! j) \<longleftrightarrow> naive_match s sep i"
  proof
    assume n: "naive_match s sep i"
    show "\<forall>j<length sep. s ! (i + j) = sep ! j"
    proof (intro allI impI)
      fix j assume "j < length sep"
      then show "s ! (i + j) = sep ! j" using n by (cases "j = 0") (auto simp: naive_match_def list_all_iff)
    qed
  next
    assume "\<forall>j<length sep. s ! (i + j) = sep ! j"
    then show "naive_match s sep i" using assms by (auto simp: naive_match_def list_all_iff)
  qed
  ultimately show ?thesis by simp
qed

lemma naive_loop_first:
  assumes "sep \<noteq> []" "\<forall>j<i. \<not> match_at s sep j"
  shows "first_match s sep (naive_loop s sep i)"
  using assms
proof (induction s sep i rule: naive_loop.induct)
  case (1 s sep i)
  show ?case
  proof (cases "i + length sep \<le> length s")
    case True
    show ?thesis
    proof (cases "match_at s sep i")
      case True
      then show ?thesis
        using 1(3) \<open>i + length sep \<le> length s\<close> naive_match_iff [OF _ 1(2)]
        by (subst naive_loop.simps) (auto simp: first_match_def)
    next
      case False
      then have "\<forall>j<i + 1. \<not> match_at s sep j" using 1(3) by (simp add: less_Suc_eq)
      then show ?thesis
        using 1(1) 1(2) False True naive_match_iff [OF True 1(2)] by (subst naive_loop.simps) simp
    qed
  next
    case False
    then have "\<not> match_at s sep j" for j
      using 1(3) by (cases "j < i") (auto simp: match_at_def)
    then show ?thesis using False by (subst naive_loop.simps) (simp add: first_match_def)
  qed
qed

lemma last_naive_loop_last:
  assumes "sep \<noteq> []" "i + length sep \<le> Suc (length s)" "\<forall>j\<ge>i. \<not> match_at s sep j"
  shows "last_match s sep (last_naive_loop s sep i)"
  using assms
proof (induction s sep i rule: last_naive_loop.induct)
  case (2 s sep i)
  have m: "naive_match s sep i \<longleftrightarrow> match_at s sep i" using 2 by (intro naive_match_iff) auto
  show ?case
  proof (cases "match_at s sep i")
    case True
    then show ?thesis using 2(4) m by (auto simp: last_match_def Suc_le_eq)
  next
    case False
    then have "\<forall>j\<ge>i. \<not> match_at s sep j" using 2(4) by (metis le_eq_less_or_eq Suc_leI)
    then show ?thesis using 2 False m by simp
  qed
qed (simp add: last_match_def)

lemma take_FromUtf16: "take (2 * n) (FromUtf16 s) = FromUtf16 (take n s)"
proof (induction s arbitrary: n)
  case (Cons c s)
  then show ?case by (cases n) (auto simp: FromUtf16_def)
qed (simp add: FromUtf16_def)

lemma drop_FromUtf16: "drop (2 * n) (FromUtf16 s) = FromUtf16 (drop n s)"
proof (induction s arbitrary: n)
  case (Cons c s)
  then show ?case by (cases n) (auto simp: FromUtf16_def)
qed (simp add: FromUtf16_def)

lemma FromUtf16_inj: "FromUtf16 a = FromUtf16 b \<longleftrightarrow> a = b"
  by (metis as_uint16_FromUtf16)

text \<open>An occurrence in the bytes at an even offset is an occurrence in the code units.\<close>

lemma match_at_bytes: "match_at (FromUtf16 s) (FromUtf16 sep) (2 * i) \<longleftrightarrow> match_at s sep i"
  by (auto simp: match_at_def length_FromUtf16 drop_FromUtf16 take_FromUtf16 FromUtf16_inj)

lemma match_at_drop: "n \<le> length s \<Longrightarrow> match_at (drop n s) sep i \<longleftrightarrow> match_at s sep (n + i)"
  by (auto simp: match_at_def add.commute)

lemma match_at_take: "match_at (take n s) sep i \<longleftrightarrow> match_at s sep i \<and> i + length sep \<le> n"
  by (auto simp: match_at_def take_drop min_def)

lemma bytes_loop_first:
  assumes "sep \<noteq> []" "\<forall>j. 2 * j < offset \<longrightarrow> \<not> match_at s sep j" "offset \<le> length (FromUtf16 s)"
  shows "first_match s sep (bytes_loop (FromUtf16 s) (FromUtf16 sep) offset)"
  using assms
proof (induction "FromUtf16 s" "FromUtf16 sep" offset rule: bytes_loop.induct)
  case (1 offset)
  let ?i = "Index (drop offset (FromUtf16 s)) (FromUtf16 sep)"
  let ?m = "match_at (FromUtf16 s) (FromUtf16 sep)"
  have fm: "first_match (drop offset (FromUtf16 s)) (FromUtf16 sep) ?i" by (rule Index_first)
  show ?case
  proof (cases "?i < 0")
    case True
    then have none: "\<not> ?m (offset + k)" for k
      using fm 1(4) unfolding first_match_def by (auto simp: match_at_drop split: if_splits)
    have "\<not> match_at s sep j" for j
    proof (cases "2 * j < offset")
      case False
      then show ?thesis using none [of "2 * j - offset"] by (simp add: match_at_bytes)
    qed (use 1(3) in simp)
    then show ?thesis using True 1(4) by (subst bytes_loop.simps) (simp add: first_match_def)
  next
    case False
    define pos where "pos = offset + nat ?i"
    have pm: "?m pos" and before: "\<forall>k<pos. offset \<le> k \<longrightarrow> \<not> ?m k"
    proof -
      from fm False have "match_at (drop offset (FromUtf16 s)) (FromUtf16 sep) (nat ?i)"
        "\<forall>j<nat ?i. \<not> match_at (drop offset (FromUtf16 s)) (FromUtf16 sep) j"
        unfolding first_match_def by (auto split: if_splits)
      then show "?m pos" "\<forall>k<pos. offset \<le> k \<longrightarrow> \<not> ?m k"
        using 1(4) unfolding pos_def by (auto simp: match_at_drop) (metis add_less_cancel_left le_Suc_ex)
    qed
    have nb: "\<not> match_at s sep j" if "2 * j < pos" for j
      using that before 1(3) match_at_bytes [of s sep j] by (metis not_less)
    show ?thesis
    proof (cases "even pos")
      case True
      then obtain j where j: "pos = 2 * j" by blast
      then have "match_at s sep j" using pm match_at_bytes by metis
      then show ?thesis using nb j False 1(4)
        by (subst bytes_loop.simps) (auto simp: Let_def pos_def [symmetric] first_match_def)
    next
      case odd: False
      then have "\<forall>j. 2 * j < pos + 1 \<longrightarrow> \<not> match_at s sep j"
        using nb by (metis dvd_triv_left less_Suc_eq Suc_eq_plus1)
      moreover have "pos + 1 \<le> length (FromUtf16 s)"
        using pm 1(2) by (auto simp: match_at_def length_FromUtf16 neq_Nil_conv)
      ultimately show ?thesis using 1(1) [OF _ refl False pos_def odd] 1(2,4) False odd
        by (subst bytes_loop.simps) (simp add: Let_def pos_def [symmetric])
    qed
  qed
qed

lemma last_bytes_loop_last:
  assumes "sep \<noteq> []" "\<forall>j. stop < 2 * j + 2 * length sep \<longrightarrow> \<not> match_at s sep j"
  shows "last_match s sep (last_bytes_loop (FromUtf16 s) (FromUtf16 sep) stop)"
  using assms
proof (induction "FromUtf16 s" "FromUtf16 sep" stop rule: last_bytes_loop.induct)
  case (1 stop)
  let ?i = "LastIndex (take stop (FromUtf16 s)) (FromUtf16 sep)"
  let ?m = "match_at (FromUtf16 s) (FromUtf16 sep)"
  have lm: "last_match (take stop (FromUtf16 s)) (FromUtf16 sep) ?i" by (rule LastIndex_last)
  show ?case
  proof (cases "length (FromUtf16 sep) \<le> stop")
    case fits: True
    show ?thesis
    proof (cases "?i < 0")
      case True
      then have "\<not> match_at s sep j" for j
        using lm 1(3) match_at_bytes [of s sep j] unfolding last_match_def
        by (auto simp: match_at_take length_FromUtf16 not_less split: if_splits)
      then show ?thesis using True fits by (subst last_bytes_loop.simps) (simp add: last_match_def)
    next
      case False
      then obtain i where i: "?i = int i" by (metis not_less nonneg_int_cases)
      have im: "?m i" and after: "\<forall>k>i. k + length (FromUtf16 sep) \<le> stop \<longrightarrow> \<not> ?m k"
        using lm False i unfolding last_match_def by (auto simp: match_at_take split: if_splits)
      have na: "\<not> match_at s sep j" if "i < 2 * j" for j
        using that after 1(3) match_at_bytes [of s sep j] by (auto simp: length_FromUtf16 not_less)
      show ?thesis
      proof (cases "even i")
        case True
        then obtain j where j: "i = 2 * j" by blast
        then have "match_at s sep j" using im match_at_bytes by metis
        then show ?thesis using na j False fits i
          by (subst last_bytes_loop.simps) (auto simp: Let_def last_match_def)
      next
        case odd: False
        have "\<not> match_at s sep j" if "i + 2 * length sep - 1 < 2 * j + 2 * length sep" for j
          using na [of j] odd that by (cases "2 * j = i") auto
        then show ?thesis using 1(1) [OF fits refl] 1(2) False fits i odd
          by (subst last_bytes_loop.simps) (simp add: Let_def length_FromUtf16)
      qed
    qed
  next
    case False
    then have "\<not> match_at s sep j" for j using 1(3) by (simp add: length_FromUtf16)
    then show ?thesis using False by (subst last_bytes_loop.simps) (simp add: last_match_def)
  qed
qed

lemma match_trivial:
  "first_match s [] 0" "last_match s [] (int (length s))"
  "length s < length sep \<Longrightarrow> first_match s sep (-1)" "length s < length sep \<Longrightarrow> last_match s sep (-1)"
  by (auto simp: first_match_def last_match_def match_at_def)

lemma search_first:
  "first_match s sep (utf16IndexNaive s sep)" "first_match s sep (utf16IndexBytes s sep)"
  using naive_loop_first [of sep 0 s] bytes_loop_first [of sep 0 s]
  by (auto simp: utf16IndexNaive_def utf16IndexBytes_def match_trivial)

lemma search_last:
  "last_match s sep (utf16LastIndexNaive s sep)" "last_match s sep (utf16LastIndexBytes s sep)"
proof -
  have "\<not> match_at s sep j" if "Suc (length s - length sep) \<le> j" for j
    using that by (auto simp: match_at_def)
  then show "last_match s sep (utf16LastIndexNaive s sep)"
    using last_naive_loop_last [of sep "Suc (length s - length sep)" s]
    by (auto simp: utf16LastIndexNaive_def match_trivial simp del: last_naive_loop.simps)
  show "last_match s sep (utf16LastIndexBytes s sep)"
    using last_bytes_loop_last [of sep "length (FromUtf16 s)" s]
    by (auto simp: utf16LastIndexBytes_def match_trivial match_at_def length_FromUtf16)
qed

lemma utf16Index_first: "first_match s sep (utf16Index s sep)"
  by (simp add: utf16Index_def search_first)

lemma utf16LastIndex_last: "last_match s sep (utf16LastIndex s sep)"
  by (simp add: utf16LastIndex_def search_last)

lemmas search_unique =
  first_match_unique [OF _ Index_first] last_match_unique [OF _ LastIndex_last]

text \<open>
  (C17) Searching code units finds the first and the last occurrence: for every string and pattern the search that
  reinterprets the code units as bytes and skips matches at odd byte offsets returns what the naive
  search returns, both return the position of the first (last) occurrence, and -1 exactly when there is none.
\<close>

theorem utf16_search_correct:
  "utf16IndexBytes s sep = utf16IndexNaive s sep \<and> utf16LastIndexBytes s sep = utf16LastIndexNaive s sep \<and>
   first_match s sep (utf16Index s sep) \<and> last_match s sep (utf16LastIndex s sep)"
  using first_match_unique [OF search_first(2) search_first(1)] last_match_unique [OF search_last(2) search_last(1)]
    utf16Index_first utf16LastIndex_last by metis

end
