(* ===== verification/Strings.thy ===== *)
theory Strings
  imports String_Search "HOL-Library.Monad_Syntax"
begin

text \<open>
  String values (string.go, string_ascii.go, string_unicode.go, string_imported.go, string_concat.go). A string
  has one of four representations: ASCII bytes, code units after a byte order mark, a Go string that is scanned
  only when its characters are needed, and a node that joins two strings and is flattened only
  when needed. Scanning and flattening write to memory that other strings share, so the last two are
  indices into a memory record, and every operation takes the memory and returns it. \<open>None\<close> is a run-time panic
  (an index out of range); the theorems show when there is a result.

  \<^verbatim>\<open>denotes m s u\<close> is the abstraction: in memory \<^verbatim>\<open>m\<close> the string \<^verbatim>\<open>s\<close> has the code units \<^verbatim>\<open>u\<close>. It includes the canonical form
  the comparisons rely on: a \<^verbatim>\<open>unicodeString\<close> has a code unit outside ASCII.
\<close>

section \<open>Representation\<close>

datatype jstr = Ascii gostring | Unicode ustr | Imported nat | Concat nat

record importedString =
  is_s :: gostring
  is_u :: "ustr option"
  scanned :: bool

record concatString =
  cs_left :: jstr
  cs_right :: "jstr option"
  cs_length :: nat

record smem =
  imps :: "importedString list"
  cats :: "concatString list"

type_synonym flat = "gostring + ustr"

definition imp_at :: "smem \<Rightarrow> nat \<Rightarrow> importedString option" where
  "imp_at m i = (if i < length (imps m) then Some (imps m ! i) else None)"

definition cat_at :: "smem \<Rightarrow> nat \<Rightarrow> concatString option" where
  "cat_at m c = (if c < length (cats m) then Some (cats m ! c) else None)"

lemma at_Some:
  "imp_at m i = Some o' \<longleftrightarrow> i < length (imps m) \<and> imps m ! i = o'"
  "cat_at m c = Some cs \<longleftrightarrow> c < length (cats m) \<and> cats m ! c = cs"
  by (auto simp: imp_at_def cat_at_def)

definition concatThreshold :: nat where "concatThreshold = 32"

text \<open>Go's slice expression \<^verbatim>\<open>s[i:j]\<close>.\<close>

definition go_slice :: "'a list \<Rightarrow> nat \<Rightarrow> nat \<Rightarrow> 'a list option" where
  "go_slice s i j = (if i \<le> j \<and> j \<le> length s then Some (take (j - i) (drop i s)) else None)"

definition go_index :: "'a list \<Rightarrow> nat \<Rightarrow> 'a option" where
  "go_index s i = (if i < length s then Some (s ! i) else None)"

definition scan :: "importedString \<Rightarrow> importedString" where
  "scan i = i\<lparr>is_u := Scan (is_s i), scanned := True\<rparr>"

definition ensureScanned :: "smem \<Rightarrow> nat \<Rightarrow> (importedString \<times> smem) option" where
  "ensureScanned m i =
     (case imp_at m i of
        None \<Rightarrow> None
      | Some o' \<Rightarrow> if scanned o' then Some (o', m)
                   else Some (scan o', m\<lparr>imps := (imps m)[i := scan o']\<rparr>))"

definition imp_flat :: "importedString \<Rightarrow> flat" where
  "imp_flat o' = (case is_u o' of Some u \<Rightarrow> Inr u | None \<Rightarrow> Inl (is_s o'))"

text \<open>
  \<^verbatim>\<open>devirtualizeString\<close> on a string that is not a node. On a node the code flattens it and calls itself on the
  result, which is never a node (see \<open>flatten_ok\<close>); a node here is \<open>None\<close>, so that the proofs that there
  is a result show that this does not happen.
\<close>

definition devirtualize_leaf :: "smem \<Rightarrow> jstr \<Rightarrow> (flat \<times> smem) option" where
  "devirtualize_leaf m s =
     (case s of
        Ascii a \<Rightarrow> Some (Inl a, m)
      | Unicode u \<Rightarrow> Some (Inr u, m)
      | Imported i \<Rightarrow> do { (o', m) \<leftarrow> ensureScanned m i; Some (imp_flat o', m) }
      | Concat c \<Rightarrow> None)"

section \<open>The string builder\<close>

record unicodeStringBuilder =
  ub_buf :: ustr
  ub_unicode :: bool

record StringBuilder =
  asciiBuilder :: gostring
  unicodeBuilder :: unicodeStringBuilder

definition emptyBuilder :: StringBuilder where
  "emptyBuilder = \<lparr>asciiBuilder = [], unicodeBuilder = \<lparr>ub_buf = [], ub_unicode = False\<rparr>\<rparr>"

text \<open>\<^verbatim>\<open>Grow\<close> reserves capacity, which has no meaning here, and starts the buffer with the byte order mark.\<close>

definition ub_Grow :: "unicodeStringBuilder \<Rightarrow> unicodeStringBuilder" where
  "ub_Grow b = (if ub_buf b = [] then b\<lparr>ub_buf := [BOM]\<rparr> else b)"

definition writeRuneFast :: "unicodeStringBuilder \<Rightarrow> rune \<Rightarrow> unicodeStringBuilder" where
  "writeRuneFast b r =
     (if r \<le> 0xFFFF then
        b\<lparr>ub_buf := ub_buf b @ [of_nat r], ub_unicode := ub_unicode b \<or> RuneSelf \<le> r\<rparr>
      else b\<lparr>ub_buf := ub_buf b @ [fst (EncodeRune r), snd (EncodeRune r)], ub_unicode := True\<rparr>)"

definition ub_WriteRune :: "unicodeStringBuilder \<Rightarrow> rune \<Rightarrow> unicodeStringBuilder" where
  "ub_WriteRune b r = writeRuneFast (ub_Grow b) r"

definition writeASCIIString :: "unicodeStringBuilder \<Rightarrow> gostring \<Rightarrow> unicodeStringBuilder" where
  "writeASCIIString b bytes = b\<lparr>ub_buf := ub_buf b @ map of_nat (runes bytes)\<rparr>"

definition writeUnicodeString :: "unicodeStringBuilder \<Rightarrow> ustr \<Rightarrow> unicodeStringBuilder" where
  "writeUnicodeString b str = b\<lparr>ub_buf := ub_buf b @ drop 1 str, ub_unicode := True\<rparr>"

text \<open>\<^verbatim>\<open>writeString\<close> of the unicode builder, after \<^verbatim>\<open>devirtualizeString\<close>.\<close>

definition ub_writeFlat :: "unicodeStringBuilder \<Rightarrow> flat \<Rightarrow> unicodeStringBuilder" where
  "ub_writeFlat b f =
     (case f of
        Inr u \<Rightarrow> b\<lparr>ub_buf := ub_buf b @ drop 1 u, ub_unicode := True\<rparr>
      | Inl a \<Rightarrow> b\<lparr>ub_buf := ub_buf b @ map ucast a\<rparr>)"

definition ub_String :: "unicodeStringBuilder \<Rightarrow> jstr" where
  "ub_String b =
     (if ub_unicode b then Unicode (ub_buf b)
      else if length (ub_buf b) < 2 then Ascii []
      else Ascii (map ucast (drop 1 (ub_buf b))))"

definition sb_ascii :: "StringBuilder \<Rightarrow> bool" where
  "sb_ascii b \<longleftrightarrow> length (ub_buf (unicodeBuilder b)) = 0"

definition switchToUnicode :: "StringBuilder \<Rightarrow> StringBuilder" where
  "switchToUnicode b =
     (if sb_ascii b then
        \<lparr>asciiBuilder = [], unicodeBuilder = writeASCIIString (ub_Grow (unicodeBuilder b)) (asciiBuilder b)\<rparr>
      else b)"

definition LikelyUnicode :: "StringBuilder \<Rightarrow> StringBuilder" where
  "LikelyUnicode b = switchToUnicode b"

definition sb_Grow :: "StringBuilder \<Rightarrow> StringBuilder" where
  "sb_Grow b = (if sb_ascii b then b else b\<lparr>unicodeBuilder := ub_Grow (unicodeBuilder b)\<rparr>)"

definition sb_writeASCII :: "StringBuilder \<Rightarrow> gostring \<Rightarrow> StringBuilder" where
  "sb_writeASCII b s =
     (if sb_ascii b then b\<lparr>asciiBuilder := asciiBuilder b @ s\<rparr>
      else b\<lparr>unicodeBuilder := writeASCIIString (unicodeBuilder b) s\<rparr>)"

text \<open>\<^verbatim>\<open>WriteString\<close> after \<^verbatim>\<open>devirtualizeString\<close>.\<close>

definition sb_writeFlat :: "StringBuilder \<Rightarrow> flat \<Rightarrow> StringBuilder" where
  "sb_writeFlat b f =
     (case f of
        Inr u \<Rightarrow> let b = switchToUnicode b in b\<lparr>unicodeBuilder := writeUnicodeString (unicodeBuilder b) u\<rparr>
      | Inl a \<Rightarrow> sb_writeASCII b a)"

definition WriteUTF8String :: "StringBuilder \<Rightarrow> gostring \<Rightarrow> StringBuilder" where
  "WriteUTF8String b s =
     (let i = scan_prefix s in
      if sb_ascii b \<and> i = length s then b\<lparr>asciiBuilder := asciiBuilder b @ s\<rparr>
      else let first = (if sb_ascii b then i else 0);
               b = (if sb_ascii b then
                      (let b = switchToUnicode b in
                       b\<lparr>unicodeBuilder := writeASCIIString (unicodeBuilder b) (take i s)\<rparr>)
                    else b)
           in b\<lparr>unicodeBuilder := foldl writeRuneFast (unicodeBuilder b) (runes (drop first s))\<rparr>)"

definition sb_WriteRune :: "StringBuilder \<Rightarrow> rune \<Rightarrow> StringBuilder" where
  "sb_WriteRune b r =
     (if r < RuneSelf then
        if sb_ascii b then b\<lparr>asciiBuilder := asciiBuilder b @ [byte_of r]\<rparr>
        else b\<lparr>unicodeBuilder := writeRuneFast (unicodeBuilder b) r\<rparr>
      else let b = switchToUnicode b in b\<lparr>unicodeBuilder := writeRuneFast (unicodeBuilder b) r\<rparr>)"

definition sb_String :: "StringBuilder \<Rightarrow> jstr" where
  "sb_String b = (if sb_ascii b then Ascii (asciiBuilder b) else ub_String (unicodeBuilder b))"

text \<open>\<^verbatim>\<open>WriteSubstring\<close> after \<^verbatim>\<open>devirtualizeString\<close>.\<close>

definition sb_writeSubFlat :: "StringBuilder \<Rightarrow> flat \<Rightarrow> nat \<Rightarrow> nat \<Rightarrow> StringBuilder option" where
  "sb_writeSubFlat b source start stop =
     (case source of
        Inl a \<Rightarrow> map_option (sb_writeASCII b) (go_slice a start stop)
      | Inr us \<Rightarrow>
          do { ss \<leftarrow> go_slice us (start + 1) (stop + 1);
               if sb_ascii b \<and> \<not> list_ex (\<lambda>c. RuneSelf \<le> unat c) ss
               then Some (b\<lparr>asciiBuilder := asciiBuilder b @ map ucast ss\<rparr>)
               else let b = switchToUnicode b in
                 Some (b\<lparr>unicodeBuilder := (unicodeBuilder b)\<lparr>ub_buf := ub_buf (unicodeBuilder b) @ ss,
                                                              ub_unicode := True\<rparr>\<rparr>) })"

section \<open>Flattening\<close>

definition is_unicodeString :: "jstr \<Rightarrow> bool" where
  "is_unicodeString s = (case s of Unicode _ \<Rightarrow> True | _ \<Rightarrow> False)"

text \<open>The end of the body of the loop in \<^verbatim>\<open>writeTo\<close>: the first string written decides how the builder starts.\<close>

definition write_leaf :: "smem \<Rightarrow> jstr \<Rightarrow> bool \<Rightarrow> bool \<Rightarrow> StringBuilder \<Rightarrow> (StringBuilder \<times> smem \<times> bool) option" where
  "write_leaf m str grew unicodeDetected sb =
     (let unicodeDetected = (if \<not> grew \<and> \<not> unicodeDetected then is_unicodeString str else unicodeDetected);
          sb = (if grew then sb else if unicodeDetected then LikelyUnicode sb else sb_Grow sb)
      in do { (f, m) \<leftarrow> devirtualize_leaf m str; Some (sb_writeFlat sb f, m, unicodeDetected) })"

text \<open>The loop of \<^verbatim>\<open>writeTo\<close>; the top of the stack is the head of the list.\<close>

partial_function (option) writeTo_loop ::
    "smem \<Rightarrow> jstr list \<Rightarrow> bool \<Rightarrow> bool \<Rightarrow> StringBuilder \<Rightarrow> (StringBuilder \<times> smem) option" where
  "writeTo_loop m stack grew unicodeDetected sb =
     (case stack of
        [] \<Rightarrow> Some (sb, m)
      | str # stack \<Rightarrow>
          (case (case str of Concat c \<Rightarrow> map_option (\<lambda>cs. (cs_left cs, cs_right cs)) (cat_at m c)
                           | _ \<Rightarrow> Some (str, None)) of
             None \<Rightarrow> None
           | Some (left, Some right) \<Rightarrow>
               writeTo_loop m (left # right # stack) grew
                 (if \<not> grew \<and> \<not> unicodeDetected then is_unicodeString right else unicodeDetected) sb
           | Some (leaf, None) \<Rightarrow>
               (case write_leaf m leaf grew unicodeDetected sb of
                  None \<Rightarrow> None
                | Some (sb, m, unicodeDetected) \<Rightarrow> writeTo_loop m stack True unicodeDetected sb)))"

definition writeTo :: "smem \<Rightarrow> jstr \<Rightarrow> jstr \<Rightarrow> (StringBuilder \<times> smem) option" where
  "writeTo m left right = writeTo_loop m [left, right] False (is_unicodeString right) emptyBuilder"

definition flatten :: "smem \<Rightarrow> nat \<Rightarrow> (jstr \<times> smem) option" where
  "flatten m c =
     (case cat_at m c of
        None \<Rightarrow> None
      | Some cs \<Rightarrow>
          (case cs_right cs of
             None \<Rightarrow> Some (cs_left cs, m)
           | Some right \<Rightarrow>
               do { (sb, m) \<leftarrow> writeTo m (cs_left cs) right;
                    let flattened = sb_String sb in
                    Some (flattened, m\<lparr>cats := (cats m)[c := cs\<lparr>cs_left := flattened, cs_right := None\<rparr>]\<rparr>) }))"

definition devirtualizeString :: "smem \<Rightarrow> jstr \<Rightarrow> (flat \<times> smem) option" where
  "devirtualizeString m s =
     (case s of
        Concat c \<Rightarrow> do { (f, m) \<leftarrow> flatten m c; devirtualize_leaf m f }
      | _ \<Rightarrow> devirtualize_leaf m s)"

definition WriteString :: "smem \<Rightarrow> StringBuilder \<Rightarrow> jstr \<Rightarrow> (StringBuilder \<times> smem) option" where
  "WriteString m b s = do { (f, m) \<leftarrow> devirtualizeString m s; Some (sb_writeFlat b f, m) }"

definition WriteSubstring :: "smem \<Rightarrow> StringBuilder \<Rightarrow> jstr \<Rightarrow> nat \<Rightarrow> nat \<Rightarrow> (StringBuilder \<times> smem) option" where
  "WriteSubstring m b source start stop =
     do { (f, m) \<leftarrow> devirtualizeString m source; b \<leftarrow> sb_writeSubFlat b f start stop; Some (b, m) }"

section \<open>The methods of the four types\<close>

text \<open>
  Each method is the four Go methods of that name, dispatched on the representation. A flattened node holds
  an ASCII or a unicode string, on which the call after \<^verbatim>\<open>flatten\<close> lands; \<open>flat_of\<close> reads it.
\<close>

definition flat_of :: "jstr \<Rightarrow> flat option" where
  "flat_of s = (case s of Ascii a \<Rightarrow> Some (Inl a) | Unicode u \<Rightarrow> Some (Inr u) | _ \<Rightarrow> None)"

definition flattened :: "smem \<Rightarrow> nat \<Rightarrow> (flat \<times> smem) option" where
  "flattened m c = do { (s, m) \<leftarrow> flatten m c; f \<leftarrow> flat_of s; Some (f, m) }"

text \<open>The receiver as a flat string: itself, what \<^verbatim>\<open>ensureScanned\<close> left, or the result of \<^verbatim>\<open>flatten\<close>.\<close>

definition receiver :: "smem \<Rightarrow> jstr \<Rightarrow> (flat \<times> smem) option" where
  "receiver m s =
     (case s of
        Ascii a \<Rightarrow> Some (Inl a, m)
      | Unicode u \<Rightarrow> Some (Inr u, m)
      | Imported i \<Rightarrow> do { (o', m) \<leftarrow> ensureScanned m i; Some (imp_flat o', m) }
      | Concat c \<Rightarrow> flattened m c)"

definition flat_Length :: "flat \<Rightarrow> nat" where
  "flat_Length f = (case f of Inl a \<Rightarrow> length a | Inr u \<Rightarrow> length u - 1)"

definition Length :: "smem \<Rightarrow> jstr \<Rightarrow> (nat \<times> smem) option" where
  "Length m s =
     (case s of
        Concat c \<Rightarrow> map_option (\<lambda>cs. (cs_length cs, m)) (cat_at m c)
      | _ \<Rightarrow> do { (f, m) \<leftarrow> receiver m s; Some (flat_Length f, m) })"

definition flat_CharAt :: "flat \<Rightarrow> nat \<Rightarrow> 16 word option" where
  "flat_CharAt f idx = (case f of Inl a \<Rightarrow> map_option ucast (go_index a idx) | Inr u \<Rightarrow> go_index u (idx + 1))"

definition CharAt :: "smem \<Rightarrow> jstr \<Rightarrow> nat \<Rightarrow> (16 word \<times> smem) option" where
  "CharAt m s idx = do { (f, m) \<leftarrow> receiver m s; c \<leftarrow> flat_CharAt f idx; Some (c, m) }"

definition flat_Substring :: "flat \<Rightarrow> nat \<Rightarrow> nat \<Rightarrow> jstr option" where
  "flat_Substring f start stop =
     (case f of
        Inl a \<Rightarrow> map_option Ascii (go_slice a start stop)
      | Inr u \<Rightarrow>
          map_option (\<lambda>ss. if list_ex (\<lambda>c. RuneSelf \<le> unat c) ss then Unicode (BOM # ss) else Ascii (map ucast ss))
            (go_slice u (start + 1) (stop + 1)))"

definition Substring :: "smem \<Rightarrow> jstr \<Rightarrow> nat \<Rightarrow> nat \<Rightarrow> (jstr \<times> smem) option" where
  "Substring m s start stop = do { (f, m) \<leftarrow> receiver m s; r \<leftarrow> flat_Substring f start stop; Some (r, m) }"

subsection \<open>Concatenation\<close>

definition new_concat :: "smem \<Rightarrow> jstr \<Rightarrow> jstr \<Rightarrow> nat \<Rightarrow> jstr \<times> smem" where
  "new_concat m l r n =
     (Concat (length (cats m)), m\<lparr>cats := cats m @ [\<lparr>cs_left = l, cs_right = Some r, cs_length = n\<rparr>]\<rparr>)"

definition ascii_Concat :: "smem \<Rightarrow> gostring \<Rightarrow> jstr \<Rightarrow> (jstr \<times> smem) option" where
  "ascii_Concat m s other =
     (let asciis = (\<lambda>m o'.
            let totalLen = length s + length o' in
            if totalLen > concatThreshold then new_concat m (Ascii s) (Ascii o') totalLen
            else (Ascii (s @ o'), m));
          unicodes = (\<lambda>m o'.
            let totalLen = length s + (length o' - 1) in
            if totalLen > concatThreshold then new_concat m (Ascii s) (Unicode o') totalLen
            else (Unicode (BOM # map ucast s @ drop 1 o'), m))
      in case other of
           Ascii o' \<Rightarrow> Some (asciis m o')
         | Unicode o' \<Rightarrow> Some (unicodes m o')
         | Imported i \<Rightarrow>
             do { (o', m) \<leftarrow> ensureScanned m i;
                  Some (case is_u o' of Some u \<Rightarrow> unicodes m u | None \<Rightarrow> asciis m (is_s o')) }
         | Concat c \<Rightarrow>
             map_option (\<lambda>cs. new_concat m (Ascii s) (Concat c) (length s + cs_length cs)) (cat_at m c))"

definition unicode_Concat :: "smem \<Rightarrow> ustr \<Rightarrow> jstr \<Rightarrow> (jstr \<times> smem) option" where
  "unicode_Concat m s other =
     (let asciis = (\<lambda>m o'.
            let totalLen = (length s - 1) + length o' in
            if totalLen > concatThreshold then new_concat m (Unicode s) (Ascii o') totalLen
            else (Unicode (s @ map ucast o'), m));
          unicodes = (\<lambda>m o'.
            let totalLen = (length s - 1) + (length o' - 1) in
            if totalLen > concatThreshold then new_concat m (Unicode s) (Unicode o') totalLen
            else (Unicode (s @ drop 1 o'), m))
      in case other of
           Ascii o' \<Rightarrow> Some (asciis m o')
         | Unicode o' \<Rightarrow> Some (unicodes m o')
         | Imported i \<Rightarrow>
             do { (o', m) \<leftarrow> ensureScanned m i;
                  Some (case is_u o' of Some u \<Rightarrow> unicodes m u | None \<Rightarrow> asciis m (is_s o')) }
         | Concat c \<Rightarrow>
             map_option (\<lambda>cs. new_concat m (Unicode s) (Concat c) ((length s - 1) + cs_length cs)) (cat_at m c))"

definition flat_Concat :: "smem \<Rightarrow> flat \<Rightarrow> jstr \<Rightarrow> (jstr \<times> smem) option" where
  "flat_Concat m f other = (case f of Inl a \<Rightarrow> ascii_Concat m a other | Inr u \<Rightarrow> unicode_Concat m u other)"

text \<open>Two strings that were never scanned are joined as Go strings.\<close>

definition imported_Concat :: "smem \<Rightarrow> nat \<Rightarrow> jstr \<Rightarrow> (jstr \<times> smem) option" where
  "imported_Concat m i v =
     (case imp_at m i of
        None \<Rightarrow> None
      | Some o' \<Rightarrow>
          (case (if scanned o' then None
                 else case v of Imported j \<Rightarrow>
                        (case imp_at m j of Some v' \<Rightarrow> if scanned v' then None else Some v' | None \<Rightarrow> None)
                      | _ \<Rightarrow> None) of
             Some v' \<Rightarrow>
               Some (Imported (length (imps m)),
                     m\<lparr>imps := imps m @ [\<lparr>is_s = is_s o' @ is_s v', is_u = None, scanned = False\<rparr>]\<rparr>)
           | None \<Rightarrow> do { (o', m) \<leftarrow> ensureScanned m i; flat_Concat m (imp_flat o') v }))"

definition concat_Concat :: "smem \<Rightarrow> nat \<Rightarrow> jstr \<Rightarrow> (jstr \<times> smem) option" where
  "concat_Concat m c other =
     (case cat_at m c of
        None \<Rightarrow> None
      | Some cs \<Rightarrow>
          do { (n, m) \<leftarrow> Length m other;
               let totalLen = cs_length cs + n in
               if totalLen \<le> concatThreshold then do { (f, m) \<leftarrow> flattened m c; flat_Concat m f other }
               else Some (new_concat m (Concat c) other totalLen) })"

definition Concat_str :: "smem \<Rightarrow> jstr \<Rightarrow> jstr \<Rightarrow> (jstr \<times> smem) option" where
  "Concat_str m s other =
     (case s of
        Ascii a \<Rightarrow> ascii_Concat m a other
      | Unicode u \<Rightarrow> unicode_Concat m u other
      | Imported i \<Rightarrow> imported_Concat m i other
      | Concat c \<Rightarrow> concat_Concat m c other)"

subsection \<open>Equality, order, hashing and keys\<close>

text \<open>An ASCII string looks at \<^verbatim>\<open>o.u\<close> of an imported string without scanning it.\<close>

definition ascii_StrictEquals :: "smem \<Rightarrow> gostring \<Rightarrow> jstr \<Rightarrow> (bool \<times> smem) option" where
  "ascii_StrictEquals m s other =
     (case other of
        Ascii o' \<Rightarrow> Some (s = o', m)
      | Unicode _ \<Rightarrow> Some (False, m)
      | Imported i \<Rightarrow> map_option (\<lambda>o'. (is_u o' = None \<and> s = is_s o', m)) (imp_at m i)
      | Concat c \<Rightarrow> do { (f, m) \<leftarrow> flattened m c; Some (f = Inl s, m) })"

definition unicode_equals :: "ustr \<Rightarrow> ustr \<Rightarrow> bool" where
  "unicode_equals s other \<longleftrightarrow>
     length s = length other \<and> list_all (\<lambda>i. s ! i = other ! i) [0..<length s]"

definition unicode_StrictEquals :: "smem \<Rightarrow> ustr \<Rightarrow> jstr \<Rightarrow> (bool \<times> smem) option" where
  "unicode_StrictEquals m s other =
     (case other of
        Ascii _ \<Rightarrow> Some (False, m)
      | Unicode o' \<Rightarrow> Some (unicode_equals s o', m)
      | Imported i \<Rightarrow>
          do { (o', m) \<leftarrow> ensureScanned m i;
               Some (case is_u o' of Some u \<Rightarrow> unicode_equals s u | None \<Rightarrow> False, m) }
      | Concat c \<Rightarrow>
          do { (f, m) \<leftarrow> flattened m c;
               Some (case f of Inr u \<Rightarrow> unicode_equals s u | Inl _ \<Rightarrow> False, m) })"

definition imported_StrictEquals_leaf :: "smem \<Rightarrow> nat \<Rightarrow> jstr \<Rightarrow> (bool \<times> smem) option" where
  "imported_StrictEquals_leaf m i other =
     (case imp_at m i of
        None \<Rightarrow> None
      | Some o' \<Rightarrow>
          (case other of
             Ascii s \<Rightarrow> Some (is_u o' = None \<and> is_s o' = s, m)
           | Unicode u \<Rightarrow>
               do { (o', m) \<leftarrow> ensureScanned m i;
                    Some (case is_u o' of Some v \<Rightarrow> unicode_equals v u | None \<Rightarrow> False, m) }
           | Imported j \<Rightarrow> map_option (\<lambda>p. (is_s o' = is_s p, m)) (imp_at m j)
           | Concat c \<Rightarrow> None))"

definition imported_StrictEquals :: "smem \<Rightarrow> nat \<Rightarrow> jstr \<Rightarrow> (bool \<times> smem) option" where
  "imported_StrictEquals m i other =
     (case other of
        Concat c \<Rightarrow> do { (f, m) \<leftarrow> flatten m c; imported_StrictEquals_leaf m i f }
      | _ \<Rightarrow> imported_StrictEquals_leaf m i other)"

definition flat_StrictEquals :: "smem \<Rightarrow> flat \<Rightarrow> jstr \<Rightarrow> (bool \<times> smem) option" where
  "flat_StrictEquals m f other =
     (case f of Inl a \<Rightarrow> ascii_StrictEquals m a other | Inr u \<Rightarrow> unicode_StrictEquals m u other)"

definition str_StrictEquals :: "smem \<Rightarrow> jstr \<Rightarrow> jstr \<Rightarrow> (bool \<times> smem) option" where
  "str_StrictEquals m s other =
     (case s of
        Ascii a \<Rightarrow> ascii_StrictEquals m a other
      | Unicode u \<Rightarrow> unicode_StrictEquals m u other
      | Imported i \<Rightarrow> imported_StrictEquals m i other
      | Concat c \<Rightarrow>
          if other = Concat c then Some (True, m)
          else do { (f, m) \<leftarrow> flattened m c; flat_StrictEquals m f other })"

text \<open>\<^verbatim>\<open>strings.Compare\<close> and \<^verbatim>\<open>slices.Compare\<close>.\<close>

fun go_compare :: "'a::linorder list \<Rightarrow> 'a list \<Rightarrow> int" where
  "go_compare [] [] = 0"
| "go_compare [] (y # ys) = -1"
| "go_compare (x # xs) [] = 1"
| "go_compare (x # xs) (y # ys) = (if x < y then -1 else if y < x then 1 else go_compare xs ys)"

fun compareToAscii_loop :: "ustr \<Rightarrow> gostring \<Rightarrow> int" where
  "compareToAscii_loop [] s2 = (if s2 \<noteq> [] then -1 else 0)"
| "compareToAscii_loop (c1 # s1) [] = 1"
| "compareToAscii_loop (c1 # s1) (c2 # s2) =
     (if c1 < ucast c2 then -1 else if c1 > ucast c2 then 1 else compareToAscii_loop s1 s2)"

definition compareToAscii :: "ustr \<Rightarrow> gostring \<Rightarrow> int" where
  "compareToAscii s s2 = compareToAscii_loop (drop 1 s) s2"

definition flat_CompareTo :: "flat \<Rightarrow> flat \<Rightarrow> int" where
  "flat_CompareTo s t =
     (case (s, t) of
        (Inl a, Inr u) \<Rightarrow> - compareToAscii u a
      | (Inl a, Inl b) \<Rightarrow> go_compare a b
      | (Inr u, Inr v) \<Rightarrow> go_compare (drop 1 u) (drop 1 v)
      | (Inr u, Inl b) \<Rightarrow> compareToAscii u b)"

definition CompareTo :: "smem \<Rightarrow> jstr \<Rightarrow> jstr \<Rightarrow> (int \<times> smem) option" where
  "CompareTo m s other =
     do { (f, m) \<leftarrow> receiver m s; (g, m) \<leftarrow> devirtualizeString m other; Some (flat_CompareTo f g, m) }"

definition flat_string :: "flat \<Rightarrow> gostring" where
  "flat_string f = (case f of Inl a \<Rightarrow> a | Inr u \<Rightarrow> FromUtf16 u)"

definition str_string :: "smem \<Rightarrow> jstr \<Rightarrow> (gostring \<times> smem) option" where
  "str_string m s = do { (f, m) \<leftarrow> receiver m s; Some (flat_string f, m) }"

text \<open>\<^verbatim>\<open>hash\<close> feeds the same bytes to the hash function.\<close>

definition str_hash :: "(gostring \<Rightarrow> 64 word) \<Rightarrow> smem \<Rightarrow> jstr \<Rightarrow> (64 word \<times> smem) option" where
  "str_hash H m s = do { (f, m) \<leftarrow> receiver m s; Some (H (flat_string f), m) }"

definition stringValueFromRaw :: "gostring \<Rightarrow> jstr" where
  "stringValueFromRaw raw = (case AsUtf16 raw of Some b \<Rightarrow> Unicode b | None \<Rightarrow> Ascii raw)"

definition newStringValue :: "gostring \<Rightarrow> jstr" where
  "newStringValue s = (case Scan s of Some u \<Rightarrow> Unicode u | None \<Rightarrow> Ascii s)"

definition StringFromUTF16 :: "ustr \<Rightarrow> jstr" where
  "StringFromUTF16 chars =
     (if list_ex (\<lambda>c. RuneSelf \<le> unat c) chars then Unicode (BOM # chars) else Ascii (map ucast chars))"

subsection \<open>Searching\<close>

definition flat_units :: "flat \<Rightarrow> ustr" where
  "flat_units f = (case f of Inl a \<Rightarrow> map ucast a | Inr u \<Rightarrow> drop 1 u)"

definition flat_index :: "flat \<Rightarrow> flat \<Rightarrow> nat \<Rightarrow> int" where
  "flat_index s substr start =
     (case s of
        Inl s \<Rightarrow>
          (case substr of
             Inl a \<Rightarrow>
               if start > length s then -1
               else let p = Index (drop start s) a in if p \<ge> 0 then p + int start else -1
           | Inr _ \<Rightarrow> -1)
      | Inr s \<Rightarrow>
          if start > length s - 1 then -1
          else let idx = utf16Index (drop (1 + start) s) (flat_units substr) in
            if idx \<noteq> -1 then idx + int start else -1)"

text \<open>A unicode string returns for a start past its end before it looks at the pattern.\<close>

definition str_index :: "smem \<Rightarrow> jstr \<Rightarrow> jstr \<Rightarrow> nat \<Rightarrow> (int \<times> smem) option" where
  "str_index m s substr start =
     do { (f, m) \<leftarrow> receiver m s;
          if (case f of Inr u \<Rightarrow> start > length u - 1 | Inl _ \<Rightarrow> False) then Some (-1, m)
          else do { (g, m) \<leftarrow> devirtualizeString m substr; Some (flat_index f g start, m) } }"

definition flat_lastIndex :: "flat \<Rightarrow> flat \<Rightarrow> nat \<Rightarrow> int" where
  "flat_lastIndex s substr pos =
     (case s of
        Inl s \<Rightarrow>
          (case substr of
             Inl a \<Rightarrow> LastIndex (if pos + length a > length s then s else take (pos + length a) s) a
           | Inr _ \<Rightarrow> -1)
      | Inr s \<Rightarrow>
          let ss = flat_units substr in
          utf16LastIndex (drop 1 (take (min (pos + 1 + length ss) (length s)) s)) ss)"

definition str_lastIndex :: "smem \<Rightarrow> jstr \<Rightarrow> jstr \<Rightarrow> nat \<Rightarrow> (int \<times> smem) option" where
  "str_lastIndex m s substr pos =
     do { (f, m) \<leftarrow> receiver m s; (g, m) \<leftarrow> devirtualizeString m substr; Some (flat_lastIndex f g pos, m) }"

subsection \<open>Export and truth value\<close>

definition flat_String :: "flat \<Rightarrow> gostring" where
  "flat_String f = (case f of Inl a \<Rightarrow> a | Inr u \<Rightarrow> units_string (drop 1 u))"

definition str_String :: "smem \<Rightarrow> jstr \<Rightarrow> (gostring \<times> smem) option" where
  "str_String m s =
     (case s of
        Imported i \<Rightarrow> map_option (\<lambda>o'. (is_s o', m)) (imp_at m i)
      | _ \<Rightarrow> do { (f, m) \<leftarrow> receiver m s; Some (flat_String f, m) })"

definition str_ToBoolean :: "smem \<Rightarrow> jstr \<Rightarrow> bool option" where
  "str_ToBoolean m s =
     (case s of
        Ascii a \<Rightarrow> Some (a \<noteq> [])
      | Unicode u \<Rightarrow> Some (length u > 0)
      | Imported i \<Rightarrow> map_option (\<lambda>o'. length (is_s o') \<noteq> 0) (imp_at m i)
      | Concat c \<Rightarrow> map_option (\<lambda>cs. cs_length cs > 0) (cat_at m c))"

section \<open>The text of a string\<close>

definition ascii_units :: "ustr \<Rightarrow> bool" where
  "ascii_units u \<longleftrightarrow> list_all (\<lambda>c. unat c < RuneSelf) u"

inductive denotes :: "smem \<Rightarrow> jstr \<Rightarrow> ustr \<Rightarrow> bool" where
  ascii: "is_ascii a \<Longrightarrow> denotes m (Ascii a) (map ucast a)"
| unicode: "\<not> ascii_units u \<Longrightarrow> denotes m (Unicode (BOM # u)) u"
| imported: "imp_at m i = Some o' \<Longrightarrow> denotes m (Imported i) (units (is_s o'))"
| node: "cat_at m c = Some cs \<Longrightarrow> cs_right cs = Some r \<Longrightarrow> denotes m (cs_left cs) x \<Longrightarrow> denotes m r y \<Longrightarrow>
    denotes m (Concat c) (x @ y)"
| flat: "cat_at m c = Some cs \<Longrightarrow> cs_right cs = None \<Longrightarrow> denotes m (cs_left cs) x \<Longrightarrow> denotes m (Concat c) x"

inductive_simps denotes_simps [simp]:
  "denotes m (Ascii a) x" "denotes m (Unicode u) x" "denotes m (Imported i) x"

inductive_cases denotes_ConcatE: "denotes m (Concat c) x"

definition imp_ok :: "importedString \<Rightarrow> bool" where
  "imp_ok o' \<longleftrightarrow> utf8_valid (is_s o') \<and> is_u o' = (if scanned o' then Scan (is_s o') else None)"

text \<open>
  The invariant of the memory: imported strings are valid UTF-8 and their cache agrees; every node denotes a
  text of the length it records, and a flattened node holds an ASCII or a unicode string.
\<close>

definition node_ok :: "smem \<Rightarrow> nat \<Rightarrow> bool" where
  "node_ok m c \<longleftrightarrow>
     (\<exists>x. denotes m (Concat c) x \<and> cs_length (cats m ! c) = length x) \<and>
     (cs_right (cats m ! c) = None \<longrightarrow> flat_of (cs_left (cats m ! c)) \<noteq> None)"

definition mem_ok :: "smem \<Rightarrow> bool" where
  "mem_ok m \<longleftrightarrow> list_all imp_ok (imps m) \<and> (\<forall>c<length (cats m). node_ok m c)"

definition extends :: "smem \<Rightarrow> smem \<Rightarrow> bool" where
  "extends m m' \<longleftrightarrow> (\<forall>s x. denotes m s x \<longrightarrow> denotes m' s x)"

text \<open>Only caches of imported strings changed.\<close>

definition same_text :: "smem \<Rightarrow> smem \<Rightarrow> bool" where
  "same_text m m' \<longleftrightarrow> cats m' = cats m \<and> map is_s (imps m') = map is_s (imps m)"

lemma denotes_det: "denotes m s x \<Longrightarrow> denotes m s y \<Longrightarrow> x = y"
proof (induction arbitrary: y rule: denotes.induct)
  case (node m c cs r x z)
  from node.prems node.hyps(1,2) obtain x' z' where "y = x' @ z'" "denotes m (cs_left cs) x'" "denotes m r z'"
    by (auto elim: denotes_ConcatE)
  then show ?case using node.IH by simp
next
  case (flat m c cs x)
  from flat.prems flat.hyps(1,2) have "denotes m (cs_left cs) y" by (auto elim: denotes_ConcatE)
  then show ?case using flat.IH by simp
qed auto

lemma extends_refl [simp]: "extends m m"
  by (simp add: extends_def)

lemma extends_trans: "extends a b \<Longrightarrow> extends b c \<Longrightarrow> extends a c"
  by (simp add: extends_def)

lemma extends_denotes: "extends m m' \<Longrightarrow> denotes m s x \<Longrightarrow> denotes m' s x"
  by (simp add: extends_def)

lemma same_text_imp_at: "same_text m m' \<Longrightarrow> imp_at m i = Some o' \<Longrightarrow> \<exists>p. imp_at m' i = Some p \<and> is_s p = is_s o'"
  unfolding same_text_def imp_at_def
  by (metis (no_types, lifting) length_map nth_map option.discI option.inject)

lemma same_text_cat_at: "same_text m m' \<Longrightarrow> cat_at m' c = cat_at m c"
  by (simp add: same_text_def cat_at_def)

lemma same_text_extends: "same_text m m' \<Longrightarrow> extends m m'"
  unfolding extends_def
proof (intro allI impI)
  fix s x assume "denotes m s x" "same_text m m'"
  then show "denotes m' s x"
  proof (induction rule: denotes.induct)
    case (imported m i o')
    then obtain p where "imp_at m' i = Some p" "is_s p = is_s o'" using same_text_imp_at by blast
    then show ?case using denotes.imported [of m' i p] by simp
  next
    case (node m c cs r x y)
    then have "cat_at m' c = Some cs" by (simp add: same_text_cat_at)
    then show ?case using node denotes.node by blast
  next
    case (flat m c cs x)
    then have "cat_at m' c = Some cs" by (simp add: same_text_cat_at)
    then show ?case using flat denotes.flat by blast
  qed (auto intro: denotes.intros)
qed

lemma same_text_refl [simp]: "same_text m m"
  by (simp add: same_text_def)

lemma same_text_trans: "same_text a b \<Longrightarrow> same_text b c \<Longrightarrow> same_text a c"
  by (simp add: same_text_def)

lemma node_okI:
  assumes "node_ok m c" "extends m m'" "cats m' ! c = cats m ! c"
  shows "node_ok m' c"
  using assms unfolding node_ok_def extends_def by auto

lemma same_text_mem_ok: "mem_ok m \<Longrightarrow> same_text m m' \<Longrightarrow> list_all imp_ok (imps m') \<Longrightarrow> mem_ok m'"
  using node_okI [OF _ same_text_extends [of m m']] by (auto simp: mem_ok_def same_text_def)

section \<open>Scanning\<close>

lemma ensureScanned_ok:
  assumes "mem_ok m" "imp_at m i = Some o'"
  obtains p m' where "ensureScanned m i = Some (p, m')" "is_s p = is_s o'" "is_u p = Scan (is_s o')"
    "utf8_valid (is_s o')" "same_text m m'" "mem_ok m'"
proof -
  have i: "i < length (imps m)" "o' = imps m ! i" using assms(2) by (auto simp: imp_at_def split: if_splits)
  have ok: "imp_ok o'" using assms(1) i by (simp add: mem_ok_def list_all_length)
  show ?thesis
  proof (cases "scanned o'")
    case True
    then show ?thesis using that [of o' m] assms ok by (simp add: ensureScanned_def imp_ok_def)
  next
    case False
    let ?m = "m\<lparr>imps := (imps m)[i := scan o']\<rparr>"
    have st: "same_text m ?m" using i by (simp add: same_text_def map_update scan_def list_update_same_conv)
    have "imp_ok (scan o')" using ok False by (simp add: imp_ok_def scan_def)
    then have "list_all imp_ok (imps ?m)"
      using assms(1) by (auto simp: mem_ok_def list_all_iff dest!: set_update_subset_insert [THEN subsetD])
    then have "mem_ok ?m" using same_text_mem_ok [OF assms(1) st] by simp
    then show ?thesis using that [of "scan o'" ?m] assms ok False st
      by (simp add: ensureScanned_def imp_ok_def scan_def)
  qed
qed

definition flat_ok :: "flat \<Rightarrow> ustr \<Rightarrow> bool" where
  "flat_ok f x = (case f of Inl a \<Rightarrow> is_ascii a \<and> x = map ucast a | Inr u \<Rightarrow> u = BOM # x \<and> \<not> ascii_units x)"

lemma flat_ok_simps [simp]:
  "flat_ok (Inl a) x \<longleftrightarrow> is_ascii a \<and> x = map ucast a" "flat_ok (Inr u) x \<longleftrightarrow> u = BOM # x \<and> \<not> ascii_units x"
  by (simp_all add: flat_ok_def)

lemma ascii_units_simps [simp]: "ascii_units []" "ascii_units (c # u) \<longleftrightarrow> unat c < 128 \<and> ascii_units u"
  "ascii_units (u @ v) \<longleftrightarrow> ascii_units u \<and> ascii_units v"
  by (simp_all add: ascii_units_def)

lemma ascii_units_map: "is_ascii a \<Longrightarrow> ascii_units (map ucast a)"
  by (induction a) (auto simp: unsigned_ucast_eq take_bit_eq_mod)

lemma utf16_units_ascii: "scalar r \<Longrightarrow> ascii_units (utf16_units r) \<longleftrightarrow> r < 128"
proof (cases "r \<le> 0xFFFF")
  case False
  assume "scalar r"
  then show ?thesis using False EncodeRune_surrogates [of r] by (simp add: utf16_units_def scalar_def)
qed (simp add: utf16_units_def unat_unit)

lemma ascii_units_concat: "\<forall>r\<in>set rs. scalar r \<Longrightarrow> ascii_units (concat (map utf16_units rs)) \<longleftrightarrow> (\<forall>r\<in>set rs. r < 128)"
  by (induction rs) (auto simp: utf16_units_ascii)

lemma runes_below_ascii: "utf8_valid s \<Longrightarrow> \<forall>r\<in>set (runes s). r < 128 \<Longrightarrow> is_ascii s"
proof -
  assume v: "utf8_valid s" and r: "\<forall>r\<in>set (runes s). r < 128"
  have "is_ascii (runes_string rs)" if "\<forall>r\<in>set rs. r < 128" for rs
    using that
    by (induction rs) (auto simp: runes_string_def utf8_rune_def Let_def isSurrogate_def unat_byte)
  then show ?thesis using v r unfolding utf8_valid_def by metis
qed

lemma ascii_units_units: "utf8_valid s \<Longrightarrow> ascii_units (units s) \<longleftrightarrow> is_ascii s"
  using runes_below_ascii [of s] ascii_units_concat [of "runes s"] runes_scalar [of _ s] ascii_units_map [of s]
    units_ascii [of s] by (auto simp: units_def)

text \<open>Even in an invalid string a byte outside ASCII becomes a code unit outside ASCII.\<close>

lemma DecodeRune_high: "128 \<le> unat b \<Longrightarrow> 128 \<le> fst (DecodeRune (b # bs))"
proof -
  assume b: "128 \<le> unat b"
  consider "\<not> between 0xC2 0xF4 b" | "between 0xC2 0xDF b" | "between 0xE0 0xEF b" | "between 0xF0 0xF4 b"
    unfolding between_def by linarith
  then show ?thesis
  proof cases
    case 1
    then show ?thesis using b by (auto simp: Let_def between_def)
  next
    case 2
    then show ?thesis using b by (cases bs) (auto simp: Let_def between_def)
  next
    case 3
    then show ?thesis using b
      by (cases bs rule: remdups_adj.cases) (simp_all add: Let_def between_def, linarith)
  next
    case 4
    consider "bs = []" | b1 where "bs = [b1]" | b1 b2 where "bs = [b1, b2]"
      | b1 b2 b3 ds where "bs = b1 # b2 # b3 # ds"
      by (metis list.exhaust)
    then show ?thesis using 4 b by cases (simp_all add: Let_def between_def, linarith)
  qed
qed

lemma runes_ascii_iff: "(\<forall>r\<in>set (runes s). r < 128) \<longleftrightarrow> is_ascii s"
proof (induction s rule: runes.induct)
  case (1 s)
  show ?case
  proof (cases s)
    case (Cons b t)
    show ?thesis
    proof (cases "unat b < 128")
      case True
      then have "runes s = unat b # runes t" using Cons by (subst runes.simps) (simp add: Let_def)
      moreover have "drop (snd (DecodeRune s)) s = t" using True Cons by (simp add: Let_def)
      ultimately show ?thesis using 1 True Cons by simp
    next
      case False
      have "128 \<le> fst (DecodeRune s)" unfolding Cons using DecodeRune_high [of b t] False by simp
      then show ?thesis using False Cons by (subst runes.simps) auto
    qed
  qed simp
qed

lemma ascii_units_units_iff: "ascii_units (units s) \<longleftrightarrow> is_ascii s"
  using ascii_units_concat [of "runes s"] runes_scalar [of _ s] runes_ascii_iff [of s] by (simp add: units_def)

lemma imp_flat_ok: "is_u p = Scan (is_s p) \<Longrightarrow> utf8_valid (is_s p) \<Longrightarrow> flat_ok (imp_flat p) (units (is_s p))"
  by (simp add: imp_flat_def Scan_correct ascii_units_units units_ascii)

lemma imported_flat:
  assumes "mem_ok m" "denotes m (Imported i) x"
  obtains p m' where "ensureScanned m i = Some (p, m')" "flat_ok (imp_flat p) x" "same_text m m'" "mem_ok m'"
    "is_s p = is_s (imps m ! i)" "is_u p = Scan (is_s p)"
proof -
  from assms(2) obtain o' where o: "imp_at m i = Some o'" "x = units (is_s o')" by auto
  then have "o' = imps m ! i" by (auto simp: imp_at_def split: if_splits)
  with ensureScanned_ok [OF assms(1) o(1)] imp_flat_ok o(2) that show ?thesis by metis
qed

lemma devirtualize_leaf_ok:
  assumes "mem_ok m" "denotes m s x" "\<forall>c. s \<noteq> Concat c"
  obtains f m' where "devirtualize_leaf m s = Some (f, m')" "flat_ok f x" "same_text m m'" "mem_ok m'"
proof (cases s)
  case (Imported i)
  with imported_flat [of m i x] assms that show ?thesis by (fastforce simp: devirtualize_leaf_def)
qed (use assms that in \<open>auto simp: devirtualize_leaf_def\<close>)

section \<open>The builder\<close>

definition ub_ok :: "unicodeStringBuilder \<Rightarrow> ustr \<Rightarrow> bool" where
  "ub_ok b x \<longleftrightarrow> ub_buf b = BOM # x \<and> (ub_unicode b \<longleftrightarrow> \<not> ascii_units x)"

text \<open>\<open>sb_ok b x\<close>: the builder is consistent and holds the text \<open>x\<close>.\<close>

definition sb_ok :: "StringBuilder \<Rightarrow> ustr \<Rightarrow> bool" where
  "sb_ok b x \<longleftrightarrow>
     (if sb_ascii b then is_ascii (asciiBuilder b) \<and> x = map ucast (asciiBuilder b) \<and> \<not> ub_unicode (unicodeBuilder b)
      else ub_ok (unicodeBuilder b) x)"

lemma emptyBuilder_ok: "sb_ok emptyBuilder []"
  by (simp add: sb_ok_def sb_ascii_def emptyBuilder_def)

lemma map_of_nat_runes_ascii: "is_ascii a \<Longrightarrow> map of_nat (runes a) = map ucast a"
  by (simp add: runes_ascii unsigned_ucast_eq)

lemma writeASCIIString_ok: "ub_ok b x \<Longrightarrow> is_ascii a \<Longrightarrow> ub_ok (writeASCIIString b a) (x @ map ucast a)"
  by (simp add: ub_ok_def writeASCIIString_def map_of_nat_runes_ascii ascii_units_map)

lemma writeRuneFast_ok: "ub_ok b x \<Longrightarrow> scalar r \<Longrightarrow> ub_ok (writeRuneFast b r) (x @ utf16_units r)"
  using utf16_units_ascii [of r] by (auto simp: ub_ok_def writeRuneFast_def utf16_units_def)

lemma foldl_writeRuneFast_ok:
  "ub_ok b x \<Longrightarrow> \<forall>r\<in>set rs. scalar r \<Longrightarrow> ub_ok (foldl writeRuneFast b rs) (x @ concat (map utf16_units rs))"
proof (induction rs arbitrary: b x)
  case (Cons r rs)
  then show ?case using writeRuneFast_ok [of b x r] by fastforce
qed simp

lemma switchToUnicode_ok:
  assumes "sb_ok b x"
  shows "\<not> sb_ascii (switchToUnicode b)" "ub_ok (unicodeBuilder (switchToUnicode b)) x"
proof -
  have "ub_ok (ub_Grow (unicodeBuilder b)) []" if "sb_ascii b"
    using assms that by (simp add: sb_ok_def ub_ok_def ub_Grow_def sb_ascii_def)
  then have "ub_ok (unicodeBuilder (switchToUnicode b)) x"
    using assms writeASCIIString_ok [of "ub_Grow (unicodeBuilder b)" "[]" "asciiBuilder b"]
    by (auto simp: switchToUnicode_def sb_ok_def split: if_splits)
  then show "\<not> sb_ascii (switchToUnicode b)" "ub_ok (unicodeBuilder (switchToUnicode b)) x"
    by (simp_all add: sb_ascii_def ub_ok_def)
qed

lemma sb_okI: "\<not> sb_ascii b \<Longrightarrow> ub_ok u y \<Longrightarrow> sb_ok (b\<lparr>unicodeBuilder := u\<rparr>) y"
  by (auto simp: sb_ok_def sb_ascii_def ub_ok_def)

lemma LikelyUnicode_ok: "sb_ok b x \<Longrightarrow> sb_ok (LikelyUnicode b) x"
  using switchToUnicode_ok [of b x] by (simp add: LikelyUnicode_def sb_ok_def)

lemma sb_Grow_ok: "sb_ok b x \<Longrightarrow> sb_ok (sb_Grow b) x"
  by (auto simp: sb_Grow_def ub_Grow_def sb_ascii_def)

lemma sb_writeASCII_ok: "sb_ok b x \<Longrightarrow> is_ascii a \<Longrightarrow> sb_ok (sb_writeASCII b a) (x @ map ucast a)"
  using writeASCIIString_ok [of "unicodeBuilder b" x a]
  by (auto simp: sb_ok_def sb_writeASCII_def sb_ascii_def writeASCIIString_def split: if_splits)

lemma sb_writeFlat_ok:
  assumes "sb_ok b x" "flat_ok f y"
  shows "sb_ok (sb_writeFlat b f) (x @ y)"
proof (cases f)
  case (Inl a)
  then show ?thesis using assms sb_writeASCII_ok by (simp add: sb_writeFlat_def)
next
  case (Inr u)
  then have "ub_ok (writeUnicodeString (unicodeBuilder (switchToUnicode b)) u) (x @ y)"
    using assms switchToUnicode_ok(2) [OF assms(1)] by (auto simp: ub_ok_def writeUnicodeString_def)
  then show ?thesis using sb_okI [OF switchToUnicode_ok(1) [OF assms(1)]] Inr
    by (simp add: sb_writeFlat_def Let_def)
qed

lemma sb_WriteRune_ok:
  assumes "sb_ok b x" "scalar r"
  shows "sb_ok (sb_WriteRune b r) (x @ utf16_units r)"
proof (cases "r < 128 \<and> sb_ascii b")
  case True
  then have "ucast (byte_of r) = (of_nat r :: 16 word)"
    by (simp add: byte_of_def unsigned_ucast_eq take_bit_eq_mod word_eq_iff_unsigned unsigned_of_nat)
  then show ?thesis using True assms
    by (simp add: sb_WriteRune_def sb_ok_def utf16_units_def unat_byte sb_ascii_def)
next
  case False
  let ?b = "if r < 128 then b else switchToUnicode b"
  have "\<not> sb_ascii ?b" "ub_ok (unicodeBuilder ?b) x"
    using False assms switchToUnicode_ok [OF assms(1)] by (auto simp: sb_ok_def)
  then show ?thesis using False sb_okI [OF _ writeRuneFast_ok [OF _ assms(2)], of ?b _ x]
    by (auto simp: sb_WriteRune_def Let_def)
qed

lemma WriteUTF8String_ok:
  assumes "sb_ok b x"
  shows "sb_ok (WriteUTF8String b s) (x @ units s)"
proof (cases "sb_ascii b \<and> scan_prefix s = length s")
  case True
  then have "is_ascii s" by (simp add: is_ascii_prefix)
  then show ?thesis using True assms sb_writeASCII_ok [of b x s]
    by (simp add: WriteUTF8String_def units_ascii sb_writeASCII_def)
next
  case False
  have rs: "\<forall>r\<in>set (runes t). scalar r" for t using runes_scalar by blast
  show ?thesis
  proof (cases "sb_ascii b")
    case True
    let ?i = "scan_prefix s" and ?b = "switchToUnicode b"
    have "ub_ok (writeASCIIString (unicodeBuilder ?b) (take ?i s)) (x @ map ucast (take ?i s))"
      using writeASCIIString_ok [OF switchToUnicode_ok(2) [OF assms] scan_prefix_ascii] .
    moreover have eq: "units s = map ucast (take ?i s) @ units (drop ?i s)"
      using units_append [OF utf8_valid_ascii [OF scan_prefix_ascii], of s "drop ?i s"]
      by (simp add: units_ascii [OF scan_prefix_ascii])
    ultimately have "ub_ok (foldl writeRuneFast (writeASCIIString (unicodeBuilder ?b) (take ?i s)) (runes (drop ?i s))) (x @ units s)"
      using foldl_writeRuneFast_ok [OF _ rs, of _ "x @ map ucast (take ?i s)" "drop ?i s"]
      by (simp add: units_def [of "drop ?i s"])
    then show ?thesis using True False sb_okI [OF switchToUnicode_ok(1) [OF assms]]
      by (simp add: WriteUTF8String_def Let_def)
  next
    case unicode: False
    then have "ub_ok (unicodeBuilder b) x" using assms by (simp add: sb_ok_def)
    from foldl_writeRuneFast_ok [OF this rs, of s] show ?thesis
      using unicode sb_okI [OF unicode] by (simp add: WriteUTF8String_def Let_def units_def)
  qed
qed

lemma map_ucast_ascii_units:
  "ascii_units u \<Longrightarrow> is_ascii (map ucast u) \<and> map (ucast :: byte \<Rightarrow> 16 word) (map ucast u) = u"
proof (induction u)
  case (Cons c u)
  then have c: "unat c < 128" by simp
  then have u: "unat (ucast c :: byte) = unat c" by (simp add: unsigned_ucast_eq take_bit_nat_eq_self)
  moreover have "ucast (ucast c :: byte) = c"
    using u unit_bound [of c] by (simp add: word_unat_eq_iff unsigned_ucast_eq unsigned_take_bit_eq)
  ultimately show ?case using Cons c by simp
qed simp

text \<open>The text of a consistent builder is a canonical string.\<close>

lemma sb_String_denotes:
  assumes "sb_ok b x"
  shows "denotes m (sb_String b) x" "flat_of (sb_String b) \<noteq> None"
proof -
  show "denotes m (sb_String b) x"
  proof (cases "sb_ascii b \<or> ub_unicode (unicodeBuilder b)")
    case True
    then show ?thesis using assms by (auto simp: sb_String_def sb_ok_def ub_String_def ub_ok_def)
  next
    case False
    then have "ub_buf (unicodeBuilder b) = BOM # x" "ascii_units x" using assms by (auto simp: sb_ok_def ub_ok_def)
    then show ?thesis using False map_ucast_ascii_units [of x]
      by (cases x) (auto simp: sb_String_def ub_String_def)
  qed
  show "flat_of (sb_String b) \<noteq> None" by (simp add: sb_String_def ub_String_def flat_of_def)
qed

section \<open>Flattening returns and keeps every text\<close>

lemma write_leaf_ok:
  assumes "mem_ok m" "denotes m s x" "\<forall>c. s \<noteq> Concat c" "sb_ok sb y"
  obtains sb' m' u' where "write_leaf m s grew u sb = Some (sb', m', u')" "sb_ok sb' (y @ x)" "same_text m m'" "mem_ok m'"
proof -
  obtain f m' where d: "devirtualize_leaf m s = Some (f, m')" "flat_ok f x" "same_text m m'" "mem_ok m'"
    using devirtualize_leaf_ok [OF assms(1-3)] .
  show ?thesis
    using d assms(4) that LikelyUnicode_ok [OF assms(4)] sb_Grow_ok [OF assms(4)]
    by (auto simp: write_leaf_def Let_def sb_writeFlat_ok)
qed

lemma writeTo_loop_pop:
  "\<forall>c. s \<noteq> Concat c \<Longrightarrow> writeTo_loop m (s # st) grew u sb =
     (case write_leaf m s grew u sb of None \<Rightarrow> None | Some (sb, m, u) \<Rightarrow> writeTo_loop m st True u sb)"
  "cat_at m c = Some cs \<Longrightarrow> cs_right cs = None \<Longrightarrow> writeTo_loop m (Concat c # st) grew u sb =
     (case write_leaf m (cs_left cs) grew u sb of None \<Rightarrow> None | Some (sb, m, u) \<Rightarrow> writeTo_loop m st True u sb)"
  by (subst writeTo_loop.simps, simp split: jstr.split)+

lemma writeTo_loop_leaf:
  assumes "denotes m s x" "\<forall>c. s \<noteq> Concat c" "same_text m0 m" "mem_ok m" "sb_ok sb y"
  shows "\<exists>sb' m' grew' u'. writeTo_loop m (s # st) grew u sb = writeTo_loop m' st grew' u' sb' \<and>
           sb_ok sb' (y @ x) \<and> same_text m0 m' \<and> mem_ok m'"
proof -
  from write_leaf_ok [OF assms(4,1,2,5)] obtain sb' m' u' where
    w: "write_leaf m s grew u sb = Some (sb', m', u')" "sb_ok sb' (y @ x)" "same_text m m'" "mem_ok m'" .
  have "writeTo_loop m (s # st) grew u sb = writeTo_loop m' st True u' sb'"
    by (simp add: writeTo_loop_pop(1) [OF assms(2)] w(1))
  then show ?thesis using w same_text_trans [OF assms(3)] by blast
qed

text \<open>
  The loop pops a string, writes its text and goes on with the rest of the stack. The induction is on the
  derivation of the text, which is what bounds the number of iterations.
\<close>

lemma writeTo_loop_step:
  assumes "denotes m0 s x" "same_text m0 m" "mem_ok m" "sb_ok sb y"
  shows "\<exists>sb' m' grew' u'. writeTo_loop m (s # st) grew u sb = writeTo_loop m' st grew' u' sb' \<and>
           sb_ok sb' (y @ x) \<and> same_text m0 m' \<and> mem_ok m'"
  using assms
proof (induction arbitrary: m st grew u sb y rule: denotes.induct)
  case (node m0 c cs r x1 x2)
  let ?u = "if \<not> grew \<and> \<not> u then is_unicodeString r else u"
  have "writeTo_loop m (Concat c # st) grew u sb = writeTo_loop m (cs_left cs # r # st) grew ?u sb"
    using node(1,2) same_text_cat_at [OF node(7)] by (subst writeTo_loop.simps) simp
  moreover obtain sb1 m1 g1 u1 where 1: "writeTo_loop m (cs_left cs # r # st) grew ?u sb = writeTo_loop m1 (r # st) g1 u1 sb1"
    "sb_ok sb1 (y @ x1)" "same_text m0 m1" "mem_ok m1"
    using node(5) [OF node(7-9), of "r # st" grew ?u] by blast
  moreover obtain sb2 m2 g2 u2 where "writeTo_loop m1 (r # st) g1 u1 sb1 = writeTo_loop m2 st g2 u2 sb2"
    "sb_ok sb2 ((y @ x1) @ x2)" "same_text m0 m2" "mem_ok m2"
    using node(6) [OF 1(3,4,2), of st g1 u1] by blast
  ultimately show ?case by auto
next
  case (flat m0 c cs x)
  have cs: "cat_at m c = Some cs" using flat(1) same_text_cat_at [OF flat(5)] by simp
  have "node_ok m c" using cs flat(6) by (auto simp: mem_ok_def cat_at_def split: if_splits)
  then have "flat_of (cs_left cs) \<noteq> None" using cs flat(2) by (auto simp: node_ok_def cat_at_def split: if_splits)
  then have nc: "\<forall>c. cs_left cs \<noteq> Concat c" by (auto simp: flat_of_def)
  have "denotes m (cs_left cs) x" using extends_denotes [OF same_text_extends [OF flat(5)] flat(3)] .
  moreover have "writeTo_loop m (Concat c # st) grew u sb = writeTo_loop m (cs_left cs # st) grew u sb"
    by (simp add: writeTo_loop_pop(1) [OF nc] writeTo_loop_pop(2) [OF cs flat(2)])
  ultimately show ?case using writeTo_loop_leaf [OF _ nc flat(5,6,7)] by simp
next
  case (ascii a m0)
  then show ?case using writeTo_loop_leaf [OF _ _ ascii(2,3,4), of "Ascii a" "map ucast a"] by simp
next
  case (unicode v m0)
  then show ?case using writeTo_loop_leaf [OF _ _ unicode(2,3,4), of "Unicode (BOM # v)" v] by simp
next
  case (imported m0 i o')
  have "denotes m (Imported i) (units (is_s o'))"
    using extends_denotes [OF same_text_extends [OF imported(2)] denotes.imported [OF imported(1)]] .
  then show ?case using writeTo_loop_leaf [OF _ _ imported(2,3,4)] by simp
qed

text \<open>Replacing a node by a string of the same text changes no text.\<close>

lemma replace_node_extends:
  assumes "\<And>y. denotes m (Concat c) y \<Longrightarrow> y = x" "denotes (m\<lparr>cats := (cats m)[c := cs]\<rparr>) (Concat c) x"
  shows "extends m (m\<lparr>cats := (cats m)[c := cs]\<rparr>)"
  unfolding extends_def
proof (intro allI impI)
  let ?m = "m\<lparr>cats := (cats m)[c := cs]\<rparr>"
  fix s y assume "denotes m s y"
  then have "denotes m s y \<and> denotes ?m s y"
    using assms
  proof (induction m s y rule: denotes.induct)
    case (imported m i o')
    then show ?case by (auto simp: imp_at_def split: if_splits)
  next
    case (node m d ds r y z)
    have d: "denotes m (Concat d) (y @ z)" using node.hyps denotes.node by blast
    show ?case
    proof (cases "d = c")
      case False
      then have "cat_at (m\<lparr>cats := (cats m)[c := cs]\<rparr>) d = Some ds" using node(1) by (simp add: at_Some)
      then show ?thesis using d node denotes.node by blast
    qed (use d node in blast)
  next
    case (flat m d ds y)
    have d: "denotes m (Concat d) y" using flat.hyps denotes.flat by blast
    show ?case
    proof (cases "d = c")
      case False
      then have "cat_at (m\<lparr>cats := (cats m)[c := cs]\<rparr>) d = Some ds" using flat(1) by (simp add: at_Some)
      then show ?thesis using d flat denotes.flat by blast
    qed (use d flat in blast)
  qed auto
  then show "denotes ?m s y" by blast
qed

lemma flatten_ok:
  assumes "mem_ok m" "denotes m (Concat c) x"
  obtains s m' where "flatten m c = Some (s, m')" "denotes m' s x" "flat_of s \<noteq> None" "extends m m'" "mem_ok m'"
proof -
  from assms(2) obtain cs where cs: "cat_at m c = Some cs" by (auto elim: denotes_ConcatE)
  then have c: "c < length (cats m)" "cats m ! c = cs" by (auto simp: cat_at_def split: if_splits)
  have nok: "node_ok m c" using assms(1) c by (simp add: mem_ok_def)
  show ?thesis
  proof (cases "cs_right cs")
    case None
    then have "denotes m (cs_left cs) x" using assms(2) cs by (auto elim: denotes_ConcatE)
    then show ?thesis using that [of "cs_left cs" m] None cs c nok assms(1)
      by (auto simp: flatten_def node_ok_def)
  next
    case (Some r)
    with assms(2) cs obtain x1 x2 where x: "x = x1 @ x2" "denotes m (cs_left cs) x1" "denotes m r x2"
      by (auto elim: denotes_ConcatE)
    obtain sb1 m1 g1 u1 where 1: "writeTo m (cs_left cs) r = writeTo_loop m1 [r] g1 u1 sb1"
      "sb_ok sb1 ([] @ x1)" "same_text m m1" "mem_ok m1"
      using writeTo_loop_step [OF x(2) same_text_refl assms(1) emptyBuilder_ok] unfolding writeTo_def by metis
    obtain sb2 m2 g2 u2 where 2: "writeTo_loop m1 [r] g1 u1 sb1 = writeTo_loop m2 [] g2 u2 sb2"
      "sb_ok sb2 (([] @ x1) @ x2)" "same_text m m2" "mem_ok m2"
      using writeTo_loop_step [OF x(3) 1(3,4,2)] by blast
    have w: "writeTo m (cs_left cs) r = Some (sb2, m2)"
      using 1(1) 2(1) by (simp add: writeTo_loop.simps [of m2 "[]"])
    let ?f = "sb_String sb2" and ?cs = "cs\<lparr>cs_left := sb_String sb2, cs_right := None\<rparr>"
    let ?m = "m2\<lparr>cats := (cats m2)[c := ?cs]\<rparr>"
    have c2: "c < length (cats m2)" "cat_at ?m c = Some ?cs"
      using c 2(3) by (auto simp: same_text_def cat_at_def)
    have fx: "denotes ?m ?f x" using sb_String_denotes(1) [OF 2(2)] x(1) by simp
    have cx: "denotes ?m (Concat c) x" using denotes.flat [OF c2(2)] fx by simp
    have cx2: "denotes m2 (Concat c) y \<Longrightarrow> y = x" for y
      using denotes_det extends_denotes [OF same_text_extends [OF 2(3)] assms(2)] by blast
    have ext2: "extends m2 ?m" using replace_node_extends [OF cx2 cx] by blast
    then have ext: "extends m ?m" using extends_trans [OF same_text_extends [OF 2(3)]] by blast
    have "node_ok ?m d" if "d < length (cats m)" for d
    proof (cases "d = c")
      case True
      have "cs_length cs = length x" using nok c assms(2) denotes_det unfolding node_ok_def by metis
      then show ?thesis using True cx c2 sb_String_denotes(2) [OF 2(2)] by (auto simp: node_ok_def)
    next
      case False
      then have "cats ?m ! d = cats m2 ! d" by simp
      then show ?thesis using node_okI [OF _ ext2] 2(3,4) that by (simp add: mem_ok_def same_text_def)
    qed
    then have "mem_ok ?m" using 2(3,4) by (simp add: mem_ok_def same_text_def)
    then show ?thesis using that [of ?f ?m] fx ext sb_String_denotes(2) [OF 2(2)] w cs Some
      by (simp add: flatten_def Let_def)
  qed
qed

section \<open>The methods compute on the text\<close>

lemma flat_of_ok: "flat_of s = Some f \<Longrightarrow> denotes m s x \<Longrightarrow> flat_ok f x"
  by (auto simp: flat_of_def split: jstr.splits)

lemma flattened_ok:
  assumes "mem_ok m" "denotes m (Concat c) x"
  obtains f m' where "flattened m c = Some (f, m')" "flat_ok f x" "extends m m'" "mem_ok m'"
proof -
  obtain s m' where f: "flatten m c = Some (s, m')" "denotes m' s x" "flat_of s \<noteq> None" "extends m m'" "mem_ok m'"
    using flatten_ok [OF assms] .
  then obtain g where "flat_of s = Some g" by auto
  then show ?thesis using that [of g m'] f flat_of_ok by (simp add: flattened_def)
qed

lemma receiver_ok:
  assumes "mem_ok m" "denotes m s x"
  obtains f m' where "receiver m s = Some (f, m')" "flat_ok f x" "extends m m'" "mem_ok m'"
proof (cases s)
  case (Imported i)
  with assms obtain p m' where "ensureScanned m i = Some (p, m')" "flat_ok (imp_flat p) x" "same_text m m'" "mem_ok m'"
    using imported_flat [of m i x] by metis
  then show ?thesis using that Imported same_text_extends by (simp add: receiver_def)
next
  case (Concat c)
  then show ?thesis using that assms flattened_ok [of m c x] by (auto simp: receiver_def)
qed (use assms that in \<open>auto simp: receiver_def\<close>)

lemma devirtualizeString_ok:
  assumes "mem_ok m" "denotes m s x"
  obtains f m' where "devirtualizeString m s = Some (f, m')" "flat_ok f x" "extends m m'" "mem_ok m'"
proof (cases "\<exists>c. s = Concat c")
  case True
  then obtain c where c: "s = Concat c" by blast
  then obtain r m' where f: "flatten m c = Some (r, m')" "denotes m' r x" "flat_of r \<noteq> None" "extends m m'" "mem_ok m'"
    using flatten_ok assms by metis
  then have "\<forall>c. r \<noteq> Concat c" by (auto simp: flat_of_def)
  then obtain g m2 where "devirtualize_leaf m' r = Some (g, m2)" "flat_ok g x" "same_text m' m2" "mem_ok m2"
    using devirtualize_leaf_ok [OF f(5,2)] by blast
  then show ?thesis using that [of g m2] f c extends_trans [OF f(4) same_text_extends]
    by (simp add: devirtualizeString_def)
next
  case False
  then obtain f m' where "devirtualize_leaf m s = Some (f, m')" "flat_ok f x" "same_text m m'" "mem_ok m'"
    using devirtualize_leaf_ok [OF assms] by blast
  then show ?thesis using that [of f m'] False same_text_extends
    by (cases s) (simp_all add: devirtualizeString_def)
qed

lemma flat_ok_length: "flat_ok f x \<Longrightarrow> flat_Length f = length x"
  by (cases f) (auto simp: flat_Length_def)

lemma flat_ok_units: "flat_ok f x \<Longrightarrow> flat_units f = x"
  by (cases f) (auto simp: flat_units_def)

lemma flat_CharAt_ok: "flat_ok f x \<Longrightarrow> flat_CharAt f idx = go_index x idx"
  by (cases f) (auto simp: flat_CharAt_def go_index_def)

lemma list_ex_ascii: "list_ex (\<lambda>c. RuneSelf \<le> unat c) u \<longleftrightarrow> \<not> ascii_units u"
  by (induction u) auto

lemma flat_Substring_ok:
  assumes "flat_ok f x" "i \<le> j" "j \<le> length x"
  shows "\<exists>s. flat_Substring f i j = Some s \<and> (\<forall>m. denotes m s (take (j - i) (drop i x)))"
proof (cases f)
  case (Inl a)
  then have "is_ascii (take (j - i) (drop i a))"
    using assms by (auto simp: is_ascii_def list_all_iff dest!: in_set_takeD in_set_dropD)
  then show ?thesis using Inl assms
    by (auto simp: flat_Substring_def go_slice_def take_map [symmetric] drop_map [symmetric])
next
  case (Inr u)
  then show ?thesis using assms map_ucast_ascii_units [of "take (j - i) (drop i x)"]
    by (auto simp: flat_Substring_def go_slice_def list_ex_ascii)
qed

lemma cs_length_ok:
  assumes "mem_ok m" "denotes m (Concat c) x"
  obtains cs where "cat_at m c = Some cs" "cs_length cs = length x"
proof -
  from assms(2) obtain cs where c: "cat_at m c = Some cs" by (auto elim: denotes_ConcatE)
  then have "node_ok m c" "cats m ! c = cs" using assms(1) by (auto simp: at_Some mem_ok_def)
  then have "cs_length cs = length x" using denotes_det [OF assms(2)] unfolding node_ok_def by metis
  then show ?thesis using that c by blast
qed

lemma Length_ok:
  assumes "mem_ok m" "denotes m s x"
  obtains m' where "Length m s = Some (length x, m')" "extends m m'" "mem_ok m'"
proof (cases "\<exists>c. s = Concat c")
  case True
  then obtain c where c: "s = Concat c" by blast
  then obtain cs where "cat_at m c = Some cs" "cs_length cs = length x" using cs_length_ok assms by metis
  then show ?thesis using that [of m] c assms(1) by (simp add: Length_def)
next
  case False
  obtain f m' where "receiver m s = Some (f, m')" "flat_ok f x" "extends m m'" "mem_ok m'"
    using receiver_ok [OF assms] .
  then show ?thesis using that False flat_ok_length by (cases s) (simp_all add: Length_def)
qed

text \<open>
  \<open>yields m x r\<close>: the operation that started in \<open>m\<close> returned a string of text \<open>x\<close>; \<open>returns m v r\<close>: it returned
  \<open>v\<close>. Either way the memory is well formed and every string keeps its text.
\<close>

definition yields :: "smem \<Rightarrow> ustr \<Rightarrow> (jstr \<times> smem) option \<Rightarrow> bool" where
  "yields m x r \<longleftrightarrow> (\<exists>s m'. r = Some (s, m') \<and> denotes m' s x \<and> extends m m' \<and> mem_ok m')"

definition returns :: "smem \<Rightarrow> 'a \<Rightarrow> ('a \<times> smem) option \<Rightarrow> bool" where
  "returns m v r \<longleftrightarrow> (\<exists>m'. r = Some (v, m') \<and> extends m m' \<and> mem_ok m')"

lemma yields_Some [simp]: "yields m x (Some (s, m')) \<longleftrightarrow> denotes m' s x \<and> extends m m' \<and> mem_ok m'"
  by (auto simp: yields_def)

lemma returns_Some [simp]: "returns m v (Some (w, m')) \<longleftrightarrow> w = v \<and> extends m m' \<and> mem_ok m'"
  by (auto simp: returns_def)


lemma returns_trans: "extends m0 m \<Longrightarrow> returns m v r \<Longrightarrow> returns m0 v r"
  by (auto simp: returns_def intro: extends_trans)









subsection \<open>Equality and keys\<close>

lemma inj_widen: "inj (ucast :: byte \<Rightarrow> 16 word)"
proof (rule injI)
  fix a b :: byte
  assume "(ucast a :: 16 word) = ucast b"
  then have "unat (ucast a :: 16 word) = unat (ucast b :: 16 word)" by simp
  moreover have "unat c < 2 ^ 16" for c :: byte using unsigned_less [of c, where ?'a = nat] by simp
  ultimately show "a = b" by (simp add: unsigned_ucast_eq take_bit_nat_eq_self word_unat_eq_iff)
qed

lemma flat_ok_inj: "flat_ok f x \<Longrightarrow> flat_ok g y \<Longrightarrow> f = g \<longleftrightarrow> x = y"
  using ascii_units_map by (cases f; cases g) (auto simp: inj_map_eq_map [OF inj_widen])

lemma unicode_equals_iff [simp]: "unicode_equals s t \<longleftrightarrow> s = t"
  by (auto simp: unicode_equals_def list_all_iff intro: nth_equalityI)

lemma imp_units_ascii:
  assumes "imp_ok o'" "is_ascii s"
  shows "is_u o' = None \<and> is_s o' = s \<longleftrightarrow> units (is_s o') = map ucast s"
  using assms units_inj [of "is_s o'" s] utf8_valid_ascii [OF assms(2)] units_ascii [OF assms(2)]
  by (auto simp: imp_ok_def Scan_correct split: if_splits)

lemma imp_ok_at: "mem_ok m \<Longrightarrow> imp_at m i = Some o' \<Longrightarrow> imp_ok o'"
  by (auto simp: mem_ok_def list_all_length at_Some)

lemma ascii_StrictEquals_ok:
  assumes "mem_ok m" "is_ascii a" "denotes m t y"
  shows "returns m (map ucast a = y) (ascii_StrictEquals m a t)"
proof (cases t)
  case (Imported i)
  with assms(3) obtain o' where o: "imp_at m i = Some o'" "y = units (is_s o')" by auto
  then show ?thesis using imp_units_ascii [OF imp_ok_at [OF assms(1) o(1)] assms(2)] assms(1) Imported
    by (auto simp: ascii_StrictEquals_def)
next
  case (Concat c)
  then obtain f m' where "flattened m c = Some (f, m')" "flat_ok f y" "extends m m'" "mem_ok m'"
    using flattened_ok assms by metis
  then show ?thesis using Concat flat_ok_inj [of f y "Inl a" "map ucast a"] assms(2)
    by (auto simp: ascii_StrictEquals_def)
qed (use assms ascii_units_map in \<open>auto simp: ascii_StrictEquals_def inj_map_eq_map [OF inj_widen]\<close>)

lemma unicode_StrictEquals_ok:
  assumes "mem_ok m" "\<not> ascii_units x" "denotes m t y"
  shows "returns m (x = y) (unicode_StrictEquals m (BOM # x) t)"
proof (cases t)
  case (Imported i)
  with assms obtain p m' where p: "ensureScanned m i = Some (p, m')" "flat_ok (imp_flat p) y" "same_text m m'" "mem_ok m'"
    using imported_flat by metis
  then show ?thesis using Imported assms(2) same_text_extends [OF p(3)] ascii_units_map
    by (auto simp: unicode_StrictEquals_def imp_flat_def split: option.splits)
next
  case (Concat c)
  then obtain f m' where "flattened m c = Some (f, m')" "flat_ok f y" "extends m m'" "mem_ok m'"
    using flattened_ok assms by metis
  then show ?thesis using Concat assms(2) ascii_units_map
    by (cases f) (auto simp: unicode_StrictEquals_def)
qed (use assms ascii_units_map in \<open>auto simp: unicode_StrictEquals_def\<close>)

lemma flat_StrictEquals_ok:
  "mem_ok m \<Longrightarrow> flat_ok f x \<Longrightarrow> denotes m t y \<Longrightarrow> returns m (x = y) (flat_StrictEquals m f t)"
  using ascii_StrictEquals_ok unicode_StrictEquals_ok by (cases f) (auto simp: flat_StrictEquals_def)

lemma imported_StrictEquals_leaf_ok:
  assumes "mem_ok m" "denotes m (Imported i) x" "denotes m t y" "\<forall>c. t \<noteq> Concat c"
  shows "returns m (x = y) (imported_StrictEquals_leaf m i t)"
proof -
  from assms(2) obtain o' where o: "imp_at m i = Some o'" "x = units (is_s o')" by auto
  note ok = imp_ok_at [OF assms(1) o(1)]
  show ?thesis
  proof (cases t)
    case (Ascii s)
    then show ?thesis using o ok assms imp_units_ascii [OF ok, of s] by (auto simp: imported_StrictEquals_leaf_def)
  next
    case (Unicode u)
    obtain p m' where p: "ensureScanned m i = Some (p, m')" "flat_ok (imp_flat p) x" "same_text m m'" "mem_ok m'"
      using imported_flat [OF assms(1,2)] .
    then show ?thesis using Unicode assms(3) same_text_extends [OF p(3)] ascii_units_map o
      by (auto simp: imported_StrictEquals_leaf_def imp_flat_def split: option.splits)
  next
    case (Imported j)
    with assms(3) obtain v where v: "imp_at m j = Some v" "y = units (is_s v)" by auto
    then show ?thesis using Imported o ok imp_ok_at [OF assms(1) v(1)] assms(1) units_inj [of "is_s o'" "is_s v"]
      by (auto simp: imported_StrictEquals_leaf_def imp_ok_def)
  qed (use assms in auto)
qed

lemma imported_StrictEquals_ok:
  assumes "mem_ok m" "denotes m (Imported i) x" "denotes m t y"
  shows "returns m (x = y) (imported_StrictEquals m i t)"
proof (cases "\<exists>c. t = Concat c")
  case True
  then obtain c where c: "t = Concat c" by blast
  then obtain s m' where f: "flatten m c = Some (s, m')" "denotes m' s y" "flat_of s \<noteq> None" "extends m m'" "mem_ok m'"
    using flatten_ok assms by metis
  then have "\<forall>c. s \<noteq> Concat c" by (auto simp: flat_of_def)
  then have "returns m' (x = y) (imported_StrictEquals_leaf m' i s)"
    using imported_StrictEquals_leaf_ok f extends_denotes [OF f(4) assms(2)] by blast
  then show ?thesis using returns_trans [OF f(4)] f(1) c by (simp add: imported_StrictEquals_def)
next
  case False
  then show ?thesis using imported_StrictEquals_leaf_ok [OF assms]
    by (cases t) (auto simp: imported_StrictEquals_def)
qed

lemma str_StrictEquals_ok:
  assumes "mem_ok m" "denotes m s x" "denotes m t y"
  shows "returns m (x = y) (str_StrictEquals m s t)"
proof (cases s)
  case (Concat c)
  show ?thesis
  proof (cases "t = Concat c")
    case True
    then show ?thesis using Concat assms denotes_det by (auto simp: str_StrictEquals_def)
  next
    case False
    obtain f m' where f: "flattened m c = Some (f, m')" "flat_ok f x" "extends m m'" "mem_ok m'"
      using flattened_ok [OF assms(1)] assms(2) Concat by metis
    then show ?thesis
      using Concat False flat_StrictEquals_ok [OF f(4,2) extends_denotes [OF f(3) assms(3)]] returns_trans [OF f(3)]
      by (simp add: str_StrictEquals_def)
  qed
next
  case (Ascii a)
  then show ?thesis using ascii_StrictEquals_ok [OF assms(1) _ assms(3)] assms(2) by (auto simp: str_StrictEquals_def)
next
  case (Unicode u)
  then show ?thesis using unicode_StrictEquals_ok [OF assms(1) _ assms(3)] assms(2) by (auto simp: str_StrictEquals_def)
next
  case (Imported i)
  then show ?thesis using imported_StrictEquals_ok [OF assms(1) _ assms(3)] assms(2) by (auto simp: str_StrictEquals_def)
qed

text \<open>The key of a text: its bytes if it is ASCII, the marked code units otherwise.\<close>

definition key_of :: "ustr \<Rightarrow> gostring" where
  "key_of x = (if ascii_units x then map ucast x else FromUtf16 (BOM # x))"

lemma flat_ok_key: "flat_ok f x \<Longrightarrow> flat_string f = key_of x"
proof (cases f)
  case (Inl a)
  assume "flat_ok f x"
  then have "is_ascii a" "x = map ucast a" using Inl by auto
  moreover have "map ucast (map ucast a :: ustr) = a"
    using map_ucast_ascii_units [OF ascii_units_map [of a]] \<open>is_ascii a\<close> inj_map_eq_map [OF inj_widen] by metis
  ultimately show ?thesis using Inl ascii_units_map [of a] by (simp add: flat_string_def key_of_def)
qed (simp add: flat_string_def key_of_def)

lemma stringValueFromRaw_key: "denotes m (stringValueFromRaw (key_of x)) x"
proof (cases "ascii_units x")
  case True
  then show ?thesis using map_ucast_ascii_units [OF True]
    by (simp add: key_of_def stringValueFromRaw_def AsUtf16_ascii)
next
  case False
  then have "x \<noteq> []" by auto
  then show ?thesis using False by (simp add: key_of_def stringValueFromRaw_def AsUtf16_FromUtf16)
qed

lemma key_of_inj: "key_of x = key_of y \<longleftrightarrow> x = y"
  by (metis stringValueFromRaw_key denotes_det)

lemma str_string_ok: "mem_ok m \<Longrightarrow> denotes m s x \<Longrightarrow> returns m (key_of x) (str_string m s)"
  by (erule (1) receiver_ok) (simp add: str_string_def flat_ok_key)

lemma str_hash_ok: "mem_ok m \<Longrightarrow> denotes m s x \<Longrightarrow> returns m (H (key_of x)) (str_hash H m s)"
  by (erule (1) receiver_ok) (simp add: str_hash_def flat_ok_key)

text \<open>
  (C18) In a well-formed memory, where imported Go text is valid UTF-8, equality, property keys and hashes depend on the text alone: \<^verbatim>\<open>StrictEquals\<close> compares the texts in all sixteen
  pairs of representations, two strings have the same property key exactly when their texts are equal, a key
  converts back to a string of the same text, and equal texts have equal hashes.
\<close>

theorem string_equality_correct:
  assumes "mem_ok m" "denotes m s x" "denotes m t y"
  shows "returns m (x = y) (str_StrictEquals m s t) \<and>
    (\<exists>k l. returns m k (str_string m s) \<and> returns m l (str_string m t) \<and> (k = l \<longleftrightarrow> x = y) \<and>
           denotes m (stringValueFromRaw k) x) \<and>
    (\<exists>h g. returns m h (str_hash H m s) \<and> returns m g (str_hash H m t) \<and> (x = y \<longrightarrow> h = g))"
proof (intro conjI exI)
  show "returns m (x = y) (str_StrictEquals m s t)" using str_StrictEquals_ok [OF assms] .
  show "returns m (key_of x) (str_string m s)" "returns m (key_of y) (str_string m t)"
    using str_string_ok assms by blast+
  show "key_of x = key_of y \<longleftrightarrow> x = y" by (rule key_of_inj)
  show "denotes m (stringValueFromRaw (key_of x)) x" by (rule stringValueFromRaw_key)
  show "returns m (H (key_of x)) (str_hash H m s)" "returns m (H (key_of y)) (str_hash H m t)"
    using str_hash_ok assms by blast+
  show "x = y \<longrightarrow> H (key_of x) = H (key_of y)" by simp
qed

subsection \<open>Order\<close>

lemma go_compare_lex:
  "go_compare x y = (if x = y then 0 else if (x, y) \<in> lexord {(a, b). a < b} then -1 else 1)"
  by (induction x y rule: go_compare.induct) auto

lemma go_compare_swap: "- go_compare y x = go_compare x y"
  by (induction x y rule: go_compare.induct) auto

lemma unat_widen: "unat (ucast (c :: byte) :: 16 word) = unat c"
proof -
  have "unat c < 2 ^ 16" using unsigned_less [of c, where ?'a = nat] by simp
  then show ?thesis by (simp add: unsigned_ucast_eq take_bit_nat_eq_self)
qed

lemma widen_less: "(ucast (a :: byte) :: 16 word) < ucast b \<longleftrightarrow> a < b"
  by (simp add: word_less_nat_alt unat_widen)

lemma go_compare_widen: "go_compare (map (ucast :: byte \<Rightarrow> 16 word) a) (map ucast b) = go_compare a b"
  by (induction a b rule: go_compare.induct) (simp_all add: widen_less)

lemma compareToAscii_ok: "compareToAscii (BOM # u) a = go_compare u (map ucast a)"
proof -
  have "compareToAscii_loop u a = go_compare u (map ucast a)"
  proof (induction u a rule: compareToAscii_loop.induct)
    case (1 s2)
    show ?case by (cases s2) simp_all
  qed simp_all
  then show ?thesis by (simp add: compareToAscii_def)
qed

lemma flat_CompareTo_ok: "flat_ok f x \<Longrightarrow> flat_ok g y \<Longrightarrow> flat_CompareTo f g = go_compare x y"
  by (cases f; cases g)
     (auto simp: flat_CompareTo_def compareToAscii_ok go_compare_widen go_compare_swap)

lemma two_flats:
  assumes "mem_ok m" "denotes m s x" "denotes m t y"
  obtains f m1 g m2 where "receiver m s = Some (f, m1)" "devirtualizeString m1 t = Some (g, m2)"
    "flat_ok f x" "flat_ok g y" "extends m m1" "mem_ok m1" "extends m m2" "mem_ok m2"
proof -
  obtain f m1 where 1: "receiver m s = Some (f, m1)" "flat_ok f x" "extends m m1" "mem_ok m1"
    using receiver_ok [OF assms(1,2)] .
  moreover obtain g m2 where "devirtualizeString m1 t = Some (g, m2)" "flat_ok g y" "extends m1 m2" "mem_ok m2"
    using devirtualizeString_ok [OF 1(4) extends_denotes [OF 1(3) assms(3)]] .
  ultimately show ?thesis using that extends_trans by blast
qed

text \<open>Strings are ordered lexicographically by code units, whatever their representations.\<close>

theorem string_order_correct:
  assumes "mem_ok m" "denotes m s x" "denotes m t y"
  shows "returns m (if x = y then 0 else if (x, y) \<in> lexord {(a, b). a < b} then -1 else 1) (CompareTo m s t)"
proof -
  obtain f m1 g m2 where "receiver m s = Some (f, m1)" "devirtualizeString m1 t = Some (g, m2)"
    "flat_ok f x" "flat_ok g y" "extends m m1" "mem_ok m1" "extends m m2" "mem_ok m2"
    using two_flats [OF assms] .
  then show ?thesis unfolding go_compare_lex [symmetric] by (simp add: CompareTo_def flat_CompareTo_ok)
qed

subsection \<open>Searching\<close>

definition first_from :: "'a list \<Rightarrow> 'a list \<Rightarrow> nat \<Rightarrow> int \<Rightarrow> bool" where
  "first_from s sep start r \<longleftrightarrow>
     (if \<exists>i\<ge>start. match_at s sep i
      then int start \<le> r \<and> match_at s sep (nat r) \<and> (\<forall>j\<ge>start. j < nat r \<longrightarrow> \<not> match_at s sep j) else r = -1)"

definition last_upto :: "'a list \<Rightarrow> 'a list \<Rightarrow> nat \<Rightarrow> int \<Rightarrow> bool" where
  "last_upto s sep pos r \<longleftrightarrow>
     (if \<exists>i\<le>pos. match_at s sep i
      then 0 \<le> r \<and> r \<le> int pos \<and> match_at s sep (nat r) \<and> (\<forall>j\<le>pos. nat r < j \<longrightarrow> \<not> match_at s sep j) else r = -1)"

lemma first_from_drop:
  assumes "start \<le> length s" "first_match (drop start s) sep p"
  shows "first_from s sep start (if 0 \<le> p then p + int start else -1)"
proof (cases "\<exists>i. match_at (drop start s) sep i")
  case True
  then have p: "0 \<le> p" "match_at (drop start s) sep (nat p)" "\<forall>j<nat p. \<not> match_at (drop start s) sep j"
    using assms(2) by (auto simp: first_match_def)
  then have "match_at s sep (nat (p + int start))"
    using assms(1) by (simp add: match_at_drop nat_add_distrib add.commute)
  moreover have "\<not> match_at s sep j" if "start \<le> j" "j < nat (p + int start)" for j
    using p(3) that assms(1) match_at_drop [OF assms(1), of sep "j - start"]
    by (metis add_diff_inverse_nat add_less_cancel_left linorder_not_le nat_int_add p(1) nat_0_le of_nat_add add.commute)
  moreover have "\<exists>i\<ge>start. match_at s sep i"
    using calculation(1) p(1) by (intro exI [of _ "nat (p + int start)"]) auto
  ultimately show ?thesis using p(1) by (auto simp: first_from_def)
next
  case False
  then have "\<not> match_at s sep i" if "start \<le> i" for i
    using match_at_drop [OF assms(1), of sep "i - start"] that by auto
  then show ?thesis using False assms(2) by (auto simp: first_from_def first_match_def)
qed

lemma first_from_past: "length s < start \<Longrightarrow> first_from s sep start (-1)"
  by (auto simp: first_from_def match_at_def)

lemma last_upto_take:
  assumes "last_match (take (pos + length sep) s) sep r"
  shows "last_upto s sep pos r"
  using assms unfolding last_match_def last_upto_def match_at_take by (auto split: if_splits)

lemma match_at_map: "inj f \<Longrightarrow> match_at (map f s) (map f sep) i \<longleftrightarrow> match_at s sep i"
  by (auto simp: match_at_def drop_map take_map inj_map_eq_map)

lemma match_at_ascii: "match_at x y i \<Longrightarrow> ascii_units x \<Longrightarrow> ascii_units y"
  by (auto simp: match_at_def ascii_units_def list_all_iff) (metis in_set_dropD in_set_takeD)

lemma first_from_map: "inj f \<Longrightarrow> first_from (map f s) (map f sep) k r \<longleftrightarrow> first_from s sep k r"
  by (simp only: first_from_def match_at_map)

lemma last_upto_map: "inj f \<Longrightarrow> last_upto (map f s) (map f sep) k r \<longleftrightarrow> last_upto s sep k r"
  by (simp only: last_upto_def match_at_map)

lemma flat_index_ok:
  assumes "flat_ok f x" "flat_ok g y"
  shows "first_from x y start (flat_index f g start)"
proof (cases f)
  case (Inl a)
  show ?thesis
  proof (cases g)
    case (Inl b)
    have "first_from a b start (flat_index f g start)"
      using first_from_drop [OF _ Index_first, of start a b] first_from_past [of a start b]
      by (auto simp: flat_index_def \<open>f = Inl a\<close> Inl Let_def)
    then show ?thesis using assms Inl \<open>f = Inl a\<close> by (simp add: first_from_map [OF inj_widen])
  next
    case (Inr u)
    then have "\<not> match_at x y i" for i
      using assms \<open>f = Inl a\<close> match_at_ascii [of x y i] ascii_units_map [of a] by auto
    then show ?thesis using Inr \<open>f = Inl a\<close> by (simp add: flat_index_def first_from_def)
  qed
next
  case (Inr u)
  have "0 \<le> utf16Index v w \<longleftrightarrow> utf16Index v w \<noteq> -1" for v w
    using utf16Index_first [of v w] by (auto simp: first_match_def split: if_splits)
  then show ?thesis
    using Inr assms first_from_drop [OF _ utf16Index_first, of start x y] first_from_past [of x start y]
    by (auto simp: flat_index_def Let_def flat_ok_units)
qed

lemma flat_lastIndex_ok:
  assumes "flat_ok f x" "flat_ok g y"
  shows "last_upto x y pos (flat_lastIndex f g pos)"
proof (cases f)
  case (Inl a)
  show ?thesis
  proof (cases g)
    case (Inl b)
    have "last_upto a b pos (flat_lastIndex f g pos)"
      using last_upto_take [OF LastIndex_last, where pos = pos and sep = b and s = a]
      by (auto simp: flat_lastIndex_def \<open>f = Inl a\<close> Inl)
    then show ?thesis using assms Inl \<open>f = Inl a\<close> by (simp add: last_upto_map [OF inj_widen])
  next
    case (Inr u)
    then have "\<not> match_at x y i" for i
      using assms \<open>f = Inl a\<close> match_at_ascii [of x y i] ascii_units_map [of a] by auto
    then show ?thesis using Inr \<open>f = Inl a\<close> by (simp add: flat_lastIndex_def last_upto_def)
  qed
next
  case (Inr u)
  then have "drop 1 (take (min (pos + 1 + length y) (length u)) u) = take (pos + length y) x"
    using assms(1) by (auto simp: min_def)
  then show ?thesis
    using Inr assms last_upto_take [OF utf16LastIndex_last, where pos = pos and sep = y and s = x]
    by (simp add: flat_lastIndex_def Let_def flat_ok_units)
qed

text \<open>
  \<^verbatim>\<open>index\<close> and \<^verbatim>\<open>lastIndex\<close> return for every pair of representations the first occurrence of the pattern at or after a
  position and the last one at or before it, and -1 exactly when there is none; searching changes no text.
\<close>

theorem string_search_correct:
  assumes "mem_ok m" "denotes m s x" "denotes m t y"
  shows "(\<exists>r. returns m r (str_index m s t pos) \<and> first_from x y pos r) \<and>
         (\<exists>r. returns m r (str_lastIndex m s t pos) \<and> last_upto x y pos r)"
proof -
  obtain f m1 g m2 where fg: "receiver m s = Some (f, m1)" "devirtualizeString m1 t = Some (g, m2)"
    "flat_ok f x" "flat_ok g y" "extends m m1" "mem_ok m1" "extends m m2" "mem_ok m2"
    using two_flats [OF assms] .
  have "first_from x y pos (-1)" if "case f of Inr u \<Rightarrow> pos > length u - 1 | Inl _ \<Rightarrow> False"
    using that fg(3) first_from_past [of x pos y] by (auto split: sum.splits)
  then have "\<exists>r. returns m r (str_index m s t pos) \<and> first_from x y pos r"
    using fg flat_index_ok [OF fg(3,4), of pos] by (auto simp: str_index_def)
  moreover have "\<exists>r. returns m r (str_lastIndex m s t pos) \<and> last_upto x y pos r"
    using fg flat_lastIndex_ok [OF fg(3,4), of pos] by (auto simp: str_lastIndex_def)
  ultimately show ?thesis by blast
qed

subsection \<open>Access\<close>

lemma CharAt_ok: "mem_ok m \<Longrightarrow> denotes m s x \<Longrightarrow> idx < length x \<Longrightarrow> returns m (x ! idx) (CharAt m s idx)"
  by (erule (1) receiver_ok) (simp add: CharAt_def flat_CharAt_ok go_index_def)

lemma CharAt_panics: "mem_ok m \<Longrightarrow> denotes m s x \<Longrightarrow> length x \<le> idx \<Longrightarrow> CharAt m s idx = None"
  by (erule (1) receiver_ok) (simp add: CharAt_def flat_CharAt_ok go_index_def)

lemma Substring_ok:
  assumes "mem_ok m" "denotes m s x" "i \<le> j" "j \<le> length x"
  shows "yields m (take (j - i) (drop i x)) (Substring m s i j)"
proof -
  obtain f m' where f: "receiver m s = Some (f, m')" "flat_ok f x" "extends m m'" "mem_ok m'"
    using receiver_ok [OF assms(1,2)] .
  moreover obtain r where "flat_Substring f i j = Some r" "\<forall>m. denotes m r (take (j - i) (drop i x))"
    using flat_Substring_ok [OF f(2) assms(3,4)] by blast
  ultimately show ?thesis by (simp add: Substring_def)
qed

lemma str_ToBoolean_ok:
  assumes "mem_ok m" "denotes m s x"
  shows "str_ToBoolean m s = Some (x \<noteq> [])"
proof (cases s)
  case (Imported i)
  then obtain o' where "imp_at m i = Some o'" "x = units (is_s o')" using assms(2) by auto
  then show ?thesis using Imported units_nonempty [of "is_s o'"] by (cases "is_s o'") (auto simp: str_ToBoolean_def)
next
  case (Concat c)
  then obtain cs where "cat_at m c = Some cs" "cs_length cs = length x" using assms cs_length_ok by metis
  then show ?thesis using Concat by (simp add: str_ToBoolean_def)
qed (use assms in \<open>auto simp: str_ToBoolean_def\<close>)

lemma flat_String_ok: "flat_ok f x \<Longrightarrow> x = units t \<Longrightarrow> utf8_valid t \<Longrightarrow> flat_String f = t"
proof (cases f)
  case (Inl a)
  assume "flat_ok f x" "x = units t" "utf8_valid t"
  then show ?thesis using Inl units_inj [of a t] utf8_valid_ascii [of a] units_ascii [of a]
    by (simp add: flat_String_def)
qed (simp add: flat_String_def units_string_units)

lemma str_String_ok:
  assumes "mem_ok m" "denotes m s (units t)" "utf8_valid t"
  shows "returns m t (str_String m s)"
proof (cases "\<exists>i. s = Imported i")
  case True
  then obtain i o' where "s = Imported i" "imp_at m i = Some o'" "units (is_s o') = units t" using assms(2) by auto
  then show ?thesis using assms units_inj [of "is_s o'" t] imp_ok_at [OF assms(1), of i o']
    by (simp add: str_String_def imp_ok_def)
next
  case False
  obtain f m' where f: "receiver m s = Some (f, m')" "flat_ok f (units t)" "extends m m'" "mem_ok m'"
    using receiver_ok [OF assms(1,2)] .
  then show ?thesis using False flat_String_ok [OF f(2) refl assms(3)]
    by (cases s) (simp_all add: str_String_def)
qed

text \<open>
  Every string answers from its text: its length, its code units (an index out of range panics), its substrings
  (which are canonical again) and its truth value; and text that came from Go as valid UTF-8 is exported as the
  same Go string, whatever happened to its representation.
\<close>

theorem string_access_correct:
  assumes "mem_ok m" "denotes m s x"
  shows "returns m (length x) (Length m s) \<and>
    (if idx < length x then returns m (x ! idx) (CharAt m s idx) else CharAt m s idx = None) \<and>
    (i \<le> j \<and> j \<le> length x \<longrightarrow> yields m (take (j - i) (drop i x)) (Substring m s i j)) \<and>
    str_ToBoolean m s = Some (x \<noteq> []) \<and>
    (utf8_valid t \<and> x = units t \<longrightarrow> returns m t (str_String m s))"
  using CharAt_ok [OF assms] CharAt_panics [OF assms] Substring_ok [OF assms] str_ToBoolean_ok [OF assms]
    str_String_ok [OF assms(1)] assms(2)
    Length_ok [OF assms, where thesis = "returns m (length x) (Length m s)"]
  by auto

section \<open>Histories of the builder\<close>

datatype sbWrite = WString jstr | WSubstring jstr nat nat | WUTF8 gostring | WASCII gostring | WRune rune

definition write_step :: "sbWrite \<Rightarrow> StringBuilder \<times> smem \<Rightarrow> (StringBuilder \<times> smem) option" where
  "write_step w bm =
     (case bm of (b, m) \<Rightarrow>
       case w of
         WString s \<Rightarrow> WriteString m b s
       | WSubstring s i j \<Rightarrow> WriteSubstring m b s i j
       | WUTF8 s \<Rightarrow> Some (WriteUTF8String b s, m)
       | WASCII s \<Rightarrow> Some (sb_writeASCII b s, m)
       | WRune r \<Rightarrow> Some (sb_WriteRune b r, m))"

fun run_writes :: "sbWrite list \<Rightarrow> StringBuilder \<times> smem \<Rightarrow> (StringBuilder \<times> smem) option" where
  "run_writes [] bm = Some bm"
| "run_writes (w # ws) bm = do { bm \<leftarrow> write_step w bm; run_writes ws bm }"

text \<open>The text a write adds, and what its caller must respect.\<close>

definition writes_text :: "smem \<Rightarrow> sbWrite \<Rightarrow> ustr \<Rightarrow> bool" where
  "writes_text m w x \<longleftrightarrow>
     (case w of
        WString s \<Rightarrow> denotes m s x
      | WSubstring s i j \<Rightarrow> \<exists>y. denotes m s y \<and> i \<le> j \<and> j \<le> length y \<and> x = take (j - i) (drop i y)
      | WUTF8 s \<Rightarrow> x = units s
      | WASCII s \<Rightarrow> is_ascii s \<and> x = map ucast s
      | WRune r \<Rightarrow> scalar r \<and> x = utf16_units r)"

text \<open>Without a hint the builder turns unicode only for a character outside ASCII.\<close>

definition unhinted :: "StringBuilder \<Rightarrow> bool" where
  "unhinted b \<longleftrightarrow> sb_ascii b \<or> ub_unicode (unicodeBuilder b)"

lemma unhinted_iff: "sb_ok b x \<Longrightarrow> unhinted b \<longleftrightarrow> sb_ascii b \<or> \<not> ascii_units x"
  by (auto simp: unhinted_def sb_ok_def ub_ok_def split: if_splits)

lemma sb_ok_ascii: "sb_ok b x \<Longrightarrow> sb_ascii b \<Longrightarrow> ascii_units x"
  by (simp add: sb_ok_def ascii_units_map)

lemma sb_writeSubFlat_ok:
  assumes "sb_ok b x" "unhinted b" "flat_ok f y" "i \<le> j" "j \<le> length y"
  obtains b' where "sb_writeSubFlat b f i j = Some b'" "sb_ok b' (x @ take (j - i) (drop i y))" "unhinted b'"
proof (cases f)
  case (Inl a)
  then have "is_ascii (take (j - i) (drop i a))" "j \<le> length a"
    using assms by (auto simp: is_ascii_def list_all_iff dest!: in_set_takeD in_set_dropD)
  from sb_writeASCII_ok [OF assms(1) this(1)] show ?thesis
    using that [of "sb_writeASCII b (take (j - i) (drop i a))"] Inl assms
    by (auto simp: sb_writeSubFlat_def go_slice_def take_map drop_map unhinted_def sb_writeASCII_def sb_ascii_def
        writeASCIIString_def)
next
  case (Inr u)
  let ?ss = "take (j - i) (drop i y)"
  have sl: "go_slice u (i + 1) (j + 1) = Some ?ss" using Inr assms by (simp add: go_slice_def)
  show ?thesis
  proof (cases "sb_ascii b \<and> ascii_units ?ss")
    case True
    then show ?thesis
      using that [of "b\<lparr>asciiBuilder := asciiBuilder b @ map ucast ?ss\<rparr>"] Inr sl assms(1)
        map_ucast_ascii_units [of ?ss]
      by (simp add: sb_writeSubFlat_def list_ex_ascii sb_ok_def sb_ascii_def unhinted_def)
  next
    case False
    let ?b = "switchToUnicode b"
    let ?u = "(unicodeBuilder ?b)\<lparr>ub_buf := ub_buf (unicodeBuilder ?b) @ ?ss, ub_unicode := True\<rparr>"
    have "\<not> ascii_units (x @ ?ss)" using False assms(2) unhinted_iff [OF assms(1)] by auto
    then have u: "ub_ok ?u (x @ ?ss)" using switchToUnicode_ok(2) [OF assms(1)] by (simp add: ub_ok_def)
    have "sb_writeSubFlat b f i j = Some (?b\<lparr>unicodeBuilder := ?u\<rparr>)"
      using False Inr sl by (auto simp: sb_writeSubFlat_def list_ex_ascii Let_def)
    then show ?thesis using that sb_okI [OF switchToUnicode_ok(1) [OF assms(1)] u] by (simp add: unhinted_def)
  qed
qed

lemma unhinted_append: "sb_ok b x \<Longrightarrow> unhinted b \<Longrightarrow> sb_ok b' (x @ y) \<Longrightarrow> \<not> ascii_units y \<or> (sb_ascii b \<longrightarrow> sb_ascii b') \<Longrightarrow> unhinted b'"
  by (auto simp: unhinted_iff)

lemma write_step_ok:
  assumes "mem_ok m" "sb_ok b x" "unhinted b" "writes_text m w y"
  shows "\<exists>b' m'. write_step w (b, m) = Some (b', m') \<and> sb_ok b' (x @ y) \<and> unhinted b' \<and> extends m m' \<and> mem_ok m'"
proof (cases w)
  case (WString s)
  then have s: "denotes m s y" using assms(4) by (simp add: writes_text_def)
  obtain f m' where f: "devirtualizeString m s = Some (f, m')" "flat_ok f y" "extends m m'" "mem_ok m'"
    using devirtualizeString_ok [OF assms(1) s] .
  have "\<not> ascii_units y \<or> (sb_ascii b \<longrightarrow> sb_ascii (sb_writeFlat b f))"
    using f(2) by (cases f) (auto simp: sb_writeFlat_def sb_writeASCII_def sb_ascii_def)
  then show ?thesis
    using f WString sb_writeFlat_ok [OF assms(2) f(2)] unhinted_append [OF assms(2,3)]
    by (simp add: write_step_def WriteString_def)
next
  case (WSubstring s i j)
  then obtain z where z: "denotes m s z" "i \<le> j" "j \<le> length z" "y = take (j - i) (drop i z)"
    using assms(4) by (auto simp: writes_text_def)
  obtain f m' where f: "devirtualizeString m s = Some (f, m')" "flat_ok f z" "extends m m'" "mem_ok m'"
    using devirtualizeString_ok [OF assms(1) z(1)] .
  obtain b' where "sb_writeSubFlat b f i j = Some b'" "sb_ok b' (x @ y)" "unhinted b'"
    using sb_writeSubFlat_ok [OF assms(2,3) f(2) z(2,3)] z(4) by metis
  then show ?thesis using f WSubstring by (simp add: write_step_def WriteSubstring_def)
next
  case (WUTF8 s)
  then have y: "y = units s" using assms(4) by (simp add: writes_text_def)
  have "\<not> ascii_units y \<or> (sb_ascii b \<longrightarrow> sb_ascii (WriteUTF8String b s))"
  proof (cases "sb_ascii b \<and> scan_prefix s \<noteq> length s")
    case True
    then have "sb_ok (WriteUTF8String b s) (x @ y)" using WriteUTF8String_ok [OF assms(2)] y by simp
    then show ?thesis using True y ascii_units_units_iff [of s] by (simp add: is_ascii_prefix)
  qed (auto simp: WriteUTF8String_def sb_ascii_def)
  then show ?thesis
    using WUTF8 y WriteUTF8String_ok [OF assms(2)] unhinted_append [OF assms(2,3)] assms(1)
    by (auto simp: write_step_def)
next
  case (WASCII s)
  then have y: "is_ascii s" "y = map ucast s" using assms(4) by (simp_all add: writes_text_def)
  have "sb_ascii b \<longrightarrow> sb_ascii (sb_writeASCII b s)" by (simp add: sb_writeASCII_def sb_ascii_def)
  then show ?thesis
    using WASCII y sb_writeASCII_ok [OF assms(2) y(1)] unhinted_append [OF assms(2,3)] assms(1)
    by (simp add: write_step_def)
next
  case (WRune r)
  then have y: "scalar r" "y = utf16_units r" using assms(4) by (simp_all add: writes_text_def)
  have "\<not> ascii_units y \<or> (sb_ascii b \<longrightarrow> sb_ascii (sb_WriteRune b r))"
    using utf16_units_ascii [OF y(1)] y(2) by (auto simp: sb_WriteRune_def sb_ascii_def)
  then show ?thesis
    using WRune y sb_WriteRune_ok [OF assms(2) y(1)] unhinted_append [OF assms(2,3)] assms(1)
    by (simp add: write_step_def)
qed

lemma writes_text_extends: "extends m m' \<Longrightarrow> writes_text m w x \<Longrightarrow> writes_text m' w x"
  by (auto simp: writes_text_def dest: extends_denotes split: sbWrite.splits)

lemma run_writes_ok:
  "mem_ok m \<Longrightarrow> sb_ok b x \<Longrightarrow> unhinted b \<Longrightarrow> list_all2 (writes_text m) ws xs \<Longrightarrow>
   \<exists>b' m'. run_writes ws (b, m) = Some (b', m') \<and> sb_ok b' (x @ concat xs) \<and> extends m m' \<and> mem_ok m'"
proof (induction ws arbitrary: m b x xs)
  case (Cons w ws)
  then obtain y ys where y: "xs = y # ys" "writes_text m w y" "list_all2 (writes_text m) ws ys"
    by (auto simp: list_all2_Cons1)
  obtain b1 m1 where 1: "write_step w (b, m) = Some (b1, m1)" "sb_ok b1 (x @ y)" "unhinted b1" "extends m m1" "mem_ok m1"
    using write_step_ok [OF Cons.prems(1-3) y(2)] by blast
  have "list_all2 (writes_text m1) ws ys"
    using y(3) writes_text_extends [OF 1(4)] by (rule list_all2_mono)
  from Cons.IH [OF 1(5,2,3) this] show ?case using 1 y(1) extends_trans [OF 1(4)] by auto
qed simp

text \<open>
  (C21) Whatever is written to a new \<^verbatim>\<open>StringBuilder\<close> that was not given the hint \<^verbatim>\<open>LikelyUnicode\<close> (strings of any representation in a
  well-formed memory, substrings, Go text, ASCII, runes), in whatever order, the builder is consistent and holds the concatenation of what was
  written (\<open>sb_ok\<close>), and the result is a canonical string with that text; strings that were flattened or scanned on the way keep their text.
\<close>

theorem string_builder_correct:
  assumes "mem_ok m" "list_all2 (writes_text m) ws xs"
  shows "\<exists>b m'. run_writes ws (emptyBuilder, m) = Some (b, m') \<and> sb_ok b (concat xs) \<and> denotes m' (sb_String b) (concat xs) \<and>
           extends m m' \<and> mem_ok m'"
proof -
  have "unhinted emptyBuilder" by (simp add: unhinted_def sb_ascii_def emptyBuilder_def)
  from run_writes_ok [OF assms(1) emptyBuilder_ok this assms(2)] show ?thesis
    using sb_String_denotes(1) by fastforce
qed

section \<open>A concrete memory\<close>

text \<open>
  An imported string that was not scanned yet (\<^verbatim>\<open>U+00E9\<close> in UTF-8), an unflattened node that joins it to the letters
  \<^verbatim>\<open>ab\<close>, and a node on top of that node.
\<close>

definition wit_mem :: smem where
  "wit_mem =
     \<lparr>imps = [\<lparr>is_s = [0xC3, 0xA9], is_u = None, scanned = False\<rparr>],
      cats = [\<lparr>cs_left = Ascii [0x61, 0x62], cs_right = Some (Imported 0), cs_length = 3\<rparr>,
              \<lparr>cs_left = Concat 0, cs_right = Some (Ascii [0x63]), cs_length = 4\<rparr>]\<rparr>"

lemma wit_runes: "runes [0xC3, 0xA9] = [0xE9]"
  by (simp add: runes.simps Let_def between_def)

lemma wit_text:
  "denotes wit_mem (Imported 0) [0xE9]"
  "denotes wit_mem (Concat 0) [0x61, 0x62, 0xE9]"
  "denotes wit_mem (Concat 1) [0x61, 0x62, 0xE9, 0x63]"
proof -
  show i: "denotes wit_mem (Imported 0) [0xE9]"
    by (simp add: wit_mem_def imp_at_def units_def wit_runes utf16_units_def)
  have a: "denotes wit_mem (Ascii [0x61, 0x62]) [0x61, 0x62]" "denotes wit_mem (Ascii [0x63]) [0x63]" by simp_all
  show c: "denotes wit_mem (Concat 0) [0x61, 0x62, 0xE9]"
    using denotes.node [of wit_mem 0 "cats wit_mem ! 0" "Imported 0" "[0x61, 0x62]" "[0xE9]"] i a
    by (simp add: wit_mem_def cat_at_def)
  show "denotes wit_mem (Concat 1) [0x61, 0x62, 0xE9, 0x63]"
    using denotes.node [of wit_mem 1 "cats wit_mem ! 1" "Ascii [0x63]" "[0x61, 0x62, 0xE9]" "[0x63]"] c a
    by (simp add: wit_mem_def cat_at_def)
qed

lemma wit_mem_ok: "mem_ok wit_mem"
proof -
  have "utf8_valid [0xC3, 0xA9]"
    by (simp add: utf8_valid_def wit_runes runes_string_def utf8_rune_def Let_def isSurrogate_def byte_of_def)
  then have "imp_ok (imps wit_mem ! 0)" by (simp add: wit_mem_def imp_ok_def)
  moreover have "node_ok wit_mem 0"
    unfolding node_ok_def by (intro conjI exI, rule wit_text(2)) (simp_all add: wit_mem_def)
  moreover have "node_ok wit_mem 1"
    unfolding node_ok_def by (intro conjI exI, rule wit_text(3)) (simp_all add: wit_mem_def)
  moreover have "c < length (cats wit_mem) \<longleftrightarrow> c = 0 \<or> c = 1" for c by (auto simp: wit_mem_def)
  moreover have "imps wit_mem = [imps wit_mem ! 0]" by (simp add: wit_mem_def)
  ultimately show ?thesis unfolding mem_ok_def by (metis list.pred_inject)
qed


theorem string_equality_correct_witness:
  "returns wit_mem False (str_StrictEquals wit_mem (Imported 0) (Concat 0)) \<and>
   (\<exists>k l. returns wit_mem k (str_string wit_mem (Imported 0)) \<and> returns wit_mem l (str_string wit_mem (Concat 0)) \<and> k \<noteq> l)"
  using string_equality_correct [OF wit_mem_ok wit_text(1,2), of "\<lambda>_. 0"] by auto

theorem string_order_correct_witness: "returns wit_mem 1 (CompareTo wit_mem (Imported 0) (Concat 1))"
  using string_order_correct [OF wit_mem_ok wit_text(1,3)] by (simp add: word_less_nat_alt)

theorem string_search_correct_witness:
  "\<exists>r. returns wit_mem r (str_index wit_mem (Concat 1) (Imported 0) 0) \<and>
       first_from [0x61, 0x62, 0xE9, 0x63] [0xE9 :: 16 word] 0 r"
  using string_search_correct [OF wit_mem_ok wit_text(3,1), of 0] by blast

theorem string_access_correct_witness:
  "returns wit_mem 4 (Length wit_mem (Concat 1)) \<and> returns wit_mem 0xE9 (CharAt wit_mem (Concat 1) 2) \<and>
   yields wit_mem [0x62, 0xE9] (Substring wit_mem (Concat 1) 1 3)"
  using string_access_correct [OF wit_mem_ok wit_text(3), of 2 1 3] by (simp add: numeral_eq_Suc)

theorem string_builder_correct_witness:
  "\<exists>b m'. run_writes [WASCII [0x78], WSubstring (Concat 1) 1 3, WRune 0x1F600, WString (Imported 0)] (emptyBuilder, wit_mem)
            = Some (b, m') \<and> sb_ok b [0x78, 0x62, 0xE9, 0xD83D, 0xDE00, 0xE9] \<and>
          denotes m' (sb_String b) [0x78, 0x62, 0xE9, 0xD83D, 0xDE00, 0xE9]"
proof -
  have "writes_text wit_mem (WSubstring (Concat 1) 1 3) [0x62, 0xE9]"
    unfolding writes_text_def using wit_text(3) by (auto simp: numeral_eq_Suc)
  then have "list_all2 (writes_text wit_mem)
    [WASCII [0x78], WSubstring (Concat 1) 1 3, WRune 0x1F600, WString (Imported 0)]
    [[0x78], [0x62, 0xE9], [0xD83D, 0xDE00], [0xE9]]"
    using wit_text(1) by (simp add: writes_text_def scalar_def isSurrogate_def utf16_units_def EncodeRune_def)
  from string_builder_correct [OF wit_mem_ok this] show ?thesis by auto
qed

section \<open>Where the text is not enough\<close>

text \<open>
  A Go string need not be valid UTF-8. Then the four representations disagree, because an imported string is
  compared and joined by its bytes until it is scanned.
\<close>

definition bad_mem :: "bool \<Rightarrow> smem" where
  "bad_mem sc =
     \<lparr>imps = [\<lparr>is_s = [0xC3], is_u = (if sc then Some [BOM, 0xFFFD] else None), scanned = sc\<rparr>,
              \<lparr>is_s = [0xA9], is_u = None, scanned = False\<rparr>],
      cats = []\<rparr>"

lemma bad_runes: "runes [0xC3] = [RuneError]" "runes [0xA9] = [RuneError]" "runes [0xC3, 0xA9] = [0xE9]"
  by (simp_all add: runes.simps Let_def between_def)

lemma bad_Scan: "Scan [0xC3] = Some [BOM, 0xFFFD]" "Scan [0xA9] = Some [BOM, 0xFFFD]"
  by (simp_all add: Scan_correct units_def bad_runes utf16_units_def)

text \<open>
  Equality of imported strings is not an equivalence when Go text is not valid UTF-8: both strings of
  this memory are strictly equal to the string of one replacement character, and not to each other.
\<close>

theorem invalid_utf8_equality:
  "map_option fst (str_StrictEquals (bad_mem False) (Imported 0) (Unicode [BOM, 0xFFFD])) = Some True \<and>
   map_option fst (str_StrictEquals (bad_mem False) (Unicode [BOM, 0xFFFD]) (Imported 1)) = Some True \<and>
   map_option fst (str_StrictEquals (bad_mem False) (Imported 0) (Imported 1)) = Some False"
  by (simp add: str_StrictEquals_def imported_StrictEquals_def imported_StrictEquals_leaf_def unicode_StrictEquals_def
      bad_mem_def imp_at_def ensureScanned_def scan_def bad_Scan)

text \<open>
  Concatenation of imported strings that are not valid UTF-8 depends on whether one of them was scanned before: joined as
  Go strings the two bytes become one character, after a scan they are two replacement characters.
\<close>

theorem invalid_utf8_concat:
  "(\<exists>s m. Concat_str (bad_mem False) (Imported 0) (Imported 1) = Some (s, m) \<and> denotes m s [0xE9]) \<and>
   (\<exists>s m. Concat_str (bad_mem True) (Imported 0) (Imported 1) = Some (s, m) \<and> denotes m s [0xFFFD, 0xFFFD])"
  by (simp add: Concat_str_def imported_Concat_def bad_mem_def imp_at_def ensureScanned_def scan_def bad_Scan
      imp_flat_def flat_Concat_def unicode_Concat_def Let_def concatThreshold_def units_def bad_runes utf16_units_def)

text \<open>
  \<^verbatim>\<open>WriteSubstring\<close> can leave a string that is not canonical: after \<^verbatim>\<open>LikelyUnicode\<close> an ASCII part of a unicode
  string marks the builder as unicode, and the result is a \<^verbatim>\<open>unicodeString\<close> with the text \<^verbatim>\<open>a\<close> that is not strictly
  equal to the ASCII string \<^verbatim>\<open>a\<close>.
\<close>

theorem WriteSubstring_not_canonical:
  "\<exists>b. sb_writeSubFlat (LikelyUnicode emptyBuilder) (Inr [BOM, 0x61, 0xE9]) 0 1 = Some b \<and>
       sb_String b = Unicode [BOM, 0x61] \<and>
       map_option fst (str_StrictEquals wit_mem (sb_String b) (Ascii [0x61])) = Some False \<and>
       map_option fst (CharAt wit_mem (sb_String b) 0) = Some 0x61 \<and> map_option fst (Length wit_mem (sb_String b)) = Some 1"
  by (auto simp: sb_writeSubFlat_def LikelyUnicode_def switchToUnicode_def emptyBuilder_def sb_ascii_def
      go_slice_def ub_Grow_def writeASCIIString_def Let_def sb_String_def ub_String_def str_StrictEquals_def
      unicode_StrictEquals_def CharAt_def receiver_def flat_CharAt_def go_index_def Length_def flat_Length_def)

end
