(* ===== verification/String_Iter.thy ===== *)
theory String_Iter
  imports Strings
begin

text \<open>
  Reading strings (string.go, string_ascii.go, string_unicode.go, string_imported.go). The readers of code units of
  the string types share one interface, \<^verbatim>\<open>utf16Reader\<close>; the decoder that the string iterator uses joins surrogate
  pairs and passes lone halves through. The locale \<open>unit_reader\<close> states what a reader promises, and
  every reader of the code interprets it.
\<close>

section \<open>Readers of code units\<close>

record asciiUtf16Reader =
  ar_s :: gostring
  ar_pos :: nat

record utf16RuneReader =
  ur_s :: ustr
  ur_pos :: nat

record stringUtf16Reader =
  sr_s :: gostring
  sr_pos :: nat
  sr_second :: "16 word"

text \<open>\<^verbatim>\<open>readChar\<close>; \<open>None\<close> is \<^verbatim>\<open>io.EOF\<close>.\<close>

definition ascii_readChar :: "asciiUtf16Reader \<Rightarrow> (16 word \<times> asciiUtf16Reader) option" where
  "ascii_readChar rr =
     (if ar_pos rr < length (ar_s rr) then Some (ucast (ar_s rr ! ar_pos rr), rr\<lparr>ar_pos := ar_pos rr + 1\<rparr>) else None)"

definition unicode_readChar :: "utf16RuneReader \<Rightarrow> (16 word \<times> utf16RuneReader) option" where
  "unicode_readChar rr =
     (if ur_pos rr < length (ur_s rr) then Some (ur_s rr ! ur_pos rr, rr\<lparr>ur_pos := ur_pos rr + 1\<rparr>) else None)"

definition string_readChar :: "stringUtf16Reader \<Rightarrow> (16 word \<times> stringUtf16Reader) option" where
  "string_readChar rr =
     (if sr_second rr \<noteq> 0 then Some (sr_second rr, rr\<lparr>sr_second := 0\<rparr>)
      else if sr_pos rr < length (sr_s rr) then
        (let (r1, size1) = DecodeRune (drop (sr_pos rr) (sr_s rr));
             rr = rr\<lparr>sr_pos := sr_pos rr + size1\<rparr>
         in if r1 \<le> 0xFFFF then Some (of_nat r1, rr)
            else Some (fst (EncodeRune r1), rr\<lparr>sr_second := snd (EncodeRune r1)\<rparr>))
      else None)"

datatype utf16Reader = AsciiR asciiUtf16Reader | UnicodeR utf16RuneReader | StringR stringUtf16Reader

definition readChar :: "utf16Reader \<Rightarrow> (16 word \<times> utf16Reader) option" where
  "readChar rr =
     (case rr of
        AsciiR r \<Rightarrow> map_option (apsnd AsciiR) (ascii_readChar r)
      | UnicodeR r \<Rightarrow> map_option (apsnd UnicodeR) (unicode_readChar r)
      | StringR r \<Rightarrow> map_option (apsnd StringR) (string_readChar r))"

definition flat_utf16Reader :: "flat \<Rightarrow> utf16Reader" where
  "flat_utf16Reader f =
     (case f of
        Inl a \<Rightarrow> AsciiR \<lparr>ar_s = a, ar_pos = 0\<rparr>
      | Inr u \<Rightarrow> UnicodeR \<lparr>ur_s = drop 1 u, ur_pos = 0\<rparr>)"

text \<open>The method \<^verbatim>\<open>utf16Reader\<close>: an imported string that was not scanned is decoded while it is read.\<close>

definition str_utf16Reader :: "smem \<Rightarrow> jstr \<Rightarrow> (utf16Reader \<times> smem) option" where
  "str_utf16Reader m s =
     (case s of
        Imported i \<Rightarrow>
          map_option (\<lambda>o'. (if scanned o' then flat_utf16Reader (imp_flat o')
                            else StringR \<lparr>sr_s = is_s o', sr_pos = 0, sr_second = 0\<rparr>, m)) (imp_at m i)
      | _ \<Rightarrow> do { (f, m) \<leftarrow> receiver m s; Some (flat_utf16Reader f, m) })"

section \<open>Decoding code points\<close>

record 'r lenientUtf16Decoder =
  utf16Reader :: 'r
  prev :: "16 word"
  prevSet :: bool

text \<open>\<^verbatim>\<open>ReadRune\<close> of the lenient decoder: the rune and its size; \<open>None\<close> is \<^verbatim>\<open>io.EOF\<close>.\<close>

definition lenient_ReadRune ::
    "('r \<Rightarrow> (16 word \<times> 'r) option) \<Rightarrow> 'r lenientUtf16Decoder \<Rightarrow> ((rune \<times> nat) \<times> 'r lenientUtf16Decoder) option" where
  "lenient_ReadRune rc rr =
     (case (if prevSet rr then Some (prev rr, rr\<lparr>prevSet := False\<rparr>)
            else map_option (\<lambda>(c, r). (c, rr\<lparr>utf16Reader := r\<rparr>)) (rc (utf16Reader rr))) of
        None \<Rightarrow> None
      | Some (c, rr) \<Rightarrow>
          if isUTF16FirstSurrogate c then
            (case rc (utf16Reader rr) of
               None \<Rightarrow> Some ((unat c, 1), rr)
             | Some (second, r) \<Rightarrow>
                 let rr = rr\<lparr>utf16Reader := r\<rparr> in
                 if isUTF16SecondSurrogate second then Some ((DecodeRune16 c second, 2), rr)
                 else Some ((unat c, 1), rr\<lparr>prev := second, prevSet := True\<rparr>))
          else Some ((unat c, 1), rr))"

section \<open>The string iterator\<close>

definition stringFromRune :: "rune \<Rightarrow> jstr" where
  "stringFromRune r =
     (if r < RuneSelf then Ascii [byte_of r]
      else ub_String (ub_WriteRune \<lparr>ub_buf = [], ub_unicode = False\<rparr> r))"

text \<open>The state is the field \<^verbatim>\<open>reader\<close> of \<^verbatim>\<open>stringIterObject\<close>, nil once the end was reported.\<close>

type_synonym 'r stringIter = "'r lenientUtf16Decoder option"

definition nextResult ::
    "('r \<Rightarrow> (16 word \<times> 'r) option) \<Rightarrow> 'r stringIter \<Rightarrow> jstr option \<times> 'r stringIter" where
  "nextResult rc si =
     (case si of
        None \<Rightarrow> (None, None)
      | Some rr \<Rightarrow>
          (case lenient_ReadRune rc rr of
             None \<Rightarrow> (None, None)
           | Some ((r, _), rr) \<Rightarrow> (Some (stringFromRune r), Some rr)))"

definition createStringIterator :: "smem \<Rightarrow> jstr \<Rightarrow> (smem \<times> utf16Reader stringIter) option" where
  "createStringIterator m s =
     do { (rd, m) \<leftarrow> str_utf16Reader m s;
          Some (m, Some \<lparr>utf16Reader = rd, prev = 0, prevSet = False\<rparr>) }"

text \<open>A loop \<^verbatim>\<open>for (c of s)\<close>: call \<^verbatim>\<open>next\<close> until it reports the end.\<close>

partial_function (option) iterate ::
    "('r \<Rightarrow> (16 word \<times> 'r) option) \<Rightarrow> 'r stringIter \<Rightarrow> (jstr list \<times> 'r stringIter) option" where
  "iterate rc si =
     (case nextResult rc si of
        (None, si) \<Rightarrow> Some ([], si)
      | (Some v, si) \<Rightarrow> do { (vs, si) \<leftarrow> iterate rc si; Some (v # vs, si) })"

section \<open>Code points\<close>

text \<open>ECMAScript's code points of a text: a pair of surrogates is one code point, a lone half stands for itself.\<close>

fun code_points :: "ustr \<Rightarrow> rune list" where
  "code_points [] = []"
| "code_points [c] = [unat c]"
| "code_points (c # d # u) =
     (if isUTF16FirstSurrogate c \<and> isUTF16SecondSurrogate d then DecodeRune16 c d # code_points u
      else unat c # code_points (d # u))"

lemma surrogates_disjoint: "isUTF16FirstSurrogate c \<Longrightarrow> \<not> isUTF16SecondSurrogate c"
  by (simp add: isUTF16FirstSurrogate_def isUTF16SecondSurrogate_def)

text \<open>The decoder's answer is the head of \<open>code_points\<close>.\<close>

definition pending :: "('r \<Rightarrow> ustr) \<Rightarrow> 'r lenientUtf16Decoder \<Rightarrow> ustr" where
  "pending rest rr = (if prevSet rr then [prev rr] else []) @ rest (utf16Reader rr)"

locale unit_reader =
  fixes rc :: "'r \<Rightarrow> (16 word \<times> 'r) option" and rest :: "'r \<Rightarrow> ustr" and ok :: "'r \<Rightarrow> bool"
  assumes at_end: "ok r \<Longrightarrow> rest r = [] \<Longrightarrow> rc r = None"
    and reads: "ok r \<Longrightarrow> rest r = c # u \<Longrightarrow> \<exists>r'. rc r = Some (c, r') \<and> rest r' = u \<and> ok r'"
begin

lemma ReadRune_end: "ok (utf16Reader rr) \<Longrightarrow> pending rest rr = [] \<Longrightarrow> lenient_ReadRune rc rr = None"
  by (auto simp: pending_def lenient_ReadRune_def at_end split: if_splits)

lemma take_unit:
  assumes "ok (utf16Reader rr)" "pending rest rr = c # u"
  obtains rr' where "(if prevSet rr then Some (prev rr, rr\<lparr>prevSet := False\<rparr>)
            else map_option (\<lambda>(c, r). (c, rr\<lparr>utf16Reader := r\<rparr>)) (rc (utf16Reader rr))) = Some (c, rr')"
    "\<not> prevSet rr'" "rest (utf16Reader rr') = u" "ok (utf16Reader rr')"
proof (cases "prevSet rr")
  case True
  then show ?thesis using that [of "rr\<lparr>prevSet := False\<rparr>"] assms by (simp add: pending_def)
next
  case False
  then obtain r' where "rc (utf16Reader rr) = Some (c, r')" "rest r' = u" "ok r'"
    using assms reads [of "utf16Reader rr" c u] by (auto simp: pending_def)
  then show ?thesis using that [of "rr\<lparr>utf16Reader := r'\<rparr>"] False by simp
qed

lemma ReadRune_step:
  assumes "ok (utf16Reader rr)" "pending rest rr \<noteq> []"
  obtains r n rr' where "lenient_ReadRune rc rr = Some ((r, n), rr')" "ok (utf16Reader rr')"
    "code_points (pending rest rr) = r # code_points (pending rest rr')"
    "length (pending rest rr) = n + length (pending rest rr')" "0 < n"
proof -
  obtain c u where cu: "pending rest rr = c # u" using assms(2) by (cases "pending rest rr") auto
  obtain rr1 where 1: "(if prevSet rr then Some (prev rr, rr\<lparr>prevSet := False\<rparr>)
            else map_option (\<lambda>(c, r). (c, rr\<lparr>utf16Reader := r\<rparr>)) (rc (utf16Reader rr))) = Some (c, rr1)"
    "\<not> prevSet rr1" "rest (utf16Reader rr1) = u" "ok (utf16Reader rr1)"
    using take_unit [OF assms(1) cu] .
  have p1: "pending rest rr1 = u" using 1 by (simp add: pending_def)
  show ?thesis
  proof (cases u)
    case Nil
    then have "rc (utf16Reader rr1) = None" using 1 at_end by blast
    then have "lenient_ReadRune rc rr = Some ((unat c, 1), rr1)"
      unfolding lenient_ReadRune_def 1(1) by simp
    then show ?thesis using that [of "unat c" 1 rr1] 1 p1 cu Nil by simp
  next
    case (Cons d v)
    then obtain r' where r: "rc (utf16Reader rr1) = Some (d, r')" "rest r' = v" "ok r'" using 1 reads by blast
    consider "\<not> isUTF16FirstSurrogate c" | "isUTF16FirstSurrogate c" "isUTF16SecondSurrogate d"
      | "isUTF16FirstSurrogate c" "\<not> isUTF16SecondSurrogate d" by blast
    then show ?thesis
    proof cases
      case 1
      then have "lenient_ReadRune rc rr = Some ((unat c, 1), rr1)"
        unfolding lenient_ReadRune_def \<open>_ = Some (c, rr1)\<close> by simp
      then show ?thesis using that [of "unat c" 1 rr1] p1 \<open>ok (utf16Reader rr1)\<close> cu Cons 1 by simp
    next
      case 2
      then have "lenient_ReadRune rc rr = Some ((DecodeRune16 c d, 2), rr1\<lparr>utf16Reader := r'\<rparr>)"
        unfolding lenient_ReadRune_def 1(1) using r by (simp add: Let_def)
      moreover have "pending rest (rr1\<lparr>utf16Reader := r'\<rparr>) = v" using 1 r by (simp add: pending_def)
      ultimately show ?thesis using that [of _ 2 "rr1\<lparr>utf16Reader := r'\<rparr>"] cu Cons 2 r by simp
    next
      case 3
      let ?rr = "rr1\<lparr>utf16Reader := r', prev := d, prevSet := True\<rparr>"
      have "lenient_ReadRune rc rr = Some ((unat c, 1), ?rr)"
        unfolding lenient_ReadRune_def 1(1) using r 3 by (simp add: Let_def)
      moreover have "pending rest ?rr = d # v" using r by (simp add: pending_def)
      ultimately show ?thesis using that [of "unat c" 1 ?rr] cu Cons 3 r by simp
    qed
  qed
qed

text \<open>The loop ends, and it yields one string per code point.\<close>

lemma iterate_code_points:
  "ok (utf16Reader rr) \<Longrightarrow> iterate rc (Some rr) = Some (map stringFromRune (code_points (pending rest rr)), None)"
proof (induction "length (pending rest rr)" arbitrary: rr rule: less_induct)
  case less
  show ?case
  proof (cases "pending rest rr = []")
    case True
    then show ?thesis using ReadRune_end [OF less.prems]
      by (subst iterate.simps) (simp add: nextResult_def)
  next
    case False
    obtain r n rr' where r: "lenient_ReadRune rc rr = Some ((r, n), rr')" "ok (utf16Reader rr')"
      "code_points (pending rest rr) = r # code_points (pending rest rr')"
      "length (pending rest rr) = n + length (pending rest rr')" "0 < n"
      using ReadRune_step [OF less.prems False] .
    then show ?thesis using less.hyps [of rr']
      by (subst iterate.simps) (simp add: nextResult_def)
  qed
qed

end

section \<open>The readers keep the interface\<close>

definition ascii_rest :: "asciiUtf16Reader \<Rightarrow> ustr" where
  "ascii_rest r = map ucast (drop (ar_pos r) (ar_s r))"

definition unicode_rest :: "utf16RuneReader \<Rightarrow> ustr" where
  "unicode_rest r = drop (ur_pos r) (ur_s r)"

definition string_rest :: "stringUtf16Reader \<Rightarrow> ustr" where
  "string_rest r = (if sr_second r \<noteq> 0 then [sr_second r] else []) @ units (drop (sr_pos r) (sr_s r))"

definition reader_rest :: "utf16Reader \<Rightarrow> ustr" where
  "reader_rest rr = (case rr of AsciiR r \<Rightarrow> ascii_rest r | UnicodeR r \<Rightarrow> unicode_rest r | StringR r \<Rightarrow> string_rest r)"

interpretation ascii_reader: unit_reader ascii_readChar ascii_rest "\<lambda>_. True"
proof unfold_locales
  fix r c u assume rest: "ascii_rest r = c # u"
  then have pos: "ar_pos r < length (ar_s r)" by (auto simp: ascii_rest_def intro: ccontr)
  show "\<exists>r'. ascii_readChar r = Some (c, r') \<and> ascii_rest r' = u \<and> True"
    using rest pos Cons_nth_drop_Suc [OF pos, symmetric] by (auto simp: ascii_rest_def ascii_readChar_def)
qed (simp add: ascii_rest_def ascii_readChar_def)

interpretation unicode_reader: unit_reader unicode_readChar unicode_rest "\<lambda>_. True"
proof unfold_locales
  fix r c u assume rest: "unicode_rest r = c # u"
  then have pos: "ur_pos r < length (ur_s r)" by (auto simp: unicode_rest_def intro: ccontr)
  show "\<exists>r'. unicode_readChar r = Some (c, r') \<and> unicode_rest r' = u \<and> True"
    using rest pos Cons_nth_drop_Suc [OF pos, symmetric] by (auto simp: unicode_rest_def unicode_readChar_def)
qed (simp add: unicode_rest_def unicode_readChar_def)

lemma units_step:
  "s \<noteq> [] \<Longrightarrow> units s = utf16_units (fst (DecodeRune s)) @ units (drop (snd (DecodeRune s)) s)"
  unfolding units_def by (subst runes.simps) simp

lemma second_nonzero: "scalar r \<Longrightarrow> \<not> r \<le> 0xFFFF \<Longrightarrow> snd (EncodeRune r) \<noteq> 0"
  using EncodeRune_surrogates(3) [of r] by (auto simp: scalar_def)

interpretation string_reader: unit_reader string_readChar string_rest "\<lambda>_. True"
proof unfold_locales
  fix r assume "string_rest r = []"
  then show "string_readChar r = None"
    using units_nonempty [of "drop (sr_pos r) (sr_s r)"]
    by (auto simp: string_rest_def string_readChar_def split: if_splits)
next
  fix r c u assume rest: "string_rest r = c # u"
  show "\<exists>r'. string_readChar r = Some (c, r') \<and> string_rest r' = u \<and> True"
  proof (cases "sr_second r \<noteq> 0")
    case True
    then show ?thesis using rest by (simp add: string_rest_def string_readChar_def)
  next
    case False
    define t where "t = drop (sr_pos r) (sr_s r)"
    have ne: "t \<noteq> []" using rest False by (auto simp: string_rest_def t_def)
    then have pos: "sr_pos r < length (sr_s r)" by (auto simp: t_def intro: ccontr)
    obtain r1 n where d: "DecodeRune t = (r1, n)" by (cases "DecodeRune t")
    have sc: "scalar r1" using DecodeRune_scalar [of t] d by simp
    have u: "utf16_units r1 @ units (drop n t) = c # u"
      using rest False units_step [OF ne] d by (simp add: string_rest_def t_def)
    have dt: "drop (sr_pos r + n) (sr_s r) = drop n t" by (simp add: t_def add.commute)
    show ?thesis
      using u second_nonzero [OF sc] False pos d dt
      by (auto simp: string_readChar_def string_rest_def utf16_units_def t_def [symmetric] Let_def split: if_splits)
  qed
qed

interpretation reader: unit_reader readChar reader_rest "\<lambda>_. True"
proof unfold_locales
  fix r assume "reader_rest r = []"
  then show "readChar r = None"
    by (cases r) (auto simp: reader_rest_def readChar_def ascii_reader.at_end unicode_reader.at_end string_reader.at_end)
next
  fix r c u assume "reader_rest r = c # u"
  then show "\<exists>r'. readChar r = Some (c, r') \<and> reader_rest r' = u \<and> True"
    by (cases r)
       (auto simp: reader_rest_def readChar_def dest!: ascii_reader.reads [OF TrueI] unicode_reader.reads [OF TrueI]
         string_reader.reads [OF TrueI])
qed

lemma str_utf16Reader_ok:
  assumes "mem_ok m" "denotes m s x"
  obtains rd m' where "str_utf16Reader m s = Some (rd, m')" "reader_rest rd = x" "extends m m'" "mem_ok m'"
proof -
  have flat: "reader_rest (flat_utf16Reader f) = x" if "flat_ok f x" for f
    using that by (cases f) (auto simp: flat_utf16Reader_def reader_rest_def ascii_rest_def unicode_rest_def)
  show ?thesis
  proof (cases "\<exists>i. s = Imported i")
    case True
    then obtain i o' where o: "s = Imported i" "imp_at m i = Some o'" "x = units (is_s o')" using assms(2) by auto
    then have "imp_ok o'" using imp_ok_at assms(1) by blast
    then have "flat_ok (imp_flat o') x" if "scanned o'"
      using that imp_flat_ok [of o'] o by (simp add: imp_ok_def)
    then show ?thesis using that [of _ m] o flat assms(1)
      by (simp add: str_utf16Reader_def reader_rest_def string_rest_def)
  next
    case False
    obtain f m' where "receiver m s = Some (f, m')" "flat_ok f x" "extends m m'" "mem_ok m'"
      using receiver_ok [OF assms] .
    then show ?thesis using that [of _ m'] False flat by (cases s) (auto simp: str_utf16Reader_def)
  qed
qed

section \<open>Iteration visits the code points\<close>

lemma code_points_units: "concat (map utf16_units (code_points u)) = u"
proof (induction u rule: code_points.induct)
  case (2 c)
  then show ?case using unit_bound [of c] by (simp add: utf16_units_def)
next
  case (3 c d u)
  show ?case
  proof (cases "isUTF16FirstSurrogate c \<and> isUTF16SecondSurrogate d")
    case True
    then have b: "unat c - 0xD800 \<le> 0x3FF" "unat d - 0xDC00 \<le> 0x3FF" "0xD800 \<le> unat c" "0xDC00 \<le> unat d"
      by (auto simp: isUTF16FirstSurrogate_def isUTF16SecondSurrogate_def)
    define r where "r = DecodeRune16 c d"
    have r: "r = (unat c - 0xD800) * 1024 + (unat d - 0xDC00) + 0x10000" using True by (simp add: r_def DecodeRune16_def)
    have big: "0x10000 \<le> r" "r \<le> 0x10FFFF" "\<not> r \<le> 0xFFFF" using b unfolding r by linarith+
    have "r - 0x10000 = (unat c - 0xD800) * 1024 + (unat d - 0xDC00)" unfolding r by simp
    then have "(r - 0x10000) div 1024 = unat c - 0xD800" "(r - 0x10000) mod 1024 = unat d - 0xDC00"
      using b(1,2) by (simp_all del: Nat.add_diff_assoc Nat.add_diff_assoc2)
    then have "unat (fst (EncodeRune r)) = unat c" "unat (snd (EncodeRune r)) = unat d"
      using EncodeRune_surrogates [OF big(1,2)] b by simp_all
    then have "utf16_units r = [c, d]" using big by (simp add: utf16_units_def word_unat_eq_iff)
    then show ?thesis using 3 True by (simp add: r_def)
  next
    case False
    then show ?thesis using 3(2) unit_bound [of c] by (auto simp: utf16_units_def)
  qed
qed simp

lemma code_points_bound: "r \<in> set (code_points u) \<Longrightarrow> r \<le> 0x10FFFF"
proof (induction u rule: code_points.induct)
  case (3 c d u)
  have "DecodeRune16 c d \<le> 0x10FFFF"
    by (auto simp: DecodeRune16_def isUTF16FirstSurrogate_def isUTF16SecondSurrogate_def)
  then show ?case using 3 unit_bound [of c] by (auto split: if_splits)
next
  case (2 c)
  then show ?case using unit_bound [of c] by simp
qed simp

lemma stringFromRune_text: "r \<le> 0x10FFFF \<Longrightarrow> denotes m (stringFromRune r) (utf16_units r)"
proof (cases "r < 128")
  case True
  then show ?thesis by (simp add: stringFromRune_def utf16_units_def unat_byte)
    (simp add: byte_of_def unsigned_ucast_eq take_bit_eq_mod word_eq_iff_unsigned unsigned_of_nat)
next
  case False
  assume "r \<le> 0x10FFFF"
  then have "\<not> ascii_units (utf16_units r)"
    using False EncodeRune_surrogates [of r] unat_unit [of r] by (auto simp: utf16_units_def)
  then show ?thesis using False
    by (auto simp: stringFromRune_def ub_WriteRune_def ub_Grow_def writeRuneFast_def ub_String_def utf16_units_def)
qed

text \<open>
  (C16) Iterating over a string ends and yields its code points: for a string of any representation the loop
  that calls \<^verbatim>\<open>next\<close> until the end returns one string per code point of the text, a surrogate pair as one and a lone half
  by itself; put together they are the text again; and after the end every further call reports the end.
\<close>

theorem string_iteration_correct:
  assumes "mem_ok m" "denotes m s x"
  shows "\<exists>m' si vs. createStringIterator m s = Some (m', si) \<and> extends m m' \<and> mem_ok m' \<and>
           iterate readChar si = Some (vs, None) \<and>
           list_all2 (\<lambda>v r. denotes m' v (utf16_units r)) vs (code_points x) \<and>
           concat (map utf16_units (code_points x)) = x \<and>
           nextResult readChar None = (None, None)"
proof -
  obtain rd m' where rd: "str_utf16Reader m s = Some (rd, m')" "reader_rest rd = x" "extends m m'" "mem_ok m'"
    using str_utf16Reader_ok [OF assms] .
  let ?rr = "\<lparr>utf16Reader = rd, prev = 0, prevSet = False\<rparr>"
  have "iterate readChar (Some ?rr) = Some (map stringFromRune (code_points x), None)"
    using reader.iterate_code_points [of ?rr] rd(2) by (simp add: pending_def)
  moreover have "list_all2 (\<lambda>v r. denotes m' v (utf16_units r)) (map stringFromRune (code_points x)) (code_points x)"
    by (auto simp: list_all2_map1 list_all2_same intro: stringFromRune_text code_points_bound)
  ultimately show ?thesis using rd code_points_units by (auto simp: createStringIterator_def nextResult_def)
qed

theorem string_iteration_correct_witness:
  "\<exists>m' si vs. createStringIterator wit_mem (Concat 1) = Some (m', si) \<and> iterate readChar si = Some (vs, None) \<and>
     length vs = 4"
  using string_iteration_correct [OF wit_mem_ok wit_text(3)]
  by (fastforce dest: list_all2_lengthD simp: isUTF16FirstSurrogate_def)

end
