(* ===== verification/Base64.thy ===== *)
theory Base64
  imports Strings
begin

text \<open>
  Base64 text of \<^verbatim>\<open>Uint8Array\<close> (base64.go and the helpers in builtin_typedarrays.go). The decoder has two
  fast loops that assemble eight or four characters at once and falls back to a decoder of one chunk for white space, padding
  and the end of the text. It is proved to implement the algorithm of ECMAScript, which reads one character at a
  time (\<open>FromBase64\<close> below), and to invert the encoding of RFC 4648. A string is its code units: the decoder reads it only
  through \<^verbatim>\<open>Length\<close> and \<^verbatim>\<open>CharAt\<close> (see \<^verbatim>\<open>Strings\<close>).
\<close>

section \<open>Digits\<close>

datatype base64LastChunkHandling = Invalid | Loose | Strict | Stop

definition bytes_of :: "string \<Rightarrow> gostring" where
  "bytes_of s = map (\<lambda>c. byte_of (of_char c)) s"

definition stdAlphabet :: gostring where
  "stdAlphabet = bytes_of ''ABCDEFGHIJKLMNOPQRSTUVWXYZabcdefghijklmnopqrstuvwxyz0123456789+/''"

definition urlAlphabet :: gostring where
  "urlAlphabet = bytes_of ''ABCDEFGHIJKLMNOPQRSTUVWXYZabcdefghijklmnopqrstuvwxyz0123456789-_''"

text \<open>The initialisers of the two tables: every entry \<^verbatim>\<open>0xff\<close>, then one assignment per letter.\<close>

type_synonym decodeMap = "byte \<Rightarrow> byte"

definition makeDecodeMap :: "gostring \<Rightarrow> decodeMap" where
  "makeDecodeMap alphabet = foldl (\<lambda>t (i, c). t(c := byte_of i)) (\<lambda>_. 0xff) (List.enumerate 0 alphabet)"

definition base64DecodeMap :: decodeMap where
  "base64DecodeMap = makeDecodeMap stdAlphabet"

definition base64DecodeMapUrl :: decodeMap where
  "base64DecodeMapUrl = makeDecodeMap urlAlphabet"

definition base64Assemble32Checked :: "byte \<Rightarrow> byte \<Rightarrow> byte \<Rightarrow> byte \<Rightarrow> 32 word" where
  "base64Assemble32Checked n1 n2 n3 n4 =
     push_bit 18 (ucast n1) OR push_bit 12 (ucast n2) OR push_bit 6 (ucast n3) OR ucast n4"

definition base64Assemble32 :: "byte \<Rightarrow> byte \<Rightarrow> byte \<Rightarrow> byte \<Rightarrow> 32 word option" where
  "base64Assemble32 n1 n2 n3 n4 =
     (if (n1 OR n2 OR n3 OR n4) = 0xff then None else Some (base64Assemble32Checked n1 n2 n3 n4))"

definition base64Assemble64 ::
    "byte \<Rightarrow> byte \<Rightarrow> byte \<Rightarrow> byte \<Rightarrow> byte \<Rightarrow> byte \<Rightarrow> byte \<Rightarrow> byte \<Rightarrow> 64 word option" where
  "base64Assemble64 n1 n2 n3 n4 n5 n6 n7 n8 =
     (if (n1 OR n2 OR n3 OR n4 OR n5 OR n6 OR n7 OR n8) = 0xff then None
      else Some (push_bit 42 (ucast n1) OR push_bit 36 (ucast n2) OR push_bit 30 (ucast n3) OR
                 push_bit 24 (ucast n4) OR push_bit 18 (ucast n5) OR push_bit 12 (ucast n6) OR
                 push_bit 6 (ucast n7) OR ucast n8))"

text \<open>The bytes that \<^verbatim>\<open>base64Put6Bytes\<close> and \<^verbatim>\<open>base64Put3Bytes\<close> store; \<open>go_copy\<close> stores them.\<close>

definition put6 :: "64 word \<Rightarrow> byte list" where
  "put6 v = [ucast (drop_bit 40 v), ucast (drop_bit 32 v), ucast (drop_bit 24 v), ucast (drop_bit 16 v),
             ucast (drop_bit 8 v), ucast v]"

definition put3 :: "32 word \<Rightarrow> byte list" where
  "put3 v = [ucast (drop_bit 16 v), ucast (drop_bit 8 v), ucast v]"

text \<open>
  \<^verbatim>\<open>copy(dst[i:], src)\<close>: as many elements as fit. The put functions store their bytes at an index; they panic when
  these do not fit, and every call is guarded by the remaining length.
\<close>

definition go_copy :: "byte list \<Rightarrow> nat \<Rightarrow> byte list \<Rightarrow> byte list" where
  "go_copy dst i src = take i dst @ take (length dst - i) src @ drop (i + length src) dst"

section \<open>One chunk\<close>

definition isAsciiWhitespace :: "16 word \<Rightarrow> bool" where
  "isAsciiWhitespace c \<longleftrightarrow> c = 0x9 \<or> c = 0xA \<or> c = 0xC \<or> c = 0xD \<or> c = 0x20"

function skipAsciiWhitespace :: "ustr \<Rightarrow> nat \<Rightarrow> nat" where
  "skipAsciiWhitespace s index =
     (if index < length s \<and> isAsciiWhitespace (s ! index) then skipAsciiWhitespace s (index + 1) else index)"
  by auto
termination
  by (relation "measure (\<lambda>(s, index). length s - index)") auto

datatype base64Error =
    ExtraBits | MissingPaddingInChunk | SingleCharacter | UnexpectedPadding | MissingPadding
  | AfterPadding | InvalidCharacter

definition decodeFinalBase64Chunk :: "byte list \<Rightarrow> nat \<Rightarrow> bool \<Rightarrow> base64Error + byte list" where
  "decodeFinalBase64Chunk chunk chunkLength throwOnExtraBits =
     (let res = put3 (base64Assemble32Checked (chunk ! 0) (chunk ! 1) (chunk ! 2) (chunk ! 3)) in
      if chunkLength = 2 then
        if throwOnExtraBits \<and> res ! 1 \<noteq> 0 then Inl ExtraBits else Inr (take 1 res)
      else if throwOnExtraBits \<and> res ! 2 \<noteq> 0 then Inl ExtraBits else Inr (take 2 res))"

text \<open>What \<^verbatim>\<open>base64DecodeChunk\<close> returns, with the destination it wrote to.\<close>

record chunkResult =
  newIndex :: nat
  newDstIndex :: nat
  eof :: bool
  err :: "base64Error option"
  out :: "byte list"

declare skipAsciiWhitespace.simps [simp del]

lemma skip_ge: "index \<le> skipAsciiWhitespace s index"
proof (induction s index rule: skipAsciiWhitespace.induct)
  case (1 s index)
  then show ?case by (auto simp: skipAsciiWhitespace.simps [of s index])
qed

lemma skip_le: "index \<le> length s \<Longrightarrow> skipAsciiWhitespace s index \<le> length s"
proof (induction s index rule: skipAsciiWhitespace.induct)
  case (1 s index)
  then show ?case by (auto simp: skipAsciiWhitespace.simps [of s index])
qed

lemma skip_measure:
  "\<not> length s \<le> skipAsciiWhitespace s i \<Longrightarrow> length s - Suc (skipAsciiWhitespace s i) < length s - i"
  using skip_ge [of i s] by linarith

text \<open>
  The body of the loop of \<^verbatim>\<open>base64DecodeChunk\<close>. \<open>i0\<close> and \<open>d0\<close> are the index and the destination index it was called with, which
  it returns when the chunk is not complete (\<open>ret\<close>); \<open>finish\<close> stores bytes and moves both on.
\<close>

definition ret :: "byte list \<Rightarrow> nat \<Rightarrow> nat \<Rightarrow> bool \<Rightarrow> base64Error option \<Rightarrow> chunkResult" where
  "ret dst i0 d0 e er = \<lparr>newIndex = i0, newDstIndex = d0, eof = e, err = er, out = dst\<rparr>"

definition finish :: "byte list \<Rightarrow> nat \<Rightarrow> nat \<Rightarrow> bool \<Rightarrow> byte list \<Rightarrow> chunkResult" where
  "finish dst i d0 e bs =
     \<lparr>newIndex = i, newDstIndex = d0 + min (length bs) (length dst - d0), eof = e, err = None, out = go_copy dst d0 bs\<rparr>"

text \<open>The end of the text.\<close>

definition chunk_end ::
    "ustr \<Rightarrow> base64LastChunkHandling \<Rightarrow> byte list \<Rightarrow> nat \<Rightarrow> nat \<Rightarrow> byte list \<Rightarrow> nat \<Rightarrow> chunkResult" where
  "chunk_end s lch dst i0 d0 chunk chunkLength =
     (if chunkLength > 0 then
        if lch = Stop then ret dst i0 d0 True None
        else if lch = Strict then ret dst i0 d0 True (Some MissingPaddingInChunk)
        else if chunkLength = 1 then ret dst i0 d0 True (Some SingleCharacter)
        else (case decodeFinalBase64Chunk chunk chunkLength False of
                Inr dec \<Rightarrow> finish dst (length s) d0 True dec
              | Inl _ \<Rightarrow> finish dst (length s) d0 True [])
      else finish dst (length s) d0 True [])"

text \<open>The character \<^verbatim>\<open>=\<close>; the index is the one after it.\<close>

definition chunk_padding ::
    "ustr \<Rightarrow> base64LastChunkHandling \<Rightarrow> byte list \<Rightarrow> nat \<Rightarrow> nat \<Rightarrow> nat \<Rightarrow> byte list \<Rightarrow> nat \<Rightarrow> chunkResult" where
  "chunk_padding s lch dst i0 d0 index chunk chunkLength =
     (if chunkLength < 2 then ret dst i0 d0 False (Some UnexpectedPadding)
      else let index = skipAsciiWhitespace s index in
        if chunkLength = 2 \<and> index = length s then
          if lch = Stop then ret dst i0 d0 True None else ret dst i0 d0 False (Some MissingPadding)
        else let index = (if chunkLength = 2 \<and> s ! index = 0x3D then skipAsciiWhitespace s (index + 1) else index) in
          if index < length s then ret dst i0 d0 False (Some AfterPadding)
          else (case decodeFinalBase64Chunk chunk chunkLength (lch = Strict) of
                  Inl decErr \<Rightarrow> ret dst i0 d0 False (Some decErr)
                | Inr dec \<Rightarrow> finish dst (length s) d0 True dec))"

datatype chunkStep = Return chunkResult | Digit nat byte

text \<open>
  Up to the point where a digit is stored. The index never passes the length, so \<open>length s \<le> index\<close> is the test
  \<^verbatim>\<open>index == length\<close>.
\<close>

definition chunk_step ::
    "ustr \<Rightarrow> decodeMap \<Rightarrow> base64LastChunkHandling \<Rightarrow> byte list \<Rightarrow> nat \<Rightarrow> nat \<Rightarrow> nat \<Rightarrow> byte list \<Rightarrow> nat \<Rightarrow> chunkStep" where
  "chunk_step s dm lch dst i0 d0 index chunk chunkLength =
     (let index = skipAsciiWhitespace s index in
      if length s \<le> index then Return (chunk_end s lch dst i0 d0 chunk chunkLength)
      else let char = s ! index; index = index + 1 in
        if char = 0x3D then Return (chunk_padding s lch dst i0 d0 index chunk chunkLength)
        else if 128 \<le> unat char then Return (ret dst i0 d0 False (Some InvalidCharacter))
        else let b = dm (ucast char) in
          if b = 0xff then Return (ret dst i0 d0 False (Some InvalidCharacter))
          else let remaining = length dst - d0 in
            if remaining = 1 \<and> chunkLength = 2 \<or> remaining = 2 \<and> chunkLength = 3 then Return (ret dst i0 d0 True None)
            else Digit index b)"

lemma chunk_step_Digit:
  "chunk_step s dm lch dst i0 d0 index chunk n = Digit i b \<Longrightarrow> index < i \<and> i \<le> length s"
  using skip_ge [of index s] by (auto simp: chunk_step_def Let_def split: if_splits)

lemma chunk_step_Return:
  "chunk_step s dm lch dst i0 d0 index chunk n = Return r \<Longrightarrow> eof r \<or> err r \<noteq> None"
  by (auto simp: chunk_step_def chunk_end_def chunk_padding_def Let_def ret_def finish_def split: if_splits sum.splits)

function decodeChunk_loop ::
    "ustr \<Rightarrow> decodeMap \<Rightarrow> base64LastChunkHandling \<Rightarrow> byte list \<Rightarrow> nat \<Rightarrow> nat \<Rightarrow> nat \<Rightarrow> byte list \<Rightarrow> nat \<Rightarrow> chunkResult" where
  "decodeChunk_loop s dm lch dst i0 d0 index chunk chunkLength =
     (case chunk_step s dm lch dst i0 d0 index chunk chunkLength of
        Return r \<Rightarrow> r
      | Digit index b \<Rightarrow>
          let chunk = chunk[chunkLength := b]; chunkLength = chunkLength + 1 in
          if chunkLength = 4 then
            let n = base64Assemble32Checked (chunk ! 0) (chunk ! 1) (chunk ! 2) (chunk ! 3) in
            finish dst index d0 (length dst - d0 \<le> 3) (put3 n)
          else decodeChunk_loop s dm lch dst i0 d0 index chunk chunkLength)"
  by auto
termination
  by (relation "measure (\<lambda>(s, dm, lch, dst, i0, d0, index, chunk, n). length s - index)")
     (auto dest: chunk_step_Digit)

declare decodeChunk_loop.simps [simp del]

definition base64DecodeChunk ::
    "ustr \<Rightarrow> nat \<Rightarrow> decodeMap \<Rightarrow> base64LastChunkHandling \<Rightarrow> byte list \<Rightarrow> nat \<Rightarrow> chunkResult" where
  "base64DecodeChunk s index dm lch dst dstIndex =
     decodeChunk_loop s dm lch dst index dstIndex index (replicate 4 0) 0"

text \<open>A call that reports neither the end nor an error has read at least one character.\<close>

lemma decodeChunk_loop_progress:
  "\<not> eof (decodeChunk_loop s dm lch dst i0 d0 index chunk n) \<Longrightarrow>
   err (decodeChunk_loop s dm lch dst i0 d0 index chunk n) = None \<Longrightarrow>
   index < newIndex (decodeChunk_loop s dm lch dst i0 d0 index chunk n) \<and>
   newIndex (decodeChunk_loop s dm lch dst i0 d0 index chunk n) \<le> length s"
proof (induction s dm lch dst i0 d0 index chunk n rule: decodeChunk_loop.induct)
  case (1 s dm lch dst i0 d0 index chunk n)
  show ?case
  proof (cases "chunk_step s dm lch dst i0 d0 index chunk n")
    case (Return r)
    then show ?thesis using 1(2,3) chunk_step_Return [OF Return]
      by (simp add: decodeChunk_loop.simps [of s dm lch dst i0 d0 index chunk n])
  next
    case (Digit i b)
    then show ?thesis using 1(2,3) 1(1) [OF Digit refl refl] chunk_step_Digit [OF Digit]
      by (auto simp: decodeChunk_loop.simps [of s dm lch dst i0 d0 index chunk n] Let_def finish_def split: if_splits)
  qed
qed

lemma base64DecodeChunk_progress:
  "\<not> eof (base64DecodeChunk s i dm lch dst d) \<Longrightarrow> err (base64DecodeChunk s i dm lch dst d) = None \<Longrightarrow>
   i < newIndex (base64DecodeChunk s i dm lch dst d) \<and> newIndex (base64DecodeChunk s i dm lch dst d) \<le> length s"
  unfolding base64DecodeChunk_def by (rule decodeChunk_loop_progress)

lemma base64DecodeChunk_measure:
  "\<not> eof (base64DecodeChunk s i dm lch dst d) \<Longrightarrow> err (base64DecodeChunk s i dm lch dst d) = None \<Longrightarrow>
   length s - newIndex (base64DecodeChunk s i dm lch dst d) < length s - i"
  using base64DecodeChunk_progress [of s i dm lch dst d] by linarith

section \<open>The decoder\<close>

text \<open>What the decoders return: \<^verbatim>\<open>read\<close>, \<^verbatim>\<open>written\<close>, \<^verbatim>\<open>err\<close> and the destination.\<close>

type_synonym decodeResult = "nat \<times> nat \<times> base64Error option \<times> byte list"

text \<open>
  The two fast loops differ in the number of characters and bytes of a step; \<open>get\<close> is the attempt to assemble the next
  characters. The Boolean says that the function returned from inside the loop.
\<close>

function fast_loop ::
    "(nat \<Rightarrow> byte list option) \<Rightarrow> nat \<Rightarrow> nat \<Rightarrow> ustr \<Rightarrow> decodeMap \<Rightarrow> base64LastChunkHandling \<Rightarrow> byte list \<Rightarrow> nat \<Rightarrow> nat \<Rightarrow>
     bool \<times> decodeResult" where
  "fast_loop get chars bytes s dm lch dst read written =
     (if 0 < chars \<and> chars \<le> length s - read \<and> bytes \<le> length dst - written then
        (case get read of
           Some bs \<Rightarrow> fast_loop get chars bytes s dm lch (go_copy dst written bs) (read + chars) (written + bytes)
         | None \<Rightarrow>
             let r = base64DecodeChunk s read dm lch dst written in
             if eof r \<or> err r \<noteq> None then (True, newIndex r, newDstIndex r, err r, out r)
             else fast_loop get chars bytes s dm lch (out r) (newIndex r) (newDstIndex r))
      else (False, read, written, None, dst))"
  by auto
termination
  by (relation "measure (\<lambda>(get, chars, bytes, s, dm, lch, dst, read, written). length s - read)")
     (auto simp: base64DecodeChunk_measure)

function final_loop ::
    "ustr \<Rightarrow> decodeMap \<Rightarrow> base64LastChunkHandling \<Rightarrow> byte list \<Rightarrow> nat \<Rightarrow> nat \<Rightarrow> decodeResult" where
  "final_loop s dm lch dst read written =
     (let r = base64DecodeChunk s read dm lch dst written in
      if err r \<noteq> None \<or> eof r then (newIndex r, newDstIndex r, err r, out r)
      else final_loop s dm lch (out r) (newIndex r) (newDstIndex r))"
  by auto
termination
  by (relation "measure (\<lambda>(s, dm, lch, dst, read, written). length s - read)")
     (auto simp: base64DecodeChunk_measure)

declare fast_loop.simps [simp del] final_loop.simps [simp del]

definition decode_loops ::
    "(nat \<Rightarrow> byte list option) \<Rightarrow> (nat \<Rightarrow> byte list option) \<Rightarrow> ustr \<Rightarrow> decodeMap \<Rightarrow> base64LastChunkHandling \<Rightarrow> byte list \<Rightarrow>
     decodeResult" where
  "decode_loops get8 get4 s dm lch dst =
     (case fast_loop get8 8 6 s dm lch dst 0 0 of
        (True, res) \<Rightarrow> res
      | (False, read, written, _, dst) \<Rightarrow>
          (case fast_loop get4 4 3 s dm lch dst read written of
             (True, res) \<Rightarrow> res
           | (False, read, written, _, dst) \<Rightarrow>
               if written = length dst then (read, written, None, dst) else final_loop s dm lch dst read written))"

definition base64DecodeAscii ::
    "gostring \<Rightarrow> decodeMap \<Rightarrow> base64LastChunkHandling \<Rightarrow> byte list \<Rightarrow> decodeResult" where
  "base64DecodeAscii a dm lch dst =
     decode_loops
       (\<lambda>read. map_option put6 (base64Assemble64 (dm (a ! read)) (dm (a ! (read + 1))) (dm (a ! (read + 2))) (dm (a ! (read + 3)))
          (dm (a ! (read + 4))) (dm (a ! (read + 5))) (dm (a ! (read + 6))) (dm (a ! (read + 7)))))
       (\<lambda>read. map_option put3 (base64Assemble32 (dm (a ! read)) (dm (a ! (read + 1))) (dm (a ! (read + 2))) (dm (a ! (read + 3)))))
       (map ucast a) dm lch dst"

text \<open>The Unicode version first checks that no code unit is above 255; its argument is the string with the mark.\<close>

definition base64DecodeUnicode ::
    "ustr \<Rightarrow> decodeMap \<Rightarrow> base64LastChunkHandling \<Rightarrow> byte list \<Rightarrow> decodeResult" where
  "base64DecodeUnicode u0 dm lch dst =
     (let u = drop 1 u0; d = (\<lambda>i. dm (ucast (u ! i))) in
      decode_loops
        (\<lambda>read. if (u ! read OR u ! (read + 1) OR u ! (read + 2) OR u ! (read + 3) OR
                     u ! (read + 4) OR u ! (read + 5) OR u ! (read + 6) OR u ! (read + 7)) AND 0xFF00 = 0
                then map_option put6 (base64Assemble64 (d read) (d (read + 1)) (d (read + 2)) (d (read + 3))
                       (d (read + 4)) (d (read + 5)) (d (read + 6)) (d (read + 7)))
                else None)
        (\<lambda>read. if (u ! read OR u ! (read + 1) OR u ! (read + 2) OR u ! (read + 3)) AND 0xFF00 = 0
                then map_option put3 (base64Assemble32 (d read) (d (read + 1)) (d (read + 2)) (d (read + 3)))
                else None)
        u dm lch dst)"

definition fromBase64Into ::
    "smem \<Rightarrow> jstr \<Rightarrow> decodeMap \<Rightarrow> base64LastChunkHandling \<Rightarrow> byte list \<Rightarrow> (decodeResult \<times> smem) option" where
  "fromBase64Into m s dm lch dst =
     do { (f, m) \<leftarrow> devirtualizeString m s;
          Some (case f of Inl a \<Rightarrow> base64DecodeAscii a dm lch dst | Inr u \<Rightarrow> base64DecodeUnicode u dm lch dst, m) }"

definition fromBase64 ::
    "smem \<Rightarrow> jstr \<Rightarrow> decodeMap \<Rightarrow> base64LastChunkHandling \<Rightarrow> ((nat \<times> byte list \<times> base64Error option) \<times> smem) option" where
  "fromBase64 m s dm lch =
     do { (n, m) \<leftarrow> Length m s;
          ((read, written, er, dst), m) \<leftarrow> fromBase64Into m s dm lch (replicate ((n + 3) div 4 * 3) 0);
          Some ((read, take written dst, er), m) }"

section \<open>The algorithm of ECMAScript\<close>

text \<open>
  \<open>FromBase64(string, alphabet, lastChunkHandling, maxLength)\<close>, one character at a time. The digit of a character is its
  position in the alphabet; three bytes are made of four digits by arithmetic.
\<close>

fun position :: "'a list \<Rightarrow> 'a \<Rightarrow> nat option" where
  "position [] c = None"
| "position (x # xs) c = (if x = c then Some 0 else map_option Suc (position xs c))"

definition digit_of :: "gostring \<Rightarrow> 16 word \<Rightarrow> byte option" where
  "digit_of alphabet c = map_option byte_of (position (map ucast alphabet) c)"

definition three_bytes :: "byte \<Rightarrow> byte \<Rightarrow> byte \<Rightarrow> byte \<Rightarrow> byte list" where
  "three_bytes d1 d2 d3 d4 =
     [byte_of (unat d1 * 4 + unat d2 div 16), byte_of (unat d2 mod 16 * 16 + unat d3 div 4),
      byte_of (unat d3 mod 4 * 64 + unat d4)]"

definition DecodeFinal :: "byte list \<Rightarrow> bool \<Rightarrow> base64Error + byte list" where
  "DecodeFinal chunk throwOnExtraBits =
     (case chunk of
        [d1, d2] \<Rightarrow>
          let bs = three_bytes d1 d2 0 0 in if throwOnExtraBits \<and> bs ! 1 \<noteq> 0 then Inl ExtraBits else Inr [bs ! 0]
      | [d1, d2, d3] \<Rightarrow>
          let bs = three_bytes d1 d2 d3 0 in
          if throwOnExtraBits \<and> bs ! 2 \<noteq> 0 then Inl ExtraBits else Inr [bs ! 0, bs ! 1]
      | _ \<Rightarrow> Inr [])"

type_synonym specResult = "nat \<times> byte list \<times> base64Error option"

definition spec_end :: "ustr \<Rightarrow> base64LastChunkHandling \<Rightarrow> nat \<Rightarrow> byte list \<Rightarrow> byte list \<Rightarrow> specResult" where
  "spec_end s lch read bytes chunk =
     (if chunk = [] then (length s, bytes, None)
      else case lch of
        Stop \<Rightarrow> (read, bytes, None)
      | Strict \<Rightarrow> (read, bytes, Some MissingPaddingInChunk)
      | _ \<Rightarrow> if length chunk = 1 then (read, bytes, Some SingleCharacter)
             else (case DecodeFinal chunk False of Inr bs \<Rightarrow> (length s, bytes @ bs, None) | Inl e \<Rightarrow> (read, bytes, Some e)))"

definition spec_padding :: "ustr \<Rightarrow> base64LastChunkHandling \<Rightarrow> nat \<Rightarrow> byte list \<Rightarrow> byte list \<Rightarrow> nat \<Rightarrow> specResult" where
  "spec_padding s lch read bytes chunk index =
     (if length chunk < 2 then (read, bytes, Some UnexpectedPadding)
      else let index = skipAsciiWhitespace s index in
        if length chunk = 2 \<and> index = length s then (read, bytes, if lch = Stop then None else Some MissingPadding)
        else let index = (if length chunk = 2 \<and> s ! index = 0x3D then skipAsciiWhitespace s (index + 1) else index) in
          if index < length s then (read, bytes, Some AfterPadding)
          else (case DecodeFinal chunk (lch = Strict) of
                  Inl e \<Rightarrow> (read, bytes, Some e) | Inr bs \<Rightarrow> (length s, bytes @ bs, None)))"

function FromBase64_loop ::
    "ustr \<Rightarrow> gostring \<Rightarrow> base64LastChunkHandling \<Rightarrow> nat option \<Rightarrow> nat \<Rightarrow> byte list \<Rightarrow> byte list \<Rightarrow> nat \<Rightarrow> specResult" where
  "FromBase64_loop s alphabet lch maxLength read bytes chunk index =
     (let index = skipAsciiWhitespace s index in
      if length s \<le> index then spec_end s lch read bytes chunk
      else let char = s ! index; index = index + 1 in
        if char = 0x3D then spec_padding s lch read bytes chunk index
        else case digit_of alphabet char of
          None \<Rightarrow> (read, bytes, Some InvalidCharacter)
        | Some d \<Rightarrow>
            if maxLength = Some (length bytes + 1) \<and> length chunk = 2 \<or> maxLength = Some (length bytes + 2) \<and> length chunk = 3 then (read, bytes, None)
            else if length chunk = 3 then
              let bytes = bytes @ three_bytes (chunk ! 0) (chunk ! 1) (chunk ! 2) d in
              if maxLength = Some (length bytes) then (index, bytes, None)
              else FromBase64_loop s alphabet lch maxLength index bytes [] index
            else FromBase64_loop s alphabet lch maxLength read bytes (chunk @ [d]) index)"
  by auto
termination
  by (relation "measure (\<lambda>(s, alphabet, lch, maxLength, read, bytes, chunk, index). length s - index)")
     (auto simp: skip_measure)

declare FromBase64_loop.simps [simp del]

definition FromBase64 :: "ustr \<Rightarrow> gostring \<Rightarrow> base64LastChunkHandling \<Rightarrow> nat option \<Rightarrow> specResult" where
  "FromBase64 s alphabet lch maxLength =
     (if maxLength = Some 0 then (0, [], None) else FromBase64_loop s alphabet lch maxLength 0 [] [] 0)"

section \<open>Tables and digits\<close>

lemma position_None: "position xs c = None \<longleftrightarrow> c \<notin> set xs"
  by (induction xs) auto

lemma position_Some: "position xs c = Some i \<Longrightarrow> i < length xs \<and> xs ! i = c"
  by (induction xs arbitrary: i) (auto split: if_splits)

lemma position_nth: "distinct xs \<Longrightarrow> i < length xs \<Longrightarrow> position xs (xs ! i) = Some i"
  by (induction xs arbitrary: i) (auto simp: nth_Cons' split: if_splits)

lemma position_map: "inj f \<Longrightarrow> position (map f xs) (f c) = position xs c"
  by (induction xs) (auto simp: inj_eq)

lemma foldl_decode_table:
  "distinct xs \<Longrightarrow> foldl (\<lambda>t (i, c). t(c := byte_of i)) t (List.enumerate n xs) c =
     (case position xs c of Some i \<Rightarrow> byte_of (n + i) | None \<Rightarrow> t c)"
proof (induction xs arbitrary: n t)
  case (Cons x xs)
  then show ?case
    by (cases "position xs c"; cases "x = c") (auto simp: position_None [THEN iffD2] dest: position_Some)
qed simp

definition good_alphabet :: "gostring \<Rightarrow> bool" where
  "good_alphabet alphabet \<longleftrightarrow> distinct alphabet \<and> length alphabet = 64 \<and> is_ascii alphabet \<and> 0x3D \<notin> set alphabet \<and>
     list_all (\<lambda>c. \<not> isAsciiWhitespace (ucast c)) alphabet"

lemma good_stdAlphabet: "good_alphabet stdAlphabet"
  by (simp add: good_alphabet_def stdAlphabet_def bytes_of_def byte_of_def isAsciiWhitespace_def)

lemma good_urlAlphabet: "good_alphabet urlAlphabet"
  by (simp add: good_alphabet_def urlAlphabet_def bytes_of_def byte_of_def isAsciiWhitespace_def)

definition good_map :: "decodeMap \<Rightarrow> gostring \<Rightarrow> bool" where
  "good_map dm alphabet \<longleftrightarrow> good_alphabet alphabet \<and>
     (\<forall>c. dm c = (case position alphabet c of Some i \<Rightarrow> byte_of i | None \<Rightarrow> 0xff))"

lemma good_makeDecodeMap: "good_alphabet alphabet \<Longrightarrow> good_map (makeDecodeMap alphabet) alphabet"
  by (auto simp: good_map_def makeDecodeMap_def foldl_decode_table good_alphabet_def split: option.split)

lemma good_base64DecodeMap: "good_map base64DecodeMap stdAlphabet"
  unfolding base64DecodeMap_def by (rule good_makeDecodeMap [OF good_stdAlphabet])

lemma good_base64DecodeMapUrl: "good_map base64DecodeMapUrl urlAlphabet"
  unfolding base64DecodeMapUrl_def by (rule good_makeDecodeMap [OF good_urlAlphabet])

definition digit :: "byte \<Rightarrow> bool" where
  "digit b \<longleftrightarrow> unat b < 64"

lemma good_map_digit: "good_map dm alphabet \<Longrightarrow> dm c = 0xff \<or> digit (dm c)"
  using position_Some [of alphabet c]
  by (auto simp: good_map_def good_alphabet_def digit_def unat_byte split: option.split)

lemma digit_not_ff: "digit b \<Longrightarrow> b \<noteq> 0xff"
  by (auto simp: digit_def)

lemma digit_of_map:
  assumes "good_map dm alphabet"
  shows "digit_of alphabet (ucast c) = (if dm c = 0xff then None else Some (dm c))"
proof (cases "position alphabet c")
  case None
  then show ?thesis using assms by (simp add: digit_of_def good_map_def position_map [OF inj_widen])
next
  case (Some i)
  then have "i < 64" using position_Some [OF Some] assms by (simp add: good_map_def good_alphabet_def)
  then have "byte_of i \<noteq> 0xff" using digit_not_ff [of "byte_of i"] by (simp add: digit_def unat_byte)
  then show ?thesis using Some assms by (simp add: digit_of_def good_map_def position_map [OF inj_widen])
qed

lemma narrow_widen: "unat (char :: 16 word) < 256 \<Longrightarrow> ucast (ucast char :: byte) = char"
  by (simp add: word_unat_eq_iff unsigned_ucast_eq unsigned_take_bit_eq take_bit_nat_eq_self)

lemma digit_of_char:
  assumes "good_map dm alphabet"
  shows "digit_of alphabet char =
    (if 128 \<le> unat char \<or> dm (ucast char) = 0xff then None else Some (dm (ucast char)))"
proof (cases "128 \<le> unat char")
  case True
  have "char \<notin> set (map ucast alphabet)"
    using True assms unat_widen by (auto simp: good_map_def good_alphabet_def is_ascii_def list_all_iff)
  then show ?thesis using True by (simp add: digit_of_def position_None [THEN iffD2])
next
  case False
  then show ?thesis using digit_of_map [OF assms, of "ucast char"] narrow_widen [of char] by simp
qed

section \<open>Assembling digits\<close>

lemma digit_bits: "digit b \<Longrightarrow> 6 \<le> k \<Longrightarrow> \<not> bit b k"
proof -
  assume "digit b" and k: "6 \<le> k"
  then have "unat b < 2 ^ k" using power_increasing [OF k, of "2::nat"] by (simp add: digit_def)
  then have "\<not> bit (unat b) k" by (simp add: bit_iff_odd)
  then show ?thesis by (auto simp: bit_unsigned_iff dest: bit_imp_le_length)
qed

lemma less_8_cases: "(i::nat) < 8 \<Longrightarrow> i = 0 \<or> i = 1 \<or> i = 2 \<or> i = 3 \<or> i = 4 \<or> i = 5 \<or> i = 6 \<or> i = 7"
  by auto

lemma put3_bits:
  assumes "digit n1" "digit n2" "digit n3" "digit n4"
  shows "put3 (base64Assemble32Checked n1 n2 n3 n4) =
    [push_bit 2 n1 OR drop_bit 4 n2, push_bit 4 n2 OR drop_bit 2 n3, push_bit 6 n3 OR n4]"
proof -
  note b = assms [THEN digit_bits]
  let ?v = "base64Assemble32Checked n1 n2 n3 n4"
  have "ucast (drop_bit 16 ?v) = push_bit 2 n1 OR drop_bit 4 n2"
    by (rule bit_word_eqI) (auto dest!: less_8_cases simp: bit_simps base64Assemble32Checked_def b)
  moreover have "ucast (drop_bit 8 ?v) = push_bit 4 n2 OR drop_bit 2 n3"
    by (rule bit_word_eqI) (auto dest!: less_8_cases simp: bit_simps base64Assemble32Checked_def b)
  moreover have "ucast ?v = push_bit 6 n3 OR n4"
    by (rule bit_word_eqI) (auto dest!: less_8_cases simp: bit_simps base64Assemble32Checked_def b)
  ultimately show ?thesis by (simp add: put3_def)
qed

lemma three_bytes_bits:
  assumes "digit n1" "digit n2" "digit n3" "digit n4"
  shows "three_bytes n1 n2 n3 n4 =
    [push_bit 2 n1 OR drop_bit 4 n2, push_bit 4 n2 OR drop_bit 2 n3, push_bit 6 n3 OR n4]"
proof -
  note b = assms [THEN digit_bits] and u = assms [unfolded digit_def]
  have or: "a OR c = byte_of (unat a + unat c)" if "\<And>k. \<not> bit a k \<or> \<not> bit c k" for a c :: byte
    using disjunctive_add [of a c] that by (simp add: byte_of_def)
  have p: "unat (push_bit k n) = unat n * 2 ^ k mod 256" for k and n :: byte
    by (subst unsigned_push_bit_eq) (simp add: push_bit_eq_mult take_bit_eq_mod)
  have d: "unat (drop_bit k n) = unat n div 2 ^ k" for k and n :: byte
    by (subst unsigned_drop_bit_eq) (simp add: drop_bit_eq_div take_bit_nat_eq_self unsigned_less [of n, where ?'a = nat, simplified])
  have "push_bit 2 n1 OR drop_bit 4 n2 = byte_of (unat n1 * 4 + unat n2 div 16)"
    using u by (subst or) (auto simp: bit_simps b p d)
  moreover have "unat n2 * 16 mod 256 = unat n2 mod 16 * 16" "unat n3 * 64 mod 256 = unat n3 mod 4 * 64"
    by (simp_all add: mult_mod_left)
  moreover have "push_bit 4 n2 OR drop_bit 2 n3 = byte_of (unat n2 * 16 mod 256 + unat n3 div 4)"
    by (subst or) (auto simp: bit_simps b p d)
  moreover have "push_bit 6 n3 OR n4 = byte_of (unat n3 * 64 mod 256 + unat n4)"
    by (subst or) (auto simp: bit_simps b p d)
  ultimately show ?thesis by (simp add: three_bytes_def)
qed

lemma put3_three_bytes:
  "digit n1 \<Longrightarrow> digit n2 \<Longrightarrow> digit n3 \<Longrightarrow> digit n4 \<Longrightarrow>
   put3 (base64Assemble32Checked n1 n2 n3 n4) = three_bytes n1 n2 n3 n4"
  by (simp add: put3_bits three_bytes_bits)

text \<open>An entry of a table. The bitwise or of entries is \<^verbatim>\<open>0xff\<close> exactly if one of them is.\<close>

definition entry :: "byte \<Rightarrow> bool" where
  "entry b \<longleftrightarrow> b = 0xff \<or> digit b"

lemma entry_or: "entry a \<Longrightarrow> entry b \<Longrightarrow> entry (a OR b)"
  and or_ff: "entry a \<Longrightarrow> entry b \<Longrightarrow> a OR b = 0xff \<longleftrightarrow> a = 0xff \<or> b = 0xff"
proof -
  assume e: "entry a" "entry b"
  have full: "(0xff :: byte) = - 1" by simp
  have d: "digit c \<longleftrightarrow> take_bit 6 (unat c) = unat c" for c :: byte
    by (simp add: digit_def take_bit_nat_eq_self_iff)
  have "digit (a OR b)" if "digit a" "digit b"
    using that unfolding d by (simp add: unsigned_or_eq take_bit_or)
  then show "entry (a OR b)" "a OR b = 0xff \<longleftrightarrow> a = 0xff \<or> b = 0xff"
    using e digit_not_ff unfolding entry_def full by auto
qed

lemma digit_iff: "digit b \<longleftrightarrow> entry b \<and> b \<noteq> 0xff"
  using digit_not_ff by (auto simp: entry_def)

lemma Assemble32_Some:
  assumes "entry n1" "entry n2" "entry n3" "entry n4"
  shows "base64Assemble32 n1 n2 n3 n4 = Some v \<longleftrightarrow>
    digit n1 \<and> digit n2 \<and> digit n3 \<and> digit n4 \<and> v = base64Assemble32Checked n1 n2 n3 n4"
  using assms by (auto simp: base64Assemble32_def digit_iff or_ff entry_or)

lemma Assemble64_Some:
  assumes "entry n1" "entry n2" "entry n3" "entry n4" "entry n5" "entry n6" "entry n7" "entry n8"
    and "base64Assemble64 n1 n2 n3 n4 n5 n6 n7 n8 = Some v"
  shows "digit n1 \<and> digit n2 \<and> digit n3 \<and> digit n4 \<and> digit n5 \<and> digit n6 \<and> digit n7 \<and> digit n8"
  using assms by (simp add: base64Assemble64_def digit_iff or_ff entry_or split: if_splits)

lemma put6_three_bytes:
  assumes "digit n1" "digit n2" "digit n3" "digit n4" "digit n5" "digit n6" "digit n7" "digit n8"
    and "base64Assemble64 n1 n2 n3 n4 n5 n6 n7 n8 = Some v"
  shows "put6 v = three_bytes n1 n2 n3 n4 @ three_bytes n5 n6 n7 n8"
proof -
  note b = assms(1-8) [THEN digit_bits]
  have v: "v = push_bit 42 (ucast n1) OR push_bit 36 (ucast n2) OR push_bit 30 (ucast n3) OR
               push_bit 24 (ucast n4) OR push_bit 18 (ucast n5) OR push_bit 12 (ucast n6) OR
               push_bit 6 (ucast n7) OR ucast n8"
    using assms(9) by (simp add: base64Assemble64_def split: if_splits)
  have "ucast (drop_bit 40 v) = push_bit 2 n1 OR drop_bit 4 n2" "ucast (drop_bit 32 v) = push_bit 4 n2 OR drop_bit 2 n3"
    "ucast (drop_bit 24 v) = push_bit 6 n3 OR n4" "ucast (drop_bit 16 v) = push_bit 2 n5 OR drop_bit 4 n6"
    "ucast (drop_bit 8 v) = push_bit 4 n6 OR drop_bit 2 n7" "ucast v = push_bit 6 n7 OR n8"
    by (rule bit_word_eqI, auto dest!: less_8_cases simp: bit_simps v b)+
  then show ?thesis using assms by (simp add: put6_def three_bytes_bits)
qed

section \<open>The fast loops are repeated chunks\<close>

definition plain :: "ustr \<Rightarrow> decodeMap \<Rightarrow> nat \<Rightarrow> bool" where
  "plain s dm i \<longleftrightarrow> i < length s \<and> unat (s ! i) < 256 \<and> digit (dm (ucast (s ! i)))"

lemma alphabet_char:
  assumes "good_map dm alphabet" "unat c < 256" "digit (dm (ucast c))"
  shows "unat c < 128" "c \<noteq> 0x3D" "\<not> isAsciiWhitespace c"
proof -
  have "dm (ucast c) \<noteq> 0xff" using assms(3) digit_not_ff by blast
  then have "ucast c \<in> set alphabet"
    using assms(1) position_None [of alphabet "ucast c"] by (auto simp: good_map_def)
  moreover have c: "ucast (ucast c :: byte) = c" using narrow_widen assms(2) by blast
  ultimately show "unat c < 128" "c \<noteq> 0x3D" "\<not> isAsciiWhitespace c"
    using assms(1) unat_widen [of "ucast c"]
    by (auto simp: good_map_def good_alphabet_def is_ascii_def list_all_iff)
qed

lemma chunk_step_plain:
  assumes "good_map dm alphabet" "plain s dm i" "3 \<le> length dst - d0"
  shows "chunk_step s dm lch dst i0 d0 i chunk n = Digit (i + 1) (dm (ucast (s ! i)))"
proof -
  have p: "i < length s" "unat (s ! i) < 256" "digit (dm (ucast (s ! i)))" using assms(2) by (auto simp: plain_def)
  note c = alphabet_char [OF assms(1) p(2,3)]
  have "skipAsciiWhitespace s i = i" using c(3) by (simp add: skipAsciiWhitespace.simps [of s i])
  then show ?thesis using p c assms(3) digit_not_ff [OF p(3)] by (auto simp: chunk_step_def Let_def)
qed

lemma decodeChunk_loop_Digit:
  assumes "chunk_step s dm lch dst i0 d0 index chunk n = Digit i b"
  shows "n \<noteq> 3 \<Longrightarrow> decodeChunk_loop s dm lch dst i0 d0 index chunk n = decodeChunk_loop s dm lch dst i0 d0 i (chunk[n := b]) (n + 1)"
    and "n = 3 \<Longrightarrow> decodeChunk_loop s dm lch dst i0 d0 index chunk n =
      finish dst i d0 (length dst - d0 \<le> 3)
        (put3 (base64Assemble32Checked (chunk[3 := b] ! 0) (chunk[3 := b] ! 1) (chunk[3 := b] ! 2) (chunk[3 := b] ! 3)))"
  using assms
  by (simp_all add: decodeChunk_loop.simps [of s dm lch dst i0 d0 index chunk n]
      decodeChunk_loop.simps [of s dm lch dst i0 d0 index chunk 3] Let_def)

abbreviation digit_at :: "ustr \<Rightarrow> decodeMap \<Rightarrow> nat \<Rightarrow> byte" where
  "digit_at s dm i \<equiv> dm (ucast (s ! i))"

lemma base64DecodeChunk_plain:
  assumes "good_map dm alphabet" "plain s dm i" "plain s dm (i + 1)" "plain s dm (i + 2)" "plain s dm (i + 3)"
    and "3 \<le> length dst - d"
  shows "base64DecodeChunk s i dm lch dst d = finish dst (i + 4) d (length dst - d \<le> 3)
    (three_bytes (digit_at s dm i) (digit_at s dm (i + 1)) (digit_at s dm (i + 2)) (digit_at s dm (i + 3)))"
proof -
  note st = chunk_step_plain [OF assms(1) _ assms(6)]
  note d = decodeChunk_loop_Digit(1) [OF st] decodeChunk_loop_Digit(2) [OF st]
  have dg: "digit (digit_at s dm (i + k))" if "plain s dm (i + k)" for k using that by (simp add: plain_def)
  show ?thesis
    unfolding base64DecodeChunk_def
    using assms(2-5) dg [of 0] dg [of 1] dg [of 2] dg [of 3]
    by (simp add: d put3_three_bytes numeral_eq_Suc)
qed

text \<open>What remains to be done from a state of the loops, by chunks alone.\<close>

definition chunks :: "ustr \<Rightarrow> decodeMap \<Rightarrow> base64LastChunkHandling \<Rightarrow> byte list \<Rightarrow> nat \<Rightarrow> nat \<Rightarrow> decodeResult" where
  "chunks s dm lch dst read written =
     (if written = length dst then (read, written, None, dst) else final_loop s dm lch dst read written)"

lemma length_go_copy: "i + length src \<le> length dst \<Longrightarrow> length (go_copy dst i src) = length dst"
  by (simp add: go_copy_def)

lemma length_three_bytes [simp]: "length (three_bytes a b c d) = 3"
  by (simp add: three_bytes_def)

lemma chunks_three:
  assumes "base64DecodeChunk s i dm lch dst d = finish dst j d (length dst - d \<le> 3) bs" "length bs = 3" "3 \<le> length dst - d"
  shows "chunks s dm lch dst i d = chunks s dm lch (go_copy dst d bs) j (d + 3)"
proof -
  have "d \<noteq> length dst" "length (go_copy dst d bs) = length dst" using assms by (auto simp: length_go_copy)
  then show ?thesis
    using assms by (auto simp: chunks_def final_loop.simps [of s dm lch dst i d] finish_def min_def Let_def)
qed

lemma decodeChunk_loop_continue:
  assumes "\<not> eof (decodeChunk_loop s dm lch dst i0 d0 index chunk n)"
    "err (decodeChunk_loop s dm lch dst i0 d0 index chunk n) = None"
  shows "newDstIndex (decodeChunk_loop s dm lch dst i0 d0 index chunk n) = d0 + 3 \<and>
    length (out (decodeChunk_loop s dm lch dst i0 d0 index chunk n)) = length dst \<and> 3 < length dst - d0"
  using assms
proof (induction s dm lch dst i0 d0 index chunk n rule: decodeChunk_loop.induct)
  case (1 s dm lch dst i0 d0 index chunk n)
  show ?case
  proof (cases "chunk_step s dm lch dst i0 d0 index chunk n")
    case (Return r)
    then show ?thesis using 1(2,3) chunk_step_Return [OF Return]
      by (simp add: decodeChunk_loop.simps [of s dm lch dst i0 d0 index chunk n])
  next
    case (Digit i b)
    then show ?thesis using 1(2,3) 1(1) [OF Digit refl refl]
      by (auto simp: decodeChunk_loop.simps [of s dm lch dst i0 d0 index chunk n] Let_def finish_def put3_def
          go_copy_def split: if_splits)
  qed
qed

lemma chunks_slow:
  assumes "written < length dst"
  shows "chunks s dm lch dst read written =
    (let r = base64DecodeChunk s read dm lch dst written in
     if eof r \<or> err r \<noteq> None then (newIndex r, newDstIndex r, err r, out r)
     else chunks s dm lch (out r) (newIndex r) (newDstIndex r))"
proof -
  let ?r = "base64DecodeChunk s read dm lch dst written"
  have "newDstIndex ?r \<noteq> length (out ?r)" if "\<not> eof ?r" "err ?r = None"
    using decodeChunk_loop_continue that unfolding base64DecodeChunk_def by fastforce
  then show ?thesis
    using assms by (auto simp: chunks_def final_loop.simps [of s dm lch dst read written] Let_def)
qed

lemma fast_loop_chunks:
  assumes "0 < nb"
    and "\<And>i dst d bs. get i = Some bs \<Longrightarrow> i + chars \<le> length s \<Longrightarrow> nb \<le> length dst - d \<Longrightarrow>
      length bs = nb \<and> chunks s dm lch dst i d = chunks s dm lch (go_copy dst d bs) (i + chars) (d + nb)"
    and "written \<le> length dst"
  shows "case fast_loop get chars nb s dm lch dst read written of
      (True, res) \<Rightarrow> res = chunks s dm lch dst read written
    | (False, r, w, _, d) \<Rightarrow> chunks s dm lch d r w = chunks s dm lch dst read written \<and> w \<le> length d"
  using assms
proof (induction get chars nb s dm lch dst read written rule: fast_loop.induct)
  case (1 get chars nb s dm lch dst read written)
  show ?case
  proof (cases "0 < chars \<and> chars \<le> length s - read \<and> nb \<le> length dst - written")
    case in_loop: True
    then have w: "written < length dst" using 1(3) by linarith
    show ?thesis
    proof (cases "get read")
      case (Some bs)
      have "read + chars \<le> length s" using in_loop by linarith
      with 1(4) [OF Some] in_loop have st: "length bs = nb"
        "chunks s dm lch dst read written = chunks s dm lch (go_copy dst written bs) (read + chars) (written + nb)" by blast+
      have "written + length bs \<le> length dst" using st(1) in_loop w by linarith
      then have "written + nb \<le> length (go_copy dst written bs)" using st(1) by (simp add: length_go_copy)
      from 1(2) [OF in_loop Some 1(3,4) this] show ?thesis
        unfolding st(2) using in_loop Some by (simp add: fast_loop.simps [of get chars nb s dm lch dst read written])
    next
      case None
      let ?r = "base64DecodeChunk s read dm lch dst written"
      show ?thesis
      proof (cases "eof ?r \<or> err ?r \<noteq> None")
        case True
        then show ?thesis using in_loop None chunks_slow [OF w, of s dm lch read]
          by (simp add: fast_loop.simps [of get chars nb s dm lch dst read written] Let_def)
      next
        case False
        then have "newDstIndex ?r \<le> length (out ?r)"
          using decodeChunk_loop_continue unfolding base64DecodeChunk_def by fastforce
        moreover have eq: "chunks s dm lch dst read written = chunks s dm lch (out ?r) (newIndex ?r) (newDstIndex ?r)"
          using chunks_slow [OF w, of s dm lch read] False by (simp add: Let_def)
        ultimately show ?thesis
          unfolding eq using in_loop None False 1(1) [OF in_loop None refl False 1(3,4)]
          by (simp add: fast_loop.simps [of get chars nb s dm lch dst read written] Let_def)
      qed
    qed
  next
    case False
    then have "fast_loop get chars nb s dm lch dst read written = (False, read, written, None, dst)"
      unfolding fast_loop.simps [of get chars nb s dm lch dst read written] by (rule if_not_P)
    then show ?thesis using 1(5) by simp
  qed
qed

lemma decode_loops_chunks:
  assumes "\<And>i dst d bs. get8 i = Some bs \<Longrightarrow> i + 8 \<le> length s \<Longrightarrow> 6 \<le> length dst - d \<Longrightarrow>
      length bs = 6 \<and> chunks s dm lch dst i d = chunks s dm lch (go_copy dst d bs) (i + 8) (d + 6)"
    and "\<And>i dst d bs. get4 i = Some bs \<Longrightarrow> i + 4 \<le> length s \<Longrightarrow> 3 \<le> length dst - d \<Longrightarrow>
      length bs = 3 \<and> chunks s dm lch dst i d = chunks s dm lch (go_copy dst d bs) (i + 4) (d + 3)"
  shows "decode_loops get8 get4 s dm lch dst = chunks s dm lch dst 0 0"
proof -
  have a: "case fast_loop get8 8 6 s dm lch dst 0 0 of
      (True, res) \<Rightarrow> res = chunks s dm lch dst 0 0
    | (False, r, w, _, d) \<Rightarrow> chunks s dm lch d r w = chunks s dm lch dst 0 0 \<and> w \<le> length d"
    by (rule fast_loop_chunks) (simp, erule (2) assms(1), simp)
  have b: "case fast_loop get4 4 3 s dm lch d r w of
      (True, res) \<Rightarrow> res = chunks s dm lch d r w
    | (False, r', w', _, d') \<Rightarrow> chunks s dm lch d' r' w' = chunks s dm lch d r w \<and> w' \<le> length d'"
    if "w \<le> length d" for d r w
    by (rule fast_loop_chunks) (simp, erule (2) assms(2), rule that)
  show ?thesis
  proof (cases "fast_loop get8 8 6 s dm lch dst 0 0")
    case (fields ret1 r1 w1 e1 d1)
    show ?thesis
    proof (cases ret1)
      case True
      then show ?thesis using a fields by (simp add: decode_loops_def)
    next
      case False
      then have 1: "chunks s dm lch d1 r1 w1 = chunks s dm lch dst 0 0" "w1 \<le> length d1" using a fields by simp_all
      show ?thesis
      proof (cases "fast_loop get4 4 3 s dm lch d1 r1 w1")
        case inner: (fields ret2 r2 w2 e2 d2)
        then show ?thesis using b [OF 1(2), of r1] 1(1) fields False
          by (cases ret2) (simp_all add: decode_loops_def chunks_def [of s dm lch d2])
      qed
    qed
  qed
qed

lemma go_copy_append:
  "d + length b1 + length b2 \<le> length dst \<Longrightarrow> go_copy (go_copy dst d b1) (d + length b1) b2 = go_copy dst d (b1 @ b2)"
  by (simp add: go_copy_def ac_simps)

abbreviation three_at :: "ustr \<Rightarrow> decodeMap \<Rightarrow> nat \<Rightarrow> byte list" where
  "three_at s dm i \<equiv>
     three_bytes (digit_at s dm i) (digit_at s dm (i + 1)) (digit_at s dm (i + 2)) (digit_at s dm (i + 3))"

lemma chunks_plain4:
  assumes "good_map dm alphabet" "\<And>k. k < 4 \<Longrightarrow> plain s dm (i + k)" "3 \<le> length dst - d"
  shows "chunks s dm lch dst i d = chunks s dm lch (go_copy dst d (three_at s dm i)) (i + 4) (d + 3)"
proof -
  have "plain s dm i" "plain s dm (i + 1)" "plain s dm (i + 2)" "plain s dm (i + 3)"
    using assms(2) [of 0] assms(2) [of 1] assms(2) [of 2] assms(2) [of 3] by simp_all
  from base64DecodeChunk_plain [OF assms(1) this assms(3)] show ?thesis
    by (rule chunks_three) (use assms(3) in simp_all)
qed

lemma chunks_plain8:
  assumes "good_map dm alphabet" "\<And>k. k < 8 \<Longrightarrow> plain s dm (i + k)" "6 \<le> length dst - d"
  shows "chunks s dm lch dst i d = chunks s dm lch (go_copy dst d (three_at s dm i @ three_at s dm (i + 4))) (i + 8) (d + 6)"
proof -
  have d: "d + 3 + 3 \<le> length dst" using assms(3) by linarith
  let ?dst = "go_copy dst d (three_at s dm i)"
  have l: "length ?dst = length dst" using d by (simp add: length_go_copy)
  have p: "plain s dm (i + 4 + k)" if "k < 4" for k using assms(2) [of "4 + k"] that by (simp add: add.assoc)
  have "chunks s dm lch dst i d = chunks s dm lch ?dst (i + 4) (d + 3)"
    by (rule chunks_plain4 [OF assms(1)]) (use assms(2) d in auto)
  also have "\<dots> = chunks s dm lch (go_copy ?dst (d + 3) (three_at s dm (i + 4))) (i + 4 + 4) (d + 3 + 3)"
    by (rule chunks_plain4 [OF assms(1) p]) (use l d in auto)
  also have "go_copy ?dst (d + 3) (three_at s dm (i + 4)) = go_copy dst d (three_at s dm i @ three_at s dm (i + 4))"
    using go_copy_append [of d "three_at s dm i" "three_at s dm (i + 4)" dst] d by simp
  finally show ?thesis by (simp add: add.assoc)
qed

lemma widen_narrow [simp]: "ucast (ucast (b :: byte) :: 16 word) = b"
  using unsigned_less [of b, where ?'a = nat]
  by (simp add: word_unat_eq_iff unsigned_ucast_eq unsigned_take_bit_eq take_bit_nat_eq_self)

text \<open>Successful assembly is the plain case.\<close>

lemma assemble_plain:
  assumes "good_map dm alphabet"
  shows "\<lbrakk>map_option put6 (base64Assemble64 (digit_at s dm i) (digit_at s dm (i + 1)) (digit_at s dm (i + 2)) (digit_at s dm (i + 3))
             (digit_at s dm (i + 4)) (digit_at s dm (i + 5)) (digit_at s dm (i + 6)) (digit_at s dm (i + 7))) = Some bs;
          \<forall>k<8. i + k < length s \<and> unat (s ! (i + k)) < 256\<rbrakk> \<Longrightarrow>
          (\<forall>k<8. plain s dm (i + k)) \<and> bs = three_at s dm i @ three_at s dm (i + 4)"
    and "\<lbrakk>map_option put3 (base64Assemble32 (digit_at s dm i) (digit_at s dm (i + 1)) (digit_at s dm (i + 2)) (digit_at s dm (i + 3))) = Some bs;
          \<forall>k<4. i + k < length s \<and> unat (s ! (i + k)) < 256\<rbrakk> \<Longrightarrow>
          (\<forall>k<4. plain s dm (i + k)) \<and> bs = three_at s dm i"
proof -
  have e: "entry (dm c)" for c using good_map_digit [OF assms, of c] by (simp add: entry_def)
  { assume a: "map_option put6 (base64Assemble64 (digit_at s dm i) (digit_at s dm (i + 1)) (digit_at s dm (i + 2)) (digit_at s dm (i + 3))
             (digit_at s dm (i + 4)) (digit_at s dm (i + 5)) (digit_at s dm (i + 6)) (digit_at s dm (i + 7))) = Some bs"
      and u: "\<forall>k<8. i + k < length s \<and> unat (s ! (i + k)) < 256"
    then obtain v where v: "base64Assemble64 (digit_at s dm i) (digit_at s dm (i + 1)) (digit_at s dm (i + 2)) (digit_at s dm (i + 3))
             (digit_at s dm (i + 4)) (digit_at s dm (i + 5)) (digit_at s dm (i + 6)) (digit_at s dm (i + 7)) = Some v" "bs = put6 v"
      by auto
    note d = Assemble64_Some [OF e e e e e e e e v(1)]
    have "plain s dm (i + k)" if "k < 8" for k
      using less_8_cases [OF that] d u that by (auto simp: plain_def)
    moreover have "bs = three_at s dm i @ three_at s dm (i + 4)"
      using put6_three_bytes [OF _ _ _ _ _ _ _ _ v(1)] d v(2) by (simp add: ac_simps)
    ultimately show "(\<forall>k<8. plain s dm (i + k)) \<and> bs = three_at s dm i @ three_at s dm (i + 4)" by blast }
  { assume a: "map_option put3 (base64Assemble32 (digit_at s dm i) (digit_at s dm (i + 1)) (digit_at s dm (i + 2)) (digit_at s dm (i + 3))) = Some bs"
      and u: "\<forall>k<4. i + k < length s \<and> unat (s ! (i + k)) < 256"
    then have d: "digit (digit_at s dm i)" "digit (digit_at s dm (i + 1))" "digit (digit_at s dm (i + 2))"
      "digit (digit_at s dm (i + 3))" and bs: "bs = three_at s dm i"
      using Assemble32_Some [OF e e e e] by (auto simp: put3_three_bytes)
    have "plain s dm (i + k)" if "k < 4" for k
    proof -
      have "k = 0 \<or> k = 1 \<or> k = 2 \<or> k = 3" using that by auto
      then show ?thesis using d u that by (auto simp: plain_def)
    qed
    then show "(\<forall>k<4. plain s dm (i + k)) \<and> bs = three_at s dm i" using bs by blast }
qed

lemma base64DecodeAscii_chunks:
  assumes "good_map dm alphabet"
  shows "base64DecodeAscii a dm lch dst = chunks (map ucast a) dm lch dst 0 0"
proof -
  let ?s = "map ucast a :: ustr"
  have u: "unat (?s ! i) < 256" if "i < length a" for i
    using that unat_widen unsigned_less [of "a ! i", where ?'a = nat] by simp
  have at: "digit_at ?s dm i = dm (a ! i)" if "i < length a" for i using that by simp
  show ?thesis
    unfolding base64DecodeAscii_def
  proof (rule decode_loops_chunks)
    fix i d bs and dst :: "byte list"
    assume a: "map_option put6 (base64Assemble64 (dm (a ! i)) (dm (a ! (i + 1))) (dm (a ! (i + 2))) (dm (a ! (i + 3)))
      (dm (a ! (i + 4))) (dm (a ! (i + 5))) (dm (a ! (i + 6))) (dm (a ! (i + 7)))) = Some bs"
      and l: "i + 8 \<le> length ?s" "6 \<le> length dst - d"
    then have "(\<forall>k<8. plain ?s dm (i + k)) \<and> bs = three_at ?s dm i @ three_at ?s dm (i + 4)"
      by (intro assemble_plain(1) [OF assms]) (use u in auto)
    then show "length bs = 6 \<and> chunks ?s dm lch dst i d = chunks ?s dm lch (go_copy dst d bs) (i + 8) (d + 6)"
      using chunks_plain8 [OF assms, of ?s i dst d lch] l by simp
  next
    fix i d bs and dst :: "byte list"
    assume a: "map_option put3 (base64Assemble32 (dm (a ! i)) (dm (a ! (i + 1))) (dm (a ! (i + 2))) (dm (a ! (i + 3)))) = Some bs"
      and l: "i + 4 \<le> length ?s" "3 \<le> length dst - d"
    then have "(\<forall>k<4. plain ?s dm (i + k)) \<and> bs = three_at ?s dm i"
      by (intro assemble_plain(2) [OF assms]) (use u in auto)
    then show "length bs = 3 \<and> chunks ?s dm lch dst i d = chunks ?s dm lch (go_copy dst d bs) (i + 4) (d + 3)"
      using chunks_plain4 [OF assms, of ?s i dst d lch] l by simp
  qed
qed

lemma high_bytes_zero: "(a OR b) AND 0xFF00 = (0 :: 16 word) \<longleftrightarrow> a AND 0xFF00 = 0 \<and> b AND 0xFF00 = 0"
proof -
  have "(a OR b) AND 0xFF00 = (a AND 0xFF00) OR (b AND 0xFF00)" by (simp add: bit.conj_disj_distrib2)
  then show ?thesis by (simp add: or_eq_0_iff)
qed

lemma low_byte:
  assumes "c AND 0xFF00 = (0 :: 16 word)"
  shows "unat c < 256"
proof -
  have "c = take_bit 8 c"
  proof (rule bit_word_eqI)
    fix n assume "n < LENGTH(16)"
    then have "n < 8 \<or> n \<in> {8, 9, 10, 11, 12, 13, 14, 15}" by auto
    moreover have "\<not> bit (c AND 0xFF00) n" using assms by simp
    ultimately show "bit c n = bit (take_bit 8 c) n" by (auto simp: bit_simps)
  qed
  then have "unat c = take_bit 8 (unat c)" by (metis unsigned_take_bit_eq)
  moreover have "take_bit 8 (unat c) < 2 ^ 8" by (rule take_bit_nat_less_exp)
  ultimately show ?thesis by simp
qed

lemma base64DecodeUnicode_chunks:
  assumes "good_map dm alphabet"
  shows "base64DecodeUnicode u0 dm lch dst = chunks (drop 1 u0) dm lch dst 0 0"
proof -
  let ?u = "drop 1 u0"
  show ?thesis
    unfolding base64DecodeUnicode_def Let_def
  proof (rule decode_loops_chunks)
    fix i d bs and dst :: "byte list"
    assume a: "(if (?u ! i OR ?u ! (i + 1) OR ?u ! (i + 2) OR ?u ! (i + 3) OR
        ?u ! (i + 4) OR ?u ! (i + 5) OR ?u ! (i + 6) OR ?u ! (i + 7)) AND 0xFF00 = 0
      then map_option put6 (base64Assemble64 (digit_at ?u dm i) (digit_at ?u dm (i + 1)) (digit_at ?u dm (i + 2)) (digit_at ?u dm (i + 3))
         (digit_at ?u dm (i + 4)) (digit_at ?u dm (i + 5)) (digit_at ?u dm (i + 6)) (digit_at ?u dm (i + 7)))
      else None) = Some bs" and l: "i + 8 \<le> length ?u" "6 \<le> length dst - d"
    have z: "(?u ! i OR ?u ! (i + 1) OR ?u ! (i + 2) OR ?u ! (i + 3) OR
        ?u ! (i + 4) OR ?u ! (i + 5) OR ?u ! (i + 6) OR ?u ! (i + 7)) AND 0xFF00 = 0"
      using a by (auto split: if_splits)
    have "unat (?u ! (i + k)) < 256" if "k < 8" for k
      using less_8_cases [OF that] z unfolding high_bytes_zero by (elim disjE) (simp_all add: low_byte)
    then have "(\<forall>k<8. plain ?u dm (i + k)) \<and> bs = three_at ?u dm i @ three_at ?u dm (i + 4)"
      using a z l by (intro assemble_plain(1) [OF assms]) auto
    then show "length bs = 6 \<and> chunks ?u dm lch dst i d = chunks ?u dm lch (go_copy dst d bs) (i + 8) (d + 6)"
      using chunks_plain8 [OF assms, of ?u i dst d lch] l by simp
  next
    fix i d bs and dst :: "byte list"
    assume a: "(if (?u ! i OR ?u ! (i + 1) OR ?u ! (i + 2) OR ?u ! (i + 3)) AND 0xFF00 = 0
      then map_option put3 (base64Assemble32 (digit_at ?u dm i) (digit_at ?u dm (i + 1)) (digit_at ?u dm (i + 2)) (digit_at ?u dm (i + 3)))
      else None) = Some bs" and l: "i + 4 \<le> length ?u" "3 \<le> length dst - d"
    have z: "(?u ! i OR ?u ! (i + 1) OR ?u ! (i + 2) OR ?u ! (i + 3)) AND 0xFF00 = 0"
      using a by (auto split: if_splits)
    have "unat (?u ! (i + k)) < 256" if "k < 4" for k
    proof -
      have "k = 0 \<or> k = 1 \<or> k = 2 \<or> k = 3" using that by auto
      then show ?thesis using z unfolding high_bytes_zero by (elim disjE) (simp_all add: low_byte)
    qed
    then have "(\<forall>k<4. plain ?u dm (i + k)) \<and> bs = three_at ?u dm i"
      using a z l by (intro assemble_plain(2) [OF assms]) auto
    then show "length bs = 3 \<and> chunks ?u dm lch dst i d = chunks ?u dm lch (go_copy dst d bs) (i + 4) (d + 3)"
      using chunks_plain4 [OF assms, of ?u i dst d lch] l by simp
  qed
qed

section \<open>Chunks implement the algorithm of ECMAScript\<close>

text \<open>The array of digits of the code holds the digits of the algorithm and zeros.\<close>

definition padded :: "byte list \<Rightarrow> byte list" where
  "padded ds = ds @ replicate (4 - length ds) 0"

lemma digit_0: "digit 0"
  by (simp add: digit_def)

lemma decodeFinal_eq:
  assumes "length ds = 2 \<or> length ds = 3" "list_all digit ds"
  shows "decodeFinalBase64Chunk (padded ds) (length ds) t = DecodeFinal ds t"
proof -
  consider d1 d2 where "ds = [d1, d2]" | d1 d2 d3 where "ds = [d1, d2, d3]"
    using assms(1) by (auto simp: numeral_eq_Suc length_Suc_conv)
  then show ?thesis
    using assms(2) digit_0
    by cases (simp_all add: padded_def decodeFinalBase64Chunk_def DecodeFinal_def Let_def put3_three_bytes
        three_bytes_def)
qed

text \<open>What a chunk result says in terms of the algorithm.\<close>

definition as_spec :: "chunkResult \<Rightarrow> specResult" where
  "as_spec r = (newIndex r, take (newDstIndex r) (out r), err r)"

lemma as_spec_ret [simp]: "as_spec (ret dst i0 d0 e er) = (i0, take d0 dst, er)"
  by (simp add: as_spec_def ret_def)

lemma as_spec_finish: "d0 + length bs \<le> length dst \<Longrightarrow> as_spec (finish dst i d0 e bs) = (i, take d0 dst @ bs, None)"
proof -
  assume "d0 + length bs \<le> length dst"
  then have "min (length bs) (length dst - d0) = length bs" "min (length dst) d0 = d0" by linarith+
  then show ?thesis by (simp add: as_spec_def finish_def go_copy_def)
qed

lemma DecodeFinal_length:
  "length ds = 2 \<or> length ds = 3 \<Longrightarrow> DecodeFinal ds t = Inr bs \<Longrightarrow> length bs = length ds - 1"
  by (auto simp: DecodeFinal_def Let_def split: list.splits if_splits)

lemma DecodeFinal_no_throw: "length ds = 2 \<or> length ds = 3 \<Longrightarrow> \<exists>bs. DecodeFinal ds False = Inr bs \<and> length bs = length ds - 1"
  by (auto simp: DecodeFinal_def Let_def split: list.splits)

text \<open>The digits of a chunk, and the room that the earlier tests have left for it.\<close>

definition chunk_ok :: "byte list \<Rightarrow> byte list \<Rightarrow> nat \<Rightarrow> bool" where
  "chunk_ok ds dst d0 \<longleftrightarrow> list_all digit ds \<and> length ds \<le> 3 \<and> d0 < length dst \<and> (length ds = 3 \<longrightarrow> 2 \<le> length dst - d0)"

lemma chunk_ok_room: "chunk_ok ds dst d0 \<Longrightarrow> d0 + (length ds - 1) \<le> length dst"
  by (auto simp: chunk_ok_def)

lemma chunk_end_spec:
  assumes "chunk_ok ds dst d0"
  shows "as_spec (chunk_end s lch dst i0 d0 (padded ds) (length ds)) = spec_end s lch i0 (take d0 dst) ds"
proof -
  have dg: "list_all digit ds" "length ds \<le> 3" using assms by (simp_all add: chunk_ok_def)
  note room = chunk_ok_room [OF assms]
  consider "length ds = 0" | "length ds = 1" | "length ds = 2 \<or> length ds = 3" using dg(2) by linarith
  then show ?thesis
  proof cases
    case 1
    then show ?thesis using assms by (simp add: chunk_end_def spec_end_def as_spec_finish chunk_ok_def)
  next
    case 2
    then show ?thesis by (cases lch) (auto simp: chunk_end_def spec_end_def)
  next
    case 3
    obtain bs where bs: "DecodeFinal ds False = Inr bs" "length bs = length ds - 1"
      using DecodeFinal_no_throw [OF 3] by blast
    then show ?thesis using 3 decodeFinal_eq [OF 3 dg(1), of False] room
      by (cases lch) (auto simp: chunk_end_def spec_end_def as_spec_finish)
  qed
qed

lemma chunk_padding_spec:
  assumes "chunk_ok ds dst d0"
  shows "as_spec (chunk_padding s lch dst i0 d0 index (padded ds) (length ds)) = spec_padding s lch i0 (take d0 dst) ds index"
proof (cases "length ds < 2")
  case False
  have dg: "list_all digit ds" "length ds = 2 \<or> length ds = 3" using assms False by (auto simp: chunk_ok_def)
  note room = chunk_ok_room [OF assms]
  have "as_spec (case DecodeFinal ds t of
          Inl decErr \<Rightarrow> ret dst i0 d0 False (Some decErr) | Inr dec \<Rightarrow> finish dst (length s) d0 True dec) =
        (case DecodeFinal ds t of
          Inl e \<Rightarrow> (i0, take d0 dst, Some e) | Inr bs \<Rightarrow> (length s, take d0 dst @ bs, None))" for t
    using DecodeFinal_length [OF dg(2)] room by (auto simp: as_spec_finish split: sum.split)
  note fin = this
  show ?thesis
    unfolding chunk_padding_def spec_padding_def decodeFinal_eq [OF dg(2,1)] Let_def using False by (simp add: fin)
qed (simp add: chunk_padding_def spec_padding_def)

lemma padded_snoc: "length ds \<le> 3 \<Longrightarrow> (padded ds)[length ds := b] = padded (ds @ [b])"
proof -
  assume "length ds \<le> 3"
  then have "replicate (4 - length ds) (0::byte) = 0 # replicate (3 - length ds) 0"
    by (simp add: replicate_Suc [symmetric] Suc_diff_le del: replicate_Suc)
  then show ?thesis by (simp add: padded_def list_update_append)
qed

lemma decodeChunk_loop_spec:
  assumes "good_map dm alphabet" "chunk_ok ds dst d0"
  shows "FromBase64_loop s alphabet lch (Some (length dst)) i0 (take d0 dst) ds index =
    (let r = decodeChunk_loop s dm lch dst i0 d0 index (padded ds) (length ds) in
     if eof r \<or> err r \<noteq> None then as_spec r
     else FromBase64_loop s alphabet lch (Some (length dst)) (newIndex r) (take (newDstIndex r) (out r)) [] (newIndex r))"
  using assms(2)
proof (induction "length s - index" arbitrary: index ds rule: less_induct)
  case less
  let ?i = "skipAsciiWhitespace s index" and ?st = "chunk_step s dm lch dst i0 d0 index (padded ds) (length ds)"
  note spec = FromBase64_loop.simps [of s alphabet lch "Some (length dst)" i0 "take d0 dst" ds index]
  note loop = decodeChunk_loop.simps [of s dm lch dst i0 d0 index "padded ds" "length ds"]
  have d0: "d0 < length dst" "list_all digit ds" "length ds \<le> 3" using less.prems by (simp_all add: chunk_ok_def)
  show ?case
  proof (cases ?st)
    case (Return r)
    have "FromBase64_loop s alphabet lch (Some (length dst)) i0 (take d0 dst) ds index = as_spec r"
      using Return d0 chunk_end_spec [OF less.prems] chunk_padding_spec [OF less.prems] digit_of_char [OF assms(1)]
      unfolding spec by (auto simp: chunk_step_def Let_def min_def split: if_splits)
    then show ?thesis using chunk_step_Return [OF Return] Return unfolding loop by simp
  next
    case (Digit i b)
    have c: "\<not> length s \<le> ?i" "i = ?i + 1" "s ! ?i \<noteq> 0x3D" "digit_of alphabet (s ! ?i) = Some b"
      "\<not> (length dst - d0 = 1 \<and> length ds = 2 \<or> length dst - d0 = 2 \<and> length ds = 3)"
      using Digit digit_of_char [OF assms(1)] by (auto simp: chunk_step_def Let_def split: if_splits)
    have b: "digit b" using c(4) digit_of_char [OF assms(1)] good_map_digit [OF assms(1)] by (metis option.sel option.discI)
    have sp: "FromBase64_loop s alphabet lch (Some (length dst)) i0 (take d0 dst) ds index =
      (if length ds = 3 then
         let bytes = take d0 dst @ three_bytes (ds ! 0) (ds ! 1) (ds ! 2) b in
         if length dst = length bytes then (i, bytes, None)
         else FromBase64_loop s alphabet lch (Some (length dst)) i bytes [] i
       else FromBase64_loop s alphabet lch (Some (length dst)) i0 (take d0 dst) (ds @ [b]) i)"
      unfolding spec using c d0(1) by (auto simp: Let_def min_def)
    show ?thesis
    proof (cases "length ds = 3")
      case False
      then have "chunk_ok (ds @ [b]) dst d0" using less.prems c(5) b by (auto simp: chunk_ok_def)
      moreover have "length s - i < length s - index" using chunk_step_Digit [OF Digit] by linarith
      ultimately show ?thesis
        using less.hyps [of i "ds @ [b]"] False sp Digit padded_snoc [OF d0(3)] unfolding loop by simp
    next
      case True
      then obtain d1 d2 d3 where ds: "ds = [d1, d2, d3]" by (auto simp: numeral_eq_Suc length_Suc_conv)
      have room: "3 \<le> length dst - d0" using less.prems c(5) True by (auto simp: chunk_ok_def)
      have p3: "put3 (base64Assemble32Checked d1 d2 d3 b) = three_bytes d1 d2 d3 b"
        using d0(2) b ds by (simp add: put3_three_bytes)
      have lp: "decodeChunk_loop s dm lch dst i0 d0 index (padded ds) (length ds) =
        finish dst i d0 (length dst - d0 \<le> 3) (three_bytes d1 d2 d3 b)"
        using Digit p3 unfolding loop by (simp add: Let_def padded_def ds)
      have fin: "as_spec (finish dst i d0 e (three_bytes d1 d2 d3 b)) = (i, take d0 dst @ three_bytes d1 d2 d3 b, None)" for e
        using room by (intro as_spec_finish) simp
      have "length dst = d0 + 3 \<longleftrightarrow> length dst - d0 \<le> 3" using room by auto
      then show ?thesis unfolding lp sp using True ds fin [of True] fin [of False] d0(1)
        by (auto simp: Let_def finish_def as_spec_def min_def)
    qed
  qed
qed

text \<open>Only the bytes between the old and the new destination index change.\<close>

definition framed :: "byte list \<Rightarrow> nat \<Rightarrow> chunkResult \<Rightarrow> bool" where
  "framed dst d0 r \<longleftrightarrow> length (out r) = length dst \<and> d0 \<le> newDstIndex r \<and> newDstIndex r \<le> length dst \<and>
     drop (newDstIndex r) (out r) = drop (newDstIndex r) dst"

lemma framed_ret: "d0 \<le> length dst \<Longrightarrow> framed dst d0 (ret dst i d0 e er)"
  by (simp add: framed_def ret_def)

lemma framed_finish: "d0 \<le> length dst \<Longrightarrow> framed dst d0 (finish dst i d0 e bs)"
  by (auto simp: framed_def finish_def go_copy_def min_def)

lemma chunk_step_framed:
  "d0 \<le> length dst \<Longrightarrow> chunk_step s dm lch dst i0 d0 index chunk n = Return r \<Longrightarrow> framed dst d0 r"
  by (auto simp: chunk_step_def chunk_end_def chunk_padding_def Let_def framed_ret framed_finish
      split: if_splits sum.splits)

lemma decodeChunk_loop_framed:
  "d0 \<le> length dst \<Longrightarrow> framed dst d0 (decodeChunk_loop s dm lch dst i0 d0 index chunk n)"
proof (induction s dm lch dst i0 d0 index chunk n rule: decodeChunk_loop.induct)
  case (1 s dm lch dst i0 d0 index chunk n)
  show ?case
  proof (cases "chunk_step s dm lch dst i0 d0 index chunk n")
    case (Return r)
    then show ?thesis using 1(2) chunk_step_framed [OF _ Return]
      by (simp add: decodeChunk_loop.simps [of s dm lch dst i0 d0 index chunk n])
  next
    case (Digit i b)
    then show ?thesis using 1(2) 1(1) [OF Digit refl refl]
      by (auto simp: decodeChunk_loop.simps [of s dm lch dst i0 d0 index chunk n] Let_def framed_finish)
  qed
qed

lemma final_loop_spec:
  assumes "good_map dm alphabet" "d0 < length dst"
  shows "case final_loop s dm lch dst i d0 of (read, written, er, dst') \<Rightarrow>
    FromBase64_loop s alphabet lch (Some (length dst)) i (take d0 dst) [] i = (read, take written dst', er) \<and>
    length dst' = length dst \<and> d0 \<le> written \<and> written \<le> length dst \<and> drop written dst' = drop written dst"
  using assms
proof (induction s dm lch dst i d0 rule: final_loop.induct)
  case (1 s dm lch dst i d0)
  let ?r = "base64DecodeChunk s i dm lch dst d0"
  have fr: "framed dst d0 ?r" unfolding base64DecodeChunk_def using 1(3) by (intro decodeChunk_loop_framed) simp
  have "chunk_ok [] dst d0" using 1(3) by (simp add: chunk_ok_def)
  from decodeChunk_loop_spec [OF 1(2) this, of s lch i i]
  have sp: "FromBase64_loop s alphabet lch (Some (length dst)) i (take d0 dst) [] i =
    (if eof ?r \<or> err ?r \<noteq> None then as_spec ?r
     else FromBase64_loop s alphabet lch (Some (length dst)) (newIndex ?r) (take (newDstIndex ?r) (out ?r)) [] (newIndex ?r))"
    unfolding base64DecodeChunk_def by (simp add: Let_def padded_def)
  show ?case
  proof (cases "err ?r \<noteq> None \<or> eof ?r")
    case True
    then have "final_loop s dm lch dst i d0 = (newIndex ?r, newDstIndex ?r, err ?r, out ?r)"
      by (simp add: final_loop.simps [of s dm lch dst i d0] Let_def)
    then show ?thesis using sp fr True by (auto simp: as_spec_def framed_def)
  next
    case False
    then have c: "newDstIndex ?r = d0 + 3" "length (out ?r) = length dst" "3 < length dst - d0"
      using decodeChunk_loop_continue unfolding base64DecodeChunk_def by blast+
    obtain read written er dst' where fl: "final_loop s dm lch (out ?r) (newIndex ?r) (newDstIndex ?r) = (read, written, er, dst')"
      by (metis prod_cases4)
    have ih: "FromBase64_loop s alphabet lch (Some (length (out ?r))) (newIndex ?r) (take (newDstIndex ?r) (out ?r)) [] (newIndex ?r) =
        (read, take written dst', er)" "length dst' = length (out ?r)" "newDstIndex ?r \<le> written" "written \<le> length (out ?r)"
        "drop written dst' = drop written (out ?r)"
      using 1(1) [OF refl False 1(2)] c fl by auto
    have "drop written (out ?r) = drop (written - newDstIndex ?r) (drop (newDstIndex ?r) (out ?r))"
      using ih(3) by simp
    also have "\<dots> = drop written dst" using fr ih(3) by (simp add: framed_def)
    finally show ?thesis using False fl ih sp c by (simp add: final_loop.simps [of s dm lch dst i d0] Let_def)
  qed
qed

lemma chunks_spec:
  assumes "good_map dm alphabet"
  shows "case chunks s dm lch dst 0 0 of (read, written, er, dst') \<Rightarrow>
    FromBase64 s alphabet lch (Some (length dst)) = (read, take written dst', er) \<and>
    length dst' = length dst \<and> written \<le> length dst \<and> drop written dst' = drop written dst"
proof (cases "dst = []")
  case True
  then show ?thesis by (simp add: chunks_def FromBase64_def)
next
  case False
  then show ?thesis using final_loop_spec [OF assms, of 0 dst s lch 0] by (auto simp: chunks_def FromBase64_def)
qed

lemma FromBase64_loop_stop:
  assumes "length s \<le> skipAsciiWhitespace s index \<or> s ! skipAsciiWhitespace s index = 0x3D \<or>
    digit_of alphabet (s ! skipAsciiWhitespace s index) = None"
  shows "FromBase64_loop s alphabet lch mx read bytes chunk index =
    (if length s \<le> skipAsciiWhitespace s index then spec_end s lch read bytes chunk
     else if s ! skipAsciiWhitespace s index = 0x3D then
       spec_padding s lch read bytes chunk (skipAsciiWhitespace s index + 1)
     else (read, bytes, Some InvalidCharacter))"
  unfolding FromBase64_loop.simps [of s alphabet lch mx read bytes chunk index] Let_def using assms by auto

text \<open>A buffer of three bytes per started group of four characters is as good as no limit.\<close>

lemma FromBase64_loop_unlimited:
  assumes "3 dvd length bytes" "4 * (length bytes div 3) + length chunk \<le> index" "index \<le> length s" "length chunk \<le> 3"
    "length bytes \<noteq> (length s + 3) div 4 * 3"
  shows "FromBase64_loop s alphabet lch (Some ((length s + 3) div 4 * 3)) read bytes chunk index =
    FromBase64_loop s alphabet lch None read bytes chunk index"
  using assms
proof (induction "length s - index" arbitrary: read bytes chunk index rule: less_induct)
  case less
  let ?N = "(length s + 3) div 4 * 3"
  note spec = FromBase64_loop.simps [of s alphabet lch _ read bytes chunk index]
  let ?i = "skipAsciiWhitespace s index"
  show ?case
  proof (cases "length s \<le> ?i \<or> s ! ?i = 0x3D \<or> digit_of alphabet (s ! ?i) = None")
    case True
    then show ?thesis by (simp only: FromBase64_loop_stop)
  next
    case False
    then obtain d where d: "digit_of alphabet (s ! ?i) = Some d" and i: "?i < length s" "s ! ?i \<noteq> 0x3D" by auto
    have ge: "index \<le> ?i" by (rule skip_ge)
    obtain k where k: "length bytes = 3 * k" using less.prems(1) by blast
    have "q * 3 \<noteq> 3 * k + 1" "q * 3 \<noteq> 3 * k + 2" for q :: nat by presburger+
    then have no: "?N \<noteq> length bytes + 1" "?N \<noteq> length bytes + 2" unfolding k by blast+
    have sp: "FromBase64_loop s alphabet lch mx read bytes chunk index =
      (if length chunk = 3 then
         if mx = Some (length bytes + 3) then (?i + 1, bytes @ three_bytes (chunk ! 0) (chunk ! 1) (chunk ! 2) d, None)
         else FromBase64_loop s alphabet lch mx (?i + 1) (bytes @ three_bytes (chunk ! 0) (chunk ! 1) (chunk ! 2) d) [] (?i + 1)
       else FromBase64_loop s alphabet lch mx read bytes (chunk @ [d]) (?i + 1))" if "mx = Some ?N \<or> mx = None" for mx
      unfolding spec using d i no that by (auto simp: Let_def)
    show ?thesis
    proof (cases "length chunk = 3")
      case False
      have "FromBase64_loop s alphabet lch (Some ?N) read bytes (chunk @ [d]) (?i + 1) =
        FromBase64_loop s alphabet lch None read bytes (chunk @ [d]) (?i + 1)"
        by (rule less.hyps) (use less.prems i ge False in auto)
      then show ?thesis using False sp by simp
    next
      case True
      let ?b = "bytes @ three_bytes (chunk ! 0) (chunk ! 1) (chunk ! 2) d"
      have cnt: "4 * (length ?b div 3) \<le> ?i + 1" using less.prems(2) True ge k by simp
      show ?thesis
      proof (cases "?N = length bytes + 3")
        case full: True
        then have "length ?b div 3 = (length s + 3) div 4" by simp
        then have "length s \<le> ?i + 1" using cnt by linarith
        then have e: "?i + 1 = length s" using i(1) by linarith
        have "FromBase64_loop s alphabet lch None (length s) ?b [] (length s) = (length s, ?b, None)"
          by (subst FromBase64_loop.simps) (simp add: skipAsciiWhitespace.simps [of s "length s"] spec_end_def)
        then show ?thesis using True full sp [of "Some ?N"] sp [of None] e by simp
      next
        case more: False
        have "FromBase64_loop s alphabet lch (Some ?N) (?i + 1) ?b [] (?i + 1) =
          FromBase64_loop s alphabet lch None (?i + 1) ?b [] (?i + 1)"
          by (rule less.hyps) (use less.prems(1) cnt i ge more in auto)
        then show ?thesis using True more sp [of "Some ?N"] sp [of None] by simp
      qed
    qed
  qed
qed

lemma FromBase64_unlimited:
  "FromBase64 s alphabet lch (Some ((length s + 3) div 4 * 3)) = FromBase64 s alphabet lch None"
proof (cases "s = []")
  case True
  then show ?thesis
    by (simp add: FromBase64_def FromBase64_loop.simps [of "[]" _ _ None] skipAsciiWhitespace.simps [of "[]"] spec_end_def)
next
  case False
  then have "0 < (length s + 3) div 4" by (cases s) simp_all
  then show ?thesis
    using FromBase64_loop_unlimited [of "[]" "[]" 0 s alphabet lch 0] by (simp add: FromBase64_def)
qed

lemma fromBase64Into_ok:
  assumes "good_map dm alphabet" "mem_ok m" "denotes m s x"
  shows "\<exists>read written er dst'. returns m (read, written, er, dst') (fromBase64Into m s dm lch dst) \<and>
    FromBase64 x alphabet lch (Some (length dst)) = (read, take written dst', er) \<and>
    length dst' = length dst \<and> written \<le> length dst \<and> drop written dst' = drop written dst"
proof -
  obtain f m' where f: "devirtualizeString m s = Some (f, m')" "flat_ok f x" "extends m m'" "mem_ok m'"
    using devirtualizeString_ok [OF assms(2,3)] .
  have "(case f of Inl a \<Rightarrow> base64DecodeAscii a dm lch dst | Inr u \<Rightarrow> base64DecodeUnicode u dm lch dst) = chunks x dm lch dst 0 0"
    using f(2) by (cases f) (auto simp: base64DecodeAscii_chunks [OF assms(1)] base64DecodeUnicode_chunks [OF assms(1)])
  then have "returns m (chunks x dm lch dst 0 0) (fromBase64Into m s dm lch dst)"
    using f by (simp add: fromBase64Into_def)
  then show ?thesis using chunks_spec [OF assms(1), of x lch dst] by (cases "chunks x dm lch dst 0 0") auto
qed

lemma fromBase64_ok:
  assumes "good_map dm alphabet" "mem_ok m" "denotes m s x"
  shows "returns m (FromBase64 x alphabet lch None) (fromBase64 m s dm lch)"
proof -
  obtain m' where n: "Length m s = Some (length x, m')" "extends m m'" "mem_ok m'" using Length_ok [OF assms(2,3)] .
  let ?dst = "replicate ((length x + 3) div 4 * 3) 0 :: byte list"
  obtain read written er dst' where i: "returns m' (read, written, er, dst') (fromBase64Into m' s dm lch ?dst)"
    "FromBase64 x alphabet lch (Some (length ?dst)) = (read, take written dst', er)"
    using fromBase64Into_ok [OF assms(1) n(3) extends_denotes [OF n(2) assms(3)], of lch ?dst] by blast
  then have "FromBase64 x alphabet lch None = (read, take written dst', er)" using FromBase64_unlimited by simp
  then show ?thesis using n i(1) by (auto simp: fromBase64_def returns_def intro: extends_trans)
qed

text \<open>
  (C5) The base64 decoder implements ECMAScript's \<open>FromBase64\<close>: for either alphabet, any treatment of the last chunk, any string and
  any destination the fast loops, the chunk decoder and the bounds tests read the same characters, write the same
  bytes and report the same error as the algorithm that takes one character at a time with the length of the
  destination as limit; nothing behind the written bytes changes. Without a destination the result is the one without a limit.
\<close>

theorem base64_decoder_refines:
  assumes "mem_ok m" "denotes m s x"
    and "(dm, alphabet) \<in> {(base64DecodeMap, stdAlphabet), (base64DecodeMapUrl, urlAlphabet)}"
  shows "(\<exists>read written er dst'. returns m (read, written, er, dst') (fromBase64Into m s dm lch dst) \<and>
      FromBase64 x alphabet lch (Some (length dst)) = (read, take written dst', er) \<and>
      length dst' = length dst \<and> written \<le> length dst \<and> drop written dst' = drop written dst) \<and>
    returns m (FromBase64 x alphabet lch None) (fromBase64 m s dm lch)"
proof -
  have "good_map dm alphabet" using assms(3) good_base64DecodeMap good_base64DecodeMapUrl by auto
  then show ?thesis using fromBase64Into_ok fromBase64_ok assms by blast
qed

section \<open>Encoding\<close>

text \<open>
  \<^verbatim>\<open>Encode\<close> of Go's \<^verbatim>\<open>encoding/base64\<close> for the four encodings that \<^verbatim>\<open>parseToBase64Encoding\<close> selects from.
\<close>

fun encode :: "gostring \<Rightarrow> bool \<Rightarrow> byte list \<Rightarrow> gostring" where
  "encode A pad [] = []"
| "encode A pad [a] =
     [A ! (unat a div 4), A ! (unat a mod 4 * 16)] @ (if pad then [0x3D, 0x3D] else [])"
| "encode A pad [a, b] =
     [A ! (unat a div 4), A ! (unat a mod 4 * 16 + unat b div 16), A ! (unat b mod 16 * 4)] @ (if pad then [0x3D] else [])"
| "encode A pad (a # b # c # bs) =
     [A ! (unat a div 4), A ! (unat a mod 4 * 16 + unat b div 16), A ! (unat b mod 16 * 4 + unat c div 64),
      A ! (unat c mod 64)] @ encode A pad bs"

text \<open>
  The two option parsers. \<open>get\<close> is \<^verbatim>\<open>opts.self.getStr\<close> on an options object, which may run a getter that throws; an argument that
  is missing or undefined is no options object at all.
\<close>

definition parseToBase64Encoding ::
    "(string \<Rightarrow> jserr + val option) \<Rightarrow> val option \<Rightarrow> jserr + gostring \<times> bool" where
  "parseToBase64Encoding get options =
     (case options of
        None \<Rightarrow> Inr (stdAlphabet, True)
      | Some VUndef \<Rightarrow> Inr (stdAlphabet, True)
      | Some (VObj _) \<Rightarrow>
          (case get ''alphabet'' of
             Inl e \<Rightarrow> Inl e
           | Inr v \<Rightarrow>
               (case (case v of
                        None \<Rightarrow> Some (ascii ''base64'')
                      | Some VUndef \<Rightarrow> Some (ascii ''base64'')
                      | Some (VStr a) \<Rightarrow> if a \<noteq> ascii ''base64'' \<and> a \<noteq> ascii ''base64url'' then None else Some a
                      | Some _ \<Rightarrow> None) of
                  None \<Rightarrow> Inl TypeErr
                | Some alphabet \<Rightarrow>
                    (case get ''omitPadding'' of
                       Inl e \<Rightarrow> Inl e
                     | Inr v \<Rightarrow>
                         let omitPadding = (case v of None \<Rightarrow> False | Some v \<Rightarrow> ToBoolean v) in
                         Inr (if alphabet = ascii ''base64'' then stdAlphabet else urlAlphabet, \<not> omitPadding))))
      | Some _ \<Rightarrow> Inl TypeErr)"

definition parseFromBase64Options ::
    "(string \<Rightarrow> jserr + val option) \<Rightarrow> val option \<Rightarrow> jserr + decodeMap \<times> base64LastChunkHandling" where
  "parseFromBase64Options get options =
     (case options of
        None \<Rightarrow> Inr (base64DecodeMap, Loose)
      | Some VUndef \<Rightarrow> Inr (base64DecodeMap, Loose)
      | Some (VObj _) \<Rightarrow>
          (case get ''alphabet'' of
             Inl e \<Rightarrow> Inl e
           | Inr v \<Rightarrow>
               (case (case v of
                        None \<Rightarrow> Some base64DecodeMap
                      | Some VUndef \<Rightarrow> Some base64DecodeMap
                      | Some (VStr a) \<Rightarrow>
                          if a = ascii ''base64'' then Some base64DecodeMap
                          else if a = ascii ''base64url'' then Some base64DecodeMapUrl else None
                      | Some _ \<Rightarrow> None) of
                  None \<Rightarrow> Inl TypeErr
                | Some dm \<Rightarrow>
                    (case get ''lastChunkHandling'' of
                       Inl e \<Rightarrow> Inl e
                     | Inr v \<Rightarrow>
                         let lch = (case v of
                               None \<Rightarrow> Loose
                             | Some VUndef \<Rightarrow> Loose
                             | Some (VStr a) \<Rightarrow>
                                 if a = ascii ''loose'' then Loose else if a = ascii ''strict'' then Strict
                                 else if a = ascii ''stop-before-partial'' then Stop else Invalid
                             | Some _ \<Rightarrow> Invalid) in
                         if lch = Invalid then Inl TypeErr else Inr (dm, lch))))
      | Some _ \<Rightarrow> Inl TypeErr)"

text \<open>
  \<^verbatim>\<open>uint8ArrayProto_toBase64\<close>; \<open>view\<close> is \<^verbatim>\<open>getUint8ArrayBytes\<close>, which throws when an option getter detached the buffer.
\<close>

definition uint8ArrayProto_toBase64 ::
    "(string \<Rightarrow> jserr + val option) \<Rightarrow> (jserr + byte list) \<Rightarrow> val option \<Rightarrow> jserr + jstr" where
  "uint8ArrayProto_toBase64 get view options =
     (case parseToBase64Encoding get options of
        Inl e \<Rightarrow> Inl e
      | Inr (A, pad) \<Rightarrow> (case view of Inl e \<Rightarrow> Inl e | Inr toEnc \<Rightarrow> Inr (Ascii (encode A pad toEnc))))"

text \<open>\<^verbatim>\<open>uint8Array_fromBase64\<close>: the bytes of the new array. The argument is a string or something else.\<close>

definition uint8Array_fromBase64 ::
    "(string \<Rightarrow> jserr + val option) \<Rightarrow> smem \<Rightarrow> jstr option \<Rightarrow> val option \<Rightarrow> ((jserr + byte list) \<times> smem) option" where
  "uint8Array_fromBase64 get m arg options =
     (case arg of
        None \<Rightarrow> Some (Inl TypeErr, m)
      | Some s \<Rightarrow>
          (case parseFromBase64Options get options of
             Inl e \<Rightarrow> Some (Inl e, m)
           | Inr (dm, lch) \<Rightarrow>
               do { ((_, b, er), m) \<leftarrow> fromBase64 m s dm lch;
                    Some (case er of Some _ \<Rightarrow> Inl SyntaxErr | None \<Rightarrow> Inr b, m) }))"

text \<open>
  \<^verbatim>\<open>uint8ArrayProto_setFromBase64\<close>: the bytes of the view afterwards and the numbers of units read and bytes written, or
  the error; what was decoded before an error stays written.
\<close>

definition uint8ArrayProto_setFromBase64 ::
    "(string \<Rightarrow> jserr + val option) \<Rightarrow> smem \<Rightarrow> (jserr + byte list) \<Rightarrow> jstr option \<Rightarrow> val option \<Rightarrow>
     ((jserr + nat \<times> nat) \<times> byte list option \<times> smem) option" where
  "uint8ArrayProto_setFromBase64 get m view arg options =
     (case arg of
        None \<Rightarrow> Some (Inl TypeErr, None, m)
      | Some s \<Rightarrow>
          (case parseFromBase64Options get options of
             Inl e \<Rightarrow> Some (Inl e, None, m)
           | Inr (dm, lch) \<Rightarrow>
               (case view of
                  Inl e \<Rightarrow> Some (Inl e, None, m)
                | Inr into \<Rightarrow>
                    do { ((read, written, er, dst), m) \<leftarrow> fromBase64Into m s dm lch into;
                         Some (case er of Some _ \<Rightarrow> Inl SyntaxErr | None \<Rightarrow> Inr (read, written), Some dst, m) })))"

lemma digit_of_letter:
  "good_alphabet A \<Longrightarrow> n < 64 \<Longrightarrow> digit_of A (ucast (A ! n)) = Some (byte_of n)"
  by (simp add: digit_of_def position_map [OF inj_widen] position_nth good_alphabet_def)

lemma letter_plain:
  assumes "good_alphabet A" "n < 64"
  shows "\<not> isAsciiWhitespace (ucast (A ! n))" "(ucast (A ! n) :: 16 word) \<noteq> 0x3D"
proof -
  have m: "A ! n \<in> set A" using assms by (simp add: good_alphabet_def)
  then show "\<not> isAsciiWhitespace (ucast (A ! n))" using assms(1) by (auto simp: good_alphabet_def list_all_iff)
  have "ucast (A ! n) = (0x3D :: 16 word) \<Longrightarrow> A ! n = 0x3D"
    using inj_widen [THEN injD, of "A ! n" "0x3D"] by simp
  then show "(ucast (A ! n) :: 16 word) \<noteq> 0x3D" using m assms(1) by (auto simp: good_alphabet_def)
qed

text \<open>The algorithm reads a letter.\<close>

lemma FromBase64_loop_letter:
  assumes "good_alphabet A" "index < length s" "s ! index = ucast (A ! n)" "n < 64"
  shows "FromBase64_loop s A lch None read bytes chunk index =
    (if length chunk = 3 then
       FromBase64_loop s A lch None (index + 1) (bytes @ three_bytes (chunk ! 0) (chunk ! 1) (chunk ! 2) (byte_of n)) [] (index + 1)
     else FromBase64_loop s A lch None read bytes (chunk @ [byte_of n]) (index + 1))"
proof -
  have "skipAsciiWhitespace s index = index"
    using letter_plain [OF assms(1,4)] assms(3) by (simp add: skipAsciiWhitespace.simps [of s index])
  then show ?thesis
    unfolding FromBase64_loop.simps [of s A lch None read bytes chunk index]
    using letter_plain [OF assms(1,4)] assms digit_of_letter [OF assms(1,4)] by (simp add: Let_def)
qed

lemma byte_bound: "unat (b :: byte) < 256"
  using unsigned_less [of b, where ?'a = nat] by simp

text \<open>Splitting three bytes into digits and joining them.\<close>

lemma split_join:
  assumes "r < (k :: nat)"
  shows "(q * k + r) div k = q" "(q * k + r) mod k = r"
  using assms by simp_all

lemma split_bytes:
  assumes "x < 256" "y < 256" "z < (256 :: nat)"
  shows "x div 4 * 4 + (x mod 4 * 16 + y div 16) div 16 = x"
    "(x mod 4 * 16 + y div 16) mod 16 * 16 + (y mod 16 * 4 + z div 64) div 4 = y"
    "(y mod 16 * 4 + z div 64) mod 4 * 64 + z mod 64 = z"
    "x div 4 < 64" "x mod 4 * 16 + y div 16 < 64" "y mod 16 * 4 + z div 64 < 64" "z mod 64 < 64"
proof -
  have b: "y div 16 < 16" "z div 64 < 4" "x mod 4 < 4" "y mod 16 < 16" using assms by auto
  show "x div 4 * 4 + (x mod 4 * 16 + y div 16) div 16 = x" unfolding split_join [OF b(1)] by simp
  show "(x mod 4 * 16 + y div 16) mod 16 * 16 + (y mod 16 * 4 + z div 64) div 4 = y"
    unfolding split_join [OF b(1)] split_join [OF b(2)] by simp
  show "(y mod 16 * 4 + z div 64) mod 4 * 64 + z mod 64 = z" unfolding split_join [OF b(2)] by simp
  show "x div 4 < 64" "z mod 64 < 64" using assms by auto
  show "x mod 4 * 16 + y div 16 < 64" using b by linarith
  show "y mod 16 * 4 + z div 64 < 64" using b by linarith
qed

lemmas split_bytes_of = split_bytes [OF byte_bound byte_bound byte_bound]

lemma three_bytes_split:
  "three_bytes (byte_of (unat a div 4)) (byte_of (unat a mod 4 * 16 + unat b div 16))
     (byte_of (unat b mod 16 * 4 + unat c div 64)) (byte_of (unat c mod 64)) = [a, b, c]"
proof -
  have u: "n < 64 \<Longrightarrow> unat (byte_of n) = n" for n by (simp add: unat_byte)
  show ?thesis
    unfolding three_bytes_def u [OF split_bytes_of(4)] u [OF split_bytes_of(5)] u [OF split_bytes_of(6)] u [OF split_bytes_of(7)]
      split_bytes_of(1-3) by (simp add: byte_of_def)
qed

lemma skip_stop: "index < length s \<Longrightarrow> \<not> isAsciiWhitespace (s ! index) \<Longrightarrow> skipAsciiWhitespace s index = index"
  by (simp add: skipAsciiWhitespace.simps [of s index])

lemma skip_end: "skipAsciiWhitespace s (length s) = length s"
  by (simp add: skipAsciiWhitespace.simps [of s])

lemma equals_sign: "\<not> isAsciiWhitespace 0x3D"
  by (simp add: isAsciiWhitespace_def)

text \<open>The rest of a text: the last chunk, with padding and without.\<close>

lemma FromBase64_loop_end:
  "FromBase64_loop s A lch None read bytes chunk (length s) = spec_end s lch read bytes chunk"
  by (simp add: FromBase64_loop.simps [of s A lch None read bytes chunk] skip_end)

lemma FromBase64_loop_padding:
  assumes "index < length s" "s ! index = 0x3D"
  shows "FromBase64_loop s A lch None read bytes chunk index = spec_padding s lch read bytes chunk (Suc index)"
  using assms skip_stop [of index s]
  by (simp add: FromBase64_loop.simps [of s A lch None read bytes chunk index] equals_sign Let_def)

lemma spec_padding_one:
  assumes "length s = index" "DecodeFinal [a, b, c] (lch = Strict) = Inr bs"
  shows "spec_padding s lch read bytes [a, b, c] index = (length s, bytes @ bs, None)"
  using assms skip_end [of s] by (simp add: spec_padding_def)

lemma spec_padding_two:
  assumes "length s = Suc index" "s ! index = 0x3D" "DecodeFinal [a, b] (lch = Strict) = Inr bs"
  shows "spec_padding s lch read bytes [a, b] index = (length s, bytes @ bs, None)"
  using assms skip_end [of s] skip_stop [of index s] by (simp add: spec_padding_def equals_sign)

lemma DecodeFinal_split:
  "DecodeFinal [byte_of (unat a div 4), byte_of (unat a mod 4 * 16)] throw = Inr [a]"
  "DecodeFinal [byte_of (unat a div 4), byte_of (unat a mod 4 * 16 + unat b div 16), byte_of (unat b mod 16 * 4)] throw = Inr [a, b]"
  using three_bytes_split [of a 0 0] three_bytes_split [of a b 0] by (simp_all add: DecodeFinal_def byte_of_def)

text \<open>Decoding an encoded text, from any position where a chunk begins.\<close>

lemma FromBase64_loop_encode:
  assumes "good_alphabet A" "pad \<or> lch = Loose"
  shows "FromBase64_loop (pre @ map ucast (encode A pad bs)) A lch None (length pre) bytes [] (length pre) =
    (length (pre @ map ucast (encode A pad bs)), bytes @ bs, None)"
  using assms
proof (induction A pad bs arbitrary: pre bytes rule: encode.induct)
  case (1 A pad)
  then show ?case using FromBase64_loop_end [of pre] by (simp add: spec_end_def)
next
  case (2 A pad a)
  let ?s = "pre @ map ucast (encode A pad [a])"
  have b: "unat a div 4 < 64" "unat a mod 4 * 16 < 64" using split_bytes_of(4) [of a] split_bytes_of(5) [of a 0] by simp_all
  have "FromBase64_loop ?s A lch None (length pre) bytes [] (length pre) =
      FromBase64_loop ?s A lch None (length pre) bytes [byte_of (unat a div 4), byte_of (unat a mod 4 * 16)] (Suc (Suc (length pre)))"
    using FromBase64_loop_letter [OF 2(1) _ _ b(1), of "length pre" ?s] FromBase64_loop_letter [OF 2(1) _ _ b(2), of "length pre + 1" ?s]
    by (simp add: nth_append)
  also have "\<dots> = (length ?s, bytes @ [a], None)"
  proof (cases pad)
    case True
    then show ?thesis
      using FromBase64_loop_padding [of "length pre + 2" ?s] spec_padding_two [of ?s "Suc (Suc (Suc (length pre)))"] DecodeFinal_split(1)
      by (simp add: nth_append)
  next
    case False
    then show ?thesis using 2(2) FromBase64_loop_end [of ?s] by (simp add: spec_end_def DecodeFinal_split)
  qed
  finally show ?case .
next
  case (3 A pad a b)
  let ?s = "pre @ map ucast (encode A pad [a, b])"
  let ?ds = "[byte_of (unat a div 4), byte_of (unat a mod 4 * 16 + unat b div 16), byte_of (unat b mod 16 * 4)]"
  have n: "unat a div 4 < 64" "unat a mod 4 * 16 + unat b div 16 < 64" "unat b mod 16 * 4 < 64"
    using split_bytes_of(4) [of a] split_bytes_of(5) [of a b] split_bytes_of(6) [of b 0] by simp_all
  have "FromBase64_loop ?s A lch None (length pre) bytes [] (length pre) =
      FromBase64_loop ?s A lch None (length pre) bytes ?ds (Suc (Suc (Suc (length pre))))"
    using FromBase64_loop_letter [OF 3(1) _ _ n(1), of "length pre" ?s] FromBase64_loop_letter [OF 3(1) _ _ n(2), of "length pre + 1" ?s]
      FromBase64_loop_letter [OF 3(1) _ _ n(3), of "length pre + 2" ?s]
    by (simp add: nth_append)
  also have "\<dots> = (length ?s, bytes @ [a, b], None)"
  proof (cases pad)
    case True
    then show ?thesis
      using FromBase64_loop_padding [of "Suc (Suc (Suc (length pre)))" ?s] spec_padding_one [of ?s "Suc (Suc (Suc (Suc (length pre))))"] DecodeFinal_split(2)
      by (simp add: nth_append)
  next
    case False
    then show ?thesis using 3(2) FromBase64_loop_end [of ?s] by (simp add: spec_end_def DecodeFinal_split)
  qed
  finally show ?case .
next
  case (4 A pad a b c bs)
  let ?ls = "[A ! (unat a div 4), A ! (unat a mod 4 * 16 + unat b div 16), A ! (unat b mod 16 * 4 + unat c div 64), A ! (unat c mod 64)]"
  define s where "s = pre @ map ucast (encode A pad (a # b # c # bs))"
  have at: "length pre + 3 < length s" "s ! length pre = ucast (A ! (unat a div 4))"
    "s ! Suc (length pre) = ucast (A ! (unat a mod 4 * 16 + unat b div 16))"
    "s ! Suc (Suc (length pre)) = ucast (A ! (unat b mod 16 * 4 + unat c div 64))"
    "s ! Suc (Suc (Suc (length pre))) = ucast (A ! (unat c mod 64))"
    by (simp_all add: s_def nth_append)
  have step: "length ds < 3 \<Longrightarrow> FromBase64_loop s A lch None (length pre) bytes ds i =
      FromBase64_loop s A lch None (length pre) bytes (ds @ [byte_of n]) (Suc i)"
    if "i < length s" "s ! i = ucast (A ! n)" "n < 64" for ds i n
    using FromBase64_loop_letter [OF 4(2) that] by simp
  have "FromBase64_loop s A lch None (length pre) bytes [] (length pre) =
      FromBase64_loop s A lch None (length pre) bytes
        [byte_of (unat a div 4), byte_of (unat a mod 4 * 16 + unat b div 16), byte_of (unat b mod 16 * 4 + unat c div 64)]
        (Suc (Suc (Suc (length pre))))"
    using step [OF _ at(2) split_bytes_of(4)] step [OF _ at(3) split_bytes_of(5)] step [OF _ at(4) split_bytes_of(6)] at(1)
    by simp
  also have "\<dots> = FromBase64_loop s A lch None (Suc (Suc (Suc (Suc (length pre))))) (bytes @ [a, b, c]) []
      (Suc (Suc (Suc (Suc (length pre)))))"
    using FromBase64_loop_letter [OF 4(2) _ at(5) split_bytes_of(7)] three_bytes_split [of a b c] at(1)
    by simp
  also have "\<dots> = (length s, bytes @ [a, b, c] @ bs, None)"
    using 4(1) [OF 4(2,3), of "pre @ map ucast ?ls" "bytes @ [a, b, c]"] by (simp add: s_def)
  finally show ?case by (simp add: s_def)
qed

lemma letter_ascii: "good_alphabet A \<Longrightarrow> n < 64 \<Longrightarrow> unat (A ! n) < 128"
  by (auto simp: good_alphabet_def is_ascii_def list_all_length)

lemma encode_ascii: "good_alphabet A \<Longrightarrow> is_ascii (encode A pad bs)"
proof (induction A pad bs rule: encode.induct)
  case (2 A pad a)
  then show ?case using split_bytes_of(4) [of a] split_bytes_of(5) [of a 0] by (simp add: letter_ascii)
next
  case (3 A pad a b)
  then show ?case using split_bytes_of(4) [of a] split_bytes_of(5) [of a b] split_bytes_of(6) [of b 0] by (simp add: letter_ascii)
next
  case (4 A pad a b c bs)
  then show ?case using split_bytes_of(4) [of a] split_bytes_of(5) [of a b] split_bytes_of(6) [of b c] by (simp add: letter_ascii)
qed simp

text \<open>Every option that is accepted selects the alphabet of the encoder and the table of the decoder alike.\<close>

lemma options_agree:
  assumes "parseToBase64Encoding get options = Inr (A, pad)" "parseFromBase64Options get options = Inr (dm, lch)"
  shows "(dm, A) \<in> {(base64DecodeMap, stdAlphabet), (base64DecodeMapUrl, urlAlphabet)}"
  using assms by (auto simp: parseToBase64Encoding_def parseFromBase64Options_def ascii_def Let_def
      split: option.splits val.splits sum.splits if_splits)

text \<open>
  (C15) Encoding and decoding are inverse: what \<^verbatim>\<open>toBase64\<close> makes of bytes, \<^verbatim>\<open>fromBase64\<close> with the same
  options object turns back into these bytes, for both alphabets and every treatment of the last chunk when
  the text is padded, and for the loose treatment also without padding.
\<close>

theorem base64_roundtrip:
  assumes "mem_ok m"
    and "uint8ArrayProto_toBase64 get (Inr bs) options = Inr s"
    and "parseToBase64Encoding get options = Inr (A, pad)" "parseFromBase64Options get options = Inr (dm, lch)" "pad \<or> lch = Loose"
  shows "returns m (Inr bs) (uint8Array_fromBase64 get m (Some s) options)"
proof -
  have a: "(dm, A) \<in> {(base64DecodeMap, stdAlphabet), (base64DecodeMapUrl, urlAlphabet)}" using options_agree assms(3,4) .
  then have g: "good_map dm A" "good_alphabet A"
    using good_base64DecodeMap good_base64DecodeMapUrl good_stdAlphabet good_urlAlphabet by auto
  have s: "s = Ascii (encode A pad bs)" using assms(2,3) by (simp add: uint8ArrayProto_toBase64_def)
  have "is_ascii (encode A pad bs)" using encode_ascii [OF g(2)] .
  then have "denotes m s (map ucast (encode A pad bs))" using s by simp
  then have "returns m (FromBase64 (map ucast (encode A pad bs)) A lch None) (fromBase64 m s dm lch)"
    using fromBase64_ok [OF g(1) assms(1)] by blast
  moreover have "FromBase64 (map ucast (encode A pad bs)) A lch None = (length (encode A pad bs), bs, None)"
    using FromBase64_loop_encode [OF g(2) assms(5), of "[]" bs "[]"] by (simp add: FromBase64_def)
  ultimately show ?thesis using assms(4) by (auto simp: uint8Array_fromBase64_def returns_def)
qed

theorem base64_decoder_refines_witness:
  "\<exists>read written er dst'.
     returns wit_mem (read, written, er, dst') (fromBase64Into wit_mem (Concat 1) base64DecodeMap Strict [1, 2, 3]) \<and>
     FromBase64 [0x61, 0x62, 0xE9, 0x63] stdAlphabet Strict (Some 3) = (read, take written dst', er) \<and>
     length dst' = 3 \<and> drop written dst' = drop written [1, 2, 3]"
  using base64_decoder_refines [OF wit_mem_ok wit_text(3), of base64DecodeMap stdAlphabet Strict "[1, 2, 3]"]
  by (auto simp: numeral_eq_Suc)

text \<open>An options object with the alphabet \<^verbatim>\<open>base64url\<close> and nothing else.\<close>

definition wit_options :: "string \<Rightarrow> jserr + val option" where
  "wit_options name = Inr (if name = ''alphabet'' then Some (VStr (ascii ''base64url'')) else None)"

theorem base64_roundtrip_witness:
  "returns wit_mem (Inr [0xFB, 0xF0, 7, 9]) (uint8Array_fromBase64 wit_options wit_mem (Some (Ascii (bytes_of ''-_AHCQ==''))) (Some (VObj 0)))"
proof -
  have e: "parseToBase64Encoding wit_options (Some (VObj 0)) = Inr (urlAlphabet, True)"
    "parseFromBase64Options wit_options (Some (VObj 0)) = Inr (base64DecodeMapUrl, Loose)"
    by (simp_all add: parseToBase64Encoding_def parseFromBase64Options_def wit_options_def ascii_def)
  have "encode urlAlphabet True [0xFB, 0xF0, 7, 9] = bytes_of ''-_AHCQ==''"
    by (simp add: urlAlphabet_def bytes_of_def byte_of_def)
  then have "uint8ArrayProto_toBase64 wit_options (Inr [0xFB, 0xF0, 7, 9]) (Some (VObj 0)) = Inr (Ascii (bytes_of ''-_AHCQ==''))"
    by (simp add: uint8ArrayProto_toBase64_def e)
  from base64_roundtrip [OF wit_mem_ok this e] show ?thesis by simp
qed

end
