(* ===== verification/Hex.thy ===== *)
theory Hex
  imports Base64
begin

text \<open>
  Hexadecimal text of \<^verbatim>\<open>Uint8Array\<close> (builtin_typedarrays.go). The code decodes the bytes of the Go string with \<^verbatim>\<open>encoding/hex\<close>,
  while ECMAScript's \<open>FromHex\<close> is about UTF-16 units; they are proved to agree although a string that is not
  ASCII has more bytes than units.
\<close>

section \<open>Go's \<^verbatim>\<open>encoding/hex\<close>\<close>

text \<open>\<^verbatim>\<open>reverseHexTable\<close>; a value above 15 is an invalid byte.\<close>

definition reverseHexTable :: "byte \<Rightarrow> nat" where
  "reverseHexTable b =
     (let n = unat b in
      if 0x30 \<le> n \<and> n \<le> 0x39 then n - 0x30
      else if 0x41 \<le> n \<and> n \<le> 0x46 then n - 0x41 + 10
      else if 0x61 \<le> n \<and> n \<le> 0x66 then n - 0x61 + 10
      else 0xff)"

datatype hexError = InvalidByteError byte | ErrLength | OddLength

text \<open>\<^verbatim>\<open>hex.Decode\<close>: \<open>None\<close> is the panic of a write behind the destination.\<close>

fun hex_Decode :: "byte list \<Rightarrow> nat \<Rightarrow> byte list \<Rightarrow> (nat \<times> hexError option \<times> byte list) option" where
  "hex_Decode dst i (p # q # src) =
     (let a = reverseHexTable p; b = reverseHexTable q in
      if a > 0xf then Some (i, Some (InvalidByteError p), dst)
      else if b > 0xf then Some (i, Some (InvalidByteError q), dst)
      else if i < length dst then hex_Decode (dst[i := byte_of (a * 16 + b)]) (i + 1) src
      else None)"
| "hex_Decode dst i [p] =
     Some (i, Some (if reverseHexTable p > 0xf then InvalidByteError p else ErrLength), dst)"
| "hex_Decode dst i [] = Some (i, None, dst)"

definition hextable :: gostring where
  "hextable = bytes_of ''0123456789abcdef''"

definition hex_Encode :: "byte list \<Rightarrow> gostring" where
  "hex_Encode bs = concat (map (\<lambda>b. [hextable ! (unat b div 16), hextable ! (unat b mod 16)]) bs)"

section \<open>The helpers of \<^verbatim>\<open>Uint8Array\<close>\<close>

definition fromHex :: "smem \<Rightarrow> jstr \<Rightarrow> ((byte list \<times> hexError option) \<times> smem) option" where
  "fromHex m s =
     do { (t, m) \<leftarrow> str_String m s;
          (n, er, dst) \<leftarrow> hex_Decode (replicate (length t div 2) 0) 0 t;
          Some ((take n dst, er), m) }"

definition fromHexInto :: "smem \<Rightarrow> jstr \<Rightarrow> nat \<Rightarrow> byte list \<Rightarrow> ((nat \<times> hexError option \<times> byte list) \<times> smem) option" where
  "fromHexInto m s maxLength dst =
     do { (length', m) \<leftarrow> Length m s;
          if length' mod 2 \<noteq> 0 then Some ((0, Some OddLength, dst), m)
          else do { (s, m) \<leftarrow> (if maxLength * 2 < length' then Substring m s 0 (maxLength * 2) else Some (s, m));
                    (t, m) \<leftarrow> str_String m s;
                    r \<leftarrow> hex_Decode dst 0 t;
                    Some (r, m) } }"

definition uint8Array_fromHex :: "smem \<Rightarrow> jstr option \<Rightarrow> ((jserr + byte list) \<times> smem) option" where
  "uint8Array_fromHex m arg =
     (case arg of
        None \<Rightarrow> Some (Inl TypeErr, m)
      | Some s \<Rightarrow> do { ((b, er), m) \<leftarrow> fromHex m s;
                       Some (case er of Some _ \<Rightarrow> Inl SyntaxErr | None \<Rightarrow> Inr b, m) })"

definition uint8ArrayProto_toHex :: "jserr + byte list \<Rightarrow> jserr + jstr" where
  "uint8ArrayProto_toHex view = (case view of Inl e \<Rightarrow> Inl e | Inr toEnc \<Rightarrow> Inr (Ascii (hex_Encode toEnc)))"

definition uint8ArrayProto_setFromHex ::
    "smem \<Rightarrow> (jserr + byte list) \<Rightarrow> jstr option \<Rightarrow> ((jserr + nat \<times> nat) \<times> byte list option \<times> smem) option" where
  "uint8ArrayProto_setFromHex m view arg =
     (case arg of
        None \<Rightarrow> Some (Inl TypeErr, None, m)
      | Some s \<Rightarrow>
          (case view of
             Inl e \<Rightarrow> Some (Inl e, None, m)
           | Inr into \<Rightarrow>
               do { ((written, er, dst), m) \<leftarrow> fromHexInto m s (length into) into;
                    Some (case er of Some _ \<Rightarrow> Inl SyntaxErr | None \<Rightarrow> Inr (2 * written, written), Some dst, m) }))"

section \<open>The algorithm of ECMAScript\<close>

definition hexit :: "16 word \<Rightarrow> nat option" where
  "hexit c =
     (if unat c \<in> {0x30..0x39} then Some (unat c - 0x30)
      else if unat c \<in> {0x41..0x46} then Some (unat c - 0x41 + 10)
      else if unat c \<in> {0x61..0x66} then Some (unat c - 0x61 + 10)
      else None)"

fun FromHex_loop :: "ustr \<Rightarrow> nat option \<Rightarrow> nat \<Rightarrow> byte list \<Rightarrow> nat \<times> byte list \<times> bool" where
  "FromHex_loop (c # d # x) maxLength read bytes =
     (if maxLength = Some (length bytes) then (read, bytes, True)
      else case (hexit c, hexit d) of
        (Some a, Some b) \<Rightarrow> FromHex_loop x maxLength (read + 2) (bytes @ [byte_of (a * 16 + b)])
      | _ \<Rightarrow> (read, bytes, False))"
| "FromHex_loop _ maxLength read bytes = (read, bytes, True)"

text \<open>The Boolean is false when the specification throws a SyntaxError.\<close>

definition FromHex :: "ustr \<Rightarrow> nat option \<Rightarrow> nat \<times> byte list \<times> bool" where
  "FromHex x maxLength = (if length x mod 2 \<noteq> 0 then (0, [], False) else FromHex_loop x maxLength 0 [])"

section \<open>Units and bytes\<close>

lemma str_String_units:
  assumes "mem_ok m" "denotes m s x"
  shows "returns m (units_string x) (str_String m s)"
proof (cases "\<exists>i. s = Imported i")
  case True
  then obtain i o' where "s = Imported i" "imp_at m i = Some o'" "units (is_s o') = x" using assms(2) by auto
  then show ?thesis using assms imp_ok_at [OF assms(1), of i o'] units_string_units [of "is_s o'"]
    by (simp add: str_String_def imp_ok_def)
next
  case False
  obtain f m' where f: "receiver m s = Some (f, m')" "flat_ok f x" "extends m m'" "mem_ok m'"
    using receiver_ok [OF assms] .
  have "flat_String f = units_string x"
  proof (cases f)
    case (Inl a)
    then show ?thesis using f(2) units_string_units [OF utf8_valid_ascii, of a] units_ascii [of a] by (simp add: flat_String_def)
  qed (use f(2) in \<open>simp add: flat_String_def\<close>)
  then show ?thesis using False f by (cases s) (simp_all add: str_String_def)
qed

lemma low_unit: "unat (c :: 16 word) < 0xD800 \<Longrightarrow> \<not> isUTF16FirstSurrogate c \<and> \<not> isUTF16SecondSurrogate c"
  by (auto simp: isUTF16FirstSurrogate_def isUTF16SecondSurrogate_def word_le_nat_alt)

lemma utf16_Decode_low: "unat c < 0xD800 \<Longrightarrow> utf16_Decode (c # x) = unat c # utf16_Decode x"
  using low_unit [of c] by (cases x) auto

lemma units_string_ascii: "unat c < 128 \<Longrightarrow> units_string (c # x) = ucast c # units_string x"
  using utf16_Decode_low [of c x]
  by (simp add: units_string_def runes_string_def utf8_rune_def isSurrogate_def Let_def byte_of_def)

lemma utf16_Decode_high: "128 \<le> unat c \<Longrightarrow> \<exists>r rs. utf16_Decode (c # x) = r # rs \<and> 128 \<le> r"
  by (cases x) (auto simp: DecodeRune16_def)

lemma utf8_rune_high: "128 \<le> r \<Longrightarrow> \<exists>b bs. utf8_rune r = b # bs \<and> 128 \<le> unat b"
proof -
  assume r: "128 \<le> r"
  have b: "n < 64 \<Longrightarrow> 128 \<le> unat (byte_of (192 + n))" for n by (simp add: unat_byte)
  show ?thesis
    using r b [of "r div 64"] b [of "32 + r div 4096"] b [of "48 + r div 262144"] b [of 47]
    by (auto simp: utf8_rune_def Let_def)
qed

lemma units_string_high: "128 \<le> unat c \<Longrightarrow> \<exists>b bs. units_string (c # x) = b # bs \<and> 128 \<le> unat b"
proof -
  assume "128 \<le> unat c"
  then obtain r rs where r: "utf16_Decode (c # x) = r # rs" "128 \<le> r" using utf16_Decode_high by blast
  show ?thesis using utf8_rune_high [OF r(2)] by (auto simp: units_string_def runes_string_def r(1))
qed

section \<open>Decoding\<close>

lemma hexit_reverse:
  assumes "unat c < 128"
  shows "hexit c = (if reverseHexTable (ucast c) \<le> 0xf then Some (reverseHexTable (ucast c)) else None)"
proof -
  have "unat (ucast c :: byte) = unat c" using assms by (simp add: unsigned_ucast_eq take_bit_nat_eq_self)
  then show ?thesis by (auto simp: hexit_def reverseHexTable_def Let_def)
qed

lemma hexit_high: "128 \<le> unat c \<Longrightarrow> hexit c = None"
  by (simp add: hexit_def)

lemma reverseHexTable_high: "128 \<le> unat b \<Longrightarrow> reverseHexTable b = 0xff"
  by (simp add: reverseHexTable_def)

text \<open>One pair of units.\<close>

lemma hex_Decode_pair:
  "hex_Decode dst i (units_string (c # d # x)) =
     (case (hexit c, hexit d) of
        (Some a, Some b) \<Rightarrow> if i < length dst then hex_Decode (dst[i := byte_of (a * 16 + b)]) (i + 1) (units_string x) else None
      | _ \<Rightarrow> hex_Decode dst i (units_string (c # d # x))) \<and>
   (hexit c = None \<or> hexit d = None \<longrightarrow> (\<exists>e. hex_Decode dst i (units_string (c # d # x)) = Some (i, Some e, dst)))"
proof (cases "unat c < 128")
  case c: True
  show ?thesis
  proof (cases "unat d < 128")
    case True
    then show ?thesis using c by (simp add: units_string_ascii hexit_reverse Let_def)
  next
    case False
    then obtain b bs where "units_string (d # x) = b # bs" "128 \<le> unat b" using units_string_high [of d x] by auto
    then show ?thesis using c False
      by (auto simp: units_string_ascii hexit_high reverseHexTable_high hexit_reverse Let_def split: option.split)
  qed
next
  case False
  then obtain b bs where "units_string (c # d # x) = b # bs" "128 \<le> unat b" using units_string_high [of c "d # x"] by auto
  then show ?thesis using False by (cases bs) (auto simp: hexit_high reverseHexTable_high)
qed

lemma hex_Decode_digits:
  "hexit c = Some a \<Longrightarrow> hexit d = Some b \<Longrightarrow> i < length dst \<Longrightarrow>
   hex_Decode dst i (units_string (c # d # x)) = hex_Decode (dst[i := byte_of (a * 16 + b)]) (i + 1) (units_string x)"
  using hex_Decode_pair [of dst i c d x] by simp

lemma hex_Decode_bad:
  "hexit c = None \<or> hexit d = None \<Longrightarrow> \<exists>e. hex_Decode dst i (units_string (c # d # x)) = Some (i, Some e, dst)"
  using hex_Decode_pair [of dst i c d x] by blast

lemma hex_Decode_single: "\<exists>e. hex_Decode dst i (units_string [c]) = Some (i, Some e, dst)"
proof (cases "unat c < 128")
  case True
  then show ?thesis by (simp add: units_string_ascii) (simp add: units_string_def runes_string_def)
next
  case False
  then obtain b bs where "units_string [c] = b # bs" "128 \<le> unat b" using units_string_high [of c "[]"] by auto
  then show ?thesis by (cases bs) (auto simp: reverseHexTable_high)
qed

lemma units_string_Nil [simp]: "units_string [] = []"
  by (simp add: units_string_def runes_string_def)

text \<open>The loop of the code against the loop of the specification, when there is room.\<close>

lemma hex_Decode_spec:
  assumes "length x \<le> 2 * (length dst - i) + 1" "i \<le> length dst"
  shows "\<exists>n er dst' ok. hex_Decode dst i (units_string x) = Some (n, er, dst') \<and>
    FromHex_loop x None (2 * i) (take i dst) = (2 * n, take n dst', ok) \<and>
    (er = None \<longleftrightarrow> ok \<and> even (length x)) \<and> length dst' = length dst \<and> n \<le> length dst \<and> drop n dst' = drop n dst \<and> i \<le> n"
  using assms
proof (induction x arbitrary: dst i rule: induct_list012)
  case 1
  then show ?case by simp
next
  case (2 c)
  then show ?case using hex_Decode_single [of dst i c] by auto
next
  case (3 c d x)
  show ?case
  proof (cases "hexit c = None \<or> hexit d = None")
    case True
    then show ?thesis using hex_Decode_bad [OF True, of dst i x] 3(4) by (auto split: option.split)
  next
    case False
    then obtain a b where ab: "hexit c = Some a" "hexit d = Some b" by auto
    have i: "i < length dst" using 3(3) by simp
    let ?dst = "dst[i := byte_of (a * 16 + b)]"
    have t: "take (Suc i) ?dst = take i dst @ [byte_of (a * 16 + b)]" using i by (simp add: take_Suc_conv_app_nth)
    have le: "length x \<le> 2 * (length ?dst - (i + 1)) + 1" using 3(3) i by simp
    have sp: "FromHex_loop (c # d # x) None (2 * i) (take i dst) = FromHex_loop x None (2 * (i + 1)) (take (i + 1) ?dst)"
      using ab t by simp
    have "i + 1 \<le> length ?dst" using i by simp
    from 3(1) [OF le this] obtain n er dst' ok where ih: "hex_Decode ?dst (i + 1) (units_string x) = Some (n, er, dst')"
      "FromHex_loop x None (2 * (i + 1)) (take (i + 1) ?dst) = (2 * n, take n dst', ok)"
      "er = None \<longleftrightarrow> ok \<and> even (length x)" "length dst' = length ?dst" "n \<le> length ?dst" "drop n dst' = drop n ?dst" "i + 1 \<le> n"
      by blast
    then show ?thesis unfolding hex_Decode_digits [OF ab i] sp by (intro exI [of _ n] exI [of _ er] exI [of _ dst'] exI [of _ ok]) simp
  qed
qed

lemma FromHex_loop_limit:
  "length bytes \<le> n \<Longrightarrow> even (length x) \<Longrightarrow>
   FromHex_loop x (Some n) read bytes = FromHex_loop (take (2 * (n - length bytes)) x) None read bytes"
proof (induction x arbitrary: read bytes rule: induct_list012)
  case (3 c d x)
  show ?case
  proof (cases "n = length bytes")
    case False
    then have k: "2 * (n - length bytes) = Suc (Suc (2 * (n - (length bytes + 1))))" using 3(3) by linarith
    have "FromHex_loop x (Some n) (read + 2) (bytes @ [v]) = FromHex_loop (take (2 * (n - (length bytes + 1))) x) None (read + 2) (bytes @ [v])" for v
      using 3(1) [of "bytes @ [v]" "read + 2"] 3(3,4) False by simp
    then show ?thesis unfolding k using False by (simp split: option.split)
  qed simp
qed auto

lemma length_units_string: "length x \<le> length (units_string x)"
proof (induction x rule: utf16_Decode.induct)
  case (2 c)
  then show ?case by (simp add: units_string_def runes_string_def utf8_rune_def Let_def)
next
  case (3 c d x)
  show ?case
  proof (cases "isUTF16FirstSurrogate c \<and> isUTF16SecondSurrogate d")
    case True
    have "2 \<le> length (utf8_rune (DecodeRune16 c d))" by (simp add: utf8_rune_def Let_def DecodeRune16_def)
    then show ?thesis using 3(1) True by (simp add: units_string_def runes_string_def)
  next
    case False
    let ?r = "if isUTF16FirstSurrogate c \<or> isUTF16SecondSurrogate c then RuneError else unat c"
    have "1 \<le> length (utf8_rune ?r)" using utf8_rune_nonempty [of ?r] by (cases "utf8_rune ?r") auto
    moreover have "utf16_Decode (c # d # x) = ?r # utf16_Decode (d # x)" using False by auto
    ultimately show ?thesis using 3(2) [OF False] by (simp only: units_string_def runes_string_def) simp
  qed
qed simp

lemma FromHex_loop_start:
  "length x \<le> 2 * length dst + 1 \<Longrightarrow>
   \<exists>n er dst' ok. hex_Decode dst 0 (units_string x) = Some (n, er, dst') \<and> FromHex_loop x None 0 [] = (2 * n, take n dst', ok) \<and>
     (er = None \<longleftrightarrow> ok \<and> even (length x)) \<and> length dst' = length dst \<and> drop n dst' = drop n dst"
  using hex_Decode_spec [of x dst 0] by auto

lemma fromHexInto_ok:
  assumes "mem_ok m" "denotes m s x"
  shows "\<exists>written er dst'. returns m (written, er, dst') (fromHexInto m s (length dst) dst) \<and>
    FromHex x (Some (length dst)) = (2 * written, take written dst', er = None) \<and>
    length dst' = length dst \<and> drop written dst' = drop written dst"
proof -
  obtain m1 where l: "Length m s = Some (length x, m1)" "extends m m1" "mem_ok m1" using Length_ok [OF assms] .
  show ?thesis
  proof (cases "even (length x)")
    case False
    then show ?thesis using l
      by (intro exI [of _ 0] exI [of _ "Some OddLength"] exI [of _ dst]) (simp add: fromHexInto_def returns_def FromHex_def odd_iff_mod_2_eq_one)
  next
    case True
    let ?y = "take (length dst * 2) x"
    have d: "denotes m1 s x" using extends_denotes [OF l(2) assms(2)] .
    have "yields m1 ?y (if length dst * 2 < length x then Substring m1 s 0 (length dst * 2) else Some (s, m1))"
      using Substring_ok [OF l(3) d, of 0 "length dst * 2"] d l(3) extends_refl by auto
    then obtain s' m2 where s: "(if length dst * 2 < length x then Substring m1 s 0 (length dst * 2) else Some (s, m1)) = Some (s', m2)"
      "denotes m2 s' ?y" "extends m1 m2" "mem_ok m2" by (auto simp: yields_def)
    obtain m3 where t: "str_String m2 s' = Some (units_string ?y, m3)" "extends m2 m3" "mem_ok m3"
      using str_String_units [OF s(4,2)] by (auto simp: returns_def)
    obtain n er dst' ok where h: "hex_Decode dst 0 (units_string ?y) = Some (n, er, dst')" "FromHex_loop ?y None 0 [] = (2 * n, take n dst', ok)"
      "er = None \<longleftrightarrow> ok \<and> even (length ?y)" "length dst' = length dst" "drop n dst' = drop n dst"
      using FromHex_loop_start [of ?y dst] by force
    have "FromHex_loop x (Some (length dst)) 0 [] = FromHex_loop ?y None 0 []"
      using FromHex_loop_limit [of "[]" "length dst" x 0] True by (simp add: mult.commute)
    then have "FromHex x (Some (length dst)) = (2 * n, take n dst', er = None)"
      using h True by (simp add: FromHex_def min_def even_iff_mod_2_eq_zero)
    moreover have "returns m (n, er, dst') (fromHexInto m s (length dst) dst)"
      using l s t h(1) True by (auto simp: fromHexInto_def returns_def even_iff_mod_2_eq_zero intro: extends_trans)
    ultimately show ?thesis using h by blast
  qed
qed

lemma fromHex_ok:
  assumes "mem_ok m" "denotes m s x"
  shows "\<exists>bs er. returns m (bs, er) (fromHex m s) \<and>
    (case FromHex x None of (_, bytes, ok) \<Rightarrow> (er = None \<longleftrightarrow> ok) \<and> (ok \<longrightarrow> bs = bytes))"
proof -
  let ?t = "units_string x"
  let ?dst = "replicate (length ?t div 2) 0 :: byte list"
  obtain m' where t: "str_String m s = Some (?t, m')" "extends m m'" "mem_ok m'"
    using str_String_units [OF assms] by (auto simp: returns_def)
  have "length x \<le> 2 * length ?dst + 1" using length_units_string [of x] by simp
  from FromHex_loop_start [OF this] obtain n er dst' ok where h: "hex_Decode ?dst 0 ?t = Some (n, er, dst')"
    "FromHex_loop x None 0 [] = (2 * n, take n dst', ok)" "er = None \<longleftrightarrow> ok \<and> even (length x)" by blast
  have "fromHex m s = Some ((take n dst', er), m')" using t h(1) by (simp add: fromHex_def)
  moreover have "case FromHex x None of (_, bytes, ok) \<Rightarrow> (er = None \<longleftrightarrow> ok) \<and> (ok \<longrightarrow> take n dst' = bytes)"
    using h by (auto simp: FromHex_def even_iff_mod_2_eq_zero odd_iff_mod_2_eq_one)
  ultimately show ?thesis using t by (auto simp: returns_def)
qed

lemma hexit_digit: "n < 16 \<Longrightarrow> hexit (ucast (hextable ! n)) = Some n"
proof -
  have "list_all (\<lambda>n. hexit (ucast (hextable ! n)) = Some n) [0..<16]" by code_simp
  then show "n < 16 \<Longrightarrow> ?thesis" by (simp add: list_all_iff)
qed

lemma FromHex_encode: "FromHex_loop (map ucast (hex_Encode bs)) None read bytes = (read + 2 * length bs, bytes @ bs, True)"
proof (induction bs arbitrary: read bytes)
  case (Cons b bs)
  have "unat b div 16 * 16 + unat b mod 16 = unat b" by simp
  moreover have "unat b div 16 < 16" using byte_bound [of b] by simp
  ultimately show ?case using Cons by (simp add: hex_Encode_def hexit_digit) (simp add: byte_of_def)
qed (simp add: hex_Encode_def)

text \<open>
  (C37) Hexadecimal text: \<^verbatim>\<open>fromHexInto\<close> and \<^verbatim>\<open>fromHex\<close>, which work on the UTF-8 bytes of the Go string, read, write and reject what
  ECMAScript's \<open>FromHex\<close> does on the UTF-16 units, whatever characters the string has and however short the
  destination is; \<^verbatim>\<open>fromHex\<close> inverts \<^verbatim>\<open>toHex\<close>. Neither ever writes behind its destination.
\<close>

theorem hex_correct:
  assumes "mem_ok m" "denotes m s x"
  shows "(\<exists>written er dst'. returns m (written, er, dst') (fromHexInto m s (length dst) dst) \<and>
      FromHex x (Some (length dst)) = (2 * written, take written dst', er = None) \<and>
      length dst' = length dst \<and> drop written dst' = drop written dst) \<and>
    (\<exists>bs er. returns m (bs, er) (fromHex m s) \<and>
      (case FromHex x None of (_, bytes, ok) \<Rightarrow> (er = None \<longleftrightarrow> ok) \<and> (ok \<longrightarrow> bs = bytes))) \<and>
    (x = map ucast (hex_Encode bytes) \<longrightarrow> FromHex x None = (length x, bytes, True))"
proof (intro conjI impI)
  show "FromHex x None = (length x, bytes, True)" if "x = map ucast (hex_Encode bytes)"
  proof -
    have "length (hex_Encode bytes) = 2 * length bytes" by (induction bytes) (simp_all add: hex_Encode_def)
    then show ?thesis using FromHex_encode [of bytes 0 "[]"] that by (simp add: FromHex_def)
  qed
qed (use fromHexInto_ok [OF assms] fromHex_ok [OF assms] in blast)+

theorem hex_correct_witness:
  "\<exists>written er dst'. returns wit_mem (written, er, dst') (fromHexInto wit_mem (Concat 1) 1 [7]) \<and>
     FromHex [0x61, 0x62, 0xE9, 0x63] (Some 1) = (2 * written, take written dst', er = None)"
  using hex_correct [OF wit_mem_ok wit_text(3), of "[7]" "[]"] by auto

end
