(* ===== verification/Machine.thy ===== *)
theory Machine
  imports Arith
begin

text \<open>
  The stack machine (vm.go): its state, the instructions for constants, operators, jumps, variables found by name,
  exceptions and returns, the handling of a thrown exception (\<^verbatim>\<open>handleThrow\<close>) and the run loop. The operators
  themselves are in \<^verbatim>\<open>Arith\<close>.

  The model keeps the live part of \<^verbatim>\<open>vm.stack\<close> (the slots below \<^verbatim>\<open>vm.sp\<close>) as a list with the top first, and likewise the
  reference and the try stack; a read outside is \<open>Crash\<close>, the Go panic. Offsets and positions are unbounded: the code
  keeps them in 32 bits, which a program of fewer than \<open>2 ^ 31\<close> instructions cannot exceed. Iterators
  (\<^verbatim>\<open>iterStack\<close>), private names and \<^verbatim>\<open>new.target\<close> are not part of the modelled instructions and left out of the state.
\<close>

section \<open>Instructions and state\<close>

datatype binop =
    OpAdd | OpSub | OpMul | OpExp | OpDiv | OpMod | OpAnd | OpOr | OpXor | OpSal | OpSar | OpShr
  | OpLt | OpGt | OpLte | OpGte | OpStrictEq | OpStrictNeq

datatype unop = OpNot | OpBnot | OpNeg | OpPlus | OpInc | OpDec | OpToNumber

type_synonym vname = ustr

datatype instr =
    LoadVal val | LoadUndef | SaveResult | LoadResult | ClearResult | Pop | RdupN nat
  | Binary binop | Unary unop
  | Jump int | JneP int | JeqP int | Jne int | Jeq int | Jcoalesc int | JcoalescP int
  | LoadDynamic vname bool | ResolveVar1 vname | ResolveVar1Strict vname | GetValue | PutValue | PutValueP | PopRef
  | New nat | Throw
  | Try int int | LeaveTry | EnterFinally | LeaveFinally
  | Ret
  | Hole

text \<open>A reference on the reference stack is opaque: the environment resolves, reads and writes it.\<close>

type_synonym reference = nat

record tryFrame =
  tf_exception :: "jserr option"
  tf_callStackLen :: nat
  tf_refLen :: nat
  tf_sp :: nat
  tf_stash :: nat
  tf_catchPos :: int
  tf_finallyPos :: int
  tf_finallyRet :: int

record vmContext =
  cx_prg :: "instr list"
  cx_stash :: nat
  cx_result :: val
  cx_pc :: int
  cx_sb :: int
  cx_args :: nat

record 'w vm =
  prg :: "instr list"
  pc :: int
  stack :: "val list"
  sb :: int
  args :: nat
  stash :: nat
  refStack :: "reference list"
  tryStack :: "tryFrame list"
  callStack :: "vmContext list"
  result :: val
  world :: 'w

text \<open>
  What the instructions need of the rest of the engine: the operators' environment, the look-up of a name in
  the enclosing stashes and the global object (\<open>None\<close> when it is not found), references to variables, constructors, and
  the correspondence between thrown errors and the values a \<^verbatim>\<open>catch\<close> clause receives.
\<close>

record 'w venv =
  v_env :: "'w env"
  v_load :: "vname \<Rightarrow> bool \<Rightarrow> ('w, val option) jsm"
  v_resolve :: "vname \<Rightarrow> bool \<Rightarrow> ('w, reference) jsm"
  v_get :: "reference \<Rightarrow> ('w, val) jsm"
  v_put :: "reference \<Rightarrow> val \<Rightarrow> ('w, unit) jsm"
  v_construct :: "val \<Rightarrow> val list \<Rightarrow> ('w, val) jsm"
  v_value :: "jserr \<Rightarrow> val"
  v_exn :: "val \<Rightarrow> jserr"

datatype 'w outcome = Next "'w vm" | Raise jserr "'w vm" | Crash

definition with_world :: "('w, 'a) jsm \<Rightarrow> 'w vm \<Rightarrow> ('a \<Rightarrow> 'w vm \<Rightarrow> 'w outcome) \<Rightarrow> 'w outcome" where
  "with_world m s k =
     (case m (world s) of
        (Inl e, w) \<Rightarrow> Raise e (s\<lparr>world := w\<rparr>)
      | (Inr x, w) \<Rightarrow> k x (s\<lparr>world := w\<rparr>))"

text \<open>\<^verbatim>\<open>vm.pc++\<close> with a new stack, and \<^verbatim>\<open>vm.pc += j\<close>.\<close>

definition advance :: "'w vm \<Rightarrow> val list \<Rightarrow> 'w vm" where
  "advance s st = s\<lparr>pc := pc s + 1, stack := st\<rparr>"

definition jump_by :: "'w vm \<Rightarrow> int \<Rightarrow> val list \<Rightarrow> 'w vm" where
  "jump_by s j st = s\<lparr>pc := pc s + j, stack := st\<rparr>"

section \<open>Constants, the result register and the stack\<close>

definition loadVal_exec :: "val \<Rightarrow> 'w vm \<Rightarrow> 'w outcome" where
  "loadVal_exec v s = Next (advance s (v # stack s))"

definition loadUndef_exec :: "'w vm \<Rightarrow> 'w outcome" where
  "loadUndef_exec s = Next (advance s (VUndef # stack s))"

definition saveResult_exec :: "'w vm \<Rightarrow> 'w outcome" where
  "saveResult_exec s = (case stack s of v # st \<Rightarrow> Next (advance (s\<lparr>result := v\<rparr>) st) | [] \<Rightarrow> Crash)"

definition loadResult_exec :: "'w vm \<Rightarrow> 'w outcome" where
  "loadResult_exec s = Next (advance s (result s # stack s))"

definition clearResult_exec :: "'w vm \<Rightarrow> 'w outcome" where
  "clearResult_exec s = Next (advance (s\<lparr>result := VUndef\<rparr>) (stack s))"

definition pop_exec :: "'w vm \<Rightarrow> 'w outcome" where
  "pop_exec s = (case stack s of _ # st \<Rightarrow> Next (advance s st) | [] \<Rightarrow> Crash)"

definition rdupN_exec :: "nat \<Rightarrow> 'w vm \<Rightarrow> 'w outcome" where
  "rdupN_exec d s =
     (if d < length (stack s) then Next (advance s ((stack s)[d := stack s ! 0])) else Crash)"

section \<open>Operators\<close>

definition not_exec :: "val \<Rightarrow> val" where
  "not_exec v = VBool (\<not> ToBoolean v)"

fun apply_binop :: "'w env \<Rightarrow> binop \<Rightarrow> val \<Rightarrow> val \<Rightarrow> ('w, val) jsm" where
  "apply_binop E OpAdd = add_exec E"
| "apply_binop E OpSub = sub_exec E"
| "apply_binop E OpMul = mul_exec E"
| "apply_binop E OpExp = exp_exec E"
| "apply_binop E OpDiv = div_exec E"
| "apply_binop E OpMod = mod_exec E"
| "apply_binop E OpAnd = and_exec E"
| "apply_binop E OpOr = or_exec E"
| "apply_binop E OpXor = xor_exec E"
| "apply_binop E OpSal = sal_exec E"
| "apply_binop E OpSar = sar_exec E"
| "apply_binop E OpShr = shr_exec E"
| "apply_binop E OpLt = op_lt_exec E"
| "apply_binop E OpGt = op_gt_exec E"
| "apply_binop E OpLte = op_lte_exec E"
| "apply_binop E OpGte = op_gte_exec E"
| "apply_binop E OpStrictEq = (\<lambda>l r. ret (op_strict_eq_exec l r))"
| "apply_binop E OpStrictNeq = (\<lambda>l r. ret (op_strict_neq_exec l r))"

fun apply_unop :: "'w env \<Rightarrow> unop \<Rightarrow> val \<Rightarrow> ('w, val) jsm" where
  "apply_unop E OpNot = (\<lambda>v. ret (not_exec v))"
| "apply_unop E OpBnot = bnot_exec E"
| "apply_unop E OpNeg = neg_exec E"
| "apply_unop E OpPlus = plus_exec E"
| "apply_unop E OpInc = inc_exec E"
| "apply_unop E OpDec = dec_exec E"
| "apply_unop E OpToNumber = toNumeric E"

definition binary_exec :: "'w venv \<Rightarrow> binop \<Rightarrow> 'w vm \<Rightarrow> 'w outcome" where
  "binary_exec E op s =
     (case stack s of
        right # left # st \<Rightarrow> with_world (apply_binop (v_env E) op left right) s (\<lambda>v s. Next (advance s (v # st)))
      | _ \<Rightarrow> Crash)"

definition unary_exec :: "'w venv \<Rightarrow> unop \<Rightarrow> 'w vm \<Rightarrow> 'w outcome" where
  "unary_exec E op s =
     (case stack s of
        operand # st \<Rightarrow> with_world (apply_unop (v_env E) op operand) s (\<lambda>v s. Next (advance s (v # st)))
      | _ \<Rightarrow> Crash)"

section \<open>Jumps\<close>

definition is_nullish :: "val \<Rightarrow> bool" where
  "is_nullish v \<longleftrightarrow> v = VUndef \<or> v = VNull"

definition jump_exec :: "int \<Rightarrow> 'w vm \<Rightarrow> 'w outcome" where
  "jump_exec j s = Next (jump_by s j (stack s))"

definition jneP_exec :: "int \<Rightarrow> 'w vm \<Rightarrow> 'w outcome" where
  "jneP_exec j s =
     (case stack s of v # st \<Rightarrow> Next (if \<not> ToBoolean v then jump_by s j st else advance s st) | [] \<Rightarrow> Crash)"

definition jeqP_exec :: "int \<Rightarrow> 'w vm \<Rightarrow> 'w outcome" where
  "jeqP_exec j s =
     (case stack s of v # st \<Rightarrow> Next (if ToBoolean v then jump_by s j st else advance s st) | [] \<Rightarrow> Crash)"

definition jeq_exec :: "int \<Rightarrow> 'w vm \<Rightarrow> 'w outcome" where
  "jeq_exec j s =
     (case stack s of v # st \<Rightarrow> Next (if ToBoolean v then jump_by s j (v # st) else advance s st) | [] \<Rightarrow> Crash)"

definition jne_exec :: "int \<Rightarrow> 'w vm \<Rightarrow> 'w outcome" where
  "jne_exec j s =
     (case stack s of v # st \<Rightarrow> Next (if \<not> ToBoolean v then jump_by s j (v # st) else advance s st) | [] \<Rightarrow> Crash)"

definition jcoalesc_exec :: "int \<Rightarrow> 'w vm \<Rightarrow> 'w outcome" where
  "jcoalesc_exec j s =
     (case stack s of v # st \<Rightarrow> Next (if is_nullish v then advance s st else jump_by s j (v # st)) | [] \<Rightarrow> Crash)"

definition jcoalescP_exec :: "int \<Rightarrow> 'w vm \<Rightarrow> 'w outcome" where
  "jcoalescP_exec j s =
     (case stack s of v # st \<Rightarrow> Next (if is_nullish v then advance s st else jump_by s j st) | [] \<Rightarrow> Crash)"

section \<open>Variables by name\<close>

definition loadDynamic_exec :: "'w venv \<Rightarrow> vname \<Rightarrow> bool \<Rightarrow> 'w vm \<Rightarrow> 'w outcome" where
  "loadDynamic_exec E name strict s =
     with_world (v_load E name strict) s (\<lambda>v s.
       case v of None \<Rightarrow> Raise ReferenceErr s | Some val \<Rightarrow> Next (advance s (val # stack s)))"

definition resolveVar1_exec :: "'w venv \<Rightarrow> vname \<Rightarrow> bool \<Rightarrow> 'w vm \<Rightarrow> 'w outcome" where
  "resolveVar1_exec E name strict s =
     with_world (v_resolve E name strict) s (\<lambda>r s. Next (advance (s\<lparr>refStack := r # refStack s\<rparr>) (stack s)))"

definition getValue_exec :: "'w venv \<Rightarrow> 'w vm \<Rightarrow> 'w outcome" where
  "getValue_exec E s =
     (case refStack s of
        r # _ \<Rightarrow> with_world (v_get E r) s (\<lambda>v s. Next (advance s (v # stack s)))
      | [] \<Rightarrow> Crash)"

text \<open>The reference is removed before it is written; \<^verbatim>\<open>putValueP\<close> also drops the value.\<close>

definition putValue_exec :: "'w venv \<Rightarrow> bool \<Rightarrow> 'w vm \<Rightarrow> 'w outcome" where
  "putValue_exec E pop s =
     (case (refStack s, stack s) of
        (r # rs, v # st) \<Rightarrow>
          with_world (v_put E r v) (s\<lparr>refStack := rs\<rparr>) (\<lambda>_ s. Next (advance s (if pop then st else v # st)))
      | _ \<Rightarrow> Crash)"

definition popRef_exec :: "'w vm \<Rightarrow> 'w outcome" where
  "popRef_exec s =
     (case refStack s of _ # rs \<Rightarrow> Next (advance (s\<lparr>refStack := rs\<rparr>) (stack s)) | [] \<Rightarrow> Crash)"

definition new_exec :: "'w venv \<Rightarrow> nat \<Rightarrow> 'w vm \<Rightarrow> 'w outcome" where
  "new_exec E n s =
     (if n < length (stack s) then
        with_world (v_construct E (stack s ! n) (rev (take n (stack s)))) s
          (\<lambda>v s. Next (advance s (v # drop (n + 1) (stack s))))
      else Crash)"

section \<open>Exceptions\<close>

definition tryPanicMarker :: int where "tryPanicMarker = -2"

definition pushTryFrame :: "int \<Rightarrow> int \<Rightarrow> 'w vm \<Rightarrow> 'w vm" where
  "pushTryFrame catchPos finallyPos s =
     s\<lparr>tryStack :=
         \<lparr>tf_exception = None, tf_callStackLen = length (callStack s), tf_refLen = length (refStack s),
          tf_sp = length (stack s), tf_stash = stash s, tf_catchPos = catchPos, tf_finallyPos = finallyPos,
          tf_finallyRet = -1\<rparr> # tryStack s\<rparr>"

definition try_exec :: "int \<Rightarrow> int \<Rightarrow> 'w vm \<Rightarrow> 'w outcome" where
  "try_exec catchOffset finallyOffset s =
     (let catchPos = (if catchOffset > 0 then pc s + catchOffset else -1);
          finallyPos = (if finallyOffset > 0 then pc s + finallyOffset else -1)
      in Next (advance (pushTryFrame catchPos finallyPos s) (stack s)))"

text \<open>\<^verbatim>\<open>vm.sp = n\<close>: the slots below \<^verbatim>\<open>n\<close>.\<close>

definition keep :: "nat \<Rightarrow> 'a list \<Rightarrow> 'a list" where
  "keep n xs = drop (length xs - n) xs"

definition leaveTry_exec :: "'w vm \<Rightarrow> 'w outcome" where
  "leaveTry_exec s =
     (case tryStack s of
        tf # tfs \<Rightarrow>
          if 0 \<le> tf_finallyPos tf then
            Next (s\<lparr>pc := tf_finallyPos tf, stack := keep (tf_sp tf) (stack s), stash := tf_stash tf,
                     tryStack := tf\<lparr>tf_finallyRet := pc s + 1, tf_finallyPos := -1, tf_catchPos := -1\<rparr> # tfs\<rparr>)
          else Next (advance (s\<lparr>tryStack := tfs\<rparr>) (stack s))
      | [] \<Rightarrow> Crash)"

definition enterFinally_exec :: "'w vm \<Rightarrow> 'w outcome" where
  "enterFinally_exec s =
     (case tryStack s of
        tf # tfs \<Rightarrow>
          Next (advance (s\<lparr>tryStack := tf\<lparr>tf_finallyPos := -1, tf_catchPos := -1\<rparr> # tfs\<rparr>) (stack s))
      | [] \<Rightarrow> Crash)"

definition leaveFinally_exec :: "'w vm \<Rightarrow> 'w outcome" where
  "leaveFinally_exec s =
     (case tryStack s of
        tf # tfs \<Rightarrow>
          let s = s\<lparr>tryStack := tfs\<rparr> in
          (case tf_exception tf of
             Some ex \<Rightarrow> Raise ex s
           | None \<Rightarrow> if tf_finallyRet tf \<noteq> -1 then Next (s\<lparr>pc := tf_finallyRet tf\<rparr>) else Next (advance s (stack s)))
      | [] \<Rightarrow> Crash)"

definition throw_exec :: "'w venv \<Rightarrow> 'w vm \<Rightarrow> 'w outcome" where
  "throw_exec E s = (case stack s of v # _ \<Rightarrow> Raise (v_exn E v) s | [] \<Rightarrow> Crash)"

text \<open>
  What \<^verbatim>\<open>handleThrow\<close> restores from a frame: the context of the frame's function when calls are open above it,
  the stack pointer, the stash and the reference stack.
\<close>

definition restore :: "tryFrame \<Rightarrow> 'w vm \<Rightarrow> 'w vm" where
  "restore tf s =
     (let s = (if tf_callStackLen tf < length (callStack s) then
                 let ctx = callStack s ! tf_callStackLen tf in
                 s\<lparr>prg := cx_prg ctx, result := cx_result ctx, pc := cx_pc ctx, sb := cx_sb ctx, args := cx_args ctx,
                   callStack := take (tf_callStackLen tf) (callStack s)\<rparr>
               else s)
      in s\<lparr>stack := keep (tf_sp tf) (stack s), stash := tf_stash tf, refStack := keep (tf_refLen tf) (refStack s)\<rparr>)"

text \<open>
  \<^verbatim>\<open>handleThrow\<close> on the frames from the top: \<open>Inr\<close> is the state in which execution goes on, \<open>Inl\<close> the state left when
  no frame handles the exception. A position is \<open>-1\<close>, the marker or not negative, so that the last case does not
  arise.
\<close>

fun handleThrow :: "'w venv \<Rightarrow> jserr \<Rightarrow> tryFrame list \<Rightarrow> 'w vm \<Rightarrow> 'w vm + 'w vm" where
  "handleThrow E ex [] s = Inl (s\<lparr>tryStack := []\<rparr>)"
| "handleThrow E ex (tf # tfs) s =
     (if tf_catchPos tf = -1 \<and> tf_finallyPos tf = -1 then handleThrow E ex tfs s
      else let s = restore tf s in
        if tf_catchPos tf = tryPanicMarker then Inl (s\<lparr>tryStack := tf # tfs\<rparr>)
        else if 0 \<le> tf_catchPos tf then
          Inr (s\<lparr>stack := v_value E ex # stack s, pc := tf_catchPos tf, tryStack := tf\<lparr>tf_catchPos := -1\<rparr> # tfs\<rparr>)
        else if 0 \<le> tf_finallyPos tf then
          Inr (s\<lparr>pc := tf_finallyPos tf,
                  tryStack := tf\<lparr>tf_exception := Some ex, tf_finallyPos := -1, tf_finallyRet := -1\<rparr> # tfs\<rparr>)
        else Inl (s\<lparr>tryStack := tf # tfs\<rparr>))"

section \<open>Returning\<close>

definition popCtx :: "'w vm \<Rightarrow> 'w vm" where
  "popCtx s =
     (let ctx = last (callStack s) in
      s\<lparr>prg := cx_prg ctx, stash := cx_stash ctx, result := cx_result ctx, pc := cx_pc ctx, sb := cx_sb ctx,
        args := cx_args ctx, callStack := butlast (callStack s)\<rparr>)"

definition ret_exec :: "'w vm \<Rightarrow> 'w outcome" where
  "ret_exec s =
     (case stack s of
        v # st \<Rightarrow>
          if 0 < sb s \<and> callStack s \<noteq> [] then
            let s = popCtx (s\<lparr>stack := v # keep (nat (sb s - 1)) (stack s)\<rparr>) in Next (advance s (stack s))
          else Crash
      | [] \<Rightarrow> Crash)"

section \<open>The run loop\<close>

fun exec :: "'w venv \<Rightarrow> instr \<Rightarrow> 'w vm \<Rightarrow> 'w outcome" where
  "exec E (LoadVal v) s = loadVal_exec v s"
| "exec E LoadUndef s = loadUndef_exec s"
| "exec E SaveResult s = saveResult_exec s"
| "exec E LoadResult s = loadResult_exec s"
| "exec E ClearResult s = clearResult_exec s"
| "exec E Pop s = pop_exec s"
| "exec E (RdupN d) s = rdupN_exec d s"
| "exec E (Binary op) s = binary_exec E op s"
| "exec E (Unary op) s = unary_exec E op s"
| "exec E (Jump j) s = jump_exec j s"
| "exec E (JneP j) s = jneP_exec j s"
| "exec E (JeqP j) s = jeqP_exec j s"
| "exec E (Jne j) s = jne_exec j s"
| "exec E (Jeq j) s = jeq_exec j s"
| "exec E (Jcoalesc j) s = jcoalesc_exec j s"
| "exec E (JcoalescP j) s = jcoalescP_exec j s"
| "exec E (LoadDynamic name strict) s = loadDynamic_exec E name strict s"
| "exec E (ResolveVar1 name) s = resolveVar1_exec E name False s"
| "exec E (ResolveVar1Strict name) s = resolveVar1_exec E name True s"
| "exec E GetValue s = getValue_exec E s"
| "exec E PutValue s = putValue_exec E False s"
| "exec E PutValueP s = putValue_exec E True s"
| "exec E PopRef s = popRef_exec s"
| "exec E (New n) s = new_exec E n s"
| "exec E Throw s = throw_exec E s"
| "exec E (Try c f) s = try_exec c f s"
| "exec E LeaveTry s = leaveTry_exec s"
| "exec E EnterFinally s = enterFinally_exec s"
| "exec E LeaveFinally s = leaveFinally_exec s"
| "exec E Ret s = ret_exec s"
| "exec E Hole s = Crash"

text \<open>
  One turn of the loop of \<^verbatim>\<open>run\<close>, with the recovery of a panic by \<^verbatim>\<open>runTryInner\<close>: an exception thrown by an instruction goes
  to \<^verbatim>\<open>handleThrow\<close>.
\<close>

datatype 'w turn = Running "'w vm" | Halted "'w vm" | Uncaught jserr "'w vm" | Crashed

definition step :: "'w venv \<Rightarrow> 'w vm \<Rightarrow> 'w turn" where
  "step E s =
     (if pc s < 0 \<or> int (length (prg s)) \<le> pc s then Halted s
      else case exec E (prg s ! nat (pc s)) s of
        Next s \<Rightarrow> Running s
      | Raise e s \<Rightarrow> (case handleThrow E e (tryStack s) s of Inr s \<Rightarrow> Running s | Inl s \<Rightarrow> Uncaught e s)
      | Crash \<Rightarrow> Crashed)"

partial_function (option) run :: "'w venv \<Rightarrow> 'w vm \<Rightarrow> 'w turn option" where
  "run E s = (case step E s of Running s \<Rightarrow> run E s | r \<Rightarrow> Some r)"

text \<open>\<^verbatim>\<open>runTry\<close>: a frame with the marker around the loop.\<close>

definition runTry :: "'w venv \<Rightarrow> 'w vm \<Rightarrow> 'w turn option" where
  "runTry E s = run E (pushTryFrame tryPanicMarker (-1) s)"

section \<open>Reachable states\<close>

inductive reach :: "'w venv \<Rightarrow> 'w vm \<Rightarrow> 'w vm \<Rightarrow> bool" for E where
  reach_refl [simp, intro]: "reach E s s"
| reach_step: "step E s = Running s' \<Longrightarrow> reach E s' s'' \<Longrightarrow> reach E s s''"

lemma reach_trans [trans]: "reach E s t \<Longrightarrow> reach E t u \<Longrightarrow> reach E s u"
  by (induction rule: reach.induct) (auto intro: reach_step)

lemma reach_one: "step E s = Running s' \<Longrightarrow> reach E s s'"
  by (rule reach_step) auto

lemma run_reach: "reach E s t \<Longrightarrow> run E s = run E t"
  by (induction rule: reach.induct) (auto simp: run.simps)

lemma run_end: "step E s = Halted t \<Longrightarrow> run E s = Some (Halted t)" "step E s = Uncaught e t \<Longrightarrow> run E s = Some (Uncaught e t)"
  by (simp_all add: run.simps)

lemma length_keep: "length (keep n xs) = min n (length xs)"
  by (simp add: keep_def)

lemma keep_append [simp]: "keep (length xs) (ys @ xs) = xs" "keep (length xs) xs = xs" "keep (length xs) (y # xs) = xs"
  by (simp_all add: keep_def)

end
