(* ===== verification/Compiler.thy ===== *)
theory Compiler
  imports Machine "HOL-Library.Monad_Syntax"
begin

text \<open>
  Code generation (compiler_expr.go, compiler_stmt.go, parts of compiler.go) for expressions over literals and free
  variables and for statements with blocks, conditionals, loops, labels, \<^verbatim>\<open>break\<close>, \<^verbatim>\<open>continue\<close>, \<^verbatim>\<open>return\<close>, \<^verbatim>\<open>throw\<close>, \<^verbatim>\<open>try\<close>,
  \<^verbatim>\<open>catch\<close> without a parameter and \<^verbatim>\<open>finally\<close>. The compiler folds constants by running its own machine, drops code that
  cannot be reached after compiling it in a dummy mode, and patches jumps when a block is left. \<open>None\<close> is a
  \<^verbatim>\<open>SyntaxError\<close> or a panic of the compiler. Declarations, functions, property access, calls, \<^verbatim>\<open>switch\<close>, \<^verbatim>\<open>with\<close> and
  the loops over iterators are not part of the modelled language.
\<close>

section \<open>Syntax\<close>

datatype logop = LOr | LAnd | LCoalesce

datatype unaryOp = UNot | UBitwiseNot | UMinus | UPlus | UVoid

datatype expr =
    Lit val
  | Ident vname
  | Assign vname expr
  | AssignOp binop vname expr
  | AssignLogical logop vname expr
  | Update bool bool vname
  | UnaryE unaryOp expr
  | BinaryE binop expr expr
  | Logical logop expr expr
  | Conditional expr expr expr
  | Sequence "expr list"

datatype stmt =
    BlockS "stmt list"
  | ExprS expr
  | EmptyS
  | IfS expr stmt "stmt option"
  | WhileS expr stmt
  | DoWhileS stmt expr
  | ForS "expr option" "expr option" "expr option" stmt
  | BranchS bool "vname option"
  | ReturnS "expr option"
  | ThrowS expr
  | TryS "stmt list" "stmt list option" "stmt list option"
  | LabelledS vname stmt

text \<open>
  \<open>Update inc postfix x\<close> is \<^verbatim>\<open>++x\<close>, \<^verbatim>\<open>--x\<close>, \<^verbatim>\<open>x++\<close> or \<^verbatim>\<open>x--\<close>; \<open>BranchS True\<close> is \<^verbatim>\<open>break\<close>, \<open>BranchS False\<close> is \<^verbatim>\<open>continue\<close>; the lists of
  \<open>TryS\<close> are the bodies of the block, of \<^verbatim>\<open>catch\<close> and of \<^verbatim>\<open>finally\<close>.
\<close>

section \<open>Compiled expressions\<close>

text \<open>
  A compiled expression is its methods \<^verbatim>\<open>constant\<close> and \<^verbatim>\<open>emitGetter\<close>, where the latter gives the code that is
  appended to the program; \<open>ce_literal\<close> is the value of a \<^verbatim>\<open>compiledLiteral\<close>. Source positions are left out.
\<close>

type_synonym code = "instr list"

record compiledExpr =
  ce_literal :: "val option"
  ce_constant :: "bool option"
  ce_emitGetter :: "bool \<Rightarrow> code option"

text \<open>
  The compiler's own machine (\<^verbatim>\<open>c.evalVM\<close>, a fresh runtime), the mode of the scope, and the message of the error objects that
  the machine throws.
\<close>

record 'k compiler =
  c_env :: "'k venv"
  c_world :: 'k
  c_strict :: bool
  c_message :: "jserr \<Rightarrow> val option"

definition evalVM :: "'k compiler \<Rightarrow> code \<Rightarrow> 'k vm" where
  "evalVM c code =
     \<lparr>prg = code, pc = 0, stack = [], sb = -1, args = 0, stash = 0, refStack = [], tryStack = [], callStack = [],
      result = VUndef, world = c_world c\<rparr>"

definition evalConst :: "'k compiler \<Rightarrow> compiledExpr \<Rightarrow> (jserr + val) option" where
  "evalConst c e =
     (case ce_literal e of
        Some v \<Rightarrow> Some (Inr v)
      | None \<Rightarrow>
          do { code \<leftarrow> ce_emitGetter e True;
               r \<leftarrow> runTry (c_env c) (evalVM c code);
               case r of
                 Halted s \<Rightarrow> (case stack s of v # _ \<Rightarrow> Some (Inr v) | [] \<Rightarrow> None)
               | Uncaught ex _ \<Rightarrow> Some (Inl ex)
               | _ \<Rightarrow> None })"

definition emitThrow :: "'k compiler \<Rightarrow> jserr \<Rightarrow> code option" where
  "emitThrow c ex =
     (case (case ex of TypeErr \<Rightarrow> Some ''TypeError'' | RangeErr \<Rightarrow> Some ''RangeError'' | _ \<Rightarrow> None) of
        Some t \<Rightarrow>
          Some ([LoadDynamic (ascii t) False] @
                (case c_message c ex of Some msg \<Rightarrow> [LoadVal msg, New 1] | None \<Rightarrow> [New 0]) @ [Throw])
      | None \<Rightarrow> None)"

definition emitConst :: "'k compiler \<Rightarrow> compiledExpr \<Rightarrow> bool \<Rightarrow> code option" where
  "emitConst c e putOnStack =
     do { r \<leftarrow> evalConst c e;
          case r of Inr v \<Rightarrow> Some (if putOnStack then [LoadVal v] else []) | Inl ex \<Rightarrow> emitThrow c ex }"

definition emitExpr :: "'k compiler \<Rightarrow> compiledExpr \<Rightarrow> bool \<Rightarrow> code option" where
  "emitExpr c e putOnStack =
     do { k \<leftarrow> ce_constant e;
          if k then emitConst c e putOnStack else ce_emitGetter e putOnStack }"

text \<open>\<^verbatim>\<open>emitNamedOrConst\<close>; no expression of the modelled language takes a name.\<close>

definition emitNamedOrConst :: "'k compiler \<Rightarrow> compiledExpr \<Rightarrow> code option" where
  "emitNamedOrConst c e =
     do { k \<leftarrow> ce_constant e;
          if k then emitConst c e True else ce_emitGetter e True }"

subsection \<open>Literals and identifiers\<close>

definition literal_emitGetter :: "val \<Rightarrow> bool \<Rightarrow> code option" where
  "literal_emitGetter v putOnStack = Some (if putOnStack then [LoadVal v] else [])"

definition checkIdentifierName :: "vname \<Rightarrow> bool" where
  "checkIdentifierName name \<longleftrightarrow>
     name \<notin> ascii ` {''implements'', ''interface'', ''let'', ''package'', ''private'', ''protected'', ''public'', ''static'', ''yield''}"

definition checkIdentifierLName :: "vname \<Rightarrow> bool" where
  "checkIdentifierLName name \<longleftrightarrow> name \<noteq> ascii ''eval'' \<and> name \<noteq> ascii ''arguments''"

definition identifier_emitGetter :: "'k compiler \<Rightarrow> vname \<Rightarrow> bool \<Rightarrow> code option" where
  "identifier_emitGetter c name putOnStack =
     Some ([LoadDynamic name (c_strict c)] @ (if putOnStack then [] else [Pop]))"

text \<open>\<^verbatim>\<open>emitVarRef\<close> for a name without a binding.\<close>

definition emitVarRef :: "'k compiler \<Rightarrow> vname \<Rightarrow> code option" where
  "emitVarRef c name =
     (if c_strict c then
        if checkIdentifierLName name then Some [ResolveVar1Strict name] else None
      else Some [ResolveVar1 name])"

text \<open>\<^verbatim>\<open>emitVarSetter1\<close>: the name is looked up dynamically, so that the right-hand side is emitted with a reference.\<close>

definition emitVarSetter1 :: "'k compiler \<Rightarrow> vname \<Rightarrow> bool \<Rightarrow> code option \<Rightarrow> code option" where
  "emitVarSetter1 c name putOnStack right =
     do { ref \<leftarrow> emitVarRef c name;
          r \<leftarrow> right;
          Some (ref @ r @ [if putOnStack then PutValue else PutValueP]) }"

definition emitVarSetter :: "'k compiler \<Rightarrow> vname \<Rightarrow> compiledExpr \<Rightarrow> bool \<Rightarrow> code option" where
  "emitVarSetter c name valueExpr putOnStack = emitVarSetter1 c name putOnStack (emitNamedOrConst c valueExpr)"

definition identifier_emitUnary ::
    "'k compiler \<Rightarrow> vname \<Rightarrow> code \<Rightarrow> code option \<Rightarrow> bool \<Rightarrow> bool \<Rightarrow> code option" where
  "identifier_emitUnary c name prepare body postfix putOnStack =
     (if putOnStack then
        do { r \<leftarrow> emitVarSetter1 c name True
               (do { b \<leftarrow> body;
                     Some ([LoadUndef, GetValue] @ prepare @ (if postfix then [] else b) @ [RdupN 1] @
                           (if postfix then b else [])) });
             Some (r @ [Pop]) }
      else emitVarSetter1 c name False (do { b \<leftarrow> body; Some ([GetValue] @ b) }))"

subsection \<open>Assignment\<close>

definition assign_emitGetter :: "'k compiler \<Rightarrow> vname \<Rightarrow> compiledExpr \<Rightarrow> bool \<Rightarrow> code option" where
  "assign_emitGetter c name right putOnStack = emitVarSetter c name right putOnStack"

definition assignOp_emitGetter :: "'k compiler \<Rightarrow> binop \<Rightarrow> vname \<Rightarrow> compiledExpr \<Rightarrow> bool \<Rightarrow> code option" where
  "assignOp_emitGetter c op name right putOnStack =
     identifier_emitUnary c name []
       (do { r \<leftarrow> ce_emitGetter right True; Some (r @ [Binary op]) }) False putOnStack"

fun logical_jump :: "logop \<Rightarrow> bool \<Rightarrow> int \<Rightarrow> instr" where
  "logical_jump LAnd putOnStack = (if putOnStack then Jne else JneP)"
| "logical_jump LOr putOnStack = (if putOnStack then Jeq else JeqP)"
| "logical_jump LCoalesce putOnStack = (if putOnStack then Jcoalesc else JcoalescP)"

definition assignLogical_emitGetter :: "'k compiler \<Rightarrow> logop \<Rightarrow> vname \<Rightarrow> compiledExpr \<Rightarrow> bool \<Rightarrow> code option" where
  "assignLogical_emitGetter c op name right putOnStack =
     do { ref \<leftarrow> emitVarRef c name;
          r \<leftarrow> emitNamedOrConst c right;
          let tail = r @ [if putOnStack then PutValue else PutValueP, Jump 2] in
          Some (ref @ [GetValue, logical_jump op putOnStack (int (length tail) + 1)] @ tail @ [PopRef]) }"

subsection \<open>Operators\<close>

definition update_emitGetter :: "'k compiler \<Rightarrow> bool \<Rightarrow> bool \<Rightarrow> vname \<Rightarrow> bool \<Rightarrow> code option" where
  "update_emitGetter c inc postfix name putOnStack =
     identifier_emitUnary c name [Unary OpToNumber] (Some [Unary (if inc then OpInc else OpDec)]) postfix putOnStack"

definition unary_emitGetter :: "'k compiler \<Rightarrow> unaryOp \<Rightarrow> compiledExpr \<Rightarrow> bool \<Rightarrow> code option" where
  "unary_emitGetter c op operand putOnStack =
     (let end' = (if putOnStack then [] else [Pop]) in
      case op of
        UNot \<Rightarrow> do { a \<leftarrow> ce_emitGetter operand True; Some (a @ [Unary OpNot] @ end') }
      | UBitwiseNot \<Rightarrow> do { a \<leftarrow> ce_emitGetter operand True; Some (a @ [Unary OpBnot] @ end') }
      | UMinus \<Rightarrow> do { a \<leftarrow> emitExpr c operand True; Some (a @ [Unary OpNeg] @ end') }
      | UPlus \<Rightarrow> do { a \<leftarrow> emitExpr c operand True; Some (a @ [Unary OpPlus] @ end') }
      | UVoid \<Rightarrow> do { a \<leftarrow> emitExpr c operand False; Some (a @ (if putOnStack then [LoadUndef] else [])) })"

definition binary_constant :: "compiledExpr \<Rightarrow> compiledExpr \<Rightarrow> bool option" where
  "binary_constant left right = do { l \<leftarrow> ce_constant left; if l then ce_constant right else Some False }"

definition binary_emitGetter :: "'k compiler \<Rightarrow> binop \<Rightarrow> compiledExpr \<Rightarrow> compiledExpr \<Rightarrow> bool \<Rightarrow> code option" where
  "binary_emitGetter c op left right putOnStack =
     do { a \<leftarrow> emitExpr c left True;
          b \<leftarrow> emitExpr c right True;
          Some (a @ b @ [Binary op] @ (if putOnStack then [] else [Pop])) }"

text \<open>
  The three logical operators have the same shape: \<open>decides op v\<close> says that the left operand is the result.
\<close>

fun decides :: "logop \<Rightarrow> val \<Rightarrow> bool" where
  "decides LOr v = ToBoolean v"
| "decides LAnd v = (\<not> ToBoolean v)"
| "decides LCoalesce v = (\<not> is_nullish v)"

definition logical_constant :: "'k compiler \<Rightarrow> logop \<Rightarrow> compiledExpr \<Rightarrow> compiledExpr \<Rightarrow> bool option" where
  "logical_constant c op left right =
     do { l \<leftarrow> ce_constant left;
          if l then do { r \<leftarrow> evalConst c left;
                         case r of Inr v \<Rightarrow> if decides op v then Some True else ce_constant right | Inl _ \<Rightarrow> Some True }
          else Some False }"

definition logical_emitGetter :: "'k compiler \<Rightarrow> logop \<Rightarrow> compiledExpr \<Rightarrow> compiledExpr \<Rightarrow> bool \<Rightarrow> code option" where
  "logical_emitGetter c op left right putOnStack =
     do { l \<leftarrow> ce_constant left;
          if l then
            do { r \<leftarrow> evalConst c left;
                 case r of
                   Inr v \<Rightarrow> if decides op v then Some (if putOnStack then [LoadVal v] else []) else emitExpr c right putOnStack
                 | Inl ex \<Rightarrow> emitThrow c ex }
          else
            do { a \<leftarrow> emitExpr c left True;
                 b \<leftarrow> emitExpr c right True;
                 Some (a @ [logical_jump op True (int (length b) + 1)] @ b @ (if putOnStack then [] else [Pop])) } }"

definition conditional_emitGetter :: "compiledExpr \<Rightarrow> compiledExpr \<Rightarrow> compiledExpr \<Rightarrow> bool \<Rightarrow> code option" where
  "conditional_emitGetter test consequent alternate putOnStack =
     do { t \<leftarrow> ce_emitGetter test True;
          a \<leftarrow> ce_emitGetter consequent putOnStack;
          b \<leftarrow> ce_emitGetter alternate putOnStack;
          Some (t @ [JneP (int (length a) + 2)] @ a @ [Jump (int (length b) + 1)] @ b) }"

fun sequence_emitGetter :: "compiledExpr list \<Rightarrow> bool \<Rightarrow> code option" where
  "sequence_emitGetter [] putOnStack = Some []"
| "sequence_emitGetter [e] putOnStack = ce_emitGetter e putOnStack"
| "sequence_emitGetter (e # es) putOnStack =
     do { a \<leftarrow> ce_emitGetter e False; b \<leftarrow> sequence_emitGetter es putOnStack; Some (a @ b) }"

section \<open>Expressions\<close>

definition plainExpr :: "(bool \<Rightarrow> code option) \<Rightarrow> compiledExpr" where
  "plainExpr getter = \<lparr>ce_literal = None, ce_constant = Some False, ce_emitGetter = getter\<rparr>"

text \<open>The name of an identifier is checked when it is compiled, in strict mode.\<close>

definition compileIdentifier :: "'k compiler \<Rightarrow> vname \<Rightarrow> unit option" where
  "compileIdentifier c name = (if c_strict c \<and> \<not> checkIdentifierName name then None else Some ())"

fun compileExpression :: "'k compiler \<Rightarrow> expr \<Rightarrow> compiledExpr option" where
  "compileExpression c (Lit v) = Some \<lparr>ce_literal = Some v, ce_constant = Some True, ce_emitGetter = literal_emitGetter v\<rparr>"
| "compileExpression c (Ident x) =
     do { _ \<leftarrow> compileIdentifier c x; Some (plainExpr (identifier_emitGetter c x)) }"
| "compileExpression c (Assign x e) =
     do { _ \<leftarrow> compileIdentifier c x; r \<leftarrow> compileExpression c e; Some (plainExpr (assign_emitGetter c x r)) }"
| "compileExpression c (AssignOp op x e) =
     do { _ \<leftarrow> compileIdentifier c x; r \<leftarrow> compileExpression c e; Some (plainExpr (assignOp_emitGetter c op x r)) }"
| "compileExpression c (AssignLogical op x e) =
     do { _ \<leftarrow> compileIdentifier c x; r \<leftarrow> compileExpression c e; Some (plainExpr (assignLogical_emitGetter c op x r)) }"
| "compileExpression c (Update inc postfix x) =
     do { _ \<leftarrow> compileIdentifier c x; Some (plainExpr (update_emitGetter c inc postfix x)) }"
| "compileExpression c (UnaryE op e) =
     do { a \<leftarrow> compileExpression c e;
          Some \<lparr>ce_literal = None, ce_constant = ce_constant a, ce_emitGetter = unary_emitGetter c op a\<rparr> }"
| "compileExpression c (BinaryE op e f) =
     do { a \<leftarrow> compileExpression c e; b \<leftarrow> compileExpression c f;
          Some \<lparr>ce_literal = None, ce_constant = binary_constant a b, ce_emitGetter = binary_emitGetter c op a b\<rparr> }"
| "compileExpression c (Logical op e f) =
     do { a \<leftarrow> compileExpression c e; b \<leftarrow> compileExpression c f;
          Some \<lparr>ce_literal = None, ce_constant = logical_constant c op a b, ce_emitGetter = logical_emitGetter c op a b\<rparr> }"
| "compileExpression c (Conditional e f g) =
     do { t \<leftarrow> compileExpression c e; a \<leftarrow> compileExpression c f; b \<leftarrow> compileExpression c g;
          Some (plainExpr (conditional_emitGetter t a b)) }"
| "compileExpression c (Sequence es) =
     do { s \<leftarrow> those (map (compileExpression c) es); Some (plainExpr (sequence_emitGetter s)) }"

section \<open>Blocks and jumps\<close>

datatype blockType = BlockLoop | BlockTry | BlockLabel

text \<open>
  \<^verbatim>\<open>block\<close>. The chain of enclosing blocks is a list with the innermost first; a pointer to a block (\<^verbatim>\<open>breaking\<close>) is its depth, the
  number of blocks outside it.
\<close>

record block =
  b_typ :: blockType
  b_label :: "vname option"
  b_cont :: nat
  b_breaks :: "nat list"
  b_conts :: "nat list"
  b_breaking :: "nat option"
  b_needResult :: bool

record cstate =
  code :: "instr list"
  blocks :: "block list"

definition newBlock :: "blockType \<Rightarrow> vname option \<Rightarrow> bool \<Rightarrow> block" where
  "newBlock typ label needResult =
     \<lparr>b_typ = typ, b_label = label, b_cont = 0, b_breaks = [], b_conts = [], b_breaking = None, b_needResult = needResult\<rparr>"

definition emit :: "code \<Rightarrow> cstate \<Rightarrow> cstate" where
  "emit is cs = cs\<lparr>code := code cs @ is\<rparr>"

definition openBlock :: "block \<Rightarrow> cstate \<Rightarrow> cstate" where
  "openBlock b cs = cs\<lparr>blocks := b # blocks cs\<rparr>"

definition setInner :: "(block \<Rightarrow> block) \<Rightarrow> cstate \<Rightarrow> cstate" where
  "setInner f cs = cs\<lparr>blocks := (case blocks cs of [] \<Rightarrow> [] | b # bs \<Rightarrow> f b # bs)\<rparr>"

text \<open>\<^verbatim>\<open>c.p.code[item] = i\<close>.\<close>

definition patch :: "nat \<Rightarrow> instr \<Rightarrow> code \<Rightarrow> code option" where
  "patch item i is = (if item < length is then Some (is[item := i]) else None)"

fun patchAll :: "nat list \<Rightarrow> nat \<Rightarrow> code \<Rightarrow> code option" where
  "patchAll [] target is = Some is"
| "patchAll (item # items) target is =
     do { is \<leftarrow> patch item (Jump (int target - int item)) is; patchAll items target is }"

definition leaveBlock :: "cstate \<Rightarrow> cstate option" where
  "leaveBlock cs =
     (case blocks cs of
        [] \<Rightarrow> None
      | b # bs \<Rightarrow>
          do { is \<leftarrow> patchAll (b_breaks b) (length (code cs)) (code cs);
               is \<leftarrow> (if b_typ b = BlockLoop then patchAll (b_conts b) (b_cont b) is else Some is);
               Some \<lparr>code = is, blocks = bs\<rparr> })"

text \<open>
  \<^verbatim>\<open>findBreakBlock\<close>: the outer option is the \<^verbatim>\<open>SyntaxError\<close> of an illegal \<^verbatim>\<open>continue\<close>, the inner one a block that was not
  found. The first function is the loop for a label, with the variable \<^verbatim>\<open>res\<close>.
\<close>

fun findLabel :: "vname \<Rightarrow> bool \<Rightarrow> nat option \<Rightarrow> block list \<Rightarrow> nat option option" where
  "findLabel label isBreak res [] = Some res"
| "findLabel label isBreak res (b # bs) =
     (let res = (if res = None then b_breaking b else res) in
      if res \<noteq> None \<and> isBreak then Some res
      else if b_label b = Some label then
        if \<not> isBreak \<and> b_typ b \<noteq> BlockLoop then None
        else Some (if res = None then Some (length bs) else res)
      else findLabel label isBreak res bs)"

fun findLoop :: "block list \<Rightarrow> nat option" where
  "findLoop [] = None"
| "findLoop (b # bs) =
     (if b_breaking b \<noteq> None then b_breaking b
      else if b_typ b = BlockLoop then Some (length bs) else findLoop bs)"

definition findBreakBlock :: "vname option \<Rightarrow> bool \<Rightarrow> block list \<Rightarrow> nat option option" where
  "findBreakBlock label isBreak bs =
     (case label of Some l \<Rightarrow> findLabel l isBreak None bs | None \<Rightarrow> Some (findLoop bs))"

text \<open>The code that leaves the blocks inside the one of the given depth.\<close>

fun exitCode :: "nat \<Rightarrow> block list \<Rightarrow> code" where
  "exitCode target [] = []"
| "exitCode target (b # bs) =
     (if length bs = target then []
      else (case b_typ b of BlockTry \<Rightarrow> [LeaveTry] | _ \<Rightarrow> []) @ exitCode target bs)"

definition emitBlockExitCode :: "vname option \<Rightarrow> bool \<Rightarrow> cstate \<Rightarrow> (nat \<times> cstate) option" where
  "emitBlockExitCode label isBreak cs =
     do { found \<leftarrow> findBreakBlock label isBreak (blocks cs);
          target \<leftarrow> found;
          Some (target, emit (exitCode target (blocks cs)) cs) }"

definition updateBlock :: "nat \<Rightarrow> (block \<Rightarrow> block) \<Rightarrow> block list \<Rightarrow> block list" where
  "updateBlock depth f bs = bs[length bs - 1 - depth := f (bs ! (length bs - 1 - depth))]"

definition compileBranch :: "bool \<Rightarrow> vname option \<Rightarrow> cstate \<Rightarrow> cstate option" where
  "compileBranch isBreak label cs =
     do { (target, cs) \<leftarrow> emitBlockExitCode label isBreak cs;
          let item = length (code cs) in
          Some (emit [Hole] (cs\<lparr>blocks := updateBlock target
            (\<lambda>b. if isBreak then b\<lparr>b_breaks := b_breaks b @ [item]\<rparr> else b\<lparr>b_conts := b_conts b @ [item]\<rparr>) (blocks cs)\<rparr>)) }"

text \<open>
  Dummy mode: the code is thrown away, and so is what happens to the innermost block, which is copied; blocks outside it
  are the real ones.
\<close>

definition dummyBlock :: "block \<Rightarrow> block" where
  "dummyBlock b = (newBlock (b_typ b) (b_label b) False)\<lparr>b_breaking := b_breaking b\<rparr>"

definition inDummyMode :: "(cstate \<Rightarrow> cstate option) \<Rightarrow> cstate \<Rightarrow> cstate option" where
  "inDummyMode f cs =
     do { d \<leftarrow> f (setInner dummyBlock \<lparr>code = [], blocks = blocks cs\<rparr>);
          Some (cs\<lparr>blocks := (case blocks cs of [] \<Rightarrow> [] | b # bs \<Rightarrow> b # tl (blocks d))\<rparr>) }"

section \<open>Completion values of statement lists\<close>

fun isEmptyResult :: "stmt \<Rightarrow> bool" and isEmptyResults :: "stmt list \<Rightarrow> bool" where
  "isEmptyResult EmptyS = True"
| "isEmptyResult (BranchS _ _) = True"
| "isEmptyResult (LabelledS _ s) = isEmptyResult s"
| "isEmptyResult (BlockS ss) = isEmptyResults ss"
| "isEmptyResult _ = False"
| "isEmptyResults [] = True"
| "isEmptyResults (s # ss) =
     ((case s of BranchS _ _ \<Rightarrow> True | _ \<Rightarrow> isEmptyResult s \<and> isEmptyResults ss))"

fun scanStatements :: "block list \<Rightarrow> stmt list \<Rightarrow> int \<Rightarrow> int \<Rightarrow> (int \<times> nat option) option" where
  "scanStatements bs [] i lp = Some (lp, None)"
| "scanStatements bs (s # ss) i lp =
     (case s of
        BranchS isBreak label \<Rightarrow> map_option (\<lambda>found. (lp, found)) (findBreakBlock label isBreak bs)
      | _ \<Rightarrow> scanStatements bs ss (i + 1) (if isEmptyResult s then lp else i))"

definition blockAt :: "block list \<Rightarrow> nat \<Rightarrow> block" where
  "blockAt bs depth = bs ! (length bs - 1 - depth)"

section \<open>Statements\<close>

definition is_branch :: "stmt \<Rightarrow> bool" where
  "is_branch s = (case s of BranchS _ _ \<Rightarrow> True | _ \<Rightarrow> False)"

definition is_loop :: "stmt \<Rightarrow> bool" where
  "is_loop s = (case s of WhileS _ _ \<Rightarrow> True | DoWhileS _ _ \<Rightarrow> True | ForS _ _ _ _ \<Rightarrow> True | _ \<Rightarrow> False)"

definition emitted :: "code option \<Rightarrow> cstate \<Rightarrow> cstate option" where
  "emitted is cs = map_option (\<lambda>is. emit is cs) is"

definition emitExpression :: "'k compiler \<Rightarrow> expr \<Rightarrow> bool \<Rightarrow> cstate \<Rightarrow> cstate option" where
  "emitExpression c e putOnStack cs = do { a \<leftarrow> compileExpression c e; emitted (emitExpr c a putOnStack) cs }"

definition getterOf :: "'k compiler \<Rightarrow> expr \<Rightarrow> bool \<Rightarrow> cstate \<Rightarrow> cstate option" where
  "getterOf c e putOnStack cs = do { a \<leftarrow> compileExpression c e; emitted (ce_emitGetter a putOnStack) cs }"

definition clearIf :: "bool \<Rightarrow> cstate \<Rightarrow> cstate" where
  "clearIf needResult cs = (if needResult then emit [ClearResult] cs else cs)"

text \<open>The test of a statement: its value when it is constant.\<close>

definition constTest :: "'k compiler \<Rightarrow> compiledExpr \<Rightarrow> (jserr + val) option option" where
  "constTest c t = do { k \<leftarrow> ce_constant t; if k then map_option Some (evalConst c t) else Some None }"

definition patchAt :: "nat \<Rightarrow> instr \<Rightarrow> cstate \<Rightarrow> cstate option" where
  "patchAt item i cs = do { is \<leftarrow> patch item i (code cs); Some (cs\<lparr>code := is\<rparr>) }"

definition here :: "cstate \<Rightarrow> nat" where
  "here cs = length (code cs)"

definition dist :: "nat \<Rightarrow> cstate \<Rightarrow> int" where
  "dist item cs = int (here cs) - int item"

subsection \<open>One function per kind of statement\<close>

text \<open>
  The functions take what compiles a sub-statement, given whether its completion value is needed, as an argument;
  \<open>compileStatement\<close> below ties the knot.
\<close>

type_synonym stmtCompiler = "bool \<Rightarrow> cstate \<Rightarrow> cstate option"

definition compileEmptyStatement :: "bool \<Rightarrow> cstate \<Rightarrow> cstate option" where
  "compileEmptyStatement needResult cs = Some (clearIf needResult cs)"

definition compileExpressionStatement :: "'k compiler \<Rightarrow> expr \<Rightarrow> bool \<Rightarrow> cstate \<Rightarrow> cstate option" where
  "compileExpressionStatement c e needResult cs =
     do { cs \<leftarrow> emitExpression c e needResult cs; Some (if needResult then emit [SaveResult] cs else cs) }"

definition compileThrowStatement :: "'k compiler \<Rightarrow> expr \<Rightarrow> cstate \<Rightarrow> cstate option" where
  "compileThrowStatement c e cs = do { cs \<leftarrow> getterOf c e True cs; Some (emit [Throw] cs) }"

definition returnCode :: "block list \<Rightarrow> code" where
  "returnCode bs = concat (map (\<lambda>b. case b_typ b of BlockTry \<Rightarrow> [SaveResult, LeaveTry, LoadResult] | _ \<Rightarrow> []) bs)"

definition compileReturnStatement :: "'k compiler \<Rightarrow> expr option \<Rightarrow> cstate \<Rightarrow> cstate option" where
  "compileReturnStatement c arg cs =
     do { cs \<leftarrow> (case arg of Some e \<Rightarrow> emitExpression c e True cs | None \<Rightarrow> Some (emit [LoadUndef] cs));
          Some (emit (returnCode (blocks cs) @ [Ret]) cs) }"

definition compileIfStatement ::
    "'k compiler \<Rightarrow> expr \<Rightarrow> stmtCompiler \<Rightarrow> stmtCompiler option \<Rightarrow> bool \<Rightarrow> cstate \<Rightarrow> cstate option" where
  "compileIfStatement c t consequent alternate needResult cs =
     do { test \<leftarrow> compileExpression c t;
          let cs = clearIf needResult cs in
          do { k \<leftarrow> constTest c test;
               case k of
                 Some (Inl ex) \<Rightarrow> emitted (emitThrow c ex) cs
               | Some (Inr v) \<Rightarrow>
                   if ToBoolean v then
                     do { cs \<leftarrow> consequent needResult cs;
                          case alternate of Some b \<Rightarrow> inDummyMode (b False) cs | None \<Rightarrow> Some cs }
                   else
                     do { cs \<leftarrow> inDummyMode (consequent False) cs;
                          case alternate of Some b \<Rightarrow> b needResult cs | None \<Rightarrow> Some (clearIf needResult cs) }
               | None \<Rightarrow>
                   do { cs \<leftarrow> emitted (ce_emitGetter test True) cs;
                        let jmp = here cs in
                        do { cs \<leftarrow> consequent needResult (emit [Hole] cs);
                             case alternate of
                               Some b \<Rightarrow>
                                 let jmp1 = here cs; cs = emit [Hole] cs in
                                 do { cs \<leftarrow> patchAt jmp (JneP (dist jmp cs)) cs;
                                      cs \<leftarrow> b needResult cs;
                                      patchAt jmp1 (Jump (dist jmp1 cs)) cs }
                             | None \<Rightarrow>
                                 if needResult then
                                   let cs = emit [Jump 2] cs in
                                   do { cs \<leftarrow> patchAt jmp (JneP (dist jmp cs)) cs; Some (emit [ClearResult] cs) }
                                 else patchAt jmp (JneP (dist jmp cs)) cs } } } }"

definition compileLabeledWhileStatement ::
    "'k compiler \<Rightarrow> expr \<Rightarrow> stmtCompiler \<Rightarrow> vname option \<Rightarrow> bool \<Rightarrow> cstate \<Rightarrow> cstate option" where
  "compileLabeledWhileStatement c t body label needResult cs =
     do { test \<leftarrow> compileExpression c t;
          let cs = clearIf needResult (openBlock (newBlock BlockLoop label needResult) cs);
              start = here cs;
              cs = setInner (\<lambda>b. b\<lparr>b_cont := start\<rparr>) cs
          in
          do { k \<leftarrow> constTest c test;
               case k of
                 Some (Inl ex) \<Rightarrow> do { cs \<leftarrow> emitted (emitThrow c ex) cs; leaveBlock cs }
               | Some (Inr v) \<Rightarrow>
                   if ToBoolean v then
                     do { cs \<leftarrow> body needResult (clearIf needResult cs);
                          leaveBlock (emit [Jump (- dist start cs)] cs) }
                   else do { cs \<leftarrow> inDummyMode (body False) cs; leaveBlock cs }
               | None \<Rightarrow>
                   do { cs \<leftarrow> emitted (ce_emitGetter test True) cs;
                        let j = here cs in
                        do { cs \<leftarrow> body needResult (clearIf needResult (emit [Hole] cs));
                             let cs = emit [Jump (- dist start cs)] cs in
                             do { cs \<leftarrow> patchAt j (JneP (dist j cs)) cs; leaveBlock cs } } } } }"

definition compileLabeledDoWhileStatement ::
    "'k compiler \<Rightarrow> stmtCompiler \<Rightarrow> expr \<Rightarrow> vname option \<Rightarrow> bool \<Rightarrow> cstate \<Rightarrow> cstate option" where
  "compileLabeledDoWhileStatement c body t label needResult cs =
     (let cs = openBlock (newBlock BlockLoop label needResult) cs; start = here cs in
      do { cs \<leftarrow> body needResult cs;
           let cs = setInner (\<lambda>b. b\<lparr>b_cont := here cs\<rparr>) cs in
           do { cs \<leftarrow> emitExpression c t True cs;
                leaveBlock (emit [JeqP (- dist start cs)] cs) } })"

definition updateCode :: "'k compiler \<Rightarrow> expr option \<Rightarrow> cstate \<Rightarrow> cstate option" where
  "updateCode c update cs = (case update of Some e \<Rightarrow> getterOf c e False cs | None \<Rightarrow> Some cs)"

definition compileLabeledForStatement ::
    "'k compiler \<Rightarrow> expr option \<Rightarrow> expr option \<Rightarrow> expr option \<Rightarrow> stmtCompiler \<Rightarrow> vname option \<Rightarrow> bool \<Rightarrow> cstate \<Rightarrow> cstate option" where
  "compileLabeledForStatement c init test update body label needResult cs =
     do { cs \<leftarrow> updateCode c init (openBlock (newBlock BlockLoop label needResult) cs);
          let cs = clearIf needResult cs; start = here cs in
          do { t \<leftarrow> (case test of None \<Rightarrow> Some None | Some e \<Rightarrow> map_option Some (compileExpression c e));
               k \<leftarrow> (case t of None \<Rightarrow> Some (Some (Inr (VBool True))) | Some e \<Rightarrow> constTest c e);
               case k of
                 Some (Inl ex) \<Rightarrow> do { cs \<leftarrow> emitted (emitThrow c ex) cs; leaveBlock cs }
               | Some (Inr v) \<Rightarrow>
                   if ToBoolean v then
                     do { cs \<leftarrow> body needResult (clearIf needResult cs);
                          cs \<leftarrow> updateCode c update (setInner (\<lambda>b. b\<lparr>b_cont := here cs\<rparr>) cs);
                          leaveBlock (emit [Jump (- dist start cs)] cs) }
                   else
                     do { cs \<leftarrow> inDummyMode (\<lambda>cs. do { cs \<leftarrow> body False cs; updateCode c update cs }) cs;
                          leaveBlock cs }
               | None \<Rightarrow>
                   do { cs \<leftarrow> (case t of Some e \<Rightarrow> emitted (ce_emitGetter e True) cs | None \<Rightarrow> Some cs);
                        let j = here cs in
                        do { cs \<leftarrow> body needResult (clearIf needResult (emit [Hole] cs));
                             cs \<leftarrow> updateCode c update (setInner (\<lambda>b. b\<lparr>b_cont := here cs\<rparr>) cs);
                             let cs = emit [Jump (- dist start cs)] cs in
                             do { cs \<leftarrow> patchAt j (JneP (dist j cs)) cs; leaveBlock cs } } } } }"

text \<open>The statements of the \<^verbatim>\<open>finally\<close> block are scanned before they are compiled.\<close>

definition compileTryStatement ::
    "stmtCompiler \<Rightarrow> stmtCompiler option \<Rightarrow> (stmt list \<times> stmtCompiler) option \<Rightarrow> bool \<Rightarrow> cstate \<Rightarrow> cstate option" where
  "compileTryStatement body catch finally needResult cs =
     (let cs = openBlock (newBlock BlockTry None False) cs in
      do { (lp, finallyBreaking) \<leftarrow>
             (case finally of None \<Rightarrow> Some (0, None) | Some (ss, _) \<Rightarrow> scanStatements (blocks cs) ss 0 (-1));
           let bodyNeedResult =
                 (case finallyBreaking of None \<Rightarrow> needResult | Some d \<Rightarrow> lp = -1 \<and> b_needResult (blockAt (blocks cs) d));
               cs = setInner (\<lambda>b. b\<lparr>b_breaking := finallyBreaking\<rparr>) cs;
               lbl = here cs
           in do { cs \<leftarrow> body bodyNeedResult (clearIf needResult (emit [Hole] cs));
                   (catchOffset, cs) \<leftarrow>
                     (case catch of
                        None \<Rightarrow> Some (0, cs)
                      | Some h \<Rightarrow>
                          let lbl2 = here cs; cs = emit [Hole] cs; catchOffset = dist lbl cs in
                          do { cs \<leftarrow> h bodyNeedResult (emit [Pop] cs);
                               cs \<leftarrow> patchAt lbl2 (Jump (dist lbl2 cs)) cs;
                               Some (catchOffset, cs) });
                   (finallyOffset, cs) \<leftarrow>
                     (case finally of
                        None \<Rightarrow> Some (0, emit [LeaveTry] cs)
                      | Some (_, f) \<Rightarrow>
                          let cs = emit [EnterFinally] cs; finallyOffset = dist lbl cs;
                              cs = clearIf (bodyNeedResult \<and> finallyBreaking \<noteq> None \<and> lp = -1) cs in
                          do { cs \<leftarrow> f False cs; Some (finallyOffset, emit [LeaveFinally] cs) });
                   cs \<leftarrow> patchAt lbl (Try catchOffset finallyOffset) cs;
                   leaveBlock cs } })"

definition compileGenericLabeledStatement :: "stmtCompiler \<Rightarrow> vname \<Rightarrow> bool \<Rightarrow> cstate \<Rightarrow> cstate option" where
  "compileGenericLabeledStatement body label needResult cs =
     do { cs \<leftarrow> body needResult (openBlock (newBlock BlockLabel (Some label) needResult) cs); leaveBlock cs }"

text \<open>\<^verbatim>\<open>compileLabeledStatement\<close>; the first function compiles a loop with the label.\<close>

definition compileLabeledStatement ::
    "'k compiler \<Rightarrow> vname \<Rightarrow> bool \<Rightarrow> stmtCompiler \<Rightarrow> stmtCompiler \<Rightarrow> bool \<Rightarrow> cstate \<Rightarrow> cstate option" where
  "compileLabeledStatement c label isLoop loop body needResult cs =
     (if c_strict c \<and> \<not> checkIdentifierName label then None
      else if \<exists>b \<in> set (blocks cs). b_label b = Some label then None
      else if isLoop then loop needResult cs
      else compileGenericLabeledStatement body label needResult cs)"

text \<open>
  \<open>compileStatement c s label\<close> is \<^verbatim>\<open>compileStatement\<close>, with the label that a loop is given by the labelled statement around it.
  \<open>compileList c need i\<close> compiles a list; with \<open>need\<close> it is the loop of \<^verbatim>\<open>compileStatementsNeedResult\<close>, in which the statement
  number \<open>i\<close> is the last that produces a value and code after a branch is dropped.
\<close>

function (sequential) compileStatement :: "'k compiler \<Rightarrow> stmt \<Rightarrow> vname option \<Rightarrow> bool \<Rightarrow> cstate \<Rightarrow> cstate option"
  and compileList :: "'k compiler \<Rightarrow> bool \<Rightarrow> int \<Rightarrow> stmt list \<Rightarrow> cstate \<Rightarrow> cstate option"
  and compileStatements :: "'k compiler \<Rightarrow> stmt list \<Rightarrow> bool \<Rightarrow> cstate \<Rightarrow> cstate option" where
  "compileStatement c (BlockS ss) label needResult cs = compileStatements c ss needResult cs"
| "compileStatement c (ExprS e) label needResult cs = compileExpressionStatement c e needResult cs"
| "compileStatement c EmptyS label needResult cs = compileEmptyStatement needResult cs"
| "compileStatement c (IfS t a b) label needResult cs =
     compileIfStatement c t (compileStatement c a None) (map_option (\<lambda>s. compileStatement c s None) b) needResult cs"
| "compileStatement c (WhileS t body) label needResult cs =
     compileLabeledWhileStatement c t (compileStatement c body None) label needResult cs"
| "compileStatement c (DoWhileS body t) label needResult cs =
     compileLabeledDoWhileStatement c (compileStatement c body None) t label needResult cs"
| "compileStatement c (ForS init test update body) label needResult cs =
     compileLabeledForStatement c init test update (compileStatement c body None) label needResult cs"
| "compileStatement c (BranchS isBreak l) label needResult cs = compileBranch isBreak l cs"
| "compileStatement c (ReturnS arg) label needResult cs = compileReturnStatement c arg cs"
| "compileStatement c (ThrowS e) label needResult cs = compileThrowStatement c e cs"
| "compileStatement c (TryS body catch finally) label needResult cs =
     compileTryStatement (compileStatements c body) (map_option (\<lambda>ss. compileStatements c ss) catch)
       (map_option (\<lambda>ss. (ss, compileStatements c ss)) finally) needResult cs"
| "compileStatement c (LabelledS l s) label needResult cs =
     compileLabeledStatement c l (is_loop s) (compileStatement c s (Some l)) (compileStatement c s None) needResult cs"
| "compileList c need i [] cs = Some cs"
| "compileList c need i (s # ss) cs =
     do { cs \<leftarrow> compileStatement c s None (need \<and> i = 0) cs;
          if need \<and> i < 0 \<and> is_branch s then inDummyMode (compileList c False (-1) ss) cs
          else compileList c need (if i < 0 then i else i - 1) ss cs }"
| "compileStatements c ss needResult cs =
     do { (lp, blk) \<leftarrow> scanStatements (blocks cs) ss 0 (-1);
          let need = (case blk of Some d \<Rightarrow> b_needResult (blockAt (blocks cs) d) | None \<Rightarrow> needResult) in
          compileList c need lp ss cs }"
  by pat_completeness auto
termination
  by (relation "measure (\<lambda>x. case x of Inl (c, s, l, n, cs) \<Rightarrow> 3 * size s | Inr (Inl (c, n, i, ss, cs)) \<Rightarrow> 3 * size_list size ss + 1
       | Inr (Inr (c, ss, n, cs)) \<Rightarrow> 3 * size_list size ss + 2)") auto

text \<open>The end of the body of a function: it returns \<^verbatim>\<open>undefined\<close> unless its last statement is a \<^verbatim>\<open>return\<close>.\<close>

definition is_return :: "stmt \<Rightarrow> bool" where
  "is_return s = (case s of ReturnS _ \<Rightarrow> True | _ \<Rightarrow> False)"

definition compileBody :: "'k compiler \<Rightarrow> stmt list \<Rightarrow> code option" where
  "compileBody c ss =
     do { cs \<leftarrow> compileStatements c ss False \<lparr>code = [], blocks = []\<rparr>;
          Some (code cs @ (if ss \<noteq> [] \<and> is_return (last ss) then [] else [LoadUndef, Ret])) }"

end
