(* ===== verification/Semantics.thy ===== *)
theory Semantics
  imports Compiler
begin

text \<open>
  The meaning of the compiled language, independent of the machine: expressions are computations over the world of the
  environment, statements are related to their completions by a big-step relation. The theories that follow show that
  the code the compiler emits, run by the machine, has this meaning.
\<close>

section \<open>Expressions\<close>

fun unaryOp_value :: "'w env \<Rightarrow> unaryOp \<Rightarrow> val \<Rightarrow> ('w, val) jsm" where
  "unaryOp_value E UNot v = apply_unop E OpNot v"
| "unaryOp_value E UBitwiseNot v = apply_unop E OpBnot v"
| "unaryOp_value E UMinus v = apply_unop E OpNeg v"
| "unaryOp_value E UPlus v = apply_unop E OpPlus v"
| "unaryOp_value E UVoid v = ret VUndef"

definition step_value :: "'w env \<Rightarrow> bool \<Rightarrow> val \<Rightarrow> ('w, val) jsm" where
  "step_value E inc = apply_unop E (if inc then OpInc else OpDec)"

text \<open>The language's \<^verbatim>\<open>++\<close> and \<^verbatim>\<open>--\<close>: the old value is converted to a numeric value, stepped and stored.\<close>

definition update_value :: "'w venv \<Rightarrow> bool \<Rightarrow> bool \<Rightarrow> reference \<Rightarrow> ('w, val) jsm" where
  "update_value E inc postfix r =
     bindM (v_get E r) (\<lambda>v.
     bindM (toNumeric (v_env E) v) (\<lambda>old.
     bindM (step_value (v_env E) inc old) (\<lambda>new.
     bindM (v_put E r new) (\<lambda>_. ret (if postfix then old else new)))))"

fun eval :: "'w venv \<Rightarrow> bool \<Rightarrow> expr \<Rightarrow> ('w, val) jsm"
  and evals :: "'w venv \<Rightarrow> bool \<Rightarrow> expr list \<Rightarrow> ('w, val) jsm" where
  "eval E strict (Lit v) = ret v"
| "eval E strict (Ident x) =
     bindM (v_load E x strict) (\<lambda>r. case r of None \<Rightarrow> throwM ReferenceErr | Some v \<Rightarrow> ret v)"
| "eval E strict (Assign x e) =
     bindM (v_resolve E x strict) (\<lambda>r.
     bindM (eval E strict e) (\<lambda>v.
     bindM (v_put E r v) (\<lambda>_. ret v)))"
| "eval E strict (AssignOp op x e) =
     bindM (v_resolve E x strict) (\<lambda>r.
     bindM (v_get E r) (\<lambda>old.
     bindM (eval E strict e) (\<lambda>v.
     bindM (apply_binop (v_env E) op old v) (\<lambda>new.
     bindM (v_put E r new) (\<lambda>_. ret new)))))"
| "eval E strict (AssignLogical op x e) =
     bindM (v_resolve E x strict) (\<lambda>r.
     bindM (v_get E r) (\<lambda>old.
       if decides op old then ret old
       else bindM (eval E strict e) (\<lambda>v. bindM (v_put E r v) (\<lambda>_. ret v))))"
| "eval E strict (Update inc postfix x) =
     bindM (v_resolve E x strict) (update_value E inc postfix)"
| "eval E strict (UnaryE op e) = bindM (eval E strict e) (unaryOp_value (v_env E) op)"
| "eval E strict (BinaryE op e f) =
     bindM (eval E strict e) (\<lambda>l. bindM (eval E strict f) (\<lambda>r. apply_binop (v_env E) op l r))"
| "eval E strict (Logical op e f) =
     bindM (eval E strict e) (\<lambda>v. if decides op v then ret v else eval E strict f)"
| "eval E strict (Conditional e f g) =
     bindM (eval E strict e) (\<lambda>v. if ToBoolean v then eval E strict f else eval E strict g)"
| "eval E strict (Sequence es) = evals E strict es"
| "evals E strict [] = ret VUndef"
| "evals E strict (e # es) =
     (if es = [] then eval E strict e else bindM (eval E strict e) (\<lambda>_. evals E strict es))"

text \<open>
  What the parser guarantees: a sequence is not empty and a literal is primitive. The last two conditions keep
  \<^verbatim>\<open>++\<close> and \<^verbatim>\<open>--\<close> out of the right operand of a logical operator whose left side is closed: the compiler then emits the
  right operand in the place of the whole, and whether it converts the operand depends on the value being used.
\<close>

fun is_prim :: "val \<Rightarrow> bool" where
  "is_prim (VObj _) = False"
| "is_prim _ = True"

fun has_update :: "expr \<Rightarrow> bool" where
  "has_update (Lit _) = False"
| "has_update (Ident _) = False"
| "has_update (Assign _ e) = has_update e"
| "has_update (AssignOp _ _ e) = has_update e"
| "has_update (AssignLogical _ _ e) = has_update e"
| "has_update (Update _ _ _) = True"
| "has_update (UnaryE _ e) = has_update e"
| "has_update (BinaryE _ e f) = (has_update e \<or> has_update f)"
| "has_update (Logical _ e f) = (has_update e \<or> has_update f)"
| "has_update (Conditional e f g) = (has_update e \<or> has_update f \<or> has_update g)"
| "has_update (Sequence es) = list_ex has_update es"

fun closed_head :: "expr \<Rightarrow> bool" where
  "closed_head (Lit _) = True"
| "closed_head (UnaryE _ e) = closed_head e"
| "closed_head (BinaryE _ e f) = (closed_head e \<and> closed_head f)"
| "closed_head (Logical _ e f) = closed_head e"
| "closed_head _ = False"

fun wf_expr :: "expr \<Rightarrow> bool" where
  "wf_expr (Lit v) = is_prim v"
| "wf_expr (Ident _) = True"
| "wf_expr (Assign _ e) = wf_expr e"
| "wf_expr (AssignOp _ _ e) = wf_expr e"
| "wf_expr (AssignLogical _ _ e) = wf_expr e"
| "wf_expr (Update _ _ _) = True"
| "wf_expr (UnaryE _ e) = wf_expr e"
| "wf_expr (BinaryE _ e f) = (wf_expr e \<and> wf_expr f)"
| "wf_expr (Logical _ e f) = (wf_expr e \<and> wf_expr f \<and> (closed_head e \<longrightarrow> \<not> has_update f))"
| "wf_expr (Conditional e f g) = (wf_expr e \<and> wf_expr f \<and> wf_expr g)"
| "wf_expr (Sequence es) = (es \<noteq> [] \<and> list_all wf_expr es)"

text \<open>On canonical numbers the conversion before a step changes nothing.\<close>

definition numeric :: "val \<Rightarrow> bool" where
  "numeric v = (case v of VInt _ \<Rightarrow> True | VFloat _ \<Rightarrow> True | VBigInt _ \<Rightarrow> True | _ \<Rightarrow> False)"

lemma update_numeric: "canonical v \<Longrightarrow> numeric v \<Longrightarrow> toNumeric E v = ret v"
  by (cases v) (auto simp: toNumeric_def numeric_def)

text \<open>
  \<open>numbers E strict used e w\<close>: evaluated in the world \<open>w\<close>, the expression applies a \<^verbatim>\<open>++\<close> or \<^verbatim>\<open>--\<close> whose value is dropped to canonical numbers only. Whether
  a value is dropped is read off the place in the expression: \<open>used\<close> says it for the whole, \<^verbatim>\<open>void\<close> and all but the last part
  of a sequence drop it.
\<close>

definition afterM :: "('w, 'a) jsm \<Rightarrow> ('a \<Rightarrow> 'w \<Rightarrow> bool) \<Rightarrow> 'w \<Rightarrow> bool" where
  "afterM m P w = (case m w of (Inl _, _) \<Rightarrow> True | (Inr a, w') \<Rightarrow> P a w')"

fun numbers :: "'w venv \<Rightarrow> bool \<Rightarrow> bool \<Rightarrow> expr \<Rightarrow> 'w \<Rightarrow> bool"
  and numberss :: "'w venv \<Rightarrow> bool \<Rightarrow> bool \<Rightarrow> expr list \<Rightarrow> 'w \<Rightarrow> bool" where
  "numbers E strict used (Lit v) w = True"
| "numbers E strict used (Ident x) w = True"
| "numbers E strict used (Assign x e) w = afterM (v_resolve E x strict) (\<lambda>_. numbers E strict True e) w"
| "numbers E strict used (AssignOp op x e) w =
     afterM (v_resolve E x strict) (\<lambda>r. afterM (v_get E r) (\<lambda>_. numbers E strict True e)) w"
| "numbers E strict used (AssignLogical op x e) w =
     afterM (v_resolve E x strict) (\<lambda>r. afterM (v_get E r) (\<lambda>old w. decides op old \<or> numbers E strict True e w)) w"
| "numbers E strict used (Update inc postfix x) w =
     (used \<or> afterM (v_resolve E x strict) (\<lambda>r. afterM (v_get E r) (\<lambda>old _. canonical old \<and> numeric old)) w)"
| "numbers E strict used (UnaryE op e) w = numbers E strict (op \<noteq> UVoid) e w"
| "numbers E strict used (BinaryE op e f) w =
     (numbers E strict True e w \<and> afterM (eval E strict e) (\<lambda>_. numbers E strict True f) w)"
| "numbers E strict used (Logical op e f) w =
     (numbers E strict True e w \<and> afterM (eval E strict e) (\<lambda>v w. decides op v \<or> numbers E strict True f w) w)"
| "numbers E strict used (Conditional e f g) w =
     (numbers E strict True e w \<and>
      afterM (eval E strict e) (\<lambda>v w. if ToBoolean v then numbers E strict used f w else numbers E strict used g w) w)"
| "numbers E strict used (Sequence es) w = numberss E strict used es w"
| "numberss E strict used [] w = True"
| "numberss E strict used (e # es) w =
     (if es = [] then numbers E strict used e w
      else numbers E strict False e w \<and> afterM (eval E strict e) (\<lambda>_. numberss E strict used es) w)"

text \<open>An expression without \<^verbatim>\<open>++\<close> and \<^verbatim>\<open>--\<close> meets the condition.\<close>

lemma afterM_True: "(\<And>a w. P a w) \<Longrightarrow> afterM m P w"
  by (auto simp: afterM_def split: prod.splits sum.splits)

lemma no_update_numbers:
  "\<not> has_update e \<Longrightarrow> numbers E strict used e w"
  "\<not> list_ex has_update es \<Longrightarrow> numberss E strict used es w"
  by (induction E strict used e w and E strict used es w rule: numbers_numberss.induct) (auto intro!: afterM_True)

section \<open>What the code computes\<close>

text \<open>
  \<open>evalc E strict used e\<close> is what the code of the expression computes. It differs from \<open>eval\<close> in one point: when the value of a \<^verbatim>\<open>++\<close> or \<^verbatim>\<open>--\<close>
  is dropped, the code does not convert the operand first. On canonical numbers this makes no difference (\<open>evalc_eval\<close>); on other
  operands it is a finding.
\<close>

definition update_code :: "'w venv \<Rightarrow> bool \<Rightarrow> bool \<Rightarrow> bool \<Rightarrow> reference \<Rightarrow> ('w, val) jsm" where
  "update_code E used inc postfix r =
     bindM (v_get E r) (\<lambda>v.
     bindM (if used then toNumeric (v_env E) v else ret v) (\<lambda>old.
     bindM (step_value (v_env E) inc old) (\<lambda>new.
     bindM (v_put E r new) (\<lambda>_. ret (if postfix then old else new)))))"

fun evalc :: "'w venv \<Rightarrow> bool \<Rightarrow> bool \<Rightarrow> expr \<Rightarrow> ('w, val) jsm"
  and evalcs :: "'w venv \<Rightarrow> bool \<Rightarrow> bool \<Rightarrow> expr list \<Rightarrow> ('w, val) jsm" where
  "evalc E strict used (Lit v) = ret v"
| "evalc E strict used (Ident x) =
     bindM (v_load E x strict) (\<lambda>r. case r of None \<Rightarrow> throwM ReferenceErr | Some v \<Rightarrow> ret v)"
| "evalc E strict used (Assign x e) =
     bindM (v_resolve E x strict) (\<lambda>r.
     bindM (evalc E strict True e) (\<lambda>v.
     bindM (v_put E r v) (\<lambda>_. ret v)))"
| "evalc E strict used (AssignOp op x e) =
     bindM (v_resolve E x strict) (\<lambda>r.
     bindM (v_get E r) (\<lambda>old.
     bindM (evalc E strict True e) (\<lambda>v.
     bindM (apply_binop (v_env E) op old v) (\<lambda>new.
     bindM (v_put E r new) (\<lambda>_. ret new)))))"
| "evalc E strict used (AssignLogical op x e) =
     bindM (v_resolve E x strict) (\<lambda>r.
     bindM (v_get E r) (\<lambda>old.
       if decides op old then ret old
       else bindM (evalc E strict True e) (\<lambda>v. bindM (v_put E r v) (\<lambda>_. ret v))))"
| "evalc E strict used (Update inc postfix x) =
     bindM (v_resolve E x strict) (update_code E used inc postfix)"
| "evalc E strict used (UnaryE op e) = bindM (evalc E strict (op \<noteq> UVoid) e) (unaryOp_value (v_env E) op)"
| "evalc E strict used (BinaryE op e f) =
     bindM (evalc E strict True e) (\<lambda>l. bindM (evalc E strict True f) (\<lambda>r. apply_binop (v_env E) op l r))"
| "evalc E strict used (Logical op e f) =
     bindM (evalc E strict True e) (\<lambda>v. if decides op v then ret v else evalc E strict True f)"
| "evalc E strict used (Conditional e f g) =
     bindM (evalc E strict True e) (\<lambda>v. if ToBoolean v then evalc E strict used f else evalc E strict used g)"
| "evalc E strict used (Sequence es) = evalcs E strict used es"
| "evalcs E strict used [] = ret VUndef"
| "evalcs E strict used (e # es) =
     (if es = [] then evalc E strict used e else bindM (evalc E strict False e) (\<lambda>_. evalcs E strict used es))"

text \<open>Without \<^verbatim>\<open>++\<close> and \<^verbatim>\<open>--\<close> the flag has no effect.\<close>

lemma evalc_used:
  "\<not> has_update e \<Longrightarrow> evalc E strict used e = evalc E strict True e"
  "\<not> list_ex has_update es \<Longrightarrow> evalcs E strict used es = evalcs E strict True es"
  by (induction E strict used e and E strict used es rule: evalc_evalcs.induct) (auto cong: if_cong)

text \<open>The code computes what the expression means.\<close>

lemma bindM_after:
  assumes "m w = m' w" "afterM m' P w" "\<And>a w. P a w \<Longrightarrow> f a w = g a w"
  shows "bindM m f w = bindM m' g w"
  using assms by (auto simp: bindM_def afterM_def split: prod.splits sum.splits)

lemma update_code_eval:
  "used \<or> afterM (v_get E r) (\<lambda>old _. canonical old \<and> numeric old) w \<Longrightarrow>
   update_code E used inc postfix r w = update_value E inc postfix r w"
  unfolding update_code_def update_value_def
  by (auto simp: bindM_def afterM_def update_numeric ret_def split: prod.splits sum.splits)

lemma bindM_same: "m w = m' w \<Longrightarrow> bindM m f w = bindM m' f w"
  by (simp add: bindM_def)

lemma evalc_eval:
  "numbers E strict used e w \<Longrightarrow> evalc E strict used e w = eval E strict e w"
  "numberss E strict used es w \<Longrightarrow> evalcs E strict used es w = evals E strict es w"
proof (induction E strict used e w and E strict used es w rule: numbers_numberss.induct)
  case (3 E strict used x e w)
  then show ?case by (simp only: evalc.simps eval.simps numbers.simps) (erule bindM_after [OF refl], rule bindM_same, simp)
next
  case (4 E strict used op x e w)
  then show ?case
    by (simp only: evalc.simps eval.simps numbers.simps) (erule bindM_after [OF refl], erule bindM_after [OF refl], rule bindM_same, simp)
next
  case (5 E strict used op x e w)
  then show ?case
    by (simp only: evalc.simps eval.simps numbers.simps)
      (erule bindM_after [OF refl], erule bindM_after [OF refl], auto intro!: bindM_same)
next
  case (6 E strict used inc postfix x w)
  then have "afterM (v_resolve E x strict) (\<lambda>r. \<lambda>w. used \<or> afterM (v_get E r) (\<lambda>old _. canonical old \<and> numeric old) w) w"
    by (auto simp: afterM_def split: prod.splits sum.splits)
  then show ?case by (simp only: evalc.simps eval.simps) (erule bindM_after [OF refl], rule update_code_eval)
next
  case (7 E strict used op e w)
  then show ?case by (simp only: evalc.simps eval.simps numbers.simps) (rule bindM_same, simp)
next
  case (8 E strict used op e f w)
  then show ?case
    by (simp only: evalc.simps eval.simps numbers.simps) (erule conjE, rule bindM_after, simp, assumption, rule bindM_same, simp)
next
  case (9 E strict used op e f w)
  then show ?case
    by (simp only: evalc.simps eval.simps numbers.simps) (erule conjE, rule bindM_after, simp, assumption, auto)
next
  case (10 E strict used e f g w)
  then show ?case
    by (simp only: evalc.simps eval.simps numbers.simps) (erule conjE, rule bindM_after, simp, assumption, auto split: if_splits)
next
  case (13 E strict used e es w)
  show ?case
  proof (cases "es = []")
    case False
    then have "numbers E strict False e w" "afterM (eval E strict e) (\<lambda>_. numberss E strict used es) w" using 13 by simp_all
    then have "bindM (evalc E strict False e) (\<lambda>_. evalcs E strict used es) w = bindM (eval E strict e) (\<lambda>_. evals E strict es) w"
      using 13(2) [OF False] 13(3) [OF False] by (intro bindM_after [where P = "\<lambda>_. numberss E strict used es"]) auto
    then show ?thesis using False by simp
  qed (use 13 in simp)
qed simp_all

section \<open>Statements\<close>

text \<open>How a statement ends: normally, by a branch to a label or to the innermost loop, by returning or by throwing.\<close>

datatype completion = Normal | Brk "vname option" | Cont "vname option" | RetC val | Thr jserr

definition branch :: "bool \<Rightarrow> vname option \<Rightarrow> completion" where
  "branch isBreak l = (if isBreak then Brk l else Cont l)"

text \<open>A loop with the given label goes on after its body, and what its completion is when it does not.\<close>

definition goes_on :: "vname option \<Rightarrow> completion \<Rightarrow> bool" where
  "goes_on label k \<longleftrightarrow> k = Normal \<or> k = Cont None \<or> label \<noteq> None \<and> k = Cont label"

definition loop_exit :: "vname option \<Rightarrow> completion \<Rightarrow> completion" where
  "loop_exit label k = (if k = Brk None \<or> label \<noteq> None \<and> k = Brk label then Normal else k)"

definition unlabel :: "vname \<Rightarrow> completion \<Rightarrow> completion" where
  "unlabel l k = (if k = Brk (Some l) then Normal else k)"

text \<open>
  The statements are given over a way \<open>V\<close> to evaluate expressions: \<open>V used e w (r, w')\<close>. A missing initialiser or update does nothing, a
  missing test holds.
\<close>

type_synonym 'w evaluation = "bool \<Rightarrow> expr \<Rightarrow> 'w \<Rightarrow> (jserr + val) \<times> 'w \<Rightarrow> bool"

definition ovalue :: "'w evaluation \<Rightarrow> bool \<Rightarrow> expr option \<Rightarrow> 'w \<Rightarrow> (jserr + val) \<times> 'w \<Rightarrow> bool" where
  "ovalue V used e w r = (case e of None \<Rightarrow> r = ret (VBool True) w | Some e \<Rightarrow> V used e w r)"

text \<open>
  \<open>big E V label s w k w'\<close>: run in the world \<open>w\<close>, the statement \<open>s\<close> ends with the completion \<open>k\<close> in \<open>w'\<close>; \<open>label\<close> is the label of a loop. \<open>iter\<close> is the
  iteration of \<^verbatim>\<open>for\<close> and \<^verbatim>\<open>while\<close>, \<open>handles\<close> a \<^verbatim>\<open>catch\<close> clause and \<open>finishes\<close> a \<^verbatim>\<open>finally\<close> block on a completion.
\<close>

inductive big :: "'w venv \<Rightarrow> 'w evaluation \<Rightarrow> vname option \<Rightarrow> stmt \<Rightarrow> 'w \<Rightarrow> completion \<Rightarrow> 'w \<Rightarrow> bool"
  and bigs :: "'w venv \<Rightarrow> 'w evaluation \<Rightarrow> stmt list \<Rightarrow> 'w \<Rightarrow> completion \<Rightarrow> 'w \<Rightarrow> bool"
  and iter :: "'w venv \<Rightarrow> 'w evaluation \<Rightarrow> vname option \<Rightarrow> expr option \<Rightarrow> expr option \<Rightarrow> stmt \<Rightarrow> 'w \<Rightarrow> completion \<Rightarrow> 'w \<Rightarrow> bool"
  and handles :: "'w venv \<Rightarrow> 'w evaluation \<Rightarrow> stmt list option \<Rightarrow> completion \<Rightarrow> 'w \<Rightarrow> completion \<Rightarrow> 'w \<Rightarrow> bool"
  and finishes :: "'w venv \<Rightarrow> 'w evaluation \<Rightarrow> stmt list option \<Rightarrow> completion \<Rightarrow> 'w \<Rightarrow> completion \<Rightarrow> 'w \<Rightarrow> bool"
  for E :: "'w venv" and V :: "'w evaluation" where
  big_block: "bigs E V ss w k w' \<Longrightarrow> big E V label (BlockS ss) w k w'"
| big_expr: "V False e w (Inr v, w') \<Longrightarrow> big E V label (ExprS e) w Normal w'"
| big_expr_throw: "V False e w (Inl ex, w') \<Longrightarrow> big E V label (ExprS e) w (Thr ex) w'"
| big_empty: "big E V label EmptyS w Normal w"
| big_if_throw: "V True t w (Inl ex, w') \<Longrightarrow> big E V label (IfS t a b) w (Thr ex) w'"
| big_if_true: "V True t w (Inr v, w1) \<Longrightarrow> ToBoolean v \<Longrightarrow> big E V None a w1 k w' \<Longrightarrow>
    big E V label (IfS t a b) w k w'"
| big_if_else: "V True t w (Inr v, w1) \<Longrightarrow> \<not> ToBoolean v \<Longrightarrow> big E V None b w1 k w' \<Longrightarrow>
    big E V label (IfS t a (Some b)) w k w'"
| big_if_none: "V True t w (Inr v, w') \<Longrightarrow> \<not> ToBoolean v \<Longrightarrow> big E V label (IfS t a None) w Normal w'"
| big_while: "iter E V label (Some t) None body w k w' \<Longrightarrow> big E V label (WhileS t body) w k w'"
| big_do_exit: "big E V None body w k w' \<Longrightarrow> \<not> goes_on label k \<Longrightarrow>
    big E V label (DoWhileS body t) w (loop_exit label k) w'"
| big_do_throw: "big E V None body w k w1 \<Longrightarrow> goes_on label k \<Longrightarrow> V True t w1 (Inl ex, w') \<Longrightarrow>
    big E V label (DoWhileS body t) w (Thr ex) w'"
| big_do_end: "big E V None body w k w1 \<Longrightarrow> goes_on label k \<Longrightarrow> V True t w1 (Inr v, w') \<Longrightarrow> \<not> ToBoolean v \<Longrightarrow>
    big E V label (DoWhileS body t) w Normal w'"
| big_do_next: "big E V None body w k w1 \<Longrightarrow> goes_on label k \<Longrightarrow> V True t w1 (Inr v, w2) \<Longrightarrow> ToBoolean v \<Longrightarrow>
    big E V label (DoWhileS body t) w2 k' w' \<Longrightarrow> big E V label (DoWhileS body t) w k' w'"
| big_for_throw: "ovalue V False init w (Inl ex, w') \<Longrightarrow> big E V label (ForS init test update body) w (Thr ex) w'"
| big_for: "ovalue V False init w (Inr v, w1) \<Longrightarrow> iter E V label test update body w1 k w' \<Longrightarrow>
    big E V label (ForS init test update body) w k w'"
| big_branch: "big E V label (BranchS isBreak l) w (branch isBreak l) w"
| big_return_none: "big E V label (ReturnS None) w (RetC VUndef) w"
| big_return: "V True e w (Inr v, w') \<Longrightarrow> big E V label (ReturnS (Some e)) w (RetC v) w'"
| big_return_throw: "V True e w (Inl ex, w') \<Longrightarrow> big E V label (ReturnS (Some e)) w (Thr ex) w'"
| big_throw: "V True e w (Inr v, w') \<Longrightarrow> big E V label (ThrowS e) w (Thr (v_exn E v)) w'"
| big_throw_throw: "V True e w (Inl ex, w') \<Longrightarrow> big E V label (ThrowS e) w (Thr ex) w'"
| big_try: "bigs E V body w k1 w1 \<Longrightarrow> handles E V catch k1 w1 k2 w2 \<Longrightarrow> finishes E V finally k2 w2 k3 w3 \<Longrightarrow>
    big E V label (TryS body catch finally) w k3 w3"
| big_label_loop: "is_loop s \<Longrightarrow> big E V (Some l) s w k w' \<Longrightarrow> big E V label (LabelledS l s) w k w'"
| big_label: "\<not> is_loop s \<Longrightarrow> big E V None s w k w' \<Longrightarrow> big E V label (LabelledS l s) w (unlabel l k) w'"
| bigs_nil: "bigs E V [] w Normal w"
| bigs_cons: "big E V None s w Normal w1 \<Longrightarrow> bigs E V ss w1 k w' \<Longrightarrow> bigs E V (s # ss) w k w'"
| bigs_stop: "big E V None s w k w' \<Longrightarrow> k \<noteq> Normal \<Longrightarrow> bigs E V (s # ss) w k w'"
| iter_throw: "ovalue V True test w (Inl ex, w') \<Longrightarrow> iter E V label test update body w (Thr ex) w'"
| iter_end: "ovalue V True test w (Inr v, w') \<Longrightarrow> \<not> ToBoolean v \<Longrightarrow> iter E V label test update body w Normal w'"
| iter_exit: "ovalue V True test w (Inr v, w1) \<Longrightarrow> ToBoolean v \<Longrightarrow> big E V None body w1 k w' \<Longrightarrow> \<not> goes_on label k \<Longrightarrow>
    iter E V label test update body w (loop_exit label k) w'"
| iter_update_throw: "ovalue V True test w (Inr v, w1) \<Longrightarrow> ToBoolean v \<Longrightarrow> big E V None body w1 k w2 \<Longrightarrow> goes_on label k \<Longrightarrow>
    ovalue V False update w2 (Inl ex, w') \<Longrightarrow> iter E V label test update body w (Thr ex) w'"
| iter_next: "ovalue V True test w (Inr v, w1) \<Longrightarrow> ToBoolean v \<Longrightarrow> big E V None body w1 k w2 \<Longrightarrow> goes_on label k \<Longrightarrow>
    ovalue V False update w2 (Inr u, w3) \<Longrightarrow> iter E V label test update body w3 k' w' \<Longrightarrow>
    iter E V label test update body w k' w'"
| handles_none: "handles E V None k w k w"
| handles_other: "(\<And>ex. k \<noteq> Thr ex) \<Longrightarrow> handles E V (Some ss) k w k w"
| handles_catch: "bigs E V ss w k w' \<Longrightarrow> handles E V (Some ss) (Thr ex) w k w'"
| finishes_none: "finishes E V None k w k w"
| finishes_some: "bigs E V ss w k' w' \<Longrightarrow> finishes E V (Some ss) k w (if k' = Normal then k else k') w'"

lemma ovalue_mono: "(\<And>u e w r. V u e w r \<Longrightarrow> V' u e w r) \<Longrightarrow> ovalue V u e w r \<Longrightarrow> ovalue V' u e w r"
  by (auto simp: ovalue_def split: option.splits)

lemma big_mono:
  assumes V: "\<And>u e w r. V u e w r \<Longrightarrow> V' u e w r" "\<And>u e w r. ovalue V u e w r \<Longrightarrow> ovalue V' u e w r"
  shows "big E V label s w k w' \<Longrightarrow> big E V' label s w k w'"
    "bigs E V ss w k w' \<Longrightarrow> bigs E V' ss w k w'"
    "iter E V label test update body w k w' \<Longrightarrow> iter E V' label test update body w k w'"
    "handles E V catch k1 w k w' \<Longrightarrow> handles E V' catch k1 w k w'"
    "finishes E V fin k1 w k w' \<Longrightarrow> finishes E V' fin k1 w k w'"
  by (induction rule: big_bigs_iter_handles_finishes.inducts)
    (rule big_bigs_iter_handles_finishes.intros; (assumption | rule V, assumption | simp; fail))+

text \<open>
  Three ways to evaluate: what the language says, the same on runs where dropped \<^verbatim>\<open>++\<close> and \<^verbatim>\<open>--\<close> meet numbers only, and what the
  code computes.
\<close>

definition meaning :: "'w venv \<Rightarrow> bool \<Rightarrow> 'w evaluation" where
  "meaning E strict used e w r \<longleftrightarrow> eval E strict e w = r"

definition meaning_on_numbers :: "'w venv \<Rightarrow> bool \<Rightarrow> 'w evaluation" where
  "meaning_on_numbers E strict used e w r \<longleftrightarrow> numbers E strict used e w \<and> eval E strict e w = r"

definition code_value :: "'w venv \<Rightarrow> bool \<Rightarrow> 'w evaluation" where
  "code_value E strict used e w r \<longleftrightarrow> evalc E strict used e w = r"

definition oevalc :: "'w venv \<Rightarrow> bool \<Rightarrow> bool \<Rightarrow> expr option \<Rightarrow> ('w, val) jsm" where
  "oevalc E strict used e = (case e of None \<Rightarrow> ret (VBool True) | Some e \<Rightarrow> evalc E strict used e)"

lemma evaluation_simps [simp]:
  "meaning E strict used e w (r, w') \<longleftrightarrow> eval E strict e w = (r, w')"
  "meaning_on_numbers E strict used e w (r, w') \<longleftrightarrow> numbers E strict used e w \<and> eval E strict e w = (r, w')"
  "code_value E strict used e w (r, w') \<longleftrightarrow> evalc E strict used e w = (r, w')"
  "ovalue (code_value E strict) used o' w (r, w') \<longleftrightarrow> oevalc E strict used o' w = (r, w')"
  by (auto simp: meaning_def meaning_on_numbers_def code_value_def ovalue_def oevalc_def split: option.splits)

lemma on_numbers_code: "bigs E (meaning_on_numbers E strict) ss w k w' \<Longrightarrow> bigs E (code_value E strict) ss w k w'"
  by (erule big_mono(2) [rotated 2]) (auto simp: meaning_on_numbers_def code_value_def evalc_eval ovalue_def split: option.splits)

lemma on_numbers_meaning: "big E (meaning_on_numbers E strict) label s w k w' \<Longrightarrow> big E (meaning E strict) label s w k w'"
  by (erule big_mono(1) [rotated 2]) (auto simp: meaning_on_numbers_def meaning_def ovalue_def split: option.splits)

end
