(* ===== verification/Compiler_Expr.thy ===== *)
theory Compiler_Expr
  imports Semantics
begin

text \<open>
  The code of an expression computes the value of the expression, and folding constants does not change
  it: what the compiler's own machine computes at compile time is what the program would compute at run time.
\<close>

section \<open>Fragments of code\<close>

text \<open>The state \<open>s\<close> moved to another position, with other stacks and in another world.\<close>

definition cfg :: "'w vm \<Rightarrow> int \<Rightarrow> val list \<Rightarrow> reference list \<Rightarrow> 'w \<Rightarrow> 'w vm" where
  "cfg s p st rs w = s\<lparr>pc := p, stack := st, refStack := rs, world := w\<rparr>"

lemma cfg_sel [simp]:
  "prg (cfg s p st rs w) = prg s" "pc (cfg s p st rs w) = p" "stack (cfg s p st rs w) = st"
  "refStack (cfg s p st rs w) = rs" "world (cfg s p st rs w) = w" "tryStack (cfg s p st rs w) = tryStack s"
  "callStack (cfg s p st rs w) = callStack s" "result (cfg s p st rs w) = result s" "stash (cfg s p st rs w) = stash s"
  "sb (cfg s p st rs w) = sb s" "args (cfg s p st rs w) = args s"
  by (simp_all add: cfg_def)

lemma cfg_cfg [simp]: "cfg (cfg s p st rs w) p' st' rs' w' = cfg s p' st' rs' w'"
  by (simp add: cfg_def)

lemma cfg_self: "s = cfg s (pc s) (stack s) (refStack s) (world s)"
  by (simp add: cfg_def)

lemma cfg_update [simp]:
  "(cfg s p st rs w)\<lparr>world := w'\<rparr> = cfg s p st rs w'" "(cfg s p st rs w)\<lparr>refStack := rs'\<rparr> = cfg s p st rs' w"
  "advance (cfg s p st rs w) st' = cfg s (p + 1) st' rs w" "jump_by (cfg s p st rs w) j st' = cfg s (p + j) st' rs w"
  by (simp_all add: cfg_def advance_def jump_by_def)

text \<open>
  \<open>raises E s0 s e w st rs\<close>: execution from \<open>s0\<close> reaches an instruction that throws \<open>e\<close> in the world \<open>w\<close>, with the state of \<open>s\<close> but for
  additions to the stacks \<open>st\<close> and \<open>rs\<close>.
\<close>

definition raises :: "'w venv \<Rightarrow> 'w vm \<Rightarrow> 'w vm \<Rightarrow> jserr \<Rightarrow> 'w \<Rightarrow> val list \<Rightarrow> reference list \<Rightarrow> bool" where
  "raises E s0 s e w st rs \<longleftrightarrow>
     (\<exists>t q xs ys. reach E s0 t \<and> 0 \<le> pc t \<and> pc t < int (length (prg t)) \<and>
        exec E (prg t ! nat (pc t)) t = Raise e (cfg s q (xs @ st) (ys @ rs) w))"

fun ends :: "'w venv \<Rightarrow> 'w vm \<Rightarrow> 'w vm \<Rightarrow> int \<Rightarrow> val list \<Rightarrow> reference list \<Rightarrow>
    (jserr + val list \<times> reference list) \<times> 'w \<Rightarrow> bool" where
  "ends E s0 s p st rs (Inr (X, Y), w) = reach E s0 (cfg s p (X @ st) (Y @ rs) w)"
| "ends E s0 s p st rs (Inl e, w) = raises E s0 s e w st rs"

text \<open>
  \<open>runs E is X Y m\<close>: wherever the code \<open>is\<close> stands in a program, started with \<open>X\<close> on top of the stack and \<open>Y\<close> on top of the reference
  stack it computes \<open>m\<close>, whose value is what it leaves there.
\<close>

definition runs :: "'w venv \<Rightarrow> code \<Rightarrow> val list \<Rightarrow> reference list \<Rightarrow> ('w, val list \<times> reference list) jsm \<Rightarrow> bool" where
  "runs E is X Y m \<longleftrightarrow>
     (\<forall>s pre post st rs w. prg s = pre @ is @ post \<longrightarrow>
        ends E (cfg s (int (length pre)) (X @ st) (Y @ rs) w) s (int (length pre + length is)) st rs (m w))"

lemma runsI:
  "(\<And>s pre post st rs w. prg s = pre @ is @ post \<Longrightarrow>
      ends E (cfg s (int (length pre)) (X @ st) (Y @ rs) w) s (int (length pre + length is)) st rs (m w)) \<Longrightarrow>
   runs E is X Y m"
  by (simp add: runs_def)

lemma runsD:
  "runs E is X Y m \<Longrightarrow> prg s = pre @ is @ post \<Longrightarrow>
   ends E (cfg s (int (length pre)) (X @ st) (Y @ rs) w) s (int (length pre + length is)) st rs (m w)"
  by (simp add: runs_def)

lemma ends_reach: "reach E s0 s1 \<Longrightarrow> ends E s1 s p st rs r \<Longrightarrow> ends E s0 s p st rs r"
  by (cases "(E, s1, s, p, st, rs, r)" rule: ends.cases) (auto simp: raises_def intro: reach_trans)

lemma ends_jump:
  "ends E s0 s p st rs r \<Longrightarrow> (\<And>st' rs' w'. reach E (cfg s p st' rs' w') (cfg s p' st' rs' w')) \<Longrightarrow> ends E s0 s p' st rs r"
  by (cases "(E, s0, s, p, st, rs, r)" rule: ends.cases) (auto intro: reach_trans)

lemma ends_bind:
  assumes "ends E s0 s p st rs (m w)"
    "\<And>X Y w'. m w = (Inr (X, Y), w') \<Longrightarrow> ends E (cfg s p (X @ st) (Y @ rs) w') s p' st rs (k X Y w')"
  shows "ends E s0 s p' st rs (bindM m (\<lambda>(X, Y). k X Y) w)"
proof (cases "m w")
  case (Pair r w')
  then show ?thesis
    using assms by (cases r) (auto simp: bindM_def intro: ends_reach)
qed

lemma runs_nil: "runs E [] X Y (ret (X, Y))"
  by (rule runsI) (simp add: ret_def)

lemma runs_append:
  assumes "runs E a X Y m" "\<And>X' Y'. runs E b X' Y' (k X' Y')"
  shows "runs E (a @ b) X Y (bindM m (\<lambda>(X', Y'). k X' Y'))"
proof (rule runsI)
  fix s :: "'a vm" and pre post st rs w
  assume s: "prg s = pre @ (a @ b) @ post"
  show "ends E (cfg s (int (length pre)) (X @ st) (Y @ rs) w) s (int (length pre + length (a @ b))) st rs
          (bindM m (\<lambda>(X', Y'). k X' Y') w)"
    using runsD [OF assms(1), where s = s and pre = pre and post = "b @ post" and st = st and rs = rs and w = w]
      runsD [OF assms(2), where s = s and pre = "pre @ a" and post = post and st = st and rs = rs] s
    by (auto intro!: ends_bind simp: add.assoc)
qed

lemma runs_one:
  assumes "\<And>s st rs w. (case m w of
      (Inr (X', Y'), w') \<Rightarrow> exec E i (cfg s (pc s) (X @ st) (Y @ rs) w) = Next (cfg s (pc s + 1) (X' @ st) (Y' @ rs) w')
    | (Inl e, w') \<Rightarrow> \<exists>xs ys. exec E i (cfg s (pc s) (X @ st) (Y @ rs) w) = Raise e (cfg s (pc s) (xs @ st) (ys @ rs) w'))"
  shows "runs E [i] X Y m"
proof (rule runsI)
  fix s :: "'a vm" and pre post st rs w
  assume s: "prg s = pre @ [i] @ post"
  let ?s = "cfg s (int (length pre)) (X @ st) (Y @ rs) w"
  have i: "prg ?s ! nat (pc ?s) = i" "0 \<le> pc ?s" "pc ?s < int (length (prg ?s))" using s by (simp_all add: nth_append)
  show "ends E ?s s (int (length pre + length [i])) st rs (m w)"
  proof (cases "m w")
    case (Pair r w')
    then show ?thesis
      using assms [where w = w and s = "cfg s (int (length pre)) [] [] w" and st = st and rs = rs] i
      by (cases r) (force simp: raises_def step_def add.commute split: prod.splits intro: reach_one)+
  qed
qed

section \<open>Putting fragments together\<close>

lemma runs_bind:
  assumes "runs E a X Y (bindM m (\<lambda>v. ret (F v, G v)))" "\<And>v. runs E b (F v) (G v) (k v)"
  shows "runs E (a @ b) X Y (bindM m k)"
proof (rule runsI)
  fix s :: "'a vm" and pre post st rs w
  assume s: "prg s = pre @ (a @ b) @ post"
  let ?s = "cfg s (int (length pre)) (X @ st) (Y @ rs) w"
  have A: "ends E ?s s (int (length pre + length a)) st rs (bindM m (\<lambda>v. ret (F v, G v)) w)"
    using runsD [OF assms(1), where s = s and pre = pre and post = "b @ post" and st = st and rs = rs and w = w] s by simp
  have B: "ends E (cfg s (int (length pre + length a)) (F v @ st) (G v @ rs) w') s (int (length pre + length (a @ b))) st rs (k v w')"
    for v w'
    using runsD [OF assms(2), where s = s and pre = "pre @ a" and post = post and st = st and rs = rs and w = w'] s
    by (simp add: add.assoc)
  show "ends E ?s s (int (length pre + length (a @ b))) st rs (bindM m k w)"
  proof (cases "m w")
    case (Pair r w')
    then show ?thesis using A B by (cases r) (auto simp: bindM_def ret_def intro: ends_reach)
  qed
qed

lemma runs_seq: "runs E a X Y (ret (X', Y')) \<Longrightarrow> runs E b X' Y' m \<Longrightarrow> runs E (a @ b) X Y m"
  using runs_bind [of E a X Y "ret ()" "\<lambda>_. X'" "\<lambda>_. Y'" b "\<lambda>_. m"] by simp

lemma runs_stop: "runs E a X Y (throwM e) \<Longrightarrow> runs E (a @ b) X Y (throwM e)"
  unfolding runs_def throwM_def by simp

text \<open>\<open>gets E is used m\<close>: the code computes the value \<open>m\<close> and pushes it if it is used.\<close>

definition push :: "bool \<Rightarrow> val \<Rightarrow> val list \<Rightarrow> val list" where
  "push used v X = (if used then v # X else X)"

lemma push_simps [simp]: "push True v X = v # X" "push False v X = X"
  by (simp_all add: push_def)

definition gets :: "'w venv \<Rightarrow> code \<Rightarrow> bool \<Rightarrow> ('w, val) jsm \<Rightarrow> bool" where
  "gets E is used m \<longleftrightarrow> (\<forall>X Y. runs E is X Y (bindM m (\<lambda>v. ret (push used v X, Y))))"

lemma getsI: "(\<And>X Y. runs E is X Y (bindM m (\<lambda>v. ret (push used v X, Y)))) \<Longrightarrow> gets E is used m"
  by (simp add: gets_def)

lemma getsD: "gets E is used m \<Longrightarrow> runs E is X Y (bindM m (\<lambda>v. ret (push used v X, Y)))"
  by (simp add: gets_def)

lemma gets_then:
  assumes "gets E a used m" "\<And>v. runs E b (push used v X) Y (k v)"
  shows "runs E (a @ b) X Y (bindM m k)"
  using assms by (auto intro: runs_bind getsD)

section \<open>Single instructions\<close>

lemma with_world_apply:
  "with_world m s k = (case m (world s) of (Inl e, w) \<Rightarrow> Raise e (s\<lparr>world := w\<rparr>) | (Inr x, w) \<Rightarrow> k x (s\<lparr>world := w\<rparr>))"
  by (simp add: with_world_def)

lemmas exec_defs =
  loadVal_exec_def loadUndef_exec_def pop_exec_def rdupN_exec_def binary_exec_def unary_exec_def loadDynamic_exec_def
  resolveVar1_exec_def getValue_exec_def putValue_exec_def popRef_exec_def new_exec_def throw_exec_def
  saveResult_exec_def loadResult_exec_def clearResult_exec_def

lemma runs_pure:
  assumes "\<And>s p st rs w. exec E i (cfg s p (X @ st) (Y @ rs) w) = Next (cfg s (p + 1) (X' @ st) (Y' @ rs) w)"
  shows "runs E [i] X Y (ret (X', Y'))"
  by (rule runs_one) (simp add: assms ret_def)

lemma runs_effect:
  assumes "\<And>s p st rs w. exec E i (cfg s p (X @ st) (Y @ rs) w) =
      with_world m (cfg s p (X0 @ st) (Y0 @ rs) w) (\<lambda>v s. Next (cfg s (p + 1) (F v @ st) (G v @ rs) (world s)))"
  shows "runs E [i] X Y (bindM m (\<lambda>v. ret (F v, G v)))"
  by (rule runs_one) (auto simp: assms with_world_apply bindM_def ret_def split: sum.splits prod.splits)

lemma runs_simple:
  "runs E [LoadVal v] X Y (ret (v # X, Y))"
  "runs E [LoadUndef] X Y (ret (VUndef # X, Y))"
  "runs E [Pop] (v # X) Y (ret (X, Y))"
  "runs E [RdupN 1] (v # u # X) Y (ret (v # v # X, Y))"
  "runs E [PopRef] X (r # Y) (ret (X, Y))"
  by (rule runs_pure; simp add: exec_defs)+

lemma runs_throw: "runs E [Throw] (v # X) Y (throwM (v_exn E v))"
  by (rule runs_one) (auto simp: throwM_def exec_defs intro!: exI [of _ "v # X"] exI [of _ Y])

lemma advance_world: "advance s st = cfg s (pc s + 1) st (refStack s) (world s)"
  by (simp add: advance_def cfg_def)

lemma runs_world:
  "runs E [Binary op] (r # l # X) Y (bindM (apply_binop (v_env E) op l r) (\<lambda>v. ret (v # X, Y)))"
  "runs E [Unary uop] (v # X) Y (bindM (apply_unop (v_env E) uop v) (\<lambda>v. ret (v # X, Y)))"
  "runs E [if strict then ResolveVar1Strict x else ResolveVar1 x] X Y (bindM (v_resolve E x strict) (\<lambda>r. ret (X, r # Y)))"
  "runs E [GetValue] X (ref # Y) (bindM (v_get E ref) (\<lambda>v. ret (v # X, ref # Y)))"
  "runs E [if used then PutValue else PutValueP] (v # X) (ref # Y) (bindM (v_put E ref v) (\<lambda>_. ret (push used v X, Y)))"
  "runs E [New 0] (v # X) Y (bindM (v_construct E v []) (\<lambda>v. ret (v # X, Y)))"
  "runs E [New 1] (a # v # X) Y (bindM (v_construct E v [a]) (\<lambda>v. ret (v # X, Y)))"
  subgoal by (rule runs_effect [where ?X0.0 = "r # l # X" and ?Y0.0 = Y]) (simp add: exec_defs with_world_apply split: sum.splits prod.splits)
  subgoal by (rule runs_effect [where ?X0.0 = "v # X" and ?Y0.0 = Y]) (simp add: exec_defs with_world_apply split: sum.splits prod.splits)
  subgoal by (rule runs_effect [where ?X0.0 = X and ?Y0.0 = Y]) (simp add: exec_defs with_world_apply split: sum.splits prod.splits)
  subgoal by (rule runs_effect [where ?X0.0 = X and ?Y0.0 = "ref # Y"]) (simp add: exec_defs with_world_apply split: sum.splits prod.splits)
  subgoal by (rule runs_effect [where ?X0.0 = "v # X" and ?Y0.0 = Y]) (simp add: exec_defs with_world_apply split: sum.splits prod.splits)
  subgoal by (rule runs_effect [where ?X0.0 = "v # X" and ?Y0.0 = Y]) (simp add: exec_defs with_world_apply split: sum.splits prod.splits)
  subgoal by (rule runs_effect [where ?X0.0 = "a # v # X" and ?Y0.0 = Y]) (simp add: exec_defs with_world_apply split: sum.splits prod.splits)
  done

lemma runs_load:
  "runs E [LoadDynamic x strict] X Y (bindM (evalc E strict used (Ident x)) (\<lambda>v. ret (v # X, Y)))"
  by (rule runs_one)
    (auto simp: bindM_def ret_def throwM_def exec_defs with_world_apply split: sum.splits prod.splits option.splits)

section \<open>Jumps\<close>

lemma step_at:
  assumes "prg s = pre @ i # post" "exec E i (cfg s (int (length pre)) st rs w) = Next t"
  shows "reach E (cfg s (int (length pre)) st rs w) t"
  using assms by (intro reach_one) (simp add: step_def nth_append)

lemma reach_jump:
  assumes "prg s = pre @ Jump j # post" "q = int (length pre) + j"
  shows "reach E (cfg s (int (length pre)) st rs w) (cfg s q st rs w)"
  by (rule step_at [OF assms(1)]) (simp add: jump_exec_def assms(2))

lemma exec_logical_jump:
  "exec E (logical_jump op True j) (cfg s p (v # st) rs w) =
     Next (if decides op v then cfg s (p + j) (v # st) rs w else cfg s (p + 1) st rs w)"
  "exec E (logical_jump op False j) (cfg s p (v # st) rs w) =
     Next (if decides op v then cfg s (p + j) st rs w else cfg s (p + 1) st rs w)"
  by (cases op; simp add: jne_exec_def jeq_exec_def jneP_exec_def jeqP_exec_def jcoalesc_exec_def jcoalescP_exec_def)+

lemma runs_logical:
  assumes "runs E b X Y m"
  shows "runs E (logical_jump op True (int (length b) + 1) # b) (v # X) Y (if decides op v then ret (v # X, Y) else m)"
proof (rule runsI)
  fix s :: "'a vm" and pre post st rs w
  assume s: "prg s = pre @ (logical_jump op True (int (length b) + 1) # b) @ post"
  let ?s = "cfg s (int (length pre)) ((v # X) @ st) (Y @ rs) w"
  let ?p = "int (length pre + length (logical_jump op True (int (length b) + 1) # b))"
  have "reach E ?s (if decides op v then cfg s ?p ((v # X) @ st) (Y @ rs) w
                    else cfg s (int (length (pre @ [Hole]))) (X @ st) (Y @ rs) w)"
    using s by (intro step_at [where post = "b @ post" and i = "logical_jump op True (int (length b) + 1)"])
      (auto simp: exec_logical_jump algebra_simps)
  then show "ends E ?s s ?p st rs ((if decides op v then ret (v # X, Y) else m) w)"
    using runsD [OF assms, where s = s and pre = "pre @ [logical_jump op True (int (length b) + 1)]" and post = post and st = st and rs = rs and w = w] s
    by (auto simp: ret_def algebra_simps intro: ends_reach)
qed

lemma runs_if:
  assumes "runs E a X Y f" "runs E b X Y g"
  shows "runs E (JneP (int (length a) + 2) # a @ Jump (int (length b) + 1) # b) (v # X) Y (if ToBoolean v then f else g)"
proof (rule runsI)
  fix s :: "'a vm" and pre post st rs w
  let ?is = "JneP (int (length a) + 2) # a @ Jump (int (length b) + 1) # b"
  assume s: "prg s = pre @ ?is @ post"
  let ?s = "cfg s (int (length pre)) ((v # X) @ st) (Y @ rs) w"
  let ?p = "int (length pre + length ?is)"
  have R: "reach E ?s (cfg s (if ToBoolean v then int (length pre) + 1 else int (length pre) + int (length a) + 2) (X @ st) (Y @ rs) w)"
    using s by (intro step_at [where i = "JneP (int (length a) + 2)" and post = "a @ Jump (int (length b) + 1) # b @ post"])
      (auto simp: jneP_exec_def)
  show "ends E ?s s ?p st rs ((if ToBoolean v then f else g) w)"
  proof (cases "ToBoolean v")
    case True
    have A: "ends E (cfg s (int (length pre) + 1) (X @ st) (Y @ rs) w) s (int (length pre + length a) + 1) st rs (f w)"
      using runsD [OF assms(1), where s = s and pre = "pre @ [JneP (int (length a) + 2)]" and st = st and rs = rs and w = w] s
      by (simp add: algebra_simps)
    have J: "reach E (cfg s (int (length pre + length a) + 1) st' rs' w') (cfg s ?p st' rs' w')" for st' rs' w'
      using reach_jump [of s "pre @ [JneP (int (length a) + 2)] @ a" "int (length b) + 1" "b @ post" ?p E st' rs' w'] s
      by (simp add: algebra_simps)
    show ?thesis using ends_reach [OF _ ends_jump [OF A J]] R True by simp
  next
    case False
    then show ?thesis
      using R s runsD [OF assms(2), where s = s and pre = "pre @ [JneP (int (length a) + 2)] @ a @ [Jump (int (length b) + 1)]" and post = post and st = st and rs = rs and w = w]
      by (auto simp: algebra_simps intro: ends_reach)
  qed
qed

text \<open>The tail of a logical assignment: the value is stored, or the reference dropped.\<close>

lemma runs_logical_store:
  fixes used :: bool
  assumes "runs E r X (ref # Y) (bindM m (\<lambda>u. ret (u # X, ref # Y)))"
  defines "put \<equiv> if used then PutValue else PutValueP"
  shows "runs E (logical_jump op used (int (length r) + 3) # r @ [put, Jump 2, PopRef]) (v # X) (ref # Y)
     (if decides op v then ret (push used v X, Y) else bindM m (\<lambda>u. bindM (v_put E ref u) (\<lambda>_. ret (push used u X, Y))))"
proof (rule runsI)
  fix s :: "'a vm" and pre post st rs w
  let ?j = "logical_jump op used (int (length r) + 3)" and ?tail = "r @ [put, Jump 2, PopRef]"
  assume s: "prg s = pre @ (?j # ?tail) @ post"
  let ?s = "cfg s (int (length pre)) ((v # X) @ st) ((ref # Y) @ rs) w" and ?p = "int (length pre + length (?j # ?tail))"
  have R: "reach E ?s (if decides op v then cfg s (int (length pre) + int (length r) + 3) (push used v X @ st) (ref # Y @ rs) w
             else cfg s (int (length pre) + 1) (X @ st) (ref # Y @ rs) w)"
    using s by (intro step_at [where i = ?j and post = "?tail @ post"]) (cases used; auto simp: exec_logical_jump)+
  have "runs E (r @ [put]) X (ref # Y) (bindM m (\<lambda>u. bindM (v_put E ref u) (\<lambda>_. ret (push used u X, Y))))"
    unfolding put_def by (rule runs_bind [OF assms(1) runs_world(5)])
  then have A: "ends E (cfg s (int (length pre) + 1) (X @ st) (ref # Y @ rs) w) s (int (length pre + length r) + 2) st rs
        (bindM m (\<lambda>u. bindM (v_put E ref u) (\<lambda>_. ret (push used u X, Y))) w)"
    using runsD [where s = s and pre = "pre @ [?j]" and post = "[Jump 2, PopRef] @ post" and st = st and rs = rs and w = w] s
    by (fastforce simp: algebra_simps)
  have J: "reach E (cfg s (int (length pre + length r) + 2) st' rs' w') (cfg s ?p st' rs' w')" for st' rs' w'
    using reach_jump [of s "pre @ [?j] @ r @ [put]" 2 "PopRef # post" ?p E st' rs' w'] s by (simp add: algebra_simps)
  show "ends E ?s s ?p st rs ((if decides op v then ret (push used v X, Y)
          else bindM m (\<lambda>u. bindM (v_put E ref u) (\<lambda>_. ret (push used u X, Y)))) w)"
  proof (cases "decides op v")
    case True
    have "ends E (cfg s (int (length pre) + int (length r) + 3) (push used v X @ st) (ref # Y @ rs) w) s ?p st rs (ret (push used v X, Y) w)"
      using runsD [OF runs_simple(5), where s = s and pre = "pre @ [?j] @ r @ [put, Jump 2]" and post = post and st = st and rs = rs and w = w and E = E] s
      by (simp add: algebra_simps)
    then show ?thesis using R True by (simp add: ends_reach)
  next
    case False
    then show ?thesis using ends_reach [OF _ ends_jump [OF A J]] R by simp
  qed
qed

section \<open>Operators on primitive values\<close>

text \<open>
  Two environments agree when they convert between strings and numbers and compute powers alike, which does not depend on
  the program: on primitive values the operators then give the same result in both, and leave the world alone.
\<close>

definition agree :: "'w env \<Rightarrow> 'k env \<Rightarrow> bool" where
  "agree E K \<longleftrightarrow>
     e_strToNumber E = e_strToNumber K \<and> e_strToBigInt E = e_strToBigInt K \<and> e_floatToStr E = e_floatToStr K \<and>
     e_pow E = e_pow K \<and> (\<forall>s. is_number (e_strToNumber K s))"

definition same :: "('a \<Rightarrow> bool) \<Rightarrow> ('w, 'a) jsm \<Rightarrow> ('k, 'a) jsm \<Rightarrow> bool" where
  "same Q m n \<longleftrightarrow>
     (\<exists>r. (\<forall>x. r = Inr x \<longrightarrow> Q x) \<and> (\<forall>e. r = Inl e \<longrightarrow> e = TypeErr \<or> e = RangeErr) \<and> m = (\<lambda>w. (r, w)) \<and> n = (\<lambda>w. (r, w)))"

lemma same_ret: "Q x \<Longrightarrow> same Q (ret x) (ret x)"
  by (auto simp: same_def ret_def fun_eq_iff)

lemma same_throw: "same Q (throwM TypeErr) (throwM TypeErr)" "same Q (throwM RangeErr) (throwM RangeErr)"
  by (auto simp: same_def throwM_def fun_eq_iff)

lemma same_bind: "same Q m n \<Longrightarrow> (\<And>x. Q x \<Longrightarrow> same R (f x) (g x)) \<Longrightarrow> same R (bindM m f) (bindM n g)"
proof -
  assume "same Q m n" and *: "\<And>x. Q x \<Longrightarrow> same R (f x) (g x)"
  then obtain r where r: "\<And>x. r = Inr x \<Longrightarrow> Q x" "\<And>e. r = Inl e \<Longrightarrow> e = TypeErr \<or> e = RangeErr" "m = (\<lambda>w. (r, w))" "n = (\<lambda>w. (r, w))"
    by (auto simp: same_def)
  show "same R (bindM m f) (bindM n g)"
  proof (cases r)
    case (Inl e)
    then show ?thesis using r by (auto simp: same_def bindM_def fun_eq_iff)
  next
    case (Inr x)
    then have "bindM m f = f x" "bindM n g = g x" using r by (auto simp: bindM_def fun_eq_iff)
    then show ?thesis using * r Inr by simp
  qed
qed

lemma same_weaken: "same Q m n \<Longrightarrow> (\<And>x. Q x \<Longrightarrow> R x) \<Longrightarrow> same R m n"
  by (auto simp: same_def)

lemma is_prim_iff: "is_prim v \<longleftrightarrow> (\<forall>x. v \<noteq> VObj x)"
  by (cases v) auto

lemma is_prim_intToValue: "is_prim (intToValue i)"
  by (auto simp: intToValue_def Let_def)

lemma is_prim_floatToValue: "is_prim (floatToValue f)"
  by (auto simp: floatToValue_def Let_def is_prim_intToValue split: option.splits)

lemma is_prim_results: "is_prim (mul_ints a b)" "is_prim (mod_ints a b)" "is_prim (div_floats x y)" "is_prim (pow_floats E x y)"
  by (auto simp: mul_ints_def mod_ints_def div_floats_def pow_floats_def is_prim_floatToValue is_prim_intToValue Let_def)

lemma is_number_prim: "is_number v \<Longrightarrow> is_prim v"
  by (cases v) auto

lemmas same_intros = same_ret same_throw same_bind

lemma same_toPrimitive:
  "is_prim v \<Longrightarrow> same is_prim (toPrimitive E v) (toPrimitive K v)"
  "is_prim v \<Longrightarrow> same is_prim (toPrimitiveNumber E v) (toPrimitiveNumber K v)"
  by (cases v; simp add: toPrimitive_def toPrimitiveNumber_def same_ret)+

lemma same_prim:
  assumes "agree E K"
  shows "same is_prim (prim_ToNumber E v) (prim_ToNumber K v)"
    "same (\<lambda>_. True) (prim_ToFloat E v) (prim_ToFloat K v)"
    "same (\<lambda>_. True) (prim_toString E v) (prim_toString K v)"
  using assms unfolding agree_def
  by (cases v; simp add: same_ret same_throw is_prim_intToValue is_number_prim)+

lemma same_toNumeric:
  assumes "agree E K" "is_prim v"
  shows "same is_prim (toNumeric E v) (toNumeric K v)"
  using assms unfolding agree_def
  by (cases v) (simp_all add: toNumeric_def is_prim_floatToValue is_prim_intToValue is_number_prim same_ret same_throw)

lemma same_ToFloat:
  assumes "agree E K" "is_prim v"
  shows "same (\<lambda>_. True) (ToFloat E v) (ToFloat K v)"
  unfolding ToFloat_def by (rule same_bind [OF same_toPrimitive(2) [OF assms(2)]]) (rule same_prim(2) [OF assms(1)])

lemma same_numeric_pair:
  assumes "agree E K" "is_prim l" "is_prim r" "\<And>x y. is_prim x \<Longrightarrow> is_prim y \<Longrightarrow> same Q (f x y) (g x y)"
  shows "same Q (bindM (toNumeric E l) (\<lambda>x. bindM (toNumeric E r) (f x))) (bindM (toNumeric K l) (\<lambda>x. bindM (toNumeric K r) (g x)))"
  by (intro same_bind [OF same_toNumeric] assms)

lemma same_arith:
  assumes "agree E K" "is_prim l" "is_prim r"
  shows "same is_prim (sub_exec E l r) (sub_exec K l r)"
    "same is_prim (mul_exec E l r) (mul_exec K l r)"
    "same is_prim (div_exec E l r) (div_exec K l r)"
    "same is_prim (mod_exec E l r) (mod_exec K l r)"
    "same is_prim (and_exec E l r) (and_exec K l r)"
    "same is_prim (or_exec E l r) (or_exec K l r)"
    "same is_prim (xor_exec E l r) (xor_exec K l r)"
    "same is_prim (shr_exec E l r) (shr_exec K l r)"
  unfolding sub_exec_def mul_exec_def div_exec_def mod_exec_def and_exec_def or_exec_def xor_exec_def shr_exec_def
  by (rule same_numeric_pair [OF assms];
      auto simp: is_prim_results is_prim_floatToValue is_prim_intToValue split: val.splits intro!: same_ret same_throw)+

lemma same_liftE: "same (\<lambda>_. True) (liftE (bigIntShift a b)) (liftE (bigIntShift a b))"
  by (auto simp: liftE_def bigIntShift_def Let_def intro: same_ret same_throw)

lemma same_shift:
  assumes "agree E K" "is_prim l" "is_prim r"
  shows "same is_prim (sal_exec E l r) (sal_exec K l r)"
    "same is_prim (sar_exec E l r) (sar_exec K l r)"
  unfolding sal_exec_def sar_exec_def
  by (rule same_numeric_pair [OF assms];
      auto simp: is_prim_intToValue split: val.splits intro!: same_ret same_throw same_bind [OF same_liftE])+

lemma same_pow_floats:
  assumes "agree E K" "is_prim x" "is_prim y"
  shows "same is_prim (bindM (ToFloat E x) (\<lambda>xf. bindM (ToFloat E y) (\<lambda>yf. ret (pow_floats E xf yf))))
    (bindM (ToFloat K x) (\<lambda>xf. bindM (ToFloat K y) (\<lambda>yf. ret (pow_floats K xf yf))))"
proof -
  have "pow_floats E = pow_floats K" using assms(1) by (simp add: pow_floats_def agree_def fun_eq_iff)
  then show ?thesis
    by (intro same_bind [OF same_ToFloat] assms) (auto intro!: same_ret is_prim_results)
qed

lemma same_exp:
  assumes "agree E K" "is_prim l" "is_prim r"
  shows "same is_prim (exp_exec E l r) (exp_exec K l r)"
  unfolding exp_exec_def pow_values_def Let_def
  by (rule same_numeric_pair [OF assms];
      auto simp: is_prim_intToValue split: val.splits intro!: same_ret same_throw same_pow_floats [OF assms(1)])

lemma same_add:
  assumes "agree E K" "is_prim l" "is_prim r"
  shows "same is_prim (add_exec E l r) (add_exec K l r)"
proof -
  have F: "same is_prim (bindM (prim_ToFloat E x) (\<lambda>a. bindM (prim_ToFloat E y) (\<lambda>b. ret (floatToValue (fadd a b)))))
      (bindM (prim_ToFloat K x) (\<lambda>a. bindM (prim_ToFloat K y) (\<lambda>b. ret (floatToValue (fadd a b)))))" for x y
    by (intro same_bind [OF same_prim(2)] same_ret is_prim_floatToValue assms(1))
  have G: "same is_prim (bindM (prim_ToFloat E y) (\<lambda>b. ret (floatToValue (fadd a b))))
      (bindM (prim_ToFloat K y) (\<lambda>b. ret (floatToValue (fadd a b))))" for a y
    by (intro same_bind [OF same_prim(2)] same_ret is_prim_floatToValue assms(1))
  have S: "same is_prim (bindM (prim_toString E x) (\<lambda>s. ret (VStr (f s)))) (bindM (prim_toString K x) (\<lambda>s. ret (VStr (f s))))" for x f
    by (intro same_bind [OF same_prim(3)] same_ret assms(1)) simp
  have N: "same is_prim (add_numbers E x y) (add_numbers K x y)" for x y
    unfolding add_numbers_def
    by (cases x; cases y; simp only: val.case; (intro same_ret same_throw F G)?) (simp_all add: is_prim_intToValue)
  show ?thesis unfolding add_exec_def
  proof (intro same_bind [OF same_toPrimitive(1)] assms)
    fix x y assume "is_prim x" "is_prim y"
    show "same is_prim
        (case (x, y) of (VStr l, VStr r) \<Rightarrow> ret (VStr (l @ r))
         | (VStr l, _) \<Rightarrow> bindM (prim_toString E y) (\<lambda>r. ret (VStr (l @ r)))
         | (_, VStr r) \<Rightarrow> bindM (prim_toString E x) (\<lambda>l. ret (VStr (l @ r)))
         | _ \<Rightarrow> add_numbers E x y)
        (case (x, y) of (VStr l, VStr r) \<Rightarrow> ret (VStr (l @ r))
         | (VStr l, _) \<Rightarrow> bindM (prim_toString K y) (\<lambda>r. ret (VStr (l @ r)))
         | (_, VStr r) \<Rightarrow> bindM (prim_toString K x) (\<lambda>l. ret (VStr (l @ r)))
         | _ \<Rightarrow> add_numbers K x y)"
      by (cases x; cases y; simp only: val.case prod.case; (intro S N)?) (simp_all add: same_ret)
  qed
qed

lemma same_cmp:
  assumes "agree E K" "is_prim l" "is_prim r"
  shows "same (\<lambda>_. True) (cmp E l r) (cmp K l r)"
proof -
  have N: "same (\<lambda>_. True) (bindM (toNumeric E l) (\<lambda>x. bindM (toNumeric E r) (\<lambda>y. ret (cmp_numeric x y))))
      (bindM (toNumeric K l) (\<lambda>x. bindM (toNumeric K r) (\<lambda>y. ret (cmp_numeric x y))))"
    by (rule same_numeric_pair [OF assms]) (rule same_ret, simp)
  have "e_strToBigInt E = e_strToBigInt K" using assms(1) by (simp add: agree_def)
  then show ?thesis
    using N by (cases l; cases r; simp add: cmp_def same_ret)
qed

lemma same_relational:
  assumes "agree E K" "is_prim l" "is_prim r"
  shows "same is_prim (op_lt_exec E l r) (op_lt_exec K l r)" "same is_prim (op_lte_exec E l r) (op_lte_exec K l r)"
    "same is_prim (op_gt_exec E l r) (op_gt_exec K l r)" "same is_prim (op_gte_exec E l r) (op_gte_exec K l r)"
  unfolding op_lt_exec_def op_lte_exec_def op_gt_exec_def op_gte_exec_def
  by (intro same_bind [OF same_toPrimitive(2)] same_bind [OF same_cmp] same_ret assms; simp)+

lemma same_binop:
  assumes "agree E K" "is_prim l" "is_prim r"
  shows "same is_prim (apply_binop E op l r) (apply_binop K op l r)"
  using assms same_arith [OF assms] same_shift [OF assms] same_exp [OF assms] same_add [OF assms] same_relational [OF assms]
  by (cases op) (simp_all add: same_ret op_strict_eq_exec_def op_strict_neq_exec_def)

lemma same_unaryOp:
  assumes "agree E K" "is_prim v"
  shows "same is_prim (unaryOp_value E op v) (unaryOp_value K op v)"
proof (cases op)
  case UMinus
  have "same is_prim (neg_exec E v) (neg_exec K v)"
    unfolding neg_exec_def
    by (rule same_bind [OF same_toNumeric [OF assms]])
      (auto split: val.splits intro!: same_ret same_bind [OF same_ToFloat [OF assms]])
  then show ?thesis using UMinus by simp
next
  case UBitwiseNot
  have "same is_prim (bnot_exec E v) (bnot_exec K v)"
    unfolding bnot_exec_def
    by (rule same_bind [OF same_toNumeric [OF assms]]) (auto split: val.splits simp: is_prim_intToValue intro!: same_ret)
  then show ?thesis using UBitwiseNot by simp
next
  case UPlus
  have "same is_prim (ToNumber E v) (ToNumber K v)"
    unfolding ToNumber_def by (rule same_bind [OF same_toPrimitive(2) [OF assms(2)]]) (rule same_prim(1) [OF assms(1)])
  then show ?thesis using UPlus by (simp add: plus_exec_def)
qed (simp_all add: same_ret not_exec_def)

section \<open>Folded constants\<close>

text \<open>
  The code for an exception found at compile time constructs it from the global constructor: the theorems assume that the
  program has not replaced it. This holds of a fresh runtime, such as the compiler's own.
\<close>

definition intact :: "'w venv \<Rightarrow> bool" where
  "intact E \<longleftrightarrow>
     (\<forall>(name, ex) \<in> {(''TypeError'', TypeErr), (''RangeError'', RangeErr)}.
        \<exists>f. (\<forall>w. v_load E (ascii name) False w = (Inr (Some f), w)) \<and>
            (\<forall>args. \<exists>v. v_construct E f args = ret v \<and> v_exn E v = ex))"

lemma emitThrow_runs:
  assumes "intact E" "emitThrow c ex = Some is"
  shows "runs E is X Y (throwM ex)"
proof -
  obtain name where name: "(name, ex) \<in> {(''TypeError'', TypeErr), (''RangeError'', RangeErr)}"
    and "is": "is = [LoadDynamic (ascii name) False] @
        (case c_message c ex of Some msg \<Rightarrow> [LoadVal msg, New 1] | None \<Rightarrow> [New 0]) @ [Throw]"
    using assms(2) by (cases ex) (auto simp: emitThrow_def)
  obtain f where f: "v_load E (ascii name) False = ret (Some f)"
    and new: "\<And>args. \<exists>v. v_construct E f args = ret v \<and> v_exn E v = ex"
    using bspec [OF assms(1) [unfolded intact_def] name] by (auto simp: ret_def fun_eq_iff)
  have load: "runs E [LoadDynamic (ascii name) False] X Y (ret (f # X, Y))"
    using runs_load [of E "ascii name" False X Y True] f by simp
  have "runs E ((case c_message c ex of Some msg \<Rightarrow> [LoadVal msg, New 1] | None \<Rightarrow> [New 0]) @ [Throw]) (f # X) Y (throwM ex)"
  proof (cases "c_message c ex")
    case None
    obtain v where v: "v_construct E f [] = ret v" "v_exn E v = ex" using new by blast
    show ?thesis
      using runs_seq [of E "[New 0]" "f # X" Y "v # X" Y "[Throw]"] runs_world(6) [of E f X Y] runs_throw [of E v X Y] v None
      by simp
  next
    case (Some msg)
    obtain v where v: "v_construct E f [msg] = ret v" "v_exn E v = ex" using new by blast
    have "runs E ([New 1] @ [Throw]) (msg # f # X) Y (throwM ex)"
      using runs_seq [of E "[New 1]" "msg # f # X" Y "v # X" Y "[Throw]"] runs_world(7) [of E msg f X Y] runs_throw [of E v X Y] v
      by simp
    then show ?thesis
      using runs_seq [OF runs_simple(1) [of E msg "f # X" Y], of "[New 1, Throw]"] Some by simp
  qed
  then show ?thesis unfolding "is" by (rule runs_seq [OF load])
qed

text \<open>The compiler's machine runs the getter of a constant to its end.\<close>

lemma runTry_gets:
  assumes "gets K cd True m"
  shows "(case m (c_world c) of
      (Inr v, w) \<Rightarrow> \<exists>s. runTry K (evalVM c cd) = Some (Halted s) \<and> stack s = [v]
    | (Inl e, w) \<Rightarrow> \<exists>s. runTry K (evalVM c cd) = Some (Uncaught e s))"
proof -
  let ?s = "pushTryFrame tryPanicMarker (-1) (evalVM c cd)"
  have s: "?s = cfg ?s 0 [] [] (c_world c)" "prg ?s = [] @ cd @ []"
    by (simp_all add: cfg_def pushTryFrame_def evalVM_def)
  have R: "ends K ?s ?s (int (length cd)) [] [] (bindM m (\<lambda>v. ret ([v], [])) (c_world c))"
    using runsD [OF getsD [OF assms] s(2), of "[]" "[]" "[]" "[]" "c_world c"] s(1) by simp
  show ?thesis
  proof (cases "m (c_world c)")
    case (Pair r w)
    show ?thesis
    proof (cases r)
      case (Inr v)
      then have "reach K ?s (cfg ?s (int (length cd)) [v] [] w)" using R Pair by (simp add: bindM_def ret_def)
      moreover have "step K (cfg ?s (int (length cd)) [v] [] w) = Halted (cfg ?s (int (length cd)) [v] [] w)"
        using s(2) by (simp add: step_def)
      ultimately have "runTry K (evalVM c cd) = Some (Halted (cfg ?s (int (length cd)) [v] [] w))"
        by (simp add: runTry_def run_reach run_end)
      then show ?thesis using Pair Inr by simp
    next
      case (Inl e)
      then obtain t q xs ys where t: "reach K ?s t" "0 \<le> pc t" "pc t < int (length (prg t))"
        "exec K (prg t ! nat (pc t)) t = Raise e (cfg ?s q xs ys w)"
        using R Pair by (auto simp: bindM_def raises_def)
      have "\<exists>u. handleThrow K e (tryStack ?s) (cfg ?s q xs ys w) = Inl u"
        by (simp add: pushTryFrame_def tryPanicMarker_def Let_def)
      then obtain u where "step K t = Uncaught e u" using t by (auto simp: step_def)
      then have "runTry K (evalVM c cd) = Some (Uncaught e u)"
        using t(1) by (simp add: runTry_def run_reach run_end)
      then show ?thesis using Pair Inl by simp
    qed
  qed
qed

lemma evalConst_gets:
  assumes "gets (c_env c) cd True m" "ce_emitGetter a True = Some cd" "ce_literal a = None" "evalConst c a = Some r"
  shows "fst (m (c_world c)) = r"
  using runTry_gets [OF assms(1), of c] assms(2-4)
  by (cases "m (c_world c)"; cases "fst (m (c_world c))") (auto simp: evalConst_def)

section \<open>Expressions\<close>

text \<open>
  \<open>good F c e a\<close>: in the environment \<open>F\<close>, the code of the compiled expression \<open>a\<close> computes \<open>e\<close>, and when \<open>a\<close> is constant it always has the
  value the compiler finds.
\<close>

definition good :: "'f venv \<Rightarrow> 'k compiler \<Rightarrow> expr \<Rightarrow> compiledExpr \<Rightarrow> bool" where
  "good F c e a \<longleftrightarrow>
     (\<forall>used cd. ce_emitGetter a used = Some cd \<longrightarrow> gets F cd used (evalc F (c_strict c) used e)) \<and>
     (\<forall>r. ce_constant a = Some True \<longrightarrow> evalConst c a = Some r \<longrightarrow> closed_head e \<and> evalc F (c_strict c) True e = (\<lambda>w. (r, w)))"

lemma goodD:
  assumes "good F c e a"
  shows "ce_emitGetter a used = Some cd \<Longrightarrow> gets F cd used (evalc F (c_strict c) used e)"
    "ce_constant a = Some True \<Longrightarrow> evalConst c a = Some r \<Longrightarrow> closed_head e"
    "ce_constant a = Some True \<Longrightarrow> evalConst c a = Some r \<Longrightarrow> evalc F (c_strict c) True e = (\<lambda>w. (r, w))"
  using assms by (auto simp: good_def)

lemma closed_no_update: "closed_head e \<Longrightarrow> wf_expr e \<Longrightarrow> \<not> has_update e"
  by (induction e rule: closed_head.induct) auto

lemma closed_used: "closed_head e \<Longrightarrow> evalc F strict used e = evalc F strict True e"
  by (cases e) auto

lemma runs_const:
  fixes F :: "'f venv"
  assumes "intact F" "(case r of Inr v \<Rightarrow> Some (if used then [LoadVal v] else []) | Inl ex \<Rightarrow> emitThrow c ex) = Some cd"
  shows "gets F cd used (\<lambda>w. (r, w))"
proof (rule getsI)
  fix X Y
  show "runs F cd X Y (bindM (\<lambda>w. (r, w)) (\<lambda>v. ret (push used v X, Y)))"
  proof (cases r)
    case (Inl ex)
    then have "bindM (\<lambda>w :: 'f. (r, w)) (\<lambda>v. ret (push used v X, Y)) = throwM ex" by (simp add: bindM_def throwM_def fun_eq_iff)
    then show ?thesis using emitThrow_runs [OF assms(1), of c ex cd X Y] assms(2) Inl by simp
  next
    case (Inr v)
    then have "bindM (\<lambda>w :: 'f. (r, w)) (\<lambda>v. ret (push used v X, Y)) = ret (push used v X, Y)" by (simp add: bindM_def fun_eq_iff)
    then show ?thesis using assms Inr runs_simple(1) runs_nil by (cases used) auto
  qed
qed

lemma emitConst_gets:
  assumes "intact F" "good F c e a" "ce_constant a = Some True" "emitConst c a used = Some cd"
  shows "gets F cd used (evalc F (c_strict c) used e)"
proof -
  obtain r where r: "evalConst c a = Some r"
    and cd: "(case r of Inr v \<Rightarrow> Some (if used then [LoadVal v] else []) | Inl ex \<Rightarrow> emitThrow c ex) = Some cd"
    using assms(4) unfolding emitConst_def bind_eq_Some_conv by blast
  have "evalc F (c_strict c) used e = (\<lambda>w. (r, w))"
    using goodD(2,3) [OF assms(2,3) r] closed_used by metis
  then show ?thesis using runs_const [OF assms(1) cd] by simp
qed

lemma emitExpr_gets:
  assumes "intact F" "good F c e a" "emitExpr c a used = Some cd"
  shows "gets F cd used (evalc F (c_strict c) used e)"
  using assms emitConst_gets [OF assms(1,2)] goodD(1) [OF assms(2)]
  by (auto simp: emitExpr_def bind_eq_Some_conv split: if_splits)

lemma emitNamedOrConst_eq: "emitNamedOrConst c a = emitExpr c a True"
  by (simp add: emitNamedOrConst_def emitExpr_def)

text \<open>The drop of a value that is not used.\<close>

lemma gets_pop: "gets F a True m \<Longrightarrow> gets F (a @ [Pop]) False m"
  by (rule getsI, rule gets_then) (auto intro: runs_simple)

lemma gets_end: "gets F a True m \<Longrightarrow> gets F (a @ (if used then [] else [Pop])) used m"
  using gets_pop by auto

subsection \<open>Code of each kind of expression\<close>

lemma gets_binary:
  assumes "gets F a True m" "gets F b True n"
  shows "gets F (a @ b @ [Binary op]) True (bindM m (\<lambda>l. bindM n (\<lambda>r. apply_binop (v_env F) op l r)))"
  unfolding gets_def bindM_assoc
  by (intro allI gets_then [OF assms(1)] gets_then [OF assms(2)]) (use runs_world(1) in simp)

lemma gets_unary:
  assumes "gets F a True m"
  shows "gets F (a @ [Unary op]) True (bindM m (apply_unop (v_env F) op))"
  unfolding gets_def bindM_assoc
  by (intro allI gets_then [OF assms]) (use runs_world(2) in simp)

lemma gets_void:
  assumes "gets F a False m"
  shows "gets F (a @ (if used then [LoadUndef] else [])) used (bindM m (\<lambda>_. ret VUndef))"
  unfolding gets_def bindM_assoc
  by (intro allI gets_then [OF assms]) (use runs_simple(2) runs_nil in \<open>cases used; simp\<close>)

lemma gets_logical:
  assumes "gets F a True m" "gets F b True n"
  shows "gets F (a @ logical_jump op True (int (length b) + 1) # b) True (bindM m (\<lambda>v. if decides op v then ret v else n))"
  unfolding gets_def bindM_assoc
proof (intro allI gets_then [OF assms(1)])
  fix X Y v
  show "runs F (logical_jump op True (int (length b) + 1) # b) (push True v X) Y
          (bindM (if decides op v then ret v else n) (\<lambda>v. ret (push True v X, Y)))"
    using runs_logical [OF getsD [OF assms(2)], where X = X and Y = Y and op = op and v = v] by (simp split: if_splits)
qed

lemma gets_conditional:
  assumes "gets F t True m" "gets F a used f" "gets F b used g"
  shows "gets F (t @ JneP (int (length a) + 2) # a @ Jump (int (length b) + 1) # b) used (bindM m (\<lambda>v. if ToBoolean v then f else g))"
  unfolding gets_def bindM_assoc
proof (intro allI gets_then [OF assms(1)])
  fix X Y v
  show "runs F (JneP (int (length a) + 2) # a @ Jump (int (length b) + 1) # b) (push True v X) Y
          (bindM (if ToBoolean v then f else g) (\<lambda>v. ret (push used v X, Y)))"
    using runs_if [OF getsD [OF assms(2)] getsD [OF assms(3)], where X = X and Y = Y and v = v] by (simp split: if_splits)
qed

lemma gets_seq:
  assumes "gets F a False m" "gets F b used n"
  shows "gets F (a @ b) used (bindM m (\<lambda>_. n))"
  unfolding gets_def bindM_assoc
  by (intro allI gets_then [OF assms(1)]) (use getsD [OF assms(2)] in simp)

text \<open>Assignments: the reference, the new value, the store.\<close>

lemma runs_ref:
  assumes "emitVarRef c x = Some ref" "\<And>r. runs F b X (r # Y) (k r)"
  shows "runs F (ref @ b) X Y (bindM (v_resolve F x (c_strict c)) k)"
proof -
  have "ref = [if c_strict c then ResolveVar1Strict x else ResolveVar1 x]"
    using assms(1) by (auto simp: emitVarRef_def split: if_splits)
  then show ?thesis using runs_bind [OF runs_world(3) assms(2)] by simp
qed

lemma gets_assign:
  assumes "emitVarRef c x = Some ref" "gets F r True m"
  shows "gets F (ref @ r @ [if used then PutValue else PutValueP]) used
    (bindM (v_resolve F x (c_strict c)) (\<lambda>ref. bindM m (\<lambda>v. bindM (v_put F ref v) (\<lambda>_. ret v))))"
  unfolding gets_def bindM_assoc
  by (intro allI runs_ref [OF assms(1)] gets_then [OF assms(2)]) (use runs_world(5) [of F used] in \<open>simp only: push_simps bindM_ret\<close>)

lemma gets_assignLogical:
  assumes "emitVarRef c x = Some ref" "gets F r True m"
  shows "gets F (ref @ [GetValue, logical_jump op used (int (length (r @ [if used then PutValue else PutValueP, Jump 2])) + 1)] @
      (r @ [if used then PutValue else PutValueP, Jump 2]) @ [PopRef]) used
    (bindM (v_resolve F x (c_strict c)) (\<lambda>ref. bindM (v_get F ref) (\<lambda>old.
       if decides op old then ret old else bindM m (\<lambda>v. bindM (v_put F ref v) (\<lambda>_. ret v)))))"
  unfolding gets_def bindM_assoc
proof (intro allI runs_ref [OF assms(1)])
  fix X Y ref
  let ?is = "logical_jump op used (int (length r) + 3) # r @ [if used then PutValue else PutValueP, Jump 2, PopRef]"
  have "runs F ([GetValue] @ ?is) X (ref # Y) (bindM (v_get F ref) (\<lambda>old. bindM
      (if decides op old then ret old else bindM m (\<lambda>v. bindM (v_put F ref v) (\<lambda>_. ret v))) (\<lambda>v. ret (push used v X, Y))))"
  proof (rule runs_bind [OF runs_world(4)])
    fix v
    show "runs F ?is (v # X) (ref # Y)
         (bindM (if decides op v then ret v else bindM m (\<lambda>v. bindM (v_put F ref v) (\<lambda>_. ret v))) (\<lambda>v. ret (push used v X, Y)))"
      using runs_logical_store [OF getsD [OF assms(2), simplified], where X = X and ref = ref and Y = Y and op = op and used = used and v = v] by (simp add: bindM_assoc split: if_splits)
  qed
  then show "runs F ([GetValue, logical_jump op used (int (length (r @ [if used then PutValue else PutValueP, Jump 2])) + 1)] @
      (r @ [if used then PutValue else PutValueP, Jump 2]) @ [PopRef]) X (ref # Y) (bindM (v_get F ref) (\<lambda>old. bindM
      (if decides op old then ret old else bindM m (\<lambda>v. bindM (v_put F ref v) (\<lambda>_. ret v))) (\<lambda>v. ret (push used v X, Y))))"
    by (simp add: add.commute)
qed

text \<open>The operators that read and write a variable through one reference.\<close>

lemma gets_emitUnary:
  assumes "identifier_emitUnary c x prepare (Some b) postfix used = Some cd"
    and P: "\<And>v X Y. runs F prepare (v # X) Y (bindM (P v) (\<lambda>u. ret (u # X, Y)))"
    and B: "\<And>v X Y. runs F b (v # X) Y (bindM (B v) (\<lambda>u. ret (u # X, Y)))"
  shows "gets F cd used (bindM (v_resolve F x (c_strict c)) (\<lambda>ref. bindM (v_get F ref) (\<lambda>v.
     bindM (if used then P v else ret v) (\<lambda>old. bindM (B old) (\<lambda>new.
     bindM (v_put F ref new) (\<lambda>_. ret (if postfix then old else new)))))))"
proof (cases used)
  case False
  then obtain ref where ref: "emitVarRef c x = Some ref" and cd: "cd = ref @ [GetValue] @ b @ [PutValueP]"
    using assms(1) by (auto simp: identifier_emitUnary_def emitVarSetter1_def bind_eq_Some_conv)
  show ?thesis unfolding gets_def bindM_assoc cd
    by (intro allI runs_ref [OF ref] runs_bind [OF runs_world(4)])
      (use False runs_bind [OF B] runs_world(5) [of F False] in \<open>simp add: bindM_assoc\<close>)
next
  case True
  then obtain ref where ref: "emitVarRef c x = Some ref"
    and cd: "cd = ref @ [LoadUndef] @ [GetValue] @ prepare @ (if postfix then [RdupN 1] @ b else b @ [RdupN 1]) @ [PutValue] @ [Pop]"
    using assms(1) by (auto simp: identifier_emitUnary_def emitVarSetter1_def bind_eq_Some_conv split: if_splits)
  have put: "runs F ([PutValue] @ [Pop]) (new # v # X) (ref # Y) (bindM (v_put F ref new) (\<lambda>_. ret (v # X, Y)))" for new v X ref Y
    by (rule runs_bind [OF runs_world(5) [of F True, simplified]]) (rule runs_simple)
  have body: "runs F ((if postfix then [RdupN 1] @ b else b @ [RdupN 1]) @ [PutValue] @ [Pop]) (old # u # X) (ref # Y)
      (bindM (B old) (\<lambda>new. bindM (v_put F ref new) (\<lambda>_. ret ((if postfix then old else new) # X, Y))))" for old u X ref Y
  proof (cases postfix)
    case True
    then show ?thesis using runs_seq [OF runs_simple(4) runs_bind [OF B put]] by simp
  next
    case False
    then show ?thesis using runs_bind [OF B runs_seq [OF runs_simple(4) put]] by simp
  qed
  show ?thesis unfolding gets_def bindM_assoc cd
    by (intro allI runs_ref [OF ref] runs_seq [OF runs_simple(2)] runs_bind [OF runs_world(4)])
      (use True runs_bind [OF P body] in \<open>simp add: bindM_assoc\<close>)
qed

subsection \<open>The methods of the compiled expressions\<close>

lemma unaryOp_void: "unaryOp_value E UVoid = (\<lambda>_. ret VUndef)"
  by (simp add: fun_eq_iff)

lemma unary_gets:
  assumes "intact F" "good F c e a" "unary_emitGetter c op a used = Some cd"
  shows "gets F cd used (evalc F (c_strict c) used (UnaryE op e))"
proof (cases "op = UVoid")
  case True
  then show ?thesis
    using assms(3) gets_void [OF emitExpr_gets [OF assms(1,2)], where used = used]
    by (auto simp: unary_emitGetter_def bind_eq_Some_conv unaryOp_void)
next
  case False
  then obtain b uop where b: "ce_emitGetter a True = Some b \<or> emitExpr c a True = Some b"
    and cd: "cd = (b @ [Unary uop]) @ (if used then [] else [Pop])" and op: "unaryOp_value (v_env F) op = apply_unop (v_env F) uop"
    using assms(3) by (cases op) (auto simp: unary_emitGetter_def bind_eq_Some_conv Let_def fun_eq_iff)
  have "gets F b True (evalc F (c_strict c) True e)"
    using b emitExpr_gets [OF assms(1,2)] goodD(1) [OF assms(2)] by blast
  then show ?thesis unfolding cd using False op by (simp only: evalc.simps) (intro gets_end, simp add: gets_unary)
qed

lemma binary_gets:
  assumes "intact F" "good F c e a" "good F c f b" "binary_emitGetter c op a b used = Some cd"
  shows "gets F cd used (evalc F (c_strict c) used (BinaryE op e f))"
proof -
  obtain x y where x: "emitExpr c a True = Some x" "emitExpr c b True = Some y"
    and cd: "cd = (x @ y @ [Binary op]) @ (if used then [] else [Pop])"
    using assms(4) by (auto simp: binary_emitGetter_def bind_eq_Some_conv)
  show ?thesis unfolding cd evalc.simps
    by (intro gets_end gets_binary emitExpr_gets [OF assms(1,2) x(1)] emitExpr_gets [OF assms(1,3) x(2)])
qed

lemma bindM_Pair: "bindM (Pair r) k = (case r of Inl e \<Rightarrow> throwM e | Inr x \<Rightarrow> k x)"
  by (cases r) (simp_all add: bindM_def throwM_def fun_eq_iff)

lemma logical_gets:
  assumes "intact F" "good F c e a" "good F c f b" "wf_expr (Logical op e f)" "logical_emitGetter c op a b used = Some cd"
  shows "gets F cd used (evalc F (c_strict c) used (Logical op e f))"
proof (cases "ce_constant a = Some True")
  case True
  then obtain r where r: "evalConst c a = Some r" and cd: "(case r of
      Inr v \<Rightarrow> if decides op v then Some (if used then [LoadVal v] else []) else emitExpr c b used
    | Inl ex \<Rightarrow> emitThrow c ex) = Some cd"
    using assms(5) by (auto simp: logical_emitGetter_def bind_eq_Some_conv)
  have e: "evalc F (c_strict c) True e = Pair r" "closed_head e" using goodD(2,3) [OF assms(2) True r] by auto
  have f: "evalc F (c_strict c) True f = evalc F (c_strict c) used f" using evalc_used(1) assms(4) e(2) by (metis wf_expr.simps(9))
  show ?thesis
  proof (cases "\<exists>v. r = Inr v \<and> \<not> decides op v")
    case True
    then show ?thesis using cd e(1) f emitExpr_gets [OF assms(1,3)] by (auto simp: bindM_Pair)
  next
    case False
    then have "evalc F (c_strict c) used (Logical op e f) = Pair r"
      by (cases r) (simp_all add: e(1) bindM_Pair throwM_def [abs_def] ret_def [abs_def])
    moreover have "(case r of Inr v \<Rightarrow> Some (if used then [LoadVal v] else []) | Inl ex \<Rightarrow> emitThrow c ex) = Some cd"
      using cd False by (auto split: sum.splits)
    ultimately show ?thesis using runs_const [OF assms(1)] by simp
  qed
next
  case False
  then obtain x y where x: "emitExpr c a True = Some x" "emitExpr c b True = Some y"
    and cd: "cd = (x @ logical_jump op True (int (length y) + 1) # y) @ (if used then [] else [Pop])"
    using assms(5) by (auto simp: logical_emitGetter_def bind_eq_Some_conv split: if_splits)
  show ?thesis unfolding cd evalc.simps
    by (intro gets_end gets_logical emitExpr_gets [OF assms(1,2) x(1)] emitExpr_gets [OF assms(1,3) x(2)])
qed

lemma conditional_gets:
  assumes "good F c e t" "good F c f a" "good F c g b" "conditional_emitGetter t a b used = Some cd"
  shows "gets F cd used (evalc F (c_strict c) used (Conditional e f g))"
  using assms(4) gets_conditional goodD(1) [OF assms(1)] goodD(1) [OF assms(2)] goodD(1) [OF assms(3)]
  by (fastforce simp: conditional_emitGetter_def bind_eq_Some_conv)

lemma sequence_gets:
  assumes "list_all2 (good F c) es as" "es \<noteq> []" "sequence_emitGetter as used = Some cd"
  shows "gets F cd used (evalcs F (c_strict c) used es)"
  using assms
proof (induction es as arbitrary: cd rule: list_all2_induct)
  case (Cons e es a as)
  show ?case
  proof (cases as)
    case Nil
    then show ?thesis using Cons goodD(1) by fastforce
  next
    case (Cons b bs)
    then have "es \<noteq> []" using Cons.hyps by auto
    then show ?thesis
      using Cons Cons.IH Cons.prems Cons.hyps goodD(1) gets_seq by (fastforce simp: bind_eq_Some_conv)
  qed
qed simp

lemma identifier_gets:
  "identifier_emitGetter c x used = Some cd \<Longrightarrow> gets F cd used (evalc F (c_strict c) used (Ident x))"
  using gets_end [of F "[LoadDynamic x (c_strict c)]"] runs_load [of F x "c_strict c" _ _ used]
  by (fastforce simp: identifier_emitGetter_def gets_def)

lemma assign_gets:
  assumes "intact F" "good F c e a" "assign_emitGetter c x a used = Some cd"
  shows "gets F cd used (evalc F (c_strict c) used (Assign x e))"
proof -
  obtain ref r where r: "emitVarRef c x = Some ref" "emitExpr c a True = Some r"
    and cd: "cd = ref @ r @ [if used then PutValue else PutValueP]"
    using assms(3)
    by (auto simp: assign_emitGetter_def emitVarSetter_def emitVarSetter1_def emitNamedOrConst_eq bind_eq_Some_conv)
  show ?thesis unfolding cd evalc.simps by (rule gets_assign [OF r(1) emitExpr_gets [OF assms(1,2) r(2)]])
qed

lemma assignOp_gets:
  assumes "good F c e a" "assignOp_emitGetter c op x a used = Some cd"
  shows "gets F cd used (evalc F (c_strict c) used (AssignOp op x e))"
proof -
  obtain r where r: "ce_emitGetter a True = Some r" "identifier_emitUnary c x [] (Some (r @ [Binary op])) False used = Some cd"
    using assms(2) by (cases "ce_emitGetter a True"; cases used)
      (auto simp: assignOp_emitGetter_def identifier_emitUnary_def emitVarSetter1_def bind_eq_Some_conv)
  have P: "runs F [] (v # X) Y (bindM (ret v) (\<lambda>u. ret (u # X, Y)))" for v X Y by (simp add: runs_nil)
  have B: "runs F (r @ [Binary op]) (v # X) Y
      (bindM (bindM (evalc F (c_strict c) True e) (apply_binop (v_env F) op v)) (\<lambda>u. ret (u # X, Y)))" for v X Y
    unfolding bindM_assoc by (rule gets_then [OF goodD(1) [OF assms(1) r(1)]]) (simp add: runs_world)
  show ?thesis using gets_emitUnary [OF r(2) P B] by (simp add: bindM_assoc cong: if_cong)
qed

lemma assignLogical_gets:
  assumes "intact F" "good F c e a" "assignLogical_emitGetter c op x a used = Some cd"
  shows "gets F cd used (evalc F (c_strict c) used (AssignLogical op x e))"
proof -
  obtain ref r where r: "emitVarRef c x = Some ref" "emitExpr c a True = Some r"
    and cd: "cd = ref @ [GetValue, logical_jump op used (int (length (r @ [if used then PutValue else PutValueP, Jump 2])) + 1)] @
      (r @ [if used then PutValue else PutValueP, Jump 2]) @ [PopRef]"
    using assms(3) by (auto simp: assignLogical_emitGetter_def emitNamedOrConst_eq bind_eq_Some_conv Let_def)
  show ?thesis unfolding cd evalc.simps by (rule gets_assignLogical [OF r(1) emitExpr_gets [OF assms(1,2) r(2)]])
qed

lemma update_gets:
  assumes "update_emitGetter c inc postfix x used = Some cd"
  shows "gets F cd used (evalc F (c_strict c) used (Update inc postfix x))"
  using gets_emitUnary [OF assms [unfolded update_emitGetter_def] runs_world(2) [of F OpToNumber] runs_world(2)]
  by (simp add: update_code_def [abs_def] step_value_def cong: if_cong)

subsection \<open>Every expression\<close>

text \<open>
  The induction carries the environment of the program and the compiler's own together, because the value of a constant is what
  the code of its parts computes in the latter.
\<close>

definition both_good :: "'w venv \<Rightarrow> 'k compiler \<Rightarrow> expr \<Rightarrow> compiledExpr \<Rightarrow> bool" where
  "both_good E c e a \<longleftrightarrow> good E c e a \<and> good (c_env c) c e a \<and>
     (ce_constant a = Some True \<longrightarrow>
        closed_head e \<and> same is_prim (evalc E (c_strict c) True e) (evalc (c_env c) (c_strict c) True e))"

lemma both_goodI:
  assumes "\<And>used cd. ce_emitGetter a used = Some cd \<Longrightarrow> gets E cd used (evalc E (c_strict c) used e)"
    "\<And>used cd. ce_emitGetter a used = Some cd \<Longrightarrow> gets (c_env c) cd used (evalc (c_env c) (c_strict c) used e)"
    "ce_literal a = None"
    "ce_constant a = Some True \<Longrightarrow>
       closed_head e \<and> same is_prim (evalc E (c_strict c) True e) (evalc (c_env c) (c_strict c) True e)"
  shows "both_good E c e a"
proof -
  have "closed_head e \<and> evalc E (c_strict c) True e = Pair r \<and> evalc (c_env c) (c_strict c) True e = Pair r"
    if k: "ce_constant a = Some True" "evalConst c a = Some r" for r
  proof -
    obtain r' where r': "evalc E (c_strict c) True e = Pair r'" "evalc (c_env c) (c_strict c) True e = Pair r'"
      using assms(4) [OF k(1)] by (auto simp: same_def)
    obtain cd where cd: "ce_emitGetter a True = Some cd"
      using k(2) assms(3) by (auto simp: evalConst_def bind_eq_Some_conv)
    then have "r' = r" using evalConst_gets [OF assms(2) [OF cd] cd assms(3) k(2)] r'(2) by simp
    then show ?thesis using r' assms(4) [OF k(1)] by simp
  qed
  then show ?thesis using assms by (auto simp: both_good_def good_def)
qed

lemma both_good_plain:
  "(\<And>used cd. getter used = Some cd \<Longrightarrow> gets E cd used (evalc E (c_strict c) used e)) \<Longrightarrow>
   (\<And>used cd. getter used = Some cd \<Longrightarrow> gets (c_env c) cd used (evalc (c_env c) (c_strict c) used e)) \<Longrightarrow>
   both_good E c e (plainExpr getter)"
  by (rule both_goodI) (auto simp: plainExpr_def)

lemma ret_eq_Pair: "ret v = Pair (Inr v)"
  by (simp add: ret_def fun_eq_iff)

lemma literal_gets: "literal_emitGetter v used = Some cd \<Longrightarrow> gets F cd used (ret v)"
  using runs_simple(1) runs_nil by (cases used) (auto simp: literal_emitGetter_def gets_def)

lemma both_good_literal:
  assumes "is_prim v"
  shows "both_good E c (Lit v) \<lparr>ce_literal = Some v, ce_constant = Some True, ce_emitGetter = literal_emitGetter v\<rparr>"
  using assms literal_gets [of v] literal_gets [of v _ _ "c_env c"]
  by (auto simp: both_good_def good_def evalConst_def same_ret [unfolded ret_eq_Pair] ret_eq_Pair)

lemma those_all2: "those (map f xs) = Some ys \<Longrightarrow> list_all2 (\<lambda>x y. f x = Some y) xs ys"
  by (induction xs arbitrary: ys) (auto split: option.splits)

lemma logical_same:
  assumes "both_good E c e a" "both_good E c f b" "logical_constant c op a b = Some True"
  shows "closed_head e \<and>
    same is_prim (evalc E (c_strict c) True (Logical op e f)) (evalc (c_env c) (c_strict c) True (Logical op e f))"
proof -
  obtain r where a: "ce_constant a = Some True" "evalConst c a = Some r"
    and r: "\<And>v. r = Inr v \<Longrightarrow> \<not> decides op v \<Longrightarrow> ce_constant b = Some True"
    using assms(3) by (cases "evalConst c a") (auto simp: logical_constant_def bind_eq_Some_conv split: if_splits sum.splits)
  have e: "evalc E (c_strict c) True e = Pair r" "evalc (c_env c) (c_strict c) True e = Pair r" "closed_head e"
    using assms(1) a goodD(2,3) unfolding both_good_def by metis+
  have "\<And>v. r = Inr v \<Longrightarrow> is_prim v" "\<And>ex. r = Inl ex \<Longrightarrow> ex = TypeErr \<or> ex = RangeErr"
    using assms(1) a(1) by (auto simp: both_good_def same_def e(1,2) dest: fun_cong)
  then show ?thesis
    using e(3) r assms(2) by (fastforce simp: e(1,2) bindM_Pair both_good_def split: sum.splits intro: same_ret same_throw)
qed

lemma compile_both_good:
  fixes E :: "'w venv" and c :: "'k compiler"
  assumes env: "agree (v_env E) (v_env (c_env c))" "intact E" "intact (c_env c)"
  shows "compileExpression c e = Some a \<Longrightarrow> wf_expr e \<Longrightarrow> both_good E c e a"
proof (induction e arbitrary: a)
  case (Lit v)
  then show ?case using both_good_literal by auto
next
  case (Ident x)
  then show ?case by (auto simp: bind_eq_Some_conv intro!: both_good_plain identifier_gets simp del: evalc.simps)
next
  case (Assign x e)
  then show ?case
    by (auto simp: bind_eq_Some_conv both_good_def [of E c e] intro!: both_good_plain assign_gets env simp del: evalc.simps)
next
  case (AssignOp op x e)
  then show ?case
    by (auto simp: bind_eq_Some_conv both_good_def [of E c e] intro!: both_good_plain assignOp_gets env simp del: evalc.simps)
next
  case (AssignLogical op x e)
  then show ?case
    by (auto simp: bind_eq_Some_conv both_good_def [of E c e] intro!: both_good_plain assignLogical_gets env simp del: evalc.simps)
next
  case (Update inc postfix x)
  then show ?case by (auto simp: bind_eq_Some_conv intro!: both_good_plain update_gets simp del: evalc.simps)
next
  case (UnaryE op e)
  then obtain b where b: "both_good E c e b"
    and a: "a = \<lparr>ce_literal = None, ce_constant = ce_constant b, ce_emitGetter = unary_emitGetter c op b\<rparr>"
    by (auto simp: bind_eq_Some_conv)
  have "same is_prim (evalc E (c_strict c) True (UnaryE op e)) (evalc (c_env c) (c_strict c) True (UnaryE op e)) \<and> closed_head e"
    if "ce_constant b = Some True"
  proof -
    have e: "closed_head e" "same is_prim (evalc E (c_strict c) True e) (evalc (c_env c) (c_strict c) True e)"
      using b that by (auto simp: both_good_def)
    then show ?thesis
      using same_bind [where R = is_prim, OF e(2) same_unaryOp [where op = op, OF env(1)]] closed_used [of e E "c_strict c" "op \<noteq> UVoid"]
        closed_used [of e "c_env c" "c_strict c" "op \<noteq> UVoid"] by simp
  qed
  then show ?case unfolding a using b
    by (intro both_goodI unary_gets env) (auto simp: both_good_def simp del: evalc.simps)
next
  case (BinaryE op e f)
  then obtain x y where x: "both_good E c e x" "both_good E c f y"
    and a: "a = \<lparr>ce_literal = None, ce_constant = binary_constant x y, ce_emitGetter = binary_emitGetter c op x y\<rparr>"
    by (auto simp: bind_eq_Some_conv)
  have "closed_head (BinaryE op e f) \<and> same is_prim (evalc E (c_strict c) True (BinaryE op e f)) (evalc (c_env c) (c_strict c) True (BinaryE op e f))"
    if "binary_constant x y = Some True"
  proof -
    have "ce_constant x = Some True" "ce_constant y = Some True"
      using that by (auto simp: binary_constant_def bind_eq_Some_conv split: if_splits)
    then show ?thesis
      using x by (auto simp: both_good_def intro!: same_bind [where Q = is_prim] same_binop [OF env(1)])
  qed
  then show ?case unfolding a using x
    by (intro both_goodI binary_gets env) (auto simp: both_good_def simp del: evalc.simps)
next
  case (Logical op e f)
  then obtain x y where x: "both_good E c e x" "both_good E c f y"
    and a: "a = \<lparr>ce_literal = None, ce_constant = logical_constant c op x y, ce_emitGetter = logical_emitGetter c op x y\<rparr>"
    by (auto simp: bind_eq_Some_conv)
  show ?case unfolding a using x logical_same [OF x] Logical.prems(2)
    by (intro both_goodI logical_gets env) (auto simp: both_good_def simp del: evalc.simps)
next
  case (Conditional e f g)
  then obtain x y z where x: "both_good E c e x" "both_good E c f y" "both_good E c g z"
    and a: "a = plainExpr (conditional_emitGetter x y z)"
    by (auto simp: bind_eq_Some_conv)
  show ?case unfolding a using x
    by (intro both_good_plain conditional_gets) (auto simp: both_good_def simp del: evalc.simps)
next
  case (Sequence es)
  then obtain as where as: "those (map (compileExpression c) es) = Some as" and a: "a = plainExpr (sequence_emitGetter as)"
    by (auto simp: bind_eq_Some_conv)
  have "list_all2 (both_good E c) es as"
    using those_all2 [OF as] Sequence by (auto simp: list_all2_conv_all_nth list_all_iff)
  then have "list_all2 (good E c) es as" "list_all2 (good (c_env c) c) es as"
    by (auto elim!: list_all2_mono simp: both_good_def)
  then show ?case unfolding a using Sequence.prems by (intro both_good_plain) (auto intro: sequence_gets)
qed

section \<open>The compiler succeeds\<close>

text \<open>
  In sloppy mode every expression of the modelled language compiles: folding ends, and what a constant may throw has a
  constructor.
\<close>

definition emits :: "'k compiler \<Rightarrow> compiledExpr \<Rightarrow> bool" where
  "emits c a \<longleftrightarrow> (\<forall>used. \<exists>cd. ce_emitGetter a used = Some cd) \<and> (\<exists>k. ce_constant a = Some k)"

lemma emitsD: "emits c a \<Longrightarrow> \<exists>cd. ce_emitGetter a used = Some cd"
  by (simp add: emits_def)

lemma evalConst_total:
  assumes "both_good E c e a" "emits c a" "ce_constant a = Some True" "\<And>v. ce_literal a = Some v \<Longrightarrow> is_prim v"
  shows "\<exists>r. evalConst c a = Some r \<and> (\<forall>ex. r = Inl ex \<longrightarrow> ex = TypeErr \<or> ex = RangeErr)"
proof (cases "ce_literal a")
  case (Some v)
  then show ?thesis by (simp add: evalConst_def)
next
  case None
  obtain cd where cd: "ce_emitGetter a True = Some cd" using assms(2) by (auto simp: emits_def)
  have G: "gets (c_env c) cd True (evalc (c_env c) (c_strict c) True e)"
    using assms(1) goodD(1) [OF _ cd] by (auto simp: both_good_def)
  obtain r where r: "evalc (c_env c) (c_strict c) True e = Pair r" "\<forall>ex. r = Inl ex \<longrightarrow> ex = TypeErr \<or> ex = RangeErr"
    using assms(1,3) by (auto simp: both_good_def same_def)
  have "evalConst c a = Some r"
    using runTry_gets [OF G, of c] None cd r(1) by (cases r) (auto simp: evalConst_def)
  then show ?thesis using r(2) by blast
qed

lemma emitThrow_total: "ex = TypeErr \<or> ex = RangeErr \<Longrightarrow> \<exists>cd. emitThrow c ex = Some cd"
  by (auto simp: emitThrow_def)

lemma emitExpr_total:
  assumes "both_good E c e a" "emits c a" "\<And>v. ce_literal a = Some v \<Longrightarrow> is_prim v"
  shows "\<exists>cd. emitExpr c a used = Some cd"
proof -
  obtain k where k: "ce_constant a = Some k" using assms(2) by (auto simp: emits_def)
  show ?thesis
  proof (cases k)
    case True
    then obtain r where "evalConst c a = Some r" "\<forall>ex. r = Inl ex \<longrightarrow> ex = TypeErr \<or> ex = RangeErr"
      using evalConst_total [OF assms(1,2)] assms(3) k by auto
    then show ?thesis using k True emitThrow_total by (cases r) (auto simp: emitExpr_def emitConst_def)
  next
    case False
    then show ?thesis using k assms(2) by (auto simp: emitExpr_def emits_def)
  qed
qed

definition lit_ok :: "compiledExpr \<Rightarrow> bool" where
  "lit_ok a \<longleftrightarrow> (\<forall>v. ce_literal a = Some v \<longrightarrow> is_prim v)"

lemma emitVarRef_total: "\<not> c_strict c \<Longrightarrow> emitVarRef c x = Some [ResolveVar1 x]"
  by (simp add: emitVarRef_def)

lemma sequence_total: "\<forall>a \<in> set as. emits c a \<Longrightarrow> \<exists>cd. sequence_emitGetter as used = Some cd"
proof (induction as)
  case (Cons a as)
  obtain x where "ce_emitGetter a False = Some x" using Cons.prems emitsD by fastforce
  moreover obtain y where "ce_emitGetter a used = Some y" using Cons.prems emitsD by fastforce
  ultimately show ?case using Cons by (cases as) auto
qed simp

lemma those_total:
  "\<forall>x \<in> set xs. \<exists>y. f x = Some y \<and> P y \<Longrightarrow> \<exists>ys. those (map f xs) = Some ys \<and> (\<forall>y \<in> set ys. P y)"
  by (induction xs) fastforce+

lemma compiled_emits:
  assumes "agree (v_env (c_env c)) (v_env (c_env c))" "intact (c_env c)"
    "compileExpression c e = Some a" "emits c a" "lit_ok a" "wf_expr e"
  shows "\<exists>cd. emitExpr c a used = Some cd"
  by (rule emitExpr_total [OF compile_both_good [OF assms(1,2,2,3,6)] assms(4)]) (use assms(5) in \<open>simp add: lit_ok_def\<close>)

lemma compile_total:
  fixes c :: "'k compiler"
  assumes env: "agree (v_env (c_env c)) (v_env (c_env c))" "intact (c_env c)" "\<not> c_strict c"
  shows "wf_expr e \<Longrightarrow> \<exists>a. compileExpression c e = Some a \<and> emits c a \<and> lit_ok a"
proof (induction e)
  case (Lit v)
  then show ?case by (auto simp: emits_def literal_emitGetter_def lit_ok_def)
next
  case (Ident x)
  then show ?case using env(3) by (auto simp: compileIdentifier_def emits_def plainExpr_def identifier_emitGetter_def lit_ok_def)
next
  case (Assign x e)
  then obtain a where a: "compileExpression c e = Some a" "emits c a" "lit_ok a" by auto
  then have "\<exists>cd. emitExpr c a True = Some cd"
    using compiled_emits [OF env(1,2) a] Assign.prems by simp
  then show ?case using a env(3)
    by (auto simp: compileIdentifier_def emits_def plainExpr_def lit_ok_def assign_emitGetter_def emitVarSetter_def
        emitVarSetter1_def emitVarRef_total emitNamedOrConst_eq)
next
  case (AssignOp op x e)
  then obtain a where a: "compileExpression c e = Some a" "emits c a" by auto
  then obtain r where "ce_emitGetter a True = Some r" by (auto simp: emits_def)
  then show ?case using a env(3)
    by (auto simp: compileIdentifier_def emits_def plainExpr_def lit_ok_def assignOp_emitGetter_def identifier_emitUnary_def
        emitVarSetter1_def emitVarRef_total)
next
  case (AssignLogical op x e)
  then obtain a where a: "compileExpression c e = Some a" "emits c a" "lit_ok a" by auto
  then have "\<exists>cd. emitExpr c a True = Some cd"
    using compiled_emits [OF env(1,2) a] AssignLogical.prems by simp
  then show ?case using a env(3)
    by (auto simp: compileIdentifier_def emits_def plainExpr_def lit_ok_def assignLogical_emitGetter_def
        emitVarRef_total emitNamedOrConst_eq Let_def)
next
  case (Update inc postfix x)
  then show ?case using env(3)
    by (auto simp: compileIdentifier_def emits_def plainExpr_def lit_ok_def update_emitGetter_def identifier_emitUnary_def
        emitVarSetter1_def emitVarRef_total)
next
  case (UnaryE op e)
  then obtain a where a: "compileExpression c e = Some a" "emits c a" "lit_ok a" by auto
  then have "\<exists>cd. emitExpr c a u = Some cd" for u
    using compiled_emits [OF env(1,2) a] UnaryE.prems by simp
  then have "\<exists>cd. unary_emitGetter c op a used = Some cd" for used
    using a(2) by (cases op) (fastforce simp: unary_emitGetter_def emits_def Let_def bind_eq_Some_conv)+
  then show ?case using a by (auto simp: emits_def lit_ok_def)
next
  case (BinaryE op e f)
  then obtain a b where a: "compileExpression c e = Some a" "emits c a" "lit_ok a" and b: "compileExpression c f = Some b" "emits c b" "lit_ok b"
    by auto
  have "\<exists>cd. emitExpr c a True = Some cd" "\<exists>cd. emitExpr c b True = Some cd"
    using compiled_emits [OF env(1,2) a] compiled_emits [OF env(1,2) b] BinaryE.prems by simp_all
  then show ?case using a b by (auto simp: emits_def lit_ok_def binary_emitGetter_def binary_constant_def)
next
  case (Logical op e f)
  then obtain a b where a: "compileExpression c e = Some a" "emits c a" "lit_ok a" and b: "compileExpression c f = Some b" "emits c b" "lit_ok b"
    by auto
  have g: "both_good (c_env c) c e a" "both_good (c_env c) c f b"
    using compile_both_good [OF env(1,2,2)] a b Logical.prems by auto
  have em: "\<exists>cd. emitExpr c a u = Some cd" "\<exists>cd. emitExpr c b u = Some cd" for u
    using compiled_emits [OF env(1,2) a] compiled_emits [OF env(1,2) b] Logical.prems by simp_all
  obtain k k' where k: "ce_constant a = Some k" "ce_constant b = Some k'" using a b by (auto simp: emits_def)
  have "(\<exists>cd. logical_emitGetter c op a b used = Some cd) \<and> (\<exists>k. logical_constant c op a b = Some k)" for used
  proof (cases k)
    case True
    then obtain r where "evalConst c a = Some r" "\<forall>ex. r = Inl ex \<longrightarrow> ex = TypeErr \<or> ex = RangeErr"
      using evalConst_total [OF g(1) a(2)] a(3) k by (auto simp: lit_ok_def)
    then show ?thesis using True k em(2) [of used] emitThrow_total
      by (cases r) (auto simp: logical_emitGetter_def logical_constant_def)
  next
    case False
    then show ?thesis using k em(1) [of True] em(2) [of True] by (auto simp: logical_emitGetter_def logical_constant_def)
  qed
  then show ?case using a b by (auto simp: emits_def lit_ok_def)
next
  case (Conditional e f g)
  then obtain x y z where x: "compileExpression c e = Some x" "emits c x" "compileExpression c f = Some y" "emits c y"
    "compileExpression c g = Some z" "emits c z" by auto
  have "\<exists>cd. conditional_emitGetter x y z used = Some cd" for used
    using emitsD [OF x(2), of True] emitsD [OF x(4), of used] emitsD [OF x(6), of used] by (auto simp: conditional_emitGetter_def)
  then show ?case using x by (auto simp: emits_def lit_ok_def plainExpr_def)
next
  case (Sequence es)
  have "\<exists>as. those (map (compileExpression c) es) = Some as \<and> (\<forall>a \<in> set as. emits c a)"
    using Sequence by (intro those_total) (auto simp: list_all_iff)
  then obtain as where as: "those (map (compileExpression c) es) = Some as" "\<And>used. \<exists>cd. sequence_emitGetter as used = Some cd"
    using sequence_total by blast
  then show ?case by (auto simp: emits_def lit_ok_def plainExpr_def)
qed

section \<open>An example environment\<close>

text \<open>The world is a list of variables; the global constructors are two objects.\<close>

definition demo_env :: "val list venv" where
  "demo_env =
     \<lparr>v_env = \<lparr>e_getStr = (\<lambda>_ _. ret None), e_getSym = (\<lambda>_ _. ret None), e_callable = (\<lambda>_. False), e_call = (\<lambda>_ _ _. ret VUndef),
               e_strToNumber = (\<lambda>s. if s = ascii ''5'' then VInt 5 else VFloat f64_nan), e_strToBigInt = (\<lambda>_. None),
               e_floatToStr = (\<lambda>_. []), e_pow = (\<lambda>_ _. f64_nan)\<rparr>,
      v_load = (\<lambda>n _ w.
        if n = ascii ''TypeError'' then (Inr (Some (VObj 1)), w)
        else if n = ascii ''RangeError'' then (Inr (Some (VObj 2)), w)
        else if n = ascii ''x'' then (Inr (Some (w ! 0)), w) else (Inr None, w)),
      v_resolve = (\<lambda>n _. ret 0), v_get = (\<lambda>r w. (Inr (w ! r), w)), v_put = (\<lambda>r v w. (Inr (), w[r := v])),
      v_construct = (\<lambda>f _. ret (if f = VObj 1 then VObj 11 else VObj 12)),
      v_value = (\<lambda>e. case e of TypeErr \<Rightarrow> VObj 11 | RangeErr \<Rightarrow> VObj 12 | Thrown v \<Rightarrow> v | _ \<Rightarrow> VObj 13),
      v_exn = (\<lambda>v. if v = VObj 11 then TypeErr else if v = VObj 12 then RangeErr else Thrown v)\<rparr>"

definition demo_compiler :: "val list compiler" where
  "demo_compiler = \<lparr>c_env = demo_env, c_world = [VUndef], c_strict = False, c_message = (\<lambda>_. None)\<rparr>"

lemma length_ascii: "length (ascii s) = length s"
  by (simp add: ascii_def)

lemma ascii_differ: "length s \<noteq> length t \<Longrightarrow> ascii s \<noteq> ascii t"
  using length_ascii by metis

lemma ascii_names: "ascii ''TypeError'' \<noteq> ascii ''RangeError''" "ascii ''TypeError'' \<noteq> ascii ''x''" "ascii ''RangeError'' \<noteq> ascii ''x''"
  by (rule ascii_differ, simp)+

lemma demo_load:
  "v_load demo_env (ascii ''TypeError'') b w = (Inr (Some (VObj 1)), w)"
  "v_load demo_env (ascii ''RangeError'') b w = (Inr (Some (VObj 2)), w)"
  "v_load demo_env (ascii ''x'') b w = (Inr (Some (w ! 0)), w)"
  using ascii_names by (simp_all add: demo_env_def)

lemma demo_new:
  "v_construct demo_env (VObj 1) as = ret (VObj 11)" "v_construct demo_env (VObj 2) as = ret (VObj 12)"
  "v_exn demo_env (VObj 11) = TypeErr" "v_exn demo_env (VObj 12) = RangeErr"
  by (simp_all add: demo_env_def)

lemma demo_ok: "agree (v_env demo_env) (v_env (c_env demo_compiler))" "intact demo_env" "intact (c_env demo_compiler)"
proof -
  show "intact demo_env" unfolding intact_def using demo_load(1,2) demo_new by auto
  then show "intact (c_env demo_compiler)" by (simp add: demo_compiler_def)
  show "agree (v_env demo_env) (v_env (c_env demo_compiler))"
    by (simp add: agree_def demo_compiler_def demo_env_def)
qed

section \<open>Properties\<close>

text \<open>
  (C7) The code of a well-formed expression computes what the expression means in the language, in an environment where \<^verbatim>\<open>TypeError\<close> and
  \<^verbatim>\<open>RangeError\<close> are bound to the built-in constructors and as long as a \<^verbatim>\<open>++\<close> or \<^verbatim>\<open>--\<close> whose value is dropped is applied to
  numbers: placed anywhere in a program, it ends behind its last instruction with the value pushed (when it is used) and nothing else
  changed but the world, or it throws what the expression throws, leaving the machine as it was but for additions to the two stacks.
\<close>

theorem expression_code_correct:
  assumes "agree (v_env E) (v_env (c_env c))" "intact E" "intact (c_env c)"
    and "wf_expr e" "compileExpression c e = Some a" "emitExpr c a used = Some cd"
    and "prg s = pre @ cd @ post" "pc s = int (length pre)" "numbers E (c_strict c) used e (world s)"
  shows "case eval E (c_strict c) e (world s) of
      (Inr v, w) \<Rightarrow> reach E s (s\<lparr>pc := int (length pre + length cd), stack := (if used then v # stack s else stack s), world := w\<rparr>)
    | (Inl ex, w) \<Rightarrow> \<exists>t q xs ys. reach E s t \<and>
        exec E (prg t ! nat (pc t)) t =
          Raise ex (s\<lparr>pc := q, stack := xs @ stack s, refStack := ys @ refStack s, world := w\<rparr>)"
proof -
  have "good E c e a" using compile_both_good [OF assms(1-3,5,4)] by (simp add: both_good_def)
  then have "gets E cd used (evalc E (c_strict c) used e)" by (rule emitExpr_gets [OF assms(2) _ assms(6)])
  moreover have "s = cfg s (int (length pre)) ([] @ stack s) ([] @ refStack s) (world s)"
    using cfg_self [of s] assms(8) by simp
  ultimately   have *: "ends E s s (int (length pre + length cd)) (stack s) (refStack s)
      (bindM (evalc E (c_strict c) used e) (\<lambda>v. ret (push used v [], [])) (world s))"
    using runsD [OF getsD assms(7)] by metis
  show ?thesis
  proof (cases "evalc E (c_strict c) used e (world s)")
    case (Pair r w)
    then show ?thesis
      using * evalc_eval(1) [OF assms(9)] by (cases r) (auto simp: bindM_def ret_def raises_def cfg_def push_def)
  qed
qed

theorem expression_code_correct_witness:
  "\<exists>a cd. compileExpression demo_compiler (BinaryE OpAdd (Ident (ascii ''x'')) (Lit (VInt 1))) = Some a \<and>
     emitExpr demo_compiler a True = Some cd \<and>
     (let s = \<lparr>prg = cd, pc = 0, stack = [], sb = 0, args = 0, stash = 0, refStack = [], tryStack = [], callStack = [],
               result = VUndef, world = [VInt 2]\<rparr>
      in reach demo_env s (s\<lparr>pc := int (length cd), stack := [VInt 3], world := [VInt 2]\<rparr>))"
proof -
  let ?e = "BinaryE OpAdd (Ident (ascii ''x'')) (Lit (VInt 1))"
  obtain a where a: "compileExpression demo_compiler ?e = Some a" by (simp add: demo_compiler_def compileIdentifier_def)
  obtain cd where cd: "emitExpr demo_compiler a True = Some cd"
    using a by (auto simp: demo_compiler_def compileIdentifier_def emitExpr_def binary_constant_def plainExpr_def
        binary_emitGetter_def identifier_emitGetter_def emitConst_def evalConst_def)
  let ?s = "\<lparr>prg = cd, pc = 0, stack = [], sb = 0, args = 0, stash = 0, refStack = [], tryStack = [], callStack = [],
               result = VUndef, world = [VInt 2]\<rparr>"
  have s: "prg ?s = [] @ cd @ []" "pc ?s = int (length [])" by simp_all
  have "add_exec (v_env demo_env) (VInt 2) (VInt 1) = ret (VInt 3)"
    by (simp add: add_exec_def toPrimitive_def add_numbers_def intToValue_def wrap_s_def maxInt_def)
  then have "eval demo_env (c_strict demo_compiler) ?e (world ?s) = (Inr (VInt 3), [VInt 2])"
    using demo_load(3) by (simp add: bindM_def ret_def)
  then have "reach demo_env ?s (?s\<lparr>pc := int (length cd), stack := [VInt 3], world := [VInt 2]\<rparr>)"
    using expression_code_correct [OF demo_ok _ a cd s no_update_numbers(1)] by simp
  then show ?thesis using a cd by auto
qed

text \<open>
  (C8) Constant folding: whenever the compiler takes an expression for a constant, the value or exception it finds by
  running its own machine is what the expression has in every world of the running program, and evaluating it
  there has no effect.
\<close>

theorem constant_folding_correct:
  assumes "agree (v_env E) (v_env (c_env c))" "intact E" "intact (c_env c)"
    and "wf_expr e" "compileExpression c e = Some a" "ce_constant a = Some True" "evalConst c a = Some r"
  shows "eval E (c_strict c) e w = (r, w)"
proof -
  have G: "good E c e a" using compile_both_good [OF assms(1-3,5,4)] by (simp add: both_good_def)
  have "evalc E (c_strict c) True e = Pair r" "\<not> has_update e"
    using goodD(2,3) [OF G assms(6,7)] closed_no_update [OF _ assms(4)] by blast+
  then show ?thesis using evalc_eval(1) [OF no_update_numbers(1)] by metis
qed

theorem constant_folding_correct_witness:
  "\<exists>a. compileExpression demo_compiler (BinaryE OpAdd (Lit (VInt 1)) (Lit (VInt 2))) = Some a \<and>
     evalConst demo_compiler a = Some (Inr (VInt 3))"
proof -
  let ?e = "BinaryE OpAdd (Lit (VInt 1)) (Lit (VInt 2))"
  have ok: "agree (v_env (c_env demo_compiler)) (v_env (c_env demo_compiler))" "\<not> c_strict demo_compiler"
    using demo_ok by (simp_all add: demo_compiler_def)
  obtain a where a: "compileExpression demo_compiler ?e = Some a" "emits demo_compiler a" "lit_ok a"
    using compile_total [OF ok(1) demo_ok(3) ok(2), of ?e] by auto
  have k: "ce_constant a = Some True" using a(1) by (auto simp: binary_constant_def)
  obtain r where r: "evalConst demo_compiler a = Some r"
    using evalConst_total [OF compile_both_good [OF demo_ok a(1)] a(2) k] a(3) by (auto simp: lit_ok_def)
  have "add_exec (v_env demo_env) (VInt 1) (VInt 2) = ret (VInt 3)"
    by (simp add: add_exec_def toPrimitive_def add_numbers_def intToValue_def wrap_s_def maxInt_def)
  then have "eval demo_env (c_strict demo_compiler) ?e [] = (Inr (VInt 3), [])"
    by (simp add: ret_def)
  then have "r = Inr (VInt 3)"
    using constant_folding_correct [OF demo_ok _ a(1) k r, of "[]"] by simp
  then show ?thesis using a(1) r by simp
qed

text \<open>
  (C9) The compiler succeeds: in sloppy mode every well-formed expression compiles and its code is emitted, whether its
  value is used or not; the evaluation of its constants ends, and what they throw can be rebuilt.
\<close>

theorem expression_compilation_total:
  assumes "agree (v_env (c_env c)) (v_env (c_env c))" "intact (c_env c)" "\<not> c_strict c" "wf_expr e"
  shows "\<exists>a. compileExpression c e = Some a \<and> (\<forall>used. \<exists>cd. emitExpr c a used = Some cd)"
  using compile_total [OF assms] compiled_emits [OF assms(1,2) _ _ _ assms(4)] by blast

theorem expression_compilation_total_witness:
  "\<exists>a. compileExpression demo_compiler (BinaryE OpAdd (Lit (VBigInt 1)) (Lit (VInt 1))) = Some a \<and>
     (\<forall>used. \<exists>cd. emitExpr demo_compiler a used = Some cd)"
proof (rule expression_compilation_total)
  show "agree (v_env (c_env demo_compiler)) (v_env (c_env demo_compiler))" "intact (c_env demo_compiler)" "\<not> c_strict demo_compiler"
    using demo_ok by (simp_all add: demo_compiler_def)
qed simp

text \<open>
  A defect: when the value of \<^verbatim>\<open>x++\<close> is not used, the operand is not converted to a numeric value first, and the variable is left with a
  number that is not canonical: from the string \<^verbatim>\<open>"5"\<close> it becomes the double 6 and not the integer 6, with
  which it does not share its hash, so that \<^verbatim>\<open>new Set([6]).has(x)\<close> is false. With the value used the result is the integer.
\<close>

theorem discarded_update_not_canonical:
  "evalc demo_env False False (Update True True (ascii ''x'')) [VStr (ascii ''5'')] = (Inr (VStr (ascii ''5'')), [VFloat (f64_of_int 6)]) \<and>
   eval demo_env False (Update True True (ascii ''x'')) [VStr (ascii ''5'')] = (Inr (VInt 5), [VInt 6]) \<and>
   \<not> canonical (VFloat (f64_of_int 6)) \<and> hash hs (VFloat (f64_of_int 6)) \<noteq> hash hs (VInt 6)"
proof -
  have "fadd (f64_of_int 5) (f64_of_int 1) = f64_of_int 6" using fadd_of_int [of 5 1] by (simp add: maxInt_def)
  moreover have "floatToValue (f64_of_int 6) = VInt 6" using floatToValue_of_int [of 6] by (simp add: maxInt_def)
  moreover have "f64_of_int 6 = 4618441417868443648" by code_simp
  moreover have "valueFloat_hash 4618441417868443648 \<noteq> valueInt_hash 6"
    by (simp add: valueFloat_hash_def valueInt_hash_def wrap_u_def)
  ultimately show ?thesis
    by (auto simp: demo_env_def update_code_def update_value_def step_value_def bindM_def ret_def inc_exec_def ToFloat_def toPrimitiveNumber_def
        toNumeric_def intToValue_def wrap_s_def maxInt_def)
qed

end
