(* ===== verification/Compiler_Layout.thy ===== *)
theory Compiler_Layout
  imports Compiler_Expr
begin

text \<open>
  The layout of compiled statements. \<open>coded\<close> says where in a finished program the parts of a statement stand and where its
  jumps lead, with the targets of the enclosing blocks known in advance. The second part is about the state of the compiler, which
  emits holes and patches them when it leaves a block: how it grows, and when a finished program has the code of such a state.
\<close>

section \<open>The layout\<close>

record target =
  t_typ :: blockType
  t_label :: "vname option"
  t_brk :: nat
  t_cont :: nat

definition instr_at :: "code \<Rightarrow> nat \<Rightarrow> instr \<Rightarrow> bool" where
  "instr_at P p i \<longleftrightarrow> p < length P \<and> P ! p = i"

definition seg :: "code \<Rightarrow> nat \<Rightarrow> code \<Rightarrow> nat \<Rightarrow> bool" where
  "seg P p is q \<longleftrightarrow> (\<exists>pre post. P = pre @ is @ post \<and> length pre = p \<and> q = p + length is)"

text \<open>A block is the target of a branch.\<close>

definition hits :: "target \<Rightarrow> vname option \<Rightarrow> bool" where
  "hits t l \<longleftrightarrow> (case l of None \<Rightarrow> t_typ t = BlockLoop | Some n \<Rightarrow> t_label t = Some n)"

definition goal :: "bool \<Rightarrow> target \<Rightarrow> nat" where
  "goal isBreak t = (if isBreak then t_brk t else t_cont t)"

text \<open>The code of a branch and of a return, from the innermost block outwards.\<close>

fun exit_at :: "code \<Rightarrow> target list \<Rightarrow> bool \<Rightarrow> vname option \<Rightarrow> nat \<Rightarrow> bool" where
  "exit_at P [] isBreak l q = False"
| "exit_at P (t # T) isBreak l q =
     (if hits t l then (isBreak \<or> t_typ t = BlockLoop) \<and> instr_at P q (Jump (int (goal isBreak t) - int q))
      else if t_typ t = BlockTry then instr_at P q LeaveTry \<and> exit_at P T isBreak l (q + 1)
      else exit_at P T isBreak l q)"

fun ret_at :: "code \<Rightarrow> target list \<Rightarrow> nat \<Rightarrow> bool" where
  "ret_at P [] q = instr_at P q Ret"
| "ret_at P (t # T) q =
     (if t_typ t = BlockTry then
        instr_at P q SaveResult \<and> instr_at P (q + 1) LeaveTry \<and> instr_at P (q + 2) LoadResult \<and> ret_at P T (q + 3)
      else ret_at P T q)"

definition loop_target :: "vname option \<Rightarrow> nat \<Rightarrow> nat \<Rightarrow> target" where
  "loop_target label brk cont = \<lparr>t_typ = BlockLoop, t_label = label, t_brk = brk, t_cont = cont\<rparr>"

definition try_target :: target where
  "try_target = \<lparr>t_typ = BlockTry, t_label = None, t_brk = 0, t_cont = 0\<rparr>"

definition label_target :: "vname \<Rightarrow> nat \<Rightarrow> target" where
  "label_target l brk = \<lparr>t_typ = BlockLabel, t_label = Some l, t_brk = brk, t_cont = 0\<rparr>"

text \<open>The code of an expression, of an optional one, a constant test and the code of a constant's exception.\<close>

definition ecode :: "'k compiler \<Rightarrow> code \<Rightarrow> nat \<Rightarrow> expr \<Rightarrow> bool \<Rightarrow> nat \<Rightarrow> bool" where
  "ecode c P p e used q \<longleftrightarrow> wf_expr e \<and>
     (\<exists>a is. compileExpression c e = Some a \<and> (emitExpr c a used = Some is \<or> ce_emitGetter a used = Some is) \<and> seg P p is q)"

definition ocode :: "'k compiler \<Rightarrow> code \<Rightarrow> nat \<Rightarrow> expr option \<Rightarrow> nat \<Rightarrow> bool" where
  "ocode c P p e q \<longleftrightarrow> (case e of None \<Rightarrow> q = p | Some e \<Rightarrow> ecode c P p e False q)"

definition ctest :: "'k compiler \<Rightarrow> expr \<Rightarrow> jserr + val \<Rightarrow> bool" where
  "ctest c e r \<longleftrightarrow> wf_expr e \<and>
     (\<exists>a. compileExpression c e = Some a \<and> ce_constant a = Some True \<and> evalConst c a = Some r)"

definition tcode :: "'k compiler \<Rightarrow> code \<Rightarrow> nat \<Rightarrow> jserr \<Rightarrow> nat \<Rightarrow> bool" where
  "tcode c P p ex q \<longleftrightarrow> (\<exists>is. emitThrow c ex = Some is \<and> seg P p is q)"

inductive coded :: "'k compiler \<Rightarrow> code \<Rightarrow> target list \<Rightarrow> vname option \<Rightarrow> nat \<Rightarrow> stmt \<Rightarrow> nat \<Rightarrow> bool"
  and codeds :: "'k compiler \<Rightarrow> code \<Rightarrow> target list \<Rightarrow> nat \<Rightarrow> stmt list \<Rightarrow> nat \<Rightarrow> bool"
  and coded_iter :: "'k compiler \<Rightarrow> code \<Rightarrow> target list \<Rightarrow> nat \<Rightarrow> expr option \<Rightarrow> expr option \<Rightarrow> stmt \<Rightarrow> nat \<Rightarrow> nat \<Rightarrow> bool"
  for c :: "'k compiler" and P :: code where
  coded_block: "codeds c P T p ss q \<Longrightarrow> coded c P T label p (BlockS ss) q"
| coded_expr: "ecode c P p e False q \<Longrightarrow> coded c P T label p (ExprS e) q"
| coded_empty: "coded c P T label p EmptyS p"
| coded_if_throw: "ctest c t (Inl ex) \<Longrightarrow> tcode c P p ex q \<Longrightarrow> coded c P T label p (IfS t a b) q"
| coded_if_true: "ctest c t (Inr v) \<Longrightarrow> ToBoolean v \<Longrightarrow> coded c P T None p a q \<Longrightarrow> coded c P T label p (IfS t a b) q"
| coded_if_false: "ctest c t (Inr v) \<Longrightarrow> \<not> ToBoolean v \<Longrightarrow> coded c P T None p b q \<Longrightarrow> coded c P T label p (IfS t a (Some b)) q"
| coded_if_skip: "ctest c t (Inr v) \<Longrightarrow> \<not> ToBoolean v \<Longrightarrow> coded c P T label p (IfS t a None) p"
| coded_if_else: "ecode c P p t True j \<Longrightarrow> instr_at P j (JneP (int m + 1 - int j)) \<Longrightarrow> coded c P T None (j + 1) a m \<Longrightarrow>
    instr_at P m (Jump (int q - int m)) \<Longrightarrow> coded c P T None (m + 1) b q \<Longrightarrow> coded c P T label p (IfS t a (Some b)) q"
| coded_if_then: "ecode c P p t True j \<Longrightarrow> instr_at P j (JneP (int q - int j)) \<Longrightarrow> coded c P T None (j + 1) a q \<Longrightarrow>
    coded c P T label p (IfS t a None) q"
| coded_while_throw: "ctest c t (Inl ex) \<Longrightarrow> tcode c P p ex q \<Longrightarrow> coded c P T label p (WhileS t body) q"
| coded_while_skip: "ctest c t (Inr v) \<Longrightarrow> \<not> ToBoolean v \<Longrightarrow> coded c P T label p (WhileS t body) p"
| coded_while: "coded_iter c P (loop_target label q p # T) p (Some t) None body m q \<Longrightarrow> coded c P T label p (WhileS t body) q"
| coded_do: "coded c P (loop_target label q m # T) None p body m \<Longrightarrow> ecode c P m t True j \<Longrightarrow> instr_at P j (JeqP (int p - int j)) \<Longrightarrow>
    q = j + 1 \<Longrightarrow> coded c P T label p (DoWhileS body t) q"
| coded_for_throw: "ocode c P p init p1 \<Longrightarrow> ctest c t (Inl ex) \<Longrightarrow> tcode c P p1 ex q \<Longrightarrow>
    coded c P T label p (ForS init (Some t) update body) q"
| coded_for_skip: "ocode c P p init q \<Longrightarrow> ctest c t (Inr v) \<Longrightarrow> \<not> ToBoolean v \<Longrightarrow>
    coded c P T label p (ForS init (Some t) update body) q"
| coded_for: "ocode c P p init p1 \<Longrightarrow> coded_iter c P (loop_target label q m # T) p1 test update body m q \<Longrightarrow>
    coded c P T label p (ForS init test update body) q"
| coded_branch: "exit_at P T isBreak l p \<Longrightarrow> coded c P T label p (BranchS isBreak l) q"
| coded_return_none: "instr_at P p LoadUndef \<Longrightarrow> ret_at P T (p + 1) \<Longrightarrow> coded c P T label p (ReturnS None) q"
| coded_return: "ecode c P p e True p1 \<Longrightarrow> ret_at P T p1 \<Longrightarrow> coded c P T label p (ReturnS (Some e)) q"
| coded_throw: "ecode c P p e True p1 \<Longrightarrow> instr_at P p1 Throw \<Longrightarrow> coded c P T label p (ThrowS e) q"
| coded_try: "instr_at P p (Try co fo) \<Longrightarrow> codeds c P (try_target # T) (p + 1) body m \<Longrightarrow>
    (case catch of
       None \<Rightarrow> m' = m \<and> co = 0
     | Some ss \<Rightarrow> instr_at P m (Jump (int m' - int m)) \<and> co = int m + 1 - int p \<and> instr_at P (m + 1) Pop) \<Longrightarrow>
    (\<And>ss. catch = Some ss \<Longrightarrow> codeds c P (try_target # T) (m + 2) ss m') \<Longrightarrow>
    (case finally of
       None \<Rightarrow> instr_at P m' LeaveTry \<and> q = m' + 1 \<and> fo = 0
     | Some ss \<Rightarrow> instr_at P m' EnterFinally \<and> fo = int m' + 1 - int p \<and> instr_at P r LeaveFinally \<and> q = r + 1) \<Longrightarrow>
    (\<And>ss. finally = Some ss \<Longrightarrow> codeds c P (try_target # T) (m' + 1) ss r) \<Longrightarrow>
    m \<le> m' \<Longrightarrow> p < m \<Longrightarrow>
    coded c P T label p (TryS body catch finally) q"
| coded_label_loop: "is_loop s \<Longrightarrow> coded c P T (Some l) p s q \<Longrightarrow> coded c P T label p (LabelledS l s) q"
| coded_label: "\<not> is_loop s \<Longrightarrow> coded c P (label_target l q # T) None p s q \<Longrightarrow> coded c P T label p (LabelledS l s) q"
| codeds_nil: "codeds c P T p [] p"
| codeds_cons: "coded c P T None p s m \<Longrightarrow> codeds c P T m ss q \<Longrightarrow> codeds c P T p (s # ss) q"
| coded_iter_const: "test = None \<or> (\<exists>t v. test = Some t \<and> ctest c t (Inr v) \<and> ToBoolean v) \<Longrightarrow>
    coded c P T None p body m \<Longrightarrow> ocode c P m update j \<Longrightarrow> instr_at P j (Jump (int p - int j)) \<Longrightarrow> q = j + 1 \<Longrightarrow>
    coded_iter c P T p test update body m q"
| coded_iter_test: "ecode c P p t True j \<Longrightarrow> instr_at P j (JneP (int q - int j)) \<Longrightarrow> coded c P T None (j + 1) body m \<Longrightarrow>
    ocode c P m update r \<Longrightarrow> instr_at P r (Jump (int p - int r)) \<Longrightarrow> q = r + 1 \<Longrightarrow>
    coded_iter c P T p (Some t) update body m q"

section \<open>Programs the theorems are about\<close>

text \<open>
  Branches in code that is never reached are compiled against the real outer blocks and may end up patched
  into reachable code; a branch directly in a \<^verbatim>\<open>finally\<close> block redirects other branches of that block; a \<^verbatim>\<open>return\<close> inside a nested
  \<^verbatim>\<open>try\<close> of a \<^verbatim>\<open>finally\<close> block overwrites the saved result (the findings of the theory \<^verbatim>\<open>Compiler_Stmt\<close>). \<open>tidy\<close> excludes these
  three, and what the parser excludes.
\<close>

fun has_return :: "stmt \<Rightarrow> bool" where
  "has_return (BlockS ss) = list_ex has_return ss"
| "has_return (IfS _ a b) = (has_return a \<or> (case b of None \<Rightarrow> False | Some s \<Rightarrow> has_return s))"
| "has_return (WhileS _ s) = has_return s"
| "has_return (DoWhileS s _) = has_return s"
| "has_return (ForS _ _ _ s) = has_return s"
| "has_return (ReturnS _) = True"
| "has_return (TryS b h f) = (list_ex has_return b \<or> (case h of None \<Rightarrow> False | Some ss \<Rightarrow> list_ex has_return ss) \<or>
     (case f of None \<Rightarrow> False | Some ss \<Rightarrow> list_ex has_return ss))"
| "has_return (LabelledS _ s) = has_return s"
| "has_return _ = False"

text \<open>No \<^verbatim>\<open>return\<close> inside a \<^verbatim>\<open>try\<close> statement.\<close>

fun quiet :: "stmt \<Rightarrow> bool" where
  "quiet (BlockS ss) = list_all quiet ss"
| "quiet (IfS _ a b) = (quiet a \<and> (case b of None \<Rightarrow> True | Some s \<Rightarrow> quiet s))"
| "quiet (WhileS _ s) = quiet s"
| "quiet (DoWhileS s _) = quiet s"
| "quiet (ForS _ _ _ s) = quiet s"
| "quiet (TryS b h f) = (\<not> has_return (TryS b h f))"
| "quiet (LabelledS _ s) = quiet s"
| "quiet _ = True"

text \<open>The branches of a statement that leave it lead to one of the labels \<open>ls\<close> or, if \<open>lp\<close>, to a loop.\<close>

fun confined :: "vname list \<Rightarrow> bool \<Rightarrow> stmt \<Rightarrow> bool" where
  "confined ls lp (BlockS ss) = list_all (confined ls lp) ss"
| "confined ls lp (IfS _ a b) = (confined ls lp a \<and> (case b of None \<Rightarrow> True | Some s \<Rightarrow> confined ls lp s))"
| "confined ls lp (WhileS _ s) = confined ls True s"
| "confined ls lp (DoWhileS s _) = confined ls True s"
| "confined ls lp (ForS _ _ _ s) = confined ls True s"
| "confined ls lp (BranchS _ l) = (case l of None \<Rightarrow> lp | Some n \<Rightarrow> n \<in> set ls)"
| "confined ls lp (TryS b h f) = (list_all (confined ls lp) b \<and> (case h of None \<Rightarrow> True | Some ss \<Rightarrow> list_all (confined ls lp) ss) \<and>
     (case f of None \<Rightarrow> True | Some ss \<Rightarrow> list_all (confined ls lp) ss))"
| "confined ls lp (LabelledS l s) = confined (l # ls) lp s"
| "confined ls lp _ = True"

definition test_value :: "'k compiler \<Rightarrow> expr \<Rightarrow> (jserr + val) option" where
  "test_value c e = Option.bind (Option.bind (compileExpression c e) (constTest c)) (\<lambda>k. k)"

definition dead :: "'k compiler \<Rightarrow> expr \<Rightarrow> bool \<Rightarrow> bool" where
  "dead c e b \<longleftrightarrow> (\<exists>v. test_value c e = Some (Inr v) \<and> ToBoolean v = b)"

fun tidy :: "'k compiler \<Rightarrow> stmt \<Rightarrow> bool" where
  "tidy c (BlockS ss) = list_all (tidy c) ss"
| "tidy c (ExprS e) = wf_expr e"
| "tidy c EmptyS = True"
| "tidy c (IfS t a b) = (wf_expr t \<and> tidy c a \<and> (dead c t False \<longrightarrow> confined [] False a) \<and>
     (case b of None \<Rightarrow> True | Some s \<Rightarrow> tidy c s \<and> (dead c t True \<longrightarrow> confined [] False s)))"
| "tidy c (WhileS t s) = (wf_expr t \<and> tidy c s \<and> (dead c t False \<longrightarrow> confined [] True s))"
| "tidy c (DoWhileS s t) = (wf_expr t \<and> tidy c s)"
| "tidy c (ForS i t u s) = (pred_option wf_expr i \<and> pred_option wf_expr t \<and> pred_option wf_expr u \<and> tidy c s \<and>
     (case t of None \<Rightarrow> True | Some e \<Rightarrow> dead c e False \<longrightarrow> confined [] True s))"
| "tidy c (BranchS _ _) = True"
| "tidy c (ReturnS e) = pred_option wf_expr e"
| "tidy c (ThrowS e) = wf_expr e"
| "tidy c (TryS b h f) = (list_all (tidy c) b \<and> (h \<noteq> None \<or> f \<noteq> None) \<and>
     (case h of None \<Rightarrow> True | Some ss \<Rightarrow> list_all (tidy c) ss) \<and>
     (case f of None \<Rightarrow> True | Some ss \<Rightarrow> list_all (tidy c) ss \<and> list_all quiet ss \<and> \<not> list_ex is_branch ss))"
| "tidy c (LabelledS _ s) = tidy c s"

section \<open>What compilation does to the state of the compiler\<close>

definition shape :: "block \<Rightarrow> blockType \<times> vname option \<times> nat option \<times> bool" where
  "shape b = (b_typ b, b_label b, b_breaking b, b_needResult b)"

definition plain :: "block list \<Rightarrow> bool" where
  "plain bs \<longleftrightarrow> (\<forall>b \<in> set bs. b_breaking b = None \<and> \<not> b_needResult b \<and> (b_typ b = BlockTry \<longrightarrow> b_label b = None))"

definition hole_list :: "block list \<Rightarrow> nat list" where
  "hole_list bs = concat (map (\<lambda>b. b_breaks b @ b_conts b) bs)"

text \<open>The holes are distinct positions of the code.\<close>

definition holes_ok :: "cstate \<Rightarrow> bool" where
  "holes_ok cs \<longleftrightarrow> distinct (hole_list (blocks cs)) \<and> (\<forall>i \<in> set (hole_list (blocks cs)). i < here cs)"

definition grows :: "nat \<Rightarrow> nat \<Rightarrow> block \<Rightarrow> block \<Rightarrow> bool" where
  "grows lo hi b b' \<longleftrightarrow> shape b' = shape b \<and> b_cont b' = b_cont b \<and>
     (\<exists>nb nc. b_breaks b' = b_breaks b @ nb \<and> b_conts b' = b_conts b @ nc \<and> set nb \<union> set nc \<subseteq> {lo..<hi} \<and>
        (b_typ b \<noteq> BlockLoop \<longrightarrow> nc = []) \<and> (b_typ b = BlockTry \<longrightarrow> nb = []))"

definition extends :: "cstate \<Rightarrow> cstate \<Rightarrow> bool" where
  "extends cs cs' \<longleftrightarrow> (\<exists>is. code cs' = code cs @ is) \<and> list_all2 (grows (here cs) (here cs')) (blocks cs) (blocks cs')"

text \<open>
  The program \<open>P\<close> has the code of \<open>cs\<close> from \<open>lo\<close> on, with the holes filled by jumps to the targets \<open>T\<close>.
\<close>

definition matches :: "target list \<Rightarrow> block list \<Rightarrow> bool" where
  "matches T bs \<longleftrightarrow> list_all2 (\<lambda>t b. t_typ t = b_typ b \<and> t_label t = b_label b) T bs"

definition filled :: "code \<Rightarrow> nat \<Rightarrow> target \<Rightarrow> block \<Rightarrow> bool" where
  "filled P lo t b \<longleftrightarrow>
     (\<forall>i \<in> set (b_breaks b). lo \<le> i \<longrightarrow> P ! i = Jump (int (t_brk t) - int i)) \<and>
     (\<forall>i \<in> set (b_conts b). lo \<le> i \<longrightarrow> P ! i = Jump (int (t_cont t) - int i))"

definition linked :: "code \<Rightarrow> target list \<Rightarrow> nat \<Rightarrow> cstate \<Rightarrow> bool" where
  "linked P T lo cs \<longleftrightarrow> here cs \<le> length P \<and> matches T (blocks cs) \<and> list_all2 (filled P lo) T (blocks cs) \<and>
     (\<forall>i. lo \<le> i \<and> i < here cs \<and> i \<notin> set (hole_list (blocks cs)) \<longrightarrow> P ! i = code cs ! i)"

subsection \<open>Basic facts\<close>

lemma here_emit [simp]: "here (emit is cs) = here cs + length is" "blocks (emit is cs) = blocks cs" "code (emit is cs) = code cs @ is"
  by (simp_all add: here_def emit_def)

lemma grows_refl: "grows lo hi b b"
  by (auto simp: grows_def intro!: exI [of _ "[]"])

lemma grows_mono: "grows lo hi b b' \<Longrightarrow> lo' \<le> lo \<Longrightarrow> hi \<le> hi' \<Longrightarrow> grows lo' hi' b b'"
  unfolding grows_def by (elim conjE exE, intro conjI, assumption, assumption) (intro exI conjI, assumption, assumption, auto)

lemma grows_trans: "grows lo hi b b' \<Longrightarrow> grows lo hi b' b'' \<Longrightarrow> grows lo hi b b''"
proof -
  assume "grows lo hi b b'" "grows lo hi b' b''"
  then obtain nb nc nb' nc' where "shape b' = shape b" "shape b'' = shape b'" "b_cont b' = b_cont b" "b_cont b'' = b_cont b'"
    "b_breaks b' = b_breaks b @ nb" "b_conts b' = b_conts b @ nc" "b_breaks b'' = b_breaks b' @ nb'" "b_conts b'' = b_conts b' @ nc'"
    "set nb \<union> set nc \<subseteq> {lo..<hi}" "set nb' \<union> set nc' \<subseteq> {lo..<hi}"
    "b_typ b \<noteq> BlockLoop \<longrightarrow> nc = []" "b_typ b = BlockTry \<longrightarrow> nb = []" "b_typ b' \<noteq> BlockLoop \<longrightarrow> nc' = []" "b_typ b' = BlockTry \<longrightarrow> nb' = []"
    unfolding grows_def by blast
  then show ?thesis
    unfolding grows_def by (intro conjI exI [of _ "nb @ nb'"] exI [of _ "nc @ nc'"]) (auto simp: shape_def)
qed

lemma grown_refl: "extends cs cs"
  by (auto simp: extends_def list_all2_refl grows_refl)

lemma extends_here: "extends cs cs' \<Longrightarrow> here cs \<le> here cs'"
  by (auto simp: extends_def here_def)

lemma grown_trans: "extends cs cs' \<Longrightarrow> extends cs' cs'' \<Longrightarrow> extends cs cs''"
proof -
  assume a: "extends cs cs'" "extends cs' cs''"
  have le: "here cs \<le> here cs'" "here cs' \<le> here cs''" using a by (auto dest: extends_here)
  have "list_all2 (grows (here cs) (here cs'')) (blocks cs) (blocks cs')"
    "list_all2 (grows (here cs) (here cs'')) (blocks cs') (blocks cs'')"
    using a le by (auto simp: extends_def elim!: list_all2_mono intro: grows_mono)
  then have "list_all2 (grows (here cs) (here cs'')) (blocks cs) (blocks cs'')"
    by (rule list_all2_trans [rotated 1]) (rule grows_trans)
  then show ?thesis using a by (auto simp: extends_def)
qed

lemma extends_emit: "extends cs (emit is cs)"
  by (auto simp: extends_def list_all2_refl grows_refl)

lemma holes_ok_emit: "holes_ok cs \<Longrightarrow> holes_ok (emit is cs)"
  by (auto simp: holes_ok_def)

lemma extends_shape: "extends cs cs' \<Longrightarrow> map shape (blocks cs') = map shape (blocks cs)"
  by (auto simp: extends_def list_all2_conv_all_nth grows_def intro!: nth_equalityI)

lemma shape_plain: "map shape bs' = map shape bs \<Longrightarrow> plain bs' \<longleftrightarrow> plain bs"
proof -
  have *: "plain bs \<longleftrightarrow> list_all (\<lambda>(t, l, k, n). k = None \<and> \<not> n \<and> (t = BlockTry \<longrightarrow> l = None)) (map shape bs)" for bs
    by (auto simp: plain_def shape_def list_all_iff)
  show "map shape bs' = map shape bs \<Longrightarrow> plain bs' \<longleftrightarrow> plain bs" by (simp only: *)
qed

lemma set_hole_list: "i \<in> set (hole_list bs) \<longleftrightarrow> (\<exists>b \<in> set bs. i \<in> set (b_breaks b) \<or> i \<in> set (b_conts b))"
  by (auto simp: hole_list_def)

lemma extends_holes:
  assumes "extends cs cs'" "i \<in> set (hole_list (blocks cs'))" "i < here cs"
  shows "i \<in> set (hole_list (blocks cs))"
proof -
  obtain k where k: "k < length (blocks cs')" "i \<in> set (b_breaks (blocks cs' ! k)) \<or> i \<in> set (b_conts (blocks cs' ! k))"
    using assms(2) unfolding set_hole_list by (metis in_set_conv_nth)
  then have "grows (here cs) (here cs') (blocks cs ! k) (blocks cs' ! k)" "k < length (blocks cs)"
    using assms(1) by (auto simp: extends_def list_all2_conv_all_nth)
  then have "i \<in> set (b_breaks (blocks cs ! k)) \<or> i \<in> set (b_conts (blocks cs ! k))"
    using k(2) assms(3) by (auto simp: grows_def)
  then show ?thesis using \<open>k < length (blocks cs)\<close> by (auto simp: set_hole_list)
qed

lemma grows_filled: "grows lo' hi b b' \<Longrightarrow> filled P lo t b' \<Longrightarrow> filled P lo t b"
  by (auto simp: grows_def filled_def)

lemma linked_extends:
  assumes "extends cs cs'" "linked P T lo cs'"
  shows "linked P T lo cs"
proof -
  have "matches T (blocks cs)"
    using assms unfolding linked_def extends_def matches_def list_all2_conv_all_nth by (auto simp: grows_def shape_def)
  moreover have "list_all2 (filled P lo) T (blocks cs)"
    using assms unfolding linked_def extends_def list_all2_conv_all_nth by (metis grows_filled)
  moreover have "P ! i = code cs ! i" if "lo \<le> i" "i < here cs" "i \<notin> set (hole_list (blocks cs))" for i
  proof -
    have "i \<notin> set (hole_list (blocks cs'))" using extends_holes [OF assms(1)] that by blast
    moreover have "i < here cs'" using that extends_here [OF assms(1)] by simp
    ultimately have "P ! i = code cs' ! i" using assms(2) that(1) by (simp add: linked_def)
    then show ?thesis using assms(1) that(2) by (auto simp: extends_def nth_append here_def)
  qed
  ultimately show ?thesis using assms extends_here [OF assms(1)] by (auto simp: linked_def)
qed

lemma linked_mono: "linked P T lo cs \<Longrightarrow> lo \<le> lo' \<Longrightarrow> linked P T lo' cs"
  unfolding linked_def by (auto elim!: list_all2_mono simp: filled_def)

lemma seg_nth:
  assumes "p + length is \<le> length P" "\<And>i. i < length is \<Longrightarrow> P ! (p + i) = is ! i"
  shows "seg P p is (p + length is)"
proof -
  have "take (length is) (drop p P) = is"
    using assms by (intro nth_equalityI) auto
  then have "P = take p P @ is @ drop (p + length is) P"
    by (metis add.commute append_take_drop_id drop_drop)
  then show ?thesis using assms(1) unfolding seg_def by (metis add_leD1 length_take min.absorb2)
qed

lemma linked_emit:
  assumes "holes_ok cs" "linked P T lo (emit is cs)" "lo \<le> here cs"
  shows "seg P (here cs) is (here cs + length is)"
proof (rule seg_nth)
  show "here cs + length is \<le> length P" using assms(2) by (simp add: linked_def)
  fix i assume i: "i < length is"
  have "here cs + i \<notin> set (hole_list (blocks cs))" using assms(1) by (auto simp: holes_ok_def)
  then show "P ! (here cs + i) = is ! i"
    using assms(2,3) i by (auto simp: linked_def here_def nth_append)
qed

lemma linked_emit_one: "holes_ok cs \<Longrightarrow> linked P T lo (emit [i] cs) \<Longrightarrow> lo \<le> here cs \<Longrightarrow> instr_at P (here cs) i"
  using linked_emit [of cs P T lo "[i]"] by (auto simp: seg_def instr_at_def nth_append)

subsection \<open>Patches\<close>

lemma patchAt_simps:
  assumes "patchAt j i cs = Some cs'"
  shows "j < here cs" "code cs' = (code cs)[j := i]" "blocks cs' = blocks cs" "here cs' = here cs"
  using assms by (auto simp: patchAt_def patch_def here_def bind_eq_Some_conv split: if_splits)

lemma patchAt_emit: "j < here cs \<Longrightarrow> patchAt j i (emit is cs) = map_option (emit is) (patchAt j i cs)"
  by (simp add: patchAt_def patch_def here_def emit_def list_update_append)

lemma holes_ok_patch: "patchAt j i cs = Some cs' \<Longrightarrow> holes_ok cs \<Longrightarrow> holes_ok cs'"
  using patchAt_simps by (auto simp: holes_ok_def)

lemma extends_patch: "extends cs cs1 \<Longrightarrow> here cs \<le> j \<Longrightarrow> patchAt j i cs1 = Some cs' \<Longrightarrow> extends cs cs'"
  by (auto simp: extends_def patchAt_simps list_update_append here_def [of cs])

text \<open>A hole emitted at one point and patched after the code that follows it.\<close>

lemma patch_step:
  assumes "holes_ok cs" "extends (emit [Hole] cs) cs1" "patchAt (here cs) i cs1 = Some cs'"
  shows "extends cs cs'" "linked P T lo cs' \<Longrightarrow> lo \<le> here cs \<Longrightarrow> instr_at P (here cs) i"
    "linked P T lo cs' \<Longrightarrow> lo \<le> here cs \<Longrightarrow> linked P T (here cs + 1) cs1"
proof -
  note p = patchAt_simps [OF assms(3)]
  show "extends cs cs'" using extends_patch [OF grown_trans [OF extends_emit assms(2)] _ assms(3)] by simp
  assume l: "linked P T lo cs'" "lo \<le> here cs"
  have "here cs \<notin> set (hole_list (blocks cs1))"
    using extends_holes [OF assms(2)] assms(1) by (auto simp: holes_ok_def)
  then have "P ! here cs = code cs' ! here cs" "here cs < length P" using l p by (auto simp: linked_def)
  then show "instr_at P (here cs) i" using p by (simp add: instr_at_def here_def)
  show "linked P T (here cs + 1) cs1"
    using linked_mono [OF l(1), of "here cs + 1"] l(2) p by (auto simp: linked_def)
qed

subsection \<open>Opening and leaving blocks\<close>

text \<open>\<open>cs1\<close> comes from opening the block \<open>b0\<close> in \<open>cs\<close> and compiling on.\<close>

definition opened :: "block \<Rightarrow> cstate \<Rightarrow> cstate \<Rightarrow> bool" where
  "opened b0 cs cs1 \<longleftrightarrow>
     (\<exists>b bs. blocks cs1 = b # bs \<and> extends cs (cs1\<lparr>blocks := bs\<rparr>) \<and> grows (here cs) (here cs1) b0 (b\<lparr>b_cont := b_cont b0\<rparr>))"

lemma opened_open: "opened b0 cs (openBlock b0 cs)"
  by (auto simp: opened_def openBlock_def grown_refl grows_refl)

lemma grows_cont: "grows lo hi b (b'\<lparr>b_cont := b_cont b\<rparr>) \<Longrightarrow> grows lo hi b' b'' \<Longrightarrow> grows lo hi b (b''\<lparr>b_cont := b_cont b\<rparr>)"
proof -
  assume a: "grows lo hi b (b'\<lparr>b_cont := b_cont b\<rparr>)" "grows lo hi b' b''"
  have "grows lo hi (b'\<lparr>b_cont := b_cont b\<rparr>) (b''\<lparr>b_cont := b_cont b\<rparr>)"
    using a(2) by (auto simp: grows_def shape_def)
  then show ?thesis using grows_trans [OF a(1)] by blast
qed

lemma here_blocks [simp]: "here (cs\<lparr>blocks := bs\<rparr>) = here cs"
  by (simp add: here_def)

lemma opened_extends:
  assumes "opened b0 cs cs1" "extends cs1 cs2"
  shows "opened b0 cs cs2"
proof -
  obtain b bs where b: "blocks cs1 = b # bs" "extends cs (cs1\<lparr>blocks := bs\<rparr>)" "grows (here cs) (here cs1) b0 (b\<lparr>b_cont := b_cont b0\<rparr>)"
    using assms(1) by (auto simp: opened_def)
  obtain b' bs' where b': "blocks cs2 = b' # bs'" "grows (here cs1) (here cs2) b b'" "list_all2 (grows (here cs1) (here cs2)) bs bs'"
    using assms(2) b(1) by (auto simp: extends_def list_all2_Cons1)
  have "extends (cs1\<lparr>blocks := bs\<rparr>) (cs2\<lparr>blocks := bs'\<rparr>)"
    using assms(2) b'(3) by (auto simp: extends_def)
  moreover have "grows (here cs) (here cs2) b b'" "grows (here cs) (here cs2) b0 (b\<lparr>b_cont := b_cont b0\<rparr>)"
    using b'(2) b(3) extends_here [OF b(2)] extends_here [OF assms(2)] by (auto intro: grows_mono)
  ultimately show ?thesis
    using b' grown_trans [OF b(2)] grows_cont unfolding opened_def by blast
qed

lemma opened_cont: "opened b0 cs cs1 \<Longrightarrow> opened b0 cs (setInner (\<lambda>b. b\<lparr>b_cont := n\<rparr>) cs1)"
  by (auto simp: opened_def setInner_def here_def)

lemma opened_patch: "opened b0 cs cs1 \<Longrightarrow> here cs \<le> j \<Longrightarrow> patchAt j i cs1 = Some cs' \<Longrightarrow> opened b0 cs cs'"
proof -
  assume a: "opened b0 cs cs1" "here cs \<le> j" "patchAt j i cs1 = Some cs'"
  obtain b bs where b: "blocks cs1 = b # bs" "extends cs (cs1\<lparr>blocks := bs\<rparr>)" "grows (here cs) (here cs1) b0 (b\<lparr>b_cont := b_cont b0\<rparr>)"
    using a(1) by (auto simp: opened_def)
  have "patchAt j i (cs1\<lparr>blocks := bs\<rparr>) = Some (cs'\<lparr>blocks := bs\<rparr>)"
    using a(3) by (auto simp: patchAt_def bind_eq_Some_conv)
  then have "extends cs (cs'\<lparr>blocks := bs\<rparr>)" using extends_patch [OF b(2) a(2)] by blast
  then show ?thesis using b patchAt_simps [OF a(3)] by (auto simp: opened_def)
qed

lemma setInner_cont [simp]:
  "here (setInner f cs) = here cs" "code (setInner f cs) = code cs"
  "map shape (blocks (setInner (\<lambda>b. b\<lparr>b_cont := n\<rparr>) cs)) = map shape (blocks cs)"
  "hole_list (blocks (setInner (\<lambda>b. b\<lparr>b_cont := n\<rparr>) cs)) = hole_list (blocks cs)"
  by (auto simp: setInner_def here_def shape_def hole_list_def split: list.splits)

lemma linked_cont [simp]: "linked P T lo (setInner (\<lambda>b. b\<lparr>b_cont := n\<rparr>) cs) \<longleftrightarrow> linked P T lo cs"
proof -
  have "matches T (blocks (setInner (\<lambda>b. b\<lparr>b_cont := n\<rparr>) cs)) \<longleftrightarrow> matches T (blocks cs)"
    "list_all2 (filled P lo) T (blocks (setInner (\<lambda>b. b\<lparr>b_cont := n\<rparr>) cs)) \<longleftrightarrow> list_all2 (filled P lo) T (blocks cs)"
    by (auto simp: setInner_def matches_def filled_def list_all2_Cons2 split: list.splits)
  then show ?thesis by (simp add: linked_def)
qed

lemma holes_ok_cont [simp]: "holes_ok (setInner (\<lambda>b. b\<lparr>b_cont := n\<rparr>) cs) \<longleftrightarrow> holes_ok cs"
  by (simp add: holes_ok_def)

lemma holes_ok_open: "b_breaks b = [] \<Longrightarrow> b_conts b = [] \<Longrightarrow> holes_ok (openBlock b cs) \<longleftrightarrow> holes_ok cs"
  by (simp add: holes_ok_def openBlock_def hole_list_def here_def)

lemma patchAll_facts:
  "patchAll items target is = Some is' \<Longrightarrow>
   length is' = length is \<and> (\<forall>i. i \<notin> set items \<longrightarrow> is' ! i = is ! i) \<and> (\<forall>i \<in> set items. is' ! i = Jump (int target - int i))"
proof (induction items arbitrary: "is")
  case (Cons i items)
  then obtain is1 where is1: "patch i (Jump (int target - int i)) is = Some is1" "patchAll items target is1 = Some is'"
    by (auto simp: bind_eq_Some_conv)
  then have "i < length is" "is1 = is[i := Jump (int target - int i)]" by (auto simp: patch_def split: if_splits)
  then show ?case using Cons.IH [OF is1(2)] by (auto simp: nth_list_update)
qed simp

lemma patchAll_prefix:
  "patchAll items target (xs @ ys) = Some is' \<Longrightarrow> \<forall>i \<in> set items. length xs \<le> i \<Longrightarrow> \<exists>ys'. is' = xs @ ys'"
proof -
  assume a: "patchAll items target (xs @ ys) = Some is'" "\<forall>i \<in> set items. length xs \<le> i"
  have "length is' = length (xs @ ys)" using patchAll_facts [OF a(1)] by blast
  moreover have "is' ! i = xs ! i" if "i < length xs" for i
  proof -
    have "i \<notin> set items" using a(2) that by force
    then show ?thesis using patchAll_facts [OF a(1)] that by (simp add: nth_append)
  qed
  ultimately have "take (length xs) is' = xs" by (intro nth_equalityI) auto
  then show ?thesis by (metis append_take_drop_id)
qed

lemma leave_code:
  assumes "leaveBlock cs1 = Some cs'" "blocks cs1 = b # bs" "b_typ b \<noteq> BlockLoop \<longrightarrow> b_conts b = []"
    "set (b_breaks b) \<inter> set (b_conts b) = {}"
  shows "here cs' = here cs1" "blocks cs' = bs"
    "i \<notin> set (b_breaks b) \<Longrightarrow> i \<notin> set (b_conts b) \<Longrightarrow> code cs' ! i = code cs1 ! i"
    "i \<in> set (b_breaks b) \<Longrightarrow> code cs' ! i = Jump (int (here cs1) - int i)"
    "i \<in> set (b_conts b) \<Longrightarrow> code cs' ! i = Jump (int (b_cont b) - int i)"
    "\<forall>i \<in> set (b_breaks b) \<union> set (b_conts b). n \<le> i \<Longrightarrow> code cs1 = xs @ ys \<Longrightarrow> length xs = n \<Longrightarrow> \<exists>ys'. code cs' = xs @ ys'"
proof -
  obtain is1 is2 where is1: "patchAll (b_breaks b) (here cs1) (code cs1) = Some is1"
    and is2: "(if b_typ b = BlockLoop then patchAll (b_conts b) (b_cont b) is1 else Some is1) = Some is2"
    and cs': "cs' = \<lparr>code = is2, blocks = bs\<rparr>"
    using assms(1,2) by (auto simp: leaveBlock_def here_def bind_eq_Some_conv)
  have is2': "patchAll (b_conts b) (b_cont b) is1 = Some is2" using is2 assms(3) by (auto split: if_splits)
  note f1 = patchAll_facts [OF is1] and f2 = patchAll_facts [OF is2']
  show "here cs' = here cs1" "blocks cs' = bs" using f1 f2 by (simp_all add: cs' here_def)
  show "i \<notin> set (b_breaks b) \<Longrightarrow> i \<notin> set (b_conts b) \<Longrightarrow> code cs' ! i = code cs1 ! i" using f1 f2 by (simp add: cs')
  show "i \<in> set (b_breaks b) \<Longrightarrow> code cs' ! i = Jump (int (here cs1) - int i)" using f1 f2 assms(4) by (auto simp: cs')
  show "i \<in> set (b_conts b) \<Longrightarrow> code cs' ! i = Jump (int (b_cont b) - int i)" using f2 by (simp add: cs')
  assume n: "\<forall>i \<in> set (b_breaks b) \<union> set (b_conts b). n \<le> i" "code cs1 = xs @ ys" "length xs = n"
  then obtain ys1 where "is1 = xs @ ys1" using patchAll_prefix is1 by (metis UnI1)
  then show "\<exists>ys'. code cs' = xs @ ys'" using patchAll_prefix is2' n by (simp add: cs')
qed

lemma opened_inner:
  assumes "opened b0 cs cs1" "b_breaks b0 = []" "b_conts b0 = []" "blocks cs1 = b # bs"
  shows "shape b = shape b0" "set (b_breaks b) \<union> set (b_conts b) \<subseteq> {here cs..<here cs1}" "b_typ b \<noteq> BlockLoop \<longrightarrow> b_conts b = []"
    "b_typ b = BlockTry \<longrightarrow> b_breaks b = []" "extends cs (cs1\<lparr>blocks := bs\<rparr>)"
  using assms by (auto simp: opened_def grows_def shape_def)

lemma leave_step:
  assumes "opened b0 cs cs1" "b_breaks b0 = []" "b_conts b0 = []" "leaveBlock cs1 = Some cs'" "holes_ok cs1" "blocks cs1 = b # bs"
  shows "extends cs cs'" "holes_ok cs'" "here cs' = here cs1" "blocks cs' = bs"
    "linked P T lo cs' \<Longrightarrow> t_typ t = b_typ b \<Longrightarrow> t_label t = b_label b \<Longrightarrow> (b_breaks b \<noteq> [] \<Longrightarrow> t_brk t = here cs1) \<Longrightarrow>
       (b_conts b \<noteq> [] \<Longrightarrow> t_cont t = b_cont b) \<Longrightarrow> linked P (t # T) lo cs1"
proof -
  note inner = opened_inner [OF assms(1-3,6)]
  have d: "distinct (b_breaks b @ b_conts b @ hole_list bs)" "\<forall>i \<in> set (hole_list (b # bs)). i < here cs1"
    using assms(5,6) by (auto simp: holes_ok_def hole_list_def)
  have disj: "set (b_breaks b) \<inter> set (b_conts b) = {}" using d by auto
  note l = leave_code [OF assms(4,6) inner(3) disj]
  show h: "here cs' = here cs1" "blocks cs' = bs" by (rule l(1), rule l(2))
  show "holes_ok cs'" using d h by (auto simp: holes_ok_def hole_list_def)
  obtain ys where ys: "code cs1 = code cs @ ys" using inner(5) by (auto simp: extends_def)
  have "\<forall>i \<in> set (b_breaks b) \<union> set (b_conts b). here cs \<le> i" using inner(2) by force
  then have "\<exists>ys'. code cs' = code cs @ ys'" by (rule l(6) [OF _ ys]) (rule here_def [symmetric])
  moreover have "list_all2 (grows (here cs) (here cs')) (blocks cs) (blocks cs')"
    using inner(5) h by (auto simp: extends_def)
  ultimately show "extends cs cs'" by (simp add: extends_def)
  assume P: "linked P T lo cs'" and t: "t_typ t = b_typ b" "t_label t = b_label b" "b_breaks b \<noteq> [] \<Longrightarrow> t_brk t = here cs1"
    "b_conts b \<noteq> [] \<Longrightarrow> t_cont t = b_cont b"
  have read: "P ! i = code cs' ! i" if "lo \<le> i" "i < here cs1" "i \<notin> set (hole_list bs)" for i
    using P that h by (auto simp: linked_def)
  have "filled P lo t b"
    unfolding filled_def
  proof (intro conjI ballI impI)
    fix i assume i: "i \<in> set (b_breaks b)" "lo \<le> i"
    then have "P ! i = code cs' ! i" using d by (intro read) (auto simp: hole_list_def)
    then show "P ! i = Jump (int (t_brk t) - int i)" using l(4) [OF i(1)] t(3) i(1) by force
  next
    fix i assume i: "i \<in> set (b_conts b)" "lo \<le> i"
    then have "P ! i = code cs' ! i" using d by (intro read) (auto simp: hole_list_def)
    then show "P ! i = Jump (int (t_cont t) - int i)" using l(5) [OF i(1)] t(4) i(1) by force
  qed
  moreover have "P ! i = code cs1 ! i" if "lo \<le> i" "i < here cs1" "i \<notin> set (hole_list (b # bs))" for i
    using read [of i] l(3) [of i] that by (auto simp: hole_list_def)
  ultimately show "linked P (t # T) lo cs1"
    using P h t assms(6) by (auto simp: linked_def matches_def)
qed

end
