(* ===== verification/Compiler_Link.thy ===== *)
theory Compiler_Link
  imports Compiler_Layout
begin

text \<open>
  The compiler of statements produces programs with the layout of \<^verbatim>\<open>Compiler_Layout\<close>: every jump it patches leads where
  the layout says. One lemma per kind of statement, over whatever compiles its parts, and an induction over statements.
\<close>

section \<open>Every statement is laid out\<close>

definition covers :: "nat \<Rightarrow> vname list \<Rightarrow> bool \<Rightarrow> vname option \<Rightarrow> block list \<Rightarrow> bool" where
  "covers n ls lp label bs \<longleftrightarrow> n \<le> length bs \<and>
     (\<forall>l \<in> set ls. label = Some l \<or> (\<exists>k < n. b_label (bs ! k) = Some l)) \<and>
     (lp \<longrightarrow> (\<exists>k < n. b_typ (bs ! k) = BlockLoop))"

text \<open>
  Compiling \<open>s\<close> keeps the blocks but for their jumps, and does not touch blocks that its branches do not reach.
\<close>

definition keeps :: "stmt list \<Rightarrow> vname option \<Rightarrow> cstate \<Rightarrow> cstate \<Rightarrow> bool" where
  "keeps ss label cs cs' \<longleftrightarrow> map shape (blocks cs') = map shape (blocks cs) \<and>
     (\<forall>ls lp n. list_all (confined ls lp) ss \<longrightarrow> covers n ls lp label (blocks cs) \<longrightarrow> drop n (blocks cs') = drop n (blocks cs))"

definition compiles :: "'k compiler \<Rightarrow> stmt \<Rightarrow> vname option \<Rightarrow> stmtCompiler \<Rightarrow> bool" where
  "compiles c s label f \<longleftrightarrow>
     (\<forall>cs cs'. plain (blocks cs) \<longrightarrow> f False cs = Some cs' \<longrightarrow> keeps [s] label cs cs' \<and>
        (holes_ok cs \<longrightarrow> extends cs cs' \<and> holes_ok cs' \<and>
           (\<forall>P T. linked P T (here cs) cs' \<longrightarrow> coded c P T label (here cs) s (here cs'))))"

definition compiless :: "'k compiler \<Rightarrow> stmt list \<Rightarrow> stmtCompiler \<Rightarrow> bool" where
  "compiless c ss f \<longleftrightarrow>
     (\<forall>cs cs'. plain (blocks cs) \<longrightarrow> f False cs = Some cs' \<longrightarrow> keeps ss None cs cs' \<and>
        (holes_ok cs \<longrightarrow> extends cs cs' \<and> holes_ok cs' \<and>
           (\<forall>P T. linked P T (here cs) cs' \<longrightarrow> codeds c P T (here cs) ss (here cs'))))"

lemma compilesI:
  assumes "\<And>cs cs'. plain (blocks cs) \<Longrightarrow> f False cs = Some cs' \<Longrightarrow> keeps [s] label cs cs'"
    "\<And>cs cs'. plain (blocks cs) \<Longrightarrow> f False cs = Some cs' \<Longrightarrow> holes_ok cs \<Longrightarrow> extends cs cs' \<and> holes_ok cs' \<and>
       (\<forall>P T. linked P T (here cs) cs' \<longrightarrow> coded c P T label (here cs) s (here cs'))"
  shows "compiles c s label f"
  using assms by (auto simp: compiles_def)

lemma compilesD:
  assumes "compiles c s label f" "plain (blocks cs)" "f False cs = Some cs'"
  shows "keeps [s] label cs cs'" "holes_ok cs \<Longrightarrow> extends cs cs'" "holes_ok cs \<Longrightarrow> holes_ok cs'"
    "holes_ok cs \<Longrightarrow> linked P T (here cs) cs' \<Longrightarrow> coded c P T label (here cs) s (here cs')"
  using assms by (auto simp: compiles_def)

lemma compilessD:
  assumes "compiless c ss f" "plain (blocks cs)" "f False cs = Some cs'"
  shows "keeps ss None cs cs'" "holes_ok cs \<Longrightarrow> extends cs cs'" "holes_ok cs \<Longrightarrow> holes_ok cs'"
    "holes_ok cs \<Longrightarrow> linked P T (here cs) cs' \<Longrightarrow> codeds c P T (here cs) ss (here cs')"
  using assms by (auto simp: compiless_def)

lemma shape_nth:
  assumes "map shape bs' = map shape bs" "k < length bs"
  shows "b_label (bs' ! k) = b_label (bs ! k) \<and> b_typ (bs' ! k) = b_typ (bs ! k)"
proof -
  have "shape (bs' ! k) = shape (bs ! k)" using assms by (metis length_map nth_map)
  then show ?thesis by (simp add: shape_def)
qed

lemma covers_shape:
  assumes "map shape bs' = map shape bs"
  shows "covers n ls lp label bs' \<longleftrightarrow> covers n ls lp label bs"
proof (cases "n \<le> length bs")
  case True
  then have "\<And>k. k < n \<Longrightarrow> b_label (bs' ! k) = b_label (bs ! k) \<and> b_typ (bs' ! k) = b_typ (bs ! k)"
    using shape_nth [OF assms] by simp
  moreover have "length bs' = length bs" using assms by (metis length_map)
  ultimately show ?thesis by (auto simp: covers_def)
next
  case False
  moreover have "length bs' = length bs" using assms by (metis length_map)
  ultimately show ?thesis by (auto simp: covers_def)
qed

lemma keeps_refl: "keeps ss label cs cs"
  by (simp add: keeps_def)

lemma keeps_shape: "keeps ss label cs cs' \<Longrightarrow> map shape (blocks cs') = map shape (blocks cs)"
  by (simp add: keeps_def)

lemma keeps_plain: "keeps ss label cs cs' \<Longrightarrow> plain (blocks cs') \<longleftrightarrow> plain (blocks cs)"
  using shape_plain keeps_shape by blast

lemma keeps_trans:
  assumes "keeps ss None cs cs1" "keeps ss' None cs1 cs2"
  shows "keeps (ss @ ss') None cs cs2"
  unfolding keeps_def
proof (intro conjI allI impI)
  show "map shape (blocks cs2) = map shape (blocks cs)" using assms by (simp add: keeps_def)
  fix ls lp n assume a: "list_all (confined ls lp) (ss @ ss')" "covers n ls lp None (blocks cs)"
  then have "drop n (blocks cs1) = drop n (blocks cs)" "covers n ls lp None (blocks cs1)"
    using assms(1) covers_shape [OF keeps_shape [OF assms(1)]] by (auto simp: keeps_def)
  then show "drop n (blocks cs2) = drop n (blocks cs)" using a assms(2) by (auto simp: keeps_def)
qed

lemma keeps_sub: "keeps ss None cs cs' \<Longrightarrow> (\<And>ls lp. confined ls lp s \<Longrightarrow> list_all (confined ls lp) ss) \<Longrightarrow> keeps [s] None cs cs'"
  unfolding keeps_def by (simp; blast)

lemma keeps_blocks: "blocks cs1 = blocks cs \<Longrightarrow> blocks cs1' = blocks cs' \<Longrightarrow> keeps ss label cs1 cs1' \<longleftrightarrow> keeps ss label cs cs'"
  by (simp add: keeps_def)

subsection \<open>Statements that only emit code\<close>

lemma compiles_emit:
  assumes "\<And>cs cs'. f False cs = Some cs' \<Longrightarrow> \<exists>is. cs' = emit is cs \<and>
      (\<forall>P T. matches T (blocks cs) \<longrightarrow> seg P (here cs) is (here cs + length is) \<longrightarrow> coded c P T label (here cs) s (here cs + length is))"
  shows "compiles c s label f"
proof (rule compilesI)
  fix cs cs' assume "f False cs = Some cs'"
  then obtain "is" where "is": "cs' = emit is cs"
    "\<And>P T. matches T (blocks cs) \<Longrightarrow> seg P (here cs) is (here cs + length is) \<Longrightarrow> coded c P T label (here cs) s (here cs + length is)"
    using assms by blast
  then show "keeps [s] label cs cs'" by (simp add: keeps_def)
  show "extends cs cs' \<and> holes_ok cs' \<and> (\<forall>P T. linked P T (here cs) cs' \<longrightarrow> coded c P T label (here cs) s (here cs'))"
    if "holes_ok cs"
    using that "is" extends_emit holes_ok_emit linked_emit [OF that] by (auto simp: linked_def)
qed

lemma emitExpression_code:
  assumes "emitExpression c e used cs = Some cs'" "wf_expr e"
  shows "\<exists>is. cs' = emit is cs \<and> (\<forall>P. seg P (here cs) is (here cs + length is) \<longrightarrow> ecode c P (here cs) e used (here cs + length is))"
  using assms by (auto simp: emitExpression_def emitted_def bind_eq_Some_conv ecode_def)

lemma getterOf_code:
  assumes "getterOf c e used cs = Some cs'" "wf_expr e"
  shows "\<exists>is. cs' = emit is cs \<and> (\<forall>P. seg P (here cs) is (here cs + length is) \<longrightarrow> ecode c P (here cs) e used (here cs + length is))"
  using assms by (auto simp: getterOf_def emitted_def bind_eq_Some_conv ecode_def)

lemma updateCode_code:
  assumes "updateCode c e cs = Some cs'" "pred_option wf_expr e"
  shows "\<exists>is. cs' = emit is cs \<and> (\<forall>P. seg P (here cs) is (here cs + length is) \<longrightarrow> ocode c P (here cs) e (here cs + length is))"
proof (cases e)
  case None
  then show ?thesis using assms by (auto simp: updateCode_def ocode_def emit_def intro!: exI [of _ "[]"])
next
  case (Some a)
  then show ?thesis using assms getterOf_code [of c a False cs cs'] by (auto simp: updateCode_def ocode_def)
qed

lemma seg_append: "seg P p (a @ b) r \<longleftrightarrow> seg P p a (p + length a) \<and> seg P (p + length a) b r"
proof
  assume "seg P p (a @ b) r"
  then obtain pre post where "P = pre @ (a @ b) @ post" "length pre = p" "r = p + length (a @ b)" by (auto simp: seg_def)
  then show "seg P p a (p + length a) \<and> seg P (p + length a) b r"
    unfolding seg_def by (intro conjI exI [of _ pre] exI [of _ "b @ post"] exI [of _ "pre @ a"] exI [of _ post]) auto
next
  assume "seg P p a (p + length a) \<and> seg P (p + length a) b r"
  then obtain x y u v where *: "P = x @ a @ y" "length x = p" "P = u @ b @ v" "length u = p + length a" "r = p + length a + length b"
    unfolding seg_def by blast
  then have "u = x @ a" by (metis append.assoc append_eq_append_conv length_append)
  then show "seg P p (a @ b) r" using * unfolding seg_def by (intro exI [of _ x] exI [of _ v]) auto
qed

lemma seg_one: "seg P p [i] q \<longleftrightarrow> instr_at P p i \<and> q = p + 1"
proof
  assume "seg P p [i] q"
  then show "instr_at P p i \<and> q = p + 1" by (auto simp: seg_def instr_at_def nth_append)
next
  assume "instr_at P p i \<and> q = p + 1"
  then show "seg P p [i] q" using seg_nth [of p "[i]" P] by (auto simp: instr_at_def)
qed

lemma seg_nil: "p \<le> length P \<Longrightarrow> seg P p [] p"
  using seg_nth [of p "[]" P] by simp

lemma compiles_expr: "wf_expr e \<Longrightarrow> compiles c (ExprS e) label (compileExpressionStatement c e)"
  by (rule compiles_emit) (auto simp: compileExpressionStatement_def dest!: emitExpression_code intro: coded_expr)

lemma compiles_empty: "compiles c EmptyS label compileEmptyStatement"
  by (rule compiles_emit) (auto simp: compileEmptyStatement_def clearIf_def emit_def coded_empty intro!: exI [of _ "[]"])

lemma compiles_throw:
  assumes "wf_expr e"
  shows "compiles c (ThrowS e) label (\<lambda>_. compileThrowStatement c e)"
proof (rule compiles_emit)
  fix cs cs' assume "compileThrowStatement c e cs = Some cs'"
  then obtain "is" where "is": "cs' = emit [Throw] (emit is cs)"
    "\<And>P. seg P (here cs) is (here cs + length is) \<Longrightarrow> ecode c P (here cs) e True (here cs + length is)"
    using getterOf_code [OF _ assms] unfolding compileThrowStatement_def bind_eq_Some_conv by blast
  show "\<exists>is. cs' = emit is cs \<and> (\<forall>P T. matches T (blocks cs) \<longrightarrow> seg P (here cs) is (here cs + length is) \<longrightarrow>
      coded c P T label (here cs) (ThrowS e) (here cs + length is))"
    using "is" by (intro exI [of _ "is @ [Throw]"]) (auto simp: emit_def seg_append seg_one intro!: coded_throw)
qed

lemma ret_at_code:
  "matches T bs \<Longrightarrow> seg P p (returnCode bs @ [Ret]) q \<Longrightarrow> ret_at P T p"
proof (induction bs arbitrary: T p)
  case Nil
  then show ?case by (auto simp: matches_def returnCode_def seg_one)
next
  case (Cons b bs)
  then obtain t T' where T: "T = t # T'" "t_typ t = b_typ b" "matches T' bs" by (auto simp: matches_def list_all2_Cons2)
  have 3: "seg P p ([SaveResult] @ [LeaveTry] @ [LoadResult] @ is) q \<longleftrightarrow>
      instr_at P p SaveResult \<and> instr_at P (p + 1) LeaveTry \<and> instr_at P (p + 2) LoadResult \<and> seg P (p + 3) is q" for "is"
    unfolding seg_append seg_one by (simp add: numeral_eq_Suc)
  show ?case using Cons.IH [OF T(3)] Cons.prems(2) T 3 [of "returnCode bs @ [Ret]"]
    by (cases "b_typ b") (auto simp: returnCode_def)
qed

lemma compiles_return:
  assumes "pred_option wf_expr e"
  shows "compiles c (ReturnS e) label (\<lambda>_. compileReturnStatement c e)"
proof (rule compiles_emit)
  fix cs cs' assume a: "compileReturnStatement c e cs = Some cs'"
  show "\<exists>is. cs' = emit is cs \<and> (\<forall>P T. matches T (blocks cs) \<longrightarrow> seg P (here cs) is (here cs + length is) \<longrightarrow>
      coded c P T label (here cs) (ReturnS e) (here cs + length is))"
  proof (cases e)
    case None
    then have "cs' = emit ([LoadUndef] @ returnCode (blocks cs) @ [Ret]) cs"
      using a by (auto simp: compileReturnStatement_def emit_def)
    then show ?thesis unfolding None
      by (intro exI conjI allI impI, assumption)
        (unfold seg_append [of _ _ "[LoadUndef]"] seg_one, intro coded_return_none ret_at_code, auto)
  next
    case (Some x)
    then have wf: "wf_expr x" using assms by simp
    obtain "is" where "is": "cs' = emit (returnCode (blocks cs) @ [Ret]) (emit is cs)"
      "\<And>P. seg P (here cs) is (here cs + length is) \<Longrightarrow> ecode c P (here cs) x True (here cs + length is)"
      using a Some emitExpression_code [OF _ wf, of c True cs] by (auto simp: compileReturnStatement_def bind_eq_Some_conv)
    show ?thesis unfolding Some
      by (intro exI [of _ "is @ returnCode (blocks cs) @ [Ret]"])
        (use "is" in \<open>auto simp: emit_def seg_append [of _ _ "is"] intro!: coded_return ret_at_code\<close>)
  qed
qed

subsection \<open>Branches\<close>

definition hit_block :: "block \<Rightarrow> vname option \<Rightarrow> bool" where
  "hit_block b l \<longleftrightarrow> (case l of None \<Rightarrow> b_typ b = BlockLoop | Some n \<Rightarrow> b_label b = Some n)"

lemma find_simps:
  "findBreakBlock l isBreak [] = Some None"
  "b_breaking b = None \<Longrightarrow> findBreakBlock l isBreak (b # bs) =
     (if hit_block b l then if isBreak \<or> b_typ b = BlockLoop then Some (Some (length bs)) else None
      else findBreakBlock l isBreak bs)"
  by (auto simp: findBreakBlock_def hit_block_def split: option.splits)

lemma find_index:
  assumes "plain bs" "findBreakBlock l isBreak bs = Some (Some d)"
  shows "\<exists>k < length bs. d = length bs - 1 - k \<and> length bs - 1 - d = k \<and> hit_block (bs ! k) l \<and> (isBreak \<or> b_typ (bs ! k) = BlockLoop) \<and>
     (\<forall>j < k. \<not> hit_block (bs ! j) l)"
  using assms
proof (induction bs)
  case (Cons b bs)
  show ?case
  proof (cases "hit_block b l")
    case True
    then show ?thesis using Cons.prems by (intro exI [of _ 0]) (auto simp: find_simps plain_def split: if_splits)
  next
    case False
    then obtain k where k: "k < length bs" "d = length bs - 1 - k" "length bs - 1 - d = k" "hit_block (bs ! k) l" "isBreak \<or> b_typ (bs ! k) = BlockLoop"
      "\<forall>j < k. \<not> hit_block (bs ! j) l"
      using Cons by (auto simp: find_simps plain_def)
    then show ?thesis using False by (intro exI [of _ "Suc k"]) (auto simp: nth_Cons split: nat.splits)
  qed
qed (simp add: find_simps)

lemma branch_layout:
  "plain bs \<Longrightarrow> findBreakBlock l isBreak bs = Some (Some d) \<Longrightarrow> matches T bs \<Longrightarrow> seg P p (exitCode d bs) q \<Longrightarrow>
   instr_at P q (Jump (int (goal isBreak (T ! (length bs - 1 - d))) - int q)) \<Longrightarrow> exit_at P T isBreak l p"
proof (induction bs arbitrary: T p)
  case (Cons b bs)
  obtain t T' where T: "T = t # T'" "t_typ t = b_typ b" "t_label t = b_label b" "matches T' bs"
    using Cons.prems(3) by (auto simp: matches_def list_all2_Cons2)
  have hit: "hits t l \<longleftrightarrow> hit_block b l" using T by (simp add: hits_def hit_block_def split: option.splits)
  have b: "b_breaking b = None" "plain bs" using Cons.prems(1) by (auto simp: plain_def)
  show ?case
  proof (cases "hit_block b l")
    case True
    then have d: "d = length bs" "isBreak \<or> b_typ b = BlockLoop" using Cons.prems(2) by (auto simp: find_simps(2) [OF b(1)] split: if_splits)
    then have "q = p" using Cons.prems(4) by (auto simp: seg_def)
    then show ?thesis using T hit True d Cons.prems(5) by simp
  next
    case False
    then have f: "findBreakBlock l isBreak bs = Some (Some d)" using Cons.prems(2) by (simp add: find_simps(2) [OF b(1)])
    obtain k where k: "k < length bs" "length bs - 1 - d = k" "d = length bs - 1 - k" using find_index [OF b(2) f] by blast
    have "T ! (length (b # bs) - 1 - d) = T' ! (length bs - 1 - d)" using k T(1) by (simp add: Suc_diff_Suc)
    moreover have "d \<noteq> length bs" using k by simp
    ultimately show ?thesis
      using Cons.IH [OF b(2) f T(4)] Cons.prems(4,5) T hit False
      by (cases "b_typ b") (auto simp: seg_append [of _ _ "[LeaveTry]", simplified] seg_one)
  qed
qed (simp add: find_simps)

lemma hole_list_update:
  assumes "k < length bs" "b_breaks b' @ b_conts b' \<in> {b_breaks (bs ! k) @ [i] @ b_conts (bs ! k), b_breaks (bs ! k) @ b_conts (bs ! k) @ [i]}"
  shows "set (hole_list (bs[k := b'])) = insert i (set (hole_list bs))"
    "i \<notin> set (hole_list bs) \<Longrightarrow> distinct (hole_list bs) \<Longrightarrow> distinct (hole_list (bs[k := b']))"
proof -
  have bs: "bs = take k bs @ (bs ! k) # drop (Suc k) bs" "bs[k := b'] = take k bs @ b' # drop (Suc k) bs"
    using assms(1) by (simp_all add: id_take_nth_drop upd_conv_take_nth_drop)
  have h: "hole_list bs = hole_list (take k bs) @ (b_breaks (bs ! k) @ b_conts (bs ! k)) @ hole_list (drop (Suc k) bs)"
    by (subst bs(1)) (simp add: hole_list_def)
  have h': "hole_list (bs[k := b']) = hole_list (take k bs) @ (b_breaks b' @ b_conts b') @ hole_list (drop (Suc k) bs)"
    by (simp add: bs(2) hole_list_def)
  have *: "b_breaks b' @ b_conts b' = b_breaks (bs ! k) @ [i] @ b_conts (bs ! k) \<or>
      b_breaks b' @ b_conts b' = b_breaks (bs ! k) @ b_conts (bs ! k) @ [i]"
    using assms(2) by blast
  show "set (hole_list (bs[k := b'])) = insert i (set (hole_list bs))"
    using * unfolding h h' by (elim disjE) (simp_all only: set_append, auto)
  show "i \<notin> set (hole_list bs) \<Longrightarrow> distinct (hole_list bs) \<Longrightarrow> distinct (hole_list (bs[k := b']))"
    using * unfolding h h' by (elim disjE) (simp_all only:, auto)
qed

lemma compiles_branch: "compiles c (BranchS isBreak l) None (\<lambda>_. compileBranch isBreak l)"
proof (rule compilesI)
  fix cs cs' assume plain: "plain (blocks cs)" and comp: "compileBranch isBreak l cs = Some cs'"
  let ?bs = "blocks cs"
  obtain d where d: "findBreakBlock l isBreak ?bs = Some (Some d)"
    using comp by (auto simp: compileBranch_def emitBlockExitCode_def bind_eq_Some_conv)
  obtain k where k: "k < length ?bs" "length ?bs - 1 - d = k" "hit_block (?bs ! k) l" "isBreak \<or> b_typ (?bs ! k) = BlockLoop"
    "\<forall>j < k. \<not> hit_block (?bs ! j) l"
    using find_index [OF plain d] by blast
  let ?ex = "exitCode d ?bs"
  let ?i = "here cs + length ?ex"
  let ?b = "if isBreak then (?bs ! k)\<lparr>b_breaks := b_breaks (?bs ! k) @ [?i]\<rparr> else (?bs ! k)\<lparr>b_conts := b_conts (?bs ! k) @ [?i]\<rparr>"
  have cs': "code cs' = code cs @ ?ex @ [Hole]" "blocks cs' = ?bs[k := ?b]" "here cs' = ?i + 1"
    using comp d k(2) by (cases isBreak; auto simp: compileBranch_def emitBlockExitCode_def emit_def updateBlock_def here_def Let_def)+
  have sh: "shape ?b = shape (?bs ! k)" by (simp add: shape_def)
  show "keeps [BranchS isBreak l] None cs cs'"
    unfolding keeps_def
  proof (intro conjI allI impI)
    show "map shape (blocks cs') = map shape (blocks cs)"
      using sh by (simp add: cs' map_update list_update_same_conv k(1))
    fix ls lp n assume "list_all (confined ls lp) [BranchS isBreak l]" "covers n ls lp None (blocks cs)"
    then obtain j where "j < n" "hit_block (?bs ! j) l" by (auto simp: covers_def hit_block_def split: option.splits)
    then have "k < n" using k(5) by (meson le_less_trans not_le)
    then show "drop n (blocks cs') = drop n (blocks cs)" by (simp add: cs')
  qed
  show "extends cs cs' \<and> holes_ok cs' \<and> (\<forall>P T. linked P T (here cs) cs' \<longrightarrow> coded c P T None (here cs) (BranchS isBreak l) (here cs'))"
    if ok: "holes_ok cs"
  proof (intro conjI allI impI)
    have nt: "b_typ (?bs ! k) \<noteq> BlockTry"
      using plain k(1,3) by (auto simp: plain_def hit_block_def split: option.splits)
    have "grows (here cs) (here cs') (?bs ! k) ?b"
      using sh nt k(4) unfolding grows_def by (cases isBreak) (auto simp: cs')
    then show "extends cs cs'" unfolding extends_def
      using k(1) by (auto simp: cs'(1,2) list_all2_conv_all_nth nth_list_update grows_refl)
    have new: "?i \<notin> set (hole_list ?bs)" using ok by (auto simp: holes_ok_def)
    have hl: "set (hole_list (blocks cs')) = insert ?i (set (hole_list ?bs))" "distinct (hole_list (blocks cs'))"
      using hole_list_update [OF k(1), of ?b ?i] new ok by (cases isBreak; simp add: cs'(2) holes_ok_def)+
    then show "holes_ok cs'" using ok unfolding holes_ok_def cs'(3) by fastforce
    fix P T assume P: "linked P T (here cs) cs'"
    have m: "matches T ?bs"
      using linked_extends [OF \<open>extends cs cs'\<close> P] by (simp add: linked_def)
    have len: "length T = length ?bs" using m by (simp add: matches_def list_all2_lengthD)
    have "seg P (here cs) ?ex (here cs + length ?ex)"
    proof (rule seg_nth)
      show "here cs + length ?ex \<le> length P" using P cs'(3) by (simp add: linked_def)
      fix i assume "i < length ?ex"
      moreover from this have "here cs + i \<notin> set (hole_list (blocks cs'))" using hl(1) ok by (auto simp: holes_ok_def)
      ultimately show "P ! (here cs + i) = ?ex ! i"
        using P by (auto simp: linked_def cs'(1,3) here_def nth_append)
    qed
    moreover have "instr_at P ?i (Jump (int (goal isBreak (T ! k)) - int ?i))"
    proof -
      have "filled P (here cs) (T ! k) ?b"
        using P k(1) len by (auto simp: linked_def cs'(2) list_all2_conv_all_nth)
      then have "P ! ?i = Jump (int (goal isBreak (T ! k)) - int ?i)" by (cases isBreak) (auto simp: filled_def goal_def)
      then show ?thesis using P cs'(3) by (simp add: instr_at_def linked_def)
    qed
    ultimately have "exit_at P T isBreak l (here cs)"
      using branch_layout [OF plain d m] k(2) by blast
    then show "coded c P T None (here cs) (BranchS isBreak l) (here cs')" by (rule coded_branch)
  qed
qed

subsection \<open>Code that is never reached\<close>

lemma shape_dummy: "plain [b] \<Longrightarrow> shape (dummyBlock b) = shape b"
  by (simp add: dummyBlock_def newBlock_def shape_def plain_def)

lemma dummy_same:
  assumes "inDummyMode f cs = Some cs'" "plain (blocks cs)"
    "\<And>d d'. plain (blocks d) \<Longrightarrow> f d = Some d' \<Longrightarrow> keeps ss None d d'"
    "list_all (confined [] lp) ss" "lp \<Longrightarrow> \<exists>b bs. blocks cs = b # bs \<and> b_typ b = BlockLoop"
  shows "cs' = cs"
proof -
  let ?d0 = "setInner dummyBlock \<lparr>code = [], blocks = blocks cs\<rparr>"
  obtain d where d: "f ?d0 = Some d" and cs': "cs' = cs\<lparr>blocks := (case blocks cs of [] \<Rightarrow> [] | b # bs \<Rightarrow> b # tl (blocks d))\<rparr>"
    using assms(1) by (auto simp: inDummyMode_def bind_eq_Some_conv)
  have "plain (blocks ?d0)"
    using assms(2) by (cases "blocks cs") (auto simp: setInner_def plain_def dummyBlock_def newBlock_def)
  then have k: "keeps ss None ?d0 d" using assms(3) d by blast
  show ?thesis
  proof (cases "blocks cs")
    case Nil
    then show ?thesis using cs' by simp
  next
    case (Cons b bs)
    then have "covers 1 [] lp None (blocks ?d0)"
      using assms(5) by (auto simp: covers_def setInner_def dummyBlock_def newBlock_def)
    then have "drop 1 (blocks d) = drop 1 (blocks ?d0)" using k assms(4) unfolding keeps_def by blast
    then have "tl (blocks d) = bs" using Cons by (simp add: setInner_def drop_Suc)
    then show ?thesis using cs' Cons by simp
  qed
qed

lemma dummy_stmt:
  assumes "compiles c s None f" "inDummyMode (f False) cs = Some cs'" "plain (blocks cs)" "confined [] lp s"
    "lp \<Longrightarrow> \<exists>b bs. blocks cs = b # bs \<and> b_typ b = BlockLoop"
  shows "cs' = cs"
  by (rule dummy_same [OF assms(2,3), of "[s]" lp]) (use assms compilesD(1) in auto)

subsection \<open>Tests\<close>

lemma constTest_cases:
  assumes "compileExpression c t = Some a" "constTest c a = Some k" "wf_expr t"
  obtains "k = None" | r where "k = Some r" "ctest c t r" "test_value c t = Some r"
proof (cases k)
  case None
  then show thesis using that by blast
next
  case (Some r)
  then have "ce_constant a = Some True" "evalConst c a = Some r"
    using assms(2) by (auto simp: constTest_def bind_eq_Some_conv split: if_splits)
  then have "ctest c t r" "test_value c t = Some r"
    using assms Some by (auto simp: ctest_def test_value_def)
  then show thesis using that Some by blast
qed

lemma emitted_getter:
  assumes "compileExpression c t = Some a" "wf_expr t" "emitted (ce_emitGetter a True) cs = Some cs'"
  shows "\<exists>is. cs' = emit is cs \<and> (\<forall>P. seg P (here cs) is (here cs + length is) \<longrightarrow> ecode c P (here cs) t True (here cs + length is))"
  using assms by (auto simp: emitted_def ecode_def)

lemma emitted_throw:
  assumes "emitted (emitThrow c ex) cs = Some cs'"
  shows "\<exists>is. cs' = emit is cs \<and> (\<forall>P. seg P (here cs) is (here cs + length is) \<longrightarrow> tcode c P (here cs) ex (here cs + length is))"
  using assms by (auto simp: emitted_def tcode_def)

lemma clearIf_False [simp]: "clearIf False cs = cs"
  by (simp add: clearIf_def)

text \<open>The code emitted before a point is in the program.\<close>

lemma linked_prefix:
  assumes "holes_ok cs" "extends (emit is cs) cs'" "linked P T lo cs'" "lo \<le> here cs"
  shows "seg P (here cs) is (here cs + length is)" "linked P T (here cs + length is) cs'"
  using linked_emit [OF assms(1) linked_extends [OF assms(2,3)] assms(4)] linked_mono [OF assms(3)] assms(4) by auto

lemma seg_read: "seg P p [i] q \<Longrightarrow> instr_at P p i"
  by (simp add: seg_one)

subsection \<open>Conditionals\<close>

lemma if_then_layout:
  assumes ok: "holes_ok cs" and pl: "plain (blocks cs)" and A: "compiles c a None fa"
    and ti: "cs1 = emit ti cs" "\<And>P. seg P (here cs) ti (here cs1) \<Longrightarrow> ecode c P (here cs) t True (here cs1)"
    and cs3: "fa False (emit [Hole] cs1) = Some cs3" and p: "patchAt (here cs1) (JneP (dist (here cs1) cs3)) cs3 = Some cs'"
  shows "extends cs cs' \<and> holes_ok cs' \<and> (\<forall>P T. linked P T (here cs) cs' \<longrightarrow> coded c P T None (here cs) (IfS t a None) (here cs'))"
proof -
  have ok1: "holes_ok cs1" "holes_ok (emit [Hole] cs1)" "plain (blocks (emit [Hole] cs1))" using ok ti pl holes_ok_emit by auto
  note C = compilesD(2-4) [OF A ok1(3) cs3 ok1(2)] and ps = patchAt_simps [OF p]
  note S = patch_step [OF ok1(1) C(1) p]
  have le: "here cs \<le> here cs1" using ti by simp
  have "coded c P T None (here cs) (IfS t a None) (here cs')" if P: "linked P T (here cs) cs'" for P T
  proof (rule coded_if_then)
    show "ecode c P (here cs) t True (here cs1)" using linked_prefix(1) [OF ok _ P, of ti] S(1) ti by simp
    show "instr_at P (here cs1) (JneP (int (here cs') - int (here cs1)))" using S(2) [OF P le] ps(4) by (simp add: dist_def)
    show "coded c P T None (here cs1 + 1) a (here cs')" using C(3) [of P T] S(3) [OF P le] ps(4) by simp
  qed
  moreover have "extends cs cs'" using grown_trans [OF extends_emit] S(1) ti(1) by blast
  ultimately show ?thesis using holes_ok_patch [OF p C(2)] by blast
qed

lemma if_else_layout:
  assumes ok: "holes_ok cs" and pl: "plain (blocks cs)" and A: "compiles c a None fa" and B: "compiles c b None fb"
    and ti: "cs1 = emit ti cs" "\<And>P. seg P (here cs) ti (here cs1) \<Longrightarrow> ecode c P (here cs) t True (here cs1)"
    and cs3: "fa False (emit [Hole] cs1) = Some cs3"
    and p1: "patchAt (here cs1) (JneP (dist (here cs1) (emit [Hole] cs3))) (emit [Hole] cs3) = Some cs5"
    and cs6: "fb False cs5 = Some cs6" and p2: "patchAt (here cs3) (Jump (dist (here cs3) cs6)) cs6 = Some cs'"
  shows "extends cs cs' \<and> holes_ok cs' \<and> (\<forall>P T. linked P T (here cs) cs' \<longrightarrow> coded c P T None (here cs) (IfS t a (Some b)) (here cs'))"
proof -
  have ok1: "holes_ok cs1" "holes_ok (emit [Hole] cs1)" "plain (blocks (emit [Hole] cs1))" using ok ti pl holes_ok_emit by auto
  note C = compilesD [OF A ok1(3) cs3]
  note CA = C(2-4) [OF ok1(2)]
  have lt: "here cs1 < here cs3" using extends_here [OF CA(1)] by simp
  let ?i = "JneP (int (here cs3) + 1 - int (here cs1))"
  obtain cs4 where p1': "patchAt (here cs1) ?i cs3 = Some cs4" and cs5: "cs5 = emit [Hole] cs4"
    using p1 lt by (auto simp: patchAt_emit dist_def algebra_simps)
  note ps1 = patchAt_simps [OF p1'] and ps2 = patchAt_simps [OF p2]
  have ok4: "holes_ok cs4" "holes_ok cs5" using holes_ok_patch [OF p1' CA(2)] cs5 holes_ok_emit by auto
  have pl5: "plain (blocks cs5)" using ok1(3) keeps_plain [OF C(1)] ps1(3) cs5 by simp
  note CB = compilesD(2-4) [OF B pl5 cs6 ok4(2)]
  note S1 = patch_step [OF ok1(1) CA(1) p1']
  have p2': "patchAt (here cs4) (Jump (dist (here cs3) cs6)) cs6 = Some cs'" using p2 ps1(4) by simp
  note S2 = patch_step [OF ok4(1) CB(1) [unfolded cs5] p2']
  have le: "here cs \<le> here cs1" "here cs1 \<le> here cs4" using ti lt ps1 by auto
  have E: "extends cs1 cs'" by (rule grown_trans [OF S1(1) S2(1)])
  have "coded c P T None (here cs) (IfS t a (Some b)) (here cs')" if P: "linked P T (here cs) cs'" for P T
  proof (rule coded_if_else)
    have P4: "linked P T (here cs) cs4" by (rule linked_extends [OF S2(1) P])
    show "ecode c P (here cs) t True (here cs1)" using linked_prefix(1) [OF ok _ P, of ti] E ti by simp
    show "instr_at P (here cs1) ?i" using S1(2) [OF P4 le(1)] .
    show "coded c P T None (here cs1 + 1) a (here cs3)" using CA(3) [of P T] S1(3) [OF P4 le(1)] by simp
    show "instr_at P (here cs3) (Jump (int (here cs') - int (here cs3)))"
      using S2(2) [OF P] le ps1(4) ps2(4) by (simp add: dist_def)
    show "coded c P T None (here cs3 + 1) b (here cs')"
      using CB(3) [of P T] S2(3) [OF P] le ps1(4) ps2(4) cs5 by simp
  qed
  moreover have "extends cs cs'" using grown_trans [OF extends_emit] E ti(1) by blast
  ultimately show ?thesis using holes_ok_patch [OF p2 CB(2)] by blast
qed

lemma compiles_if_const:
  assumes wf: "tidy c (IfS t a b)" and A: "compiles c a None fa" and B: "rel_option (\<lambda>s. compiles c s None) b fb"
    and pl: "plain (blocks cs)" and r: "ctest c t r" "test_value c t = Some r"
    and comp: "(case r of Inl ex \<Rightarrow> emitted (emitThrow c ex) cs
       | Inr v \<Rightarrow> if ToBoolean v then Option.bind (fa False cs) (\<lambda>cs. case fb of Some b \<Rightarrow> inDummyMode (b False) cs | None \<Rightarrow> Some cs)
           else Option.bind (inDummyMode (fa False) cs) (\<lambda>cs. case fb of Some b \<Rightarrow> b False cs | None \<Rightarrow> Some cs)) = Some cs'"
  shows "keeps [IfS t a b] None cs cs' \<and> (holes_ok cs \<longrightarrow> extends cs cs' \<and> holes_ok cs' \<and>
       (\<forall>P T. linked P T (here cs) cs' \<longrightarrow> coded c P T None (here cs) (IfS t a b) (here cs')))"
proof (cases r)
  case (Inl ex)
  then obtain "is" where "is": "cs' = emit is cs" "\<And>P. seg P (here cs) is (here cs + length is) \<Longrightarrow> tcode c P (here cs) ex (here cs + length is)"
    using comp emitted_throw [of c ex cs cs'] by auto
  then show ?thesis
    using r Inl linked_emit [of cs _ _ "here cs" "is"] by (auto simp: keeps_def extends_emit holes_ok_emit intro!: coded_if_throw)
next
  case (Inr v)
  show ?thesis
  proof (cases "ToBoolean v")
    case True
    then obtain cs1 where cs1: "fa False cs = Some cs1" "(case fb of Some b \<Rightarrow> inDummyMode (b False) cs1 | None \<Rightarrow> Some cs1) = Some cs'"
      using comp Inr by (auto simp: bind_eq_Some_conv)
    note C = compilesD [OF A pl cs1(1)]
    have "cs' = cs1"
      using B
    proof cases
      case (Some s f)
      then have "confined [] False s" using wf r Inr True by (auto simp: dead_def)
      then show ?thesis using dummy_stmt [OF Some(3), of cs1 cs' False] cs1(2) Some keeps_plain [OF C(1)] pl by simp
    qed (use cs1(2) in simp)
    then show ?thesis
      using C keeps_sub [OF C(1), of "IfS t a b"] r Inr True by (auto intro: coded_if_true)
  next
    case False
    then obtain cs1 where cs1: "inDummyMode (fa False) cs = Some cs1" "(case fb of Some b \<Rightarrow> b False cs1 | None \<Rightarrow> Some cs1) = Some cs'"
      using comp Inr by (auto simp: bind_eq_Some_conv)
    have "confined [] False a" using wf r Inr False by (auto simp: dead_def)
    then have [simp]: "cs1 = cs" using dummy_stmt [OF A cs1(1) pl, of False] by simp
    from B show ?thesis
    proof cases
      case None
      then show ?thesis using cs1(2) r Inr False by (auto simp: keeps_refl grown_refl intro: coded_if_skip)
    next
      case (Some s f)
      then have "f False cs = Some cs'" using cs1(2) by simp
      note C = compilesD [OF Some(3) pl this]
      show ?thesis using C keeps_sub [OF C(1), of "IfS t a b"] r Inr False Some by (auto intro: coded_if_false)
    qed
  qed
qed

lemma compiles_if:
  assumes wf: "tidy c (IfS t a b)" and A: "compiles c a None fa" and B: "rel_option (\<lambda>s. compiles c s None) b fb"
  shows "compiles c (IfS t a b) None (compileIfStatement c t fa fb)"
proof -
  have main: "keeps [IfS t a b] None cs cs' \<and> (holes_ok cs \<longrightarrow> extends cs cs' \<and> holes_ok cs' \<and>
       (\<forall>P T. linked P T (here cs) cs' \<longrightarrow> coded c P T None (here cs) (IfS t a b) (here cs')))"
    if pl: "plain (blocks cs)" and comp: "compileIfStatement c t fa fb False cs = Some cs'" for cs cs'
  proof -
    have wt: "wf_expr t" using wf by simp
    obtain test k where test: "compileExpression c t = Some test" "constTest c test = Some k"
      using comp by (auto simp: compileIfStatement_def bind_eq_Some_conv)
    note comp = comp [unfolded compileIfStatement_def test Option.bind.simps clearIf_False Let_def]
    from constTest_cases [OF test wt] show ?thesis
    proof cases
      case (2 r)
      then show ?thesis using comp test by (intro compiles_if_const [OF wf A B pl 2(2,3)]) (simp split: sum.splits)
    next
      case 1
      obtain cs1 cs3 where cs1: "emitted (ce_emitGetter test True) cs = Some cs1"
        and cs3: "fa False (emit [Hole] cs1) = Some cs3"
        and rest: "(case fb of
              Some b \<Rightarrow> Option.bind (patchAt (here cs1) (JneP (dist (here cs1) (emit [Hole] cs3))) (emit [Hole] cs3)) (\<lambda>cs5.
                Option.bind (b False cs5) (\<lambda>cs6. patchAt (here cs3) (Jump (dist (here cs3) cs6)) cs6))
            | None \<Rightarrow> patchAt (here cs1) (JneP (dist (here cs1) cs3)) cs3) = Some cs'"
        using comp 1 test by (auto simp: bind_eq_Some_conv split: option.splits)
      obtain ti where ti: "cs1 = emit ti cs" "\<And>P. seg P (here cs) ti (here cs1) \<Longrightarrow> ecode c P (here cs) t True (here cs1)"
        using emitted_getter [OF test(1) wt cs1] by force
      have pl2: "plain (blocks (emit [Hole] cs1))" using pl ti by simp
      note CA = compilesD(1) [OF A pl2 cs3]
      from B show ?thesis
      proof cases
        case None
        then have p: "patchAt (here cs1) (JneP (dist (here cs1) cs3)) cs3 = Some cs'" using rest by simp
        have "keeps [a] None cs cs'" using CA patchAt_simps(3) [OF p] ti(1) by (simp add: keeps_def)
        then have "keeps [IfS t a b] None cs cs'" by (rule keeps_sub) (simp add: None)
        then show ?thesis using if_then_layout [OF _ pl A ti cs3 p] None by blast
      next
        case (Some s f)
        obtain cs5 cs6 where p1: "patchAt (here cs1) (JneP (dist (here cs1) (emit [Hole] cs3))) (emit [Hole] cs3) = Some cs5"
          and cs6: "f False cs5 = Some cs6" and p2: "patchAt (here cs3) (Jump (dist (here cs3) cs6)) cs6 = Some cs'"
          using rest Some by (auto simp: bind_eq_Some_conv)
        have b5: "blocks cs5 = blocks cs3" using patchAt_simps(3) [OF p1] by simp
        then have "plain (blocks cs5)" using keeps_plain [OF CA] pl2 by simp
        then have CB: "keeps [s] None cs5 cs6" using compilesD(1) [OF Some(3) _ cs6] by blast
        have "keeps [a] None cs cs3" "keeps [s] None cs3 cs'"
          using CA CB b5 patchAt_simps(3) [OF p2] ti(1) by (simp_all add: keeps_def)
        then have "keeps ([a] @ [s]) None cs cs'" by (rule keeps_trans)
        then have "keeps [IfS t a b] None cs cs'" by (rule keeps_sub) (simp add: Some)
        then show ?thesis using if_else_layout [OF _ pl A Some(3) ti cs3 p1 cs6 p2] Some by blast
      qed
    qed
  qed
  show ?thesis by (rule compilesI) (use main in blast)+
qed

subsection \<open>Loops\<close>

lemma keeps_block:
  assumes "keeps ss None csS cs1" "blocks csS = b # blocks cs" "blocks cs' = tl (blocks cs1)"
    and "\<And>ls lp. confined ls lp s \<Longrightarrow> \<exists>ls' lp'. list_all (confined ls' lp') ss \<and>
      (lp' \<longrightarrow> lp \<or> b_typ b = BlockLoop) \<and> (\<forall>l \<in> set ls'. l \<in> set ls \<and> label \<noteq> Some l \<or> b_label b = Some l)"
  shows "keeps [s] label cs cs'"
  unfolding keeps_def
proof (intro conjI allI impI)
  have sh: "map shape (blocks cs1) = shape b # map shape (blocks cs)" using assms(1,2) by (simp add: keeps_def)
  then show "map shape (blocks cs') = map shape (blocks cs)" using assms(3) by (simp add: map_tl)
  fix ls lp n assume "list_all (confined ls lp) [s]" and cov: "covers n ls lp label (blocks cs)"
  then have "confined ls lp s" by simp
  from assms(4) [OF this] obtain ls' lp' where c: "list_all (confined ls' lp') ss" "lp' \<longrightarrow> lp \<or> b_typ b = BlockLoop"
    "\<forall>l \<in> set ls'. l \<in> set ls \<and> label \<noteq> Some l \<or> b_label b = Some l"
    by blast
  have "covers (Suc n) ls' lp' None (blocks csS)"
    unfolding covers_def assms(2)
  proof (intro conjI ballI impI)
    show "Suc n \<le> length (b # blocks cs)" using cov by (simp add: covers_def)
    show "None = Some l \<or> (\<exists>k < Suc n. b_label ((b # blocks cs) ! k) = Some l)" if "l \<in> set ls'" for l
      using cov c(3) that unfolding covers_def by (metis Suc_less_eq nth_Cons_0 nth_Cons_Suc zero_less_Suc)
    show "\<exists>k < Suc n. b_typ ((b # blocks cs) ! k) = BlockLoop" if lp'
      using cov c(2) that unfolding covers_def by (metis Suc_less_eq nth_Cons_0 nth_Cons_Suc zero_less_Suc)
  qed
  then have "drop (Suc n) (blocks cs1) = drop (Suc n) (blocks csS)" using assms(1) c(1) by (simp add: keeps_def)
  then show "drop n (blocks cs') = drop n (blocks cs)" using assms(2,3) by (simp add: drop_Suc)
qed

lemma keeps_loop:
  assumes "keeps [body] None csS cs1" "blocks csS = b # blocks cs" "b_typ b = BlockLoop" "b_label b = label"
    "blocks cs' = tl (blocks cs1)" "\<And>ls lp. confined ls lp s \<longleftrightarrow> confined ls True body"
  shows "keeps [s] label cs cs'"
  by (rule keeps_block [OF assms(1,2,5)]) (use assms(3,4,6) in auto)

lemma leave_blocks: "leaveBlock cs = Some cs' \<Longrightarrow> blocks cs' = tl (blocks cs) \<and> blocks cs \<noteq> []"
  by (auto simp: leaveBlock_def bind_eq_Some_conv split: list.splits)

lemma newBlock_simps [simp]:
  "b_typ (newBlock t l n) = t" "b_label (newBlock t l n) = l" "b_breaks (newBlock t l n) = []" "b_conts (newBlock t l n) = []"
  "b_breaking (newBlock t l n) = None" "b_needResult (newBlock t l n) = n" "b_cont (newBlock t l n) = 0"
  by (simp_all add: newBlock_def)

text \<open>
  The end of a loop: the state after the body, in which the continue position may be set, the update, the jump back.
\<close>

definition loop_cont :: "cstate \<Rightarrow> cstate \<Rightarrow> cstate \<Rightarrow> nat \<Rightarrow> bool" where
  "loop_cont csS cs1 cs1' n \<longleftrightarrow>
     cs1' = cs1 \<and> b_cont (hd (blocks csS)) = n \<or> cs1' = setInner (\<lambda>b. b\<lparr>b_cont := n\<rparr>) cs1 \<and> n = here cs1"

lemma loop_leave:
  assumes op: "opened (newBlock BlockLoop label False) cs csS" and ex: "extends csS cs1" and k: "loop_cont csS cs1 cs1' n"
    and e2: "extends cs1' csE" and ok: "holes_ok csE" and leave: "leaveBlock csE = Some cs'"
  shows "extends cs cs'" "holes_ok cs'" "here cs' = here csE"
    "linked P T lo cs' \<Longrightarrow> linked P (loop_target label (here cs') n # T) lo csE"
    "linked P T lo cs' \<Longrightarrow> linked P (loop_target label (here cs') n # T) lo cs1"
    "linked P T lo cs' \<Longrightarrow> linked P (loop_target label (here cs') n # T) lo csS"
proof -
  let ?b0 = "newBlock BlockLoop label False"
  have op1: "opened ?b0 cs cs1" by (rule opened_extends [OF op ex])
  have op1': "opened ?b0 cs cs1'" using k opened_cont [OF op1] op1 by (auto simp: loop_cont_def)
  have opE: "opened ?b0 cs csE" by (rule opened_extends [OF op1' e2])
  obtain b bs where b: "blocks csE = b # bs" using opE by (auto simp: opened_def)
  obtain b1 bs1 where b1: "blocks cs1' = b1 # bs1" using op1' by (auto simp: opened_def)
  obtain bS bsS where bS: "blocks csS = bS # bsS" using op by (auto simp: opened_def)
  obtain b2 bs2 where b2: "blocks cs1 = b2 # bs2" using op1 by (auto simp: opened_def)
  have "b_cont b = b_cont b1" using e2 b b1 by (auto simp: extends_def grows_def)
  moreover have "b_cont b2 = b_cont bS" using ex bS b2 by (auto simp: extends_def grows_def)
  ultimately have cont: "b_cont b = n"
    using k b1 b2 bS by (auto simp: loop_cont_def setInner_def)
  have sh: "b_typ b = BlockLoop" "b_label b = label" using opened_inner(1) [OF opE _ _ b] by (auto simp: shape_def)
  note L = leave_step [OF opE _ _ leave ok b]
  show "extends cs cs'" "holes_ok cs'" "here cs' = here csE" using L(1-3) by simp_all
  show PE: "linked P (loop_target label (here cs') n # T) lo csE" if "linked P T lo cs'"
    using L(5) [OF _ _ that, of "loop_target label (here cs') n"] L(3) sh cont by (simp add: loop_target_def)
  show P1: "linked P (loop_target label (here cs') n # T) lo cs1" if "linked P T lo cs'"
    using linked_extends [OF e2 PE [OF that]] k by (auto simp: loop_cont_def)
  show "linked P (loop_target label (here cs') n # T) lo csS" if "linked P T lo cs'"
    by (rule linked_extends [OF ex P1 [OF that]])
qed

lemma holes_ok_loop_cont: "loop_cont csS cs1 cs1' n \<Longrightarrow> holes_ok cs1' \<longleftrightarrow> holes_ok cs1" "loop_cont csS cs1 cs1' n \<Longrightarrow> here cs1' = here cs1"
  by (auto simp: loop_cont_def)

lemma iter_const_layout:
  assumes op: "opened (newBlock BlockLoop label False) cs csS" and ok: "holes_ok csS" and pl: "plain (blocks csS)"
    and body: "compiles c body None f" "f False csS = Some cs1" and k: "loop_cont csS cs1 cs1' n"
    and ui: "cs2 = emit ui cs1'" "\<And>P. seg P (here cs1) ui (here cs2) \<Longrightarrow> ocode c P (here cs1) update (here cs2)"
    and leave: "leaveBlock (emit [Jump (int (here csS) - int (here cs2))] cs2) = Some cs'"
  shows "extends cs cs' \<and> holes_ok cs' \<and> (\<forall>P T lo. linked P T lo cs' \<longrightarrow> lo \<le> here csS \<longrightarrow>
      linked P (loop_target label (here cs') n # T) lo csS \<and>
      (test = None \<or> (\<exists>t v. test = Some t \<and> ctest c t (Inr v) \<and> ToBoolean v) \<longrightarrow>
        coded_iter c P (loop_target label (here cs') n # T) (here csS) test update body (here cs1) (here cs')))"
proof -
  let ?csE = "emit [Jump (int (here csS) - int (here cs2))] cs2"
  note C = compilesD(2-4) [OF body(1) pl body(2) ok]
  have ok1: "holes_ok cs1'" "holes_ok cs2" "holes_ok ?csE" "here cs1' = here cs1"
    using C(2) holes_ok_loop_cont [OF k] ui(1) holes_ok_emit by auto
  have e2: "extends cs1' ?csE" "extends cs2 ?csE" using ui(1) extends_emit grown_trans by blast+
  note L = loop_leave [OF op C(1) k e2(1) ok1(3) leave]
  have "linked P (loop_target label (here cs') n # T) lo csS \<and>
      (test = None \<or> (\<exists>t v. test = Some t \<and> ctest c t (Inr v) \<and> ToBoolean v) \<longrightarrow>
        coded_iter c P (loop_target label (here cs') n # T) (here csS) test update body (here cs1) (here cs'))"
    if P: "linked P T lo cs'" "lo \<le> here csS" for P T lo
  proof (intro conjI impI coded_iter_const)
    have le: "lo \<le> here cs1" using extends_here [OF C(1)] P(2) by simp
    have PE: "linked P (loop_target label (here cs') n # T) lo ?csE" by (rule L(4) [OF P(1)])
    show "linked P (loop_target label (here cs') n # T) lo csS" by (rule L(6) [OF P(1)])
    show "coded c P (loop_target label (here cs') n # T) None (here csS) body (here cs1)"
      by (rule C(3) [OF linked_mono [OF L(5) [OF P(1)] P(2)]])
    show "ocode c P (here cs1) update (here cs2)"
      using ui(2) linked_emit [OF ok1(1) linked_extends [OF e2(2) PE, unfolded ui(1)]] le ok1(4) ui(1) by simp
    show "instr_at P (here cs2) (Jump (int (here csS) - int (here cs2)))"
      using linked_emit_one [OF ok1(2) PE] le ok1(4) ui(1) by simp
    show "here cs' = here cs2 + 1" using L(3) by simp
  qed
  then show ?thesis using L(1,2) by blast
qed

lemma iter_test_layout:
  assumes op: "opened (newBlock BlockLoop label False) cs csS" and ok: "holes_ok csS" and pl: "plain (blocks csS)"
    and ti: "csT = emit ti csS" "\<And>P. seg P (here csS) ti (here csT) \<Longrightarrow> ecode c P (here csS) t True (here csT)"
    and body: "compiles c body None f" "f False (emit [Hole] csT) = Some cs1" and k: "loop_cont csS cs1 cs1' n"
    and ui: "cs2 = emit ui cs1'" "\<And>P. seg P (here cs1) ui (here cs2) \<Longrightarrow> ocode c P (here cs1) update (here cs2)"
    and patch: "patchAt (here csT) (JneP (int (here cs2) + 1 - int (here csT))) (emit [Jump (int (here csS) - int (here cs2))] cs2) = Some csE"
    and leave: "leaveBlock csE = Some cs'"
  shows "extends cs cs' \<and> holes_ok cs' \<and> (\<forall>P T lo. linked P T lo cs' \<longrightarrow> lo \<le> here csS \<longrightarrow>
      linked P (loop_target label (here cs') n # T) lo csS \<and>
      coded_iter c P (loop_target label (here cs') n # T) (here csS) (Some t) update body (here cs1) (here cs'))"
proof -
  let ?j = "JneP (int (here cs2) + 1 - int (here csT))" and ?b = "Jump (int (here csS) - int (here cs2))"
  have okT: "holes_ok csT" "holes_ok (emit [Hole] csT)" "plain (blocks (emit [Hole] csT))" using ok ti pl holes_ok_emit by auto
  note C = compilesD(2-4) [OF body(1) okT(3) body(2) okT(2)]
  have lt: "here csT < here cs1" using extends_here [OF C(1)] by simp
  have h1: "here cs1' = here cs1" using holes_ok_loop_cont(2) [OF k] .
  obtain cs3 where p1: "patchAt (here csT) ?j cs1 = Some cs3"
    using lt unfolding patchAt_def patch_def here_def [of cs1] by simp
  note S = patch_step [OF okT(1) C(1) p1]
  have b3: "blocks cs3 = blocks cs1" "here cs3 = here cs1" using patchAt_simps [OF p1] by auto
  obtain cs3' where k3: "loop_cont csS cs3 cs3' n" "patchAt (here csT) ?j cs1' = Some cs3'"
  proof -
    from k consider "cs1' = cs1" "b_cont (hd (blocks csS)) = n"
      | "cs1' = setInner (\<lambda>b. b\<lparr>b_cont := n\<rparr>) cs1" "n = here cs1" unfolding loop_cont_def by blast
    then show thesis
    proof cases
      case 1 then show ?thesis using that [of cs3] p1 by (simp add: loop_cont_def)
    next
      case 2
      moreover have "patchAt (here csT) ?j (setInner (\<lambda>b. b\<lparr>b_cont := n\<rparr>) cs1) = Some (setInner (\<lambda>b. b\<lparr>b_cont := n\<rparr>) cs3)"
        using p1 by (auto simp: patchAt_def setInner_def bind_eq_Some_conv split: list.splits)
      ultimately show ?thesis using that [of "setInner (\<lambda>b. b\<lparr>b_cont := n\<rparr>) cs3"] b3 by (auto simp: loop_cont_def)
    qed
  qed
  have h2: "here cs2 = here cs1 + length ui" using ui(1) h1 by simp
  have csE: "csE = emit [?b] (emit ui cs3')"
    using patch k3(2) lt h1 unfolding ui(1) by (simp add: patchAt_emit)
  have ex3: "extends csS cs3" by (rule grown_trans [OF _ S(1)]) (simp add: ti(1) extends_emit)
  have ok3: "holes_ok cs3'" "holes_ok (emit ui cs3')" "holes_ok csE" "here cs3' = here cs1"
    using holes_ok_patch [OF p1 C(2)] holes_ok_loop_cont [OF k3(1)] holes_ok_emit csE b3(2) by auto
  have e2: "extends cs3' csE" "extends (emit ui cs3') csE" unfolding csE using extends_emit grown_trans by blast+
  note L = loop_leave [OF op ex3 k3(1) e2(1) ok3(3) leave]
  have "linked P (loop_target label (here cs') n # T) lo csS \<and>
      coded_iter c P (loop_target label (here cs') n # T) (here csS) (Some t) update body (here cs1) (here cs')"
    if P: "linked P T lo cs'" "lo \<le> here csS" for P T lo
  proof (intro conjI coded_iter_test)
    have le: "lo \<le> here csT" "lo \<le> here cs1" using ti(1) lt P(2) by simp_all
    have PE: "linked P (loop_target label (here cs') n # T) lo csE" by (rule L(4) [OF P(1)])
    note P3 = L(5) [OF P(1)]
    have PT: "linked P (loop_target label (here cs') n # T) lo csT" by (rule linked_extends [OF S(1) P3])
    show "linked P (loop_target label (here cs') n # T) lo csS" by (rule L(6) [OF P(1)])
    show "ecode c P (here csS) t True (here csT)"
      using ti(2) linked_emit [OF ok PT [unfolded ti(1)] P(2)] ti(1) by simp
    show "coded c P (loop_target label (here cs') n # T) None (here csT + 1) body (here cs1)"
      using C(3) S(3) [OF P3 le(1)] by simp
    show "ocode c P (here cs1) update (here cs2)"
      using ui(2) linked_emit [OF ok3(1) linked_extends [OF e2(2) PE]] le ok3(4) h2 by simp
    show "instr_at P (here cs2) ?b"
      using linked_emit_one [OF ok3(2) PE [unfolded csE]] le ok3(4) h2 by simp
    show h': "here cs' = here cs2 + 1" using L(3) csE ok3(4) h2 by simp
    show "instr_at P (here csT) (JneP (int (here cs') - int (here csT)))"
      using S(2) [OF P3 le(1)] unfolding h' by (simp add: add.commute)
  qed
  then show ?thesis using L(1,2) by blast
qed

lemma loop_skip:
  assumes op: "opened (newBlock BlockLoop label False) cs csS" and ok: "holes_ok csS" and leave: "leaveBlock (emit is csS) = Some cs'"
  shows "extends cs cs'" "holes_ok cs'" "here cs' = here csS + length is"
    "linked P T lo cs' \<Longrightarrow> lo \<le> here csS \<Longrightarrow> seg P (here csS) is (here cs')"
    "linked P T lo cs' \<Longrightarrow> \<exists>T'. linked P T' lo csS"
proof -
  have k: "loop_cont csS csS csS (b_cont (hd (blocks csS)))" by (simp add: loop_cont_def)
  note L = loop_leave [OF op grown_refl k extends_emit holes_ok_emit [OF ok] leave]
  show "extends cs cs'" "holes_ok cs'" "here cs' = here csS + length is" using L(1-3) by simp_all
  show "seg P (here csS) is (here cs')" if "linked P T lo cs'" "lo \<le> here csS"
    using linked_emit [OF ok L(4) [OF that(1)] that(2)] L(3) by simp
  show "\<exists>T'. linked P T' lo csS" if "linked P T lo cs'" using L(6) [OF that] by blast
qed

lemma keeps_same: "blocks cs' = blocks cs \<Longrightarrow> keeps ss label cs cs'"
  by (simp add: keeps_def)

lemma compiles_while:
  assumes wf: "tidy c (WhileS t body)" and B: "compiles c body None f"
  shows "compiles c (WhileS t body) label (compileLabeledWhileStatement c t f label)"
proof -
  have main: "keeps [WhileS t body] label cs cs' \<and> (holes_ok cs \<longrightarrow> extends cs cs' \<and> holes_ok cs' \<and>
       (\<forall>P T. linked P T (here cs) cs' \<longrightarrow> coded c P T label (here cs) (WhileS t body) (here cs')))"
    if pl: "plain (blocks cs)" and comp: "compileLabeledWhileStatement c t f label False cs = Some cs'" for cs cs'
  proof -
    let ?b = "(newBlock BlockLoop label False)\<lparr>b_cont := here cs\<rparr>"
    define csS where "csS = setInner (\<lambda>b. b\<lparr>b_cont := here cs\<rparr>) (openBlock (newBlock BlockLoop label False) cs)"
    have op: "opened (newBlock BlockLoop label False) cs csS" unfolding csS_def by (rule opened_cont [OF opened_open])
    have bS: "blocks csS = ?b # blocks cs" "here csS = here cs" by (simp_all add: csS_def setInner_def openBlock_def here_def)
    have plS: "plain (blocks csS)" using pl by (simp add: bS plain_def)
    have okS: "holes_ok csS" if "holes_ok cs" using that by (simp add: csS_def holes_ok_open)
    have wt: "wf_expr t" using wf by simp
    have hO: "here (openBlock b cs) = here cs" for b by (simp add: openBlock_def here_def)
    obtain test k where test: "compileExpression c t = Some test" "constTest c test = Some k"
      using comp by (auto simp: compileLabeledWhileStatement_def bind_eq_Some_conv Let_def)
    note comp = comp [unfolded compileLabeledWhileStatement_def test Option.bind.simps clearIf_False Let_def hO csS_def [symmetric]]
    have kb: "keeps [WhileS t body] label cs cs'" if "f False csX = Some cs1" "blocks csX = blocks csS" "blocks cs' = tl (blocks cs1)" for csX cs1
    proof -
      have "keeps [body] None csX cs1" using compilesD(1) [OF B _ that(1)] plS that(2) by simp
      then show ?thesis by (rule keeps_loop [where b = ?b]) (use that bS in simp_all)
    qed
    from constTest_cases [OF test wt] show ?thesis
    proof cases
      case (2 r)
      show ?thesis
      proof (cases r)
        case (Inl ex)
        then obtain "is" where "is": "leaveBlock (emit is csS) = Some cs'"
          "\<And>P. seg P (here csS) is (here csS + length is) \<Longrightarrow> tcode c P (here csS) ex (here csS + length is)"
          using comp 2(1) emitted_throw [of c ex csS] by (auto simp: bind_eq_Some_conv)
        have "keeps [WhileS t body] label cs cs'" using leave_blocks [OF "is"(1)] bS by (intro keeps_same) simp
        then show ?thesis
          using loop_skip [OF op okS "is"(1)] "is"(2) bS 2(2) Inl by (auto intro!: coded_while_throw)
      next
        case (Inr v)
        show ?thesis
        proof (cases "ToBoolean v")
          case True
          then obtain cs1 where cs1: "f False csS = Some cs1" "leaveBlock (emit [Jump (int (here csS) - int (here cs1))] cs1) = Some cs'"
            using comp 2(1) Inr bS by (auto simp: bind_eq_Some_conv dist_def)
          have "keeps [WhileS t body] label cs cs'" using kb [OF cs1(1)] leave_blocks [OF cs1(2)] by simp
          moreover have k: "loop_cont csS cs1 cs1 (here csS)" using bS by (simp add: loop_cont_def)
          moreover have "cs1 = emit [] cs1" by (simp add: emit_def)
          ultimately show ?thesis
            using iter_const_layout [OF op okS plS B cs1(1) k, of cs1 "[]" None cs' "Some t"] cs1(2) 2(2) Inr True bS
            by (auto simp: ocode_def intro!: coded_while)
        next
          case False
          then obtain cs1 where cs1: "inDummyMode (f False) csS = Some cs1" "leaveBlock cs1 = Some cs'"
            using comp 2(1) Inr by (auto simp: bind_eq_Some_conv)
          have "confined [] True body" using wf 2 Inr False by (auto simp: dead_def)
          then have "cs1 = csS" using dummy_stmt [OF B cs1(1) plS, of True] bS by simp
          then have l: "leaveBlock (emit [] csS) = Some cs'" using cs1(2) by (simp add: emit_def)
          have "keeps [WhileS t body] label cs cs'" using leave_blocks [OF l] bS by (intro keeps_same) simp
          then show ?thesis
            using loop_skip [OF op okS l] bS 2(2) Inr False by (auto intro!: coded_while_skip)
        qed
      qed
    next
      case 1
      obtain csT cs1 csE where csT: "emitted (ce_emitGetter test True) csS = Some csT" and cs1: "f False (emit [Hole] csT) = Some cs1"
        and p: "patchAt (here csT) (JneP (int (here cs1) + 1 - int (here csT))) (emit [Jump (int (here csS) - int (here cs1))] cs1) = Some csE"
        and l: "leaveBlock csE = Some cs'"
        using comp 1 bS by (auto simp: bind_eq_Some_conv dist_def add.commute)
      obtain ti where ti: "csT = emit ti csS" "\<And>P. seg P (here csS) ti (here csT) \<Longrightarrow> ecode c P (here csS) t True (here csT)"
        using emitted_getter [OF test(1) wt csT] by force
      have "keeps [WhileS t body] label cs cs'"
        using kb [OF cs1] leave_blocks [OF l] patchAt_simps(3) [OF p] ti(1) by simp
      moreover have k: "loop_cont csS cs1 cs1 (here csS)" using bS by (simp add: loop_cont_def)
      moreover have "cs1 = emit [] cs1" by (simp add: emit_def)
      ultimately show ?thesis
        using iter_test_layout [OF op okS plS ti B cs1 k, of cs1 "[]" None csE cs'] p l bS
        by (auto simp: ocode_def intro!: coded_while)
    qed
  qed
  show ?thesis by (rule compilesI) (use main in blast)+
qed

lemma compiles_do:
  assumes wt: "wf_expr t" and B: "compiles c body None f"
  shows "compiles c (DoWhileS body t) label (compileLabeledDoWhileStatement c f t label)"
proof (rule compilesI)
  fix cs cs' assume pl: "plain (blocks cs)" and comp: "compileLabeledDoWhileStatement c f t label False cs = Some cs'"
  let ?b = "newBlock BlockLoop label False"
  define csS where "csS = openBlock ?b cs"
  have op: "opened ?b cs csS" unfolding csS_def by (rule opened_open)
  have bS: "blocks csS = ?b # blocks cs" "here csS = here cs" by (simp_all add: csS_def openBlock_def here_def)
  have plS: "plain (blocks csS)" using pl by (simp add: bS plain_def)
  obtain cs1 cs2 where cs1: "f False csS = Some cs1"
    and cs2: "emitExpression c t True (setInner (\<lambda>b. b\<lparr>b_cont := here cs1\<rparr>) cs1) = Some cs2"
    and l: "leaveBlock (emit [JeqP (int (here csS) - int (here cs2))] cs2) = Some cs'"
    using comp unfolding compileLabeledDoWhileStatement_def Let_def csS_def [symmetric] by (auto simp: bind_eq_Some_conv dist_def)
  define cs1' where "cs1' = setInner (\<lambda>b. b\<lparr>b_cont := here cs1\<rparr>) cs1"
  let ?csE = "emit [JeqP (int (here csS) - int (here cs2))] cs2"
  have k: "loop_cont csS cs1 cs1' (here cs1)" by (simp add: loop_cont_def cs1'_def)
  have h1: "here cs1' = here cs1" by (simp add: cs1'_def)
  obtain ti where ti: "cs2 = emit ti cs1'" "\<And>P. seg P (here cs1') ti (here cs2) \<Longrightarrow> ecode c P (here cs1') t True (here cs2)"
    using emitExpression_code [OF cs2 wt] unfolding cs1'_def [symmetric] by force
  note C = compilesD [OF B plS cs1]
  have b1: "map shape (blocks cs1') = map shape (blocks cs1)" "drop n (tl (blocks cs1')) = drop n (tl (blocks cs1))"
     "tl (blocks cs1') = tl (blocks cs1)" for n
    by (simp_all add: cs1'_def setInner_def shape_def split: list.splits)
  show "keeps [DoWhileS body t] label cs cs'"
    using C(1) bS(1) by (rule keeps_loop) (use leave_blocks [OF l] ti(1) b1 in simp_all)
  show "extends cs cs' \<and> holes_ok cs' \<and> (\<forall>P T. linked P T (here cs) cs' \<longrightarrow> coded c P T label (here cs) (DoWhileS body t) (here cs'))"
    if ok: "holes_ok cs"
  proof -
    have okS: "holes_ok csS" using ok by (simp add: csS_def holes_ok_open)
    have ok1: "holes_ok cs1'" "holes_ok cs2" "holes_ok ?csE"
      using C(3) [OF okS] holes_ok_loop_cont [OF k] ti(1) holes_ok_emit by auto
    have e2: "extends cs1' ?csE" "extends cs2 ?csE" using ti(1) extends_emit grown_trans by blast+
    note L = loop_leave [OF op C(2) [OF okS] k e2(1) ok1(3) l]
    have "coded c P T label (here cs) (DoWhileS body t) (here cs')" if P: "linked P T (here cs) cs'" for P T
    proof (rule coded_do)
      have le: "here cs \<le> here cs1" using extends_here [OF C(2) [OF okS]] bS(2) by simp
      show "coded c P (loop_target label (here cs') (here cs1) # T) None (here cs) body (here cs1)"
        using C(4) [OF okS] L(5) [OF P] bS(2) by simp
      have PE: "linked P (loop_target label (here cs') (here cs1) # T) (here cs) ?csE" by (rule L(4) [OF P])
      show "ecode c P (here cs1) t True (here cs2)"
        using ti(2) linked_emit [OF ok1(1) linked_extends [OF e2(2) PE, unfolded ti(1)]] le h1 ti(1) by simp
      show "instr_at P (here cs2) (JeqP (int (here cs) - int (here cs2)))"
        using linked_emit_one [OF ok1(2) PE] le h1 ti(1) bS(2) by simp
      show "here cs' = here cs2 + 1" using L(3) by simp
    qed
    then show ?thesis using L(1,2) by blast
  qed
qed

lemma compiles_for:
  assumes wf: "tidy c (ForS i t u body)" and B: "compiles c body None f"
  shows "compiles c (ForS i t u body) label (compileLabeledForStatement c i t u f label)"
proof -
  let ?s = "ForS i t u body"
  have main: "keeps [?s] label cs cs' \<and> (holes_ok cs \<longrightarrow> extends cs cs' \<and> holes_ok cs' \<and>
       (\<forall>P T. linked P T (here cs) cs' \<longrightarrow> coded c P T label (here cs) ?s (here cs')))"
    if pl: "plain (blocks cs)" and comp: "compileLabeledForStatement c i t u f label False cs = Some cs'" for cs cs'
  proof -
    let ?b = "newBlock BlockLoop label False"
    have wfi: "pred_option wf_expr i" "pred_option wf_expr u" using wf by simp_all
    obtain csS where csS: "updateCode c i (openBlock ?b cs) = Some csS"
      using comp by (auto simp: compileLabeledForStatement_def bind_eq_Some_conv)
    have ho: "here (openBlock ?b cs) = here cs" by (simp add: openBlock_def here_def)
    obtain ii where ii: "csS = emit ii (openBlock ?b cs)" "\<And>P. seg P (here cs) ii (here csS) \<Longrightarrow> ocode c P (here cs) i (here csS)"
      using updateCode_code [OF csS wfi(1)] ho by force
    have op: "opened ?b cs csS" unfolding ii(1) by (rule opened_extends [OF opened_open extends_emit])
    have bS: "blocks csS = ?b # blocks cs" "here cs \<le> here csS" using ho by (simp_all add: ii openBlock_def)
    have plS: "plain (blocks csS)" using pl by (simp add: bS plain_def)
    have okO: "holes_ok (openBlock ?b cs)" if "holes_ok cs" using that by (simp add: holes_ok_open)
    have okS: "holes_ok csS" if "holes_ok cs" using okO [OF that] by (simp add: ii holes_ok_emit)
    have init: "ocode c P (here cs) i (here csS)" if "holes_ok cs" "linked P T (here cs) csS" for P T
      using ii linked_emit [OF okO, of P T "here cs" ii] that ho by simp
    obtain a k where a: "(case t of None \<Rightarrow> Some None | Some e \<Rightarrow> map_option Some (compileExpression c e)) = Some a"
      and k: "(case a of None \<Rightarrow> Some (Some (Inr (VBool True))) | Some e \<Rightarrow> constTest c e) = Some k"
      using comp csS by (auto simp: compileLabeledForStatement_def bind_eq_Some_conv Let_def)
    note comp = comp [unfolded compileLabeledForStatement_def csS a k Option.bind.simps clearIf_False Let_def]
    have kb: "keeps [?s] label cs cs'" if "f False csX = Some cs1" "blocks csX = blocks csS" "blocks cs' = tl (blocks cs1)" for csX cs1
    proof -
      have "keeps [body] None csX cs1" using compilesD(1) [OF B _ that(1)] plS that(2) by simp
      then show ?thesis by (rule keeps_loop [where b = ?b]) (use that bS in simp_all)
    qed
    have upd: "\<exists>ui. cs2 = emit ui (setInner (\<lambda>b. b\<lparr>b_cont := here cs1\<rparr>) cs1) \<and>
        (\<forall>P. seg P (here cs1) ui (here cs2) \<longrightarrow> ocode c P (here cs1) u (here cs2)) \<and> tl (blocks cs2) = tl (blocks cs1)"
      if "updateCode c u (setInner (\<lambda>b. b\<lparr>b_cont := here cs1\<rparr>) cs1) = Some cs2" for cs1 cs2
    proof -
      have "tl (blocks (setInner (\<lambda>b. b\<lparr>b_cont := here cs1\<rparr>) cs1)) = tl (blocks cs1)"
        by (simp add: setInner_def split: list.splits)
      then show ?thesis using updateCode_code [OF that wfi(2)] by force
    qed
    have runs: ?thesis
      if k': "k = Some (Inr v)" "ToBoolean v" and tt: "t = None \<or> (\<exists>e v. t = Some e \<and> ctest c e (Inr v) \<and> ToBoolean v)" for v
    proof -
      obtain cs1 cs2 where cs1: "f False csS = Some cs1" "updateCode c u (setInner (\<lambda>b. b\<lparr>b_cont := here cs1\<rparr>) cs1) = Some cs2"
          "leaveBlock (emit [Jump (int (here csS) - int (here cs2))] cs2) = Some cs'"
        using comp k' by (auto simp: bind_eq_Some_conv dist_def)
      obtain ui where ui: "cs2 = emit ui (setInner (\<lambda>b. b\<lparr>b_cont := here cs1\<rparr>) cs1)"
        "\<And>P. seg P (here cs1) ui (here cs2) \<Longrightarrow> ocode c P (here cs1) u (here cs2)" "tl (blocks cs2) = tl (blocks cs1)"
        using upd [OF cs1(2)] by blast
      have keep: "keeps [?s] label cs cs'" using kb [OF cs1(1)] leave_blocks [OF cs1(3)] ui(3) by simp
      have kk: "loop_cont csS cs1 (setInner (\<lambda>b. b\<lparr>b_cont := here cs1\<rparr>) cs1) (here cs1)" by (simp add: loop_cont_def)
      note I = iter_const_layout [OF op okS plS B cs1(1) kk ui(1,2) cs1(3), where test = t]
      show ?thesis using keep I init bS(2) tt by (blast intro: coded_for)
    qed
    show ?thesis
    proof (cases t)
      case None
      then show ?thesis using runs [of "VBool True"] a k by auto
    next
      case (Some e)
      then obtain test where test: "compileExpression c e = Some test" "a = Some test" "constTest c test = Some k" using a k by auto
      have we: "wf_expr e" using wf Some by simp
      from constTest_cases [OF test(1,3) we] show ?thesis
      proof cases
        case (2 r)
        show ?thesis
        proof (cases r)
          case (Inl ex)
          then obtain "is" where "is": "leaveBlock (emit is csS) = Some cs'"
            "\<And>P. seg P (here csS) is (here csS + length is) \<Longrightarrow> tcode c P (here csS) ex (here csS + length is)"
            using comp 2(1) emitted_throw [of c ex csS] by (auto simp: bind_eq_Some_conv)
          have keep: "keeps [?s] label cs cs'" using leave_blocks [OF "is"(1)] bS by (intro keeps_same) simp
          note S = loop_skip [OF op okS "is"(1)]
          have "coded c P T label (here cs) ?s (here cs')" if "holes_ok cs" "linked P T (here cs) cs'" for P T
            using S(5) [OF that] init [OF that(1)] S(4) [OF that bS(2)] S(3) [OF that(1)] "is"(2) 2(2) Inl Some
            by (auto intro: coded_for_throw)
          then show ?thesis using S(1,2) keep by blast
        next
          case (Inr v)
          show ?thesis
          proof (cases "ToBoolean v")
            case True
            then show ?thesis using runs [of v] 2 Inr Some by blast
          next
            case False
            then obtain cs1 where cs1: "inDummyMode (\<lambda>cs. Option.bind (f False cs) (updateCode c u)) csS = Some cs1" "leaveBlock cs1 = Some cs'"
              using comp 2(1) Inr by (auto simp: bind_eq_Some_conv)
            have conf: "confined [] True body" using wf 2 Inr False Some by (auto simp: dead_def)
            have "cs1 = csS"
            proof (rule dummy_same [OF cs1(1) plS, of "[body]" True])
              fix d d' assume d: "plain (blocks d)" "Option.bind (f False d) (updateCode c u) = Some d'"
              then obtain d1 where d1: "f False d = Some d1" "updateCode c u d1 = Some d'" by (auto simp: bind_eq_Some_conv)
              have "blocks d' = blocks d1" using updateCode_code [OF d1(2) wfi(2)] by auto
              then show "keeps [body] None d d'" using compilesD(1) [OF B d(1) d1(1)] keeps_blocks by blast
            qed (use conf bS in simp_all)
            then have l: "leaveBlock (emit [] csS) = Some cs'" using cs1(2) by (simp add: emit_def)
            have keep: "keeps [?s] label cs cs'" using leave_blocks [OF l] bS by (intro keeps_same) simp
            note S = loop_skip [OF op okS l]
            have "coded c P T label (here cs) ?s (here cs')" if "holes_ok cs" "linked P T (here cs) cs'" for P T
              using S(5) [OF that] init [OF that(1)] S(3) [OF that(1)] 2(2) Inr Some False
              by (auto intro: coded_for_skip)
            then show ?thesis using S(1,2) keep by blast
          qed
        qed
      next
        case 1
        obtain csT cs1 cs2 csE where csT: "emitted (ce_emitGetter test True) csS = Some csT" and cs1: "f False (emit [Hole] csT) = Some cs1"
          and cs2: "updateCode c u (setInner (\<lambda>b. b\<lparr>b_cont := here cs1\<rparr>) cs1) = Some cs2"
          and p: "patchAt (here csT) (JneP (int (here cs2) + 1 - int (here csT))) (emit [Jump (int (here csS) - int (here cs2))] cs2) = Some csE"
          and l: "leaveBlock csE = Some cs'"
          using comp 1 test(2) by (auto simp: bind_eq_Some_conv dist_def add.commute)
        obtain ti where ti: "csT = emit ti csS" "\<And>P. seg P (here csS) ti (here csT) \<Longrightarrow> ecode c P (here csS) e True (here csT)"
          using emitted_getter [OF test(1) we csT] by force
        obtain ui where ui: "cs2 = emit ui (setInner (\<lambda>b. b\<lparr>b_cont := here cs1\<rparr>) cs1)"
          "\<And>P. seg P (here cs1) ui (here cs2) \<Longrightarrow> ocode c P (here cs1) u (here cs2)" "tl (blocks cs2) = tl (blocks cs1)"
          using upd [OF cs2] by blast
        have keep: "keeps [?s] label cs cs'"
          using kb [OF cs1] leave_blocks [OF l] patchAt_simps(3) [OF p] ti(1) ui(3) by simp
        have kk: "loop_cont csS cs1 (setInner (\<lambda>b. b\<lparr>b_cont := here cs1\<rparr>) cs1) (here cs1)" by (simp add: loop_cont_def)
        note I = iter_test_layout [OF op okS plS ti B cs1 kk ui(1,2) p l]
        show ?thesis using keep I init bS(2) Some by (blast intro: coded_for)
      qed
    qed
  qed
  show ?thesis by (rule compilesI) (use main in blast)+
qed

subsection \<open>The try statement\<close>

definition stmts_of :: "stmt list option \<Rightarrow> stmt list" where
  "stmts_of b = (case b of None \<Rightarrow> [] | Some ss \<Rightarrow> ss)"

text \<open>The two parts of \<^verbatim>\<open>compileTryStatement\<close> after the body.\<close>

definition catch_part :: "stmtCompiler option \<Rightarrow> nat \<Rightarrow> cstate \<Rightarrow> (int \<times> cstate) option" where
  "catch_part h lbl csB =
     (case h of
        None \<Rightarrow> Some (0, csB)
      | Some h \<Rightarrow>
          let lbl2 = here csB; cs = emit [Hole] csB; catchOffset = dist lbl cs in
          Option.bind (h False (emit [Pop] cs)) (\<lambda>cs. Option.bind (patchAt lbl2 (Jump (dist lbl2 cs)) cs) (\<lambda>cs. Some (catchOffset, cs))))"

definition finally_part :: "(stmt list \<times> stmtCompiler) option \<Rightarrow> nat \<Rightarrow> cstate \<Rightarrow> (int \<times> cstate) option" where
  "finally_part f lbl csC =
     (case f of
        None \<Rightarrow> Some (0, emit [LeaveTry] csC)
      | Some (_, f) \<Rightarrow>
          let cs = emit [EnterFinally] csC; finallyOffset = dist lbl cs in
          Option.bind (f False cs) (\<lambda>cs. Some (finallyOffset, emit [LeaveFinally] cs)))"

lemma catch_layout:
  assumes pl: "plain (blocks csB)" and H: "rel_option (compiless c) catch h"
    and comp: "catch_part h lbl csB = Some (co, csC)"
  shows "keeps (stmts_of catch) None csB csC \<and> (holes_ok csB \<longrightarrow> extends csB csC \<and> holes_ok csC \<and>
     (\<forall>P T lo. linked P T lo csC \<longrightarrow> lo \<le> here csB \<longrightarrow>
        (case catch of
           None \<Rightarrow> here csC = here csB \<and> co = 0
         | Some ss \<Rightarrow> instr_at P (here csB) (Jump (int (here csC) - int (here csB))) \<and> co = int (here csB) + 1 - int lbl \<and>
             instr_at P (here csB + 1) Pop) \<and>
        (\<forall>ss. catch = Some ss \<longrightarrow> codeds c P T (here csB + 2) ss (here csC))))"
  using H
proof cases
  case None
  then show ?thesis using comp by (auto simp: catch_part_def keeps_refl grown_refl stmts_of_def)
next
  case (Some ss f)
  let ?cs = "emit [Pop] (emit [Hole] csB)"
  obtain csH where csH: "f False ?cs = Some csH" and p: "patchAt (here csB) (Jump (dist (here csB) csH)) csH = Some csC"
    and co: "co = int (here csB) + 1 - int lbl"
    using comp Some by (auto simp: catch_part_def bind_eq_Some_conv Let_def dist_def)
  have plC: "plain (blocks ?cs)" using pl by simp
  note C = compilessD [OF Some(3) plC csH] and ps = patchAt_simps [OF p]
  have keep: "keeps ss None csB csC" using C(1) ps(3) by (simp add: keeps_def)
  show ?thesis
  proof (cases "holes_ok csB")
    case False
    then show ?thesis using keep Some(1) by (simp add: stmts_of_def)
  next
    case ok: True
    have okC: "holes_ok (emit [Hole] csB)" "holes_ok ?cs" using holes_ok_emit [OF ok] holes_ok_emit by blast+
    note E = grown_trans [OF extends_emit C(2) [OF okC(2)]]
    note S = patch_step [OF ok E p]
    have "instr_at P (here csB) (Jump (int (here csC) - int (here csB))) \<and> instr_at P (here csB + 1) Pop \<and>
        codeds c P T (here csB + 2) ss (here csC)" if P: "linked P T lo csC" "lo \<le> here csB" for P T lo
    proof (intro conjI)
      show "instr_at P (here csB) (Jump (int (here csC) - int (here csB)))" using S(2) [OF P] ps(4) by (simp add: dist_def)
      note P1 = S(3) [OF P]
      show "instr_at P (here csB + 1) Pop"
        using linked_emit_one [OF okC(1) linked_extends [OF C(2) [OF okC(2)] P1]] by simp
      have "linked P T (here ?cs) csH" using linked_mono [OF P1] by simp
      then show "codeds c P T (here csB + 2) ss (here csC)" using C(4) [OF okC(2)] ps(4) by (simp add: numeral_2_eq_2)
    qed
    then show ?thesis using keep co Some(1) S(1) holes_ok_patch [OF p C(3) [OF okC(2)]] by (auto simp: stmts_of_def)
  qed
qed

lemma finally_layout:
  assumes pl: "plain (blocks csC)" and F: "rel_option (\<lambda>ss x. fst x = ss \<and> compiless c ss (snd x)) fin f"
    and comp: "finally_part f lbl csC = Some (fo, csF)"
  shows "keeps (stmts_of fin) None csC csF \<and> (holes_ok csC \<longrightarrow> extends csC csF \<and> holes_ok csF \<and>
     (\<forall>P T lo. linked P T lo csF \<longrightarrow> lo \<le> here csC \<longrightarrow>
       (\<exists>r. (case fin of
           None \<Rightarrow> instr_at P (here csC) LeaveTry \<and> here csF = here csC + 1 \<and> fo = 0
         | Some ss \<Rightarrow> instr_at P (here csC) EnterFinally \<and> fo = int (here csC) + 1 - int lbl \<and> instr_at P r LeaveFinally \<and> here csF = r + 1) \<and>
        (\<forall>ss. fin = Some ss \<longrightarrow> codeds c P T (here csC + 1) ss r))))"
  using F
proof cases
  case None
  then have "csF = emit [LeaveTry] csC" "fo = 0" using comp by (auto simp: finally_part_def)
  then show ?thesis using None linked_emit_one [of csC] by (auto simp: extends_emit holes_ok_emit stmts_of_def keeps_def)
next
  case (Some ss x)
  let ?cs = "emit [EnterFinally] csC"
  obtain csG where csG: "snd x False ?cs = Some csG" and csF: "csF = emit [LeaveFinally] csG" and fo: "fo = int (here csC) + 1 - int lbl"
    using comp Some by (cases x) (auto simp: finally_part_def bind_eq_Some_conv Let_def dist_def)
  have plC: "plain (blocks ?cs)" using pl by simp
  have G: "compiless c ss (snd x)" using Some by simp
  note C = compilessD [OF G plC csG]
  have keep: "keeps ss None csC csF" using C(1) csF by (simp add: keeps_def)
  show ?thesis
  proof (cases "holes_ok csC")
    case False
    then show ?thesis using keep Some(1) by (simp add: stmts_of_def)
  next
    case ok: True
    have okC: "holes_ok ?cs" "holes_ok csG" "holes_ok csF" using ok holes_ok_emit C(3) csF by blast+
    note E = C(2) [OF okC(1)]
    have EF: "extends csG csF" unfolding csF by (rule extends_emit)
    have "instr_at P (here csC) EnterFinally \<and> instr_at P (here csG) LeaveFinally \<and> codeds c P T (here csC + 1) ss (here csG)"
      if P: "linked P T lo csF" "lo \<le> here csC" for P T lo
    proof (intro conjI)
      have PG: "linked P T lo csG" by (rule linked_extends [OF EF P(1)])
      show "instr_at P (here csC) EnterFinally" by (rule linked_emit_one [OF ok linked_extends [OF E PG] P(2)])
      have "lo \<le> here csG" using P(2) extends_here [OF E] by simp
      then show "instr_at P (here csG) LeaveFinally" using linked_emit_one [OF okC(2)] P(1) csF by blast
      have "linked P T (here ?cs) csG" using linked_mono [OF PG] P(2) by simp
      then show "codeds c P T (here csC + 1) ss (here csG)" using C(4) [OF okC(1)] by simp
    qed
    moreover have "here csF = here csG + 1" using csF by simp
    moreover have "extends csC csF" using grown_trans [OF extends_emit grown_trans [OF E EF]] .
    ultimately show ?thesis using keep fo Some(1) okC(3) by (auto simp: stmts_of_def)
  qed
qed

lemma scan_none: "\<not> list_ex is_branch ss \<Longrightarrow> \<exists>lp'. scanStatements bs ss i lp = Some (lp', None)"
  by (induction ss arbitrary: i lp) (auto simp: is_branch_def split: stmt.splits)

lemma compiles_try:
  assumes B: "compiless c body f" and H: "rel_option (compiless c) catch h"
    and F: "rel_option (\<lambda>ss x. fst x = ss \<and> compiless c ss (snd x)) fin g" and nb: "\<forall>ss. fin = Some ss \<longrightarrow> \<not> list_ex is_branch ss"
  shows "compiles c (TryS body catch fin) None (compileTryStatement f h g)"
proof -
  let ?s = "TryS body catch fin"
  have main: "keeps [?s] None cs cs' \<and> (holes_ok cs \<longrightarrow> extends cs cs' \<and> holes_ok cs' \<and>
       (\<forall>P T. linked P T (here cs) cs' \<longrightarrow> coded c P T None (here cs) ?s (here cs')))"
    if pl: "plain (blocks cs)" and comp: "compileTryStatement f h g False cs = Some cs'" for cs cs'
  proof -
    let ?b = "newBlock BlockTry None False"
    define cs0 where "cs0 = openBlock ?b cs"
    have op: "opened ?b cs cs0" unfolding cs0_def by (rule opened_open)
    have b0: "blocks cs0 = ?b # blocks cs" "here cs0 = here cs" by (simp_all add: cs0_def openBlock_def here_def)
    have pl0: "plain (blocks (emit [Hole] cs0))" using pl by (simp add: b0 plain_def)
    have scan: "\<exists>lp'. (case g of None \<Rightarrow> Some (0, None) | Some (ss, _) \<Rightarrow> scanStatements bs ss 0 (-1)) = Some (lp', None)" for bs
      using F nb scan_none by cases (auto split: prod.splits)
    have si: "setInner (\<lambda>b. b\<lparr>b_breaking := None\<rparr>) cs0 = cs0" by (simp add: setInner_def cs0_def openBlock_def newBlock_def)
    obtain csB co csC fo csF csE where csB: "f False (emit [Hole] cs0) = Some csB"
      and csC: "catch_part h (here cs0) csB = Some (co, csC)" and csF: "finally_part g (here cs0) csC = Some (fo, csF)"
      and p: "patchAt (here cs0) (Try co fo) csF = Some csE" and l: "leaveBlock csE = Some cs'"
    proof -
      obtain lp where lp: "(case g of None \<Rightarrow> Some (0, None) | Some (ss, _) \<Rightarrow> scanStatements (blocks cs0) ss 0 (-1)) = Some (lp, None)"
        using scan by blast
      note comp = comp [unfolded compileTryStatement_def Let_def cs0_def [symmetric], unfolded lp Option.bind.simps prod.case option.case si clearIf_def simp_thms if_False]
      show thesis using that comp unfolding catch_part_def finally_part_def Let_def
        by (auto simp: bind_eq_Some_conv)
    qed
    note CB = compilessD [OF B pl0 csB]
    have plB: "plain (blocks csB)" using keeps_plain [OF CB(1)] pl0 by simp
    note CC = catch_layout [OF plB H csC, unfolded b0(2)]
    have plC: "plain (blocks csC)" using CC keeps_plain plB by blast
    note CF = finally_layout [OF plC F csF, unfolded b0(2)]
    have "keeps body None cs0 csB" using CB(1) by (simp add: keeps_def)
    then have "keeps (body @ stmts_of catch @ stmts_of fin) None cs0 csF"
      using CC CF by (intro keeps_trans [of body cs0 csB] keeps_trans [of _ csB csC]) simp_all
    then have keep: "keeps [?s] None cs cs'"
      by (rule keeps_block [OF _ b0(1)])
        (use leave_blocks [OF l] patchAt_simps(3) [OF p] in \<open>auto simp: stmts_of_def split: option.splits\<close>)
    show ?thesis
    proof (cases "holes_ok cs")
      case True
      have ok0: "holes_ok cs0" "holes_ok (emit [Hole] cs0)" using True holes_ok_open [of ?b cs] holes_ok_emit by (auto simp: cs0_def)
      note EB = CB(2) [OF ok0(2)] and okB = CB(3) [OF ok0(2)]
      have EC: "extends csB csC" "holes_ok csC" using CC okB by blast+
      have EF: "extends csC csF" "holes_ok csF" using CF EC by blast+
      have E: "extends (emit [Hole] cs0) csF" using EB EC EF grown_trans by blast
      note S = patch_step [OF ok0(1) E p]
      have opE: "opened ?b cs csE" by (rule opened_extends [OF op S(1)])
      have okE: "holes_ok csE" by (rule holes_ok_patch [OF p EF(2)])
      obtain b bs where b: "blocks csE = b # bs" using opE by (auto simp: opened_def)
      note inner = opened_inner [OF opE _ _ b, simplified]
      note L = leave_step [OF opE _ _ l okE b, simplified]
      have tb: "b_typ b = BlockTry" "b_label b = None" using inner(1) by (auto simp: shape_def)
      have "coded c P T None (here cs) ?s (here cs')" if P: "linked P T (here cs) cs'" for P T
      proof -
        have PE: "linked P (try_target # T) (here cs) csE"
          using L(5) [OF P, of try_target] tb inner(3,4) by (simp add: try_target_def)
        have PF: "linked P (try_target # T) (here cs + 1) csF" using S(3) [OF PE] b0 by simp
        have PC: "linked P (try_target # T) (here cs + 1) csC" by (rule linked_extends [OF EF(1) PF])
        have PB: "linked P (try_target # T) (here cs + 1) csB" by (rule linked_extends [OF EC(1) PC])
        have le: "here cs + 1 \<le> here csB" "here csB \<le> here csC" using extends_here [OF EB] extends_here [OF EC(1)] b0 by auto
        have q: "here cs' = here csF" using L(3) patchAt_simps(4) [OF p] by simp
        have X: "(case catch of
           None \<Rightarrow> here csC = here csB \<and> co = 0
         | Some ss \<Rightarrow> instr_at P (here csB) (Jump (int (here csC) - int (here csB))) \<and> co = int (here csB) + 1 - int (here cs) \<and>
             instr_at P (here csB + 1) Pop)" "\<And>ss. catch = Some ss \<Longrightarrow> codeds c P (try_target # T) (here csB + 2) ss (here csC)"
          using CC okB PC le(1) by blast+
        obtain r where Y: "(case fin of
           None \<Rightarrow> instr_at P (here csC) LeaveTry \<and> here csF = here csC + 1 \<and> fo = 0
         | Some ss \<Rightarrow> instr_at P (here csC) EnterFinally \<and> fo = int (here csC) + 1 - int (here cs) \<and> instr_at P r LeaveFinally \<and> here csF = r + 1)"
          "\<And>ss. fin = Some ss \<Longrightarrow> codeds c P (try_target # T) (here csC + 1) ss r"
          using CF EC(2) PF order_trans [OF le] by blast
        show ?thesis unfolding q
        proof (rule coded_try)
          show "instr_at P (here cs) (Try co fo)" using S(2) [OF PE] b0 by simp
          show "codeds c P (try_target # T) (here cs + 1) body (here csB)" using CB(4) [OF ok0(2)] PB b0 by simp
        qed (use X Y le in simp_all)
      qed
      then show ?thesis using keep L(1,2) by blast
    qed (simp add: keep)
  qed
  show ?thesis by (rule compilesI) (use main in blast)+
qed

subsection \<open>Labels, lists and the whole of it\<close>

lemma compiles_label:
  assumes nl: "\<not> is_loop s" and B: "compiles c s None f"
  shows "compiles c (LabelledS l s) None (compileGenericLabeledStatement f l)"
proof (rule compilesI)
  fix cs cs' assume pl: "plain (blocks cs)" and comp: "compileGenericLabeledStatement f l False cs = Some cs'"
  let ?b = "newBlock BlockLabel (Some l) False"
  obtain cs1 where cs1: "f False (openBlock ?b cs) = Some cs1" "leaveBlock cs1 = Some cs'"
    using comp by (auto simp: compileGenericLabeledStatement_def bind_eq_Some_conv)
  have b0: "blocks (openBlock ?b cs) = ?b # blocks cs" "here (openBlock ?b cs) = here cs" by (simp_all add: openBlock_def here_def)
  have pl0: "plain (blocks (openBlock ?b cs))" using pl by (simp add: b0 plain_def)
  note C = compilesD [OF B pl0 cs1(1)]
  show "keeps [LabelledS l s] None cs cs'"
  proof (rule keeps_block [OF C(1) b0(1)])
    fix ls lp assume "confined ls lp (LabelledS l s)"
    then show "\<exists>ls' lp'. list_all (confined ls' lp') [s] \<and> (lp' \<longrightarrow> lp \<or> b_typ ?b = BlockLoop) \<and>
        (\<forall>la\<in>set ls'. la \<in> set ls \<and> None \<noteq> Some la \<or> b_label ?b = Some la)"
      by (intro exI [of _ "l # ls"] exI [of _ lp]) auto
  qed (use leave_blocks [OF cs1(2)] in simp)
  show "extends cs cs' \<and> holes_ok cs' \<and> (\<forall>P T. linked P T (here cs) cs' \<longrightarrow> coded c P T None (here cs) (LabelledS l s) (here cs'))"
    if "holes_ok cs"
  proof -
    have ok0: "holes_ok (openBlock ?b cs)" using that by (simp add: holes_ok_open)
    have op1: "opened ?b cs cs1" by (rule opened_extends [OF opened_open C(2) [OF ok0]])
    obtain b bs where b: "blocks cs1 = b # bs" using op1 by (auto simp: opened_def)
    note inner = opened_inner [OF op1 _ _ b, simplified]
    have tb: "b_typ b = BlockLabel" "b_label b = Some l" "b_conts b = []" using inner(1,3) by (auto simp: shape_def)
    note L = leave_step [OF op1 _ _ cs1(2) C(3) [OF ok0] b, simplified]
    have "coded c P T None (here cs) (LabelledS l s) (here cs')" if P: "linked P T (here cs) cs'" for P T
      using L(5) [OF P, of "label_target l (here cs')"] L(3) C(4) [OF ok0, of P "label_target l (here cs') # T"] b0(2) tb nl
      by (intro coded_label) (simp_all add: label_target_def)
    then show ?thesis using L(1,2) by blast
  qed
qed

lemma compiles_label_loop:
  assumes "is_loop s" "compiles c s (Some l) f"
  shows "compiles c (LabelledS l s) None f"
proof (rule compilesI)
  fix cs cs' assume a: "plain (blocks cs)" "f False cs = Some cs'"
  note C = compilesD [OF assms(2) a]
  show "keeps [LabelledS l s] None cs cs'"
    unfolding keeps_def
  proof (intro conjI allI impI)
    show "map shape (blocks cs') = map shape (blocks cs)" by (rule keeps_shape [OF C(1)])
    fix ls lp n assume c: "list_all (confined ls lp) [LabelledS l s]" "covers n ls lp None (blocks cs)"
    then have "covers n (l # ls) lp (Some l) (blocks cs)" by (auto simp: covers_def)
    moreover have "list_all (confined (l # ls) lp) [s]" using c(1) by simp
    ultimately show "drop n (blocks cs') = drop n (blocks cs)" using C(1) unfolding keeps_def by blast
  qed
  show "extends cs cs' \<and> holes_ok cs' \<and> (\<forall>P T. linked P T (here cs) cs' \<longrightarrow> coded c P T None (here cs) (LabelledS l s) (here cs'))"
    if "holes_ok cs"
    using C that assms(1) by (auto intro: coded_label_loop)
qed

lemma compiles_labelled:
  assumes "is_loop s \<Longrightarrow> compiles c s (Some l) f" "\<not> is_loop s \<Longrightarrow> compiles c s None g"
  shows "compiles c (LabelledS l s) None (compileLabeledStatement c l (is_loop s) f g)"
proof -
  have "compiles c (LabelledS l s) None (if is_loop s then f else compileGenericLabeledStatement g l)"
    by (auto intro: compiles_label compiles_label_loop assms)
  then show ?thesis unfolding compiles_def compileLabeledStatement_def by (simp split: if_splits)
qed

lemma compiless_list:
  assumes "\<And>s. s \<in> set ss \<Longrightarrow> compiles c s None (compileStatement c s None)"
  shows "compiless c ss (\<lambda>n. compileList c n i ss)"
  using assms
proof (induction ss arbitrary: i)
  case Nil
  then show ?case by (auto simp: compiless_def keeps_refl grown_refl codeds_nil)
next
  case (Cons s ss)
  have S: "compiles c s None (compileStatement c s None)" using Cons.prems by simp
  show ?case unfolding compiless_def
  proof (intro allI impI)
    fix cs cs' assume pl: "plain (blocks cs)" and "compileList c False i (s # ss) cs = Some cs'"
    then obtain cs1 where cs1: "compileStatement c s None False cs = Some cs1"
      "compileList c False (if i < 0 then i else i - 1) ss cs1 = Some cs'"
      by (auto simp: bind_eq_Some_conv)
    note C = compilesD [OF S pl cs1(1)]
    have pl1: "plain (blocks cs1)" using keeps_plain [OF C(1)] pl by simp
    have "compiless c ss (\<lambda>n. compileList c n (if i < 0 then i else i - 1) ss)" using Cons by simp
    note D = compilessD [OF this pl1 cs1(2)]
    have "codeds c P T (here cs) (s # ss) (here cs')" if "holes_ok cs" "linked P T (here cs) cs'" for P T
    proof (rule codeds_cons)
      note E = D(2) [OF C(3) [OF that(1)]]
      show "coded c P T None (here cs) s (here cs1)" using C(4) that linked_extends [OF E] by blast
      show "codeds c P T (here cs1) ss (here cs')"
        using D(4) [OF C(3) [OF that(1)]] linked_mono [OF that(2)] extends_here [OF C(2) [OF that(1)]] by blast
    qed
    then show "keeps (s # ss) None cs cs' \<and> (holes_ok cs \<longrightarrow> extends cs cs' \<and> holes_ok cs' \<and>
         (\<forall>P T. linked P T (here cs) cs' \<longrightarrow> codeds c P T (here cs) (s # ss) (here cs')))"
      using keeps_trans [OF C(1) D(1)] C D grown_trans by auto
  qed
qed

lemma scan_found: "scanStatements bs ss i lp = Some (lp', Some d) \<Longrightarrow> \<exists>l isBreak. findBreakBlock l isBreak bs = Some (Some d)"
  by (induction ss arbitrary: i lp) (auto split: stmt.splits)

lemma compiless_statements:
  assumes "\<And>s. s \<in> set ss \<Longrightarrow> compiles c s None (compileStatement c s None)"
  shows "compiless c ss (compileStatements c ss)"
  unfolding compiless_def
proof (intro allI impI)
  fix cs cs' assume pl: "plain (blocks cs)" and comp: "compileStatements c ss False cs = Some cs'"
  then obtain lp blk where s: "scanStatements (blocks cs) ss 0 (-1) = Some (lp, blk)"
    "compileList c (case blk of Some d \<Rightarrow> b_needResult (blockAt (blocks cs) d) | None \<Rightarrow> False) lp ss cs = Some cs'"
    by (auto simp: bind_eq_Some_conv)
  have "\<not> (case blk of Some d \<Rightarrow> b_needResult (blockAt (blocks cs) d) | None \<Rightarrow> False)"
  proof (cases blk)
    case (Some d)
    then obtain l isBreak where "findBreakBlock l isBreak (blocks cs) = Some (Some d)" using scan_found s(1) by blast
    then have "blockAt (blocks cs) d \<in> set (blocks cs)" using find_index [OF pl] unfolding blockAt_def by force
    then show ?thesis using pl Some by (simp add: plain_def)
  qed simp
  then have "compileList c False lp ss cs = Some cs'" using s(2) by simp
  then show "keeps ss None cs cs' \<and> (holes_ok cs \<longrightarrow> extends cs cs' \<and> holes_ok cs' \<and>
       (\<forall>P T. linked P T (here cs) cs' \<longrightarrow> codeds c P T (here cs) ss (here cs')))"
    using compilessD [OF compiless_list [OF assms] pl] by blast
qed

lemma compileStatement_fun:
  "compileStatement c (ExprS e) label = compileExpressionStatement c e"
  "compileStatement c EmptyS label = compileEmptyStatement"
  "compileStatement c (WhileS t s) label = compileLabeledWhileStatement c t (compileStatement c s None) label"
  "compileStatement c (DoWhileS s t) label = compileLabeledDoWhileStatement c (compileStatement c s None) t label"
  "compileStatement c (ForS i o' u s) label = compileLabeledForStatement c i o' u (compileStatement c s None) label"
  "compileStatement c (BranchS isBreak l) label = (\<lambda>_. compileBranch isBreak l)"
  "compileStatement c (ReturnS a) label = (\<lambda>_. compileReturnStatement c a)"
  "compileStatement c (ThrowS e) label = (\<lambda>_. compileThrowStatement c e)"
  "compileStatement c (IfS t s b) label =
     compileIfStatement c t (compileStatement c s None) (map_option (\<lambda>s. compileStatement c s None) b)"
  "compileStatement c (TryS ss h f) label =
     compileTryStatement (compileStatements c ss) (map_option (compileStatements c) h)
       (map_option (\<lambda>ss. (ss, compileStatements c ss)) f)"
  "compileStatement c (LabelledS n s) label =
     compileLabeledStatement c n (is_loop s) (compileStatement c s (Some n)) (compileStatement c s None)"
  by (simp_all add: fun_eq_iff)

lemma statement_laid_out:
  "tidy c s \<Longrightarrow> label = None \<or> is_loop s \<Longrightarrow> compiles c s label (compileStatement c s label)"
proof (induction s arbitrary: label)
  case (BlockS ss)
  then have "compiless c ss (compileStatements c ss)" by (intro compiless_statements) (auto simp: list_all_iff)
  then show ?case unfolding compiless_def compiles_def compileStatement.simps
    using BlockS.prems(2) keeps_sub [of ss _ _ "BlockS ss"] by (auto simp: is_loop_def intro: coded_block)
next
  case (IfS t a b)
  have "rel_option (\<lambda>s. compiles c s None) b (map_option (\<lambda>s. compileStatement c s None) b)"
    using IfS by (cases b) auto
  then show ?case using IfS compiles_if [of c t a b] by (auto simp: is_loop_def compileStatement_fun)
next
  case (TryS b h f)
  have lst: "compiless c ss (compileStatements c ss)" if "\<And>s. s \<in> set ss \<Longrightarrow> compiles c s None (compileStatement c s None)" for ss
    using that by (rule compiless_statements)
  have 1: "compiless c b (compileStatements c b)" by (rule lst) (use TryS in \<open>auto simp: list_all_iff\<close>)
  have 2: "rel_option (compiless c) h (map_option (compileStatements c) h)"
  proof (cases h)
    case (Some ss)
    then show ?thesis using TryS by (auto simp: list_all_iff intro!: lst)
  qed simp
  have 3: "rel_option (\<lambda>ss x. fst x = ss \<and> compiless c ss (snd x)) f (map_option (\<lambda>ss. (ss, compileStatements c ss)) f)"
  proof (cases f)
    case (Some ss)
    then show ?thesis using TryS by (auto simp: list_all_iff intro!: lst)
  qed simp
  have "\<forall>ss. f = Some ss \<longrightarrow> \<not> list_ex is_branch ss" "label = None" using TryS.prems by (auto simp: is_loop_def)
  then show ?case using compiles_try [OF 1 2 3] by (simp add: compileStatement_fun)
next
  case (WhileS t s)
  then show ?case using compiles_while [OF WhileS.prems(1)] by (simp add: compileStatement_fun)
next
  case (ForS i t u s)
  then show ?case using compiles_for [OF ForS.prems(1)] by (simp add: compileStatement_fun)
next
  case (LabelledS l s)
  then show ?case using compiles_labelled [of s c l] by (auto simp: is_loop_def [of "LabelledS l s"] compileStatement_fun)
qed (auto simp: is_loop_def compileStatement_fun intro!: compiles_expr compiles_empty compiles_do compiles_branch compiles_return compiles_throw)

text \<open>The code of a function body is laid out.\<close>

theorem body_laid_out:
  assumes "compileBody c ss = Some P" "list_all (tidy c) ss"
  shows "\<exists>q. codeds c P [] 0 ss q \<and> (ss \<noteq> [] \<and> is_return (last ss) \<or> instr_at P q LoadUndef \<and> instr_at P (q + 1) Ret)"
proof -
  let ?cs = "\<lparr>code = [], blocks = []\<rparr>"
  obtain cs where cs: "compileStatements c ss False ?cs = Some cs"
    and P: "P = code cs @ (if ss \<noteq> [] \<and> is_return (last ss) then [] else [LoadUndef, Ret])"
    using assms(1) by (auto simp: compileBody_def bind_eq_Some_conv)
  have "compiless c ss (compileStatements c ss)"
    by (rule compiless_statements) (use assms(2) in \<open>auto simp: list_all_iff intro: statement_laid_out\<close>)
  then have D: "extends ?cs cs" "\<And>P T. linked P T 0 cs \<Longrightarrow> codeds c P T 0 ss (here cs)"
    using compilessD [of c ss _ ?cs cs] cs by (auto simp: plain_def holes_ok_def hole_list_def here_def)
  have "blocks cs = []" using D(1) by (simp add: extends_def)
  then have "linked P [] 0 cs" by (auto simp: linked_def matches_def P here_def nth_append)
  moreover have "ss \<noteq> [] \<and> is_return (last ss) \<or> instr_at P (here cs) LoadUndef \<and> instr_at P (here cs + 1) Ret"
    by (auto simp: P instr_at_def here_def nth_append)
  ultimately show ?thesis using D(2) by blast
qed

end
