(* ===== verification/Compiler_Stmt.thy ===== *)
theory Compiler_Stmt
  imports Compiler_Link
begin

text \<open>
  The compiled body of a function does what its statements mean: whenever the statements have a completion, the machine
  running their code comes to the point this completion stands for, with every try frame, the stacks and the pending return
  value as they should be. The last section has the programs on which the compiler goes wrong, which the theorem excludes.
\<close>

section \<open>Where the code of a statement leads\<close>

text \<open>The state \<open>S\<close> at another position, with other stacks, result register and world.\<close>

definition mk :: "'w vm \<Rightarrow> int \<Rightarrow> val list \<Rightarrow> reference list \<Rightarrow> tryFrame list \<Rightarrow> val \<Rightarrow> 'w \<Rightarrow> 'w vm" where
  "mk S p st rs ts r w = S\<lparr>pc := p, stack := st, refStack := rs, tryStack := ts, result := r, world := w\<rparr>"

lemma mk_simps [simp]:
  "prg (mk S p st rs ts r w) = prg S" "pc (mk S p st rs ts r w) = p" "stack (mk S p st rs ts r w) = st"
  "refStack (mk S p st rs ts r w) = rs" "tryStack (mk S p st rs ts r w) = ts" "result (mk S p st rs ts r w) = r"
  "world (mk S p st rs ts r w) = w" "callStack (mk S p st rs ts r w) = callStack S" "stash (mk S p st rs ts r w) = stash S"
  "mk (mk S p st rs ts r w) p' st' rs' ts' r' w' = mk S p' st' rs' ts' r' w'"
  by (simp_all add: mk_def)

lemma mk_update [simp]:
  "(mk S p st rs ts r w)\<lparr>pc := p'\<rparr> = mk S p' st rs ts r w" "(mk S p st rs ts r w)\<lparr>stack := st'\<rparr> = mk S p st' rs ts r w"
  "(mk S p st rs ts r w)\<lparr>refStack := rs'\<rparr> = mk S p st rs' ts r w" "(mk S p st rs ts r w)\<lparr>tryStack := ts'\<rparr> = mk S p st rs ts' r w"
  "(mk S p st rs ts r w)\<lparr>result := r'\<rparr> = mk S p st rs ts r' w" "(mk S p st rs ts r w)\<lparr>world := w'\<rparr> = mk S p st rs ts r w'"
  "(mk S p st rs ts r w)\<lparr>stash := stash S\<rparr> = mk S p st rs ts r w"
  "advance (mk S p st rs ts r w) st' = mk S (p + 1) st' rs ts r w" "jump_by (mk S p st rs ts r w) j st' = mk S (p + j) st' rs ts r w"
  by (simp_all add: mk_def advance_def jump_by_def)

lemma mk_self: "S = mk S (pc S) (stack S) (refStack S) (tryStack S) (result S) (world S)"
  by (simp add: mk_def)

lemma mk_cfg: "cfg S p st rs w = mk S p st rs (tryStack S) (result S) w"
  by (simp add: mk_def cfg_def)

abbreviation put :: "'w vm \<Rightarrow> nat \<Rightarrow> 'w \<Rightarrow> val \<Rightarrow> 'w vm" where
  "put S p w r \<equiv> mk S (int p) (stack S) (refStack S) (tryStack S) r w"

definition spent :: "tryFrame \<Rightarrow> bool" where
  "spent f \<longleftrightarrow> tf_catchPos f = -1 \<and> tf_finallyPos f = -1"

text \<open>
  \<open>lands E S0 S P T q qt w k\<close>: from \<open>S0\<close> the machine reaches the point that the completion \<open>k\<close> stands for, in the state \<open>S\<close> but for the position, the
  world \<open>w\<close> and the result register, which is that of \<open>S\<close> if \<open>qt\<close>: the end \<open>q\<close> of the statement, the code of a branch, the code of a return with the
  value pushed, or an instruction that throws, with additions to the stacks and try frames that handle nothing any more.
\<close>

fun lands :: "'w venv \<Rightarrow> 'w vm \<Rightarrow> 'w vm \<Rightarrow> code \<Rightarrow> target list \<Rightarrow> nat \<Rightarrow> bool \<Rightarrow> 'w \<Rightarrow> completion \<Rightarrow> bool" where
  "lands E S0 S P T q qt w Normal = (\<exists>r. reach E S0 (put S q w r) \<and> (qt \<longrightarrow> r = result S))"
| "lands E S0 S P T q qt w (Brk l) = (\<exists>r p. reach E S0 (put S p w r) \<and> exit_at P T True l p \<and> (qt \<longrightarrow> r = result S))"
| "lands E S0 S P T q qt w (Cont l) = (\<exists>r p. reach E S0 (put S p w r) \<and> exit_at P T False l p \<and> (qt \<longrightarrow> r = result S))"
| "lands E S0 S P T q qt w (RetC v) = (\<exists>r p. reach E S0 (mk S (int p) (v # stack S) (refStack S) (tryStack S) r w) \<and> ret_at P T p)"
| "lands E S0 S P T q qt w (Thr ex) =
     (\<exists>r t p xs ys D. reach E S0 t \<and> 0 \<le> pc t \<and> pc t < int (length (prg t)) \<and>
        exec E (prg t ! nat (pc t)) t = Raise ex (mk S p (xs @ stack S) (ys @ refStack S) (D @ tryStack S) r w) \<and>
        (qt \<longrightarrow> r = result S) \<and> list_all spent D)"

lemma lands_reach: "reach E S0 S1 \<Longrightarrow> lands E S1 S P T q qt w k \<Longrightarrow> lands E S0 S P T q qt w k"
  by (cases k) (auto, (blast intro: reach_trans)+)

lemma lands_base: "lands E S0 (put S p w0 r0) P T q qt w k \<Longrightarrow> (qt' \<Longrightarrow> qt \<and> r0 = result S) \<Longrightarrow> lands E S0 S P T q qt' w k"
  by (cases k) (auto, blast+)

lemma lands_from:
  assumes "reach E S0 (put S p w0 r0)" "lands E (put S p w0 r0) (put S p w0 r0) P T q qt w k" "qt' \<Longrightarrow> qt \<and> r0 = result S"
  shows "lands E S0 S P T q qt' w k"
  by (rule lands_reach [OF assms(1) lands_base [OF assms(2)]]) (rule assms(3))

lemma lands_end: "k \<noteq> Normal \<Longrightarrow> lands E S0 S P T q qt w k \<Longrightarrow> lands E S0 S P T q' qt w k"
  by (cases k) auto

section \<open>Instructions and expressions\<close>

lemma instr_step: "prg S = P \<Longrightarrow> pc S = int p \<Longrightarrow> instr_at P p i \<Longrightarrow> exec E i S = Next S' \<Longrightarrow> reach E S S'"
  by (rule reach_one) (auto simp: step_def instr_at_def)

lemma instr_raise:
  assumes "prg S = P" "pc S = int p" "instr_at P p i"
  shows "0 \<le> pc S" "pc S < int (length (prg S))" "prg S ! nat (pc S) = i"
  using assms by (auto simp: instr_at_def)

lemma reach_jump_at: "prg S = P \<Longrightarrow> instr_at P p (Jump (int p' - int p)) \<Longrightarrow> reach E (put S p w r) (put S p' w r)"
  by (rule instr_step [of _ P p]) (auto simp: jump_exec_def)

definition fits :: "'w venv \<Rightarrow> 'k compiler \<Rightarrow> bool" where
  "fits E c \<longleftrightarrow> agree (v_env E) (v_env (c_env c)) \<and> intact E \<and> intact (c_env c)"

lemma ecode_ends:
  assumes "fits E c" "ecode c P p e used q" "prg S = P" "pc S = int p"
  shows "ends E S S (int q) (stack S) (refStack S)
      (bindM (evalc E (c_strict c) used e) (\<lambda>v. ret (push used v [], [])) (world S))"
proof -
  obtain a "is" where a: "compileExpression c e = Some a" "emitExpr c a used = Some is \<or> ce_emitGetter a used = Some is"
    "seg P p is q" "wf_expr e" using assms(2) by (auto simp: ecode_def)
  have g: "good E c e a" using compile_both_good [of E c e a] assms(1) a by (simp add: both_good_def fits_def)
  have "intact E" using assms(1) by (simp add: fits_def)
  then have "gets E is used (evalc E (c_strict c) used e)" using a(2) emitExpr_gets [OF _ g] goodD(1) [OF g] by blast
  moreover obtain pre post where "prg S = pre @ is @ post" "length pre = p" "q = p + length is" using a(3) assms(3) by (auto simp: seg_def)
  moreover have "S = cfg S (int p) ([] @ stack S) ([] @ refStack S) (world S)" using cfg_self [of S] assms(4) by simp
  ultimately show ?thesis using runsD [OF getsD] by metis
qed

lemma ecode_value:
  assumes "fits E c" "ecode c P p e used q" "prg S = P" "pc S = int p" "evalc E (c_strict c) used e (world S) = (Inr v, w)"
  shows "reach E S (mk S (int q) (push used v (stack S)) (refStack S) (tryStack S) (result S) w)"
  using ecode_ends [OF assms(1-4)] assms(5) by (cases used) (auto simp: bindM_def ret_def mk_cfg push_def)

lemma raises_lands: "raises E S0 S ex w (stack S) (refStack S) \<Longrightarrow> lands E S0 S P T q qt w (Thr ex)"
proof -
  assume "raises E S0 S ex w (stack S) (refStack S)"
  then obtain t p xs ys where t: "reach E S0 t" "0 \<le> pc t" "pc t < int (length (prg t))"
    "exec E (prg t ! nat (pc t)) t = Raise ex (mk S p (xs @ stack S) (ys @ refStack S) ([] @ tryStack S) (result S) w)"
    by (auto simp: raises_def mk_cfg)
  moreover have "list_all spent []" by simp
  ultimately show ?thesis unfolding lands.simps by blast
qed

lemma ecode_throw:
  assumes "fits E c" "ecode c P p e used q" "prg S = P" "pc S = int p" "evalc E (c_strict c) used e (world S) = (Inl ex, w)"
  shows "lands E S S P T q' qt w (Thr ex)"
  using ecode_ends [OF assms(1-4)] assms(5) by (intro raises_lands) (auto simp: bindM_def)

lemma tcode_throw:
  assumes "fits E c" "tcode c P p ex q" "prg S = P" "pc S = int p"
  shows "lands E S S P T q' qt (world S) (Thr ex)"
proof -
  obtain "is" pre post where "is": "emitThrow c ex = Some is" "prg S = pre @ is @ post" "length pre = p"
    using assms(2,3) by (auto simp: tcode_def seg_def)
  have "intact E" using assms(1) by (simp add: fits_def)
  have "S = cfg S (int p) ([] @ stack S) ([] @ refStack S) (world S)" using cfg_self [of S] assms(4) by simp
  then have "ends E S S (int (length pre + length is)) (stack S) (refStack S) (throwM ex (world S))"
    using runsD [OF emitThrow_runs [OF \<open>intact E\<close> "is"(1)] "is"(2)] "is"(3) by metis
  then show ?thesis by (intro raises_lands) (simp add: throwM_def)
qed

lemma ctest_eval:
  assumes "fits E c" "ctest c e r"
  shows "evalc E (c_strict c) True e w = (r, w)"
proof -
  obtain a where a: "wf_expr e" "compileExpression c e = Some a" "ce_constant a = Some True" "evalConst c a = Some r"
    using assms(2) by (auto simp: ctest_def)
  have "good E c e a" using compile_both_good [of E c e a] assms(1) a by (simp add: both_good_def fits_def)
  then show ?thesis using goodD(3) a by fastforce
qed

lemma ocode_value:
  assumes "fits E c" "ocode c P p e q" "prg S = P" "pc S = int p" "oevalc E (c_strict c) False e (world S) = (Inr v, w)"
  shows "reach E S (put S q w (result S))"
  using assms mk_self [of S] ecode_value [OF assms(1), of P p _ False q S v w]
  by (cases e) (auto simp: ocode_def oevalc_def ret_def)

lemma ocode_throw:
  assumes "fits E c" "ocode c P p e q" "prg S = P" "pc S = int p" "oevalc E (c_strict c) False e (world S) = (Inl ex, w)"
  shows "lands E S S P T q' qt w (Thr ex)"
  using assms ecode_throw [OF assms(1), of P p _ False q S ex w] by (cases e) (auto simp: ocode_def oevalc_def ret_def simp del: lands.simps)

text \<open>A test followed by a conditional jump.\<close>

lemma test_step:
  assumes "fits E c" "ecode c P p t True j" "prg S = P" "pc S = int p" "evalc E (c_strict c) True t (world S) = (Inr v, w)"
  shows "instr_at P j (JneP (int q - int j)) \<Longrightarrow> reach E S (put S (if ToBoolean v then j + 1 else q) w (result S))"
    "instr_at P j (JeqP (int q - int j)) \<Longrightarrow> reach E S (put S (if ToBoolean v then q else j + 1) w (result S))"
proof -
  let ?S = "mk S (int j) (v # stack S) (refStack S) (tryStack S) (result S) w"
  have r: "reach E S ?S" using ecode_value [OF assms] by simp
  show "instr_at P j (JneP (int q - int j)) \<Longrightarrow> reach E S (put S (if ToBoolean v then j + 1 else q) w (result S))"
    by (rule reach_trans [OF r], rule instr_step [of _ P j]) (use assms(3) in \<open>auto simp: jneP_exec_def add.commute\<close>)
  show "instr_at P j (JeqP (int q - int j)) \<Longrightarrow> reach E S (put S (if ToBoolean v then q else j + 1) w (result S))"
    by (rule reach_trans [OF r], rule instr_step [of _ P j]) (use assms(3) in \<open>auto simp: jeqP_exec_def add.commute\<close>)
qed

lemma lands_jump:
  assumes "lands E S0 S P T m qt w k" "prg S = P" "instr_at P m (Jump (int q - int m))"
  shows "lands E S0 S P T q qt w k"
proof (cases "k = Normal")
  case True
  then obtain r where "reach E S0 (put S m w r)" "qt \<longrightarrow> r = result S" using assms(1) by auto
  then have "reach E S0 (put S q w r)" using reach_trans reach_jump_at [OF assms(2,3)] by blast
  then show ?thesis using True \<open>qt \<longrightarrow> r = result S\<close> by auto
qed (rule lands_end [OF _ assms(1)])

section \<open>Leaving blocks\<close>

lemma leave_loop:
  assumes "lands E S0 S P (loop_target label q n # T) m qt w k" "prg S = P"
  shows "goes_on label k \<Longrightarrow> \<exists>r x. x \<in> {m, n} \<and> reach E S0 (put S x w r) \<and> (qt \<longrightarrow> r = result S)"
    "\<not> goes_on label k \<Longrightarrow> lands E S0 S P T q qt w (loop_exit label k)"
proof -
  have hit: "hits (loop_target label q n) l \<longleftrightarrow> l = None \<or> label \<noteq> None \<and> l = label" for l
    by (auto simp: hits_def loop_target_def split: option.splits)
  have jump: "reach E S0 (put S p w r) \<Longrightarrow> instr_at P p (Jump (int p' - int p)) \<Longrightarrow> reach E S0 (put S p' w r)" for p p' r
    using reach_trans reach_jump_at [OF assms(2)] by blast
  have at: "exit_at P (loop_target label q n # T) isBreak l p \<longleftrightarrow>
      (if l = None \<or> label \<noteq> None \<and> l = label then instr_at P p (Jump (int (if isBreak then q else n) - int p)) else exit_at P T isBreak l p)"
    for isBreak l p by (simp add: hit cong: if_cong) (auto simp: goal_def loop_target_def)
  show "\<exists>r x. x \<in> {m, n} \<and> reach E S0 (put S x w r) \<and> (qt \<longrightarrow> r = result S)" if go: "goes_on label k"
  proof (cases "k = Normal")
    case True
    then show ?thesis using assms(1) by auto
  next
    case False
    then obtain l where l: "k = Cont l" "l = None \<or> label \<noteq> None \<and> l = label" using go by (auto simp: goes_on_def)
    then obtain r p where "reach E S0 (put S p w r)" "instr_at P p (Jump (int n - int p))" "qt \<longrightarrow> r = result S"
      using assms(1) by (auto simp only: lands.simps at if_True if_False simp_thms)
    then show ?thesis using jump by blast
  qed
  show "lands E S0 S P T q qt w (loop_exit label k)" if "\<not> goes_on label k"
  proof (cases "\<exists>l. k = Brk l \<and> (l = None \<or> label \<noteq> None \<and> l = label)")
    case True
    then obtain l where l: "k = Brk l" "l = None \<or> label \<noteq> None \<and> l = label" by blast
    then obtain r p where "reach E S0 (put S p w r)" "instr_at P p (Jump (int q - int p))" "qt \<longrightarrow> r = result S"
      using assms(1) by (auto simp only: lands.simps at if_True if_False simp_thms)
    then have "lands E S0 S P T q qt w Normal" using jump by auto
    then show ?thesis using l by (auto simp: loop_exit_def)
  next
    case False
    then have "loop_exit label k = k" by (auto simp: loop_exit_def)
    moreover have "lands E S0 S P T q qt w k"
    proof (cases k)
      case (Brk l)
      then have "\<not> (l = None \<or> label \<noteq> None \<and> l = label)" using False by blast
      then show ?thesis using assms(1) unfolding Brk lands.simps at by (simp only: if_False)
    next
      case (Cont l)
      then have "\<not> (l = None \<or> label \<noteq> None \<and> l = label)" using that by (auto simp: goes_on_def)
      then show ?thesis using assms(1) unfolding Cont lands.simps at by (simp only: if_False)
    next
      case Normal
      then show ?thesis using that by (simp add: goes_on_def)
    qed (use assms(1) in \<open>auto simp: loop_target_def\<close>)
    ultimately show ?thesis by simp
  qed
qed

lemma leave_label:
  assumes "lands E S0 S P (label_target l q # T) q qt w k" "prg S = P"
  shows "lands E S0 S P T q qt w (unlabel l k)"
proof -
  have hit: "hits (label_target l q) l' \<longleftrightarrow> l' = Some l" for l'
    by (auto simp: hits_def label_target_def split: option.splits)
  have at: "exit_at P (label_target l q # T) isBreak l' p \<longleftrightarrow>
      (if l' = Some l then isBreak \<and> instr_at P p (Jump (int q - int p)) else exit_at P T isBreak l' p)" for isBreak l' p
    by (simp add: hit) (simp add: goal_def label_target_def)
  show ?thesis
  proof (cases "k = Brk (Some l)")
    case True
    then obtain r p where "reach E S0 (put S p w r)" "instr_at P p (Jump (int q - int p))" "qt \<longrightarrow> r = result S"
      using assms(1) by (auto simp only: lands.simps at if_True simp_thms)
    then have "reach E S0 (put S q w r)" using reach_trans reach_jump_at [OF assms(2)] by blast
    then show ?thesis using True \<open>qt \<longrightarrow> r = result S\<close> by (auto simp: unlabel_def)
  next
    case False
    then have "unlabel l k = k" by (simp add: unlabel_def)
    moreover have "lands E S0 S P T q qt w k"
    proof (cases k)
      case (Brk l')
      then show ?thesis using assms(1) False unfolding Brk lands.simps at by auto
    next
      case (Cont l')
      then show ?thesis using assms(1) unfolding Cont lands.simps at by (auto split: if_splits)
    qed (use assms(1) in \<open>auto simp: label_target_def\<close>)
    ultimately show ?thesis by simp
  qed
qed

subsection \<open>Try frames\<close>

lemma try_exit: "exit_at P (try_target # T) isBreak l p \<longleftrightarrow> instr_at P p LeaveTry \<and> exit_at P T isBreak l (p + 1)"
  by (simp add: hits_def try_target_def split: option.splits)

lemma try_ret: "ret_at P (try_target # T) p \<longleftrightarrow>
    instr_at P p SaveResult \<and> instr_at P (p + 1) LeaveTry \<and> instr_at P (p + 2) LoadResult \<and> ret_at P T (p + 3)"
  by (simp add: try_target_def)

text \<open>The state \<open>S\<close> inside a try statement.\<close>

abbreviation inside :: "'w vm \<Rightarrow> nat \<Rightarrow> tryFrame \<Rightarrow> 'w \<Rightarrow> val \<Rightarrow> 'w vm" where
  "inside S p f w r \<equiv> mk S (int p) (stack S) (refStack S) (f # tryStack S) r w"

lemma save_step:
  assumes "prg S = P" "instr_at P p SaveResult"
  shows "reach E (mk S (int p) (v # st) rs ts r w) (mk S (int (p + 1)) st rs ts v w)"
  by (rule instr_step [of _ P p]) (use assms in \<open>auto simp: saveResult_exec_def add.commute\<close>)

lemma load_step:
  assumes "prg S = P" "instr_at P p LoadResult"
  shows "reach E (mk S (int p) st rs ts r w) (mk S (int (p + 1)) (r # st) rs ts r w)"
  by (rule instr_step [of _ P p]) (use assms in \<open>auto simp: loadResult_exec_def add.commute\<close>)

lemma leave_step_spent:
  assumes "prg S = P" "instr_at P p LeaveTry" "tf_finallyPos f = -1"
  shows "reach E (mk S (int p) st rs (f # ts) r w) (mk S (int (p + 1)) st rs ts r w)"
  by (rule instr_step [of _ P p]) (use assms in \<open>auto simp: leaveTry_exec_def add.commute\<close>)

lemma lands_leave_spent:
  assumes "lands E S0 (inside S p f w0 r0) P (try_target # T) m qt w k" "prg S = P" "tf_finallyPos f = -1" "k \<noteq> Normal"
    "qt' \<Longrightarrow> qt \<and> r0 = result S" "\<And>ex. k = Thr ex \<Longrightarrow> tf_catchPos f = -1"
  shows "lands E S0 S P T q qt' w k"
proof (cases k)
  case (Brk l)
  then obtain r x where x: "reach E S0 (inside S x f w r)" "instr_at P x LeaveTry" "exit_at P T True l (x + 1)" "qt \<longrightarrow> r = r0"
    using assms(1) unfolding Brk lands.simps try_exit by auto
  have "reach E S0 (put S (x + 1) w r)" by (rule reach_trans [OF x(1) leave_step_spent [OF assms(2) x(2) assms(3)]])
  then show ?thesis using x(3,4) assms(5) unfolding Brk lands.simps by blast
next
  case (Cont l)
  then obtain r x where x: "reach E S0 (inside S x f w r)" "instr_at P x LeaveTry" "exit_at P T False l (x + 1)" "qt \<longrightarrow> r = r0"
    using assms(1) unfolding Cont lands.simps try_exit by auto
  have "reach E S0 (put S (x + 1) w r)" by (rule reach_trans [OF x(1) leave_step_spent [OF assms(2) x(2) assms(3)]])
  then show ?thesis using x(3,4) assms(5) unfolding Cont lands.simps by blast
next
  case (RetC v)
  then obtain r x where x: "reach E S0 (mk S (int x) (v # stack S) (refStack S) (f # tryStack S) r w)"
    "instr_at P x SaveResult" "instr_at P (x + 1) LeaveTry" "instr_at P (x + 2) LoadResult" "ret_at P T (x + 3)"
    using assms(1) unfolding RetC lands.simps try_ret by auto
  note x(1)
  also note save_step [OF assms(2) x(2)]
  also note leave_step_spent [OF assms(2) x(3) assms(3)]
  also have "reach E (mk S (int (x + 1 + 1)) (stack S) (refStack S) (tryStack S) v w)
      (mk S (int (x + 3)) (v # stack S) (refStack S) (tryStack S) v w)"
    using load_step [OF assms(2) x(4), of E] by (simp add: numeral_eq_Suc add.commute)
  finally show ?thesis using x(5) unfolding RetC lands.simps by blast
next
  case (Thr ex)
  then obtain r t x xs ys D where t: "reach E S0 t" "0 \<le> pc t" "pc t < int (length (prg t))"
    "exec E (prg t ! nat (pc t)) t = Raise ex (mk S x (xs @ stack S) (ys @ refStack S) ((D @ [f]) @ tryStack S) r w)"
    "qt \<longrightarrow> r = r0" "list_all spent (D @ [f])"
    using assms(1,3) assms(6) [OF Thr] unfolding Thr lands.simps by (auto simp: spent_def)
  moreover have "qt' \<longrightarrow> r = result S" using t(5) assms(5) by blast
  ultimately show ?thesis unfolding Thr lands.simps by blast
qed (use assms(4) in simp)

text \<open>The frame that the try instruction pushes.\<close>

definition framed :: "'w vm \<Rightarrow> tryFrame \<Rightarrow> bool" where
  "framed S f \<longleftrightarrow> tf_callStackLen f = length (callStack S) \<and> tf_refLen f = length (refStack S) \<and> tf_sp f = length (stack S) \<and>
     tf_stash f = stash S \<and> tf_exception f = None \<and> tf_finallyRet f = -1"

lemma handleThrow_spent: "list_all spent D \<Longrightarrow> handleThrow E ex (D @ fs) s = handleThrow E ex fs s"
  by (induction D) (auto simp: spent_def)

lemma restore_framed:
  "framed S f \<Longrightarrow> restore f (mk S p (xs @ stack S) (ys @ refStack S) ts r w) = mk S p (stack S) (refStack S) ts r w"
  by (auto simp: restore_def framed_def Let_def)

lemma throw_handled:
  assumes "lands E S0 (inside S p f w0 r0) P T q qt w (Thr ex)" "framed S f"
  shows "0 \<le> tf_catchPos f \<Longrightarrow>
      \<exists>r. reach E S0 (mk S (tf_catchPos f) (v_value E ex # stack S) (refStack S) (f\<lparr>tf_catchPos := -1\<rparr> # tryStack S) r w) \<and> (qt \<longrightarrow> r = r0)"
    "tf_catchPos f = -1 \<Longrightarrow> 0 \<le> tf_finallyPos f \<Longrightarrow>
      \<exists>r. reach E S0 (mk S (tf_finallyPos f) (stack S) (refStack S)
        (f\<lparr>tf_exception := Some ex, tf_finallyPos := -1, tf_finallyRet := -1\<rparr> # tryStack S) r w) \<and> (qt \<longrightarrow> r = r0)"
proof -
  obtain r t x xs ys D where t: "reach E S0 t" "0 \<le> pc t" "pc t < int (length (prg t))"
    "exec E (prg t ! nat (pc t)) t = Raise ex (mk S x (xs @ stack S) (ys @ refStack S) (D @ f # tryStack S) r w)"
    "qt \<longrightarrow> r = r0" "list_all spent D"
    using assms(1) unfolding lands.simps by auto
  note R = restore_framed [OF assms(2)]
  have st: "reach E S0 u" if "handleThrow E ex (f # tryStack S) (mk S x (xs @ stack S) (ys @ refStack S) (D @ f # tryStack S) r w) = Inr u" for u
    using t(2-4) that handleThrow_spent [OF t(6), of E ex "f # tryStack S"]
    by (intro reach_trans [OF t(1)] reach_one) (simp add: step_def del: handleThrow.simps)
  show "\<exists>r. reach E S0 (mk S (tf_catchPos f) (v_value E ex # stack S) (refStack S) (f\<lparr>tf_catchPos := -1\<rparr> # tryStack S) r w) \<and> (qt \<longrightarrow> r = r0)"
    if "0 \<le> tf_catchPos f"
    using t(5) that by (intro exI [of _ r] conjI st) (auto simp: R Let_def tryPanicMarker_def)
  show "\<exists>r. reach E S0 (mk S (tf_finallyPos f) (stack S) (refStack S)
        (f\<lparr>tf_exception := Some ex, tf_finallyPos := -1, tf_finallyRet := -1\<rparr> # tryStack S) r w) \<and> (qt \<longrightarrow> r = r0)"
    if "tf_catchPos f = -1" "0 \<le> tf_finallyPos f"
    using t(5) that by (intro exI [of _ r] conjI st) (auto simp: R Let_def tryPanicMarker_def)
qed

text \<open>What a frame and the result register remember of a completion while the finally block runs.\<close>

fun pending :: "code \<Rightarrow> target list \<Rightarrow> tryFrame \<Rightarrow> val \<Rightarrow> completion \<Rightarrow> bool" where
  "pending P T f r Normal \<longleftrightarrow> tf_exception f = None \<and> tf_finallyRet f = -1"
| "pending P T f r (Brk l) \<longleftrightarrow> tf_exception f = None \<and> (\<exists>p. tf_finallyRet f = int p \<and> exit_at P T True l p)"
| "pending P T f r (Cont l) \<longleftrightarrow> tf_exception f = None \<and> (\<exists>p. tf_finallyRet f = int p \<and> exit_at P T False l p)"
| "pending P T f r (RetC v) \<longleftrightarrow> tf_exception f = None \<and> r = v \<and> (\<exists>p. tf_finallyRet f = int p \<and> instr_at P p LoadResult \<and> ret_at P T (p + 1))"
| "pending P T f r (Thr ex) \<longleftrightarrow> tf_exception f = Some ex"

lemma leave_step_finally:
  assumes "prg S = P" "instr_at P p LeaveTry" "framed S f" "tf_finallyPos f = int m"
  shows "reach E (mk S (int p) (stack S) (refStack S) (f # ts) r w)
     (mk S (int m) (stack S) (refStack S) (f\<lparr>tf_finallyRet := int (p + 1), tf_finallyPos := -1, tf_catchPos := -1\<rparr> # ts) r w)"
  by (rule instr_step [of _ P p]) (use assms in \<open>auto simp: leaveTry_exec_def framed_def add.commute\<close>)

lemma to_finally:
  assumes k: "lands E S0 (inside S p f w0 r0) P (try_target # T) m qt w k" and S: "prg S = P" "framed S f" "tf_finallyPos f = int (m + 1)"
    and i: "instr_at P m EnterFinally" and c: "\<And>ex. k = Thr ex \<Longrightarrow> tf_catchPos f = -1"
  shows "\<exists>f' r. reach E S0 (inside S (m + 1) f' w r) \<and> spent f' \<and> pending P T f' r k \<and> (qt \<longrightarrow> (\<forall>v. k \<noteq> RetC v) \<longrightarrow> r = r0)"
proof (cases k)
  case Normal
  then obtain r where r: "reach E S0 (inside S m f w r)" "qt \<longrightarrow> r = r0" using k by auto
  let ?f = "f\<lparr>tf_finallyPos := -1, tf_catchPos := -1\<rparr>"
  have "reach E (inside S m f w r) (inside S (m + 1) ?f w r)"
    by (rule instr_step [of _ P m]) (use S i in \<open>auto simp: enterFinally_exec_def add.commute\<close>)
  then show ?thesis using r reach_trans Normal S(2) by (intro exI [of _ ?f] exI [of _ r]) (auto simp: spent_def framed_def)
next
  case (Brk l)
  then obtain r x where x: "reach E S0 (inside S x f w r)" "instr_at P x LeaveTry" "exit_at P T True l (x + 1)" "qt \<longrightarrow> r = r0"
    using k unfolding Brk lands.simps try_exit by auto
  let ?f = "f\<lparr>tf_finallyRet := int (x + 1), tf_finallyPos := -1, tf_catchPos := -1\<rparr>"
  have "pending P T ?f r k" using x(3) S(2) Brk by (auto simp: framed_def intro!: exI [of _ "x + 1"])
  then show ?thesis using reach_trans [OF x(1) leave_step_finally [OF S(1) x(2) S(2,3)]] x(4)
    by (intro exI [of _ ?f] exI [of _ r]) (simp add: spent_def)
next
  case (Cont l)
  then obtain r x where x: "reach E S0 (inside S x f w r)" "instr_at P x LeaveTry" "exit_at P T False l (x + 1)" "qt \<longrightarrow> r = r0"
    using k unfolding Cont lands.simps try_exit by auto
  let ?f = "f\<lparr>tf_finallyRet := int (x + 1), tf_finallyPos := -1, tf_catchPos := -1\<rparr>"
  have "pending P T ?f r k" using x(3) S(2) Cont by (auto simp: framed_def intro!: exI [of _ "x + 1"])
  then show ?thesis using reach_trans [OF x(1) leave_step_finally [OF S(1) x(2) S(2,3)]] x(4)
    by (intro exI [of _ ?f] exI [of _ r]) (simp add: spent_def)
next
  case (RetC v)
  then obtain r x where x: "reach E S0 (mk S (int x) (v # stack S) (refStack S) (f # tryStack S) r w)"
    "instr_at P x SaveResult" "instr_at P (x + 1) LeaveTry" "instr_at P (x + 2) LoadResult" "ret_at P T (x + 3)"
    using k unfolding RetC lands.simps try_ret by auto
  let ?f = "f\<lparr>tf_finallyRet := int (x + 1 + 1), tf_finallyPos := -1, tf_catchPos := -1\<rparr>"
  have "pending P T ?f v k" using x(4,5) S(2) RetC by (auto simp: framed_def numeral_eq_Suc intro!: exI [of _ "x + 2"])
  then show ?thesis using reach_trans [OF reach_trans [OF x(1) save_step [OF S(1) x(2)]] leave_step_finally [OF S(1) x(3) S(2,3)]] RetC
    by (intro exI [of _ ?f] exI [of _ v]) (simp add: spent_def)
next
  case (Thr ex)
  then have "tf_catchPos f = -1" "0 \<le> tf_finallyPos f" using c S(3) by auto
  then obtain r where r: "reach E S0 (inside S (m + 1) (f\<lparr>tf_exception := Some ex, tf_finallyPos := -1, tf_finallyRet := -1\<rparr>) w r)" "qt \<longrightarrow> r = r0"
    using throw_handled(2) [OF k [unfolded Thr] S(2)] S(3) by auto
  show ?thesis
  proof (intro exI conjI)
    show "reach E S0 (inside S (m + 1) (f\<lparr>tf_exception := Some ex, tf_finallyPos := -1, tf_finallyRet := -1\<rparr>) w r)" by (rule r(1))
  qed (use Thr \<open>tf_catchPos f = -1\<close> r(2) in \<open>simp_all add: spent_def\<close>)
qed

lemma from_finally:
  assumes k': "lands E S0 (inside S p f w0 r0) P (try_target # T) x True w k'" and S: "prg S = P" "spent f" "pending P T f r0 k"
    and i: "instr_at P x LeaveFinally" and q: "qt \<Longrightarrow> r0 = result S"
  shows "lands E S0 S P T (x + 1) qt w (if k' = Normal then k else k')"
proof (cases "k' = Normal")
  case False
  then show ?thesis using lands_leave_spent [OF k' S(1) _ False] q S(2) by (simp add: spent_def del: lands.simps)
next
  case True
  have R: "reach E S0 (inside S x f w r0)" using k' True by auto
  let ?S = "mk S (int x) (stack S) (refStack S) (tryStack S) r0 w"
  have ret: "reach E S0 (put S y w r0)" if "tf_exception f = None" "tf_finallyRet f = int y" for y
    by (rule reach_trans [OF R], rule instr_step [of _ P x]) (use S i that in \<open>auto simp: leaveFinally_exec_def Let_def\<close>)
  have "lands E S0 S P T (x + 1) qt w k"
  proof (cases k)
    case Normal
    have "reach E S0 (put S (x + 1) w r0)"
      by (rule reach_trans [OF R], rule instr_step [of _ P x]) (use S i Normal in \<open>auto simp: leaveFinally_exec_def Let_def add.commute\<close>)
    then show ?thesis using Normal q by auto
  next
    case (RetC v)
    then obtain y where y: "reach E S0 (put S y w v)" "instr_at P y LoadResult" "ret_at P T (y + 1)" using S(3) ret by auto
    then show ?thesis using reach_trans [OF y(1) load_step [OF S(1) y(2)]] unfolding RetC lands.simps by blast
  next
    case (Thr ex)
    have "exec E LeaveFinally (inside S x f w r0) = Raise ex (mk S (int x) ([] @ stack S) ([] @ refStack S) ([] @ tryStack S) r0 w)"
      using S(3) Thr by (simp add: leaveFinally_exec_def)
    moreover note instr_raise [of "inside S x f w r0" P x LeaveFinally]
    moreover have "list_all spent []" by simp
    ultimately show ?thesis using R S(1) i q unfolding Thr lands.simps by (metis mk_simps(1,2))
  qed (use S(3) ret q in auto)
  then show ?thesis using True by simp
qed

section \<open>The simulation\<close>

definition sim :: "'w venv \<Rightarrow> 'k compiler \<Rightarrow> vname option \<Rightarrow> stmt \<Rightarrow> 'w \<Rightarrow> completion \<Rightarrow> 'w \<Rightarrow> bool" where
  "sim E c label s w k w' \<longleftrightarrow>
     (\<forall>T p q S. tidy c s \<longrightarrow> coded c (prg S) T label p s q \<longrightarrow> pc S = int p \<longrightarrow> world S = w \<longrightarrow> lands E S S (prg S) T q (quiet s) w' k)"

definition sims :: "'w venv \<Rightarrow> 'k compiler \<Rightarrow> stmt list \<Rightarrow> 'w \<Rightarrow> completion \<Rightarrow> 'w \<Rightarrow> bool" where
  "sims E c ss w k w' \<longleftrightarrow>
     (\<forall>T p q S. list_all (tidy c) ss \<longrightarrow> codeds c (prg S) T p ss q \<longrightarrow> pc S = int p \<longrightarrow> world S = w \<longrightarrow>
        lands E S S (prg S) T q (list_all quiet ss) w' k)"

definition sim_iter :: "'w venv \<Rightarrow> 'k compiler \<Rightarrow> vname option \<Rightarrow> expr option \<Rightarrow> expr option \<Rightarrow> stmt \<Rightarrow> 'w \<Rightarrow> completion \<Rightarrow> 'w \<Rightarrow> bool" where
  "sim_iter E c label test update body w k w' \<longleftrightarrow>
     (\<forall>T p m n q S. tidy c body \<longrightarrow> coded_iter c (prg S) (loop_target label q n # T) p test update body m q \<longrightarrow>
        n = m \<or> n = p \<and> update = None \<longrightarrow> pc S = int p \<longrightarrow> world S = w \<longrightarrow> lands E S S (prg S) T q (quiet body) w' k)"

lemma simD: "sim E c label s w k w' \<Longrightarrow> tidy c s \<Longrightarrow> coded c (prg S) T label p s q \<Longrightarrow> pc S = int p \<Longrightarrow> world S = w \<Longrightarrow>
    lands E S S (prg S) T q (quiet s) w' k"
  unfolding sim_def by blast

lemma simsD: "sims E c ss w k w' \<Longrightarrow> list_all (tidy c) ss \<Longrightarrow> codeds c (prg S) T p ss q \<Longrightarrow> pc S = int p \<Longrightarrow> world S = w \<Longrightarrow>
    lands E S S (prg S) T q (list_all quiet ss) w' k"
  unfolding sims_def by blast

text \<open>The same from a state that differs in position, world and result register.\<close>

lemma sim_put:
  assumes "sim E c label s w k w'" "tidy c s" "coded c (prg S) T label p s q"
  shows "lands E (put S p w r) (put S p w r) (prg S) T q (quiet s) w' k"
  using simD [OF assms(1,2), of "put S p w r" T p q] assms(3) by simp

lemma sims_put:
  assumes "sims E c ss w k w'" "list_all (tidy c) ss" "codeds c (prg S) T p ss q"
  shows "lands E (put S p w r) (put S p w r) (prg S) T q (list_all quiet ss) w' k"
  using simsD [OF assms(1,2), of "put S p w r" T p q] assms(3) by simp

lemma lands_weaken: "lands E S0 S P T q qt w k \<Longrightarrow> (qt' \<Longrightarrow> qt) \<Longrightarrow> lands E S0 S P T q qt' w k"
  by (cases k) (auto, blast+)

inductive_cases coded_blockE: "coded c P T label p (BlockS ss) q"
inductive_cases coded_exprE: "coded c P T label p (ExprS e) q"
inductive_cases coded_emptyE: "coded c P T label p EmptyS q"
inductive_cases coded_ifE: "coded c P T label p (IfS t a b) q"
inductive_cases coded_whileE: "coded c P T label p (WhileS t s) q"
inductive_cases coded_doE: "coded c P T label p (DoWhileS s t) q"
inductive_cases coded_forE: "coded c P T label p (ForS i t u s) q"
inductive_cases coded_branchE: "coded c P T label p (BranchS isBreak l) q"
inductive_cases coded_returnE: "coded c P T label p (ReturnS a) q"
inductive_cases coded_throwE: "coded c P T label p (ThrowS e) q"
inductive_cases coded_tryE: "coded c P T label p (TryS b h f) q"
inductive_cases coded_labelE: "coded c P T label p (LabelledS l s) q"
inductive_cases codeds_nilE: "codeds c P T p [] q"
inductive_cases codeds_consE: "codeds c P T p (s # ss) q"
inductive_cases coded_iterE: "coded_iter c P T p test update body m q"

subsection \<open>Simple statements\<close>

lemma stay: "pc S = int p \<Longrightarrow> reach E S (put S p (world S) (result S))"
proof -
  assume "pc S = int p"
  then have "S = put S p (world S) (result S)" using mk_self [of S] by simp
  then show ?thesis by (metis reach_refl)
qed

lemma sim_expr:
  assumes "fits E c"
  shows "evalc E (c_strict c) False e w = (Inr v, w') \<Longrightarrow> sim E c label (ExprS e) w Normal w'"
    "evalc E (c_strict c) False e w = (Inl ex, w') \<Longrightarrow> sim E c label (ExprS e) w (Thr ex) w'"
  unfolding sim_def using ecode_value [OF assms, where used = False] ecode_throw [OF assms]
  by (auto elim!: coded_exprE simp del: lands.simps(5))

lemma sim_return:
  assumes "fits E c"
  shows "evalc E (c_strict c) True e w = (Inr v, w') \<Longrightarrow> sim E c label (ReturnS (Some e)) w (RetC v) w'"
    "evalc E (c_strict c) True e w = (Inl ex, w') \<Longrightarrow> sim E c label (ReturnS (Some e)) w (Thr ex) w'"
  unfolding sim_def using ecode_value [OF assms, where used = True] ecode_throw [OF assms]
  by (auto elim!: coded_returnE simp del: lands.simps(5)) blast

lemma sim_return_none: "sim E c label (ReturnS None) w (RetC VUndef) w"
proof -
  have *: "reach E S (mk S (int (p + 1)) (VUndef # stack S) (refStack S) (tryStack S) (result S) (world S))"
    if "instr_at (prg S) p LoadUndef" "pc S = int p" for S :: "'a vm" and p
    by (rule instr_step [OF refl that(2,1)]) (use that mk_self [of S] in \<open>auto simp: loadUndef_exec_def mk_def advance_def\<close>)
  show ?thesis unfolding sim_def by (auto elim!: coded_returnE) (metis * Suc_eq_plus1)
qed

lemma sim_throw:
  assumes "fits E c"
  shows "evalc E (c_strict c) True e w = (Inr v, w') \<Longrightarrow> sim E c label (ThrowS e) w (Thr (v_exn E v)) w'"
    "evalc E (c_strict c) True e w = (Inl ex, w') \<Longrightarrow> sim E c label (ThrowS e) w (Thr ex) w'"
proof -
  show "sim E c label (ThrowS e) w (Thr (v_exn E v)) w'" if v: "evalc E (c_strict c) True e w = (Inr v, w')"
    unfolding sim_def
  proof (intro allI impI)
    fix T p q and S :: "'a vm"
    assume "coded c (prg S) T label p (ThrowS e) q" and S: "pc S = int p" "world S = w"
    then obtain p1 where p1: "ecode c (prg S) p e True p1" "instr_at (prg S) p1 Throw" by (auto elim: coded_throwE)
    let ?t = "mk S (int p1) ([v] @ stack S) ([] @ refStack S) ([] @ tryStack S) (result S) w'"
    have "reach E S ?t" using ecode_value [OF assms p1(1) refl S(1)] v S(2) by simp
    moreover have "exec E Throw ?t = Raise (v_exn E v) ?t" by (simp add: throw_exec_def)
    moreover note instr_raise [of ?t "prg S" p1 Throw]
    moreover have "list_all spent []" by simp
    ultimately show "lands E S S (prg S) T q (quiet (ThrowS e)) w' (Thr (v_exn E v))"
      using p1(2) unfolding lands.simps by (metis mk_simps(1,2))
  qed
  show "sim E c label (ThrowS e) w (Thr ex) w'" if "evalc E (c_strict c) True e w = (Inl ex, w')"
    using that ecode_throw [OF assms] unfolding sim_def by (auto elim!: coded_throwE simp del: lands.simps)
qed

lemma sim_branch: "sim E c label (BranchS isBreak l) w (branch isBreak l) w"
  unfolding sim_def branch_def using stay by (auto elim!: coded_branchE)

lemma sim_empty: "sim E c label EmptyS w Normal w"
  unfolding sim_def using stay by (auto elim!: coded_emptyE)

subsection \<open>Lists and conditionals\<close>

lemma sims_nil: "sims E c [] w Normal w"
  unfolding sims_def using stay by (auto elim!: codeds_nilE)

lemma sims_cons:
  assumes "sim E c None s w Normal w1" "sims E c ss w1 k w'"
  shows "sims E c (s # ss) w k w'"
  unfolding sims_def
proof (intro allI impI)
  fix T p q and S :: "'a vm"
  assume t: "list_all (tidy c) (s # ss)" and "codeds c (prg S) T p (s # ss) q" and S: "pc S = int p" "world S = w"
  then obtain m where m: "coded c (prg S) T None p s m" "codeds c (prg S) T m ss q" by (auto elim: codeds_consE)
  obtain r where r: "reach E S (put S m w1 r)" "quiet s \<longrightarrow> r = result S" using simD [OF assms(1) _ m(1) S] t by auto
  show "lands E S S (prg S) T q (list_all quiet (s # ss)) w' k"
    by (rule lands_from [OF r(1) sims_put [OF assms(2) _ m(2)]]) (use t r(2) in auto)
qed

lemma sims_stop:
  assumes "sim E c None s w k w'" "k \<noteq> Normal"
  shows "sims E c (s # ss) w k w'"
  unfolding sims_def
proof (intro allI impI)
  fix T p q and S :: "'a vm"
  assume t: "list_all (tidy c) (s # ss)" and "codeds c (prg S) T p (s # ss) q" and S: "pc S = int p" "world S = w"
  then obtain m where m: "coded c (prg S) T None p s m" by (auto elim: codeds_consE)
  show "lands E S S (prg S) T q (list_all quiet (s # ss)) w' k"
    by (rule lands_weaken [OF lands_end [OF assms(2) simD [OF assms(1) _ m S]]]) (use t in auto)
qed

lemma sim_if_throw:
  assumes "fits E c" "evalc E (c_strict c) True t w = (Inl ex, w')"
  shows "sim E c label (IfS t a b) w (Thr ex) w'"
  unfolding sim_def
proof (intro allI impI)
  fix T p q and S :: "'a vm"
  assume "coded c (prg S) T label p (IfS t a b) q" and S: "pc S = int p" "world S = w"
  then show "lands E S S (prg S) T q (quiet (IfS t a b)) w' (Thr ex)"
    using ecode_throw [OF assms(1) _ refl S(1)] tcode_throw [OF assms(1) _ refl S(1)] ctest_eval [OF assms(1)] assms(2)
    by (auto elim!: coded_ifE simp del: lands.simps)
qed

text \<open>The two ways into a branch of a conditional.\<close>

lemma sim_if:
  assumes "fits E c" "evalc E (c_strict c) True t w = (Inr v, w1)"
  shows "ToBoolean v \<Longrightarrow> sim E c None a w1 k w' \<Longrightarrow> sim E c label (IfS t a b) w k w'"
    "\<not> ToBoolean v \<Longrightarrow> sim E c None s w1 k w' \<Longrightarrow> sim E c label (IfS t a (Some s)) w k w'"
    "\<not> ToBoolean v \<Longrightarrow> sim E c label (IfS t a None) w Normal w1"
proof -
  note const = ctest_eval [OF assms(1), of t _ w]
  show "sim E c label (IfS t a b) w k w'" if v: "ToBoolean v" and k: "sim E c None a w1 k w'"
    unfolding sim_def
  proof (intro allI impI)
    fix T p q and S :: "'a vm"
    assume t: "tidy c (IfS t a b)" and "coded c (prg S) T label p (IfS t a b) q" and S: "pc S = int p" "world S = w"
    have K: "lands E S S (prg S) T m (quiet (IfS t a b)) w' k"
      if "reach E S (put S x w1 (result S))" "coded c (prg S) T None x a m" for x m
      by (rule lands_from [OF that(1) sim_put [OF k _ that(2)]]) (use t in auto)
    from \<open>coded c (prg S) T label p (IfS t a b) q\<close> show "lands E S S (prg S) T q (quiet (IfS t a b)) w' k"
    proof cases
      case (coded_if_true v')
      then show ?thesis using K [of p q] const assms(2) stay [OF S(1)] S(2) by auto
    next
      case (coded_if_else j m b')
      then show ?thesis
        using K [of "j + 1" m] lands_jump [of E S S "prg S" T m _ w' k q] test_step(1) [OF assms(1) coded_if_else(2) refl S(1), of v w1 "m + 1"] assms(2) S(2) v by (auto simp: add.commute)
    next
      case (coded_if_then j)
      then show ?thesis using K [of "j + 1" q] test_step(1) [OF assms(1) coded_if_then(2) refl S(1), of v w1 q] assms(2) S(2) v by auto
    qed (use const assms(2) v in auto)
  qed
  show "sim E c label (IfS t a (Some s)) w k w'" if v: "\<not> ToBoolean v" and k: "sim E c None s w1 k w'"
    unfolding sim_def
  proof (intro allI impI)
    fix T p q and S :: "'a vm"
    assume t: "tidy c (IfS t a (Some s))" and "coded c (prg S) T label p (IfS t a (Some s)) q" and S: "pc S = int p" "world S = w"
    have K: "lands E S S (prg S) T q (quiet (IfS t a (Some s))) w' k"
      if "reach E S (put S x w1 (result S))" "coded c (prg S) T None x s q" for x
      by (rule lands_from [OF that(1) sim_put [OF k _ that(2)]]) (use t in auto)
    from \<open>coded c (prg S) T label p (IfS t a (Some s)) q\<close> show "lands E S S (prg S) T q (quiet (IfS t a (Some s))) w' k"
    proof cases
      case (coded_if_false v')
      then show ?thesis using K [of p] const assms(2) stay [OF S(1)] S(2) by auto
    next
      case (coded_if_else j m)
      then show ?thesis
        using K [of "m + 1"] test_step(1) [OF assms(1) coded_if_else(1) refl S(1), of v w1 "m + 1"] assms(2) S(2) v by (auto simp: add.commute)
    qed (use const assms(2) v in auto)
  qed
  show "sim E c label (IfS t a None) w Normal w1" if v: "\<not> ToBoolean v"
    unfolding sim_def
  proof (intro allI impI)
    fix T p q and S :: "'a vm"
    assume "coded c (prg S) T label p (IfS t a None) q" and S: "pc S = int p" "world S = w"
    then have "reach E S (put S q w1 (result S))"
    proof cases
      case (coded_if_skip v')
      then show ?thesis using const assms(2) stay [OF S(1)] S(2) by auto
    next
      case (coded_if_then j)
      then show ?thesis using test_step(1) [OF assms(1) coded_if_then(1) refl S(1), of v w1 q] assms(2) S(2) v by auto
    qed (use const assms(2) v in auto)
    then show "lands E S S (prg S) T q (quiet (IfS t a None)) w1 Normal" by auto
  qed
qed

subsection \<open>Loops\<close>

text \<open>The start of an iteration: the test leads to the body or to the end.\<close>

lemma iter_start:
  assumes "fits E c" "coded_iter c (prg S) T p test update body m q" "pc S = int p"
  obtains b j where "coded c (prg S) T None b body m" "ocode c (prg S) m update j" "instr_at (prg S) j (Jump (int p - int j))" "q = j + 1"
    "\<And>v w. oevalc E (c_strict c) True test (world S) = (Inr v, w) \<Longrightarrow> reach E S (put S (if ToBoolean v then b else q) w (result S))"
    "\<And>ex w T' qt. oevalc E (c_strict c) True test (world S) = (Inl ex, w) \<Longrightarrow> lands E S S (prg S) T' q qt w (Thr ex)"
  using assms(2)
proof cases
  case (coded_iter_const j)
  have "oevalc E (c_strict c) True test (world S) = (Inr v, w) \<Longrightarrow> ToBoolean v \<and> w = world S" for v w
    using coded_iter_const(1) ctest_eval [OF assms(1)] by (auto simp: oevalc_def ret_def)
  moreover have "oevalc E (c_strict c) True test (world S) \<noteq> (Inl ex, w)" for ex w
    using coded_iter_const(1) ctest_eval [OF assms(1)] by (auto simp: oevalc_def ret_def)
  ultimately show ?thesis using that [of p j] coded_iter_const stay [OF assms(3)] by metis
next
  case (coded_iter_test t j r)
  have "reach E S (put S (if ToBoolean v then j + 1 else q) w (result S))" if "oevalc E (c_strict c) True test (world S) = (Inr v, w)" for v w
    using test_step(1) [OF assms(1) coded_iter_test(2) refl assms(3) _ coded_iter_test(3)] that coded_iter_test(1) by (simp add: oevalc_def)
  moreover have "lands E S S (prg S) T' q qt w (Thr ex)" if "oevalc E (c_strict c) True test (world S) = (Inl ex, w)" for ex w T' qt
    using ecode_throw [OF assms(1) coded_iter_test(2) refl assms(3)] that coded_iter_test(1) by (simp add: oevalc_def)
  ultimately show ?thesis using that [of "j + 1" r] coded_iter_test by blast
qed

lemma sim_iter_exits:
  assumes "fits E c"
  shows "oevalc E (c_strict c) True test w = (Inl ex, w') \<Longrightarrow> sim_iter E c label test update body w (Thr ex) w'"
    "oevalc E (c_strict c) True test w = (Inr v, w') \<Longrightarrow> \<not> ToBoolean v \<Longrightarrow> sim_iter E c label test update body w Normal w'"
proof -
  show "sim_iter E c label test update body w (Thr ex) w'" if "oevalc E (c_strict c) True test w = (Inl ex, w')"
    unfolding sim_iter_def by (intro allI impI, erule iter_start [OF assms]) (use that in \<open>auto simp del: lands.simps\<close>)
  show "sim_iter E c label test update body w Normal w'" if v: "oevalc E (c_strict c) True test w = (Inr v, w')" "\<not> ToBoolean v"
    unfolding sim_iter_def
  proof (intro allI impI)
    fix T p m n q and S :: "'a vm"
    assume a: "coded_iter c (prg S) (loop_target label q n # T) p test update body m q" "pc S = int p" "world S = w"
    have "reach E S (put S q w' (result S))" by (rule iter_start [OF assms a(1,2)]) (use v a(3) in auto)
    then show "lands E S S (prg S) T q (quiet body) w' Normal" by auto
  qed
qed

text \<open>The body of an iteration.\<close>

lemma iter_body:
  assumes "fits E c" "oevalc E (c_strict c) True test (world S) = (Inr v, w1)" "ToBoolean v" "sim E c None body w1 k w2" "tidy c body"
    and "coded_iter c (prg S) (loop_target label q n # T) p test update body m q" "pc S = int p"
  shows "lands E S S (prg S) (loop_target label q n # T) m (quiet body) w2 k"
proof (rule iter_start [OF assms(1,6,7)])
  fix b assume b: "coded c (prg S) (loop_target label q n # T) None b body m"
    "\<And>v w. oevalc E (c_strict c) True test (world S) = (Inr v, w) \<Longrightarrow> reach E S (put S (if ToBoolean v then b else q) w (result S))"
  have "reach E S (put S b w1 (result S))" using b(2) [OF assms(2)] assms(3) by simp
  then show ?thesis by (rule lands_from [OF _ sim_put [OF assms(4,5) b(1)]]) simp
qed

lemma sim_iter_exit:
  assumes "fits E c" "oevalc E (c_strict c) True test w = (Inr v, w1)" "ToBoolean v" "sim E c None body w1 k w'" "\<not> goes_on label k"
  shows "sim_iter E c label test update body w (loop_exit label k) w'"
  unfolding sim_iter_def
proof (intro allI impI)
  fix T p m n q and S :: "'a vm"
  assume a: "tidy c body" "coded_iter c (prg S) (loop_target label q n # T) p test update body m q" "pc S = int p" "world S = w"
  show "lands E S S (prg S) T q (quiet body) w' (loop_exit label k)"
    by (rule leave_loop(2) [OF iter_body [OF assms(1) _ assms(3,4) a(1,2,3)] refl assms(5)]) (use assms(2) a(4) in simp)
qed

lemma sim_iter_again:
  assumes "fits E c" "oevalc E (c_strict c) True test w = (Inr v, w1)" "ToBoolean v" "sim E c None body w1 k w2" "goes_on label k"
  shows "oevalc E (c_strict c) False update w2 = (Inl ex, w') \<Longrightarrow> sim_iter E c label test update body w (Thr ex) w'"
    "oevalc E (c_strict c) False update w2 = (Inr u, w3) \<Longrightarrow> sim_iter E c label test update body w3 k' w' \<Longrightarrow> sim_iter E c label test update body w k' w'"
proof -
  have again: "\<exists>r x j. reach E S (put S x w2 r) \<and> (quiet body \<longrightarrow> r = result S) \<and> (x = m \<or> x = p \<and> update = None) \<and>
      ocode c (prg S) m update j \<and> instr_at (prg S) j (Jump (int p - int j))"
    if a: "tidy c body" "coded_iter c (prg S) (loop_target label q n # T) p test update body m q" "n = m \<or> n = p \<and> update = None"
      "pc S = int p" "world S = w" for T p m n q S
  proof -
    obtain r x where "x \<in> {m, n}" "reach E S (put S x w2 r)" "quiet body \<longrightarrow> r = result S"
      using leave_loop(1) [OF iter_body [OF assms(1) _ assms(3,4) a(1,2,4)] refl assms(5)] assms(2) a(5) by blast
    moreover obtain j where "ocode c (prg S) m update j" "instr_at (prg S) j (Jump (int p - int j))"
      by (rule iter_start [OF assms(1) a(2,4)])
    ultimately show ?thesis using a(3) by blast
  qed
  show "sim_iter E c label test update body w (Thr ex) w'" if u: "oevalc E (c_strict c) False update w2 = (Inl ex, w')"
    unfolding sim_iter_def
  proof (intro allI impI)
    fix T p m n q and S :: "'a vm"
    assume a: "tidy c body" "coded_iter c (prg S) (loop_target label q n # T) p test update body m q"
      "n = m \<or> n = p \<and> update = None" "pc S = int p" "world S = w"
    obtain r x j where x: "reach E S (put S x w2 r)" "quiet body \<longrightarrow> r = result S" "x = m \<or> x = p \<and> update = None"
      "ocode c (prg S) m update j" using again [OF a] by blast
    have "x = m" using x(3) u by (auto simp: oevalc_def ret_def)
    then show "lands E S S (prg S) T q (quiet body) w' (Thr ex)"
      using u by (intro lands_from [OF x(1)] ocode_throw [OF assms(1) x(4)]) (use x(2) in simp_all)
  qed
  show "sim_iter E c label test update body w k' w'"
    if u: "oevalc E (c_strict c) False update w2 = (Inr u, w3)" and k': "sim_iter E c label test update body w3 k' w'"
    unfolding sim_iter_def
  proof (intro allI impI)
    fix T p m n q and S :: "'a vm"
    assume a: "tidy c body" "coded_iter c (prg S) (loop_target label q n # T) p test update body m q"
      "n = m \<or> n = p \<and> update = None" "pc S = int p" "world S = w"
    obtain r x j where x: "reach E S (put S x w2 r)" "quiet body \<longrightarrow> r = result S" "x = m \<or> x = p \<and> update = None"
      "ocode c (prg S) m update j" "instr_at (prg S) j (Jump (int p - int j))" using again [OF a] by blast
    have "reach E S (put S p w3 r)"
    proof (cases "x = m")
      case True
      have "reach E (put S m w2 r) (put S j w3 r)" using ocode_value [OF assms(1) x(4), of "put S m w2 r"] u by simp
      then show ?thesis using True x(1) reach_trans reach_jump_at [OF refl x(5)] by blast
    next
      case False
      then show ?thesis using x(1,3) u by (auto simp: oevalc_def ret_def)
    qed
    moreover have "lands E (put S p w3 r) (put S p w3 r) (prg S) T q (quiet body) w' k'"
      using k' a(1-3) unfolding sim_iter_def by (metis mk_simps(1,2,7))
    ultimately show "lands E S S (prg S) T q (quiet body) w' k'" by (rule lands_from) (use x(2) in simp)
  qed
qed

lemma iter_const:
  assumes "iter E (code_value E strict) label (Some t) update body w k w'"
  shows "evalc E strict True t w = (Inl ex, w) \<Longrightarrow> k = Thr ex \<and> w' = w"
    "evalc E strict True t w = (Inr v, w) \<Longrightarrow> \<not> ToBoolean v \<Longrightarrow> k = Normal \<and> w' = w"
  using assms by (cases; auto simp: oevalc_def ovalue_def)+

lemma sim_while:
  assumes "fits E c" "sim_iter E c label (Some t) None body w k w'" "iter E (code_value E (c_strict c)) label (Some t) None body w k w'"
  shows "sim E c label (WhileS t body) w k w'"
  unfolding sim_def
proof (intro allI impI)
  fix T p q and S :: "'a vm"
  assume t: "tidy c (WhileS t body)" and "coded c (prg S) T label p (WhileS t body) q" and S: "pc S = int p" "world S = w"
  from this(2) show "lands E S S (prg S) T q (quiet (WhileS t body)) w' k"
  proof cases
    case (coded_while_throw ex)
    then show ?thesis using iter_const(1) [OF assms(3) ctest_eval [OF assms(1)]] tcode_throw [OF assms(1) _ refl S(1)] S(2) by blast
  next
    case (coded_while_skip v)
    then show ?thesis using iter_const(2) [OF assms(3) ctest_eval [OF assms(1)]] stay [OF S(1)] S(2) by auto
  next
    case (coded_while m)
    then show ?thesis using assms(2) t S unfolding sim_iter_def by auto
  qed
qed

lemma sim_for_throw:
  assumes "fits E c" "oevalc E (c_strict c) False init w = (Inl ex, w')"
  shows "sim E c label (ForS init test update body) w (Thr ex) w'"
  unfolding sim_def using ocode_throw [OF assms(1)] assms(2) by (auto elim!: coded_forE simp del: lands.simps)

lemma sim_for:
  assumes "fits E c" "oevalc E (c_strict c) False init w = (Inr v, w1)" "sim_iter E c label test update body w1 k w'"
    "iter E (code_value E (c_strict c)) label test update body w1 k w'"
  shows "sim E c label (ForS init test update body) w k w'"
  unfolding sim_def
proof (intro allI impI)
  fix T p q and S :: "'a vm"
  let ?s = "ForS init test update body"
  assume t: "tidy c ?s" and "coded c (prg S) T label p ?s q" and S: "pc S = int p" "world S = w"
  have init: "reach E S (put S p1 w1 (result S))" if "ocode c (prg S) p init p1" for p1
    using ocode_value [OF assms(1) that refl S(1)] assms(2) S(2) by simp
  from \<open>coded c (prg S) T label p ?s q\<close> show "lands E S S (prg S) T q (quiet ?s) w' k"
  proof cases
    case (coded_for_throw p1 t ex)
    then have "k = Thr ex \<and> w' = w1" using iter_const(1) [OF _ ctest_eval [OF assms(1)]] assms(4) by blast
    moreover have "lands E (put S p1 w1 (result S)) (put S p1 w1 (result S)) (prg S) T q True w1 (Thr ex)"
      using tcode_throw [OF assms(1) coded_for_throw(4), of "put S p1 w1 (result S)"] by (simp del: lands.simps)
    ultimately show ?thesis using lands_from [OF init [OF coded_for_throw(2)]] by blast
  next
    case (coded_for_skip t v)
    then have "k = Normal \<and> w' = w1" using iter_const(2) [OF _ ctest_eval [OF assms(1)]] assms(4) by blast
    then show ?thesis using init [OF coded_for_skip(2)] by auto
  next
    case (coded_for p1 m)
    have "lands E (put S p1 w1 (result S)) (put S p1 w1 (result S)) (prg S) T q (quiet body) w' k"
      using assms(3) t coded_for(2) unfolding sim_iter_def by (metis mk_simps(1,2,7) tidy.simps(7))
    then show ?thesis by (rule lands_from [OF init [OF coded_for(1)]]) simp
  qed
qed

text \<open>The test of a do-while statement, reached when the body does not leave the loop.\<close>

lemma do_test:
  assumes "sim E c None body w k w1" "goes_on label k" "tidy c body" "coded c (prg S) (loop_target label q m # T) None p body m"
    "pc S = int p" "world S = w"
  obtains r where "reach E S (put S m w1 r)" "quiet body \<longrightarrow> r = result S"
  using leave_loop(1) [OF simD [OF assms(1,3,4,5,6)] refl assms(2)] by blast

lemma sim_do_exit:
  assumes "sim E c None body w k w'" "\<not> goes_on label k"
  shows "sim E c label (DoWhileS body t) w (loop_exit label k) w'"
  unfolding sim_def using leave_loop(2) [OF simD [OF assms(1)] refl assms(2)] by (auto elim!: coded_doE simp del: lands.simps)

lemma sim_do:
  assumes "fits E c" "sim E c None body w k w1" "goes_on label k"
  shows "evalc E (c_strict c) True t w1 = (Inl ex, w') \<Longrightarrow> sim E c label (DoWhileS body t) w (Thr ex) w'"
    "evalc E (c_strict c) True t w1 = (Inr v, w') \<Longrightarrow> \<not> ToBoolean v \<Longrightarrow> sim E c label (DoWhileS body t) w Normal w'"
    "evalc E (c_strict c) True t w1 = (Inr v, w2) \<Longrightarrow> ToBoolean v \<Longrightarrow> sim E c label (DoWhileS body t) w2 k' w' \<Longrightarrow>
       sim E c label (DoWhileS body t) w k' w'"
proof -
  have test: "\<exists>m j r. reach E S (put S m w1 r) \<and> (quiet (DoWhileS body t) \<longrightarrow> r = result S) \<and> ecode c (prg S) m t True j \<and>
      instr_at (prg S) j (JeqP (int p - int j)) \<and> q = j + 1"
    if a: "tidy c (DoWhileS body t)" "coded c (prg S) T label p (DoWhileS body t) q" "pc S = int p" "world S = w" for T p q S
    using a(2)
  proof cases
    case (coded_do m j)
    obtain r where "reach E S (put S m w1 r)" "quiet body \<longrightarrow> r = result S"
      using do_test [OF assms(2,3) _ coded_do(1) a(3,4)] a(1) by auto
    then show ?thesis using coded_do by auto
  qed
  show "sim E c label (DoWhileS body t) w (Thr ex) w'" if v: "evalc E (c_strict c) True t w1 = (Inl ex, w')"
    unfolding sim_def
  proof (intro allI impI)
    fix T p q and S :: "'a vm"
    assume a: "tidy c (DoWhileS body t)" "coded c (prg S) T label p (DoWhileS body t) q" "pc S = int p" "world S = w"
    obtain m j r where m: "reach E S (put S m w1 r)" "quiet (DoWhileS body t) \<longrightarrow> r = result S" "ecode c (prg S) m t True j"
      using test [OF a] by blast
    show "lands E S S (prg S) T q (quiet (DoWhileS body t)) w' (Thr ex)"
      by (intro lands_from [OF m(1)] ecode_throw [OF assms(1) m(3)]) (use v m(2) in simp_all)
  qed
  show "sim E c label (DoWhileS body t) w Normal w'" if v: "evalc E (c_strict c) True t w1 = (Inr v, w')" "\<not> ToBoolean v"
    unfolding sim_def
  proof (intro allI impI)
    fix T p q and S :: "'a vm"
    assume a: "tidy c (DoWhileS body t)" "coded c (prg S) T label p (DoWhileS body t) q" "pc S = int p" "world S = w"
    obtain m j r where m: "reach E S (put S m w1 r)" "quiet (DoWhileS body t) \<longrightarrow> r = result S" "ecode c (prg S) m t True j"
      "instr_at (prg S) j (JeqP (int p - int j))" "q = j + 1" using test [OF a] by blast
    have "reach E (put S m w1 r) (put S q w' r)"
      using test_step(2) [OF assms(1) m(3), of "put S m w1 r" v w' p] v m(4,5) by simp
    then show "lands E S S (prg S) T q (quiet (DoWhileS body t)) w' Normal" using reach_trans [OF m(1)] m(2) by auto
  qed
  show "sim E c label (DoWhileS body t) w k' w'"
    if v: "evalc E (c_strict c) True t w1 = (Inr v, w2)" "ToBoolean v" and k': "sim E c label (DoWhileS body t) w2 k' w'"
    unfolding sim_def
  proof (intro allI impI)
    fix T p q and S :: "'a vm"
    assume a: "tidy c (DoWhileS body t)" "coded c (prg S) T label p (DoWhileS body t) q" "pc S = int p" "world S = w"
    obtain m j r where m: "reach E S (put S m w1 r)" "quiet (DoWhileS body t) \<longrightarrow> r = result S" "ecode c (prg S) m t True j"
      "instr_at (prg S) j (JeqP (int p - int j))" using test [OF a] by blast
    have "reach E (put S m w1 r) (put S p w2 r)"
      using test_step(2) [OF assms(1) m(3), of "put S m w1 r" v w2 p] v m(4) by simp
    then have "reach E S (put S p w2 r)" by (rule reach_trans [OF m(1)])
    then show "lands E S S (prg S) T q (quiet (DoWhileS body t)) w' k'"
      by (rule lands_from [OF _ sim_put [OF k' a(1,2)]]) (use m(2) in simp)
  qed
qed

lemma sim_label:
  shows "is_loop s \<Longrightarrow> sim E c (Some l) s w k w' \<Longrightarrow> sim E c label (LabelledS l s) w k w'"
    "\<not> is_loop s \<Longrightarrow> sim E c None s w k w' \<Longrightarrow> sim E c label (LabelledS l s) w (unlabel l k) w'"
proof -
  show "sim E c label (LabelledS l s) w k w'" if "is_loop s" "sim E c (Some l) s w k w'"
    using that unfolding sim_def by (auto elim!: coded_labelE simp del: lands.simps)
  show "sim E c label (LabelledS l s) w (unlabel l k) w'" if l: "\<not> is_loop s" "sim E c None s w k w'"
    unfolding sim_def
  proof (intro allI impI)
    fix T p q and S :: "'a vm"
    assume a: "tidy c (LabelledS l s)" "coded c (prg S) T label p (LabelledS l s) q" "pc S = int p" "world S = w"
    have "coded c (prg S) (label_target l q # T) None p s q" using a(2) l(1) by (auto elim: coded_labelE)
    then have "lands E S S (prg S) (label_target l q # T) q (quiet s) w' k" using simD [OF l(2) _ _ a(3,4)] a(1) by simp
    then show "lands E S S (prg S) T q (quiet (LabelledS l s)) w' (unlabel l k)" using leave_label [OF _ refl] by simp
  qed
qed

lemma sim_block: "sims E c ss w k w' \<Longrightarrow> sim E c label (BlockS ss) w k w'"
  unfolding sim_def sims_def by (auto elim!: coded_blockE simp del: lands.simps)

subsection \<open>Try statements\<close>

lemma quiet_silent: "\<not> has_return s \<Longrightarrow> quiet s"
  by (induction s) (auto split: option.splits simp: list_all_iff list_ex_iff)

lemma big_returns:
  "big E V label s w k w' \<Longrightarrow> k = RetC v \<Longrightarrow> has_return s"
  "bigs E V ss w k w' \<Longrightarrow> k = RetC v \<Longrightarrow> list_ex has_return ss"
  "iter E V label test update body w k w' \<Longrightarrow> k = RetC v \<Longrightarrow> has_return body"
  "handles E V catch k1 w k w' \<Longrightarrow> k = RetC v \<Longrightarrow> k1 = RetC v \<or> (\<exists>ss. catch = Some ss \<and> list_ex has_return ss)"
  "finishes E V fin k1 w k w' \<Longrightarrow> k = RetC v \<Longrightarrow> k1 = RetC v \<or> (\<exists>ss. fin = Some ss \<and> list_ex has_return ss)"
  by (induction rule: big_bigs_iter_handles_finishes.inducts)
    (auto simp: loop_exit_def unlabel_def branch_def goes_on_def split: if_splits)

text \<open>The body and the handler: what remains is the completion after the handler, inside the frame.\<close>

definition handled :: "'w venv \<Rightarrow> 'k compiler \<Rightarrow> stmt list option \<Rightarrow> completion \<Rightarrow> 'w \<Rightarrow> completion \<Rightarrow> 'w \<Rightarrow> bool" where
  "handled E c catch k w k' w' \<longleftrightarrow>
     k' = k \<and> w' = w \<and> (catch = None \<or> (\<forall>ex. k \<noteq> Thr ex)) \<or>
     (\<exists>ss ex. catch = Some ss \<and> k = Thr ex \<and> sims E c ss w k' w')"

definition finished :: "'w venv \<Rightarrow> 'k compiler \<Rightarrow> stmt list option \<Rightarrow> completion \<Rightarrow> 'w \<Rightarrow> completion \<Rightarrow> 'w \<Rightarrow> bool" where
  "finished E c fin k w k' w' \<longleftrightarrow>
     fin = None \<and> k' = k \<and> w' = w \<or>
     (\<exists>ss k1. fin = Some ss \<and> k' = (if k1 = Normal then k else k1) \<and> sims E c ss w k1 w')"

lemma handled_intros:
  "handled E c None k w k w" "(\<And>ex. k \<noteq> Thr ex) \<Longrightarrow> handled E c (Some ss) k w k w"
  "sims E c ss w k w' \<Longrightarrow> handled E c (Some ss) (Thr ex) w k w'"
  "finished E c None k w k w" "sims E c ss w k' w' \<Longrightarrow> finished E c (Some ss) k w (if k' = Normal then k else k') w'"
  by (auto simp: handled_def finished_def)

lemma try_handled:
  assumes k: "lands E S0 (inside S p f w0 r0) (prg S) (try_target # T) m qt w1 k1" and h: "handled E c catch k1 w1 k2 w2"
    and f: "framed S f" and t: "case catch of None \<Rightarrow> True | Some ss \<Rightarrow> list_all (tidy c) ss"
    and layout: "case catch of
       None \<Rightarrow> m' = m \<and> tf_catchPos f = -1
     | Some ss \<Rightarrow> instr_at (prg S) m (Jump (int m' - int m)) \<and> tf_catchPos f = int (m + 1) \<and> instr_at (prg S) (m + 1) Pop \<and>
         codeds c (prg S) (try_target # T) (m + 2) ss m'"
    and q: "qt' \<Longrightarrow> qt \<and> (\<forall>ss. catch = Some ss \<longrightarrow> list_all quiet ss)"
  shows "\<exists>f'. f' \<in> {f, f\<lparr>tf_catchPos := -1\<rparr>} \<and> (\<forall>ex. k2 = Thr ex \<longrightarrow> tf_catchPos f' = -1) \<and>
     lands E S0 (inside S p f' w0 r0) (prg S) (try_target # T) m' qt' w2 k2"
proof (cases "k2 = k1 \<and> w2 = w1 \<and> (catch = None \<or> (\<forall>ex. k1 \<noteq> Thr ex))")
  case True
  have "lands E S0 (inside S p f w0 r0) (prg S) (try_target # T) m' qt w1 k1"
    using k lands_jump [OF k, of m'] layout by (cases catch) auto
  then show ?thesis using True layout q by (intro exI [of _ f]) (auto split: option.splits simp del: lands.simps intro: lands_weaken)
next
  case False
  then obtain ss ex where ss: "catch = Some ss" "k1 = Thr ex" "sims E c ss w1 k2 w2" using h by (auto simp: handled_def)
  let ?f = "f\<lparr>tf_catchPos := -1\<rparr>"
  obtain r where r: "reach E S0 (mk S (int (m + 1)) (v_value E ex # stack S) (refStack S) (?f # tryStack S) r w1)" "qt \<longrightarrow> r = r0"
    using throw_handled(1) [OF k [unfolded ss(2)] f] layout ss(1) by auto
  have "reach E (mk S (int (m + 1)) (v_value E ex # stack S) (refStack S) (?f # tryStack S) r w1) (inside S (m + 2) ?f w1 r)"
    by (rule instr_step [of _ "prg S" "m + 1"]) (use layout ss(1) in \<open>auto simp: pop_exec_def add.commute\<close>)
  then have "reach E S0 (inside S (m + 2) ?f w1 r)" by (rule reach_trans [OF r(1)])
  moreover have "lands E (inside S (m + 2) ?f w1 r) (inside S (m + 2) ?f w1 r) (prg S) (try_target # T) m' (list_all quiet ss) w2 k2"
    using sims_put [OF ss(3), where S = "inside S (m + 2) ?f w1 r" and T = "try_target # T" and p = "m + 2" and q = m' and r = r] t layout ss(1)
    by (simp del: lands.simps)
  ultimately have "lands E S0 (inside S p ?f w0 r0) (prg S) (try_target # T) m' qt' w2 k2"
    using lands_from [of E S0 "inside S p ?f w0 r0" "m + 2" r w1] q r(2) ss(1) by (simp del: lands.simps)
  then show ?thesis by (intro exI [of _ ?f]) simp
qed

lemma try_finished:
  assumes k: "lands E S0 (inside S p f w0 (result S)) (prg S) (try_target # T) m qt w2 k2" and h: "finished E c fin k2 w2 k3 w3"
    and f: "framed S f" "\<forall>ex. k2 = Thr ex \<longrightarrow> tf_catchPos f = -1"
    and t: "case fin of None \<Rightarrow> True | Some ss \<Rightarrow> list_all (tidy c) ss \<and> list_all quiet ss"
    and layout: "case fin of
       None \<Rightarrow> instr_at (prg S) m LeaveTry \<and> q = m + 1 \<and> tf_finallyPos f = -1
     | Some ss \<Rightarrow> instr_at (prg S) m EnterFinally \<and> tf_finallyPos f = int (m + 1) \<and> instr_at (prg S) x LeaveFinally \<and> q = x + 1 \<and>
         codeds c (prg S) (try_target # T) (m + 1) ss x"
    and q: "qt' \<Longrightarrow> qt \<and> (\<forall>v. k2 \<noteq> RetC v)"
  shows "lands E S0 S (prg S) T q qt' w3 k3"
proof (cases fin)
  case None
  then have [simp]: "k3 = k2" "w3 = w2" using h by (auto simp: finished_def)
  have l: "instr_at (prg S) m LeaveTry" "q = m + 1" "tf_finallyPos f = -1" using layout None by auto
  show ?thesis
  proof (cases "k2 = Normal")
    case True
    then obtain r where r: "reach E S0 (inside S m f w2 r)" "qt \<longrightarrow> r = result S" using k by auto
    have "reach E S0 (put S q w2 r)"
      unfolding l(2) by (rule reach_trans [OF r(1) leave_step_spent [OF refl l(1,3)]])
    then show ?thesis using True r(2) q by auto
  next
    case False
    then show ?thesis using lands_leave_spent [OF k refl l(3) False] f(2) q by (simp del: lands.simps)
  qed
next
  case (Some ss)
  then obtain k' where k': "k3 = (if k' = Normal then k2 else k')" "sims E c ss w2 k' w3" using h by (auto simp: finished_def)
  have l: "instr_at (prg S) m EnterFinally" "tf_finallyPos f = int (m + 1)" "instr_at (prg S) x LeaveFinally" "q = x + 1"
    "codeds c (prg S) (try_target # T) (m + 1) ss x" using layout Some by auto
  obtain f' r where r: "reach E S0 (inside S (m + 1) f' w2 r)" "spent f'" "pending (prg S) T f' r k2"
    "qt \<longrightarrow> (\<forall>v. k2 \<noteq> RetC v) \<longrightarrow> r = result S"
    using to_finally [OF k refl f(1) l(2,1)] f(2) by auto
  have "lands E (inside S (m + 1) f' w2 r) (inside S (m + 1) f' w2 r) (prg S) (try_target # T) x (list_all quiet ss) w3 k'"
    using sims_put [OF k'(2), where S = "inside S (m + 1) f' w2 r" and T = "try_target # T" and p = "m + 1" and q = x and r = r] t l(5) Some
    by (simp del: lands.simps)
  then have "lands E S0 (inside S (m + 1) f' w2 r) (prg S) (try_target # T) x True w3 k'"
    using lands_reach [OF r(1)] t Some by (simp del: lands.simps)
  then show ?thesis unfolding k'(1) l(4) by (rule from_finally [OF _ refl r(2,3) l(3)]) (use q r(4) in blast)
qed

lemma sim_try:
  assumes "sims E c body w k1 w1" "handled E c catch k1 w1 k2 w2" "finished E c fin k2 w2 k3 w3"
    and ret: "(\<exists>v. k2 = RetC v) \<Longrightarrow> has_return (TryS body catch fin)"
  shows "sim E c label (TryS body catch fin) w k3 w3"
  unfolding sim_def
proof (intro allI impI)
  fix T p q and S :: "'a vm"
  let ?s = "TryS body catch fin"
  assume t: "tidy c ?s" and "coded c (prg S) T label p ?s q" and S: "pc S = int p" "world S = w"
  from this(2) show "lands E S S (prg S) T q (quiet ?s) w3 k3"
  proof cases
    case (coded_try co fo m m' x)
    let ?f = "\<lparr>tf_exception = None, tf_callStackLen = length (callStack S), tf_refLen = length (refStack S), tf_sp = length (stack S),
        tf_stash = stash S, tf_catchPos = (if co > 0 then pc S + co else -1), tf_finallyPos = (if fo > 0 then pc S + fo else -1), tf_finallyRet = -1\<rparr>"
    have f: "framed S ?f" by (simp add: framed_def)
    have "reach E S (inside S (p + 1) ?f w (result S))"
      by (rule instr_step [OF refl S(1) coded_try(1)])
        (use S in \<open>auto simp: try_exec_def pushTryFrame_def Let_def mk_def advance_def\<close>)
    moreover have "lands E (inside S (p + 1) ?f w (result S)) (inside S (p + 1) ?f w (result S)) (prg S) (try_target # T) m (list_all quiet body) w1 k1"
      using simsD [OF assms(1), where S = "inside S (p + 1) ?f w (result S)" and T = "try_target # T" and p = "p + 1" and q = m] t coded_try(2)
      by (simp del: lands.simps)
    ultimately have 1: "lands E S (inside S (p + 1) ?f w (result S)) (prg S) (try_target # T) m (list_all quiet body) w1 k1"
      by (rule lands_reach)
    have nr: "list_all quiet body \<and> (\<forall>ss. catch = Some ss \<longrightarrow> list_all quiet ss)" if "quiet ?s"
      using that quiet_silent by (auto simp: list_all_iff list_ex_iff)
    have "\<exists>f'. f' \<in> {?f, ?f\<lparr>tf_catchPos := -1\<rparr>} \<and> (\<forall>ex. k2 = Thr ex \<longrightarrow> tf_catchPos f' = -1) \<and>
     lands E S (inside S (p + 1) f' w (result S)) (prg S) (try_target # T) m' (quiet ?s) w2 k2"
    proof (rule try_handled [OF 1 assms(2) f])
      show "case catch of None \<Rightarrow> True | Some ss \<Rightarrow> list_all (tidy c) ss" using t by (simp split: option.splits)
      show "case catch of
         None \<Rightarrow> m' = m \<and> tf_catchPos ?f = -1
       | Some ss \<Rightarrow> instr_at (prg S) m (Jump (int m' - int m)) \<and> tf_catchPos ?f = int (m + 1) \<and> instr_at (prg S) (m + 1) Pop \<and>
           codeds c (prg S) (try_target # T) (m + 2) ss m'"
        using coded_try(3,4,8) S(1) by (auto split: option.splits)
      show "list_all quiet body \<and> (\<forall>ss. catch = Some ss \<longrightarrow> list_all quiet ss)" if "quiet ?s" by (rule nr [OF that])
    qed
    then obtain f' where f': "f' \<in> {?f, ?f\<lparr>tf_catchPos := -1\<rparr>}" "\<forall>ex. k2 = Thr ex \<longrightarrow> tf_catchPos f' = -1"
      "lands E S (inside S (p + 1) f' w (result S)) (prg S) (try_target # T) m' (quiet ?s) w2 k2" by blast
    show ?thesis
    proof (rule try_finished [OF f'(3) assms(3) _ f'(2)])
      show "framed S f'" using f'(1) f by (auto simp: framed_def)
      show "case fin of None \<Rightarrow> True | Some ss \<Rightarrow> list_all (tidy c) ss \<and> list_all quiet ss" using t by (simp split: option.splits)
      show "case fin of
         None \<Rightarrow> instr_at (prg S) m' LeaveTry \<and> q = m' + 1 \<and> tf_finallyPos f' = -1
       | Some ss \<Rightarrow> instr_at (prg S) m' EnterFinally \<and> tf_finallyPos f' = int (m' + 1) \<and> instr_at (prg S) x LeaveFinally \<and> q = x + 1 \<and>
           codeds c (prg S) (try_target # T) (m' + 1) ss x"
        using coded_try(5-8) S(1) f'(1) by (auto split: option.splits)
      show "quiet ?s \<and> (\<forall>v. k2 \<noteq> RetC v)" if "quiet ?s" using that ret by auto
    qed
  qed
qed

subsection \<open>All statements\<close>

theorem simulation:
  assumes "fits E c"
  shows "big E (code_value E (c_strict c)) label s w k w' \<Longrightarrow> sim E c label s w k w'"
    "bigs E (code_value E (c_strict c)) ss w k w' \<Longrightarrow> sims E c ss w k w'"
    "iter E (code_value E (c_strict c)) label test update body w k w' \<Longrightarrow> sim_iter E c label test update body w k w'"
    "handles E (code_value E (c_strict c)) catch k1 w k w' \<Longrightarrow> handled E c catch k1 w k w'"
    "finishes E (code_value E (c_strict c)) fin k1 w k w' \<Longrightarrow> finished E c fin k1 w k w'"
proof (induction rule: big_bigs_iter_handles_finishes.inducts)
  case (big_try body w k1 w1 catch k2 w2 fin k3 w3 label)
  have "has_return (TryS body catch fin)" if "k2 = RetC v" for v
    using big_returns(4) [OF big_try(3) that] big_returns(2) [OF big_try(1)] by auto
  then show ?case using sim_try [OF big_try(2,4,6)] by blast
next
  case (big_while label t body w k w')
  show ?case by (rule sim_while [OF assms big_while(2,1)])
next
  case (big_for init w v w1 label test update body k w')
  show ?case by (rule sim_for [OF assms _ big_for(3,2)]) (use big_for(1) in simp)
qed ((simp only: evaluation_simps)?, blast intro: sim_block sim_expr [OF assms] sim_empty sim_if_throw [OF assms] sim_if [OF assms] sim_do_exit
    sim_do [OF assms] sim_for_throw [OF assms] sim_branch sim_return [OF assms] sim_return_none sim_throw [OF assms]
    sim_label sims_nil sims_cons sims_stop sim_iter_exits [OF assms] sim_iter_exit [OF assms] sim_iter_again [OF assms]
    handled_intros)+

section \<open>Function bodies\<close>

lemma bigs_ends_return: "bigs E V ss w Normal w' \<Longrightarrow> ss \<noteq> [] \<Longrightarrow> \<not> is_return (last ss)"
proof (induction ss arbitrary: w)
  case (Cons s ss)
  from Cons.prems(1) show ?case
  proof cases
    case (bigs_cons w1)
    then show ?thesis using Cons.IH by (cases "ss = []") (auto simp: is_return_def split: stmt.splits elim: big.cases)
  qed simp
qed simp

text \<open>The state of the caller after a function called from \<open>S\<close> has returned \<open>v\<close>.\<close>

definition returned :: "'w vm \<Rightarrow> val \<Rightarrow> 'w \<Rightarrow> 'w vm" where
  "returned S v w =
     (let ctx = last (callStack S) in
      S\<lparr>prg := cx_prg ctx, pc := cx_pc ctx + 1, stack := v # keep (nat (sb S - 1)) (stack S), sb := cx_sb ctx, args := cx_args ctx,
        stash := cx_stash ctx, callStack := butlast (callStack S), result := cx_result ctx, world := w\<rparr>)"

lemma ret_step:
  assumes "prg S = P" "instr_at P p Ret" "0 < sb S" "sb S - 1 \<le> int (length (stack S))" "callStack S \<noteq> []"
  shows "reach E (mk S (int p) (v # stack S) (refStack S) (tryStack S) r w) (returned S v w)"
proof (rule instr_step [of _ P p])
  have "keep (nat (sb S - 1)) (v # stack S) = keep (nat (sb S - 1)) (stack S)"
    using assms(4) by (simp add: keep_def Suc_diff_le)
  then show "exec E Ret (mk S (int p) (v # stack S) (refStack S) (tryStack S) r w) = Next (returned S v w)"
    using assms(3,5) by (simp add: ret_exec_def popCtx_def returned_def mk_def advance_def Let_def)
qed (use assms in auto)

text \<open>
  (C1) The compiled body of a function does what the body means, for a tidy body in an environment that fits, on runs where a dropped
  \<^verbatim>\<open>++\<close> or \<^verbatim>\<open>--\<close> meets numbers only. Run in a frame of the call stack, the machine comes to the caller's state with the
  returned value on the stack when the statements return or end, or to an instruction that throws what they throw, with the stacks of the
  start below what was added and only try frames on top that handle nothing. No branch leaves the body. The compiler has patched every
  jump, constant tests are folded, \<^verbatim>\<open>finally\<close> blocks run on every exit. The environment fits when \<^verbatim>\<open>TypeError\<close> and
  \<^verbatim>\<open>RangeError\<close> are bound to the built-in constructors and conversions of primitive values are those the compiler uses. A body is tidy when
  its expressions are well-formed, no branch leaves a statement that a constant test removes, and a \<^verbatim>\<open>finally\<close> block has no branch as
  a statement of its own and no \<^verbatim>\<open>try\<close> statement with a \<^verbatim>\<open>return\<close>; the theorems below show that the compiler goes wrong on bodies that are not.
\<close>

theorem function_body_correct:
  assumes "fits E c" "compileBody c ss = Some (prg S)" "list_all (tidy c) ss"
    and "bigs E (meaning_on_numbers E (c_strict c)) ss (world S) k w"
    and "pc S = 0" "0 < sb S" "sb S - 1 \<le> int (length (stack S))" "callStack S \<noteq> []"
  shows "case k of
      Normal \<Rightarrow> reach E S (returned S VUndef w)
    | RetC v \<Rightarrow> reach E S (returned S v w)
    | Thr ex \<Rightarrow> \<exists>t p xs ys D r. reach E S t \<and> list_all spent D \<and>
        exec E (prg t ! nat (pc t)) t =
          Raise ex (S\<lparr>pc := p, stack := xs @ stack S, refStack := ys @ refStack S, tryStack := D @ tryStack S, result := r, world := w\<rparr>)
    | _ \<Rightarrow> False"
proof -
  obtain q where q: "codeds c (prg S) [] 0 ss q"
    "ss \<noteq> [] \<and> is_return (last ss) \<or> instr_at (prg S) q LoadUndef \<and> instr_at (prg S) (q + 1) Ret"
    using body_laid_out [OF assms(2,3)] by blast
  have code: "bigs E (code_value E (c_strict c)) ss (world S) k w" using assms(4) by (rule on_numbers_code)
  have L: "lands E S S (prg S) [] q (list_all quiet ss) w k"
    using simsD [OF simulation(2) [OF assms(1) code] assms(3) q(1)] assms(5) by simp
  note ret = ret_step [OF refl _ assms(6-8)]
  show ?thesis
  proof (cases k)
    case Normal
    then have i: "instr_at (prg S) q LoadUndef" "instr_at (prg S) (q + 1) Ret" using q(2) bigs_ends_return [OF assms(4) [unfolded Normal]] by auto
    obtain r where r: "reach E S (put S q w r)" using L Normal by auto
    have "reach E (put S q w r) (mk S (int (q + 1)) (VUndef # stack S) (refStack S) (tryStack S) r w)"
      by (rule instr_step [OF refl _ ]) (use i in \<open>auto simp: loadUndef_exec_def add.commute\<close>)
    then show ?thesis using reach_trans [OF reach_trans [OF r] ret [OF i(2)]] Normal by simp
  next
    case (RetC v)
    then obtain r p where "reach E S (mk S (int p) (v # stack S) (refStack S) (tryStack S) r w)" "instr_at (prg S) p Ret"
      using L by auto
    then show ?thesis using reach_trans ret RetC by fastforce
  next
    case (Thr ex)
    then show ?thesis using L unfolding Thr lands.simps completion.case mk_def by blast
  qed (use L in simp_all)
qed

text \<open>A call from a program that ends after it, and programs to run: \<open>x\<close> is the only variable.\<close>

definition demo_call :: "code \<Rightarrow> val list \<Rightarrow> val list vm" where
  "demo_call P w =
     \<lparr>prg = P, pc = 0, stack = [VUndef], sb = 1, args = 0, stash = 0, refStack = [], tryStack = [],
      callStack = [\<lparr>cx_prg = [], cx_stash = 0, cx_result = VUndef, cx_pc = 0, cx_sb = 0, cx_args = 0\<rparr>], result = VUndef, world = w\<rparr>"

abbreviation ret_int :: "int \<Rightarrow> stmt" where
  "ret_int i \<equiv> ReturnS (Some (Lit (VInt i)))"

definition set_x :: "int \<Rightarrow> stmt" where
  "set_x i = ExprS (Assign [] (Lit (VInt i)))"

definition demo_result :: "stmt list \<Rightarrow> val list \<Rightarrow> (val list \<times> val list) option" where
  "demo_result ss w =
     (case compileBody demo_compiler ss of
        None \<Rightarrow> None
      | Some P \<Rightarrow> (case run demo_env (demo_call P w) of Some (Halted s) \<Rightarrow> Some (stack s, world s) | _ \<Rightarrow> None))"

declare run.simps [code]

lemma demo_fits: "fits demo_env demo_compiler"
  using demo_ok by (simp add: fits_def)

lemma finishes_cases:
  "bigs E V ss w Normal w' \<Longrightarrow> finishes E V (Some ss) k w k w'"
  "bigs E V ss w k' w' \<Longrightarrow> k' \<noteq> Normal \<Longrightarrow> finishes E V (Some ss) k w k' w'"
  using finishes_some [of E V ss w Normal w' k] finishes_some [of E V ss w k' w' k] by simp_all

lemma label_cases:
  "\<not> is_loop s \<Longrightarrow> big E V None s w (Brk (Some l)) w' \<Longrightarrow> big E V label (LabelledS l s) w Normal w'"
  "\<not> is_loop s \<Longrightarrow> big E V None s w k w' \<Longrightarrow> k \<noteq> Brk (Some l) \<Longrightarrow> big E V label (LabelledS l s) w k w'"
  using big_label [of s E V w "Brk (Some l)" w' label l] big_label [of s E V w k w' label l] by (simp_all add: unlabel_def)

lemma demo_big:
  "big demo_env (meaning_on_numbers demo_env False) label (ret_int i) w (RetC (VInt i)) w"
  "big demo_env (meaning_on_numbers demo_env False) label (set_x i) w Normal (w[0 := VInt i])"
  "big demo_env (meaning_on_numbers demo_env False) label (BranchS True l) w (Brk l) w"
  "big demo_env (meaning_on_numbers demo_env False) label (BranchS False l) w (Cont l) w"
proof -
  show "big demo_env (meaning_on_numbers demo_env False) label (ret_int i) w (RetC (VInt i)) w" by (rule big_return) (simp add: ret_def)
  show "big demo_env (meaning_on_numbers demo_env False) label (set_x i) w Normal (w[0 := VInt i])"
    unfolding set_x_def by (rule big_expr) (simp add: no_update_numbers del: numbers.simps, simp add: demo_env_def bindM_def ret_def)
  show "big demo_env (meaning_on_numbers demo_env False) label (BranchS True l) w (Brk l) w" "big demo_env (meaning_on_numbers demo_env False) label (BranchS False l) w (Cont l) w"
    using big_branch [of demo_env _ label True l w] big_branch [of demo_env _ label False l w] by (simp_all add: branch_def)
qed

lemmas demo_means = demo_big [THEN on_numbers_meaning]

theorem function_body_correct_witness:
  "\<exists>P. compileBody demo_compiler [TryS [ret_int 1] None (Some [set_x 2])] = Some P \<and>
     (let S = demo_call P [VUndef] in reach demo_env S (returned S (VInt 1) [VInt 2]))"
proof -
  let ?ss = "[TryS [ret_int 1] None (Some [set_x 2])]"
  define P where "P = [Try 0 7, LoadVal (VInt 1), SaveResult, LeaveTry, LoadResult, Ret, EnterFinally, ResolveVar1 [], LoadVal (VInt 2),
    PutValueP, LeaveFinally, LoadUndef, Ret]"
  have P: "compileBody demo_compiler ?ss = Some P" unfolding P_def by code_simp
  have tidy: "list_all (tidy demo_compiler) ?ss" by (simp add: set_x_def is_branch_def)
  have "bigs demo_env (meaning_on_numbers demo_env False) ?ss [VUndef] (RetC (VInt 1)) ([VUndef][0 := VInt 2])"
    by (rule bigs_stop, rule big_try, rule bigs_stop, rule demo_big, simp, rule handles_none, rule finishes_cases(1),
        rule bigs_cons, rule demo_big, rule bigs_nil, simp)
  then have "bigs demo_env (meaning_on_numbers demo_env (c_strict demo_compiler)) ?ss [VUndef] (RetC (VInt 1)) [VInt 2]" by (simp add: demo_compiler_def)
  then have "reach demo_env (demo_call P [VUndef]) (returned (demo_call P [VUndef]) (VInt 1) [VInt 2])"
    using function_body_correct [OF demo_fits, of ?ss "demo_call P [VUndef]" "RetC (VInt 1)" "[VInt 2]"] P tidy
    by (simp add: demo_call_def)
  then show ?thesis using P by (simp add: Let_def)
qed

section \<open>Programs on which the compiler goes wrong\<close>

text \<open>
  \<^verbatim>\<open>x = 1; l: { while (true) { if (false) break l; break; } } return x;\<close> returns the old value of \<^verbatim>\<open>x\<close>. The conditional is compiled in dummy
  mode, which copies the block of the loop but not the one of \<^verbatim>\<open>l\<close>: the position of the branch in the code that is thrown away
  is patched into the program when \<^verbatim>\<open>l\<close> is left, and the jump replaces the first instruction of \<^verbatim>\<open>x = 1\<close>.
\<close>

theorem dead_branch_patched_into_live_code:
  "let ss = [set_x 1,
       LabelledS [1] (BlockS [WhileS (Lit (VBool True))
         (BlockS [IfS (Lit (VBool False)) (BranchS True (Some [1])) None, BranchS True None])]),
       ReturnS (Some (Ident (ascii ''x'')))]
   in demo_result ss [VInt 0] = Some ([VInt 0], [VInt 0]) \<and> bigs demo_env (meaning demo_env False) ss [VInt 0] (RetC (VInt 1)) [VInt 1]"
  unfolding Let_def
proof
  show "demo_result [set_x 1,
       LabelledS [1] (BlockS [WhileS (Lit (VBool True))
         (BlockS [IfS (Lit (VBool False)) (BranchS True (Some [1])) None, BranchS True None])]),
       ReturnS (Some (Ident (ascii ''x'')))] [VInt 0] = Some ([VInt 0], [VInt 0])"
    by code_simp
  let ?body = "BlockS [IfS (Lit (VBool False)) (BranchS True (Some [1])) None, BranchS True None]"
  have "big demo_env (meaning demo_env False) None ?body [VInt 1] (Brk None) [VInt 1]"
    by (rule big_block, rule bigs_cons, rule big_if_none) (auto simp: ret_def intro: bigs_stop demo_means)
  then have "iter demo_env (meaning demo_env False) None (Some (Lit (VBool True))) None ?body [VInt 1] (loop_exit None (Brk None)) [VInt 1]"
    by (rule iter_exit [rotated 2]) (auto simp: ovalue_def ret_def goes_on_def)
  then have "big demo_env (meaning demo_env False) None (WhileS (Lit (VBool True)) ?body) [VInt 1] Normal [VInt 1]"
    by (intro big_while) (simp add: loop_exit_def)
  then have "big demo_env (meaning demo_env False) None (LabelledS [1] (BlockS [WhileS (Lit (VBool True)) ?body])) [VInt 1] Normal [VInt 1]"
    by (intro label_cases(2) big_block bigs_cons [OF _ bigs_nil]) (auto simp: is_loop_def)
  moreover have "big demo_env (meaning demo_env False) None (ReturnS (Some (Ident (ascii ''x'')))) [VInt 1] (RetC (VInt 1)) [VInt 1]"
    by (rule big_return) (simp add: demo_load(3) bindM_def ret_def)
  ultimately show "bigs demo_env (meaning demo_env False) [set_x 1, LabelledS [1] (BlockS [WhileS (Lit (VBool True)) ?body]),
       ReturnS (Some (Ident (ascii ''x'')))] [VInt 0] (RetC (VInt 1)) [VInt 1]"
    using demo_means(2) [of None 1 "[VInt 0]"] by (intro bigs_cons [of demo_env _ "set_x 1"] bigs_cons [of demo_env _ "LabelledS _ _"] bigs_stop) auto
qed

text \<open>
  \<^verbatim>\<open>try { return 1 } finally { l: try { return 2 } finally { break l } }\<close> returns 2: the value of the pending return is kept in the result
  register, which the return that is abandoned overwrites.
\<close>

theorem abandoned_return_overwrites:
  "let ss = [TryS [ret_int 1] None (Some [LabelledS [1] (TryS [ret_int 2] None (Some [BranchS True (Some [1])]))])]
   in demo_result ss [VUndef] = Some ([VInt 2], [VUndef]) \<and> bigs demo_env (meaning demo_env False) ss [VUndef] (RetC (VInt 1)) [VUndef]"
  unfolding Let_def
proof
  show "demo_result [TryS [ret_int 1] None (Some [LabelledS [1] (TryS [ret_int 2] None (Some [BranchS True (Some [1])]))])] [VUndef] =
      Some ([VInt 2], [VUndef])"
    by code_simp
  show "bigs demo_env (meaning demo_env False) [TryS [ret_int 1] None (Some [LabelledS [1] (TryS [ret_int 2] None (Some [BranchS True (Some [1])]))])]
      [VUndef] (RetC (VInt 1)) [VUndef]"
    by (rule bigs_stop, rule big_try, rule bigs_stop, rule demo_means, simp, rule handles_none, rule finishes_cases(1),
        rule bigs_cons, rule label_cases(1), simp add: is_loop_def, rule big_try, rule bigs_stop, rule demo_means, simp, rule handles_none,
        rule finishes_cases(2), rule bigs_stop, rule demo_means, simp, simp, rule bigs_nil, simp)
qed

text \<open>
  \<^verbatim>\<open>a: { b: { try {} finally { if (x) break a; break b; } return 2 } return 1 } return 0;\<close> with \<^verbatim>\<open>x\<close> true leaves the block \<^verbatim>\<open>b\<close> and
  not \<^verbatim>\<open>a\<close>. A branch directly in a \<^verbatim>\<open>finally\<close> block replaces the branches of the statement, those of the \<^verbatim>\<open>finally\<close> block itself included.
\<close>

theorem finally_branch_redirected:
  "let ss = [LabelledS [1] (BlockS [LabelledS [2] (BlockS
         [TryS [] None (Some [IfS (Ident (ascii ''x'')) (BranchS True (Some [1])) None, BranchS True (Some [2])]), ret_int 2]), ret_int 1]),
       ret_int 0]
   in demo_result ss [VInt 1] = Some ([VInt 1], [VInt 1]) \<and> bigs demo_env (meaning demo_env False) ss [VInt 1] (RetC (VInt 0)) [VInt 1]"
  unfolding Let_def
proof
  let ?f = "[IfS (Ident (ascii ''x'')) (BranchS True (Some [1])) None, BranchS True (Some [2])]"
  show "demo_result [LabelledS [1] (BlockS [LabelledS [2] (BlockS [TryS [] None (Some ?f), ret_int 2]), ret_int 1]), ret_int 0] [VInt 1] =
      Some ([VInt 1], [VInt 1])"
    by code_simp
  have "big demo_env (meaning demo_env False) None (IfS (Ident (ascii ''x'')) (BranchS True (Some [1])) None) [VInt 1] (Brk (Some [1])) [VInt 1]"
    by (rule big_if_true [OF _ _ demo_means(3)]) (auto simp: demo_load(3) bindM_def ret_def)
  then have "bigs demo_env (meaning demo_env False) ?f [VInt 1] (Brk (Some [1])) [VInt 1]" by (rule bigs_stop) simp
  then have "big demo_env (meaning demo_env False) None (TryS [] None (Some ?f)) [VInt 1] (Brk (Some [1])) [VInt 1]"
    by (intro big_try [OF bigs_nil handles_none] finishes_cases(2)) simp_all
  then have "big demo_env (meaning demo_env False) None (LabelledS [2] (BlockS [TryS [] None (Some ?f), ret_int 2])) [VInt 1] (Brk (Some [1])) [VInt 1]"
    by (intro label_cases(2) big_block bigs_stop) (auto simp: is_loop_def)
  then have "big demo_env (meaning demo_env False) None (LabelledS [1] (BlockS [LabelledS [2] (BlockS [TryS [] None (Some ?f), ret_int 2]), ret_int 1]))
      [VInt 1] Normal [VInt 1]"
    by (intro label_cases(1) big_block bigs_stop) (auto simp: is_loop_def)
  then show "bigs demo_env (meaning demo_env False) [LabelledS [1] (BlockS [LabelledS [2] (BlockS [TryS [] None (Some ?f), ret_int 2]), ret_int 1]), ret_int 0]
      [VInt 1] (RetC (VInt 0)) [VInt 1]"
    by (rule bigs_cons) (auto intro: bigs_stop demo_means)
qed

text \<open>
  In \<^verbatim>\<open>while (x) l: { try {} finally { if (!(x = 0)) continue; break l; } } return 5;\<close> the \<^verbatim>\<open>continue\<close> is recorded in the block \<^verbatim>\<open>l\<close>, which is not
  a loop and never patches it: the machine comes to an instruction that was never written.
\<close>

theorem finally_continue_never_patched:
  "let ss = [WhileS (Ident (ascii ''x'')) (LabelledS [1] (BlockS
         [TryS [] None (Some [IfS (UnaryE UNot (Assign [] (Lit (VInt 0)))) (BranchS False None) None, BranchS True (Some [1])])])),
       ret_int 5]
   in (\<exists>P. compileBody demo_compiler ss = Some P \<and> run demo_env (demo_call P [VInt 1]) = Some Crashed) \<and>
      bigs demo_env (meaning demo_env False) ss [VInt 1] (RetC (VInt 5)) [VInt 0]"
  unfolding Let_def
proof
  let ?f = "[IfS (UnaryE UNot (Assign [] (Lit (VInt 0)))) (BranchS False None) None, BranchS True (Some [1])]"
  have "(case compileBody demo_compiler [WhileS (Ident (ascii ''x'')) (LabelledS [1] (BlockS [TryS [] None (Some ?f)])), ret_int 5] of
      None \<Rightarrow> False | Some P \<Rightarrow> (case run demo_env (demo_call P [VInt 1]) of Some Crashed \<Rightarrow> True | _ \<Rightarrow> False))"
    by code_simp
  then show "\<exists>P. compileBody demo_compiler [WhileS (Ident (ascii ''x'')) (LabelledS [1] (BlockS [TryS [] None (Some ?f)])), ret_int 5] = Some P \<and>
      run demo_env (demo_call P [VInt 1]) = Some Crashed"
    by (auto split: option.splits turn.splits)
  have v: "meaning demo_env False True (UnaryE UNot (Assign [] (Lit (VInt 0)))) [VInt 1] (Inr (VBool True), [VInt 0])"
    by (simp add: demo_env_def bindM_def ret_def not_exec_def)
  have "big demo_env (meaning demo_env False) None (IfS (UnaryE UNot (Assign [] (Lit (VInt 0)))) (BranchS False None) None) [VInt 1] (Cont None) [VInt 0]"
    by (rule big_if_true [OF v _ demo_means(4)]) simp
  then have "bigs demo_env (meaning demo_env False) ?f [VInt 1] (Cont None) [VInt 0]" by (rule bigs_stop) simp
  then have "big demo_env (meaning demo_env False) None (TryS [] None (Some ?f)) [VInt 1] (Cont None) [VInt 0]"
    by (intro big_try [OF bigs_nil handles_none] finishes_cases(2)) simp_all
  then have "big demo_env (meaning demo_env False) None (LabelledS [1] (BlockS [TryS [] None (Some ?f)])) [VInt 1] (Cont None) [VInt 0]"
    by (intro label_cases(2) big_block bigs_stop) (auto simp: is_loop_def)
  then have "iter demo_env (meaning demo_env False) None (Some (Ident (ascii ''x''))) None (LabelledS [1] (BlockS [TryS [] None (Some ?f)])) [VInt 1] Normal [VInt 0]"
    by (rule iter_next [rotated 2, OF _ _ _ iter_end]) (auto simp: ovalue_def ret_def goes_on_def demo_load(3) bindM_def)
  then show "bigs demo_env (meaning demo_env False) [WhileS (Ident (ascii ''x'')) (LabelledS [1] (BlockS [TryS [] None (Some ?f)])), ret_int 5] [VInt 1] (RetC (VInt 5)) [VInt 0]"
    by (intro bigs_cons [OF big_while]) (auto intro: bigs_stop demo_means)
qed

end
