(* ===== verification/Proxy.thy ===== *)
theory Proxy
  imports Objects Arith
begin

text \<open>
  Proxies (proxy.go): the internal methods of \<^verbatim>\<open>proxyObject\<close> on an ordinary target, with a handler that is a JavaScript object. Each method
  looks the trap up in the handler, calls it, checks what it returned against the target and otherwise, when there is no
  trap, forwards to the target. The world of the model is the heap and whatever else user code changes; a trap may
  change all of it. Keys are strings; the variants for index and symbol keys have the same code.
\<close>

section \<open>The handler\<close>

type_synonym 'u pworld = "heap \<times> 'u"

text \<open>
  Beside the environment of \<^verbatim>\<open>Arith\<close>, user objects are read by index, a length is converted, and the object that stands for a
  descriptor is made for the \<^verbatim>\<open>defineProperty\<close> trap.
\<close>

record 'w penv =
  x_env :: "'w env"
  x_getIdx :: "oid \<Rightarrow> int \<Rightarrow> ('w, val option) jsm"
  x_toLength :: "val option \<Rightarrow> ('w, int) jsm"
  x_descToValue :: "PropertyDescriptor \<Rightarrow> ('w, val) jsm"

text \<open>
  A proxy: its own identity, its target and its handler. \<^verbatim>\<open>revoke\<close> removes the last two; without a handler no method reads
  the target, which the model keeps.
\<close>

record proxyObject =
  p_val :: oid
  p_target :: oid
  p_handler :: "oid option"

definition revoke :: "proxyObject \<Rightarrow> proxyObject" where
  "revoke p = p\<lparr>p_handler := None\<rparr>"

definition checkHandler :: "proxyObject \<Rightarrow> ('w, oid) jsm" where
  "checkHandler p = (case p_handler p of Some h \<Rightarrow> ret h | None \<Rightarrow> throwM TypeErr)"

definition toObject :: "val \<Rightarrow> ('w, oid) jsm" where
  "toObject v = (case v of VObj x \<Rightarrow> ret x | _ \<Rightarrow> throwM TypeErr)"

definition proxyCall :: "'w penv \<Rightarrow> oid \<Rightarrow> string \<Rightarrow> val list \<Rightarrow> ('w, val option) jsm" where
  "proxyCall E h trap args =
     bindM (e_getStr (x_env E) h (ascii trap)) (\<lambda>m.
     bindM (toMethod (x_env E) m) (\<lambda>f.
       case f of
         Some fn \<Rightarrow> bindM (e_call (x_env E) fn (VObj h) args) (\<lambda>v. ret (Some v))
       | None \<Rightarrow> ret None))"

definition boolProxyCall :: "'w penv \<Rightarrow> oid \<Rightarrow> string \<Rightarrow> val list \<Rightarrow> ('w, bool option) jsm" where
  "boolProxyCall E h trap args = bindM (proxyCall E h trap args) (\<lambda>v. ret (map_option ToBoolean v))"

section \<open>The target\<close>

definition t_isExtensible :: "oid \<Rightarrow> ('u pworld, bool) jsm" where
  "t_isExtensible t w = (Inr (extensible (obj (fst w) t)), w)"

definition t_proto :: "oid \<Rightarrow> ('u pworld, oid option) jsm" where
  "t_proto t w = (Inr (prototype (obj (fst w) t)), w)"

definition t_getOwnPropStr :: "oid \<Rightarrow> ustr \<Rightarrow> ('u pworld, slot option) jsm" where
  "t_getOwnPropStr t name w = (Inr (getOwnPropStr (fst w) t name), w)"

text \<open>A method: what the trap decides, or else what the target does.\<close>

definition or_target :: "('w, 'a option) jsm \<Rightarrow> ('w \<Rightarrow> ('a outcome \<times> 'w) option) \<Rightarrow> 'w \<Rightarrow> ('a outcome \<times> 'w) option" where
  "or_target trap target w =
     (case trap w of
        (Inl e, w') \<Rightarrow> Some (Throw e, w')
      | (Inr (Some a), w') \<Rightarrow> Some (Done a, w')
      | (Inr None, w') \<Rightarrow> target w')"

definition on_heap :: "(heap \<Rightarrow> ('a outcome \<times> heap) option) \<Rightarrow> 'u pworld \<Rightarrow> ('a outcome \<times> 'u pworld) option" where
  "on_heap f w = map_option (\<lambda>(r, h). (r, (h, snd w))) (f (fst w))"

definition reading :: "(heap \<Rightarrow> 'a outcome option) \<Rightarrow> 'u pworld \<Rightarrow> ('a outcome \<times> 'u pworld) option" where
  "reading f w = map_option (\<lambda>r. (r, w)) (f (fst w))"

text \<open>\<^verbatim>\<open>typeErrorResult\<close> followed by \<^verbatim>\<open>return false\<close>.\<close>

definition rejectM :: "bool \<Rightarrow> ('w, bool) jsm" where
  "rejectM throw = (if throw then throwM TypeErr else ret False)"

definition assertM :: "bool \<Rightarrow> ('w, unit) jsm" where
  "assertM b = (if b then ret () else throwM TypeErr)"

text \<open>The body of an \<^verbatim>\<open>if v, ok := p.checkHandler().trap(...); ok\<close>.\<close>

definition trapped :: "proxyObject \<Rightarrow> (oid \<Rightarrow> ('w, 'v option) jsm) \<Rightarrow> ('v \<Rightarrow> ('w, 'a) jsm) \<Rightarrow> ('w, 'a option) jsm" where
  "trapped p call body =
     bindM (checkHandler p) (\<lambda>h.
     bindM (call h) (\<lambda>r.
       case r of Some v \<Rightarrow> bindM (body v) (\<lambda>a. ret (Some a)) | None \<Rightarrow> ret None))"

section \<open>Prototype and extensibility\<close>

definition proto_trap :: "'u pworld penv \<Rightarrow> proxyObject \<Rightarrow> ('u pworld, oid option option) jsm" where
  "proto_trap E p =
     trapped p (\<lambda>h. proxyCall E h ''getPrototypeOf'' [VObj (p_target p)]) (\<lambda>v.
       bindM (if v \<noteq> VNull then bindM (toObject v) (\<lambda>x. ret (Some x)) else ret None) (\<lambda>handlerProto.
       bindM (t_isExtensible (p_target p)) (\<lambda>ext.
         if ext then ret handlerProto
         else bindM (t_proto (p_target p)) (\<lambda>tp. bindM (assertM (handlerProto = tp)) (\<lambda>_. ret handlerProto)))))"

definition proxy_proto :: "'u pworld penv \<Rightarrow> proxyObject \<Rightarrow> 'u pworld \<Rightarrow> (oid option outcome \<times> 'u pworld) option" where
  "proxy_proto E p = or_target (proto_trap E p) (reading (\<lambda>h. Some (Done (prototype (obj h (p_target p))))))"

definition setProto_trap :: "'u pworld penv \<Rightarrow> proxyObject \<Rightarrow> oid option \<Rightarrow> bool \<Rightarrow> ('u pworld, bool option) jsm" where
  "setProto_trap E p proto throw =
     trapped p
       (\<lambda>h. boolProxyCall E h ''setPrototypeOf'' [VObj (p_target p), case proto of Some x \<Rightarrow> VObj x | None \<Rightarrow> VNull])
       (\<lambda>v. if v then
              bindM (t_isExtensible (p_target p)) (\<lambda>ext.
                if ext then ret True
                else bindM (t_proto (p_target p)) (\<lambda>tp. bindM (assertM (proto = tp)) (\<lambda>_. ret True)))
            else rejectM throw)"

definition proxy_setProto ::
    "oid \<Rightarrow> 'u pworld penv \<Rightarrow> proxyObject \<Rightarrow> oid option \<Rightarrow> bool \<Rightarrow> 'u pworld \<Rightarrow> (bool outcome \<times> 'u pworld) option" where
  "proxy_setProto ObjectPrototype E p proto throw =
     or_target (setProto_trap E p proto throw) (on_heap (\<lambda>h. setProto ObjectPrototype h (p_target p) proto throw))"

definition isExtensible_trap :: "'u pworld penv \<Rightarrow> proxyObject \<Rightarrow> ('u pworld, bool option) jsm" where
  "isExtensible_trap E p =
     trapped p (\<lambda>h. boolProxyCall E h ''isExtensible'' [VObj (p_target p)]) (\<lambda>b.
       bindM (t_isExtensible (p_target p)) (\<lambda>te. bindM (assertM (b = te)) (\<lambda>_. ret b)))"

definition proxy_isExtensible :: "'u pworld penv \<Rightarrow> proxyObject \<Rightarrow> 'u pworld \<Rightarrow> (bool outcome \<times> 'u pworld) option" where
  "proxy_isExtensible E p = or_target (isExtensible_trap E p) (reading (\<lambda>h. Some (Done (extensible (obj h (p_target p))))))"

text \<open>After a trap that returned true the method of the target is called as well.\<close>

definition preventExtensions_trap :: "'u pworld penv \<Rightarrow> proxyObject \<Rightarrow> bool \<Rightarrow> ('u pworld, bool option) jsm" where
  "preventExtensions_trap E p throw =
     bindM (trapped p (\<lambda>h. boolProxyCall E h ''preventExtensions'' [VObj (p_target p)]) (\<lambda>b.
       if \<not> b then bindM (rejectM throw) (\<lambda>r. ret (Some r))
       else bindM (t_isExtensible (p_target p)) (\<lambda>te. bindM (assertM (\<not> te)) (\<lambda>_. ret None))))
     (\<lambda>r. ret (case r of Some (Some b) \<Rightarrow> Some b | _ \<Rightarrow> None))"

definition proxy_preventExtensions :: "'u pworld penv \<Rightarrow> proxyObject \<Rightarrow> bool \<Rightarrow> 'u pworld \<Rightarrow> (bool outcome \<times> 'u pworld) option" where
  "proxy_preventExtensions E p throw =
     or_target (preventExtensions_trap E p throw) (on_heap (\<lambda>h. Some (Done True, preventExtensions h (p_target p))))"

section \<open>Descriptors\<close>

text \<open>\<^verbatim>\<open>toPropertyDescriptor\<close> and \<^verbatim>\<open>toValueProp\<close> read the same fields of an object, in different orders.\<close>

definition field :: "'w penv \<Rightarrow> oid \<Rightarrow> string \<Rightarrow> ('w, val option) jsm" where
  "field E x name = e_getStr (x_env E) x (ascii name)"

definition flag_of :: "val option \<Rightarrow> Flag" where
  "flag_of v = (case v of None \<Rightarrow> FLAG_NOT_SET | Some x \<Rightarrow> ToFlag (ToBoolean x))"

definition check_func :: "'w penv \<Rightarrow> val option \<Rightarrow> ('w, unit) jsm" where
  "check_func E v =
     (case v of
        None \<Rightarrow> ret ()
      | Some VUndef \<Rightarrow> ret ()
      | Some x \<Rightarrow> bindM (toObject x) (\<lambda>f. assertM (e_callable (x_env E) f)))"

definition toPropertyDescriptor :: "'w penv \<Rightarrow> oid \<Rightarrow> ('w, PropertyDescriptor) jsm" where
  "toPropertyDescriptor E x =
     bindM (field E x ''value'') (\<lambda>value.
     bindM (field E x ''writable'') (\<lambda>writable.
     bindM (field E x ''enumerable'') (\<lambda>enumerable.
     bindM (field E x ''configurable'') (\<lambda>configurable.
     bindM (field E x ''get'') (\<lambda>getter.
     bindM (field E x ''set'') (\<lambda>setter.
     bindM (check_func E getter) (\<lambda>_.
     bindM (check_func E setter) (\<lambda>_.
     bindM (assertM (\<not> ((getter \<noteq> None \<or> setter \<noteq> None) \<and> (value \<noteq> None \<or> writable \<noteq> None)))) (\<lambda>_.
     ret \<lparr>pd_value = value, pd_writable = flag_of writable, pd_configurable = flag_of configurable,
          pd_enumerable = flag_of enumerable, pd_getter = getter, pd_setter = setter\<rparr>)))))))))"

definition is_true :: "val option \<Rightarrow> bool" where
  "is_true v = (case v of None \<Rightarrow> False | Some x \<Rightarrow> ToBoolean x)"

definition toFunc :: "'w penv \<Rightarrow> val option \<Rightarrow> ('w, oid option) jsm" where
  "toFunc E v =
     (case v of
        None \<Rightarrow> ret None
      | Some VUndef \<Rightarrow> ret None
      | Some x \<Rightarrow> bindM (toObject x) (\<lambda>f. bindM (assertM (e_callable (x_env E) f)) (\<lambda>_. ret (Some f))))"

definition toValueProp :: "'w penv \<Rightarrow> oid \<Rightarrow> ('w, valueProperty) jsm" where
  "toValueProp E x =
     bindM (field E x ''get'') (\<lambda>getter.
     bindM (field E x ''set'') (\<lambda>setter.
     bindM (field E x ''writable'') (\<lambda>writable.
     bindM (field E x ''value'') (\<lambda>value.
     bindM (assertM (\<not> ((getter \<noteq> None \<or> setter \<noteq> None) \<and> (value \<noteq> None \<or> writable \<noteq> None)))) (\<lambda>_.
     bindM (field E x ''enumerable'') (\<lambda>enumerable.
     bindM (field E x ''configurable'') (\<lambda>configurable.
     bindM (toFunc E getter) (\<lambda>g.
     bindM (toFunc E setter) (\<lambda>s.
     ret \<lparr>vp_value = value, vp_writable = is_true writable, vp_configurable = is_true configurable,
          vp_enumerable = is_true enumerable, vp_accessor = (g \<noteq> None \<or> s \<noteq> None), vp_getterFunc = g, vp_setterFunc = s\<rparr>)))))))))"

section \<open>Own properties\<close>

definition proxyDefineOwnPropertyPostCheck :: "oid \<Rightarrow> slot option \<Rightarrow> PropertyDescriptor \<Rightarrow> ('u pworld, unit) jsm" where
  "proxyDefineOwnPropertyPostCheck t prop descr =
     bindM (t_isExtensible t) (\<lambda>extensibleTarget.
       let settingConfigFalse = (pd_configurable descr = FLAG_FALSE) in
       case map_option propToValueProp prop of
         None \<Rightarrow> bindM (assertM extensibleTarget) (\<lambda>_. assertM (\<not> settingConfigFalse))
       | Some targetDesc \<Rightarrow>
           (case isCompatiblePropertyDescriptor extensibleTarget descr (Some targetDesc) True of
              Inl e \<Rightarrow> throwM e
            | Inr _ \<Rightarrow>
                bindM (assertM (\<not> (settingConfigFalse \<and> vp_configurable targetDesc))) (\<lambda>_.
                assertM (\<not> (vp_value targetDesc \<noteq> None \<and> \<not> vp_configurable targetDesc \<and> vp_writable targetDesc \<and>
                  pd_writable descr = FLAG_FALSE)))))"

definition define_trap :: "'u pworld penv \<Rightarrow> proxyObject \<Rightarrow> ustr \<Rightarrow> PropertyDescriptor \<Rightarrow> bool \<Rightarrow> ('u pworld, bool option) jsm" where
  "define_trap E p name descr throw =
     trapped p
       (\<lambda>h. bindM (x_descToValue E descr) (\<lambda>d. boolProxyCall E h ''defineProperty'' [VObj (p_target p), VStr name, d]))
       (\<lambda>b. if \<not> b then rejectM throw
            else bindM (t_getOwnPropStr (p_target p) name) (\<lambda>prop.
                 bindM (proxyDefineOwnPropertyPostCheck (p_target p) prop descr) (\<lambda>_. ret True)))"

definition proxy_defineOwnPropertyStr ::
    "'u pworld penv \<Rightarrow> proxyObject \<Rightarrow> ustr \<Rightarrow> PropertyDescriptor \<Rightarrow> bool \<Rightarrow> 'u pworld \<Rightarrow> (bool outcome \<times> 'u pworld) option" where
  "proxy_defineOwnPropertyStr E p name descr throw =
     or_target (define_trap E p name descr throw)
       (on_heap (\<lambda>h. Some (defineOwnPropertyStr (e_callable (x_env E)) h (p_target p) name descr throw)))"

definition proxyHasChecks :: "oid \<Rightarrow> slot option \<Rightarrow> ('u pworld, unit) jsm" where
  "proxyHasChecks t targetProp =
     (case map_option propToValueProp targetProp of
        None \<Rightarrow> ret ()
      | Some targetDesc \<Rightarrow>
          bindM (assertM (vp_configurable targetDesc)) (\<lambda>_. bindM (t_isExtensible t) assertM))"

definition has_trap :: "'u pworld penv \<Rightarrow> proxyObject \<Rightarrow> ustr \<Rightarrow> ('u pworld, bool option) jsm" where
  "has_trap E p name =
     trapped p (\<lambda>h. boolProxyCall E h ''has'' [VObj (p_target p), VStr name]) (\<lambda>b.
       if b then ret True
       else bindM (t_getOwnPropStr (p_target p) name) (\<lambda>prop. bindM (proxyHasChecks (p_target p) prop) (\<lambda>_. ret False)))"

definition proxy_hasPropertyStr :: "'u pworld penv \<Rightarrow> proxyObject \<Rightarrow> ustr \<Rightarrow> 'u pworld \<Rightarrow> (bool outcome \<times> 'u pworld) option" where
  "proxy_hasPropertyStr E p name = or_target (has_trap E p name) (reading (\<lambda>h. hasPropertyStr h (p_target p) name))"

text \<open>
  The last step reads the object the trap returned once more, unless all three flags are set: the property that is
  returned is not the descriptor that was checked.
\<close>

definition proxyGetOwnPropertyDescriptor :: "'u pworld penv \<Rightarrow> oid \<Rightarrow> slot option \<Rightarrow> val \<Rightarrow> ('u pworld, slot option) jsm" where
  "proxyGetOwnPropertyDescriptor E t targetProp trapResult =
     (let targetDesc = map_option propToValueProp targetProp in
      case trapResult of
        VUndef \<Rightarrow>
          (case targetDesc of
             None \<Rightarrow> ret None
           | Some td \<Rightarrow>
               bindM (assertM (vp_configurable td)) (\<lambda>_.
               bindM (t_isExtensible t) (\<lambda>ext. bindM (assertM ext) (\<lambda>_. ret None))))
      | VObj x \<Rightarrow>
          bindM (t_isExtensible t) (\<lambda>extensibleTarget.
          bindM (toPropertyDescriptor E x) (\<lambda>d.
            let resultDesc = pd_complete d in
            case isCompatiblePropertyDescriptor extensibleTarget resultDesc targetDesc False of
              Inr True \<Rightarrow>
                bindM (if pd_configurable resultDesc = FLAG_FALSE then
                         case targetDesc of
                           None \<Rightarrow> throwM TypeErr
                         | Some td \<Rightarrow>
                             bindM (assertM (\<not> vp_configurable td)) (\<lambda>_.
                             assertM (\<not> (pd_writable resultDesc = FLAG_FALSE \<and> vp_writable td)))
                       else ret ()) (\<lambda>_.
                if pd_writable resultDesc = FLAG_TRUE \<and> pd_configurable resultDesc = FLAG_TRUE \<and> pd_enumerable resultDesc = FLAG_TRUE
                then ret (map_option Plain (pd_value resultDesc))
                else bindM (toValueProp E x) (\<lambda>vp. ret (Some (Prop vp))))
            | _ \<Rightarrow> throwM TypeErr))
      | _ \<Rightarrow> throwM TypeErr)"

definition getOwn_trap :: "'u pworld penv \<Rightarrow> proxyObject \<Rightarrow> ustr \<Rightarrow> ('u pworld, slot option option) jsm" where
  "getOwn_trap E p name =
     trapped p (\<lambda>h. proxyCall E h ''getOwnPropertyDescriptor'' [VObj (p_target p), VStr name]) (\<lambda>v.
       bindM (t_getOwnPropStr (p_target p) name) (\<lambda>prop. proxyGetOwnPropertyDescriptor E (p_target p) prop v))"

definition proxy_getOwnPropStr :: "'u pworld penv \<Rightarrow> proxyObject \<Rightarrow> ustr \<Rightarrow> 'u pworld \<Rightarrow> (slot option outcome \<times> 'u pworld) option" where
  "proxy_getOwnPropStr E p name =
     or_target (getOwn_trap E p name) (reading (\<lambda>h. Some (Done (getOwnPropStr h (p_target p) name))))"

section \<open>Reading, writing and deleting\<close>

text \<open>The checks look at explicit attributes only: a plain value is writable and configurable.\<close>

definition proxyGetChecks :: "slot option \<Rightarrow> val \<Rightarrow> ('w, unit) jsm" where
  "proxyGetChecks targetProp trapResult =
     (case targetProp of
        Some (Prop td) \<Rightarrow>
          if \<not> vp_accessor td then
            assertM (\<not> (\<not> vp_writable td \<and> \<not> vp_configurable td \<and> \<not> same_value trapResult (vp_value td)))
          else assertM (\<not> (\<not> vp_configurable td \<and> vp_getterFunc td = None \<and> trapResult \<noteq> VUndef))
      | _ \<Rightarrow> ret ())"

definition get_trap :: "'u pworld penv \<Rightarrow> proxyObject \<Rightarrow> ustr \<Rightarrow> val \<Rightarrow> ('u pworld, val option option) jsm" where
  "get_trap E p name receiver =
     trapped p (\<lambda>h. proxyCall E h ''get'' [VObj (p_target p), VStr name, receiver]) (\<lambda>v.
       bindM (t_getOwnPropStr (p_target p) name) (\<lambda>prop. bindM (proxyGetChecks prop v) (\<lambda>_. ret (Some v))))"

definition proxy_getStr :: "'u pworld penv \<Rightarrow> proxyObject \<Rightarrow> ustr \<Rightarrow> val option \<Rightarrow> 'u pworld \<Rightarrow> (val option outcome \<times> 'u pworld) option" where
  "proxy_getStr E p name receiver =
     (let receiver = (case receiver of None \<Rightarrow> VObj (p_val p) | Some r \<Rightarrow> r) in
      or_target (get_trap E p name receiver) (reading (\<lambda>h. getStr h (p_target p) name (Some receiver))))"

definition sameValue :: "val option \<Rightarrow> val \<Rightarrow> bool" where
  "sameValue v w = (case v of None \<Rightarrow> False | Some x \<Rightarrow> SameAs x w)"

definition proxySetPostCheck :: "slot option \<Rightarrow> val \<Rightarrow> ('w, unit) jsm" where
  "proxySetPostCheck targetProp value =
     (case targetProp of
        Some (Prop td) \<Rightarrow>
          if vp_accessor td then assertM (\<not> (\<not> vp_configurable td \<and> vp_setterFunc td = None))
          else assertM (\<not> (\<not> vp_configurable td \<and> \<not> vp_writable td \<and> \<not> sameValue (vp_value td) value))
      | _ \<Rightarrow> ret ())"

definition set_trap :: "'u pworld penv \<Rightarrow> proxyObject \<Rightarrow> ustr \<Rightarrow> val \<Rightarrow> val \<Rightarrow> bool \<Rightarrow> ('u pworld, bool option) jsm" where
  "set_trap E p name v receiver throw =
     trapped p (\<lambda>h. boolProxyCall E h ''set'' [VObj (p_target p), VStr name, v, receiver]) (\<lambda>b.
       if b then bindM (t_getOwnPropStr (p_target p) name) (\<lambda>prop. bindM (proxySetPostCheck prop v) (\<lambda>_. ret True))
       else rejectM throw)"

definition proxySetStr ::
    "'u pworld penv \<Rightarrow> proxyObject \<Rightarrow> ustr \<Rightarrow> val \<Rightarrow> val \<Rightarrow> bool \<Rightarrow> 'u pworld \<Rightarrow> (bool outcome \<times> 'u pworld) option" where
  "proxySetStr E p name v receiver throw =
     or_target (set_trap E p name v receiver throw)
       (on_heap (\<lambda>h. setStr (e_callable (x_env E)) h (p_target p) name v receiver throw))"

definition proxyDeleteCheck :: "bool \<Rightarrow> slot option \<Rightarrow> oid \<Rightarrow> bool \<Rightarrow> ('u pworld, unit) jsm" where
  "proxyDeleteCheck trapResult targetProp t throw =
     (if trapResult then
        case targetProp of
          None \<Rightarrow> ret ()
        | Some s \<Rightarrow>
            bindM (case s of Prop td \<Rightarrow> assertM (vp_configurable td) | Plain _ \<Rightarrow> ret ()) (\<lambda>_. bindM (t_isExtensible t) assertM)
      else bindM (rejectM throw) (\<lambda>_. ret ()))"

definition delete_trap :: "'u pworld penv \<Rightarrow> proxyObject \<Rightarrow> ustr \<Rightarrow> bool \<Rightarrow> ('u pworld, bool option) jsm" where
  "delete_trap E p name throw =
     trapped p (\<lambda>h. boolProxyCall E h ''deleteProperty'' [VObj (p_target p), VStr name]) (\<lambda>b.
       bindM (t_getOwnPropStr (p_target p) name) (\<lambda>prop.
       bindM (proxyDeleteCheck b prop (p_target p) throw) (\<lambda>_. ret b)))"

definition proxy_deleteStr :: "'u pworld penv \<Rightarrow> proxyObject \<Rightarrow> ustr \<Rightarrow> bool \<Rightarrow> 'u pworld \<Rightarrow> (bool outcome \<times> 'u pworld) option" where
  "proxy_deleteStr E p name throw =
     or_target (delete_trap E p name throw) (on_heap (\<lambda>h. Some (deleteStr h (p_target p) name throw)))"

section \<open>Keys\<close>

text \<open>
  The keys that the trap returned: strings and symbols, none twice. The set of names is the list of the keys so far. Then the
  keys of the target, strings here, are taken out of the set one by one; the second argument is what remains.
\<close>

fun key_list :: "'w penv \<Rightarrow> oid \<Rightarrow> int \<Rightarrow> nat \<Rightarrow> val list \<Rightarrow> ('w, val list) jsm" where
  "key_list E x k 0 keys = ret keys"
| "key_list E x k (Suc n) keys =
     bindM (x_getIdx E x k) (\<lambda>v.
       let item = (case v of None \<Rightarrow> VUndef | Some i \<Rightarrow> i) in
       bindM (assertM (case item of VStr _ \<Rightarrow> True | VSym _ \<Rightarrow> True | _ \<Rightarrow> False)) (\<lambda>_.
       bindM (assertM (item \<notin> set keys)) (\<lambda>_.
       key_list E x (k + 1) n (keys @ [item]))))"

fun match_keys :: "bool \<Rightarrow> baseObject \<Rightarrow> ustr list \<Rightarrow> val list \<Rightarrow> ('w, val list) jsm" where
  "match_keys ext b [] keySet = ret keySet"
| "match_keys ext b (name # names) keySet =
     (if VStr name \<in> set keySet then match_keys ext b names (remove1 (VStr name) keySet)
      else
        bindM (assertM ext) (\<lambda>_.
        bindM (case propValues b name of
                 Some (Prop prop) \<Rightarrow> assertM (vp_configurable prop)
               | _ \<Rightarrow> ret ()) (\<lambda>_.
        match_keys ext b names keySet)))"

definition t_iterateKeys :: "oid \<Rightarrow> ('u pworld, ustr list) jsm" where
  "t_iterateKeys t w =
     (case stringKeys True (obj (fst w) t) of (names, b) \<Rightarrow> (Inr names, ((fst w)(t \<mapsto> b), snd w)))"

definition proxyOwnKeys :: "'u pworld penv \<Rightarrow> proxyObject \<Rightarrow> ('u pworld, val list option) jsm" where
  "proxyOwnKeys E p =
     trapped p
       (\<lambda>h. bindM (proxyCall E h ''ownKeys'' [VObj (p_target p)]) (\<lambda>v.
              case v of None \<Rightarrow> ret None | Some x \<Rightarrow> bindM (toObject x) (\<lambda>o'. ret (Some o'))))
       (\<lambda>x.
         bindM (field E x ''length'') (\<lambda>len.
         bindM (x_toLength E len) (\<lambda>l.
         bindM (key_list E x 0 (nat l) []) (\<lambda>keyList.
         bindM (t_isExtensible (p_target p)) (\<lambda>ext.
         bindM (t_iterateKeys (p_target p)) (\<lambda>names.
         bindM (\<lambda>w. match_keys ext (obj (fst w) (p_target p)) names keyList w) (\<lambda>keySet.
         bindM (assertM (\<not> (\<not> ext \<and> keyList \<noteq> [] \<and> keySet \<noteq> []))) (\<lambda>_.
         ret keyList))))))))"

section \<open>The invariants of proxies\<close>

lemma bind_Inr: "bindM m k w = (Inr x, w') \<longleftrightarrow> (\<exists>a w1. m w = (Inr a, w1) \<and> k a w1 = (Inr x, w'))"
  by (auto simp: bindM_def split: prod.splits sum.splits)

lemma monad_Inr:
  "ret a w = (Inr x, w') \<longleftrightarrow> x = a \<and> w' = w" "throwM e w \<noteq> (Inr x, w')"
  by (auto simp: ret_def throwM_def)

lemma check_Inr:
  "assertM b w = (Inr u, w') \<longleftrightarrow> b \<and> w' = w" "rejectM throw w = (Inr r, w') \<longleftrightarrow> \<not> throw \<and> r = False \<and> w' = w"
  by (auto simp: ret_def throwM_def assertM_def rejectM_def)

lemma target_Inr:
  "t_isExtensible t w = (Inr b, w') \<longleftrightarrow> b = extensible (obj (fst w) t) \<and> w' = w"
  "t_proto t w = (Inr q, w') \<longleftrightarrow> q = prototype (obj (fst w) t) \<and> w' = w"
  "t_getOwnPropStr t name w = (Inr s, w') \<longleftrightarrow> s = getOwnPropStr (fst w) t name \<and> w' = w"
  by (auto simp: t_isExtensible_def t_proto_def t_getOwnPropStr_def)

lemma if_Inr:
  "(if b then m else n) w = r \<longleftrightarrow> (if b then m w = r else n w = r)"
  by simp

lemmas effects = bind_Inr monad_Inr check_Inr target_Inr if_Inr

lemma trapped_some:
  "trapped p call body w = (Inr (Some a), w') \<longleftrightarrow>
   (\<exists>h v w1. p_handler p = Some h \<and> call h w = (Inr (Some v), w1) \<and> body v w1 = (Inr a, w'))"
  unfolding trapped_def checkHandler_def by (auto simp: effects split: option.splits; blast)

abbreviation target :: "proxyObject \<Rightarrow> 'u pworld \<Rightarrow> baseObject" where
  "target p w \<equiv> obj (fst w) (p_target p)"

definition tprop :: "proxyObject \<Rightarrow> 'u pworld \<Rightarrow> ustr \<Rightarrow> valueProperty option" where
  "tprop p w name = map_option propToValueProp (propValues (target p w) name)"

lemma proto_invariant:
  "proto_trap E p w = (Inr (Some x), w') \<Longrightarrow> \<not> extensible (target p w') \<Longrightarrow> x = prototype (target p w')"
  unfolding proto_trap_def by (auto simp: trapped_some effects split: if_splits)

lemma setProto_invariant:
  "setProto_trap E p proto throw w = (Inr (Some True), w') \<Longrightarrow> \<not> extensible (target p w') \<Longrightarrow> proto = prototype (target p w')"
  unfolding setProto_trap_def by (auto simp: trapped_some effects split: if_splits)

lemma isExtensible_invariant: "isExtensible_trap E p w = (Inr (Some b), w') \<Longrightarrow> b = extensible (target p w')"
  unfolding isExtensible_trap_def by (auto simp: trapped_some effects)

lemma preventExtensions_trap_no: "preventExtensions_trap E p throw w \<noteq> (Inr (Some True), w')"
  unfolding preventExtensions_trap_def
  by (fastforce simp: effects trapped_some dest!: spec split: option.splits if_splits)

lemma preventExtensions_invariant:
  "proxy_preventExtensions E p throw w = Some (Done True, w') \<Longrightarrow> \<not> extensible (target p w')"
  unfolding proxy_preventExtensions_def or_target_def
  by (auto simp: preventExtensions_trap_no on_heap_def preventExtensions_def upd_obj_def split: prod.splits sum.splits option.splits)

lemma define_invariant:
  assumes "define_trap E p name descr throw w = (Inr (Some True), w')"
  shows "case tprop p w' name of
      None \<Rightarrow> extensible (target p w') \<and> pd_configurable descr \<noteq> FLAG_FALSE
    | Some td \<Rightarrow> \<not> rejects descr td \<and> (pd_configurable descr = FLAG_FALSE \<longrightarrow> \<not> vp_configurable td) \<and>
        (vp_value td \<noteq> None \<and> \<not> vp_configurable td \<and> vp_writable td \<longrightarrow> pd_writable descr \<noteq> FLAG_FALSE)"
  using assms unfolding define_trap_def proxyDefineOwnPropertyPostCheck_def tprop_def
  by (auto simp: trapped_some effects Let_def getOwnPropStr_def isCompatiblePropertyDescriptor_def split: if_splits option.splits sum.splits)

lemma has_invariant:
  "has_trap E p name w = (Inr (Some False), w') \<Longrightarrow> tprop p w' name = Some td \<Longrightarrow> vp_configurable td \<and> extensible (target p w')"
  unfolding has_trap_def proxyHasChecks_def tprop_def
  by (auto simp: trapped_some effects getOwnPropStr_def split: if_splits option.splits)

lemma proxyGetChecks_Inr:
  "proxyGetChecks (Some s) v w = (Inr u, w') \<Longrightarrow> \<not> vp_configurable (propToValueProp s) \<Longrightarrow>
   w' = w \<and> (\<not> vp_accessor (propToValueProp s) \<longrightarrow> \<not> vp_writable (propToValueProp s) \<longrightarrow> same_value v (vp_value (propToValueProp s))) \<and>
   (vp_accessor (propToValueProp s) \<longrightarrow> vp_getterFunc (propToValueProp s) = None \<longrightarrow> v = VUndef)"
  unfolding proxyGetChecks_def by (auto simp: effects propToValueProp_def split: slot.splits if_splits)

lemma get_invariant:
  assumes "get_trap E p name receiver w = (Inr (Some (Some v)), w')" "tprop p w' name = Some td" "\<not> vp_configurable td"
  shows "(\<not> vp_accessor td \<longrightarrow> \<not> vp_writable td \<longrightarrow> same_value v (vp_value td)) \<and> (vp_accessor td \<longrightarrow> vp_getterFunc td = None \<longrightarrow> v = VUndef)"
proof -
  obtain w1 where *: "proxyGetChecks (propValues (target p w1) name) v w1 = (Inr (), w')"
    using assms(1) unfolding get_trap_def by (auto simp: trapped_some effects getOwnPropStr_def)
  have "w' = w1"
    using * by (auto simp: proxyGetChecks_def effects split: option.splits slot.splits if_splits)
  then show ?thesis
    using assms(2,3) * proxyGetChecks_Inr [of _ v w1 "()" w'] unfolding tprop_def by auto
qed

lemma proxySetPostCheck_Inr:
  "proxySetPostCheck (Some s) v w = (Inr u, w') \<Longrightarrow> \<not> vp_configurable (propToValueProp s) \<Longrightarrow>
   w' = w \<and> (\<not> vp_accessor (propToValueProp s) \<longrightarrow> \<not> vp_writable (propToValueProp s) \<longrightarrow> sameValue (vp_value (propToValueProp s)) v) \<and>
   (vp_accessor (propToValueProp s) \<longrightarrow> vp_setterFunc (propToValueProp s) \<noteq> None)"
  unfolding proxySetPostCheck_def by (auto simp: effects propToValueProp_def split: slot.splits if_splits)

lemma set_invariant:
  assumes "set_trap E p name v receiver throw w = (Inr (Some True), w')" "tprop p w' name = Some td" "\<not> vp_configurable td"
  shows "(\<not> vp_accessor td \<longrightarrow> \<not> vp_writable td \<longrightarrow> sameValue (vp_value td) v) \<and> (vp_accessor td \<longrightarrow> vp_setterFunc td \<noteq> None)"
proof -
  obtain w1 where *: "proxySetPostCheck (propValues (target p w1) name) v w1 = (Inr (), w')"
    using assms(1) unfolding set_trap_def by (auto simp: trapped_some effects getOwnPropStr_def split: if_splits)
  have "w' = w1"
    using * by (auto simp: proxySetPostCheck_def effects split: option.splits slot.splits if_splits)
  then show ?thesis
    using assms(2,3) * proxySetPostCheck_Inr [of _ v w1 "()" w'] unfolding tprop_def by auto
qed

lemma proxyDeleteCheck_Inr:
  "proxyDeleteCheck True s t throw w = (Inr u, w') \<Longrightarrow>
   w' = w \<and> (\<forall>x. s = Some x \<longrightarrow> vp_configurable (propToValueProp x) \<and> extensible (obj (fst w) t))"
  unfolding proxyDeleteCheck_def by (auto simp: effects propToValueProp_def split: option.splits slot.splits if_splits)

lemma delete_invariant:
  assumes "delete_trap E p name throw w = (Inr (Some True), w')" "tprop p w' name = Some td"
  shows "vp_configurable td \<and> extensible (target p w')"
proof -
  obtain w1 where *: "proxyDeleteCheck True (propValues (target p w1) name) (p_target p) throw w1 = (Inr (), w')"
    using assms(1) unfolding delete_trap_def by (auto simp: trapped_some effects getOwnPropStr_def)
  show ?thesis
    using assms(2) proxyDeleteCheck_Inr [OF *] unfolding tprop_def by auto
qed

section \<open>The list of own keys\<close>

abbreviation is_key :: "val \<Rightarrow> bool" where
  "is_key v \<equiv> case v of VStr _ \<Rightarrow> True | VSym _ \<Rightarrow> True | _ \<Rightarrow> False"

lemma key_list_Inr:
  "key_list E x k n keys w = (Inr ks, w') \<Longrightarrow> distinct keys \<Longrightarrow> list_all is_key keys \<Longrightarrow> distinct ks \<and> list_all is_key ks"
proof (induction n arbitrary: k keys w)
  case (Suc n)
  then obtain v w1 where s: "x_getIdx E x k w = (Inr v, w1)" "is_key (case v of None \<Rightarrow> VUndef | Some i \<Rightarrow> i)"
      "(case v of None \<Rightarrow> VUndef | Some i \<Rightarrow> i) \<notin> set keys"
      "key_list E x (k + 1) n (keys @ [case v of None \<Rightarrow> VUndef | Some i \<Rightarrow> i]) w1 = (Inr ks, w')"
    by (auto simp: effects Let_def)
  show ?case
    using Suc.IH [OF s(4)] Suc.prems(2,3) s(2,3) by simp
qed (auto simp: effects)

lemma match_keys_world: "match_keys ext b names S w = (Inr R, w') \<Longrightarrow> w' = w"
  by (induction names arbitrary: S) (auto simp: effects split: if_splits option.splits slot.splits)

lemma match_keys_Inr:
  "match_keys ext b names S w = (Inr R, w') \<Longrightarrow> distinct names \<Longrightarrow> distinct S \<Longrightarrow>
   w' = w \<and> set R = set S - VStr ` set names \<and>
   (\<forall>name \<in> set names. VStr name \<notin> set S \<longrightarrow> ext \<and> (\<forall>s. propValues b name = Some s \<longrightarrow> vp_configurable (propToValueProp s)))"
proof (induction names arbitrary: S)
  case (Cons name names)
  show ?case
  proof (cases "VStr name \<in> set S")
    case True
    have m: "match_keys ext b names (remove1 (VStr name) S) w = (Inr R, w')"
      using Cons.prems(1) True by simp
    show ?thesis
      using Cons.IH [OF m] Cons.prems(2,3) True by (auto simp: set_remove1_eq)
  next
    case False
    have m: "match_keys ext b names S w = (Inr R, w')" "ext" "\<forall>s. propValues b name = Some s \<longrightarrow> vp_configurable (propToValueProp s)"
      using Cons.prems(1) False by (auto simp: effects propToValueProp_def split: option.splits slot.splits)
    show ?thesis
      using Cons.IH [OF m(1)] Cons.prems(2,3) False m(2,3) by auto
  qed
qed (simp add: effects)

lemma ensurePropOrder_flags [simp]:
  "extensible (ensurePropOrder b) = extensible b" "propValues (ensurePropOrder b) = propValues b"
  by (auto simp: ensurePropOrder_def fixPropOrder_def Let_def split: prod.splits)

lemma iterateKeys_Inr:
  assumes "t_iterateKeys (p_target p) w = (Inr names, w')"
  shows "names = propNames (target p w')" "extensible (target p w') = extensible (target p w)"
  using assms by (auto simp: t_iterateKeys_def stringKeys_def Let_def)

lemma ownKeys_invariant:
  assumes "proxyOwnKeys E p w = (Inr (Some ks), w')" "bo_ok (target p w')"
  shows "distinct ks \<and> list_all is_key ks \<and>
    (\<forall>name td. tprop p w' name = Some td \<longrightarrow> \<not> vp_configurable td \<longrightarrow> VStr name \<in> set ks) \<and>
    (\<not> extensible (target p w') \<longrightarrow> set ks = VStr ` dom (propValues (target p w')))"
proof -
  obtain x n w1 w2 w3 names R where k: "key_list E x 0 n [] w1 = (Inr ks, w2)"
    and t: "t_iterateKeys (p_target p) w2 = (Inr names, w3)"
    and m: "match_keys (extensible (target p w2)) (target p w3) names ks w3 = (Inr R, w')"
    and e: "\<not> (\<not> extensible (target p w2) \<and> ks \<noteq> [] \<and> R \<noteq> [])"
    using assms(1) unfolding proxyOwnKeys_def by (auto simp: trapped_some effects simp del: match_keys.simps)
  have ks: "distinct ks" "list_all is_key ks"
    using key_list_Inr [OF k] by auto
  note it = iterateKeys_Inr [OF t]
  have w: "w' = w3"
    using match_keys_world [OF m] .
  have "distinct names" "set names = dom (propValues (target p w'))"
    using assms(2) it w by (auto simp: bo_ok_def)
  then show ?thesis
    using match_keys_Inr [OF m _ ks(1)] ks e it w unfolding tprop_def by auto
qed

section \<open>The descriptor of an own property\<close>

text \<open>Reading the fields of an object in a world has no effect: they are data properties.\<close>

definition stable :: "'w penv \<Rightarrow> oid \<Rightarrow> (string \<Rightarrow> val option) \<Rightarrow> 'w \<Rightarrow> bool" where
  "stable E x f w \<longleftrightarrow> (\<forall>name. field E x name w = (Inr (f name), w))"

text \<open>The object that the trap returns for the property is such an object when it is returned.\<close>

definition plain_answer :: "'w penv \<Rightarrow> proxyObject \<Rightarrow> ustr \<Rightarrow> 'w \<Rightarrow> bool" where
  "plain_answer E p name w \<longleftrightarrow>
     (\<forall>h x w'. p_handler p = Some h \<and>
        proxyCall E h ''getOwnPropertyDescriptor'' [VObj (p_target p), VStr name] w = (Inr (Some (VObj x)), w') \<longrightarrow>
        (\<exists>f. stable E x f w'))"

lemma check_func_Inr: "check_func E v w = (Inr u, w') \<Longrightarrow> w' = w"
  by (auto simp: check_func_def toObject_def effects split: option.splits val.splits)

lemma toFunc_Inr: "toFunc E v w = (Inr r, w') \<Longrightarrow> w' = w \<and> (r = None \<longleftrightarrow> v = None \<or> v = Some VUndef)"
  by (auto simp: toFunc_def toObject_def effects split: option.splits val.splits)

lemma toPropertyDescriptor_stable:
  assumes "stable E x f w" "toPropertyDescriptor E x w = (Inr d, w')"
  shows "w' = w" "pd_configurable d = flag_of (f ''configurable'')" "pd_writable d = flag_of (f ''writable'')"
    "pd_enumerable d = flag_of (f ''enumerable'')" "pd_value d = f ''value''" "pd_getter d = f ''get''" "pd_setter d = f ''set''"
    "(f ''get'' \<noteq> None \<or> f ''set'' \<noteq> None) \<longrightarrow> f ''value'' = None \<and> f ''writable'' = None"
  using assms unfolding toPropertyDescriptor_def stable_def
  by (auto simp: effects dest!: check_func_Inr)

lemma toValueProp_stable:
  assumes "stable E x f w" "toValueProp E x w = (Inr d, w')"
  shows "w' = w" "vp_configurable d = is_true (f ''configurable'')" "vp_writable d = is_true (f ''writable'')"
    "vp_value d = f ''value''" "vp_accessor d \<longrightarrow> f ''get'' \<noteq> None \<or> f ''set'' \<noteq> None"
  using assms unfolding toValueProp_def stable_def
  by (auto simp: effects dest!: toFunc_Inr)

lemma flag_of_simps [simp]:
  "orFalse (flag_of v) = ToFlag (is_true v)" "flag_of v = FLAG_TRUE \<longleftrightarrow> is_true v" "ToFlag b = FLAG_FALSE \<longleftrightarrow> \<not> b" "ToFlag b = FLAG_TRUE \<longleftrightarrow> b"
  by (auto simp: flag_of_def is_true_def ToFlag_def orFalse_def split: option.splits)

lemma descriptor_checks:
  assumes "proxyGetOwnPropertyDescriptor E t prop (VObj x) w = (Inr r, w')" "stable E x f w"
  defines "td \<equiv> map_option propToValueProp prop"
  shows "w' = w" "\<exists>s. r = Some s \<and> vp_configurable (propToValueProp s) = is_true (f ''configurable'') \<and>
      (vp_value (propToValueProp s) \<noteq> None \<longrightarrow> vp_writable (propToValueProp s) = is_true (f ''writable'')) \<and>
      (td = None \<longrightarrow> extensible (obj (fst w) t)) \<and>
      (\<not> is_true (f ''configurable'') \<longrightarrow> (\<exists>c. td = Some c \<and> \<not> vp_configurable c \<and>
        (vp_value (propToValueProp s) \<noteq> None \<and> \<not> is_true (f ''writable'') \<longrightarrow> \<not> vp_writable c)))"
proof -
  obtain d w1 where d: "toPropertyDescriptor E x w = (Inr d, w1)"
    using assms(1) unfolding proxyGetOwnPropertyDescriptor_def Let_def by (auto simp: effects)
  note D = toPropertyDescriptor_stable [OF assms(2) d]
  have rest: "isCompatiblePropertyDescriptor (extensible (obj (fst w) t)) (pd_complete d) td False = Inr True"
     "pd_configurable (pd_complete d) = FLAG_FALSE \<longrightarrow> (\<exists>c. td = Some c \<and> \<not> vp_configurable c \<and> \<not> (pd_writable (pd_complete d) = FLAG_FALSE \<and> vp_writable c))"
     "(if pd_writable (pd_complete d) = FLAG_TRUE \<and> pd_configurable (pd_complete d) = FLAG_TRUE \<and> pd_enumerable (pd_complete d) = FLAG_TRUE
                then ret (map_option Plain (pd_value (pd_complete d)))
                else bindM (toValueProp E x) (\<lambda>vp. ret (Some (Prop vp)))) w = (Inr r, w')"
    using assms(1) d D(1) unfolding proxyGetOwnPropertyDescriptor_def Let_def td_def [symmetric]
    by (auto simp: effects split: sum.splits bool.splits if_splits option.splits)
  have c: "pd_configurable (pd_complete d) = ToFlag (is_true (f ''configurable''))"
    "f ''value'' \<noteq> None \<Longrightarrow> pd_writable (pd_complete d) = ToFlag (is_true (f ''writable''))"
    "pd_writable (pd_complete d) = FLAG_TRUE \<Longrightarrow> is_true (f ''writable'') \<and> pd_value (pd_complete d) \<noteq> None"
    using D by (auto simp: pd_complete_def Let_def orUndef_def flag_of_def [of None] is_true_def [of None] split: if_splits)
  have t: "td = None \<longrightarrow> extensible (obj (fst w) t)"
    using rest(1) by (auto simp: isCompatiblePropertyDescriptor_def)
  have res: "w' = w \<and> (\<exists>s. r = Some s \<and> vp_configurable (propToValueProp s) = is_true (f ''configurable'') \<and>
      (vp_value (propToValueProp s) \<noteq> None \<longrightarrow> vp_writable (propToValueProp s) = is_true (f ''writable'') \<and>
        (f ''value'' \<noteq> None \<or> is_true (f ''configurable''))))"
    using rest(3) c(1,3) by (auto simp: effects propToValueProp_def toValueProp_stable [OF assms(2)] split: if_splits)
  show "w' = w" using res by simp
  show "\<exists>s. r = Some s \<and> vp_configurable (propToValueProp s) = is_true (f ''configurable'') \<and>
      (vp_value (propToValueProp s) \<noteq> None \<longrightarrow> vp_writable (propToValueProp s) = is_true (f ''writable'')) \<and>
      (td = None \<longrightarrow> extensible (obj (fst w) t)) \<and>
      (\<not> is_true (f ''configurable'') \<longrightarrow> (\<exists>c. td = Some c \<and> \<not> vp_configurable c \<and>
        (vp_value (propToValueProp s) \<noteq> None \<and> \<not> is_true (f ''writable'') \<longrightarrow> \<not> vp_writable c)))"
    using res t rest(2) c(1,2) by auto
qed

lemma getOwn_split:
  assumes "getOwn_trap E p name w = (Inr (Some r), w')"
  obtains h v w1 where "p_handler p = Some h" "proxyCall E h ''getOwnPropertyDescriptor'' [VObj (p_target p), VStr name] w = (Inr (Some v), w1)"
    "proxyGetOwnPropertyDescriptor E (p_target p) (propValues (target p w1) name) v w1 = (Inr r, w')"
  using assms unfolding getOwn_trap_def by (auto simp: trapped_some effects getOwnPropStr_def)

text \<open>A property is denied only by an answer \<^verbatim>\<open>undefined\<close>: a descriptor object always gives a property.\<close>

lemma pd_complete_writable:
  "pd_getter d = None \<and> pd_setter d = None \<or> pd_writable d = FLAG_NOT_SET \<Longrightarrow> pd_writable (pd_complete d) = FLAG_TRUE \<Longrightarrow>
   pd_value (pd_complete d) \<noteq> None"
  by (auto simp: pd_complete_def Let_def orUndef_def split: if_splits)

lemma toPropertyDescriptor_kind:
  "toPropertyDescriptor E x w = (Inr d, w') \<Longrightarrow> pd_getter d = None \<and> pd_setter d = None \<or> pd_writable d = FLAG_NOT_SET"
  unfolding toPropertyDescriptor_def by (auto simp: effects flag_of_def)

lemma denial_undefined:
  assumes "proxyGetOwnPropertyDescriptor E t prop v w = (Inr None, w')"
  shows "v = VUndef"
proof (cases v)
  case (VObj x)
  obtain d w1 where d: "toPropertyDescriptor E x w = (Inr d, w1)"
    using assms unfolding VObj proxyGetOwnPropertyDescriptor_def Let_def by (auto simp: effects)
  have r: "(if pd_writable (pd_complete d) = FLAG_TRUE \<and> pd_configurable (pd_complete d) = FLAG_TRUE \<and> pd_enumerable (pd_complete d) = FLAG_TRUE
                then ret (map_option Plain (pd_value (pd_complete d)))
                else bindM (toValueProp E x) (\<lambda>vp. ret (Some (Prop vp)))) w1 = (Inr None, w')"
    using assms d unfolding VObj proxyGetOwnPropertyDescriptor_def Let_def
    by (auto simp: effects split: sum.splits bool.splits if_splits option.splits)
  show ?thesis using pd_complete_writable [OF toPropertyDescriptor_kind [OF d]] r by (auto simp: effects split: if_splits)
qed (use assms in \<open>simp_all add: proxyGetOwnPropertyDescriptor_def Let_def effects\<close>)

lemma getOwn_denial:
  assumes "getOwn_trap E p name w = (Inr (Some None), w')" "tprop p w' name = Some td"
  shows "vp_configurable td \<and> extensible (target p w')"
proof -
  obtain h v w1 where *: "proxyGetOwnPropertyDescriptor E (p_target p) (propValues (target p w1) name) v w1 = (Inr None, w')"
    using getOwn_split [OF assms(1)] .
  then show ?thesis using assms(2) denial_undefined [OF *] unfolding proxyGetOwnPropertyDescriptor_def Let_def tprop_def
    by (auto simp: effects split: option.splits)
qed

lemma getOwn_report:
  assumes "getOwn_trap E p name w = (Inr (Some (Some s)), w')" "plain_answer E p name w"
  shows "(tprop p w' name = None \<longrightarrow> extensible (target p w')) \<and>
        (\<not> vp_configurable (propToValueProp s) \<longrightarrow> (\<exists>td. tprop p w' name = Some td \<and> \<not> vp_configurable td \<and>
          (vp_value (propToValueProp s) \<noteq> None \<and> \<not> vp_writable (propToValueProp s) \<longrightarrow> \<not> vp_writable td)))"
proof -
  obtain h v w1 where h: "p_handler p = Some h" "proxyCall E h ''getOwnPropertyDescriptor'' [VObj (p_target p), VStr name] w = (Inr (Some v), w1)"
    and *: "proxyGetOwnPropertyDescriptor E (p_target p) (propValues (target p w1) name) v w1 = (Inr (Some s), w')"
    using getOwn_split [OF assms(1)] .
  show ?thesis
  proof (cases v)
    case (VObj x)
    obtain f where f: "stable E x f w1" using assms(2) h VObj unfolding plain_answer_def by blast
    show ?thesis
      using descriptor_checks [OF * [unfolded VObj] f] unfolding tprop_def by fastforce
  next
    case VUndef
    then show ?thesis
      using * unfolding proxyGetOwnPropertyDescriptor_def Let_def tprop_def by (auto simp: effects split: option.splits)
  qed (use * in \<open>simp_all add: proxyGetOwnPropertyDescriptor_def Let_def effects\<close>)
qed

section \<open>A handler without traps\<close>

lemma no_trap:
  assumes "p_handler p = Some h" "e_getStr (x_env E) h (ascii trap) w = (Inr None, w)"
  shows "trapped p (\<lambda>h. proxyCall E h trap xs) body w = (Inr None, w)"
    "trapped p (\<lambda>h. boolProxyCall E h trap xs) body' w = (Inr None, w)"
  using assms by (simp_all add: trapped_def checkHandler_def boolProxyCall_def proxyCall_def toMethod_def bindM_def ret_def)

lemma preventExtensions_no_trap:
  assumes "p_handler p = Some h" "e_getStr (x_env E) h (ascii ''preventExtensions'') w = (Inr None, w)"
  shows "preventExtensions_trap E p throw w = (Inr None, w)"
  unfolding preventExtensions_trap_def by (simp add: bindM_def no_trap(2) [OF assms] ret_def)

lemmas trap_defs = proto_trap_def setProto_trap_def isExtensible_trap_def has_trap_def getOwn_trap_def get_trap_def set_trap_def
  delete_trap_def

definition no_traps :: "'w penv \<Rightarrow> oid \<Rightarrow> bool" where
  "no_traps E h \<longleftrightarrow> (\<forall>trap w. e_getStr (x_env E) h (ascii trap) w = (Inr None, w))"

text \<open>A proxy whose handler has no traps is transparent: every method does to the world and returns exactly what the method of the target does.\<close>

theorem proxy_transparent:
  assumes "p_handler p = Some h" "no_traps E h"
  shows "proxy_proto E p w = Some (Done (prototype (target p w)), w) \<and>
    proxy_isExtensible E p w = Some (Done (extensible (target p w)), w) \<and>
    proxy_setProto OP E p q throw w = on_heap (\<lambda>h. setProto OP h (p_target p) q throw) w \<and>
    proxy_preventExtensions E p throw w = Some (Done True, (preventExtensions (fst w) (p_target p), snd w)) \<and>
    proxy_getOwnPropStr E p name w = Some (Done (propValues (target p w) name), w) \<and>
    proxy_hasPropertyStr E p name w = reading (\<lambda>h. hasPropertyStr h (p_target p) name) w \<and>
    proxy_getStr E p name (Some r) w = reading (\<lambda>h. getStr h (p_target p) name (Some r)) w \<and>
    proxySetStr E p name v r throw w = on_heap (\<lambda>h. setStr (e_callable (x_env E)) h (p_target p) name v r throw) w \<and>
    proxy_deleteStr E p name throw w = on_heap (\<lambda>h. Some (deleteStr h (p_target p) name throw)) w"
proof -
  have "e_getStr (x_env E) h (ascii trap) w = (Inr None, w)" for trap
    using assms(2) unfolding no_traps_def by blast
  note n = no_trap [OF assms(1) this] preventExtensions_no_trap [OF assms(1) this]
  show ?thesis
    unfolding proxy_proto_def proxy_isExtensible_def proxy_setProto_def proxy_preventExtensions_def proxy_getOwnPropStr_def
      proxy_hasPropertyStr_def proxy_getStr_def proxySetStr_def proxy_deleteStr_def or_target_def trap_defs
    by (simp add: n reading_def on_heap_def getOwnPropStr_def)
qed

text \<open>
  (C22) What a trap reports of a property never contradicts the target at the end of the call, whatever the trap did to the world. A
  non-configurable read-only property keeps its value for readers and writers, and one without a getter or setter stays without it; a
  property that is not configurable, or belongs to a target that is not extensible, cannot be denied by \<^verbatim>\<open>has\<close> or \<^verbatim>\<open>getOwnPropertyDescriptor\<close> nor be deleted; a
  definition that is accepted is compatible with the target's property and is non-configurable only if that is; and a non-configurable property is
  reported only if the target has one, provided reading the fields of the object that the trap returned has no effect.
\<close>

theorem proxy_property_invariants:
  "(get_trap E p a receiver w = (Inr (Some (Some v)), w1) \<longrightarrow> tprop p w1 a = Some td \<longrightarrow> \<not> vp_configurable td \<longrightarrow>
      (\<not> vp_accessor td \<longrightarrow> \<not> vp_writable td \<longrightarrow> same_value v (vp_value td)) \<and> (vp_accessor td \<longrightarrow> vp_getterFunc td = None \<longrightarrow> v = VUndef)) \<and>
   (set_trap E p a v receiver throw w = (Inr (Some True), w2) \<longrightarrow> tprop p w2 a = Some td \<longrightarrow> \<not> vp_configurable td \<longrightarrow>
      (\<not> vp_accessor td \<longrightarrow> \<not> vp_writable td \<longrightarrow> sameValue (vp_value td) v) \<and> (vp_accessor td \<longrightarrow> vp_setterFunc td \<noteq> None)) \<and>
   (has_trap E p b w = (Inr (Some False), w3) \<longrightarrow> tprop p w3 b = Some te \<longrightarrow> vp_configurable te \<and> extensible (target p w3)) \<and>
   (delete_trap E p b throw w = (Inr (Some True), w4) \<longrightarrow> tprop p w4 b = Some te \<longrightarrow> vp_configurable te \<and> extensible (target p w4)) \<and>
   (define_trap E p a d throw w = (Inr (Some True), w5) \<longrightarrow>
      (case tprop p w5 a of
         None \<Rightarrow> extensible (target p w5) \<and> pd_configurable d \<noteq> FLAG_FALSE
       | Some tf \<Rightarrow> \<not> rejects d tf \<and> (pd_configurable d = FLAG_FALSE \<longrightarrow> \<not> vp_configurable tf) \<and>
           (vp_value tf \<noteq> None \<and> \<not> vp_configurable tf \<and> vp_writable tf \<longrightarrow> pd_writable d \<noteq> FLAG_FALSE))) \<and>
   (getOwn_trap E p a w = (Inr (Some (Some s)), w6) \<longrightarrow> plain_answer E p a w \<longrightarrow>
      (tprop p w6 a = None \<longrightarrow> extensible (target p w6)) \<and>
      (\<not> vp_configurable (propToValueProp s) \<longrightarrow> (\<exists>tf. tprop p w6 a = Some tf \<and> \<not> vp_configurable tf \<and>
         (vp_value (propToValueProp s) \<noteq> None \<and> \<not> vp_writable (propToValueProp s) \<longrightarrow> \<not> vp_writable tf)))) \<and>
   (getOwn_trap E p b w = (Inr (Some None), w7) \<longrightarrow> tprop p w7 b = Some te \<longrightarrow> vp_configurable te \<and> extensible (target p w7))"
proof (intro conjI)
  show "getOwn_trap E p a w = (Inr (Some (Some s)), w6) \<longrightarrow> plain_answer E p a w \<longrightarrow>
      (tprop p w6 a = None \<longrightarrow> extensible (target p w6)) \<and>
      (\<not> vp_configurable (propToValueProp s) \<longrightarrow> (\<exists>tf. tprop p w6 a = Some tf \<and> \<not> vp_configurable tf \<and>
         (vp_value (propToValueProp s) \<noteq> None \<and> \<not> vp_writable (propToValueProp s) \<longrightarrow> \<not> vp_writable tf)))"
    using getOwn_report [of E p a w s w6] by blast
  show "getOwn_trap E p b w = (Inr (Some None), w7) \<longrightarrow> tprop p w7 b = Some te \<longrightarrow> vp_configurable te \<and> extensible (target p w7)"
    using getOwn_denial [of E p b w w7 te] by blast
qed (use get_invariant [of E p a receiver w v w1 td] set_invariant [of E p a v receiver throw w w2 td] has_invariant [of E p b w w3 te]
  delete_invariant [of E p b throw w w4 te] define_invariant [of E p a d throw w w5] in \<open>simp_all\<close>)

text \<open>(C23) What a trap reports of the target itself is true at the end of the call: extensibility always, the prototype and the set of keys when the target is not extensible, and the keys are distinct strings and symbols that include every non-configurable property; when \<^verbatim>\<open>preventExtensions\<close> succeeds the target is not extensible.\<close>

theorem proxy_object_invariants:
  "(proto_trap E p w = (Inr (Some x), w1) \<longrightarrow> \<not> extensible (target p w1) \<longrightarrow> x = prototype (target p w1)) \<and>
   (setProto_trap E p q throw w = (Inr (Some True), w2) \<longrightarrow> \<not> extensible (target p w2) \<longrightarrow> q = prototype (target p w2)) \<and>
   (isExtensible_trap E p w = (Inr (Some e), w3) \<longrightarrow> e = extensible (target p w3)) \<and>
   (proxy_preventExtensions E p throw w = Some (Done True, w4) \<longrightarrow> \<not> extensible (target p w4)) \<and>
   (proxyOwnKeys E p w = (Inr (Some ks), w5) \<longrightarrow> bo_ok (target p w5) \<longrightarrow>
      distinct ks \<and> list_all is_key ks \<and>
      (\<forall>name td. tprop p w5 name = Some td \<longrightarrow> \<not> vp_configurable td \<longrightarrow> VStr name \<in> set ks) \<and>
      (\<not> extensible (target p w5) \<longrightarrow> set ks = VStr ` dom (propValues (target p w5))))"
  using proto_invariant [of E p w x w1] setProto_invariant [of E p q throw w w2] isExtensible_invariant [of E p w e w3]
    preventExtensions_invariant [of E p throw w w4] ownKeys_invariant [of E p w ks w5] by blast
section \<open>Concrete handlers\<close>

text \<open>
  The target has a frozen property \<^verbatim>\<open>a\<close> and an ordinary one \<^verbatim>\<open>b\<close>; the handler's traps answer with constants; the
  object 3 is the descriptor of the frozen property and the object 4 a list of keys.
\<close>

definition frozen5 :: valueProperty where
  "frozen5 = \<lparr>vp_value = Some (VInt 5), vp_writable = False, vp_configurable = False, vp_enumerable = False, vp_accessor = False,
     vp_getterFunc = None, vp_setterFunc = None\<rparr>"

definition demo_target :: baseObject where
  "demo_target = bo_put (ascii ''b'') (Plain VNull) (bo_put (ascii ''a'') (Prop frozen5) plain_object)"

definition closed_target :: baseObject where
  "closed_target = ensurePropOrder (demo_target\<lparr>extensible := False\<rparr>)"

definition demo_trap :: "string \<Rightarrow> oid option" where
  "demo_trap name = map_of [(''get'', 10), (''set'', 11), (''has'', 12), (''deleteProperty'', 11), (''defineProperty'', 11),
     (''getOwnPropertyDescriptor'', 13), (''getPrototypeOf'', 14), (''setPrototypeOf'', 11), (''isExtensible'', 12),
     (''preventExtensions'', 11), (''ownKeys'', 15)] name"

definition demo_answer :: "oid \<Rightarrow> val" where
  "demo_answer f = (if f = 10 then VInt 5 else if f = 11 then VBool True else if f = 12 then VBool False else if f = 13 then VObj 3
     else if f = 14 then VNull else VObj 4)"

definition demo_field :: "ustr \<Rightarrow> val option" where
  "demo_field name = (if name = ascii ''value'' then Some (VInt 5) else if name = ascii ''length'' then Some (VInt 2) else None)"

definition trap_names :: "string list" where
  "trap_names = [''get'', ''set'', ''has'', ''deleteProperty'', ''defineProperty'', ''getOwnPropertyDescriptor'', ''getPrototypeOf'',
     ''setPrototypeOf'', ''isExtensible'', ''preventExtensions'', ''ownKeys'']"

definition demo_handler :: "ustr \<Rightarrow> val option" where
  "demo_handler name = Option.bind (find (\<lambda>t. ascii t = name) trap_names) (\<lambda>t. map_option VObj (demo_trap t))"

definition demo_penv :: "unit pworld penv" where
  "demo_penv = \<lparr>
     x_env = \<lparr>e_getStr = \<lambda>x name w. (Inr (if x = 2 then demo_handler name else if x = 6 then None else demo_field name), w),
       e_getSym = \<lambda>_ _ w. (Inr None, w), e_callable = \<lambda>f. 10 \<le> f, e_call = \<lambda>f _ _ w. (Inr (demo_answer f), w),
       e_strToNumber = \<lambda>_. VUndef, e_strToBigInt = \<lambda>_. None, e_floatToStr = \<lambda>_. [], e_pow = \<lambda>x _. x\<rparr>,
     x_getIdx = \<lambda>_ k w. (Inr (Some (VStr (ascii (if k = 0 then ''a'' else ''b'')))), w),
     x_toLength = \<lambda>_ w. (Inr 2, w), x_descToValue = \<lambda>_ w. (Inr (VObj 3), w)\<rparr>"

definition demo_proxy :: proxyObject where
  "demo_proxy = \<lparr>p_val = 9, p_target = 0, p_handler = Some 2\<rparr>"

abbreviation demo_world :: "unit pworld" where "demo_world \<equiv> ([0 \<mapsto> demo_target], ())"
abbreviation closed_world :: "unit pworld" where "closed_world \<equiv> ([0 \<mapsto> closed_target], ())"

lemma demo_trap_call:
  "demo_handler (ascii t) = Some (VObj f) \<Longrightarrow> 10 \<le> f \<Longrightarrow> proxyCall demo_penv 2 t xs w = (Inr (Some (demo_answer f)), w)"
  by (simp add: proxyCall_def demo_penv_def toMethod_def bindM_def ret_def)

lemma demo_trap_calls:
  "proxyCall demo_penv 2 ''get'' xs w = (Inr (Some (VInt 5)), w)" "proxyCall demo_penv 2 ''set'' xs w = (Inr (Some (VBool True)), w)"
  "proxyCall demo_penv 2 ''has'' xs w = (Inr (Some (VBool False)), w)" "proxyCall demo_penv 2 ''deleteProperty'' xs w = (Inr (Some (VBool True)), w)"
  "proxyCall demo_penv 2 ''defineProperty'' xs w = (Inr (Some (VBool True)), w)"
  "proxyCall demo_penv 2 ''getOwnPropertyDescriptor'' xs w = (Inr (Some (VObj 3)), w)"
  "proxyCall demo_penv 2 ''getPrototypeOf'' xs w = (Inr (Some VNull), w)" "proxyCall demo_penv 2 ''setPrototypeOf'' xs w = (Inr (Some (VBool True)), w)"
  "proxyCall demo_penv 2 ''isExtensible'' xs w = (Inr (Some (VBool False)), w)"
  "proxyCall demo_penv 2 ''preventExtensions'' xs w = (Inr (Some (VBool True)), w)" "proxyCall demo_penv 2 ''ownKeys'' xs w = (Inr (Some (VObj 4)), w)"
  using demo_trap_call [of "''get''" 10 xs w] demo_trap_call [of "''set''" 11 xs w] demo_trap_call [of "''has''" 12 xs w]
    demo_trap_call [of "''deleteProperty''" 11 xs w] demo_trap_call [of "''defineProperty''" 11 xs w]
    demo_trap_call [of "''getOwnPropertyDescriptor''" 13 xs w] demo_trap_call [of "''getPrototypeOf''" 14 xs w]
    demo_trap_call [of "''setPrototypeOf''" 11 xs w] demo_trap_call [of "''isExtensible''" 12 xs w]
    demo_trap_call [of "''preventExtensions''" 11 xs w] demo_trap_call [of "''ownKeys''" 15 xs w]
  by (simp_all add: demo_answer_def demo_handler_def trap_names_def demo_trap_def ascii_def)

lemma demo_target_props:
  "propValues demo_target (ascii ''a'') = Some (Prop frozen5)" "propValues demo_target (ascii ''b'') = Some (Plain VNull)"
  "extensible demo_target" "prototype demo_target = None" "dom (propValues demo_target) = {ascii ''a'', ascii ''b''}"
  "\<not> extensible closed_target" "prototype closed_target = None" "propValues closed_target = propValues demo_target"
  by (auto simp: demo_target_def closed_target_def bo_put_def plain_object_def ascii_def ensurePropOrder_def fixPropOrder_def split: prod.splits)

lemma demo_stable: "\<exists>f. stable demo_penv x f w"
  by (rule exI [of _ "\<lambda>name. if x = 2 then demo_handler (ascii name) else if x = 6 then None else demo_field (ascii name)"])
    (simp add: stable_def field_def demo_penv_def)

lemmas demo_defs = trapped_def checkHandler_def boolProxyCall_def demo_trap_calls demo_target_props getOwnPropStr_def bindM_def ret_def
  assertM_def t_getOwnPropStr_def t_isExtensible_def t_proto_def demo_proxy_def

lemma demo_property_traps:
  "get_trap demo_penv demo_proxy (ascii ''a'') VNull demo_world = (Inr (Some (Some (VInt 5))), demo_world)"
  "set_trap demo_penv demo_proxy (ascii ''a'') (VInt 5) VNull True demo_world = (Inr (Some True), demo_world)"
  "has_trap demo_penv demo_proxy (ascii ''b'') demo_world = (Inr (Some False), demo_world)"
  "delete_trap demo_penv demo_proxy (ascii ''b'') True demo_world = (Inr (Some True), demo_world)"
  by (simp_all add: trap_defs demo_defs proxyGetChecks_def proxySetPostCheck_def proxyHasChecks_def proxyDeleteCheck_def frozen5_def
    propToValueProp_def sameValue_def same_value_def valueInt_SameAs_def)

definition frozen_desc :: PropertyDescriptor where
  "frozen_desc = \<lparr>pd_value = Some (VInt 5), pd_writable = FLAG_NOT_SET, pd_configurable = FLAG_FALSE, pd_enumerable = FLAG_NOT_SET,
     pd_getter = None, pd_setter = None\<rparr>"

lemma demo_fields:
  "field demo_penv 3 ''value'' w = (Inr (Some (VInt 5)), w)" "field demo_penv 3 ''get'' w = (Inr None, w)"
  "field demo_penv 3 ''set'' w = (Inr None, w)" "field demo_penv 3 ''writable'' w = (Inr None, w)"
  "field demo_penv 3 ''enumerable'' w = (Inr None, w)" "field demo_penv 3 ''configurable'' w = (Inr None, w)"
  by (simp_all add: field_def demo_penv_def demo_field_def ascii_def)

lemma demo_descriptor:
  "toPropertyDescriptor demo_penv 3 w = (Inr \<lparr>pd_value = Some (VInt 5), pd_writable = FLAG_NOT_SET, pd_configurable = FLAG_NOT_SET,
     pd_enumerable = FLAG_NOT_SET, pd_getter = None, pd_setter = None\<rparr>, w)"
  "toValueProp demo_penv 3 w = (Inr frozen5, w)"
  by (simp_all add: toPropertyDescriptor_def toValueProp_def demo_fields bindM_def ret_def assertM_def check_func_def toFunc_def
    flag_of_def is_true_def frozen5_def)

lemma demo_definition_traps:
  "define_trap demo_penv demo_proxy (ascii ''a'') frozen_desc True demo_world = (Inr (Some True), demo_world)"
  "getOwn_trap demo_penv demo_proxy (ascii ''a'') demo_world = (Inr (Some (Some (Prop frozen5))), demo_world)"
  by (simp_all add: define_trap_def getOwn_trap_def demo_defs proxyDefineOwnPropertyPostCheck_def Let_def frozen_desc_def frozen5_def
    propToValueProp_def isCompatiblePropertyDescriptor_def rejects_def same_value_def valueInt_SameAs_def Flag_Bool_def IsGeneric_def IsAccessor_def IsData_def
    proxyGetOwnPropertyDescriptor_def demo_descriptor pd_complete_def orFalse_def orUndef_def demo_penv_def [THEN arg_cong, of x_descToValue])

lemma closed_target_ok: "bo_ok closed_target" "stringKeys True closed_target = ([ascii ''a'', ascii ''b''], closed_target)"
proof -
  have ok: "bo_ok (demo_target\<lparr>extensible := False\<rparr>)"
    unfolding demo_target_def by (intro obj_inv) (simp add: plain_object_def bo_ok_def ordered_prefix_def)
  note F = fixPropOrder_ok [OF ok]
  show "bo_ok closed_target" using F(1) by (simp add: closed_target_def)
  have n: "propNames closed_target = [ascii ''a'', ascii ''b'']" by code_simp
  have "lastSortedPropLen closed_target = length (propNames closed_target)"
    using F(3,4) by (metis closed_target_def size_mset)
  then show "stringKeys True closed_target = ([ascii ''a'', ascii ''b''], closed_target)"
    by (simp add: stringKeys_def ensurePropOrder_def n)
qed

text \<open>A handler whose \<^verbatim>\<open>getOwnPropertyDescriptor\<close> trap denies everything, on the target with an ordinary property \<^verbatim>\<open>b\<close>.\<close>

definition denying_penv :: "unit pworld penv" where
  "denying_penv = demo_penv\<lparr>x_env := (x_env demo_penv)\<lparr>e_call := \<lambda>f _ _ w. (Inr VUndef, w)\<rparr>\<rparr>"

lemma denying_trap: "getOwn_trap denying_penv demo_proxy (ascii ''b'') demo_world = (Inr (Some None), demo_world)"
proof -
  have "demo_handler (ascii ''getOwnPropertyDescriptor'') = Some (VObj 13)"
    by (simp add: demo_handler_def trap_names_def demo_trap_def ascii_def)
  then have "proxyCall denying_penv 2 ''getOwnPropertyDescriptor'' xs w = (Inr (Some VUndef), w)" for xs w
    by (simp add: proxyCall_def denying_penv_def demo_penv_def toMethod_def bindM_def ret_def)
  then show ?thesis
    by (simp add: getOwn_trap_def demo_defs proxyGetOwnPropertyDescriptor_def propToValueProp_def)
qed

theorem proxy_property_invariants_witness:
  "get_trap demo_penv demo_proxy (ascii ''a'') VNull demo_world = (Inr (Some (Some (VInt 5))), demo_world) \<and>
   set_trap demo_penv demo_proxy (ascii ''a'') (VInt 5) VNull True demo_world = (Inr (Some True), demo_world) \<and>
   has_trap demo_penv demo_proxy (ascii ''b'') demo_world = (Inr (Some False), demo_world) \<and>
   delete_trap demo_penv demo_proxy (ascii ''b'') True demo_world = (Inr (Some True), demo_world) \<and>
   define_trap demo_penv demo_proxy (ascii ''a'') frozen_desc True demo_world = (Inr (Some True), demo_world) \<and>
   getOwn_trap demo_penv demo_proxy (ascii ''a'') demo_world = (Inr (Some (Some (Prop frozen5))), demo_world) \<and>
   getOwn_trap denying_penv demo_proxy (ascii ''b'') demo_world = (Inr (Some None), demo_world) \<and>
   tprop demo_proxy demo_world (ascii ''a'') = Some frozen5 \<and> \<not> vp_configurable frozen5 \<and>
   same_value (VInt 5) (vp_value frozen5) \<and> sameValue (vp_value frozen5) (VInt 5) \<and> \<not> rejects frozen_desc frozen5 \<and>
   extensible (target demo_proxy demo_world)"
proof -
  note I = proxy_property_invariants [where p = demo_proxy and w = demo_world and a = "ascii ''a''" and b = "ascii ''b''"
      and receiver = VNull and v = "VInt 5" and throw = True and d = frozen_desc and td = frozen5 and te = "propToValueProp (Plain VNull)"
      and s = "Prop frozen5" and ?w1.0 = demo_world and ?w2.0 = demo_world and ?w3.0 = demo_world and ?w4.0 = demo_world
      and ?w5.0 = demo_world and ?w6.0 = demo_world and ?w7.0 = demo_world]
  have t: "tprop demo_proxy demo_world (ascii ''a'') = Some frozen5" "tprop demo_proxy demo_world (ascii ''b'') = Some (propToValueProp (Plain VNull))"
    by (simp_all add: tprop_def demo_proxy_def demo_target_props propToValueProp_def)
  have f: "\<not> vp_configurable frozen5" "\<not> vp_accessor frozen5" "\<not> vp_writable frozen5" "vp_value frozen5 \<noteq> None" "propToValueProp (Prop frozen5) = frozen5"
    "pd_configurable frozen_desc = FLAG_FALSE"
    by (simp_all add: frozen5_def frozen_desc_def propToValueProp_def)
  have pl: "plain_answer demo_penv demo_proxy (ascii ''a'') demo_world" using demo_stable by (simp add: plain_answer_def)
  have "extensible (target demo_proxy demo_world)" using I [of denying_penv] denying_trap t by simp
  then show ?thesis
    using I [of demo_penv] t f pl demo_property_traps demo_definition_traps denying_trap by simp
qed

lemma demo_object_traps:
  "proto_trap demo_penv demo_proxy closed_world = (Inr (Some None), closed_world)"
  "setProto_trap demo_penv demo_proxy None True closed_world = (Inr (Some True), closed_world)"
  "isExtensible_trap demo_penv demo_proxy closed_world = (Inr (Some False), closed_world)"
  by (simp_all add: trap_defs demo_defs)

lemma demo_preventExtensions:
  "proxy_preventExtensions demo_penv demo_proxy True closed_world = Some (Done True, closed_world)"
proof -
  have "preventExtensions_trap demo_penv demo_proxy True closed_world = (Inr None, closed_world)"
    by (simp add: preventExtensions_trap_def demo_defs)
  moreover have "closed_target\<lparr>extensible := False\<rparr> = closed_target"
    using demo_target_props(6) by (metis (full_types) baseObject.surjective baseObject.update_convs(2))
  ultimately show ?thesis
    by (simp add: proxy_preventExtensions_def or_target_def on_heap_def preventExtensions_def upd_obj_def demo_proxy_def)
qed

lemma demo_ownKeys: "proxyOwnKeys demo_penv demo_proxy closed_world = (Inr (Some [VStr (ascii ''a''), VStr (ascii ''b'')]), closed_world)"
proof -
  have "(field demo_penv 4 ''length'' w = (Inr (Some (VInt 2)), w))" "x_toLength demo_penv v w = (Inr 2, w)"
      "x_getIdx demo_penv 4 0 w = (Inr (Some (VStr (ascii ''a''))), w)" "x_getIdx demo_penv 4 1 w = (Inr (Some (VStr (ascii ''b''))), w)" for v w
    by (simp_all add: field_def demo_penv_def demo_field_def ascii_def)
  note e = this
  have k: "key_list demo_penv 4 0 2 [] w = (Inr [VStr (ascii ''a''), VStr (ascii ''b'')], w)" for w
    by (simp add: numeral_2_eq_2 e bindM_def assertM_def ret_def ascii_def Let_def)
  show ?thesis
    by (simp add: proxyOwnKeys_def demo_defs e k toObject_def t_iterateKeys_def closed_target_ok(2))
qed

theorem proxy_object_invariants_witness:
  "\<not> extensible (target demo_proxy closed_world) \<and> None = prototype (target demo_proxy closed_world) \<and>
   {VStr (ascii ''a''), VStr (ascii ''b'')} = VStr ` dom (propValues (target demo_proxy closed_world))"
  using proxy_object_invariants [where E = demo_penv and p = demo_proxy and w = closed_world and x = None and q = None and throw = True
      and e = False and ks = "[VStr (ascii ''a''), VStr (ascii ''b'')]" and ?w1.0 = closed_world and ?w2.0 = closed_world
      and ?w3.0 = closed_world and ?w4.0 = closed_world and ?w5.0 = closed_world]
    demo_object_traps demo_preventExtensions demo_ownKeys closed_target_ok(1) by (simp add: demo_proxy_def)

theorem proxy_transparent_witness:
  "proxy_getStr demo_penv (demo_proxy\<lparr>p_handler := Some 6\<rparr>) (ascii ''a'') (Some VNull) demo_world = Some (Done (Some (VInt 5)), demo_world)"
proof -
  have n: "no_traps demo_penv 6" by (simp add: no_traps_def demo_penv_def)
  have "getStr [0 \<mapsto> demo_target] 0 (ascii ''a'') (Some VNull) = Some (Done (Some (VInt 5)))"
    by (subst getStr.simps) (simp add: demo_target_props get_prop_def frozen5_def vp_get_def demo_target_def bo_put_def plain_object_def ascii_def)
  moreover have "ascii ''b'' \<noteq> ascii ''a''" by (simp add: ascii_def)
  ultimately show ?thesis
    using proxy_transparent [of "demo_proxy\<lparr>p_handler := Some 6\<rparr>" 6 demo_penv demo_world 0 None True "ascii ''a''" VNull VNull] n
    by (simp add: demo_proxy_def reading_def)
qed

section \<open>A descriptor that changes while it is read\<close>

text \<open>
  \<^verbatim>\<open>proxyGetOwnPropertyDescriptor\<close> checks the descriptor that it read from the trap's object and then reads the object again to
  make the property that it returns. A getter that answers differently the second time makes the proxy report a non-configurable
  property that its target does not have. The world counts the reads of \<^verbatim>\<open>configurable\<close>.
\<close>

definition fickle_field :: "ustr \<Rightarrow> (nat pworld, val option) jsm" where
  "fickle_field name w =
     (if name = ascii ''configurable'' then (Inr (Some (VBool (snd w = 0))), (fst w, Suc (snd w)))
      else (Inr (if name = ascii ''getOwnPropertyDescriptor'' then Some (VObj 10) else if name = ascii ''value'' then Some VNull else None), w))"

definition fickle_penv :: "nat pworld penv" where
  "fickle_penv = \<lparr>
     x_env = \<lparr>e_getStr = \<lambda>x name. fickle_field name, e_getSym = \<lambda>_ _ w. (Inr None, w), e_callable = \<lambda>f. 10 \<le> f,
       e_call = \<lambda>f _ _ w. (Inr (VObj 3), w), e_strToNumber = \<lambda>_. VUndef, e_strToBigInt = \<lambda>_. None, e_floatToStr = \<lambda>_. [],
       e_pow = \<lambda>x _. x\<rparr>,
     x_getIdx = \<lambda>_ _ w. (Inr None, w), x_toLength = \<lambda>_ w. (Inr 0, w), x_descToValue = \<lambda>_ w. (Inr VNull, w)\<rparr>"

theorem getOwnProp_reports_what_was_not_checked:
  "\<exists>vp w'. getOwn_trap fickle_penv demo_proxy (ascii ''a'') ([0 \<mapsto> plain_object], 0) = (Inr (Some (Some (Prop vp))), w') \<and>
     \<not> vp_configurable vp \<and> tprop demo_proxy w' (ascii ''a'') = None"
proof -
  have c: "proxyCall fickle_penv 2 ''getOwnPropertyDescriptor'' xs (h, n) = (Inr (Some (VObj 3)), (h, n))" for xs h n
    by (simp add: proxyCall_def fickle_penv_def fickle_field_def toMethod_def bindM_def ret_def ascii_def)
  have f: "field fickle_penv 3 name (h, n) = fickle_field (ascii name) (h, n)" for name h n
    by (simp add: field_def fickle_penv_def)
  have r: "fickle_field (ascii ''configurable'') (h, n) = (Inr (Some (VBool (n = 0))), (h, Suc n))"
    "fickle_field (ascii ''value'') (h, n) = (Inr (Some VNull), (h, n))" "fickle_field (ascii ''get'') (h, n) = (Inr None, (h, n))"
    "fickle_field (ascii ''set'') (h, n) = (Inr None, (h, n))" "fickle_field (ascii ''writable'') (h, n) = (Inr None, (h, n))"
    "fickle_field (ascii ''enumerable'') (h, n) = (Inr None, (h, n))" for h n
    by (simp_all add: fickle_field_def ascii_def)
  show ?thesis
    by (simp add: getOwn_trap_def demo_defs c f r proxyGetOwnPropertyDescriptor_def Let_def plain_object_def toPropertyDescriptor_def
      check_func_def isCompatiblePropertyDescriptor_def pd_complete_def flag_of_def is_true_def ToFlag_def orFalse_def toValueProp_def
      toFunc_def tprop_def)
qed

end
