(* ===== verification/Module_Exports.thy ===== *)
theory Module_Exports
  imports Property "HOL-Library.List_Lexorder" "HOL-Library.Char_ord" "HOL-Library.Transitive_Closure_Table" "HOL-Library.Multiset"
begin

text \<open>
  Modules, the static part (modules_sourcetext.go, modules_namespace.go): the entries of a source text module from its import and
  export declarations, the names it exports, and the resolution of an export through indirect and star exports of other modules.
  Module records are compared by identity, so they are numbers here; the host's function that finds the module for a specifier
  is an argument. Positions of declarations, which only appear in messages, are left out. All modules are source text modules.
\<close>

section \<open>Module records\<close>

type_synonym mid = nat

record importEntry =
  ie_moduleRequest :: string
  ie_importName :: string
  ie_localName :: string

record exportEntry =
  ee_exportName :: string
  ee_moduleRequest :: string
  ee_importName :: string
  ee_localName :: string
  ee_lex :: bool

record SourceTextModuleRecord =
  hasTLA :: bool
  requestedModules :: "string list"
  importEntries :: "importEntry list"
  localExportEntries :: "exportEntry list"
  indirectExportEntries :: "exportEntry list"
  starExportEntries :: "exportEntry list"

section \<open>Import and export declarations\<close>

text \<open>
  The parts of the syntax tree that the entries are made from. A specifier has a name and an alias, which is the empty string
  when there is none.
\<close>

record ImportDeclaration =
  id_from :: "string option"
  id_bare :: string
  id_named :: "(string \<times> string) list option"
  id_default :: "string option"
  id_namespace :: "string option"

definition add_import :: "string \<Rightarrow> string \<Rightarrow> string \<Rightarrow> importEntry list \<Rightarrow> string + importEntry list" where
  "add_import moduleRequest importName localName result =
     (if localName \<in> set (map ie_localName result) then Inl localName
      else Inr (result @ [\<lparr>ie_moduleRequest = moduleRequest, ie_importName = importName, ie_localName = localName\<rparr>]))"

definition then_do :: "'e + 'a \<Rightarrow> ('a \<Rightarrow> 'e + 'b) \<Rightarrow> 'e + 'b" where
  "then_do m k = (case m of Inl e \<Rightarrow> Inl e | Inr a \<Rightarrow> k a)"

fun add_named_imports :: "string \<Rightarrow> (string \<times> string) list \<Rightarrow> importEntry list \<Rightarrow> string + importEntry list" where
  "add_named_imports moduleRequest [] result = Inr result"
| "add_named_imports moduleRequest ((name, alias) # els) result =
     then_do (add_import moduleRequest name (if alias = '''' then name else alias) result)
       (add_named_imports moduleRequest els)"

text \<open>The set of names bound so far is the set of local names of the entries so far. The error carries the name that is bound twice.\<close>

fun importEntriesFromAst :: "ImportDeclaration list \<Rightarrow> importEntry list \<Rightarrow> string + importEntry list" where
  "importEntriesFromAst [] result = Inr result"
| "importEntriesFromAst (d # ds) result =
     (case id_from d of
        None \<Rightarrow> importEntriesFromAst ds result
      | Some moduleRequest \<Rightarrow>
          then_do (case id_named d of Some els \<Rightarrow> add_named_imports moduleRequest els result | None \<Rightarrow> Inr result) (\<lambda>result.
          then_do (case id_default d of Some name \<Rightarrow> add_import moduleRequest ''default'' name result | None \<Rightarrow> Inr result) (\<lambda>result.
          then_do (case id_namespace d of Some name \<Rightarrow> add_import moduleRequest ''*'' name result | None \<Rightarrow> Inr result)
            (importEntriesFromAst ds))))"

text \<open>
  An export declaration by the branch of \<^verbatim>\<open>exportEntriesFromAst\<close> that handles it: a star (with the alias, empty if none, and the
  module, if the source names one), a list of names with or without a module, variables with \<^verbatim>\<open>lex\<close> set for let and const, a function or class with its
  name, which only a default export may lack, and an expression. Patterns other than lists of identifiers, which make the code
  panic, are left out, and so is a clause in braces without names of its own, which the parser never builds.
\<close>

datatype ExportDeclaration =
    ExportStar string "string option"
  | ExportFrom "(string \<times> string) list" string
  | ExportNamed "(string \<times> string) list"
  | ExportVariables bool "string list"
  | ExportHoistable bool "string option"
  | ExportClass bool "string option"
  | ExportExpression

definition entry :: "string \<Rightarrow> string \<Rightarrow> string \<Rightarrow> string \<Rightarrow> bool \<Rightarrow> exportEntry" where
  "entry exportName moduleRequest importName localName lx =
     \<lparr>ee_exportName = exportName, ee_moduleRequest = moduleRequest, ee_importName = importName, ee_localName = localName, ee_lex = lx\<rparr>"

definition alias_of :: "string \<times> string \<Rightarrow> string" where
  "alias_of spec = (if snd spec \<noteq> '''' then snd spec else fst spec)"

fun entriesOfDeclaration :: "ExportDeclaration \<Rightarrow> exportEntry list" where
  "entriesOfDeclaration (ExportStar alias from) = [entry alias (case from of Some f \<Rightarrow> f | None \<Rightarrow> '''') ''*'' '''' False]"
| "entriesOfDeclaration (ExportFrom specs from) = map (\<lambda>s. entry (alias_of s) from (fst s) '''' False) specs"
| "entriesOfDeclaration (ExportNamed specs) = map (\<lambda>s. entry (alias_of s) '''' '''' (fst s) False) specs"
| "entriesOfDeclaration (ExportVariables lx names) = map (\<lambda>n. entry n '''' '''' n lx) names"
| "entriesOfDeclaration (ExportHoistable isDefault name) =
     (let localName = (case name of Some n \<Rightarrow> n | None \<Rightarrow> ''default'') in
      [entry (if isDefault then ''default'' else localName) '''' '''' localName True])"
| "entriesOfDeclaration (ExportClass isDefault name) =
     (let localName = (case name of Some n \<Rightarrow> n | None \<Rightarrow> ''default'') in
      [entry (if isDefault then ''default'' else localName) '''' '''' localName True])"
| "entriesOfDeclaration ExportExpression = [entry ''default'' '''' '''' ''default'' True]"

definition exportEntriesFromAst :: "ExportDeclaration list \<Rightarrow> exportEntry list" where
  "exportEntriesFromAst ds = concat (map entriesOfDeclaration ds)"

datatype moduleStatement = StmtImport ImportDeclaration | StmtExport ExportDeclaration | StmtOther

fun requestOf :: "moduleStatement \<Rightarrow> string list" where
  "requestOf (StmtImport d) = [case id_from d of Some from \<Rightarrow> from | None \<Rightarrow> id_bare d]"
| "requestOf (StmtExport (ExportStar _ from)) = (case from of Some f \<Rightarrow> [f] | None \<Rightarrow> [])"
| "requestOf (StmtExport (ExportFrom _ from)) = [from]"
| "requestOf _ = []"

definition requestedModulesFromAst :: "moduleStatement list \<Rightarrow> string list" where
  "requestedModulesFromAst sts = concat (map requestOf sts)"

definition findImportByLocalName :: "importEntry list \<Rightarrow> string \<Rightarrow> importEntry option" where
  "findImportByLocalName ies name = find (\<lambda>i. ie_localName i = name) ies"

text \<open>The three lists of export entries; the loop of \<^verbatim>\<open>ModuleFromAST\<close>.\<close>

definition classify ::
    "importEntry list \<Rightarrow> exportEntry \<Rightarrow> exportEntry list \<times> exportEntry list \<times> exportEntry list
     \<Rightarrow> exportEntry list \<times> exportEntry list \<times> exportEntry list" where
  "classify ies ee acc =
     (case acc of (local, indirect, star) \<Rightarrow>
        if ee_moduleRequest ee = '''' then
          (case findImportByLocalName ies (ee_localName ee) of
             None \<Rightarrow> (local @ [ee], indirect, star)
           | Some ie \<Rightarrow>
               if ie_importName ie = ''*'' then (local @ [ee], indirect, star)
               else (local, indirect @ [entry (ee_exportName ee) (ie_moduleRequest ie) (ie_importName ie) '''' False], star))
        else if ee_importName ee = ''*'' \<and> ee_exportName ee = '''' then (local, indirect, star @ [ee])
        else (local, indirect @ [ee], star))"

definition getExportedNamesWithotStars :: "SourceTextModuleRecord \<Rightarrow> string list" where
  "getExportedNamesWithotStars m = map ee_exportName (localExportEntries m) @ map ee_exportName (indirectExportEntries m)"

text \<open>The loop over the sorted names: two neighbours that are equal.\<close>

fun adjacent :: "'a list \<Rightarrow> 'a option" where
  "adjacent (x # y # xs) = (if x = y then Some y else adjacent (y # xs))"
| "adjacent _ = None"

datatype moduleError = DuplicateBinding string | DuplicateExport string

definition ModuleFromAST ::
    "bool \<Rightarrow> moduleStatement list \<Rightarrow> ImportDeclaration list \<Rightarrow> ExportDeclaration list
     \<Rightarrow> moduleError + SourceTextModuleRecord" where
  "ModuleFromAST tla body imports exports =
     (case importEntriesFromAst imports [] of
        Inl name \<Rightarrow> Inl (DuplicateBinding name)
      | Inr ies \<Rightarrow>
          (case fold (classify ies) (exportEntriesFromAst exports) ([], [], []) of
             (local, indirect, star) \<Rightarrow>
               let s = \<lparr>hasTLA = tla, requestedModules = requestedModulesFromAst body, importEntries = ies,
                  localExportEntries = local, indirectExportEntries = indirect, starExportEntries = star\<rparr> in
               (case adjacent (sort (getExportedNamesWithotStars s)) of
                  Some name \<Rightarrow> Inl (DuplicateExport name)
                | None \<Rightarrow> Inr s)))"

section \<open>Exported names and the resolution of exports\<close>

text \<open>The module records and the host's resolution of specifiers, which may fail; a failure after linking makes the code panic.\<close>

record host =
  h_rec :: "mid \<Rightarrow> SourceTextModuleRecord"
  h_resolve :: "mid \<Rightarrow> string \<Rightarrow> mid option"

datatype 'a answer = Answer 'a | Panic

text \<open>
  Both functions recurse through other modules and stop at what they have seen on the way; the first argument bounds the depth
  of the recursion.
\<close>

fun GetExportedNames :: "nat \<Rightarrow> host \<Rightarrow> mid \<Rightarrow> mid list \<Rightarrow> string list answer option"
  and exported_loop :: "nat \<Rightarrow> host \<Rightarrow> mid \<Rightarrow> exportEntry list \<Rightarrow> string list \<Rightarrow> mid list \<Rightarrow> string list answer option" where
  "GetExportedNames 0 H m exportStarSet = None"
| "GetExportedNames (Suc n) H m exportStarSet =
     (if m \<in> set exportStarSet then Some (Answer [])
      else exported_loop n H m (starExportEntries (h_rec H m)) (getExportedNamesWithotStars (h_rec H m)) (exportStarSet @ [m]))"
| "exported_loop n H m [] exportedNames exportStarSet = Some (Answer exportedNames)"
| "exported_loop n H m (e # es) exportedNames exportStarSet =
     (case h_resolve H m (ee_moduleRequest e) of
        None \<Rightarrow> Some Panic
      | Some requested \<Rightarrow>
          (case GetExportedNames n H requested exportStarSet of
             None \<Rightarrow> None
           | Some Panic \<Rightarrow> Some Panic
           | Some (Answer names) \<Rightarrow>
               exported_loop n H m es (exportedNames @ filter (\<lambda>k. k \<noteq> ''default'') names) exportStarSet))"

type_synonym ResolvedBinding = "mid \<times> string"
type_synonym resolution = "ResolvedBinding option \<times> bool"

definition find_export :: "exportEntry list \<Rightarrow> string \<Rightarrow> exportEntry option" where
  "find_export es name = find (\<lambda>e. ee_exportName e = name) es"

fun ResolveExport :: "nat \<Rightarrow> host \<Rightarrow> mid \<Rightarrow> string \<Rightarrow> (mid \<times> string) list \<Rightarrow> resolution answer option"
  and resolve_loop ::
    "nat \<Rightarrow> host \<Rightarrow> mid \<Rightarrow> exportEntry list \<Rightarrow> string \<Rightarrow> ResolvedBinding option \<Rightarrow> (mid \<times> string) list \<Rightarrow> resolution answer option" where
  "ResolveExport 0 H m exportName resolveset = None"
| "ResolveExport (Suc n) H m exportName resolveset =
     (if exportName = '''' then Some Panic
      else if (m, exportName) \<in> set resolveset then Some (Answer (None, False))
      else
        (case find_export (localExportEntries (h_rec H m)) exportName of
           Some e \<Rightarrow> Some (Answer (Some (m, ee_localName e), False))
         | None \<Rightarrow>
             (case find_export (indirectExportEntries (h_rec H m)) exportName of
                Some e \<Rightarrow>
                  (case h_resolve H m (ee_moduleRequest e) of
                     None \<Rightarrow> Some Panic
                   | Some importedModule \<Rightarrow>
                       if ee_importName e = ''*'' then Some (Answer (Some (importedModule, ''*namespace*''), False))
                       else ResolveExport n H importedModule (ee_importName e) (resolveset @ [(m, exportName)]))
              | None \<Rightarrow>
                  if exportName = ''default'' then Some (Answer (None, False))
                  else resolve_loop n H m (starExportEntries (h_rec H m)) exportName None (resolveset @ [(m, exportName)]))))"
| "resolve_loop n H m [] exportName starResolution resolveset = Some (Answer (starResolution, False))"
| "resolve_loop n H m (e # es) exportName starResolution resolveset =
     (case h_resolve H m (ee_moduleRequest e) of
        None \<Rightarrow> Some Panic
      | Some importedModule \<Rightarrow>
          (case ResolveExport n H importedModule exportName resolveset of
             None \<Rightarrow> None
           | Some Panic \<Rightarrow> Some Panic
           | Some (Answer (resolution, ambiguous)) \<Rightarrow>
               if ambiguous then Some (Answer (None, True))
               else
                 (case resolution of
                    None \<Rightarrow> resolve_loop n H m es exportName starResolution resolveset
                  | Some r \<Rightarrow>
                      (case starResolution of
                         None \<Rightarrow> resolve_loop n H m es exportName (Some r) resolveset
                       | Some r' \<Rightarrow>
                           if r \<noteq> r' then Some (Answer (None, True))
                           else resolve_loop n H m es exportName starResolution resolveset))))"

section \<open>Paths that avoid what has been seen\<close>

definition avoiding :: "('a \<Rightarrow> 'a \<Rightarrow> bool) \<Rightarrow> 'a set \<Rightarrow> 'a \<Rightarrow> 'a \<Rightarrow> bool" where
  "avoiding r S x z \<longleftrightarrow> (\<exists>xs. rtrancl_path r x xs z \<and> distinct (x # xs) \<and> set (x # xs) \<inter> S = {})"

lemma avoiding_unfold: "avoiding r S x z \<longleftrightarrow> x \<notin> S \<and> (x = z \<or> (\<exists>y. r x y \<and> avoiding r (insert x S) y z))"
proof
  assume "avoiding r S x z"
  then obtain xs where xs: "rtrancl_path r x xs z" "distinct (x # xs)" "set (x # xs) \<inter> S = {}"
    unfolding avoiding_def by blast
  from xs(1) show "x \<notin> S \<and> (x = z \<or> (\<exists>y. r x y \<and> avoiding r (insert x S) y z))"
  proof cases
    case base
    then show ?thesis using xs(3) by simp
  next
    case (step y ys)
    then have "avoiding r (insert x S) y z"
      using xs unfolding avoiding_def by (intro exI [of _ ys]) auto
    then show ?thesis using step xs(3) by auto
  qed
next
  assume *: "x \<notin> S \<and> (x = z \<or> (\<exists>y. r x y \<and> avoiding r (insert x S) y z))"
  show "avoiding r S x z"
  proof (cases "x = z")
    case True
    then show ?thesis using * unfolding avoiding_def by (intro exI [of _ "[]"]) (auto intro: rtrancl_path.base)
  next
    case False
    then obtain y ys where "r x y" "rtrancl_path r y ys z" "distinct (y # ys)" "set (y # ys) \<inter> insert x S = {}"
      using * unfolding avoiding_def by blast
    then show ?thesis using * unfolding avoiding_def by (intro exI [of _ "y # ys"]) (auto intro: rtrancl_path.step)
  qed
qed

lemma avoiding_nothing: "avoiding r {} x z \<longleftrightarrow> r\<^sup>*\<^sup>* x z"
  unfolding avoiding_def rtranclp_eq_rtrancl_path by (auto, metis distinct.simps(2) rtrancl_path_distinct)

lemma avoiding_seen [simp]: "x \<in> S \<Longrightarrow> \<not> avoiding r S x z"
  by (subst avoiding_unfold) simp

section \<open>What an export resolves to\<close>

text \<open>
  One step from an export to the exports it stands for: none if the module binds the name itself, the imported one for an
  indirect export, the same name of every module that is exported with a star otherwise. The meaning of an export is the set of
  bindings at the ends of all paths.
\<close>

definition own_export :: "host \<Rightarrow> mid \<times> string \<Rightarrow> ResolvedBinding option" where
  "own_export H p =
     (case find_export (localExportEntries (h_rec H (fst p))) (snd p) of
        Some e \<Rightarrow> Some (fst p, ee_localName e)
      | None \<Rightarrow>
          (case find_export (indirectExportEntries (h_rec H (fst p))) (snd p) of
             Some e \<Rightarrow>
               if ee_importName e = ''*'' then map_option (\<lambda>m. (m, ''*namespace*'')) (h_resolve H (fst p) (ee_moduleRequest e))
               else None
           | None \<Rightarrow> None))"

definition star_targets :: "host \<Rightarrow> mid \<Rightarrow> mid list" where
  "star_targets H m = List.map_filter (\<lambda>e. h_resolve H m (ee_moduleRequest e)) (starExportEntries (h_rec H m))"

definition next_exports :: "host \<Rightarrow> mid \<times> string \<Rightarrow> (mid \<times> string) list" where
  "next_exports H p =
     (case find_export (localExportEntries (h_rec H (fst p))) (snd p) of
        Some e \<Rightarrow> []
      | None \<Rightarrow>
          (case find_export (indirectExportEntries (h_rec H (fst p))) (snd p) of
             Some e \<Rightarrow>
               if ee_importName e = ''*'' then []
               else (case h_resolve H (fst p) (ee_moduleRequest e) of None \<Rightarrow> [] | Some m \<Rightarrow> [(m, ee_importName e)])
           | None \<Rightarrow> if snd p = ''default'' then [] else map (\<lambda>m. (m, snd p)) (star_targets H (fst p))))"

abbreviation leads_to :: "host \<Rightarrow> mid \<times> string \<Rightarrow> mid \<times> string \<Rightarrow> bool" where
  "leads_to H \<equiv> \<lambda>p q. q \<in> set (next_exports H p)"

definition meaning :: "host \<Rightarrow> mid \<times> string \<Rightarrow> ResolvedBinding set" where
  "meaning H p = {b. \<exists>q. (leads_to H)\<^sup>*\<^sup>* p q \<and> own_export H q = Some b}"

definition decides :: "resolution \<Rightarrow> ResolvedBinding set \<Rightarrow> bool" where
  "decides r B \<longleftrightarrow>
     r = (None, False) \<and> B = {} \<or> (\<exists>b. r = (Some b, False) \<and> B = {b}) \<or> r = (None, True) \<and> (\<exists>b c. b \<in> B \<and> c \<in> B \<and> b \<noteq> c)"

lemma decides_two: "b \<in> B \<Longrightarrow> c \<in> B \<Longrightarrow> b \<noteq> c \<Longrightarrow> decides (None, True) B"
  unfolding decides_def by blast

text \<open>Every specifier of the modules is resolved, no name is empty and the exports of \<open>P\<close> lead only to each other.\<close>

definition linked_exports :: "host \<Rightarrow> (mid \<times> string) set \<Rightarrow> bool" where
  "linked_exports H P \<longleftrightarrow>
     (\<forall>p \<in> P. snd p \<noteq> '''' \<and> set (next_exports H p) \<subseteq> P \<and>
        (\<forall>e \<in> set (indirectExportEntries (h_rec H (fst p)) @ starExportEntries (h_rec H (fst p))).
           h_resolve H (fst p) (ee_moduleRequest e) \<noteq> None))"

definition unseen :: "host \<Rightarrow> (mid \<times> string) set \<Rightarrow> mid \<times> string \<Rightarrow> ResolvedBinding set" where
  "unseen H S p = {b. \<exists>q. avoiding (leads_to H) S p q \<and> own_export H q = Some b}"

lemma unseen_unfold:
  "unseen H S p = (if p \<in> S then {} else set_option (own_export H p) \<union> (\<Union>q \<in> set (next_exports H p). unseen H (insert p S) q))"
proof -
  have "b \<in> unseen H S p \<longleftrightarrow> p \<notin> S \<and> (own_export H p = Some b \<or> (\<exists>q \<in> set (next_exports H p). b \<in> unseen H (insert p S) q))" for b
    unfolding unseen_def mem_Collect_eq by (subst avoiding_unfold) blast
  then show ?thesis by (auto simp: set_eq_iff elim: option.set_cases)
qed

lemma unseen_nothing: "unseen H {} p = meaning H p"
  unfolding unseen_def meaning_def avoiding_nothing ..

lemma star_targets_Cons:
  "h_resolve H m (ee_moduleRequest e) = Some m' \<Longrightarrow>
   List.map_filter (\<lambda>e. h_resolve H m (ee_moduleRequest e)) (e # es) = m' # List.map_filter (\<lambda>e. h_resolve H m (ee_moduleRequest e)) es"
  by (simp add: List.map_filter_def)

lemma resolve_loop_correct:
  assumes IH: "\<And>m'. (m', name) \<in> P \<Longrightarrow> \<exists>r. ResolveExport n H m' name S = Some (Answer r) \<and> decides r (unseen H (set S) (m', name))"
  shows "\<forall>e \<in> set es. \<exists>m'. h_resolve H m (ee_moduleRequest e) = Some m' \<and> (m', name) \<in> P \<Longrightarrow> decides (R, False) B \<Longrightarrow>
    \<exists>r. resolve_loop n H m es name R S = Some (Answer r) \<and>
      decides r (B \<union> (\<Union>m' \<in> set (List.map_filter (\<lambda>e. h_resolve H m (ee_moduleRequest e)) es). unseen H (set S) (m', name)))"
proof (induction es arbitrary: R B)
  case Nil
  then show ?case by (simp add: List.map_filter_def)
next
  case (Cons e es)
  obtain m' where m': "h_resolve H m (ee_moduleRequest e) = Some m'" "(m', name) \<in> P"
    using Cons.prems(1) by auto
  obtain res amb where r: "ResolveExport n H m' name S = Some (Answer (res, amb))" "decides (res, amb) (unseen H (set S) (m', name))"
    using IH [OF m'(2)] by auto
  have step: "\<exists>r. resolve_loop n H m es name R' S = Some (Answer r) \<and>
      decides r (B \<union> (\<Union>m' \<in> set (List.map_filter (\<lambda>e. h_resolve H m (ee_moduleRequest e)) (e # es)). unseen H (set S) (m', name)))"
    if "decides (R', False) (B \<union> unseen H (set S) (m', name))" for R'
    using Cons.IH [OF _ that] Cons.prems(1) unfolding star_targets_Cons [of H m e m' es, OF m'(1)] by (simp add: Un_assoc)
  show ?case
  proof (cases amb)
    case True
    then show ?thesis using r m'(1) unfolding star_targets_Cons [of H m e m' es, OF m'(1)] by (auto simp: decides_def)
  next
    case False
    show ?thesis
    proof (cases res)
      case None
      then show ?thesis using step [of R] r False m'(1) Cons.prems(2) by (auto simp: decides_def)
    next
      case (Some b)
      then have b: "unseen H (set S) (m', name) = {b}" using r(2) False by (auto simp: decides_def)
      show ?thesis
      proof (cases "R = None \<or> R = Some b")
        case True
        then have "decides (Some b, False) (B \<union> unseen H (set S) (m', name))"
          using Cons.prems(2) b by (auto simp: decides_def)
        then show ?thesis using step [of "Some b"] True r(1) False Some m'(1) by auto
      next
        case neq: False
        then obtain r' where r': "R = Some r'" "r' \<noteq> b" by auto
        then have "r' \<in> B" using Cons.prems(2) by (auto simp: decides_def)
        then have "decides (None, True) (B \<union> (\<Union>m' \<in> set (List.map_filter (\<lambda>e. h_resolve H m (ee_moduleRequest e)) (e # es)).
            unseen H (set S) (m', name)))"
          using r'(2) b unfolding star_targets_Cons [of H m e m' es, OF m'(1)] by (intro decides_two [of r' _ b]) auto
        moreover have "resolve_loop n H m (e # es) name R S = Some (Answer (None, True))"
          using r(1) False Some m'(1) r' by simp
        ultimately show ?thesis by blast
      qed
    qed
  qed
qed

lemma find_export_mem: "find_export es name = Some e \<Longrightarrow> e \<in> set es"
  unfolding find_export_def by (auto simp: find_Some_iff)

lemma card_seen: "finite P \<Longrightarrow> p \<in> P \<Longrightarrow> p \<notin> S \<Longrightarrow> card (P - S) < Suc n \<Longrightarrow> card (P - insert p S) < n"
proof -
  assume *: "finite P" "p \<in> P" "p \<notin> S" "card (P - S) < Suc n"
  have "P - insert p S = (P - S) - {p}" by auto
  then have "card (P - insert p S) < card (P - S)"
    using * card_Diff1_less [of "P - S" p] by simp
  then show ?thesis using *(4) by simp
qed

lemma ResolveExport_correct:
  assumes "finite P" "linked_exports H P"
  shows "(m, name) \<in> P \<Longrightarrow> card (P - set S) < n \<Longrightarrow>
    \<exists>r. ResolveExport n H m name S = Some (Answer r) \<and> decides r (unseen H (set S) (m, name))"
proof (induction n arbitrary: m name S)
  case (Suc n)
  let ?p = "(m, name)"
  have ok: "name \<noteq> ''''" "set (next_exports H ?p) \<subseteq> P" "\<And>e. e \<in> set (indirectExportEntries (h_rec H m)) \<Longrightarrow> \<exists>m'. h_resolve H m (ee_moduleRequest e) = Some m'"
    "\<And>e. e \<in> set (starExportEntries (h_rec H m)) \<Longrightarrow> \<exists>m'. h_resolve H m (ee_moduleRequest e) = Some m'"
    using assms(2) Suc.prems(1) unfolding linked_exports_def by auto
  show ?case
  proof (cases "?p \<in> set S")
    case True
    then show ?thesis using ok(1) by (simp add: unseen_unfold [of H "set S"] decides_def)
  next
    case new: False
    have IH: "\<exists>r. ResolveExport n H m' name' (S @ [?p]) = Some (Answer r) \<and> decides r (unseen H (insert ?p (set S)) (m', name'))"
      if "(m', name') \<in> P" for m' name'
      using Suc.IH [OF that, of "S @ [?p]"] card_seen [OF assms(1) Suc.prems(1) new Suc.prems(2)] by simp
    show ?thesis
    proof (cases "find_export (localExportEntries (h_rec H m)) name")
      case (Some e)
      then show ?thesis using ok(1) new by (simp add: unseen_unfold [of H "set S"] own_export_def next_exports_def decides_def)
    next
      case noLocal: None
      show ?thesis
      proof (cases "find_export (indirectExportEntries (h_rec H m)) name")
        case (Some e)
        then obtain m' where m': "h_resolve H m (ee_moduleRequest e) = Some m'"
          using ok(3) find_export_mem by blast
        show ?thesis
        proof (cases "ee_importName e = ''*''")
          case True
          then show ?thesis using ok(1) new noLocal Some m'
            by (simp add: unseen_unfold [of H "set S"] own_export_def next_exports_def decides_def)
        next
          case False
          then have "(m', ee_importName e) \<in> P" using ok(2) noLocal Some m' by (simp add: next_exports_def)
          from IH [OF this] show ?thesis using ok(1) new noLocal Some m' False
            by (simp add: unseen_unfold [of H "set S"] own_export_def next_exports_def)
        qed
      next
        case noIndirect: None
        show ?thesis
        proof (cases "name = ''default''")
          case True
          then show ?thesis using new noLocal noIndirect
            by (simp add: unseen_unfold [of H "set S"] own_export_def next_exports_def decides_def)
        next
          case False
          have t: "next_exports H ?p = map (\<lambda>m. (m, name)) (star_targets H m)"
            using noLocal noIndirect False by (simp add: next_exports_def)
          have "\<forall>e \<in> set (starExportEntries (h_rec H m)). \<exists>m'. h_resolve H m (ee_moduleRequest e) = Some m' \<and> (m', name) \<in> P"
            using ok(2,4) unfolding t star_targets_def by (fastforce simp: List.map_filter_def)
          from resolve_loop_correct [of name P n H "S @ [?p]", OF _ this, of None "{}"] IH show ?thesis
            using ok(1) new noLocal noIndirect False
            by (simp add: unseen_unfold [of H "set S"] own_export_def t star_targets_def decides_def [of "(None, False)"])
        qed
      qed
    qed
  qed
qed simp

section \<open>The exported names\<close>

abbreviation own_names :: "host \<Rightarrow> mid \<Rightarrow> string set" where
  "own_names H m \<equiv> set (getExportedNamesWithotStars (h_rec H m))"

abbreviation stars_to :: "host \<Rightarrow> mid \<Rightarrow> mid \<Rightarrow> bool" where
  "stars_to H \<equiv> \<lambda>m m'. m' \<in> set (star_targets H m)"

text \<open>The names a module exports: its own, and all but the default of every module that it exports with stars, over any number of modules.\<close>

definition exported_names :: "host \<Rightarrow> mid \<Rightarrow> string set" where
  "exported_names H m = own_names H m \<union> {k. k \<noteq> ''default'' \<and> (\<exists>m'. (stars_to H)\<^sup>*\<^sup>* m m' \<and> k \<in> own_names H m')}"

definition linked_stars :: "host \<Rightarrow> mid set \<Rightarrow> bool" where
  "linked_stars H M \<longleftrightarrow>
     (\<forall>m \<in> M. \<forall>e \<in> set (starExportEntries (h_rec H m)). \<exists>m' \<in> M. h_resolve H m (ee_moduleRequest e) = Some m')"

definition names_unseen :: "host \<Rightarrow> mid set \<Rightarrow> mid \<Rightarrow> string set" where
  "names_unseen H S m =
     (if m \<in> S then {} else own_names H m) \<union> {k. k \<noteq> ''default'' \<and> (\<exists>m'. avoiding (stars_to H) S m m' \<and> k \<in> own_names H m')}"

lemma names_unseen_other:
  "k \<noteq> ''default'' \<Longrightarrow> k \<in> names_unseen H S m \<longleftrightarrow> (\<exists>q. avoiding (stars_to H) S m q \<and> k \<in> own_names H q)"
  using avoiding_unfold [of "stars_to H" S m m] unfolding names_unseen_def by auto

lemma names_unseen_default: "''default'' \<in> names_unseen H S m \<longleftrightarrow> m \<notin> S \<and> ''default'' \<in> own_names H m"
  unfolding names_unseen_def by auto

lemma names_unseen_unfold:
  "names_unseen H S m =
     (if m \<in> S then {} else own_names H m \<union> ({k. k \<noteq> ''default''} \<inter> (\<Union>m' \<in> set (star_targets H m). names_unseen H (insert m S) m')))"
proof -
  have "k \<in> names_unseen H S m \<longleftrightarrow> m \<notin> S \<and> (k \<in> own_names H m \<or>
      k \<noteq> ''default'' \<and> (\<exists>m' \<in> set (star_targets H m). k \<in> names_unseen H (insert m S) m'))" for k
  proof (cases "k = ''default''")
    case True
    then show ?thesis by (simp add: names_unseen_default)
  next
    case False
    have "(\<exists>q. avoiding (stars_to H) S m q \<and> k \<in> own_names H q) \<longleftrightarrow> m \<notin> S \<and> (k \<in> own_names H m \<or>
        (\<exists>m' \<in> set (star_targets H m). \<exists>q. avoiding (stars_to H) (insert m S) m' q \<and> k \<in> own_names H q))"
      by (subst avoiding_unfold) blast
    then show ?thesis using False by (simp add: names_unseen_other)
  qed
  then show ?thesis by (auto simp: set_eq_iff)
qed

lemma names_unseen_nothing: "names_unseen H {} m = exported_names H m"
  unfolding names_unseen_def exported_names_def avoiding_nothing by simp

lemma exported_loop_correct:
  assumes IH: "\<And>m'. m' \<in> M \<Longrightarrow> \<exists>names. GetExportedNames n H m' S = Some (Answer names) \<and> set names = names_unseen H (set S) m'"
  shows "\<forall>e \<in> set es. \<exists>m' \<in> M. h_resolve H m (ee_moduleRequest e) = Some m' \<Longrightarrow>
    \<exists>names. exported_loop n H m es acc S = Some (Answer names) \<and>
      set names = set acc \<union> ({k. k \<noteq> ''default''} \<inter>
        (\<Union>m' \<in> set (List.map_filter (\<lambda>e. h_resolve H m (ee_moduleRequest e)) es). names_unseen H (set S) m'))"
proof (induction es arbitrary: acc)
  case Nil
  then show ?case by (simp add: List.map_filter_def)
next
  case (Cons e es)
  obtain m' where m': "h_resolve H m (ee_moduleRequest e) = Some m'" "m' \<in> M" using Cons.prems by auto
  obtain names where names: "GetExportedNames n H m' S = Some (Answer names)" "set names = names_unseen H (set S) m'"
    using IH [OF m'(2)] by blast
  show ?case
    using Cons.IH [of "acc @ filter (\<lambda>k. k \<noteq> ''default'') names"] Cons.prems names m'(1)
    unfolding star_targets_Cons [of H m e m' es, OF m'(1)] by auto
qed

lemma GetExportedNames_correct:
  assumes "finite M" "linked_stars H M"
  shows "m \<in> M \<Longrightarrow> card (M - set S) < n \<Longrightarrow>
    \<exists>names. GetExportedNames n H m S = Some (Answer names) \<and> set names = names_unseen H (set S) m"
proof (induction n arbitrary: m S)
  case (Suc n)
  show ?case
  proof (cases "m \<in> set S")
    case True
    then show ?thesis by (simp add: names_unseen_unfold [of H "set S"])
  next
    case new: False
    have IH: "\<exists>names. GetExportedNames n H m' (S @ [m]) = Some (Answer names) \<and> set names = names_unseen H (set (S @ [m])) m'"
      if "m' \<in> M" for m'
      using Suc.IH [OF that, of "S @ [m]"] card_seen [OF assms(1) Suc.prems(1) new Suc.prems(2)] by simp
    have "\<forall>e \<in> set (starExportEntries (h_rec H m)). \<exists>m' \<in> M. h_resolve H m (ee_moduleRequest e) = Some m'"
      using assms(2) Suc.prems(1) by (simp add: linked_stars_def)
    from exported_loop_correct [of M n H "S @ [m]", OF IH this] show ?thesis
      using new by (simp add: names_unseen_unfold [of H "set S" m] star_targets_def)
  qed
qed simp

section \<open>Namespace objects\<close>

text \<open>
  The exports of the object are a set in the code; \<^verbatim>\<open>exportsNames\<close> keeps the names in order, once for every time they were found.
\<close>

record namespaceObject =
  no_m :: mid
  no_exportsNames :: "string list"

definition no_exports :: "namespaceObject \<Rightarrow> string set" where
  "no_exports no = set (no_exportsNames no)"

fun namespace_loop :: "nat \<Rightarrow> host \<Rightarrow> mid \<Rightarrow> string list \<Rightarrow> string list \<Rightarrow> string list answer option" where
  "namespace_loop n H m [] acc = Some (Answer acc)"
| "namespace_loop n H m (exportName # names) acc =
     (case ResolveExport n H m exportName [] of
        None \<Rightarrow> None
      | Some Panic \<Rightarrow> Some Panic
      | Some (Answer (v, ambiguous)) \<Rightarrow>
          if ambiguous \<or> v = None then namespace_loop n H m names acc
          else namespace_loop n H m names (acc @ [exportName]))"

definition createNamespaceObject :: "nat \<Rightarrow> host \<Rightarrow> mid \<Rightarrow> namespaceObject answer option" where
  "createNamespaceObject n H m =
     (case GetExportedNames n H m [] of
        None \<Rightarrow> None
      | Some Panic \<Rightarrow> Some Panic
      | Some (Answer names) \<Rightarrow>
          map_option (map_answer (\<lambda>ns. \<lparr>no_m = m, no_exportsNames = ns\<rparr>)) (namespace_loop n H m names []))"

lemma namespace_loop_correct:
  assumes "\<And>name. name \<in> set names \<Longrightarrow> \<exists>r. ResolveExport n H m name [] = Some (Answer r) \<and> decides r (meaning H (m, name))"
  shows "\<exists>ns. namespace_loop n H m names acc = Some (Answer ns) \<and>
    set ns = set acc \<union> {name \<in> set names. \<exists>b. meaning H (m, name) = {b}}"
  using assms
proof (induction names arbitrary: acc)
  case (Cons name names)
  obtain v amb where r: "ResolveExport n H m name [] = Some (Answer (v, amb))" "decides (v, amb) (meaning H (m, name))"
    using Cons.prems [of name] by auto
  have unique: "(\<exists>b. meaning H (m, name) = {b}) \<longleftrightarrow> \<not> (amb \<or> v = None)"
    using r(2) unfolding decides_def by auto
  show ?case
    using Cons.IH [of acc] Cons.IH [of "acc @ [name]"] Cons.prems r(1) unique by (cases "amb \<or> v = None") auto
qed simp

text \<open>
  The internal methods. Reading a binding can throw (before its initialisation), which the argument \<open>bv\<close> says; \<open>ns\<close> gives the
  namespace objects of modules.
\<close>

definition ns_getOwnPropStr ::
    "(mid \<Rightarrow> string \<Rightarrow> jserr + val option) \<Rightarrow> (mid \<Rightarrow> oid) \<Rightarrow> nat \<Rightarrow> host \<Rightarrow> namespaceObject \<Rightarrow> string
     \<Rightarrow> (jserr + valueProperty option) answer option" where
  "ns_getOwnPropStr bv ns n H no name =
     (if name \<notin> no_exports no then Some (Answer (Inr None))
      else
        (case ResolveExport n H (no_m no) name [] of
           None \<Rightarrow> None
         | Some Panic \<Rightarrow> Some Panic
         | Some (Answer (v, ambiguous)) \<Rightarrow>
             (case v of
                None \<Rightarrow> Some (Answer (Inl ReferenceErr))
              | Some (m, bindingName) \<Rightarrow>
                  if ambiguous then Some (Answer (Inl ReferenceErr))
                  else
                    (case (if bindingName = ''*namespace*'' then Inr (Some (VObj (ns m))) else bv m bindingName) of
                       Inl e \<Rightarrow> Some (Answer (Inl e))
                     | Inr b \<Rightarrow>
                         Some (Answer (Inr (Some \<lparr>vp_value = Some (case b of None \<Rightarrow> VNull | Some x \<Rightarrow> x), vp_writable = True,
                           vp_configurable = False, vp_enumerable = True, vp_accessor = False, vp_getterFunc = None,
                           vp_setterFunc = None\<rparr>)))))))"

definition ns_hasOwnPropertyStr :: "namespaceObject \<Rightarrow> string \<Rightarrow> bool" where
  "ns_hasOwnPropertyStr no name \<longleftrightarrow> name \<in> no_exports no"

definition ns_setOwnStr :: "namespaceObject \<Rightarrow> string \<Rightarrow> val \<Rightarrow> bool \<Rightarrow> jserr + bool" where
  "ns_setOwnStr no name v throw = (if throw then Inl TypeErr else Inr False)"

definition ns_deleteStr :: "namespaceObject \<Rightarrow> string \<Rightarrow> bool \<Rightarrow> jserr + bool" where
  "ns_deleteStr no name throw = (if name \<in> no_exports no then (if throw then Inl TypeErr else Inr False) else Inr True)"

definition pd_Empty :: "PropertyDescriptor \<Rightarrow> bool" where
  "pd_Empty d \<longleftrightarrow> d = \<lparr>pd_value = None, pd_writable = FLAG_NOT_SET, pd_configurable = FLAG_NOT_SET, pd_enumerable = FLAG_NOT_SET,
     pd_getter = None, pd_setter = None\<rparr>"

text \<open>
  The comparison of the given value with what \<^verbatim>\<open>getOwnPropStr\<close> returns is one of a JavaScript value with a pointer to a
  \<^verbatim>\<open>valueProperty\<close>: they are never equal. Reading the property can throw first.
\<close>

definition ns_defineOwnPropertyStr ::
    "(mid \<Rightarrow> string \<Rightarrow> jserr + val option) \<Rightarrow> (mid \<Rightarrow> oid) \<Rightarrow> nat \<Rightarrow> host \<Rightarrow> namespaceObject \<Rightarrow> string \<Rightarrow> PropertyDescriptor \<Rightarrow> bool
     \<Rightarrow> (jserr + bool) answer option" where
  "ns_defineOwnPropertyStr bv ns n H no name d throw =
     (let returnFalse = Some (Answer (if throw then Inl TypeErr else Inr False)) in
      if \<not> ns_hasOwnPropertyStr no name then returnFalse
      else if pd_Empty d then Some (Answer (Inr True))
      else if pd_writable d = FLAG_FALSE then returnFalse
      else if pd_configurable d = FLAG_TRUE then returnFalse
      else if pd_enumerable d = FLAG_FALSE then returnFalse
      else if pd_value d \<noteq> None then
        (case ns_getOwnPropStr bv ns n H no name of
           None \<Rightarrow> None
         | Some Panic \<Rightarrow> Some Panic
         | Some (Answer (Inl e)) \<Rightarrow> Some (Answer (Inl e))
         | Some (Answer (Inr _)) \<Rightarrow> returnFalse)
      else Some (Answer (Inr True)))"

text \<open>The keys: the set of exports, sorted by the bytes of the names.\<close>

definition ns_stringKeys :: "namespaceObject \<Rightarrow> string list" where
  "ns_stringKeys no = sort (remdups (no_exportsNames no))"

section \<open>The record of a module\<close>

lemma adjacent_sorted: "sorted xs \<Longrightarrow> adjacent xs = None \<longleftrightarrow> distinct (xs :: 'a :: linorder list)"
proof (induction xs rule: adjacent.induct)
  case (1 x y xs)
  then show ?case by (auto simp: order.antisym)
qed auto

lemma then_do_Inr [simp]: "then_do m k = Inr b \<longleftrightarrow> (\<exists>a. m = Inr a \<and> k a = Inr b)"
  by (auto simp: then_do_def split: sum.splits)

text \<open>The bindings that the import declarations ask for, in the order of the source.\<close>

definition named_bindings :: "string \<Rightarrow> (string \<times> string) list \<Rightarrow> importEntry list" where
  "named_bindings from els =
     map (\<lambda>(name, alias). \<lparr>ie_moduleRequest = from, ie_importName = name, ie_localName = (if alias = '''' then name else alias)\<rparr>) els"

definition single_binding :: "string \<Rightarrow> string \<Rightarrow> string option \<Rightarrow> importEntry list" where
  "single_binding from importName l =
     (case l of Some name \<Rightarrow> [\<lparr>ie_moduleRequest = from, ie_importName = importName, ie_localName = name\<rparr>] | None \<Rightarrow> [])"

definition declared_bindings :: "ImportDeclaration \<Rightarrow> importEntry list" where
  "declared_bindings d =
     (case id_from d of
        None \<Rightarrow> []
      | Some from \<Rightarrow>
          (case id_named d of Some els \<Rightarrow> named_bindings from els | None \<Rightarrow> []) @
          single_binding from ''default'' (id_default d) @ single_binding from ''*'' (id_namespace d))"

abbreviation local_names :: "importEntry list \<Rightarrow> string list" where
  "local_names \<equiv> map ie_localName"

text \<open>Adding bindings succeeds exactly if all names stay distinct, and then appends them.\<close>

lemma single_import_iff:
  assumes "distinct (local_names ies)"
  shows "(case l of Some name \<Rightarrow> add_import from i name ies | None \<Rightarrow> Inr ies) = Inr r \<longleftrightarrow>
    distinct (local_names (ies @ single_binding from i l)) \<and> r = ies @ single_binding from i l"
  using assms by (cases l) (auto simp: add_import_def single_binding_def)

lemma add_named_imports_iff:
  "distinct (local_names ies) \<Longrightarrow>
   add_named_imports f els ies = Inr r \<longleftrightarrow> distinct (local_names (ies @ named_bindings f els)) \<and> r = ies @ named_bindings f els"
proof (induction f els ies rule: add_named_imports.induct)
  case (2 f name al els ies)
  let ?b = "\<lparr>ie_moduleRequest = f, ie_importName = name, ie_localName = (if al = '''' then name else al)\<rparr>"
  show ?case
  proof (cases "ie_localName ?b \<in> set (local_names ies)")
    case True
    then show ?thesis by (auto simp: add_import_def named_bindings_def)
  next
    case False
    then have "add_import f name (ie_localName ?b) ies = Inr (ies @ [?b])" by (simp add: add_import_def)
    moreover have "distinct (local_names (ies @ [?b]))" using False "2.prems" by simp
    ultimately show ?thesis using "2.IH" [of "ies @ [?b]"] by (simp add: named_bindings_def)
  qed
qed (auto simp: named_bindings_def)

lemma distinct_prefix: "distinct (local_names (xs @ ys)) \<Longrightarrow> distinct (local_names xs)"
  by simp

lemma importEntries_iff:
  "distinct (local_names ies) \<Longrightarrow>
   importEntriesFromAst ds ies = Inr r \<longleftrightarrow>
     distinct (local_names (ies @ concat (map declared_bindings ds))) \<and> r = ies @ concat (map declared_bindings ds)"
proof (induction ds arbitrary: ies)
  case (Cons d ds)
  show ?case
  proof (cases "id_from d")
    case None
    then show ?thesis using Cons by (simp add: declared_bindings_def)
  next
    case (Some f)
    define A where "A = (case id_named d of Some els \<Rightarrow> named_bindings f els | None \<Rightarrow> [])"
    define B where "B = single_binding f ''default'' (id_default d)"
    define C where "C = single_binding f ''*'' (id_namespace d)"
    have decl: "declared_bindings d = A @ B @ C" using Some by (simp add: declared_bindings_def A_def B_def C_def)
    have a: "(case id_named d of Some els \<Rightarrow> add_named_imports f els ies | None \<Rightarrow> Inr ies) = Inr r \<longleftrightarrow>
        distinct (local_names (ies @ A)) \<and> r = ies @ A" for r
      using add_named_imports_iff [OF Cons.prems] Cons.prems by (cases "id_named d") (auto simp: A_def)
    have b: "distinct (local_names (ies @ A)) \<Longrightarrow> (case id_default d of Some name \<Rightarrow> add_import f ''default'' name (ies @ A) | None \<Rightarrow> Inr (ies @ A)) = Inr r \<longleftrightarrow>
        distinct (local_names (ies @ A @ B)) \<and> r = ies @ A @ B" for r
      using single_import_iff [of "ies @ A" f "''default''" "id_default d" r] unfolding B_def [symmetric] append_assoc by blast
    have c: "distinct (local_names (ies @ A @ B)) \<Longrightarrow>
        (case id_namespace d of Some name \<Rightarrow> add_import f ''*'' name (ies @ A @ B) | None \<Rightarrow> Inr (ies @ A @ B)) = Inr r \<longleftrightarrow>
        distinct (local_names (ies @ A @ B @ C)) \<and> r = ies @ A @ B @ C" for r
      using single_import_iff [of "ies @ A @ B" f "''*''" "id_namespace d" r] unfolding C_def [symmetric] append_assoc by blast
    have "importEntriesFromAst (d # ds) ies = Inr r \<longleftrightarrow> distinct (local_names (ies @ A)) \<and> distinct (local_names (ies @ A @ B)) \<and>
        distinct (local_names (ies @ A @ B @ C)) \<and> importEntriesFromAst ds (ies @ A @ B @ C) = Inr r"
      unfolding importEntriesFromAst.simps Some option.case then_do_Inr a
      by (auto simp: b c simp del: map_append distinct_append append_assoc)
    then have "importEntriesFromAst (d # ds) ies = Inr r \<longleftrightarrow>
        distinct (local_names (ies @ A @ B @ C)) \<and> importEntriesFromAst ds (ies @ A @ B @ C) = Inr r"
      using distinct_prefix [of "ies @ A" "B @ C"] distinct_prefix [of "ies @ A @ B" C] by auto
    then show ?thesis
      using Cons.IH [of "ies @ A @ B @ C"] distinct_prefix [of "ies @ A @ B @ C" "concat (map declared_bindings ds)"]
      unfolding list.map concat.simps decl append_assoc by blast
  qed
qed auto

text \<open>
  What an export declaration of the source is: an unnamed star, a re-export of an imported binding (but not of a namespace, which is
  a binding of the module itself) or a local export.
\<close>

definition unnamed_star :: "exportEntry \<Rightarrow> bool" where
  "unnamed_star e \<longleftrightarrow> ee_moduleRequest e \<noteq> '''' \<and> ee_importName e = ''*'' \<and> ee_exportName e = ''''"

definition sources_of :: "importEntry list \<Rightarrow> exportEntry \<Rightarrow> importEntry list" where
  "sources_of ies e = filter (\<lambda>i. ie_localName i = ee_localName e \<and> ie_importName i \<noteq> ''*'') ies"

definition indirect_of :: "importEntry list \<Rightarrow> exportEntry \<Rightarrow> exportEntry list" where
  "indirect_of ies e =
     (if ee_moduleRequest e = '''' then map (\<lambda>i. entry (ee_exportName e) (ie_moduleRequest i) (ie_importName i) '''' False) (sources_of ies e)
      else if unnamed_star e then [] else [e])"

lemma sources_of_find:
  assumes "distinct (local_names ies)"
  shows "sources_of ies e =
    (case findImportByLocalName ies (ee_localName e) of Some i \<Rightarrow> if ie_importName i = ''*'' then [] else [i] | None \<Rightarrow> [])"
proof -
  have none: "sources_of xs e = []" if "ee_localName e \<notin> set (local_names xs)" for xs
    using that by (induction xs) (auto simp: sources_of_def)
  show ?thesis using assms
  proof (induction ies)
    case (Cons i ies)
    show ?case
    proof (cases "ie_localName i = ee_localName e")
      case True
      then have "sources_of ies e = []" using Cons.prems by (intro none) simp
      then show ?thesis using True by (simp add: sources_of_def findImportByLocalName_def)
    next
      case False
      then show ?thesis using Cons by (simp add: sources_of_def findImportByLocalName_def)
    qed
  qed (simp add: sources_of_def findImportByLocalName_def)
qed

definition is_local :: "importEntry list \<Rightarrow> exportEntry \<Rightarrow> bool" where
  "is_local ies e \<longleftrightarrow> ee_moduleRequest e = '''' \<and> sources_of ies e = []"

lemma classify_step:
  assumes "distinct (local_names ies)"
  shows "classify ies e (l, i, s) =
    (l @ (if is_local ies e then [e] else []), i @ indirect_of ies e, s @ (if unnamed_star e then [e] else []))"
  by (simp add: classify_def is_local_def indirect_of_def unnamed_star_def sources_of_find [OF assms] split: option.split)

lemma classify_fold:
  "distinct (local_names ies) \<Longrightarrow> fold (classify ies) es (l, i, s) =
     (l @ filter (is_local ies) es, i @ concat (map (indirect_of ies) es), s @ filter unnamed_star es)"
  by (induction es arbitrary: l i s) (simp_all add: classify_step)

text \<open>Local and indirect exports together have the names of all exports but the unnamed stars.\<close>

lemma exported_once:
  assumes "distinct (local_names ies)"
  shows "mset (map ee_exportName (filter (is_local ies) es) @ map ee_exportName (concat (map (indirect_of ies) es))) =
    mset (map ee_exportName (filter (\<lambda>e. \<not> unnamed_star e) es))"
proof (induction es)
  case (Cons e es)
  have "(if is_local ies e then {#ee_exportName e#} else {#}) + mset (map ee_exportName (indirect_of ies e)) =
      (if unnamed_star e then {#} else {#ee_exportName e#})"
    by (auto simp: is_local_def indirect_of_def unnamed_star_def sources_of_find [OF assms] entry_def split: option.splits)
  moreover have "mset (map ee_exportName (filter (is_local ies) (e # es)) @ map ee_exportName (concat (map (indirect_of ies) (e # es)))) =
      ((if is_local ies e then {#ee_exportName e#} else {#}) + mset (map ee_exportName (indirect_of ies e))) +
      mset (map ee_exportName (filter (is_local ies) es) @ map ee_exportName (concat (map (indirect_of ies) es)))"
    by simp
  moreover have "mset (map ee_exportName (filter (\<lambda>e. \<not> unnamed_star e) (e # es))) =
      (if unnamed_star e then {#} else {#ee_exportName e#}) + mset (map ee_exportName (filter (\<lambda>e. \<not> unnamed_star e) es))"
    by simp
  ultimately show ?case using Cons by (simp only:)
qed simp

text \<open>
  (C29) A module record is built exactly when no local name is imported twice and no name is exported twice. Its import entries are the
  bindings of the import declarations in order; an export without a module of its own is indirect, naming the module and the export it
  comes from, if its local name is imported otherwise than as a namespace, and local if it is not; an unnamed star is a star export,
  every other export from a module is indirect; each list is in the order of the source.
\<close>

theorem ModuleFromAST_well_formed:
  "ModuleFromAST tla body imports exports = Inr s \<longleftrightarrow>
     distinct (local_names (concat (map declared_bindings imports))) \<and>
     distinct (map ee_exportName (filter (\<lambda>e. \<not> unnamed_star e) (exportEntriesFromAst exports))) \<and>
     s = \<lparr>hasTLA = tla, requestedModules = requestedModulesFromAst body, importEntries = concat (map declared_bindings imports),
       localExportEntries = filter (is_local (concat (map declared_bindings imports))) (exportEntriesFromAst exports),
       indirectExportEntries = concat (map (indirect_of (concat (map declared_bindings imports))) (exportEntriesFromAst exports)),
       starExportEntries = filter unnamed_star (exportEntriesFromAst exports)\<rparr>"
proof -
  define ies where "ies = concat (map declared_bindings imports)"
  have i: "importEntriesFromAst imports [] = Inr r \<longleftrightarrow> distinct (local_names ies) \<and> r = ies" for r
    using importEntries_iff [of "[]" "imports" r] by (simp add: ies_def)
  show ?thesis
  proof (cases "distinct (local_names ies)")
    case True
    have d: "adjacent (sort xs) = None \<longleftrightarrow> distinct xs" for xs :: "string list"
      using adjacent_sorted [of "sort xs"] by simp
    have n: "(case adjacent (sort xs) of None \<Rightarrow> Inr t | Some name \<Rightarrow> Inl (DuplicateExport name)) = Inr s \<longleftrightarrow> distinct xs \<and> s = t"
      for xs and t :: SourceTextModuleRecord using d [of xs] by (auto split: option.split)
    have "distinct (map ee_exportName (filter (is_local ies) es) @ map ee_exportName (concat (map (indirect_of ies) es))) \<longleftrightarrow>
        distinct (map ee_exportName (filter (\<lambda>e. \<not> unnamed_star e) es))" for es
      using exported_once [OF True, of es] by (metis mset_eq_imp_distinct_iff)
    moreover have "importEntriesFromAst imports [] = Inr ies" using i True by blast
    ultimately show ?thesis
      using True unfolding ModuleFromAST_def ies_def [symmetric]
      by (simp only: sum.case classify_fold [OF True] prod.case append_Nil Let_def n getExportedNamesWithotStars_def SourceTextModuleRecord.simps)
        blast
  next
    case False
    then show ?thesis using i unfolding ModuleFromAST_def ies_def [symmetric]
      by (cases "importEntriesFromAst imports []") auto
  qed
qed

section \<open>Correctness of the resolution\<close>

text \<open>(C27) The resolution of an export returns for every finite graph of modules, cycles included, and decides what the export means: no binding, exactly one, which it returns, or several, which it reports as ambiguous.\<close>

theorem resolve_export_correct:
  assumes "finite P" "linked_exports H P" "(m, name) \<in> P" "card P < n"
  shows "\<exists>r. ResolveExport n H m name [] = Some (Answer r) \<and> decides r (meaning H (m, name))"
  using ResolveExport_correct [OF assms(1,2,3), of "[]" n] assms(4) by (simp add: unseen_nothing)

definition demo_record :: "exportEntry list \<Rightarrow> exportEntry list \<Rightarrow> exportEntry list \<Rightarrow> SourceTextModuleRecord" where
  "demo_record l i s = \<lparr>hasTLA = False, requestedModules = [], importEntries = [], localExportEntries = l, indirectExportEntries = i,
     starExportEntries = s\<rparr>"

definition demo_host :: host where
  "demo_host = \<lparr>
     h_rec = \<lambda>m. if m = 0 then demo_record [] [] [entry '''' ''a'' ''*'' '''' False, entry '''' ''b'' ''*'' '''' False]
       else if m = 2 then demo_record [entry ''y'' '''' '''' ''ly'' False] [] [entry '''' ''b'' ''*'' '''' False, entry '''' ''main'' ''*'' '''' False]
       else demo_record [] [entry ''z'' ''a'' ''y'' '''' False] [entry '''' ''a'' ''*'' '''' False],
     h_resolve = \<lambda>m s. Some (if s = ''a'' then 2 else if s = ''b'' then 3 else 0)\<rparr>"

lemma demo_linked: "linked_exports demo_host {(0, ''z''), (2, ''z''), (3, ''z''), (2, ''y''), (0, ''y''), (3, ''y'')}"
  by (simp add: linked_exports_def demo_host_def demo_record_def entry_def next_exports_def find_export_def star_targets_def List.map_filter_def)
    blast

theorem resolve_export_correct_witness: "meaning demo_host (0, ''z'') = {(2, ''ly'')}"
proof -
  have "ResolveExport 7 demo_host 0 ''z'' [] = Some (Answer (Some (2, ''ly''), False))" by code_simp
  then have "decides (Some (2, ''ly''), False) (meaning demo_host (0, ''z''))"
    using resolve_export_correct [OF _ demo_linked, of 0 "''z''" 7] by auto
  then show ?thesis by (simp add: decides_def)
qed

text \<open>(C28) The namespace object of a module has a property for exactly the exported names, star exports included, that mean one binding; ambiguous names are left out.\<close>

theorem namespace_correct:
  assumes "finite M" "linked_stars H M" "m \<in> M" "finite P" "linked_exports H P" "\<forall>name \<in> exported_names H m. (m, name) \<in> P"
    "card M < n" "card P < n"
  shows "\<exists>no. createNamespaceObject n H m = Some (Answer no) \<and> no_m no = m \<and>
    no_exports no = {name \<in> exported_names H m. \<exists>b. meaning H (m, name) = {b}} \<and>
    set (ns_stringKeys no) = no_exports no \<and> sorted (ns_stringKeys no) \<and> distinct (ns_stringKeys no)"
proof -
  obtain names where names: "GetExportedNames n H m [] = Some (Answer names)" "set names = exported_names H m"
    using GetExportedNames_correct [OF assms(1,2,3), of "[]" n] assms(7) by (auto simp: names_unseen_nothing)
  have "\<exists>r. ResolveExport n H m name [] = Some (Answer r) \<and> decides r (meaning H (m, name))" if "name \<in> set names" for name
    using ResolveExport_correct [OF assms(4,5), of m name "[]" n] assms(6,8) names(2) that by (simp add: unseen_nothing)
  from namespace_loop_correct [OF this, of names "[]"] obtain ns where
    ns: "namespace_loop n H m names [] = Some (Answer ns)" "set ns = {name \<in> set names. \<exists>b. meaning H (m, name) = {b}}" by auto
  show ?thesis
    using names ns by (intro exI [of _ "\<lparr>no_m = m, no_exportsNames = ns\<rparr>"])
      (simp add: createNamespaceObject_def no_exports_def ns_stringKeys_def)
qed

lemma demo_stars: "linked_stars demo_host {0, 2, 3}"
  by (simp add: linked_stars_def demo_host_def demo_record_def entry_def)

lemma demo_names: "exported_names demo_host 0 \<subseteq> {''y'', ''z''}"
  by (auto simp: exported_names_def demo_host_def demo_record_def entry_def getExportedNamesWithotStars_def split: if_splits)

theorem namespace_correct_witness:
  "\<exists>no. createNamespaceObject 7 demo_host 0 = Some (Answer no) \<and>
     no_exports no = {name \<in> exported_names demo_host 0. \<exists>b. meaning demo_host (0, name) = {b}}"
proof -
  have p: "\<forall>name \<in> exported_names demo_host 0. (0, name) \<in> {(0, ''z''), (2, ''z''), (3, ''z''), (2, ''y''), (0 :: nat, ''y''), (3, ''y'')}"
    using demo_names by auto
  show ?thesis
    using namespace_correct [OF _ demo_stars _ _ demo_linked p, of 7] by auto
qed

section \<open>Definitions on a namespace object\<close>

text \<open>Every definition with a value is refused, also one with the value that the property has.\<close>

theorem namespace_refuses_its_own_value:
  "name \<in> no_exports no \<Longrightarrow> ns_getOwnPropStr bv ns n H no name = Some (Answer (Inr (Some p))) \<Longrightarrow>
   ns_defineOwnPropertyStr bv ns n H no name
     \<lparr>pd_value = vp_value p, pd_writable = FLAG_TRUE, pd_configurable = FLAG_FALSE, pd_enumerable = FLAG_TRUE, pd_getter = None, pd_setter = None\<rparr>
     False = Some (Answer (Inr False))"
  by (auto simp: ns_defineOwnPropertyStr_def ns_hasOwnPropertyStr_def pd_Empty_def ns_getOwnPropStr_def Let_def
    split: if_splits option.splits answer.splits sum.splits)

text \<open>A definition of an accessor is reported as a success and ignored.\<close>

theorem namespace_accepts_accessor:
  "name \<in> no_exports no \<Longrightarrow>
   ns_defineOwnPropertyStr bv ns n H no name
     \<lparr>pd_value = None, pd_writable = FLAG_NOT_SET, pd_configurable = FLAG_NOT_SET, pd_enumerable = FLAG_NOT_SET, pd_getter = Some g, pd_setter = None\<rparr>
     True = Some (Answer (Inr True))"
  by (simp add: ns_defineOwnPropertyStr_def ns_hasOwnPropertyStr_def pd_Empty_def Let_def)

end
