(* ===== verification/Module_Eval.thy ===== *)
theory Module_Eval
  imports Module_Exports
begin

text \<open>
  Modules, the dynamic part (modules.go): linking and evaluation of a graph of modules, both a depth-first search with a stack,
  and the completion of modules with top-level await. Since a module record is instantiated at most once, the instance of a
  module is identified with its record. The stack has its top first.
\<close>

section \<open>Depth-first post-order\<close>

text \<open>
  The order in which a depth-first search leaves the modules, the reference for linking and evaluation: \<open>S\<close> are the modules
  entered and not left, \<open>L\<close> those left, in order. The first argument bounds the depth.
\<close>

fun visit :: "nat \<Rightarrow> (mid \<Rightarrow> mid list) \<Rightarrow> mid set \<Rightarrow> mid \<Rightarrow> mid list \<Rightarrow> mid list option"
  and visits :: "nat \<Rightarrow> (mid \<Rightarrow> mid list) \<Rightarrow> mid set \<Rightarrow> mid list \<Rightarrow> mid list \<Rightarrow> mid list option" where
  "visit 0 G S m L = None"
| "visit (Suc n) G S m L =
     (if m \<in> S \<or> m \<in> set L then Some L else map_option (\<lambda>L'. L' @ [m]) (visits n G (insert m S) (G m) L))"
| "visits n G S [] L = Some L"
| "visits n G S (m # ms) L = Option.bind (visit n G S m L) (visits n G S ms)"

abbreviation requires :: "(mid \<Rightarrow> mid list) \<Rightarrow> mid \<Rightarrow> mid \<Rightarrow> bool" where
  "requires G \<equiv> \<lambda>x y. y \<in> set (G x)"

text \<open>Every module of the list from position \<open>k\<close> on comes after what it requires, unless that requires it in turn.\<close>

definition dependency_ordered :: "(mid \<Rightarrow> mid list) \<Rightarrow> nat \<Rightarrow> mid list \<Rightarrow> bool" where
  "dependency_ordered G k L \<longleftrightarrow>
     (\<forall>i < length L. k \<le> i \<longrightarrow> (\<forall>y \<in> set (G (L ! i)). y \<in> set (take i L) \<or> (requires G)\<^sup>*\<^sup>* y (L ! i)))"

lemma dependency_ordered_snoc:
  "dependency_ordered G k L \<Longrightarrow> \<forall>y \<in> set (G m). y \<in> set L \<or> (requires G)\<^sup>*\<^sup>* y m \<Longrightarrow> dependency_ordered G k (L @ [m])"
  unfolding dependency_ordered_def by (auto simp: nth_append less_Suc_eq)

text \<open>What a visit adds: distinct new modules that the visited one reaches and that were not entered before, in order.\<close>

definition extends :: "(mid \<Rightarrow> mid list) \<Rightarrow> mid set \<Rightarrow> mid set \<Rightarrow> mid list \<Rightarrow> mid list \<Rightarrow> bool" where
  "extends G S X L L' \<longleftrightarrow>
     (\<exists>N. L' = L @ N \<and> set N \<inter> S = {} \<and> (\<forall>x \<in> set N. \<exists>r \<in> X. (requires G)\<^sup>*\<^sup>* r x)) \<and>
     (distinct L \<longrightarrow> distinct L') \<and>
     (\<forall>k. dependency_ordered G k L \<longrightarrow> dependency_ordered G k L') \<and>
     (\<forall>x \<in> set L' - set L. \<forall>y \<in> set (G x). y \<in> S \<or> y \<in> set L')"

lemma visit_extends_refl: "extends G S X L L"
  by (simp add: extends_def)

lemma visit_extends_trans: "extends G S X L L' \<Longrightarrow> extends G S Y L' L'' \<Longrightarrow> X \<subseteq> Z \<Longrightarrow> Y \<subseteq> Z \<Longrightarrow> extends G S Z L L''"
proof -
  assume a: "extends G S X L L'" "extends G S Y L' L''" "X \<subseteq> Z" "Y \<subseteq> Z"
  obtain N where N: "L' = L @ N" "set N \<inter> S = {}" "\<forall>x \<in> set N. \<exists>r \<in> X. (requires G)\<^sup>*\<^sup>* r x"
    using a(1) unfolding extends_def by blast
  obtain K where K: "L'' = L' @ K" "set K \<inter> S = {}" "\<forall>x \<in> set K. \<exists>r \<in> Y. (requires G)\<^sup>*\<^sup>* r x"
    using a(2) unfolding extends_def by blast
  show ?thesis
    unfolding extends_def
  proof (intro conjI exI [of _ "N @ K"])
    show "\<forall>x \<in> set L'' - set L. \<forall>y \<in> set (G x). y \<in> S \<or> y \<in> set L''"
      using a(1,2) K(1) unfolding extends_def by (metis Diff_iff Un_iff set_append)
    show "\<forall>x \<in> set (N @ K). \<exists>r \<in> Z. (requires G)\<^sup>*\<^sup>* r x"
      using N(3) K(3) a(3,4) by (metis Un_iff set_append subsetD)
    show "distinct L \<longrightarrow> distinct L''" "\<forall>k. dependency_ordered G k L \<longrightarrow> dependency_ordered G k L''"
      using a(1,2) unfolding extends_def by blast+
  qed (use N(1,2) K(1,2) in auto)
qed

lemma extends_leave:
  assumes e: "extends G (insert m S) (set (G m)) L L'" and d: "set (G m) \<subseteq> insert m S \<union> set L'" and new: "m \<notin> S" "m \<notin> set L"
    and stack: "\<forall>s \<in> S. (requires G)\<^sup>*\<^sup>* s m"
  shows "extends G S {m} L (L' @ [m])"
proof -
  obtain N where N: "L' = L @ N" "set N \<inter> insert m S = {}" "\<forall>x \<in> set N. \<exists>r \<in> set (G m). (requires G)\<^sup>*\<^sup>* r x"
    using e unfolding extends_def by blast
  have "\<forall>y \<in> set (G m). y \<in> set L' \<or> (requires G)\<^sup>*\<^sup>* y m"
    using d stack by auto
  then have "dependency_ordered G k L \<longrightarrow> dependency_ordered G k (L' @ [m])" for k
    using e dependency_ordered_snoc [of G k L' m] unfolding extends_def by blast
  moreover have "\<forall>x \<in> set N. (requires G)\<^sup>*\<^sup>* m x"
    using N(3) by (meson converse_rtranclp_into_rtranclp)
  ultimately show ?thesis
    using e N(1,2) new d unfolding extends_def by auto
qed

lemma visits_correct:
  assumes "\<And>m L. m \<in> X \<Longrightarrow> L0 \<subseteq> set L \<Longrightarrow> \<exists>L'. visit n G S m L = Some L' \<and> extends G S {m} L L' \<and> m \<in> S \<union> set L'"
  shows "set ms \<subseteq> X \<Longrightarrow> L0 \<subseteq> set L \<Longrightarrow> \<exists>L'. visits n G S ms L = Some L' \<and> extends G S (set ms) L L' \<and> set ms \<subseteq> S \<union> set L'"
proof (induction ms arbitrary: L)
  case (Cons m ms)
  obtain L1 where 1: "visit n G S m L = Some L1" "extends G S {m} L L1" "m \<in> S \<union> set L1"
    using assms [of m L] Cons.prems by auto
  have sub: "set L \<subseteq> set L1" using 1(2) unfolding extends_def by auto
  obtain L2 where 2: "visits n G S ms L1 = Some L2" "extends G S (set ms) L1 L2" "set ms \<subseteq> S \<union> set L2"
    using Cons.IH [of L1] Cons.prems sub by auto
  have "set L1 \<subseteq> set L2" using 2(2) unfolding extends_def by auto
  then show ?case using 1 2 visit_extends_trans [OF 1(2) 2(2), of "set (m # ms)"] by auto
qed (simp add: visit_extends_refl)

lemma visit_correct:
  assumes "finite M" "\<forall>x \<in> M. set (G x) \<subseteq> M"
  shows "m \<in> M \<Longrightarrow> card (M - (S \<union> set L)) < n \<Longrightarrow> \<forall>s \<in> S. (requires G)\<^sup>*\<^sup>* s m \<Longrightarrow>
    \<exists>L'. visit n G S m L = Some L' \<and> extends G S {m} L L' \<and> m \<in> S \<union> set L'"
proof (induction n arbitrary: m S L)
  case (Suc n)
  show ?case
  proof (cases "m \<in> S \<or> m \<in> set L")
    case True
    then show ?thesis by (auto simp: visit_extends_refl)
  next
    case False
    have c: "card (M - insert m (S \<union> set L)) < n"
      using card_seen [OF assms(1) Suc.prems(1) _ Suc.prems(2)] False by simp
    have "\<exists>L'. visit n G (insert m S) x L1 = Some L' \<and> extends G (insert m S) {x} L1 L' \<and> x \<in> insert m S \<union> set L'"
      if "x \<in> set (G m)" "set L \<subseteq> set L1" for x L1
    proof (rule Suc.IH)
      show "x \<in> M" using that assms(2) Suc.prems(1) by blast
      have "M - (insert m S \<union> set L1) \<subseteq> M - insert m (S \<union> set L)" using that(2) by auto
      then show "card (M - (insert m S \<union> set L1)) < n"
        using c assms(1) by (meson card_mono finite_Diff le_less_trans)
      show "\<forall>s \<in> insert m S. (requires G)\<^sup>*\<^sup>* s x"
        using Suc.prems(3) that(1) by (auto intro: rtranclp.rtrancl_into_rtrancl)
    qed
    from visits_correct [of "set (G m)" "set L" n G "insert m S", OF this, of "G m" L] obtain L' where
      L': "visits n G (insert m S) (G m) L = Some L'" "extends G (insert m S) (set (G m)) L L'" "set (G m) \<subseteq> insert m S \<union> set L'"
      by auto
    show ?thesis
      using L' False extends_leave [OF L'(2,3) _ _ Suc.prems(3)] by auto
  qed
qed simp

section \<open>Linking\<close>

datatype CyclicModuleRecordStatus = Unlinked | Linking | Linked | Evaluating | Evaluating_Async | Evaluated

text \<open>
  The state of one call of \<^verbatim>\<open>Link\<close>, with the stack, and the modules whose environment was initialised, in order, which outlives the
  call: \<^verbatim>\<open>InitializeEnvironment\<close> compiles a module the first time only and reports an error only then.
\<close>

record linkState =
  l_status :: "mid \<Rightarrow> CyclicModuleRecordStatus"
  l_dfsIndex :: "mid \<Rightarrow> nat"
  l_dfsAncestorIndex :: "mid \<Rightarrow> nat"
  l_stack :: "mid list"
  l_initialised :: "mid list"

definition newLinkState :: "mid list \<Rightarrow> linkState" where
  "newLinkState initialised =
     \<lparr>l_status = \<lambda>_. Unlinked, l_dfsIndex = \<lambda>_. 0, l_dfsAncestorIndex = \<lambda>_. 0, l_stack = [], l_initialised = initialised\<rparr>"

datatype linkError = UnresolvedImport mid string | CompileError mid | BadStatus

definition InitializeEnvironment :: "(mid \<Rightarrow> bool) \<Rightarrow> mid \<Rightarrow> linkState \<Rightarrow> linkError option \<times> linkState" where
  "InitializeEnvironment compiles m st =
     (if m \<in> set (l_initialised st) then (None, st)
      else (if compiles m then None else Some (CompileError m), st\<lparr>l_initialised := l_initialised st @ [m]\<rparr>))"

fun pop_linked :: "mid \<Rightarrow> mid list \<Rightarrow> (mid \<Rightarrow> CyclicModuleRecordStatus) \<Rightarrow> mid list \<times> (mid \<Rightarrow> CyclicModuleRecordStatus)" where
  "pop_linked m [] status = ([], status)"
| "pop_linked m (r # stack) status =
     (if r = m then (stack, status(r := Linked)) else pop_linked m stack (status(r := Linked)))"

definition enter_link :: "mid \<Rightarrow> nat \<Rightarrow> linkState \<Rightarrow> linkState" where
  "enter_link m index st =
     st\<lparr>l_status := (l_status st)(m := Linking), l_dfsIndex := (l_dfsIndex st)(m := index),
        l_dfsAncestorIndex := (l_dfsAncestorIndex st)(m := index), l_stack := m # l_stack st\<rparr>"

definition finish_link :: "(mid \<Rightarrow> bool) \<Rightarrow> mid \<Rightarrow> nat \<Rightarrow> linkState \<Rightarrow> (linkError + nat) \<times> linkState" where
  "finish_link compiles m index st =
     (case InitializeEnvironment compiles m st of
        (Some e, st1) \<Rightarrow> (Inl e, st1)
      | (None, st1) \<Rightarrow>
          if l_dfsAncestorIndex st1 m = l_dfsIndex st1 m then
            (case pop_linked m (l_stack st1) (l_status st1) of
               (stack, status) \<Rightarrow> (Inr index, st1\<lparr>l_stack := stack, l_status := status\<rparr>))
          else (Inr index, st1))"

text \<open>After a required module was visited: its ancestor index is lowered to that of the module.\<close>

definition lower_ancestor :: "mid \<Rightarrow> mid \<Rightarrow> linkState \<Rightarrow> linkState" where
  "lower_ancestor m required st =
     (if l_status st required = Linking then
        (let ancestorIndex = l_dfsAncestorIndex st m in
         if ancestorIndex < l_dfsAncestorIndex st required
         then st\<lparr>l_dfsAncestorIndex := (l_dfsAncestorIndex st)(required := ancestorIndex)\<rparr> else st)
      else st)"

fun innerModuleLinking ::
    "nat \<Rightarrow> host \<Rightarrow> (mid \<Rightarrow> bool) \<Rightarrow> mid \<Rightarrow> nat \<Rightarrow> linkState \<Rightarrow> ((linkError + nat) \<times> linkState) option"
  and linking_loop ::
    "nat \<Rightarrow> host \<Rightarrow> (mid \<Rightarrow> bool) \<Rightarrow> mid \<Rightarrow> string list \<Rightarrow> nat \<Rightarrow> linkState \<Rightarrow> ((linkError + nat) \<times> linkState) option" where
  "innerModuleLinking 0 H compiles m index st = None"
| "innerModuleLinking (Suc n) H compiles m index st =
     (if l_status st m = Linking \<or> l_status st m = Linked \<or> l_status st m = Evaluated then Some (Inr index, st)
      else if l_status st m \<noteq> Unlinked then Some (Inl BadStatus, st)
      else
        (case linking_loop n H compiles m (requestedModules (h_rec H m)) (Suc index) (enter_link m index st) of
           None \<Rightarrow> None
         | Some (Inl e, st1) \<Rightarrow> Some (Inl e, st1)
         | Some (Inr index1, st1) \<Rightarrow> Some (finish_link compiles m index1 st1)))"
| "linking_loop n H compiles m [] index st = Some (Inr index, st)"
| "linking_loop n H compiles m (required # rs) index st =
     (case h_resolve H m required of
        None \<Rightarrow> Some (Inl (UnresolvedImport m required), st)
      | Some requiredModule \<Rightarrow>
          (case innerModuleLinking n H compiles requiredModule index st of
             None \<Rightarrow> None
           | Some (Inl e, st1) \<Rightarrow> Some (Inl e, st1)
           | Some (Inr index1, st1) \<Rightarrow> linking_loop n H compiles m rs index1 (lower_ancestor m requiredModule st1)))"

text \<open>\<^verbatim>\<open>Link\<close>: the error, if any, and the environments initialised by then.\<close>

definition CyclicModuleRecordConcreteLink ::
    "nat \<Rightarrow> host \<Rightarrow> (mid \<Rightarrow> bool) \<Rightarrow> mid list \<Rightarrow> mid \<Rightarrow> (linkError option \<times> linkState) option" where
  "CyclicModuleRecordConcreteLink n H compiles initialised m =
     (case innerModuleLinking n H compiles m 0 (newLinkState initialised) of
        None \<Rightarrow> None
      | Some (Inl e, st) \<Rightarrow> Some (Some e, st)
      | Some (Inr _, st) \<Rightarrow> Some (None, st))"

subsection \<open>Linking is a depth-first search\<close>

definition requested :: "host \<Rightarrow> mid \<Rightarrow> mid list" where
  "requested H m = List.map_filter (h_resolve H m) (requestedModules (h_rec H m))"

definition resolvable :: "host \<Rightarrow> mid set \<Rightarrow> bool" where
  "resolvable H M \<longleftrightarrow> (\<forall>m \<in> M. \<forall>s \<in> set (requestedModules (h_rec H m)). \<exists>m' \<in> M. h_resolve H m s = Some m')"

text \<open>The state while the modules \<open>L\<close> have been left, in this order; no ancestor index ever differs from the index.\<close>

definition link_rel :: "mid list \<Rightarrow> nat \<Rightarrow> mid list \<Rightarrow> mid list \<Rightarrow> linkState \<Rightarrow> bool" where
  "link_rel I index stack L st \<longleftrightarrow>
     l_stack st = stack \<and> distinct stack \<and> set stack \<inter> set L = {} \<and>
     l_status st = (\<lambda>x. if x \<in> set stack then Linking else if x \<in> set L then Linked else Unlinked) \<and>
     l_initialised st = I @ filter (\<lambda>x. x \<notin> set I) L \<and> distinct L \<and>
     l_dfsAncestorIndex st = l_dfsIndex st \<and> sorted_wrt (\<lambda>x y. l_dfsIndex st y < l_dfsIndex st x) stack \<and> (\<forall>x \<in> set stack. l_dfsIndex st x < index)"

lemma lower_ancestor_same:
  assumes "link_rel I index (m # stack) L st"
  shows "lower_ancestor m r st = st"
  using assms unfolding link_rel_def lower_ancestor_def by (auto simp: Let_def)

lemma enter_link_rel:
  assumes "link_rel I index stack L st" "m \<notin> set stack" "m \<notin> set L"
  shows "link_rel I (Suc index) (m # stack) L (enter_link m index st)"
proof -
  have s: "sorted_wrt (\<lambda>x y. ((l_dfsIndex st)(m := index)) y < ((l_dfsIndex st)(m := index)) x) stack"
    using assms unfolding link_rel_def by (auto simp: sorted_wrt_iff_nth_less)
  show ?thesis
    using assms s unfolding link_rel_def enter_link_def by (auto simp: fun_eq_iff)
qed

lemma finish_link_rel:
  assumes "link_rel I index (m # stack) L st" "\<forall>x. compiles x"
  shows "\<exists>st'. finish_link compiles m index st = (Inr index, st') \<and> link_rel I index stack (L @ [m]) st'"
  using assms unfolding link_rel_def finish_link_def InitializeEnvironment_def by (auto simp: fun_eq_iff)

lemma linking_loop_refines:
  assumes IH: "\<And>r index L st L'. r \<in> M \<Longrightarrow> link_rel I index (m # stack) L st \<Longrightarrow> visit n G (set (m # stack)) r L = Some L' \<Longrightarrow>
      \<exists>index' st'. innerModuleLinking n H compiles r index st = Some (Inr index', st') \<and> link_rel I index' (m # stack) L' st'"
  shows "\<forall>s \<in> set rs. \<exists>m' \<in> M. h_resolve H m s = Some m' \<Longrightarrow> link_rel I index (m # stack) L st \<Longrightarrow>
    visits n G (set (m # stack)) (List.map_filter (h_resolve H m) rs) L = Some L' \<Longrightarrow>
    \<exists>index' st'. linking_loop n H compiles m rs index st = Some (Inr index', st') \<and> link_rel I index' (m # stack) L' st'"
proof (induction rs arbitrary: index L st)
  case (Cons s rs)
  obtain r where r: "h_resolve H m s = Some r" "r \<in> M" using Cons.prems(1) by auto
  obtain L1 where L1: "visit n G (set (m # stack)) r L = Some L1" "visits n G (set (m # stack)) (List.map_filter (h_resolve H m) rs) L1 = Some L'"
    using Cons.prems(3) r(1) by (auto simp: List.map_filter_def bind_eq_Some_conv)
  obtain index1 st1 where 1: "innerModuleLinking n H compiles r index st = Some (Inr index1, st1)" "link_rel I index1 (m # stack) L1 st1"
    using IH [OF r(2) Cons.prems(2) L1(1)] by blast
  show ?case
    using Cons.IH [OF _ 1(2) L1(2)] Cons.prems(1) r(1) 1(1) lower_ancestor_same [OF 1(2)] by simp
qed (simp add: List.map_filter_def)

lemma innerModuleLinking_refines:
  assumes "resolvable H M" "\<forall>x. compiles x"
  shows "m \<in> M \<Longrightarrow> link_rel I index stack L st \<Longrightarrow> visit n (requested H) (set stack) m L = Some L' \<Longrightarrow>
    \<exists>index' st'. innerModuleLinking n H compiles m index st = Some (Inr index', st') \<and> link_rel I index' stack L' st'"
proof (induction n arbitrary: m index stack L st L')
  case (Suc n)
  show ?case
  proof (cases "m \<in> set stack \<or> m \<in> set L")
    case True
    then show ?thesis using Suc.prems by (auto simp: link_rel_def)
  next
    case False
    then obtain L1 where L1: "visits n (requested H) (set (m # stack)) (requested H m) L = Some L1" "L' = L1 @ [m]"
      using Suc.prems(3) by auto
    have e: "link_rel I (Suc index) (m # stack) L (enter_link m index st)"
      using enter_link_rel [OF Suc.prems(2)] False by simp
    have res: "\<forall>s \<in> set (requestedModules (h_rec H m)). \<exists>m' \<in> M. h_resolve H m s = Some m'"
      using assms(1) Suc.prems(1) by (simp add: resolvable_def)
    have "\<exists>index1 st1. linking_loop n H compiles m (requestedModules (h_rec H m)) (Suc index) (enter_link m index st) =
        Some (Inr index1, st1) \<and> link_rel I index1 (m # stack) L1 st1"
    proof (rule linking_loop_refines [OF _ res e L1(1) [unfolded requested_def [of H m]]])
      show "\<exists>index' st'. innerModuleLinking n H compiles r index st = Some (Inr index', st') \<and> link_rel I index' (m # stack) L' st'"
        if "r \<in> M" "link_rel I index (m # stack) L st" "visit n (requested H) (set (m # stack)) r L = Some L'" for r index L st L'
        by (rule Suc.IH [OF that])
    qed
    then obtain index1 st1 where 1: "linking_loop n H compiles m (requestedModules (h_rec H m)) (Suc index) (enter_link m index st) = Some (Inr index1, st1)"
      "link_rel I index1 (m # stack) L1 st1" by blast
    have "l_status st m = Unlinked" using Suc.prems(2) False by (simp add: link_rel_def)
    then show ?thesis using 1(1) finish_link_rel [OF 1(2) assms(2)] L1(2) by auto
  qed
qed simp

text \<open>
  Visiting a module when the modules in \<open>L\<close> were left and no module is entered: what it reaches is added, each once, in
  dependency order.
\<close>

definition finished :: "(mid \<Rightarrow> mid list) \<Rightarrow> mid list \<Rightarrow> bool" where
  "finished G L \<longleftrightarrow> distinct L \<and> (\<forall>x \<in> set L. set (G x) \<subseteq> set L) \<and> dependency_ordered G 0 L"

lemma finished_Nil [simp]: "finished G []"
  by (simp add: finished_def dependency_ordered_def)

lemma finished_extends:
  assumes "extends G {} {m} L L'" "finished G L"
  shows "finished G L'"
proof -
  have c: "\<forall>x \<in> set L' - set L. \<forall>y \<in> set (G x). y \<in> {} \<or> y \<in> set L'"
    using assms(1) unfolding extends_def by (elim conjE)
  have sub: "set L \<subseteq> set L'" using assms(1) unfolding extends_def by auto
  have "set (G x) \<subseteq> set L'" if "x \<in> set L'" for x
    using c sub that assms(2) unfolding finished_def by (cases "x \<in> set L") auto
  moreover have "distinct L'" "dependency_ordered G 0 L'"
    using assms unfolding extends_def finished_def by blast+
  ultimately show ?thesis unfolding finished_def by blast
qed

lemma visited_set:
  assumes "extends G {} {m} L L'" "m \<in> set L'" "finished G L"
  shows "set L' = set L \<union> {x. (requires G)\<^sup>*\<^sup>* m x}"
proof -
  have "x \<in> set L'" if "(requires G)\<^sup>*\<^sup>* m x" for x
    using that by (induction rule: rtranclp_induct) (use assms(2) finished_extends [OF assms(1,3)] in \<open>auto simp: finished_def\<close>)
  moreover obtain N where "L' = L @ N" "\<forall>x \<in> set N. \<exists>r \<in> {m}. (requires G)\<^sup>*\<^sup>* r x"
    using assms(1) unfolding extends_def by blast
  ultimately show ?thesis by auto
qed

lemma visit_finished:
  assumes "finite M" "resolvable H M" "m \<in> M" "card M < n" "finished (requested H) L"
  shows "\<exists>N. visit n (requested H) {} m L = Some (L @ N) \<and> finished (requested H) (L @ N) \<and>
    set (L @ N) = set L \<union> {x. (requires (requested H))\<^sup>*\<^sup>* m x}"
proof -
  have "\<forall>x \<in> M. set (requested H x) \<subseteq> M"
    using assms(2) unfolding resolvable_def requested_def by (fastforce simp: List.map_filter_def)
  moreover have "card (M - ({} \<union> set L)) < n"
    using assms(1,4) by (meson Diff_subset card_mono le_less_trans)
  ultimately obtain L' where
    L': "visit n (requested H) {} m L = Some L'" "extends (requested H) {} {m} L L'" "m \<in> set L'"
    using visit_correct [OF assms(1) _ assms(3), of "requested H" "{}" L n] by auto
  then show ?thesis
    using finished_extends [OF L'(2) assms(5)] visited_set [OF L'(2,3) assms(5)] unfolding extends_def by blast
qed

text \<open>(C26) Linking a finite graph of modules returns. If every import resolves and every module compiles it succeeds: exactly the modules that the given one reaches end up linked, cycles included, the environment of each is initialised once over any number of calls, and a module after everything it requires, unless they require each other.\<close>

theorem linking_correct:
  assumes "finite M" "resolvable H M" "\<forall>x. compiles x" "m \<in> M" "card M < n"
  shows "\<exists>st L. CyclicModuleRecordConcreteLink n H compiles initialised m = Some (None, st) \<and>
    (\<forall>x. l_status st x = (if (requires (requested H))\<^sup>*\<^sup>* m x then Linked else Unlinked)) \<and> l_stack st = [] \<and>
    distinct L \<and> set L = {x. (requires (requested H))\<^sup>*\<^sup>* m x} \<and> dependency_ordered (requested H) 0 L \<and>
    l_initialised st = initialised @ filter (\<lambda>x. x \<notin> set initialised) L"
proof -
  obtain L where L: "visit n (requested H) {} m [] = Some L" "distinct L" "set L = {x. (requires (requested H))\<^sup>*\<^sup>* m x}"
    "dependency_ordered (requested H) 0 L"
    using visit_finished [OF assms(1,2,4,5) finished_Nil] by (auto simp: finished_def)
  have "link_rel initialised 0 [] [] (newLinkState initialised)" by (simp add: link_rel_def newLinkState_def)
  from innerModuleLinking_refines [OF assms(2,3,4) this, of n L] L(1) obtain i st where
    "innerModuleLinking n H compiles m 0 (newLinkState initialised) = Some (Inr i, st)" "link_rel initialised i [] L st" by auto
  then show ?thesis
    using L by (intro exI [of _ st] exI [of _ L]) (auto simp: CyclicModuleRecordConcreteLink_def link_rel_def)
qed

text \<open>A module that requires two others, which require each other.\<close>

definition request_record :: "bool \<Rightarrow> string list \<Rightarrow> SourceTextModuleRecord" where
  "request_record tla rs = \<lparr>hasTLA = tla, requestedModules = rs, importEntries = [], localExportEntries = [], indirectExportEntries = [],
     starExportEntries = []\<rparr>"

definition demo_name :: "string \<Rightarrow> mid option" where
  "demo_name s = (if s = ''a'' then Some 2 else if s = ''b'' then Some 3 else if s = ''main'' then Some 0 else None)"

definition cyclic_host :: host where
  "cyclic_host = \<lparr>
     h_rec = \<lambda>m. request_record False (if m = 0 then [''a'', ''b''] else if m = 2 then [''b''] else if m = 3 then [''a''] else []),
     h_resolve = \<lambda>m. demo_name\<rparr>"

lemma cyclic_host_ok: "resolvable cyclic_host {0, 2, 3}"
  by (simp add: resolvable_def cyclic_host_def request_record_def demo_name_def)

theorem linking_correct_witness:
  "\<exists>st. CyclicModuleRecordConcreteLink 4 cyclic_host (\<lambda>_. True) [] 0 = Some (None, st) \<and>
     l_status st 0 = Linked \<and> set (l_initialised st) = {x. (requires (requested cyclic_host))\<^sup>*\<^sup>* 0 x} \<and> distinct (l_initialised st)"
  using linking_correct [OF _ cyclic_host_ok, of "\<lambda>_. True" 0 4 "[]"] by auto

text \<open>
  An environment that fails to compile is not compiled again, and the error is reported the first time only: linking the
  module a second time succeeds, without a program.
\<close>

theorem second_link_hides_error:
  "map_option fst (CyclicModuleRecordConcreteLink 4 cyclic_host (\<lambda>m. m \<noteq> 0) [] 0) = Some (Some (CompileError 0)) \<and>
   map_option fst (CyclicModuleRecordConcreteLink 4 cyclic_host (\<lambda>m. m \<noteq> 0) [3, 2, 0] 0) = Some None \<and>
   map_option (l_initialised \<circ> snd) (CyclicModuleRecordConcreteLink 4 cyclic_host (\<lambda>m. m \<noteq> 0) [] 0) = Some [3, 2, 0]"
  by code_simp

section \<open>Evaluation\<close>

text \<open>
  What the run of a module does, for the one time it is run: its declarations may throw when it is instantiated, and a body
  without top-level await may throw. The host names the error of an import that it cannot resolve. The result of a body with top-level await is an event of its own.
\<close>

record modEnv =
  me_host :: host
  me_instantiate :: "mid \<Rightarrow> jserr option"
  me_execute :: "mid \<Rightarrow> jserr option"
  me_unresolved :: "mid \<Rightarrow> string \<Rightarrow> jserr"

datatype capability = CapPending | CapResolved | CapRejected jserr

text \<open>
  The evaluation state of the runtime, with the instantiated modules of \<^verbatim>\<open>r.modules\<close> and the bodies that were started, in order.
  A module that is absent from a map of the code has the zero value.
\<close>

record evaluationState =
  e_status :: "mid \<Rightarrow> CyclicModuleRecordStatus"
  e_dfsIndex :: "mid \<Rightarrow> nat"
  e_dfsAncestorIndex :: "mid \<Rightarrow> nat"
  e_pendingAsyncDependancies :: "mid \<Rightarrow> nat"
  e_cycleRoot :: "mid \<Rightarrow> mid option"
  e_asyncEvaluation :: "mid \<Rightarrow> nat"
  e_asyncParentModules :: "mid \<Rightarrow> mid list"
  e_evaluationError :: "mid \<Rightarrow> jserr option"
  e_topLevelCapability :: "mid \<Rightarrow> capability option"
  e_asyncEvaluationCounter :: nat
  e_modules :: "mid set"
  e_executed :: "mid list"

definition newEvaluationState :: evaluationState where
  "newEvaluationState = \<lparr>e_status = \<lambda>_. Unlinked, e_dfsIndex = \<lambda>_. 0, e_dfsAncestorIndex = \<lambda>_. 0, e_pendingAsyncDependancies = \<lambda>_. 0,
     e_cycleRoot = \<lambda>_. None, e_asyncEvaluation = \<lambda>_. 0, e_asyncParentModules = \<lambda>_. [], e_evaluationError = \<lambda>_. None,
     e_topLevelCapability = \<lambda>_. None, e_asyncEvaluationCounter = 0, e_modules = {}, e_executed = []\<rparr>"

text \<open>A capability that was settled stays as it is.\<close>

definition settle :: "mid \<Rightarrow> capability \<Rightarrow> evaluationState \<Rightarrow> evaluationState" where
  "settle m c st =
     (if e_topLevelCapability st m = Some CapPending
      then st\<lparr>e_topLevelCapability := (e_topLevelCapability st)(m \<mapsto> c)\<rparr> else st)"

definition start :: "mid \<Rightarrow> evaluationState \<Rightarrow> evaluationState" where
  "start m st = st\<lparr>e_executed := e_executed st @ [m]\<rparr>"

definition enter_evaluation :: "mid \<Rightarrow> nat \<Rightarrow> evaluationState \<Rightarrow> evaluationState" where
  "enter_evaluation c index st =
     st\<lparr>e_status := (e_status st)(c := Evaluating), e_dfsIndex := (e_dfsIndex st)(c := index),
        e_dfsAncestorIndex := (e_dfsAncestorIndex st)(c := index),
        e_pendingAsyncDependancies := (e_pendingAsyncDependancies st)(c := 0)\<rparr>"

text \<open>After a required module: the ancestor index, as in linking, and the registration with a module that is still asynchronous.\<close>

definition after_required :: "mid \<Rightarrow> mid \<Rightarrow> evaluationState \<Rightarrow> evaluationState" where
  "after_required c required st =
     (let evaluating = (e_status st required = Evaluating);
          st1 = (if evaluating \<and> e_dfsAncestorIndex st c < e_dfsAncestorIndex st required
                 then st\<lparr>e_dfsAncestorIndex := (e_dfsAncestorIndex st)(required := e_dfsAncestorIndex st c)\<rparr> else st)
      in case (if evaluating then Some required else e_cycleRoot st1 required) of
           None \<Rightarrow> st1
         | Some r \<Rightarrow>
             if e_asyncEvaluation st1 r \<noteq> 0 then
               st1\<lparr>e_pendingAsyncDependancies := (e_pendingAsyncDependancies st1)(c := Suc (e_pendingAsyncDependancies st1 c)),
                   e_asyncParentModules := (e_asyncParentModules st1)(r := e_asyncParentModules st1 r @ [c])\<rparr>
             else st1)"

fun pop_evaluated :: "mid \<Rightarrow> mid list \<Rightarrow> evaluationState \<Rightarrow> mid list \<times> evaluationState" where
  "pop_evaluated c [] st = ([], st)"
| "pop_evaluated c (r # stack) st =
     (let st1 = st\<lparr>e_status := (e_status st)(r := if e_asyncEvaluation st r = 0 then Evaluated else Evaluating_Async),
                   e_cycleRoot := (e_cycleRoot st)(r \<mapsto> c)\<rparr>
      in if r = c then (stack, st1) else pop_evaluated c stack st1)"

datatype evalOutcome = Evaluates nat | Fails jserr | TooDeep

text \<open>The body of a module whose dependencies were visited: deferred or started if it is asynchronous, run otherwise.\<close>

definition run_module :: "modEnv \<Rightarrow> mid \<Rightarrow> evaluationState \<Rightarrow> jserr option \<times> evaluationState" where
  "run_module E c st =
     (if 0 < e_pendingAsyncDependancies st c \<or> hasTLA (h_rec (me_host E) c) then
        (let st1 = st\<lparr>e_asyncEvaluationCounter := Suc (e_asyncEvaluationCounter st),
               e_asyncEvaluation := (e_asyncEvaluation st)(c := Suc (e_asyncEvaluationCounter st))\<rparr>
         in (None, if e_pendingAsyncDependancies st c = 0 then start c st1 else st1))
      else (me_execute E c, start c st))"

fun innerModuleEvaluation ::
    "nat \<Rightarrow> modEnv \<Rightarrow> mid \<Rightarrow> mid list \<Rightarrow> nat \<Rightarrow> evaluationState \<Rightarrow> (evalOutcome \<times> mid list \<times> evaluationState) option"
  and evaluation_loop ::
    "nat \<Rightarrow> modEnv \<Rightarrow> mid \<Rightarrow> string list \<Rightarrow> mid list \<Rightarrow> nat \<Rightarrow> evaluationState \<Rightarrow> (evalOutcome \<times> mid list \<times> evaluationState) option" where
  "innerModuleEvaluation 0 E m stack index st = None"
| "innerModuleEvaluation (Suc n) E m stack index st =
     (if 100000 < int (length stack) then Some (TooDeep, stack, st)
      else if m \<in> e_modules st then Some (Evaluates index, stack, st)
      else
        let st1 = st\<lparr>e_modules := insert m (e_modules st)\<rparr> in
        (case me_instantiate E m of
           Some e \<Rightarrow> Some (Fails e, stack, st1)
         | None \<Rightarrow>
             if e_status st1 m = Evaluated \<or> e_status st1 m = Evaluating \<or> e_status st1 m = Evaluating_Async
             then Some (Evaluates index, stack, st1)
             else
               (case evaluation_loop n E m (requestedModules (h_rec (me_host E) m)) (m # stack) (Suc index) (enter_evaluation m index st1) of
                  None \<Rightarrow> None
                | Some (Evaluates index1, stack1, st2) \<Rightarrow>
                    (case run_module E m st2 of
                       (Some e, st3) \<Rightarrow> Some (Fails e, stack1, st3)
                     | (None, st3) \<Rightarrow>
                         if e_dfsAncestorIndex st3 m = e_dfsIndex st3 m then
                           (case pop_evaluated m stack1 st3 of (stack2, st4) \<Rightarrow> Some (Evaluates index1, stack2, st4))
                         else Some (Evaluates index1, stack1, st3))
                | Some r \<Rightarrow> Some r)))"
| "evaluation_loop n E m [] stack index st = Some (Evaluates index, stack, st)"
| "evaluation_loop n E m (required # rs) stack index st =
     (case h_resolve (me_host E) m required of
        None \<Rightarrow> 
          Some (Fails (me_unresolved E m required), stack,
            st\<lparr>e_evaluationError := (e_evaluationError st)(m \<mapsto> me_unresolved E m required)\<rparr>)
      | Some requiredModule \<Rightarrow>
          (case innerModuleEvaluation n E requiredModule stack index st of
             None \<Rightarrow> None
           | Some (Evaluates index1, stack1, st1) \<Rightarrow>
               evaluation_loop n E m rs stack1 index1 (after_required m requiredModule st1)
           | Some r \<Rightarrow> Some r))"

text \<open>
  The promise of the module is made on the first call and returned again on later ones. A module that was instantiated before,
  as a dependency, is taken for evaluated.
\<close>

definition CyclicModuleRecordEvaluate :: "nat \<Rightarrow> modEnv \<Rightarrow> mid \<Rightarrow> evaluationState \<Rightarrow> (evaluationState option) option" where
  "CyclicModuleRecordEvaluate n E c st =
     (if e_topLevelCapability st c \<noteq> None then Some (Some st)
      else
        (case innerModuleEvaluation n E c [] 0 (st\<lparr>e_topLevelCapability := (e_topLevelCapability st)(c \<mapsto> CapPending)\<rparr>) of
           None \<Rightarrow> None
         | Some (TooDeep, stack, st1) \<Rightarrow> Some None
         | Some (Fails e, stack, st1) \<Rightarrow>
             Some (Some (settle c (CapRejected e)
               (st1\<lparr>e_status := (\<lambda>m. if m \<in> set stack then Evaluated else e_status st1 m),
                    e_evaluationError := (\<lambda>m. if m \<in> set stack then Some e else e_evaluationError st1 m)\<rparr>)))
         | Some (Evaluates _, stack, st1) \<Rightarrow>
             Some (Some (if e_asyncEvaluation st1 c = 0 then settle c CapResolved st1 else st1))))"

subsection \<open>Evaluation without top-level await\<close>

text \<open>The state while no module is asynchronous, the modules of the stack are entered and the bodies of \<open>L\<close> were run.\<close>

definition eval_rel :: "nat \<Rightarrow> mid list \<Rightarrow> mid list \<Rightarrow> evaluationState \<Rightarrow> bool" where
  "eval_rel index stack L st \<longleftrightarrow>
     distinct stack \<and> set stack \<inter> set L = {} \<and> distinct L \<and> e_modules st = set stack \<union> set L \<and> e_executed st = L \<and>
     (\<forall>x. e_asyncEvaluation st x = 0 \<and> e_pendingAsyncDependancies st x = 0) \<and>
     e_status st = (\<lambda>x. if x \<in> set stack then Evaluating else if x \<in> set L then Evaluated else Unlinked) \<and>
     e_dfsAncestorIndex st = e_dfsIndex st \<and> sorted_wrt (\<lambda>x y. e_dfsIndex st y < e_dfsIndex st x) stack \<and>
     (\<forall>x \<in> set stack. e_dfsIndex st x < index)"

lemma after_required_same:
  assumes "eval_rel index (m # stack) L st"
  shows "after_required m r st = st"
proof -
  have "\<not> (e_status st r = Evaluating \<and> e_dfsAncestorIndex st m < e_dfsAncestorIndex st r)"
    using assms unfolding eval_rel_def by (auto split: if_splits)
  then show ?thesis
    using assms unfolding eval_rel_def after_required_def by (simp add: Let_def split: option.split)
qed

lemma enter_evaluation_rel:
  assumes "eval_rel index stack L st" "m \<notin> set stack" "m \<notin> set L"
  shows "eval_rel (Suc index) (m # stack) L (enter_evaluation m index (st\<lparr>e_modules := insert m (e_modules st)\<rparr>))"
proof -
  have s: "sorted_wrt (\<lambda>x y. ((e_dfsIndex st)(m := index)) y < ((e_dfsIndex st)(m := index)) x) stack"
    using assms unfolding eval_rel_def by (auto simp: sorted_wrt_iff_nth_less)
  show ?thesis
    using assms s unfolding eval_rel_def enter_evaluation_def by (auto simp: fun_eq_iff)
qed

lemma leave_evaluation_rel:
  assumes "eval_rel index (m # stack) L st"
  shows "e_dfsAncestorIndex (start m st) m = e_dfsIndex (start m st) m"
    "\<exists>st'. pop_evaluated m (m # stack) (start m st) = (stack, st') \<and> eval_rel index stack (L @ [m]) st' \<and>
       e_topLevelCapability st' = e_topLevelCapability st"
  using assms unfolding eval_rel_def start_def by (auto simp: fun_eq_iff Let_def)

text \<open>The bodies that run: all up to the first that throws.\<close>

abbreviation good :: "modEnv \<Rightarrow> mid \<Rightarrow> bool" where
  "good E x \<equiv> me_execute E x = None"

definition until_error :: "modEnv \<Rightarrow> mid list \<Rightarrow> mid list" where
  "until_error E N = takeWhile (good E) N @ take 1 (dropWhile (good E) N)"

lemma until_error_append: "until_error E (A @ B) = (if list_all (good E) A then A @ until_error E B else until_error E A)"
  by (induction A) (auto simp: until_error_def)

lemma until_error_good: "list_all (good E) N \<Longrightarrow> until_error E N = N"
  using until_error_append [of E N "[]"] by (simp add: until_error_def)

definition first_error :: "modEnv \<Rightarrow> mid list \<Rightarrow> jserr option" where
  "first_error E N = Option.bind (find (\<lambda>x. \<not> good E x) N) (me_execute E)"

lemma first_error_append: "first_error E (A @ B) = (if list_all (good E) A then first_error E B else first_error E A)"
  by (induction A) (auto simp: first_error_def)

lemma first_error_good: "first_error E N = None \<longleftrightarrow> list_all (good E) N"
  by (induction N) (auto simp: first_error_def)

text \<open>The result of running the bodies of \<open>N\<close> after those of \<open>L\<close>.\<close>

definition ran ::
    "modEnv \<Rightarrow> mid list \<Rightarrow> mid list \<Rightarrow> mid list \<Rightarrow> (mid \<Rightarrow> capability option) \<Rightarrow> evalOutcome \<times> mid list \<times> evaluationState \<Rightarrow> bool" where
  "ran E stack L N cap r \<longleftrightarrow>
     (case r of (o', stack', st') \<Rightarrow>
        e_topLevelCapability st' = cap \<and>
        (case first_error E N of
           None \<Rightarrow> (\<exists>index. o' = Evaluates index \<and> stack' = stack \<and> eval_rel index stack (L @ N) st')
         | Some e \<Rightarrow> o' = Fails e \<and> e_executed st' = L @ until_error E N))"

lemma ran_append:
  "list_all (good E) A \<Longrightarrow> ran E stack (L @ A) B cap r \<Longrightarrow> ran E stack L (A @ B) cap r"
  by (cases "first_error E B") (auto simp: ran_def first_error_append until_error_append)

lemma visit_prefix: "visit n G S m L = Some L' \<Longrightarrow> \<exists>N. L' = L @ N"
  and visits_prefix: "visits n G S ms L = Some L' \<Longrightarrow> \<exists>N. L' = L @ N"
proof (induction n G S m L and n G S ms L arbitrary: L' and L' rule: visit_visits.induct)
  case (4 n G S m ms L)
  then show ?case by (fastforce simp: bind_eq_Some_conv)
qed (auto split: if_splits)

lemma evaluation_loop_refines:
  assumes IH: "\<And>r index L st N. r \<in> M \<Longrightarrow> eval_rel index (m # stack) L st \<Longrightarrow> visit n G (set (m # stack)) r L = Some (L @ N) \<Longrightarrow>
      \<exists>res. innerModuleEvaluation n E r (m # stack) index st = Some res \<and> ran E (m # stack) L N (e_topLevelCapability st) res"
  shows "\<forall>s \<in> set rs. \<exists>m' \<in> M. h_resolve (me_host E) m s = Some m' \<Longrightarrow> eval_rel index (m # stack) L st \<Longrightarrow>
    visits n G (set (m # stack)) (List.map_filter (h_resolve (me_host E) m) rs) L = Some (L @ N) \<Longrightarrow>
    \<exists>res. evaluation_loop n E m rs (m # stack) index st = Some res \<and> ran E (m # stack) L N (e_topLevelCapability st) res"
proof (induction rs arbitrary: index L st N)
  case Nil
  then show ?case by (simp add: List.map_filter_def ran_def first_error_def)
next
  case (Cons s rs)
  obtain r where r: "h_resolve (me_host E) m s = Some r" "r \<in> M" using Cons.prems(1) by auto
  obtain L1 where L1: "visit n G (set (m # stack)) r L = Some L1"
    "visits n G (set (m # stack)) (List.map_filter (h_resolve (me_host E) m) rs) L1 = Some (L @ N)"
    using Cons.prems(3) r(1) by (auto simp: List.map_filter_def bind_eq_Some_conv)
  obtain A B where AB: "L1 = L @ A" "L @ N = L1 @ B" using visit_prefix [OF L1(1)] visits_prefix [OF L1(2)] by blast
  then have N: "N = A @ B" by simp
  obtain o' stack' st' where 1: "innerModuleEvaluation n E r (m # stack) index st = Some (o', stack', st')"
    "ran E (m # stack) L A (e_topLevelCapability st) (o', stack', st')"
    using IH [OF r(2) Cons.prems(2), of A] L1(1) AB(1) by auto
  show ?case
  proof (cases "first_error E A")
    case None
    then obtain index1 where i: "o' = Evaluates index1" "stack' = m # stack" "eval_rel index1 (m # stack) (L @ A) st'"
      "e_topLevelCapability st' = e_topLevelCapability st"
      using 1(2) by (auto simp: ran_def)
    have g: "list_all (good E) A" using None by (simp add: first_error_good)
    have "\<forall>s \<in> set rs. \<exists>m' \<in> M. h_resolve (me_host E) m s = Some m'" using Cons.prems(1) by simp
    from Cons.IH [OF this i(3), of B] obtain res where
      res: "evaluation_loop n E m rs (m # stack) index1 st' = Some res" "ran E (m # stack) (L @ A) B (e_topLevelCapability st) res"
      using L1(2) AB N i(4) by auto
    have "evaluation_loop n E m (s # rs) (m # stack) index st = Some res"
      using 1(1) i(1,2) r(1) after_required_same [OF i(3)] res(1) by simp
    then show ?thesis using ran_append [OF g res(2)] N by blast
  next
    case (Some e)
    then have "\<not> list_all (good E) A" using first_error_good by force
    then show ?thesis
      using 1 r(1) Some N by (auto simp: ran_def first_error_append until_error_append)
  qed
qed

lemma innerModuleEvaluation_refines:
  assumes "resolvable (me_host E) M" "\<forall>x. me_instantiate E x = None" "\<forall>x. \<not> hasTLA (h_rec (me_host E) x)" "finite M" "card M \<le> 100000"
  shows "m \<in> M \<Longrightarrow> set stack \<subseteq> M \<Longrightarrow> eval_rel index stack L st \<Longrightarrow> visit n (requested (me_host E)) (set stack) m L = Some (L @ N) \<Longrightarrow>
    \<exists>res. innerModuleEvaluation n E m stack index st = Some res \<and> ran E stack L N (e_topLevelCapability st) res"
proof (induction n arbitrary: m index stack L st N)
  case (Suc n)
  have len: "\<not> 100000 < int (length stack)"
  proof -
    have "length stack \<le> card M"
      using Suc.prems(2,3) assms(4) unfolding eval_rel_def by (metis card_mono distinct_card)
    then show ?thesis using assms(5) by simp
  qed
  show ?case
  proof (cases "m \<in> set stack \<or> m \<in> set L")
    case True
    then show ?thesis using Suc.prems len by (auto simp: eval_rel_def ran_def first_error_def)
  next
    case False
    let ?st = "st\<lparr>e_modules := insert m (e_modules st)\<rparr>"
    obtain A where A: "visits n (requested (me_host E)) (set (m # stack)) (requested (me_host E) m) L = Some (L @ A)" "N = A @ [m]"
    proof -
      obtain L1 where L1: "visits n (requested (me_host E)) (set (m # stack)) (requested (me_host E) m) L = Some L1" "L @ N = L1 @ [m]"
        using Suc.prems(4) False by auto
      obtain A where "L1 = L @ A" using visits_prefix [OF L1(1)] by blast
      then show thesis using that [of A] L1 by simp
    qed
    have e: "eval_rel (Suc index) (m # stack) L (enter_evaluation m index ?st)"
      using enter_evaluation_rel [OF Suc.prems(3)] False by simp
    have res: "\<forall>s \<in> set (requestedModules (h_rec (me_host E) m)). \<exists>m' \<in> M. h_resolve (me_host E) m s = Some m'"
      using assms(1) Suc.prems(1) by (simp add: resolvable_def)
    have "\<exists>res. evaluation_loop n E m (requestedModules (h_rec (me_host E) m)) (m # stack) (Suc index) (enter_evaluation m index ?st) =
        Some res \<and> ran E (m # stack) L A (e_topLevelCapability (enter_evaluation m index ?st)) res"
    proof (rule evaluation_loop_refines [OF _ res e A(1) [unfolded requested_def [of "me_host E" m]]])
      show "\<exists>res. innerModuleEvaluation n E r (m # stack) index st = Some res \<and> ran E (m # stack) L N (e_topLevelCapability st) res"
        if "r \<in> M" "eval_rel index (m # stack) L st" "visit n (requested (me_host E)) (set (m # stack)) r L = Some (L @ N)" for r index L st N
        by (rule Suc.IH [OF that(1) _ that(2,3)]) (use Suc.prems(1,2) in auto)
    qed
    then obtain o' stack' st' where 1: "evaluation_loop n E m (requestedModules (h_rec (me_host E) m)) (m # stack) (Suc index)
        (enter_evaluation m index ?st) = Some (o', stack', st')" "ran E (m # stack) L A (e_topLevelCapability st) (o', stack', st')"
      by (auto simp: enter_evaluation_def)
    have fresh: "m \<notin> e_modules st" "e_status st m = Unlinked" using Suc.prems(3) False by (auto simp: eval_rel_def)
    show ?thesis
    proof (cases "first_error E A")
      case None
      then obtain index1 where i: "o' = Evaluates index1" "stack' = m # stack" "eval_rel index1 (m # stack) (L @ A) st'"
        "e_topLevelCapability st' = e_topLevelCapability st"
        using 1(2) by (auto simp: ran_def)
      have g: "list_all (good E) A" using None by (simp add: first_error_good)
      have run: "run_module E m st' = (me_execute E m, start m st')"
        using assms(3) i(3) by (simp add: run_module_def eval_rel_def)
      show ?thesis
      proof (cases "me_execute E m")
        case None
        obtain st2 where p: "pop_evaluated m (m # stack) (start m st') = (stack, st2)" "eval_rel index1 stack (L @ A @ [m]) st2"
          "e_topLevelCapability st2 = e_topLevelCapability st'"
          using leave_evaluation_rel(2) [OF i(3)] by auto
        have "innerModuleEvaluation (Suc n) E m stack index st = Some (Evaluates index1, stack, st2)"
          using 1(1) run None fresh len assms(2) i(1,2) leave_evaluation_rel(1) [OF i(3)] p(1) by (simp add: Let_def del: pop_evaluated.simps)
        moreover have "first_error E N = None" using g A(2) None by (simp add: first_error_good)
        ultimately show ?thesis using p(2,3) i(4) A(2) by (simp add: ran_def)
      next
        case (Some err)
        have "innerModuleEvaluation (Suc n) E m stack index st = Some (Fails err, m # stack, start m st')"
          using 1(1) run Some fresh len assms(2) i(1,2) by (simp add: Let_def)
        moreover have "first_error E N = Some err" "until_error E N = A @ [m]"
          using g A(2) Some by (simp_all add: first_error_append until_error_append) (simp_all add: first_error_def until_error_def)
        moreover have "e_executed st' = L @ A" using i(3) by (simp add: eval_rel_def)
        ultimately show ?thesis using i(4) by (simp add: ran_def start_def)
      qed
    next
      case (Some e)
      then have "\<not> list_all (good E) A" using first_error_good by force
      then show ?thesis
        using 1 Some A(2) fresh len assms(2) by (auto simp: Let_def ran_def first_error_append until_error_append)
    qed
  qed
qed simp

text \<open>
  (C25) Evaluation of a finite graph of at most 100000 modules without top-level await, whose specifiers all resolve and whose modules can all be
  instantiated, after any earlier evaluations that succeeded, returns. The bodies it runs are the ones that a depth-first search from the given
  module adds to those that ran before, in the order in which the search leaves them (\<open>visit\<close>): they are the modules that the given one reaches, each
  once and after everything it requires, unless they require each other. If one throws, no further body runs and the promise
  of the module is rejected with its error; otherwise it is resolved.
\<close>

theorem evaluation_correct:
  assumes "finite M" "card M \<le> 100000" "resolvable (me_host E) M" "\<forall>x. me_instantiate E x = None" "\<forall>x. \<not> hasTLA (h_rec (me_host E) x)"
    "m \<in> M" "card M < n" "eval_rel 0 [] L st" "finished (requested (me_host E)) L" "e_topLevelCapability st m = None"
  shows "\<exists>N st'. CyclicModuleRecordEvaluate n E m st = Some (Some st') \<and> visit n (requested (me_host E)) {} m L = Some (L @ N) \<and>
    finished (requested (me_host E)) (L @ N) \<and> set (L @ N) = set L \<union> {x. (requires (requested (me_host E)))\<^sup>*\<^sup>* m x} \<and>
    (case first_error E N of
       None \<Rightarrow> eval_rel 0 [] (L @ N) st' \<and> e_topLevelCapability st' m = Some CapResolved
     | Some e \<Rightarrow> e_executed st' = L @ until_error E N \<and> e_topLevelCapability st' m = Some (CapRejected e))"
proof -
  obtain N where N: "visit n (requested (me_host E)) {} m L = Some (L @ N)" "finished (requested (me_host E)) (L @ N)"
    "set (L @ N) = set L \<union> {x. (requires (requested (me_host E)))\<^sup>*\<^sup>* m x}"
    using visit_finished [OF assms(1,3,6,7,9)] by blast
  let ?st = "st\<lparr>e_topLevelCapability := (e_topLevelCapability st)(m \<mapsto> CapPending)\<rparr>"
  have "eval_rel 0 [] L ?st" using assms(8) by (simp add: eval_rel_def)
  from innerModuleEvaluation_refines [OF assms(3,4,5,1,2,6) _ this, of n N] N(1) obtain o' stack' st' where
    r: "innerModuleEvaluation n E m [] 0 ?st = Some (o', stack', st')" "ran E [] L N (e_topLevelCapability ?st) (o', stack', st')" by auto
  show ?thesis
  proof (cases "first_error E N")
    case None
    then show ?thesis using N r assms(10)
      by (intro exI [of _ N]) (auto simp: CyclicModuleRecordEvaluate_def ran_def eval_rel_def settle_def)
  next
    case (Some e)
    then show ?thesis using N r assms(10)
      by (intro exI [of _ N]) (auto simp: CyclicModuleRecordEvaluate_def ran_def settle_def)
  qed
qed

theorem evaluation_correct_witness:
  "\<exists>st. CyclicModuleRecordEvaluate 4 \<lparr>me_host = cyclic_host, me_instantiate = \<lambda>_. None, me_execute = \<lambda>_. None, me_unresolved = \<lambda>_ _. TypeErr\<rparr>
     0 newEvaluationState = Some (Some st) \<and> e_topLevelCapability st 0 = Some CapResolved \<and>
     e_executed st = [3, 2, 0]"
proof -
  let ?E = "\<lparr>me_host = cyclic_host, me_instantiate = \<lambda>_. None, me_execute = \<lambda>_. None, me_unresolved = \<lambda>_ _. TypeErr\<rparr>"
  have "eval_rel 0 [] [] newEvaluationState" "e_topLevelCapability newEvaluationState 0 = None"
    by (simp_all add: eval_rel_def newEvaluationState_def)
  moreover have "first_error ?E N = None" for N by (simp add: first_error_good list_all_iff)
  moreover have "\<forall>x. \<not> hasTLA (h_rec cyclic_host x)" by (simp add: cyclic_host_def request_record_def)
  moreover have "visit 4 (requested cyclic_host) {} 0 [] = Some [3, 2, 0]" by code_simp
  ultimately show ?thesis
    using evaluation_correct [of "{0, 2, 3}" ?E 0 4 "[]" newEvaluationState] cyclic_host_ok by (auto simp: eval_rel_def)
qed

section \<open>Completion of asynchronous modules\<close>

text \<open>
  The counter of pending dependencies is unsigned: one less than zero is the largest number of 64 bits. The bound on the depth
  is that of the recursion through parents.
\<close>

definition decrement :: "nat \<Rightarrow> nat" where
  "decrement n = (if n = 0 then 2 ^ 64 - 1 else n - 1)"

fun gatherAvailableAncestors :: "nat \<Rightarrow> modEnv \<Rightarrow> mid \<Rightarrow> mid list \<Rightarrow> evaluationState \<Rightarrow> (mid list \<times> evaluationState) option"
  and gather_loop :: "nat \<Rightarrow> modEnv \<Rightarrow> mid list \<Rightarrow> mid list \<Rightarrow> evaluationState \<Rightarrow> (mid list \<times> evaluationState) option" where
  "gatherAvailableAncestors 0 E c execList st = None"
| "gatherAvailableAncestors (Suc n) E c execList st = gather_loop n E (e_asyncParentModules st c) execList st"
| "gather_loop n E [] execList st = Some (execList, st)"
| "gather_loop n E (m # ms) execList st =
     (if m \<in> set execList \<or> e_evaluationError st m \<noteq> None then gather_loop n E ms execList st
      else
        let st1 = st\<lparr>e_pendingAsyncDependancies :=
               (e_pendingAsyncDependancies st)(m := decrement (e_pendingAsyncDependancies st m))\<rparr> in
        if e_pendingAsyncDependancies st1 m = 0 then
          (if hasTLA (h_rec (me_host E) m) then gather_loop n E ms (execList @ [m]) st1
           else Option.bind (gatherAvailableAncestors n E m (execList @ [m]) st1) (\<lambda>(l, st2). gather_loop n E ms l st2))
        else gather_loop n E ms execList st1)"

fun asyncModuleExecutionRejected :: "nat \<Rightarrow> mid \<Rightarrow> jserr \<Rightarrow> evaluationState \<Rightarrow> evaluationState option"
  and reject_loop :: "nat \<Rightarrow> mid list \<Rightarrow> jserr \<Rightarrow> evaluationState \<Rightarrow> evaluationState option" where
  "asyncModuleExecutionRejected 0 c ex st = None"
| "asyncModuleExecutionRejected (Suc n) c ex st =
     (if e_status st c = Evaluated then Some st
      else
        let st1 = settle c (CapRejected ex)
              (st\<lparr>e_evaluationError := (e_evaluationError st)(c \<mapsto> ex), e_status := (e_status st)(c := Evaluated)\<rparr>)
        in reject_loop n (e_asyncParentModules st1 c) ex st1)"
| "reject_loop n [] ex st = Some st"
| "reject_loop n (m # ms) ex st = Option.bind (asyncModuleExecutionRejected n m ex st) (reject_loop n ms ex)"

text \<open>\<^verbatim>\<open>executeAsyncModule\<close> starts the body; its outcome arrives as a later job.\<close>

fun exec_loop :: "nat \<Rightarrow> modEnv \<Rightarrow> mid list \<Rightarrow> evaluationState \<Rightarrow> evaluationState option" where
  "exec_loop n E [] st = Some st"
| "exec_loop n E (m # ms) st =
     (if e_status st m = Evaluated then exec_loop n E ms st
      else if hasTLA (h_rec (me_host E) m) then exec_loop n E ms (start m st)
      else
        (case me_execute E m of
           Some e \<Rightarrow> Option.bind (asyncModuleExecutionRejected n m e (start m st)) (exec_loop n E ms)
         | None \<Rightarrow>
             let st1 = start m st in
             exec_loop n E ms (settle m CapResolved (st1\<lparr>e_status := (e_status st1)(m := Evaluated)\<rparr>))))"

definition asyncModuleExecutionFulfilled :: "nat \<Rightarrow> modEnv \<Rightarrow> mid \<Rightarrow> evaluationState \<Rightarrow> evaluationState option" where
  "asyncModuleExecutionFulfilled n E c st =
     (if e_status st c = Evaluated then Some st
      else
        let st1 = settle c CapResolved (st\<lparr>e_asyncEvaluation := (e_asyncEvaluation st)(c := 0)\<rparr>) in
        Option.bind (gatherAvailableAncestors n E c [] st1) (\<lambda>(execList, st2).
          exec_loop n E (sort_key (e_asyncEvaluation st2) execList) st2))"

section \<open>Modules that have failed or were completed\<close>

text \<open>
  Three modules: the first requires the second and has no top-level await; the second has; the third requires the first.
\<close>

definition async_host :: host where
  "async_host = \<lparr>
     h_rec = \<lambda>m. request_record (m = 2) (if m = 0 then [''a''] else if m = 3 then [''main''] else []),
     h_resolve = \<lambda>m. demo_name\<rparr>"

definition async_env :: modEnv where
  "async_env = \<lparr>me_host = async_host, me_instantiate = \<lambda>_. None, me_execute = \<lambda>_. None, me_unresolved = \<lambda>_ _. TypeErr\<rparr>"

definition then_run :: "evaluationState option \<Rightarrow> (evaluationState \<Rightarrow> evaluationState option) \<Rightarrow> evaluationState option" where
  "then_run = Option.bind"

definition evaluate :: "modEnv \<Rightarrow> mid \<Rightarrow> evaluationState \<Rightarrow> evaluationState option" where
  "evaluate E m st = (case CyclicModuleRecordEvaluate 9 E m st of Some (Some st') \<Rightarrow> Some st' | _ \<Rightarrow> None)"

text \<open>
  The first module is evaluated and run after the second was fulfilled, and its promise is resolved. The third, imported after
  that, registers with the first as if it were still pending: it never runs and its promise stays pending, although nothing is
  left to wait for.
\<close>

theorem import_of_completed_module_hangs:
  "\<exists>st. then_run (then_run (evaluate async_env 0 newEvaluationState) (asyncModuleExecutionFulfilled 9 async_env 2))
       (evaluate async_env 3) = Some st \<and>
     e_executed st = [2, 0] \<and> e_topLevelCapability st 0 = Some CapResolved \<and> e_topLevelCapability st 3 = Some CapPending \<and>
     e_pendingAsyncDependancies st 3 = 1 \<and> e_status st 0 = Evaluated"
proof -
  let ?r = "then_run (then_run (evaluate async_env 0 newEvaluationState) (asyncModuleExecutionFulfilled 9 async_env 2)) (evaluate async_env 3)"
  have "?r \<noteq> None" "e_executed (the ?r) = [2, 0]" "e_topLevelCapability (the ?r) 0 = Some CapResolved"
    "e_topLevelCapability (the ?r) 3 = Some CapPending" "e_pendingAsyncDependancies (the ?r) 3 = 1" "e_status (the ?r) 0 = Evaluated"
    by code_simp+
  then show ?thesis by (intro exI [of _ "the ?r"]) (simp add: option.collapse)
qed

text \<open>
  A module whose dependency throws is rejected; but evaluating the dependency itself afterwards, or another module that
  requires it, succeeds.
\<close>

definition failing_env :: modEnv where
  "failing_env = \<lparr>me_host = async_host\<lparr>h_rec := \<lambda>m. request_record False (if m = 0 then [''a''] else if m = 3 then [''a''] else [])\<rparr>,
     me_instantiate = \<lambda>_. None, me_execute = \<lambda>m. if m = 2 then Some TypeErr else None, me_unresolved = \<lambda>_ _. TypeErr\<rparr>"

theorem failed_dependency_forgotten:
  "\<exists>st. then_run (then_run (evaluate failing_env 0 newEvaluationState) (evaluate failing_env 2)) (evaluate failing_env 3) = Some st \<and>
     e_topLevelCapability st 0 = Some (CapRejected TypeErr) \<and> e_topLevelCapability st 2 = Some CapResolved \<and>
     e_topLevelCapability st 3 = Some CapResolved \<and> e_executed st = [2, 3]"
proof -
  let ?r = "then_run (then_run (evaluate failing_env 0 newEvaluationState) (evaluate failing_env 2)) (evaluate failing_env 3)"
  have "?r \<noteq> None" "e_executed (the ?r) = [2, 3]" "e_topLevelCapability (the ?r) 0 = Some (CapRejected TypeErr)"
    "e_topLevelCapability (the ?r) 2 = Some CapResolved" "e_topLevelCapability (the ?r) 3 = Some CapResolved"
    by code_simp+
  then show ?thesis by (intro exI [of _ "the ?r"]) (simp add: option.collapse)
qed

section \<open>Every body runs once\<close>

text \<open>How many registrations of a module with modules outside \<open>D\<close> there are.\<close>

definition waiting :: "mid set \<Rightarrow> evaluationState \<Rightarrow> mid \<Rightarrow> nat" where
  "waiting D st m = (\<Sum>c \<in> e_modules st - D. count_list (e_asyncParentModules st c) m)"

text \<open>
  The invariant. \<open>D\<close> are the modules whose parents were told, \<open>F\<close> those with top-level await that were fulfilled, and \<open>rest\<close>
  counts registrations that are about to be worked off. The counter of a module is at least the number of registrations that
  are still open, so it never falls below zero; a module with a positive counter has not run, and one that has run waits for
  nothing.
\<close>

definition pending_ok :: "modEnv \<Rightarrow> mid set \<Rightarrow> mid set \<Rightarrow> (mid \<Rightarrow> nat) \<Rightarrow> evaluationState \<Rightarrow> bool" where
  "pending_ok E F D rest st \<longleftrightarrow>
     finite (e_modules st) \<and> D \<subseteq> e_modules st \<and>
     distinct (e_executed st) \<and> set (e_executed st) \<subseteq> e_modules st \<and>
     (\<forall>c. set (e_asyncParentModules st c) \<subseteq> e_modules st \<and> (c \<notin> e_modules st \<longrightarrow> e_asyncParentModules st c = [])) \<and>
     (\<forall>c. e_asyncEvaluation st c \<noteq> 0 \<or> e_evaluationError st c \<noteq> None \<longrightarrow> c \<in> e_modules st) \<and>
     (\<forall>m. e_evaluationError st m = None \<longrightarrow> waiting D st m + rest m \<le> e_pendingAsyncDependancies st m) \<and>
     (\<forall>m. 0 < e_pendingAsyncDependancies st m \<longrightarrow> m \<in> e_modules st \<and> m \<notin> set (e_executed st)) \<and>
     (\<forall>m \<in> set (e_executed st). waiting D st m = 0) \<and>
     (\<forall>c \<in> D. if hasTLA (h_rec (me_host E) c) then c \<in> F else e_pendingAsyncDependancies st c = 0)"

lemma pending_okD:
  assumes "pending_ok E F D rest st"
  shows "finite (e_modules st)" "D \<subseteq> e_modules st" "distinct (e_executed st)" "set (e_executed st) \<subseteq> e_modules st"
    "set (e_asyncParentModules st c) \<subseteq> e_modules st" "e_asyncEvaluation st c \<noteq> 0 \<Longrightarrow> c \<in> e_modules st"
    "e_evaluationError st c \<noteq> None \<Longrightarrow> c \<in> e_modules st"
    "e_evaluationError st m = None \<Longrightarrow> waiting D st m + rest m \<le> e_pendingAsyncDependancies st m"
    "0 < e_pendingAsyncDependancies st m \<Longrightarrow> m \<in> e_modules st \<and> m \<notin> set (e_executed st)"
    "m \<in> set (e_executed st) \<Longrightarrow> waiting D st m = 0"
    "c \<in> D \<Longrightarrow> if hasTLA (h_rec (me_host E) c) then c \<in> F else e_pendingAsyncDependancies st c = 0"
    "c \<notin> e_modules st \<Longrightarrow> e_asyncParentModules st c = []"
  using assms unfolding pending_ok_def by blast+

text \<open>Only these parts of the state matter, and an error may be recorded at any time.\<close>

lemma pending_ok_frame:
  assumes "pending_ok E F D rest st" "e_modules st' = e_modules st" "e_executed st' = e_executed st"
    "e_asyncParentModules st' = e_asyncParentModules st" "e_pendingAsyncDependancies st' = e_pendingAsyncDependancies st"
    "\<forall>c. e_asyncEvaluation st' c \<noteq> 0 \<longrightarrow> c \<in> e_modules st"
    "\<forall>c. e_evaluationError st c \<noteq> None \<longrightarrow> e_evaluationError st' c \<noteq> None" "\<forall>c. e_evaluationError st' c \<noteq> None \<longrightarrow> c \<in> e_modules st"
  shows "pending_ok E F D rest st'"
proof -
  have w: "waiting D st' = waiting D st" using assms(2,4) by (simp add: waiting_def fun_eq_iff)
  show ?thesis
    using assms(1,6,7,8) unfolding pending_ok_def w assms(2,3,4,5) by blast
qed

lemma waiting_none: "pending_ok E F D rest st \<Longrightarrow> m \<notin> e_modules st \<Longrightarrow> waiting D st m = 0"
proof -
  assume J: "pending_ok E F D rest st" "m \<notin> e_modules st"
  have "count_list (e_asyncParentModules st c) m = 0" for c
    using pending_okD(5) [OF J(1), of c] J(2) by (auto simp: count_list_0_iff)
  then show ?thesis by (simp add: waiting_def)
qed

lemma waiting_register:
  assumes "finite (e_modules st)" "r \<in> e_modules st"
  shows "waiting D (st\<lparr>e_pendingAsyncDependancies := p, e_asyncParentModules := (e_asyncParentModules st)(r := e_asyncParentModules st r @ [c])\<rparr>) m =
    waiting D st m + (if m = c \<and> r \<notin> D then 1 else 0)"
proof (cases "r \<in> D")
  case True
  then show ?thesis by (auto simp: waiting_def intro!: sum.cong)
next
  case False
  then have "r \<in> e_modules st - D" using assms(2) by simp
  then show ?thesis
    using False assms(1) by (auto simp: waiting_def sum.remove [of _ r] intro!: sum.cong)
qed

lemma register_ok:
  assumes J: "pending_ok E F D rest st" and c: "c \<in> e_modules st" "c \<notin> set (e_executed st)" "c \<notin> D"
  shows "pending_ok E F D rest (after_required c r st)"
proof -
  define st1 where "st1 = (if e_status st r = Evaluating \<and> e_dfsAncestorIndex st c < e_dfsAncestorIndex st r
                 then st\<lparr>e_dfsAncestorIndex := (e_dfsAncestorIndex st)(r := e_dfsAncestorIndex st c)\<rparr> else st)"
  have J1: "pending_ok E F D rest st1"
    unfolding st1_def by (auto intro!: pending_ok_frame [OF J] simp: pending_okD(6,7) [OF J])
  have c1: "c \<in> e_modules st1" "c \<notin> set (e_executed st1)" using c by (auto simp: st1_def)
  have reg: "pending_ok E F D rest (st1\<lparr>e_pendingAsyncDependancies := (e_pendingAsyncDependancies st1)(c := Suc (e_pendingAsyncDependancies st1 c)),
       e_asyncParentModules := (e_asyncParentModules st1)(q := e_asyncParentModules st1 q @ [c])\<rparr>)"
    if q: "e_asyncEvaluation st1 q \<noteq> 0" for q
  proof -
    note w = waiting_register [OF pending_okD(1) [OF J1] pending_okD(6) [OF J1 q], where c = c]
    show ?thesis
      using J1 c1 c(3) pending_okD(6) [OF J1 q] unfolding pending_ok_def w by (auto intro: le_SucI)
  qed
  show ?thesis
    unfolding after_required_def Let_def st1_def [symmetric] using J1 reg by (auto split: option.splits)
qed

lemma enter_ok:
  assumes J: "pending_ok E F D (\<lambda>_. 0) st" and m: "m \<notin> e_modules st"
  shows "pending_ok E F D (\<lambda>_. 0) (enter_evaluation m index (st\<lparr>e_modules := insert m (e_modules st)\<rparr>))"
proof -
  have "insert m (e_modules st) - D = insert m (e_modules st - D)" using pending_okD(2) [OF J] m by auto
  then have w: "waiting D (enter_evaluation m index (st\<lparr>e_modules := insert m (e_modules st)\<rparr>)) x = waiting D st x" for x
    using pending_okD(1) [OF J] m pending_okD(12) [OF J m] by (simp add: waiting_def enter_evaluation_def)
  show ?thesis
    using J m waiting_none [OF J m] unfolding pending_ok_def w by (auto simp: enter_evaluation_def)
qed

lemma instantiate_ok:
  assumes J: "pending_ok E F D (\<lambda>_. 0) st"
  shows "pending_ok E F D (\<lambda>_. 0) (st\<lparr>e_modules := insert m (e_modules st)\<rparr>)"
proof (cases "m \<in> e_modules st")
  case True
  then show ?thesis using J by (simp add: insert_absorb)
next
  case m: False
  have "insert m (e_modules st) - D = insert m (e_modules st - D)" using pending_okD(2) [OF J] m by auto
  then have w: "waiting D (st\<lparr>e_modules := insert m (e_modules st)\<rparr>) x = waiting D st x" for x
    using pending_okD(1) [OF J] m pending_okD(12) [OF J m] by (simp add: waiting_def)
  show ?thesis
    using J unfolding pending_ok_def w by auto
qed

lemma start_ok:
  assumes J: "pending_ok E F D rest st" and c: "c \<in> e_modules st" "c \<notin> set (e_executed st)" "e_pendingAsyncDependancies st c = 0" "waiting D st c = 0"
  shows "pending_ok E F D rest (start c st)"
proof -
  have w: "waiting D (start c st) = waiting D st" by (simp add: waiting_def start_def fun_eq_iff)
  show ?thesis using J c unfolding pending_ok_def w by (auto simp: start_def)
qed

lemma run_module_ok:
  assumes J: "pending_ok E F D (\<lambda>_. 0) st" and c: "c \<in> e_modules st" "c \<notin> set (e_executed st)" "e_evaluationError st c = None"
    and r: "run_module E c st = (r, st')"
  shows "pending_ok E F D (\<lambda>_. 0) st'" "e_modules st' = e_modules st" "e_evaluationError st' = e_evaluationError st"
    "e_executed st' = e_executed st \<or> e_executed st' = e_executed st @ [c]"
proof -
  let ?st1 = "st\<lparr>e_asyncEvaluationCounter := Suc (e_asyncEvaluationCounter st),
               e_asyncEvaluation := (e_asyncEvaluation st)(c := Suc (e_asyncEvaluationCounter st))\<rparr>"
  have J1: "pending_ok E F D (\<lambda>_. 0) ?st1"
    by (rule pending_ok_frame [OF J]) (use c(1) pending_okD(6,7) [OF J] in auto)
  have w: "waiting D st c = 0" "waiting D ?st1 c = 0" if "e_pendingAsyncDependancies st c = 0"
    using pending_okD(8) [OF J c(3)] that by (simp_all add: waiting_def)
  show "pending_ok E F D (\<lambda>_. 0) st'"
    using r J J1 start_ok [OF J c(1,2)] start_ok [OF J1, of c] c w by (auto simp: run_module_def Let_def split: if_splits)
  show "e_modules st' = e_modules st" "e_evaluationError st' = e_evaluationError st"
    "e_executed st' = e_executed st \<or> e_executed st' = e_executed st @ [c]"
    using r by (auto simp: run_module_def Let_def start_def split: if_splits)
qed

lemma pop_evaluated_frame:
  "pop_evaluated c stack st = (stack', st') \<Longrightarrow>
   e_modules st' = e_modules st \<and> e_executed st' = e_executed st \<and> e_asyncParentModules st' = e_asyncParentModules st \<and>
   e_pendingAsyncDependancies st' = e_pendingAsyncDependancies st \<and> e_asyncEvaluation st' = e_asyncEvaluation st \<and>
   e_evaluationError st' = e_evaluationError st"
  by (induction c stack st rule: pop_evaluated.induct) (auto simp: Let_def split: if_splits)

text \<open>What an evaluation may do: instantiate modules and run bodies of those only.\<close>

definition runs_new :: "evaluationState \<Rightarrow> evaluationState \<Rightarrow> bool" where
  "runs_new st st' \<longleftrightarrow>
     e_modules st \<subseteq> e_modules st' \<and> (\<exists>X. e_executed st' = e_executed st @ X \<and> set X \<inter> e_modules st = {})"

lemma runs_new_refl: "e_modules st' = e_modules st \<Longrightarrow> e_executed st' = e_executed st \<Longrightarrow> runs_new st st'"
  by (simp add: runs_new_def)

lemma runs_new_trans: "runs_new st st1 \<Longrightarrow> runs_new st1 st2 \<Longrightarrow> runs_new st st2"
  unfolding runs_new_def by fastforce

lemma runs_new_old: "runs_new st st' \<Longrightarrow> m \<in> e_modules st \<Longrightarrow> m \<notin> set (e_executed st) \<Longrightarrow> m \<in> e_modules st' \<and> m \<notin> set (e_executed st')"
  unfolding runs_new_def by auto

definition evaluation_ok ::
    "modEnv \<Rightarrow> mid set \<Rightarrow> mid set \<Rightarrow> evaluationState \<Rightarrow> evalOutcome \<times> mid list \<times> evaluationState \<Rightarrow> bool" where
  "evaluation_ok E F D st r \<longleftrightarrow>
     (case r of (o', stack', st') \<Rightarrow>
        pending_ok E F D (\<lambda>_. 0) st' \<and> runs_new st st' \<and>
        (\<forall>index. o' = Evaluates index \<longrightarrow> e_evaluationError st' = e_evaluationError st))"

lemma after_required_frame:
  "e_modules (after_required c r st) = e_modules st" "e_executed (after_required c r st) = e_executed st"
  "e_evaluationError (after_required c r st) = e_evaluationError st"
  by (auto simp: after_required_def Let_def split: option.splits)

lemma evaluation_loop_ok:
  assumes IH: "\<And>r stack index st res. pending_ok E F D (\<lambda>_. 0) st \<Longrightarrow> innerModuleEvaluation n E r stack index st = Some res \<Longrightarrow>
      evaluation_ok E F D st res"
  shows "pending_ok E F D (\<lambda>_. 0) st \<Longrightarrow> m \<in> e_modules st \<Longrightarrow> m \<notin> set (e_executed st) \<Longrightarrow> m \<notin> D \<Longrightarrow>
    evaluation_loop n E m rs stack index st = Some res \<Longrightarrow> evaluation_ok E F D st res"
proof (induction rs arbitrary: stack index st)
  case Nil
  then show ?case by (auto simp: evaluation_ok_def runs_new_refl)
next
  case (Cons s rs)
  show ?case
  proof (cases "h_resolve (me_host E) m s")
    case None
    let ?st = "st\<lparr>e_evaluationError := (e_evaluationError st)(m \<mapsto> me_unresolved E m s)\<rparr>"
    have "pending_ok E F D (\<lambda>_. 0) ?st"
      by (rule pending_ok_frame [OF Cons.prems(1)]) (use Cons.prems(2) pending_okD(6,7) [OF Cons.prems(1)] in auto)
    then show ?thesis using None Cons.prems(5) by (auto simp: evaluation_ok_def runs_new_def)
  next
    case (Some r)
    obtain o1 stack1 st1 where 1: "innerModuleEvaluation n E r stack index st = Some (o1, stack1, st1)"
      using Some Cons.prems(5) by (auto split: option.splits)
    have ok: "evaluation_ok E F D st (o1, stack1, st1)" using IH [OF Cons.prems(1) 1] .
    show ?thesis
    proof (cases o1)
      case (Evaluates index1)
      have st1: "pending_ok E F D (\<lambda>_. 0) st1" "runs_new st st1" "e_evaluationError st1 = e_evaluationError st"
        using ok Evaluates by (auto simp: evaluation_ok_def)
      have m: "m \<in> e_modules st1" "m \<notin> set (e_executed st1)" using runs_new_old [OF st1(2) Cons.prems(2,3)] by auto
      have "evaluation_ok E F D (after_required m r st1) res"
      proof (rule Cons.IH)
        show "pending_ok E F D (\<lambda>_. 0) (after_required m r st1)" by (rule register_ok [OF st1(1) m Cons.prems(4)])
        show "evaluation_loop n E m rs stack1 index1 (after_required m r st1) = Some res"
          using Cons.prems(5) Some 1 Evaluates by simp
      qed (use m Cons.prems(4) after_required_frame in auto)
      then show ?thesis
        using st1(3) runs_new_trans [OF st1(2)] unfolding evaluation_ok_def runs_new_def
        by (auto simp: after_required_frame)
    qed (use Cons.prems(5) Some 1 ok in \<open>auto simp: evaluation_ok_def\<close>)
  qed
qed

lemma leave_ok:
  assumes st: "pending_ok E F D (\<lambda>_. 0) st" "m \<in> e_modules st" "m \<notin> set (e_executed st)" "e_evaluationError st m = None"
    and r: "(case run_module E m st of
               (Some e, st3) \<Rightarrow> Some (Fails e, stack1, st3)
             | (None, st3) \<Rightarrow>
                 if e_dfsAncestorIndex st3 m = e_dfsIndex st3 m then
                   (case pop_evaluated m stack1 st3 of (stack2, st4) \<Rightarrow> Some (Evaluates index1, stack2, st4))
                 else Some (Evaluates index1, stack1, st3)) = Some (o', stack', st')"
  shows "pending_ok E F D (\<lambda>_. 0) st' \<and> e_modules st' = e_modules st \<and> e_evaluationError st' = e_evaluationError st \<and>
    (e_executed st' = e_executed st \<or> e_executed st' = e_executed st @ [m])"
proof -
  obtain e st3 where run: "run_module E m st = (e, st3)" by (cases "run_module E m st")
  note R = run_module_ok [OF st run]
  show ?thesis
  proof (cases "e = None \<and> e_dfsAncestorIndex st3 m = e_dfsIndex st3 m")
    case True
    then have p: "pop_evaluated m stack1 st3 = (stack', st')" using r run by (auto split: prod.splits)
    have "pending_ok E F D (\<lambda>_. 0) st'"
      by (rule pending_ok_frame [OF R(1)]) (use pop_evaluated_frame [OF p] pending_okD(6,7) [OF R(1)] in auto)
    then show ?thesis using R(2,3,4) pop_evaluated_frame [OF p] by simp
  next
    case False
    then show ?thesis using R r run by (auto split: option.splits if_splits)
  qed
qed

lemma innerModuleEvaluation_ok:
  "pending_ok E F D (\<lambda>_. 0) st \<Longrightarrow> innerModuleEvaluation n E m stack index st = Some res \<Longrightarrow> evaluation_ok E F D st res"
proof (induction n arbitrary: m stack index st res)
  case (Suc n)
  let ?st = "st\<lparr>e_modules := insert m (e_modules st)\<rparr>"
  have inst: "evaluation_ok E F D st (o', stack', ?st)" for o' stack'
    using instantiate_ok [OF Suc.prems(1)] by (auto simp: evaluation_ok_def runs_new_def)
  have triv: "evaluation_ok E F D st (o', stack', st)" for o' stack'
    using Suc.prems(1) by (auto simp: evaluation_ok_def runs_new_refl)
  show ?case
  proof (cases "100000 < int (length stack) \<or> m \<in> e_modules st \<or> me_instantiate E m \<noteq> None \<or>
      e_status st m = Evaluated \<or> e_status st m = Evaluating \<or> e_status st m = Evaluating_Async")
    case True
    then show ?thesis using Suc.prems(2) inst triv by (auto simp: Let_def split: if_splits option.splits)
  next
    case False
    let ?loop = "evaluation_loop n E m (requestedModules (h_rec (me_host E) m)) (m # stack) (Suc index) (enter_evaluation m index ?st)"
    have m: "m \<notin> e_modules st" using False by simp
    obtain o1 stack1 st1 where 1: "?loop = Some (o1, stack1, st1)"
      using Suc.prems(2) False by (auto simp: Let_def split: option.splits)
    have ent: "pending_ok E F D (\<lambda>_. 0) (enter_evaluation m index ?st)" by (rule enter_ok [OF Suc.prems(1) m])
    have m': "m \<notin> set (e_executed st)" "m \<notin> D" "e_evaluationError st m = None"
      using pending_okD(2,4) [OF Suc.prems(1)] pending_okD(7) [OF Suc.prems(1), of m] m by blast+
    have ok: "evaluation_ok E F D (enter_evaluation m index ?st) (o1, stack1, st1)"
      by (rule evaluation_loop_ok [OF Suc.IH ent _ _ m'(2) 1]) (use m' in \<open>auto simp: enter_evaluation_def\<close>)
    have run: "runs_new ?st st1" using ok by (auto simp: evaluation_ok_def runs_new_def enter_evaluation_def)
    then have new: "runs_new st st1" by (auto simp: runs_new_def)
    show ?thesis
    proof (cases o1)
      case (Evaluates index1)
      have st1: "pending_ok E F D (\<lambda>_. 0) st1" "m \<in> e_modules st1" "m \<notin> set (e_executed st1)" "e_evaluationError st1 = e_evaluationError st"
        using ok Evaluates runs_new_old [OF run, of m] m'(1) by (auto simp: evaluation_ok_def enter_evaluation_def)
      obtain o' stack' st' where res: "res = (o', stack', st')" by (cases res)
      have "pending_ok E F D (\<lambda>_. 0) st' \<and> e_modules st' = e_modules st1 \<and> e_evaluationError st' = e_evaluationError st1 \<and>
          (e_executed st' = e_executed st1 \<or> e_executed st' = e_executed st1 @ [m])"
        by (rule leave_ok [OF st1(1,2,3)]) (use Suc.prems(2) False 1 Evaluates st1(4) m'(3) res in \<open>simp_all add: Let_def\<close>)
      then show ?thesis using new st1(4) m unfolding res evaluation_ok_def runs_new_def by auto
    qed (use Suc.prems(2) False 1 ok new in \<open>auto simp: Let_def evaluation_ok_def\<close>)
  qed
qed simp

subsection \<open>Telling the parents\<close>

lemma waiting_insert:
  assumes "finite (e_modules st)" "c \<in> e_modules st" "c \<notin> D"
  shows "waiting D st m = waiting (insert c D) st m + count_list (e_asyncParentModules st c) m"
proof -
  have "e_modules st - insert c D = e_modules st - D - {c}" by blast
  then show ?thesis
    using sum.remove [of "e_modules st - D" c "\<lambda>c. count_list (e_asyncParentModules st c) m"] assms by (simp add: waiting_def)
qed

lemma tell_ok:
  assumes J: "pending_ok E F D rest st" and c: "c \<in> e_modules st" "c \<notin> D"
    "if hasTLA (h_rec (me_host E) c) then c \<in> F else e_pendingAsyncDependancies st c = 0"
  shows "pending_ok E F (insert c D) (\<lambda>x. rest x + count_list (e_asyncParentModules st c) x) st"
proof -
  note w = waiting_insert [OF pending_okD(1) [OF J] c(1,2)]
  have "e_evaluationError st m = None \<Longrightarrow>
      waiting (insert c D) st m + (rest m + count_list (e_asyncParentModules st c) m) \<le> e_pendingAsyncDependancies st m"
    "m \<in> set (e_executed st) \<Longrightarrow> waiting (insert c D) st m = 0" for m
    using pending_okD(8,10) [OF J, of m] w [of m] by auto
  then show ?thesis
    using J c unfolding pending_ok_def by simp
qed

text \<open>The modules found so far: they may run.\<close>

definition ready :: "mid list \<Rightarrow> evaluationState \<Rightarrow> bool" where
  "ready l st \<longleftrightarrow> distinct l \<and> (\<forall>m \<in> set l. m \<in> e_modules st \<and> m \<notin> set (e_executed st) \<and> e_pendingAsyncDependancies st m = 0 \<and>
     e_evaluationError st m = None)"

definition only_pending :: "evaluationState \<Rightarrow> evaluationState \<Rightarrow> bool" where
  "only_pending st st' \<longleftrightarrow> (\<exists>p. st' = st\<lparr>e_pendingAsyncDependancies := p\<rparr>)"

lemma only_pendingD:
  "only_pending st st' \<Longrightarrow> e_modules st' = e_modules st \<and> e_executed st' = e_executed st \<and> e_asyncParentModules st' = e_asyncParentModules st \<and>
   e_asyncEvaluation st' = e_asyncEvaluation st \<and> e_evaluationError st' = e_evaluationError st \<and> e_status st' = e_status st"
  by (auto simp: only_pending_def)

lemma only_pending_trans: "only_pending st st1 \<Longrightarrow> only_pending st1 st2 \<Longrightarrow> only_pending st st2"
  unfolding only_pending_def by fastforce

lemma only_pending_refl [simp]: "only_pending st st"
  unfolding only_pending_def by (rule exI [of _ "e_pendingAsyncDependancies st"]) simp

lemma decrement_ok:
  assumes J: "pending_ok E F D (\<lambda>x. rest x + count_list (m # ms) x) st" and m: "e_evaluationError st m = None"
  defines "st1 \<equiv> st\<lparr>e_pendingAsyncDependancies := (e_pendingAsyncDependancies st)(m := decrement (e_pendingAsyncDependancies st m))\<rparr>"
  shows "0 < e_pendingAsyncDependancies st m" "pending_ok E F D (\<lambda>x. rest x + count_list ms x) st1"
proof -
  show p: "0 < e_pendingAsyncDependancies st m" using pending_okD(8) [OF J m] by simp
  have w: "waiting D st1 = waiting D st" by (simp add: waiting_def st1_def fun_eq_iff)
  have "waiting D st x + (rest x + count_list ms x) \<le> e_pendingAsyncDependancies st1 x" if "e_evaluationError st x = None" for x
    using pending_okD(8) [OF J that] p by (auto simp: st1_def decrement_def)
  then show "pending_ok E F D (\<lambda>x. rest x + count_list ms x) st1"
    using J p unfolding pending_ok_def w by (auto simp: st1_def decrement_def split: if_splits)
qed

lemma pending_ok_less: "pending_ok E F D rest st \<Longrightarrow> \<forall>x. rest' x \<le> rest x \<Longrightarrow> pending_ok E F D rest' st"
  unfolding pending_ok_def by (meson add_left_mono le_trans)

lemma gather_loop_ok:
  assumes IH: "\<And>D rest st c l l' st'. pending_ok E F D rest st \<Longrightarrow> c \<in> e_modules st \<Longrightarrow> c \<notin> D \<Longrightarrow>
      (if hasTLA (h_rec (me_host E) c) then c \<in> F else e_pendingAsyncDependancies st c = 0) \<Longrightarrow> ready l st \<Longrightarrow>
      gatherAvailableAncestors n E c l st = Some (l', st') \<Longrightarrow> \<exists>D'. pending_ok E F D' rest st' \<and> ready l' st' \<and> only_pending st st'"
  shows "pending_ok E F D (\<lambda>x. rest x + count_list ms x) st \<Longrightarrow> ready l st \<Longrightarrow> gather_loop n E ms l st = Some (l', st') \<Longrightarrow>
    \<exists>D'. pending_ok E F D' rest st' \<and> ready l' st' \<and> only_pending st st'"
proof (induction ms arbitrary: D st l)
  case Nil
  then show ?case by auto
next
  case (Cons m ms)
  have skip: "pending_ok E F D (\<lambda>x. rest x + count_list ms x) st"
    by (rule pending_ok_less [OF Cons.prems(1)]) simp
  show ?case
  proof (cases "m \<in> set l \<or> e_evaluationError st m \<noteq> None")
    case True
    then show ?thesis using Cons.IH [OF skip Cons.prems(2)] Cons.prems(3) by auto
  next
    case False
    define st1 where "st1 = st\<lparr>e_pendingAsyncDependancies := (e_pendingAsyncDependancies st)(m := decrement (e_pendingAsyncDependancies st m))\<rparr>"
    have err: "e_evaluationError st m = None" using False by blast
    have p: "0 < e_pendingAsyncDependancies st m" and J1: "pending_ok E F D (\<lambda>x. rest x + count_list ms x) st1"
      using decrement_ok [OF Cons.prems(1) err] unfolding st1_def by auto
    have o1: "only_pending st st1" by (auto simp: only_pending_def st1_def)
    have r1: "ready l st1" using Cons.prems(2) False by (auto simp: ready_def st1_def)
    show ?thesis
    proof (cases "e_pendingAsyncDependancies st1 m = 0")
      case more: False
      have "gather_loop n E ms l st1 = Some (l', st')" using Cons.prems(3) False more by (simp add: Let_def st1_def)
      from Cons.IH [OF J1 r1 this] show ?thesis using only_pending_trans [OF o1] by blast
    next
      case zero: True
      have mods: "m \<in> e_modules st" using pending_okD(9) [OF Cons.prems(1) p] by simp
      have r2: "ready (l @ [m]) st1"
        using r1 False mods zero err pending_okD(9) [OF Cons.prems(1) p] by (auto simp: ready_def st1_def)
      show ?thesis
      proof (cases "hasTLA (h_rec (me_host E) m)")
        case True
        then have "gather_loop n E ms (l @ [m]) st1 = Some (l', st')" using Cons.prems(3) False zero by (simp add: Let_def st1_def)
        from Cons.IH [OF J1 r2 this] show ?thesis using only_pending_trans [OF o1] by blast
      next
        case tla: False
        obtain l2 st2 where g: "gatherAvailableAncestors n E m (l @ [m]) st1 = Some (l2, st2)" "gather_loop n E ms l2 st2 = Some (l', st')"
          using Cons.prems(3) False zero tla by (auto simp: Let_def st1_def bind_eq_Some_conv)
        have "m \<notin> D" using pending_okD(11) [OF Cons.prems(1), of m] p tla by auto
        then obtain D2 where 2: "pending_ok E F D2 (\<lambda>x. rest x + count_list ms x) st2" "ready l2 st2" "only_pending st1 st2"
          using IH [OF J1 _ _ _ r2 g(1)] mods zero tla by (auto simp: st1_def)
        from Cons.IH [OF 2(1,2) g(2)] show ?thesis using only_pending_trans [OF o1] only_pending_trans [OF 2(3)] by blast
      qed
    qed
  qed
qed

lemma gather_ok:
  "pending_ok E F D rest st \<Longrightarrow> c \<in> e_modules st \<Longrightarrow> c \<notin> D \<Longrightarrow>
   (if hasTLA (h_rec (me_host E) c) then c \<in> F else e_pendingAsyncDependancies st c = 0) \<Longrightarrow> ready l st \<Longrightarrow>
   gatherAvailableAncestors n E c l st = Some (l', st') \<Longrightarrow> \<exists>D'. pending_ok E F D' rest st' \<and> ready l' st' \<and> only_pending st st'"
proof (induction n arbitrary: D rest st c l l' st')
  case (Suc n)
  have g: "gather_loop n E (e_asyncParentModules st c) l st = Some (l', st')" using Suc.prems(6) by simp
  show ?case
  proof (rule gather_loop_ok [OF _ tell_ok [OF Suc.prems(1,2,3,4)] Suc.prems(5) g])
    show "\<exists>D'. pending_ok E F D' rest st' \<and> ready l' st' \<and> only_pending st st'"
      if "pending_ok E F D rest st" "c \<in> e_modules st" "c \<notin> D"
        "if hasTLA (h_rec (me_host E) c) then c \<in> F else e_pendingAsyncDependancies st c = 0" "ready l st"
        "gatherAvailableAncestors n E c l st = Some (l', st')" for D rest st c l l' st'
      by (rule Suc.IH [OF that])
  qed
qed simp

subsection \<open>Rejection and the list of modules to run\<close>

definition only_error :: "evaluationState \<Rightarrow> evaluationState \<Rightarrow> bool" where
  "only_error st st' \<longleftrightarrow>
     e_modules st' = e_modules st \<and> e_executed st' = e_executed st \<and> e_asyncParentModules st' = e_asyncParentModules st \<and>
     e_asyncEvaluation st' = e_asyncEvaluation st \<and> e_pendingAsyncDependancies st' = e_pendingAsyncDependancies st \<and>
     (\<forall>c. e_evaluationError st c \<noteq> None \<longrightarrow> e_evaluationError st' c \<noteq> None) \<and>
     (\<forall>c. e_evaluationError st' c \<noteq> None \<longrightarrow> e_evaluationError st c \<noteq> None \<or> c \<in> e_modules st) \<and>
     (\<forall>c. e_evaluationError st' c \<noteq> None \<longrightarrow> e_evaluationError st c \<noteq> None \<or> e_status st' c = Evaluated) \<and>
     (\<forall>c. e_status st c = Evaluated \<longrightarrow> e_status st' c = Evaluated)"

lemma settle_frame [simp]:
  "e_modules (settle m c st) = e_modules st" "e_executed (settle m c st) = e_executed st" "e_asyncParentModules (settle m c st) = e_asyncParentModules st"
  "e_asyncEvaluation (settle m c st) = e_asyncEvaluation st" "e_pendingAsyncDependancies (settle m c st) = e_pendingAsyncDependancies st"
  "e_evaluationError (settle m c st) = e_evaluationError st" "e_status (settle m c st) = e_status st"
  by (simp_all add: settle_def)

lemma only_error_refl [simp]: "only_error st st"
  by (simp add: only_error_def)

lemma only_error_trans: "only_error st st1 \<Longrightarrow> only_error st1 st2 \<Longrightarrow> only_error st st2"
  unfolding only_error_def by metis

lemma only_error_ok: "pending_ok E F D rest st \<Longrightarrow> only_error st st' \<Longrightarrow> pending_ok E F D rest st'"
proof -
  assume J: "pending_ok E F D rest st" and e: "only_error st st'"
  have "\<forall>c. e_evaluationError st' c \<noteq> None \<longrightarrow> c \<in> e_modules st"
    using e pending_okD(7) [OF J] unfolding only_error_def by metis
  with e show ?thesis
    using pending_okD(6) [OF J] by (intro pending_ok_frame [OF J]) (simp_all add: only_error_def)
qed

lemma rejected_frame:
  assumes "\<forall>c. set (e_asyncParentModules st c) \<subseteq> e_modules st"
  shows "c \<in> e_modules st \<Longrightarrow> asyncModuleExecutionRejected n c ex st = Some st' \<Longrightarrow> only_error st st'"
  using assms
proof (induction n arbitrary: c st st')
  case (Suc n)
  have loop: "only_error st1 st2" if "set ms \<subseteq> e_modules st1" "\<forall>c. set (e_asyncParentModules st1 c) \<subseteq> e_modules st1"
    "reject_loop n ms ex st1 = Some st2" for ms st1 st2
    using that
  proof (induction ms arbitrary: st1)
    case (Cons m ms)
    obtain st3 where 3: "asyncModuleExecutionRejected n m ex st1 = Some st3" "reject_loop n ms ex st3 = Some st2"
      using Cons.prems(3) by (auto simp: bind_eq_Some_conv)
    have e: "only_error st1 st3" using Suc.IH [OF _ 3(1)] Cons.prems(1,2) by simp
    have "only_error st3 st2" using Cons.IH [OF _ _ 3(2)] Cons.prems(1,2) e by (simp add: only_error_def)
    then show ?case using only_error_trans [OF e] by blast
  qed simp
  show ?case
  proof (cases "e_status st c = Evaluated")
    case True
    then show ?thesis using Suc.prems(2) by simp
  next
    case False
    define st1 where "st1 = settle c (CapRejected ex)
        (st\<lparr>e_evaluationError := (e_evaluationError st)(c \<mapsto> ex), e_status := (e_status st)(c := Evaluated)\<rparr>)"
    have e: "only_error st st1" using Suc.prems(1) by (simp add: only_error_def st1_def)
    have "reject_loop n (e_asyncParentModules st1 c) ex st1 = Some st'" using Suc.prems(2) False by (simp add: st1_def Let_def)
    moreover have "\<forall>c. set (e_asyncParentModules st1 c) \<subseteq> e_modules st1" using Suc.prems(3) by (simp add: st1_def)
    ultimately have "only_error st1 st'" using loop by blast
    then show ?thesis using only_error_trans [OF e] by blast
  qed
qed simp

definition may_run :: "mid set \<Rightarrow> mid list \<Rightarrow> evaluationState \<Rightarrow> bool" where
  "may_run D l st \<longleftrightarrow> distinct l \<and> (\<forall>m \<in> set l. m \<in> e_modules st \<and> m \<notin> set (e_executed st) \<and> e_pendingAsyncDependancies st m = 0 \<and> waiting D st m = 0)"

lemma may_run_frame:
  "may_run D l st \<Longrightarrow> e_modules st' = e_modules st \<Longrightarrow> e_asyncParentModules st' = e_asyncParentModules st \<Longrightarrow>
   e_pendingAsyncDependancies st' = e_pendingAsyncDependancies st \<Longrightarrow> set (e_executed st') \<inter> set l \<subseteq> set (e_executed st) \<Longrightarrow> may_run D l st'"
  unfolding may_run_def waiting_def by auto

lemma exec_loop_ok:
  "pending_ok E F D rest st \<Longrightarrow> may_run D l st \<Longrightarrow> exec_loop n E l st = Some st' \<Longrightarrow> pending_ok E F D rest st'"
proof (induction l arbitrary: st)
  case (Cons m l)
  have l: "may_run D l st" using Cons.prems(2) by (simp add: may_run_def)
  show ?case
  proof (cases "e_status st m = Evaluated")
    case True
    then show ?thesis using Cons.IH [OF Cons.prems(1) l] Cons.prems(3) by simp
  next
    case False
    have J1: "pending_ok E F D rest (start m st)" using start_ok [OF Cons.prems(1)] Cons.prems(2) by (simp add: may_run_def)
    have l1: "may_run D l (start m st)"
      by (rule may_run_frame [OF l]) (use Cons.prems(2) in \<open>auto simp: start_def may_run_def\<close>)
    show ?thesis
    proof (cases "hasTLA (h_rec (me_host E) m) \<or> me_execute E m = None")
      case True
      let ?st = "settle m CapResolved (start m st\<lparr>e_status := (e_status (start m st))(m := Evaluated)\<rparr>)"
      have "pending_ok E F D rest ?st"
        by (rule pending_ok_frame [OF J1]) (use pending_okD(6,7) [OF J1] in auto)
      moreover have "may_run D l ?st" by (rule may_run_frame [OF l1]) auto
      ultimately show ?thesis using Cons.IH [OF J1 l1] Cons.IH [of ?st] Cons.prems(3) False True by (auto simp: Let_def split: if_splits)
    next
      case err: False
      then obtain e st1 where st1: "asyncModuleExecutionRejected n m e (start m st) = Some st1" "exec_loop n E l st1 = Some st'"
        using Cons.prems(3) False by (auto simp: bind_eq_Some_conv)
      have "m \<in> e_modules (start m st)" using Cons.prems(2) by (simp add: may_run_def start_def)
      then have o1: "only_error (start m st) st1"
        using rejected_frame [OF _ _ st1(1)] pending_okD(5) [OF J1] by blast
      have "may_run D l st1" by (rule may_run_frame [OF l1]) (use o1 in \<open>auto simp: only_error_def\<close>)
      then show ?thesis using Cons.IH [OF only_error_ok [OF J1 o1]] st1(2) by blast
    qed
  qed
qed simp

lemma fulfilled_ok:
  assumes J: "pending_ok E F D (\<lambda>_. 0) st" and c: "c \<in> e_modules st" "hasTLA (h_rec (me_host E) c)" "c \<notin> F"
    and r: "asyncModuleExecutionFulfilled n E c st = Some st'"
  shows "\<exists>D'. pending_ok E (insert c F) D' (\<lambda>_. 0) st'"
proof (cases "e_status st c = Evaluated")
  case True
  have "pending_ok E (insert c F) D (\<lambda>_. 0) st" using J unfolding pending_ok_def by (auto split: if_splits)
  then show ?thesis using True r by (auto simp: asyncModuleExecutionFulfilled_def)
next
  case False
  define st1 where "st1 = settle c CapResolved (st\<lparr>e_asyncEvaluation := (e_asyncEvaluation st)(c := 0)\<rparr>)"
  obtain l st2 where g: "gatherAvailableAncestors n E c [] st1 = Some (l, st2)" "exec_loop n E (sort_key (e_asyncEvaluation st2) l) st2 = Some st'"
    using r False by (auto simp: asyncModuleExecutionFulfilled_def Let_def st1_def bind_eq_Some_conv)
  have "pending_ok E F D (\<lambda>_. 0) st1"
    by (rule pending_ok_frame [OF J]) (use pending_okD(6,7) [OF J] in \<open>auto simp: st1_def\<close>)
  then have "pending_ok E (insert c F) D (\<lambda>_. 0) st1" unfolding pending_ok_def by (auto split: if_splits)
  moreover have "c \<notin> D" using pending_okD(11) [OF J, of c] c(2,3) by auto
  ultimately obtain D' where D': "pending_ok E (insert c F) D' (\<lambda>_. 0) st2" "ready l st2"
    using gather_ok [OF _ _ _ _ _ g(1), of "insert c F" D "\<lambda>_. 0"] c(1,2) by (auto simp: st1_def ready_def)
  have "waiting D' st2 m = 0" if "m \<in> set l" for m
    using pending_okD(8) [OF D'(1), of m] D'(2) that by (simp add: ready_def)
  then have "may_run D' (sort_key (e_asyncEvaluation st2) l) st2"
    using D'(2) by (auto simp: may_run_def ready_def)
  then show ?thesis using exec_loop_ok [OF D'(1) _ g(2)] by blast
qed

subsection \<open>Histories\<close>

text \<open>
  Modules are evaluated, and bodies with top-level await that were started are fulfilled or rejected, each once, in any order.
  \<open>F\<close> are the modules that were fulfilled, \<open>R\<close> those that were rejected.
\<close>

inductive history :: "modEnv \<Rightarrow> mid set \<Rightarrow> mid set \<Rightarrow> evaluationState \<Rightarrow> bool" for E where
  begins: "history E {} {} newEvaluationState"
| evaluates: "history E F R st \<Longrightarrow> CyclicModuleRecordEvaluate n E m st = Some (Some st') \<Longrightarrow> history E F R st'"
| fulfils: "history E F R st \<Longrightarrow> c \<in> set (e_executed st) \<Longrightarrow> hasTLA (h_rec (me_host E) c) \<Longrightarrow> c \<notin> F \<union> R \<Longrightarrow>
    asyncModuleExecutionFulfilled n E c st = Some st' \<Longrightarrow> history E (insert c F) R st'"
| rejects: "history E F R st \<Longrightarrow> c \<in> set (e_executed st) \<Longrightarrow> hasTLA (h_rec (me_host E) c) \<Longrightarrow> c \<notin> F \<union> R \<Longrightarrow>
    asyncModuleExecutionRejected n c e st = Some st' \<Longrightarrow> history E F (insert c R) st'"

lemma pop_evaluated_subset: "pop_evaluated c stack st = (stack', st') \<Longrightarrow> set stack' \<subseteq> set stack"
  by (induction c stack st rule: pop_evaluated.induct) (auto simp: Let_def split: if_splits)

lemma leave_modules:
  assumes "(case run_module E m st of
               (Some e, st3) \<Rightarrow> Some (Fails e, stack1, st3)
             | (None, st3) \<Rightarrow>
                 if e_dfsAncestorIndex st3 m = e_dfsIndex st3 m then
                   (case pop_evaluated m stack1 st3 of (stack2, st4) \<Rightarrow> Some (Evaluates index1, stack2, st4))
                 else Some (Evaluates index1, stack1, st3)) = Some (o', stack', st')"
  shows "e_modules st' = e_modules st \<and> set stack' \<subseteq> set stack1"
proof -
  obtain r st3 where run: "run_module E m st = (r, st3)" by (cases "run_module E m st")
  then have "e_modules st3 = e_modules st" by (auto simp: run_module_def start_def Let_def split: if_splits)
  then show ?thesis
    using assms run pop_evaluated_subset [of m stack1 st3] pop_evaluated_frame [of m stack1 st3]
    by (auto split: option.splits if_splits prod.splits)
qed

lemma stack_modules:
  "innerModuleEvaluation n E m stack index st = Some (o', stack', st') \<Longrightarrow>
     e_modules st \<subseteq> e_modules st' \<and> set stack' \<subseteq> set stack \<union> e_modules st'"
  "evaluation_loop n E m rs stack index st = Some (o', stack', st') \<Longrightarrow>
     e_modules st \<subseteq> e_modules st' \<and> set stack' \<subseteq> set stack \<union> e_modules st'"
proof (induction n E m stack index st and n E m rs stack index st arbitrary: o' stack' st' and o' stack' st'
    rule: innerModuleEvaluation_evaluation_loop.induct)
  case (2 n E m stack index st)
  let ?st = "st\<lparr>e_modules := insert m (e_modules st)\<rparr>"
  let ?loop = "evaluation_loop n E m (requestedModules (h_rec (me_host E) m)) (m # stack) (Suc index) (enter_evaluation m index ?st)"
  show ?case
  proof (cases "100000 < int (length stack) \<or> m \<in> e_modules st \<or> me_instantiate E m \<noteq> None \<or>
      e_status st m = Evaluated \<or> e_status st m = Evaluating \<or> e_status st m = Evaluating_Async")
    case True
    then show ?thesis using "2.prems" by (auto simp: Let_def split: if_splits option.splits)
  next
    case False
    obtain o1 stack1 st1 where 1: "?loop = Some (o1, stack1, st1)"
      using "2.prems" False by (auto simp: Let_def split: option.splits)
    have le: "e_modules ?st \<subseteq> e_modules st1 \<and> set stack1 \<subseteq> set (m # stack) \<union> e_modules st1"
      using "2.IH" [OF _ _ refl _ _ 1] False by (auto simp: enter_evaluation_def)
    show ?thesis
    proof (cases o1)
      case (Evaluates index1)
      have "e_modules st' = e_modules st1 \<and> set stack' \<subseteq> set stack1"
        by (rule leave_modules) (use "2.prems" False 1 Evaluates in \<open>simp add: Let_def\<close>)
      then show ?thesis using le by auto
    qed (use "2.prems" False 1 le in \<open>auto simp: Let_def\<close>)
  qed
next
  case (4 n E m required rs stack index st)
  show ?case
  proof (cases "h_resolve (me_host E) m required")
    case None
    then show ?thesis using "4.prems" by auto
  next
    case (Some r)
    obtain o1 stack1 st1 where 1: "innerModuleEvaluation n E r stack index st = Some (o1, stack1, st1)"
      using "4.prems" Some by (auto split: option.splits)
    note le = "4.IH"(1) [OF Some 1]
    show ?thesis
    proof (cases o1)
      case (Evaluates index1)
      have "evaluation_loop n E m rs stack1 index1 (after_required m r st1) = Some (o', stack', st')"
        using "4.prems" Some 1 Evaluates by simp
      from "4.IH"(2) [OF Some 1 refl Evaluates refl this] le show ?thesis by (auto simp: after_required_frame)
    qed (use "4.prems" Some 1 le in auto)
  qed
qed auto

lemma evaluate_ok:
  assumes J: "pending_ok E F D (\<lambda>_. 0) st" and r: "CyclicModuleRecordEvaluate n E c st = Some (Some st')"
  shows "pending_ok E F D (\<lambda>_. 0) st'"
proof (cases "e_topLevelCapability st c = None")
  case False
  then show ?thesis using J r by (auto simp: CyclicModuleRecordEvaluate_def)
next
  case True
  let ?st = "st\<lparr>e_topLevelCapability := (e_topLevelCapability st)(c \<mapsto> CapPending)\<rparr>"
  have J0: "pending_ok E F D (\<lambda>_. 0) ?st"
    by (rule pending_ok_frame [OF J]) (use pending_okD(6,7) [OF J] in auto)
  obtain o1 stack st1 where 1: "innerModuleEvaluation n E c [] 0 ?st = Some (o1, stack, st1)"
    using r True by (auto simp: CyclicModuleRecordEvaluate_def split: option.splits)
  have J1: "pending_ok E F D (\<lambda>_. 0) st1" using innerModuleEvaluation_ok [OF J0 1] by (simp add: evaluation_ok_def)
  have stack: "set stack \<subseteq> e_modules st1" using stack_modules(1) [OF 1] by simp
  show ?thesis
  proof (cases o1)
    case (Evaluates index)
    then have "st' = (if e_asyncEvaluation st1 c = 0 then settle c CapResolved st1 else st1)"
      using r True 1 by (simp add: CyclicModuleRecordEvaluate_def)
    then show ?thesis
      by (intro pending_ok_frame [OF J1]) (use pending_okD(6,7) [OF J1] in auto)
  next
    case (Fails e)
    then have st': "st' = settle c (CapRejected e) (st1\<lparr>e_status := (\<lambda>m. if m \<in> set stack then Evaluated else e_status st1 m),
        e_evaluationError := (\<lambda>m. if m \<in> set stack then Some e else e_evaluationError st1 m)\<rparr>)"
      using r True 1 by (simp add: CyclicModuleRecordEvaluate_def)
    show ?thesis
      unfolding st' by (rule pending_ok_frame [OF J1]) (use pending_okD(6,7) [OF J1] stack in auto)
  next
    case TooDeep
    then show ?thesis using r True 1 by (simp add: CyclicModuleRecordEvaluate_def)
  qed
qed

lemma history_ok: "history E F R st \<Longrightarrow> \<exists>D. pending_ok E F D (\<lambda>_. 0) st"
proof (induction rule: history.induct)
  case begins
  have "pending_ok E {} {} (\<lambda>_. 0) newEvaluationState" by (simp add: pending_ok_def newEvaluationState_def waiting_def)
  then show ?case ..
next
  case (evaluates F R st n m st')
  then show ?case using evaluate_ok by blast
next
  case (fulfils F R st c n st')
  then show ?case using fulfilled_ok [OF _ _ _ _ fulfils.hyps(5)] pending_okD(4) by blast
next
  case (rejects F R st c n e st')
  then obtain D where D: "pending_ok E F D (\<lambda>_. 0) st" by blast
  have "only_error st st'"
    using rejected_frame [OF _ _ rejects.hyps(5)] pending_okD(4,5) [OF D] rejects.hyps(2) by blast
  then show ?case using only_error_ok [OF D] by blast
qed

text \<open>
  (C24) However evaluations, fulfilments and rejections are interleaved, the body of every module is started at most once, and a
  body that was started has seen every module with top-level await that it is registered with fulfilled before: no body
  runs before, or twice because of, a dependency it waits for.
\<close>

theorem bodies_run_once:
  assumes "history E F R st"
  shows "distinct (e_executed st) \<and>
    (\<forall>m \<in> set (e_executed st). \<forall>c. m \<in> set (e_asyncParentModules st c) \<longrightarrow> hasTLA (h_rec (me_host E) c) \<longrightarrow> c \<in> F)"
proof (intro conjI ballI allI impI)
  obtain D where D: "pending_ok E F D (\<lambda>_. 0) st" using history_ok [OF assms] by blast
  show "distinct (e_executed st)" using pending_okD(3) [OF D] .
  fix m c
  assume m: "m \<in> set (e_executed st)" and c: "m \<in> set (e_asyncParentModules st c)" "hasTLA (h_rec (me_host E) c)"
  have mods: "c \<in> e_modules st" using pending_okD(12) [OF D, of c] c(1) by (cases "c \<in> e_modules st") auto
  have count: "count_list (e_asyncParentModules st c) m \<noteq> 0" using c(1) by (simp add: count_list_0_iff)
  have "\<forall>a \<in> e_modules st - D. count_list (e_asyncParentModules st a) m = 0"
    using pending_okD(1) [OF D] pending_okD(10) [OF D m] by (simp add: waiting_def)
  then have "c \<in> D" using mods count DiffI by metis
  then show "c \<in> F" using pending_okD(11) [OF D] c(2) by auto
qed

lemma evaluate_history: "history E F R st \<Longrightarrow> evaluate E m st = Some st' \<Longrightarrow> history E F R st'"
  unfolding evaluate_def by (auto split: option.splits intro: history.evaluates)

theorem bodies_run_once_witness:
  "\<exists>st. history async_env {2} {} st \<and> e_executed st = [2, 0] \<and> distinct (e_executed st) \<and> 0 \<in> set (e_asyncParentModules st 2)"
proof -
  let ?r1 = "evaluate async_env 0 newEvaluationState"
  let ?r2 = "asyncModuleExecutionFulfilled 9 async_env 2 (the ?r1)"
  have 1: "?r1 \<noteq> None" "e_executed (the ?r1) = [2]" by code_simp+
  have 2: "?r2 \<noteq> None" "e_executed (the ?r2) = [2, 0]" "0 \<in> set (e_asyncParentModules (the ?r2) 2)"
    "hasTLA (h_rec (me_host async_env) 2)" by code_simp+
  have "history async_env {} {} (the ?r1)" by (rule evaluate_history [OF history.begins]) (use 1 in auto)
  then have h: "history async_env {2} {} (the ?r2)" by (rule history.fulfils [where n = 9]) (use 1 2 in auto)
  show ?thesis
    using bodies_run_once [OF h] 2 h by (intro exI [of _ "the ?r2"]) simp
qed

end
