(* ===== verification/Typed_Elements.thy ===== *)
theory Typed_Elements
  imports Arith
begin

unbundle bit_operations_syntax

text \<open>
  The elements of typed arrays (typedarrays.go, float16.go and the conversions of runtime.go). A Go interface \<^verbatim>\<open>typedArray\<close> is
  implemented by twelve types over the same bytes; here each is a record of what its methods do with the bits of an element,
  and the locale \<open>element_type\<close> is what the buffers and views of the theory Typed_Arrays rely on. An element of \<open>n\<close> bytes is an
  unsigned integer below \<open>256 ^ n\<close>; the order of its bytes in memory is that of the machine.
\<close>

section \<open>Integers as bytes\<close>

primrec le_bytes :: "nat \<Rightarrow> int \<Rightarrow> 8 word list" where
  "le_bytes 0 i = []"
| "le_bytes (Suc n) i = word_of_int i # le_bytes n (i div 256)"

primrec le_int :: "8 word list \<Rightarrow> int" where
  "le_int [] = 0"
| "le_int (b # bs) = uint b + 256 * le_int bs"

lemma length_le_bytes [simp]: "length (le_bytes n i) = n"
  by (induction n arbitrary: i) auto

lemma le_int_range: "0 \<le> le_int bs" "le_int bs < 256 ^ length bs"
proof -
  have "0 \<le> le_int bs \<and> le_int bs < 256 ^ length bs"
  proof (induction bs)
    case (Cons b bs)
    have "uint b < 256" using uint_lt2p [of b] by simp
    then show ?case using Cons.IH by auto
  qed simp
  then show "0 \<le> le_int bs" "le_int bs < 256 ^ length bs" by auto
qed

lemma le_int_bytes: "le_int (le_bytes n i) = i mod 256 ^ n"
proof (induction n arbitrary: i)
  case (Suc n)
  have "uint (word_of_int i :: 8 word) = i mod 256" by (simp add: uint_word_of_int)
  then have "le_int (le_bytes (Suc n) i) = i mod 256 + 256 * (i div 256 mod 256 ^ n)" using Suc.IH by simp
  also have "\<dots> = i mod (256 * 256 ^ n)" by (simp add: zmod_zmult2_eq)
  finally show ?case by simp
qed simp

lemma byte_wraps: "(256 :: 8 word) = 0"
  by (simp add: word_uint_eq_iff)

lemma le_bytes_int: "le_bytes (length bs) (le_int bs) = bs"
proof (induction bs)
  case (Cons b bs)
  have "uint b < 256" using uint_lt2p [of b] by simp
  then have "(uint b + 256 * le_int bs) div 256 = le_int bs" by simp
  moreover have "(word_of_int (uint b + 256 * le_int bs) :: 8 word) = b"
    by (simp add: byte_wraps)
  ultimately show ?case using Cons.IH by simp
qed simp

text \<open>The bytes in the order of the machine: \<open>True\<close> is \<^verbatim>\<open>littleEndian\<close>.\<close>

definition to_bytes :: "bool \<Rightarrow> nat \<Rightarrow> int \<Rightarrow> 8 word list" where
  "to_bytes ne n i = (if ne then le_bytes n i else rev (le_bytes n i))"

definition of_bytes :: "bool \<Rightarrow> 8 word list \<Rightarrow> int" where
  "of_bytes ne bs = le_int (if ne then bs else rev bs)"

lemma length_to_bytes [simp]: "length (to_bytes ne n i) = n"
  by (simp add: to_bytes_def)

lemma of_to_bytes: "of_bytes ne (to_bytes ne n i) = i mod 256 ^ n"
  by (simp add: of_bytes_def to_bytes_def le_int_bytes)

lemma to_of_bytes: "to_bytes ne (length bs) (of_bytes ne bs) = bs"
  using le_bytes_int [of bs] le_bytes_int [of "rev bs"] by (simp add: of_bytes_def to_bytes_def)

lemma of_bytes_range: "0 \<le> of_bytes ne bs" "of_bytes ne bs < 256 ^ length bs"
  using le_int_range [of "if ne then bs else rev bs"] by (auto simp: of_bytes_def)

section \<open>Half and single precision\<close>

text \<open>\<^verbatim>\<open>math.RoundToEven\<close>, \<^verbatim>\<open>math.Frexp\<close> of a positive finite number and \<^verbatim>\<open>math.Ldexp\<close>.\<close>

definition fround :: "float64 \<Rightarrow> float64" where
  "fround a = (if f64_finite a then f64_of_rat (f64_sign a) (of_int (round_half_even (f64_rat a))) else a)"

definition frexp :: "float64 \<Rightarrow> float64 \<times> int" where
  "frexp a = (let e = ilog2 (f64_mag a) + 1 in (f64_of_rat (f64_sign a) (f64_rat a / pow2 e), e))"

definition ldexp :: "float64 \<Rightarrow> int \<Rightarrow> float64" where
  "ldexp a e = f64_of_rat (f64_sign a) (f64_rat a * pow2 e)"

definition Float64ToFloat16 :: "float64 \<Rightarrow> int" where
  "Float64ToFloat16 f =
     (let sign = (if f64_sign f then 0x8000 else 0) in
      if f64_isnan f then 0x7e00
      else
        let a = fabs f in
        if fle (f64_of_int 65520) a then sign OR 0x7c00
        else if flt a (f64_of_rat False (pow2 (- 14))) then sign OR uint16 (int_of_f64 (fround (fmul a (f64_of_int (2 ^ 24)))))
        else
          let (frac, exp) = frexp a;
              m = fround (fmul frac (f64_of_int 2048));
              (m', exp') = (if feq m (f64_of_int 2048) then (f64_of_int 1024, exp + 1) else (m, exp))
          in sign OR uint16 (uint16 (exp' + 14) * 2 ^ 10) OR uint16 (uint16 (int_of_f64 m') - 1024))"

definition Float16ToFloat64 :: "int \<Rightarrow> float64" where
  "Float16ToFloat64 b =
     (let exp = (b div 2 ^ 10) mod 2 ^ 5;
          m = f64_of_int (b mod 2 ^ 10)
      in if exp = 0x1f \<and> \<not> feq m (f64_zero False) then f64_nan
         else
           let f = (if exp = 0 then fmul m (f64_of_rat False (pow2 (- 24)))
                    else if exp = 0x1f then f64_inf False
                    else ldexp (fadd (f64_of_int 1024) m) (exp - 25))
           in if (b div 2 ^ 15) mod 2 \<noteq> 0 then fneg f else f)"

text \<open>
  Go's conversions between \<^verbatim>\<open>float64\<close> and \<^verbatim>\<open>float32\<close>, the latter as its 32 bits: rounding to the nearest number with a
  significand of 24 bits, ties to even.
\<close>

definition f32_pack :: "bool \<Rightarrow> int \<Rightarrow> int" where
  "f32_pack s b = (if s then 2 ^ 31 else 0) + b"

definition f32_of_f64 :: "float64 \<Rightarrow> int" where
  "f32_of_f64 f =
     (if f64_isnan f then f32_pack (f64_sign f) (0x7fc00000 + (f64_frac f div 2 ^ 29) mod 2 ^ 22)
      else if f64_isinf f then f32_pack (f64_sign f) (255 * 2 ^ 23)
      else
        let q = f64_mag f in
        if q \<le> 0 then f32_pack (f64_sign f) 0
        else let e = max (- 149) (ilog2 q - 23);
                 n = round_half_even (q / pow2 e)
             in f32_pack (f64_sign f) (min ((e + 149) * 2 ^ 23 + n) (255 * 2 ^ 23)))"

definition f32_to_f64 :: "int \<Rightarrow> float64" where
  "f32_to_f64 b =
     (let s = (2 ^ 31 \<le> b); e = (b div 2 ^ 23) mod 2 ^ 8; m = b mod 2 ^ 23 in
      if e = 255 then (if m = 0 then f64_inf s else f64_pack s (2047 * 2 ^ 52 + 2 ^ 51 + m mod 2 ^ 22 * 2 ^ 29))
      else f64_of_rat s ((if s then - 1 else 1) *
             (if e = 0 then of_int m * pow2 (- 149) else of_int (2 ^ 23 + m) * pow2 (e - 150))))"

section \<open>Conversions to an element\<close>

text \<open>
  \<^verbatim>\<open>toInt8\<close>, \<^verbatim>\<open>toUint8\<close> and \<^verbatim>\<open>toInt16\<close> on a Number. Go's conversion of a double to \<^verbatim>\<open>int64\<close> depends on the machine when the
  value is out of range; it is the argument \<open>cvt\<close>.
\<close>

fun toInt8 :: "(float64 \<Rightarrow> int) \<Rightarrow> val \<Rightarrow> int" where
  "toInt8 cvt (VInt i) = int8 i"
| "toInt8 cvt (VFloat f) = (if \<not> f64_isnan f \<and> \<not> f64_isinf f then int8 (cvt f) else 0)"
| "toInt8 cvt _ = 0"

fun toUint8 :: "(float64 \<Rightarrow> int) \<Rightarrow> val \<Rightarrow> int" where
  "toUint8 cvt (VInt i) = uint8 i"
| "toUint8 cvt (VFloat f) = (if \<not> f64_isnan f \<and> \<not> f64_isinf f then uint8 (cvt f) else 0)"
| "toUint8 cvt _ = 0"

fun toInt16 :: "(float64 \<Rightarrow> int) \<Rightarrow> val \<Rightarrow> int" where
  "toInt16 cvt (VInt i) = int16 i"
| "toInt16 cvt (VFloat f) = (if \<not> f64_isnan f \<and> \<not> f64_isinf f then int16 (cvt f) else 0)"
| "toInt16 cvt _ = 0"

definition prim_toBigInt :: "'w env \<Rightarrow> val \<Rightarrow> ('w, int) jsm" where
  "prim_toBigInt E v =
     (case v of
        VBigInt i \<Rightarrow> ret i
      | VStr s \<Rightarrow> (case e_strToBigInt E s of Some i \<Rightarrow> ret i | None \<Rightarrow> throwM SyntaxErr)
      | VBool b \<Rightarrow> ret (if b then 1 else 0)
      | _ \<Rightarrow> throwM TypeErr)"

definition toBigInt :: "'w env \<Rightarrow> val \<Rightarrow> ('w, int) jsm" where
  "toBigInt E v = bindM (toPrimitiveNumber E v) (prim_toBigInt E)"

definition toBigInt64 :: "int \<Rightarrow> int" where
  "toBigInt64 n = (let m = n mod 2 ^ 64 in if 2 ^ 63 \<le> m then m - 2 ^ 64 else m)"

definition toBigUint64 :: "int \<Rightarrow> int" where
  "toBigUint64 n = n mod 2 ^ 64"

text \<open>The search element as an element: the value if it is a Number of the range and integral.\<close>

definition exact_in :: "int \<Rightarrow> int \<Rightarrow> val \<Rightarrow> int option" where
  "exact_in lo hi v =
     (case v of
        VInt i \<Rightarrow> if lo \<le> i \<and> i \<le> hi then Some i else None
      | VFloat f \<Rightarrow>
          if fle (f64_of_int lo) f \<and> fle f (f64_of_int hi) \<and> feq f (ftrunc f) then Some (int_of_f64 f) else None
      | _ \<Rightarrow> None)"

definition toUint8Exact :: "val \<Rightarrow> int option" where "toUint8Exact = exact_in 0 255"
definition toInt8Exact :: "val \<Rightarrow> int option" where "toInt8Exact = exact_in (- 128) 127"
definition toUint16Exact :: "val \<Rightarrow> int option" where "toUint16Exact = exact_in 0 (2 ^ 16 - 1)"
definition toInt16Exact :: "val \<Rightarrow> int option" where "toInt16Exact = exact_in (- (2 ^ 15)) (2 ^ 15 - 1)"
definition toUint32Exact :: "val \<Rightarrow> int option" where "toUint32Exact = exact_in 0 (2 ^ 32 - 1)"
definition toInt32Exact :: "val \<Rightarrow> int option" where "toInt32Exact = exact_in (- (2 ^ 31)) (2 ^ 31 - 1)"

definition toFloat16Exact :: "val \<Rightarrow> float64 option" where
  "toFloat16Exact v =
     (case v of
        VInt _ \<Rightarrow> if feq (Float16ToFloat64 (Float64ToFloat16 (num_float v))) (num_float v) then Some (num_float v) else None
      | VFloat _ \<Rightarrow> if feq (Float16ToFloat64 (Float64ToFloat16 (num_float v))) (num_float v) then Some (num_float v) else None
      | _ \<Rightarrow> None)"

definition toFloat32Exact :: "val \<Rightarrow> int option" where
  "toFloat32Exact v =
     (case v of
        VInt _ \<Rightarrow> if feq (f32_to_f64 (f32_of_f64 (num_float v))) (num_float v) then Some (f32_of_f64 (num_float v)) else None
      | VFloat _ \<Rightarrow> if feq (f32_to_f64 (f32_of_f64 (num_float v))) (num_float v) then Some (f32_of_f64 (num_float v)) else None
      | _ \<Rightarrow> None)"

definition typedFloatLess :: "float64 \<Rightarrow> float64 \<Rightarrow> bool" where
  "typedFloatLess x y =
     (if f64_isnan y then \<not> f64_isnan x
      else if f64_isnan x then False
      else if feq x (f64_zero False) \<and> feq y (f64_zero False) then f64_sign x
      else flt x y)"

section \<open>The element types\<close>

text \<open>
  What the methods of an implementation of \<^verbatim>\<open>typedArray\<close> do with the bits of an element: the size, whether the content is
  BigInts, the value that \<^verbatim>\<open>get\<close> makes of the bits, the conversion by which \<^verbatim>\<open>set\<close> and \<^verbatim>\<open>fill\<close> start (it can run user code) and the
  bits they store for its result, the order of \<^verbatim>\<open>less\<close>, the elements that \<^verbatim>\<open>indexOf\<close> and \<^verbatim>\<open>lastIndexOf\<close> look for (\<open>None\<close>: no
  element can be equal) and those that \<^verbatim>\<open>includes\<close> looks for.
\<close>

record 'w elemType =
  el_size :: nat
  el_big :: bool
  el_get :: "int \<Rightarrow> val"
  el_input :: "'w env \<Rightarrow> val \<Rightarrow> ('w, val) jsm"
  el_bits :: "val \<Rightarrow> int"
  el_less :: "int \<Rightarrow> int \<Rightarrow> bool"
  el_search :: "val \<Rightarrow> (int \<Rightarrow> bool) option"
  el_includes :: "val \<Rightarrow> (int \<Rightarrow> bool) option"

definition equal_to :: "int option \<Rightarrow> (int \<Rightarrow> bool) option" where
  "equal_to k = map_option (\<lambda>i b. b = i) k"

definition signed_equal_to :: "nat \<Rightarrow> int option \<Rightarrow> (int \<Rightarrow> bool) option" where
  "signed_equal_to n k = map_option (\<lambda>i b. wrap_s n b = i) k"

definition uint8Array :: "(float64 \<Rightarrow> int) \<Rightarrow> 'w elemType" where
  "uint8Array cvt = \<lparr>el_size = 1, el_big = False, el_get = intToValue, el_input = ToNumber, el_bits = toUint8 cvt,
     el_less = (<), el_search = \<lambda>v. equal_to (toUint8Exact v), el_includes = \<lambda>v. equal_to (toUint8Exact v)\<rparr>"

definition uint8ClampedArray :: "'w elemType" where
  "uint8ClampedArray = \<lparr>el_size = 1, el_big = False, el_get = intToValue, el_input = ToNumber, el_bits = toUint8Clamp,
     el_less = (<), el_search = \<lambda>v. equal_to (toUint8Exact v), el_includes = \<lambda>v. equal_to (toUint8Exact v)\<rparr>"

text \<open>\<^verbatim>\<open>int8Array\<close> searches the bytes: it compares the bits with those of the search element.\<close>

definition int8Array :: "(float64 \<Rightarrow> int) \<Rightarrow> 'w elemType" where
  "int8Array cvt = \<lparr>el_size = 1, el_big = False, el_get = \<lambda>b. intToValue (int8 b), el_input = ToNumber,
     el_bits = \<lambda>v. uint8 (toInt8 cvt v), el_less = \<lambda>x y. int8 x < int8 y,
     el_search = \<lambda>v. equal_to (map_option uint8 (toInt8Exact v)), el_includes = \<lambda>v. equal_to (map_option uint8 (toInt8Exact v))\<rparr>"

definition uint16Array :: "'w elemType" where
  "uint16Array = \<lparr>el_size = 2, el_big = False, el_get = intToValue, el_input = ToNumber, el_bits = toUint16,
     el_less = (<), el_search = \<lambda>v. equal_to (toUint16Exact v), el_includes = \<lambda>v. equal_to (toUint16Exact v)\<rparr>"

definition int16Array :: "(float64 \<Rightarrow> int) \<Rightarrow> 'w elemType" where
  "int16Array cvt = \<lparr>el_size = 2, el_big = False, el_get = \<lambda>b. intToValue (int16 b), el_input = ToNumber,
     el_bits = \<lambda>v. uint16 (toInt16 cvt v), el_less = \<lambda>x y. int16 x < int16 y,
     el_search = \<lambda>v. signed_equal_to 16 (toInt16Exact v), el_includes = \<lambda>v. signed_equal_to 16 (toInt16Exact v)\<rparr>"

definition uint32Array :: "'w elemType" where
  "uint32Array = \<lparr>el_size = 4, el_big = False, el_get = intToValue, el_input = ToNumber, el_bits = toUint32,
     el_less = (<), el_search = \<lambda>v. equal_to (toUint32Exact v), el_includes = \<lambda>v. equal_to (toUint32Exact v)\<rparr>"

definition int32Array :: "'w elemType" where
  "int32Array = \<lparr>el_size = 4, el_big = False, el_get = \<lambda>b. intToValue (int32 b), el_input = ToNumber,
     el_bits = \<lambda>v. uint32 (toInt32 v), el_less = \<lambda>x y. int32 x < int32 y,
     el_search = \<lambda>v. signed_equal_to 32 (toInt32Exact v), el_includes = \<lambda>v. signed_equal_to 32 (toInt32Exact v)\<rparr>"

definition input_float :: "'w env \<Rightarrow> val \<Rightarrow> ('w, val) jsm" where
  "input_float E v = bindM (ToFloat E v) (\<lambda>f. ret (VFloat f))"

definition float_search :: "(int \<Rightarrow> float64) \<Rightarrow> float64 option \<Rightarrow> (int \<Rightarrow> bool) option" where
  "float_search value k = map_option (\<lambda>f b. feq (value b) f) k"

definition float_includes :: "(int \<Rightarrow> float64) \<Rightarrow> (val \<Rightarrow> float64 option) \<Rightarrow> val \<Rightarrow> (int \<Rightarrow> bool) option" where
  "float_includes value exact v =
     (case v of
        VInt _ \<Rightarrow> float_search value (exact v)
      | VFloat f \<Rightarrow> if f64_isnan f then Some (\<lambda>b. f64_isnan (value b)) else float_search value (exact v)
      | _ \<Rightarrow> None)"

definition float16Array :: "'w elemType" where
  "float16Array = \<lparr>el_size = 2, el_big = False, el_get = \<lambda>b. floatToValue (Float16ToFloat64 b), el_input = input_float,
     el_bits = \<lambda>v. Float64ToFloat16 (num_float v), el_less = \<lambda>x y. typedFloatLess (Float16ToFloat64 x) (Float16ToFloat64 y),
     el_search = \<lambda>v. float_search Float16ToFloat64 (toFloat16Exact v), el_includes = float_includes Float16ToFloat64 toFloat16Exact\<rparr>"

definition float32Array :: "'w elemType" where
  "float32Array = \<lparr>el_size = 4, el_big = False, el_get = \<lambda>b. floatToValue (f32_to_f64 b), el_input = input_float,
     el_bits = \<lambda>v. f32_of_f64 (num_float v), el_less = \<lambda>x y. typedFloatLess (f32_to_f64 x) (f32_to_f64 y),
     el_search = \<lambda>v. float_search f32_to_f64 (map_option f32_to_f64 (toFloat32Exact v)),
     el_includes = float_includes f32_to_f64 (\<lambda>v. map_option f32_to_f64 (toFloat32Exact v))\<rparr>"

definition number_float :: "val \<Rightarrow> float64 option" where
  "number_float v = (case v of VInt _ \<Rightarrow> Some (num_float v) | VFloat _ \<Rightarrow> Some (num_float v) | _ \<Rightarrow> None)"

definition float64Array :: "'w elemType" where
  "float64Array = \<lparr>el_size = 8, el_big = False, el_get = \<lambda>b. floatToValue (word_of_int b), el_input = input_float,
     el_bits = \<lambda>v. uint (num_float v), el_less = \<lambda>x y. typedFloatLess (word_of_int x) (word_of_int y),
     el_search = \<lambda>v. float_search word_of_int (number_float v), el_includes = float_includes word_of_int number_float\<rparr>"

definition input_bigint :: "'w env \<Rightarrow> val \<Rightarrow> ('w, val) jsm" where
  "input_bigint E v = bindM (toBigInt E v) (\<lambda>i. ret (VBigInt i))"

fun big_of :: "val \<Rightarrow> int" where
  "big_of (VBigInt i) = i"
| "big_of _ = 0"

definition bigInt64Array :: "'w elemType" where
  "bigInt64Array = \<lparr>el_size = 8, el_big = True, el_get = \<lambda>b. VBigInt (int64 b), el_input = input_bigint,
     el_bits = \<lambda>v. uint64 (toBigInt64 (big_of v)), el_less = \<lambda>x y. int64 x < int64 y,
     el_search = \<lambda>v. (case v of VBigInt i \<Rightarrow> if is_int64 i then signed_equal_to 64 (Some i) else None | _ \<Rightarrow> None),
     el_includes = \<lambda>v. (case v of VBigInt i \<Rightarrow> if is_int64 i then signed_equal_to 64 (Some i) else None | _ \<Rightarrow> None)\<rparr>"

definition bigUint64Array :: "'w elemType" where
  "bigUint64Array = \<lparr>el_size = 8, el_big = True, el_get = VBigInt, el_input = input_bigint,
     el_bits = \<lambda>v. toBigUint64 (big_of v), el_less = (<),
     el_search = \<lambda>v. (case v of VBigInt i \<Rightarrow> if 0 \<le> i \<and> i < 2 ^ 64 then equal_to (Some i) else None | _ \<Rightarrow> None),
     el_includes = \<lambda>v. (case v of VBigInt i \<Rightarrow> if 0 \<le> i \<and> i < 2 ^ 64 then equal_to (Some i) else None | _ \<Rightarrow> None)\<rparr>"

lemmas element_types = uint8Array_def uint8ClampedArray_def int8Array_def uint16Array_def int16Array_def uint32Array_def
  int32Array_def float16Array_def float32Array_def float64Array_def bigInt64Array_def bigUint64Array_def

section \<open>What the views rely on\<close>

definition is_content :: "bool \<Rightarrow> val \<Rightarrow> bool" where
  "is_content big v = (case v of VInt _ \<Rightarrow> \<not> big | VFloat _ \<Rightarrow> \<not> big | VBigInt _ \<Rightarrow> big | _ \<Rightarrow> False)"

text \<open>
  An element type: what is read is a Number or a BigInt by the content of the type; converting such a value runs no user
  code and leads to the same bits; the bits of an element fit its size.
\<close>

locale element_type =
  fixes K :: "'w elemType"
  assumes size_pos: "0 < el_size K"
    and get_content: "is_content (el_big K) (el_get K b)"
    and input_content: "\<forall>s. is_content False (e_strToNumber E s) \<Longrightarrow> el_input K E v w = (Inr v', w') \<Longrightarrow> is_content (el_big K) v'"
    and input_pure: "is_content (el_big K) v \<Longrightarrow> \<exists>v'. el_bits K v' = el_bits K v \<and> (\<forall>E w. el_input K E v w = (Inr v', w))"
    and input_other: "is_content (\<not> el_big K) v \<Longrightarrow> el_input K E v w = (Inl TypeErr, w)"
    and bits_range: "0 \<le> el_bits K v \<and> el_bits K v < 256 ^ el_size K"

lemma intToValue_content [simp]: "is_content False (intToValue i)"
  by (simp add: is_content_def intToValue_def Let_def)

lemma floatToValue_content [simp]: "is_content False (floatToValue f)"
  by (auto simp: is_content_def floatToValue_def split: option.splits)
     (simp_all add: intToValue_def Let_def split: if_splits)

lemma is_contentE:
  assumes "is_content big v"
  obtains i where "\<not> big" "v = VInt i" | f where "\<not> big" "v = VFloat f" | i where "big" "v = VBigInt i"
  using assms by (cases v) (auto simp: is_content_def)

lemma ToNumber_content:
  assumes "\<forall>s. is_content False (e_strToNumber E s)" "ToNumber E v w = (Inr v', w')"
  shows "is_content False v'"
proof -
  obtain p w1 where "prim_ToNumber E p w1 = (Inr v', w')"
    using assms(2) by (auto simp: ToNumber_def bindM_def split: prod.splits sum.splits)
  then show ?thesis
    using assms(1) by (cases p) (auto simp: ret_def throwM_def is_content_def intToValue_def Let_def)
qed

lemma input_number [simp]:
  "ToNumber E (VInt i) = ret (VInt i)" "ToNumber E (VFloat f) = ret (VFloat f)" "ToNumber E (VBigInt i) = throwM TypeErr"
  "input_float E (VInt i) = ret (VFloat (f64_of_int i))" "input_float E (VFloat f) = ret (VFloat f)"
  "input_float E (VBigInt i) = throwM TypeErr" "input_bigint E (VBigInt i) = ret (VBigInt i)"
  "input_bigint E (VInt j) = throwM TypeErr" "input_bigint E (VFloat f) = throwM TypeErr"
  by (simp_all add: ToNumber_def toPrimitiveNumber_def input_float_def ToFloat_def input_bigint_def toBigInt_def prim_toBigInt_def)

text \<open>The types whose values are converted by \<^verbatim>\<open>ToNumber\<close>, by \<^verbatim>\<open>ToFloat\<close> and by \<^verbatim>\<open>toBigInt\<close>.\<close>

lemma element_type_ToNumber:
  assumes "0 < el_size K" "\<not> el_big K" "el_input K = ToNumber" "\<And>b. is_content False (el_get K b)"
    "\<And>v. 0 \<le> el_bits K v \<and> el_bits K v < 256 ^ el_size K"
  shows "element_type K"
proof
  show "\<exists>v'. el_bits K v' = el_bits K v \<and> (\<forall>E w. el_input K E v w = (Inr v', w))" if "is_content (el_big K) v" for v
    using that assms(2,3) by (intro exI [of _ v]) (auto simp: ret_def elim: is_contentE)
  show "el_input K E v w = (Inl TypeErr, w)" if "is_content (\<not> el_big K) v" for E v w
    using that assms(2,3) by (auto simp: throwM_def elim: is_contentE)
  show "is_content (el_big K) v'" if "\<forall>s. is_content False (e_strToNumber E s)" "el_input K E v w = (Inr v', w')" for E v w v' w'
    using ToNumber_content [OF that(1)] that(2) assms(2,3) by simp
qed (use assms in auto)

lemma element_type_ToFloat:
  assumes "0 < el_size K" "\<not> el_big K" "el_input K = input_float" "\<And>b. is_content False (el_get K b)"
    "\<And>v. el_bits K v = g (num_float v)" "\<And>f. 0 \<le> g f \<and> g f < 256 ^ el_size K"
  shows "element_type K"
proof
  show "\<exists>v'. el_bits K v' = el_bits K v \<and> (\<forall>E w. el_input K E v w = (Inr v', w))" if "is_content (el_big K) v" for v
    using that assms(2,3,5) by (intro exI [of _ "VFloat (num_float v)"]) (auto simp: ret_def elim: is_contentE)
  show "el_input K E v w = (Inl TypeErr, w)" if "is_content (\<not> el_big K) v" for E v w
    using that assms(2,3) by (auto simp: throwM_def elim: is_contentE)
  show "is_content (el_big K) v'" if "\<forall>s. is_content False (e_strToNumber E s)" "el_input K E v w = (Inr v', w')" for E v w v' w'
    using that(2) assms(2,3) by (auto simp: input_float_def bindM_def ret_def is_content_def split: prod.splits sum.splits)
qed (use assms in auto)

lemma element_type_BigInt:
  assumes "0 < el_size K" "el_big K" "el_input K = input_bigint" "\<And>b. is_content True (el_get K b)"
    "\<And>v. 0 \<le> el_bits K v \<and> el_bits K v < 256 ^ el_size K"
  shows "element_type K"
proof
  show "\<exists>v'. el_bits K v' = el_bits K v \<and> (\<forall>E w. el_input K E v w = (Inr v', w))" if "is_content (el_big K) v" for v
    using that assms(2,3) by (intro exI [of _ v]) (auto simp: ret_def elim: is_contentE)
  show "el_input K E v w = (Inl TypeErr, w)" if "is_content (\<not> el_big K) v" for E v w
    using that assms(2,3) by (auto simp: throwM_def elim: is_contentE)
  show "is_content (el_big K) v'" if "\<forall>s. is_content False (e_strToNumber E s)" "el_input K E v w = (Inr v', w')" for E v w v' w'
    using that(2) assms(2,3) by (auto simp: input_bigint_def bindM_def ret_def is_content_def split: prod.splits sum.splits)
qed (use assms in auto)

lemma toUint8Clamp_range: "0 \<le> toUint8Clamp v \<and> toUint8Clamp v < 256"
  using wrap_u_range [of 8] by (cases v) (auto simp: Let_def)

lemma num_bits_range:
  "0 \<le> toUint8 cvt v \<and> toUint8 cvt v < 256" "0 \<le> toUint16 v \<and> toUint16 v < 65536" "0 \<le> toUint32 v \<and> toUint32 v < 4294967296"
proof -
  show "0 \<le> toUint8 cvt v \<and> toUint8 cvt v < 256" using wrap_u_range [of 8] by (cases v) auto
  show "0 \<le> toUint16 v \<and> toUint16 v < 65536" using wrap_u_range [of 16] by (cases v) auto
  show "0 \<le> toUint32 v \<and> toUint32 v < 4294967296"
    using wrap_u_range [of 32] by (cases v) (auto simp: floatToUint32_def Let_def)
qed

lemma f32_of_f64_range: "0 \<le> f32_of_f64 f \<and> f32_of_f64 f < 2 ^ 32"
proof -
  have pack: "0 \<le> f32_pack s b \<and> f32_pack s b < 2 ^ 32" if "0 \<le> b \<and> b \<le> 2 ^ 31 - 1" for s b
    using that by (simp add: f32_pack_def)
  define q where "q = f64_mag f"
  define e where "e = max (- 149) (ilog2 q - 23)"
  have "0 \<le> round_half_even (q / pow2 e)" using round_half_even_bounds(1) [of 0 "q / pow2 e"] f64_mag_nonneg [of f]
    by (simp add: q_def less_imp_le)
  moreover have "- 149 \<le> e" by (simp add: e_def)
  ultimately have n: "0 \<le> min ((e + 149) * 2 ^ 23 + round_half_even (q / pow2 e)) (255 * 2 ^ 23) \<and>
      min ((e + 149) * 2 ^ 23 + round_half_even (q / pow2 e)) (255 * 2 ^ 23) \<le> 2 ^ 31 - 1" by simp
  have m: "0 \<le> 0x7fc00000 + x mod 2 ^ 22 \<and> 0x7fc00000 + x mod 2 ^ 22 \<le> 2 ^ 31 - 1" for x :: int
    using pos_mod_bound [of "2 ^ 22" x] pos_mod_sign [of "2 ^ 22" x] by simp
  have "f32_of_f64 f = (if f64_isnan f then f32_pack (f64_sign f) (0x7fc00000 + (f64_frac f div 2 ^ 29) mod 2 ^ 22)
      else if f64_isinf f then f32_pack (f64_sign f) (255 * 2 ^ 23) else if q \<le> 0 then f32_pack (f64_sign f) 0
      else f32_pack (f64_sign f) (min ((e + 149) * 2 ^ 23 + round_half_even (q / pow2 e)) (255 * 2 ^ 23)))"
    by (simp add: f32_of_f64_def Let_def q_def e_def)
  then show ?thesis
    using pack [OF n] pack [OF m] pack [of "255 * 2 ^ 23"] pack [of 0] by simp
qed

lemma Float64ToFloat16_range: "0 \<le> Float64ToFloat16 f \<and> Float64ToFloat16 f < 65536"
proof -
  define ok where "ok x \<longleftrightarrow> 0 \<le> x \<and> x < 65536" for x :: int
  have or: "ok (x OR y)" if "ok x" "ok y" for x y :: int
    using that OR_upper [of x 16 y] by (simp add: ok_def)
  have u: "ok (uint16 i)" for i using wrap_u_range [of 16 i] by (simp add: ok_def)
  have c: "ok 0x7e00" "ok 0x7c00" "ok 0x8000" "ok 0" by (simp_all add: ok_def)
  have sign: "ok (if s then 0x8000 else 0)" for s using c by simp
  have if_ok: "ok (if b then x else y)" if "ok x" "ok y" for b and x y :: int using that by simp
  have "ok (Float64ToFloat16 f)"
    unfolding Float64ToFloat16_def Let_def split_beta by (intro if_ok or u c)
  then show ?thesis by (simp add: ok_def)
qed

interpretation u8: element_type "uint8Array cvt" for cvt
  by (rule element_type_ToNumber) (simp_all add: uint8Array_def num_bits_range)

interpretation u8c: element_type uint8ClampedArray
  by (rule element_type_ToNumber) (simp_all add: uint8ClampedArray_def toUint8Clamp_range)

interpretation i8: element_type "int8Array cvt" for cvt
  by (rule element_type_ToNumber) (use wrap_u_range [of 8] in \<open>simp_all add: int8Array_def\<close>)

interpretation u16: element_type uint16Array
  by (rule element_type_ToNumber) (simp_all add: uint16Array_def num_bits_range)

interpretation i16: element_type "int16Array cvt" for cvt
  by (rule element_type_ToNumber) (use wrap_u_range [of 16] in \<open>simp_all add: int16Array_def\<close>)

interpretation u32: element_type uint32Array
  by (rule element_type_ToNumber) (simp_all add: uint32Array_def num_bits_range)

interpretation i32: element_type int32Array
  by (rule element_type_ToNumber) (use wrap_u_range [of 32] in \<open>simp_all add: int32Array_def\<close>)

interpretation f16: element_type float16Array
  by (rule element_type_ToFloat [where g = Float64ToFloat16]) (simp_all add: float16Array_def Float64ToFloat16_range)

interpretation f32: element_type float32Array
  by (rule element_type_ToFloat [where g = f32_of_f64]) (use f32_of_f64_range in \<open>simp_all add: float32Array_def\<close>)

interpretation f64: element_type float64Array
  by (rule element_type_ToFloat [where g = uint]) (use uint_lt2p [where 'a = 64] in \<open>simp_all add: float64Array_def\<close>)

interpretation i64: element_type bigInt64Array
  by (rule element_type_BigInt) (use wrap_u_range [of 64] in \<open>simp_all add: bigInt64Array_def is_content_def\<close>)

interpretation u64: element_type bigUint64Array
  by (rule element_type_BigInt) (simp_all add: bigUint64Array_def is_content_def toBigUint64_def)

text \<open>The kinds of typed arrays, by which a constructor chooses the implementation.\<close>

datatype elemKind = Uint8 | Uint8Clamped | Int8 | Uint16 | Int16 | Uint32 | Int32 | Float16 | Float32 | Float64 | BigInt64 | BigUint64

fun elem :: "(float64 \<Rightarrow> int) \<Rightarrow> elemKind \<Rightarrow> 'w elemType" where
  "elem cvt Uint8 = uint8Array cvt"
| "elem cvt Uint8Clamped = uint8ClampedArray"
| "elem cvt Int8 = int8Array cvt"
| "elem cvt Uint16 = uint16Array"
| "elem cvt Int16 = int16Array cvt"
| "elem cvt Uint32 = uint32Array"
| "elem cvt Int32 = int32Array"
| "elem cvt Float16 = float16Array"
| "elem cvt Float32 = float32Array"
| "elem cvt Float64 = float64Array"
| "elem cvt BigInt64 = bigInt64Array"
| "elem cvt BigUint64 = bigUint64Array"

interpretation elem: element_type "elem cvt k" for cvt k
  by (cases k) (simp_all add: u8.element_type_axioms u8c.element_type_axioms i8.element_type_axioms u16.element_type_axioms
      i16.element_type_axioms u32.element_type_axioms i32.element_type_axioms f16.element_type_axioms f32.element_type_axioms
      f64.element_type_axioms i64.element_type_axioms u64.element_type_axioms)

end
