(* ===== verification/Typed_Arrays.thy ===== *)
theory Typed_Arrays
  imports Typed_Elements Property
begin

text \<open>
  Array buffers, typed arrays and data views (typedarrays.go, builtin_typedarrays.go). Elements are read and written through
  unchecked pointers into the bytes of a buffer, so the code is only safe as long as every access stays inside a live block of
  memory, and user code that runs in the middle of an operation can detach the buffer. The model has memory blocks, buffers
  that refer to a block or to nothing, and pointers; an access outside a block, through nil, or a failed bounds check of Go is
  the outcome \<open>Crash\<close>. Numbers have 64 bits, as \<^verbatim>\<open>int\<close> on a 64-bit machine.
\<close>

section \<open>Memory\<close>

text \<open>A slice of bytes is nil or a block with a length; a buffer that was detached has a nil slice.\<close>

record arrayBufferObject =
  detached :: bool
  ab_data :: "(nat \<times> nat) option"

record tworld =
  blocks :: "8 word list list"
  buffers :: "arrayBufferObject list"

record typedArrayObject =
  ta_val :: oid
  viewedArrayBuf :: nat
  ta_kind :: elemKind
  ta_length :: int
  ta_offset :: int

record dataViewObject =
  dv_viewedArrayBuf :: nat
  byteLen :: int
  byteOffset :: int

datatype 'a outcome = Done 'a | Throws jserr | Crash

type_synonym ('w, 'a) tam = "'w \<Rightarrow> 'a outcome \<times> 'w"

text \<open>
  What the methods need of the rest: user code and conversions, the order of the bytes of the machine, its conversion of doubles
  to \<^verbatim>\<open>int64\<close>, the addresses of blocks, the integer value of a string, the objects that constructors return
  (\<open>None\<close>: not a typed array, or not a buffer), the constructor object of an element type and the descriptions of symbols.
\<close>

record 'w tenv =
  t_env :: "'w env"
  t_native :: bool
  t_cvt :: "float64 \<Rightarrow> int"
  t_address :: "nat \<Rightarrow> int"
  t_strToInteger :: "ustr \<Rightarrow> int"
  t_species :: "typedArrayObject \<Rightarrow> val list \<Rightarrow> ('w, typedArrayObject option) jsm"
  t_construct :: "oid \<Rightarrow> val list \<Rightarrow> ('w, typedArrayObject option) jsm"
  t_speciesBuffer :: "nat \<Rightarrow> val list \<Rightarrow> ('w, nat option) jsm"
  t_prototype :: "('w, unit) jsm"
  t_defaultCtor :: "elemKind \<Rightarrow> oid"
  t_symDesc :: "nat \<Rightarrow> ustr"

definition giveT :: "'a \<Rightarrow> ('w, 'a) tam" where "giveT x w = (Done x, w)"
definition throwT :: "jserr \<Rightarrow> ('w, 'a) tam" where "throwT e w = (Throws e, w)"
definition crashT :: "('w, 'a) tam" where "crashT w = (Crash, w)"

definition bindT :: "('w, 'a) tam \<Rightarrow> ('a \<Rightarrow> ('w, 'b) tam) \<Rightarrow> ('w, 'b) tam" where
  "bindT m k w = (case m w of (Done x, w') \<Rightarrow> k x w' | (Throws e, w') \<Rightarrow> (Throws e, w') | (Crash, w') \<Rightarrow> (Crash, w'))"

definition thenT :: "('w, 'a) tam \<Rightarrow> ('w, 'b) tam \<Rightarrow> ('w, 'b) tam" where
  "thenT m m' = bindT m (\<lambda>_. m')"

definition liftT :: "('w, 'a) jsm \<Rightarrow> ('w, 'a) tam" where
  "liftT m w = (case m w of (Inl e, w') \<Rightarrow> (Throws e, w') | (Inr x, w') \<Rightarrow> (Done x, w'))"

fun forT :: "'b list \<Rightarrow> ('b \<Rightarrow> ('w, unit) tam) \<Rightarrow> ('w, unit) tam" where
  "forT [] body = giveT ()"
| "forT (k # ks) body = bindT (body k) (\<lambda>_. forT ks body)"

text \<open>Reading and writing through a pointer, an unchecked access.\<close>

type_synonym pointer = "(nat \<times> int) option"

definition valid_access :: "8 word list list \<Rightarrow> pointer \<Rightarrow> nat \<Rightarrow> bool" where
  "valid_access bs p n =
     (case p of None \<Rightarrow> False | Some (b, a) \<Rightarrow> b < length bs \<and> 0 \<le> a \<and> nat a + n \<le> length (bs ! b))"

definition peek :: "pointer \<Rightarrow> nat \<Rightarrow> ('z tworld_scheme, 8 word list) tam" where
  "peek p n w =
     (if valid_access (blocks w) p n
      then (case p of Some (b, a) \<Rightarrow> (Done (take n (drop (nat a) (blocks w ! b))), w) | None \<Rightarrow> (Crash, w))
      else (Crash, w))"

definition splice :: "'a list \<Rightarrow> nat \<Rightarrow> 'a list \<Rightarrow> 'a list" where
  "splice xs i ys = take i xs @ ys @ drop (i + length ys) xs"

definition poke :: "pointer \<Rightarrow> 8 word list \<Rightarrow> ('z tworld_scheme, unit) tam" where
  "poke p bs w =
     (if valid_access (blocks w) p (length bs)
      then (case p of
              Some (b, a) \<Rightarrow> (Done (), w\<lparr>blocks := (blocks w)[b := splice (blocks w ! b) (nat a) bs]\<rparr>)
            | None \<Rightarrow> (Crash, w))
      else (Crash, w))"

definition ensureNotDetached :: "nat \<Rightarrow> bool \<Rightarrow> ('z tworld_scheme, bool) tam" where
  "ensureNotDetached b throw w =
     (if detached (buffers w ! b) then (if throw then Throws TypeErr else Done False, w) else (Done True, w))"

definition bufferData :: "nat \<Rightarrow> ('z tworld_scheme, (nat \<times> nat) option) tam" where
  "bufferData b w = (Done (ab_data (buffers w ! b)), w)"

definition data_len :: "(nat \<times> nat) option \<Rightarrow> int" where
  "data_len d = (case d of None \<Rightarrow> 0 | Some (_, n) \<Rightarrow> int n)"

definition typedArrayPtr :: "(nat \<times> nat) option \<Rightarrow> int \<Rightarrow> nat \<Rightarrow> pointer" where
  "typedArrayPtr s idx sz = map_option (\<lambda>(b, _). (b, idx * int sz)) s"

text \<open>\<open>None\<close> is the empty slice.\<close>

definition typedArraySlice :: "(nat \<times> nat) option \<Rightarrow> int \<Rightarrow> nat \<Rightarrow> pointer option" where
  "typedArraySlice s start sz =
     (if data_len s \<le> start * int sz then None else Some (typedArrayPtr s start sz))"

text \<open>A slice expression \<^verbatim>\<open>data[i:j]\<close> with Go's check of the bounds, as a pointer to its first byte.\<close>

definition goSlice :: "(nat \<times> nat) option \<Rightarrow> int \<Rightarrow> int \<Rightarrow> ('w, pointer) tam" where
  "goSlice s i j = (if 0 \<le> i \<and> i \<le> j \<and> j \<le> data_len s then giveT (typedArrayPtr s i 1) else crashT)"

text \<open>\<^verbatim>\<open>copy(dst, src)\<close> of slices with the given lengths: the bytes are read before any is written.\<close>

definition goCopy :: "pointer \<Rightarrow> int \<Rightarrow> pointer \<Rightarrow> int \<Rightarrow> ('z tworld_scheme, unit) tam" where
  "goCopy dst dstLen src srcLen =
     (let n = nat (min dstLen srcLen) in if n = 0 then giveT () else bindT (peek src n) (poke dst))"

section \<open>Elements of a view\<close>

abbreviation elemOps :: "'w tenv \<Rightarrow> typedArrayObject \<Rightarrow> 'w elemType" where
  "elemOps T ta \<equiv> elem (t_cvt T) (ta_kind ta)"

definition elemSize :: "elemKind \<Rightarrow> nat" where
  "elemSize k = (case k of Uint8 \<Rightarrow> 1 | Uint8Clamped \<Rightarrow> 1 | Int8 \<Rightarrow> 1 | Uint16 \<Rightarrow> 2 | Int16 \<Rightarrow> 2 | Uint32 \<Rightarrow> 4 | Int32 \<Rightarrow> 4 |
     Float16 \<Rightarrow> 2 | Float32 \<Rightarrow> 4 | Float64 \<Rightarrow> 8 | BigInt64 \<Rightarrow> 8 | BigUint64 \<Rightarrow> 8)"

abbreviation ta_size :: "typedArrayObject \<Rightarrow> int" where "ta_size ta \<equiv> int (elemSize (ta_kind ta))"

definition elem_ptr :: "typedArrayObject \<Rightarrow> int \<Rightarrow> ('z tworld_scheme, pointer) tam" where
  "elem_ptr ta idx = bindT (bufferData (viewedArrayBuf ta)) (\<lambda>d. giveT (typedArrayPtr d idx (elemSize (ta_kind ta))))"

definition elem_get :: "'z tworld_scheme tenv \<Rightarrow> typedArrayObject \<Rightarrow> int \<Rightarrow> ('z tworld_scheme, val) tam" where
  "elem_get T ta idx =
     bindT (elem_ptr ta idx) (\<lambda>p. bindT (peek p (elemSize (ta_kind ta))) (\<lambda>bs.
       giveT (el_get (elemOps T ta) (of_bytes (t_native T) bs))))"

text \<open>\<^verbatim>\<open>*(a.ptr(idx)) = toUint8(value)\<close>: the pointer is computed, then the value is converted, then it is stored.\<close>

definition elem_set :: "'z tworld_scheme tenv \<Rightarrow> typedArrayObject \<Rightarrow> int \<Rightarrow> val \<Rightarrow> ('z tworld_scheme, unit) tam" where
  "elem_set T ta idx v =
     bindT (elem_ptr ta idx) (\<lambda>p. bindT (liftT (el_input (elemOps T ta) (t_env T) v)) (\<lambda>n.
       poke p (to_bytes (t_native T) (elemSize (ta_kind ta)) (el_bits (elemOps T ta) n))))"

definition elem_less :: "'z tworld_scheme tenv \<Rightarrow> typedArrayObject \<Rightarrow> int \<Rightarrow> int \<Rightarrow> ('z tworld_scheme, bool) tam" where
  "elem_less T ta i j =
     bindT (elem_ptr ta i) (\<lambda>p. bindT (peek p (elemSize (ta_kind ta))) (\<lambda>x.
     bindT (elem_ptr ta j) (\<lambda>q. bindT (peek q (elemSize (ta_kind ta))) (\<lambda>y.
       giveT (el_less (elemOps T ta) (of_bytes (t_native T) x) (of_bytes (t_native T) y))))))"

definition elem_swap :: "typedArrayObject \<Rightarrow> int \<Rightarrow> int \<Rightarrow> ('z tworld_scheme, unit) tam" where
  "elem_swap ta i j =
     bindT (elem_ptr ta i) (\<lambda>pi. bindT (elem_ptr ta j) (\<lambda>pj.
     bindT (peek pj (elemSize (ta_kind ta))) (\<lambda>y. bindT (peek pi (elemSize (ta_kind ta))) (\<lambda>x.
       thenT (poke pi y) (poke pj x)))))"

definition elements :: "bool \<Rightarrow> nat \<Rightarrow> nat \<Rightarrow> 8 word list \<Rightarrow> int list" where
  "elements ne sz n bs = map (\<lambda>i. of_bytes ne (take sz (drop (i * sz) bs))) [0 ..< n]"

fun first_index :: "('a \<Rightarrow> bool) \<Rightarrow> 'a list \<Rightarrow> int" where
  "first_index P [] = - 1"
| "first_index P (x # xs) = (if P x then 0 else let i = first_index P xs in if i < 0 then - 1 else i + 1)"

definition last_index :: "('a \<Rightarrow> bool) \<Rightarrow> 'a list \<Rightarrow> int" where
  "last_index P xs = (let i = first_index P (rev xs) in if i < 0 then - 1 else int (length xs) - 1 - i)"

definition elem_slice :: "'z tworld_scheme tenv \<Rightarrow> typedArrayObject \<Rightarrow> int \<Rightarrow> int \<Rightarrow> ('z tworld_scheme, int list) tam" where
  "elem_slice T ta start len =
     bindT (bufferData (viewedArrayBuf ta)) (\<lambda>d.
       case typedArraySlice d start (elemSize (ta_kind ta)) of
         None \<Rightarrow> giveT []
       | Some p \<Rightarrow> bindT (peek p (nat len * elemSize (ta_kind ta))) (\<lambda>bs.
           giveT (elements (t_native T) (elemSize (ta_kind ta)) (nat len) bs)))"

definition elem_indexOf :: "'z tworld_scheme tenv \<Rightarrow> typedArrayObject \<Rightarrow> val \<Rightarrow> int \<Rightarrow> int \<Rightarrow> ('z tworld_scheme, int) tam" where
  "elem_indexOf T ta v start len =
     (case el_search (elemOps T ta) v of
        None \<Rightarrow> giveT (- 1)
      | Some P \<Rightarrow> bindT (elem_slice T ta start len) (\<lambda>xs. giveT (first_index P xs)))"

definition elem_lastIndexOf :: "'z tworld_scheme tenv \<Rightarrow> typedArrayObject \<Rightarrow> val \<Rightarrow> int \<Rightarrow> int \<Rightarrow> ('z tworld_scheme, int) tam" where
  "elem_lastIndexOf T ta v start len =
     (case el_search (elemOps T ta) v of
        None \<Rightarrow> giveT (- 1)
      | Some P \<Rightarrow> bindT (elem_slice T ta start len) (\<lambda>xs. giveT (last_index P xs)))"

definition elem_includes :: "'z tworld_scheme tenv \<Rightarrow> typedArrayObject \<Rightarrow> val \<Rightarrow> int \<Rightarrow> int \<Rightarrow> ('z tworld_scheme, bool) tam" where
  "elem_includes T ta v start len =
     (case el_includes (elemOps T ta) v of
        None \<Rightarrow> giveT False
      | Some P \<Rightarrow> bindT (elem_slice T ta start len) (\<lambda>xs. giveT (0 \<le> first_index P xs)))"

definition elem_fill :: "'z tworld_scheme tenv \<Rightarrow> typedArrayObject \<Rightarrow> val \<Rightarrow> int \<Rightarrow> int \<Rightarrow> ('z tworld_scheme, unit) tam" where
  "elem_fill T ta v start len =
     bindT (bufferData (viewedArrayBuf ta)) (\<lambda>d.
     bindT (liftT (el_input (elemOps T ta) (t_env T) v)) (\<lambda>n.
       case typedArraySlice d start (elemSize (ta_kind ta)) of
         None \<Rightarrow> giveT ()
       | Some p \<Rightarrow>
           poke p (concat (replicate (nat len) (to_bytes (t_native T) (elemSize (ta_kind ta)) (el_bits (elemOps T ta) n))))))"

section \<open>Indexed access\<close>

definition isValidIntegerIndex :: "typedArrayObject \<Rightarrow> int \<Rightarrow> ('z tworld_scheme, bool) tam" where
  "isValidIntegerIndex ta idx =
     bindT (ensureNotDetached (viewedArrayBuf ta) False) (\<lambda>ok. giveT (ok \<and> 0 \<le> idx \<and> idx < ta_length ta))"

definition ta_getIdx :: "'z tworld_scheme tenv \<Rightarrow> typedArrayObject \<Rightarrow> int \<Rightarrow> ('z tworld_scheme, val option) tam" where
  "ta_getIdx T ta idx =
     (if 0 \<le> idx \<and> idx < ta_length ta then
        bindT (ensureNotDetached (viewedArrayBuf ta) False) (\<lambda>ok.
          if ok then bindT (elem_get T ta (idx + ta_offset ta)) (\<lambda>v. giveT (Some v)) else giveT None)
      else giveT None)"

definition element_value :: "'z tworld_scheme tenv \<Rightarrow> elemKind \<Rightarrow> val \<Rightarrow> ('z tworld_scheme, val) tam" where
  "element_value T k v = liftT (if k = BigInt64 \<or> k = BigUint64 then input_bigint (t_env T) v else ToNumber (t_env T) v)"

definition ta_putIdx :: "'z tworld_scheme tenv \<Rightarrow> typedArrayObject \<Rightarrow> int \<Rightarrow> val \<Rightarrow> ('z tworld_scheme, unit) tam" where
  "ta_putIdx T ta idx v =
     bindT (element_value T (ta_kind ta) v) (\<lambda>n.
     bindT (isValidIntegerIndex ta idx) (\<lambda>valid.
       if valid then elem_set T ta (idx + ta_offset ta) n else giveT ()))"

text \<open>
  Definition of an element. A descriptor without a value leads to a method call on nil, except that \<^verbatim>\<open>toBigInt\<close> of nil is a
  TypeError.
\<close>

definition ta_element :: "'z tworld_scheme tenv \<Rightarrow> typedArrayObject \<Rightarrow> int \<Rightarrow> ('z tworld_scheme, slot option) tam" where
  "ta_element T ta idx =
     bindT (ta_getIdx T ta idx) (\<lambda>v. giveT (map_option (\<lambda>x. Prop \<lparr>vp_value = Some x, vp_writable = True, vp_configurable = True,
       vp_enumerable = True, vp_accessor = False, vp_getterFunc = None, vp_setterFunc = None\<rparr>) v))"

definition ta_defineIdxProperty ::
    "'z tworld_scheme tenv \<Rightarrow> bool \<Rightarrow> typedArrayObject \<Rightarrow> int \<Rightarrow> PropertyDescriptor \<Rightarrow> bool \<Rightarrow> ('z tworld_scheme, bool) tam" where
  "ta_defineIdxProperty T extensible ta idx desc throw =
     (if pd_configurable desc = FLAG_FALSE \<or> pd_enumerable desc = FLAG_FALSE \<or> IsAccessor desc \<or> pd_writable desc = FLAG_FALSE
      then (if throw then throwT TypeErr else giveT False)
      else
        bindT (ta_element T ta idx) (\<lambda>existing.
          case defineOwnProperty (e_callable (t_env T)) extensible existing desc throw of
            Inl e \<Rightarrow> throwT e
          | Inr None \<Rightarrow> giveT False
          | Inr (Some _) \<Rightarrow>
              bindT (isValidIntegerIndex ta idx) (\<lambda>valid.
                if \<not> valid then (if throw then throwT TypeErr else giveT False)
                else
                  (case pd_value desc of
                     None \<Rightarrow> if ta_kind ta = BigInt64 \<or> ta_kind ta = BigUint64 then throwT TypeErr else crashT
                   | Some v \<Rightarrow> bindT (ta_putIdx T ta idx v) (\<lambda>_. giveT True)))))"

definition ta_deleteIdx :: "typedArrayObject \<Rightarrow> int \<Rightarrow> bool \<Rightarrow> ('z tworld_scheme, bool) tam" where
  "ta_deleteIdx ta idx throw =
     bindT (ensureNotDetached (viewedArrayBuf ta) False) (\<lambda>ok.
       if ok \<and> 0 \<le> idx \<and> idx < ta_length ta then (if throw then throwT TypeErr else giveT False) else giveT True)"

section \<open>Methods of typed arrays\<close>

definition argument :: "val list \<Rightarrow> nat \<Rightarrow> val" where
  "argument args i = (if i < length args then args ! i else VUndef)"

definition toIntegerT :: "'z tworld_scheme tenv \<Rightarrow> val \<Rightarrow> ('z tworld_scheme, int) tam" where
  "toIntegerT T v =
     (case v of
        VObj x \<Rightarrow>
          bindT (liftT (bindM (Object_toPrimitiveNumber (t_env T) x) (prim_ToNumber (t_env T)))) (\<lambda>n. giveT (int64 (ToInteger n)))
      | VStr s \<Rightarrow> giveT (int64 (t_strToInteger T s))
      | VSym _ \<Rightarrow> throwT TypeErr
      | VBigInt _ \<Rightarrow> throwT TypeErr
      | _ \<Rightarrow> giveT (int64 (ToInteger v)))"

definition relToIdx :: "int \<Rightarrow> int \<Rightarrow> int" where
  "relToIdx rel l = (if 0 \<le> rel then min rel l else max (l + rel) 0)"

text \<open>An argument that is a relative index, and one that is the end of the array when it is missing.\<close>

definition rel_arg :: "'z tworld_scheme tenv \<Rightarrow> val \<Rightarrow> int \<Rightarrow> ('z tworld_scheme, int) tam" where
  "rel_arg T v l = bindT (toIntegerT T v) (\<lambda>n. giveT (relToIdx n l))"

definition end_arg :: "'z tworld_scheme tenv \<Rightarrow> val \<Rightarrow> int \<Rightarrow> ('z tworld_scheme, int) tam" where
  "end_arg T v l = (if v = VUndef then giveT (relToIdx l l) else rel_arg T v l)"

definition typedArrayProto_copyWithin :: "'z tworld_scheme tenv \<Rightarrow> typedArrayObject \<Rightarrow> val list \<Rightarrow> ('z tworld_scheme, val) tam" where
  "typedArrayProto_copyWithin T ta args =
     thenT (ensureNotDetached (viewedArrayBuf ta) True) (
     let l = ta_length ta in
     bindT (rel_arg T (argument args 0) l) (\<lambda>to.
     bindT (rel_arg T (argument args 1) l) (\<lambda>from.
     bindT (end_arg T (argument args 2) l) (\<lambda>final.
     bindT (bufferData (viewedArrayBuf ta)) (\<lambda>data.
       if from < final then
         thenT (ensureNotDetached (viewedArrayBuf ta) True) (
         bindT (goSlice data ((ta_offset ta + to) * ta_size ta) (data_len data)) (\<lambda>dst.
         bindT (goSlice data ((ta_offset ta + from) * ta_size ta) ((ta_offset ta + final) * ta_size ta)) (\<lambda>src.
         thenT (goCopy dst (data_len data - (ta_offset ta + to) * ta_size ta) src ((final - from) * ta_size ta))
           (giveT (VObj (ta_val ta))))))
       else giveT (VObj (ta_val ta)))))))"

definition typedArrayProto_fill :: "'z tworld_scheme tenv \<Rightarrow> typedArrayObject \<Rightarrow> val list \<Rightarrow> ('z tworld_scheme, val) tam" where
  "typedArrayProto_fill T ta args =
     thenT (ensureNotDetached (viewedArrayBuf ta) True) (
     let l = ta_length ta in
     bindT (element_value T (ta_kind ta) (argument args 0)) (\<lambda>value.
     bindT (rel_arg T (argument args 1) l) (\<lambda>k.
     bindT (end_arg T (argument args 2) l) (\<lambda>final.
     thenT (ensureNotDetached (viewedArrayBuf ta) True) (
     thenT (if 0 < final - k then elem_fill T ta value (ta_offset ta + k) (final - k) else giveT ())
       (giveT (VObj (ta_val ta))))))))"

definition typedArrayProto_includes :: "'z tworld_scheme tenv \<Rightarrow> typedArrayObject \<Rightarrow> val list \<Rightarrow> ('z tworld_scheme, bool) tam" where
  "typedArrayProto_includes T ta args =
     thenT (ensureNotDetached (viewedArrayBuf ta) True) (
     let len = ta_length ta in
     if len = 0 then giveT False
     else
       bindT (toIntegerT T (argument args 1)) (\<lambda>n0.
         if len \<le> n0 then giveT False
         else
           let n = (if n0 < 0 then max (len + n0) 0 else n0) in
           bindT (ensureNotDetached (viewedArrayBuf ta) False) (\<lambda>ok.
             if \<not> ok then giveT (argument args 0 = VUndef \<and> n < len)
             else elem_includes T ta (argument args 0) (ta_offset ta + n) (len - n))))"

definition typedArrayProto_at :: "'z tworld_scheme tenv \<Rightarrow> typedArrayObject \<Rightarrow> val list \<Rightarrow> ('z tworld_scheme, val) tam" where
  "typedArrayProto_at T ta args =
     thenT (ensureNotDetached (viewedArrayBuf ta) True) (
     bindT (toIntegerT T (argument args 0)) (\<lambda>idx0.
       let len = ta_length ta; idx = (if idx0 < 0 then len + idx0 else idx0) in
       if len \<le> idx \<or> idx < 0 then giveT VUndef
       else bindT (ensureNotDetached (viewedArrayBuf ta) False) (\<lambda>ok.
              if ok then elem_get T ta (ta_offset ta + idx) else giveT VUndef)))"

definition typedArrayProto_indexOf :: "'z tworld_scheme tenv \<Rightarrow> typedArrayObject \<Rightarrow> val list \<Rightarrow> ('z tworld_scheme, int) tam" where
  "typedArrayProto_indexOf T ta args =
     thenT (ensureNotDetached (viewedArrayBuf ta) True) (
     let len = ta_length ta in
     if len = 0 then giveT (- 1)
     else
       bindT (toIntegerT T (argument args 1)) (\<lambda>n0.
         if len \<le> n0 then giveT (- 1)
         else
           let n = (if n0 < 0 then max (len + n0) 0 else n0) in
           bindT (ensureNotDetached (viewedArrayBuf ta) False) (\<lambda>ok.
             if ok then
               bindT (elem_indexOf T ta (argument args 0) (ta_offset ta + n) (len - n)) (\<lambda>idx.
                 giveT (if 0 \<le> idx then n + idx else - 1))
             else giveT (- 1))))"

definition typedArrayProto_lastIndexOf :: "'z tworld_scheme tenv \<Rightarrow> typedArrayObject \<Rightarrow> val list \<Rightarrow> ('z tworld_scheme, int) tam" where
  "typedArrayProto_lastIndexOf T ta args =
     thenT (ensureNotDetached (viewedArrayBuf ta) True) (
     let len = ta_length ta in
     if len = 0 then giveT (- 1)
     else
       bindT (if length args < 2 then giveT (len - 1)
              else bindT (toIntegerT T (argument args 1)) (\<lambda>f.
                     giveT (if 0 \<le> f then min f (len - 1) else if f + len < 0 then - 1 else f + len))) (\<lambda>fromIndex.
       bindT (ensureNotDetached (viewedArrayBuf ta) False) (\<lambda>ok.
         if ok then
           bindT (elem_lastIndexOf T ta (argument args 0) (ta_offset ta) (fromIndex + 1)) (\<lambda>idx. giveT (if 0 \<le> idx then idx else - 1))
         else giveT (- 1))))"

definition typedArrayProto_reverse :: "typedArrayObject \<Rightarrow> ('z tworld_scheme, val) tam" where
  "typedArrayProto_reverse ta =
     thenT (ensureNotDetached (viewedArrayBuf ta) True) (
     let l = ta_length ta in
     thenT (forT [0 .. l div 2 - 1] (\<lambda>lower. elem_swap ta (ta_offset ta + lower) (ta_offset ta + (l - lower - 1))))
       (giveT (VObj (ta_val ta))))"

text \<open>
  \<^verbatim>\<open>set\<close> from a typed array. Arrays of the same type are copied as bytes. Otherwise the elements are converted one by one, in
  an order chosen by the addresses so that no element is overwritten before it was read.
\<close>

definition move_elem :: "'z tworld_scheme tenv \<Rightarrow> typedArrayObject \<Rightarrow> int \<Rightarrow> typedArrayObject \<Rightarrow> int \<Rightarrow> int \<Rightarrow> ('z tworld_scheme, unit) tam" where
  "move_elem T ta dstOffset src srcOffset i =
     bindT (elem_get T src (srcOffset + i)) (\<lambda>v. elem_set T ta (dstOffset + i) v)"

definition byte_address :: "'w tenv \<Rightarrow> (nat \<times> nat) option \<Rightarrow> int \<Rightarrow> ('w, int) tam" where
  "byte_address T data i =
     (case data of
        Some (b, n) \<Rightarrow> if 0 \<le> i \<and> i < int n then giveT (t_address T b + i) else crashT
      | None \<Rightarrow> crashT)"

definition move_order :: "int \<Rightarrow> int \<Rightarrow> int \<Rightarrow> int \<Rightarrow> int \<Rightarrow> int list" where
  "move_order curDst curSrc dstSize srcSize srcLen =
     (if dstSize = srcSize then
        (if curDst \<le> curSrc \<or> curSrc + srcLen * srcSize \<le> curDst then [0 .. srcLen - 1] else rev [0 .. srcLen - 1])
      else
        let x0 = quo (curDst - curSrc) (srcSize - dstSize);
            x = (if x0 < 0 then 0 else if srcLen < x0 then srcLen else x0)
        in if dstSize < srcSize then [x .. srcLen - 1] @ rev [0 .. x - 1]
           else [0 .. x - 1] @ rev [x .. srcLen - 1])"

definition is_big :: "elemKind \<Rightarrow> bool" where
  "is_big k \<longleftrightarrow> k = BigInt64 \<or> k = BigUint64"

text \<open>\<^verbatim>\<open>String()\<close> of a value: an object is converted to a primitive value first, a symbol gives its description.\<close>

definition stringT :: "'z tworld_scheme tenv \<Rightarrow> val \<Rightarrow> ('z tworld_scheme, ustr) tam" where
  "stringT T v =
     bindT (case v of VObj x \<Rightarrow> liftT (Object_toPrimitiveString (t_env T) x) | _ \<Rightarrow> giveT v) (\<lambda>p.
       case p of VSym n \<Rightarrow> giveT (t_symDesc T n) | _ \<Rightarrow> liftT (prim_toString (t_env T) p))"

text \<open>
  The test for a mixture of BigInts and Numbers reads the \<^verbatim>\<open>name\<close> of the constructors, an ordinary configurable property: reading it and converting it
  to a string can run user code, and a missing property is a method call on nil.
\<close>

definition big_name :: "'z tworld_scheme tenv \<Rightarrow> oid \<Rightarrow> ('z tworld_scheme, bool) tam" where
  "big_name T ctor =
     bindT (liftT (e_getStr (t_env T) ctor (ascii ''name''))) (\<lambda>v.
       case v of None \<Rightarrow> crashT | Some x \<Rightarrow> bindT (stringT T x) (\<lambda>s. giveT (take 3 s = ascii ''Big'')))"

definition checkTypedArrayMixBigInt :: "'z tworld_scheme tenv \<Rightarrow> oid \<Rightarrow> oid \<Rightarrow> ('z tworld_scheme, unit) tam" where
  "checkTypedArrayMixBigInt T src dst =
     bindT (big_name T src) (\<lambda>b.
       if b then bindT (big_name T dst) (\<lambda>b'. if \<not> b' then throwT TypeErr else giveT ()) else giveT ())"

definition set_typed :: "'z tworld_scheme tenv \<Rightarrow> typedArrayObject \<Rightarrow> typedArrayObject \<Rightarrow> int \<Rightarrow> ('z tworld_scheme, unit) tam" where
  "set_typed T ta src targetOffset =
     thenT (ensureNotDetached (viewedArrayBuf src) True) (
     let srcLen = ta_length src; x = int64 (srcLen + targetOffset) in
     if x < 0 \<or> ta_length ta < x then throwT RangeErr
     else if ta_kind src = ta_kind ta then
       bindT (bufferData (viewedArrayBuf ta)) (\<lambda>data.
       bindT (goSlice data ((ta_offset ta + targetOffset) * ta_size ta) (data_len data)) (\<lambda>dst.
       bindT (bufferData (viewedArrayBuf src)) (\<lambda>sdata.
       bindT (goSlice sdata (ta_offset src * ta_size src) ((ta_offset src + srcLen) * ta_size src)) (\<lambda>s.
         goCopy dst (data_len data - (ta_offset ta + targetOffset) * ta_size ta) s (srcLen * ta_size src)))))
     else
       thenT (checkTypedArrayMixBigInt T (t_defaultCtor T (ta_kind src)) (t_defaultCtor T (ta_kind ta))) (
       if srcLen = 0 then giveT ()
       else
         bindT (bufferData (viewedArrayBuf src)) (\<lambda>sdata.
         bindT (byte_address T sdata (ta_offset src * ta_size src)) (\<lambda>curSrc.
         bindT (bufferData (viewedArrayBuf ta)) (\<lambda>data.
         bindT (byte_address T data ((ta_offset ta + targetOffset) * ta_size ta)) (\<lambda>curDst.
           forT (move_order curDst curSrc (ta_size ta) (ta_size src) srcLen)
             (move_elem T ta (ta_offset ta + targetOffset) src (ta_offset src))))))))"

definition toLengthT :: "'z tworld_scheme tenv \<Rightarrow> val option \<Rightarrow> ('z tworld_scheme, int) tam" where
  "toLengthT T v =
     (case v of
        None \<Rightarrow> giveT 0
      | Some x \<Rightarrow> bindT (toIntegerT T x) (\<lambda>i. giveT (if i < 0 then 0 else if maxInt \<le> i then maxInt - 1 else i)))"

definition nilSafe :: "val option \<Rightarrow> val" where
  "nilSafe v = (case v of None \<Rightarrow> VUndef | Some x \<Rightarrow> x)"

definition set_object :: "'z tworld_scheme tenv \<Rightarrow> typedArrayObject \<Rightarrow> oid \<Rightarrow> int \<Rightarrow> ('z tworld_scheme, unit) tam" where
  "set_object T ta src targetOffset =
     bindT (liftT (e_getStr (t_env T) src (ascii ''length''))) (\<lambda>lv.
     bindT (toLengthT T lv) (\<lambda>srcLen.
       let x = int64 (srcLen + targetOffset) in
       if x < 0 \<or> ta_length ta < x then throwT RangeErr
       else
         forT [0 .. srcLen - 1] (\<lambda>i.
           bindT (liftT (e_getStr (t_env T) src (valueInt_string i))) (\<lambda>v.
           bindT (isValidIntegerIndex ta (targetOffset + i)) (\<lambda>valid.
             if valid then elem_set T ta (ta_offset ta + targetOffset + i) (nilSafe v) else giveT ())))))"

definition typedArrayProto_set ::
    "'z tworld_scheme tenv \<Rightarrow> typedArrayObject \<Rightarrow> typedArrayObject + oid \<Rightarrow> val \<Rightarrow> ('z tworld_scheme, unit) tam" where
  "typedArrayProto_set T ta source offsetArg =
     bindT (toIntegerT T offsetArg) (\<lambda>targetOffset.
       if targetOffset < 0 then throwT RangeErr
       else
         thenT (ensureNotDetached (viewedArrayBuf ta) True)
           (case source of Inl src \<Rightarrow> set_typed T ta src targetOffset | Inr src \<Rightarrow> set_object T ta src targetOffset))"

text \<open>The object that a constructor returned: a typed array, not detached and, for a length as the only argument, long enough.\<close>

definition typedArrayCreate :: "('z tworld_scheme, typedArrayObject option) jsm \<Rightarrow> val list \<Rightarrow> ('z tworld_scheme, typedArrayObject) tam" where
  "typedArrayCreate ctor args =
     bindT (liftT ctor) (\<lambda>r.
       case r of
         None \<Rightarrow> throwT TypeErr
       | Some ta \<Rightarrow>
           thenT (ensureNotDetached (viewedArrayBuf ta) True)
             (case args of
                [VInt l] \<Rightarrow> if ta_length ta < l then throwT TypeErr else giveT ta
              | _ \<Rightarrow> giveT ta))"

definition typedArraySpeciesCreate :: "'z tworld_scheme tenv \<Rightarrow> typedArrayObject \<Rightarrow> val list \<Rightarrow> ('z tworld_scheme, typedArrayObject) tam" where
  "typedArraySpeciesCreate T ta args = typedArrayCreate (t_species T ta args) args"

definition shift_ptr :: "pointer \<Rightarrow> int \<Rightarrow> pointer" where
  "shift_ptr p i = map_option (\<lambda>(b, a). (b, a + i)) p"

definition typedArrayProto_slice :: "'z tworld_scheme tenv \<Rightarrow> typedArrayObject \<Rightarrow> val list \<Rightarrow> ('z tworld_scheme, val) tam" where
  "typedArrayProto_slice T ta args =
     thenT (ensureNotDetached (viewedArrayBuf ta) True) (
     let len = ta_length ta in
     bindT (rel_arg T (argument args 0) len) (\<lambda>begin.
     bindT (end_arg T (argument args 1) len) (\<lambda>end'.
       let count = (if end' - begin < 0 then 0 else end' - begin) in
       bindT (typedArraySpeciesCreate T ta [intToValue count]) (\<lambda>dst.
         thenT
           (if ta_kind dst = ta_kind ta then
              (if 0 < count then
                 thenT (ensureNotDetached (viewedArrayBuf ta) True) (
                 bindT (bufferData (viewedArrayBuf dst)) (\<lambda>ddata. bindT (bufferData (viewedArrayBuf ta)) (\<lambda>data.
                   let byteCount = count * ta_size ta;
                       d0 = ta_offset dst * ta_size dst;
                       s0 = (ta_offset ta + begin) * ta_size ta
                   in
                   bindT (goSlice ddata d0 (d0 + byteCount)) (\<lambda>dstBuf.
                   bindT (goSlice data s0 (s0 + byteCount)) (\<lambda>srcBuf.
                   bindT (byte_address T ddata d0) (\<lambda>dstStart. bindT (byte_address T data s0) (\<lambda>srcStart.
                     if dstStart \<le> srcStart \<or> srcStart + byteCount \<le> dstStart then goCopy dstBuf byteCount srcBuf byteCount
                     else forT [0 .. byteCount - 1] (\<lambda>i. bindT (peek (shift_ptr srcBuf i) 1) (poke (shift_ptr dstBuf i))))))))))
               else giveT ())
            else
              forT [0 .. count - 1] (\<lambda>i.
                thenT (ensureNotDetached (viewedArrayBuf ta) True)
                  (move_elem T dst (ta_offset dst) ta (ta_offset ta + begin) i)))
           (giveT (VObj (ta_val dst)))))))"

section \<open>Methods that call back\<close>

definition toCallableT :: "'z tworld_scheme tenv \<Rightarrow> val \<Rightarrow> ('z tworld_scheme, oid) tam" where
  "toCallableT T v = (case v of VObj f \<Rightarrow> if e_callable (t_env T) f then giveT f else throwT TypeErr | _ \<Rightarrow> throwT TypeErr)"

definition elem_or_undefined :: "'z tworld_scheme tenv \<Rightarrow> typedArrayObject \<Rightarrow> int \<Rightarrow> ('z tworld_scheme, val) tam" where
  "elem_or_undefined T ta k =
     bindT (isValidIntegerIndex ta k) (\<lambda>valid. if valid then elem_get T ta (ta_offset ta + k) else giveT VUndef)"

definition call_back :: "'z tworld_scheme tenv \<Rightarrow> typedArrayObject \<Rightarrow> oid \<Rightarrow> val \<Rightarrow> int \<Rightarrow> ('z tworld_scheme, val) tam" where
  "call_back T ta f this k =
     bindT (elem_or_undefined T ta k) (\<lambda>v. liftT (e_call (t_env T) f this [v, intToValue k, VObj (ta_val ta)]))"

fun first_index_with :: "('b \<Rightarrow> ('w, bool) tam) \<Rightarrow> 'b list \<Rightarrow> ('w, 'b option) tam" where
  "first_index_with body [] = giveT None"
| "first_index_with body (k # ks) = bindT (body k) (\<lambda>b. if b then giveT (Some k) else first_index_with body ks)"

definition typedArrayProto_every :: "'z tworld_scheme tenv \<Rightarrow> typedArrayObject \<Rightarrow> val list \<Rightarrow> ('z tworld_scheme, bool) tam" where
  "typedArrayProto_every T ta args =
     thenT (ensureNotDetached (viewedArrayBuf ta) True) (
     bindT (toCallableT T (argument args 0)) (\<lambda>f.
     bindT (first_index_with (\<lambda>k. bindT (call_back T ta f (argument args 1) k) (\<lambda>r. giveT (\<not> ToBoolean r))) [0 .. ta_length ta - 1]) (\<lambda>k.
       giveT (k = None))))"

definition typedArrayProto_some :: "'z tworld_scheme tenv \<Rightarrow> typedArrayObject \<Rightarrow> val list \<Rightarrow> ('z tworld_scheme, bool) tam" where
  "typedArrayProto_some T ta args =
     thenT (ensureNotDetached (viewedArrayBuf ta) True) (
     bindT (toCallableT T (argument args 0)) (\<lambda>f.
     bindT (first_index_with (\<lambda>k. bindT (call_back T ta f (argument args 1) k) (\<lambda>r. giveT (ToBoolean r))) [0 .. ta_length ta - 1]) (\<lambda>k.
       giveT (k \<noteq> None))))"

definition typedArrayProto_findIndex :: "'z tworld_scheme tenv \<Rightarrow> typedArrayObject \<Rightarrow> val list \<Rightarrow> ('z tworld_scheme, val) tam" where
  "typedArrayProto_findIndex T ta args =
     thenT (ensureNotDetached (viewedArrayBuf ta) True) (
     bindT (toCallableT T (argument args 0)) (\<lambda>f.
     bindT (first_index_with (\<lambda>k. bindT (call_back T ta f (argument args 1) k) (\<lambda>r. giveT (ToBoolean r))) [0 .. ta_length ta - 1]) (\<lambda>k.
       giveT (case k of None \<Rightarrow> intToValue (- 1) | Some i \<Rightarrow> intToValue i))))"

definition typedArrayProto_findLastIndex :: "'z tworld_scheme tenv \<Rightarrow> typedArrayObject \<Rightarrow> val list \<Rightarrow> ('z tworld_scheme, val) tam" where
  "typedArrayProto_findLastIndex T ta args =
     thenT (ensureNotDetached (viewedArrayBuf ta) True) (
     bindT (toCallableT T (argument args 0)) (\<lambda>f.
     bindT (first_index_with (\<lambda>k. bindT (call_back T ta f (argument args 1) k) (\<lambda>r. giveT (ToBoolean r))) (rev [0 .. ta_length ta - 1])) (\<lambda>k.
       giveT (case k of None \<Rightarrow> intToValue (- 1) | Some i \<Rightarrow> intToValue i))))"

text \<open>\<^verbatim>\<open>map\<close> and \<^verbatim>\<open>of\<close> store into the object that a constructor returned; \<^verbatim>\<open>of\<close> uses the index without the offset of the view.\<close>

definition typedArrayProto_map :: "'z tworld_scheme tenv \<Rightarrow> typedArrayObject \<Rightarrow> val list \<Rightarrow> ('z tworld_scheme, val) tam" where
  "typedArrayProto_map T ta args =
     thenT (ensureNotDetached (viewedArrayBuf ta) True) (
     bindT (toCallableT T (argument args 0)) (\<lambda>f.
     bindT (typedArraySpeciesCreate T ta [intToValue (ta_length ta)]) (\<lambda>dst.
     thenT (forT [0 .. ta_length ta - 1] (\<lambda>i. bindT (call_back T ta f (argument args 1) i) (elem_set T dst (ta_offset dst + i))))
       (giveT (VObj (ta_val dst))))))"

definition typedArray_of :: "'z tworld_scheme tenv \<Rightarrow> oid \<Rightarrow> val list \<Rightarrow> ('z tworld_scheme, val) tam" where
  "typedArray_of T ctor args =
     (let n = [intToValue (int (length args))] in
      bindT (typedArrayCreate (t_construct T ctor n) n) (\<lambda>ta.
      thenT (forT [0 .. int (length args) - 1] (\<lambda>i. elem_set T ta i (args ! nat i)))
        (giveT (VObj (ta_val ta)))))"

text \<open>The comparison and the exchange that \<^verbatim>\<open>sort.Stable\<close> calls, with the fields \<^verbatim>\<open>needValidate\<close> and \<^verbatim>\<open>detached\<close> of the context.\<close>

record typedArraySortCtx =
  sc_ta :: typedArrayObject
  sc_compare :: "oid option"
  needValidate :: bool
  sc_detached :: bool

definition checkDetached :: "typedArraySortCtx \<Rightarrow> ('z tworld_scheme, typedArraySortCtx) tam" where
  "checkDetached ctx =
     (if \<not> sc_detached ctx \<and> needValidate ctx then
        bindT (ensureNotDetached (viewedArrayBuf (sc_ta ctx)) False) (\<lambda>ok.
          giveT (ctx\<lparr>sc_detached := \<not> ok, needValidate := False\<rparr>))
      else giveT ctx)"

definition sort_Less :: "'z tworld_scheme tenv \<Rightarrow> typedArraySortCtx \<Rightarrow> int \<Rightarrow> int \<Rightarrow> ('z tworld_scheme, bool \<times> typedArraySortCtx) tam" where
  "sort_Less T ctx0 i j =
     bindT (checkDetached ctx0) (\<lambda>ctx.
       if sc_detached ctx then giveT (False, ctx)
       else
         let ta = sc_ta ctx in
         (case sc_compare ctx of
            Some f \<Rightarrow>
              bindT (elem_get T ta (ta_offset ta + i)) (\<lambda>x. bindT (elem_get T ta (ta_offset ta + j)) (\<lambda>y.
              bindT (liftT (bindM (e_call (t_env T) f VUndef [x, y]) (ToNumber (t_env T)))) (\<lambda>res.
                giveT (case res of
                         VInt n \<Rightarrow> n < 0
                       | _ \<Rightarrow> let f = num_float res in
                           if flt f (f64_zero False) then True else if flt (f64_zero False) f then False else f64_sign f,
                       ctx\<lparr>needValidate := True\<rparr>))))
          | None \<Rightarrow> bindT (elem_less T ta (ta_offset ta + i) (ta_offset ta + j)) (\<lambda>r. giveT (r, ctx))))"

definition sort_Swap :: "typedArraySortCtx \<Rightarrow> int \<Rightarrow> int \<Rightarrow> ('z tworld_scheme, typedArraySortCtx) tam" where
  "sort_Swap ctx0 i j =
     bindT (checkDetached ctx0) (\<lambda>ctx.
       if sc_detached ctx then giveT ctx
       else thenT (elem_swap (sc_ta ctx) (ta_offset (sc_ta ctx) + i) (ta_offset (sc_ta ctx) + j)) (giveT ctx))"

section \<open>Construction\<close>

definition new_buffer :: "bool \<Rightarrow> (nat \<times> nat) option \<Rightarrow> ('z tworld_scheme, nat) tam" where
  "new_buffer det d w = (Done (length (buffers w)), w\<lparr>buffers := buffers w @ [\<lparr>detached = det, ab_data = d\<rparr>]\<rparr>)"

definition allocByteSlice :: "int \<Rightarrow> ('z tworld_scheme, (nat \<times> nat) option) tam" where
  "allocByteSlice n w =
     (if n < 0 then (Throws RangeErr, w)
      else (Done (Some (length (blocks w), nat n)), w\<lparr>blocks := blocks w @ [replicate (nat n) 0]\<rparr>))"

text \<open>A new typed array, the object \<open>o\<close>, over a buffer of its own; the prototype is read first.\<close>

definition allocateTypedArray :: "'z tworld_scheme tenv \<Rightarrow> oid \<Rightarrow> elemKind \<Rightarrow> int \<Rightarrow> ('z tworld_scheme, typedArrayObject) tam" where
  "allocateTypedArray T o' k len =
     thenT (liftT (t_prototype T)) (
     bindT (if 0 < len then allocByteSlice (len * int (elemSize k)) else giveT None) (\<lambda>d.
     bindT (new_buffer False d) (\<lambda>b.
       giveT \<lparr>ta_val = o', viewedArrayBuf = b, ta_kind = k, ta_length = len, ta_offset = 0\<rparr>)))"

definition typedArrayProto_toReversed :: "'z tworld_scheme tenv \<Rightarrow> oid \<Rightarrow> typedArrayObject \<Rightarrow> ('z tworld_scheme, val) tam" where
  "typedArrayProto_toReversed T o' ta =
     thenT (ensureNotDetached (viewedArrayBuf ta) True) (
     let len = ta_length ta in
     bindT (allocateTypedArray (T\<lparr>t_prototype := ret ()\<rparr>) o' (ta_kind ta) len) (\<lambda>a.
     thenT (forT [0 .. len - 1] (\<lambda>k.
              bindT (elem_get T ta (ta_offset ta + (len - k - 1))) (\<lambda>v. elem_set T a k v)))
       (giveT (VObj (ta_val a)))))"

definition typedArrayProto_with :: "'z tworld_scheme tenv \<Rightarrow> oid \<Rightarrow> typedArrayObject \<Rightarrow> val list \<Rightarrow> ('z tworld_scheme, val) tam" where
  "typedArrayProto_with T o' ta args =
     thenT (ensureNotDetached (viewedArrayBuf ta) True) (
     let len = ta_length ta in
     bindT (toIntegerT T (argument args 0)) (\<lambda>relativeIndex.
       let actualIndex = (if 0 \<le> relativeIndex then relativeIndex else len + relativeIndex) in
       bindT (element_value T (ta_kind ta) (argument args 1)) (\<lambda>numericValue.
       bindT (isValidIntegerIndex ta actualIndex) (\<lambda>valid.
         if \<not> valid then throwT RangeErr
         else
           bindT (allocateTypedArray (T\<lparr>t_prototype := ret ()\<rparr>) o' (ta_kind ta) len) (\<lambda>a.
           bindT (bufferData (viewedArrayBuf a)) (\<lambda>adata. bindT (bufferData (viewedArrayBuf ta)) (\<lambda>data.
           bindT (goSlice adata 0 (data_len adata)) (\<lambda>dst.
           bindT (goSlice data (ta_offset ta * ta_size ta) (data_len data)) (\<lambda>src.
           thenT (goCopy dst (data_len adata) src (data_len data - ta_offset ta * ta_size ta))
             (thenT (elem_set T a actualIndex numericValue) (giveT (VObj (ta_val a))))))))))))) "

definition toIndexT :: "'z tworld_scheme tenv \<Rightarrow> val \<Rightarrow> ('z tworld_scheme, int) tam" where
  "toIndexT T v = bindT (toIntegerT T v) (\<lambda>n. if 0 \<le> n \<and> n < maxInt then giveT n else throwT RangeErr)"

text \<open>
  A typed array over an existing buffer; the object and its prototype are made first. Two of the errors put the \<^verbatim>\<open>name\<close> of the constructor in
  their text: reading it can run user code and throw, while what its conversion throws is caught by the formatting.
\<close>

definition rangeErrorNamed :: "'z tworld_scheme tenv \<Rightarrow> oid \<Rightarrow> ('z tworld_scheme, 'a) tam" where
  "rangeErrorNamed T newTarget =
     bindT (liftT (e_getStr (t_env T) newTarget (ascii ''name''))) (\<lambda>v w.
       case v of None \<Rightarrow> (Throws RangeErr, w) | Some x \<Rightarrow> (Throws RangeErr, snd (stringT T x w)))"

definition newTypedArrayFromArrayBuffer ::
    "'z tworld_scheme tenv \<Rightarrow> oid \<Rightarrow> oid \<Rightarrow> elemKind \<Rightarrow> nat \<Rightarrow> val \<Rightarrow> val \<Rightarrow> ('z tworld_scheme, typedArrayObject) tam" where
  "newTypedArrayFromArrayBuffer T newTarget o' k ab offsetArg lengthArg =
     (let sz = int (elemSize k) in
      thenT (liftT (t_prototype T)) (
      bindT (if offsetArg = VUndef then giveT 0
             else bindT (toIndexT T offsetArg) (\<lambda>n. if n mod sz \<noteq> 0 then rangeErrorNamed T newTarget else giveT n)) (\<lambda>byteOffset.
      bindT (if lengthArg \<noteq> VUndef then
               bindT (toIndexT T lengthArg) (\<lambda>len.
               thenT (ensureNotDetached ab True) (
               bindT (bufferData ab) (\<lambda>d. if data_len d < byteOffset + len * sz then throwT RangeErr else giveT len)))
             else
               thenT (ensureNotDetached ab True) (
               bindT (bufferData ab) (\<lambda>d.
                 if data_len d mod sz \<noteq> 0 then rangeErrorNamed T newTarget
                 else
                   let len = quo (data_len d - byteOffset) sz in
                   if len < 0 then throwT RangeErr else giveT len))) (\<lambda>len.
        giveT \<lparr>ta_val = o', viewedArrayBuf = ab, ta_kind = k, ta_length = len, ta_offset = quo byteOffset sz\<rparr>))))"

definition newDataView :: "'z tworld_scheme tenv \<Rightarrow> nat \<Rightarrow> val list \<Rightarrow> ('z tworld_scheme, dataViewObject) tam" where
  "newDataView T ab args =
     bindT (if 1 < length args then
              bindT (toIndexT T (argument args 1)) (\<lambda>n.
              thenT (ensureNotDetached ab True) (
              bindT (bufferData ab) (\<lambda>d. if data_len d < n then throwT RangeErr else giveT n)))
            else giveT 0) (\<lambda>byteOff.
     bindT (if 2 < length args \<and> argument args 2 \<noteq> VUndef then
              bindT (toIndexT T (argument args 2)) (\<lambda>n.
              bindT (bufferData ab) (\<lambda>d. if data_len d < byteOff + n then throwT RangeErr else giveT n))
            else bindT (bufferData ab) (\<lambda>d. giveT (data_len d - byteOff))) (\<lambda>len.
     thenT (liftT (t_prototype T)) (
     thenT (ensureNotDetached ab True) (
     bindT (bufferData ab) (\<lambda>d.
       if data_len d < byteOff then throwT RangeErr
       else if data_len d < byteOff + len then throwT RangeErr
       else giveT \<lparr>dv_viewedArrayBuf = ab, byteLen = len, byteOffset = byteOff\<rparr>)))))"

section \<open>Data views and buffers\<close>

definition getIdxAndByteOrder :: "dataViewObject \<Rightarrow> int \<Rightarrow> val \<Rightarrow> int \<Rightarrow> ('z tworld_scheme, int \<times> bool) tam" where
  "getIdxAndByteOrder dv getIdx littleEndianVal sz =
     thenT (ensureNotDetached (dv_viewedArrayBuf dv) True)
       (if byteLen dv < getIdx + sz then throwT RangeErr
        else giveT (getIdx + byteOffset dv, ToBoolean littleEndianVal))"

text \<open>
  Reading and writing an unsigned integer of \<open>n\<close> bytes at an index, in the order of the machine or reversed. The setter of four bytes, and only that
  one, checks again that the buffer is attached.
\<close>

definition buffer_get :: "'z tworld_scheme tenv \<Rightarrow> nat \<Rightarrow> nat \<Rightarrow> int \<Rightarrow> bool \<Rightarrow> ('z tworld_scheme, int) tam" where
  "buffer_get T b n idx order =
     bindT (bufferData b) (\<lambda>d. bindT (goSlice d idx (idx + int n)) (\<lambda>p. bindT (peek p n) (\<lambda>bs.
       giveT (of_bytes (t_native T) (if order = t_native T then bs else rev bs)))))"

definition buffer_set :: "'z tworld_scheme tenv \<Rightarrow> nat \<Rightarrow> nat \<Rightarrow> int \<Rightarrow> int \<Rightarrow> bool \<Rightarrow> ('z tworld_scheme, unit) tam" where
  "buffer_set T b n idx v order =
     thenT (if n = 4 then ensureNotDetached b True else giveT True) (
     bindT (bufferData b) (\<lambda>d.
       if order = t_native T then
         (if 0 \<le> idx \<and> idx < data_len d then poke (typedArrayPtr d idx 1) (to_bytes (t_native T) n v) else crashT)
       else bindT (goSlice d idx (idx + int n)) (\<lambda>p. poke p (rev (to_bytes (t_native T) n v)))))"

definition dataViewProto_get :: "'z tworld_scheme tenv \<Rightarrow> elemKind \<Rightarrow> dataViewObject \<Rightarrow> val list \<Rightarrow> ('z tworld_scheme, val) tam" where
  "dataViewProto_get T k dv args =
     bindT (if is_big k then bindT (liftT (ToNumber (t_env T) (argument args 0))) (toIndexT T) else toIndexT T (argument args 0)) (\<lambda>i.
     bindT (getIdxAndByteOrder dv i (argument args 1) (int (elemSize k))) (\<lambda>(idx, order).
     bindT (buffer_get T (dv_viewedArrayBuf dv) (elemSize k) idx order) (\<lambda>b.
       giveT (el_get (elem (t_cvt T) k :: 'z tworld_scheme elemType) b))))"

definition dataViewProto_set :: "'z tworld_scheme tenv \<Rightarrow> elemKind \<Rightarrow> dataViewObject \<Rightarrow> val list \<Rightarrow> ('z tworld_scheme, unit) tam" where
  "dataViewProto_set T k dv args =
     bindT (toIndexT T (argument args 0)) (\<lambda>i.
     bindT (liftT (el_input (elem (t_cvt T) k) (t_env T) (argument args 1))) (\<lambda>n.
     bindT (getIdxAndByteOrder dv i (argument args 2) (int (elemSize k))) (\<lambda>(idx, order).
       buffer_set T (dv_viewedArrayBuf dv) (elemSize k) idx (el_bits (elem (t_cvt T) k :: 'z tworld_scheme elemType) n) order)))"

definition detach :: "nat \<Rightarrow> ('z tworld_scheme, unit) tam" where
  "detach b w = (Done (), w\<lparr>buffers := (buffers w)[b := \<lparr>detached = True, ab_data = None\<rparr>]\<rparr>)"

definition arrayBufferCopyAndDetach :: "'z tworld_scheme tenv \<Rightarrow> nat \<Rightarrow> val \<Rightarrow> ('z tworld_scheme, nat) tam" where
  "arrayBufferCopyAndDetach T b newLength =
     bindT (if newLength = VUndef then bindT (bufferData b) (\<lambda>d. giveT (data_len d)) else toIndexT T newLength) (\<lambda>newByteLength.
     thenT (ensureNotDetached b True) (
     bindT (bufferData b) (\<lambda>old.
     bindT (if newByteLength \<le> data_len old then giveT (map_option (\<lambda>(blk, _). (blk, nat newByteLength)) old)
            else
              bindT (allocByteSlice newByteLength) (\<lambda>d.
              bindT (goSlice d 0 newByteLength) (\<lambda>dst. bindT (goSlice old 0 (data_len old)) (\<lambda>src.
              thenT (goCopy dst newByteLength src (data_len old)) (giveT d))))) (\<lambda>d.
     thenT (detach b) (new_buffer False d)))))"

definition arrayBufferProto_slice :: "'z tworld_scheme tenv \<Rightarrow> nat \<Rightarrow> val list \<Rightarrow> ('z tworld_scheme, nat) tam" where
  "arrayBufferProto_slice T b args =
     thenT (ensureNotDetached b True) (
     bindT (bufferData b) (\<lambda>d0.
       let l = data_len d0 in
       bindT (rel_arg T (argument args 0) l) (\<lambda>begin.
       bindT (end_arg T (argument args 1) l) (\<lambda>stop.
         let newLen = max (stop - begin) 0 in
         bindT (liftT (t_speciesBuffer T b [intToValue newLen])) (\<lambda>r.
           case r of
             None \<Rightarrow> throwT TypeErr
           | Some ab \<Rightarrow>
               thenT (ensureNotDetached b True) (
               if ab = b then throwT TypeErr
               else
                 bindT (bufferData ab) (\<lambda>ad.
                   if data_len ad < newLen then throwT TypeErr
                   else
                     thenT (ensureNotDetached ab True) (
                     if 0 < newLen then
                       bindT (bufferData b) (\<lambda>d.
                       bindT (goSlice ad 0 (data_len ad)) (\<lambda>dst. bindT (goSlice d begin stop) (\<lambda>src.
                       thenT (goCopy dst (data_len ad) src (stop - begin)) (giveT ab))))
                     else giveT ab))))))))"

end
