(* ===== verification/Typed_Safety.thy ===== *)
theory Typed_Safety
  imports Typed_Arrays
begin

text \<open>
  Memory safety of typed arrays and data views: whatever user code does when the engine calls it, in particular when it detaches
  buffers in the middle of an operation, no unchecked access leaves the memory of a buffer and no bounds check of Go fails. The
  locale \<open>user_code\<close> states what user code can do; the methods are proved safe in it.
\<close>

section \<open>Safety of memory\<close>

text \<open>
  A world is good when every slice lies in a block. It evolves by new blocks and buffers, by changes of bytes and by
  detaching: a buffer keeps its slice until it is detached, for good, and no block is ever shortened.
\<close>

definition good :: "'z tworld_scheme \<Rightarrow> bool" where
  "good w \<longleftrightarrow> (\<forall>b < length (buffers w). case ab_data (buffers w ! b) of
     None \<Rightarrow> True
   | Some (k, n) \<Rightarrow> \<not> detached (buffers w ! b) \<and> k < length (blocks w) \<and> n \<le> length (blocks w ! k) \<and> int n < 2 ^ 53)"

definition evolves :: "'z tworld_scheme \<Rightarrow> 'z tworld_scheme \<Rightarrow> bool" where
  "evolves w w' \<longleftrightarrow>
     length (blocks w) \<le> length (blocks w') \<and> (\<forall>k < length (blocks w). length (blocks w' ! k) = length (blocks w ! k)) \<and>
     length (buffers w) \<le> length (buffers w') \<and>
     (\<forall>b < length (buffers w). buffers w' ! b = buffers w ! b \<or> detached (buffers w' ! b) \<and> ab_data (buffers w' ! b) = None)"

definition valid_view :: "'z tworld_scheme \<Rightarrow> typedArrayObject \<Rightarrow> bool" where
  "valid_view w ta \<longleftrightarrow>
     viewedArrayBuf ta < length (buffers w) \<and> 0 \<le> ta_offset ta \<and> 0 \<le> ta_length ta \<and>
     (\<not> detached (buffers w ! viewedArrayBuf ta) \<longrightarrow>
        (ta_offset ta + ta_length ta) * ta_size ta \<le> data_len (ab_data (buffers w ! viewedArrayBuf ta)))"

definition live :: "'z tworld_scheme \<Rightarrow> nat \<Rightarrow> bool" where
  "live w b \<longleftrightarrow> \<not> detached (buffers w ! b)"

lemma evolves_refl [simp]: "evolves w w"
  by (simp add: evolves_def)

lemma evolves_trans: "evolves w w1 \<Longrightarrow> evolves w1 w2 \<Longrightarrow> evolves w w2"
  unfolding evolves_def by (smt (verit) order_trans less_le_trans)

lemma valid_view_evolves: "valid_view w ta \<Longrightarrow> evolves w w' \<Longrightarrow> valid_view w' ta"
  unfolding valid_view_def evolves_def by (metis less_le_trans)

lemma live_evolves: "evolves w w' \<Longrightarrow> b < length (buffers w) \<Longrightarrow> live w' b \<Longrightarrow> buffers w' ! b = buffers w ! b \<and> live w b"
  unfolding live_def evolves_def by metis

lemma valid_access_evolves: "valid_access (blocks w) p n \<Longrightarrow> evolves w w' \<Longrightarrow> valid_access (blocks w') p n"
  unfolding valid_access_def evolves_def by (auto split: option.splits)

lemma elemSize_size [simp]: "el_size (elem cvt k) = elemSize k"
  by (cases k) (simp_all add: elemSize_def element_types)

lemma elemSize_pos [simp]: "0 < elemSize k"
  using elem.size_pos [of undefined k] by simp

lemma is_big_elem [simp]: "el_big (elem cvt k) = is_big k"
  by (cases k) (simp_all add: is_big_def element_types)

lemma view_access:
  assumes "good w" "valid_view w ta" "live w (viewedArrayBuf ta)" "0 \<le> i" "0 < n" "i + int n \<le> ta_length ta"
  shows "valid_access (blocks w) (typedArrayPtr (ab_data (buffers w ! viewedArrayBuf ta)) (ta_offset ta + i) (elemSize (ta_kind ta)))
    (n * elemSize (ta_kind ta))"
proof -
  let ?d = "ab_data (buffers w ! viewedArrayBuf ta)"
  have b: "viewedArrayBuf ta < length (buffers w)" "0 \<le> ta_offset ta" "(ta_offset ta + ta_length ta) * ta_size ta \<le> data_len ?d"
    using assms(2,3) by (auto simp: valid_view_def live_def)
  have "0 < (ta_offset ta + ta_length ta) * ta_size ta" using b(2) assms(4,5,6) by simp
  then obtain k m where d: "?d = Some (k, m)" using b(3) by (cases ?d) (auto simp: data_len_def)
  have km: "k < length (blocks w)" "m \<le> length (blocks w ! k)"
    using assms(1) b(1) d unfolding good_def by (metis (no_types, lifting) case_prodD option.simps(5))+
  have "(ta_offset ta + i) * ta_size ta + int n * ta_size ta = (ta_offset ta + (i + int n)) * ta_size ta" by (simp add: algebra_simps)
  also have "\<dots> \<le> (ta_offset ta + ta_length ta) * ta_size ta" using assms(6) by (intro mult_right_mono) auto
  also have "\<dots> \<le> int m" using b(3) d by (simp add: data_len_def)
  finally have "(ta_offset ta + i) * ta_size ta + int (n * elemSize (ta_kind ta)) \<le> int (length (blocks w ! k))" using km(2) by simp
  moreover have "0 \<le> (ta_offset ta + i) * ta_size ta" using b(2) assms(4) by simp
  ultimately have "nat ((ta_offset ta + i) * ta_size ta) + n * elemSize (ta_kind ta) \<le> length (blocks w ! k)" by linarith
  then show ?thesis using d km(1) \<open>0 \<le> (ta_offset ta + i) * ta_size ta\<close> by (simp add: valid_access_def typedArrayPtr_def)
qed

subsection \<open>Rules\<close>

text \<open>\<open>ok m w Q\<close>: from \<open>w\<close> the computation does not crash, the world stays good and evolves, and \<open>Q\<close> holds of a result.\<close>

definition ok :: "('z tworld_scheme, 'a) tam \<Rightarrow> 'z tworld_scheme \<Rightarrow> ('a \<Rightarrow> 'z tworld_scheme \<Rightarrow> bool) \<Rightarrow> bool" where
  "ok m w Q = (case m w of
     (Done x, w') \<Rightarrow> good w' \<and> evolves w w' \<and> Q x w'
   | (Throws _, w') \<Rightarrow> good w' \<and> evolves w w'
   | (Crash, _) \<Rightarrow> False)"

named_theorems ok_intro \<open>safety of the parts of a method\<close>

lemma ok_give [ok_intro]: "good w \<Longrightarrow> Q x w \<Longrightarrow> ok (giveT x) w Q"
  by (simp add: ok_def giveT_def)

lemma ok_throw [ok_intro]: "good w \<Longrightarrow> ok (throwT e) w Q"
  by (simp add: ok_def throwT_def)

lemma ok_bind [ok_intro]: "ok m w (\<lambda>x w'. ok (k x) w' Q) \<Longrightarrow> ok (bindT m k) w Q"
  unfolding ok_def bindT_def by (auto split: outcome.splits prod.splits dest: evolves_trans)

lemma ok_then [ok_intro]: "ok m w (\<lambda>_ w'. ok m' w' Q) \<Longrightarrow> ok (thenT m m') w Q"
  unfolding thenT_def by (rule ok_bind)

lemma ok_if [ok_intro]: "(b \<Longrightarrow> ok m w Q) \<Longrightarrow> (\<not> b \<Longrightarrow> ok m' w Q) \<Longrightarrow> ok (if b then m else m') w Q"
  by simp

lemma ok_weaken: "ok m w Q \<Longrightarrow> (\<And>x w'. good w' \<Longrightarrow> evolves w w' \<Longrightarrow> Q x w' \<Longrightarrow> R x w') \<Longrightarrow> ok m w R"
  unfolding ok_def by (auto split: outcome.splits prod.splits)

lemma ok_ensure [ok_intro]:
  "good w \<Longrightarrow> (live w b \<Longrightarrow> Q True w) \<Longrightarrow> (\<not> live w b \<Longrightarrow> \<not> throw \<Longrightarrow> Q False w) \<Longrightarrow> ok (ensureNotDetached b throw) w Q"
  by (auto simp: ok_def ensureNotDetached_def live_def)

lemma ok_data [ok_intro]: "good w \<Longrightarrow> Q (ab_data (buffers w ! b)) w \<Longrightarrow> ok (bufferData b) w Q"
  by (simp add: ok_def bufferData_def)

lemma ok_peek: "good w \<Longrightarrow> valid_access (blocks w) p n \<Longrightarrow> (\<And>bs. length bs = n \<Longrightarrow> Q bs w) \<Longrightarrow> ok (peek p n) w Q"
  by (auto simp: ok_def peek_def valid_access_def split: option.splits)

lemma length_splice: "i + length ys \<le> length xs \<Longrightarrow> length (splice xs i ys) = length xs"
  by (simp add: splice_def)

lemma poke_evolves:
  assumes "good w" "valid_access (blocks w) p (length bs)" "poke p bs w = (r, w')"
  shows "r = Done ()" "good w'" "evolves w w'" "buffers w' = buffers w"
proof -
  obtain b a where p: "p = Some (b, a)" "b < length (blocks w)" "nat a + length bs \<le> length (blocks w ! b)"
    using assms(2) by (auto simp: valid_access_def split: option.splits)
  have len: "length ((blocks w)[b := splice (blocks w ! b) (nat a) bs] ! k) = length (blocks w ! k)" if "k < length (blocks w)" for k
    using p that by (cases "k = b") (simp_all add: length_splice)
  have w': "w' = w\<lparr>blocks := (blocks w)[b := splice (blocks w ! b) (nat a) bs]\<rparr>" and r: "r = Done ()"
    using assms(2,3) p(1) by (auto simp: poke_def)
  show "r = Done ()" by (rule r)
  show "good w'" using assms(1) len unfolding good_def w' by (fastforce split: option.splits)
  show "evolves w w'" using len unfolding evolves_def w' by simp
  show "buffers w' = buffers w" unfolding w' by simp
qed

lemma ok_poke:
  assumes "good w" "valid_access (blocks w) p (length bs)"
    "\<And>w'. good w' \<Longrightarrow> evolves w w' \<Longrightarrow> buffers w' = buffers w \<Longrightarrow> Q () w'"
  shows "ok (poke p bs) w Q"
proof -
  obtain r w' where "poke p bs w = (r, w')" by (cases "poke p bs w")
  from poke_evolves [OF assms(1,2) this] this assms(3) show ?thesis by (simp add: ok_def)
qed

lemma ok_for:
  assumes "good w" "I w" "\<And>k w'. k \<in> set ks \<Longrightarrow> good w' \<Longrightarrow> I w' \<Longrightarrow> ok (body k) w' (\<lambda>_. I)"
  shows "ok (forT ks body) w (\<lambda>_. I)"
  using assms
proof (induction ks arbitrary: w)
  case Nil
  then show ?case by (simp add: ok_give)
next
  case (Cons k ks)
  have "ok (body k) w (\<lambda>_ w'. I w')" using Cons.prems by simp
  then have "ok (body k) w (\<lambda>_ w'. ok (forT ks body) w' (\<lambda>_. I))"
    by (rule ok_weaken) (use Cons.prems(3) in \<open>auto intro!: Cons.IH\<close>)
  then show ?case by (simp add: ok_bind)
qed

lemma ok_first_index_with:
  assumes "good w" "I w" "\<And>k w'. k \<in> set ks \<Longrightarrow> good w' \<Longrightarrow> I w' \<Longrightarrow> ok (body k) w' (\<lambda>_. I)"
  shows "ok (first_index_with body ks) w (\<lambda>_. I)"
  using assms
proof (induction ks arbitrary: w)
  case Nil
  then show ?case by (simp add: ok_give)
next
  case (Cons k ks)
  have "ok (body k) w (\<lambda>_ w'. I w')" using Cons.prems by simp
  then have "ok (body k) w (\<lambda>b w'. ok (if b then giveT (Some k) else first_index_with body ks) w' (\<lambda>_. I))"
    by (rule ok_weaken) (use Cons.prems(3) in \<open>auto intro!: Cons.IH ok_give\<close>)
  then show ?case by (simp add: ok_bind)
qed

subsection \<open>Elements\<close>

lemma view_elem:
  assumes "good w" "valid_view w ta" "live w (viewedArrayBuf ta)" "ta_offset ta \<le> idx" "idx < ta_offset ta + ta_length ta"
  shows "valid_access (blocks w) (typedArrayPtr (ab_data (buffers w ! viewedArrayBuf ta)) idx (elemSize (ta_kind ta))) (elemSize (ta_kind ta))"
  using view_access [OF assms(1,2,3), of "idx - ta_offset ta" 1] assms(4,5) by simp

lemma ok_elem_ptr [ok_intro]:
  "good w \<Longrightarrow> Q (typedArrayPtr (ab_data (buffers w ! viewedArrayBuf ta)) idx (elemSize (ta_kind ta))) w \<Longrightarrow> ok (elem_ptr ta idx) w Q"
  unfolding elem_ptr_def by (intro ok_intro)

lemma ok_elem_get:
  assumes "good w" "valid_view w ta" "live w (viewedArrayBuf ta)" "ta_offset ta \<le> idx" "idx < ta_offset ta + ta_length ta"
    "\<And>b. Q (el_get (elemOps T ta) b) w"
  shows "ok (elem_get T ta idx) w Q"
  unfolding elem_get_def using assms by (intro ok_intro ok_peek view_elem)

lemma ok_elem_less:
  assumes "good w" "valid_view w ta" "live w (viewedArrayBuf ta)" "ta_offset ta \<le> i" "i < ta_offset ta + ta_length ta"
    "ta_offset ta \<le> j" "j < ta_offset ta + ta_length ta" "\<And>b. Q b w"
  shows "ok (elem_less T ta i j) w Q"
  unfolding elem_less_def using assms by (intro ok_intro ok_peek view_elem)

lemma ok_elem_swap:
  assumes "good w" "valid_view w ta" "live w (viewedArrayBuf ta)" "ta_offset ta \<le> i" "i < ta_offset ta + ta_length ta"
    "ta_offset ta \<le> j" "j < ta_offset ta + ta_length ta" "\<And>w'. good w' \<Longrightarrow> evolves w w' \<Longrightarrow> buffers w' = buffers w \<Longrightarrow> Q () w'"
  shows "ok (elem_swap ta i j) w Q"
proof -
  note v = view_elem [OF assms(1,2,3)]
  show ?thesis
    unfolding elem_swap_def using assms
    by (intro ok_intro ok_peek ok_poke v) (auto dest: evolves_trans intro!: valid_access_evolves [OF v])
qed

lemma ok_elem_slice:
  assumes "good w" "valid_view w ta" "live w (viewedArrayBuf ta)" "ta_offset ta \<le> begin" "0 \<le> len"
    "begin + len \<le> ta_offset ta + ta_length ta" "\<And>xs. Q xs w"
  shows "ok (elem_slice T ta begin len) w Q"
proof (cases "len = 0")
  case True
  let ?d = "ab_data (buffers w ! viewedArrayBuf ta)"
  have p: "ok (peek p 0) w (\<lambda>bs w'. ok (giveT (elements (t_native T) (elemSize (ta_kind ta)) 0 bs)) w' Q)"
    if "typedArraySlice ?d begin (elemSize (ta_kind ta)) = Some p" for p
  proof (rule ok_peek)
    have 0: "0 \<le> begin" "begin * ta_size ta < data_len ?d"
      using that assms(2,4) by (auto simp: typedArraySlice_def valid_view_def split: if_splits)
    then have "0 < data_len ?d" using mult_nonneg_nonneg [of "begin" "ta_size ta"] by linarith
    then obtain k n where d: "?d = Some (k, n)" by (cases ?d) (auto simp: data_len_def)
    have "viewedArrayBuf ta < length (buffers w)" using assms(2) by (simp add: valid_view_def)
    then have "k < length (blocks w)" "n \<le> length (blocks w ! k)"
      using assms(1) d unfolding good_def by (metis (no_types, lifting) case_prodD option.simps(5))+
    then show "valid_access (blocks w) p 0"
      using that 0 d by (auto simp: typedArraySlice_def typedArrayPtr_def valid_access_def data_len_def nat_le_iff split: if_splits)
  qed (use assms in \<open>auto intro: ok_give\<close>)
  show ?thesis
    unfolding elem_slice_def
    by (intro ok_bind ok_data assms(1)) (use True p assms in \<open>auto intro!: ok_give ok_bind split: option.split\<close>)
next
  case False
  have v: "valid_access (blocks w) (typedArrayPtr (ab_data (buffers w ! viewedArrayBuf ta)) begin (elemSize (ta_kind ta))) (nat len * elemSize (ta_kind ta))"
    using view_access [OF assms(1,2,3), of "begin - ta_offset ta" "nat len"] assms(4,5,6) False by simp
  show ?thesis
    unfolding elem_slice_def
    by (intro ok_bind ok_data assms(1))
      (use v assms in \<open>auto intro!: ok_give ok_bind ok_peek simp: typedArraySlice_def split: option.split if_splits\<close>)
qed

lemma ok_elem_search:
  assumes "good w" "valid_view w ta" "live w (viewedArrayBuf ta)" "ta_offset ta \<le> begin" "0 \<le> len"
    "begin + len \<le> ta_offset ta + ta_length ta"
  shows "(\<And>i. Q i w) \<Longrightarrow> ok (elem_indexOf T ta v begin len) w Q" "(\<And>i. Q i w) \<Longrightarrow> ok (elem_lastIndexOf T ta v begin len) w Q"
    "(\<And>b. Q' b w) \<Longrightarrow> ok (elem_includes T ta v begin len) w Q'"
  unfolding elem_indexOf_def elem_lastIndexOf_def elem_includes_def
  by (auto intro!: ok_give ok_bind ok_elem_slice assms split: option.split)

text \<open>Slices and copies that Go checks.\<close>

lemma view_bounds:
  assumes "valid_view w ta" "live w (viewedArrayBuf ta)" "0 \<le> i" "i \<le> ta_length ta"
  shows "0 \<le> (ta_offset ta + i) * ta_size ta" "(ta_offset ta + i) * ta_size ta \<le> data_len (ab_data (buffers w ! viewedArrayBuf ta))"
proof -
  have v: "0 \<le> ta_offset ta" "(ta_offset ta + ta_length ta) * ta_size ta \<le> data_len (ab_data (buffers w ! viewedArrayBuf ta))"
    using assms(1,2) by (auto simp: valid_view_def live_def)
  have "(ta_offset ta + i) * ta_size ta \<le> (ta_offset ta + ta_length ta) * ta_size ta" using assms(4) by (intro mult_right_mono) auto
  then show "(ta_offset ta + i) * ta_size ta \<le> data_len (ab_data (buffers w ! viewedArrayBuf ta))" using v(2) by linarith
  show "0 \<le> (ta_offset ta + i) * ta_size ta" using v(1) assms(3) by simp
qed

lemma view_buffer: "valid_view w ta \<Longrightarrow> viewedArrayBuf ta < length (buffers w)"
  by (simp add: valid_view_def)

lemma ok_goSlice: "good w \<Longrightarrow> 0 \<le> i \<Longrightarrow> i \<le> j \<Longrightarrow> j \<le> data_len s \<Longrightarrow> Q (typedArrayPtr s i 1) w \<Longrightarrow> ok (goSlice s i j) w Q"
  unfolding goSlice_def by (simp add: ok_give)

lemma data_access:
  assumes "good w" "b < length (buffers w)" "0 \<le> i" "0 < n" "i + int n \<le> data_len (ab_data (buffers w ! b))"
  shows "valid_access (blocks w) (typedArrayPtr (ab_data (buffers w ! b)) i 1) n"
proof -
  obtain k m where d: "ab_data (buffers w ! b) = Some (k, m)"
    using assms(3,4,5) by (cases "ab_data (buffers w ! b)") (auto simp: data_len_def)
  have "k < length (blocks w)" "m \<le> length (blocks w ! k)"
    using assms(1,2) d unfolding good_def by (metis (no_types, lifting) case_prodD option.simps(5))+
  then show ?thesis using assms(3,5) d by (auto simp: valid_access_def typedArrayPtr_def data_len_def)
qed

lemma ok_goCopy:
  assumes "good w" "\<And>n. 0 < n \<Longrightarrow> int n \<le> dl \<Longrightarrow> int n \<le> sl \<Longrightarrow> valid_access (blocks w) dst n \<and> valid_access (blocks w) src n"
    "\<And>w'. good w' \<Longrightarrow> evolves w w' \<Longrightarrow> buffers w' = buffers w \<Longrightarrow> Q () w'"
  shows "ok (goCopy dst dl src sl) w Q"
proof (cases "nat (min dl sl) = 0")
  case True
  then show ?thesis unfolding goCopy_def using assms(1) assms(3) [of w] by (simp add: ok_give)
next
  case False
  have a: "valid_access (blocks w) dst (nat (min dl sl))" "valid_access (blocks w) src (nat (min dl sl))"
    using assms(2) [of "nat (min dl sl)"] False by (simp_all add: min_def split: if_splits)
  show ?thesis unfolding goCopy_def Let_def using False by (auto intro!: ok_bind ok_peek ok_poke assms(1,3) a)
qed

subsection \<open>User code\<close>

text \<open>What user code may do to buffers: let the world evolve. A constructor returns a typed array within the bounds of its buffer.\<close>

definition keeps :: "('z tworld_scheme, 'a) jsm \<Rightarrow> bool" where
  "keeps m \<longleftrightarrow> (\<forall>w. good w \<longrightarrow> good (snd (m w)) \<and> evolves w (snd (m w)))"

lemma keeps_ret [simp]: "keeps (ret x)" and keeps_throw [simp]: "keeps (throwM e)"
  by (simp_all add: keeps_def ret_def throwM_def)

lemma keeps_bind: "keeps m \<Longrightarrow> (\<And>x. keeps (k x)) \<Longrightarrow> keeps (bindM m k)"
  unfolding keeps_def bindM_def by (auto split: prod.splits sum.splits) (metis evolves_trans snd_conv)+

lemma ok_lift: "keeps m \<Longrightarrow> good w \<Longrightarrow> (\<And>x w'. m w = (Inr x, w') \<Longrightarrow> good w' \<Longrightarrow> evolves w w' \<Longrightarrow> Q x w') \<Longrightarrow> ok (liftT m) w Q"
  unfolding keeps_def ok_def liftT_def by (auto split: prod.splits sum.splits)

locale user_code =
  fixes T :: "'z tworld_scheme tenv"
  assumes getStr: "keeps (e_getStr (t_env T) x s)"
    and getSym: "keeps (e_getSym (t_env T) x n)"
    and call: "keeps (e_call (t_env T) f this vs)"
    and strToNumber: "is_content False (e_strToNumber (t_env T) s)"
    and species: "keeps (t_species T ta vs)"
    and species_view: "good w \<Longrightarrow> t_species T ta vs w = (Inr (Some ta'), w') \<Longrightarrow> valid_view w' ta'"
    and speciesBuffer: "keeps (t_speciesBuffer T b vs)"
    and speciesBuffer_exists: "t_speciesBuffer T b vs w = (Inr (Some b'), w') \<Longrightarrow> b' < length (buffers w')"
    and prototype: "keeps (t_prototype T)"
begin

lemma keeps_primitive: "keeps (Object_toPrimitiveNumber (t_env T) x)"
proof -
  have m: "keeps (toMethod (t_env T) v)" for v by (simp add: toMethod_def split: option.split val.split)
  have p: "keeps (tryPrimitive (t_env T) x s)" for s
    unfolding tryPrimitive_def by (intro keeps_bind getStr call) (auto intro!: keeps_bind call split: option.split val.split)
  show ?thesis
    unfolding Object_toPrimitiveNumber_def tryExoticToPrimitive_def ordinaryToPrimitiveNumber_def
    by (auto intro!: keeps_bind getSym m p call split: option.split val.split)
qed

lemma keeps_primitiveString: "keeps (Object_toPrimitiveString (t_env T) x)"
proof -
  have m: "keeps (toMethod (t_env T) v)" for v by (simp add: toMethod_def split: option.split val.split)
  have p: "keeps (tryPrimitive (t_env T) x s)" for s
    unfolding tryPrimitive_def by (intro keeps_bind getStr call) (auto intro!: keeps_bind call split: option.split val.split)
  show ?thesis
    unfolding Object_toPrimitiveString_def tryExoticToPrimitive_def ordinaryToPrimitiveString_def
    by (auto intro!: keeps_bind getSym m p call split: option.split val.split)
qed

lemma ok_stringT: "good w \<Longrightarrow> ok (stringT T v) w (\<lambda>_ _. True)"
proof -
  have p: "keeps (prim_toString (t_env T) x)" for x by (cases x) simp_all
  assume "good w"
  then show ?thesis
    unfolding stringT_def
    by (cases v) (auto intro!: ok_bind ok_lift keeps_primitiveString p ok_give split: val.split)
qed

lemma ok_rangeErrorNamed: "good w \<Longrightarrow> ok (rangeErrorNamed T newTarget) w Q"
proof -
  have "ok (\<lambda>w. (Throws RangeErr, snd (stringT T x w))) w' Q" if "good w'" for x w'
    using ok_stringT [OF that, of x] by (auto simp: ok_def split: prod.splits outcome.splits)
  moreover have "ok (\<lambda>w. (Throws RangeErr, w)) w' Q" if "good w'" for w' using that by (simp add: ok_def)
  moreover assume "good w"
  ultimately show ?thesis
    unfolding rangeErrorNamed_def by (intro ok_bind ok_lift getStr) (auto split: option.split simp: ok_def)
qed

lemma keeps_prims: "keeps (prim_ToNumber (t_env T) v)" "keeps (prim_ToFloat (t_env T) v)" "keeps (prim_toBigInt (t_env T) v)"
  by (cases v; simp add: prim_toBigInt_def split: option.split)+

lemma keeps_conversions:
  "keeps (ToNumber (t_env T) v)" "keeps (input_float (t_env T) v)" "keeps (input_bigint (t_env T) v)"
  unfolding ToNumber_def input_float_def ToFloat_def input_bigint_def toBigInt_def toPrimitiveNumber_def
  by (auto intro!: keeps_bind keeps_primitive keeps_prims split: val.split)

lemma keeps_input: "keeps (el_input (elem cvt k) (t_env T) v)"
  by (cases k) (simp_all add: element_types keeps_conversions)

lemma ok_toInteger [ok_intro]:
  "good w \<Longrightarrow> (\<And>n w'. good w' \<Longrightarrow> evolves w w' \<Longrightarrow> - (2 ^ 63) \<le> n \<Longrightarrow> n < 2 ^ 63 \<Longrightarrow> Q n w') \<Longrightarrow> ok (toIntegerT T v) w Q"
  unfolding toIntegerT_def using wrap_s_range [of 64]
  by (auto intro!: ok_bind ok_lift ok_give ok_throw keeps_bind keeps_primitive keeps_prims split: val.split)

lemma ok_rel_arg [ok_intro]:
  assumes "good w" "0 \<le> l" "\<And>n w'. good w' \<Longrightarrow> evolves w w' \<Longrightarrow> 0 \<le> n \<Longrightarrow> n \<le> l \<Longrightarrow> Q n w'"
  shows "ok (rel_arg T v l) w Q"
  unfolding rel_arg_def using assms by (auto intro!: ok_bind ok_toInteger ok_give simp: relToIdx_def)

lemma ok_end_arg [ok_intro]:
  assumes "good w" "0 \<le> l" "\<And>n w'. good w' \<Longrightarrow> evolves w w' \<Longrightarrow> 0 \<le> n \<Longrightarrow> n \<le> l \<Longrightarrow> Q n w'"
  shows "ok (end_arg T v l) w Q"
  unfolding end_arg_def using assms by (auto intro!: ok_rel_arg ok_give simp: relToIdx_def)

lemma ok_element_value [ok_intro]:
  assumes "good w" "\<And>n w'. good w' \<Longrightarrow> evolves w w' \<Longrightarrow> is_content (is_big k) n \<Longrightarrow> Q n w'"
  shows "ok (element_value T k v) w Q"
proof -
  have c: "is_content True n" if "input_bigint (t_env T) v w = (Inr n, w')" for n w w'
    using that by (auto simp: input_bigint_def bindM_def ret_def is_content_def split: prod.splits sum.splits)
  have n: "is_content False n" if "ToNumber (t_env T) v w = (Inr n, w')" for n w w'
    using ToNumber_content [OF _ that] strToNumber by blast
  show ?thesis
    unfolding element_value_def
    by (rule ok_lift) (use assms c n keeps_conversions in \<open>auto simp: is_big_def split: if_splits\<close>)
qed

lemma ok_elem_set:
  assumes "good w" "valid_view w ta" "live w (viewedArrayBuf ta)" "ta_offset ta \<le> idx" "idx < ta_offset ta + ta_length ta"
    "\<And>w'. good w' \<Longrightarrow> evolves w w' \<Longrightarrow> Q () w'"
  shows "ok (elem_set T ta idx v) w Q"
proof -
  note v = view_elem [OF assms(1-5)]
  show ?thesis
    unfolding elem_set_def
    by (intro ok_bind ok_elem_ptr assms(1) ok_lift keeps_input)
      (auto intro!: ok_poke valid_access_evolves [OF v] assms(6) dest: evolves_trans)
qed

lemma input_content_pure:
  assumes "is_content (is_big k) v"
  shows "\<exists>v'. el_bits (elem cvt k :: 'z tworld_scheme elemType) v' = el_bits (elem cvt k :: 'z tworld_scheme elemType) v \<and>
    (\<forall>E w. el_input (elem cvt k :: 'z tworld_scheme elemType) E v w = (Inr v', w))"
  by (rule elem.input_pure) (simp add: assms)

lemma ok_elem_set_content:
  assumes "good w" "valid_view w ta" "live w (viewedArrayBuf ta)" "ta_offset ta \<le> idx" "idx < ta_offset ta + ta_length ta"
    "is_content (is_big (ta_kind ta)) v" "\<And>w'. good w' \<Longrightarrow> evolves w w' \<Longrightarrow> buffers w' = buffers w \<Longrightarrow> Q () w'"
  shows "ok (elem_set T ta idx v) w Q"
proof -
  note va = view_elem [OF assms(1-5)]
  obtain v' where v': "\<And>w. el_input (elemOps T ta) (t_env T) v w = (Inr v', w)"
    using input_content_pure [OF assms(6)] by blast
  show ?thesis
    unfolding elem_set_def
    by (intro ok_bind ok_elem_ptr assms(1) ok_lift keeps_input) (use v' assms(7) in \<open>auto intro!: ok_poke va assms(1)\<close>)
qed

text \<open>The property operations on indices.\<close>

lemma getIdx_safe:
  assumes "good w" "valid_view w ta"
  shows "ok (ta_getIdx T ta idx) w (\<lambda>_ w'. w' = w)"
  unfolding ta_getIdx_def using assms by (auto intro!: ok_intro ok_elem_get)

lemma ok_valid_index [ok_intro]:
  "good w \<Longrightarrow> (live w (viewedArrayBuf ta) \<Longrightarrow> 0 \<le> idx \<Longrightarrow> idx < ta_length ta \<Longrightarrow> Q True w) \<Longrightarrow> Q False w \<Longrightarrow>
   ok (isValidIntegerIndex ta idx) w Q"
  unfolding isValidIntegerIndex_def by (auto intro!: ok_intro) (metis (full_types))

lemma putIdx_safe:
  assumes "good w" "valid_view w ta"
  shows "ok (ta_putIdx T ta idx v) w (\<lambda>_ w'. valid_view w' ta)"
  unfolding ta_putIdx_def using assms
  by (auto intro!: ok_intro ok_elem_set valid_view_evolves [OF assms(2)] intro: evolves_trans)

lemma defineIdxProperty_safe:
  assumes "good w" "valid_view w ta" "pd_value desc \<noteq> None"
  shows "ok (ta_defineIdxProperty T ext ta idx desc throw) w (\<lambda>_ w'. valid_view w' ta)"
  unfolding ta_defineIdxProperty_def ta_element_def using assms
  by (auto intro!: ok_intro ok_weaken [OF getIdx_safe] ok_weaken [OF putIdx_safe] split: sum.split option.split)

text \<open>The methods.\<close>

lemma ok_elem_fill:
  assumes "good w" "valid_view w ta" "live w (viewedArrayBuf ta)" "ta_offset ta \<le> begin" "0 < len"
    "begin + len \<le> ta_offset ta + ta_length ta" "is_content (is_big (ta_kind ta)) v"
    "\<And>w'. good w' \<Longrightarrow> evolves w w' \<Longrightarrow> buffers w' = buffers w \<Longrightarrow> Q () w'"
  shows "ok (elem_fill T ta v begin len) w Q"
proof -
  have v: "valid_access (blocks w) (typedArrayPtr (ab_data (buffers w ! viewedArrayBuf ta)) begin (elemSize (ta_kind ta))) (nat len * elemSize (ta_kind ta))"
    using view_access [OF assms(1,2,3), of "begin - ta_offset ta" "nat len"] assms(4,5,6) by simp
  obtain v' where v': "\<And>w. el_input (elemOps T ta) (t_env T) v w = (Inr v', w)"
    using input_content_pure [OF assms(7)] by blast
  have len: "length (concat (replicate (nat len) bs)) = nat len * elemSize (ta_kind ta)" if "length bs = elemSize (ta_kind ta)" for bs :: "8 word list"
    using that by (simp add: length_concat sum_list_replicate)
  show ?thesis
    unfolding elem_fill_def
    by (intro ok_bind ok_data assms(1) ok_lift keeps_input)
      (use v' v assms(1,8) in \<open>auto intro!: ok_poke ok_give simp: typedArraySlice_def len split: option.split if_splits\<close>)
qed

lemma fill_safe:
  assumes "good w" "valid_view w ta"
  shows "ok (typedArrayProto_fill T ta args) w (\<lambda>_ _. True)"
proof -
  have l: "0 \<le> ta_length ta" using assms(2) by (simp add: valid_view_def)
  note vv = valid_view_evolves [OF assms(2)]
  show ?thesis
    unfolding typedArrayProto_fill_def Let_def
    by (auto intro!: ok_intro ok_elem_fill assms(1) l vv elim!: evolves_trans)
qed

lemma copyWithin_safe:
  assumes "good w" "valid_view w ta"
  shows "ok (typedArrayProto_copyWithin T ta args) w (\<lambda>_ _. True)"
proof -
  have l: "0 \<le> ta_length ta" using assms(2) by (simp add: valid_view_def)
  have copy: "ok (goSlice data ((ta_offset ta + to) * ta_size ta) (data_len data)) w' (\<lambda>dst w''.
         ok (bindT (goSlice data ((ta_offset ta + from') * ta_size ta) ((ta_offset ta + final) * ta_size ta)) (\<lambda>src.
         thenT (goCopy dst (data_len data - (ta_offset ta + to) * ta_size ta) src ((final - from') * ta_size ta))
           (giveT (VObj (ta_val ta))))) w'' (\<lambda>_ _. True))"
    if "good w'" "valid_view w' ta" "live w' (viewedArrayBuf ta)" "0 \<le> to" "to \<le> ta_length ta" "0 \<le> from'" "from' < final"
      "final \<le> ta_length ta" "data = ab_data (buffers w' ! viewedArrayBuf ta)" for w' to from' final data
  proof -
    have b: "0 \<le> (ta_offset ta + i) * ta_size ta \<and> (ta_offset ta + i) * ta_size ta \<le> data_len data" if "0 \<le> i" "i \<le> ta_length ta" for i
      using view_bounds [OF \<open>valid_view w' ta\<close> \<open>live w' _\<close> that] \<open>data = _\<close> by simp
    have m: "(ta_offset ta + from') * ta_size ta \<le> (ta_offset ta + final) * ta_size ta"
      using \<open>from' < final\<close> by (intro mult_right_mono) auto
    have e: "(ta_offset ta + from') * ta_size ta + (final - from') * ta_size ta = (ta_offset ta + final) * ta_size ta"
      by (simp add: algebra_simps)
    have acc: "valid_access (blocks w') (typedArrayPtr data i 1) n" if "0 \<le> i" "0 < n" "i + int n \<le> data_len data" for i n
      using data_access [OF \<open>good w'\<close> view_buffer [OF \<open>valid_view w' ta\<close>] that(1,2)] that(3) \<open>data = _\<close> by simp
    show ?thesis
      by (intro ok_intro ok_goSlice ok_goCopy TrueI \<open>good w'\<close> conjI acc)
        (use b [of to] b [of from'] b [of final] that m e in \<open>auto simp del: of_nat_mult\<close>)
  qed
  show ?thesis
    unfolding typedArrayProto_copyWithin_def Let_def
    by (auto intro!: ok_intro copy assms(1) l valid_view_evolves [OF assms(2)] elim!: evolves_trans)
qed

lemma reverse_safe:
  assumes "good w" "valid_view w ta"
  shows "ok (typedArrayProto_reverse ta) w (\<lambda>_ _. True)"
proof -
  have loop: "ok (forT [0 .. ta_length ta div 2 - 1] (\<lambda>lower. elem_swap ta (ta_offset ta + lower) (ta_offset ta + (ta_length ta - lower - 1)))) w
      (\<lambda>_ w'. valid_view w' ta \<and> live w' (viewedArrayBuf ta))" if "live w (viewedArrayBuf ta)"
  proof (rule ok_for)
    fix lower w'
    assume l: "lower \<in> set [0 .. ta_length ta div 2 - 1]" and w': "good w'" "valid_view w' ta \<and> live w' (viewedArrayBuf ta)"
    show "ok (elem_swap ta (ta_offset ta + lower) (ta_offset ta + (ta_length ta - lower - 1))) w'
      (\<lambda>_ w'. valid_view w' ta \<and> live w' (viewedArrayBuf ta))"
      by (rule ok_elem_swap) (use l w' valid_view_evolves [of w' ta] in \<open>auto simp: live_def\<close>)
  qed (use assms that in auto)
  show ?thesis
    unfolding typedArrayProto_reverse_def Let_def
    by (auto intro!: ok_intro assms(1) ok_weaken [OF loop])
qed

lemma search_safe:
  assumes "good w" "valid_view w ta"
  shows "ok (typedArrayProto_includes T ta args) w (\<lambda>_ _. True)" "ok (typedArrayProto_indexOf T ta args) w (\<lambda>_ _. True)"
    "ok (typedArrayProto_lastIndexOf T ta args) w (\<lambda>_ _. True)" "ok (typedArrayProto_at T ta args) w (\<lambda>_ _. True)"
proof -
  have l: "0 \<le> ta_length ta" using assms(2) by (simp add: valid_view_def)
  note vv = valid_view_evolves [OF assms(2)]
  show "ok (typedArrayProto_includes T ta args) w (\<lambda>_ _. True)"
    unfolding typedArrayProto_includes_def Let_def
    by (auto intro!: ok_intro ok_elem_search assms(1) l vv)
  show "ok (typedArrayProto_indexOf T ta args) w (\<lambda>_ _. True)"
    unfolding typedArrayProto_indexOf_def Let_def
    by (auto intro!: ok_intro ok_elem_search assms(1) l vv)
  show "ok (typedArrayProto_lastIndexOf T ta args) w (\<lambda>_ _. True)"
    unfolding typedArrayProto_lastIndexOf_def Let_def using l
    by (auto intro!: ok_intro ok_elem_search assms vv)
  show "ok (typedArrayProto_at T ta args) w (\<lambda>_ _. True)"
    unfolding typedArrayProto_at_def Let_def
    by (auto intro!: ok_intro ok_elem_get assms(1) vv)
qed

lemma ok_move_elem:
  assumes "good w" "valid_view w ta" "live w (viewedArrayBuf ta)" "valid_view w src" "live w (viewedArrayBuf src)"
    "ta_offset ta \<le> d + i" "d + i < ta_offset ta + ta_length ta" "ta_offset src \<le> s + i" "s + i < ta_offset src + ta_length src"
    "\<And>w'. good w' \<Longrightarrow> evolves w w' \<Longrightarrow> buffers w' = buffers w \<Longrightarrow> Q () w'"
  shows "ok (move_elem T ta d src s i) w Q"
proof -
  have k: "ok (elem_set T ta (d + i) v) w Q" if "is_content (is_big (ta_kind src)) v" for v
  proof (cases "is_big (ta_kind src) = is_big (ta_kind ta)")
    case True
    then show ?thesis using that assms by (intro ok_elem_set_content) auto
  next
    case False
    then have "is_content (\<not> is_big (ta_kind ta)) v" using that by (cases "is_big (ta_kind ta)") auto
    then have "el_input (elemOps T ta) (t_env T) v w' = (Inl TypeErr, w')" for w'
      by (intro elem.input_other) simp
    then show ?thesis
      unfolding elem_set_def using assms(1) by (intro ok_bind ok_elem_ptr ok_lift keeps_input) auto
  qed
  show ?thesis
    unfolding move_elem_def
    by (intro ok_bind ok_elem_get assms k) (use elem.get_content [of "t_cvt T" "ta_kind src"] in simp)
qed

lemma set_move_order:
  assumes "0 \<le> n"
  shows "set (move_order cd cs ds ss n) = {0 ..< n}"
  using assms by (auto simp: move_order_def Let_def)

end

subsection \<open>Copying between arrays\<close>

lemma view_length:
  assumes "good w" "valid_view w ta" "live w (viewedArrayBuf ta)"
  shows "ta_length ta < 2 ^ 53"
proof -
  have d: "data_len (ab_data (buffers w ! viewedArrayBuf ta)) < 2 ^ 53"
    using assms(1) view_buffer [OF assms(2)] by (fastforce simp: good_def data_len_def split: option.splits)
  have v: "0 \<le> ta_offset ta" "0 \<le> ta_length ta" "(ta_offset ta + ta_length ta) * ta_size ta \<le> data_len (ab_data (buffers w ! viewedArrayBuf ta))"
    using assms(2,3) by (auto simp: valid_view_def live_def)
  have "1 \<le> ta_size ta" using elemSize_pos [of "ta_kind ta"] by linarith
  then have "ta_offset ta + ta_length ta \<le> (ta_offset ta + ta_length ta) * ta_size ta"
    using v(1,2) mult_left_mono [of 1 "ta_size ta" "ta_offset ta + ta_length ta"] by simp
  then show ?thesis using v d by linarith
qed

lemma int64_sum:
  assumes "0 \<le> a" "a < 2 ^ 63" "0 \<le> b" "b < 2 ^ 63" "0 \<le> int64 (a + b)"
  shows "int64 (a + b) = a + b"
proof -
  have "a + b < 2 ^ 63"
  proof (rule ccontr)
    assume "\<not> a + b < 2 ^ 63"
    then have "(a + b + 2 ^ 63 - 2 ^ 64) mod 2 ^ 64 = a + b + 2 ^ 63 - 2 ^ 64"
      using assms by (intro mod_pos_pos_trivial) auto
    moreover have "(a + b + 2 ^ 63 - 2 ^ 64) mod 2 ^ 64 = (a + b + 2 ^ 63) mod 2 ^ 64" by (rule minus_mod_self2)
    ultimately have "int64 (a + b) = a + b - 2 ^ 64" by (simp add: wrap_s_def)
    then show False using assms by simp
  qed
  then show ?thesis using assms by (intro wrap_s_id) auto
qed

text \<open>The names of the constructors are read without effect: data properties with primitive values.\<close>

definition plain_names :: "'z tworld_scheme tenv \<Rightarrow> bool" where
  "plain_names T \<longleftrightarrow> (\<forall>k w. \<exists>b. big_name T (t_defaultCtor T k) w = (Done b, w))"

lemma ok_check:
  assumes "plain_names T" "good w" "Q () w"
  shows "ok (checkTypedArrayMixBigInt T (t_defaultCtor T k) (t_defaultCtor T k')) w Q"
proof -
  obtain b where b: "big_name T (t_defaultCtor T k) w = (Done b, w)" using assms(1) unfolding plain_names_def by blast
  obtain b' where b': "big_name T (t_defaultCtor T k') w = (Done b', w)" using assms(1) unfolding plain_names_def by blast
  show ?thesis using assms(2,3) by (simp add: checkTypedArrayMixBigInt_def bindT_def b b' throwT_def giveT_def ok_def)
qed

context user_code begin

lemma ok_byte_address:
  "good w \<Longrightarrow> 0 \<le> i \<Longrightarrow> i < data_len d \<Longrightarrow> (\<And>a. Q a w) \<Longrightarrow> ok (byte_address T d i) w Q"
  unfolding byte_address_def by (auto intro!: ok_give simp: data_len_def split: option.splits)

lemma set_typed_safe:
  assumes "good w" "valid_view w ta" "live w (viewedArrayBuf ta)" "valid_view w src" "0 \<le> n" "n < 2 ^ 63" "plain_names T"
  shows "ok (set_typed T ta src n) w (\<lambda>_ _. True)"
proof (cases "live w (viewedArrayBuf src) \<and> 0 \<le> int64 (ta_length src + n) \<and> int64 (ta_length src + n) \<le> ta_length ta")
  case False
  then show ?thesis
    unfolding set_typed_def Let_def using assms(1) by (auto intro!: ok_then ok_ensure ok_throw)
next
  case True
  define d where "d = ab_data (buffers w ! viewedArrayBuf ta)"
  define sd where "sd = ab_data (buffers w ! viewedArrayBuf src)"
  have l: "0 \<le> ta_length src" "0 \<le> ta_length ta" "0 \<le> ta_offset ta" "0 \<le> ta_offset src" using assms(2,4) by (auto simp: valid_view_def)
  have sum: "ta_length src + n \<le> ta_length ta"
    using int64_sum [OF l(1) _ assms(5,6)] view_length [OF assms(1,4)] True by simp
  note bd = view_bounds [OF assms(2,3), folded d_def] and bs = view_bounds [OF assms(4), folded sd_def]
  have acc: "valid_access (blocks w) (typedArrayPtr d i 1) m" if "0 \<le> i" "0 < m" "i + int m \<le> data_len d" for i m
    using data_access [OF assms(1) view_buffer [OF assms(2)] that(1,2)] that(3) by (simp add: d_def)
  have sacc: "valid_access (blocks w) (typedArrayPtr sd i 1) m" if "0 \<le> i" "0 < m" "i + int m \<le> data_len sd" for i m
    using data_access [OF assms(1) view_buffer [OF assms(4)] that(1,2)] that(3) by (simp add: sd_def)
  have e: "ta_offset src * ta_size src + ta_length src * ta_size src = (ta_offset src + ta_length src) * ta_size src"
    by (simp add: algebra_simps)
  have copy: "ok (goSlice d ((ta_offset ta + n) * ta_size ta) (data_len d)) w (\<lambda>dst w'. ok (bindT (bufferData (viewedArrayBuf src)) (\<lambda>sd.
      bindT (goSlice sd (ta_offset src * ta_size src) ((ta_offset src + ta_length src) * ta_size src)) (\<lambda>s.
        goCopy dst (data_len d - (ta_offset ta + n) * ta_size ta) s (ta_length src * ta_size src)))) w' (\<lambda>_ _. True))"
    by (intro ok_bind ok_data ok_goSlice ok_goCopy assms(1) TrueI conjI acc sacc [unfolded sd_def])
      (use bd [of n] bs [of 0] bs [of "ta_length src"] True sum l e assms(5) in \<open>auto simp flip: sd_def\<close>)
  have lt: "ta_offset src * ta_size src < data_len sd" "(ta_offset ta + n) * ta_size ta < data_len d" if "ta_length src \<noteq> 0"
  proof -
    have "ta_offset src * ta_size src < (ta_offset src + ta_length src) * ta_size src"
      using that l(1) by (intro mult_strict_right_mono) auto
    moreover have "(ta_offset src + ta_length src) * ta_size src \<le> data_len sd" using bs(2) [of "ta_length src"] True l(1) by simp
    ultimately show "ta_offset src * ta_size src < data_len sd" by linarith
    have "(ta_offset ta + n) * ta_size ta < (ta_offset ta + (n + ta_length src)) * ta_size ta"
      using that l(1) by (intro mult_strict_right_mono) auto
    moreover have "(ta_offset ta + (n + ta_length src)) * ta_size ta \<le> data_len d"
      using bd(2) [of "n + ta_length src"] sum l(1) assms(5) by simp
    ultimately show "(ta_offset ta + n) * ta_size ta < data_len d" by linarith
  qed
  have loop: "ok (forT (move_order cd cs (ta_size ta) (ta_size src) (ta_length src)) (move_elem T ta (ta_offset ta + n) src (ta_offset src))) w (\<lambda>_ _. True)"
    for cd cs
  proof (rule ok_weaken [where Q = "\<lambda>_ w'. (valid_view w' ta \<and> live w' (viewedArrayBuf ta)) \<and> (valid_view w' src \<and> live w' (viewedArrayBuf src))"])
    show "ok (forT (move_order cd cs (ta_size ta) (ta_size src) (ta_length src)) (move_elem T ta (ta_offset ta + n) src (ta_offset src))) w
      (\<lambda>_ w'. (valid_view w' ta \<and> live w' (viewedArrayBuf ta)) \<and> (valid_view w' src \<and> live w' (viewedArrayBuf src)))"
    proof (rule ok_for)
      fix i and w' :: "'z tworld_scheme"
      assume i: "i \<in> set (move_order cd cs (ta_size ta) (ta_size src) (ta_length src))" and w': "good w'"
        "(valid_view w' ta \<and> live w' (viewedArrayBuf ta)) \<and> (valid_view w' src \<and> live w' (viewedArrayBuf src))"
      show "ok (move_elem T ta (ta_offset ta + n) src (ta_offset src) i) w'
        (\<lambda>_ w'. (valid_view w' ta \<and> live w' (viewedArrayBuf ta)) \<and> (valid_view w' src \<and> live w' (viewedArrayBuf src)))"
        by (rule ok_move_elem)
          (use i w' sum l assms(5) set_move_order [OF l(1)] valid_view_evolves [of w'] in \<open>auto simp: live_def\<close>)
    qed (use assms True in auto)
  qed simp
  show ?thesis
    unfolding set_typed_def Let_def
    by (intro ok_then ok_ensure assms(1) ok_if ok_throw ok_check ok_bind ok_data ok_give TrueI assms(7))
      (use True lt l bs [of 0] bd [of n] sum assms(5) loop copy assms(1) in
        \<open>auto intro!: ok_bind ok_data ok_byte_address simp flip: d_def sd_def\<close>)
qed

lemma set_object_safe:
  assumes "good w" "valid_view w ta"
  shows "ok (set_object T ta src n) w (\<lambda>_ _. True)"
proof -
  have loop: "ok (forT ks (\<lambda>i. bindT (liftT (e_getStr (t_env T) src (valueInt_string i))) (\<lambda>v.
           bindT (isValidIntegerIndex ta (n + i)) (\<lambda>valid.
             if valid then elem_set T ta (ta_offset ta + n + i) (nilSafe v) else giveT ())))) w' (\<lambda>_ _. True)"
    if "good w'" "valid_view w' ta" for ks w'
  proof (rule ok_weaken [where Q = "\<lambda>_ w'. valid_view w' ta"], rule ok_for)
    fix i and w1 :: "'z tworld_scheme"
    assume w1: "good w1" "valid_view w1 ta"
    note vv = valid_view_evolves [OF w1(2)]
    show "ok (bindT (liftT (e_getStr (t_env T) src (valueInt_string i))) (\<lambda>v.
           bindT (isValidIntegerIndex ta (n + i)) (\<lambda>valid.
             if valid then elem_set T ta (ta_offset ta + n + i) (nilSafe v) else giveT ()))) w1 (\<lambda>_ w'. valid_view w' ta)"
      by (intro ok_bind ok_lift getStr w1(1)) (auto intro!: ok_intro ok_elem_set vv elim!: evolves_trans)
  qed (use that in auto)
  show ?thesis
    unfolding set_object_def toLengthT_def Let_def
    by (auto intro!: ok_intro ok_lift getStr assms(1) loop valid_view_evolves [OF assms(2)] elim!: evolves_trans split: option.split)
qed

lemma set_safe:
  assumes "good w" "valid_view w ta" "\<And>src. source = Inl src \<Longrightarrow> valid_view w src" "\<And>src. source = Inl src \<Longrightarrow> plain_names T"
  shows "ok (typedArrayProto_set T ta source v) w (\<lambda>_ _. True)"
proof (cases source)
  case (Inl src)
  show ?thesis
    unfolding typedArrayProto_set_def Inl
    by (auto intro!: ok_intro set_typed_safe assms(1) assms(4) [OF Inl] valid_view_evolves [OF assms(2)] valid_view_evolves [OF assms(3) [OF Inl]])
next
  case (Inr src)
  show ?thesis
    unfolding typedArrayProto_set_def Inr
    by (auto intro!: ok_intro set_object_safe assms(1) valid_view_evolves [OF assms(2)])
qed

lemma ok_create:
  assumes "good w" "\<And>dst w'. good w' \<Longrightarrow> evolves w w' \<Longrightarrow> valid_view w' dst \<Longrightarrow> live w' (viewedArrayBuf dst) \<Longrightarrow>
      (\<forall>l. args = [VInt l] \<longrightarrow> l \<le> ta_length dst) \<Longrightarrow> Q dst w'"
  shows "ok (typedArraySpeciesCreate T ta args) w Q"
  unfolding typedArraySpeciesCreate_def typedArrayCreate_def
  by (intro ok_bind ok_lift species assms(1))
    (auto intro!: ok_intro assms(2) dest: species_view [OF assms(1)] split: option.split list.split val.split)

lemma slice_loop_safe:
  assumes "good w" "valid_view w ta" "valid_view w dst" "live w (viewedArrayBuf dst)" "0 \<le> k" "k + count \<le> ta_length ta" "count \<le> ta_length dst"
  shows "ok (forT [0 .. count - 1] (\<lambda>i. thenT (ensureNotDetached (viewedArrayBuf ta) True)
      (move_elem T dst (ta_offset dst) ta (ta_offset ta + k) i))) w (\<lambda>_ _. True)"
proof (rule ok_weaken [where Q = "\<lambda>_ w'. valid_view w' ta \<and> valid_view w' dst \<and> live w' (viewedArrayBuf dst)"], rule ok_for)
  fix i and w1 :: "'z tworld_scheme"
  assume i: "i \<in> set [0 .. count - 1]" and w1: "good w1" "valid_view w1 ta \<and> valid_view w1 dst \<and> live w1 (viewedArrayBuf dst)"
  show "ok (thenT (ensureNotDetached (viewedArrayBuf ta) True) (move_elem T dst (ta_offset dst) ta (ta_offset ta + k) i)) w1
    (\<lambda>_ w'. valid_view w' ta \<and> valid_view w' dst \<and> live w' (viewedArrayBuf dst))"
    by (intro ok_then ok_ensure w1(1) ok_move_elem) (use i w1 assms(5-) valid_view_evolves [of w1] in \<open>auto simp: live_def\<close>)
qed (use assms in auto)

lemma ok_byte_loop:
  assumes "good w" "\<And>i. 0 \<le> i \<Longrightarrow> i < n \<Longrightarrow> valid_access (blocks w) (shift_ptr src i) 1 \<and> valid_access (blocks w) (shift_ptr dst i) 1"
  shows "ok (forT [0 .. n - 1] (\<lambda>i. bindT (peek (shift_ptr src i) 1) (poke (shift_ptr dst i)))) w (\<lambda>_ _. True)"
proof (rule ok_weaken [where Q = "\<lambda>_ w1. evolves w w1"], rule ok_for)
  fix i and w1 :: "'a tworld_scheme"
  assume i: "i \<in> set [0 .. n - 1]" and w1: "good w1" "evolves w w1"
  have "valid_access (blocks w1) (shift_ptr src i) 1" "valid_access (blocks w1) (shift_ptr dst i) 1"
    using assms(2) [of i] i valid_access_evolves [OF _ w1(2)] by auto
  then show "ok (bindT (peek (shift_ptr src i) 1) (poke (shift_ptr dst i))) w1 (\<lambda>_ w1. evolves w w1)"
    using w1 by (auto intro!: ok_bind ok_peek ok_poke elim: evolves_trans)
qed (use assms(1) in auto)

lemma shift_typedArrayPtr: "shift_ptr (typedArrayPtr x a 1) i = typedArrayPtr x (a + i) 1"
  by (cases x) (auto simp: shift_ptr_def typedArrayPtr_def)

lemma slice_copy_safe:
  assumes w: "good w" "valid_view w ta" "live w (viewedArrayBuf ta)" "valid_view w dst" "live w (viewedArrayBuf dst)"
    and k: "ta_kind dst = ta_kind ta" and c: "0 \<le> k" "0 < count" "k + count \<le> ta_length ta" "count \<le> ta_length dst"
    and d: "ddata = ab_data (buffers w ! viewedArrayBuf dst)" "data = ab_data (buffers w ! viewedArrayBuf ta)"
    and Q: "\<And>w'. good w' \<Longrightarrow> Q () w'"
  shows "ok (goSlice ddata (ta_offset dst * ta_size dst) (ta_offset dst * ta_size dst + count * ta_size ta)) w (\<lambda>dstBuf w1.
      ok (bindT (goSlice data ((ta_offset ta + k) * ta_size ta) ((ta_offset ta + k) * ta_size ta + count * ta_size ta)) (\<lambda>srcBuf.
      bindT (byte_address T ddata (ta_offset dst * ta_size dst)) (\<lambda>dstStart.
      bindT (byte_address T data ((ta_offset ta + k) * ta_size ta)) (\<lambda>srcStart.
        if dstStart \<le> srcStart \<or> srcStart + count * ta_size ta \<le> dstStart then goCopy dstBuf (count * ta_size ta) srcBuf (count * ta_size ta)
        else forT [0 .. count * ta_size ta - 1] (\<lambda>i. bindT (peek (shift_ptr srcBuf i) 1) (poke (shift_ptr dstBuf i))))))) w1 Q)"
proof -
  have B: "ta_offset dst * ta_size dst + count * ta_size ta = (ta_offset dst + count) * ta_size dst"
    "(ta_offset ta + k) * ta_size ta + count * ta_size ta = (ta_offset ta + (k + count)) * ta_size ta"
    using k by (simp_all add: algebra_simps)
  have p: "0 < count * ta_size ta" using c(2) by simp
  have b: "0 \<le> ta_offset dst * ta_size dst" "ta_offset dst * ta_size dst + count * ta_size ta \<le> data_len ddata"
    "0 \<le> (ta_offset ta + k) * ta_size ta" "(ta_offset ta + k) * ta_size ta + count * ta_size ta \<le> data_len data"
    unfolding B using view_bounds [OF w(4,5), of 0] view_bounds [OF w(4,5), of count] view_bounds [OF w(2,3), of k]
      view_bounds [OF w(2,3), of "k + count"] c d by simp_all
  have acc: "valid_access (blocks w) (typedArrayPtr ddata (ta_offset dst * ta_size dst + i) 1) m"
    "valid_access (blocks w) (typedArrayPtr data ((ta_offset ta + k) * ta_size ta + i) 1) m"
    if "0 \<le> i" "0 < m" "i + int m \<le> count * ta_size ta" for i m
    using data_access [OF w(1) view_buffer [OF w(4)], of "ta_offset dst * ta_size dst + i" m]
      data_access [OF w(1) view_buffer [OF w(2)], of "(ta_offset ta + k) * ta_size ta + i" m] b d that by auto
  have bytes: "ok (forT [0 .. count * ta_size ta - 1] (\<lambda>i. bindT (peek (shift_ptr (typedArrayPtr data ((ta_offset ta + k) * ta_size ta) 1) i) 1)
      (poke (shift_ptr (typedArrayPtr ddata (ta_offset dst * ta_size dst) 1) i)))) w (\<lambda>_ _. True)"
    by (rule ok_byte_loop [OF w(1)]) (use acc [of _ 1] in \<open>auto simp: shift_typedArrayPtr [simplified]\<close>)
  show ?thesis
    by (intro ok_bind ok_goSlice ok_if ok_byte_address ok_goCopy w(1) conjI ok_weaken [OF bytes] Q)
      (use b p acc [of 0] Q in auto)
qed

lemma slice_safe:
  assumes "good w" "valid_view w ta"
  shows "ok (typedArrayProto_slice T ta args) w (\<lambda>_ _. True)"
proof -
  have l: "0 \<le> ta_length ta" using assms(2) by (simp add: valid_view_def)
  note vv = valid_view_evolves [OF assms(2)]
  have step: "ok (typedArraySpeciesCreate T ta [intToValue count]) w' (\<lambda>dst w1.
      (count \<le> ta_length dst \<and> valid_view w1 dst \<and> live w1 (viewedArrayBuf dst)) \<and> evolves w' w1 \<and> good w1)"
    if "good w'" "0 \<le> count" "count < 2 ^ 53" for w' count
  proof -
    have "intToValue count = VInt count" using that(2,3) by (intro intToValue_small) (simp add: maxInt_def)
    then show ?thesis using that(1) by (intro ok_create) auto
  qed
  have finish: "ok (thenT
           (if ta_kind dst = ta_kind ta then
              (if 0 < count then
                 thenT (ensureNotDetached (viewedArrayBuf ta) True) (
                 bindT (bufferData (viewedArrayBuf dst)) (\<lambda>ddata. bindT (bufferData (viewedArrayBuf ta)) (\<lambda>data.
                   bindT (goSlice ddata (ta_offset dst * ta_size dst) (ta_offset dst * ta_size dst + count * ta_size ta)) (\<lambda>dstBuf.
                   bindT (goSlice data ((ta_offset ta + k) * ta_size ta) ((ta_offset ta + k) * ta_size ta + count * ta_size ta)) (\<lambda>srcBuf.
                   bindT (byte_address T ddata (ta_offset dst * ta_size dst)) (\<lambda>dstStart.
                   bindT (byte_address T data ((ta_offset ta + k) * ta_size ta)) (\<lambda>srcStart.
                     if dstStart \<le> srcStart \<or> srcStart + count * ta_size ta \<le> dstStart
                     then goCopy dstBuf (count * ta_size ta) srcBuf (count * ta_size ta)
                     else forT [0 .. count * ta_size ta - 1] (\<lambda>i. bindT (peek (shift_ptr srcBuf i) 1) (poke (shift_ptr dstBuf i))))))))))
               else giveT ())
            else
              forT [0 .. count - 1] (\<lambda>i.
                thenT (ensureNotDetached (viewedArrayBuf ta) True)
                  (move_elem T dst (ta_offset dst) ta (ta_offset ta + k) i)))
           (giveT (VObj (ta_val dst)))) w1 (\<lambda>_ _. True)"
    if "good w1" "valid_view w1 ta" "valid_view w1 dst" "live w1 (viewedArrayBuf dst)" "0 \<le> k" "k + count \<le> ta_length ta" "count \<le> ta_length dst"
    for w1 dst k count
    by (intro ok_then ok_if ok_ensure ok_give ok_bind ok_data slice_copy_safe TrueI that(1) ok_weaken [OF slice_loop_safe])
      (use that in \<open>auto intro: ok_give\<close>)
  show ?thesis
    unfolding typedArrayProto_slice_def Let_def
    by (intro ok_then ok_ensure assms(1) ok_bind ok_rel_arg ok_end_arg l ok_weaken [OF step] finish)
      (use view_length [OF assms] l in \<open>auto intro!: vv elim!: evolves_trans\<close>)
qed

end

subsection \<open>Callbacks and sorting\<close>

context user_code begin

lemma ok_toCallable: "good w \<Longrightarrow> (\<And>f. Q f w) \<Longrightarrow> ok (toCallableT T v) w Q"
  unfolding toCallableT_def by (auto intro!: ok_intro split: val.split)

lemma ok_call_back:
  assumes "good w" "valid_view w ta" "\<And>r w'. good w' \<Longrightarrow> evolves w w' \<Longrightarrow> valid_view w' ta \<Longrightarrow> Q r w'"
  shows "ok (call_back T ta f this k) w Q"
  unfolding call_back_def elem_or_undefined_def using assms
  by (auto intro!: ok_intro ok_elem_get ok_lift call valid_view_evolves [OF assms(2)])

lemma callback_loop:
  assumes "good w" "valid_view w ta"
  shows "ok (first_index_with (\<lambda>k. bindT (call_back T ta f this k) (\<lambda>r. giveT (p r))) ks) w (\<lambda>_ w'. valid_view w' ta)"
  by (rule ok_first_index_with) (use assms in \<open>auto intro!: ok_bind ok_call_back ok_give\<close>)

lemma callbacks_safe:
  assumes "good w" "valid_view w ta"
  shows "ok (typedArrayProto_every T ta args) w (\<lambda>_ _. True)" "ok (typedArrayProto_some T ta args) w (\<lambda>_ _. True)"
    "ok (typedArrayProto_findIndex T ta args) w (\<lambda>_ _. True)" "ok (typedArrayProto_findLastIndex T ta args) w (\<lambda>_ _. True)"
  unfolding typedArrayProto_every_def typedArrayProto_some_def typedArrayProto_findIndex_def typedArrayProto_findLastIndex_def
  by (intro ok_then ok_ensure ok_bind ok_toCallable ok_weaken [OF callback_loop] ok_give assms TrueI; simp add: assms)+

text \<open>A sorting context is coherent: if it believes the array attached without a check pending, it is.\<close>

definition sort_ok :: "typedArraySortCtx \<Rightarrow> 'z tworld_scheme \<Rightarrow> bool" where
  "sort_ok ctx w \<longleftrightarrow> valid_view w (sc_ta ctx) \<and> (sc_detached ctx \<or> needValidate ctx \<or> live w (viewedArrayBuf (sc_ta ctx)))"

lemma ok_checkDetached:
  assumes "good w" "sort_ok ctx w" "\<And>ctx'. sc_ta ctx' = sc_ta ctx \<Longrightarrow> sort_ok ctx' w \<Longrightarrow>
      sc_detached ctx' \<or> live w (viewedArrayBuf (sc_ta ctx)) \<Longrightarrow> Q ctx' w"
  shows "ok (checkDetached ctx) w Q"
  unfolding checkDetached_def using assms by (auto intro!: ok_intro simp: sort_ok_def)

lemma sort_Swap_safe:
  assumes "good w" "sort_ok ctx w" "0 \<le> i" "i < ta_length (sc_ta ctx)" "0 \<le> j" "j < ta_length (sc_ta ctx)"
  shows "ok (sort_Swap ctx i j) w (\<lambda>ctx' w'. sort_ok ctx' w' \<and> sc_ta ctx' = sc_ta ctx)"
  unfolding sort_Swap_def
proof (intro ok_bind ok_checkDetached assms(1,2))
  fix ctx'
  assume c: "sc_ta ctx' = sc_ta ctx" "sort_ok ctx' w" "sc_detached ctx' \<or> live w (viewedArrayBuf (sc_ta ctx))"
  have v: "valid_view w (sc_ta ctx)" using assms(2) by (simp add: sort_ok_def)
  show "ok (if sc_detached ctx' then giveT ctx'
      else thenT (elem_swap (sc_ta ctx') (ta_offset (sc_ta ctx') + i) (ta_offset (sc_ta ctx') + j)) (giveT ctx')) w
    (\<lambda>ctx' w'. sort_ok ctx' w' \<and> sc_ta ctx' = sc_ta ctx)"
    by (intro ok_if ok_give ok_then ok_elem_swap assms(1))
      (use c v assms(3-) valid_view_evolves [OF v] in \<open>auto simp: sort_ok_def live_def intro!: ok_give\<close>)
qed

lemma sort_Less_safe:
  assumes "good w" "sort_ok ctx w" "0 \<le> i" "i < ta_length (sc_ta ctx)" "0 \<le> j" "j < ta_length (sc_ta ctx)"
  shows "ok (sort_Less T ctx i j) w (\<lambda>(_, ctx') w'. sort_ok ctx' w' \<and> sc_ta ctx' = sc_ta ctx)"
  unfolding sort_Less_def
proof (intro ok_bind ok_checkDetached assms(1,2))
  fix ctx'
  assume c: "sc_ta ctx' = sc_ta ctx" "sort_ok ctx' w" "sc_detached ctx' \<or> live w (viewedArrayBuf (sc_ta ctx))"
  have v: "valid_view w (sc_ta ctx)" using assms(2) by (simp add: sort_ok_def)
  show "ok (if sc_detached ctx' then giveT (False, ctx')
       else
         let ta = sc_ta ctx' in
         (case sc_compare ctx' of
            Some f \<Rightarrow>
              bindT (elem_get T ta (ta_offset ta + i)) (\<lambda>x. bindT (elem_get T ta (ta_offset ta + j)) (\<lambda>y.
              bindT (liftT (bindM (e_call (t_env T) f VUndef [x, y]) (ToNumber (t_env T)))) (\<lambda>res.
                giveT (case res of
                         VInt n \<Rightarrow> n < 0
                       | _ \<Rightarrow> let f = num_float res in
                           if flt f (f64_zero False) then True else if flt (f64_zero False) f then False else f64_sign f,
                       ctx'\<lparr>needValidate := True\<rparr>))))
          | None \<Rightarrow> bindT (elem_less T ta (ta_offset ta + i) (ta_offset ta + j)) (\<lambda>r. giveT (r, ctx')))) w
    (\<lambda>(_, ctx') w'. sort_ok ctx' w' \<and> sc_ta ctx' = sc_ta ctx)"
    using c v assms(3-)
    by (auto intro!: ok_bind ok_give ok_elem_get ok_elem_less assms(1) ok_lift keeps_bind call keeps_conversions valid_view_evolves [OF v]
        simp: Let_def sort_ok_def split: option.split)
qed

end

subsection \<open>Construction, data views and buffers\<close>

lemma good_new_block: "good w \<Longrightarrow> good (w\<lparr>blocks := blocks w @ [bs]\<rparr>)" and evolves_new_block: "evolves w (w\<lparr>blocks := blocks w @ [bs]\<rparr>)"
  by (fastforce simp: good_def nth_append split: option.splits) (simp add: evolves_def nth_append)

lemma ok_alloc:
  assumes "good w" "0 \<le> n" "\<And>w'. good w' \<Longrightarrow> evolves w w' \<Longrightarrow> buffers w' = buffers w \<Longrightarrow>
      length (blocks w) < length (blocks w') \<Longrightarrow> blocks w' ! length (blocks w) = replicate (nat n) 0 \<Longrightarrow> Q (Some (length (blocks w), nat n)) w'"
  shows "ok (allocByteSlice n) w Q"
  using assms(2) assms(3) [OF good_new_block [OF assms(1)] evolves_new_block] good_new_block [OF assms(1)] evolves_new_block
  by (simp add: ok_def allocByteSlice_def)

lemma ok_new_buffer:
  assumes "good w" "case d of None \<Rightarrow> True | Some (k, n) \<Rightarrow> k < length (blocks w) \<and> n \<le> length (blocks w ! k) \<and> int n < 2 ^ 53"
    "\<And>w'. good w' \<Longrightarrow> evolves w w' \<Longrightarrow> length (buffers w') = Suc (length (buffers w)) \<Longrightarrow>
      buffers w' ! length (buffers w) = \<lparr>detached = False, ab_data = d\<rparr> \<Longrightarrow> \<forall>b < length (buffers w). buffers w' ! b = buffers w ! b \<Longrightarrow>
      Q (length (buffers w)) w'"
  shows "ok (new_buffer False d) w Q"
proof -
  let ?w = "w\<lparr>buffers := buffers w @ [\<lparr>detached = False, ab_data = d\<rparr>]\<rparr>"
  have "good ?w" using assms(1,2) unfolding good_def by (auto simp: nth_append less_Suc_eq split: option.splits)
  moreover have "evolves w ?w" by (simp add: evolves_def nth_append)
  ultimately show ?thesis using assms(3) [of ?w] by (simp add: ok_def new_buffer_def nth_append)
qed

context user_code begin

lemma ok_allocate:
  assumes "good w" "keeps (t_prototype T')" "0 \<le> len" "len * int (elemSize k) < 2 ^ 53"
    "\<And>ta w'. good w' \<Longrightarrow> evolves w w' \<Longrightarrow> valid_view w' ta \<Longrightarrow> live w' (viewedArrayBuf ta) \<Longrightarrow> ta_kind ta = k \<Longrightarrow> ta_length ta = len \<Longrightarrow>
      ta_offset ta = 0 \<Longrightarrow> ta_val ta = o' \<Longrightarrow> data_len (ab_data (buffers w' ! viewedArrayBuf ta)) = len * int (elemSize k) \<Longrightarrow>
      (t_prototype T' = ret () \<Longrightarrow> \<forall>b < length (buffers w). buffers w' ! b = buffers w ! b) \<Longrightarrow> Q ta w'"
  shows "ok (allocateTypedArray T' o' k len) w Q"
proof (cases "0 < len")
  case True
  show ?thesis
    unfolding allocateTypedArray_def
    by (intro ok_then ok_lift assms(2) assms(1) ok_bind ok_if ok_alloc ok_new_buffer ok_give assms(5))
      (use assms True in \<open>auto simp: valid_view_def live_def data_len_def ret_def elim!: evolves_trans\<close>)
next
  case False
  then have len: "len = 0" using assms(3) by simp
  show ?thesis
    unfolding allocateTypedArray_def
    by (intro ok_then ok_lift assms(2) assms(1) ok_bind ok_if ok_alloc ok_new_buffer ok_give assms(5))
      (use assms len in \<open>auto simp: valid_view_def live_def data_len_def ret_def elim!: evolves_trans\<close>)
qed

lemma view_bytes:
  assumes "good w" "valid_view w ta" "live w (viewedArrayBuf ta)"
  shows "ta_length ta * ta_size ta < 2 ^ 53" "ta_offset ta * ta_size ta \<le> data_len (ab_data (buffers w ! viewedArrayBuf ta))"
proof -
  have d: "data_len (ab_data (buffers w ! viewedArrayBuf ta)) < 2 ^ 53"
    using assms(1) view_buffer [OF assms(2)] by (fastforce simp: good_def data_len_def split: option.splits)
  have "0 \<le> ta_offset ta" "0 \<le> ta_length ta" using assms(2) by (auto simp: valid_view_def)
  then have "ta_length ta * ta_size ta \<le> (ta_offset ta + ta_length ta) * ta_size ta" by (intro mult_right_mono) auto
  then show "ta_length ta * ta_size ta < 2 ^ 53" using view_bounds [OF assms(2,3), of "ta_length ta"] d \<open>0 \<le> ta_length ta\<close> by linarith
  show "ta_offset ta * ta_size ta \<le> data_len (ab_data (buffers w ! viewedArrayBuf ta))"
    using view_bounds(2) [OF assms(2,3), of 0] \<open>0 \<le> ta_length ta\<close> by simp
qed

text \<open>A copy of a live view: both are valid and live.\<close>

definition two_views :: "'z tworld_scheme \<Rightarrow> typedArrayObject \<Rightarrow> typedArrayObject \<Rightarrow> bool" where
  "two_views w ta a \<longleftrightarrow> valid_view w ta \<and> live w (viewedArrayBuf ta) \<and> valid_view w a \<and> live w (viewedArrayBuf a)"

lemma two_views_same: "two_views w ta a \<Longrightarrow> evolves w w' \<Longrightarrow> buffers w' = buffers w \<Longrightarrow> two_views w' ta a"
  using valid_view_evolves [of w] by (auto simp: two_views_def live_def)

lemma ok_fresh_copy:
  assumes "good w" "valid_view w ta" "live w (viewedArrayBuf ta)"
    "\<And>a w'. good w' \<Longrightarrow> evolves w w' \<Longrightarrow> two_views w' ta a \<Longrightarrow> ta_offset a = 0 \<Longrightarrow> ta_length a = ta_length ta \<Longrightarrow> ta_kind a = ta_kind ta \<Longrightarrow>
      data_len (ab_data (buffers w' ! viewedArrayBuf a)) = ta_length ta * ta_size ta \<Longrightarrow> Q a w'"
  shows "ok (allocateTypedArray (T\<lparr>t_prototype := ret ()\<rparr>) o' (ta_kind ta) (ta_length ta)) w Q"
proof (rule ok_allocate [OF assms(1)])
  show "0 \<le> ta_length ta" using assms(2) by (simp add: valid_view_def)
  fix a and w' :: "'z tworld_scheme"
  assume a: "good w'" "evolves w w'" "valid_view w' a" "live w' (viewedArrayBuf a)" "ta_kind a = ta_kind ta" "ta_length a = ta_length ta"
    "ta_offset a = 0" "data_len (ab_data (buffers w' ! viewedArrayBuf a)) = ta_length ta * ta_size ta"
    and same: "t_prototype (T\<lparr>t_prototype := ret ()\<rparr>) = ret () \<Longrightarrow> \<forall>b < length (buffers w). buffers w' ! b = buffers w ! b"
  have "two_views w' ta a"
    using a same valid_view_evolves [OF assms(2) a(2)] view_buffer [OF assms(2)] assms(3) by (simp add: two_views_def live_def)
  then show "Q a w'" using assms(4) a by blast
qed (use view_bytes [OF assms(1-3)] in auto)

lemma toReversed_safe:
  assumes "good w" "valid_view w ta"
  shows "ok (typedArrayProto_toReversed T o' ta) w (\<lambda>_ _. True)"
proof -
  have loop: "ok (forT [0 .. ta_length ta - 1] (\<lambda>k.
      bindT (elem_get T ta (ta_offset ta + (ta_length ta - k - 1))) (\<lambda>v. elem_set T a k v))) w' (\<lambda>_ w'. two_views w' ta a)"
    if "good w'" "two_views w' ta a" and a: "ta_offset a = 0" "ta_length a = ta_length ta" "ta_kind a = ta_kind ta" for a w'
  proof (rule ok_for)
    fix k and w1 :: "'z tworld_scheme"
    assume k: "k \<in> set [0 .. ta_length ta - 1]" and w1: "good w1" "two_views w1 ta a"
    show "ok (bindT (elem_get T ta (ta_offset ta + (ta_length ta - k - 1))) (\<lambda>v. elem_set T a k v)) w1 (\<lambda>_ w'. two_views w' ta a)"
      by (intro ok_bind ok_elem_get ok_elem_set_content w1(1))
        (use k w1 a two_views_same [OF w1(2)] elem.get_content [of "t_cvt T" "ta_kind ta"] in \<open>auto simp: two_views_def\<close>)
  qed (use that in auto)
  show ?thesis
    unfolding typedArrayProto_toReversed_def Let_def
    by (intro ok_then ok_ensure ok_bind ok_fresh_copy assms ok_weaken [OF loop] ok_give TrueI) simp_all
qed

lemma with_safe:
  assumes "good w" "valid_view w ta"
  shows "ok (typedArrayProto_with T o' ta args) w (\<lambda>_ _. True)"
proof -
  have copy: "ok (bindT (bufferData (viewedArrayBuf a)) (\<lambda>adata. bindT (bufferData (viewedArrayBuf ta)) (\<lambda>data.
       bindT (goSlice adata 0 (data_len adata)) (\<lambda>dst.
       bindT (goSlice data (ta_offset ta * ta_size ta) (data_len data)) (\<lambda>src.
       thenT (goCopy dst (data_len adata) src (data_len data - ta_offset ta * ta_size ta))
         (thenT (elem_set T a i v) (giveT (VObj (ta_val a))))))))) w' (\<lambda>_ _. True)"
    if w': "good w'" "two_views w' ta a" and a: "ta_offset a = 0" "ta_length a = ta_length ta" "ta_kind a = ta_kind ta"
      and i: "0 \<le> i" "i < ta_length ta" "is_content (is_big (ta_kind ta)) v" for w' a i v
  proof -
    have v: "valid_view w' ta" "live w' (viewedArrayBuf ta)" "valid_view w' a" "live w' (viewedArrayBuf a)" using w'(2) by (auto simp: two_views_def)
    have o: "0 \<le> ta_offset ta" "0 \<le> ta_length ta" using v(1) by (auto simp: valid_view_def)
    have acc: "valid_access (blocks w') (typedArrayPtr (ab_data (buffers w' ! viewedArrayBuf x)) j 1) n"
      if "x = a \<or> x = ta" "0 \<le> j" "0 < n" "j + int n \<le> data_len (ab_data (buffers w' ! viewedArrayBuf x))" for x j n
      using data_access [OF w'(1) _ that(2,3,4)] view_buffer [OF v(1)] view_buffer [OF v(3)] that(1) by blast
    have 0: "0 \<le> data_len d" for d by (auto simp: data_len_def split: option.splits)
    show ?thesis
      by (intro ok_bind ok_data ok_goSlice ok_then ok_goCopy ok_elem_set_content ok_give TrueI w'(1) conjI acc)
        (use v o a i 0 view_bytes [OF w'(1) v(1,2)] two_views_same [OF w'(2)] in \<open>auto simp: two_views_def\<close>)
  qed
  show ?thesis
    unfolding typedArrayProto_with_def Let_def
    by (intro ok_then ok_ensure ok_bind ok_toInteger ok_element_value ok_valid_index ok_if ok_throw ok_fresh_copy copy assms)
      (auto intro!: valid_view_evolves [OF assms(2)] elim!: evolves_trans)
qed

end

lemma ok_detach:
  assumes "good w" "\<And>w'. good w' \<Longrightarrow> evolves w w' \<Longrightarrow> blocks w' = blocks w \<Longrightarrow> Q () w'"
  shows "ok (detach b) w Q"
proof -
  let ?w = "w\<lparr>buffers := (buffers w)[b := \<lparr>detached = True, ab_data = None\<rparr>]\<rparr>"
  have u: "buffers ?w ! i = (if i = b then \<lparr>detached = True, ab_data = None\<rparr> else buffers w ! i)" if "i < length (buffers w)" for i
    using that by (simp add: nth_list_update)
  have "good ?w"
    unfolding good_def
  proof (intro allI impI)
    fix i
    assume "i < length (buffers ?w)"
    then have i: "i < length (buffers w)" by simp
    show "case ab_data (buffers ?w ! i) of None \<Rightarrow> True | Some (k, n) \<Rightarrow> \<not> detached (buffers ?w ! i) \<and>
        k < length (blocks ?w) \<and> n \<le> length (blocks ?w ! k) \<and> int n < 2 ^ 53"
      using assms(1) i unfolding u [OF i] good_def by (auto split: option.splits)
  qed
  moreover have "evolves w ?w" unfolding evolves_def using u by (auto simp del: nth_list_update_neq simp: nth_list_update)
  ultimately show ?thesis using assms(2) [of ?w] by (simp add: ok_def detach_def)
qed

definition valid_dv :: "'z tworld_scheme \<Rightarrow> dataViewObject \<Rightarrow> bool" where
  "valid_dv w dv \<longleftrightarrow>
     dv_viewedArrayBuf dv < length (buffers w) \<and> 0 \<le> byteOffset dv \<and> 0 \<le> byteLen dv \<and>
     (live w (dv_viewedArrayBuf dv) \<longrightarrow> byteOffset dv + byteLen dv \<le> data_len (ab_data (buffers w ! dv_viewedArrayBuf dv)))"

lemma valid_dv_evolves: "valid_dv w dv \<Longrightarrow> evolves w w' \<Longrightarrow> valid_dv w' dv"
  unfolding valid_dv_def live_def evolves_def by (metis less_le_trans)

lemma data_len_nonneg [simp]: "0 \<le> data_len d"
  by (simp add: data_len_def split: option.split)

lemma data_len_Some [simp]: "data_len (Some (b, n)) = int n"
  by (simp add: data_len_def)

lemma buffer_evolves: "b < length (buffers w) \<Longrightarrow> evolves w w' \<Longrightarrow> b < length (buffers w')"
  by (simp add: evolves_def)

lemma quo_length:
  assumes "0 < (s::int)" "d mod s = 0" "o' mod s = 0" "0 \<le> o'" "0 \<le> d" "0 \<le> quo (d - o') s"
  shows "(quo o' s + quo (d - o') s) * s \<le> d"
proof -
  obtain a c where a: "o' = s * a" "d = s * c" using assms(2,3) by (meson mod_0_imp_dvd dvdE)
  have q: "quo (s * c - s * a) s = c - a"
  proof (cases "a \<le> c")
    case True
    then show ?thesis using assms(1) by (simp add: quo_nonneg right_diff_distrib [symmetric])
  next
    case False
    then show ?thesis using assms(1) by (simp add: quo_def right_diff_distrib [symmetric] sgn_if mult_less_0_iff abs_mult zero_less_mult_iff)
  qed
  have "quo o' s = a" using a assms(1,4) by (simp add: quo_nonneg)
  then show ?thesis using a q by (simp add: algebra_simps)
qed

context user_code begin

lemma ok_toIndex [ok_intro]:
  "good w \<Longrightarrow> (\<And>n w'. good w' \<Longrightarrow> evolves w w' \<Longrightarrow> 0 \<le> n \<Longrightarrow> n < maxInt \<Longrightarrow> Q n w') \<Longrightarrow> ok (toIndexT T v) w Q"
  unfolding toIndexT_def by (auto intro!: ok_bind ok_toInteger ok_if ok_give ok_throw)

lemma newTypedArray_safe:
  assumes "good w" "ab < length (buffers w)"
  shows "ok (newTypedArrayFromArrayBuffer T newTarget o' k ab offsetArg lengthArg) w (\<lambda>ta w'. valid_view w' ta \<and> live w' ab)"
proof -
  let ?sz = "int (elemSize k)"
  have off: "ok (if offsetArg = VUndef then giveT 0
       else bindT (toIndexT T offsetArg) (\<lambda>n. if n mod ?sz \<noteq> 0 then rangeErrorNamed T newTarget else giveT n)) w1
       (\<lambda>n w2. 0 \<le> n \<and> n mod ?sz = 0 \<and> evolves w1 w2)" if "good w1" for w1
    using that by (auto intro!: ok_if ok_give ok_bind ok_toIndex ok_rangeErrorNamed)
  have len: "ok (if lengthArg \<noteq> VUndef then
               bindT (toIndexT T lengthArg) (\<lambda>len.
               thenT (ensureNotDetached ab True) (
               bindT (bufferData ab) (\<lambda>d. if data_len d < n + len * ?sz then throwT RangeErr else giveT len)))
             else
               thenT (ensureNotDetached ab True) (
               bindT (bufferData ab) (\<lambda>d.
                 if data_len d mod ?sz \<noteq> 0 then rangeErrorNamed T newTarget
                 else
                   let len = quo (data_len d - n) ?sz in
                   if len < 0 then throwT RangeErr else giveT len))) w1
       (\<lambda>l w2. 0 \<le> l \<and> (quo n ?sz + l) * ?sz \<le> data_len (ab_data (buffers w2 ! ab)) \<and> evolves w1 w2 \<and> live w2 ab)"
    if "good w1" "0 \<le> n" "n mod ?sz = 0" for w1 n
  proof -
    have q: "(quo n ?sz + l) * ?sz = n + l * ?sz" for l
      using that(2,3) by (simp add: quo_nonneg distrib_right mult_div_mod_eq [symmetric] minus_mod_eq_div_mult [symmetric])
    show ?thesis
      using that quo_length [of ?sz _ n]
      by (auto intro!: ok_if ok_give ok_bind ok_then ok_toIndex ok_throw ok_rangeErrorNamed ok_ensure ok_data simp: Let_def q)
  qed
  have sz: "0 < ?sz" by simp
  have finish: "valid_view w3 \<lparr>ta_val = o', viewedArrayBuf = ab, ta_kind = k, ta_length = l, ta_offset = quo n ?sz\<rparr>"
    if "evolves w w3" "0 \<le> l" "0 \<le> n" "(quo n ?sz + l) * ?sz \<le> data_len (ab_data (buffers w3 ! ab))" for l n w3
    using that buffer_evolves [OF assms(2) that(1)] sz unfolding valid_view_def by (simp add: quo_nonneg pos_imp_zdiv_nonneg_iff del: of_nat_0_less_iff)
  have e: "evolves w w3" if "evolves w w1" "evolves w1 w2" "evolves w2 w3" for w1 w2 w3
    using that evolves_trans by blast
  show ?thesis
    unfolding newTypedArrayFromArrayBuffer_def Let_def
    by (intro ok_then ok_lift prototype assms(1) ok_bind ok_weaken [OF off] ok_weaken [OF len [unfolded Let_def]] ok_give conjI finish)
      (auto elim: e)
qed

lemma newDataView_safe:
  assumes "good w" "ab < length (buffers w)"
  shows "ok (newDataView T ab args) w (\<lambda>dv w'. valid_dv w' dv \<and> live w' ab)"
proof -
  have off: "ok (if 1 < length args then
              bindT (toIndexT T (argument args 1)) (\<lambda>n.
              thenT (ensureNotDetached ab True) (
              bindT (bufferData ab) (\<lambda>d. if data_len d < n then throwT RangeErr else giveT n)))
            else giveT 0) w (\<lambda>n w1. 0 \<le> n \<and> n \<le> data_len (ab_data (buffers w1 ! ab)) \<and> evolves w w1)"
    using assms(1) by (auto intro!: ok_if ok_give ok_bind ok_then ok_toIndex ok_throw ok_ensure ok_data)
  have len: "ok (if 2 < length args \<and> argument args 2 \<noteq> VUndef then
              bindT (toIndexT T (argument args 2)) (\<lambda>n.
              bindT (bufferData ab) (\<lambda>d. if data_len d < off + n then throwT RangeErr else giveT n))
            else bindT (bufferData ab) (\<lambda>d. giveT (data_len d - off))) w1 (\<lambda>n w2. 0 \<le> n \<and> evolves w1 w2)"
    if "good w1" "off \<le> data_len (ab_data (buffers w1 ! ab))" for w1 off
    using that by (auto intro!: ok_if ok_give ok_bind ok_toIndex ok_throw ok_data)
  have finish: "ok (thenT (liftT (t_prototype T)) (
     thenT (ensureNotDetached ab True) (
     bindT (bufferData ab) (\<lambda>d.
       if data_len d < off then throwT RangeErr
       else if data_len d < off + len then throwT RangeErr
       else giveT \<lparr>dv_viewedArrayBuf = ab, byteLen = len, byteOffset = off\<rparr>)))) w2 (\<lambda>dv w'. valid_dv w' dv \<and> live w' ab)"
    if "good w2" "ab < length (buffers w2)" "0 \<le> off" "0 \<le> len" for w2 off len
    by (intro ok_then ok_lift prototype that(1) ok_ensure ok_bind ok_data ok_if ok_throw ok_give)
      (use that in \<open>auto simp: valid_dv_def elim!: buffer_evolves\<close>)
  show ?thesis
    unfolding newDataView_def
    by (intro ok_bind ok_weaken [OF off] ok_weaken [OF len] finish)
      (use assms(2) in \<open>auto elim!: buffer_evolves intro: evolves_trans\<close>)
qed

lemma dv_access:
  assumes "good w" "valid_dv w dv" "live w (dv_viewedArrayBuf dv)" "0 \<le> i" "0 < n" "i + int n \<le> byteLen dv"
  shows "valid_access (blocks w) (typedArrayPtr (ab_data (buffers w ! dv_viewedArrayBuf dv)) (i + byteOffset dv) 1) n"
    "0 \<le> i + byteOffset dv" "i + byteOffset dv + int n \<le> data_len (ab_data (buffers w ! dv_viewedArrayBuf dv))"
proof -
  show "0 \<le> i + byteOffset dv" "i + byteOffset dv + int n \<le> data_len (ab_data (buffers w ! dv_viewedArrayBuf dv))"
    using assms by (auto simp: valid_dv_def)
  then show "valid_access (blocks w) (typedArrayPtr (ab_data (buffers w ! dv_viewedArrayBuf dv)) (i + byteOffset dv) 1) n"
    using assms(2,5) by (intro data_access assms(1)) (auto simp: valid_dv_def)
qed

lemma ok_getIdxAndByteOrder:
  assumes "good w" "live w (dv_viewedArrayBuf dv) \<Longrightarrow> i + sz \<le> byteLen dv \<Longrightarrow> Q (i + byteOffset dv, ToBoolean v) w"
  shows "ok (getIdxAndByteOrder dv i v sz) w Q"
  unfolding getIdxAndByteOrder_def using assms by (auto intro!: ok_then ok_ensure ok_if ok_throw ok_give)

lemma dataView_get_safe:
  assumes "good w" "valid_dv w dv"
  shows "ok (dataViewProto_get T k dv args) w (\<lambda>_ _. True)"
proof -
  have b: "ok (buffer_get T (dv_viewedArrayBuf dv) (elemSize k) (i + byteOffset dv) order) w' (\<lambda>b w''. w'' = w')"
    if "good w'" "valid_dv w' dv" "live w' (dv_viewedArrayBuf dv)" "0 \<le> i" "i + int (elemSize k) \<le> byteLen dv" for w' i order
    unfolding buffer_get_def using dv_access [OF that(1-4) elemSize_pos that(5)] that(1)
    by (auto intro!: ok_bind ok_data ok_goSlice ok_peek ok_give)
  have i: "ok (if is_big k then bindT (liftT (ToNumber (t_env T) (argument args 0))) (toIndexT T) else toIndexT T (argument args 0)) w
      (\<lambda>i w'. 0 \<le> i \<and> evolves w w')"
    using assms(1) by (auto intro!: ok_bind ok_lift keeps_conversions ok_toIndex elim: evolves_trans)
  show ?thesis
    unfolding dataViewProto_get_def
    by (intro ok_bind ok_weaken [OF i] ok_getIdxAndByteOrder)
      (auto intro!: ok_weaken [OF b] ok_bind ok_give valid_dv_evolves [OF assms(2)])
qed

lemma dataView_set_safe:
  assumes "good w" "valid_dv w dv"
  shows "ok (dataViewProto_set T k dv args) w (\<lambda>_ _. True)"
proof -
  have b: "ok (buffer_set T (dv_viewedArrayBuf dv) (elemSize k) (i + byteOffset dv) v order) w' (\<lambda>_ _. True)"
    if "good w'" "valid_dv w' dv" "live w' (dv_viewedArrayBuf dv)" "0 \<le> i" "i + int (elemSize k) \<le> byteLen dv" for w' i v order
    unfolding buffer_set_def using dv_access [OF that(1-4) elemSize_pos that(5)] that(1) elemSize_pos [of k]
    by (auto intro!: ok_bind ok_then ok_ensure ok_give ok_data ok_goSlice ok_poke simp del: elemSize_pos)
  show ?thesis
    unfolding dataViewProto_set_def
    by (intro ok_bind ok_toIndex ok_lift keeps_input ok_getIdxAndByteOrder)
      (auto intro!: assms(1) b valid_dv_evolves [OF assms(2)] elim!: evolves_trans)
qed

lemma good_data:
  assumes "good w" "b < length (buffers w)"
  shows "case ab_data (buffers w ! b) of None \<Rightarrow> True | Some (k, n) \<Rightarrow> k < length (blocks w) \<and> n \<le> length (blocks w ! k) \<and> int n < 2 ^ 53"
    "data_len (ab_data (buffers w ! b)) < 2 ^ 53"
  using assms by (auto simp: good_def data_len_def split: option.splits)

lemma copyAndDetach_safe:
  assumes "good w" "b < length (buffers w)"
  shows "ok (arrayBufferCopyAndDetach T b newLength) w (\<lambda>b' w'. b' < length (buffers w') \<and> live w' b')"
proof -
  let ?fits = "\<lambda>w d. case d of None \<Rightarrow> True | Some (k, n) \<Rightarrow> k < length (blocks w) \<and> n \<le> length (blocks w ! k) \<and> int n < 2 ^ 53"
  have len: "ok (if newLength = VUndef then bindT (bufferData b) (\<lambda>d. giveT (data_len d)) else toIndexT T newLength) w
      (\<lambda>n w'. 0 \<le> n \<and> n < 2 ^ 53 \<and> evolves w w')"
    using good_data(2) [OF assms] by (auto intro!: ok_bind ok_if ok_data ok_give ok_toIndex assms(1) simp: maxInt_def)
  have mem: "ok (if n \<le> data_len old then giveT (map_option (\<lambda>(blk, _). (blk, nat n)) old)
            else
              bindT (allocByteSlice n) (\<lambda>d.
              bindT (goSlice d 0 n) (\<lambda>dst. bindT (goSlice old 0 (data_len old)) (\<lambda>src.
              thenT (goCopy dst n src (data_len old)) (giveT d))))) w1 (\<lambda>d w2. ?fits w2 d)"
    if "good w1" "b < length (buffers w1)" "0 \<le> n" "n < 2 ^ 53" "old = ab_data (buffers w1 ! b)"
    for w1 :: "'z tworld_scheme" and n old
  proof -
    note g = good_data [OF that(1,2)] and w1 = that(1,2)
    have old: "valid_access (blocks w2) (typedArrayPtr old 0 1) m"
      if "0 < m" "int m \<le> data_len old" "evolves w1 w2" for w2 m
      using data_access [OF w1, of 0 m] that valid_access_evolves \<open>old = _\<close> by auto
    have new: "valid_access (blocks w2) (typedArrayPtr (Some (length (blocks w1), nat n)) 0 1) m"
      if "length (blocks w1) < length (blocks w2)" "blocks w2 ! length (blocks w1) = replicate (nat n) 0" "int m \<le> n" for w2 :: "'z tworld_scheme" and m
      using that by (simp add: valid_access_def typedArrayPtr_def)
    have kept: "length (blocks w1) < length (blocks w3) \<and> length (blocks w3 ! length (blocks w1)) = nat n"
      if "length (blocks w1) < length (blocks w2)" "blocks w2 ! length (blocks w1) = replicate (nat n) 0" "evolves w2 w3" for w2 w3 :: "'z tworld_scheme"
      using that by (auto simp: evolves_def)
    show ?thesis
    proof (intro ok_if ok_give ok_bind ok_alloc ok_goSlice ok_then ok_goCopy that conjI old new)
      show "?fits w1 (map_option (\<lambda>(blk, _). (blk, nat n)) old)" if "n \<le> data_len old"
        using g(1) that \<open>n < 2 ^ 53\<close> \<open>0 \<le> n\<close> \<open>old = _\<close> by (auto simp: data_len_def split: option.splits)
    qed (use that(3,4) in \<open>auto simp del: One_nat_def simp: kept intro!: new\<close>)
  qed
  show ?thesis
    unfolding arrayBufferCopyAndDetach_def
    by (intro ok_bind ok_weaken [OF len] ok_then ok_ensure ok_data ok_weaken [OF mem] ok_detach ok_new_buffer)
      (use assms(2) in \<open>auto elim!: buffer_evolves simp: live_def split: option.splits\<close>)
qed

lemma buffer_slice_safe:
  assumes "good w" "b < length (buffers w)"
  shows "ok (arrayBufferProto_slice T b args) w (\<lambda>b' w'. b' < length (buffers w') \<and> live w' b')"
proof -
  have copy: "ok (bindT (bufferData b) (\<lambda>d.
         bindT (goSlice ad 0 (data_len ad)) (\<lambda>dst. bindT (goSlice d i j) (\<lambda>src.
         thenT (goCopy dst (data_len ad) src (j - i)) (giveT ab))))) w' (\<lambda>b' w'. b' < length (buffers w') \<and> live w' b')"
    if "good w'" "b < length (buffers w')" "ab < length (buffers w')" "live w' ab" "ad = ab_data (buffers w' ! ab)"
      "0 \<le> i" "i < j" "j \<le> data_len (ab_data (buffers w' ! b))" for w' ab ad i j
    by (intro ok_bind ok_data ok_goSlice ok_then ok_goCopy ok_give conjI)
      (use that in \<open>auto intro!: data_access [unfolded One_nat_def] simp: live_def\<close>)
  have finish: "ok (thenT (ensureNotDetached b True) (
       if ab = b then throwT TypeErr
       else
         bindT (bufferData ab) (\<lambda>ad.
           if data_len ad < max (j - i) 0 then throwT TypeErr
           else
             thenT (ensureNotDetached ab True) (
             if 0 < max (j - i) 0 then
               bindT (bufferData b) (\<lambda>d.
               bindT (goSlice ad 0 (data_len ad)) (\<lambda>dst. bindT (goSlice d i j) (\<lambda>src.
               thenT (goCopy dst (data_len ad) src (j - i)) (giveT ab))))
             else giveT ab)))) w' (\<lambda>b' w'. b' < length (buffers w') \<and> live w' b')"
    if "good w'" "b < length (buffers w')" "ab < length (buffers w')" "0 \<le> i"
      "live w' b \<Longrightarrow> j \<le> data_len (ab_data (buffers w' ! b))" for w' ab i j
    by (intro ok_then ok_ensure ok_if ok_throw ok_bind [where m = "bufferData ab"] ok_data copy ok_give)
      (use that in auto)
  have result: "ok (case r of
         None \<Rightarrow> throwT TypeErr
       | Some ab \<Rightarrow>
           thenT (ensureNotDetached b True) (
           if ab = b then throwT TypeErr
           else
             bindT (bufferData ab) (\<lambda>ad.
               if data_len ad < max (j - i) 0 then throwT TypeErr
               else
                 thenT (ensureNotDetached ab True) (
                 if 0 < max (j - i) 0 then
                   bindT (bufferData b) (\<lambda>d.
                   bindT (goSlice ad 0 (data_len ad)) (\<lambda>dst. bindT (goSlice d i j) (\<lambda>src.
                   thenT (goCopy dst (data_len ad) src (j - i)) (giveT ab))))
                 else giveT ab)))) w' (\<lambda>b' w'. b' < length (buffers w') \<and> live w' b')"
    if "good w'" "evolves w w'" "\<And>ab. r = Some ab \<Longrightarrow> ab < length (buffers w')" "0 \<le> i" "j \<le> data_len (ab_data (buffers w ! b))" for w' r i j
  proof (cases r)
    case (Some ab)
    show ?thesis
      unfolding Some option.case
      by (rule finish) (use that Some buffer_evolves [OF assms(2) that(2)] live_evolves [OF that(2) assms(2)] in auto)
  qed (simp add: ok_throw that(1))
  have e: "evolves w w3" if "evolves w w1" "evolves w1 w2" "evolves w2 w3" for w1 w2 w3
    using that evolves_trans by blast
  show ?thesis
    unfolding arrayBufferProto_slice_def Let_def
    by (intro ok_then ok_ensure assms(1) ok_bind ok_data ok_rel_arg ok_end_arg ok_lift speciesBuffer result)
      (auto elim: e intro: speciesBuffer_exists)
qed

end

section \<open>The engine as user code\<close>

text \<open>
  Two environments made of the operations of the model. In the first, every function that is called detaches a buffer, the one with
  its own number, and no constructor returns a typed array; in the second, the species constructors allocate arrays and buffers.
\<close>

definition detaching_env :: "tworld tenv" where
  "detaching_env = \<lparr>
     t_env = \<lparr>e_getStr = \<lambda>x _. ret (Some (VObj x)), e_getSym = \<lambda>_ _. ret None, e_callable = \<lambda>_. True,
       e_call = \<lambda>f _ _ w. (Inr (VInt 7), snd (detach f w)),
       e_strToNumber = \<lambda>_. VFloat f64_nan, e_strToBigInt = \<lambda>_. None, e_floatToStr = \<lambda>_. [], e_pow = \<lambda>_ _. f64_nan\<rparr>,
     t_native = True, t_cvt = \<lambda>_. 0, t_address = \<lambda>b. 1000 * int b, t_strToInteger = \<lambda>_. 0,
     t_species = \<lambda>_ _. ret None, t_construct = \<lambda>_ _. ret None, t_speciesBuffer = \<lambda>_ _. ret None, t_prototype = ret (),
     t_defaultCtor = \<lambda>_. 0, t_symDesc = \<lambda>_. []\<rparr>"

definition as_jsm :: "('w, 'a) tam \<Rightarrow> ('w, 'a option) jsm" where
  "as_jsm m w = (case m w of (Done x, w') \<Rightarrow> (Inr (Some x), w') | (Throws e, w') \<Rightarrow> (Inl e, w') | (Crash, w') \<Rightarrow> (Inr None, w'))"

definition length_arg :: "val list \<Rightarrow> int" where
  "length_arg vs = (case vs of [VInt n] \<Rightarrow> if 0 \<le> n \<and> n * 8 < 2 ^ 53 then n else 0 | _ \<Rightarrow> 0)"

definition allocating_env :: "tworld tenv" where
  "allocating_env = detaching_env\<lparr>
     t_species := \<lambda>ta vs. as_jsm (allocateTypedArray detaching_env 99 (ta_kind ta) (length_arg vs)),
     t_speciesBuffer := \<lambda>_ vs. as_jsm (bindT (allocByteSlice (length_arg vs)) (new_buffer False))\<rparr>"

lemma keeps_detach: "keeps (\<lambda>w. (r, snd (detach f w)))"
proof -
  have "ok (detach f) w (\<lambda>_ _. True)" if "good w" for w :: "'a tworld_scheme" using that by (intro ok_detach) simp_all
  then show ?thesis unfolding keeps_def ok_def by (auto simp: detach_def)
qed

lemma keeps_as_jsm: "(\<And>w. good w \<Longrightarrow> ok m w Q) \<Longrightarrow> keeps (as_jsm m)"
  and as_jsm_result: "ok m w Q \<Longrightarrow> as_jsm m w = (Inr (Some x), w') \<Longrightarrow> Q x w'"
  by (fastforce simp: keeps_def as_jsm_def ok_def split: prod.splits outcome.splits)+

lemma length_arg_range: "0 \<le> length_arg vs" "length_arg vs * int (elemSize k) < 2 ^ 53" "length_arg vs < 2 ^ 53"
proof -
  have 8: "0 \<le> length_arg vs" "length_arg vs * 8 < 2 ^ 53" by (auto simp: length_arg_def split: list.split val.split)
  have "int (elemSize k) \<le> 8" by (cases k) (simp_all add: elemSize_def)
  then have "length_arg vs * int (elemSize k) \<le> length_arg vs * 8" using 8(1) by (rule mult_left_mono)
  then show "0 \<le> length_arg vs" "length_arg vs * int (elemSize k) < 2 ^ 53" "length_arg vs < 2 ^ 53" using 8 by linarith+
qed

interpretation detaching: user_code detaching_env
  by unfold_locales (simp_all add: detaching_env_def ret_def keeps_detach keeps_def [of "\<lambda>w. (_, w)"] is_content_def)

lemma ok_species_allocate:
  "good w \<Longrightarrow> ok (allocateTypedArray detaching_env 99 k (length_arg vs)) w (\<lambda>ta w'. valid_view w' ta)"
  by (rule detaching.ok_allocate) (use length_arg_range detaching.prototype in auto)

lemma ok_species_buffer:
  "good w \<Longrightarrow> ok (bindT (allocByteSlice (length_arg vs)) (new_buffer False)) w (\<lambda>b w'. b < length (buffers w'))"
  by (intro ok_bind ok_alloc ok_new_buffer) (use length_arg_range [of vs] in auto)

interpretation allocating: user_code allocating_env
proof
  show "keeps (t_species allocating_env ta vs)" "keeps (t_speciesBuffer allocating_env b vs)" for ta vs b
    using ok_species_allocate ok_species_buffer by (auto simp: allocating_env_def intro!: keeps_as_jsm)
  show "valid_view w' ta'" if "good w" "t_species allocating_env ta vs w = (Inr (Some ta'), w')" for w ta vs ta' w'
    using as_jsm_result [OF ok_species_allocate [OF that(1)]] that(2) by (simp add: allocating_env_def)
  show "b' < length (buffers w')" if "t_speciesBuffer allocating_env b vs w = (Inr (Some b'), w')" for w b vs b' w'
    using that length_arg_range(1) [of vs]
    by (auto simp: allocating_env_def as_jsm_def bindT_def allocByteSlice_def new_buffer_def)
qed (use detaching.getStr detaching.getSym detaching.call detaching.strToNumber detaching.prototype in \<open>simp_all add: allocating_env_def\<close>)

text \<open>A buffer of eight bytes, an array over all of them, one over the middle, and a data view.\<close>

definition demo_tworld :: tworld where
  "demo_tworld = \<lparr>blocks = [[1, 2, 3, 4, 5, 6, 7, 8]], buffers = [\<lparr>detached = False, ab_data = Some (0, 8)\<rparr>]\<rparr>"

definition demo_bytes :: typedArrayObject where
  "demo_bytes = \<lparr>ta_val = 10, viewedArrayBuf = 0, ta_kind = Uint8, ta_length = 8, ta_offset = 0\<rparr>"

definition demo_middle :: typedArrayObject where
  "demo_middle = \<lparr>ta_val = 11, viewedArrayBuf = 0, ta_kind = Uint16, ta_length = 2, ta_offset = 1\<rparr>"

definition demo_dv :: dataViewObject where
  "demo_dv = \<lparr>dv_viewedArrayBuf = 0, byteLen = 6, byteOffset = 2\<rparr>"

lemmas demo_views = demo_tworld_def demo_bytes_def demo_middle_def demo_dv_def good_def valid_view_def valid_dv_def live_def
  data_len_def elemSize_def

section \<open>Properties\<close>

text \<open>
  (C30) Memory safety of typed arrays, for the operations listed. Whatever user code does while a method runs (it can allocate, change bytes and detach
  any buffer, and return any typed array within the bounds of its buffer from a species constructor), starting from buffers that lie
  in their blocks and a view within its buffer, no access goes outside the memory of a buffer or through the nil
  data of a detached one, and no bounds check of Go fails: the method returns or throws a JavaScript exception, with the buffers
  still in their blocks. The constructors return views within the bounds of a buffer that is not detached. For \<^verbatim>\<open>set\<close> from another typed array
  the names of the constructors are read without effect (\<open>plain_names\<close>); the next theory shows crashes of \<^verbatim>\<open>set\<close> without this, and of the
  methods that are not listed: \<^verbatim>\<open>map\<close>, \<^verbatim>\<open>of\<close> and the definition of an element.
\<close>
theorem typed_array_memory_safe:
  assumes "user_code T" "good w" "valid_view w ta" "valid_dv w dv" "b < length (buffers w)"
    "case source of Inl src \<Rightarrow> valid_view w src \<and> plain_names T | Inr _ \<Rightarrow> True"
  shows "ok (ta_getIdx T ta idx) w (\<lambda>_ w'. w' = w) \<and>
    ok (ta_putIdx T ta idx v) w (\<lambda>_ w'. valid_view w' ta) \<and>
    ok (typedArrayProto_fill T ta args) w (\<lambda>_ _. True) \<and>
    ok (typedArrayProto_copyWithin T ta args) w (\<lambda>_ _. True) \<and>
    ok (typedArrayProto_reverse ta) w (\<lambda>_ _. True) \<and>
    ok (typedArrayProto_set T ta source v) w (\<lambda>_ _. True) \<and>
    ok (typedArrayProto_slice T ta args) w (\<lambda>_ _. True) \<and>
    ok (typedArrayProto_at T ta args) w (\<lambda>_ _. True) \<and>
    ok (typedArrayProto_includes T ta args) w (\<lambda>_ _. True) \<and>
    ok (typedArrayProto_indexOf T ta args) w (\<lambda>_ _. True) \<and>
    ok (typedArrayProto_lastIndexOf T ta args) w (\<lambda>_ _. True) \<and>
    ok (typedArrayProto_every T ta args) w (\<lambda>_ _. True) \<and>
    ok (typedArrayProto_some T ta args) w (\<lambda>_ _. True) \<and>
    ok (typedArrayProto_findIndex T ta args) w (\<lambda>_ _. True) \<and>
    ok (typedArrayProto_findLastIndex T ta args) w (\<lambda>_ _. True) \<and>
    ok (typedArrayProto_toReversed T o' ta) w (\<lambda>_ _. True) \<and>
    ok (typedArrayProto_with T o' ta args) w (\<lambda>_ _. True) \<and>
    ok (newTypedArrayFromArrayBuffer T newTarget o' k b v v') w (\<lambda>ta' w'. valid_view w' ta' \<and> live w' b) \<and>
    ok (newDataView T b args) w (\<lambda>dv' w'. valid_dv w' dv' \<and> live w' b) \<and>
    ok (dataViewProto_get T k dv args) w (\<lambda>_ _. True) \<and>
    ok (dataViewProto_set T k dv args) w (\<lambda>_ _. True) \<and>
    ok (arrayBufferCopyAndDetach T b v) w (\<lambda>b' w'. b' < length (buffers w') \<and> live w' b') \<and>
    ok (arrayBufferProto_slice T b args) w (\<lambda>b' w'. b' < length (buffers w') \<and> live w' b')"
proof -
  have set: "ok (typedArrayProto_set T ta source v) w (\<lambda>_ _. True)"
    by (rule user_code.set_safe [OF assms(1-3)]) (use assms(6) in auto)
  note on_view = assms(1-3)
  show ?thesis
    by (intro conjI set user_code.getIdx_safe [OF on_view] user_code.putIdx_safe [OF on_view] user_code.fill_safe [OF on_view]
        user_code.copyWithin_safe [OF on_view] user_code.reverse_safe [OF on_view] user_code.slice_safe [OF on_view]
        user_code.search_safe [OF on_view] user_code.callbacks_safe [OF on_view] user_code.toReversed_safe [OF on_view]
        user_code.with_safe [OF on_view] user_code.newTypedArray_safe [OF assms(1,2,5)] user_code.newDataView_safe [OF assms(1,2,5)]
        user_code.dataView_get_safe [OF assms(1,2,4)] user_code.dataView_set_safe [OF assms(1,2,4)]
        user_code.copyAndDetach_safe [OF assms(1,2,5)] user_code.buffer_slice_safe [OF assms(1,2,5)])
qed

theorem typed_array_memory_safe_witness:
  "ok (typedArrayProto_fill allocating_env demo_middle [VObj 0]) demo_tworld (\<lambda>_ _. True) \<and>
   fst (typedArrayProto_fill allocating_env demo_middle [VObj 0] demo_tworld) = Throws TypeErr \<and>
   ok (typedArrayProto_slice allocating_env demo_middle [VInt 1]) demo_tworld (\<lambda>_ _. True) \<and>
   blocks (snd (typedArrayProto_slice allocating_env demo_middle [VInt 1] demo_tworld)) = [[1, 2, 3, 4, 5, 6, 7, 8], [5, 6]]"
proof -
  have w: "good demo_tworld" "valid_view demo_tworld demo_middle" "valid_dv demo_tworld demo_dv" "0 < length (buffers demo_tworld)"
    by (simp_all add: demo_views)
  have "case Inr 0 of Inl src \<Rightarrow> valid_view demo_tworld src \<and> plain_names allocating_env | Inr _ \<Rightarrow> True" by simp
  note safe = typed_array_memory_safe [OF allocating.user_code_axioms w this]
  have "fst (typedArrayProto_fill allocating_env demo_middle [VObj 0] demo_tworld) = Throws TypeErr"
    "blocks (snd (typedArrayProto_slice allocating_env demo_middle [VInt 1] demo_tworld)) = [[1, 2, 3, 4, 5, 6, 7, 8], [5, 6]]"
    by code_simp+
  then show ?thesis using safe by blast
qed

end
