(* ===== verification/Typed_Copy.thy ===== *)
theory Typed_Copy
  imports Typed_Safety
begin

text \<open>
  What typed arrays and data views compute: the bytes of an element written through a data view, and copying between arrays that
  may overlap.
\<close>

section \<open>Data views\<close>

lemma peek_Some:
  "peek (Some (b, a)) n w = (if b < length (blocks w) \<and> 0 \<le> a \<and> nat a + n \<le> length (blocks w ! b)
     then (Done (take n (drop (nat a) (blocks w ! b))), w) else (Crash, w))"
  by (simp add: peek_def valid_access_def)

lemma poke_Some:
  "poke (Some (b, a)) bs w = (if b < length (blocks w) \<and> 0 \<le> a \<and> nat a + length bs \<le> length (blocks w ! b)
     then (Done (), w\<lparr>blocks := (blocks w)[b := splice (blocks w ! b) (nat a) bs]\<rparr>) else (Crash, w))"
  by (simp add: poke_def valid_access_def)

lemma splice_read: "i + length ys \<le> length xs \<Longrightarrow> take (length ys) (drop i (splice xs i ys)) = ys"
  by (simp add: splice_def)

lemma to_bytes_order: "(if order = ne then to_bytes ne n i else rev (to_bytes ne n i)) = to_bytes order n i"
  by (auto simp: to_bytes_def)

lemma of_bytes_order: "of_bytes ne (if order = ne then bs else rev bs) = of_bytes order bs"
  by (auto simp: of_bytes_def)

lemma live_data:
  assumes "good w" "b < length (buffers w)" "0 < data_len (ab_data (buffers w ! b))"
  obtains k n where "ab_data (buffers w ! b) = Some (k, n)" "k < length (blocks w)" "n \<le> length (blocks w ! k)" "int n < 2 ^ 53"
  using assms by (cases "ab_data (buffers w ! b)") (fastforce simp: good_def data_len_def split: option.splits)+

lemma toIndexT_int: "0 \<le> i \<Longrightarrow> i < maxInt \<Longrightarrow> toIndexT T (VInt i) = giveT i"
  by (rule ext) (simp add: toIndexT_def toIntegerT_def bindT_def giveT_def throwT_def maxInt_def wrap_s_id)

lemma element_roundtrip:
  "of_bytes order (to_bytes order (elemSize k) (el_bits (elem cvt k :: 'w elemType) v)) = el_bits (elem cvt k :: 'w elemType) v"
proof -
  have "0 \<le> el_bits (elem cvt k :: 'w elemType) v \<and> el_bits (elem cvt k :: 'w elemType) v < 256 ^ el_size (elem cvt k :: 'w elemType)"
    by (rule elem.bits_range)
  then show ?thesis by (simp add: of_to_bytes mod_pos_pos_trivial)
qed

lemma data_view_read:
  assumes "\<not> detached (buffers w ! dv_viewedArrayBuf dv)" "0 \<le> i" "i < maxInt" "i + int (elemSize k) \<le> byteLen dv" "0 \<le> byteOffset dv"
    "ab_data (buffers w ! dv_viewedArrayBuf dv) = Some (b, n)" "b < length (blocks w)" "n \<le> length (blocks w ! b)"
    "byteOffset dv + byteLen dv \<le> int n"
  shows "dataViewProto_get T k dv [VInt i, order] w =
    (Done (el_get (elem (t_cvt T) k :: 'z tworld_scheme elemType)
       (of_bytes (ToBoolean order) (take (elemSize k) (drop (nat (i + byteOffset dv)) (blocks w ! b))))), w :: 'z tworld_scheme)"
proof -
  have "nat (i + byteOffset dv) + elemSize k \<le> length (blocks w ! b)" using assms by linarith
  then show ?thesis
    using assms
    by (simp add: dataViewProto_get_def bindT_def thenT_def liftT_def ret_def argument_def toIndexT_int giveT_def getIdxAndByteOrder_def
        ensureNotDetached_def buffer_get_def bufferData_def goSlice_def typedArrayPtr_def peek_Some of_bytes_order)
qed

lemma data_view_write:
  assumes "\<not> detached (buffers w ! dv_viewedArrayBuf dv)" "0 \<le> i" "i < maxInt" "i + int (elemSize k) \<le> byteLen dv" "0 \<le> byteOffset dv"
    "ab_data (buffers w ! dv_viewedArrayBuf dv) = Some (b, n)" "b < length (blocks w)" "n \<le> length (blocks w ! b)"
    "byteOffset dv + byteLen dv \<le> int n" "is_content (is_big k) v"
  shows "dataViewProto_set T k dv [VInt i, v, order] w =
    (Done (), w\<lparr>blocks := (blocks w)[b := splice (blocks w ! b) (nat (i + byteOffset dv))
       (to_bytes (ToBoolean order) (elemSize k) (el_bits (elem (t_cvt T) k :: 'z tworld_scheme elemType) v))]\<rparr> :: 'z tworld_scheme)"
proof -
  have l: "nat (i + byteOffset dv) + elemSize k \<le> length (blocks w ! b)" using assms by linarith
  have "\<exists>v'. el_bits (elem (t_cvt T) k :: 'z tworld_scheme elemType) v' = el_bits (elem (t_cvt T) k :: 'z tworld_scheme elemType) v \<and>
    (\<forall>E w. el_input (elem (t_cvt T) k :: 'z tworld_scheme elemType) E v w = (Inr v', w))"
    by (rule elem.input_pure) (simp add: assms(10))
  then obtain v' where v': "el_bits (elem (t_cvt T) k :: 'z tworld_scheme elemType) v' = el_bits (elem (t_cvt T) k :: 'z tworld_scheme elemType) v"
    "\<And>E w. el_input (elem (t_cvt T) k :: 'z tworld_scheme elemType) E v w = (Inr v', w)" by blast
  note order = to_bytes_order [of "ToBoolean order" "t_native T"]
  show ?thesis
    using assms l v' elemSize_pos [of k] order
    by (cases "ToBoolean order = t_native T")
      (simp_all add: dataViewProto_set_def bindT_def thenT_def liftT_def argument_def toIndexT_int giveT_def getIdxAndByteOrder_def
        ensureNotDetached_def buffer_set_def bufferData_def goSlice_def typedArrayPtr_def poke_Some del: elemSize_pos)
qed

text \<open>
  (C32) A value of the right content stored through a data view is stored as the bytes of the element in the byte order that was
  asked for, whatever the byte order of the machine, no other byte and no buffer changes, and reading it back in the same order
  gives the value of the element's bits.
\<close>
theorem dataView_roundtrip:
  assumes "good w" "valid_dv w dv" "live w (dv_viewedArrayBuf dv)" "0 \<le> i" "i + int (elemSize k) \<le> byteLen dv" "is_content (is_big k) v"
  shows "\<exists>b n w'. dataViewProto_set T k dv [intToValue i, v, order] w = (Done (), w') \<and>
    ab_data (buffers w ! dv_viewedArrayBuf dv) = Some (b, n) \<and> buffers w' = buffers w \<and>
    blocks w' = (blocks w)[b := splice (blocks w ! b) (nat (i + byteOffset dv))
      (let bs = le_bytes (elemSize k) (el_bits (elem (t_cvt T) k :: 'z tworld_scheme elemType) v) in if ToBoolean order then bs else rev bs)] \<and>
    dataViewProto_get T k dv [intToValue i, order] w' =
      (Done (el_get (elem (t_cvt T) k :: 'z tworld_scheme elemType) (el_bits (elem (t_cvt T) k :: 'z tworld_scheme elemType) v)), w' :: 'z tworld_scheme)"
proof -
  let ?bits = "el_bits (elem (t_cvt T) k :: 'z tworld_scheme elemType) v"
  let ?bs = "to_bytes (ToBoolean order) (elemSize k) ?bits"
  have dv: "dv_viewedArrayBuf dv < length (buffers w)" "0 \<le> byteOffset dv" "byteOffset dv + byteLen dv \<le> data_len (ab_data (buffers w ! dv_viewedArrayBuf dv))"
    using assms(2,3) by (auto simp: valid_dv_def)
  have "0 < data_len (ab_data (buffers w ! dv_viewedArrayBuf dv))" using dv assms(4,5) elemSize_pos [of k] by linarith
  from live_data [OF assms(1) dv(1) this] obtain b n where bn: "ab_data (buffers w ! dv_viewedArrayBuf dv) = Some (b, n)"
    "b < length (blocks w)" "n \<le> length (blocks w ! b)" "int n < 2 ^ 53" .
  have d: "byteOffset dv + byteLen dv \<le> int n" using dv(3) bn(1) by simp
  then have small: "i < maxInt" using assms(4,5) bn(4) dv(2) elemSize_pos [of k] by (simp add: maxInt_def)
  then have iv: "intToValue i = VInt i" using assms(4) by (intro intToValue_small) simp
  have att: "\<not> detached (buffers w ! dv_viewedArrayBuf dv)" using assms(3) by (simp add: live_def)
  have len: "nat (i + byteOffset dv) + length ?bs \<le> length (blocks w ! b)" using assms(4,5) dv(2) d bn(3) by simp
  let ?w = "w\<lparr>blocks := (blocks w)[b := splice (blocks w ! b) (nat (i + byteOffset dv)) ?bs]\<rparr>"
  have set: "dataViewProto_set T k dv [VInt i, v, order] w = (Done (), ?w)"
    by (rule data_view_write [OF att assms(4) small assms(5) dv(2) bn(1-3) d assms(6)])
  have "dataViewProto_get T k dv [VInt i, order] ?w = (Done (el_get (elem (t_cvt T) k :: 'z tworld_scheme elemType)
       (of_bytes (ToBoolean order) (take (elemSize k) (drop (nat (i + byteOffset dv)) (blocks ?w ! b))))), ?w)"
    by (rule data_view_read) (use att assms(4,5) small dv(2) bn d len in \<open>simp_all add: length_splice\<close>)
  moreover have "take (elemSize k) (drop (nat (i + byteOffset dv)) (blocks ?w ! b)) = ?bs"
    using splice_read [OF len] bn(2) by simp
  ultimately have get: "dataViewProto_get T k dv [VInt i, order] ?w = (Done (el_get (elem (t_cvt T) k :: 'z tworld_scheme elemType) ?bits), ?w)"
    by (simp only: element_roundtrip)
  show ?thesis
    unfolding iv using set get bn(1) by (auto simp: to_bytes_def Let_def)
qed

theorem dataView_roundtrip_witness:
  "\<exists>w'. dataViewProto_set detaching_env Int16 demo_dv [VInt 1, VInt (- 2), VBool False] demo_tworld = (Done (), w') \<and>
     blocks w' = [[1, 2, 3, 0xff, 0xfe, 6, 7, 8]] \<and>
     dataViewProto_get detaching_env Int16 demo_dv [VInt 1, VBool False] w' = (Done (VInt (- 2)), w')"
proof -
  have iv: "intToValue 1 = VInt 1" by (simp add: intToValue_small maxInt_def)
  have bits: "el_bits (elem (t_cvt detaching_env) Int16 :: tworld elemType) (VInt (- 2)) = 0xfffe" by code_simp
  have get: "el_get (elem (t_cvt detaching_env) Int16 :: tworld elemType) 0xfffe = VInt (- 2)" by code_simp
  have "le_bytes (elemSize Int16) 0xfffe = [0xfe, 0xff]" by code_simp
  moreover have "\<exists>b n w'. dataViewProto_set detaching_env Int16 demo_dv [intToValue 1, VInt (- 2), VBool False] demo_tworld = (Done (), w') \<and>
    ab_data (buffers demo_tworld ! dv_viewedArrayBuf demo_dv) = Some (b, n) \<and> buffers w' = buffers demo_tworld \<and>
    blocks w' = (blocks demo_tworld)[b := splice (blocks demo_tworld ! b) (nat (1 + byteOffset demo_dv))
      (let bs = le_bytes (elemSize Int16) (el_bits (elem (t_cvt detaching_env) Int16 :: tworld elemType) (VInt (- 2))) in
       if ToBoolean (VBool False) then bs else rev bs)] \<and>
    dataViewProto_get detaching_env Int16 demo_dv [intToValue 1, VBool False] w' =
      (Done (el_get (elem (t_cvt detaching_env) Int16 :: tworld elemType) (el_bits (elem (t_cvt detaching_env) Int16 :: tworld elemType) (VInt (- 2)))), w')"
    by (rule dataView_roundtrip) (simp_all add: demo_views is_content_def is_big_def)
  ultimately show ?thesis
    unfolding iv bits get by (auto simp: demo_tworld_def demo_dv_def splice_def)
qed

section \<open>Copying in place\<close>

text \<open>One element is read from a block, converted and written to a block, possibly the same.\<close>

definition read_elem :: "8 word list list \<Rightarrow> nat \<Rightarrow> nat \<Rightarrow> nat \<Rightarrow> nat \<Rightarrow> 8 word list" where
  "read_elem bs b s S i = take S (drop (s + i * S) (bs ! b))"

definition move_bytes :: "(8 word list \<Rightarrow> 8 word list) \<Rightarrow> nat \<Rightarrow> nat \<Rightarrow> nat \<Rightarrow> nat \<Rightarrow> nat \<Rightarrow> nat \<Rightarrow> nat \<Rightarrow> 8 word list list \<Rightarrow> 8 word list list" where
  "move_bytes conv db d D sb s S i bs = bs[db := splice (bs ! db) (d + i * D) (conv (read_elem bs sb s S i))]"

lemma nth_splice:
  assumes "i + length ys \<le> length xs" "p < length xs"
  shows "splice xs i ys ! p = (if i \<le> p \<and> p < i + length ys then ys ! (p - i) else xs ! p)"
  using assms by (auto simp: splice_def nth_append)

lemma div_window:
  assumes "0 < (D::nat)" "d \<le> p"
  shows "((p - d) div D = i) = (d + i * D \<le> p \<and> p < d + i * D + D)"
proof -
  have "((p - d) div D = i) = (i * D \<le> p - d \<and> p - d < Suc i * D)"
    using less_eq_div_iff_mult_less_eq [OF assms(1), of i "p - d"] div_less_iff_less_mult [OF assms(1), of "p - d" "Suc i"]
    by (metis less_Suc_eq_le order_antisym_conv order_refl)
  then show ?thesis using assms(2) by (simp only: mult_Suc) linarith
qed

lemma length_concat_equal:
  assumes "\<And>i. i < n \<Longrightarrow> length (f i) = D"
  shows "length (concat (map f [0 ..< n])) = n * D"
proof -
  have "map (length \<circ> f) [0 ..< n] = replicate n D" by (rule nth_equalityI) (simp_all add: assms)
  then show ?thesis by (simp add: length_concat sum_list_replicate)
qed

lemma length_read_elem: "s + i * S + S \<le> length (bs ! b) \<Longrightarrow> length (read_elem bs b s S i) = S"
  by (simp add: read_elem_def)

lemma read_elem_splice:
  assumes "db < length bs" "a + length ys \<le> length (bs ! db)" "s + j * S + S \<le> length (bs ! sb)"
    "db = sb \<Longrightarrow> a + length ys \<le> s + j * S \<or> s + j * S + S \<le> a"
  shows "read_elem (bs[db := splice (bs ! db) a ys]) sb s S j = read_elem bs sb s S j"
proof (cases "db = sb")
  case True
  show ?thesis
    unfolding read_elem_def
  proof (rule nth_equalityI)
    fix p
    assume "p < length (take S (drop (s + j * S) (bs[db := splice (bs ! db) a ys] ! sb)))"
    then have p: "p < S" "s + j * S + p < length (bs ! sb)" using assms(1,2,3) True by (auto simp: length_splice)
    then show "take S (drop (s + j * S) (bs[db := splice (bs ! db) a ys] ! sb)) ! p = take S (drop (s + j * S) (bs ! sb)) ! p"
      using assms True by (auto simp: nth_splice length_splice)
  qed (use assms True in \<open>simp add: length_splice\<close>)
qed (simp add: read_elem_def)

lemma fold_moves:
  assumes "sorted_wrt (\<lambda>i j. db = sb \<longrightarrow> d + i * D + D \<le> s + j * S \<or> s + j * S + S \<le> d + i * D) is" "0 < D"
    "\<And>b. length b = S \<Longrightarrow> length (conv b) = D" "db < length bs"
    "\<forall>i \<in> set is. d + i * D + D \<le> length (bs ! db) \<and> s + i * S + S \<le> length (bs ! sb)"
  shows "fold (move_bytes conv db d D sb s S) is bs =
    bs[db := map (\<lambda>p. if d \<le> p \<and> (p - d) div D \<in> set is then conv (read_elem bs sb s S ((p - d) div D)) ! ((p - d) mod D) else bs ! db ! p)
      [0 ..< length (bs ! db)]]"
  using assms(1,4,5)
proof (induction "is" arbitrary: bs)
  case Nil
  then show ?case by (simp add: map_nth)
next
  case (Cons i "is")
  define v where "v = conv (read_elem bs sb s S i)"
  define bs' where "bs' = move_bytes conv db d D sb s S i bs"
  have i: "d + i * D + D \<le> length (bs ! db)" "s + i * S + S \<le> length (bs ! sb)" using Cons.prems(3) by auto
  have v: "length v = D" using assms(3) length_read_elem [OF i(2)] by (simp add: v_def)
  have bs': "bs' = bs[db := splice (bs ! db) (d + i * D) v]" by (simp add: bs'_def move_bytes_def v_def)
  have len: "length (bs' ! b) = length (bs ! b)" for b
    using Cons.prems(2) i(1) v by (cases "b = db") (simp_all add: bs' length_splice)
  have same: "read_elem bs' sb s S j = read_elem bs sb s S j" if "j \<in> set is" for j
    unfolding bs' by (rule read_elem_splice) (use that Cons.prems v i in auto)
  have at_i: "bs' ! db ! p = (if d \<le> p \<and> (p - d) div D = i then v ! ((p - d) mod D) else bs ! db ! p)" if "p < length (bs ! db)" for p
  proof -
    have w: "(d \<le> p \<and> (p - d) div D = i) = (d + i * D \<le> p \<and> p < d + i * D + D)" using div_window [OF assms(2)] by (cases "d \<le> p") auto
    have "(p - d) mod D = p - (d + i * D)" if "d \<le> p" "(p - d) div D = i"
      using minus_div_mult_eq_mod [of "p - d" D] that by simp
    then show ?thesis using that v i Cons.prems(2) w by (auto simp: bs' nth_splice)
  qed
  have IH: "fold (move_bytes conv db d D sb s S) is bs' =
    bs'[db := map (\<lambda>p. if d \<le> p \<and> (p - d) div D \<in> set is then conv (read_elem bs' sb s S ((p - d) div D)) ! ((p - d) mod D) else bs' ! db ! p)
      [0 ..< length (bs' ! db)]]"
  proof (rule Cons.IH)
    show "db < length bs'" using Cons.prems(2) by (simp add: bs')
    show "\<forall>i \<in> set is. d + i * D + D \<le> length (bs' ! db) \<and> s + i * S + S \<le> length (bs' ! sb)" using Cons.prems(3) by (simp add: len)
  qed (use Cons.prems(1) in simp)
  have "(\<lambda>p. if d \<le> p \<and> (p - d) div D \<in> set is then conv (read_elem bs' sb s S ((p - d) div D)) ! ((p - d) mod D) else bs' ! db ! p) p =
    (if d \<le> p \<and> (p - d) div D \<in> set (i # is) then conv (read_elem bs sb s S ((p - d) div D)) ! ((p - d) mod D) else bs ! db ! p)"
    if "p < length (bs ! db)" for p
    using at_i [OF that] same by (auto simp: v_def)
  then have "map (\<lambda>p. if d \<le> p \<and> (p - d) div D \<in> set is then conv (read_elem bs' sb s S ((p - d) div D)) ! ((p - d) mod D) else bs' ! db ! p) [0 ..< length (bs' ! db)]
    = map (\<lambda>p. if d \<le> p \<and> (p - d) div D \<in> set (i # is) then conv (read_elem bs sb s S ((p - d) div D)) ! ((p - d) mod D) else bs ! db ! p) [0 ..< length (bs ! db)]"
    by (simp add: len)
  then show ?case using IH by (simp add: bs'_def [symmetric]) (simp add: bs')
qed

lemma nth_concat_equal:
  "\<forall>i < n. length (f i) = D \<Longrightarrow> 0 < D \<Longrightarrow> q < n * D \<Longrightarrow> concat (map f [0 ..< n]) ! q = f (q div D) ! (q mod D)"
proof (induction n)
  case (Suc n)
  have len: "length (concat (map f [0 ..< n])) = n * D" using Suc.prems(1) by (intro length_concat_equal) simp
  show ?case
  proof (cases "q < n * D")
    case True
    then show ?thesis using Suc len by (simp add: nth_append)
  next
    case False
    have "(q - 0) div D = n" using div_window [of D 0 q n] Suc.prems False by auto
    moreover have "q mod D = q - n * D" using calculation minus_div_mult_eq_mod [of q D] by simp
    ultimately show ?thesis using False len by (simp add: nth_append)
  qed
qed simp

lemma fold_moves_all:
  assumes "sorted_wrt (\<lambda>i j. db = sb \<longrightarrow> d + i * D + D \<le> s + j * S \<or> s + j * S + S \<le> d + i * D) is" "set is = {0 ..< n}" "0 < D"
    "\<And>b. length b = S \<Longrightarrow> length (conv b) = D" "db < length bs" "d + n * D \<le> length (bs ! db)" "s + n * S \<le> length (bs ! sb)"
  shows "fold (move_bytes conv db d D sb s S) is bs =
    bs[db := splice (bs ! db) d (concat (map (\<lambda>i. conv (read_elem bs sb s S i)) [0 ..< n]))]"
proof -
  have mono: "a + i * C + C \<le> m" if "i < n" "a + n * C \<le> m" for a i C m :: nat
    using that mult_le_mono1 [of "Suc i" n C] by simp
  have len: "length (conv (read_elem bs sb s S i)) = D" if "i < n" for i
    using assms(4) length_read_elem mono [OF that assms(7)] by simp
  let ?c = "concat (map (\<lambda>i. conv (read_elem bs sb s S i)) [0 ..< n])"
  have lc: "length ?c = n * D" using len by (rule length_concat_equal)
  have "map (\<lambda>p. if d \<le> p \<and> (p - d) div D \<in> set is then conv (read_elem bs sb s S ((p - d) div D)) ! ((p - d) mod D) else bs ! db ! p)
      [0 ..< length (bs ! db)] = splice (bs ! db) d ?c"
  proof (rule nth_equalityI)
    fix p
    assume "p < length (map (\<lambda>p. if d \<le> p \<and> (p - d) div D \<in> set is then conv (read_elem bs sb s S ((p - d) div D)) ! ((p - d) mod D) else bs ! db ! p) [0 ..< length (bs ! db)])"
    then have p: "p < length (bs ! db)" by simp
    have w: "((p - d) div D < n) = (p < d + n * D)" if "d \<le> p" using that assms(3) by (auto simp: div_less_iff_less_mult)
    show "map (\<lambda>p. if d \<le> p \<and> (p - d) div D \<in> set is then conv (read_elem bs sb s S ((p - d) div D)) ! ((p - d) mod D) else bs ! db ! p) [0 ..< length (bs ! db)] ! p
      = splice (bs ! db) d ?c ! p"
      using p assms(2,3,6) w lc nth_concat_equal [of n "\<lambda>i. conv (read_elem bs sb s S i)" D "p - d"] len by (auto simp: nth_splice)
  qed (use lc assms(6) in \<open>simp add: length_splice\<close>)
  then show ?thesis using fold_moves [OF assms(1,3,4,5)] mono assms(2,6,7) by simp
qed

subsection \<open>The order of the moves\<close>

lemma clamp_quo:
  assumes "0 < (m::int)" "0 \<le> n" "x0 = quo e m" "x = (if x0 < 0 then 0 else if n < x0 then n else x0)"
  shows "0 \<le> x" "x \<le> n" "0 < x \<Longrightarrow> x * m \<le> e" "x < n \<Longrightarrow> e < (x + 1) * m"
proof -
  show "0 \<le> x" "x \<le> n" using assms by auto
  have pos: "x0 = e div m" if "0 \<le> e" using quo_nonneg [OF that assms(1)] assms(3) by simp
  have neg: "x0 \<le> 0" if "e < 0" using that assms(1,3) by (simp add: quo_def sgn_if mult_less_0_iff div_int_pos_iff)
  show "x * m \<le> e" if "0 < x"
  proof -
    have e: "0 \<le> e" using neg that assms(4) by (auto split: if_splits intro: ccontr)
    have "x \<le> e div m" using pos [OF e] that assms(4) by (auto split: if_splits)
    then have "x * m \<le> e div m * m" using assms(1) by (intro mult_right_mono) auto
    also have "\<dots> \<le> e" using assms(1) by (simp add: minus_mod_eq_div_mult [symmetric])
    finally show ?thesis .
  qed
  show "e < (x + 1) * m" if "x < n"
  proof (cases "0 \<le> e")
    case True
    have "0 \<le> e div m" using True assms(1) by (simp add: pos_imp_zdiv_nonneg_iff)
    then have "x = e div m" using pos [OF True] that assms(4) by (auto split: if_splits)
    moreover have "e < (e div m + 1) * m" using pos_mod_bound [OF assms(1), of e] div_mult_mod_eq [of e m] by (simp only: distrib_right)
    ultimately show ?thesis by simp
  next
    case False
    have "0 \<le> (x + 1) * m" using \<open>0 \<le> x\<close> assms(1) by simp
    then show ?thesis using False by linarith
  qed
qed

lemma quo_minus: "quo (- a) (- b) = quo a b"
  by (simp add: quo_def)

lemma sorted_wrt_up: "(\<And>i j. a \<le> i \<Longrightarrow> i < j \<Longrightarrow> j \<le> b \<Longrightarrow> P i j) \<Longrightarrow> sorted_wrt P [a .. b]"
  and sorted_wrt_down: "(\<And>i j. a \<le> j \<Longrightarrow> j < i \<Longrightarrow> i \<le> b \<Longrightarrow> P i j) \<Longrightarrow> sorted_wrt P (rev [a .. b])"
  for a b :: int
  by (auto simp: sorted_wrt_rev intro!: sorted_wrt_mono_rel [OF _ sorted_wrt_upto])

lemma move_order_safe:
  fixes d s D S n :: int
  assumes "0 < D" "0 < S" "0 \<le> n"
  shows "sorted_wrt (\<lambda>i j. d + i * D + D \<le> s + j * S \<or> s + j * S + S \<le> d + i * D) (move_order d s D S n)"
proof -
  have up: "a * c \<le> b * c" if "a \<le> b" "0 < c" for a b c :: int using that by (intro mult_right_mono) auto
  consider "D = S" | "D < S" | "S < D" by linarith
  then show ?thesis
  proof cases
    case 1
    show ?thesis
    proof (cases "d \<le> s \<or> s + n * S \<le> d")
      case True
      have "d + i * D + D \<le> s + j * S \<or> s + j * S + S \<le> d + i * D" if "0 \<le> i" "i < j" "j \<le> n - 1" for i j
      proof -
        have "0 \<le> i * S" "(i + 1) * S \<le> j * S" "(j + 1) * S \<le> n * S" using up that assms by simp_all
        then show ?thesis using True 1 by (auto simp: distrib_right)
      qed
      moreover have "move_order d s D S n = [0 .. n - 1]" using 1 True by (simp add: move_order_def)
      ultimately show ?thesis by (simp only:) (rule sorted_wrt_up)
    next
      case False
      have "s + j * S + S \<le> d + i * D" if "0 \<le> j" "j < i" for i j
        using False 1 up [of "j + 1" i S] that assms by (auto simp: distrib_right)
      then show ?thesis using 1 False by (auto simp: move_order_def intro!: sorted_wrt_down)
    qed
  next
    case 2
    define x0 where "x0 = quo (d - s) (S - D)"
    define x where "x = (if x0 < 0 then 0 else if n < x0 then n else x0)"
    have m: "0 < S - D" using 2 by simp
    note c = clamp_quo [OF m assms(3) x0_def x_def]
    have o: "move_order d s D S n = [x .. n - 1] @ rev [0 .. x - 1]" using 2 by (simp add: move_order_def x_def x0_def Let_def)
    have late: "d + i * D \<le> s + i * S" if "x < i" "i \<le> n" for i
      using c(4) up [of "x + 1" i "S - D"] that m by (simp add: algebra_simps)
    have early: "s + i * S \<le> d + i * D" if "0 < x" "i \<le> x" for i
      using c(3) up [of i x "S - D"] that m by (simp add: algebra_simps)
    have 1: "d + i * D + D \<le> s + j * S" if "x \<le> i" "i < j" "j \<le> n - 1" for i j
      using late [of "i + 1"] up [of "i + 1" j S] that assms unfolding distrib_right mult_1 by linarith
    have 3: "s + j * S + S \<le> d + i * D" if "j < i" "i < x" "0 \<le> j" for i j
      using early [of i] up [of "j + 1" i S] that assms unfolding distrib_right mult_1 by linarith
    have 4: "s + j * S + S \<le> d + i * D" if "j < x" "x \<le> i" "0 \<le> j" for i j
      using early [of x] up [of "j + 1" x S] up [of x i D] that assms unfolding distrib_right mult_1 by linarith
    show ?thesis unfolding o using 1 3 4 by (auto simp: sorted_wrt_append intro!: sorted_wrt_up sorted_wrt_down)
  next
    case 3
    define x0 where "x0 = quo (s - d) (D - S)"
    define x where "x = (if x0 < 0 then 0 else if n < x0 then n else x0)"
    have m: "0 < D - S" using 3 by simp
    note c = clamp_quo [OF m assms(3) x0_def x_def]
    have o: "move_order d s D S n = [0 .. x - 1] @ rev [x .. n - 1]"
      using 3 quo_minus [of "s - d" "D - S"] by (simp add: move_order_def x_def x0_def Let_def)
    have late: "s + i * S \<le> d + i * D" if "x < i" "i \<le> n" for i
      using c(4) up [of "x + 1" i "D - S"] that m by (simp add: algebra_simps)
    have early: "d + i * D \<le> s + i * S" if "0 < x" "i \<le> x" for i
      using c(3) up [of i x "D - S"] that m by (simp add: algebra_simps)
    have 1: "d + i * D + D \<le> s + j * S" if "i < j" "j < x" "0 \<le> i" for i j
      using early [of "i + 1"] up [of "i + 1" j S] that assms unfolding distrib_right mult_1 by linarith
    have 2: "s + j * S + S \<le> d + i * D" if "x \<le> j" "j < i" "i \<le> n - 1" for i j
      using late [of i] up [of "j + 1" i S] that assms unfolding distrib_right mult_1 by linarith
    have 4: "d + i * D + D \<le> s + j * S" if "i < x" "x \<le> j" "0 \<le> i" for i j
      using early [of x] up [of "i + 1" x D] up [of x j S] that assms unfolding distrib_right mult_1 by linarith
    show ?thesis unfolding o using 1 2 4 by (auto simp: sorted_wrt_append intro!: sorted_wrt_up sorted_wrt_down)
  qed
qed

section \<open>set from a typed array\<close>

text \<open>The specification: every element of the source is read before the first is written.\<close>

definition convert :: "'z tworld_scheme tenv \<Rightarrow> elemKind \<Rightarrow> elemKind \<Rightarrow> 8 word list \<Rightarrow> 8 word list" where
  "convert T ks kd bs =
     (if ks = kd then bs
      else to_bytes (t_native T) (elemSize kd) (el_bits (elem (t_cvt T) kd :: 'z tworld_scheme elemType)
             (el_get (elem (t_cvt T) ks :: 'z tworld_scheme elemType) (of_bytes (t_native T) bs))))"

definition copied :: "'z tworld_scheme tenv \<Rightarrow> 'z tworld_scheme \<Rightarrow> typedArrayObject \<Rightarrow> typedArrayObject \<Rightarrow> int \<Rightarrow> 8 word list list" where
  "copied T w ta src n =
     (case (ab_data (buffers w ! viewedArrayBuf ta), ab_data (buffers w ! viewedArrayBuf src)) of
        (Some (db, _), Some (sb, _)) \<Rightarrow>
          (blocks w)[db := splice (blocks w ! db) (nat ((ta_offset ta + n) * ta_size ta))
            (concat (map (\<lambda>i. convert T (ta_kind src) (ta_kind ta)
               (read_elem (blocks w) sb (nat (ta_offset src * ta_size src)) (elemSize (ta_kind src)) i)) [0 ..< nat (ta_length src)]))]
      | _ \<Rightarrow> blocks w)"

lemma splice_nothing [simp]: "splice xs i [] = xs"
  by (simp add: splice_def)

lemma copied_nothing: "ta_length src = 0 \<Longrightarrow> copied T w ta src n = blocks w"
  by (auto simp: copied_def split: option.split prod.split)

lemma concat_reads:
  "concat (map (read_elem bs b s S) [0 ..< m]) = take (m * S) (drop s (bs ! b))"
proof (induction m)
  case (Suc m)
  have "take (Suc m * S) (drop s (bs ! b)) = take (m * S + S) (drop s (bs ! b))" by (simp add: add.commute)
  also have "\<dots> = take (m * S) (drop s (bs ! b)) @ read_elem bs b s S m" by (simp only: take_add) (simp add: read_elem_def add.commute)
  finally show ?case using Suc by simp
qed simp

lemma length_convert: "length bs = elemSize ks \<Longrightarrow> length (convert T ks kd bs) = elemSize kd"
  by (simp add: convert_def)

lemma move_elem_step:
  fixes w :: "'z tworld_scheme"
  assumes "ab_data (buffers w ! viewedArrayBuf ta) = Some (db, dn)" "ab_data (buffers w ! viewedArrayBuf src) = Some (sb, sn)"
    "0 \<le> d" "0 \<le> s" "0 \<le> i" "db < length (blocks w)" "sb < length (blocks w)"
    "nat (d * ta_size ta) + nat i * elemSize (ta_kind ta) + elemSize (ta_kind ta) \<le> length (blocks w ! db)"
    "nat (s * ta_size src) + nat i * elemSize (ta_kind src) + elemSize (ta_kind src) \<le> length (blocks w ! sb)"
    "is_big (ta_kind src) = is_big (ta_kind ta)" "ta_kind src \<noteq> ta_kind ta"
  shows "move_elem T ta d src s i w = (Done (), w\<lparr>blocks := move_bytes (convert T (ta_kind src) (ta_kind ta)) db (nat (d * ta_size ta))
    (elemSize (ta_kind ta)) sb (nat (s * ta_size src)) (elemSize (ta_kind src)) (nat i) (blocks w)\<rparr>)"
proof -
  have at: "nat ((a + i) * int S) = nat (a * int S) + nat i * S" "0 \<le> (a + i) * int S" if "0 \<le> a" for a S
    using that assms(5) by (simp_all add: distrib_right nat_add_distrib nat_mult_distrib)
  let ?v = "el_get (elemOps T src) (of_bytes (t_native T) (read_elem (blocks w) sb (nat (s * ta_size src)) (elemSize (ta_kind src)) (nat i)))"
  have get: "elem_get T src (s + i) w = (Done ?v, w)"
    using assms at [OF assms(4)]
    by (simp add: elem_get_def elem_ptr_def bindT_def bufferData_def giveT_def typedArrayPtr_def peek_Some read_elem_def)
  have "\<exists>v'. el_bits (elem (t_cvt T) (ta_kind ta) :: 'z tworld_scheme elemType) v' = el_bits (elem (t_cvt T) (ta_kind ta) :: 'z tworld_scheme elemType) ?v \<and>
      (\<forall>E w. el_input (elem (t_cvt T) (ta_kind ta) :: 'z tworld_scheme elemType) E ?v w = (Inr v', w))"
    by (rule elem.input_pure)
      (use elem.get_content [of "t_cvt T" "ta_kind src"] assms(10) in simp)
  then obtain v' where v': "el_bits (elemOps T ta) v' = el_bits (elemOps T ta) ?v" "\<And>E w. el_input (elemOps T ta) E ?v w = (Inr v', w)"
    by blast
  have "elem_set T ta (d + i) ?v w = (Done (), w\<lparr>blocks := (blocks w)[db := splice (blocks w ! db) (nat ((d + i) * ta_size ta))
      (to_bytes (t_native T) (elemSize (ta_kind ta)) (el_bits (elemOps T ta) ?v))]\<rparr>)"
    using assms at [OF assms(3)] v'
    by (simp add: elem_set_def elem_ptr_def bindT_def bufferData_def giveT_def typedArrayPtr_def liftT_def poke_Some)
  then show ?thesis
    using get assms(11) at [OF assms(3)] by (simp add: move_elem_def bindT_def move_bytes_def convert_def)
qed

lemma move_bytes_length:
  assumes "db < length bs" "d + i * D + D \<le> length (bs ! db)" "\<And>b. length b = S \<Longrightarrow> length (conv b) = D" "s + i * S + S \<le> length (bs ! sb)"
  shows "length (move_bytes conv db d D sb s S i bs) = length bs" "length (move_bytes conv db d D sb s S i bs ! b) = length (bs ! b)"
proof -
  have "length (conv (read_elem bs sb s S i)) = D" using assms(3,4) length_read_elem by blast
  then show "length (move_bytes conv db d D sb s S i bs ! b) = length (bs ! b)"
    using assms(1,2) by (cases "b = db") (simp_all add: move_bytes_def length_splice)
qed (simp add: move_bytes_def)

lemma forT_moves:
  fixes w :: "'z tworld_scheme"
  assumes "ab_data (buffers w ! viewedArrayBuf ta) = Some (db, dn)" "ab_data (buffers w ! viewedArrayBuf src) = Some (sb, sn)"
    "0 \<le> d" "0 \<le> s" "db < length (blocks w)" "sb < length (blocks w)" "is_big (ta_kind src) = is_big (ta_kind ta)" "ta_kind src \<noteq> ta_kind ta"
    "\<forall>i \<in> set is. 0 \<le> i \<and> nat (d * ta_size ta) + nat i * elemSize (ta_kind ta) + elemSize (ta_kind ta) \<le> length (blocks w ! db) \<and>
      nat (s * ta_size src) + nat i * elemSize (ta_kind src) + elemSize (ta_kind src) \<le> length (blocks w ! sb)"
  shows "forT is (move_elem T ta d src s) w = (Done (), w\<lparr>blocks := fold (move_bytes (convert T (ta_kind src) (ta_kind ta)) db
    (nat (d * ta_size ta)) (elemSize (ta_kind ta)) sb (nat (s * ta_size src)) (elemSize (ta_kind src))) (map nat is) (blocks w)\<rparr>)"
  using assms(1,2,5,6,9)
proof (induction "is" arbitrary: w)
  case (Cons i "is")
  let ?f = "move_bytes (convert T (ta_kind src) (ta_kind ta)) db (nat (d * ta_size ta)) (elemSize (ta_kind ta)) sb (nat (s * ta_size src)) (elemSize (ta_kind src))"
  have step: "move_elem T ta d src s i w = (Done (), w\<lparr>blocks := ?f (nat i) (blocks w)\<rparr>)"
    by (rule move_elem_step) (use Cons.prems assms(3,4,7,8) in auto)
  have len: "length (?f (nat i) (blocks w)) = length (blocks w)" "length (?f (nat i) (blocks w) ! b) = length (blocks w ! b)" for b
    by (rule move_bytes_length; use Cons.prems length_convert in auto)+
  have "forT is (move_elem T ta d src s) (w\<lparr>blocks := ?f (nat i) (blocks w)\<rparr>) =
      (Done (), (w\<lparr>blocks := ?f (nat i) (blocks w)\<rparr>)\<lparr>blocks := fold ?f (map nat is) (blocks (w\<lparr>blocks := ?f (nat i) (blocks w)\<rparr>))\<rparr>)"
    by (rule Cons.IH) (use Cons.prems in \<open>simp_all add: len\<close>)
  then show ?case using step by (simp add: bindT_def)
qed (simp add: giveT_def)

lemma sorted_wrt_map_nat:
  assumes "sorted_wrt P is" "\<And>i j. i \<in> set is \<Longrightarrow> j \<in> set is \<Longrightarrow> P i j \<Longrightarrow> R (nat i) (nat j)"
  shows "sorted_wrt R (map nat is)"
  unfolding sorted_wrt_map by (rule sorted_wrt_mono_rel [OF _ assms(1)]) (rule assms(2))

lemma moves_copy:
  fixes w :: "'z tworld_scheme"
  assumes "ab_data (buffers w ! viewedArrayBuf ta) = Some (db, dn)" "ab_data (buffers w ! viewedArrayBuf src) = Some (sb, sn)"
    "0 \<le> ta_offset ta + n" "0 \<le> ta_offset src" "0 \<le> ta_length src" "db < length (blocks w)" "sb < length (blocks w)"
    "is_big (ta_kind src) = is_big (ta_kind ta)" "ta_kind src \<noteq> ta_kind ta"
    "(ta_offset ta + n + ta_length src) * ta_size ta \<le> int (length (blocks w ! db))"
    "(ta_offset src + ta_length src) * ta_size src \<le> int (length (blocks w ! sb))"
  shows "forT (move_order (t_address T db + (ta_offset ta + n) * ta_size ta) (t_address T sb + ta_offset src * ta_size src) (ta_size ta) (ta_size src) (ta_length src))
      (move_elem T ta (ta_offset ta + n) src (ta_offset src)) w = (Done (), w\<lparr>blocks := copied T w ta src n\<rparr>)"
proof -
  define D S where "D = elemSize (ta_kind ta)" and "S = elemSize (ta_kind src)"
  define d s where "d = nat ((ta_offset ta + n) * int D)" and "s = nat (ta_offset src * int S)"
  define m where "m = nat (ta_length src)"
  define ord where "ord = move_order (t_address T db + (ta_offset ta + n) * int D) (t_address T sb + ta_offset src * int S) (int D) (int S) (ta_length src)"
  have pos: "0 < D" "0 < S" by (simp_all add: D_def S_def)
  have ds: "int d = (ta_offset ta + n) * int D" "int s = ta_offset src * int S" "int m = ta_length src"
    using assms(3,4,5) by (simp_all add: d_def s_def m_def)
  have bounds: "d + m * D \<le> length (blocks w ! db)" "s + m * S \<le> length (blocks w ! sb)"
  proof -
    have "int (d + m * D) \<le> int (length (blocks w ! db))" "int (s + m * S) \<le> int (length (blocks w ! sb))"
      using assms(10,11) by (simp_all add: ds algebra_simps flip: D_def S_def)
    then show "d + m * D \<le> length (blocks w ! db)" "s + m * S \<le> length (blocks w ! sb)" by linarith+
  qed
  have ord_set: "set ord = {0 ..< ta_length src}" unfolding ord_def using assms(5) by (auto simp: move_order_def Let_def)
  have nat_set: "set (map nat ord) = {0 ..< m}"
    using ord_set assms(5) by (auto simp: m_def image_iff intro!: bexI [of _ "int _"])
  have within: "a + nat i * C + C \<le> l" if "i \<in> set ord" "a + m * C \<le> l" for i a C l
  proof -
    have "Suc (nat i) \<le> m" using that(1) ord_set by (auto simp: m_def)
    then have "Suc (nat i) * C \<le> m * C" by (rule mult_le_mono1)
    then show ?thesis using that(2) by simp
  qed
  have "sorted_wrt (\<lambda>i j. db = sb \<longrightarrow> d + i * D + D \<le> s + j * S \<or> s + j * S + S \<le> d + i * D) (map nat ord)"
  proof (rule sorted_wrt_map_nat [OF move_order_safe [of "int D" "int S" "ta_length src"
        "t_address T db + (ta_offset ta + n) * int D" "t_address T sb + ta_offset src * int S", folded ord_def]])
    fix i j
    assume ij: "i \<in> set ord" "j \<in> set ord"
      "t_address T db + (ta_offset ta + n) * int D + i * int D + int D \<le> t_address T sb + ta_offset src * int S + j * int S \<or>
       t_address T sb + ta_offset src * int S + j * int S + int S \<le> t_address T db + (ta_offset ta + n) * int D + i * int D"
    show "db = sb \<longrightarrow> d + nat i * D + D \<le> s + nat j * S \<or> s + nat j * S + S \<le> d + nat i * D"
    proof
      assume "db = sb"
      then have "int d + i * int D + int D \<le> int s + j * int S \<or> int s + j * int S + int S \<le> int d + i * int D"
        using ij(3) unfolding ds by auto
      moreover have "i * int D = int (nat i * D)" "j * int S = int (nat j * S)" using ij(1,2) ord_set by auto
      ultimately show "d + nat i * D + D \<le> s + nat j * S \<or> s + nat j * S + S \<le> d + nat i * D" by linarith
    qed
  qed (use pos assms(5) in auto)
  then have fold: "fold (move_bytes (convert T (ta_kind src) (ta_kind ta)) db d D sb s S) (map nat ord) (blocks w) =
      (blocks w)[db := splice (blocks w ! db) d (concat (map (\<lambda>i. convert T (ta_kind src) (ta_kind ta) (read_elem (blocks w) sb s S i)) [0 ..< m]))]"
    by (rule fold_moves_all [OF _ nat_set pos(1) _ assms(6) bounds]) (simp_all add: length_convert D_def S_def)
  have "forT ord (move_elem T ta (ta_offset ta + n) src (ta_offset src)) w =
      (Done (), w\<lparr>blocks := fold (move_bytes (convert T (ta_kind src) (ta_kind ta)) db d D sb s S) (map nat ord) (blocks w)\<rparr>)"
    unfolding d_def s_def D_def S_def
    by (rule forT_moves)
      (use assms within [OF _ bounds(1)] within [OF _ bounds(2)] ord_set in \<open>auto simp: d_def s_def D_def S_def\<close>)
  then show ?thesis
    unfolding fold copied_def using assms(1,2) by (simp add: ord_def d_def s_def m_def D_def S_def)
qed


lemma same_kind_copy:
  fixes w :: "'z tworld_scheme"
  assumes "ab_data (buffers w ! viewedArrayBuf ta) = Some (db, dn)" "ab_data (buffers w ! viewedArrayBuf src) = Some (sb, sn)"
    "0 \<le> ta_offset ta + n" "0 \<le> ta_offset src" "0 < ta_length src" "db < length (blocks w)" "sb < length (blocks w)" "ta_kind src = ta_kind ta"
    "dn \<le> length (blocks w ! db)" "sn \<le> length (blocks w ! sb)"
    "(ta_offset ta + n + ta_length src) * ta_size ta \<le> int dn" "(ta_offset src + ta_length src) * ta_size src \<le> int sn"
  shows "goCopy (Some (db, (ta_offset ta + n) * ta_size ta)) (int dn - (ta_offset ta + n) * ta_size ta)
      (Some (sb, ta_offset src * ta_size src)) (ta_length src * ta_size src) w = (Done (), w\<lparr>blocks := copied T w ta src n\<rparr>)"
proof -
  let ?S = "elemSize (ta_kind src)"
  let ?bytes = "take (nat (ta_length src) * ?S) (drop (nat (ta_offset src * ta_size src)) (blocks w ! sb))"
  have pos: "0 < ta_length src * ta_size src" "0 \<le> (ta_offset ta + n) * ta_size ta" "0 \<le> ta_offset src * ta_size src" using assms by simp_all
  have sum: "(ta_offset ta + n) * ta_size ta + ta_length src * ta_size src \<le> int dn" "ta_offset src * ta_size src + ta_length src * ta_size src \<le> int sn"
    using assms(8,11,12) by (simp_all add: algebra_simps)
  have len: "nat (min (int dn - (ta_offset ta + n) * ta_size ta) (ta_length src * ta_size src)) = nat (ta_length src) * ?S"
  proof -
    have "min (int dn - (ta_offset ta + n) * ta_size ta) (ta_length src * ta_size src) = ta_length src * ta_size src" using sum(1) by simp
    then show ?thesis using assms(5) by (simp add: nat_mult_distrib)
  qed
  have n: "int (nat (ta_length src) * ?S) = ta_length src * ta_size src" using assms(5) by simp
  have "nat (ta_offset src * ta_size src) + nat (ta_length src) * ?S \<le> length (blocks w ! sb)"
    "nat ((ta_offset ta + n) * ta_size ta) + nat (ta_length src) * ?S \<le> length (blocks w ! db)"
    using sum pos(2,3) n assms(9,10) by linarith+
  then have "goCopy (Some (db, (ta_offset ta + n) * ta_size ta)) (int dn - (ta_offset ta + n) * ta_size ta)
      (Some (sb, ta_offset src * ta_size src)) (ta_length src * ta_size src) w =
      (Done (), w\<lparr>blocks := (blocks w)[db := splice (blocks w ! db) (nat ((ta_offset ta + n) * ta_size ta)) ?bytes]\<rparr>)"
    using pos assms(5,6,7) elemSize_pos [of "ta_kind src"] by (simp add: goCopy_def len bindT_def peek_Some poke_Some del: elemSize_pos)
  moreover have "copied T w ta src n = (blocks w)[db := splice (blocks w ! db) (nat ((ta_offset ta + n) * ta_size ta)) ?bytes]"
    using assms(1,2,8) concat_reads [of "blocks w" sb "nat (ta_offset src * ta_size src)" ?S "nat (ta_length src)"]
    by (simp add: copied_def convert_def)
  ultimately show ?thesis by simp
qed

text \<open>The names of the constructors are the original ones, or any others with which the test for BigInts works.\<close>

definition usual_names :: "'z tworld_scheme tenv \<Rightarrow> 'z tworld_scheme \<Rightarrow> bool" where
  "usual_names T w \<longleftrightarrow> (\<forall>k. big_name T (t_defaultCtor T k) w = (Done (is_big k), w))"

lemma usual_check:
  "usual_names T w \<Longrightarrow> is_big k = is_big k' \<Longrightarrow> checkTypedArrayMixBigInt T (t_defaultCtor T k) (t_defaultCtor T k') w = (Done (), w)"
  by (simp add: usual_names_def checkTypedArrayMixBigInt_def bindT_def giveT_def)

lemma set_typed_nothing:
  assumes "valid_view w ta" "live w (viewedArrayBuf ta)" "valid_view w src" "live w (viewedArrayBuf src)" "ta_length src = 0"
    "0 \<le> n" "n \<le> ta_length ta" "is_big (ta_kind src) = is_big (ta_kind ta)" "int64 n = n" "usual_names T w"
  shows "set_typed T ta src n w = (Done (), w)"
proof (cases "ta_kind src = ta_kind ta")
  case True
  have "0 \<le> (ta_offset ta + n) * ta_size ta" "(ta_offset ta + n) * ta_size ta \<le> data_len (ab_data (buffers w ! viewedArrayBuf ta))"
    "0 \<le> ta_offset src * ta_size src" "ta_offset src * ta_size src \<le> data_len (ab_data (buffers w ! viewedArrayBuf src))"
    using view_bounds [OF assms(1,2,6)] view_bounds [OF assms(3,4), of 0] assms(5,7) by simp_all
  then show ?thesis
    using assms True
    by (simp add: set_typed_def thenT_def bindT_def ensureNotDetached_def bufferData_def goSlice_def goCopy_def giveT_def Let_def live_def)
next
  case False
  then show ?thesis
    using assms usual_check [OF assms(10,8)]
    by (auto simp: set_typed_def thenT_def bindT_def ensureNotDetached_def bufferData_def giveT_def Let_def live_def)
qed

text \<open>The memory of a view that is not empty.\<close>

lemma view_memory:
  assumes "good w" "valid_view w ta" "live w (viewedArrayBuf ta)" "0 \<le> i" "0 < l" "i + l \<le> ta_length ta"
  obtains d dn where "ab_data (buffers w ! viewedArrayBuf ta) = Some (d, dn)" "d < length (blocks w)" "dn \<le> length (blocks w ! d)"
    "(ta_offset ta + i + l) * ta_size ta \<le> int dn" "0 \<le> (ta_offset ta + i) * ta_size ta" "(ta_offset ta + i) * ta_size ta < int dn"
proof -
  have le: "(ta_offset ta + i + l) * ta_size ta \<le> data_len (ab_data (buffers w ! viewedArrayBuf ta))"
    using view_bounds(2) [OF assms(2,3), of "i + l"] assms(4,5,6) by (simp add: add.assoc)
  have "0 \<le> ta_offset ta" using assms(2) by (simp add: valid_view_def)
  then have lt: "(ta_offset ta + i) * ta_size ta < (ta_offset ta + i + l) * ta_size ta" "0 \<le> (ta_offset ta + i) * ta_size ta"
    using assms(4,5) by (auto intro!: mult_strict_right_mono)
  then have "0 < data_len (ab_data (buffers w ! viewedArrayBuf ta))" using le by linarith
  from live_data [OF assms(1) view_buffer [OF assms(2)] this] obtain d dn where "ab_data (buffers w ! viewedArrayBuf ta) = Some (d, dn)"
    "d < length (blocks w)" "dn \<le> length (blocks w ! d)" .
  then show ?thesis using that [of d dn] le lt by simp
qed

lemma set_typed_elements:
  fixes w :: "'z tworld_scheme"
  assumes "good w" "valid_view w ta" "live w (viewedArrayBuf ta)" "valid_view w src" "live w (viewedArrayBuf src)" "0 < ta_length src"
    "0 \<le> n" "n + ta_length src \<le> ta_length ta" "is_big (ta_kind src) = is_big (ta_kind ta)" "int64 (ta_length src + n) = ta_length src + n"
    "usual_names T w"
  shows "set_typed T ta src n w = (Done (), w\<lparr>blocks := copied T w ta src n\<rparr>)"
proof -
  have v: "0 \<le> ta_offset ta" "0 \<le> ta_offset src" using assms(2,4) by (auto simp: valid_view_def)
  have att: "\<not> detached (buffers w ! viewedArrayBuf ta)" "\<not> detached (buffers w ! viewedArrayBuf src)" using assms(3,5) by (simp_all add: live_def)
  from view_memory [OF assms(1-3,7,6,8)] obtain d dn where d: "ab_data (buffers w ! viewedArrayBuf ta) = Some (d, dn)" "d < length (blocks w)"
    "dn \<le> length (blocks w ! d)" "(ta_offset ta + n + ta_length src) * ta_size ta \<le> int dn" "0 \<le> (ta_offset ta + n) * ta_size ta"
    "(ta_offset ta + n) * ta_size ta < int dn" .
  obtain s sn where s: "ab_data (buffers w ! viewedArrayBuf src) = Some (s, sn)" "s < length (blocks w)" "sn \<le> length (blocks w ! s)"
    "(ta_offset src + ta_length src) * ta_size src \<le> int sn" "0 \<le> ta_offset src * ta_size src" "ta_offset src * ta_size src < int sn"
    using view_memory [OF assms(1,4,5), of 0 "ta_length src"] assms(6) by auto
  show ?thesis
  proof (cases "ta_kind src = ta_kind ta")
    case True
    have "goCopy (Some (d, (ta_offset ta + n) * ta_size ta)) (int dn - (ta_offset ta + n) * ta_size ta)
      (Some (s, ta_offset src * ta_size src)) (ta_length src * ta_size src) w = (Done (), w\<lparr>blocks := copied T w ta src n\<rparr>)"
      by (rule same_kind_copy [OF d(1) s(1)]) (use v assms(6,7) d s True in auto)
    then show ?thesis
      using att assms(6-8,10) v d(1,4-6) s(1,4-6) True
      by (simp add: set_typed_def thenT_def bindT_def ensureNotDetached_def bufferData_def goSlice_def giveT_def typedArrayPtr_def Let_def)
  next
    case False
    have "forT (move_order (t_address T d + (ta_offset ta + n) * ta_size ta) (t_address T s + ta_offset src * ta_size src) (ta_size ta) (ta_size src) (ta_length src))
      (move_elem T ta (ta_offset ta + n) src (ta_offset src)) w = (Done (), w\<lparr>blocks := copied T w ta src n\<rparr>)"
      by (rule moves_copy [OF d(1) s(1)]) (use v assms(6,7,9) False d s in auto)
    then show ?thesis
      using att assms(6-10) v d(1,4-6) s(1,4-6) False usual_check [OF assms(11,9)]
      by (simp add: set_typed_def thenT_def bindT_def ensureNotDetached_def bufferData_def byte_address_def giveT_def Let_def)
  qed
qed

text \<open>
  (C31) While the names of the constructors are the usual ones, setting elements of a typed array from another one, which may view the same memory at any distance with elements of another
  type and size, has the effect of reading all elements of the source first: each is converted to the element type of the
  destination (or copied as bytes when the types are the same) and stored, and nothing else changes. The order in which the code
  moves the elements, forwards below or above a turning point computed from the addresses and the sizes and backwards on the
  other side, never overwrites an element before it is read.
\<close>
theorem typed_set_correct:
  fixes w :: "'z tworld_scheme"
  assumes "good w" "valid_view w ta" "live w (viewedArrayBuf ta)" "valid_view w src" "live w (viewedArrayBuf src)"
    "0 \<le> n" "n + ta_length src \<le> ta_length ta" "is_big (ta_kind src) = is_big (ta_kind ta)"
    "usual_names T w"
  shows "typedArrayProto_set T ta (Inl src) (intToValue n) w = (Done (), w\<lparr>blocks := copied T w ta src n\<rparr>)"
proof -
  have att: "\<not> detached (buffers w ! viewedArrayBuf ta)" "\<not> detached (buffers w ! viewedArrayBuf src)" using assms(3,5) by (simp_all add: live_def)
  have v: "0 \<le> ta_offset ta" "0 \<le> ta_length ta" "0 \<le> ta_offset src" "0 \<le> ta_length src" using assms(2,4) by (auto simp: valid_view_def)
  note small = view_length [OF assms(1,2,3)] view_length [OF assms(1,4,5)]
  have iv: "intToValue n = VInt n" using assms(6,7) v small by (intro intToValue_small) (simp add: maxInt_def)
  have i64: "int64 n = n" "int64 (ta_length src + n) = ta_length src + n" using assms(6,7) v small by (auto intro!: wrap_s_id)
  have set: "typedArrayProto_set T ta (Inl src) (intToValue n) w = set_typed T ta src n w"
    unfolding iv using assms(6) att i64 by (simp add: typedArrayProto_set_def toIntegerT_def bindT_def thenT_def giveT_def ensureNotDetached_def)
  show ?thesis
  proof (cases "ta_length src = 0")
    case True
    have "set_typed T ta src n w = (Done (), w)"
      by (rule set_typed_nothing) (use assms i64 True in auto)
    then show ?thesis using set True by (cases w) (simp add: copied_nothing)
  next
    case False
    have "set_typed T ta src n w = (Done (), w\<lparr>blocks := copied T w ta src n\<rparr>)"
      by (rule set_typed_elements) (use assms i64 v False in auto)
    then show ?thesis using set by simp
  qed
qed

definition naming_env :: "tworld tenv" where
  "naming_env = detaching_env\<lparr>
     t_env := (t_env detaching_env)\<lparr>e_getStr := \<lambda>x _. ret (Some (VStr (ascii (if x = 101 then ''BigInt64Array'' else ''Uint8Array''))))\<rparr>,
     t_defaultCtor := \<lambda>k. if is_big k then 101 else 100\<rparr>"

lemma naming_usual: "usual_names naming_env w"
  by (simp add: usual_names_def naming_env_def big_name_def stringT_def bindT_def liftT_def giveT_def ret_def detaching_env_def ascii_def)

theorem typed_set_correct_witness:
  "typedArrayProto_set naming_env demo_middle (Inl \<lparr>ta_val = 12, viewedArrayBuf = 0, ta_kind = Uint8, ta_length = 2, ta_offset = 2\<rparr>) (VInt 0) demo_tworld =
   (Done (), demo_tworld\<lparr>blocks := [[1, 2, 3, 0, 4, 0, 7, 8]]\<rparr>)"
proof -
  let ?src = "\<lparr>ta_val = 12, viewedArrayBuf = 0, ta_kind = Uint8, ta_length = 2, ta_offset = 2\<rparr>"
  have "typedArrayProto_set naming_env demo_middle (Inl ?src) (intToValue 0) demo_tworld =
    (Done (), demo_tworld\<lparr>blocks := copied naming_env demo_tworld demo_middle ?src 0\<rparr>)"
    by (rule typed_set_correct) (simp_all add: demo_views is_big_def naming_usual)
  moreover have "intToValue 0 = VInt 0" by (simp add: intToValue_small maxInt_def)
  moreover have "copied naming_env demo_tworld demo_middle ?src 0 = [[1, 2, 3, 0, 4, 0, 7, 8]]" by code_simp
  ultimately show ?thesis by simp
qed


section \<open>What the code gets wrong\<close>

text \<open>
  \<^verbatim>\<open>copyWithin\<close> does not limit the number of elements by the space behind the target: on a view of bytes 2 to 5, moving the first
  element over the second also overwrites bytes 6 and 7.
\<close>
lemma copyWithin_writes_behind_view:
  "blocks (snd (typedArrayProto_copyWithin detaching_env demo_middle [VInt 1, VInt 0] demo_tworld)) = [[1, 2, 3, 4, 3, 4, 5, 6]]"
  by code_simp

text \<open>
  \<^verbatim>\<open>of\<close> stores at an index that does not count the offset of the view that the constructor returned, and stores through nil once
  the conversion of an argument has detached the buffer.
\<close>
lemma of_writes_before_view:
  "blocks (snd (typedArray_of (detaching_env\<lparr>t_construct := \<lambda>_ _. ret (Some demo_middle)\<rparr>) 5 [VInt 9, VInt 10] demo_tworld))
     = [[9, 0, 10, 0, 5, 6, 7, 8]]"
  by code_simp

lemma of_stores_through_nil:
  "fst (typedArray_of (detaching_env\<lparr>t_construct := \<lambda>_ _. ret (Some demo_bytes)\<rparr>) 5 [VObj 0, VInt 1] demo_tworld) = Crash"
  by code_simp

text \<open>\<^verbatim>\<open>map\<close> stores through nil after its callback detached the array that the species constructor returned.\<close>

lemma map_stores_through_nil:
  "fst (typedArrayProto_map allocating_env demo_bytes [VObj 1] demo_tworld) = Crash"
  by code_simp

text \<open>
  \<^verbatim>\<open>set\<close> from an array of another type reads the name of the constructor after it has checked that both buffers are attached. If the conversion of the
  name detaches them, the next index is out of the range of the nil slice and Go panics.
\<close>
lemma set_indexes_detached:
  "fst (typedArrayProto_set detaching_env demo_middle (Inl \<lparr>ta_val = 12, viewedArrayBuf = 0, ta_kind = Uint8, ta_length = 2, ta_offset = 2\<rparr>) (VInt 0) demo_tworld) = Crash"
  by code_simp

text \<open>Defining an element without giving a value calls a method of nil.\<close>

lemma define_without_value_panics:
  "fst (ta_defineIdxProperty detaching_env True demo_bytes 0
     \<lparr>pd_value = None, pd_writable = FLAG_TRUE, pd_configurable = FLAG_NOT_SET, pd_enumerable = FLAG_NOT_SET, pd_getter = None, pd_setter = None\<rparr>
     True demo_tworld) = Crash"
  by code_simp

text \<open>
  \<^verbatim>\<open>set\<close> from an object computes the address before it converts the element: user code that transfers the buffer in the conversion
  finds the element stored in the memory that now belongs to the new buffer.
\<close>
definition transferring_env :: "tworld tenv" where
  "transferring_env = detaching_env\<lparr>t_env := (t_env detaching_env)\<lparr>
     e_getStr := \<lambda>x s. ret (Some (if s = ascii ''length'' then VInt 1 else VObj x)),
     e_call := \<lambda>_ _ _ w. (Inr (VInt 7), snd (arrayBufferCopyAndDetach detaching_env 0 VUndef w))\<rparr>\<rparr>"

lemma set_writes_to_transferred_memory:
  "typedArrayProto_set transferring_env demo_bytes (Inr 3) (VInt 0) demo_tworld =
     (Done (), \<lparr>blocks = [[7, 2, 3, 4, 5, 6, 7, 8]], buffers = [\<lparr>detached = True, ab_data = None\<rparr>, \<lparr>detached = False, ab_data = Some (0, 8)\<rparr>]\<rparr>)"
  by code_simp

text \<open>
  On a machine that converts doubles out of range to the smallest \<^verbatim>\<open>int64\<close>, an \<^verbatim>\<open>Int16Array\<close> takes \<open>2 ^ 63 + 2048\<close> for 0 instead of 2048.
\<close>
lemma toInt16_out_of_range:
  "toInt16 (\<lambda>_. - (2 ^ 63)) (VFloat (f64_of_int (2 ^ 63 + 2048))) = 0 \<and> int16 (int_of_f64 (f64_of_int (2 ^ 63 + 2048))) = 2048"
  by code_simp

end
