(* ===== verification/Date_Parser.thy ===== *)
theory Date_Parser
  imports Prelude "HOL-Library.Monad_Syntax"
begin

text \<open>
  The parser of dates (date_parser.go): the format of ECMAScript and, when a text does not have it, a loop that collects
  whatever words and numbers look like parts of a date. A text is the list of its bytes. A function of the code that returns
  a rest and a flag returns \<open>None\<close> when the flag is false, and the caller goes on with the text it had.
\<close>

section \<open>Scanning\<close>

record date =
  p_year :: int
  p_month :: int
  p_day :: int
  p_hour :: int
  p_minute :: int
  p_sec :: int
  p_msec :: int
  p_timeZoneOffset :: int
  p_isLocal :: bool

fun skip :: "string \<Rightarrow> char \<Rightarrow> string option" where
  "skip (x # s) c = (if x = c then Some s else None)"
| "skip [] c = None"

fun skipSpaces :: "string \<Rightarrow> string" where
  "skipSpaces (x # s) = (if x = CHR '' '' then skipSpaces s else x # s)"
| "skipSpaces [] = []"

fun skipUntil :: "string \<Rightarrow> string \<Rightarrow> string" where
  "skipUntil (x # s) stopList = (if x \<in> set stopList then x # s else skipUntil s stopList)"
| "skipUntil [] stopList = []"

text \<open>The letters of the pattern are lower case; a letter of the text is put into lower case by setting one bit.\<close>

fun match_lower :: "string \<Rightarrow> string \<Rightarrow> string option" where
  "match_lower s [] = Some s"
| "match_lower [] (_ # _) = None"
| "match_lower (c1 # s) (c2 # lower) =
     (if c1 = c2 then match_lower s lower
      else let c = or (of_char c1 :: nat) 32 in
        if c \<noteq> of_char c2 \<or> c < 97 \<or> 122 < c then None else match_lower s lower)"

definition isDigit :: "char \<Rightarrow> bool" where
  "isDigit c \<longleftrightarrow> 48 \<le> (of_char c :: nat) \<and> (of_char c :: nat) \<le> 57"

definition digit_value :: "char \<Rightarrow> int" where
  "digit_value c = int (of_char c) - 48"

text \<open>The loops return the value, the number of digits and the rest.\<close>

fun get_digits_loop :: "nat \<Rightarrow> string \<Rightarrow> int \<Rightarrow> nat \<Rightarrow> int \<times> nat \<times> string" where
  "get_digits_loop (Suc k) (c # s) v i = (if isDigit c then get_digits_loop k s (v * 10 + digit_value c) (i + 1) else (v, i, c # s))"
| "get_digits_loop k s v i = (v, i, s)"

definition getDigits :: "string \<Rightarrow> nat \<Rightarrow> nat \<Rightarrow> (int \<times> string) option" where
  "getDigits s minDigits maxDigits =
     (let (v, i, t) = get_digits_loop maxDigits s 0 0 in if i < minDigits then None else Some (v, t))"

fun msec_loop :: "nat \<Rightarrow> string \<Rightarrow> int \<Rightarrow> int \<Rightarrow> nat \<Rightarrow> int \<times> nat \<times> string" where
  "msec_loop (Suc k) (c # s) mul v i = (if isDigit c then msec_loop k s (mul div 10) (v + digit_value c * mul) (i + 1) else (v, i, c # s))"
| "msec_loop k s mul v i = (v, i, s)"

definition getMilliseconds :: "string \<Rightarrow> int \<times> string" where
  "getMilliseconds s =
     (case s of
        c # t \<Rightarrow>
          if c = CHR ''.'' \<or> c = CHR '',''
          then let (v, i, r) = msec_loop 9 t 100 0 0 in if 0 < i then (v, r) else (0, s)
          else (0, s)
      | [] \<Rightarrow> (0, s))"

function tz_trim :: "nat \<Rightarrow> int \<Rightarrow> nat \<times> int" where
  "tz_trim n hh = (if 4 < n then tz_trim (n - 2) (hh div 100) else (n, hh))"
  by auto
termination
  by (relation "measure fst") auto

definition getTimeZoneOffset :: "string \<Rightarrow> bool \<Rightarrow> (int \<times> string) option" where
  "getTimeZoneOffset s strict =
     (case s of
        [] \<Rightarrow> None
      | sign # t \<Rightarrow>
          if sign = CHR ''+'' \<or> sign = CHR ''-'' then do {
            (hh0, t1) \<leftarrow> getDigits t 1 9;
            let n0 = length t - length t1;
            if strict \<and> n0 \<noteq> 2 \<and> n0 \<noteq> 4 then None else do {
              let (n, hh1) = tz_trim n0 hh0;
              (hh, mm, t2) \<leftarrow>
                (if 2 < n then Some (hh1 div 100, hh1 mod 100, t1)
                 else (case skip t1 (CHR '':'') of
                   None \<Rightarrow> Some (hh1, 0, t1)
                 | Some t' \<Rightarrow> map_option (\<lambda>(mm, t'). (hh1, mm, t')) (getDigits t' 2 2)));
              if 23 < hh \<or> 59 < mm then None
              else Some (if sign = CHR ''-'' then - (hh * 60 + mm) else hh * 60 + mm, t2)
            }
          }
          else if sign = CHR ''Z'' then Some (0, t)
          else None)"

definition tzAbbrs :: "(string \<times> int) list" where
  "tzAbbrs =
     [(''gmt'', 0), (''utc'', 0), (''ut'', 0), (''z'', 0), (''edt'', - 4 * 60), (''est'', - 5 * 60), (''cdt'', - 5 * 60),
      (''cst'', - 6 * 60), (''mdt'', - 6 * 60), (''mst'', - 7 * 60), (''pdt'', - 7 * 60), (''pst'', - 8 * 60), (''wet'', 0 * 60),
      (''west'', 1 * 60), (''cet'', 1 * 60), (''cest'', 2 * 60), (''eet'', 2 * 60), (''eest'', 3 * 60)]"

fun find_abbr :: "(string \<times> int) list \<Rightarrow> string \<Rightarrow> (int \<times> string) option" where
  "find_abbr ((name, v) # names) s = (case match_lower s name of Some t \<Rightarrow> Some (v, t) | None \<Rightarrow> find_abbr names s)"
| "find_abbr [] s = None"

definition getTimeZoneAbbr :: "string \<Rightarrow> (int \<times> string) option" where
  "getTimeZoneAbbr s = find_abbr tzAbbrs s"

definition monthNamesLower :: "string list" where
  "monthNamesLower = [''jan'', ''feb'', ''mar'', ''apr'', ''may'', ''jun'', ''jul'', ''aug'', ''sep'', ''oct'', ''nov'', ''dec'']"

definition getMonth :: "string \<Rightarrow> (int \<times> string) option" where
  "getMonth s = find_abbr (zip monthNamesLower [1 .. 12]) s"

section \<open>The format of ECMAScript\<close>

text \<open>The year: four digits, or a sign and six digits that are not those of the negative zero.\<close>

definition iso_year :: "string \<Rightarrow> (int \<times> string) option" where
  "iso_year s =
     (case s of
        [] \<Rightarrow> None
      | sign # t \<Rightarrow>
          if sign = CHR ''-'' \<or> sign = CHR ''+'' then do {
            (y, r) \<leftarrow> getDigits t 6 6;
            if sign = CHR ''-'' then (if y = 0 then None else Some (- y, r)) else Some (y, r)
          }
          else getDigits s 4 4)"

definition iso_month_day :: "string \<Rightarrow> (int \<times> int \<times> string) option" where
  "iso_month_day s =
     (case skip s (CHR ''-'') of
        None \<Rightarrow> Some (1, 1, s)
      | Some s1 \<Rightarrow> do {
          (m, s2) \<leftarrow> getDigits s1 2 2;
          if m < 1 then None
          else (case skip s2 (CHR ''-'') of
                  None \<Rightarrow> Some (m, 1, s2)
                | Some s3 \<Rightarrow> do {
                    (dd, s4) \<leftarrow> getDigits s3 2 2;
                    if dd < 1 then None else Some (m, dd, s4)
                  })
        })"

definition iso_time :: "string \<Rightarrow> (int \<times> int \<times> int \<times> int \<times> bool \<times> string) option" where
  "iso_time s =
     (case skip s (CHR ''T'') of
        None \<Rightarrow> Some (0, 0, 0, 0, False, s)
      | Some s1 \<Rightarrow> do {
          (h, s2) \<leftarrow> getDigits s1 2 2;
          s3 \<leftarrow> skip s2 (CHR '':'');
          (mi, s4) \<leftarrow> getDigits s3 2 2;
          (case skip s4 (CHR '':'') of
             None \<Rightarrow> Some (h, mi, 0, 0, True, s4)
           | Some s5 \<Rightarrow> do {
               (sc, s6) \<leftarrow> getDigits s5 2 2;
               let (ms, s7) = getMilliseconds s6;
               Some (h, mi, sc, ms, True, s7)
             })
        })"

definition parseDateISOString :: "string \<Rightarrow> date option" where
  "parseDateISOString s = do {
     (y, s1) \<leftarrow> iso_year s;
     (mo, dd, s2) \<leftarrow> iso_month_day s1;
     (h, mi, sc, ms, loc, s3) \<leftarrow> iso_time s2;
     (off, loc', s4) \<leftarrow> (if s3 = [] then Some (0, loc, s3) else map_option (\<lambda>(off, r). (off, False, r)) (getTimeZoneOffset s3 True));
     if s4 = [] then Some \<lparr>p_year = y, p_month = mo, p_day = dd, p_hour = h, p_minute = mi, p_sec = sc, p_msec = ms, p_timeZoneOffset = off, p_isLocal = loc'\<rparr>
     else None
   }"

section \<open>Other formats\<close>

record dateScan =
  q_date :: date
  q_nums :: "int list"
  q_hasYear :: bool
  q_hasMon :: bool
  q_hasTime :: bool

definition twoDigitYear :: "int \<Rightarrow> int" where
  "twoDigitYear v = v + (if v < 100 then 1900 else 0) + (if v < 50 then 100 else 0)"

text \<open>A sign: a time zone after a time, otherwise a year; a sign without digits is skipped.\<close>

definition scan_sign :: "dateScan \<Rightarrow> char \<Rightarrow> string \<Rightarrow> (dateScan \<times> string) option" where
  "scan_sign q c s =
     (case (if q_hasTime q then getTimeZoneOffset s False else None) of
        Some (v, r) \<Rightarrow> Some (q\<lparr>q_date := (q_date q)\<lparr>p_timeZoneOffset := v, p_isLocal := False\<rparr>\<rparr>, r)
      | None \<Rightarrow>
          (case getDigits (tl s) 1 9 of
             None \<Rightarrow> Some (q, tl s)
           | Some (v, r) \<Rightarrow>
               if c = CHR ''-'' \<and> v = 0 then None
               else Some (q\<lparr>q_date := (q_date q)\<lparr>p_year := (if c = CHR ''-'' then - v else v)\<rparr>, q_hasYear := True\<rparr>, r)))"

text \<open>A time after the hours and a colon; the flag tells that am or pm was read.\<close>

definition scan_seconds :: "date \<Rightarrow> string \<Rightarrow> (int \<times> int \<times> string) option" where
  "scan_seconds d s =
     (case skip s (CHR '':'') of
        None \<Rightarrow> Some (p_sec d, p_msec d, s)
      | Some s1 \<Rightarrow> map_option (\<lambda>(sc, s2). (sc, getMilliseconds s2)) (getDigits s1 1 2))"

definition scan_half :: "int \<Rightarrow> string \<Rightarrow> int \<times> string \<times> bool" where
  "scan_half h s =
     (case match_lower (skipSpaces s) ''pm'' of
        Some t \<Rightarrow> (if h < 12 then h + 12 else h, t, True)
      | None \<Rightarrow>
          (case match_lower (skipSpaces s) ''am'' of
             Some t \<Rightarrow> (if h = 12 then 0 else h, t, True)
           | None \<Rightarrow> (h, s, False)))"

definition scan_time :: "dateScan \<Rightarrow> int \<Rightarrow> string \<Rightarrow> (dateScan \<times> string \<times> bool) option" where
  "scan_time q h s = do {
     (mi, s1) \<leftarrow> getDigits s 1 2;
     (sc, ms, s2) \<leftarrow> scan_seconds (q_date q) s1;
     let (h', r, cont) = scan_half h s2;
     Some (q\<lparr>q_date := (q_date q)\<lparr>p_hour := h', p_minute := mi, p_sec := sc, p_msec := ms\<rparr>, q_hasTime := True\<rparr>, r, cont)
   }"

definition scan_number :: "dateScan \<Rightarrow> int \<Rightarrow> nat \<Rightarrow> dateScan option" where
  "scan_number q v n =
     (if 2 < n then Some (q\<lparr>q_date := (q_date q)\<lparr>p_year := v\<rparr>, q_hasYear := True\<rparr>)
      else if v < 1 \<or> 31 < v then Some (q\<lparr>q_date := (q_date q)\<lparr>p_year := twoDigitYear v\<rparr>, q_hasYear := True\<rparr>)
      else if length (q_nums q) = 3 then None
      else Some (q\<lparr>q_nums := q_nums q @ [v]\<rparr>))"

fun skip_phrase :: "nat \<Rightarrow> string \<Rightarrow> nat \<times> string" where
  "skip_phrase level [] = (level, [])"
| "skip_phrase level (c # s) =
     (if level = 0 then (level, c # s)
      else skip_phrase (if c = CHR ''('' then level + 1 else if c = CHR '')'' then level - 1 else level) s)"

definition isLetter :: "char \<Rightarrow> bool" where
  "isLetter c \<longleftrightarrow> (let n = of_char c :: nat in 97 \<le> n \<and> n \<le> 122 \<or> 65 \<le> n \<and> n \<le> 90)"

text \<open>One word, number or sign at the beginning of a text that does not start with a space; the flag tells that the loop goes on
  without skipping separators.\<close>

definition scan_word :: "dateScan \<Rightarrow> char \<Rightarrow> string \<Rightarrow> (dateScan \<times> string \<times> bool) option" where
  "scan_word q c s =
     (case getMonth s of
        Some (v, r) \<Rightarrow> Some (q\<lparr>q_date := (q_date q)\<lparr>p_month := v\<rparr>, q_hasMon := True\<rparr>, skipUntil r ''0123456789 -/('', False)
      | None \<Rightarrow>
          (case getTimeZoneAbbr s of
             Some (v, r) \<Rightarrow>
               if r \<noteq> [] \<and> isLetter (hd r) then None
               else Some (q\<lparr>q_date := (q_date q)\<lparr>p_timeZoneOffset := v, p_isLocal := False\<rparr>\<rparr>, r, True)
           | None \<Rightarrow>
               if c = CHR ''('' then
                 (let (level, r) = skip_phrase 1 (tl s) in if 0 < level then None else Some (q, r, False))
               else if c = CHR '')'' then None
               else if q_hasYear q \<or> q_hasMon q \<or> q_hasTime q \<or> q_nums q \<noteq> [] then None
               else Some (q, skipUntil s '' -/('', False)))"

definition scan_item :: "dateScan \<Rightarrow> char \<Rightarrow> string \<Rightarrow> (dateScan \<times> string \<times> bool) option" where
  "scan_item q c s =
     (if c = CHR ''+'' \<or> c = CHR ''-'' then map_option (\<lambda>(q', r). (q', r, False)) (scan_sign q c s)
      else
        (case getDigits s 1 9 of
           Some (v, r) \<Rightarrow>
             (case skip r (CHR '':'') of
                Some r' \<Rightarrow> scan_time q v r'
              | None \<Rightarrow> map_option (\<lambda>q'. (q', r, False)) (scan_number q v (length s - length r)))
         | None \<Rightarrow> scan_word q c s))"

fun skip_separators :: "string \<Rightarrow> string" where
  "skip_separators (x # s) = (if x \<in> set ''-/.,'' then skip_separators s else x # s)"
| "skip_separators [] = []"

definition scan_step :: "dateScan \<Rightarrow> string \<Rightarrow> (dateScan \<times> string) option" where
  "scan_step q s = map_option (\<lambda>(q', r, cont). (q', if cont then r else skip_separators r)) (scan_item q (hd s) s)"

text \<open>Every step of the loop shortens the text, so the loop ends.\<close>

named_theorems scan_lengths \<open>what the scanning functions leave of a text\<close>

lemma digits_loop_length: "get_digits_loop k s v i = (v', i', t) \<Longrightarrow> i \<le> i' \<and> length s = length t + (i' - i)"
  by (induction k s v i rule: get_digits_loop.induct) (auto split: if_splits)

lemma getDigits_length [scan_lengths]: "getDigits s m n = Some (v, t) \<Longrightarrow> length t + m \<le> length s"
  by (auto simp: getDigits_def split: prod.splits if_splits dest!: digits_loop_length)

lemma msec_loop_length: "msec_loop k s mul v i = (v', i', t) \<Longrightarrow> length t \<le> length s"
  by (induction k s mul v i rule: msec_loop.induct) (auto split: if_splits)

lemma getMilliseconds_length [scan_lengths]: "getMilliseconds s = (v, t) \<Longrightarrow> length t \<le> length s"
  by (auto simp: getMilliseconds_def split: list.splits if_splits prod.splits dest!: msec_loop_length)

lemma skip_length [scan_lengths]: "skip s c = Some t \<Longrightarrow> length s = Suc (length t)"
  by (cases s) (auto split: if_splits)

lemma skipSpaces_length: "length (skipSpaces s) \<le> length s"
  by (induction s) auto

lemma skipSpaces_hd: "skipSpaces s \<noteq> [] \<Longrightarrow> hd (skipSpaces s) \<noteq> CHR '' ''"
  by (induction s) auto

lemma skipUntil_length: "length (skipUntil s l) \<le> length s"
  by (induction s) auto

lemma skip_separators_length: "length (skip_separators s) \<le> length s"
  by (induction s) auto

lemma skip_phrase_length [scan_lengths]: "skip_phrase n s = (l, t) \<Longrightarrow> length t \<le> length s"
proof (induction n s rule: skip_phrase.induct)
  case (2 n c s)
  then show ?case by (cases "n = 0") (auto simp: le_Suc_eq)
qed simp

lemma match_lower_length [scan_lengths]: "match_lower s l = Some t \<Longrightarrow> length s = length t + length l"
  by (induction s l rule: match_lower.induct) (auto simp: Let_def split: if_splits)

lemma find_name_length: "find_abbr ns s = Some (v, t) \<Longrightarrow> \<forall>(n, v) \<in> set ns. n \<noteq> [] \<Longrightarrow> length t < length s"
  by (induction ns s rule: find_abbr.induct) (fastforce split: option.splits dest: match_lower_length)+

lemma getMonth_length [scan_lengths]: "getMonth s = Some (v, t) \<Longrightarrow> length t < length s"
  unfolding getMonth_def by (erule find_name_length) (auto simp: monthNamesLower_def dest: set_zip_leftD)

lemma getTimeZoneAbbr_length [scan_lengths]: "getTimeZoneAbbr s = Some (v, t) \<Longrightarrow> length t < length s"
  unfolding getTimeZoneAbbr_def by (erule find_name_length) (auto simp: tzAbbrs_def)

lemma getTimeZoneOffset_length [scan_lengths]:
  assumes "getTimeZoneOffset s strict = Some (v, t)"
  shows "length t < length s"
proof (cases s)
  case (Cons sign u)
  show ?thesis
  proof (cases "sign = CHR ''+'' \<or> sign = CHR ''-''")
    case True
    then obtain hh0 t1 where t1: "getDigits u 1 9 = Some (hh0, t1)"
      using assms Cons by (auto simp: getTimeZoneOffset_def bind_eq_Some_conv simp del: tz_trim.simps)
    have "length t \<le> length t1"
      using assms True t1 unfolding Cons getTimeZoneOffset_def
      by (auto simp: bind_eq_Some_conv Let_def simp del: tz_trim.simps split: if_splits prod.splits option.splits dest!: skip_length getDigits_length)
    then show ?thesis using getDigits_length [OF t1] Cons by simp
  next
    case False
    then show ?thesis using assms Cons by (auto simp: getTimeZoneOffset_def split: if_splits)
  qed
qed (use assms in \<open>simp add: getTimeZoneOffset_def\<close>)

lemma scan_sign_length: "scan_sign q c s = Some (q', r) \<Longrightarrow> s \<noteq> [] \<Longrightarrow> length r < length s"
  by (cases s) (auto simp: scan_sign_def split: option.splits if_splits dest!: scan_lengths)

lemma scan_seconds_length [scan_lengths]: "scan_seconds d s = Some (sc, ms, t) \<Longrightarrow> length t \<le> length s"
  by (auto simp: scan_seconds_def split: option.splits dest!: scan_lengths)

lemma scan_half_length [scan_lengths]: "scan_half h s = (h', t, b) \<Longrightarrow> length t \<le> length s"
  using skipSpaces_length [of s] by (auto simp: scan_half_def split: option.splits dest!: scan_lengths)

lemma scan_time_length:
  assumes "scan_time q h s = Some (q', r, b)"
  shows "length r < length s"
proof -
  obtain mi s1 sc ms s2 where s: "getDigits s 1 2 = Some (mi, s1)" "scan_seconds (q_date q) s1 = Some (sc, ms, s2)"
    using assms by (auto simp: scan_time_def bind_eq_Some_conv)
  obtain h' t b' where "scan_half h s2 = (h', t, b')" by (cases "scan_half h s2")
  then show ?thesis using assms s by (auto simp: scan_time_def dest!: scan_lengths)
qed

lemma skipUntil_first: "s \<noteq> [] \<Longrightarrow> hd s \<notin> set l \<Longrightarrow> length (skipUntil s l) < length s"
  using skipUntil_length by (cases s) (auto simp: less_Suc_eq_le)

lemma skip_separators_first: "s \<noteq> [] \<Longrightarrow> hd s \<in> set ''-/.,'' \<Longrightarrow> length (skip_separators s) < length s"
  using skip_separators_length by (cases s) (auto simp: less_Suc_eq_le)

lemma scan_word_length:
  assumes "scan_word q (hd s) s = Some (q', r, b)" "s \<noteq> []" "hd s \<notin> {CHR '' '', CHR ''-''}"
  shows "length (if b then r else skip_separators r) < length s"
proof -
  have "length r < length s \<or> hd s = CHR ''/'' \<and> r = s \<and> \<not> b"
  proof (cases "getMonth s = None \<and> getTimeZoneAbbr s = None \<and> hd s \<noteq> CHR ''(''")
    case True
    then have r: "r = skipUntil s '' -/('' \<and> \<not> b" using assms(1) by (auto simp: scan_word_def split: if_splits)
    show ?thesis
    proof (cases "hd s = CHR ''/''")
      case True
      then have "skipUntil s '' -/('' = s" using assms(2) by (cases s) auto
      then show ?thesis using r True by simp
    next
      case False
      then show ?thesis using r skipUntil_first [of s "'' -/(''"] assms(2,3) True by auto
    qed
  next
    case False
    then have "length r < length s" using assms(1,2)
      by (cases s) (auto simp: scan_word_def split: option.splits if_splits prod.splits dest!: scan_lengths intro: le_less_trans [OF skipUntil_length])
    then show ?thesis by simp
  qed
  then show ?thesis using skip_separators_first [of s] skip_separators_length [of r] assms(2) by auto
qed

lemma scan_step_length:
  assumes "scan_step q s = Some (q', r)" "s \<noteq> []" "hd s \<noteq> CHR '' ''"
  shows "length r < length s"
proof -
  obtain u b where u: "scan_item q (hd s) s = Some (q', u, b)" and r: "r = (if b then u else skip_separators u)"
    using assms(1) by (auto simp: scan_step_def)
  have less: "length r < length s" if "length u < length s" using that r skip_separators_length [of u] by auto
  show ?thesis
  proof (cases "hd s = CHR ''+'' \<or> hd s = CHR ''-'' \<or> getDigits s 1 9 \<noteq> None")
    case True
    then have "length u < length s" using u assms(2)
      by (auto simp: scan_item_def split: option.splits if_splits dest!: scan_lengths scan_sign_length scan_time_length)
    then show ?thesis by (rule less)
  next
    case False
    then have "scan_word q (hd s) s = Some (q', u, b)" using u by (auto simp: scan_item_def split: option.splits)
    then show ?thesis using scan_word_length [of q s q' u b] assms False r by simp
  qed
qed

function scan_loop :: "dateScan \<Rightarrow> string \<Rightarrow> dateScan option" where
  "scan_loop q s =
     (let t = skipSpaces s in
      if t = [] then Some q else case scan_step q t of None \<Rightarrow> None | Some (q', r) \<Rightarrow> scan_loop q' r)"
  by auto
termination
proof (relation "measure (\<lambda>(q, s). length s)")
  fix q s t y q' r
  assume t: "t = skipSpaces s" "t \<noteq> []" and "scan_step q t = Some y" "(q', r) = y"
  then have "length r < length t" using skipSpaces_hd [of s] by (intro scan_step_length) auto
  then show "((q', r), (q, s)) \<in> measure (\<lambda>(q, s). length s)" using skipSpaces_length [of s] t(1) by simp
qed simp

declare scan_loop.simps [simp del]

text \<open>How the numbers without a place are understood, and the whole parser.\<close>

definition scan_result :: "dateScan \<Rightarrow> date option" where
  "scan_result q =
     (let d = q_date q;
          n = length (q_nums q) + (if q_hasYear q then 1 else 0) + (if q_hasMon q then 1 else 0)
      in if 3 < n then None
         else
           Option.bind
             (case q_nums q of
                [] \<Rightarrow> if q_hasYear q then Some d else None
              | [a] \<Rightarrow> Some (if q_hasMon q then d\<lparr>p_day := a\<rparr> else d\<lparr>p_month := a\<rparr>)
              | [a, b] \<Rightarrow>
                  Some (if q_hasYear q then d\<lparr>p_month := a, p_day := b\<rparr>
                        else if q_hasMon q then d\<lparr>p_year := twoDigitYear b, p_day := a\<rparr>
                        else d\<lparr>p_month := a, p_day := b\<rparr>)
              | [a, b, c] \<Rightarrow> Some (d\<lparr>p_year := twoDigitYear c, p_month := a, p_day := b\<rparr>)
              | _ \<Rightarrow> None)
             (\<lambda>d. if 0 < p_month d \<and> 0 < p_day d then Some d else None))"

definition parseDateOtherString :: "string \<Rightarrow> date option" where
  "parseDateOtherString s =
     Option.bind
       (scan_loop
          \<lparr>q_date = \<lparr>p_year = 2001, p_month = 1, p_day = 1, p_hour = 0, p_minute = 0, p_sec = 0, p_msec = 0, p_timeZoneOffset = 0,
             p_isLocal = True\<rparr>, q_nums = [], q_hasYear = False, q_hasMon = False, q_hasTime = False\<rparr> s)
       scan_result"

end
