(* ===== verification/Dates.thy ===== *)
theory Dates
  imports Arith Unistring Date_Parser
begin

text \<open>
  Dates (date.go, builtin_date.go): the parts of Go's package \<^verbatim>\<open>time\<close> that the code uses, the time values of date objects,
  the normalisation of the fields of a date, the setters and getters, \<^verbatim>\<open>Date.UTC\<close>, \<^verbatim>\<open>Date.parse\<close>, the constructor and \<^verbatim>\<open>toISOString\<close>.
  Go's calendar and the normalisation are compared with ECMAScript's \<^verbatim>\<open>MakeDay\<close>, \<^verbatim>\<open>MakeTime\<close> and \<^verbatim>\<open>MakeDate\<close>. The time zone database
  is an argument. The time values are part of the world, because user code that converts an argument can change them.
\<close>

section \<open>Go's package time\<close>

definition isLeap :: "int \<Rightarrow> bool" where
  "isLeap y \<longleftrightarrow> y mod 4 = 0 \<and> (y mod 100 \<noteq> 0 \<or> y mod 400 = 0)"

definition daysBefore :: "int list" where
  "daysBefore = [0, 31, 59, 90, 120, 151, 181, 212, 243, 273, 304, 334, 365]"

text \<open>Days between 1970-01-01 and a date with a month from 1 to 12, counted by cycles of 400, 100, 4 and 1 years, and back.\<close>

definition dateToDays :: "int \<Rightarrow> int \<Rightarrow> int \<Rightarrow> int" where
  "dateToDays year month day =
     (let y = year - 1; r = y mod 400; r' = r mod 100 in
      146097 * (y div 400) + 36524 * (r div 100) + 1461 * (r' div 4) + 365 * (r' mod 4) - 719162 +
      daysBefore ! nat (month - 1) + (if isLeap year \<and> 3 \<le> month then 1 else 0) + day - 1)"

definition yearOfDays :: "int \<Rightarrow> int \<times> int" where
  "yearOfDays days =
     (let d0 = days + 719162;
          n = d0 div 146097; d1 = d0 mod 146097;
          a0 = d1 div 36524; a = a0 - a0 div 4; d2 = d1 - 36524 * a;
          b = d2 div 1461; d3 = d2 - 1461 * b;
          c0 = d3 div 365; c = c0 - c0 div 4
      in (400 * n + 100 * a + 4 * b + c + 1, d3 - 365 * c))"

definition monthOfDay :: "bool \<Rightarrow> int \<Rightarrow> int \<times> int" where
  "monthOfDay leap yday =
     (if leap \<and> yday = 59 then (2, 29)
      else
        let day = (if leap \<and> 59 < yday then yday - 1 else yday);
            m = day div 31
        in if daysBefore ! nat (m + 1) \<le> day then (m + 2, day - daysBefore ! nat (m + 1) + 1)
           else (m + 1, day - daysBefore ! nat m + 1))"

datatype location = UTC | Local | FixedZone int

record Time =
  t_unix :: int
  t_nsec :: int
  t_loc :: location

text \<open>The zone in effect at a time: its offset in seconds, its beginning and its end.\<close>

type_synonym zone = "int \<Rightarrow> int \<times> int \<times> int"

definition zone_lookup :: "zone \<Rightarrow> location \<Rightarrow> int \<Rightarrow> int \<times> int \<times> int" where
  "zone_lookup Z loc s =
     (case loc of UTC \<Rightarrow> (0, - (2 ^ 63), 2 ^ 63 - 1) | FixedZone n \<Rightarrow> (n, - (2 ^ 63), 2 ^ 63 - 1) | Local \<Rightarrow> Z s)"

text \<open>\<^verbatim>\<open>time.Unix\<close> and \<^verbatim>\<open>time.Date\<close>, which normalises its arguments.\<close>

definition time_Unix :: "int \<Rightarrow> int \<Rightarrow> Time" where
  "time_Unix sec nsec = \<lparr>t_unix = sec + nsec div 10 ^ 9, t_nsec = nsec mod 10 ^ 9, t_loc = Local\<rparr>"

definition to_utc :: "zone \<Rightarrow> location \<Rightarrow> int \<Rightarrow> int" where
  "to_utc Z loc s =
     (let (offset, start, end') = zone_lookup Z loc s;
          utc = s - offset
      in if offset = 0 then s
         else if utc < start \<or> end' \<le> utc then s - fst (zone_lookup Z loc utc) else utc)"

definition time_Date :: "zone \<Rightarrow> int \<Rightarrow> int \<Rightarrow> int \<Rightarrow> int \<Rightarrow> int \<Rightarrow> int \<Rightarrow> int \<Rightarrow> location \<Rightarrow> Time" where
  "time_Date Z year month day hour mins sec nsec loc =
     (let m = month - 1;
          year' = year + m div 12;
          sec' = sec + nsec div 10 ^ 9;
          days = dateToDays year' (m mod 12 + 1) day
      in \<lparr>t_unix = to_utc Z loc (days * 86400 + hour * 3600 + mins * 60 + sec'), t_nsec = nsec mod 10 ^ 9, t_loc = loc\<rparr>)"

definition wall :: "zone \<Rightarrow> Time \<Rightarrow> int" where
  "wall Z t = t_unix t + fst (zone_lookup Z (t_loc t) (t_unix t))"

definition time_Year :: "zone \<Rightarrow> Time \<Rightarrow> int" where
  "time_Year Z t = fst (yearOfDays (wall Z t div 86400))"

definition time_Month :: "zone \<Rightarrow> Time \<Rightarrow> int" where
  "time_Month Z t = (let (y, d) = yearOfDays (wall Z t div 86400) in fst (monthOfDay (isLeap y) d))"

definition time_Day :: "zone \<Rightarrow> Time \<Rightarrow> int" where
  "time_Day Z t = (let (y, d) = yearOfDays (wall Z t div 86400) in snd (monthOfDay (isLeap y) d))"

definition time_Hour :: "zone \<Rightarrow> Time \<Rightarrow> int" where "time_Hour Z t = wall Z t mod 86400 div 3600"
definition time_Minute :: "zone \<Rightarrow> Time \<Rightarrow> int" where "time_Minute Z t = wall Z t mod 3600 div 60"
definition time_Second :: "zone \<Rightarrow> Time \<Rightarrow> int" where "time_Second Z t = wall Z t mod 60"
definition time_Weekday :: "zone \<Rightarrow> Time \<Rightarrow> int" where "time_Weekday Z t = (wall Z t div 86400 + 4) mod 7"

section \<open>Time values\<close>

definition maxTime :: int where "maxTime = 8640000000000000"
definition timeUnset :: int where "timeUnset = - (2 ^ 63)"

definition timeFromMsec :: "int \<Rightarrow> Time" where
  "timeFromMsec msec = time_Unix (quo msec 1000) (rem msec 1000 * 10 ^ 6)"

definition timeToMsec :: "Time \<Rightarrow> int" where
  "timeToMsec t = int64 (int64 (t_unix t * 1000) + quo (t_nsec t) (10 ^ 6))"

definition timeToMsecClip :: "Time \<Rightarrow> int option" where
  "timeToMsecClip t =
     (let sec = t_unix t in
      if sec < - 8640000000000 \<or> 8640000000000 < sec then None
      else let msec = int64 (int64 (sec * 1000) + quo (t_nsec t) (10 ^ 6)) in if - maxTime \<le> msec \<and> msec \<le> maxTime then Some msec else None)"

text \<open>The time values of the date objects, in the world.\<close>

record dateWorld =
  d_dates :: "oid \<rightharpoonup> int"

record 'w dateEnv =
  d_env :: "'w env"
  d_zone :: zone
  d_now :: Time

definition NaN_value :: val where "NaN_value = VFloat f64_nan"

definition set_msec :: "oid \<Rightarrow> int \<Rightarrow> 'z dateWorld_scheme \<Rightarrow> 'z dateWorld_scheme" where
  "set_msec x ms w = w\<lparr>d_dates := (d_dates w)(x \<mapsto> ms)\<rparr>"

definition date_unset :: "oid \<Rightarrow> ('z dateWorld_scheme, val) jsm" where
  "date_unset x w = (Inr NaN_value, set_msec x timeUnset w)"

definition setTimeMs :: "oid \<Rightarrow> int \<Rightarrow> ('z dateWorld_scheme, val) jsm" where
  "setTimeMs x ms w =
     (if 0 \<le> ms \<and> ms \<le> maxTime \<or> ms < 0 \<and> - maxTime \<le> ms then (Inr (intToValue ms), set_msec x ms w) else date_unset x w)"

definition setTime :: "oid \<Rightarrow> Time \<Rightarrow> ('z dateWorld_scheme, val) jsm" where
  "setTime x t w = (case timeToMsecClip t of Some ms \<Rightarrow> (Inr (intToValue ms), set_msec x ms w) | None \<Rightarrow> date_unset x w)"

definition isSet :: "int \<Rightarrow> bool" where
  "isSet msec \<longleftrightarrow> msec \<noteq> timeUnset"

definition newDateObject :: "oid \<Rightarrow> Time option \<Rightarrow> 'z dateWorld_scheme \<Rightarrow> 'z dateWorld_scheme" where
  "newDateObject x t = set_msec x (case t of Some t' \<Rightarrow> timeToMsec t' | None \<Rightarrow> timeUnset)"

definition timeUTC :: "int \<Rightarrow> Time" where
  "timeUTC msec = (timeFromMsec msec)\<lparr>t_loc := UTC\<rparr>"

section \<open>Normalisation\<close>

definition date_norm :: "int \<Rightarrow> int \<Rightarrow> int \<Rightarrow> (int \<times> int) option" where
  "date_norm hi lo base =
     (if lo < 0 \<and> hi = - (2 ^ 63) \<and> lo \<le> - base then None
      else
        let (hi1, lo1) =
              (if lo < 0 then
                 let n = int64 (quo (int64 (int64 (- lo) - 1)) base + 1) in (int64 (hi - n), int64 (lo + int64 (n * base)))
               else (hi, lo))
        in if base \<le> lo1 then
             (if hi1 = 2 ^ 63 - 1 then None
              else let n = quo lo1 base in Some (int64 (hi1 + n), int64 (lo1 - int64 (n * base))))
           else Some (hi1, lo1))"

definition mkTime :: "zone \<Rightarrow> int \<Rightarrow> int \<Rightarrow> int \<Rightarrow> int \<Rightarrow> int \<Rightarrow> int \<Rightarrow> int \<Rightarrow> location \<Rightarrow> Time option" where
  "mkTime Z year0 m0 day0 hour0 min0 sec0 nsec0 loc =
     Option.bind (date_norm year0 m0 12) (\<lambda>(year, m).
     Option.bind (date_norm sec0 nsec0 (10 ^ 9)) (\<lambda>(sec1, nsec).
     Option.bind (date_norm min0 sec1 60) (\<lambda>(min1, sec).
     Option.bind (date_norm hour0 min1 60) (\<lambda>(hour1, mins).
     Option.bind (date_norm day0 hour1 24) (\<lambda>(day, hour).
       if 2 ^ 31 - 1 < year \<or> year < - (2 ^ 31) \<or> 2 ^ 31 - 1 < day \<or> day < - (2 ^ 31) \<or> 2 ^ 31 - 1 \<le> m \<or> m < - (2 ^ 31) - 1
       then None
       else Some (time_Date Z year (m + 1) day hour mins sec nsec loc))))))"

section \<open>Setters\<close>

definition date_argument :: "val list \<Rightarrow> nat \<Rightarrow> val" where
  "date_argument args i = (if i < length args then args ! i else VUndef)"

definition IsNaN :: "val \<Rightarrow> bool" where
  "IsNaN v = (case v of VFloat f \<Rightarrow> f64_isnan f | _ \<Rightarrow> False)"

definition intArg :: "'w dateEnv \<Rightarrow> val list \<Rightarrow> int \<Rightarrow> ('w, int option) jsm" where
  "intArg E args argNum =
     bindM (ToNumber (d_env E) (date_argument args (nat argNum))) (\<lambda>n. ret (if IsNaN n then None else Some (ToInteger n)))"

text \<open>A field: the argument, which is missing only at position 0 without becoming optional, or the default.\<close>

definition date_field :: "'w dateEnv \<Rightarrow> val list \<Rightarrow> int \<Rightarrow> int \<Rightarrow> (int \<Rightarrow> ('w, 'a option) jsm) \<Rightarrow> ('w, 'a option) jsm" where
  "date_field E args argNum dflt k =
     (if argNum = 0 \<or> 0 < argNum \<and> argNum < int (length args)
      then bindM (intArg E args argNum) (\<lambda>r. case r of None \<Rightarrow> ret None | Some x \<Rightarrow> k x)
      else k dflt)"

definition dateSetMilliseconds ::
    "'w dateEnv \<Rightarrow> int \<Rightarrow> int \<Rightarrow> int \<Rightarrow> int \<Rightarrow> int \<Rightarrow> int \<Rightarrow> Time \<Rightarrow> val list \<Rightarrow> int \<Rightarrow> bool \<Rightarrow> ('w, Time option) jsm" where
  "dateSetMilliseconds E year mon day hours mins sec0 t args argNum utc =
     date_field E args argNum (quo (t_nsec t) (10 ^ 6)) (\<lambda>msec0.
       ret (Option.bind (date_norm sec0 msec0 1000) (\<lambda>(sec, msec).
         map_option (\<lambda>r. if utc then r\<lparr>t_loc := Local\<rparr> else r)
           (mkTime (d_zone E) year mon day hours mins sec (int64 (msec * 10 ^ 6)) (if utc then UTC else Local)))))"

definition dateSetSeconds ::
    "'w dateEnv \<Rightarrow> int \<Rightarrow> int \<Rightarrow> int \<Rightarrow> int \<Rightarrow> int \<Rightarrow> Time \<Rightarrow> val list \<Rightarrow> int \<Rightarrow> bool \<Rightarrow> ('w, Time option) jsm" where
  "dateSetSeconds E year mon day hours mins t args argNum utc =
     date_field E args argNum (time_Second (d_zone E) t) (\<lambda>sec. dateSetMilliseconds E year mon day hours mins sec t args (argNum + 1) utc)"

definition dateSetMinutes ::
    "'w dateEnv \<Rightarrow> int \<Rightarrow> int \<Rightarrow> int \<Rightarrow> int \<Rightarrow> Time \<Rightarrow> val list \<Rightarrow> int \<Rightarrow> bool \<Rightarrow> ('w, Time option) jsm" where
  "dateSetMinutes E year mon day hours t args argNum utc =
     date_field E args argNum (time_Minute (d_zone E) t) (\<lambda>mins. dateSetSeconds E year mon day hours mins t args (argNum + 1) utc)"

definition dateSetHours :: "'w dateEnv \<Rightarrow> int \<Rightarrow> int \<Rightarrow> int \<Rightarrow> Time \<Rightarrow> val list \<Rightarrow> int \<Rightarrow> bool \<Rightarrow> ('w, Time option) jsm" where
  "dateSetHours E year mon day t args argNum utc =
     date_field E args argNum (time_Hour (d_zone E) t) (\<lambda>hours. dateSetMinutes E year mon day hours t args (argNum + 1) utc)"

definition dateSetDay :: "'w dateEnv \<Rightarrow> int \<Rightarrow> int \<Rightarrow> Time \<Rightarrow> val list \<Rightarrow> int \<Rightarrow> bool \<Rightarrow> ('w, Time option) jsm" where
  "dateSetDay E year mon t args argNum utc =
     date_field E args argNum (time_Day (d_zone E) t) (\<lambda>day. dateSetHours E year mon day t args (argNum + 1) utc)"

definition dateSetMonth :: "'w dateEnv \<Rightarrow> int \<Rightarrow> Time \<Rightarrow> val list \<Rightarrow> int \<Rightarrow> bool \<Rightarrow> ('w, Time option) jsm" where
  "dateSetMonth E year t args argNum utc =
     date_field E args argNum (time_Month (d_zone E) t - 1) (\<lambda>mon. dateSetDay E year mon t args (argNum + 1) utc)"

definition dateSetFullYear :: "'w dateEnv \<Rightarrow> Time \<Rightarrow> val list \<Rightarrow> int \<Rightarrow> bool \<Rightarrow> ('w, Time option) jsm" where
  "dateSetFullYear E t args argNum utc =
     date_field E args argNum (time_Year (d_zone E) t) (\<lambda>year. dateSetMonth E year t args (argNum + 1) utc)"

definition dateSetYear :: "'w dateEnv \<Rightarrow> Time \<Rightarrow> val list \<Rightarrow> int \<Rightarrow> bool \<Rightarrow> ('w, Time option) jsm" where
  "dateSetYear E t args argNum utc =
     (if argNum = 0 \<or> 0 < argNum \<and> argNum < int (length args)
      then bindM (intArg E args argNum) (\<lambda>r. case r of
             None \<Rightarrow> ret None
           | Some year \<Rightarrow> dateSetMonth E (if 0 \<le> year \<and> year \<le> 99 then year + 1900 else year) t args (argNum + 1) utc)
      else dateSetMonth E (time_Year (d_zone E) t) t args (argNum + 1) utc)"

text \<open>The receiver of a method, a date object with its time value.\<close>

definition thisDate :: "val \<Rightarrow> (oid \<Rightarrow> int \<Rightarrow> ('z dateWorld_scheme, 'a) jsm) \<Rightarrow> ('z dateWorld_scheme, 'a) jsm" where
  "thisDate this k w =
     (case this of
        VObj x \<Rightarrow> (case d_dates w x of Some msec \<Rightarrow> k x msec w | None \<Rightarrow> throwM TypeErr w)
      | _ \<Rightarrow> throwM TypeErr w)"

definition limitCallArgs :: "val list \<Rightarrow> nat \<Rightarrow> val list" where
  "limitCallArgs args n = (if n < length args then take n args else args)"

text \<open>The setters of seconds to months, on a date that must be set, and those of years.\<close>

definition date_setter :: "'z dateWorld_scheme dateEnv \<Rightarrow> bool \<Rightarrow> int \<Rightarrow> val \<Rightarrow> val list \<Rightarrow> ('z dateWorld_scheme, val) jsm" where
  "date_setter E utc argNum this args =
     thisDate this (\<lambda>x tv.
       bindM (dateSetFullYear E (if utc then timeUTC tv else timeFromMsec tv) args argNum utc) (\<lambda>r.
         case r of
           None \<Rightarrow> date_unset x
         | Some t \<Rightarrow> if tv = timeUnset then ret NaN_value else setTime x t))"

definition dateproto_setUTCSeconds :: "'z dateWorld_scheme dateEnv \<Rightarrow> val \<Rightarrow> val list \<Rightarrow> ('z dateWorld_scheme, val) jsm" where
  "dateproto_setUTCSeconds E this args = date_setter E True (- 5) this args"

definition dateproto_setSeconds :: "'z dateWorld_scheme dateEnv \<Rightarrow> val \<Rightarrow> val list \<Rightarrow> ('z dateWorld_scheme, val) jsm" where
  "dateproto_setSeconds E this args = date_setter E False (- 5) this args"

definition dateproto_setUTCMinutes :: "'z dateWorld_scheme dateEnv \<Rightarrow> val \<Rightarrow> val list \<Rightarrow> ('z dateWorld_scheme, val) jsm" where
  "dateproto_setUTCMinutes E this args = date_setter E True (- 4) this args"

definition dateproto_setMinutes :: "'z dateWorld_scheme dateEnv \<Rightarrow> val \<Rightarrow> val list \<Rightarrow> ('z dateWorld_scheme, val) jsm" where
  "dateproto_setMinutes E this args = date_setter E False (- 4) this args"

definition dateproto_setUTCHours :: "'z dateWorld_scheme dateEnv \<Rightarrow> val \<Rightarrow> val list \<Rightarrow> ('z dateWorld_scheme, val) jsm" where
  "dateproto_setUTCHours E this args = date_setter E True (- 3) this args"

definition dateproto_setHours :: "'z dateWorld_scheme dateEnv \<Rightarrow> val \<Rightarrow> val list \<Rightarrow> ('z dateWorld_scheme, val) jsm" where
  "dateproto_setHours E this args = date_setter E False (- 3) this args"

definition dateproto_setUTCDate :: "'z dateWorld_scheme dateEnv \<Rightarrow> val \<Rightarrow> val list \<Rightarrow> ('z dateWorld_scheme, val) jsm" where
  "dateproto_setUTCDate E this args = date_setter E True (- 2) this (limitCallArgs args 1)"

definition dateproto_setDate :: "'z dateWorld_scheme dateEnv \<Rightarrow> val \<Rightarrow> val list \<Rightarrow> ('z dateWorld_scheme, val) jsm" where
  "dateproto_setDate E this args = date_setter E False (- 2) this (limitCallArgs args 1)"

definition dateproto_setUTCMonth :: "'z dateWorld_scheme dateEnv \<Rightarrow> val \<Rightarrow> val list \<Rightarrow> ('z dateWorld_scheme, val) jsm" where
  "dateproto_setUTCMonth E this args = date_setter E True (- 1) this (limitCallArgs args 2)"

definition dateproto_setMonth :: "'z dateWorld_scheme dateEnv \<Rightarrow> val \<Rightarrow> val list \<Rightarrow> ('z dateWorld_scheme, val) jsm" where
  "dateproto_setMonth E this args = date_setter E False (- 1) this (limitCallArgs args 2)"

definition date_year_setter ::
    "'z dateWorld_scheme dateEnv \<Rightarrow> bool \<Rightarrow> (Time \<Rightarrow> ('z dateWorld_scheme, Time option) jsm) \<Rightarrow> val \<Rightarrow> ('z dateWorld_scheme, val) jsm" where
  "date_year_setter E utc f this =
     thisDate this (\<lambda>x msec.
       let t = (if isSet msec then (if utc then timeUTC msec else timeFromMsec msec)
                else time_Date (d_zone E) 1970 1 1 0 0 0 0 (if utc then UTC else Local))
       in bindM (f t) (\<lambda>r. case r of None \<Rightarrow> date_unset x | Some t' \<Rightarrow> setTime x t'))"

definition dateproto_setUTCFullYear :: "'z dateWorld_scheme dateEnv \<Rightarrow> val \<Rightarrow> val list \<Rightarrow> ('z dateWorld_scheme, val) jsm" where
  "dateproto_setUTCFullYear E this args = date_year_setter E True (\<lambda>t. dateSetFullYear E t (limitCallArgs args 3) 0 True) this"

definition dateproto_setFullYear :: "'z dateWorld_scheme dateEnv \<Rightarrow> val \<Rightarrow> val list \<Rightarrow> ('z dateWorld_scheme, val) jsm" where
  "dateproto_setFullYear E this args = date_year_setter E False (\<lambda>t. dateSetFullYear E t (limitCallArgs args 3) 0 False) this"

definition dateproto_setYear :: "'z dateWorld_scheme dateEnv \<Rightarrow> val \<Rightarrow> val list \<Rightarrow> ('z dateWorld_scheme, val) jsm" where
  "dateproto_setYear E this args = date_year_setter E False (\<lambda>t. dateSetYear E t (limitCallArgs args 1) 0 False) this"

definition dateproto_setTime :: "'z dateWorld_scheme dateEnv \<Rightarrow> val \<Rightarrow> val list \<Rightarrow> ('z dateWorld_scheme, val) jsm" where
  "dateproto_setTime E this args =
     thisDate this (\<lambda>x _.
       bindM (ToNumber (d_env E) (date_argument args 0)) (\<lambda>n. if IsNaN n then date_unset x else setTimeMs x (ToInteger n)))"

definition dateproto_setMilliseconds :: "'z dateWorld_scheme dateEnv \<Rightarrow> val \<Rightarrow> val list \<Rightarrow> ('z dateWorld_scheme, val) jsm" where
  "dateproto_setMilliseconds E this args =
     thisDate this (\<lambda>x tv.
       bindM (ToNumber (d_env E) (date_argument args 0)) (\<lambda>n.
         if tv = timeUnset then ret NaN_value
         else if IsNaN n then date_unset x
         else
           (case date_norm (quo tv 1000) (ToInteger n) 1000 of
              None \<Rightarrow> date_unset x
            | Some (sec, msec) \<Rightarrow> setTimeMs x (int64 (int64 (sec * 1000) + msec)))))"

definition dateproto_setUTCMilliseconds :: "'z dateWorld_scheme dateEnv \<Rightarrow> val \<Rightarrow> val list \<Rightarrow> ('z dateWorld_scheme, val) jsm" where
  "dateproto_setUTCMilliseconds E this args =
     thisDate this (\<lambda>x tv.
       bindM (ToNumber (d_env E) (date_argument args 0)) (\<lambda>n.
         if tv = timeUnset then ret NaN_value
         else if IsNaN n then date_unset x
         else
           (case date_norm (quo tv 1000) (ToInteger n) 1000 of
              None \<Rightarrow> date_unset x
            | Some (sec, msec) \<Rightarrow> setTimeMs x (int64 (int64 (sec * 1000) + msec)))))"

section \<open>Getters and construction\<close>

definition date_getter :: "bool \<Rightarrow> (Time \<Rightarrow> int) \<Rightarrow> val \<Rightarrow> ('z dateWorld_scheme, val) jsm" where
  "date_getter utc field this =
     thisDate this (\<lambda>_ msec.
       ret (if isSet msec then intToValue (field (if utc then timeUTC msec else timeFromMsec msec)) else NaN_value))"

definition dateproto_getUTCFullYear :: "zone \<Rightarrow> val \<Rightarrow> ('z dateWorld_scheme, val) jsm" where
  "dateproto_getUTCFullYear Z = date_getter True (time_Year Z)"

definition dateproto_getFullYear :: "zone \<Rightarrow> val \<Rightarrow> ('z dateWorld_scheme, val) jsm" where
  "dateproto_getFullYear Z = date_getter False (time_Year Z)"

definition dateproto_getUTCMonth :: "zone \<Rightarrow> val \<Rightarrow> ('z dateWorld_scheme, val) jsm" where
  "dateproto_getUTCMonth Z = date_getter True (\<lambda>t. time_Month Z t - 1)"

definition dateproto_getMonth :: "zone \<Rightarrow> val \<Rightarrow> ('z dateWorld_scheme, val) jsm" where
  "dateproto_getMonth Z = date_getter False (\<lambda>t. time_Month Z t - 1)"

definition dateproto_getUTCDate :: "zone \<Rightarrow> val \<Rightarrow> ('z dateWorld_scheme, val) jsm" where
  "dateproto_getUTCDate Z = date_getter True (time_Day Z)"

definition dateproto_getDate :: "zone \<Rightarrow> val \<Rightarrow> ('z dateWorld_scheme, val) jsm" where
  "dateproto_getDate Z = date_getter False (time_Day Z)"

definition dateproto_getUTCDay :: "zone \<Rightarrow> val \<Rightarrow> ('z dateWorld_scheme, val) jsm" where
  "dateproto_getUTCDay Z = date_getter True (time_Weekday Z)"

definition dateproto_getDay :: "zone \<Rightarrow> val \<Rightarrow> ('z dateWorld_scheme, val) jsm" where
  "dateproto_getDay Z = date_getter False (time_Weekday Z)"

definition dateproto_getUTCHours :: "zone \<Rightarrow> val \<Rightarrow> ('z dateWorld_scheme, val) jsm" where
  "dateproto_getUTCHours Z = date_getter True (time_Hour Z)"

definition dateproto_getHours :: "zone \<Rightarrow> val \<Rightarrow> ('z dateWorld_scheme, val) jsm" where
  "dateproto_getHours Z = date_getter False (time_Hour Z)"

definition dateproto_getUTCMinutes :: "zone \<Rightarrow> val \<Rightarrow> ('z dateWorld_scheme, val) jsm" where
  "dateproto_getUTCMinutes Z = date_getter True (time_Minute Z)"

definition dateproto_getMinutes :: "zone \<Rightarrow> val \<Rightarrow> ('z dateWorld_scheme, val) jsm" where
  "dateproto_getMinutes Z = date_getter False (time_Minute Z)"

definition dateproto_getUTCSeconds :: "zone \<Rightarrow> val \<Rightarrow> ('z dateWorld_scheme, val) jsm" where
  "dateproto_getUTCSeconds Z = date_getter True (time_Second Z)"

definition dateproto_getSeconds :: "zone \<Rightarrow> val \<Rightarrow> ('z dateWorld_scheme, val) jsm" where
  "dateproto_getSeconds Z = date_getter False (time_Second Z)"

definition dateproto_getUTCMilliseconds :: "val \<Rightarrow> ('z dateWorld_scheme, val) jsm" where
  "dateproto_getUTCMilliseconds = date_getter True (\<lambda>t. quo (t_nsec t) (10 ^ 6))"

definition dateproto_getMilliseconds :: "val \<Rightarrow> ('z dateWorld_scheme, val) jsm" where
  "dateproto_getMilliseconds = date_getter False (\<lambda>t. quo (t_nsec t) (10 ^ 6))"

definition dateproto_getYear :: "zone \<Rightarrow> val \<Rightarrow> ('z dateWorld_scheme, val) jsm" where
  "dateproto_getYear Z = date_getter False (\<lambda>t. time_Year Z t - 1900)"

definition dateproto_getTime :: "val \<Rightarrow> ('z dateWorld_scheme, val) jsm" where
  "dateproto_getTime this = thisDate this (\<lambda>_ msec. ret (if isSet msec then intToValue msec else NaN_value))"

definition dateproto_valueOf :: "val \<Rightarrow> ('z dateWorld_scheme, val) jsm" where
  "dateproto_valueOf this = thisDate this (\<lambda>_ msec. ret (if isSet msec then intToValue msec else NaN_value))"

definition dateproto_getTimezoneOffset :: "zone \<Rightarrow> val \<Rightarrow> ('z dateWorld_scheme, val) jsm" where
  "dateproto_getTimezoneOffset Z this =
     thisDate this (\<lambda>_ msec.
       ret (if isSet msec
            then floatToValue (fdiv (f64_of_int (- fst (zone_lookup Z Local (t_unix (timeFromMsec msec))))) (f64_of_int 60))
            else NaN_value))"

text \<open>The text of a string value as Go sees it, and the time it stands for.\<close>

definition goText :: "ustr \<Rightarrow> string" where
  "goText u = map (\<lambda>b. char_of (unat b)) (units_string u)"

definition dateParse :: "zone \<Rightarrow> string \<Rightarrow> Time option" where
  "dateParse Z s =
     (case (case parseDateISOString s of Some d \<Rightarrow> Some d | None \<Rightarrow> parseDateOtherString s) of
        None \<Rightarrow> None
      | Some d \<Rightarrow>
          if 12 < p_month d \<or> 31 < p_day d \<or> 24 < p_hour d \<or> 59 < p_minute d \<or> 59 < p_sec d \<or>
             p_hour d = 24 \<and> (p_minute d \<noteq> 0 \<or> p_sec d \<noteq> 0 \<or> p_msec d \<noteq> 0) then None
          else
            let t = time_Date Z (p_year d) (p_month d) (p_day d) (p_hour d) (p_minute d) (p_sec d) (p_msec d * 10 ^ 6)
                      (if p_isLocal d then Local else FixedZone (p_timeZoneOffset d * 60))
            in if timeToMsecClip t = None then None else Some t)"

definition makeDate :: "'z dateWorld_scheme dateEnv \<Rightarrow> val list \<Rightarrow> bool \<Rightarrow> ('z dateWorld_scheme, Time option) jsm" where
  "makeDate E args utc =
     (let clip = \<lambda>t. ret (if timeToMsecClip t = None then None else Some t) in
      if 2 \<le> length args then
        bindM (dateSetYear E (time_Date (d_zone E) 1970 1 1 0 0 0 0 Local) args 0 utc)
          (\<lambda>r. case r of None \<Rightarrow> ret None | Some t \<Rightarrow> clip t)
      else if args = [] then clip (d_now E)
      else
        (\<lambda>w. case (case args ! 0 of VObj x \<Rightarrow> d_dates w x | _ \<Rightarrow> None) of
           Some ms \<Rightarrow> clip (timeFromMsec ms) w
         | None \<Rightarrow>
             bindM (toPrimitive (d_env E) (args ! 0)) (\<lambda>pv.
               case pv of
                 VStr s \<Rightarrow> ret (dateParse (d_zone E) (goText s))
               | _ \<Rightarrow>
                   bindM (ToNumber (d_env E) pv) (\<lambda>n.
                     case n of
                       VInt i \<Rightarrow> clip (timeFromMsec i)
                     | VFloat f \<Rightarrow>
                         if f64_isnan f \<or> f64_isinf f then ret None
                         else if flt (f64_of_int maxTime) (fabs f) then ret None
                         else clip (timeFromMsec (int_of_f64 f))
                     | _ \<Rightarrow> clip (timeFromMsec (ToInteger n)))) w))"

definition newDateTime :: "'z dateWorld_scheme dateEnv \<Rightarrow> oid \<Rightarrow> val list \<Rightarrow> ('z dateWorld_scheme, val) jsm" where
  "newDateTime E x args = bindM (makeDate E args False) (\<lambda>t w. (Inr (VObj x), newDateObject x t w))"

definition date_parse :: "'z dateWorld_scheme dateEnv \<Rightarrow> val list \<Rightarrow> ('z dateWorld_scheme, val) jsm" where
  "date_parse E args =
     bindM (case date_argument args 0 of VObj x \<Rightarrow> Object_toPrimitiveString (d_env E) x | v \<Rightarrow> ret v) (\<lambda>p.
     bindM (prim_toString (d_env E) p) (\<lambda>s.
       ret (case dateParse (d_zone E) (goText s) of Some t \<Rightarrow> intToValue (timeToMsec t) | None \<Rightarrow> NaN_value)))"

definition date_now :: "'z dateWorld_scheme dateEnv \<Rightarrow> val" where
  "date_now E = intToValue (timeToMsec (d_now E))"

definition date_UTC :: "'z dateWorld_scheme dateEnv \<Rightarrow> val list \<Rightarrow> ('z dateWorld_scheme, val) jsm" where
  "date_UTC E args =
     bindM (makeDate E (if length args < 2 then [date_argument args 0, VInt 0] else args) True)
       (\<lambda>r. ret (case r of None \<Rightarrow> NaN_value | Some t \<Rightarrow> intToValue (timeToMsec t)))"

section \<open>The text of a date\<close>

text \<open>Decimal digits, and Go's padding with zeros.\<close>

fun decimal :: "nat \<Rightarrow> string" where
  "decimal n = (if n < 10 then [] else decimal (n div 10)) @ [char_of (48 + n mod 10)]"

declare decimal.simps [simp del]

definition zero_padded :: "nat \<Rightarrow> int \<Rightarrow> string" where
  "zero_padded width n = replicate (width - length (decimal (nat n))) (CHR ''0'') @ decimal (nat n)"

text \<open>\<^verbatim>\<open>Format\<close> with the layout 2006-01-02T15:04:05.000Z from its second field on, and \<^verbatim>\<open>toISOString\<close>.\<close>

definition iso_rest :: "zone \<Rightarrow> Time \<Rightarrow> string" where
  "iso_rest Z t =
     zero_padded 2 (time_Month Z t) @ ''-'' @ zero_padded 2 (time_Day Z t) @ ''T'' @ zero_padded 2 (time_Hour Z t) @ '':'' @ zero_padded 2 (time_Minute Z t) @
     '':'' @ zero_padded 2 (time_Second Z t) @ ''.'' @ zero_padded 3 (quo (t_nsec t) (10 ^ 6)) @ ''Z''"

definition iso_text :: "zone \<Rightarrow> Time \<Rightarrow> string" where
  "iso_text Z t =
     (let y = time_Year Z t in
      if 0 \<le> y \<and> y \<le> 9999 then zero_padded 4 y @ ''-'' @ iso_rest Z t
      else (if y < 0 then ''-'' else ''+'') @ zero_padded 6 \<bar>y\<bar> @ ''-'' @ iso_rest Z t)"

definition dateproto_toISOString :: "zone \<Rightarrow> val \<Rightarrow> ('z dateWorld_scheme, val) jsm" where
  "dateproto_toISOString Z this =
     thisDate this (\<lambda>_ msec. if isSet msec then ret (VStr (ascii (iso_text Z (timeUTC msec)))) else throwM RangeErr)"

section \<open>The calendar of ECMAScript\<close>

definition DayFromYear :: "int \<Rightarrow> int" where
  "DayFromYear y = 365 * (y - 1970) + (y - 1969) div 4 - (y - 1901) div 100 + (y - 1601) div 400"

definition month_start :: "bool \<Rightarrow> int \<Rightarrow> int" where
  "month_start leap m = daysBefore ! nat m + (if leap \<and> 2 \<le> m then 1 else 0)"

definition MakeDay :: "int \<Rightarrow> int \<Rightarrow> int \<Rightarrow> int" where
  "MakeDay year month date =
     (let ym = year + month div 12 in DayFromYear ym + month_start (isLeap ym) (month mod 12) + date - 1)"

definition MakeTime :: "int \<Rightarrow> int \<Rightarrow> int \<Rightarrow> int \<Rightarrow> int" where
  "MakeTime hour mins sec ms = hour * 3600000 + mins * 60000 + sec * 1000 + ms"

definition MakeDate :: "int \<Rightarrow> int \<Rightarrow> int" where
  "MakeDate day time = day * 86400000 + time"

definition TimeClip :: "int \<Rightarrow> int option" where
  "TimeClip t = (if \<bar>t\<bar> \<le> 8640000000000000 then Some t else None)"

lemma quotient_by:
  "0 \<le> r \<Longrightarrow> r < k \<Longrightarrow> x = k * q + r \<Longrightarrow> x div k = q" "0 \<le> r \<Longrightarrow> r < k \<Longrightarrow> x = k * q + r \<Longrightarrow> x mod k = r" for k :: int
  by (auto intro: int_div_pos_eq int_mod_pos_eq)

lemma quotient_bounds:
  assumes "0 < (k::int)"
  shows "k * (x div k) \<le> x" "x < k * (x div k) + k"
  using mult_div_mod_eq [of k x] pos_mod_bound [OF assms, of x] pos_mod_sign [OF assms, of x] by linarith+

lemma cycles:
  fixes y :: int
  obtains n a b c where "y = 400 * n + 100 * a + 4 * b + c" "0 \<le> a" "a \<le> 3" "0 \<le> b" "b \<le> 24" "0 \<le> c" "c \<le> 3"
    "y div 400 = n" "y mod 400 div 100 = a" "y mod 400 mod 100 div 4 = b" "y mod 400 mod 100 mod 4 = c"
proof -
  define n r where "n = y div 400" and "r = y mod 400"
  define a s where "a = r div 100" and "s = r mod 100"
  define b c where "b = s div 4" and "c = s mod 4"
  have r: "y = 400 * n + r" "0 \<le> r" "r < 400" unfolding n_def r_def by (simp_all only: mult_div_mod_eq pos_mod_sign pos_mod_bound zero_less_numeral)
  have s: "r = 100 * a + s" "0 \<le> s" "s < 100" unfolding a_def s_def by (simp_all only: mult_div_mod_eq pos_mod_sign pos_mod_bound zero_less_numeral)
  have c: "s = 4 * b + c" "0 \<le> c" "c < 4" unfolding b_def c_def by (simp_all only: mult_div_mod_eq pos_mod_sign pos_mod_bound zero_less_numeral)
  show ?thesis
  proof (rule that [of n a b c])
    show "y div 400 = n" by (simp only: n_def)
    show "y mod 400 div 100 = a" by (simp only: r_def a_def)
    show "y mod 400 mod 100 div 4 = b" by (simp only: r_def s_def b_def)
    show "y mod 400 mod 100 mod 4 = c" by (simp only: r_def s_def c_def)
  qed (use r s c in linarith)+
qed

lemma DayFromYear_cycles:
  assumes "y - 1 = 400 * n + 100 * a + 4 * b + c" "0 \<le> a" "a \<le> 3" "0 \<le> b" "b \<le> 24" "0 \<le> c" "c \<le> 3"
  shows "DayFromYear y = 146097 * n + 36524 * a + 1461 * b + 365 * c - 719162"
proof -
  have y: "y = 400 * n + 100 * a + 4 * b + c + 1" using assms(1) by linarith
  have "(y - 1969) div 4 = 100 * n + 25 * a + b - 492"
    by (rule quotient_by [where r = c]) (use assms(2-7) in \<open>simp_all add: y\<close>)
  moreover have "(y - 1901) div 100 = 4 * n + a - 19"
    by (rule quotient_by [where r = "4 * b + c"]) (use assms(2-7) in \<open>simp_all add: y\<close>)
  moreover have "(y - 1601) div 400 = n - 4"
    by (rule quotient_by [where r = "100 * a + 4 * b + c"]) (use assms(2-7) in \<open>simp_all add: y\<close>)
  ultimately have "DayFromYear y = 365 * (y - 1970) + (100 * n + 25 * a + b - 492) - (4 * n + a - 19) + (n - 4)"
    unfolding DayFromYear_def by (simp only:)
  then show ?thesis unfolding y by simp
qed

lemma isLeap_cycles:
  assumes "y - 1 = 400 * n + 100 * a + 4 * b + c" "0 \<le> a" "a \<le> 3" "0 \<le> b" "b \<le> 24" "0 \<le> c" "c \<le> 3"
  shows "isLeap y \<longleftrightarrow> c = 3 \<and> (b \<noteq> 24 \<or> a = 3)"
proof -
  have y: "y = y - 1 + 1" by simp
  have m4: "y mod 4 = (if c = 3 then 0 else c + 1)"
    by (rule quotient_by(2) [where q = "100 * n + 25 * a + b + (if c = 3 then 1 else 0)"]) (use assms in \<open>auto split: if_splits\<close>)
  show ?thesis
  proof (cases "c = 3")
    case False
    then show ?thesis using m4 assms(6) by (auto simp: isLeap_def)
  next
    case True
    have m100: "y mod 100 = (if b = 24 then 0 else 4 * b + 4)"
      by (rule quotient_by(2) [where q = "4 * n + a + (if b = 24 then 1 else 0)"]) (use assms True in \<open>auto split: if_splits\<close>)
    have m400: "y mod 400 = (if a = 3 then 0 else 100 * a + 100)" if "b = 24"
      by (rule quotient_by(2) [where q = "n + (if a = 3 then 1 else 0)"]) (use assms True that in \<open>auto split: if_splits\<close>)
    show ?thesis using m4 m100 m400 True assms(2,4) by (auto simp: isLeap_def)
  qed
qed

lemma dateToDays_start: "dateToDays y m d = DayFromYear y + month_start (isLeap y) (m - 1) + d - 1"
proof -
  obtain n a b c where c: "y - 1 = 400 * n + 100 * a + 4 * b + c" "0 \<le> a" "a \<le> 3" "0 \<le> b" "b \<le> 24" "0 \<le> c" "c \<le> 3"
    "(y - 1) div 400 = n" "(y - 1) mod 400 div 100 = a" "(y - 1) mod 400 mod 100 div 4 = b" "(y - 1) mod 400 mod 100 mod 4 = c"
    by (rule cycles)
  have "(2 \<le> m - 1) = (3 \<le> m)" by linarith
  then show ?thesis
    unfolding dateToDays_def Let_def month_start_def c(8-11) DayFromYear_cycles [OF c(1-7)] by (simp only:)
qed

text \<open>The quotient cut down to 3, as the code does it for the leap day at the end of a cycle of four.\<close>

lemma cut_three:
  fixes k x :: int
  assumes "0 < k" "0 \<le> x" "x < 5 * k" "q = x div k"
  shows "0 \<le> q - q div 4" "q - q div 4 \<le> 3" "k * (q - q div 4) \<le> x" "q - q div 4 < 3 \<longrightarrow> x < k * (q - q div 4 + 1)"
proof -
  note b = quotient_bounds [OF assms(1), of x, folded assms(4)]
  have "0 \<le> q" using assms(1,2,4) by (simp add: pos_imp_zdiv_nonneg_iff)
  have "k * q < k * 5" using b assms(3) by linarith
  then have "q < 5" using assms(1) by simp
  then have "q = 0 \<or> q = 1 \<or> q = 2 \<or> q = 3 \<or> q = 4" using \<open>0 \<le> q\<close> by linarith
  then show "0 \<le> q - q div 4" "q - q div 4 \<le> 3" "k * (q - q div 4) \<le> x" "q - q div 4 < 3 \<longrightarrow> x < k * (q - q div 4 + 1)"
    using b assms(1) by (auto simp: distrib_left)
qed

lemma yearOfDays_correct:
  assumes "yearOfDays d = (y, yd)"
  shows "d = DayFromYear y + yd" "0 \<le> yd" "yd < 365 + (if isLeap y then 1 else 0)"
proof -
  define n d1 where "n = (d + 719162) div 146097" and "d1 = (d + 719162) mod 146097"
  define a0 where "a0 = d1 div 36524"
  define a where "a = a0 - a0 div 4"
  define d2 where "d2 = d1 - 36524 * a"
  define b where "b = d2 div 1461"
  define d3 where "d3 = d2 - 1461 * b"
  define c0 where "c0 = d3 div 365"
  define c where "c = c0 - c0 div 4"
  have y: "y = 400 * n + 100 * a + 4 * b + c + 1" "yd = d3 - 365 * c"
    using assms unfolding yearOfDays_def Let_def prod.inject n_def d1_def a0_def a_def d2_def b_def d3_def c0_def c_def by (simp_all only:)
  have d1: "d + 719162 = 146097 * n + d1" "0 \<le> d1" "d1 < 146097"
    unfolding n_def d1_def by (simp_all only: mult_div_mod_eq pos_mod_sign pos_mod_bound zero_less_numeral)
  have a: "0 \<le> a" "a \<le> 3" "36524 * a \<le> d1" "a < 3 \<longrightarrow> d1 < 36524 * (a + 1)"
    by (rule cut_three [OF _ d1(2) _ a0_def, folded a_def], use d1(3) in linarith, use d1(3) in linarith)+
  have d2: "0 \<le> d2" "d2 \<le> 36524" "a < 3 \<longrightarrow> d2 < 36524" using a d1(3) unfolding d2_def by (cases "a < 3"; simp)+
  have b: "0 \<le> b" "b \<le> 24" "d3 = d2 - 1461 * b" "0 \<le> d3" "d3 < 1461" 
  proof -
    have "1461 * b \<le> d2" "d2 < 1461 * b + 1461" unfolding b_def by (rule quotient_bounds; simp)+
    then show "0 \<le> b" "b \<le> 24" "d3 = d2 - 1461 * b" "0 \<le> d3" "d3 < 1461" using d2(1,2) by (simp_all add: d3_def)
  qed
  have c: "0 \<le> c" "c \<le> 3" "365 * c \<le> d3" "c < 3 \<longrightarrow> d3 < 365 * (c + 1)"
    by (rule cut_three [OF _ b(4) _ c0_def, folded c_def], use b(5) in linarith, use b(5) in linarith)+
  have Y: "y - 1 = 400 * n + 100 * a + 4 * b + c" using y(1) by simp
  note cyc = DayFromYear_cycles [OF Y a(1,2) b(1,2) c(1,2)] isLeap_cycles [OF Y a(1,2) b(1,2) c(1,2)]
  show "d = DayFromYear y + yd" using cyc(1) y(2) d1(1) b(3) d2_def by simp
  show "0 \<le> yd" using c y(2) by simp
  show "yd < 365 + (if isLeap y then 1 else 0)"
  proof (cases "c = 3")
    case False
    then show ?thesis using c y(2) by auto
  next
    case True
    show ?thesis
    proof (cases "b \<noteq> 24 \<or> a = 3")
      case leap: True
      then show ?thesis using cyc(2) True b(5) y(2) by simp
    next
      case noleap: False
      then have "d2 < 36524" using d2(3) a(2) by auto
      then show ?thesis using cyc(2) True noleap b(3) y(2) by auto
    qed
  qed
qed

definition month_ok :: "bool \<Rightarrow> int \<Rightarrow> bool" where
  "month_ok leap yd \<longleftrightarrow>
     (let (m, d) = monthOfDay leap yd in
      1 \<le> m \<and> m \<le> 12 \<and> 1 \<le> d \<and> month_start leap (m - 1) + d - 1 = yd \<and> yd < month_start leap m)"

lemma monthOfDay_table: "list_all (month_ok False) [0 .. 364] \<and> list_all (month_ok True) [0 .. 365]"
  by code_simp

lemma monthOfDay_correct:
  assumes "monthOfDay leap yd = (m, d)" "0 \<le> yd" "yd < 365 + (if leap then 1 else 0)"
  shows "1 \<le> m" "m \<le> 12" "1 \<le> d" "month_start leap (m - 1) + d - 1 = yd" "yd < month_start leap m"
proof -
  have "month_ok leap yd" using monthOfDay_table assms(2,3) by (cases leap) (auto simp: list_all_iff)
  then show "1 \<le> m" "m \<le> 12" "1 \<le> d" "month_start leap (m - 1) + d - 1 = yd" "yd < month_start leap m"
    using assms(1) by (auto simp: month_ok_def)
qed

lemma DayFromYear_Suc: "DayFromYear (y + 1) = DayFromYear y + 365 + (if isLeap y then 1 else 0)"
proof -
  obtain n a b c where c: "y - 1 = 400 * n + 100 * a + 4 * b + c" "0 \<le> a" "a \<le> 3" "0 \<le> b" "b \<le> 24" "0 \<le> c" "c \<le> 3"
    by (rule cycles)
  note here = DayFromYear_cycles [OF c] isLeap_cycles [OF c]
  note next' = DayFromYear_cycles [of "y + 1"]
  consider "c < 3" | "c = 3" "b < 24" | "c = 3" "b = 24" "a < 3" | "c = 3" "b = 24" "a = 3" using c by linarith
  then show ?thesis
  proof cases
    case 1
    then show ?thesis using next' [of n a b "c + 1"] here c by simp
  next
    case 2
    then show ?thesis using next' [of n a "b + 1" 0] here c by simp
  next
    case 3
    then show ?thesis using next' [of n "a + 1" 0 0] here c by simp
  next
    case 4
    then show ?thesis using next' [of "n + 1" 0 0 0] here c by simp
  qed
qed

lemma DayFromYear_mono: "DayFromYear y + 365 * int k \<le> DayFromYear (y + int k)"
proof (induction k)
  case (Suc k)
  then show ?case using DayFromYear_Suc [of "y + int k"] by (simp add: add.assoc) (simp add: add.commute)
qed simp

lemma year_unique:
  assumes "DayFromYear y + yd = DayFromYear z + zd" "0 \<le> yd" "yd < 365 + (if isLeap y then 1 else 0)"
    "0 \<le> zd" "zd < 365 + (if isLeap z then 1 else 0)"
  shows "y = z"
proof -
  have less: False if "DayFromYear u + ud = DayFromYear v + vd" "0 \<le> vd" "ud < 365 + (if isLeap u then 1 else 0)" "u < v" for u v ud vd
  proof -
    note uv = that
    obtain k where v: "v = u + 1 + int k" using uv(4) zle_iff_zadd [of "u + 1" v] by auto
    have "DayFromYear (u + 1) \<le> DayFromYear v" using DayFromYear_mono [of "u + 1" k] v by simp
    then show False using uv DayFromYear_Suc [of u] by (simp split: if_splits)
  qed
  show ?thesis using less [of y yd z zd] less [of z zd y yd] assms by (cases y z rule: linorder_cases) auto
qed

definition month_table :: "bool \<Rightarrow> bool" where
  "month_table leap \<longleftrightarrow> list_all (\<lambda>m. month_start leap m + 28 \<le> month_start leap (m + 1) \<and> month_start leap (m + 1) \<le> month_start leap m + 31) [0 .. 11] \<and>
     month_start leap 0 = 0 \<and> month_start leap 12 = 365 + (if leap then 1 else 0)"

lemma month_table: "month_table leap"
  by (cases leap; simp only:; code_simp)

lemma month_start_mono: "0 \<le> m \<Longrightarrow> m \<le> m' \<Longrightarrow> m' \<le> 12 \<Longrightarrow> month_start leap m \<le> month_start leap m'"
proof (induction "nat (m' - m)" arbitrary: m')
  case (Suc k)
  have "month_start leap (m' - 1) + 28 \<le> month_start leap m'"
    using month_table [of leap] Suc.prems Suc.hyps(2) by (auto simp: month_table_def list_all_iff dest!: bspec [of _ _ "m' - 1"])
  moreover have "month_start leap m \<le> month_start leap (m' - 1)" using Suc by (intro Suc.hyps(1)) auto
  ultimately show ?case by simp
qed simp

text \<open>The date of a day number, with months from 0 as in ECMAScript; it is unique.\<close>

definition civil :: "int \<Rightarrow> int \<Rightarrow> int \<Rightarrow> int \<Rightarrow> bool" where
  "civil day y m d \<longleftrightarrow> 0 \<le> m \<and> m \<le> 11 \<and> 1 \<le> d \<and> d \<le> month_start (isLeap y) (m + 1) - month_start (isLeap y) m \<and> MakeDay y m d = day"

lemma MakeDay_small: "0 \<le> m \<Longrightarrow> m \<le> 11 \<Longrightarrow> MakeDay y m d = DayFromYear y + month_start (isLeap y) m + d - 1"
  by (simp add: MakeDay_def Let_def div_pos_pos_trivial mod_pos_pos_trivial)

lemma civil_year_day:
  assumes "civil day y m d"
  shows "0 \<le> month_start (isLeap y) m + d - 1" "month_start (isLeap y) m + d - 1 < 365 + (if isLeap y then 1 else 0)"
proof -
  have m: "0 \<le> m" "m \<le> 11" "1 \<le> d" "d \<le> month_start (isLeap y) (m + 1) - month_start (isLeap y) m" using assms by (auto simp: civil_def)
  have "month_start (isLeap y) 0 \<le> month_start (isLeap y) m" "month_start (isLeap y) (m + 1) \<le> month_start (isLeap y) 12"
    using m by (auto intro!: month_start_mono)
  then show "0 \<le> month_start (isLeap y) m + d - 1" "month_start (isLeap y) m + d - 1 < 365 + (if isLeap y then 1 else 0)"
    using m month_table [of "isLeap y"] by (auto simp: month_table_def split: if_splits)
qed

lemma civil_unique:
  assumes "civil day y m d" "civil day y' m' d'"
  shows "y = y'" "m = m'" "d = d'"
proof -
  note b = civil_year_day [OF assms(1)] civil_year_day [OF assms(2)]
  have m: "0 \<le> m" "m \<le> 11" "1 \<le> d" "d \<le> month_start (isLeap y) (m + 1) - month_start (isLeap y) m"
    "0 \<le> m'" "m' \<le> 11" "1 \<le> d'" "d' \<le> month_start (isLeap y') (m' + 1) - month_start (isLeap y') m'" using assms by (auto simp: civil_def)
  have eq: "DayFromYear y + (month_start (isLeap y) m + d - 1) = DayFromYear y' + (month_start (isLeap y') m' + d' - 1)"
    using assms m MakeDay_small by (simp add: civil_def)
  show y: "y = y'" using year_unique [OF eq] b by simp
  have no: False if "u < v" "0 \<le> u" "v \<le> 11" "month_start l u + e = month_start l v + f" "e \<le> month_start l (u + 1) - month_start l u" "1 \<le> f" for l u v e f
    using month_start_mono [of "u + 1" v l] that by simp
  have "\<not> m < m'" "\<not> m' < m" using no [of m m' "isLeap y" d d'] no [of m' m "isLeap y" d' d] m eq y by auto
  then show "m = m'" by simp
  then show "d = d'" using eq y by simp
qed

lemma civil_of_days:
  assumes "yearOfDays day = (y, yd)" "monthOfDay (isLeap y) yd = (m, d)"
  shows "civil day y (m - 1) d"
proof -
  note y = yearOfDays_correct [OF assms(1)]
  note m = monthOfDay_correct [OF assms(2) y(2,3)]
  show ?thesis using m y(1) by (simp add: civil_def MakeDay_small)
qed

section \<open>Normalisation is exact\<close>

lemma div_neg: "0 < k \<Longrightarrow> (- x - 1) div k + 1 = - (x div k)" for k x :: int
proof -
  assume k: "0 < k"
  have "x = k * (x div k) + x mod k" "0 \<le> x mod k" "x mod k < k" using k by simp_all
  then have "(- x - 1) div k = - (x div k) - 1"
    by (intro quotient_by [where r = "k - 1 - x mod k"]) (simp_all add: algebra_simps)
  then show ?thesis by simp
qed

lemma abs_div_le: "0 < k \<Longrightarrow> \<bar>x div k\<bar> \<le> \<bar>x\<bar>" for k x :: int
proof (cases "0 \<le> x")
  case True
  assume k: "0 < k"
  have "0 \<le> x div k" using k True by (simp add: pos_imp_zdiv_nonneg_iff)
  moreover have "x div k \<le> k * (x div k)" using k calculation mult_right_mono [of 1 k "x div k"] by simp
  ultimately show ?thesis using quotient_bounds(1) [OF k, of x] True by simp
next
  case False
  assume k: "0 < k"
  have q: "x div k < 0" using k False by (intro div_neg_pos_less0) auto
  have "k * (x div k + 1) \<le> 1 * (x div k + 1)" using k q by (intro mult_right_mono_neg) auto
  then have "x < x div k + 1" using quotient_bounds(2) [OF k, of x] by (simp add: distrib_left)
  then show ?thesis using q False by simp
qed

lemma date_norm_exact:
  assumes "0 < base" "base \<le> 10 ^ 9" "\<bar>hi\<bar> \<le> 2 ^ 60" "\<bar>lo\<bar> \<le> 2 ^ 60"
  shows "date_norm hi lo base = Some (hi + lo div base, lo mod base)"
proof -
  define q r where "q = lo div base" and "r = lo mod base"
  have r: "0 \<le> r" "r < base" and lo: "lo = base * q + r" using assms(1) by (simp_all add: q_def r_def)
  have q: "\<bar>q\<bar> \<le> 2 ^ 60" using abs_div_le [OF assms(1), of lo] assms(4) by (simp add: q_def)
  have id: "int64 x = x" if "\<bar>x\<bar> \<le> 2 ^ 62" for x using that by (intro wrap_s_id) auto
  have hq: "\<bar>hi + q\<bar> \<le> 2 ^ 62" using assms(3) q by simp
  have rr: "\<bar>r\<bar> \<le> 2 ^ 62" using r assms(2) by simp
  have "\<bar>base * q\<bar> \<le> 2 ^ 62" using lo r assms(2,4) by simp
  then have bq1: "\<bar>q * base\<bar> \<le> 2 ^ 62" and bq2: "\<bar>- q * base\<bar> \<le> 2 ^ 62" by (simp_all add: mult.commute)
  show ?thesis
  proof (cases "lo < 0")
    case True
    have p: "int64 (- lo) = - lo" "int64 (- lo - 1) = - lo - 1" using assms(4) True by (auto intro!: id)
    have "quo (- lo - 1) base + 1 = - q" using div_neg [OF assms(1), of lo] assms(1) True by (simp add: quo_nonneg q_def)
    then have n: "int64 (quo (int64 (int64 (- lo) - 1)) base + 1) = - q" using p id q by simp
    have "lo + - q * base = r" using lo by simp
    then have h: "int64 (hi - - q) = hi + q" "int64 (- q * base) = - q * base" "int64 (lo + - q * base) = r"
      using id [OF hq] id [OF bq2] id [OF rr] by simp_all
    have "hi \<noteq> - (2 ^ 63)" using assms(3) by auto
    then show ?thesis using True n h r unfolding date_norm_def Let_def by (simp add: q_def [symmetric] r_def [symmetric] split: if_splits)
  next
    case False
    then have n: "quo lo base = q" using assms(1) by (simp add: quo_nonneg q_def)
    have "lo - q * base = r" using lo by simp
    then have h: "int64 (hi + q) = hi + q" "int64 (q * base) = q * base" "int64 (lo - q * base) = r"
      using id [OF hq] id [OF bq1] id [OF rr] by simp_all
    have "q = 0 \<and> r = lo" if "lo < base" using that False by (simp add: q_def r_def div_pos_pos_trivial mod_pos_pos_trivial)
    moreover have "hi \<noteq> 2 ^ 63 - 1" using assms(3) by auto
    ultimately show ?thesis using False n h unfolding date_norm_def Let_def by (simp add: q_def [symmetric] r_def [symmetric])
  qed
qed

text \<open>Outside that range the equation that the comment of \<^verbatim>\<open>_norm\<close> promises fails.\<close>

lemma date_norm_wraps: "date_norm (- (2 ^ 63) + 1) (- 2000) 1000 = Some (2 ^ 63 - 1, 0)"
  by code_simp

text \<open>The fields of a date in seconds, as the code carries them, are the quotient and the remainders of \<open>MakeTime\<close>.\<close>

lemma carry: "0 < k \<Longrightarrow> 0 < m \<Longrightarrow> (y + x div k) div m = (k * y + x) div (k * m)" for k m x y :: int
proof -
  assume km: "0 < k" "0 < m"
  have "(k * y + x) div (k * m) = (k * y + x) div k div m" using km by (simp add: zdiv_zmult2_eq)
  then show ?thesis using km by (simp add: add.commute)
qed

lemma carried_seconds:
  fixes hq hr mq mr sq sr h mi h1 mi1 s1 :: int
  assumes "hq * 24 + hr = h1" "mq * 60 + mr = mi1" "sq * 60 + sr = s1" "h1 = h + mq" "mi1 = mi + sq"
  shows "hq * 86400 + hr * 3600 + mr * 60 + sr = h * 3600 + mi * 60 + s1"
  using assms by simp

lemma carried_milliseconds:
  fixes D h mi s s1 ms k r :: int
  assumes "k * 1000 + r = ms" "s1 = s + k"
  shows "D * 86400000 + (h * 3600000 + mi * 60000 + s * 1000 + ms) = 1000 * (D * 86400 + h * 3600 + mi * 60 + s1) + r"
  using assms by simp

definition in32 :: "int \<Rightarrow> bool" where
  "in32 i \<longleftrightarrow> - (2 ^ 31) \<le> i \<and> i < 2 ^ 31"

definition small :: "int \<Rightarrow> bool" where
  "small i \<longleftrightarrow> \<bar>i\<bar> \<le> 2 ^ 53"

lemma mkTime_fields:
  fixes y m d h mi s ms :: int
  assumes "small y" "small m" "small d" "small h" "small mi" "small s" "small ms"
  defines "T \<equiv> MakeTime h mi s ms"
  defines "D \<equiv> d + T div 86400000"
  shows "Option.bind (date_norm s ms 1000) (\<lambda>(sec, msec). mkTime Z y m d h mi sec (int64 (msec * 10 ^ 6)) UTC) =
    (if in32 (y + m div 12) \<and> in32 D
     then Some \<lparr>t_unix = MakeDate (MakeDay y m d) T div 1000, t_nsec = MakeDate (MakeDay y m d) T mod 1000 * 10 ^ 6, t_loc = UTC\<rparr>
     else None)"
proof -
  define s1 where "s1 = s + ms div 1000"
  define mi1 where "mi1 = mi + s1 div 60"
  define h1 where "h1 = h + mi1 div 60"
  have b: "\<bar>x + z div k\<bar> \<le> 2 ^ 53 + \<bar>z\<bar>" if "small x" "0 < k" for x z k using abs_div_le [OF that(2), of z] that(1) by (simp add: small_def)
  have b1: "\<bar>s1\<bar> \<le> 2 ^ 54" using b [OF assms(6), of 1000 ms] assms(7) by (simp add: s1_def small_def)
  have b2: "\<bar>mi1\<bar> \<le> 2 ^ 55" using b [OF assms(5), of 60 s1] b1 by (simp add: mi1_def)
  have b3: "\<bar>h1\<bar> \<le> 2 ^ 56" using b [OF assms(4), of 60 mi1] b2 by (simp add: h1_def)
  have ns: "0 \<le> ms mod 1000" "ms mod 1000 < 1000" by simp_all
  have ns': "int64 (ms mod 1000 * 10 ^ 6) = ms mod 1000 * 10 ^ 6" using ns by (intro wrap_s_id) auto
  have norms: "date_norm s ms 1000 = Some (s1, ms mod 1000)" "date_norm y m 12 = Some (y + m div 12, m mod 12)"
    "date_norm s1 (ms mod 1000 * 10 ^ 6) (10 ^ 9) = Some (s1, ms mod 1000 * 10 ^ 6)" "date_norm mi s1 60 = Some (mi1, s1 mod 60)"
    "date_norm h mi1 60 = Some (h1, mi1 mod 60)" "date_norm d h1 24 = Some (d + h1 div 24, h1 mod 24)"
  proof -
    show "date_norm s ms 1000 = Some (s1, ms mod 1000)" unfolding s1_def by (rule date_norm_exact) (use assms(6,7) in \<open>auto simp: small_def\<close>)
    show "date_norm y m 12 = Some (y + m div 12, m mod 12)" by (rule date_norm_exact) (use assms(1,2) in \<open>auto simp: small_def\<close>)
    have "date_norm s1 (ms mod 1000 * 10 ^ 6) (10 ^ 9) = Some (s1 + ms mod 1000 * 10 ^ 6 div 10 ^ 9, ms mod 1000 * 10 ^ 6 mod 10 ^ 9)"
      by (rule date_norm_exact) (use b1 ns in auto)
    moreover have "ms mod 1000 * 10 ^ 6 div 10 ^ 9 = 0" "ms mod 1000 * 10 ^ 6 mod 10 ^ 9 = ms mod 1000 * 10 ^ 6"
      using ns by (auto intro!: div_pos_pos_trivial mod_pos_pos_trivial)
    ultimately show "date_norm s1 (ms mod 1000 * 10 ^ 6) (10 ^ 9) = Some (s1, ms mod 1000 * 10 ^ 6)" by simp
    show "date_norm mi s1 60 = Some (mi1, s1 mod 60)" unfolding mi1_def by (rule date_norm_exact) (use assms(5) b1 in \<open>auto simp: small_def\<close>)
    show "date_norm h mi1 60 = Some (h1, mi1 mod 60)" unfolding h1_def by (rule date_norm_exact) (use assms(4) b2 in \<open>auto simp: small_def\<close>)
    show "date_norm d h1 24 = Some (d + h1 div 24, h1 mod 24)" by (rule date_norm_exact) (use assms(3) b3 in \<open>auto simp: small_def\<close>)
  qed
  have carry_day: "h1 div 24 = T div 86400000"
  proof -
    have "h1 div 24 = (60 * h + mi1) div 1440" using carry [of 60 24 h mi1] by (simp add: h1_def)
    also have "\<dots> = (60 * (60 * h + mi) + s1) div 86400" using carry [of 60 1440 "60 * h + mi" s1] by (simp add: mi1_def add.assoc)
    also have "\<dots> = (1000 * (60 * (60 * h + mi) + s) + ms) div 86400000"
      using carry [of 1000 86400 "60 * (60 * h + mi) + s" ms] by (simp add: s1_def add.assoc)
    also have "1000 * (60 * (60 * h + mi) + s) + ms = T" by (simp add: T_def MakeTime_def)
    finally show ?thesis .
  qed
  have carried: "h1 div 24 * 86400 + h1 mod 24 * 3600 + mi1 mod 60 * 60 + s1 mod 60 = h * 3600 + mi * 60 + s1"
    by (rule carried_seconds [OF div_mult_mod_eq div_mult_mod_eq div_mult_mod_eq h1_def mi1_def])
  let ?U = "MakeDay y m d * 86400 + h * 3600 + mi * 60 + s1"
  have total: "MakeDate (MakeDay y m d) T = 1000 * ?U + ms mod 1000"
    unfolding MakeDate_def T_def MakeTime_def by (rule carried_milliseconds [OF div_mult_mod_eq s1_def])
  have parts: "MakeDate (MakeDay y m d) T div 1000 = ?U" "MakeDate (MakeDay y m d) T mod 1000 = ms mod 1000"
    by (rule quotient_by [OF ns total])+
  have mon: "0 \<le> m mod 12" "m mod 12 < 12" by simp_all
  have day: "dateToDays (y + m div 12) (m mod 12 + 1) (d + h1 div 24) = MakeDay y m d + h1 div 24"
    by (simp only: dateToDays_start MakeDay_def Let_def add_diff_cancel_right')
  have "time_Date Z (y + m div 12) (m mod 12 + 1) (d + h1 div 24) (h1 mod 24) (mi1 mod 60) (s1 mod 60) (ms mod 1000 * 10 ^ 6) UTC =
      \<lparr>t_unix = ?U, t_nsec = ms mod 1000 * 10 ^ 6, t_loc = UTC\<rparr>"
  proof -
    have z: "(m mod 12 + 1 - 1) div 12 = 0" "(m mod 12 + 1 - 1) mod 12 = m mod 12" using mon by (simp_all only: add_diff_cancel_right' div_pos_pos_trivial mod_pos_pos_trivial)
    have n: "ms mod 1000 * 10 ^ 6 div 10 ^ 9 = 0" "ms mod 1000 * 10 ^ 6 mod 10 ^ 9 = ms mod 1000 * 10 ^ 6"
      using ns by (auto intro!: div_pos_pos_trivial mod_pos_pos_trivial)
    have "(MakeDay y m d + h1 div 24) * 86400 + h1 mod 24 * 3600 + mi1 mod 60 * 60 + s1 mod 60 = ?U" using carried by (simp only: distrib_right)
    then show ?thesis unfolding time_Date_def Let_def z n add_0_right day by (simp add: to_utc_def zone_lookup_def Let_def)
  qed
  moreover have "\<not> (2 ^ 31 - 1 \<le> k \<or> k < - (2 ^ 31) - 1)" if "0 \<le> k" "k < 12" for k :: int using that by simp
  from this [OF mon] have "\<not> (2 ^ 31 - 1 \<le> m mod 12 \<or> m mod 12 < - (2 ^ 31) - 1)" .
  ultimately show ?thesis
    unfolding norms(1) bind.bind_lunit prod.case mkTime_def ns' norms(2-6) parts D_def carry_day [symmetric]
    by (auto simp: in32_def)
qed

end
