(* ===== verification/Spec2Isabelle.thy ===== *)
theory Spec2Isabelle
  imports Prelude Float64 Values Arith Ordered_Map Set_Methods Property Objects Arrays Promise
    Unistring String_Search Strings String_Iter Base64 Hex
    Machine Compiler Semantics Compiler_Expr Compiler_Layout Compiler_Link Compiler_Stmt
    Proxy Module_Exports Module_Eval Typed_Elements Typed_Arrays Typed_Safety Typed_Copy
    Date_Parser Dates Date_Methods
begin

text \<open>
  A verification library for sobek, a JavaScript engine written in Go. It models the engine's data model and the algorithms on
  it, file by file, and proves that they do what ECMAScript (or the contract of the data structure) demands.

  \<^bold>\<open>The program.\<close> A source text is parsed (\<^verbatim>\<open>parser/\<close>, \<^verbatim>\<open>ast/\<close>), compiled to instructions (\<^verbatim>\<open>compiler*.go\<close>) and run by a stack
  machine (\<^verbatim>\<open>vm.go\<close>) on values (\<^verbatim>\<open>value.go\<close>, \<^verbatim>\<open>string*.go\<close>) and objects (\<^verbatim>\<open>object.go\<close>, \<^verbatim>\<open>array.go\<close>, \<^verbatim>\<open>proxy.go\<close>, \<^verbatim>\<open>typedarrays.go\<close>).
  Every operation on an object goes through the interface \<^verbatim>\<open>objectImpl\<close>, whose default implementation is \<^verbatim>\<open>baseObject\<close>. Library
  objects (\<^verbatim>\<open>builtin_*.go\<close>, \<^verbatim>\<open>map.go\<close>, \<^verbatim>\<open>base64.go\<close>) sit on top. Modules (\<^verbatim>\<open>modules*.go\<close>) are linked and evaluated as a graph, and
  promise jobs run when the outermost call returns (\<^verbatim>\<open>runtime.go\<close>).

  \<^bold>\<open>Foundations.\<close>

  \<^item> \<^verbatim>\<open>Prelude\<close>: Go's fixed-width integers as integers with the wrap-around written out, truncating division, the binary search
    \<^verbatim>\<open>sort.Search\<close> and its correctness, list lemmas.
  \<^item> \<^verbatim>\<open>Float64\<close>: Go's \<^verbatim>\<open>float64\<close> as 64 bits with an exact rational value, correct rounding and the arithmetic and comparisons the
    engine uses. Executable.
  \<^item> \<^verbatim>\<open>Unistring\<close> (\<^verbatim>\<open>unistring/string.go\<close>): text as UTF-8, UTF-16 and property keys, and the conversions between them.

  \<^bold>\<open>Values and operators.\<close>

  \<^item> \<^verbatim>\<open>Values\<close> (\<^verbatim>\<open>value.go\<close>, parts of \<^verbatim>\<open>vm.go\<close>, \<^verbatim>\<open>runtime.go\<close>, \<^verbatim>\<open>array.go\<close>): the kinds of values, the two representations of Numbers and
    their canonical form, \<^verbatim>\<open>SameAs\<close>, \<^verbatim>\<open>StrictEquals\<close>, \<^verbatim>\<open>hash\<close>, the conversions to integers, array indices as strings. Canonical
    values are equal iff they are the same, the conversions are the ones of ECMAScript for every double, index strings round-trip.
  \<^item> \<^verbatim>\<open>Arith\<close> (\<^verbatim>\<open>vm.go\<close>, \<^verbatim>\<open>object.go\<close>, \<^verbatim>\<open>ipow.go\<close>, \<^verbatim>\<open>builtin_math.go\<close>): conversion of objects to primitives in a state and error monad over
    an environment of user code, and one function per operator instruction. The integer fast paths agree with double
    arithmetic, comparison is mathematical order, BigInts do not mix with Numbers, shifts and powers are exact or report overflow.
  \<^item> \<^verbatim>\<open>String_Search\<close>, \<^verbatim>\<open>Strings\<close>, \<^verbatim>\<open>String_Iter\<close> (\<^verbatim>\<open>string.go\<close>, \<^verbatim>\<open>string_ascii.go\<close>, \<^verbatim>\<open>string_unicode.go\<close>, \<^verbatim>\<open>string_imported.go\<close>, \<^verbatim>\<open>string_concat.go\<close>):
    the four representations of strings with lazy scanning and flattening in a memory they share, concatenation, equality, order,
    keys, search, the string builder, readers and the string iterator. Every operation agrees with the sequence of code units
    that the string denotes.

  \<^bold>\<open>Objects.\<close>

  \<^item> \<^verbatim>\<open>Property\<close> (\<^verbatim>\<open>object.go\<close>, \<^verbatim>\<open>value.go\<close>): descriptors, stored properties, validation and definition against an independent statement
    of ECMAScript's rules.
  \<^item> \<^verbatim>\<open>Objects\<close> (\<^verbatim>\<open>object.go\<close>): ordinary objects in a heap, the walks over the prototype chain as partial functions proved to return
    on acyclic heaps, assignment, deletion, \<^verbatim>\<open>setPrototypeOf\<close> and the lazily sorted key order.
  \<^item> \<^verbatim>\<open>Arrays\<close> (\<^verbatim>\<open>array.go\<close>, \<^verbatim>\<open>array_sparse.go\<close>): the dense and the sparse representation as records, Go slices as elements and spare
    capacity, every index and length operation, both switches. The locale \<^verbatim>\<open>array_store\<close> is the contract both representations
    keep about the length; histories refine the abstract array.
  \<^item> \<^verbatim>\<open>Proxy\<close> (\<^verbatim>\<open>proxy.go\<close>): the internal methods of a proxy for string keys, with traps as user code that may change the target. What a
    trap reports never contradicts the target, and without traps a proxy is transparent.
  \<^item> \<^verbatim>\<open>Ordered_Map\<close> (\<^verbatim>\<open>map.go\<close>): the hash map with collision chains and a doubly linked list of entries, as entries in an arena with
    optional indices for pointers. It refines an ordered association list (the locale \<^verbatim>\<open>ordered_dict\<close>), and its iterator is
    correct under any interleaving with changes. \<^verbatim>\<open>Set_Methods\<close> (\<^verbatim>\<open>builtin_set.go\<close>): the set methods, proved from that locale.
  \<^item> \<^verbatim>\<open>Base64\<close>, \<^verbatim>\<open>Hex\<close> (\<^verbatim>\<open>base64.go\<close>, \<^verbatim>\<open>builtin_typedarrays.go\<close>): the decoders with their fast loops refine ECMAScript's character by
    character algorithms, and invert the encoders.
  \<^item> \<^verbatim>\<open>Typed_Elements\<close>, \<^verbatim>\<open>Typed_Arrays\<close>, \<^verbatim>\<open>Typed_Safety\<close>, \<^verbatim>\<open>Typed_Copy\<close> (\<^verbatim>\<open>typedarrays.go\<close>, \<^verbatim>\<open>builtin_typedarrays.go\<close>, \<^verbatim>\<open>float16.go\<close>): memory as blocks of
    bytes, buffers that refer to a block or are detached, unchecked pointers whose misuse is the outcome \<open>Crash\<close>, the twelve
    element types (the locale \<^verbatim>\<open>element_type\<close>, interpreted on each), typed arrays, data views and buffers. The locale \<^verbatim>\<open>user_code\<close> says
    what user code can do to buffers in the middle of a method; in it the methods are proved memory safe. Copying between
    overlapping arrays reads everything before it writes, and data views store in the byte order asked for.
  \<^item> \<^verbatim>\<open>Date_Parser\<close>, \<^verbatim>\<open>Dates\<close>, \<^verbatim>\<open>Date_Methods\<close> (\<^verbatim>\<open>date_parser.go\<close>, \<^verbatim>\<open>date.go\<close>, \<^verbatim>\<open>builtin_date.go\<close>): the parser of dates in both formats, with the proof
    that its loop ends, the part of Go's package \<^verbatim>\<open>time\<close> that the code uses, over a time zone database that is an argument, time
    values, the normalisation of fields, the constructor, \<^verbatim>\<open>Date.UTC\<close>, \<^verbatim>\<open>Date.parse\<close>, getters, setters and \<^verbatim>\<open>toISOString\<close>. Go's calendar
    agrees with ECMAScript's \<^verbatim>\<open>MakeDay\<close>; \<^verbatim>\<open>Date.UTC\<close>, the getters and the setters in UTC but for the milliseconds compute what ECMAScript
    says, and the text of \<^verbatim>\<open>toISOString\<close> is read back as the same time.

  \<^bold>\<open>Execution.\<close>

  \<^item> \<^verbatim>\<open>Machine\<close> (\<^verbatim>\<open>vm.go\<close>): the state of the stack machine, the instructions for constants, operators, jumps, variables found by name,
    exceptions and returns, \<^verbatim>\<open>handleThrow\<close> and the run loop.
  \<^item> \<^verbatim>\<open>Compiler\<close> (\<^verbatim>\<open>compiler_expr.go\<close>, \<^verbatim>\<open>compiler_stmt.go\<close>, \<^verbatim>\<open>compiler.go\<close>): code generation with constant folding by the compiler's own machine,
    blocks with jumps that are patched when they are left, and the code of \<^verbatim>\<open>try\<close>. \<^verbatim>\<open>Semantics\<close>: what the compiled language means,
    independent of the machine and the compiler (\<open>eval\<close>, and \<open>big\<close> for statements), beside it what the code computes (\<open>evalc\<close>), which
    differs only where the value of a \<^verbatim>\<open>++\<close> or \<^verbatim>\<open>--\<close> is dropped and the operand is not a canonical number; the condition \<open>numbers\<close>
    on a run excludes that. \<^verbatim>\<open>Compiler_Expr\<close>: the code of an expression computes its value and folding is invisible.
    \<^verbatim>\<open>Compiler_Layout\<close>, \<^verbatim>\<open>Compiler_Link\<close>: where the parts of a statement stand in the finished program and that every patched
    jump leads there. \<^verbatim>\<open>Compiler_Stmt\<close>: the compiled body of a function does what its statements mean.
  \<^item> \<^verbatim>\<open>Promise\<close> (\<^verbatim>\<open>builtin_promise.go\<close>, \<^verbatim>\<open>runtime.go\<close>): promises, resolving functions, reactions, jobs and the job loop as state passing; atomic
    steps that move the right to settle a promise carry the invariant.
  \<^item> \<^verbatim>\<open>Module_Exports\<close>, \<^verbatim>\<open>Module_Eval\<close> (\<^verbatim>\<open>modules_sourcetext.go\<close>, \<^verbatim>\<open>modules_namespace.go\<close>, \<^verbatim>\<open>modules.go\<close>): the entries of a module, resolution of
    exports through cycles, namespace objects, linking and evaluation as depth-first searches with a stack, and the completion
    of modules with top-level await. Resolution decides between no, one and several bindings; linking and evaluation
    return and follow the order of the search; a body is started at most once under every interleaving of completions.

  \<^bold>\<open>Conventions.\<close> Pointers are indices or object identities, nil is \<open>None\<close>, a Go panic with a JavaScript error is \<open>Inl\<close>, \<open>Throw\<close> or
  \<open>Throws\<close>, and user code that the engine calls is an argument: an accessor call ends an operation of \<^verbatim>\<open>Objects\<close> and \<^verbatim>\<open>Arrays\<close> with the
  outcome \<open>CallGetter\<close> or \<open>CallSetter\<close>, a proxy with \<open>Delegate\<close>, and elsewhere user code is a field of an environment record that
  returns a result or an exception and changes the world. Loops whose end depends on the data are partial functions with an
  optional result, and the properties prove that they return. Fuel appears where the recursion of the code is bounded by
  the modules or the pairs of a module and a name not yet visited; the properties hold for every fuel above the number of
  these, so enough fuel gives the result. Machine limits that no program reaches in practice are named premises
  (\<^verbatim>\<open>machine_ok\<close>: a slice has fewer than \<open>2 ^ 62\<close> elements and a counter does not wrap to zero; \<^verbatim>\<open>good\<close>: a
  buffer has fewer than \<open>2 ^ 53\<close> bytes). For the compiler, \<^verbatim>\<open>fits\<close> says that the environment of the program and the one in which
  constants are folded agree on primitive values and that the global names \<^verbatim>\<open>TypeError\<close> and \<^verbatim>\<open>RangeError\<close> are the built-in ones, and \<^verbatim>\<open>tidy\<close>
  excludes the programs on which it is known to go wrong. Other conditions exclude what the lemmas below show to break the
  code: \<^verbatim>\<open>mem_ok\<close> that imported Go text is invalid UTF-8, \<^verbatim>\<open>safe_run\<close> that an array loses a property object from its count,
  \<^verbatim>\<open>uniform_slots\<close> that a property has parts of both kinds, \<^verbatim>\<open>plain_answer\<close> that the object a proxy's trap returns changes while it is
  read, \<^verbatim>\<open>plain_names\<close> and \<^verbatim>\<open>usual_names\<close> that the names of the typed array constructors run user code or are misleading. What Go leaves to the machine (the byte order, conversions of doubles out of range, addresses) is an argument.

  \<^bold>\<open>What modelling showed.\<close> Besides the properties there are lemmas, each on a concrete input, where the code departs from its
  intent: a frozen element lost from an array that turns sparse, accessor parts that survive a redefinition, values that
  are not canonical after \<^verbatim>\<open>++\<close>, equality and concatenation of invalid UTF-8, jumps that are patched into code that was
  never emitted or left unpatched in \<^verbatim>\<open>finally\<close>, an abandoned return that overwrites another, a proxy that reports what it
  did not check, modules that hang or forget an error, a namespace that refuses its own values, typed array methods
  that write outside their view or through nil or index a buffer that the name of a constructor detached, and dates before 1970
  on which setting the milliseconds is a second late.

  \<^bold>\<open>Not modelled.\<close> The parser and the scanner; functions, scopes, classes, patterns, property access and iteration in the compiler
  and the machine; generators and async functions; the methods of Array, String and most other built-in objects, which are
  glue over the modelled operations; regular expressions, which are delegated to other engines; the text formats of dates other than \<^verbatim>\<open>toISOString\<close>; the bridge to Go values,
  which is reflection; number formatting (\<^verbatim>\<open>ftoa/\<close>, an argument of the model) and the profiler; of the modelled files
  symbol-keyed properties (the same code as for strings), export to Go values and iterator objects.
\<close>

end
